(* ===== verification/Prelude.thy ===== *)
theory Prelude
  imports Main "HOL-Library.Word" "HOL-Library.List_Lexorder" "HOL-Library.AList"
    "HOL-Library.Multiset"
begin

text \<open>
  Shared vocabulary of the development: machine integers and byte strings, results with
  errors, little-endian codecs, checked slices, and the two map containers of the Rust code.
  A \<open>BTreeMap\<close> is an association list with strictly ascending keys, a \<open>HashMap\<close> an
  association list with distinct keys (its order is one iteration order the hasher may give,
  so a statement over every such list covers every order). The collections
  \<open>codec_simps\<close>, \<open>btree_simps\<close> and \<open>hash_simps\<close> carry the component proofs.
\<close>

unbundle bit_operations_syntax

named_theorems codec_simps \<open>byte codecs and checked slices\<close>
named_theorems btree_simps \<open>ordered maps\<close>
named_theorems hash_simps \<open>hash maps\<close>

section \<open>Machine integers, bytes and results\<close>

type_synonym u8 = "8 word"
type_synonym u16 = "16 word"
type_synonym u32 = "32 word"
type_synonym u64 = "64 word"
type_synonym bytes = "u8 list"

text \<open>
  The error type keeps the constructor of \<open>ContextraError\<close> and the fixed text of its message;
  interpolated values (paths, numbers) are left out of the text except where a variant has a
  field for them. \<open>Panic\<close> stands for a Rust panic (slice index out of range, arithmetic
  overflow in a checked position).
\<close>

datatype contextra_error =
    Internal string
  | InvalidInput string
  | Storage string
  | WalCorruption u64 string
  | ChecksumMismatch u64
  | Transaction string
  | MemoryBudgetExceeded u64 u64
  | Serialization string
  | ParseError string
  | LimitExceeded nat
  | Crypto string
  | PolicyViolation string
  | NotFound string
  | CheckpointNotFound
  | Conflict string
  | Timeout string u64
  | Panic string

type_synonym 'a res = "contextra_error + 'a"

definition rbind :: "'e + 'a \<Rightarrow> ('a \<Rightarrow> 'e + 'b) \<Rightarrow> 'e + 'b" where
  "rbind m f = (case m of Inl e \<Rightarrow> Inl e | Inr x \<Rightarrow> f x)"

definition ok_or :: "'e \<Rightarrow> 'a option \<Rightarrow> 'e + 'a" where
  "ok_or e m = (case m of None \<Rightarrow> Inl e | Some x \<Rightarrow> Inr x)"

lemma rbind_Inl [simp]: "rbind (Inl e) f = Inl e"
  by (simp add: rbind_def)

lemma rbind_Inr [simp]: "rbind (Inr x) f = f x"
  by (simp add: rbind_def)

lemma rbind_eq_Inr: "rbind m f = Inr y \<longleftrightarrow> (\<exists>x. m = Inr x \<and> f x = Inr y)"
  by (cases m) auto

lemma rbind_eq_Inl: "rbind m f = Inl e \<longleftrightarrow> m = Inl e \<or> (\<exists>x. m = Inr x \<and> f x = Inl e)"
  by (cases m) auto

lemma ok_or_Some [simp]: "ok_or e (Some x) = Inr x"
  by (simp add: ok_or_def)

lemma ok_or_None [simp]: "ok_or e None = Inl e"
  by (simp add: ok_or_def)

lemma ok_or_eq_Inr: "ok_or e m = Inr x \<longleftrightarrow> m = Some x"
  by (cases m) auto

lemma rbind_cong [fundef_cong]:
  "m = m' \<Longrightarrow> (\<And>x. m' = Inr x \<Longrightarrow> f x = f' x) \<Longrightarrow> rbind m f = rbind m' f'"
  by (cases m') auto

text \<open>A loop that collects results and stops at the first error.\<close>

fun rmap :: "('a \<Rightarrow> 'e + 'b) \<Rightarrow> 'a list \<Rightarrow> 'e + 'b list" where
  "rmap f [] = Inr []"
| "rmap f (x # xs) = rbind (f x) (\<lambda>y. rbind (rmap f xs) (\<lambda>ys. Inr (y # ys)))"

lemma rmap_Inr: "(\<And>x. x \<in> set xs \<Longrightarrow> f x = Inr (g x)) \<Longrightarrow> rmap f xs = Inr (map g xs)"
  by (induction xs) auto

lemma rmap_cong [fundef_cong]:
  "xs = ys \<Longrightarrow> (\<And>x. x \<in> set ys \<Longrightarrow> f x = g x) \<Longrightarrow> rmap f xs = rmap g ys"
  by (induction ys arbitrary: xs) auto

section \<open>Little-endian codecs\<close>

text \<open>\<open>to_le_bytes\<close> and \<open>from_le_bytes\<close> of the fixed-width integers.\<close>

primrec le_nat :: "nat \<Rightarrow> nat \<Rightarrow> bytes" where
  "le_nat 0 x = []"
| "le_nat (Suc n) x = of_nat (x mod 256) # le_nat n (x div 256)"

primrec of_le :: "bytes \<Rightarrow> nat" where
  "of_le [] = 0"
| "of_le (b # bs) = unat b + 256 * of_le bs"

definition u16_le :: "u16 \<Rightarrow> bytes" where "u16_le w = le_nat 2 (unat w)"
definition u32_le :: "u32 \<Rightarrow> bytes" where "u32_le w = le_nat 4 (unat w)"
definition u64_le :: "u64 \<Rightarrow> bytes" where "u64_le w = le_nat 8 (unat w)"

definition u16_of_le :: "bytes \<Rightarrow> u16" where "u16_of_le bs = of_nat (of_le bs)"
definition u32_of_le :: "bytes \<Rightarrow> u32" where "u32_of_le bs = of_nat (of_le bs)"
definition u64_of_le :: "bytes \<Rightarrow> u64" where "u64_of_le bs = of_nat (of_le bs)"

lemma unat_lt_pow: "unat (w :: 'a::len word) < 2 ^ LENGTH('a)"
  by (rule unsigned_less)

lemma length_le_nat [simp]: "length (le_nat n x) = n"
  by (induction n arbitrary: x) auto

lemma of_le_le_nat [codec_simps]: "of_le (le_nat n x) = x mod 256 ^ n"
proof (induction n arbitrary: x)
  case (Suc n)
  have "unat (of_nat (x mod 256) :: u8) = x mod 256"
    by (simp add: unat_of_nat)
  then show ?case
    by (simp add: Suc.IH mod_mult2_eq [of x 256 "256 ^ n"])
qed simp

lemma of_le_bound: "of_le bs < 256 ^ length bs"
proof (induction bs)
  case (Cons b bs)
  have "unat b < 256" using unat_lt_pow [of b] by simp
  with Cons.IH have "unat b + 256 * of_le bs < 256 * 256 ^ length bs"
    by linarith
  then show ?case by simp
qed simp

lemma le_nat_of_le: "le_nat (length bs) (of_le bs) = bs"
proof (induction bs)
  case (Cons b bs)
  have b: "unat b < 256" using unat_lt_pow [of b] by simp
  then have "(unat b + 256 * of_le bs) mod 256 = unat b" by simp
  moreover have "(unat b + 256 * of_le bs) div 256 = of_le bs" using b by simp
  ultimately show ?case using Cons.IH by simp
qed simp

lemma length_u_le [simp]:
  "length (u16_le a) = 2" "length (u32_le b) = 4" "length (u64_le c) = 8"
  by (simp_all add: u16_le_def u32_le_def u64_le_def)

lemma u16_of_le_u16_le [simp]: "u16_of_le (u16_le w) = w"
  using unat_lt_pow [of w] by (simp add: u16_of_le_def u16_le_def of_le_le_nat)

lemma u32_of_le_u32_le [simp]: "u32_of_le (u32_le w) = w"
  using unat_lt_pow [of w] by (simp add: u32_of_le_def u32_le_def of_le_le_nat)

lemma u64_of_le_u64_le [simp]: "u64_of_le (u64_le w) = w"
  using unat_lt_pow [of w] by (simp add: u64_of_le_def u64_le_def of_le_le_nat)

lemma u_le_inject [simp]:
  "u16_le a = u16_le a' \<longleftrightarrow> a = a'"
  "u32_le b = u32_le b' \<longleftrightarrow> b = b'"
  "u64_le c = u64_le c' \<longleftrightarrow> c = c'"
  by (metis u16_of_le_u16_le, metis u32_of_le_u32_le, metis u64_of_le_u64_le)

lemma unat_of_nat_u16: "n < 65536 \<Longrightarrow> unat (of_nat n :: u16) = n"
  by (simp add: unat_of_nat)

lemma unat_of_nat_u32: "n < 4294967296 \<Longrightarrow> unat (of_nat n :: u32) = n"
  by (simp add: unat_of_nat)

lemma unat_of_nat_u64: "n < 18446744073709551616 \<Longrightarrow> unat (of_nat n :: u64) = n"
  by (simp add: unat_of_nat)

section \<open>Checked slices\<close>

text \<open>\<open>s.get(a..b)\<close>, \<open>s.get(a..)\<close> and \<open>s.get(i)\<close> of a Rust slice.\<close>

definition get_slice :: "'a list \<Rightarrow> nat \<Rightarrow> nat \<Rightarrow> 'a list option" where
  "get_slice xs a b = (if a \<le> b \<and> b \<le> length xs then Some (take (b - a) (drop a xs)) else None)"

definition get_from :: "'a list \<Rightarrow> nat \<Rightarrow> 'a list option" where
  "get_from xs a = (if a \<le> length xs then Some (drop a xs) else None)"

definition get_at :: "'a list \<Rightarrow> nat \<Rightarrow> 'a option" where
  "get_at xs i = (if i < length xs then Some (xs ! i) else None)"

lemma get_slice_append [codec_simps]:
  "a = length pre \<Longrightarrow> b = a + length mid \<Longrightarrow> get_slice (pre @ mid @ post) a b = Some mid"
  by (simp add: get_slice_def)

lemma get_slice_pre [codec_simps]:
  "b = length mid \<Longrightarrow> get_slice (mid @ post) 0 b = Some mid"
  by (simp add: get_slice_def)

lemma get_slice_drop:
  "n \<le> a \<Longrightarrow> a \<le> b \<Longrightarrow> get_slice (drop n xs) (a - n) (b - n) = get_slice xs a b"
  if "n \<le> length xs"
  using that by (auto simp: get_slice_def)

lemma get_slice_shift [codec_simps]:
  "length pre \<le> a \<Longrightarrow> length pre \<le> b \<Longrightarrow>
     get_slice (pre @ xs) a b = get_slice xs (a - length pre) (b - length pre)"
  by (auto simp: get_slice_def)

lemma get_slice_Some_length: "get_slice xs a b = Some ys \<Longrightarrow> length ys = b - a"
  by (auto simp: get_slice_def split: if_splits)

lemma concat_map_split:
  "i < length xs \<Longrightarrow> concat (map f xs) =
     concat (map f (take i xs)) @ f (xs ! i) @ concat (map f (drop (Suc i) xs))"
  by (subst id_take_nth_drop) simp_all

lemma set_dropE:
  assumes "x \<in> set (drop n xs)" obtains j where "n \<le> j" "j < length xs" "x = xs ! j"
proof -
  from assms obtain i where "i < length (drop n xs)" "drop n xs ! i = x" unfolding in_set_conv_nth by blast
  then show thesis by (intro that [of "n + i"]) auto
qed

lemma set_takeE:
  assumes "x \<in> set (take n xs)" obtains j where "j < n" "j < length xs" "x = xs ! j"
proof -
  from assms obtain i where "i < length (take n xs)" "take n xs ! i = x" unfolding in_set_conv_nth by blast
  then show thesis by (intro that [of i]) auto
qed

definition starts_with :: "'a list \<Rightarrow> 'a list \<Rightarrow> bool" where
  "starts_with p k \<longleftrightarrow> take (length p) k = p"

lemma starts_with_append [simp]: "starts_with p (p @ q)"
  by (simp add: starts_with_def)

lemma starts_with_Nil [simp]: "starts_with [] k"
  by (simp add: starts_with_def)

lemma starts_with_Cons [simp]:
  "starts_with (a # p) (b # k) \<longleftrightarrow> a = b \<and> starts_with p k"
  "\<not> starts_with (a # p) []"
  by (auto simp: starts_with_def)

lemma starts_with_imp_le: "starts_with p k \<Longrightarrow> p \<le> (k :: 'a::linorder list)"
proof (induction p arbitrary: k)
  case (Cons a p)
  then show ?case by (cases k) auto
qed simp

text \<open>The keys with a given prefix are contiguous in the lexicographic order.\<close>

lemma starts_with_convex:
  "p \<le> k \<Longrightarrow> k \<le> k' \<Longrightarrow> starts_with p k' \<Longrightarrow> starts_with p (k :: 'a::linorder list)"
proof (induction p arbitrary: k k')
  case (Cons a p)
  then show ?case
  proof (cases k)
    case Nil
    with Cons.prems show ?thesis by simp
  next
    case (Cons b l)
    note k = Cons
    show ?thesis
    proof (cases k')
      case Nil
      with Cons.prems show ?thesis by simp
    next
      case (Cons c l')
      with Cons.prems k Cons.IH [of l l'] show ?thesis by auto
    qed
  qed
qed simp

section \<open>Ordered maps\<close>

text \<open>\<open>BTreeMap\<close>: lookup is \<^const>\<open>map_of\<close>, removal by predicate is \<^const>\<open>filter\<close>.\<close>

definition bt_wf :: "('k::linorder \<times> 'v) list \<Rightarrow> bool" where
  "bt_wf m \<longleftrightarrow> sorted_wrt (<) (map fst m)"

fun bt_insert :: "'k::linorder \<Rightarrow> 'v \<Rightarrow> ('k \<times> 'v) list \<Rightarrow> ('k \<times> 'v) list" where
  "bt_insert k v [] = [(k, v)]"
| "bt_insert k v (p # m) =
     (if fst p < k then p # bt_insert k v m
      else if fst p = k then (k, v) # m
      else (k, v) # p # m)"

lemma bt_wf_Nil [simp, btree_simps]: "bt_wf []"
  by (simp add: bt_wf_def)

lemma bt_wf_Cons [simp, btree_simps]:
  "bt_wf (p # m) \<longleftrightarrow> (\<forall>q\<in>set m. fst p < fst q) \<and> bt_wf m"
  by (auto simp: bt_wf_def)

lemma bt_wf_append [btree_simps]:
  "bt_wf (m @ n) \<longleftrightarrow> bt_wf m \<and> bt_wf n \<and> (\<forall>p\<in>set m. \<forall>q\<in>set n. fst p < fst q)"
  by (auto simp: bt_wf_def sorted_wrt_append)

lemma bt_wf_distinct: "bt_wf m \<Longrightarrow> distinct (map fst m)"
  by (auto simp: bt_wf_def strict_sorted_iff)

lemma bt_wf_filter [btree_simps]: "bt_wf m \<Longrightarrow> bt_wf (filter P m)"
  by (induction m) auto

lemma bt_wf_map_value [btree_simps]:
  "(\<And>p. p \<in> set m \<Longrightarrow> fst (f p) = fst p) \<Longrightarrow> bt_wf m \<Longrightarrow> bt_wf (map f m)"
  by (induction m) auto

lemma map_of_bt_insert [simp, btree_simps]:
  "bt_wf m \<Longrightarrow> map_of (bt_insert k v m) = (map_of m)(k \<mapsto> v)"
proof (induction m)
  case (Cons p m)
  from Cons.prems have IH: "map_of (bt_insert k v m) = (map_of m)(k \<mapsto> v)"
    by (intro Cons.IH) simp
  consider "fst p < k" | "fst p = k" | "k < fst p" by fastforce
  then show ?case
  proof cases
    case 3
    with Cons.prems show ?thesis by (cases p) (auto simp: fun_eq_iff)
  qed (cases p; auto simp: IH fun_eq_iff)+
qed (simp add: fun_eq_iff)

lemma set_bt_insert:
  "bt_wf m \<Longrightarrow> set (bt_insert k v m) = insert (k, v) {p \<in> set m. fst p \<noteq> k}"
proof (induction m)
  case (Cons p m)
  then have IH: "set (bt_insert k v m) = insert (k, v) {p \<in> set m. fst p \<noteq> k}" by simp
  consider "fst p < k" | "fst p = k" | "k < fst p" by fastforce
  then show ?case
  proof cases
    case 1
    with IH show ?thesis by auto
  next
    case 2
    with Cons.prems show ?thesis by auto
  next
    case 3
    with Cons.prems have "\<forall>q\<in>set m. fst q \<noteq> k" by force
    with 3 show ?thesis by auto
  qed
qed simp

lemma keys_bt_insert [simp]: "fst ` set (bt_insert k v m) = insert k (fst ` set m)"
  by (induction m) auto

lemma bt_wf_bt_insert [simp, btree_simps]: "bt_wf m \<Longrightarrow> bt_wf (bt_insert k v m)"
proof (induction m)
  case (Cons p m)
  have sub: "fst q \<in> insert k (fst ` set m)" if "q \<in> set (bt_insert k v m)" for q
    using that keys_bt_insert [of k v m] by (metis image_eqI)
  consider "fst p < k" | "fst p = k" | "k < fst p" by fastforce
  then show ?case
  proof cases
    case 1
    with Cons sub show ?thesis by fastforce
  next
    case 3
    with Cons show ?thesis by fastforce
  qed (use Cons in auto)
qed simp

lemma bt_wf_map_of_in: "bt_wf m \<Longrightarrow> (k, v) \<in> set m \<longleftrightarrow> map_of m k = Some v"
  using bt_wf_distinct by (simp add: bt_wf_distinct)

text \<open>An ordered map is determined by its lookup function.\<close>

lemma bt_wf_ext:
  assumes "bt_wf m" "bt_wf n" "map_of m = map_of n"
  shows "m = n"
proof -
  have "set m = set n"
    using assms by (auto simp: bt_wf_map_of_in)
  moreover have "sorted_wrt (\<lambda>p q. fst p < fst q) m" "sorted_wrt (\<lambda>p q. fst p < fst q) n"
    using assms by (simp_all add: bt_wf_def sorted_wrt_map)
  moreover have "asymp (\<lambda>p q :: 'a \<times> 'b. fst p < fst q)"
    by (auto simp: asymp_on_def)
  ultimately show ?thesis
  proof (induction m arbitrary: n)
    case (Cons p m)
    then obtain q n' where n: "n = q # n'" by (cases n) auto
    have "p = q"
    proof (rule ccontr)
      assume "p \<noteq> q"
      with Cons.prems n have "q \<in> set m" "p \<in> set n'" by auto
      with Cons.prems n have "fst p < fst q" "fst q < fst p" by auto
      then show False by simp
    qed
    moreover have "set m = set n'"
    proof -
      have "p \<notin> set m" "q \<notin> set n'" using Cons.prems n by auto
      with Cons.prems(1) n \<open>p = q\<close> show ?thesis by auto
    qed
    ultimately show ?case using Cons n by auto
  qed simp
qed

lemma map_of_filter_key [btree_simps]:
  "map_of (filter (\<lambda>p. P (fst p)) m) k = (if P k then map_of m k else None)"
  by (induction m) auto

text \<open>Concatenating ordered maps over ascending ranges of keys.\<close>

lemma bt_wf_concat:
  assumes "\<forall>i < length ms. bt_wf (ms ! i) \<and> (\<forall>e\<in>set (ms ! i). f (fst e) = j + i)"
    and mono: "\<And>k k'. k \<le> k' \<Longrightarrow> f k \<le> (f k' :: nat)"
  shows "bt_wf (concat ms)"
  using assms(1)
proof (induction ms arbitrary: j)
  case (Cons m ms)
  have tl: "bt_wf (ms ! i) \<and> (\<forall>e\<in>set (ms ! i). f (fst e) = Suc j + i)" if "i < length ms" for i
    using spec [OF Cons.prems, of "Suc i"] that by simp
  have hd: "bt_wf m" "\<forall>e\<in>set m. f (fst e) = j" using spec [OF Cons.prems, of 0] by simp_all
  have "fst e < fst e'" if "e \<in> set m" "n \<in> set ms" "e' \<in> set n" for e n e'
  proof -
    from that(2,3) tl have "j < f (fst e')" by (metis in_set_conv_nth less_add_Suc1 add_Suc)
    with hd(2) that(1) have "\<not> f (fst e') \<le> f (fst e)" by simp
    with mono [of "fst e'" "fst e"] show ?thesis by (meson not_le)
  qed
  with hd(1) Cons.IH [of "Suc j"] tl show ?case by (auto simp: bt_wf_append)
qed simp

section \<open>Folds of minima and maxima\<close>

lemma fold_min_Min: "fold min xs a = Min (insert a (set (xs :: 'a::linorder list)))"
  using Min.set_eq_fold [of a xs] by simp

lemma fold_max_Max: "fold max xs a = Max (insert a (set (xs :: 'a::linorder list)))"
  using Max.set_eq_fold [of a xs] by simp

section \<open>Hash maps\<close>

text \<open>\<open>HashMap\<close>: \<open>insert\<close> is \<^const>\<open>AList.update\<close>, \<open>remove\<close> is \<^const>\<open>AList.delete\<close>.\<close>

abbreviation hm_wf :: "('k \<times> 'v) list \<Rightarrow> bool" where
  "hm_wf m \<equiv> distinct (map fst m)"

lemmas [simp, hash_simps] = AList.update_conv' AList.delete_conv' AList.distinct_update
  AList.distinct_delete

lemma hm_wf_filter [hash_simps]: "hm_wf m \<Longrightarrow> hm_wf (filter P m)"
  by (induction m) auto

lemma map_of_filter_hm [hash_simps]:
  "hm_wf m \<Longrightarrow> map_of (filter P m) k =
     (case map_of m k of None \<Rightarrow> None | Some v \<Rightarrow> if P (k, v) then Some v else None)"
proof (induction m)
  case (Cons p m)
  then show ?case
    by (cases p) (auto split: option.splits simp: map_of_eq_None_iff image_iff)
qed simp

section \<open>Last match of a list\<close>

text \<open>\<open>iter_mut().rfind(p)\<close> followed by an update of the element found.\<close>

fun upd_first :: "('a \<Rightarrow> bool) \<Rightarrow> ('a \<Rightarrow> 'a) \<Rightarrow> 'a list \<Rightarrow> 'a list option" where
  "upd_first p f [] = None"
| "upd_first p f (x # xs) =
     (if p x then Some (f x # xs) else map_option ((#) x) (upd_first p f xs))"

definition upd_last :: "('a \<Rightarrow> bool) \<Rightarrow> ('a \<Rightarrow> 'a) \<Rightarrow> 'a list \<Rightarrow> 'a list option" where
  "upd_last p f xs = map_option rev (upd_first p f (rev xs))"

lemma upd_first_None: "upd_first p f xs = None \<longleftrightarrow> (\<forall>x\<in>set xs. \<not> p x)"
  by (induction xs) auto

lemma upd_first_Some:
  "upd_first p f xs = Some ys \<Longrightarrow>
     \<exists>pre x post. xs = pre @ x # post \<and> p x \<and> (\<forall>y\<in>set pre. \<not> p y) \<and> ys = pre @ f x # post"
proof (induction xs arbitrary: ys)
  case (Cons a xs)
  show ?case
  proof (cases "p a")
    case True
    with Cons.prems show ?thesis by (auto intro!: exI [of _ "[]"])
  next
    case False
    with Cons.prems obtain zs where zs: "upd_first p f xs = Some zs" "ys = a # zs" by auto
    from Cons.IH [OF zs(1)] obtain pre x post where
      "xs = pre @ x # post" "p x" "\<forall>y\<in>set pre. \<not> p y" "zs = pre @ f x # post" by blast
    with False zs(2) show ?thesis
      by (intro exI [of _ "a # pre"] exI [of _ x] exI [of _ post]) auto
  qed
qed simp

lemma upd_last_None: "upd_last p f xs = None \<longleftrightarrow> (\<forall>x\<in>set xs. \<not> p x)"
  by (simp add: upd_last_def upd_first_None)

lemma upd_last_Some:
  assumes "upd_last p f xs = Some ys"
  obtains pre x post where "xs = pre @ x # post" "p x" "\<forall>y\<in>set post. \<not> p y"
    "ys = pre @ f x # post"
proof -
  from assms obtain zs where zs: "upd_first p f (rev xs) = Some zs" "ys = rev zs"
    by (auto simp: upd_last_def)
  from upd_first_Some [OF zs(1)] obtain pre x post where
    *: "rev xs = pre @ x # post" "p x" "\<forall>y\<in>set pre. \<not> p y" "zs = pre @ f x # post" by blast
  from *(1) have "xs = rev post @ x # rev pre"
    by (metis append.assoc append_Cons append_Nil rev.simps(2) rev_append rev_rev_ident)
  with * zs(2) show ?thesis
    by (intro that [of "rev post" x "rev pre"]) auto
qed

section \<open>Binary search\<close>

text \<open>\<open>slice::binary_search_by\<close> of the standard library: halving of the window \<open>[base, base + size)\<close>.\<close>

function bsearch_window :: "('k::linorder) list \<Rightarrow> 'k \<Rightarrow> nat \<Rightarrow> nat \<Rightarrow> nat" where
  "bsearch_window ks x base len =
     (if len \<le> 1 then base
      else let half = len div 2; mid = base + half
           in bsearch_window ks x (if x < ks ! mid then base else mid) (len - half))"
  by pat_completeness auto
termination
  by (relation "measure (\<lambda>(ks, x, base, len). len)") auto

declare bsearch_window.simps [simp del]

definition binary_search :: "('k::linorder) list \<Rightarrow> 'k \<Rightarrow> nat + nat" where
  "binary_search ks x =
     (if ks = [] then Inl 0
      else let base = bsearch_window ks x 0 (length ks)
           in if ks ! base = x then Inr base
              else Inl (base + (if ks ! base < x then 1 else 0)))"

lemma bsearch_window_bounds:
  assumes "sorted ks" "base + len \<le> length ks" "0 < len"
    and "base = 0 \<or> ks ! base \<le> x" "\<forall>i. base + len \<le> i \<and> i < length ks \<longrightarrow> x < ks ! i"
  shows "let b = bsearch_window ks x base len
         in b < length ks \<and> (b = 0 \<or> ks ! b \<le> x) \<and> (\<forall>i. b < i \<and> i < length ks \<longrightarrow> x < ks ! i)"
  using assms
proof (induction ks x base len rule: bsearch_window.induct)
  case (1 ks x base len)
  show ?case
  proof (cases "len \<le> 1")
    case True
    with "1.prems" show ?thesis
      by (subst bsearch_window.simps) (auto simp: Let_def less_eq_Suc_le)
  next
    case False
    define half where "half = len div 2"
    define mid where "mid = base + half"
    define base' where "base' = (if x < ks ! mid then base else mid)"
    have h: "0 < half" "half < len" "half \<le> len - half" using False by (auto simp: half_def)
    have step: "bsearch_window ks x base len = bsearch_window ks x base' (len - half)"
      using False by (subst bsearch_window.simps) (simp add: Let_def half_def mid_def base'_def)
    have up: "\<forall>i. base' + (len - half) \<le> i \<and> i < length ks \<longrightarrow> x < ks ! i"
    proof (intro allI impI)
      fix i assume i: "base' + (len - half) \<le> i \<and> i < length ks"
      show "x < ks ! i"
      proof (cases "x < ks ! mid")
        case True
        then have "base + (len - half) \<le> i" using i by (simp add: base'_def)
        then have "mid \<le> i" using h(3) unfolding mid_def by linarith
        then have "ks ! mid \<le> ks ! i" using "1.prems"(1) i by (simp add: sorted_nth_mono)
        with True show ?thesis by order
      next
        case False
        then have "base + len \<le> i" using i h by (simp add: base'_def mid_def)
        with "1.prems"(5) i show ?thesis by blast
      qed
    qed
    have "base' + (len - half) \<le> length ks" using "1.prems"(2) h by (auto simp: base'_def mid_def)
    moreover have "base' = 0 \<or> ks ! base' \<le> x" using "1.prems"(4) by (auto simp: base'_def)
    ultimately show ?thesis
      unfolding step
      by (intro "1.IH" [OF False half_def mid_def, folded base'_def] "1.prems"(1) up) (use h in auto)
  qed
qed

text \<open>On a strictly ascending list both outcomes are the first position not below the target.\<close>

definition insertion_point :: "nat + nat \<Rightarrow> nat" where
  "insertion_point r = (case r of Inl i \<Rightarrow> i | Inr i \<Rightarrow> i)"

lemma binary_search_point:
  assumes sw: "sorted_wrt (<) ks" and i: "i = insertion_point (binary_search ks x)"
  shows "i \<le> length ks" "\<forall>j < i. ks ! j < x" "\<forall>j. i \<le> j \<and> j < length ks \<longrightarrow> x \<le> ks ! j"
proof -
  have s: "sorted ks" using sw by (simp add: strict_sorted_iff)
  have "i \<le> length ks \<and> (\<forall>j < i. ks ! j < x) \<and> (\<forall>j. i \<le> j \<and> j < length ks \<longrightarrow> x \<le> ks ! j)"
  proof (cases "ks = []")
    case True
    with i show ?thesis by (simp add: insertion_point_def binary_search_def)
  next
    case False
    define b where "b = bsearch_window ks x 0 (length ks)"
    have "\<forall>i. 0 + length ks \<le> i \<and> i < length ks \<longrightarrow> x < ks ! i" by auto
    from bsearch_window_bounds [OF s _ _ _ this] False
    have b: "b < length ks" "b = 0 \<or> ks ! b \<le> x" "\<forall>i. b < i \<and> i < length ks \<longrightarrow> x < ks ! i"
      unfolding b_def Let_def by auto
    have ib: "i = b + (if ks ! b < x then 1 else 0)"
      using i False by (auto simp: insertion_point_def binary_search_def b_def Let_def)
    have below: "ks ! j < ks ! b" if "j < b" for j
      using sw b(1) that by (simp add: sorted_wrt_nth_less)
    have above: "x \<le> ks ! j" if "b < j" "j < length ks" for j
      using b(3) that by (simp add: less_imp_le)
    show ?thesis
    proof (cases "ks ! b < x")
      case True
      then have "ks ! j < x" if "j < Suc b" for j
        using below [of j] that by (cases "j = b") auto
      with True b(1) above ib show ?thesis by auto
    next
      case False
      have "ks ! j < x" if "j < b" for j using below [OF that] b(2) that by auto
      moreover have "x \<le> ks ! j" if "b \<le> j" "j < length ks" for j
        using False above [of j] that by (cases "j = b") auto
      ultimately show ?thesis using False b(1) ib by auto
    qed
  qed
  then show "i \<le> length ks" "\<forall>j < i. ks ! j < x" "\<forall>j. i \<le> j \<and> j < length ks \<longrightarrow> x \<le> ks ! j"
    by blast+
qed

end
