(* ===== verification/Types.thy ===== *)
theory Types
  imports Prelude
begin

text \<open>
  Constants and newtypes of \<open>crates/contextra-types\<close> that the storage layer shares:
  the tombstone bit of a sequence number (\<open>types/domain/misc.rs\<close>, \<open>tombstone.rs\<close>) and the
  transaction-id ranges (\<open>types/domain/ids.rs\<close>).
\<close>

section \<open>Tombstones\<close>

definition TOMBSTONE_BIT :: u64 where
  "TOMBSTONE_BIT = push_bit 63 1"

text \<open>\<open>seq & !TOMBSTONE_BIT\<close>, the logical sequence number.\<close>

definition raw_seq :: "u64 \<Rightarrow> u64" where
  "raw_seq seq = seq AND NOT TOMBSTONE_BIT"

definition is_tombstone :: "u64 \<Rightarrow> bool" where
  "is_tombstone seq \<longleftrightarrow> seq AND TOMBSTONE_BIT \<noteq> 0"

definition tomb_check :: "u64 \<Rightarrow> u8 \<Rightarrow> bool" where
  "tomb_check seq flags \<longleftrightarrow> seq AND TOMBSTONE_BIT \<noteq> 0 \<or> flags AND 1 \<noteq> 0"

definition make_tombstone :: "u64 \<Rightarrow> bytes" where
  "make_tombstone seq = u64_le (seq OR TOMBSTONE_BIT)"

lemma bit_TOMBSTONE_BIT: "bit TOMBSTONE_BIT n \<longleftrightarrow> n = 63"
proof (cases "n < 64")
  case True
  then show ?thesis
    unfolding TOMBSTONE_BIT_def bit_push_bit_iff by (auto simp: bit_1_iff)
next
  case False
  then have "\<not> bit TOMBSTONE_BIT n" using bit_imp_le_length [of TOMBSTONE_BIT n] by auto
  with False show ?thesis by simp
qed

lemma is_tombstone_bit: "is_tombstone s \<longleftrightarrow> bit s 63"
proof -
  have "s AND TOMBSTONE_BIT = (if bit s 63 then TOMBSTONE_BIT else 0)"
    by (rule bit_word_eqI) (auto simp: bit_and_iff bit_TOMBSTONE_BIT)
  moreover have "TOMBSTONE_BIT \<noteq> 0"
    by (metis bit_0_eq bit_TOMBSTONE_BIT bot_apply bot_bool_def)
  ultimately show ?thesis by (simp add: is_tombstone_def)
qed

lemma raw_seq_tomb [simp]: "raw_seq (s OR TOMBSTONE_BIT) = raw_seq s"
  unfolding raw_seq_def
  by (rule bit_word_eqI) (auto simp: bit_and_iff bit_or_iff bit_not_iff bit_TOMBSTONE_BIT)

lemma raw_seq_idem [simp]: "raw_seq (raw_seq s) = raw_seq s"
  unfolding raw_seq_def
  by (rule bit_word_eqI) (auto simp: bit_and_iff bit_not_iff)

lemma is_tombstone_mark [simp]: "is_tombstone (s OR TOMBSTONE_BIT)"
  by (simp add: is_tombstone_bit bit_or_iff bit_TOMBSTONE_BIT)

lemma not_is_tombstone_raw [simp]: "\<not> is_tombstone (raw_seq s)"
  by (simp add: is_tombstone_bit raw_seq_def bit_and_iff bit_not_iff bit_TOMBSTONE_BIT)

lemma raw_seq_live: "\<not> is_tombstone s \<Longrightarrow> raw_seq s = s"
  unfolding raw_seq_def
  by (rule bit_word_eqI) (auto simp: is_tombstone_bit bit_and_iff bit_not_iff bit_TOMBSTONE_BIT)

lemma raw_seq_le: "raw_seq s \<le> s"
  by (simp add: raw_seq_def word_and_le2)

lemma raw_seq_eq_iff: "raw_seq s = s \<longleftrightarrow> \<not> is_tombstone s"
  using raw_seq_live not_is_tombstone_raw by metis

section \<open>Identifiers and clocks\<close>

text \<open>Instants and durations are natural numbers of nanoseconds on a monotonic clock.\<close>

type_synonym doc_id = u64
type_synonym instant = nat
type_synonym duration = nat

text \<open>A version of a key as the store passes it on: key, value, sequence number, transaction.\<close>

type_synonym kv_entry = "bytes \<times> bytes \<times> u64 \<times> u64"

section \<open>Key bounds\<close>

text \<open>\<open>std::ops::Bound\<close> on keys.\<close>

datatype key_bound = Included bytes | Excluded bytes | Unbounded

fun above :: "key_bound \<Rightarrow> bytes \<Rightarrow> bool" where
  "above (Included s) k = (s \<le> k)"
| "above (Excluded s) k = (s < k)"
| "above Unbounded k = True"

fun below :: "key_bound \<Rightarrow> bytes \<Rightarrow> bool" where
  "below (Included e) k = (k \<le> e)"
| "below (Excluded e) k = (k < e)"
| "below Unbounded k = True"

section \<open>Transaction ids\<close>

type_synonym tx_id = u64

definition MAX_COLLECTION_SEQUENCE :: u64 where
  "MAX_COLLECTION_SEQUENCE = 1000000000000"

definition INTERNAL_BASE :: u64 where
  "INTERNAL_BASE = - 1 - 1000000"

definition tx_internal :: tx_id where
  "tx_internal = INTERNAL_BASE"

text \<open>\<open>checked_add\<close> on \<open>u64\<close>.\<close>

definition try_from_internal_offset :: "u64 \<Rightarrow> tx_id res" where
  "try_from_internal_offset offset =
     (if unat INTERNAL_BASE + unat offset < 2 ^ 64 then Inr (INTERNAL_BASE + offset)
      else Inl (Transaction ''Internal TxId allocation offset overflows u64::MAX''))"

definition is_valid_origin :: "tx_id \<Rightarrow> bool" where
  "is_valid_origin tx \<longleftrightarrow> tx \<le> MAX_COLLECTION_SEQUENCE \<or> INTERNAL_BASE \<le> tx"

text \<open>The visibility test that every read path applies to the transaction of a version.\<close>

definition tx_visible :: "u64 \<Rightarrow> u64 \<Rightarrow> bool" where
  "tx_visible max_tx tx \<longleftrightarrow> tx \<le> max_tx \<or> INTERNAL_BASE \<le> tx"

lemma tx_visible_mono: "tx_visible m tx \<Longrightarrow> m \<le> m' \<Longrightarrow> tx_visible m' tx"
  by (auto simp: tx_visible_def)

lemma unat_INTERNAL_BASE: "unat INTERNAL_BASE = 2 ^ 64 - 1 - 1000000"
  by (simp add: INTERNAL_BASE_def)

lemma try_from_internal_offset_origin:
  "try_from_internal_offset off = Inr tx \<Longrightarrow> is_valid_origin tx \<and> INTERNAL_BASE \<le> tx"
  by (auto simp: try_from_internal_offset_def is_valid_origin_def word_le_nat_alt
      unat_word_ariths split: if_splits)

end
