(* ===== verification/Snapshot_Registry.thy ===== *)
theory Snapshot_Registry
  imports Types
begin

text \<open>
  The registry of read snapshots, \<open>crates/contextra-mvcc/src/snapshot.rs\<close>: reference counts per
  sequence number in an ordered map and the cached minimum that compaction reads. Every operation
  runs under the registry's mutex, so a history of the registry is a sequence of whole
  operations; the step relation below has one rule per operation and keeps the multiset of
  outstanding registrations (live guards and pins) as a ghost. Reference counts are natural
  numbers: a count reaches \<open>usize::MAX\<close> only with as many live guards.
\<close>

section \<open>Data and operations\<close>

record snapshot_registry =
  sr_active :: "(u64 \<times> nat) list"
  sr_min_active_seqno :: u64

record snapshot_guard =
  sg_seq_no :: u64

definition snapshot_registry_new :: snapshot_registry where
  "snapshot_registry_new = \<lparr>sr_active = [], sr_min_active_seqno = - 1\<rparr>"

definition update_min :: "snapshot_registry \<Rightarrow> snapshot_registry" where
  "update_min R = R\<lparr>sr_min_active_seqno := (case sr_active R of [] \<Rightarrow> - 1 | p # _ \<Rightarrow> fst p)\<rparr>"

text \<open>\<open>*active.entry(seq_no).or_default() += 1\<close>\<close>

definition incr_active :: "u64 \<Rightarrow> (u64 \<times> nat) list \<Rightarrow> (u64 \<times> nat) list" where
  "incr_active s m = bt_insert s (Suc (case map_of m s of None \<Rightarrow> 0 | Some c \<Rightarrow> c)) m"

definition snapshot_pin :: "u64 \<Rightarrow> snapshot_registry \<Rightarrow> snapshot_registry" where
  "snapshot_pin seq_no R =
     (let s = raw_seq seq_no in update_min (R\<lparr>sr_active := incr_active s (sr_active R)\<rparr>))"

definition snapshot_register ::
    "u64 \<Rightarrow> snapshot_registry \<Rightarrow> snapshot_guard \<times> snapshot_registry" where
  "snapshot_register seq_no R =
     (let s = raw_seq seq_no
      in (\<lparr>sg_seq_no = s\<rparr>, update_min (R\<lparr>sr_active := incr_active s (sr_active R)\<rparr>)))"

definition snapshot_release :: "u64 \<Rightarrow> snapshot_registry \<Rightarrow> snapshot_registry" where
  "snapshot_release seq_no R =
     (let s = raw_seq seq_no;
          m = (case map_of (sr_active R) s of
                 None \<Rightarrow> sr_active R
               | Some c \<Rightarrow>
                   (if c - 1 = 0 then filter (\<lambda>p. fst p \<noteq> s) (sr_active R)
                    else bt_insert s (c - 1) (sr_active R)))
      in update_min (R\<lparr>sr_active := m\<rparr>))"

definition snapshot_unpin :: "u64 \<Rightarrow> snapshot_registry \<Rightarrow> snapshot_registry" where
  "snapshot_unpin seq_no R = snapshot_release seq_no R"

definition guard_drop :: "snapshot_guard \<Rightarrow> snapshot_registry \<Rightarrow> snapshot_registry" where
  "guard_drop g R = snapshot_release (sg_seq_no g) R"

section \<open>Reachable registries\<close>

inductive reg_reach :: "u64 multiset \<Rightarrow> snapshot_registry \<Rightarrow> bool" where
  reg_new: "reg_reach {#} snapshot_registry_new"
| reg_register: "reg_reach H R \<Longrightarrow> snapshot_register s R = (g, R') \<Longrightarrow>
    reg_reach (add_mset (sg_seq_no g) H) R'"
| reg_pin: "reg_reach H R \<Longrightarrow> reg_reach (add_mset (raw_seq s) H) (snapshot_pin s R)"
| reg_drop: "reg_reach H R \<Longrightarrow> sg_seq_no g \<in># H \<Longrightarrow>
    reg_reach (H - {#sg_seq_no g#}) (guard_drop g R)"
| reg_unpin: "reg_reach H R \<Longrightarrow> reg_reach (H - {#raw_seq s#}) (snapshot_unpin s R)"

text \<open>The counts are the multiplicities of the outstanding registrations.\<close>

definition reg_counts :: "u64 multiset \<Rightarrow> (u64 \<times> nat) list \<Rightarrow> bool" where
  "reg_counts H m \<longleftrightarrow> bt_wf m \<and>
     (\<forall>k. map_of m k = (if k \<in># H then Some (count H k) else None))"

definition reg_min :: "(u64 \<times> nat) list \<Rightarrow> u64" where
  "reg_min m = (case m of [] \<Rightarrow> - 1 | p # _ \<Rightarrow> fst p)"

lemma update_min_simps [simp]:
  "sr_active (update_min R) = sr_active R"
  "sr_min_active_seqno (update_min R) = reg_min (sr_active R)"
  by (simp_all add: update_min_def reg_min_def)

lemma reg_counts_incr: "reg_counts H m \<Longrightarrow> reg_counts (add_mset s H) (incr_active s m)"
  by (auto simp: reg_counts_def incr_active_def count_eq_zero_iff)

lemma reg_counts_decr:
  assumes "reg_counts H m"
  shows "reg_counts (H - {#s#}) (case map_of m s of
     None \<Rightarrow> m
   | Some c \<Rightarrow> if c - 1 = 0 then filter (\<lambda>p. fst p \<noteq> s) m else bt_insert s (c - 1) m)"
proof (cases "s \<in># H")
  case False
  with assms show ?thesis by (simp add: reg_counts_def)
next
  case True
  with assms have m: "bt_wf m" "map_of m s = Some (count H s)" "count H s > 0"
    by (simp_all add: reg_counts_def)
  have mem: "k \<in># H - {#s#} \<longleftrightarrow> (if k = s then count H s > 1 else k \<in># H)" for k
    by (auto simp: count_greater_zero_iff [symmetric] simp del: count_greater_zero_iff)
  show ?thesis
  proof (cases "count H s = 1")
    case True
    have "map_of (filter (\<lambda>p. fst p \<noteq> s) m) k = (if k \<noteq> s then map_of m k else None)" for k
      using map_of_filter_key [of "\<lambda>k. k \<noteq> s" m k] by simp
    with True m assms mem show ?thesis by (auto simp: reg_counts_def bt_wf_filter)
  next
    case False
    with m(3) have "count H s > 1" "count H s - 1 \<noteq> 0" by linarith+
    with m assms mem show ?thesis by (auto simp: reg_counts_def)
  qed
qed

text \<open>Guards hold masked sequence numbers, so dropping one releases its own registration.\<close>

lemma reg_reach_masked: "reg_reach H R \<Longrightarrow> x \<in># H \<Longrightarrow> raw_seq x = x"
proof (induction rule: reg_reach.induct)
  case (reg_register H R s g R')
  then show ?case by (auto simp: snapshot_register_def Let_def)
qed (auto dest: in_diffD)

lemma reg_reach_inv:
  "reg_reach H R \<Longrightarrow>
     reg_counts H (sr_active R) \<and> sr_min_active_seqno R = reg_min (sr_active R)"
proof (induction rule: reg_reach.induct)
  case reg_new
  show ?case by (simp add: snapshot_registry_new_def reg_counts_def reg_min_def)
next
  case (reg_register H R s g R')
  then show ?case by (auto simp: snapshot_register_def Let_def intro: reg_counts_incr)
next
  case (reg_pin H R s)
  then show ?case by (simp add: snapshot_pin_def Let_def reg_counts_incr)
next
  case (reg_drop H R g)
  then show ?case
    using reg_counts_decr [of H "sr_active R" "sg_seq_no g"] reg_reach_masked [of H R "sg_seq_no g"]
    by (simp add: guard_drop_def snapshot_release_def Let_def)
next
  case (reg_unpin H R s)
  then show ?case
    using reg_counts_decr [of H "sr_active R" "raw_seq s"]
    by (simp add: snapshot_unpin_def snapshot_release_def Let_def)
qed

lemma reg_min_Min:
  assumes "reg_counts H m" shows "reg_min m = (if H = {#} then - 1 else Min_mset H)"
proof -
  have "dom (map_of m) = set_mset H"
    using assms by (auto simp: reg_counts_def dom_def)
  then have dom: "fst ` set m = set_mset H" by (simp add: dom_map_of_conv_image_fst)
  show ?thesis
  proof (cases m)
    case Nil
    with dom have "H = {#}" by (metis empty_set image_empty set_mset_eq_empty_iff)
    with Nil show ?thesis by (simp add: reg_min_def)
  next
    case (Cons p m')
    have "Min (fst ` set m) = fst p"
      using assms Cons by (intro Min_eqI) (auto simp: reg_counts_def intro: less_imp_le)
    with dom Cons show ?thesis by (auto simp: reg_min_def)
  qed
qed

section \<open>Properties\<close>

text \<open>
  C18. In every reachable registry the cached minimum is the least outstanding registration,
  and \<open>u64::MAX\<close> when there is none: no live guard or pin is ever below the bound that
  compaction reads, and the bound does not lag once the oldest reader is gone.
\<close>

theorem min_active_seqno_exact:
  assumes "reg_reach H R"
  shows "sr_min_active_seqno R = (if H = {#} then - 1 else Min_mset H)"
  using reg_reach_inv [OF assms] reg_min_Min by simp

theorem min_active_seqno_exact_witness:
  "sr_min_active_seqno (guard_drop \<lparr>sg_seq_no = 3\<rparr>
     (snapshot_pin 5 (snd (snapshot_register 3 snapshot_registry_new)))) = 5"
proof -
  have raw: "raw_seq 3 = 3" "raw_seq 5 = 5" by (simp_all add: raw_seq_def TOMBSTONE_BIT_def)
  have "reg_reach {#3#} (snd (snapshot_register 3 snapshot_registry_new))"
    using reg_register [OF reg_new, of 3] by (simp add: snapshot_register_def Let_def raw)
  from reg_pin [OF this, of 5]
  have "reg_reach {#5, 3#} (snapshot_pin 5 (snd (snapshot_register 3 snapshot_registry_new)))"
    by (simp add: raw)
  from min_active_seqno_exact [OF reg_drop [OF this, of "\<lparr>sg_seq_no = 3\<rparr>"]]
  show ?thesis by simp
qed

end
