(* ===== verification/Seq_Log.thy ===== *)
theory Seq_Log
  imports Types
begin

text \<open>
  The versioned sequence log of \<open>crates/contextra-mvcc/src/seq_log.rs\<close>: every operation of
  \<open>SequenceLog\<close>, the chain invariant its entries keep when the sequence numbers of each
  document do not decrease, the refinement of \<open>is_visible\<close> to the history of recorded changes, and the safety of
  \<open>compact\<close> and of the delta that \<open>changes_since\<close> returns.
\<close>

section \<open>Data\<close>

record seq_log_entry =
  sle_doc_id :: doc_id
  sle_insert_seq :: u64
  sle_delete_seq :: "u64 option"

datatype seq_log_change = ChInsert doc_id u64 | ChDelete doc_id u64

fun change_seq :: "seq_log_change \<Rightarrow> u64" where
  "change_seq (ChInsert d s) = s"
| "change_seq (ChDelete d s) = s"

fun change_doc_id :: "seq_log_change \<Rightarrow> doc_id" where
  "change_doc_id (ChInsert d s) = d"
| "change_doc_id (ChDelete d s) = d"

record sequence_log =
  sl_entries :: "seq_log_entry list"
  sl_pinned_snapshots :: "(u64 \<times> instant list) list"
  sl_compacted_below :: "u64 option"
  sl_deletions :: "(doc_id \<times> u64) list"
  sl_max_pin_duration :: duration

definition default_max_pin_duration :: duration where
  "default_max_pin_duration = 300 * 1000000000"

section \<open>Operations\<close>

definition seq_log_new :: sequence_log where
  "seq_log_new = \<lparr>sl_entries = [], sl_pinned_snapshots = [], sl_compacted_below = None,
     sl_deletions = [], sl_max_pin_duration = default_max_pin_duration\<rparr>"

definition set_max_pin_duration :: "duration \<Rightarrow> sequence_log \<Rightarrow> sequence_log" where
  "set_max_pin_duration dur L = L\<lparr>sl_max_pin_duration := dur\<rparr>"

definition pin_snapshot_at :: "u64 \<Rightarrow> instant \<Rightarrow> sequence_log \<Rightarrow> sequence_log" where
  "pin_snapshot_at seq_no at L =
     (let ts = (case map_of (sl_pinned_snapshots L) seq_no of None \<Rightarrow> [] | Some ts \<Rightarrow> ts)
      in L\<lparr>sl_pinned_snapshots := AList.update seq_no (ts @ [at]) (sl_pinned_snapshots L)\<rparr>)"

text \<open>\<open>Vec::pop\<close> drops the last timestamp; an emptied bucket is removed.\<close>

definition unpin_snapshot :: "u64 \<Rightarrow> sequence_log \<Rightarrow> sequence_log" where
  "unpin_snapshot seq_no L =
     (case map_of (sl_pinned_snapshots L) seq_no of
        None \<Rightarrow> L
      | Some timestamps \<Rightarrow>
          (let ts = butlast timestamps
           in if ts = []
              then L\<lparr>sl_pinned_snapshots := AList.delete seq_no (sl_pinned_snapshots L)\<rparr>
              else L\<lparr>sl_pinned_snapshots := AList.update seq_no ts (sl_pinned_snapshots L)\<rparr>))"

definition expired_pins_at :: "instant \<Rightarrow> sequence_log \<Rightarrow> u64 list" where
  "expired_pins_at now L =
     sort (map fst (filter (\<lambda>(s, timestamps). \<exists>ts\<in>set timestamps. now - ts > sl_max_pin_duration L)
       (sl_pinned_snapshots L)))"

definition min_retention_seq :: "sequence_log \<Rightarrow> u64 option" where
  "min_retention_seq L =
     (case map fst (sl_pinned_snapshots L) of
        [] \<Rightarrow> None
      | k # ks \<Rightarrow> Some (fold min ks k))"

definition deletion_seq :: "doc_id \<Rightarrow> sequence_log \<Rightarrow> u64 option" where
  "deletion_seq doc L = map_of (sl_deletions L) doc"

definition is_open_entry :: "doc_id \<Rightarrow> seq_log_entry \<Rightarrow> bool" where
  "is_open_entry doc e \<longleftrightarrow> sle_doc_id e = doc \<and> sle_delete_seq e = None"

definition record_insert :: "doc_id \<Rightarrow> u64 \<Rightarrow> sequence_log \<Rightarrow> sequence_log" where
  "record_insert doc seq L =
     (let es = (case upd_last (is_open_entry doc) (\<lambda>e. e\<lparr>sle_delete_seq := Some seq\<rparr>) (sl_entries L)
                of None \<Rightarrow> sl_entries L | Some es \<Rightarrow> es)
      in L\<lparr>sl_deletions := AList.delete doc (sl_deletions L),
           sl_entries := es @ [\<lparr>sle_doc_id = doc, sle_insert_seq = seq, sle_delete_seq = None\<rparr>]\<rparr>)"

definition record_delete :: "doc_id \<Rightarrow> u64 \<Rightarrow> sequence_log \<Rightarrow> sequence_log" where
  "record_delete doc seq L =
     (case upd_last (is_open_entry doc) (\<lambda>e. e\<lparr>sle_delete_seq := Some seq\<rparr>) (sl_entries L) of
        None \<Rightarrow> L
      | Some es \<Rightarrow>
          L\<lparr>sl_entries := es, sl_deletions := AList.update doc seq (sl_deletions L)\<rparr>)"

definition visible_step ::
    "doc_id \<Rightarrow> u64 \<Rightarrow> bool \<times> bool \<Rightarrow> seq_log_entry \<Rightarrow> bool \<times> bool" where
  "visible_step doc seq_no acc e =
     (if sle_doc_id e = doc \<and> sle_insert_seq e \<le> seq_no
      then (True, (case sle_delete_seq e of Some del \<Rightarrow> del \<le> seq_no | None \<Rightarrow> False))
      else acc)"

definition is_visible :: "doc_id \<Rightarrow> u64 \<Rightarrow> sequence_log \<Rightarrow> bool" where
  "is_visible doc seq_no L =
     (let (inserted, deleted) = foldl (visible_step doc seq_no) (False, False) (sl_entries L)
      in inserted \<and> \<not> deleted)"

definition seq_log_compact :: "u64 \<Rightarrow> sequence_log \<Rightarrow> sequence_log" where
  "seq_log_compact min_active L =
     L\<lparr>sl_compacted_below := Some (case sl_compacted_below L of
          None \<Rightarrow> min_active | Some c \<Rightarrow> max c min_active),
       sl_entries := filter (\<lambda>e. case sle_delete_seq e of
          Some del \<Rightarrow> min_active \<le> del | None \<Rightarrow> True) (sl_entries L),
       sl_deletions := filter (\<lambda>(d, del). min_active \<le> del) (sl_deletions L)\<rparr>"

definition seq_log_len :: "sequence_log \<Rightarrow> nat" where
  "seq_log_len L = length (sl_entries L)"

definition entry_changes :: "u64 \<Rightarrow> seq_log_entry \<Rightarrow> seq_log_change list" where
  "entry_changes snapshot_seq e =
     (if snapshot_seq < sle_insert_seq e then [ChInsert (sle_doc_id e) (sle_insert_seq e)] else []) @
     (case sle_delete_seq e of
        Some del \<Rightarrow> if snapshot_seq < del then [ChDelete (sle_doc_id e) del] else []
      | None \<Rightarrow> [])"

definition changes_since :: "u64 \<Rightarrow> sequence_log \<Rightarrow> seq_log_change list" where
  "changes_since snapshot_seq L =
     sort_key change_seq (concat (map (entry_changes snapshot_seq) (sl_entries L)))"

section \<open>The chain invariant\<close>

text \<open>
  Two entries of one document: the earlier one is closed no later than the later one starts.
  All sequence numbers of a document \<open>d\<close> are at most \<open>hi d\<close>, the last one recorded for it.
\<close>

definition sle_chain :: "seq_log_entry \<Rightarrow> seq_log_entry \<Rightarrow> bool" where
  "sle_chain e e' \<longleftrightarrow>
     (sle_doc_id e = sle_doc_id e' \<longrightarrow> (\<exists>x. sle_delete_seq e = Some x \<and> x \<le> sle_insert_seq e'))"

definition sle_ok :: "(doc_id \<Rightarrow> u64) \<Rightarrow> seq_log_entry \<Rightarrow> bool" where
  "sle_ok hi e \<longleftrightarrow> sle_insert_seq e \<le> hi (sle_doc_id e) \<and>
     (\<forall>x. sle_delete_seq e = Some x \<longrightarrow> sle_insert_seq e \<le> x \<and> x \<le> hi (sle_doc_id e))"

definition seq_log_inv :: "(doc_id \<Rightarrow> u64) \<Rightarrow> sequence_log \<Rightarrow> bool" where
  "seq_log_inv hi L \<longleftrightarrow> (\<forall>e\<in>set (sl_entries L). sle_ok hi e) \<and> sorted_wrt sle_chain (sl_entries L)"

lemma sle_ok_mono: "sle_ok hi e \<Longrightarrow> hi d \<le> seq \<Longrightarrow> sle_ok (hi(d := seq)) e"
  by (auto simp: sle_ok_def)

lemma seq_log_inv_new: "seq_log_inv hi seq_log_new"
  by (simp add: seq_log_inv_def seq_log_new_def)

text \<open>Closing the open entry of a document keeps the invariant.\<close>

lemma close_open_entry:
  assumes upd: "upd_last (is_open_entry doc) (\<lambda>e. e\<lparr>sle_delete_seq := Some seq\<rparr>) es = Some es'"
    and ok: "\<forall>e\<in>set es. sle_ok hi e" and chain: "sorted_wrt sle_chain es" and le: "hi doc \<le> seq"
  shows "(\<forall>e\<in>set es'. sle_ok (hi(doc := seq)) e) \<and> sorted_wrt sle_chain es' \<and>
         (\<forall>e\<in>set es'. sle_doc_id e = doc \<longrightarrow> (\<exists>x. sle_delete_seq e = Some x \<and> x \<le> seq))"
proof -
  from upd obtain pre x post where split: "es = pre @ x # post" "is_open_entry doc x"
    "\<forall>y\<in>set post. \<not> is_open_entry doc y"
    "es' = pre @ x\<lparr>sle_delete_seq := Some seq\<rparr> # post"
    by (rule upd_last_Some)
  have post: "\<forall>y\<in>set post. sle_doc_id y \<noteq> doc"
    using chain split(1,2) by (auto simp: sorted_wrt_append sle_chain_def is_open_entry_def)
  have pre: "\<exists>d. sle_delete_seq y = Some d \<and> d \<le> sle_insert_seq x"
    if "y \<in> set pre" "sle_doc_id y = doc" for y
    using chain split(1,2) that by (auto simp: sorted_wrt_append sle_chain_def is_open_entry_def)
  have x: "sle_doc_id x = doc" "sle_insert_seq x \<le> seq"
    using split(1,2) ok le by (auto simp: is_open_entry_def sle_ok_def)
  have "\<forall>e\<in>set es'. sle_ok (hi(doc := seq)) e"
    using ok split(1,4) le x by (auto intro: sle_ok_mono) (auto simp: sle_ok_def)
  moreover have "sorted_wrt sle_chain es'"
    using chain split(1,4) post x(1) by (auto simp: sorted_wrt_append sle_chain_def)
  moreover have "\<forall>e\<in>set es'. sle_doc_id e = doc \<longrightarrow> (\<exists>x. sle_delete_seq e = Some x \<and> x \<le> seq)"
    using split(4) post x by (auto dest!: pre dest: order_trans)
  ultimately show ?thesis by blast
qed

lemma no_open_entry:
  assumes "upd_last (is_open_entry doc) f es = None" and "\<forall>e\<in>set es. sle_ok hi e"
  shows "\<forall>e\<in>set es. sle_doc_id e = doc \<longrightarrow> (\<exists>x. sle_delete_seq e = Some x \<and> x \<le> hi doc)"
  using assms by (auto simp: upd_last_None is_open_entry_def sle_ok_def)

text \<open>The entries after closing whatever is open for the document.\<close>

definition close_doc :: "doc_id \<Rightarrow> u64 \<Rightarrow> seq_log_entry list \<Rightarrow> seq_log_entry list" where
  "close_doc doc seq es =
     (case upd_last (is_open_entry doc) (\<lambda>e. e\<lparr>sle_delete_seq := Some seq\<rparr>) es
      of None \<Rightarrow> es | Some es' \<Rightarrow> es')"

lemma close_doc_inv:
  assumes "\<forall>e\<in>set es. sle_ok hi e" "sorted_wrt sle_chain es" "hi doc \<le> seq"
  shows "\<forall>e\<in>set (close_doc doc seq es). sle_ok (hi(doc := seq)) e"
    "sorted_wrt sle_chain (close_doc doc seq es)"
    "\<forall>e\<in>set (close_doc doc seq es). sle_doc_id e = doc \<longrightarrow>
       (\<exists>x. sle_delete_seq e = Some x \<and> x \<le> seq)"
proof -
  let ?u = "upd_last (is_open_entry doc) (\<lambda>e. e\<lparr>sle_delete_seq := Some seq\<rparr>) es"
  have "(\<forall>e\<in>set (close_doc doc seq es). sle_ok (hi(doc := seq)) e) \<and>
    sorted_wrt sle_chain (close_doc doc seq es) \<and>
    (\<forall>e\<in>set (close_doc doc seq es). sle_doc_id e = doc \<longrightarrow>
       (\<exists>x. sle_delete_seq e = Some x \<and> x \<le> seq))"
  proof (cases ?u)
    case None
    have "\<forall>e\<in>set es. sle_doc_id e = doc \<longrightarrow> (\<exists>x. sle_delete_seq e = Some x \<and> x \<le> seq)"
      using no_open_entry [OF None assms(1)] assms(3) by (meson order_trans)
    moreover have "\<forall>e\<in>set es. sle_ok (hi(doc := seq)) e" using assms(1,3) by (blast intro: sle_ok_mono)
    ultimately show ?thesis using None assms(2) by (simp add: close_doc_def)
  next
    case (Some es')
    with close_open_entry [OF Some assms] show ?thesis by (simp add: close_doc_def)
  qed
  then show "\<forall>e\<in>set (close_doc doc seq es). sle_ok (hi(doc := seq)) e"
    "sorted_wrt sle_chain (close_doc doc seq es)"
    "\<forall>e\<in>set (close_doc doc seq es). sle_doc_id e = doc \<longrightarrow>
       (\<exists>x. sle_delete_seq e = Some x \<and> x \<le> seq)" by blast+
qed

lemma record_insert_entries:
  "sl_entries (record_insert doc seq L) = close_doc doc seq (sl_entries L) @
     [\<lparr>sle_doc_id = doc, sle_insert_seq = seq, sle_delete_seq = None\<rparr>]"
  by (simp add: record_insert_def close_doc_def Let_def)

lemma record_delete_entries:
  "sl_entries (record_delete doc seq L) = close_doc doc seq (sl_entries L)"
  by (simp add: record_delete_def close_doc_def split: option.splits)

lemma record_insert_inv:
  assumes "seq_log_inv hi L" "hi doc \<le> seq"
  shows "seq_log_inv (hi(doc := seq)) (record_insert doc seq L)"
  using assms close_doc_inv [of "sl_entries L" hi doc seq]
  by (auto simp: seq_log_inv_def record_insert_entries sorted_wrt_append sle_chain_def sle_ok_def)

lemma record_delete_inv:
  assumes "seq_log_inv hi L" "hi doc \<le> seq"
  shows "seq_log_inv (hi(doc := seq)) (record_delete doc seq L)"
  using assms close_doc_inv [of "sl_entries L" hi doc seq]
  by (simp add: seq_log_inv_def record_delete_entries)

lemma sorted_wrt_filterI: "sorted_wrt R xs \<Longrightarrow> sorted_wrt R (filter P xs)"
  by (induction xs) auto

lemma seq_log_compact_inv: "seq_log_inv hi L \<Longrightarrow> seq_log_inv hi (seq_log_compact m L)"
  by (auto simp: seq_log_inv_def seq_log_compact_def intro: sorted_wrt_filterI)

section \<open>Visibility\<close>

text \<open>\<open>is_visible\<close> looks at the last entry of the document that starts at or before the snapshot.\<close>

abbreviation sees :: "doc_id \<Rightarrow> u64 \<Rightarrow> seq_log_entry \<Rightarrow> bool" where
  "sees doc s e \<equiv> sle_doc_id e = doc \<and> sle_insert_seq e \<le> s"

definition live_at :: "u64 \<Rightarrow> seq_log_entry \<Rightarrow> bool" where
  "live_at s e \<longleftrightarrow> (case sle_delete_seq e of None \<Rightarrow> True | Some del \<Rightarrow> s < del)"

lemma foldl_visible_step:
  "foldl (visible_step doc s) (False, False) es =
     (let fs = filter (sees doc s) es in (fs \<noteq> [], fs \<noteq> [] \<and> \<not> live_at s (last fs)))"
proof (induction es rule: rev_induct)
  case (snoc e es)
  then show ?case
    by (auto simp: visible_step_def live_at_def Let_def not_less split: option.splits)
qed simp

lemma is_visible_last:
  "is_visible doc s L \<longleftrightarrow>
     (let fs = filter (sees doc s) (sl_entries L) in fs \<noteq> [] \<and> live_at s (last fs))"
  by (auto simp: is_visible_def foldl_visible_step Let_def)

lemma is_visible_empty: "filter (sees doc s) (sl_entries L) = [] \<Longrightarrow> \<not> is_visible doc s L"
  by (simp add: is_visible_last Let_def)

lemma chain_before_last:
  assumes "sorted_wrt sle_chain es" "fs = filter (sees doc s) es" "e \<in> set fs" "e \<noteq> last fs"
  shows "\<exists>x. sle_delete_seq e = Some x \<and> x \<le> sle_insert_seq (last fs)"
proof -
  have sw: "sorted_wrt sle_chain fs" using assms(1,2) by (simp add: sorted_wrt_filterI)
  have "fs \<noteq> []" using assms(3) by auto
  then have "fs = butlast fs @ [last fs]" by simp
  moreover from this assms(3,4) have "e \<in> set (butlast fs)"
    by (metis Un_iff empty_iff list.set(1) list.set(2) insert_iff set_append)
  ultimately have "sle_chain e (last fs)"
    using sw by (metis list.set_intros(1) sorted_wrt_append)
  moreover have "sle_doc_id e = doc" "sle_doc_id (last fs) = doc"
    using assms(2,3) last_in_set [OF \<open>fs \<noteq> []\<close>] by auto
  ultimately show ?thesis by (simp add: sle_chain_def)
qed

text \<open>Compaction below \<open>m\<close> is invisible to every snapshot at or above \<open>m\<close>.\<close>

lemma compact_preserves_visibility:
  assumes inv: "seq_log_inv hi L" and le: "m \<le> s"
  shows "is_visible doc s (seq_log_compact m L) = is_visible doc s L"
proof -
  define keep where "keep = (\<lambda>e :: seq_log_entry. case sle_delete_seq e of Some del \<Rightarrow> m \<le> del | None \<Rightarrow> True)"
  define fs where "fs = filter (sees doc s) (sl_entries L)"
  have compacted: "filter (sees doc s) (sl_entries (seq_log_compact m L)) = filter keep fs"
    by (simp add: seq_log_compact_def keep_def fs_def conj_commute)
  show ?thesis
  proof (cases "fs = []")
    case True
    with compacted show ?thesis by (simp add: is_visible_last fs_def [symmetric])
  next
    case False
    then have split: "fs = butlast fs @ [last fs]" by simp
    show ?thesis
    proof (cases "keep (last fs)")
      case True
      have "filter keep fs = filter keep (butlast fs) @ [last fs]"
        using True by (subst split) (simp only: filter_append filter.simps if_True)
      then have "filter keep fs \<noteq> [] \<and> last (filter keep fs) = last fs" by simp
      with compacted False show ?thesis by (simp add: is_visible_last fs_def [symmetric] Let_def)
    next
      case drop: False
      then obtain x where x: "sle_delete_seq (last fs) = Some x" "x < m"
        by (auto simp: keep_def not_le split: option.splits)
      have last_in: "last fs \<in> set (sl_entries L)"
        using last_in_set [OF False] by (simp add: fs_def)
      have "\<not> keep e" if "e \<in> set fs" for e
      proof (cases "e = last fs")
        case False
        with that inv obtain y where y: "sle_delete_seq e = Some y" "y \<le> sle_insert_seq (last fs)"
          using chain_before_last [OF _ fs_def] by (auto simp: seq_log_inv_def)
        have "sle_insert_seq (last fs) \<le> x"
          using inv last_in x(1) by (auto simp: seq_log_inv_def sle_ok_def)
        with y x(2) show ?thesis by (simp add: keep_def)
      qed (use drop in simp)
      then have "filter keep fs = []" by (simp add: filter_empty_conv)
      moreover have "\<not> live_at s (last fs)" using x le by (simp add: live_at_def)
      ultimately show ?thesis
        using compacted False by (simp add: is_visible_last fs_def [symmetric] Let_def)
    qed
  qed
qed

section \<open>Refinement of the recorded history\<close>

text \<open>
  The abstract log is the list of recorded changes. A document is visible at \<open>s\<close> when the last
  change of that document up to \<open>s\<close> is an insertion.
\<close>

fun is_insert_change :: "seq_log_change \<Rightarrow> bool" where
  "is_insert_change (ChInsert d s) = True"
| "is_insert_change (ChDelete d s) = False"

definition history_visible :: "doc_id \<Rightarrow> u64 \<Rightarrow> seq_log_change list \<Rightarrow> bool" where
  "history_visible doc s h =
     (let cs = filter (\<lambda>c. change_doc_id c = doc \<and> change_seq c \<le> s) h
      in cs \<noteq> [] \<and> is_insert_change (last cs))"

text \<open>
  The contract a change log offers its clients (the vector, text and graph indexes keep one log
  each): a stream of insertions and deletions that does
  not go back in the sequence numbers of a document keeps the invariant, and visibility
  changes at the recorded sequence number and nowhere else.
\<close>

fun log_step :: "(doc_id \<Rightarrow> u64 \<Rightarrow> 'l \<Rightarrow> 'l) \<Rightarrow> (doc_id \<Rightarrow> u64 \<Rightarrow> 'l \<Rightarrow> 'l) \<Rightarrow>
    seq_log_change \<Rightarrow> 'l \<Rightarrow> 'l" where
  "log_step ins del (ChInsert d s) l = ins d s l"
| "log_step ins del (ChDelete d s) l = del d s l"

definition doc_changes :: "doc_id \<Rightarrow> seq_log_change list \<Rightarrow> seq_log_change list" where
  "doc_changes d h = filter (\<lambda>c. change_doc_id c = d) h"

definition history_top :: "seq_log_change list \<Rightarrow> doc_id \<Rightarrow> u64" where
  "history_top h d = (if doc_changes d h = [] then 0 else change_seq (last (doc_changes d h)))"

lemma history_top_Nil: "history_top [] = (\<lambda>d. 0)"
  by (simp add: history_top_def doc_changes_def fun_eq_iff)

lemma history_top_snoc:
  "history_top (h @ [c]) = (history_top h)(change_doc_id c := change_seq c)"
  by (auto simp: history_top_def doc_changes_def fun_eq_iff)

locale change_log =
  fixes new_log :: 'l
    and ins :: "doc_id \<Rightarrow> u64 \<Rightarrow> 'l \<Rightarrow> 'l"
    and del :: "doc_id \<Rightarrow> u64 \<Rightarrow> 'l \<Rightarrow> 'l"
    and vis :: "doc_id \<Rightarrow> u64 \<Rightarrow> 'l \<Rightarrow> bool"
    and inv :: "(doc_id \<Rightarrow> u64) \<Rightarrow> 'l \<Rightarrow> bool"
  assumes inv_new: "inv (\<lambda>d. 0) new_log"
    and inv_ins: "inv hi l \<Longrightarrow> hi d \<le> seq \<Longrightarrow> inv (hi(d := seq)) (ins d seq l)"
    and inv_del: "inv hi l \<Longrightarrow> hi d \<le> seq \<Longrightarrow> inv (hi(d := seq)) (del d seq l)"
    and vis_new: "\<not> vis doc s new_log"
    and vis_ins: "inv hi l \<Longrightarrow> hi d \<le> seq \<Longrightarrow>
      vis doc s (ins d seq l) = (if d = doc \<and> seq \<le> s then True else vis doc s l)"
    and vis_del: "inv hi l \<Longrightarrow> hi d \<le> seq \<Longrightarrow>
      vis doc s (del d seq l) = (if d = doc \<and> seq \<le> s then False else vis doc s l)"
begin

lemma step_inv: "inv hi l \<Longrightarrow> hi (change_doc_id c) \<le> change_seq c \<Longrightarrow>
    inv (hi(change_doc_id c := change_seq c)) (log_step ins del c l)"
  by (cases c) (auto intro: inv_ins inv_del)

lemma step_vis:
  "inv hi l \<Longrightarrow> hi (change_doc_id c) \<le> change_seq c \<Longrightarrow>
     vis doc s (log_step ins del c l) =
       (if change_doc_id c = doc \<and> change_seq c \<le> s then is_insert_change c else vis doc s l)"
  by (cases c) (auto simp: vis_ins vis_del)

lemma run_refines:
  "\<forall>d. sorted (map change_seq (doc_changes d h)) \<Longrightarrow>
     inv (history_top h) (fold (log_step ins del) h new_log) \<and>
     (\<forall>doc s. vis doc s (fold (log_step ins del) h new_log) = history_visible doc s h)"
proof (induction h rule: rev_induct)
  case Nil
  show ?case by (simp add: inv_new vis_new history_visible_def history_top_Nil)
next
  case (snoc c h)
  have srt: "sorted (map change_seq (doc_changes d h))" for d
    using spec [OF snoc.prems, of d] by (auto simp: doc_changes_def sorted_append split: if_splits)
  have "\<forall>x\<in>set (doc_changes (change_doc_id c) h). change_seq x \<le> change_seq c"
    using spec [OF snoc.prems, of "change_doc_id c"] by (simp add: doc_changes_def sorted_append)
  then have le: "history_top h (change_doc_id c) \<le> change_seq c"
    by (simp add: history_top_def)
  from snoc.IH srt have IH: "inv (history_top h) (fold (log_step ins del) h new_log)"
    "\<And>doc s. vis doc s (fold (log_step ins del) h new_log) = history_visible doc s h"
    by auto
  show ?case
    using step_inv [OF IH(1) le] step_vis [OF IH(1) le] IH(2)
    by (auto simp: history_top_snoc fun_upd_def history_visible_def Let_def)
qed

end

lemma close_doc_sees:
  shows sees_close_doc: "filter (sees doc s) (close_doc d seq es) = [] \<longleftrightarrow>
      filter (sees doc s) es = []"
    and live_close_doc: "d \<noteq> doc \<or> s < seq \<Longrightarrow> filter (sees doc s) es \<noteq> [] \<Longrightarrow>
      live_at s (last (filter (sees doc s) (close_doc d seq es))) =
      live_at s (last (filter (sees doc s) es))"
proof -
  let ?f = "\<lambda>e. e\<lparr>sle_delete_seq := Some seq\<rparr>"
  let ?fs = "filter (sees doc s) es" and ?gs = "filter (sees doc s) (close_doc d seq es)"
  have *: "(?gs = [] \<longleftrightarrow> ?fs = []) \<and>
    (d \<noteq> doc \<or> s < seq \<longrightarrow> ?fs \<noteq> [] \<longrightarrow> live_at s (last ?gs) = live_at s (last ?fs))"
  proof (cases "upd_last (is_open_entry d) ?f es")
    case None
    then show ?thesis by (simp add: close_doc_def)
  next
    case (Some es')
    then obtain pre x post where split: "es = pre @ x # post" "is_open_entry d x"
      "es' = pre @ ?f x # post" by (rule upd_last_Some)
    have g: "?gs = filter (sees doc s) pre @ (if sees doc s x then [?f x] else []) @
        filter (sees doc s) post"
      using Some split(3) by (simp add: close_doc_def)
    have f: "?fs = filter (sees doc s) pre @ (if sees doc s x then [x] else []) @
        filter (sees doc s) post"
      using split(1) by simp
    have "live_at s (?f x) = live_at s x" if "sees doc s x" "d \<noteq> doc \<or> s < seq"
      using that split(2) by (auto simp: live_at_def is_open_entry_def)
    then show ?thesis unfolding f g by (auto simp: last_append)
  qed
  show "?gs = [] \<longleftrightarrow> ?fs = []" using * by blast
  show "d \<noteq> doc \<or> s < seq \<Longrightarrow> ?fs \<noteq> [] \<Longrightarrow> live_at s (last ?gs) = live_at s (last ?fs)"
    using * by blast
qed

lemma record_insert_visible:
  assumes inv: "seq_log_inv hi L" and le: "hi d \<le> seq"
  shows "is_visible doc s (record_insert d seq L) =
     (if d = doc \<and> seq \<le> s then True else is_visible doc s L)"
proof (cases "d = doc \<and> seq \<le> s")
  case True
  then show ?thesis
    by (simp add: is_visible_last record_insert_entries live_at_def Let_def)
next
  case False
  from False have "d \<noteq> doc \<or> s < seq" by auto
  then show ?thesis
    using False sees_close_doc live_close_doc
    by (auto simp: is_visible_last record_insert_entries Let_def)
qed

lemma record_delete_visible:
  assumes inv: "seq_log_inv hi L" and le: "hi d \<le> seq"
  shows "is_visible doc s (record_delete d seq L) =
     (if d = doc \<and> seq \<le> s then False else is_visible doc s L)"
proof (cases "d = doc \<and> seq \<le> s")
  case True
  define gs where "gs = filter (sees doc s) (close_doc d seq (sl_entries L))"
  have closed: "\<forall>e\<in>set (close_doc d seq (sl_entries L)). sle_doc_id e = d \<longrightarrow>
      (\<exists>x. sle_delete_seq e = Some x \<and> x \<le> seq)"
    using inv le close_doc_inv(3) by (auto simp: seq_log_inv_def)
  have "\<not> live_at s e" if "e \<in> set gs" for e
  proof -
    from that closed True obtain x where "sle_delete_seq e = Some x" "x \<le> seq"
      by (auto simp: gs_def)
    with True show ?thesis by (auto simp: live_at_def not_less)
  qed
  then have "gs = [] \<or> \<not> live_at s (last gs)" by auto
  with True show ?thesis
    by (auto simp: is_visible_last record_delete_entries gs_def Let_def)
next
  case False
  from False have "d \<noteq> doc \<or> s < seq" by auto
  then show ?thesis
    using False sees_close_doc live_close_doc
    by (auto simp: is_visible_last record_delete_entries Let_def)
qed

interpretation seq_log: change_log seq_log_new record_insert record_delete is_visible seq_log_inv
proof unfold_locales
  show "\<not> is_visible doc s seq_log_new" for doc s
    by (simp add: is_visible_def seq_log_new_def)
qed (auto intro: record_insert_inv record_delete_inv
      simp: seq_log_inv_new record_insert_visible record_delete_visible)

definition run_changes :: "seq_log_change list \<Rightarrow> sequence_log" where
  "run_changes h = fold (log_step record_insert record_delete) h seq_log_new"

section \<open>Delta replay\<close>

fun apply_delta :: "seq_log_change \<Rightarrow> doc_id set \<Rightarrow> doc_id set" where
  "apply_delta (ChInsert d s) S = insert d S"
| "apply_delta (ChDelete d s) S = S - {d}"

lemma mem_fold_apply_delta:
  "d \<in> fold apply_delta cs S \<longleftrightarrow>
     (let ds = filter (\<lambda>c. change_doc_id c = d) cs
      in if ds = [] then d \<in> S else is_insert_change (last ds))"
proof (induction cs rule: rev_induct)
  case (snoc c cs)
  then show ?case by (cases c) (auto simp: Let_def)
qed simp

lemma entry_changes_doc: "c \<in> set (entry_changes s e) \<Longrightarrow> change_doc_id c = sle_doc_id e"
  by (auto simp: entry_changes_def split: if_splits option.splits)

lemma filter_entry_changes:
  "filter (\<lambda>c. change_doc_id c = d) (concat (map (entry_changes s) es)) =
     concat (map (entry_changes s) (filter (\<lambda>e. sle_doc_id e = d) es))"
proof (induction es)
  case (Cons e es)
  have "filter (\<lambda>c. change_doc_id c = d) (entry_changes s e) =
      (if sle_doc_id e = d then entry_changes s e else [])"
    using entry_changes_doc [of _ s e] by (auto simp: filter_empty_conv intro!: filter_True)
  with Cons show ?case by simp
qed simp

lemma sorted_entry_changes:
  assumes "sorted_wrt sle_chain es" "\<forall>e\<in>set es. sle_ok hi e \<and> sle_doc_id e = d"
  shows "sorted (map change_seq (concat (map (entry_changes s) es)))"
  using assms
proof (induction es)
  case (Cons e es)
  have below: "change_seq c \<le> change_seq c'"
    if "c \<in> set (entry_changes s e)" "e' \<in> set es" "c' \<in> set (entry_changes s e')" for c c' e'
  proof -
    have "sle_chain e e'" "sle_doc_id e = sle_doc_id e'" using Cons.prems that(2) by simp_all
    then obtain x where x: "sle_delete_seq e = Some x" "x \<le> sle_insert_seq e'"
      by (auto simp: sle_chain_def)
    have "sle_insert_seq e \<le> x" using Cons.prems(2) x(1) by (simp add: sle_ok_def)
    then have "change_seq c \<le> x" using that(1) x(1) by (auto simp: entry_changes_def split: if_splits)
    moreover have "sle_insert_seq e' \<le> change_seq c'"
      using that(2,3) Cons.prems(2)
      by (auto simp: entry_changes_def sle_ok_def split: if_splits option.splits)
    ultimately show ?thesis using x(2) by order
  qed
  have "sorted (map change_seq (entry_changes s e))"
    using Cons.prems(2) by (auto simp: entry_changes_def sle_ok_def split: option.splits)
  with Cons below show ?case by (auto simp: sorted_append)
qed simp

lemma filter_changes_since:
  assumes "seq_log_inv hi L"
  shows "filter (\<lambda>c. change_doc_id c = d) (changes_since s L) =
     concat (map (entry_changes s) (filter (\<lambda>e. sle_doc_id e = d) (sl_entries L)))"
proof -
  let ?es = "filter (\<lambda>e. sle_doc_id e = d) (sl_entries L)"
  have "sorted (map change_seq (concat (map (entry_changes s) ?es)))"
    using assms
    by (intro sorted_entry_changes [of _ hi d]) (auto simp: seq_log_inv_def sorted_wrt_filterI)
  then show ?thesis
    by (simp add: changes_since_def filter_sort filter_entry_changes sort_key_id_if_sorted)
qed

lemma changes_since_replay:
  assumes inv: "seq_log_inv hi L"
  shows "fold apply_delta (changes_since s L) {d. is_visible d s L} = {d. is_visible d (- 1) L}"
proof (rule set_eqI, simp)
  fix d
  define es where "es = filter (\<lambda>e. sle_doc_id e = d) (sl_entries L)"
  have vis: "is_visible d t L \<longleftrightarrow>
      (let fs = filter (\<lambda>e. sle_insert_seq e \<le> t) es in fs \<noteq> [] \<and> live_at t (last fs))" for t
    by (simp add: is_visible_last es_def conj_commute)
  have mem: "d \<in> fold apply_delta (changes_since s L) {d. is_visible d s L} \<longleftrightarrow>
      (let ds = concat (map (entry_changes s) es)
       in if ds = [] then is_visible d s L else is_insert_change (last ds))"
    by (simp only: mem_fold_apply_delta filter_changes_since [OF inv] es_def mem_Collect_eq)
  show "d \<in> fold apply_delta (changes_since s L) {d. is_visible d s L} \<longleftrightarrow> is_visible d (- 1) L"
  proof (cases "es = []")
    case True
    with mem vis show ?thesis by simp
  next
    case False
    then obtain pre e where split: "es = pre @ [e]" by (metis rev_exhaust)
    have chain: "sorted_wrt sle_chain es" and ok: "\<forall>e\<in>set es. sle_ok hi e"
      and doc: "\<forall>e\<in>set es. sle_doc_id e = d"
      using inv by (auto simp: seq_log_inv_def es_def sorted_wrt_filterI)
    have pre: "\<exists>x. sle_delete_seq p = Some x \<and> sle_insert_seq p \<le> x \<and> x \<le> sle_insert_seq e"
      if "p \<in> set pre" for p
      using that chain ok doc split by (auto simp: sorted_wrt_append sle_chain_def sle_ok_def)
    have top: "is_visible d (- 1) L \<longleftrightarrow> sle_delete_seq e = None"
      by (simp add: vis split live_at_def split: option.splits)
    show ?thesis
    proof (cases "entry_changes s e = []")
      case False
      then have "last (entry_changes s e) = (case sle_delete_seq e of
          None \<Rightarrow> ChInsert d (sle_insert_seq e) | Some x \<Rightarrow> ChDelete d x)"
        using ok doc split by (auto simp: entry_changes_def sle_ok_def split: option.splits if_splits)
      with False mem top split show ?thesis by (auto split: option.splits)
    next
      case True
      then have e: "sle_insert_seq e \<le> s" "\<forall>x. sle_delete_seq e = Some x \<longrightarrow> x \<le> s"
        by (auto simp: entry_changes_def not_less split: option.splits if_splits)
      have "entry_changes s p = []" if "p \<in> set pre" for p
        using pre [OF that] e(1) by (auto simp: entry_changes_def not_less)
      then have "concat (map (entry_changes s) es) = []" using True split by simp
      moreover have "is_visible d s L \<longleftrightarrow> sle_delete_seq e = None"
        using e by (auto simp: vis split live_at_def not_less split: option.splits)
      ultimately show ?thesis using mem top by simp
    qed
  qed
qed

section \<open>Pins\<close>

lemma min_retention_seq_le:
  assumes "min_retention_seq L = Some m" "p \<in> fst ` set (sl_pinned_snapshots L)"
  shows "m \<le> p"
proof -
  have "finite (fst ` set (sl_pinned_snapshots L))" by simp
  moreover have "m = Min (fst ` set (sl_pinned_snapshots L))"
    using assms(1) by (auto simp: min_retention_seq_def fold_min_Min split: list.splits)
  ultimately show ?thesis using assms(2) by simp
qed

lemma min_retention_seq_None:
  "min_retention_seq L = None \<longleftrightarrow> sl_pinned_snapshots L = []"
  by (auto simp: min_retention_seq_def split: list.splits)

definition pin_count :: "u64 \<Rightarrow> sequence_log \<Rightarrow> nat" where
  "pin_count s L = (case map_of (sl_pinned_snapshots L) s of None \<Rightarrow> 0 | Some ts \<Rightarrow> length ts)"

lemma pin_count_pin:
  "pin_count t (pin_snapshot_at s at L) = pin_count t L + (if t = s then 1 else 0)"
  by (auto simp: pin_count_def pin_snapshot_at_def Let_def split: option.splits)

lemma pin_count_unpin:
  "pin_count t (unpin_snapshot s L) = pin_count t L - (if t = s then 1 else 0)"
proof (cases "map_of (sl_pinned_snapshots L) s")
  case (Some ts)
  have "length (butlast ts) = length ts - 1" by simp
  then have "butlast ts = [] \<Longrightarrow> length ts - 1 = 0" by (metis list.size(3))
  with Some show ?thesis by (auto simp: pin_count_def unpin_snapshot_def Let_def)
qed (simp add: pin_count_def unpin_snapshot_def)

section \<open>Reachable logs\<close>

text \<open>
  Interleavings of the operations, with the history of recorded changes. The numbers of a change
  to one document do not decrease; numbers of different documents may come in any order. A
  deletion of a document that is not there leaves no trace and may carry any number.
\<close>

inductive log_reach :: "seq_log_change list \<Rightarrow> sequence_log \<Rightarrow> bool" where
  reach_new: "log_reach [] seq_log_new"
| reach_insert: "log_reach h L \<Longrightarrow> history_top h d \<le> s \<Longrightarrow>
    log_reach (h @ [ChInsert d s]) (record_insert d s L)"
| reach_delete: "log_reach h L \<Longrightarrow> history_top h d \<le> s \<Longrightarrow>
    log_reach (h @ [ChDelete d s]) (record_delete d s L)"
| reach_delete_absent: "log_reach h L \<Longrightarrow> \<not> history_visible d (- 1) h \<Longrightarrow>
    log_reach h (record_delete d s L)"
| reach_compact: "log_reach h L \<Longrightarrow> log_reach h (seq_log_compact c L)"
| reach_pin: "log_reach h L \<Longrightarrow> log_reach h (pin_snapshot_at s at L)"
| reach_unpin: "log_reach h L \<Longrightarrow> log_reach h (unpin_snapshot s L)"
| reach_duration: "log_reach h L \<Longrightarrow> log_reach h (set_max_pin_duration dur L)"

definition compacted_bound :: "sequence_log \<Rightarrow> u64" where
  "compacted_bound L = (case sl_compacted_below L of None \<Rightarrow> 0 | Some c \<Rightarrow> c)"

lemma pins_keep_entries [simp]:
  "sl_entries (pin_snapshot_at s at L) = sl_entries L"
  "sl_entries (unpin_snapshot s L) = sl_entries L"
  "sl_entries (set_max_pin_duration dur L) = sl_entries L"
  by (simp_all add: pin_snapshot_at_def unpin_snapshot_def set_max_pin_duration_def Let_def
      split: option.splits)

lemma compacted_bound_ops [simp]:
  "compacted_bound (pin_snapshot_at s at L) = compacted_bound L"
  "compacted_bound (unpin_snapshot s L) = compacted_bound L"
  "compacted_bound (set_max_pin_duration dur L) = compacted_bound L"
  "compacted_bound (record_insert d q L) = compacted_bound L"
  "compacted_bound (record_delete d q L) = compacted_bound L"
  "compacted_bound (seq_log_compact c L) = max (compacted_bound L) c"
  by (simp_all add: compacted_bound_def pin_snapshot_at_def unpin_snapshot_def record_insert_def
      record_delete_def set_max_pin_duration_def seq_log_compact_def Let_def max_def
      split: option.splits)

lemma seq_log_new_bound [simp]: "compacted_bound seq_log_new = 0"
  by (simp add: compacted_bound_def seq_log_new_def)

lemma pins_keep_inv [simp]:
  "seq_log_inv hi (pin_snapshot_at s at L) = seq_log_inv hi L"
  "seq_log_inv hi (unpin_snapshot s L) = seq_log_inv hi L"
  "seq_log_inv hi (set_max_pin_duration dur L) = seq_log_inv hi L"
  by (simp_all add: seq_log_inv_def)

lemma pins_keep_visible [simp]:
  "is_visible d t (pin_snapshot_at s at L) = is_visible d t L"
  "is_visible d t (unpin_snapshot s L) = is_visible d t L"
  "is_visible d t (set_max_pin_duration dur L) = is_visible d t L"
  by (simp_all add: is_visible_def)

lemma history_visible_snoc:
  "history_visible doc s (h @ [c]) =
     (if change_doc_id c = doc \<and> change_seq c \<le> s then is_insert_change c
      else history_visible doc s h)"
  by (auto simp: history_visible_def Let_def)

lemma no_open_if_invisible:
  assumes "seq_log_inv hi L" "\<not> is_visible d (- 1) L"
  shows "record_delete d q L = L"
proof -
  have "\<not> is_open_entry d e" if e: "e \<in> set (sl_entries L)" for e
  proof
    assume o: "is_open_entry d e"
    define fs where "fs = filter (sees d (- 1)) (sl_entries L)"
    have in_fs: "e \<in> set fs" using e o by (simp add: fs_def is_open_entry_def)
    have "e = last fs"
      using chain_before_last [OF _ fs_def in_fs] assms(1) o
      by (auto simp: seq_log_inv_def is_open_entry_def)
    with in_fs o have "fs \<noteq> [] \<and> live_at (- 1) (last fs)"
      by (auto simp: live_at_def is_open_entry_def)
    with assms(2) show False by (simp add: is_visible_last fs_def Let_def)
  qed
  then have "upd_last (is_open_entry d) f (sl_entries L) = None" for f
    by (simp add: upd_last_None)
  then show ?thesis by (simp add: record_delete_def)
qed

lemma log_reach_correct:
  "log_reach h L \<Longrightarrow> seq_log_inv (history_top h) L \<and>
     (\<forall>doc s. compacted_bound L \<le> s \<longrightarrow> is_visible doc s L = history_visible doc s h)"
proof (induction rule: log_reach.induct)
  case reach_new
  show ?case by (simp add: seq_log.vis_new history_visible_def seq_log_inv_new)
next
  case (reach_insert h L d q)
  then show ?case
    using record_insert_inv [of "history_top h" L d q] record_insert_visible [of "history_top h" L d q]
    by (simp add: history_visible_snoc history_top_snoc fun_upd_def)
next
  case (reach_delete h L d q)
  then show ?case
    using record_delete_inv [of "history_top h" L d q] record_delete_visible [of "history_top h" L d q]
    by (simp add: history_visible_snoc history_top_snoc fun_upd_def)
next
  case (reach_delete_absent h L d q)
  then have "\<not> is_visible d (- 1) L" by simp
  with reach_delete_absent.IH show ?case using no_open_if_invisible [of "history_top h" L d q] by simp
next
  case (reach_compact h L c)
  then show ?case using compact_preserves_visibility [of "history_top h" L]
    by (simp add: seq_log_compact_inv)
qed simp_all

lemmas log_reach_inv = log_reach_correct [THEN conjunct1]

lemma log_reach_refines:
  "log_reach h L \<Longrightarrow> compacted_bound L \<le> s \<Longrightarrow> is_visible doc s L = history_visible doc s h"
  using log_reach_correct by blast

section \<open>Properties\<close>

text \<open>
  C17. Let inserts, deletes, pins, unpins and compactions run in any order, such that the changes
  to one document carry non-decreasing sequence numbers (changes to different documents may come
  in any order, deletions of an absent document may carry any number). Then \<open>is_visible\<close> at a
  snapshot not below the compaction bound agrees with the recorded history: a document is visible
  exactly when its last change up to the snapshot is an insertion. Changes to one document in
  another order are outside (\<open>late_delete_misread\<close>).
\<close>

theorem seq_log_visibility_refines:
  assumes "log_reach h L" "compacted_bound L \<le> s"
  shows "is_visible doc s L = history_visible doc s h"
  using assms by (rule log_reach_refines)

lemma log_reach_example:
  "log_reach [ChInsert 7 10, ChDelete 7 20]
     (seq_log_compact 15 (record_delete 7 20 (record_insert 7 10 seq_log_new)))"
proof -
  have "log_reach [ChInsert 7 10] (record_insert 7 10 seq_log_new)"
    using reach_insert [OF reach_new, of 7 10] by (simp add: history_top_def doc_changes_def)
  from reach_delete [OF this, of 7 20]
  have "log_reach [ChInsert 7 10, ChDelete 7 20]
      (record_delete 7 20 (record_insert 7 10 seq_log_new))"
    by (simp add: history_top_def doc_changes_def)
  then show ?thesis by (rule reach_compact)
qed

lemma compacted_bound_example:
  "compacted_bound (seq_log_compact 15 (record_delete 7 20 (record_insert 7 10 seq_log_new))) = 15"
  by simp

theorem seq_log_visibility_refines_witness:
  "is_visible 7 15 (seq_log_compact 15 (record_delete 7 20 (record_insert 7 10 seq_log_new)))"
  using seq_log_visibility_refines [OF log_reach_example, of 15 7]
  by (simp add: compacted_bound_example history_visible_def)

text \<open>
  Compacting a reachable log at the sequence number \<open>min_retention_seq\<close> returns does not
  change what any pinned snapshot, or any later one, sees.
\<close>

theorem compact_at_min_retention_keeps_pins:
  assumes "log_reach h L" "min_retention_seq L = Some m"
    and "p \<in> fst ` set (sl_pinned_snapshots L)" "p \<le> s"
  shows "is_visible doc s (seq_log_compact m L) = is_visible doc s L"
  using compact_preserves_visibility [OF log_reach_inv [OF assms(1)]]
    min_retention_seq_le [OF assms(2,3)] assms(4) by simp

lemma log_reach_pin_example:
  "log_reach [ChInsert 7 10, ChDelete 7 20] (pin_snapshot_at 16 3
     (seq_log_compact 15 (record_delete 7 20 (record_insert 7 10 seq_log_new))))"
  by (rule reach_pin [OF log_reach_example])

theorem compact_at_min_retention_keeps_pins_witness:
  "is_visible 7 16 (seq_log_compact 16 (pin_snapshot_at 16 3
     (seq_log_compact 15 (record_delete 7 20 (record_insert 7 10 seq_log_new)))))"
proof -
  let ?L = "pin_snapshot_at 16 3
     (seq_log_compact 15 (record_delete 7 20 (record_insert 7 10 seq_log_new)))"
  have pins: "sl_pinned_snapshots ?L = [(16, [3])]"
    by (simp add: pin_snapshot_at_def seq_log_compact_def record_delete_def record_insert_def
        seq_log_new_def upd_last_def is_open_entry_def)
  have "is_visible 7 16 ?L"
    using log_reach_refines [OF log_reach_pin_example, of 16 7] by (simp add: history_visible_def)
  with compact_at_min_retention_keeps_pins [OF log_reach_pin_example, of 16 16 16 7]
  show ?thesis by (simp add: min_retention_seq_def pins)
qed

text \<open>
  Delta queries are complete: a client that knows the documents of a snapshot not below the
  compaction bound and applies \<open>changes_since\<close> in order obtains exactly the documents the
  whole history leaves visible.
\<close>

theorem changes_since_completes_snapshot:
  assumes "log_reach h L" "compacted_bound L \<le> s"
  shows "fold apply_delta (changes_since s L) {d. history_visible d s h} =
         {d. history_visible d (- 1) h}"
  using changes_since_replay [OF log_reach_inv [OF assms(1)], of s]
    log_reach_refines [OF assms] log_reach_refines [OF assms(1), of "- 1"] by simp

theorem changes_since_completes_snapshot_witness:
  "fold apply_delta (changes_since 15 (seq_log_compact 15
     (record_delete 7 20 (record_insert 7 10 seq_log_new))))
     {d. history_visible d 15 [ChInsert 7 10, ChDelete 7 20]} = {}"
proof -
  have "{d. history_visible d (- 1) [ChInsert 7 10, ChDelete 7 20]} = {}"
    by (auto simp: history_visible_def)
  with changes_since_completes_snapshot [OF log_reach_example, of 15]
  show ?thesis by (simp add: compacted_bound_example)
qed

text \<open>
  The order of the changes to one document matters: after a deletion with a number below that of
  the insertion it closes, the older entry answers for the snapshots in between.
\<close>

lemma late_delete_misread:
  "let h = [ChInsert 7 10, ChInsert 7 20, ChDelete 7 15]
   in is_visible 7 17 (run_changes h) \<and> \<not> history_visible 7 17 h"
  by (simp add: Let_def run_changes_def record_insert_def record_delete_def seq_log_new_def
      upd_last_def is_open_entry_def is_visible_def visible_step_def history_visible_def)

end
