(* ===== verification/Tx_Buffer.thy ===== *)
theory Tx_Buffer
  imports Types
begin

text \<open>
  The sharded staging buffer of \<open>crates/contextra-mvcc/src/tx_buffer.rs\<close>: operations staged per
  transaction until commit or rollback, and the key index that answers whether an uncommitted
  transaction has written a key. A shard is locked by one operation at a time, so operations are
  whole steps; \<open>Instant::now()\<close> is an argument, the key hash (\<open>ahash\<close>) a parameter. A failed
  \<open>stage\<close> leaves the transaction registered, so operations return the new buffer with an error
  too.
\<close>

section \<open>Data\<close>

definition DEFAULT_SHARD_COUNT :: nat where "DEFAULT_SHARD_COUNT = 64"
definition DEFAULT_MAX_OPS_PER_TX :: nat where "DEFAULT_MAX_OPS_PER_TX = 10000"

record tx_buffer_config =
  tbc_tx_timeout :: duration
  tbc_max_active_tx :: nat
  tbc_max_ops_per_tx :: nat

definition tx_buffer_config_default :: tx_buffer_config where
  "tx_buffer_config_default = \<lparr>tbc_tx_timeout = 30 * 1000000000, tbc_max_active_tx = 64,
     tbc_max_ops_per_tx = DEFAULT_MAX_OPS_PER_TX\<rparr>"

datatype 'a index_op = IdxInsert doc_id 'a | IdxDelete doc_id "'a option"

fun index_op_doc_id :: "'a index_op \<Rightarrow> doc_id" where
  "index_op_doc_id (IdxInsert d x) = d"
| "index_op_doc_id (IdxDelete d x) = d"

type_synonym 'a tx_shard = "(tx_id \<times> 'a index_op list \<times> instant) list"
type_synonym key_shard = "(bytes \<times> (tx_id \<times> bool) list) list"

record 'a tx_buffer =
  tb_shards :: "'a tx_shard list"
  tb_key_shards :: "key_shard list"
  tb_tx_timeout :: duration
  tb_config :: tx_buffer_config

section \<open>Operations\<close>

definition new_with_config_ext :: "nat \<Rightarrow> duration \<Rightarrow> tx_buffer_config \<Rightarrow> 'a tx_buffer" where
  "new_with_config_ext shard_count timeout config =
     (let n = (if shard_count = 0 then 1 else shard_count)
      in \<lparr>tb_shards = replicate n [], tb_key_shards = replicate n [],
          tb_tx_timeout = tbc_tx_timeout config, tb_config = config\<rparr>)"

definition new_with_config :: "nat \<Rightarrow> duration \<Rightarrow> 'a tx_buffer" where
  "new_with_config shard_count timeout =
     new_with_config_ext shard_count timeout (tx_buffer_config_default\<lparr>tbc_tx_timeout := timeout\<rparr>)"

definition tx_buffer_new :: "'a tx_buffer" where
  "tx_buffer_new = new_with_config DEFAULT_SHARD_COUNT (30 * 1000000000)"

definition shard_idx :: "'a tx_buffer \<Rightarrow> tx_id \<Rightarrow> nat" where
  "shard_idx B tx = unat tx mod length (tb_shards B)"

definition key_shard_idx :: "(bytes \<Rightarrow> u64) \<Rightarrow> 'a tx_buffer \<Rightarrow> bytes \<Rightarrow> nat" where
  "key_shard_idx hash B key = unat (hash key) mod length (tb_key_shards B)"

text \<open>A write under the lock of the transaction's shard.\<close>

definition with_shard :: "tx_id \<Rightarrow> ('a tx_shard \<Rightarrow> 'a tx_shard) \<Rightarrow> 'a tx_buffer \<Rightarrow> 'a tx_buffer" where
  "with_shard tx f B =
     B\<lparr>tb_shards := (tb_shards B)[shard_idx B tx := f (tb_shards B ! shard_idx B tx)]\<rparr>"

definition tx_entry :: "'a tx_buffer \<Rightarrow> tx_id \<Rightarrow> ('a index_op list \<times> instant) option" where
  "tx_entry B tx = map_of (tb_shards B ! shard_idx B tx) tx"

definition has_tx :: "tx_id \<Rightarrow> 'a tx_buffer \<Rightarrow> bool" where
  "has_tx tx B = (tx_entry B tx \<noteq> None)"

definition tx_begin :: "tx_id \<Rightarrow> instant \<Rightarrow> 'a tx_buffer \<Rightarrow> 'a tx_buffer" where
  "tx_begin tx now B = (if has_tx tx B then B else with_shard tx (AList.update tx ([], now)) B)"

definition stage_bounded ::
    "tx_id \<Rightarrow> 'a index_op \<Rightarrow> instant \<Rightarrow> 'a tx_buffer \<Rightarrow> unit res \<times> 'a tx_buffer" where
  "stage_bounded tx op now B =
     (let B = tx_begin tx now B;
          (ops, created) = the (tx_entry B tx)
      in if tbc_max_ops_per_tx (tb_config B) \<le> length ops
         then (Inl (Transaction ''exceeded max staging capacity''), B)
         else (Inr (), with_shard tx (AList.update tx (ops @ [op], created)) B))"

definition stage ::
    "tx_id \<Rightarrow> 'a index_op \<Rightarrow> instant \<Rightarrow> 'a tx_buffer \<Rightarrow> unit res \<times> 'a tx_buffer" where
  "stage tx op now B = stage_bounded tx op now B"

definition stage_many ::
    "tx_id \<Rightarrow> 'a index_op list \<Rightarrow> instant \<Rightarrow> 'a tx_buffer \<Rightarrow> unit res \<times> 'a tx_buffer" where
  "stage_many tx ops_vec now B =
     (let B = tx_begin tx now B;
          (ops, created) = the (tx_entry B tx)
      in if tbc_max_ops_per_tx (tb_config B) < length ops + length ops_vec
         then (Inl (Transaction ''exceeded max staging capacity''), B)
         else (Inr (), with_shard tx (AList.update tx (ops @ ops_vec, created)) B))"

definition validate_pending_ops :: "tx_id \<Rightarrow> 'a tx_buffer \<Rightarrow> unit res" where
  "validate_pending_ops tx B =
     (case tx_entry B tx of
        Some ([], _) \<Rightarrow> Inl (Transaction ''was registered but has no pending operations'')
      | _ \<Rightarrow> Inr ())"

definition get_ops :: "tx_id \<Rightarrow> 'a tx_buffer \<Rightarrow> 'a index_op list option" where
  "get_ops tx B = map_option fst (tx_entry B tx)"

definition drain :: "tx_id \<Rightarrow> 'a tx_buffer \<Rightarrow> 'a index_op list \<times> 'a tx_buffer" where
  "drain tx B =
     ((case tx_entry B tx of None \<Rightarrow> [] | Some (ops, _) \<Rightarrow> ops), with_shard tx (AList.delete tx) B)"

definition discard :: "tx_id \<Rightarrow> 'a tx_buffer \<Rightarrow> 'a tx_buffer" where
  "discard tx B = with_shard tx (AList.delete tx) B"

definition tx_buffer_len :: "'a tx_buffer \<Rightarrow> nat" where
  "tx_buffer_len B = sum_list (map length (tb_shards B))"

definition tx_buffer_is_empty :: "'a tx_buffer \<Rightarrow> bool" where
  "tx_buffer_is_empty B = list_all (\<lambda>s. s = []) (tb_shards B)"

text \<open>
  The reaper. \<open>free i\<close> says whether \<open>try_write\<close> obtains shard \<open>i\<close>, \<open>clock tx\<close> is the time
  read when \<open>retain\<close> visits \<open>tx\<close>.
\<close>

fun reap_shard :: "nat \<Rightarrow> (tx_id \<Rightarrow> instant) \<Rightarrow> duration \<Rightarrow> tx_id list \<Rightarrow> 'a tx_shard \<Rightarrow>
    tx_id list \<times> 'a tx_shard" where
  "reap_shard mx clock timeout expired [] = (expired, [])"
| "reap_shard mx clock timeout expired ((tx, ops, created) # sh) =
     (if length expired < mx \<and> timeout < clock tx - created
      then reap_shard mx clock timeout (expired @ [tx]) sh
      else let (expired, sh) = reap_shard mx clock timeout expired sh
           in (expired, (tx, ops, created) # sh))"

fun reap_shards :: "nat \<Rightarrow> (tx_id \<Rightarrow> instant) \<Rightarrow> duration \<Rightarrow> bool list \<Rightarrow> tx_id list \<Rightarrow>
    'a tx_shard list \<Rightarrow> tx_id list \<times> 'a tx_shard list" where
  "reap_shards mx clock timeout free expired [] = (expired, [])"
| "reap_shards mx clock timeout free expired (sh # shs) =
     (if mx \<le> length expired then (expired, sh # shs)
      else let (expired, sh) = (if free \<noteq> [] \<and> hd free
                                then reap_shard mx clock timeout expired sh else (expired, sh));
               (expired, shs) = reap_shards mx clock timeout (tl free) expired shs
           in (expired, sh # shs))"

definition reap_orphans_bounded ::
    "nat \<Rightarrow> (tx_id \<Rightarrow> instant) \<Rightarrow> bool list \<Rightarrow> 'a tx_buffer \<Rightarrow> tx_id list \<times> 'a tx_buffer" where
  "reap_orphans_bounded mx clock free B =
     (let (expired, shs) = reap_shards mx clock (tb_tx_timeout B) free [] (tb_shards B)
      in (expired, B\<lparr>tb_shards := shs\<rparr>))"

definition reap_orphans ::
    "(tx_id \<Rightarrow> instant) \<Rightarrow> bool list \<Rightarrow> 'a tx_buffer \<Rightarrow> tx_id list \<times> 'a tx_buffer" where
  "reap_orphans clock free B = reap_orphans_bounded (2 ^ 64 - 1) clock free B"

section \<open>Key-value staging\<close>

type_synonym kv_op = "(bytes \<times> bytes) index_op"
type_synonym kv_buffer = "(bytes \<times> bytes) tx_buffer"

text \<open>The key an operation names, and whether it inserts.\<close>

fun op_key :: "kv_op \<Rightarrow> (bytes \<times> bool) option" where
  "op_key (IdxInsert d x) = Some (fst x, True)"
| "op_key (IdxDelete d (Some x)) = Some (fst x, False)"
| "op_key (IdxDelete d None) = None"

definition with_key_shard ::
    "(bytes \<Rightarrow> u64) \<Rightarrow> bytes \<Rightarrow> (key_shard \<Rightarrow> key_shard) \<Rightarrow> 'a tx_buffer \<Rightarrow> 'a tx_buffer" where
  "with_key_shard hash key f B =
     B\<lparr>tb_key_shards := (tb_key_shards B)[key_shard_idx hash B key :=
         f (tb_key_shards B ! key_shard_idx hash B key)]\<rparr>"

definition track_key_stage ::
    "(bytes \<Rightarrow> u64) \<Rightarrow> tx_id \<Rightarrow> bytes \<Rightarrow> bool \<Rightarrow> 'a tx_buffer \<Rightarrow> 'a tx_buffer" where
  "track_key_stage hash tx key is_insert =
     with_key_shard hash key (\<lambda>sh.
       let m = (case map_of sh key of None \<Rightarrow> [] | Some m \<Rightarrow> m)
       in AList.update key (AList.update tx is_insert m) sh)"

text \<open>Removing a transaction from the entry of a key; an emptied entry goes too.\<close>

definition untrack_key :: "(bytes \<Rightarrow> u64) \<Rightarrow> tx_id \<Rightarrow> bytes \<Rightarrow> 'a tx_buffer \<Rightarrow> 'a tx_buffer" where
  "untrack_key hash tx key =
     with_key_shard hash key (\<lambda>sh.
       case map_of sh key of
         None \<Rightarrow> sh
       | Some m \<Rightarrow> (let m = AList.delete tx m
                    in if m = [] then AList.delete key sh else AList.update key m sh))"

fun untrack_key_ops_kv :: "(bytes \<Rightarrow> u64) \<Rightarrow> tx_id \<Rightarrow> kv_op list \<Rightarrow> kv_buffer \<Rightarrow> kv_buffer" where
  "untrack_key_ops_kv hash tx [] B = B"
| "untrack_key_ops_kv hash tx (op # ops) B =
     (case op_key op of
        None \<Rightarrow> untrack_key_ops_kv hash tx ops B
      | Some (key, _) \<Rightarrow> untrack_key_ops_kv hash tx ops (untrack_key hash tx key B))"

definition stage_kv ::
    "(bytes \<Rightarrow> u64) \<Rightarrow> tx_id \<Rightarrow> kv_op \<Rightarrow> instant \<Rightarrow> kv_buffer \<Rightarrow> unit res \<times> kv_buffer" where
  "stage_kv hash tx op now B =
     (case op_key op of
        None \<Rightarrow> stage tx op now B
      | Some (key, is_insert) \<Rightarrow>
          (case stage tx op now (track_key_stage hash tx key is_insert B) of
             (Inl e, B) \<Rightarrow> (Inl e, untrack_key hash tx key B)
           | (Inr _, B) \<Rightarrow> (Inr (), B)))"

definition drain_kv ::
    "(bytes \<Rightarrow> u64) \<Rightarrow> tx_id \<Rightarrow> kv_buffer \<Rightarrow> kv_op list \<times> kv_buffer" where
  "drain_kv hash tx B =
     (let (ops, B) = drain tx B
      in (ops, if ops \<noteq> [] then untrack_key_ops_kv hash tx ops B else B))"

definition discard_kv :: "(bytes \<Rightarrow> u64) \<Rightarrow> tx_id \<Rightarrow> kv_buffer \<Rightarrow> kv_buffer" where
  "discard_kv hash tx B =
     discard tx (case get_ops tx B of None \<Rightarrow> B | Some ops \<Rightarrow> untrack_key_ops_kv hash tx ops B)"

fun op_inserts_key :: "bytes \<Rightarrow> kv_op \<Rightarrow> bool" where
  "op_inserts_key key (IdxInsert d x) = (fst x = key)"
| "op_inserts_key key (IdxDelete d x) = False"

definition is_key_staged_for_tx :: "tx_id \<Rightarrow> bytes \<Rightarrow> kv_buffer \<Rightarrow> bool" where
  "is_key_staged_for_tx tx key B =
     (case tx_entry B tx of None \<Rightarrow> False | Some (ops, _) \<Rightarrow> list_ex (op_inserts_key key) ops)"

fun status_step :: "tx_id \<times> bool \<Rightarrow> (tx_id \<times> bool) option \<Rightarrow> (tx_id \<times> bool) option" where
  "status_step (tx, b) None = Some (tx, b)"
| "status_step (tx, b) (Some (m, s)) = (if m < tx then Some (tx, b) else Some (m, s))"

definition staged_status :: "(bytes \<Rightarrow> u64) \<Rightarrow> bytes \<Rightarrow> 'a tx_buffer \<Rightarrow> bool option" where
  "staged_status hash key B =
     (case map_of (tb_key_shards B ! key_shard_idx hash B key) key of
        None \<Rightarrow> None
      | Some m \<Rightarrow> map_option snd (fold status_step m None))"

section \<open>Well-formed buffers\<close>

definition tb_wf :: "'a tx_buffer \<Rightarrow> bool" where
  "tb_wf B \<longleftrightarrow> tb_shards B \<noteq> [] \<and> length (tb_key_shards B) = length (tb_shards B) \<and>
     (\<forall>i < length (tb_shards B). hm_wf (tb_shards B ! i) \<and>
        (\<forall>p\<in>set (tb_shards B ! i). shard_idx B (fst p) = i))"

text \<open>No transaction holds more operations than configured.\<close>

definition tb_capped :: "'a tx_buffer \<Rightarrow> bool" where
  "tb_capped B \<longleftrightarrow>
     (\<forall>tx ops. get_ops tx B = Some ops \<longrightarrow> length ops \<le> tbc_max_ops_per_tx (tb_config B))"

abbreviation tb_cap :: "'a tx_buffer \<Rightarrow> nat" where
  "tb_cap B \<equiv> tbc_max_ops_per_tx (tb_config B)"

lemma shard_idx_lt: "tb_shards B \<noteq> [] \<Longrightarrow> shard_idx B tx < length (tb_shards B)"
  by (simp add: shard_idx_def)

lemma with_shard_simps [simp]:
  "length (tb_shards (with_shard tx f B)) = length (tb_shards B)"
  "tb_key_shards (with_shard tx f B) = tb_key_shards B"
  "tb_config (with_shard tx f B) = tb_config B"
  "tb_tx_timeout (with_shard tx f B) = tb_tx_timeout B"
  "shard_idx (with_shard tx f B) = shard_idx B"
  by (simp_all add: with_shard_def shard_idx_def fun_eq_iff)

lemma with_shard_nonempty [simp]: "tb_shards (with_shard tx f B) = [] \<longleftrightarrow> tb_shards B = []"
  by (simp add: with_shard_def)

lemma tx_entry_update:
  "tb_shards B \<noteq> [] \<Longrightarrow>
     tx_entry (with_shard tx (AList.update tx v) B) = (tx_entry B)(tx \<mapsto> v)"
  by (auto simp: tx_entry_def with_shard_def shard_idx_def fun_eq_iff nth_list_update)

lemma tx_entry_delete:
  "tb_shards B \<noteq> [] \<Longrightarrow>
     tx_entry (with_shard tx (AList.delete tx) B) = (tx_entry B)(tx := None)"
  by (auto simp: tx_entry_def with_shard_def shard_idx_def fun_eq_iff nth_list_update)

lemma tb_wf_with_shard:
  assumes "tb_wf B" and "\<And>sh. hm_wf sh \<Longrightarrow> hm_wf (f sh)"
    and "\<And>sh. fst ` set (f sh) \<subseteq> insert tx (fst ` set sh)"
  shows "tb_wf (with_shard tx f B)"
proof -
  have "hm_wf (tb_shards (with_shard tx f B) ! i) \<and>
      (\<forall>p\<in>set (tb_shards (with_shard tx f B) ! i). shard_idx B (fst p) = i)"
    if "i < length (tb_shards B)" for i
  proof (cases "i = shard_idx B tx")
    case True
    have "fst p \<in> insert tx (fst ` set (tb_shards B ! i))" if "p \<in> set (f (tb_shards B ! i))" for p
      using that assms(3) [of "tb_shards B ! i"] by blast
    with True that assms(1,2) show ?thesis by (fastforce simp: with_shard_def tb_wf_def)
  next
    case False
    with that assms(1) show ?thesis by (simp add: with_shard_def tb_wf_def)
  qed
  with assms(1) show ?thesis by (simp add: tb_wf_def)
qed

lemma tb_wf_shard_update:
  "tb_wf B \<Longrightarrow> tb_wf (with_shard tx (AList.update tx v) B)"
  by (rule tb_wf_with_shard) (auto simp: dom_update)

lemma tb_wf_shard_delete: "tb_wf B \<Longrightarrow> tb_wf (with_shard tx (AList.delete tx) B)"
  by (rule tb_wf_with_shard) (auto simp: AList.delete_eq hm_wf_filter)

lemma tb_wf_new: "tb_wf (new_with_config_ext n d c)"
  by (simp add: tb_wf_def new_with_config_ext_def Let_def)

text \<open>The effect of each operation on the entries, as one function update.\<close>

lemma tx_entry_new [simp]: "tx_entry (new_with_config_ext n d c) tx = None"
  by (simp add: tx_entry_def new_with_config_ext_def Let_def shard_idx_def)

lemma tx_begin_wf: "tb_wf B \<Longrightarrow> tb_wf (tx_begin tx now B)"
  by (simp add: tx_begin_def tb_wf_shard_update)

lemma tx_begin_simps [simp]:
  "tb_key_shards (tx_begin tx now B) = tb_key_shards B"
  "tb_config (tx_begin tx now B) = tb_config B"
  by (simp_all add: tx_begin_def)

lemma tx_entry_begin:
  "tb_wf B \<Longrightarrow> tx_entry (tx_begin tx now B) =
     (tx_entry B)(tx \<mapsto> (case tx_entry B tx of None \<Rightarrow> ([], now) | Some e \<Rightarrow> e))"
  by (auto simp: tx_begin_def has_tx_def tb_wf_def tx_entry_update split: option.splits)

definition staged :: "tx_id \<Rightarrow> 'a tx_buffer \<Rightarrow> 'a index_op list" where
  "staged tx B = (case get_ops tx B of None \<Rightarrow> [] | Some ops \<Rightarrow> ops)"

lemma staged_begin [simp]: "tb_wf B \<Longrightarrow> staged t (tx_begin tx now B) = staged t B"
  by (simp add: staged_def get_ops_def tx_entry_begin split: option.splits)

lemma stage_many_cases:
  assumes "tb_wf B"
  shows "stage_many tx ops now B =
     (if tb_cap B < length (staged tx B) + length ops
      then (Inl (Transaction ''exceeded max staging capacity''), tx_begin tx now B)
      else (Inr (), with_shard tx (AList.update tx (staged tx B @ ops,
              (case tx_entry B tx of None \<Rightarrow> now | Some e \<Rightarrow> snd e))) (tx_begin tx now B)))"
  using assms by (auto simp: stage_many_def Let_def tx_entry_begin staged_def get_ops_def
      split: option.splits)

lemma stage_eq_stage_many: "stage tx op now B = stage_many tx [op] now B"
  by (simp add: stage_def stage_bounded_def stage_many_def Let_def Suc_le_eq [symmetric])

lemma stage_many_result:
  assumes wf: "tb_wf B" and eq: "stage_many tx ops now B = (r, B')"
  shows "tb_wf B'" "tb_cap B' = tb_cap B" "tb_key_shards B' = tb_key_shards B"
    "staged t B' = staged t B @ (if t = tx \<and> r = Inr () then ops else [])"
    "r = Inr () \<longleftrightarrow> length (staged tx B) + length ops \<le> tb_cap B"
    "get_ops t B' = (if t = tx then Some (staged tx B @ (if r = Inr () then ops else []))
                     else get_ops t B)"
proof -
  have ne: "tb_shards (tx_begin tx now B) \<noteq> []"
    using tx_begin_wf [OF wf] by (simp add: tb_wf_def)
  show "tb_wf B'" "tb_cap B' = tb_cap B" "tb_key_shards B' = tb_key_shards B"
    "r = Inr () \<longleftrightarrow> length (staged tx B) + length ops \<le> tb_cap B"
    using eq wf by (auto simp: stage_many_cases [OF wf] tx_begin_wf tb_wf_shard_update
        not_less split: if_splits)
  show get: "get_ops t B' = (if t = tx then Some (staged tx B @ (if r = Inr () then ops else []))
      else get_ops t B)"
    using eq ne by (auto simp: stage_many_cases [OF wf] get_ops_def staged_def tx_entry_update
        tx_entry_begin [OF wf] split: if_splits option.splits)
  show "staged t B' = staged t B @ (if t = tx \<and> r = Inr () then ops else [])"
    by (simp add: staged_def [of t B'] get) (simp add: staged_def)
qed

lemma drain_result:
  assumes wf: "tb_wf B" and eq: "drain tx B = (ops, B')"
  shows "tb_wf B'" "tb_cap B' = tb_cap B" "tb_key_shards B' = tb_key_shards B"
    "ops = staged tx B" "get_ops t B' = (if t = tx then None else get_ops t B)"
proof -
  have ne: "tb_shards B \<noteq> []" using wf by (simp add: tb_wf_def)
  have B': "B' = with_shard tx (AList.delete tx) B" using eq by (simp add: drain_def)
  show "tb_wf B'" using wf B' by (simp add: tb_wf_shard_delete)
  show "tb_cap B' = tb_cap B" "tb_key_shards B' = tb_key_shards B" using B' by simp_all
  show "ops = staged tx B"
    using eq by (auto simp: drain_def staged_def get_ops_def split: option.splits)
  show "get_ops t B' = (if t = tx then None else get_ops t B)"
    using B' ne by (simp add: get_ops_def tx_entry_delete)
qed

lemma discard_eq_drain: "discard tx B = snd (drain tx B)"
  by (simp add: discard_def drain_def)

section \<open>The staging contract\<close>

text \<open>
  What the storage engine relies on: a stage below the capacity appends to its own transaction
  and touches no other, a stage at the capacity appends nothing, a drain hands out the staged
  operations and forgets the transaction.
\<close>

fun stage_all :: "(tx_id \<Rightarrow> 'o \<Rightarrow> instant \<Rightarrow> 'b \<Rightarrow> unit res \<times> 'b) \<Rightarrow> (tx_id \<times> 'o \<times> instant) list \<Rightarrow>
    'b \<Rightarrow> unit res \<times> 'b" where
  "stage_all stg [] b = (Inr (), b)"
| "stage_all stg ((tx, op, now) # xs) b =
     (case stg tx op now b of
        (Inl e, b) \<Rightarrow> (Inl e, b)
      | (Inr _, b) \<Rightarrow> stage_all stg xs b)"

definition ops_of :: "tx_id \<Rightarrow> (tx_id \<times> 'o \<times> instant) list \<Rightarrow> 'o list" where
  "ops_of tx xs = map (fst \<circ> snd) (filter (\<lambda>x. fst x = tx) xs)"

locale staging_buffer =
  fixes inv :: "'b \<Rightarrow> bool"
    and cap :: "'b \<Rightarrow> nat"
    and ops :: "tx_id \<Rightarrow> 'b \<Rightarrow> 'o list"
    and stg :: "tx_id \<Rightarrow> 'o \<Rightarrow> instant \<Rightarrow> 'b \<Rightarrow> unit res \<times> 'b"
    and drn :: "tx_id \<Rightarrow> 'b \<Rightarrow> 'o list \<times> 'b"
  assumes stg_inv: "inv b \<Longrightarrow> stg tx op now b = (r, b') \<Longrightarrow> inv b' \<and> cap b' = cap b"
    and stg_ok: "inv b \<Longrightarrow> stg tx op now b = (r, b') \<Longrightarrow> r = Inr () \<longleftrightarrow> length (ops tx b) < cap b"
    and stg_ops: "inv b \<Longrightarrow> stg tx op now b = (r, b') \<Longrightarrow>
      ops t b' = ops t b @ (if t = tx \<and> r = Inr () then [op] else [])"
    and drn_ops: "inv b \<Longrightarrow> drn tx b = (os, b') \<Longrightarrow>
      inv b' \<and> os = ops tx b \<and> ops t b' = (if t = tx then [] else ops t b)"
begin

lemma stage_all_ops:
  "inv b \<Longrightarrow> \<forall>tx. length (ops tx b) + length (ops_of tx xs) \<le> cap b \<Longrightarrow>
     stage_all stg xs b = (r, b') \<Longrightarrow>
     r = Inr () \<and> inv b' \<and> (\<forall>t. ops t b' = ops t b @ ops_of t xs)"
proof (induction xs arbitrary: b)
  case Nil
  then show ?case by (simp add: ops_of_def)
next
  case (Cons x xs)
  obtain tx op now where x: "x = (tx, op, now)" by (cases x) auto
  obtain q c where q: "stg tx op now b = (q, c)" by fastforce
  have one: "ops_of t (x # xs) = (if t = tx then [op] else []) @ ops_of t xs" for t
    by (simp add: ops_of_def x)
  have "length (ops tx b) < cap b" using Cons.prems(2) one [of tx] by (auto dest!: spec [of _ tx])
  then have ok: "q = Inr ()" using stg_ok [OF Cons.prems(1) q] by simp
  have c: "inv c" "cap c = cap b" "\<And>t. ops t c = ops t b @ (if t = tx then [op] else [])"
    using stg_inv [OF Cons.prems(1) q] stg_ops [OF Cons.prems(1) q] ok by auto
  have "length (ops t c) + length (ops_of t xs) \<le> cap c" for t
    using spec [OF Cons.prems(2), of t] c one by auto
  moreover have "stage_all stg xs c = (r, b')" using Cons.prems(3) x q ok by simp
  ultimately show ?case using Cons.IH [OF c(1)] c(3) one by auto
qed

text \<open>Draining after any interleaving of stages returns the transaction's own operations.\<close>

lemma stage_all_drain:
  assumes "inv b" "\<forall>tx. ops tx b = []" "\<forall>tx. length (ops_of tx xs) \<le> cap b"
    and "stage_all stg xs b = (r, b')" "drn tx b' = (os, b'')"
  shows "r = Inr ()" "os = ops_of tx xs" "ops t b'' = (if t = tx then [] else ops_of t xs)"
proof -
  have *: "r = Inr ()" "inv b'" "\<And>t. ops t b' = ops_of t xs"
    using stage_all_ops [OF assms(1) _ assms(4)] assms(2,3) by auto
  show "r = Inr ()" by (rule *)
  show "os = ops_of tx xs" "ops t b'' = (if t = tx then [] else ops_of t xs)"
    using drn_ops [OF *(2) assms(5)] *(3) by auto
qed

end

interpretation tx_stage: staging_buffer tb_wf tb_cap staged stage drain
proof unfold_locales
  fix b :: "'a tx_buffer" and tx op now r b' t os
  assume wf: "tb_wf b"
  { assume "stage tx op now b = (r, b')"
    then have eq: "stage_many tx [op] now b = (r, b')" by (simp add: stage_eq_stage_many)
    note res = stage_many_result [OF wf eq]
    show "tb_wf b' \<and> tb_cap b' = tb_cap b" using res by simp
    show "r = Inr () \<longleftrightarrow> length (staged tx b) < tb_cap b" using res(5) by auto
    show "staged t b' = staged t b @ (if t = tx \<and> r = Inr () then [op] else [])"
      by (rule res(4)) }
  assume "drain tx b = (os, b')"
  from drain_result [OF wf this]
  show "tb_wf b' \<and> os = staged tx b \<and> staged t b' = (if t = tx then [] else staged t b)"
    by (simp add: staged_def)
qed

section \<open>The key index\<close>

definition tracked :: "(bytes \<Rightarrow> u64) \<Rightarrow> 'a tx_buffer \<Rightarrow> bytes \<Rightarrow> tx_id \<Rightarrow> bool option" where
  "tracked hash B key tx =
     (case map_of (tb_key_shards B ! key_shard_idx hash B key) key of
        None \<Rightarrow> None | Some m \<Rightarrow> map_of m tx)"

definition key_shards_wf :: "'a tx_buffer \<Rightarrow> bool" where
  "key_shards_wf B \<longleftrightarrow> tb_key_shards B \<noteq> [] \<and>
     (\<forall>sh\<in>set (tb_key_shards B). \<forall>k m. map_of sh k = Some m \<longrightarrow> m \<noteq> [] \<and> hm_wf m)"

lemma with_key_shard_simps [simp]:
  "tb_shards (with_key_shard hash k f B) = tb_shards B"
  "tb_config (with_key_shard hash k f B) = tb_config B"
  "length (tb_key_shards (with_key_shard hash k f B)) = length (tb_key_shards B)"
  "key_shard_idx hash (with_key_shard hash k f B) = key_shard_idx hash B"
  by (simp_all add: with_key_shard_def key_shard_idx_def fun_eq_iff)

lemma key_ops_simps [simp]:
  "tb_shards (track_key_stage hash tx k b B) = tb_shards B"
  "tb_shards (untrack_key hash tx k B) = tb_shards B"
  "tb_config (track_key_stage hash tx k b B) = tb_config B"
  "tb_config (untrack_key hash tx k B) = tb_config B"
  "length (tb_key_shards (track_key_stage hash tx k b B)) = length (tb_key_shards B)"
  "length (tb_key_shards (untrack_key hash tx k B)) = length (tb_key_shards B)"
  by (simp_all add: track_key_stage_def untrack_key_def)

lemma shards_congs:
  "tb_shards B' = tb_shards B \<Longrightarrow> tx_entry B' tx = tx_entry B tx"
  by (simp add: tx_entry_def shard_idx_def)

lemma key_ops_entry [simp]:
  "tx_entry (track_key_stage hash tx k b B) t = tx_entry B t"
  "tx_entry (untrack_key hash tx k B) t = tx_entry B t"
  "get_ops t (track_key_stage hash tx k b B) = get_ops t B"
  "get_ops t (untrack_key hash tx k B) = get_ops t B"
  "staged t (track_key_stage hash tx k b B) = staged t B"
  "staged t (untrack_key hash tx k B) = staged t B"
  by (simp_all add: tx_entry_def shard_idx_def get_ops_def staged_def)

lemma key_ops_tb_wf [simp]:
  "tb_wf (track_key_stage hash tx k b B) = tb_wf B"
  "tb_wf (untrack_key hash tx k B) = tb_wf B"
  by (simp_all add: tb_wf_def shard_idx_def)

lemma tracked_track:
  "tb_key_shards B \<noteq> [] \<Longrightarrow> tracked hash (track_key_stage hash tx k b B) k' t =
     (if k' = k \<and> t = tx then Some b else tracked hash B k' t)"
  by (auto simp: tracked_def track_key_stage_def with_key_shard_def key_shard_idx_def
      nth_list_update Let_def split: option.splits)

lemma delete_empty:
  assumes "AList.delete tx m = []" "t \<noteq> tx"
  shows "map_of m t = None"
  using AList.delete_conv' [of tx m] assms by (auto simp: fun_eq_iff split: if_splits)

definition untrack_shard :: "tx_id \<Rightarrow> bytes \<Rightarrow> key_shard \<Rightarrow> key_shard" where
  "untrack_shard tx key sh = (case map_of sh key of
       None \<Rightarrow> sh
     | Some m \<Rightarrow> (let m = AList.delete tx m
                  in if m = [] then AList.delete key sh else AList.update key m sh))"

definition shard_flag :: "key_shard \<Rightarrow> bytes \<Rightarrow> tx_id \<Rightarrow> bool option" where
  "shard_flag sh key tx = (case map_of sh key of None \<Rightarrow> None | Some m \<Rightarrow> map_of m tx)"

lemma shard_flag_untrack:
  "shard_flag (untrack_shard tx k sh) k' t =
     (if k' = k \<and> t = tx then None else shard_flag sh k' t)"
proof (cases "map_of sh k")
  case (Some m)
  show ?thesis
  proof (cases "AList.delete tx m = []")
    case True
    with Some delete_empty [OF True] show ?thesis
      by (simp add: shard_flag_def untrack_shard_def)
  qed (simp add: Some shard_flag_def untrack_shard_def Let_def)
qed (simp add: shard_flag_def untrack_shard_def)

lemma tracked_with:
  "tb_key_shards B \<noteq> [] \<Longrightarrow> tracked hash (with_key_shard hash k f B) k' t =
     (if key_shard_idx hash B k' = key_shard_idx hash B k
      then shard_flag (f (tb_key_shards B ! key_shard_idx hash B k)) k' t
      else tracked hash B k' t)"
  by (auto simp: tracked_def shard_flag_def with_key_shard_def key_shard_idx_def)

lemma untrack_key_shard: "untrack_key hash tx k = with_key_shard hash k (untrack_shard tx k)"
  unfolding untrack_key_def untrack_shard_def ..

lemma tracked_untrack:
  "tb_key_shards B \<noteq> [] \<Longrightarrow> tracked hash (untrack_key hash tx k B) k' t =
     (if k' = k \<and> t = tx then None else tracked hash B k' t)"
  by (simp add: untrack_key_shard tracked_with shard_flag_untrack)
    (simp add: tracked_def shard_flag_def)

lemma key_shards_wf_with:
  assumes "key_shards_wf B"
    and "\<And>sh k' m. sh \<in> set (tb_key_shards B) \<Longrightarrow> map_of (f sh) k' = Some m \<Longrightarrow> m \<noteq> [] \<and> hm_wf m"
  shows "key_shards_wf (with_key_shard hash k f B)"
proof -
  have i: "key_shard_idx hash B k < length (tb_key_shards B)"
    using assms(1) by (simp add: key_shards_wf_def key_shard_idx_def)
  have "m \<noteq> [] \<and> hm_wf m"
    if "sh \<in> set (tb_key_shards (with_key_shard hash k f B))" "map_of sh k' = Some m" for sh k' m
  proof -
    from that(1) have "sh = f (tb_key_shards B ! key_shard_idx hash B k) \<or> sh \<in> set (tb_key_shards B)"
      using set_update_subset_insert by (fastforce simp: with_key_shard_def)
    then show ?thesis
    proof
      assume "sh = f (tb_key_shards B ! key_shard_idx hash B k)"
      with that(2) i assms(2) [OF nth_mem [OF i]] show ?thesis by blast
    next
      assume "sh \<in> set (tb_key_shards B)"
      with that(2) assms(1) show ?thesis unfolding key_shards_wf_def by blast
    qed
  qed
  with assms(1) show ?thesis by (auto simp: key_shards_wf_def with_key_shard_def)
qed

lemma update_nonempty: "AList.update k v m \<noteq> []"
  using AList.update_conv' [of k v m] by (auto simp: fun_eq_iff)

lemma key_shards_wf_track: "key_shards_wf B \<Longrightarrow> key_shards_wf (track_key_stage hash tx k b B)"
  unfolding track_key_stage_def
  by (rule key_shards_wf_with)
    (auto simp: key_shards_wf_def Let_def update_nonempty split: option.splits if_splits)

lemma key_shards_wf_untrack: "key_shards_wf B \<Longrightarrow> key_shards_wf (untrack_key hash tx k B)"
  unfolding untrack_key_def
  by (rule key_shards_wf_with)
    (auto simp: key_shards_wf_def Let_def split: option.splits if_splits)

lemma fold_status_step:
  "hm_wf m \<Longrightarrow> m \<noteq> [] \<Longrightarrow>
     fold status_step m None = Some (Max (fst ` set m), the (map_of m (Max (fst ` set m))))"
proof (induction m rule: rev_induct)
  case (snoc p m)
  show ?case
  proof (cases "m = []")
    case True
    then show ?thesis by (cases p) simp
  next
    case False
    let ?M = "Max (fst ` set m)"
    obtain tx b where p: "p = (tx, b)" by fastforce
    have fresh: "tx \<notin> fst ` set m" using snoc.prems(1) p by simp
    have IH: "fold status_step m None = Some (?M, the (map_of m ?M))"
      using snoc False by simp
    have "?M \<in> fst ` set m" using False by (intro Max_in) auto
    then have M: "map_of m ?M \<noteq> None" "?M \<noteq> tx" using fresh by (auto simp: map_of_eq_None_iff)
    have mx: "Max (fst ` set (m @ [p])) = max tx ?M"
      using False p by (simp add: Max_insert)
    show ?thesis
    proof (cases "?M < tx")
      case True
      then have "max tx ?M = tx" by simp
      moreover have "map_of m tx = None" using fresh by (simp add: map_of_eq_None_iff)
      ultimately show ?thesis using True IH p mx by (simp add: map_add_def)
    next
      case no: False
      then have "max tx ?M = ?M" by (simp add: max_def not_less)
      then show ?thesis using no IH p mx M by (auto simp: map_add_def)
    qed
  qed
qed simp

text \<open>The last operation of a transaction on a key, as the key index should report it.\<close>

definition key_flag :: "bytes \<Rightarrow> kv_op \<Rightarrow> bool option" where
  "key_flag key op = (case op_key op of None \<Rightarrow> None
     | Some (k, b) \<Rightarrow> if k = key then Some b else None)"

definition last_staged :: "bytes \<Rightarrow> kv_op list \<Rightarrow> bool option" where
  "last_staged key ops =
     (let bs = List.map_filter (key_flag key) ops in if bs = [] then None else Some (last bs))"

lemma last_staged_snoc:
  "last_staged key (ops @ [op]) =
     (case key_flag key op of None \<Rightarrow> last_staged key ops | Some b \<Rightarrow> Some b)"
  by (auto simp: last_staged_def map_filter_def Let_def split: option.splits)

lemma last_staged_None:
  "last_staged key ops = None \<longleftrightarrow> (\<forall>op\<in>set ops. key_flag key op = None)"
  by (auto simp: last_staged_def map_filter_def Let_def filter_empty_conv)

lemma untrack_ops_simps [simp]:
  "tx_entry (untrack_key_ops_kv hash tx ops B) t = tx_entry B t"
  "tb_wf (untrack_key_ops_kv hash tx ops B) = tb_wf B"
  "tb_config (untrack_key_ops_kv hash tx ops B) = tb_config B"
  by (induction ops arbitrary: B) (auto split: option.splits)

lemma untrack_ops_wf: "key_shards_wf B \<Longrightarrow> key_shards_wf (untrack_key_ops_kv hash tx ops B)"
  by (induction ops arbitrary: B) (auto simp: key_shards_wf_untrack split: option.splits)

lemma tracked_untrack_ops:
  "key_shards_wf B \<Longrightarrow> tracked hash (untrack_key_ops_kv hash tx ops B) key t =
     (if t = tx \<and> last_staged key ops \<noteq> None then None else tracked hash B key t)"
proof (induction ops arbitrary: B)
  case Nil
  then show ?case by (simp add: last_staged_def map_filter_def)
next
  case (Cons op ops)
  have "tb_key_shards B \<noteq> []" using Cons.prems by (simp add: key_shards_wf_def)
  with Cons show ?case
    by (auto simp: key_shards_wf_untrack tracked_untrack last_staged_None key_flag_def
        split: option.splits)
qed

lemma get_ops_untrack [simp]:
  "get_ops t (untrack_key_ops_kv hash tx ops B) = get_ops t B"
  "staged t (untrack_key_ops_kv hash tx ops B) = staged t B"
  by (simp_all add: get_ops_def staged_def)

lemma tracked_congs:
  "tb_key_shards B' = tb_key_shards B \<Longrightarrow> tracked hash B' = tracked hash B"
  "tb_key_shards B' = tb_key_shards B \<Longrightarrow> key_shards_wf B' = key_shards_wf B"
  by (simp_all add: tracked_def key_shard_idx_def fun_eq_iff key_shards_wf_def)

lemma stage_kv_result:
  assumes wf: "tb_wf B" and eq: "stage_kv hash tx op now B = (r, B')"
  shows "tb_wf B'" "tb_cap B' = tb_cap B"
    "staged t B' = staged t B @ (if t = tx \<and> r = Inr () then [op] else [])"
    "r = Inr () \<longleftrightarrow> length (staged tx B) < tb_cap B"
proof -
  define B1 where "B1 = (case op_key op of None \<Rightarrow> B
     | Some (k, b) \<Rightarrow> track_key_stage hash tx k b B)"
  obtain q B2 where st: "stage_many tx [op] now B1 = (q, B2)" by fastforce
  have B1: "tb_wf B1" "tb_cap B1 = tb_cap B" "\<And>t. staged t B1 = staged t B"
    using wf by (auto simp: B1_def split: option.splits)
  note res = stage_many_result [OF B1(1) st]
  have r: "r = q" "B' = B2 \<or> (\<exists>k. B' = untrack_key hash tx k B2)"
    using eq st by (auto simp: stage_kv_def B1_def stage_eq_stage_many
        split: option.splits sum.splits prod.splits)
  show "tb_wf B'" "tb_cap B' = tb_cap B"
    "staged t B' = staged t B @ (if t = tx \<and> r = Inr () then [op] else [])"
    "r = Inr () \<longleftrightarrow> length (staged tx B) < tb_cap B"
    using r res B1 by auto
qed

lemma stage_kv_tracked:
  assumes wf: "tb_wf B" "key_shards_wf B" and eq: "stage_kv hash tx op now B = (r, B')"
  shows "key_shards_wf B'"
    "tracked hash B' key t = (case op_key op of
        None \<Rightarrow> tracked hash B key t
      | Some (k, b) \<Rightarrow> if key = k \<and> t = tx then (if r = Inr () then Some b else None)
                      else tracked hash B key t)"
proof -
  have "key_shards_wf B' \<and> tracked hash B' key t = (case op_key op of
        None \<Rightarrow> tracked hash B key t
      | Some (k, b) \<Rightarrow> if key = k \<and> t = tx then (if r = Inr () then Some b else None)
                      else tracked hash B key t)"
  proof (cases "op_key op")
    case None
    with eq have "stage_many tx [op] now B = (r, B')"
      by (simp add: stage_kv_def stage_eq_stage_many)
    from tracked_congs [OF stage_many_result(3) [OF wf(1) this]] None wf(2) show ?thesis
      by simp
  next
    case (Some kb)
    obtain k b where kb: "kb = (k, b)" by fastforce
    define B1 where "B1 = track_key_stage hash tx k b B"
    obtain q B2 where st: "stage_many tx [op] now B1 = (q, B2)" by fastforce
    have "tb_wf B1" using wf by (simp add: B1_def)
    from stage_many_result(3) [OF this st] have keys: "tb_key_shards B2 = tb_key_shards B1" .
    have ne: "tb_key_shards B \<noteq> []" using wf(2) by (simp add: key_shards_wf_def)
    have B2: "key_shards_wf B2" "tracked hash B2 = tracked hash B1" "tb_key_shards B2 \<noteq> []"
      using tracked_congs [OF keys] key_shards_wf_track [OF wf(2)] by (auto simp: B1_def key_shards_wf_def)
    have r: "r = q" "B' = (if q = Inr () then B2 else untrack_key hash tx k B2)"
      using eq st by (auto simp: stage_kv_def B1_def Some kb stage_eq_stage_many
          split: sum.splits prod.splits)
    show ?thesis
      using B2 r ne by (simp add: Some kb B1_def tracked_track tracked_untrack key_shards_wf_untrack)
  qed
  then show "key_shards_wf B'"
    "tracked hash B' key t = (case op_key op of
        None \<Rightarrow> tracked hash B key t
      | Some (k, b) \<Rightarrow> if key = k \<and> t = tx then (if r = Inr () then Some b else None)
                      else tracked hash B key t)" by blast+
qed

lemma drain_kv_result:
  assumes "tb_wf B" "drain_kv hash tx B = (ops, B')"
  shows "tb_wf B'" "ops = staged tx B" "staged t B' = (if t = tx then [] else staged t B)"
proof -
  obtain os B1 where d: "drain tx B = (os, B1)" by fastforce
  note res = drain_result [OF assms(1) d]
  have B': "ops = os" "B' = (if os \<noteq> [] then untrack_key_ops_kv hash tx os B1 else B1)"
    using assms(2) d by (auto simp: drain_kv_def)
  show "tb_wf B'" "ops = staged tx B" using B' res(1,4) by simp_all
  have "staged t B' = staged t B1" using B' by simp
  then show "staged t B' = (if t = tx then [] else staged t B)" by (simp add: staged_def res(5))
qed

interpretation kv_stage: staging_buffer tb_wf tb_cap staged "stage_kv hash" "drain_kv hash"
  for hash
proof unfold_locales
  fix b :: kv_buffer and tx op now r b' t os
  assume wf: "tb_wf b"
  { assume eq: "stage_kv hash tx op now b = (r, b')"
    note res = stage_kv_result [OF wf eq]
    show "tb_wf b' \<and> tb_cap b' = tb_cap b" using res(1,2) by simp
    show "r = Inr () \<longleftrightarrow> length (staged tx b) < tb_cap b" by (rule res(4))
    show "staged t b' = staged t b @ (if t = tx \<and> r = Inr () then [op] else [])"
      by (rule res(3)) }
  assume eq: "drain_kv hash tx b = (os, b')"
  show "tb_wf b' \<and> os = staged tx b \<and> staged t b' = (if t = tx then [] else staged t b)"
    using drain_kv_result [OF wf eq] by simp
qed

lemma last_staged_Nil [simp]: "last_staged key [] = None"
  by (simp add: last_staged_def map_filter_def)

lemma drain_kv_tracked:
  assumes "tb_wf B" "key_shards_wf B" "drain_kv hash tx B = (ops, B')"
  shows "key_shards_wf B'" "tb_cap B' = tb_cap B"
    "tracked hash B' key t =
       (if t = tx \<and> last_staged key (staged tx B) \<noteq> None then None else tracked hash B key t)"
proof -
  obtain os B1 where d: "drain tx B = (os, B1)" by fastforce
  note res = drain_result [OF assms(1) d]
  have ks: "key_shards_wf B1" "tracked hash B1 = tracked hash B"
    using res(3) assms(2) tracked_congs by metis+
  have B': "B' = (if os \<noteq> [] then untrack_key_ops_kv hash tx os B1 else B1)"
    using assms(3) d by (auto simp: drain_kv_def)
  show "key_shards_wf B'" "tb_cap B' = tb_cap B" using B' ks(1) res(2) by (simp_all add: untrack_ops_wf)
  show "tracked hash B' key t =
      (if t = tx \<and> last_staged key (staged tx B) \<noteq> None then None else tracked hash B key t)"
    using B' ks res(4) by (cases "os = []") (auto simp: tracked_untrack_ops)
qed

lemma discard_kv_result:
  assumes "tb_wf B" "key_shards_wf B"
  shows "tb_wf (discard_kv hash tx B)" "key_shards_wf (discard_kv hash tx B)"
    "tb_cap (discard_kv hash tx B) = tb_cap B"
    "staged t (discard_kv hash tx B) = (if t = tx then [] else staged t B)"
    "tracked hash (discard_kv hash tx B) key t =
       (if t = tx \<and> last_staged key (staged tx B) \<noteq> None then None else tracked hash B key t)"
proof -
  define B1 where "B1 = (case get_ops tx B of None \<Rightarrow> B
     | Some ops \<Rightarrow> untrack_key_ops_kv hash tx ops B)"
  have B1: "tb_wf B1" "key_shards_wf B1" "tb_cap B1 = tb_cap B" "\<And>t. staged t B1 = staged t B"
    "tracked hash B1 key t =
       (if t = tx \<and> last_staged key (staged tx B) \<noteq> None then None else tracked hash B key t)"
    using assms by (auto simp: B1_def untrack_ops_wf tracked_untrack_ops staged_def split: option.splits)
  obtain os B2 where d: "drain tx B1 = (os, B2)" by fastforce
  note res = drain_result [OF B1(1) d]
  have eq: "discard_kv hash tx B = B2"
    using d by (simp add: discard_kv_def B1_def discard_eq_drain)
  have ks: "key_shards_wf B2" "tracked hash B2 = tracked hash B1"
    using res(3) B1(2) tracked_congs by metis+
  show "tb_wf (discard_kv hash tx B)" "key_shards_wf (discard_kv hash tx B)"
    "tb_cap (discard_kv hash tx B) = tb_cap B"
    using eq res(1,2) ks B1 by simp_all
  show "staged t (discard_kv hash tx B) = (if t = tx then [] else staged t B)"
    using eq res(5) B1(4) [of t] by (auto simp: staged_def)
  show "tracked hash (discard_kv hash tx B) key t =
      (if t = tx \<and> last_staged key (staged tx B) \<noteq> None then None else tracked hash B key t)"
    using eq ks(2) B1(5) by simp
qed

section \<open>The reaper\<close>

definition expired_in :: "(tx_id \<Rightarrow> instant) \<Rightarrow> duration \<Rightarrow> 'a tx_shard \<Rightarrow> tx_id set" where
  "expired_in clock timeout sh = {tx. \<exists>ops created. (tx, ops, created) \<in> set sh \<and> timeout < clock tx - created}"

lemma expired_in_Cons:
  "expired_in clock timeout ((tx, ops, created) # sh) =
     (if timeout < clock tx - created then {tx} else {}) \<union> expired_in clock timeout sh"
  by (auto simp: expired_in_def)

lemma expired_in_keys: "expired_in clock timeout sh \<subseteq> fst ` set sh"
  by (force simp: expired_in_def)

text \<open>A shard sweep removes exactly the transactions it reports, in bounds, all of them expired.\<close>

lemma reap_shard_result:
  "reap_shard mx clock timeout ex sh = (ex', sh') \<Longrightarrow>
     \<exists>new. ex' = ex @ new \<and> set new \<subseteq> expired_in clock timeout sh \<and>
       (hm_wf sh \<longrightarrow> sh' = filter (\<lambda>p. fst p \<notin> set new) sh) \<and>
       (length ex \<le> mx \<longrightarrow> length ex' \<le> mx) \<and>
       (length ex' < mx \<longrightarrow> expired_in clock timeout sh \<subseteq> set new)"
proof (induction sh arbitrary: ex ex' sh')
  case Nil
  then show ?case by (simp add: expired_in_def)
next
  case (Cons e sh)
  obtain tx ops created where e: "e = (tx, ops, created)" by (cases e) auto
  show ?case
  proof (cases "length ex < mx \<and> timeout < clock tx - created")
    case True
    with Cons.prems e have "reap_shard mx clock timeout (ex @ [tx]) sh = (ex', sh')" by simp
    from Cons.IH [OF this] obtain new where new: "ex' = (ex @ [tx]) @ new"
      "set new \<subseteq> expired_in clock timeout sh"
      "hm_wf sh \<longrightarrow> sh' = filter (\<lambda>p. fst p \<notin> set new) sh"
      "length (ex @ [tx]) \<le> mx \<longrightarrow> length ex' \<le> mx"
      "length ex' < mx \<longrightarrow> expired_in clock timeout sh \<subseteq> set new" by blast
    have "filter (\<lambda>p. fst p \<notin> set new) sh = filter (\<lambda>p. fst p \<notin> set (tx # new)) sh"
      if "hm_wf (e # sh)" using that e by (intro filter_cong) auto
    with new True e show ?thesis
      by (intro exI [of _ "tx # new"]) (auto simp: expired_in_Cons)
  next
    case False
    obtain sh2 where r: "reap_shard mx clock timeout ex sh = (ex', sh2)" "sh' = e # sh2"
      using Cons.prems e False by (auto simp: Let_def split: prod.splits)
    from Cons.IH [OF r(1)] obtain new where new: "ex' = ex @ new"
      "set new \<subseteq> expired_in clock timeout sh"
      "hm_wf sh \<longrightarrow> sh2 = filter (\<lambda>p. fst p \<notin> set new) sh"
      "length ex \<le> mx \<longrightarrow> length ex' \<le> mx"
      "length ex' < mx \<longrightarrow> expired_in clock timeout sh \<subseteq> set new" by blast
    have "tx \<notin> set new" if "hm_wf (e # sh)"
      using that new(2) e expired_in_keys [of clock timeout sh] by auto
    with new False e r(2) show ?thesis
      by (intro exI [of _ new]) (auto simp: expired_in_Cons)
  qed
qed

lemma reap_shards_result:
  "reap_shards mx clock timeout free ex shs = (ex', shs') \<Longrightarrow>
     \<forall>sh\<in>set shs. hm_wf sh \<Longrightarrow>
     distinct (concat (map (map fst) shs)) \<Longrightarrow> length ex \<le> mx \<Longrightarrow>
     \<exists>new. ex' = ex @ new \<and> set new \<subseteq> (\<Union>sh\<in>set shs. expired_in clock timeout sh) \<and>
       shs' = map (filter (\<lambda>p. fst p \<notin> set new)) shs \<and> length ex' \<le> mx \<and>
       (length ex' < mx \<and> (\<forall>i < length shs. i < length free \<and> free ! i) \<longrightarrow>
          (\<Union>sh\<in>set shs. expired_in clock timeout sh) \<subseteq> set new)"
proof (induction shs arbitrary: free ex ex' shs')
  case Nil
  then show ?case by simp
next
  case (Cons sh shs)
  note keys = expired_in_keys [of clock timeout]
  show ?case
  proof (cases "mx \<le> length ex")
    case True
    with Cons.prems show ?thesis by (intro exI [of _ "[]"]) simp
  next
    case False
    obtain e1 sh1 where one: "(if free \<noteq> [] \<and> hd free then reap_shard mx clock timeout ex sh
        else (ex, sh)) = (e1, sh1)" by fastforce
    obtain shs1 where two: "reap_shards mx clock timeout (tl free) e1 shs = (ex', shs1)"
      "shs' = sh1 # shs1"
      using Cons.prems(1) False one by (auto simp: Let_def split: prod.splits)
    have "\<exists>n1. e1 = ex @ n1 \<and> set n1 \<subseteq> expired_in clock timeout sh \<and>
        sh1 = filter (\<lambda>p. fst p \<notin> set n1) sh \<and> length e1 \<le> mx \<and>
        (length e1 < mx \<and> free \<noteq> [] \<and> hd free \<longrightarrow> expired_in clock timeout sh \<subseteq> set n1)"
    proof (cases "free \<noteq> [] \<and> hd free")
      case True
      with one have "reap_shard mx clock timeout ex sh = (e1, sh1)" by simp
      from reap_shard_result [OF this] Cons.prems(2,4) show ?thesis by auto
    next
      case False
      then have "e1 = ex" "sh1 = sh" using one by auto
      with False Cons.prems(4) show ?thesis by (intro exI [of _ "[]"]) auto
    qed
    then obtain n1 where n1: "e1 = ex @ n1" "set n1 \<subseteq> expired_in clock timeout sh"
        "sh1 = filter (\<lambda>p. fst p \<notin> set n1) sh" "length e1 \<le> mx"
        "length e1 < mx \<and> free \<noteq> [] \<and> hd free \<longrightarrow> expired_in clock timeout sh \<subseteq> set n1" by blast
    have "\<forall>sh\<in>set shs. hm_wf sh" "distinct (concat (map (map fst) shs))"
      using Cons.prems(2,3) by simp_all
    from Cons.IH [OF two(1) this n1(4)] obtain n2 where n2: "ex' = e1 @ n2"
        "set n2 \<subseteq> (\<Union>sh\<in>set shs. expired_in clock timeout sh)"
        "shs1 = map (filter (\<lambda>p. fst p \<notin> set n2)) shs" "length ex' \<le> mx"
        "length ex' < mx \<and> (\<forall>i < length shs. i < length (tl free) \<and> tl free ! i) \<longrightarrow>
          (\<Union>sh\<in>set shs. expired_in clock timeout sh) \<subseteq> set n2" by blast
    have sep: "fst ` set sh \<inter> fst ` set s = {}" if "s \<in> set shs" for s
      using Cons.prems(3) that by (simp add: Int_Union2) blast
    have d1: "fst p \<notin> set n1" if "s \<in> set shs" "p \<in> set s" for s p
      using n1(2) keys [of sh] sep [OF that(1)] that(2) by blast
    have d2: "fst p \<notin> set n2" if "p \<in> set sh" for p
    proof
      assume "fst p \<in> set n2"
      with n2(2) obtain s where s: "s \<in> set shs" "fst p \<in> expired_in clock timeout s" by blast
      then have "fst p \<in> fst ` set s" using keys by blast
      with that sep [OF s(1)] show False by blast
    qed
    have "sh1 = filter (\<lambda>p. fst p \<notin> set (n1 @ n2)) sh"
      unfolding n1(3) using d2 by (intro filter_cong) auto
    moreover have "shs1 = map (filter (\<lambda>p. fst p \<notin> set (n1 @ n2))) shs"
      unfolding n2(3) using d1 by (intro map_cong filter_cong) auto
    moreover have "(\<Union>s\<in>set (sh # shs). expired_in clock timeout s) \<subseteq> set (n1 @ n2)"
      if "length ex' < mx" and "\<forall>i < length (sh # shs). i < length free \<and> free ! i"
    proof -
      from that(2) obtain f fs where f: "free = f # fs" by (cases free) auto
      have "f" using that(2) f by auto
      moreover have "\<forall>i < length shs. i < length fs \<and> fs ! i"
        using that(2) f by (metis Suc_less_eq length_Cons nth_Cons_Suc)
      ultimately show ?thesis using that(1) n1(5) n2(1,5) f by auto
    qed
    ultimately show ?thesis
      using n1(1,2) n2(1,2,4) two(2) by (intro exI [of _ "n1 @ n2"]) auto
  qed
qed

lemma tb_wf_distinct_keys:
  assumes "tb_wf B"
  shows "distinct (concat (map (map fst) (tb_shards B)))"
proof -
  have "distinct (concat (map (map fst) shs))"
    if "\<forall>i < length shs. hm_wf (shs ! i) \<and> (\<forall>p\<in>set (shs ! i). f (fst p) = j + i)"
    for shs :: "'a tx_shard list" and f :: "tx_id \<Rightarrow> nat" and j
    using that
  proof (induction shs arbitrary: j)
    case (Cons sh shs)
    have tl: "hm_wf (shs ! i) \<and> (\<forall>p\<in>set (shs ! i). f (fst p) = Suc j + i)"
      if "i < length shs" for i
      using spec [OF Cons.prems, of "Suc i"] that by simp
    have hd: "hm_wf sh" "\<forall>p\<in>set sh. f (fst p) = j"
      using spec [OF Cons.prems, of 0] by simp_all
    have "f (fst p) \<noteq> j" if "s \<in> set shs" "p \<in> set s" for s p
      using tl that by (metis Suc_n_not_le_n in_set_conv_nth le_add1)
    with hd Cons.IH [of "Suc j"] tl show ?case by fastforce
  qed simp
  from this [of "tb_shards B" "shard_idx B" 0] assms show ?thesis by (simp add: tb_wf_def)
qed

definition expired_tx :: "(tx_id \<Rightarrow> instant) \<Rightarrow> 'a tx_buffer \<Rightarrow> tx_id set" where
  "expired_tx clock B =
     {tx. \<exists>ops created. tx_entry B tx = Some (ops, created) \<and> tb_tx_timeout B < clock tx - created}"

lemma expired_in_expired_tx:
  assumes "tb_wf B"
  shows "(\<Union>sh\<in>set (tb_shards B). expired_in clock (tb_tx_timeout B) sh) = expired_tx clock B"
proof (intro set_eqI iffI)
  fix tx
  assume "tx \<in> (\<Union>sh\<in>set (tb_shards B). expired_in clock (tb_tx_timeout B) sh)"
  then obtain i ops created where i: "i < length (tb_shards B)"
    "(tx, ops, created) \<in> set (tb_shards B ! i)" "tb_tx_timeout B < clock tx - created"
    by (auto simp: expired_in_def in_set_conv_nth) metis
  with assms have "shard_idx B (fst (tx, ops, created)) = i" "hm_wf (tb_shards B ! i)"
    unfolding tb_wf_def by blast+
  with i show "tx \<in> expired_tx clock B" by (simp add: expired_tx_def tx_entry_def)
next
  fix tx
  assume "tx \<in> expired_tx clock B"
  then obtain ops created where e: "map_of (tb_shards B ! shard_idx B tx) tx = Some (ops, created)"
    "tb_tx_timeout B < clock tx - created" by (auto simp: expired_tx_def tx_entry_def)
  moreover have "tb_shards B ! shard_idx B tx \<in> set (tb_shards B)"
    using assms by (simp add: tb_wf_def shard_idx_lt)
  ultimately show "tx \<in> (\<Union>sh\<in>set (tb_shards B). expired_in clock (tb_tx_timeout B) sh)"
    by (auto simp: expired_in_def dest: map_of_SomeD)
qed

lemma reap_orphans_bounded_result:
  assumes wf: "tb_wf B" and eq: "reap_orphans_bounded mx clock free B = (expired, B')"
  shows "set expired \<subseteq> expired_tx clock B" "length expired \<le> mx"
    "tx_entry B' tx = (if tx \<in> set expired then None else tx_entry B tx)"
    "length expired < mx \<Longrightarrow> \<forall>i < length (tb_shards B). i < length free \<and> free ! i \<Longrightarrow>
       set expired = expired_tx clock B"
proof -
  from eq obtain shs where r: "reap_shards mx clock (tb_tx_timeout B) free [] (tb_shards B) =
      (expired, shs)" "B' = B\<lparr>tb_shards := shs\<rparr>"
    by (auto simp: reap_orphans_bounded_def split: prod.splits)
  have hm: "\<forall>sh\<in>set (tb_shards B). hm_wf sh" using wf by (auto simp: tb_wf_def in_set_conv_nth)
  from reap_shards_result [OF r(1) hm tb_wf_distinct_keys [OF wf]]
  have *: "set expired \<subseteq> expired_tx clock B"
    "shs = map (filter (\<lambda>p. fst p \<notin> set expired)) (tb_shards B)" "length expired \<le> mx"
    "length expired < mx \<and> (\<forall>i < length (tb_shards B). i < length free \<and> free ! i) \<longrightarrow>
       expired_tx clock B \<subseteq> set expired"
    by (auto simp: expired_in_expired_tx [OF wf])
  show "set expired \<subseteq> expired_tx clock B" "length expired \<le> mx" by (rule *)+
  show "set expired = expired_tx clock B" if "length expired < mx"
    "\<forall>i < length (tb_shards B). i < length free \<and> free ! i"
    using * that by blast
  have "shard_idx B tx < length (tb_shards B)" using wf by (simp add: tb_wf_def shard_idx_lt)
  then show "tx_entry B' tx = (if tx \<in> set expired then None else tx_entry B tx)"
    using map_of_filter_key [of "\<lambda>t. t \<notin> set expired" "tb_shards B ! shard_idx B tx" tx]
    by (simp add: r(2) *(2) tx_entry_def shard_idx_def)
qed

lemma reap_orphans_wf:
  assumes wf: "tb_wf B" and eq: "reap_orphans_bounded mx clock free B = (expired, B')"
  shows "tb_wf B'" "tb_config B' = tb_config B"
proof -
  from eq obtain shs where r: "reap_shards mx clock (tb_tx_timeout B) free [] (tb_shards B) =
      (expired, shs)" "B' = B\<lparr>tb_shards := shs\<rparr>"
    by (auto simp: reap_orphans_bounded_def split: prod.splits)
  have hm: "\<forall>sh\<in>set (tb_shards B). hm_wf sh" using wf by (auto simp: tb_wf_def in_set_conv_nth)
  from reap_shards_result [OF r(1) hm tb_wf_distinct_keys [OF wf]]
  have "shs = map (filter (\<lambda>p. fst p \<notin> set expired)) (tb_shards B)" by auto
  with wf r(2) show "tb_wf B'" "tb_config B' = tb_config B"
    by (auto simp: tb_wf_def shard_idx_def hm_wf_filter)
qed

section \<open>All histories\<close>

inductive tb_reach :: "'a tx_buffer \<Rightarrow> bool" where
  tb_new: "tb_reach (new_with_config_ext n d c)"
| tb_begin: "tb_reach B \<Longrightarrow> tb_reach (tx_begin tx now B)"
| tb_stage: "tb_reach B \<Longrightarrow> stage tx op now B = (r, B') \<Longrightarrow> tb_reach B'"
| tb_stage_many: "tb_reach B \<Longrightarrow> stage_many tx ops now B = (r, B') \<Longrightarrow> tb_reach B'"
| tb_drain: "tb_reach B \<Longrightarrow> drain tx B = (os, B') \<Longrightarrow> tb_reach B'"
| tb_discard: "tb_reach B \<Longrightarrow> tb_reach (discard tx B)"
| tb_reap: "tb_reach B \<Longrightarrow> reap_orphans_bounded mx clock free B = (ex, B') \<Longrightarrow> tb_reach B'"

definition tb_ok :: "'a tx_buffer \<Rightarrow> bool" where
  "tb_ok B \<longleftrightarrow> tb_wf B \<and> (\<forall>tx. length (staged tx B) \<le> tb_cap B)"

lemma tb_ok_stage_many: "tb_ok B \<Longrightarrow> stage_many tx ops now B = (r, B') \<Longrightarrow> tb_ok B'"
  using stage_many_result [of B tx ops now r B'] by (auto simp: tb_ok_def)

lemma tb_ok_drain: "tb_ok B \<Longrightarrow> drain tx B = (os, B') \<Longrightarrow> tb_ok B'"
  using drain_result [of B tx os B'] by (auto simp: tb_ok_def staged_def)

lemma tb_ok_reap:
  assumes "tb_ok B" "reap_orphans_bounded mx clock free B = (ex, B')"
  shows "tb_ok B'"
proof -
  from assms(1) have wf: "tb_wf B" by (simp add: tb_ok_def)
  have "length (staged tx B') \<le> length (staged tx B)" for tx
    by (simp add: staged_def get_ops_def reap_orphans_bounded_result(3) [OF wf assms(2)])
  with reap_orphans_wf [OF wf assms(2)] assms(1) show ?thesis
    by (auto simp: tb_ok_def intro: order_trans)
qed

lemma tb_reach_ok: "tb_reach B \<Longrightarrow> tb_ok B"
proof (induction rule: tb_reach.induct)
  case (tb_new n d c)
  show ?case by (simp add: tb_ok_def tb_wf_new staged_def get_ops_def)
next
  case (tb_begin B tx now)
  then show ?case by (simp add: tb_ok_def tx_begin_wf)
next
  case (tb_discard B tx)
  then show ?case using tb_ok_drain [of B tx] by (metis discard_eq_drain prod.collapse)
qed (auto simp: stage_eq_stage_many intro: tb_ok_stage_many tb_ok_drain tb_ok_reap)

text \<open>
  Every history of a key-value buffer, with the operations any buffer has beside those that keep
  the key index. \<open>K key tx\<close> is what the index should hold: a successful \<open>stage_kv\<close> sets the entry
  of its key, a failed one clears it, \<open>drain_kv\<close> and \<open>discard_kv\<close> clear the entries of the
  operations they take, nothing else touches it. The flag says that no step so far has parted the
  index from the staged operations. The steps that do are a stage that fails on a key its
  transaction has written, a plain \<open>stage\<close> or \<open>stage_many\<close> of an operation with a key, and a
  plain \<open>drain\<close> or \<open>discard\<close> or the reaper on a transaction with staged operations.
\<close>

inductive kv_hist :: "(bytes \<Rightarrow> u64) \<Rightarrow> bool \<Rightarrow> kv_buffer \<Rightarrow>
    (bytes \<Rightarrow> tx_id \<Rightarrow> bool option) \<Rightarrow> bool" for hash where
  kh_new: "kv_hist hash True (new_with_config_ext n d c) (\<lambda>key tx. None)"
| kh_begin: "kv_hist hash cl B K \<Longrightarrow> kv_hist hash cl (tx_begin tx now B) K"
| kh_stage_kv: "kv_hist hash cl B K \<Longrightarrow> stage_kv hash tx op now B = (r, B') \<Longrightarrow>
    kv_hist hash
      (cl \<and> (r = Inr () \<or> (\<forall>k b. op_key op = Some (k, b) \<longrightarrow> last_staged k (staged tx B) = None))) B'
      (\<lambda>key t. case op_key op of
          None \<Rightarrow> K key t
        | Some (k, b) \<Rightarrow> if key = k \<and> t = tx then (if r = Inr () then Some b else None) else K key t)"
| kh_drain_kv: "kv_hist hash cl B K \<Longrightarrow> drain_kv hash tx B = (os, B') \<Longrightarrow>
    kv_hist hash cl B' (\<lambda>key t. if t = tx \<and> last_staged key os \<noteq> None then None else K key t)"
| kh_discard_kv: "kv_hist hash cl B K \<Longrightarrow>
    kv_hist hash cl (discard_kv hash tx B)
      (\<lambda>key t. if t = tx \<and> last_staged key (staged tx B) \<noteq> None then None else K key t)"
| kh_stage: "kv_hist hash cl B K \<Longrightarrow> stage tx op now B = (r, B') \<Longrightarrow>
    kv_hist hash (cl \<and> (r = Inr () \<longrightarrow> op_key op = None)) B' K"
| kh_stage_many: "kv_hist hash cl B K \<Longrightarrow> stage_many tx ops now B = (r, B') \<Longrightarrow>
    kv_hist hash (cl \<and> (r = Inr () \<longrightarrow> (\<forall>op\<in>set ops. op_key op = None))) B' K"
| kh_drain: "kv_hist hash cl B K \<Longrightarrow> drain tx B = (os, B') \<Longrightarrow>
    kv_hist hash (cl \<and> os = []) B' K"
| kh_discard: "kv_hist hash cl B K \<Longrightarrow> kv_hist hash (cl \<and> staged tx B = []) (discard tx B) K"
| kh_reap: "kv_hist hash cl B K \<Longrightarrow> reap_orphans_bounded mx clock free B = (ex, B') \<Longrightarrow>
    kv_hist hash (cl \<and> (\<forall>tx\<in>set ex. staged tx B = [])) B' K"

definition kv_inv :: "(bytes \<Rightarrow> u64) \<Rightarrow> bool \<Rightarrow> kv_buffer \<Rightarrow>
    (bytes \<Rightarrow> tx_id \<Rightarrow> bool option) \<Rightarrow> bool" where
  "kv_inv hash cl B K \<longleftrightarrow> tb_ok B \<and> key_shards_wf B \<and> (\<forall>key tx. tracked hash B key tx = K key tx) \<and>
     (cl \<longrightarrow> (\<forall>key tx. K key tx = last_staged key (staged tx B)))"

lemma last_staged_append_keyless:
  "\<forall>op\<in>set ops. op_key op = None \<Longrightarrow> last_staged key (xs @ ops) = last_staged key xs"
proof (induction ops rule: rev_induct)
  case (snoc op ops)
  have "last_staged key (xs @ ops @ [op]) = last_staged key ((xs @ ops) @ [op])" by simp
  then show ?case using snoc by (simp only: last_staged_snoc) (simp add: key_flag_def)
qed simp

text \<open>Operations that leave the key shards alone keep the index and clear the flag or agree.\<close>

lemma kv_inv_plain:
  assumes "kv_inv hash cl B K" "tb_ok B'" "tb_key_shards B' = tb_key_shards B"
    and "cl' \<Longrightarrow> cl \<and> (\<forall>key tx. last_staged key (staged tx B') = last_staged key (staged tx B))"
  shows "kv_inv hash cl' B' K"
  using assms tracked_congs [OF assms(3)] by (simp add: kv_inv_def)

lemma kv_inv_stage_many:
  assumes "kv_inv hash cl B K" "stage_many tx ops now B = (r, B')"
  shows "kv_inv hash (cl \<and> (r = Inr () \<longrightarrow> (\<forall>op\<in>set ops. op_key op = None))) B' K"
proof -
  from assms(1) have ok: "tb_ok B" by (simp add: kv_inv_def)
  then have wf: "tb_wf B" by (simp add: tb_ok_def)
  note res = stage_many_result [OF wf assms(2)]
  show ?thesis
    by (rule kv_inv_plain [OF assms(1) tb_ok_stage_many [OF ok assms(2)] res(3)])
      (auto simp: res(4) last_staged_append_keyless)
qed

lemma kv_inv_drain:
  assumes "kv_inv hash cl B K" "drain tx B = (os, B')"
  shows "kv_inv hash (cl \<and> os = []) B' K"
proof -
  from assms(1) have ok: "tb_ok B" by (simp add: kv_inv_def)
  then have wf: "tb_wf B" by (simp add: tb_ok_def)
  note res = drain_result [OF wf assms(2)]
  have "staged t B' = (if t = tx then [] else staged t B)" for t by (simp add: staged_def res(5))
  then show ?thesis
    by (intro kv_inv_plain [OF assms(1) tb_ok_drain [OF ok assms(2)] res(3)]) (auto simp: res(4))
qed

lemma kv_inv_reap:
  assumes "kv_inv hash cl B K" "reap_orphans_bounded mx clock free B = (ex, B')"
  shows "kv_inv hash (cl \<and> (\<forall>tx\<in>set ex. staged tx B = [])) B' K"
proof -
  from assms(1) have ok: "tb_ok B" by (simp add: kv_inv_def)
  then have wf: "tb_wf B" by (simp add: tb_ok_def)
  have keys: "tb_key_shards B' = tb_key_shards B"
    using assms(2) by (auto simp: reap_orphans_bounded_def split: prod.splits)
  have "staged t B' = (if t \<in> set ex then [] else staged t B)" for t
    by (simp add: staged_def get_ops_def reap_orphans_bounded_result(3) [OF wf assms(2)])
  then show ?thesis
    by (intro kv_inv_plain [OF assms(1) tb_ok_reap [OF ok assms(2)] keys]) auto
qed

lemma kv_inv_stage_kv:
  assumes "kv_inv hash cl B K" "stage_kv hash tx op now B = (r, B')"
  shows "kv_inv hash
      (cl \<and> (r = Inr () \<or> (\<forall>k b. op_key op = Some (k, b) \<longrightarrow> last_staged k (staged tx B) = None))) B'
      (\<lambda>key t. case op_key op of
          None \<Rightarrow> K key t
        | Some (k, b) \<Rightarrow> if key = k \<and> t = tx then (if r = Inr () then Some b else None) else K key t)"
proof -
  from assms(1) have ok: "tb_wf B" "\<And>t. length (staged t B) \<le> tb_cap B" "key_shards_wf B"
    "\<And>key t. tracked hash B key t = K key t"
    "\<And>key t. cl \<Longrightarrow> K key t = last_staged key (staged t B)" by (simp_all add: kv_inv_def tb_ok_def)
  note res = stage_kv_result [OF ok(1) assms(2)] and tr = stage_kv_tracked [OF ok(1,3) assms(2)]
  have "length (staged t B') \<le> tb_cap B'" for t
    using ok(2) [of t] res(4) by (auto simp: res(2,3))
  moreover have "(case op_key op of
          None \<Rightarrow> K key t
        | Some (k, b) \<Rightarrow> if key = k \<and> t = tx then (if r = Inr () then Some b else None) else K key t) =
      last_staged key (staged t B')"
    if "cl" "r = Inr () \<or> (\<forall>k b. op_key op = Some (k, b) \<longrightarrow> last_staged k (staged tx B) = None)" for key t
    using ok(5) [OF that(1)] that(2)
    by (auto simp: res(3) last_staged_snoc key_flag_def split: option.splits)
  moreover have "tracked hash B' = (\<lambda>key t. case op_key op of
          None \<Rightarrow> K key t
        | Some (k, b) \<Rightarrow> if key = k \<and> t = tx then (if r = Inr () then Some b else None) else K key t)"
    by (intro ext) (simp only: tr(2) ok(4))
  ultimately show ?thesis using res(1) tr(1) by (simp add: kv_inv_def tb_ok_def)
qed

lemma kv_inv_take:
  assumes "kv_inv hash cl B K" "tb_wf B'" "key_shards_wf B'" "tb_cap B' = tb_cap B"
    and "\<And>t. staged t B' = (if t = tx then [] else staged t B)"
    and "\<And>key t. tracked hash B' key t =
       (if t = tx \<and> last_staged key (staged tx B) \<noteq> None then None else tracked hash B key t)"
  shows "kv_inv hash cl B'
     (\<lambda>key t. if t = tx \<and> last_staged key (staged tx B) \<noteq> None then None else K key t)"
  using assms by (auto simp: kv_inv_def tb_ok_def)

lemma kv_hist_inv: "kv_hist hash cl B K \<Longrightarrow> kv_inv hash cl B K"
proof (induction rule: kv_hist.induct)
  case (kh_new n d c)
  have "tb_ok (new_with_config_ext n d c :: kv_buffer)" by (rule tb_reach_ok [OF tb_new])
  then show ?case
    by (simp add: kv_inv_def staged_def get_ops_def)
      (auto simp: key_shards_wf_def new_with_config_ext_def Let_def tracked_def key_shard_idx_def)
next
  case (kh_begin cl B K tx now)
  then have "tb_wf B" by (simp add: kv_inv_def tb_ok_def)
  with kh_begin.IH show ?case
    by (intro kv_inv_plain [OF kh_begin.IH]) (simp_all add: kv_inv_def tb_ok_def tx_begin_wf)
next
  case (kh_drain_kv cl B K tx os B')
  then have wf: "tb_wf B" "key_shards_wf B" by (simp_all add: kv_inv_def tb_ok_def)
  note res = drain_kv_result [OF wf(1) kh_drain_kv.hyps(2)] drain_kv_tracked [OF wf kh_drain_kv.hyps(2)]
  show ?case unfolding res(2) by (rule kv_inv_take [OF kh_drain_kv.IH res(1,4,5,3,6)])
next
  case (kh_discard_kv cl B K tx)
  then have wf: "tb_wf B" "key_shards_wf B" by (simp_all add: kv_inv_def tb_ok_def)
  note res = discard_kv_result [OF wf]
  show ?case by (rule kv_inv_take [OF kh_discard_kv.IH res])
next
  case (kh_stage cl B K tx op now r B')
  then show ?case using kv_inv_stage_many [of hash cl B K tx "[op]" now r B']
    by (simp add: stage_eq_stage_many)
next
  case (kh_discard cl B K tx)
  then have wf: "tb_wf B" by (simp add: kv_inv_def tb_ok_def)
  obtain os B' where d: "drain tx B = (os, B')" by fastforce
  with kv_inv_drain [OF kh_discard.IH d] drain_result(4) [OF wf d] show ?case
    by (simp add: discard_eq_drain)
next
  case (kh_stage_kv cl B K tx op now r B')
  then show ?case by (intro kv_inv_stage_kv)
qed (auto intro: kv_inv_stage_many kv_inv_drain kv_inv_reap)

lemma staged_status_tracked:
  assumes "key_shards_wf B"
  shows "staged_status hash key B =
     (let T = {tx. tracked hash B key tx \<noteq> None}
      in if T = {} then None else tracked hash B key (Max T))"
proof (cases "map_of (tb_key_shards B ! key_shard_idx hash B key) key")
  case None
  then show ?thesis by (simp add: staged_status_def tracked_def)
next
  case (Some m)
  have tr: "tracked hash B key = map_of m" using Some by (auto simp: tracked_def)
  have "tb_key_shards B ! key_shard_idx hash B key \<in> set (tb_key_shards B)"
    using assms by (auto simp: key_shards_wf_def key_shard_idx_def)
  with Some assms have m: "m \<noteq> []" "hm_wf m" unfolding key_shards_wf_def by blast+
  have T: "{tx. tracked hash B key tx \<noteq> None} = fst ` set m"
    using dom_map_of_conv_image_fst [of m] tr by (simp add: dom_def)
  have "Max (fst ` set m) \<in> fst ` set m" using m by (intro Max_in) auto
  then have "map_of m (Max (fst ` set m)) \<noteq> None" by (simp add: map_of_eq_None_iff)
  with m T Some tr fold_status_step [OF m(2,1)] show ?thesis
    by (auto simp: staged_status_def Let_def)
qed

section \<open>Properties\<close>

text \<open>
  Transactions are isolated in the buffer: however the stages of several transactions
  interleave, as long as each stays within \<open>max_ops_per_tx\<close> every stage succeeds, \<open>drain_kv\<close>
  returns exactly the operations of its transaction in the order they were staged, and leaves
  those of every other transaction as they were.
\<close>

theorem drain_kv_returns_own_ops:
  assumes "\<forall>t. length (ops_of t xs) \<le> tbc_max_ops_per_tx c"
    and "stage_all (stage_kv hash) xs (new_with_config_ext n d c) = (r, B)"
    and "drain_kv hash tx B = (os, B')"
  shows "r = Inr () \<and> os = ops_of tx xs \<and> (\<forall>t. staged t B' = (if t = tx then [] else ops_of t xs))"
proof -
  let ?N = "new_with_config_ext n d c :: kv_buffer"
  have new: "tb_wf ?N" "\<forall>t. staged t ?N = []" "tb_cap ?N = tbc_max_ops_per_tx c"
    by (simp_all add: tb_wf_new staged_def get_ops_def)
      (simp add: new_with_config_ext_def Let_def)
  show ?thesis
    using kv_stage.stage_all_drain [OF new(1,2) _ assms(2,3)] assms(1) new(3) by auto
qed

theorem drain_kv_returns_own_ops_witness:
  "fst (drain_kv (\<lambda>k. 0) 1 (snd (stage_all (stage_kv (\<lambda>k. 0))
     [(1, IdxInsert 5 ([1], [2]), 0), (2, IdxDelete 6 None, 1), (1, IdxDelete 5 (Some ([1], [])), 2)]
     (new_with_config_ext 4 9 \<lparr>tbc_tx_timeout = 9, tbc_max_active_tx = 1, tbc_max_ops_per_tx = 2\<rparr>)))) =
   [IdxInsert 5 ([1], [2]), IdxDelete 5 (Some ([1], []))]"
proof -
  let ?xs = "[(1, IdxInsert 5 ([1], [2]), 0), (2, IdxDelete 6 None, 1),
    (1, IdxDelete 5 (Some ([1], [])), 2)] :: (tx_id \<times> kv_op \<times> instant) list"
  let ?c = "\<lparr>tbc_tx_timeout = 9, tbc_max_active_tx = 1, tbc_max_ops_per_tx = 2\<rparr>"
  obtain r B where st: "stage_all (stage_kv (\<lambda>k. 0)) ?xs (new_with_config_ext 4 9 ?c) = (r, B)"
    by fastforce
  obtain os B' where dr: "drain_kv (\<lambda>k. 0) 1 B = (os, B')" by fastforce
  have "\<forall>t. length (ops_of t ?xs) \<le> tbc_max_ops_per_tx ?c" by (simp add: ops_of_def)
  from drain_kv_returns_own_ops [OF this st dr] st dr show ?thesis by (simp add: ops_of_def)
qed

text \<open>
  C19. Bounded staging: no sequence of operations of a buffer leaves a transaction with more than
  \<open>max_ops_per_tx\<close> staged operations. This holds of a buffer with any payload under \<open>begin\<close>,
  \<open>stage\<close>, \<open>stage_many\<close>, \<open>drain\<close>, \<open>discard\<close> and the reaper, and of a key-value buffer on which
  these run in any order among \<open>stage_kv\<close>, \<open>drain_kv\<close> and \<open>discard_kv\<close>, failed stages included.
\<close>

theorem staged_ops_bounded:
  assumes "tb_reach B" "kv_hist hash cl C K"
  shows "(get_ops tx B = Some ops \<longrightarrow> length ops \<le> tbc_max_ops_per_tx (tb_config B)) \<and>
     (get_ops tx C = Some kv_ops \<longrightarrow> length kv_ops \<le> tbc_max_ops_per_tx (tb_config C))"
proof -
  have "tb_ok B" "tb_ok C"
    using tb_reach_ok [OF assms(1)] kv_hist_inv [OF assms(2)] by (simp_all add: kv_inv_def)
  then have "length (staged tx B) \<le> tb_cap B" "length (staged tx C) \<le> tb_cap C"
    by (simp_all add: tb_ok_def)
  then show ?thesis by (auto simp: staged_def)
qed

lemma tx_buffer_new_empty:
  "tb_cap tx_buffer_new = 10000" "staged t tx_buffer_new = []" "tb_wf tx_buffer_new"
  by (simp_all add: staged_def get_ops_def tx_buffer_new_def new_with_config_def tb_wf_new)
    (simp add: new_with_config_ext_def Let_def tx_buffer_config_default_def DEFAULT_MAX_OPS_PER_TX_def)

theorem staged_ops_bounded_witness:
  "length [IdxInsert 5 (7::nat)] \<le> tbc_max_ops_per_tx
     (tb_config (snd (stage 1 (IdxInsert 5 (7::nat)) 0 tx_buffer_new))) \<and>
   length [IdxInsert 5 ([1::u8], [2::u8])] \<le> tbc_max_ops_per_tx
     (tb_config (snd (stage_kv (\<lambda>k. 0) 1 (IdxInsert 5 ([1], [2])) 0 tx_buffer_new)))"
proof -
  have new: "tb_reach (tx_buffer_new :: nat tx_buffer)" "kv_hist (\<lambda>k. 0) True tx_buffer_new (\<lambda>k t. None)"
    by (simp_all add: tx_buffer_new_def new_with_config_def tb_new kh_new)
  note cap = tx_buffer_new_empty(1,2) and wf = tx_buffer_new_empty(3)
  obtain r B where st: "stage 1 (IdxInsert 5 (7::nat)) 0 tx_buffer_new = (r, B)" by fastforce
  obtain q C where kv: "stage_kv (\<lambda>k. 0) 1 (IdxInsert 5 ([1::u8], [2::u8])) 0 tx_buffer_new = (q, C)"
    by fastforce
  have B: "get_ops 1 B = Some [IdxInsert 5 7]"
    using stage_many_result(5,6) [OF wf st [unfolded stage_eq_stage_many]] by (simp add: cap)
  have "staged 1 C = [IdxInsert 5 ([1], [2])]"
    using stage_kv_result(3,4) [OF wf kv] by (simp add: cap)
  then have C: "get_ops 1 C = Some [IdxInsert 5 ([1], [2])]"
    by (auto simp: staged_def split: option.splits)
  from staged_ops_bounded [OF tb_stage [OF new(1) st] kh_stage_kv [OF new(2) kv], of 1
      "[IdxInsert 5 7]" "[IdxInsert 5 ([1], [2])]"] B C st kv
  show ?thesis by simp
qed

text \<open>
  C20. The key index is exact. After any history of the buffer \<open>staged_status\<close> answers with the
  entry of the largest transaction in the index \<open>K\<close> that the history describes, and with nothing
  when there is none. As long as the history has none of the steps that part the index from the
  staged operations, \<open>K\<close> holds for every key and transaction the last operation it staged there:
  these are a stage that fails at the capacity on a key its transaction has written
  (\<open>stage_kv_failure_forgets_key\<close>), the reaper, a plain drain or discard on a transaction with
  operations (\<open>reap_leaves_keys\<close>), and plain stages of operations with keys.
\<close>

theorem staged_status_exact:
  assumes "kv_hist hash cl B K"
  shows "staged_status hash key B =
     (let T = {tx. K key tx \<noteq> None} in if T = {} then None else K key (Max T)) \<and>
     (cl \<longrightarrow> (\<forall>tx. K key tx = last_staged key (staged tx B)))"
  using kv_hist_inv [OF assms] staged_status_tracked [of B hash key] by (simp add: kv_inv_def)

theorem staged_status_exact_witness:
  "staged_status (\<lambda>k. 0) [1] (snd (stage_kv (\<lambda>k. 0) 3 (IdxInsert 5 ([1], [2])) 0 tx_buffer_new)) =
     Some True"
proof -
  let ?N = "tx_buffer_new :: kv_buffer"
  have N: "kv_hist (\<lambda>k. 0) True ?N (\<lambda>k t. None)"
    by (simp add: tx_buffer_new_def new_with_config_def kh_new)
  obtain r B where st: "stage_kv (\<lambda>k. 0) 3 (IdxInsert 5 ([1], [2])) 0 ?N = (r, B)" by fastforce
  have r: "r = Inr ()"
    using stage_kv_result(4) [OF tx_buffer_new_empty(3) st] by (simp add: tx_buffer_new_empty)
  have K: "kv_hist (\<lambda>k. 0) True B (\<lambda>key t. if key = [1] \<and> t = 3 then Some True else None)"
    using kh_stage_kv [OF N st, unfolded r] by (simp cong: if_cong)
  have T: "{tx. (if [1] = [1::u8] \<and> tx = (3::tx_id) then Some True else None) \<noteq> None} = {3}" by auto
  from conjunct1 [OF staged_status_exact [OF K, of "[1]", unfolded Let_def T]] st show ?thesis by simp
qed

text \<open>
  The reaper is safe, bounded and complete: it reports and removes only transactions older
  than the timeout, at most \<open>max\<close> of them, keeps every other transaction untouched, and when
  every shard lock is free and the bound is not reached no expired transaction survives.
\<close>

theorem reap_orphans_bounded_correct:
  assumes "tb_reach B" "reap_orphans_bounded mx clock free B = (expired, B')"
  shows "set expired \<subseteq> expired_tx clock B \<and> length expired \<le> mx \<and>
     (\<forall>tx. tx_entry B' tx = (if tx \<in> set expired then None else tx_entry B tx)) \<and>
     (length expired < mx \<and> (\<forall>i < length (tb_shards B). i < length free \<and> free ! i) \<longrightarrow>
        expired_tx clock B' = {})"
proof -
  have wf: "tb_wf B" using tb_reach_ok [OF assms(1)] by (simp add: tb_ok_def)
  note res = reap_orphans_bounded_result [OF wf assms(2)]
  have "tb_tx_timeout B' = tb_tx_timeout B"
    using assms(2) by (auto simp: reap_orphans_bounded_def split: prod.splits)
  then have "expired_tx clock B' = expired_tx clock B - set expired"
    using res(3) by (auto simp: expired_tx_def split: if_splits)
  with res show ?thesis by auto
qed

theorem reap_orphans_bounded_correct_witness:
  "tx_entry (snd (reap_orphans_bounded 9 (\<lambda>tx. 20) [True]
     (tx_begin 1 0 (tx_begin 2 15 (new_with_config_ext 1 0
       \<lparr>tbc_tx_timeout = 9, tbc_max_active_tx = 1, tbc_max_ops_per_tx = 2\<rparr> :: nat tx_buffer))))) 2 =
   Some ([], 15)"
proof -
  let ?B = "tx_begin 1 0 (tx_begin 2 15 (new_with_config_ext 1 0
       \<lparr>tbc_tx_timeout = 9, tbc_max_active_tx = 1, tbc_max_ops_per_tx = 2\<rparr>)) :: nat tx_buffer"
  have B: "tb_reach ?B" by (intro tb_begin tb_new)
  have wf: "tb_wf (tx_begin 2 15 (new_with_config_ext 1 0
       \<lparr>tbc_tx_timeout = 9, tbc_max_active_tx = 1, tbc_max_ops_per_tx = 2\<rparr>) :: nat tx_buffer)"
    by (simp add: tx_begin_wf tb_wf_new)
  have e: "tx_entry ?B 2 = Some ([], 15)"
    by (subst tx_entry_begin [OF wf]) (simp add: tx_entry_begin tb_wf_new)
  have t: "tb_tx_timeout ?B = 9"
    by (simp add: tx_begin_def new_with_config_ext_def)
  obtain ex B' where r: "reap_orphans_bounded 9 (\<lambda>tx. 20) [True] ?B = (ex, B')" by fastforce
  have "2 \<notin> expired_tx (\<lambda>tx. 20) ?B" using e t by (simp add: expired_tx_def)
  then have "2 \<notin> set ex" using reap_orphans_bounded_correct [OF B r] by blast
  with reap_orphans_bounded_correct [OF B r] e r show ?thesis by simp
qed

section \<open>Limits of the key index\<close>

text \<open>
  A stage that fails on a full transaction removes the key from the index even when the same
  transaction wrote it before: the write is still staged, the index no longer shows it.
\<close>

lemma stage_kv_failure_forgets_key:
  "let c = \<lparr>tbc_tx_timeout = 9, tbc_max_active_tx = 1, tbc_max_ops_per_tx = 1\<rparr>;
       h = (\<lambda>k. 0);
       B = snd (stage_kv h 1 (IdxInsert 5 ([1], [2])) 0 (new_with_config_ext 1 0 c));
       B' = snd (stage_kv h 1 (IdxInsert 5 ([1], [3])) 0 B)
   in staged_status h [1] B = Some True \<and> is_key_staged_for_tx 1 [1] B' \<and>
      staged_status h [1] B' = None"
  by code_simp

text \<open>The reaper drops the operations of a transaction and leaves its keys in the index.\<close>

lemma reap_leaves_keys:
  "let c = \<lparr>tbc_tx_timeout = 9, tbc_max_active_tx = 1, tbc_max_ops_per_tx = 1\<rparr>;
       h = (\<lambda>k. 0);
       B = snd (stage_kv h 1 (IdxInsert 5 ([1], [2])) 0 (new_with_config_ext 1 0 c));
       B' = snd (reap_orphans_bounded 8 (\<lambda>tx. 50) [True] B)
   in \<not> has_tx 1 B' \<and> staged_status h [1] B' = Some True"
  by code_simp

end
