(* ===== verification/Mem_Table.thy ===== *)
theory Mem_Table
  imports Types
begin

text \<open>
  The sharded multi-version table of \<open>crates/contextra-store/src/memtable.rs\<close>. Sixteen ordered
  maps partition the key space by the first two key bytes; each key holds its versions in the
  order they were put. Every operation locks one shard at a time; the table is modelled as the
  sequence of whole operations, the compare-exchange loops on \<open>min_tx\<close> and \<open>max_tx\<close> as the
  minimum and maximum they compute.
\<close>

section \<open>Data\<close>

type_synonym version = "u64 \<times> bytes \<times> u64"
type_synonym mt_shard = "(bytes \<times> version list) list"
type_synonym scan_target = "(bytes \<times> bytes \<times> u64) list"

definition SHARD_COUNT :: nat where "SHARD_COUNT = 16"

record mem_table =
  mt_shards :: "mt_shard list"
  mt_size :: nat
  mt_min_tx :: u64
  mt_max_tx :: u64

section \<open>Operations\<close>

definition mem_table_new :: mem_table where
  "mem_table_new = \<lparr>mt_shards = replicate SHARD_COUNT [], mt_size = 0,
     mt_min_tx = - 1, mt_max_tx = 0\<rparr>"

definition shard_for :: "bytes \<Rightarrow> nat" where
  "shard_for key =
     (let b0 = (case get_at key 0 of None \<Rightarrow> 0 | Some b \<Rightarrow> b);
          b1 = (case get_at key 1 of None \<Rightarrow> 0 | Some b \<Rightarrow> b);
          val = push_bit 8 (ucast b0) OR ucast b1 :: u16
      in unat val * SHARD_COUNT div 65536)"

text \<open>Inclusive index ranges are pairs.\<close>

definition shard_range_for_prefix :: "bytes \<Rightarrow> nat \<times> nat" where
  "shard_range_for_prefix prefix =
     (if 2 \<le> length prefix then (shard_for prefix, shard_for prefix)
      else if length prefix = 1 then (shard_for [hd prefix, 0], shard_for [hd prefix, 255])
      else (0, SHARD_COUNT - 1))"

definition shard_range_for_bounds :: "key_bound \<Rightarrow> key_bound \<Rightarrow> nat \<times> nat" where
  "shard_range_for_bounds start stop =
     ((case start of Included s \<Rightarrow> shard_for s | Excluded s \<Rightarrow> shard_for s | Unbounded \<Rightarrow> 0),
      (case stop of Included e \<Rightarrow> shard_for e | Excluded e \<Rightarrow> shard_for e
        | Unbounded \<Rightarrow> SHARD_COUNT - 1))"

definition mt_put :: "bytes \<Rightarrow> bytes \<Rightarrow> u64 \<Rightarrow> u64 \<Rightarrow> mem_table \<Rightarrow> mem_table" where
  "mt_put key val seq_no tx_id T =
     (let i = shard_for key;
          entries = mt_shards T ! i;
          versions = (case map_of entries key of None \<Rightarrow> [] | Some vs \<Rightarrow> vs)
      in T\<lparr>mt_shards := (mt_shards T)[i := bt_insert key (versions @ [(seq_no, val, tx_id)]) entries],
           mt_size := mt_size T + (length key + length val + 16),
           mt_min_tx := min (mt_min_tx T) tx_id,
           mt_max_tx := max (mt_max_tx T) tx_id\<rparr>)"

definition tx_range :: "mem_table \<Rightarrow> u64 \<times> u64" where
  "tx_range T = (mt_min_tx T, mt_max_tx T)"

definition shard_iter :: "mt_shard \<Rightarrow> kv_entry list" where
  "shard_iter m = concat (map (\<lambda>(k, versions). map (\<lambda>(seq, val, tx). (k, val, seq, tx)) versions) m)"

definition mt_iter :: "mem_table \<Rightarrow> kv_entry list" where
  "mt_iter T = concat (map shard_iter (mt_shards T))"

definition shard_iter_latest :: "mt_shard \<Rightarrow> kv_entry list" where
  "shard_iter_latest m = concat (map (\<lambda>(k, versions).
     if versions = [] then [] else case last versions of (seq, val, tx) \<Rightarrow> [(k, val, seq, tx)]) m)"

definition mt_iter_latest :: "mem_table \<Rightarrow> kv_entry list" where
  "mt_iter_latest T = concat (map shard_iter_latest (mt_shards T))"

definition kv_entry_size :: "kv_entry \<Rightarrow> nat" where
  "kv_entry_size e = (case e of (k, v, s, t) \<Rightarrow> length k + length v + 16)"

text \<open>\<open>retain\<close> on every key's versions, then on the keys; the counters range over what it visits.\<close>

definition retain_versions :: "(version \<Rightarrow> bool) \<Rightarrow> mt_shard \<Rightarrow> mt_shard" where
  "retain_versions P m =
     filter (\<lambda>(k, versions). versions \<noteq> []) (map (\<lambda>(k, versions). (k, filter P versions)) m)"

definition mt_rollback :: "u64 \<Rightarrow> mem_table \<Rightarrow> mem_table" where
  "mt_rollback tx_id T =
     (let gone = filter (\<lambda>(k, v, s, t). t = tx_id) (mt_iter T);
          kept = filter (\<lambda>(k, v, s, t). t \<noteq> tx_id) (mt_iter T);
          freed = sum_list (map kv_entry_size gone)
      in T\<lparr>mt_shards := map (retain_versions (\<lambda>(s, v, t). t \<noteq> tx_id)) (mt_shards T),
           mt_size := mt_size T - freed,
           mt_min_tx := (if kept = [] then - 1 else fold min (map (\<lambda>(k, v, s, t). t) kept) (- 1)),
           mt_max_tx := (if kept = [] then 0 else fold max (map (\<lambda>(k, v, s, t). t) kept) 0)\<rparr>)"

definition mt_get :: "bytes \<Rightarrow> mem_table \<Rightarrow> (bytes \<times> u64) option" where
  "mt_get key T =
     (case map_of (mt_shards T ! shard_for key) key of
        None \<Rightarrow> None
      | Some versions \<Rightarrow>
          (if versions = [] then None
           else case last versions of (seq, val, tx) \<Rightarrow> Some (val, seq)))"

text \<open>The backwards scan over \<open>(0..=idx).rev()\<close>.\<close>

fun scan_back :: "version list \<Rightarrow> u64 \<Rightarrow> nat \<Rightarrow> (bytes \<times> u64 \<times> u64) option" where
  "scan_back versions max_tx i =
     (case versions ! i of (s, v, tx) \<Rightarrow>
        if tx_visible max_tx tx then Some (v, s, tx)
        else (case i of 0 \<Rightarrow> None | Suc j \<Rightarrow> scan_back versions max_tx j))"

declare scan_back.simps [simp del]

definition versions_at :: "version list \<Rightarrow> u64 \<Rightarrow> u64 \<Rightarrow> (bytes \<times> u64 \<times> u64) option" where
  "versions_at versions seq_no max_tx =
     (case binary_search (map (\<lambda>(s, v, t). raw_seq s) versions) seq_no of
        Inr i \<Rightarrow> scan_back versions max_tx i
      | Inl 0 \<Rightarrow> None
      | Inl (Suc i) \<Rightarrow> scan_back versions max_tx i)"

definition mt_get_at_seq :: "bytes \<Rightarrow> u64 \<Rightarrow> u64 \<Rightarrow> mem_table \<Rightarrow> (bytes \<times> u64 \<times> u64) option" where
  "mt_get_at_seq key seq_no max_tx T =
     (case map_of (mt_shards T ! shard_for key) key of
        None \<Rightarrow> None
      | Some versions \<Rightarrow> versions_at versions seq_no max_tx)"

definition mt_is_empty :: "mem_table \<Rightarrow> bool" where
  "mt_is_empty T = list_all (\<lambda>m. m = []) (mt_shards T)"

section \<open>Scans\<close>

text \<open>The loop over the versions of one key: the first version with the greatest number wins.\<close>

definition best_step ::
    "(bytes \<Rightarrow> u64 \<Rightarrow> u64 \<Rightarrow> bool) \<Rightarrow> bytes \<Rightarrow> u64 \<Rightarrow> u64 \<Rightarrow> version \<Rightarrow> (bytes \<times> u64) option \<Rightarrow>
     (bytes \<times> u64) option" where
  "best_step predicate k max_seq max_tx ver best =
     (case ver of (seq, val, tx) \<Rightarrow>
        if raw_seq seq \<le> max_seq \<and> tx_visible max_tx tx \<and> predicate k (raw_seq seq) tx
        then (case best of
                Some (_, best_seq) \<Rightarrow> if raw_seq best_seq < raw_seq seq then Some (val, seq) else best
              | None \<Rightarrow> Some (val, seq))
        else best)"

definition best_version ::
    "(bytes \<Rightarrow> u64 \<Rightarrow> u64 \<Rightarrow> bool) \<Rightarrow> bytes \<Rightarrow> u64 \<Rightarrow> u64 \<Rightarrow> version list \<Rightarrow> (bytes \<times> u64) option" where
  "best_version predicate k max_seq max_tx versions =
     fold (best_step predicate k max_seq max_tx) versions None"

text \<open>\<open>entry(k).or_insert\<close>, replaced when the scanned version is newer.\<close>

definition merge_entry :: "bytes \<Rightarrow> bytes \<times> u64 \<Rightarrow> scan_target \<Rightarrow> scan_target" where
  "merge_entry k vs target =
     (case map_of target k of
        None \<Rightarrow> bt_insert k vs target
      | Some old \<Rightarrow> if raw_seq (snd old) < raw_seq (snd vs) then bt_insert k vs target else target)"

definition scan_key ::
    "(bytes \<Rightarrow> u64 \<Rightarrow> u64 \<Rightarrow> bool) \<Rightarrow> u64 \<Rightarrow> u64 \<Rightarrow> bytes \<times> version list \<Rightarrow> scan_target \<Rightarrow> scan_target" where
  "scan_key predicate max_seq max_tx e target =
     (case best_version predicate (fst e) max_seq max_tx (snd e) of
        None \<Rightarrow> target
      | Some vs \<Rightarrow> merge_entry (fst e) vs target)"

text \<open>The shards of an inclusive range; an inverted range is empty.\<close>

definition shards_in :: "nat \<times> nat \<Rightarrow> mem_table \<Rightarrow> mt_shard list" where
  "shards_in r T = map (\<lambda>i. mt_shards T ! i) [fst r ..< Suc (snd r)]"

definition range_prefix :: "bytes \<Rightarrow> mt_shard \<Rightarrow> mt_shard" where
  "range_prefix prefix m = takeWhile (\<lambda>e. starts_with prefix (fst e)) (filter (\<lambda>e. prefix \<le> fst e) m)"

definition mt_scan_prefix_into_matching ::
    "bytes \<Rightarrow> u64 \<Rightarrow> tx_id \<Rightarrow> (bytes \<Rightarrow> u64 \<Rightarrow> u64 \<Rightarrow> bool) \<Rightarrow> mem_table \<Rightarrow> scan_target \<Rightarrow> scan_target" where
  "mt_scan_prefix_into_matching prefix seq_no max_tx predicate T target =
     fold (\<lambda>m. fold (scan_key predicate (raw_seq seq_no) max_tx) (range_prefix prefix m))
       (shards_in (shard_range_for_prefix prefix) T) target"

definition mt_scan_prefix_into ::
    "bytes \<Rightarrow> u64 \<Rightarrow> tx_id \<Rightarrow> mem_table \<Rightarrow> scan_target \<Rightarrow> scan_target" where
  "mt_scan_prefix_into prefix seq_no max_tx =
     mt_scan_prefix_into_matching prefix seq_no max_tx (\<lambda>k s t. True)"

text \<open>\<open>BTreeMap::range\<close> panics on an inverted range and on an empty one between equal exclusive bounds.\<close>

fun range_panics :: "key_bound \<Rightarrow> key_bound \<Rightarrow> bool" where
  "range_panics (Excluded s) (Excluded e) = (e \<le> s)"
| "range_panics (Included s) (Included e) = (e < s)"
| "range_panics (Included s) (Excluded e) = (e < s)"
| "range_panics (Excluded s) (Included e) = (e < s)"
| "range_panics _ _ = False"

text \<open>
  \<open>BTreeMap::range\<close>. It panics on reversed bounds, except that a map that never held a key has no root and
  returns nothing; this exception is left out, the results about scans assume bounds that are not reversed.
\<close>

definition bt_range :: "key_bound \<Rightarrow> key_bound \<Rightarrow> mt_shard \<Rightarrow> mt_shard res" where
  "bt_range start stop m =
     (if range_panics start stop then Inl (Panic ''range start is greater than range end in BTreeMap'')
      else Inr (filter (\<lambda>e. above start (fst e) \<and> below stop (fst e)) m))"

fun scan_shards_range ::
    "(bytes \<Rightarrow> u64 \<Rightarrow> u64 \<Rightarrow> bool) \<Rightarrow> u64 \<Rightarrow> u64 \<Rightarrow> key_bound \<Rightarrow> key_bound \<Rightarrow> mt_shard list \<Rightarrow>
     scan_target \<Rightarrow> scan_target res" where
  "scan_shards_range predicate max_seq max_tx start stop [] target = Inr target"
| "scan_shards_range predicate max_seq max_tx start stop (m # ms) target =
     rbind (bt_range start stop m) (\<lambda>es.
       scan_shards_range predicate max_seq max_tx start stop ms
         (fold (scan_key predicate max_seq max_tx) es target))"

definition mt_scan_range_into_matching ::
    "key_bound \<Rightarrow> key_bound \<Rightarrow> u64 \<Rightarrow> tx_id \<Rightarrow> (bytes \<Rightarrow> u64 \<Rightarrow> u64 \<Rightarrow> bool) \<Rightarrow> mem_table \<Rightarrow>
     scan_target \<Rightarrow> scan_target res" where
  "mt_scan_range_into_matching start stop seq_no max_tx predicate T target =
     scan_shards_range predicate (raw_seq seq_no) max_tx start stop
       (shards_in (shard_range_for_bounds start stop) T) target"

definition mt_scan_range_into ::
    "key_bound \<Rightarrow> key_bound \<Rightarrow> u64 \<Rightarrow> tx_id \<Rightarrow> mem_table \<Rightarrow> scan_target \<Rightarrow> scan_target res" where
  "mt_scan_range_into start stop seq_no max_tx =
     mt_scan_range_into_matching start stop seq_no max_tx (\<lambda>k s t. True)"

section \<open>Shard selection\<close>

definition first_byte :: "bytes \<Rightarrow> nat" where
  "first_byte k = (case k of [] \<Rightarrow> 0 | b # _ \<Rightarrow> unat b)"

lemma unat_be16: "unat ((push_bit 8 (ucast b0) :: u16) OR ucast b1) = unat (b0::u8) * 256 + unat (b1::u8)"
proof -
  have *: "(push_bit 8 (ucast b0) :: u16) OR ucast b1 = push_bit 8 (ucast b0) + ucast b1"
  proof (rule disjunctive_add_eq_or [symmetric], rule bit_word_eqI)
    fix n
    show "bit ((push_bit 8 (ucast b0) :: u16) AND ucast b1) n = bit (0::u16) n"
      using bit_imp_le_length [of b1 n] by (auto simp: bit_simps)
  qed
  have "unat b0 < 256" "unat b1 < 256" using unat_lt_pow [of b0] unat_lt_pow [of b1] by auto
  then have "unat (push_bit 8 (ucast b0) :: u16) = unat b0 * 256" "unat (ucast b1 :: u16) = unat b1"
    by (simp_all add: unat_word_ariths unsigned_ucast_eq push_bit_eq_mult take_bit_eq_mod)
  with * \<open>unat b0 < 256\<close> \<open>unat b1 < 256\<close> show ?thesis by (simp add: unat_word_ariths)
qed

lemma shard_for_first: "shard_for k = first_byte k div 16"
proof -
  have "(unat b0 * 256 + unat b1) * 16 div 65536 = unat b0 div 16" for b0 b1 :: u8
  proof -
    have "unat b1 < 256" using unat_lt_pow [of b1] by simp
    then have "(unat b0 * 256 + unat b1) div 256 = unat b0" by simp
    moreover have "(unat b0 * 256 + unat b1) div 4096 = (unat b0 * 256 + unat b1) div 256 div 16"
      using div_mult2_eq [of "unat b0 * 256 + unat b1" 256 16] by simp
    ultimately have "(unat b0 * 256 + unat b1) div 4096 = unat b0 div 16" by simp
    moreover have "(unat b0 * 256 + unat b1) * 16 div 65536 = (unat b0 * 256 + unat b1) div 4096"
      by simp
    ultimately show ?thesis by simp
  qed
  then show ?thesis
    unfolding shard_for_def Let_def unat_be16 SHARD_COUNT_def first_byte_def get_at_def
    by (cases k) auto
qed

lemma shard_for_lt: "shard_for k < 16"
  using unat_lt_pow [of "hd k"] by (cases k) (auto simp: shard_for_first first_byte_def)

lemma first_byte_mono: "k \<le> k' \<Longrightarrow> first_byte k \<le> first_byte k'"
  by (cases k; cases k') (auto simp: first_byte_def word_less_nat_alt)

lemma shard_for_mono: "k \<le> k' \<Longrightarrow> shard_for k \<le> shard_for k'"
  by (simp add: shard_for_first div_le_mono first_byte_mono)

section \<open>Versions of a key\<close>

definition pick_last :: "version list \<Rightarrow> (bytes \<times> u64 \<times> u64) option" where
  "pick_last vs = (if vs = [] then None else case last vs of (s, v, t) \<Rightarrow> Some (v, s, t))"

lemma scan_back_spec:
  "i < length vs \<Longrightarrow>
     scan_back vs m i = pick_last (filter (\<lambda>(s, v, t). tx_visible m t) (take (Suc i) vs))"
proof (induction i)
  case 0
  then show ?case
    by (subst scan_back.simps) (auto simp: pick_last_def take_Suc hd_conv_nth split: prod.splits)
next
  case (Suc i)
  then have "take (Suc (Suc i)) vs = take (Suc i) vs @ [vs ! Suc i]"
    by (simp add: take_Suc_conv_app_nth)
  with Suc show ?case
    by (subst scan_back.simps) (auto simp: pick_last_def split: prod.splits)
qed

text \<open>The binary search and backwards scan find the last visible version not above the snapshot.\<close>

lemma versions_at_spec:
  assumes "sorted (map (\<lambda>(s, v, t). raw_seq s) vs)"
  shows "versions_at vs q m =
     pick_last (filter (\<lambda>(s, v, t). raw_seq s \<le> q \<and> tx_visible m t) vs)"
proof (cases "vs = []")
  case True
  then show ?thesis by (simp add: versions_at_def binary_search_def pick_last_def)
next
  case False
  let ?ks = "map (\<lambda>(s, v, t). raw_seq s) vs"
  define b where "b = bsearch_window ?ks q 0 (length ?ks)"
  have "\<forall>i. 0 + length ?ks \<le> i \<and> i < length ?ks \<longrightarrow> q < ?ks ! i" by auto
  from bsearch_window_bounds [OF assms _ _ _ this] False
  have b: "b < length vs" "b = 0 \<or> ?ks ! b \<le> q" "\<forall>i. b < i \<and> i < length vs \<longrightarrow> q < ?ks ! i"
    unfolding b_def Let_def by auto
  have hi: "filter (\<lambda>(s, v, t). raw_seq s \<le> q \<and> tx_visible m t) (drop (Suc b) vs) = []"
    using b(3) by (auto simp: filter_empty_conv in_set_conv_nth not_le)
      (metis (no_types, lifting) add_Suc_right less_add_Suc1 linorder_not_le add.commute
        less_diff_conv nth_map old.prod.case)
  show ?thesis
  proof (cases "?ks ! b \<le> q")
    case True
    have lo: "raw_seq (fst e) \<le> q" if "e \<in> set (take (Suc b) vs)" for e
    proof -
      from that obtain i where i: "i \<le> b" "e = vs ! i" by (auto simp: in_set_conv_nth less_Suc_eq_le)
      then have "?ks ! i \<le> ?ks ! b" using assms b(1) by (intro sorted_nth_mono) auto
      with i b(1) True show ?thesis by (auto simp: case_prod_beta)
    qed
    have "filter (\<lambda>(s, v, t). raw_seq s \<le> q \<and> tx_visible m t) (take (Suc b) vs) =
        filter (\<lambda>(s, v, t). tx_visible m t) (take (Suc b) vs)"
      using lo by (intro filter_cong) auto
    with hi have "filter (\<lambda>(s, v, t). raw_seq s \<le> q \<and> tx_visible m t) vs =
        filter (\<lambda>(s, v, t). tx_visible m t) (take (Suc b) vs)"
      by (metis append_Nil2 append_take_drop_id filter_append)
    moreover have "versions_at vs q m = scan_back vs m b"
      using True False by (auto simp: versions_at_def binary_search_def Let_def b_def)
    ultimately show ?thesis using scan_back_spec [OF b(1)] by simp
  next
    case no: False
    then have "b = 0" using b(2) by blast
    then obtain e es where vs: "vs = e # es" using False by (cases vs) auto
    have "filter (\<lambda>(s, v, t). raw_seq s \<le> q \<and> tx_visible m t) vs = []"
      using hi no \<open>b = 0\<close> vs by (auto simp: case_prod_beta)
    moreover have "binary_search ?ks q = Inl 0"
      using no False \<open>b = 0\<close> unfolding binary_search_def Let_def b_def [symmetric] by auto
    then have "versions_at vs q m = None" by (simp add: versions_at_def)
    ultimately show ?thesis by (simp add: pick_last_def)
  qed
qed

section \<open>Well-formed tables\<close>

definition mt_wf :: "mem_table \<Rightarrow> bool" where
  "mt_wf T \<longleftrightarrow> length (mt_shards T) = 16 \<and>
     (\<forall>i < 16. bt_wf (mt_shards T ! i) \<and>
        (\<forall>e\<in>set (mt_shards T ! i). shard_for (fst e) = i \<and> snd e \<noteq> []))"

definition mt_flat :: "mem_table \<Rightarrow> mt_shard" where
  "mt_flat T = concat (mt_shards T)"

definition mt_versions :: "mem_table \<Rightarrow> bytes \<Rightarrow> version list" where
  "mt_versions T k = (case map_of (mt_shards T ! shard_for k) k of None \<Rightarrow> [] | Some vs \<Rightarrow> vs)"

lemma mt_flat_wf: "mt_wf T \<Longrightarrow> bt_wf (mt_flat T)"
  unfolding mt_flat_def
  by (rule bt_wf_concat [where f = shard_for and j = 0]) (auto simp: mt_wf_def shard_for_mono)

lemma mt_shard_ok:
  assumes "mt_wf T"
  shows "bt_wf (mt_shards T ! shard_for k)" "length (mt_shards T) = 16"
    "e \<in> set (mt_shards T ! shard_for k) \<Longrightarrow> shard_for (fst e) = shard_for k \<and> snd e \<noteq> []"
  using assms shard_for_lt [of k] unfolding mt_wf_def by blast+

lemma mt_flat_mem:
  assumes "mt_wf T"
  shows "e \<in> set (mt_flat T) \<longleftrightarrow> e \<in> set (mt_shards T ! shard_for (fst e))"
proof
  assume "e \<in> set (mt_flat T)"
  then obtain i where i: "i < length (mt_shards T)" "e \<in> set (mt_shards T ! i)"
    by (auto simp: mt_flat_def in_set_conv_nth [of _ "mt_shards T"])
  with assms have "shard_for (fst e) = i" unfolding mt_wf_def by metis
  with i show "e \<in> set (mt_shards T ! shard_for (fst e))" by simp
next
  assume "e \<in> set (mt_shards T ! shard_for (fst e))"
  moreover have "mt_shards T ! shard_for (fst e) \<in> set (mt_shards T)"
    using mt_shard_ok(2) [OF assms] shard_for_lt [of "fst e"] by simp
  ultimately show "e \<in> set (mt_flat T)" by (auto simp: mt_flat_def)
qed

lemma mt_flat_lookup:
  assumes "mt_wf T" shows "map_of (mt_flat T) k = map_of (mt_shards T ! shard_for k) k"
proof -
  have "bt_wf (mt_shards T ! shard_for k)" by (rule mt_shard_ok(1) [OF assms])
  then have "map_of (mt_flat T) k = Some v \<longleftrightarrow> map_of (mt_shards T ! shard_for k) k = Some v" for v
    using mt_flat_wf [OF assms] mt_flat_mem [OF assms, of "(k, v)"]
    by (simp add: bt_wf_map_of_in [symmetric])
  then show ?thesis by (metis not_None_eq)
qed

lemma mt_flat_versions:
  assumes "mt_wf T" "e \<in> set (mt_flat T)"
  shows "snd e = mt_versions T (fst e) \<and> snd e \<noteq> []"
proof -
  have "map_of (mt_flat T) (fst e) = Some (snd e)"
    using bt_wf_map_of_in [OF mt_flat_wf [OF assms(1)], of "fst e" "snd e"] assms(2) by simp
  moreover have "snd e \<noteq> []"
    using mt_shard_ok(3) [OF assms(1), of e "fst e"] assms mt_flat_mem by blast
  ultimately show ?thesis by (simp add: mt_versions_def mt_flat_lookup [OF assms(1)])
qed

lemma mt_flat_keys: "mt_wf T \<Longrightarrow> k \<in> fst ` set (mt_flat T) \<longleftrightarrow> mt_versions T k \<noteq> []"
proof
  assume wf: "mt_wf T" and "k \<in> fst ` set (mt_flat T)"
  then show "mt_versions T k \<noteq> []" using mt_flat_versions by fastforce
next
  assume wf: "mt_wf T" and "mt_versions T k \<noteq> []"
  then obtain vs where "map_of (mt_flat T) k = Some vs"
    by (auto simp: mt_versions_def mt_flat_lookup split: option.splits)
  then show "k \<in> fst ` set (mt_flat T)" by (metis domI dom_map_of_conv_image_fst)
qed

lemma mt_wf_new: "mt_wf mem_table_new"
  by (simp add: mt_wf_def mem_table_new_def SHARD_COUNT_def)

lemma mt_versions_new [simp]: "mt_versions mem_table_new k = []"
  using shard_for_lt [of k] by (simp add: mt_versions_def mem_table_new_def SHARD_COUNT_def)

lemma mt_put_wf:
  assumes "mt_wf T" shows "mt_wf (mt_put k v s t T)"
proof -
  note sh = mt_shard_ok [OF assms]
  have "bt_wf (mt_shards (mt_put k v s t T) ! i) \<and>
      (\<forall>e\<in>set (mt_shards (mt_put k v s t T) ! i). shard_for (fst e) = i \<and> snd e \<noteq> [])"
    if "i < 16" for i
  proof (cases "i = shard_for k")
    case True
    with sh(1) [of k] sh(2) that show ?thesis
      by (auto simp: mt_put_def Let_def set_bt_insert dest: sh(3))
  next
    case False
    with assms that show ?thesis by (auto simp: mt_put_def Let_def mt_wf_def)
  qed
  with sh(2) show ?thesis by (simp add: mt_wf_def mt_put_def Let_def)
qed

lemma mt_versions_put:
  assumes "mt_wf T"
  shows "mt_versions (mt_put k v s t T) k' = mt_versions T k' @ (if k' = k then [(s, v, t)] else [])"
proof -
  note mt_shard_ok [OF assms]
  then show ?thesis
    using shard_for_lt [of k] by (auto simp: mt_versions_def mt_put_def Let_def nth_list_update)
qed

lemma retain_versions_set:
  "set (retain_versions P m) = {(k, vs'). vs' \<noteq> [] \<and> (\<exists>vs. (k, vs) \<in> set m \<and> vs' = filter P vs)}"
  by (auto simp: retain_versions_def)

lemma retain_versions_wf: "bt_wf m \<Longrightarrow> bt_wf (retain_versions P m)"
  unfolding retain_versions_def
  by (intro bt_wf_filter bt_wf_map_value) auto

lemma map_of_retain:
  assumes "bt_wf m"
  shows "map_of (retain_versions P m) k = (case map_of m k of None \<Rightarrow> None
     | Some vs \<Rightarrow> if filter P vs = [] then None else Some (filter P vs))"
proof -
  have *: "map_of (retain_versions P m) k = Some w \<longleftrightarrow>
      (\<exists>vs. map_of m k = Some vs \<and> w = filter P vs \<and> w \<noteq> [])" for w
    using bt_wf_map_of_in [OF retain_versions_wf [OF assms], of k w]
      bt_wf_map_of_in [OF assms, of k] by (auto simp: retain_versions_set)
  show ?thesis
  proof (cases "map_of m k")
    case None
    with * show ?thesis by (cases "map_of (retain_versions P m) k") auto
  next
    case (Some vs)
    with * show ?thesis by (cases "map_of (retain_versions P m) k") auto
  qed
qed

lemma mt_rollback_wf: "mt_wf T \<Longrightarrow> mt_wf (mt_rollback tx T)"
  by (fastforce simp: mt_wf_def mt_rollback_def Let_def retain_versions_wf retain_versions_set)

lemma mt_versions_rollback:
  assumes "mt_wf T"
  shows "mt_versions (mt_rollback tx T) k = filter (\<lambda>(s, v, t). t \<noteq> tx) (mt_versions T k)"
proof -
  note mt_shard_ok [OF assms]
  then show ?thesis
    using shard_for_lt [of k]
    by (simp add: mt_versions_def mt_rollback_def Let_def map_of_retain split: option.splits)
qed

section \<open>Reachable tables\<close>

text \<open>
  The first component is the list of surviving puts in the order they were made. The store
  numbers the writes of a key in ascending order.
\<close>

fun entry_seq :: "kv_entry \<Rightarrow> u64" where "entry_seq (k, v, s, t) = raw_seq s"
fun entry_tx :: "kv_entry \<Rightarrow> u64" where "entry_tx (k, v, s, t) = t"
fun to_version :: "kv_entry \<Rightarrow> version" where "to_version (k, v, s, t) = (s, v, t)"

inductive mt_reach :: "kv_entry list \<Rightarrow> mem_table \<Rightarrow> bool" where
  mt_reach_new: "mt_reach [] mem_table_new"
| mt_reach_put: "mt_reach ps T \<Longrightarrow> \<forall>p\<in>set ps. fst p = k \<longrightarrow> entry_seq p < raw_seq s \<Longrightarrow>
    mt_reach (ps @ [(k, v, s, t)]) (mt_put k v s t T)"
| mt_reach_rollback: "mt_reach ps T \<Longrightarrow>
    mt_reach (filter (\<lambda>p. entry_tx p \<noteq> tx) ps) (mt_rollback tx T)"

definition puts_of :: "bytes \<Rightarrow> kv_entry list \<Rightarrow> kv_entry list" where
  "puts_of k ps = filter (\<lambda>p. fst p = k) ps"

lemma mt_reach_versions:
  "mt_reach ps T \<Longrightarrow> mt_wf T \<and> (\<forall>k. mt_versions T k = map to_version (puts_of k ps))"
proof (induction rule: mt_reach.induct)
  case mt_reach_new
  show ?case by (simp add: mt_wf_new puts_of_def)
next
  case (mt_reach_put ps T k s v t)
  then show ?case by (simp add: mt_put_wf mt_versions_put puts_of_def)
next
  case (mt_reach_rollback ps T tx)
  have "filter (\<lambda>(s, v, t). t \<noteq> tx) (map to_version (puts_of k ps)) =
      map to_version (puts_of k (filter (\<lambda>p. entry_tx p \<noteq> tx) ps))" for k
    unfolding puts_of_def by (induction ps) auto
  with mt_reach_rollback show ?case by (simp add: mt_rollback_wf mt_versions_rollback)
qed

lemma mt_reach_sorted: "mt_reach ps T \<Longrightarrow> sorted_wrt (<) (map entry_seq (puts_of k ps))"
proof (induction rule: mt_reach.induct)
  case (mt_reach_put ps T k' s v t)
  then show ?case by (auto simp: puts_of_def sorted_wrt_append)
next
  case (mt_reach_rollback ps T tx)
  have "puts_of k (filter P ps) = filter P (puts_of k ps)" for P
    by (simp add: puts_of_def conj_commute)
  with mt_reach_rollback show ?case by (simp add: sorted_wrt_map sorted_wrt_filter)
qed (simp add: puts_of_def)

section \<open>Iteration\<close>

lemma shard_iter_simps [simp]:
  "shard_iter [] = []"
  "shard_iter ((k, vs) # m) = map (\<lambda>(s, v, t). (k, v, s, t)) vs @ shard_iter m"
  by (simp_all add: shard_iter_def)

lemma shard_iter_append: "shard_iter (m @ n) = shard_iter m @ shard_iter n"
  by (simp add: shard_iter_def)

lemma mt_iter_flat: "mt_iter T = shard_iter (mt_flat T)"
proof -
  have "concat (map shard_iter ms) = shard_iter (concat ms)" for ms
    by (induction ms) (simp_all add: shard_iter_append)
  then show ?thesis by (simp add: mt_iter_def mt_flat_def)
qed

lemma shard_iter_keys: "e \<in> set (shard_iter m) \<Longrightarrow> fst e \<in> fst ` set m"
  by (induction m) auto

lemma shard_iter_sorted: "bt_wf m \<Longrightarrow> sorted (map fst (shard_iter m))"
proof (induction m)
  case (Cons p m)
  obtain k vs where p: "p = (k, vs)" by fastforce
  have "k \<le> fst e" if "e \<in> set (shard_iter m)" for e
    using shard_iter_keys [OF that] Cons.prems p by (auto intro: less_imp_le)
  moreover have "map fst (map (\<lambda>(s, v, t). (k, v, s, t)) vs) = replicate (length vs) k"
    by (induction vs) auto
  ultimately show ?case using Cons p
    by (auto simp: sorted_append sorted_replicate simp del: map_map)
qed simp

lemma filter_shard_iter:
  "bt_wf m \<Longrightarrow> filter (\<lambda>e. fst e = k) (shard_iter m) =
     (case map_of m k of None \<Rightarrow> [] | Some vs \<Rightarrow> map (\<lambda>(s, v, t). (k, v, s, t)) vs)"
proof (induction m)
  case (Cons p m)
  obtain k' vs where p: "p = (k', vs)" by fastforce
  have *: "filter (\<lambda>e. fst e = k) (map (\<lambda>(s, v, t). (k', v, s, t)) vs) =
      (if k' = k then map (\<lambda>(s, v, t). (k, v, s, t)) vs else [])"
    by (induction vs) auto
  have "map_of m k' = None" using Cons.prems p by (force simp: map_of_eq_None_iff)
  with Cons p * show ?case by auto
qed simp

lemma filter_mt_iter:
  assumes "mt_reach ps T" shows "filter (\<lambda>e. fst e = k) (mt_iter T) = puts_of k ps"
proof -
  have wf: "mt_wf T" and vs: "mt_versions T k = map to_version (puts_of k ps)"
    using mt_reach_versions [OF assms] by auto
  have "filter (\<lambda>e. fst e = k) (mt_iter T) = map (\<lambda>(s, v, t). (k, v, s, t)) (mt_versions T k)"
    using filter_shard_iter [OF mt_flat_wf [OF wf], of k]
    by (simp add: mt_iter_flat mt_flat_lookup [OF wf] mt_versions_def split: option.splits)
  also have "\<dots> = puts_of k ps"
    unfolding vs puts_of_def by (induction ps) auto
  finally show ?thesis .
qed

text \<open>Concatenating the shards is the stable sort of the surviving puts by key.\<close>

lemma mset_eq_by_key:
  assumes "\<And>k. filter (\<lambda>e. f e = k) xs = filter (\<lambda>e. f e = k) ys"
  shows "mset xs = mset ys"
proof (rule multiset_eqI)
  fix e
  have "count (mset zs) e = count (mset (filter (\<lambda>y. f y = f e) zs)) e" for zs
    by (induction zs) auto
  then show "count (mset xs) e = count (mset ys) e" using assms [of "f e"] by metis
qed

lemma mt_iter_sorts:
  assumes "mt_reach ps T" shows "mt_iter T = sort_key fst ps"
proof -
  have wf: "mt_wf T" using mt_reach_versions [OF assms] by simp
  have eq: "filter (\<lambda>e. fst e = k) (mt_iter T) = filter (\<lambda>e. fst e = k) ps" for k
    using filter_mt_iter [OF assms] by (simp add: puts_of_def)
  have flip: "filter (\<lambda>x. fst k = fst x) xs = filter (\<lambda>x. fst x = fst k) xs"
    for xs :: "kv_entry list" and k :: kv_entry
    by (rule filter_cong) auto
  show ?thesis
  proof (rule properties_for_sort_key [symmetric])
    show "mset (mt_iter T) = mset ps" by (rule mset_eq_by_key [where f = fst]) (rule eq)
    show "filter (\<lambda>x. fst k = fst x) (mt_iter T) = filter (\<lambda>x. fst k = fst x) ps"
      for k :: kv_entry unfolding flip by (rule eq)
    show "sorted (map fst (mt_iter T))"
      unfolding mt_iter_flat by (rule shard_iter_sorted [OF mt_flat_wf [OF wf]])
  qed
qed

lemma mt_iter_mset: "mt_reach ps T \<Longrightarrow> mset (mt_iter T) = mset ps"
  by (simp add: mt_iter_sorts)

lemma mt_iter_latest_flat: "mt_iter_latest T = shard_iter_latest (mt_flat T)"
proof -
  have "concat (map shard_iter_latest ms) = shard_iter_latest (concat ms)" for ms
    by (induction ms) (simp_all add: shard_iter_latest_def)
  then show ?thesis by (simp add: mt_iter_latest_def mt_flat_def)
qed

lemma shard_iter_latest_map:
  "(\<And>e. e \<in> set m \<Longrightarrow> snd e = map to_version (f (fst e)) \<and> f (fst e) \<noteq> [] \<and>
      (\<forall>p\<in>set (f (fst e)). fst p = fst e)) \<Longrightarrow>
   shard_iter_latest m = map (\<lambda>k. last (f k)) (map fst m)"
proof (induction m)
  case (Cons e m)
  obtain k vs where e: "e = (k, vs)" by fastforce
  have k: "vs = map to_version (f k)" "f k \<noteq> []" "\<forall>p\<in>set (f k). fst p = k"
    using Cons.prems [of e] e by auto
  have "fst (last (f k)) = k" using last_in_set [OF k(2)] k(3) by blast
  then obtain v s t where l: "last (f k) = (k, v, s, t)" by (metis prod.collapse)
  have "shard_iter_latest m = map (\<lambda>k. last (f k)) (map fst m)"
    using Cons.prems by (intro Cons.IH) simp
  with k l e show ?case by (simp add: shard_iter_latest_def last_map)
qed (simp add: shard_iter_latest_def)

lemma mt_iter_latest_spec:
  assumes "mt_reach ps T"
  shows "mt_iter_latest T = map (\<lambda>k. last (puts_of k ps)) (sorted_list_of_set (fst ` set ps))"
proof -
  have wf: "mt_wf T" and vs: "\<And>k. mt_versions T k = map to_version (puts_of k ps)"
    using mt_reach_versions [OF assms] by auto
  have "snd e = map to_version (puts_of (fst e) ps) \<and> puts_of (fst e) ps \<noteq> [] \<and>
      (\<forall>p\<in>set (puts_of (fst e) ps). fst p = fst e)" if "e \<in> set (mt_flat T)" for e
    using mt_flat_versions [OF wf that] vs [of "fst e"] by (auto simp: puts_of_def)
  then have "shard_iter_latest (mt_flat T) = map (\<lambda>k. last (puts_of k ps)) (map fst (mt_flat T))"
    by (rule shard_iter_latest_map)
  moreover have "map fst (mt_flat T) = sorted_list_of_set (fst ` set ps)"
  proof -
    have "k \<in> fst ` set (mt_flat T) \<longleftrightarrow> k \<in> fst ` set ps" for k
      unfolding mt_flat_keys [OF wf] vs by (auto simp: puts_of_def filter_empty_conv)
    then have "set (sorted_list_of_set (fst ` set ps)) = set (map fst (mt_flat T))" by auto
    moreover have "sorted_wrt (<) (map fst (mt_flat T))"
      using mt_flat_wf [OF wf] by (simp add: bt_wf_def)
    moreover have "sorted_wrt (<) (sorted_list_of_set (fst ` set ps))"
      by (simp add: strict_sorted_list_of_set)
    ultimately show ?thesis by (metis strict_sorted_equal)
  qed
  ultimately show ?thesis by (simp add: mt_iter_latest_flat)
qed

section \<open>Counters\<close>

lemma sum_list_mset_eq: "mset xs = mset ys \<Longrightarrow> sum_list (map f xs) = (sum_list (map f ys) :: nat)"
  by (metis mset_map sum_mset_sum_list)

lemma sum_list_filter_split:
  "sum_list (map f xs) = sum_list (map f (filter (\<lambda>x. \<not> P x) xs)) + (sum_list (map f (filter P xs)) :: nat)"
  by (induction xs) auto

lemma mt_reach_size: "mt_reach ps T \<Longrightarrow> mt_size T = sum_list (map kv_entry_size ps)"
proof (induction rule: mt_reach.induct)
  case mt_reach_new
  show ?case by (simp add: mem_table_new_def)
next
  case (mt_reach_put ps T k s v t)
  then show ?case by (simp add: mt_put_def Let_def kv_entry_size_def)
next
  case (mt_reach_rollback ps T tx)
  have pred: "(\<lambda>(k, v, s, t). t = tx) = (\<lambda>p. entry_tx p = tx)" by auto
  have "mset (filter (\<lambda>p. entry_tx p = tx) (mt_iter T)) = mset (filter (\<lambda>p. entry_tx p = tx) ps)"
    unfolding mset_filter mt_iter_mset [OF mt_reach_rollback.hyps] ..
  from sum_list_mset_eq [OF this, of kv_entry_size]
  show ?case
    using mt_reach_rollback.IH sum_list_filter_split [of kv_entry_size ps "\<lambda>p. entry_tx p = tx"]
    unfolding mt_rollback_def Let_def pred by simp
qed

lemma mt_reach_tx_range:
  "mt_reach ps T \<Longrightarrow>
     mt_min_tx T = fold min (map entry_tx ps) (- 1) \<and> mt_max_tx T = fold max (map entry_tx ps) 0"
proof (induction rule: mt_reach.induct)
  case mt_reach_new
  show ?case by (simp add: mem_table_new_def)
next
  case (mt_reach_put ps T k s v t)
  then show ?case by (simp add: mt_put_def Let_def min.commute max.commute)
next
  case (mt_reach_rollback ps T tx)
  have pred: "(\<lambda>(k, v, s, t). t \<noteq> tx) = (\<lambda>p. entry_tx p \<noteq> tx)" "(\<lambda>(k, v, s, t). t) = entry_tx"
    by auto
  have set: "set (mt_iter T) = set ps"
    by (rule mset_eq_setD [OF mt_iter_mset [OF mt_reach_rollback.hyps]])
  then have "filter (\<lambda>p. entry_tx p \<noteq> tx) (mt_iter T) = [] \<longleftrightarrow>
      filter (\<lambda>p. entry_tx p \<noteq> tx) ps = []" by (simp add: filter_empty_conv)
  with set show ?case
    unfolding mt_rollback_def Let_def pred
    by (cases "filter (\<lambda>p. entry_tx p \<noteq> tx) ps = []") (simp_all add: fold_min_Min fold_max_Max)
qed

section \<open>Scans\<close>

text \<open>The version a scan reports for a key, and how it is merged into what was found before.\<close>

fun newer :: "(bytes \<times> u64) option \<Rightarrow> (bytes \<times> u64) option \<Rightarrow> (bytes \<times> u64) option" where
  "newer old None = old"
| "newer None (Some vs) = Some vs"
| "newer (Some o1) (Some vs) = (if raw_seq (snd o1) < raw_seq (snd vs) then Some vs else Some o1)"

lemma newer_None [simp]: "newer None x = x"
  by (cases x) auto

lemma merge_entry_spec:
  "bt_wf target \<Longrightarrow> bt_wf (merge_entry k vs target) \<and>
     map_of (merge_entry k vs target) = (map_of target)(k := newer (map_of target k) (Some vs))"
  by (auto simp: merge_entry_def fun_eq_iff split: option.splits)

lemma scan_key_spec:
  "bt_wf target \<Longrightarrow> bt_wf (scan_key P q m e target) \<and>
     map_of (scan_key P q m e target) = (map_of target)(fst e :=
       newer (map_of target (fst e)) (best_version P (fst e) q m (snd e)))"
  by (auto simp: scan_key_def merge_entry_spec split: option.splits)

lemma fold_scan_key:
  "bt_wf target \<Longrightarrow> distinct (map fst es) \<Longrightarrow>
     bt_wf (fold (scan_key P q m) es target) \<and>
     map_of (fold (scan_key P q m) es target) k = newer (map_of target k)
       (case map_of es k of None \<Rightarrow> None | Some vs \<Rightarrow> best_version P k q m vs)"
proof (induction es arbitrary: target)
  case (Cons e es)
  obtain k' vs where e: "e = (k', vs)" by fastforce
  have "map_of es k' = None" using Cons.prems(2) e by (simp add: map_of_eq_None_iff)
  with Cons.IH [of "scan_key P q m e target"] Cons.prems scan_key_spec [OF Cons.prems(1), of P q m e]
  show ?case by (auto simp: e)
qed simp

lemma best_version_sorted:
  "sorted_wrt (<) (map (\<lambda>(s, v, t). raw_seq s) vs) \<Longrightarrow>
   best_version P k q m vs =
     map_option (\<lambda>(v, s, t). (v, s))
       (pick_last (filter (\<lambda>(s, v, t). raw_seq s \<le> q \<and> tx_visible m t \<and> P k (raw_seq s) t) vs))"
proof (induction vs rule: rev_induct)
  case Nil
  show ?case by (simp add: best_version_def pick_last_def)
next
  case (snoc e vs)
  obtain s v t where e: "e = (s, v, t)" by (cases e) auto
  define ok where "ok = (\<lambda>(s, v :: bytes, t). raw_seq s \<le> q \<and> tx_visible m t \<and> P k (raw_seq s) t)"
  define fs where "fs = filter ok vs"
  have IH: "best_version P k q m vs = map_option (\<lambda>(v, s, t). (v, s)) (pick_last fs)"
    using snoc by (simp add: fs_def ok_def sorted_wrt_append)
  have lt: "raw_seq (fst f) < raw_seq s" if "f \<in> set vs" for f
    using snoc.prems that by (cases f) (auto simp: sorted_wrt_append e)
  have step: "best_version P k q m (vs @ [e]) = best_step P k q m e (best_version P k q m vs)"
    by (simp add: best_version_def)
  have okE: "raw_seq s \<le> q \<and> tx_visible m t \<and> P k (raw_seq s) t \<longleftrightarrow> ok e"
    by (simp add: ok_def e)
  have split: "filter ok (vs @ [e]) = fs @ (if ok e then [e] else [])" by (simp add: fs_def)
  have best: "best_step P k q m e b = (if ok e then (case b of
      Some (_, bs) \<Rightarrow> if raw_seq bs < raw_seq s then Some (v, s) else b | None \<Rightarrow> Some (v, s)) else b)" for b
    by (simp add: best_step_def e okE [unfolded e])
  show ?case
    unfolding ok_def [symmetric] step IH split best
  proof (cases "fs = []")
    case False
    then have "last fs \<in> set vs" using last_in_set [of fs] by (auto simp: fs_def)
    from lt [OF this] False
    show "(if ok e then (case map_option (\<lambda>(v, s, t). (v, s)) (pick_last fs) of
        Some (_, bs) \<Rightarrow> if raw_seq bs < raw_seq s then Some (v, s)
          else map_option (\<lambda>(v, s, t). (v, s)) (pick_last fs)
      | None \<Rightarrow> Some (v, s)) else map_option (\<lambda>(v, s, t). (v, s)) (pick_last fs)) =
      map_option (\<lambda>(v, s, t). (v, s)) (pick_last (fs @ (if ok e then [e] else [])))"
      by (cases "last fs") (auto simp: e pick_last_def)
  qed (simp add: e pick_last_def)
qed

lemma concat_upt_split:
  assumes "a \<le> b" "b \<le> n" "\<And>i. i < n \<Longrightarrow> i < a \<or> b \<le> i \<Longrightarrow> g i = []"
  shows "concat (map g [0..<n]) = concat (map g [a..<b])"
proof -
  have "[0..<n] = [0..<a] @ [a..<b] @ [b..<n]"
    using upt_add_eq_append [of 0 a "n - a"] upt_add_eq_append [of a b "n - b"] assms(1,2) by simp
  moreover have "concat (map g [0..<a]) = []" "concat (map g [b..<n]) = []"
    using assms by auto
  ultimately show ?thesis by (simp only: map_append concat_append append_Nil append_Nil2)
qed

text \<open>Scanning the shards of a range that contains every key of interest scans the whole table.\<close>

lemma shards_in_concat:
  assumes "mt_wf T" "b < 16" "\<And>e. e \<in> set (mt_flat T) \<Longrightarrow> P e \<Longrightarrow> a \<le> shard_for (fst e) \<and> shard_for (fst e) \<le> b"
  shows "concat (map (filter P) (shards_in (a, b) T)) = filter P (mt_flat T)"
proof -
  let ?g = "\<lambda>i. filter P (mt_shards T ! i)"
  have len: "length (mt_shards T) = 16" using assms(1) by (simp add: mt_wf_def)
  have out: "?g i = []" if i: "i < 16" "i < a \<or> Suc b \<le> i" for i
  proof -
    have "\<not> P e" if "e \<in> set (mt_shards T ! i)" for e
    proof -
      have "shard_for (fst e) = i" using assms(1) i(1) that unfolding mt_wf_def by blast
      with that mt_flat_mem [OF assms(1), of e] assms(3) [of e] i(2) show ?thesis by auto
    qed
    then show ?thesis by (simp add: filter_empty_conv)
  qed
  have flat: "filter P (mt_flat T) = concat (map ?g [0..<16])"
  proof -
    have "mt_shards T = map (\<lambda>i. mt_shards T ! i) [0..<16]" using len by (metis map_nth)
    then have "map (filter P) (mt_shards T) = map (filter P) (map (\<lambda>i. mt_shards T ! i) [0..<16])"
      by (rule arg_cong)
    then show ?thesis unfolding mt_flat_def filter_concat map_map comp_def by (rule arg_cong)
  qed
  show ?thesis
  proof (cases "a \<le> Suc b")
    case True
    with concat_upt_split [of a "Suc b" 16 ?g] out assms(2) flat show ?thesis
      by (simp add: shards_in_def comp_def del: upt_Suc)
  next
    case False
    then have "i < a \<or> Suc b \<le> i" for i by linarith
    then have "concat (map ?g [0..<16]) = []" using out by simp
    with False flat show ?thesis by (simp add: shards_in_def)
  qed
qed

lemma range_prefix_filter:
  "bt_wf m \<Longrightarrow> range_prefix p m = filter (\<lambda>e. starts_with p (fst e)) m"
proof (induction m)
  case (Cons e m)
  show ?case
  proof (cases "starts_with p (fst e)")
    case True
    with Cons starts_with_imp_le [OF True] show ?thesis by (simp add: range_prefix_def)
  next
    case False
    show ?thesis
    proof (cases "p \<le> fst e")
      case True
      have "\<not> starts_with p (fst e')" if "e' \<in> set m" for e'
        using starts_with_convex [OF True, of "fst e'"] Cons.prems that False
        by (auto intro: less_imp_le)
      with True False show ?thesis by (simp add: range_prefix_def filter_empty_conv)
    qed (use False Cons in \<open>simp add: range_prefix_def\<close>)
  qed
qed (simp add: range_prefix_def)

lemma shard_range_for_prefix_covers:
  assumes "starts_with p k"
  shows "fst (shard_range_for_prefix p) \<le> shard_for k \<and> shard_for k \<le> snd (shard_range_for_prefix p)"
proof (cases p)
  case Nil
  then show ?thesis using shard_for_lt [of k] by (simp add: shard_range_for_prefix_def SHARD_COUNT_def)
next
  case (Cons b p')
  then have "first_byte k = unat b" using assms by (cases k) (auto simp: first_byte_def)
  with Cons show ?thesis
    by (cases p') (simp_all add: shard_range_for_prefix_def shard_for_first first_byte_def)
qed

lemma shard_range_for_prefix_lt: "snd (shard_range_for_prefix p) < 16"
  using shard_for_lt by (simp add: shard_range_for_prefix_def SHARD_COUNT_def)

lemma fold_fold_concat: "fold (\<lambda>m. fold f (g m)) ms = fold f (concat (map g ms))"
  by (induction ms) (auto simp: fun_eq_iff)

lemma map_range_prefix:
  assumes "mt_wf T" "b < 16"
  shows "map (range_prefix p) (shards_in (a, b) T) =
     map (filter (\<lambda>e. starts_with p (fst e))) (shards_in (a, b) T)"
  using assms unfolding shards_in_def
  by (auto simp: mt_wf_def range_prefix_filter simp del: upt_Suc)

lemma scan_prefix_flat:
  assumes "mt_wf T"
  shows "mt_scan_prefix_into_matching p q m P T target =
     fold (scan_key P (raw_seq q) m) (filter (\<lambda>e. starts_with p (fst e)) (mt_flat T)) target"
proof -
  obtain a b where r: "shard_range_for_prefix p = (a, b)" by fastforce
  have b: "b < 16" using shard_range_for_prefix_lt [of p] r by simp
  have "concat (map (range_prefix p) (shards_in (a, b) T)) =
      filter (\<lambda>e. starts_with p (fst e)) (mt_flat T)"
    unfolding map_range_prefix [OF assms b]
    using shard_range_for_prefix_covers [of p] r by (intro shards_in_concat [OF assms b]) auto
  then show ?thesis by (simp add: mt_scan_prefix_into_matching_def fold_fold_concat r)
qed

lemma scan_shards_range_ok:
  "\<not> range_panics start stop \<Longrightarrow>
     scan_shards_range P q m start stop ms target =
       Inr (fold (scan_key P q m) (concat (map (filter (\<lambda>e. above start (fst e) \<and> below stop (fst e))) ms)) target)"
  by (induction ms arbitrary: target) (auto simp: bt_range_def)

lemma shard_range_for_bounds_covers:
  assumes "above start k" "below stop k"
  shows "fst (shard_range_for_bounds start stop) \<le> shard_for k \<and>
         shard_for k \<le> snd (shard_range_for_bounds start stop)"
  using assms shard_for_lt [of k]
  by (cases start; cases stop)
    (auto simp: shard_range_for_bounds_def SHARD_COUNT_def intro: shard_for_mono less_imp_le)

lemma shard_range_for_bounds_lt: "snd (shard_range_for_bounds start stop) < 16"
  using shard_for_lt by (cases stop) (simp_all add: shard_range_for_bounds_def SHARD_COUNT_def)

lemma scan_range_flat:
  assumes "mt_wf T" "\<not> range_panics start stop"
  shows "mt_scan_range_into_matching start stop q m P T target =
     Inr (fold (scan_key P (raw_seq q) m)
       (filter (\<lambda>e. above start (fst e) \<and> below stop (fst e)) (mt_flat T)) target)"
proof -
  obtain a b where r: "shard_range_for_bounds start stop = (a, b)" by fastforce
  have b: "b < 16" using shard_range_for_bounds_lt [of start stop] r by simp
  have "concat (map (filter (\<lambda>e. above start (fst e) \<and> below stop (fst e))) (shards_in (a, b) T)) =
      filter (\<lambda>e. above start (fst e) \<and> below stop (fst e)) (mt_flat T)"
    using shard_range_for_bounds_covers [of start _ stop] r
    by (intro shards_in_concat [OF assms(1) b]) auto
  then show ?thesis by (simp add: mt_scan_range_into_matching_def r scan_shards_range_ok [OF assms(2)])
qed

section \<open>Properties\<close>

text \<open>The put a read at snapshot \<open>q\<close> with transaction bound \<open>m\<close> should find.\<close>

definition visible_put :: "bytes \<Rightarrow> u64 \<Rightarrow> u64 \<Rightarrow> kv_entry \<Rightarrow> bool" where
  "visible_put k q m p \<longleftrightarrow> fst p = k \<and> entry_seq p \<le> q \<and> tx_visible m (entry_tx p)"

definition latest_put :: "(kv_entry \<Rightarrow> bool) \<Rightarrow> kv_entry list \<Rightarrow> kv_entry option" where
  "latest_put P ps = (let fs = filter P ps in if fs = [] then None else Some (last fs))"

lemma pick_last_puts:
  "pick_last (filter (\<lambda>(s, v, t). Q (raw_seq s) t) (map to_version (puts_of k ps))) =
     map_option (\<lambda>(k, v, s, t). (v, s, t))
       (latest_put (\<lambda>p. fst p = k \<and> Q (entry_seq p) (entry_tx p)) ps)"
proof -
  have "filter (\<lambda>(s, v, t). Q (raw_seq s) t) (map to_version (puts_of k ps)) =
      map to_version (filter (\<lambda>p. fst p = k \<and> Q (entry_seq p) (entry_tx p)) ps)"
    by (induction ps) (auto simp: puts_of_def)
  then show ?thesis
    by (auto simp: pick_last_def latest_put_def Let_def last_map split: prod.splits)
qed

lemma versions_seqs: "map (\<lambda>(s, v, t). raw_seq s) (map to_version ps) = map entry_seq ps"
  by (induction ps) auto

lemma mt_get_at_seq_versions: "mt_get_at_seq k q m T = versions_at (mt_versions T k) q m"
  by (auto simp: mt_get_at_seq_def mt_versions_def versions_at_def binary_search_def
      split: option.splits)

lemma mt_get_at_seq_puts:
  assumes "mt_reach ps T"
  shows "mt_get_at_seq k q m T = map_option (\<lambda>(k, v, s, t). (v, s, t)) (latest_put (visible_put k q m) ps)"
proof -
  have vs: "mt_versions T k = map to_version (puts_of k ps)"
    using mt_reach_versions [OF assms] by simp
  have "sorted (map (\<lambda>(s, v, t). raw_seq s) (mt_versions T k))"
    using mt_reach_sorted [OF assms, of k]
    by (simp add: vs versions_seqs strict_sorted_iff del: map_map)
  from versions_at_spec [OF this, of q m] show ?thesis
    unfolding mt_get_at_seq_versions vs
    using pick_last_puts [of "\<lambda>s t. s \<le> q \<and> tx_visible m t" k ps]
    by (simp add: visible_put_def [abs_def])
qed

text \<open>
  C16. Snapshot reads of the memtable: after any puts (ascending sequence numbers per key) and
  transaction rollbacks, \<open>get_at_seq\<close> (binary search plus backwards scan) returns the latest
  surviving put of the key that is not above the snapshot and whose transaction is visible.
\<close>

theorem mt_get_at_seq_latest:
  assumes "mt_reach ps T"
  shows "mt_get_at_seq k q m T = map_option (\<lambda>(k, v, s, t). (v, s, t)) (latest_put (visible_put k q m) ps)"
  using assms by (rule mt_get_at_seq_puts)

lemma mt_reach_example:
  "mt_reach [([1], [10], 1, 1), ([1], [11], 3, 2)]
     (mt_rollback 9 (mt_put [7] [0] 4 9 (mt_put [1] [11] 3 2 (mt_put [1] [10] 1 1 mem_table_new))))"
proof -
  have raw: "raw_seq 1 = 1" "raw_seq 3 = 3" by (simp_all add: raw_seq_def TOMBSTONE_BIT_def)
  have "mt_reach [([1], [10], 1, 1)] (mt_put [1] [10] 1 1 mem_table_new)"
    using mt_reach_put [OF mt_reach_new, of "[1]" 1 "[10]" 1] by simp
  from mt_reach_put [OF this, of "[1]" 3 "[11]" 2]
  have "mt_reach [([1], [10], 1, 1), ([1], [11], 3, 2)]
      (mt_put [1] [11] 3 2 (mt_put [1] [10] 1 1 mem_table_new))" by (simp add: raw)
  from mt_reach_rollback [OF mt_reach_put [OF this, of "[7]" 4 "[0]" 9], of 9]
  show ?thesis by simp
qed

theorem mt_get_at_seq_latest_witness:
  "mt_get_at_seq [1] 2 5
     (mt_rollback 9 (mt_put [7] [0] 4 9 (mt_put [1] [11] 3 2 (mt_put [1] [10] 1 1 mem_table_new)))) =
   Some ([10], 1, 1)"
  using mt_get_at_seq_latest [OF mt_reach_example, of "[1]" 2 5]
  by (simp add: latest_put_def visible_put_def tx_visible_def raw_seq_def TOMBSTONE_BIT_def)

text \<open>
  Iteration for the flush: concatenating the shards yields the stable sort of the surviving
  puts by key, and the latest-version iteration yields, in ascending key order, the last
  surviving put of every key (the order the SSTable builder requires).
\<close>

theorem mt_iteration_sorted:
  assumes "mt_reach ps T"
  shows "mt_iter T = sort_key fst ps \<and>
     mt_iter_latest T = map (\<lambda>k. last (puts_of k ps)) (sorted_list_of_set (fst ` set ps))"
  using mt_iter_sorts [OF assms] mt_iter_latest_spec [OF assms] by simp

theorem mt_iteration_sorted_witness:
  "mt_iter_latest
     (mt_rollback 9 (mt_put [7] [0] 4 9 (mt_put [1] [11] 3 2 (mt_put [1] [10] 1 1 mem_table_new)))) =
   [([1], [11], 3, 2)]"
  using mt_iteration_sorted [OF mt_reach_example] by (simp add: puts_of_def)

text \<open>
  The counters are exact: the size is the sum over the surviving puts, so a rollback never
  underflows it, and the transaction range is the least and greatest transaction among them.
\<close>

theorem mt_counters_exact:
  assumes "mt_reach ps T"
  shows "mt_size T = sum_list (map kv_entry_size ps) \<and>
     tx_range T = (Min (insert (- 1) (entry_tx ` set ps)), Max (insert 0 (entry_tx ` set ps)))"
  using mt_reach_size [OF assms] mt_reach_tx_range [OF assms]
  by (simp add: tx_range_def fold_min_Min fold_max_Max)

theorem mt_counters_exact_witness:
  "tx_range
     (mt_rollback 9 (mt_put [7] [0] 4 9 (mt_put [1] [11] 3 2 (mt_put [1] [10] 1 1 mem_table_new)))) =
   (1, 2)"
  using mt_counters_exact [OF mt_reach_example] by simp

definition scan_latest ::
    "(bytes \<Rightarrow> u64 \<Rightarrow> u64 \<Rightarrow> bool) \<Rightarrow> bytes \<Rightarrow> u64 \<Rightarrow> u64 \<Rightarrow> kv_entry list \<Rightarrow> (bytes \<times> u64) option" where
  "scan_latest P k q m ps = map_option (\<lambda>(k, v, s, t). (v, s))
     (latest_put (\<lambda>e. visible_put k q m e \<and> P k (entry_seq e) (entry_tx e)) ps)"

lemma best_version_puts:
  assumes "mt_reach ps T"
  shows "best_version P k q m (mt_versions T k) = scan_latest P k q m ps"
proof -
  have vs: "mt_versions T k = map to_version (puts_of k ps)"
    using mt_reach_versions [OF assms] by simp
  have "sorted_wrt (<) (map (\<lambda>(s, v, t). raw_seq s) (mt_versions T k))"
    using mt_reach_sorted [OF assms, of k] by (simp add: vs versions_seqs del: map_map)
  from best_version_sorted [OF this, of P k q m]
  show ?thesis
    unfolding vs pick_last_puts [of "\<lambda>s t. s \<le> q \<and> tx_visible m t \<and> P k s t" k ps]
    by (simp add: scan_latest_def visible_put_def option.map_comp comp_def case_prod_unfold conj_assoc)
qed

lemma scan_flat_spec:
  assumes "mt_reach ps T" "bt_wf target"
  shows "bt_wf (fold (scan_key P q m) (filter (\<lambda>e. Q (fst e)) (mt_flat T)) target) \<and>
     map_of (fold (scan_key P q m) (filter (\<lambda>e. Q (fst e)) (mt_flat T)) target) k =
       newer (map_of target k) (if Q k then scan_latest P k q m ps else None)"
proof -
  have wf: "mt_wf T" using mt_reach_versions [OF assms(1)] by simp
  let ?es = "filter (\<lambda>e. Q (fst e)) (mt_flat T)"
  have d: "distinct (map fst ?es)" using bt_wf_distinct [OF bt_wf_filter [OF mt_flat_wf [OF wf]]] .
  have look: "map_of ?es k = (if Q k then map_of (mt_shards T ! shard_for k) k else None)"
    using map_of_filter_key [of Q "mt_flat T" k] by (simp add: mt_flat_lookup [OF wf])
  have "(case map_of (mt_shards T ! shard_for k) k of None \<Rightarrow> None
      | Some vs \<Rightarrow> best_version P k q m vs) = best_version P k q m (mt_versions T k)"
    by (simp add: mt_versions_def best_version_def split: option.splits)
  with fold_scan_key [OF assms(2) d, of P q m k] show ?thesis
    by (auto simp: look best_version_puts [OF assms(1)])
qed

text \<open>
  Prefix scans are exact: merging the memtable into a result map changes exactly the keys
  with the prefix, to the latest visible version, unless the map holds one at least as new; the
  range of shards visited misses no key.
\<close>

theorem mt_scan_prefix_exact:
  assumes "mt_reach ps T" "bt_wf target"
  shows "bt_wf (mt_scan_prefix_into_matching p q m P T target) \<and>
     map_of (mt_scan_prefix_into_matching p q m P T target) k = newer (map_of target k)
       (if starts_with p k then scan_latest P k (raw_seq q) m ps else None)"
  using scan_flat_spec [OF assms, of P "raw_seq q" m "starts_with p" k] mt_reach_versions [OF assms(1)]
  by (simp add: scan_prefix_flat)

theorem mt_scan_prefix_exact_witness:
  "map_of (mt_scan_prefix_into [1] 2 5
     (mt_rollback 9 (mt_put [7] [0] 4 9 (mt_put [1] [11] 3 2 (mt_put [1] [10] 1 1 mem_table_new)))) [])
     [1] = Some ([10], 1)"
  using mt_scan_prefix_exact [OF mt_reach_example, of "[]" "[1]" 2 5 "\<lambda>k s t. True" "[1]"]
  by (simp add: mt_scan_prefix_into_def scan_latest_def latest_put_def visible_put_def tx_visible_def
      raw_seq_def TOMBSTONE_BIT_def)

text \<open>
  Range scans are exact in the same sense for every pair of bounds \<open>BTreeMap::range\<close>
  accepts: they return a result, and it holds the latest visible version of exactly the keys
  between the bounds.
\<close>

theorem mt_scan_range_exact:
  assumes "mt_reach ps T" "bt_wf target" "\<not> range_panics start stop"
  shows "\<exists>target'. mt_scan_range_into_matching start stop q m P T target = Inr target' \<and> bt_wf target' \<and>
     (\<forall>k. map_of target' k = newer (map_of target k)
       (if above start k \<and> below stop k then scan_latest P k (raw_seq q) m ps else None))"
  using scan_flat_spec [OF assms(1,2), of P "raw_seq q" m "\<lambda>k. above start k \<and> below stop k"]
    mt_reach_versions [OF assms(1)] assms(3)
  by (simp add: scan_range_flat)

theorem mt_scan_range_exact_witness:
  "\<exists>target'. mt_scan_range_into (Included [1]) (Excluded [2]) 2 5
     (mt_rollback 9 (mt_put [7] [0] 4 9 (mt_put [1] [11] 3 2 (mt_put [1] [10] 1 1 mem_table_new)))) [] =
       Inr target' \<and> map_of target' [1] = Some ([10], 1)"
proof -
  have "scan_latest (\<lambda>k s t. True) [1] (raw_seq 2) 5 [([1], [10], 1, 1), ([1], [11], 3, 2)] = Some ([10], 1)"
    by (simp add: scan_latest_def latest_put_def visible_put_def tx_visible_def raw_seq_def
        TOMBSTONE_BIT_def)
  with mt_scan_range_exact [OF mt_reach_example, of "[]" "Included [1]" "Excluded [2]" 2 5 "\<lambda>k s t. True"]
  show ?thesis by (auto simp: mt_scan_range_into_def)
qed

end
