(* ===== verification/Bloom_Filter.thy ===== *)
theory Bloom_Filter
  imports Types
begin

text \<open>
  The whole-table Bloom filter of \<open>crates/contextra-store/src/sstable/bloom.rs\<close>. The digest
  (\<open>blake3::hash\<close>, 32 bytes) is a parameter, and so are the two values \<open>BloomFilter::new\<close>
  computes in floating point, the number of bits and of hashes before rounding and clamping.
  Indexing a word out of range is a panic, kept as an error.
\<close>

section \<open>Data and operations\<close>

record bloom_filter =
  bf_bits :: "u64 list"
  bf_num_hashes :: nat
  bf_num_bits :: nat

definition BLOOM_MAX_BITS :: nat where "BLOOM_MAX_BITS = 128 * 1024 * 1024 * 8"

definition clamp :: "nat \<Rightarrow> nat \<Rightarrow> nat \<Rightarrow> nat" where
  "clamp lo hi x = (if x < lo then lo else if hi < x then hi else x)"

definition next_multiple_of :: "nat \<Rightarrow> nat \<Rightarrow> nat" where
  "next_multiple_of d x = (x + d - 1) div d * d"

text \<open>\<open>m\<close> and \<open>h\<close> are the rounded results of the two formulas over the element count and rate.\<close>

definition bloom_new :: "nat \<Rightarrow> nat \<Rightarrow> bloom_filter" where
  "bloom_new m h =
     (let num_bits = clamp 64 BLOOM_MAX_BITS (next_multiple_of 64 m)
      in \<lparr>bf_bits = replicate (num_bits div 64) 0, bf_num_hashes = clamp 1 16 h,
          bf_num_bits = num_bits\<rparr>)"

definition hash_pair :: "(bytes \<Rightarrow> bytes) \<Rightarrow> bytes \<Rightarrow> u64 \<times> u64" where
  "hash_pair blake3 key =
     (let bytes = blake3 key;
          h1 = u64_of_le (take 8 bytes);
          h2 = u64_of_le (take 8 (drop 8 bytes))
      in (h1, h2 OR 1))"

definition bloom_bit_idx :: "(bytes \<Rightarrow> bytes) \<Rightarrow> nat \<Rightarrow> bytes \<Rightarrow> nat \<Rightarrow> nat" where
  "bloom_bit_idx blake3 num_bits key i =
     (case hash_pair blake3 key of (h1, h2) \<Rightarrow> unat (h1 + of_nat i * h2) mod num_bits)"

text \<open>One pass of the loop body of \<open>insert\<close>; the remainder by zero and the index can panic.\<close>

definition bloom_set_bit :: "nat \<Rightarrow> bloom_filter \<Rightarrow> bloom_filter res" where
  "bloom_set_bit bit_idx B =
     (if bf_num_bits B = 0 \<or> length (bf_bits B) \<le> bit_idx div 64
      then Inl (Panic ''index out of bounds'')
      else Inr (B\<lparr>bf_bits := (bf_bits B)[bit_idx div 64 :=
             bf_bits B ! (bit_idx div 64) OR push_bit (bit_idx mod 64) 1]\<rparr>))"

fun bloom_set_bits :: "nat list \<Rightarrow> bloom_filter \<Rightarrow> bloom_filter res" where
  "bloom_set_bits [] B = Inr B"
| "bloom_set_bits (i # is) B = rbind (bloom_set_bit i B) (bloom_set_bits is)"

definition bloom_insert :: "(bytes \<Rightarrow> bytes) \<Rightarrow> bytes \<Rightarrow> bloom_filter \<Rightarrow> bloom_filter res" where
  "bloom_insert blake3 key B =
     bloom_set_bits (map (bloom_bit_idx blake3 (bf_num_bits B) key) [0..<bf_num_hashes B]) B"

fun bloom_test_bits :: "nat list \<Rightarrow> bloom_filter \<Rightarrow> bool res" where
  "bloom_test_bits [] B = Inr True"
| "bloom_test_bits (i # is) B =
     (if length (bf_bits B) \<le> i div 64 then Inl (Panic ''index out of bounds'')
      else if bf_bits B ! (i div 64) AND push_bit (i mod 64) 1 = 0 then Inr False
      else bloom_test_bits is B)"

definition may_contain :: "(bytes \<Rightarrow> bytes) \<Rightarrow> bytes \<Rightarrow> bloom_filter \<Rightarrow> bool res" where
  "may_contain blake3 key B =
     (if bf_num_bits B = 0 then Inr True
      else bloom_test_bits (map (bloom_bit_idx blake3 (bf_num_bits B) key) [0..<bf_num_hashes B]) B)"

definition bloom_to_bytes :: "bloom_filter \<Rightarrow> bytes" where
  "bloom_to_bytes B =
     u64_le (of_nat (bf_num_hashes B)) @ u64_le (of_nat (bf_num_bits B)) @ concat (map u64_le (bf_bits B))"

text \<open>The loop \<open>while offset + 8 <= data.len()\<close>.\<close>

fun words_of :: "bytes \<Rightarrow> u64 list" where
  "words_of data = (if 8 \<le> length data then u64_of_le (take 8 data) # words_of (drop 8 data) else [])"

declare words_of.simps [simp del]

definition bloom_from_bytes :: "bytes \<Rightarrow> bloom_filter res" where
  "bloom_from_bytes data =
     (if length data < 16 then Inl (Storage ''corrupted bloom filter: too short'')
      else let num_hashes = unat (u64_of_le (take 8 data));
               num_bits = unat (u64_of_le (take 8 (drop 8 data)))
           in if BLOOM_MAX_BITS < num_bits then Inl (Storage ''corrupted bloom filter: too many bits'')
              else Inr \<lparr>bf_bits = words_of (drop 16 data), bf_num_hashes = num_hashes,
                        bf_num_bits = num_bits\<rparr>)"

section \<open>Well-formed filters\<close>

definition bloom_wf :: "bloom_filter \<Rightarrow> bool" where
  "bloom_wf B \<longleftrightarrow> bf_num_bits B = 64 * length (bf_bits B) \<and> 0 < bf_num_bits B \<and>
     bf_num_bits B \<le> BLOOM_MAX_BITS \<and> bf_num_hashes B \<le> 16"

definition bloom_bit :: "bloom_filter \<Rightarrow> nat \<Rightarrow> bool" where
  "bloom_bit B i = bit (bf_bits B ! (i div 64)) (i mod 64)"

lemma bloom_new_wf: "bloom_wf (bloom_new m h)"
proof -
  define n where "n = clamp 64 BLOOM_MAX_BITS (next_multiple_of 64 m)"
  have "64 dvd n" by (auto simp: n_def clamp_def next_multiple_of_def BLOOM_MAX_BITS_def)
  moreover have "64 \<le> n" "n \<le> BLOOM_MAX_BITS" by (auto simp: n_def clamp_def BLOOM_MAX_BITS_def)
  moreover have "bloom_new m h = \<lparr>bf_bits = replicate (n div 64) 0, bf_num_hashes = clamp 1 16 h,
      bf_num_bits = n\<rparr>" by (simp add: bloom_new_def n_def Let_def)
  moreover have "clamp 1 16 h \<le> 16" by (simp add: clamp_def)
  ultimately show ?thesis by (simp add: bloom_wf_def)
qed

lemma bloom_bit_idx_lt: "0 < n \<Longrightarrow> bloom_bit_idx blake3 n key i < n"
  by (simp add: bloom_bit_idx_def split: prod.splits)

lemma bloom_set_bit_ok:
  assumes "bloom_wf B" "i < bf_num_bits B"
  shows "\<exists>B'. bloom_set_bit i B = Inr B' \<and> bloom_wf B' \<and> bf_num_bits B' = bf_num_bits B \<and>
     bf_num_hashes B' = bf_num_hashes B \<and> (\<forall>j < bf_num_bits B. bloom_bit B' j \<longleftrightarrow> bloom_bit B j \<or> j = i)"
proof -
  have len: "i div 64 < length (bf_bits B)" using assms by (auto simp: bloom_wf_def)
  let ?B' = "B\<lparr>bf_bits := (bf_bits B)[i div 64 := bf_bits B ! (i div 64) OR push_bit (i mod 64) 1]\<rparr>"
  have "bloom_set_bit i B = Inr ?B'" using len assms(2) by (simp add: bloom_set_bit_def)
  moreover have "bloom_bit ?B' j \<longleftrightarrow> bloom_bit B j \<or> j = i" if "j < bf_num_bits B" for j
  proof (cases "j div 64 = i div 64")
    case True
    have "bit (push_bit (i mod 64) 1 :: u64) (j mod 64) \<longleftrightarrow> j mod 64 = i mod 64"
      by (simp add: bit_exp_iff eq_commute)
    moreover have "j mod 64 = i mod 64 \<longleftrightarrow> j = i" using True by (metis mult_div_mod_eq)
    ultimately show ?thesis using True len by (simp add: bloom_bit_def bit_or_iff)
  next
    case False
    then show ?thesis by (auto simp: bloom_bit_def)
  qed
  moreover have "bloom_wf ?B'" using assms(1) by (auto simp: bloom_wf_def)
  ultimately show ?thesis by (intro exI [of _ ?B']) simp
qed

lemma bloom_set_bits_ok:
  "bloom_wf B \<Longrightarrow> \<forall>i\<in>set is. i < bf_num_bits B \<Longrightarrow>
     \<exists>B'. bloom_set_bits is B = Inr B' \<and> bloom_wf B' \<and> bf_num_bits B' = bf_num_bits B \<and>
       bf_num_hashes B' = bf_num_hashes B \<and>
       (\<forall>j < bf_num_bits B. bloom_bit B' j \<longleftrightarrow> bloom_bit B j \<or> j \<in> set is)"
proof (induction "is" arbitrary: B)
  case (Cons i "is")
  from bloom_set_bit_ok [OF Cons.prems(1), of i] Cons.prems(2) obtain B1 where
    B1: "bloom_set_bit i B = Inr B1" "bloom_wf B1" "bf_num_bits B1 = bf_num_bits B"
      "bf_num_hashes B1 = bf_num_hashes B"
      "\<forall>j < bf_num_bits B. bloom_bit B1 j \<longleftrightarrow> bloom_bit B j \<or> j = i" by auto
  from Cons.IH [OF B1(2)] Cons.prems(2) B1(3) obtain B2 where
    "bloom_set_bits is B1 = Inr B2" "bloom_wf B2" "bf_num_bits B2 = bf_num_bits B1"
      "bf_num_hashes B2 = bf_num_hashes B1"
      "\<forall>j < bf_num_bits B1. bloom_bit B2 j \<longleftrightarrow> bloom_bit B1 j \<or> j \<in> set is" by auto
  with B1 show ?case by auto
qed simp

lemma bloom_test_bits_ok:
  "bloom_wf B \<Longrightarrow> \<forall>i\<in>set is. i < bf_num_bits B \<Longrightarrow>
     bloom_test_bits is B = Inr (\<forall>i\<in>set is. bloom_bit B i)"
proof (induction "is")
  case (Cons i "is")
  then have len: "i div 64 < length (bf_bits B)" by (auto simp: bloom_wf_def)
  have "i mod 64 < 64" by simp
  then have "bf_bits B ! (i div 64) AND push_bit (i mod 64) 1 = 0 \<longleftrightarrow> \<not> bloom_bit B i"
    unfolding bloom_bit_def by (simp add: and_exp_eq_0_iff_not_bit push_bit_eq_mult)
  with Cons len show ?case by auto
qed simp

text \<open>The bits of the keys inserted so far.\<close>

definition bloom_holds :: "(bytes \<Rightarrow> bytes) \<Rightarrow> bloom_filter \<Rightarrow> bytes \<Rightarrow> bool" where
  "bloom_holds blake3 B key \<longleftrightarrow>
     (\<forall>i < bf_num_hashes B. bloom_bit B (bloom_bit_idx blake3 (bf_num_bits B) key i))"

lemma may_contain_holds:
  assumes "bloom_wf B"
  shows "may_contain blake3 key B = Inr (bloom_holds blake3 B key)"
proof -
  have pos: "0 < bf_num_bits B" using assms by (auto simp: bloom_wf_def)
  then have "\<forall>i\<in>set (map (bloom_bit_idx blake3 (bf_num_bits B) key) [0..<bf_num_hashes B]).
      i < bf_num_bits B" by (auto simp: bloom_bit_idx_lt)
  from bloom_test_bits_ok [OF assms this] pos show ?thesis
    by (auto simp: may_contain_def bloom_holds_def)
qed

lemma bloom_insert_ok:
  assumes "bloom_wf B"
  shows "\<exists>B'. bloom_insert blake3 key B = Inr B' \<and> bloom_wf B' \<and> bloom_holds blake3 B' key \<and>
     (\<forall>k. bloom_holds blake3 B k \<longrightarrow> bloom_holds blake3 B' k)"
proof -
  let ?is = "map (bloom_bit_idx blake3 (bf_num_bits B) key) [0..<bf_num_hashes B]"
  have pos: "0 < bf_num_bits B" using assms by (auto simp: bloom_wf_def)
  have "\<forall>i\<in>set ?is. i < bf_num_bits B" using pos by (auto simp: bloom_bit_idx_lt)
  from bloom_set_bits_ok [OF assms this] show ?thesis
    using bloom_bit_idx_lt [OF pos] by (fastforce simp: bloom_insert_def bloom_holds_def)
qed

lemma words_of_concat: "words_of (concat (map u64_le ws)) = ws"
  by (induction ws; subst words_of.simps) auto

lemma bloom_roundtrip:
  assumes "bloom_wf B" shows "bloom_from_bytes (bloom_to_bytes B) = Inr B"
proof -
  have "bf_num_bits B \<le> BLOOM_MAX_BITS" "bf_num_hashes B \<le> 16"
    using assms unfolding bloom_wf_def by blast+
  moreover from this have "unat (of_nat (bf_num_bits B) :: u64) = bf_num_bits B"
    "unat (of_nat (bf_num_hashes B) :: u64) = bf_num_hashes B"
    by (simp_all add: unat_of_nat_u64 BLOOM_MAX_BITS_def)
  ultimately show ?thesis
    by (simp add: bloom_from_bytes_def bloom_to_bytes_def Let_def words_of_concat)
qed

section \<open>Properties\<close>

fun bloom_insert_all :: "(bytes \<Rightarrow> bytes) \<Rightarrow> bytes list \<Rightarrow> bloom_filter \<Rightarrow> bloom_filter res" where
  "bloom_insert_all blake3 [] B = Inr B"
| "bloom_insert_all blake3 (k # ks) B =
     rbind (bloom_insert blake3 k B) (bloom_insert_all blake3 ks)"

lemma bloom_insert_all_ok:
  "bloom_wf B \<Longrightarrow> \<exists>B'. bloom_insert_all blake3 ks B = Inr B' \<and> bloom_wf B' \<and>
     (\<forall>k. bloom_holds blake3 B k \<or> k \<in> set ks \<longrightarrow> bloom_holds blake3 B' k)"
proof (induction ks arbitrary: B)
  case (Cons k ks)
  from bloom_insert_ok [OF Cons.prems, of blake3 k] obtain B1 where B1: "bloom_insert blake3 k B = Inr B1"
    "bloom_wf B1" "bloom_holds blake3 B1 k" "\<forall>k. bloom_holds blake3 B k \<longrightarrow> bloom_holds blake3 B1 k"
    by blast
  from Cons.IH [OF B1(2)] B1 show ?case by auto
qed simp

text \<open>
  C15. The table filter has no false negatives, whatever the digest: a fresh filter accepts any
  keys without a panic, survives the byte round trip, and then answers that it may contain each
  of them.
\<close>

theorem bloom_no_false_negatives:
  "\<exists>B. bloom_insert_all blake3 ks (bloom_new m h) = Inr B \<and>
     bloom_from_bytes (bloom_to_bytes B) = Inr B \<and> (\<forall>k\<in>set ks. may_contain blake3 k B = Inr True)"
  using bloom_insert_all_ok [OF bloom_new_wf, of blake3 ks m h] bloom_roundtrip may_contain_holds
  by fastforce

theorem bloom_no_false_negatives_witness:
  "\<exists>B. bloom_insert_all (\<lambda>k. k @ replicate 32 7) [[1], [2, 3]] (bloom_new 100 3) = Inr B \<and>
     may_contain (\<lambda>k. k @ replicate 32 7) [2, 3] B = Inr True"
  using bloom_no_false_negatives [of "\<lambda>k. k @ replicate 32 7" "[[1], [2, 3]]" 100 3] by auto

end
