(* ===== verification/Block_Format.thy ===== *)
theory Block_Format
  imports Types
begin

text \<open>
  Data blocks of an SSTable: \<open>BlockBuilder\<close> of \<open>crates/contextra-store/src/sstable/builder.rs\<close>
  and the searches of \<open>block_search.rs\<close>. A block is the concatenation of its entries, the
  64-bit block filter, one \<open>u16\<close> offset per entry and their count.
\<close>

section \<open>Building\<close>

record block_builder =
  bb_data :: bytes
  bb_offsets :: "u16 list"
  bb_block_size :: nat
  bb_bloom :: u64

definition block_builder_new :: "nat \<Rightarrow> block_builder" where
  "block_builder_new block_size =
     \<lparr>bb_data = [], bb_offsets = [],
      bb_block_size = (if block_size < 512 then 512
        else if 64 * 1024 * 1024 < block_size then 64 * 1024 * 1024 else block_size),
      bb_bloom = 0\<rparr>"

text \<open>The four filter bits of a key: 16-bit chunks of the digest modulo 64.\<close>

definition block_bloom_bits :: "(bytes \<Rightarrow> bytes) \<Rightarrow> bytes \<Rightarrow> nat list" where
  "block_bloom_bits blake3 key =
     map (\<lambda>i. let b0 = (case get_at (blake3 key) (i * 2) of None \<Rightarrow> 0 | Some b \<Rightarrow> b);
                  b1 = (case get_at (blake3 key) (i * 2 + 1) of None \<Rightarrow> 0 | Some b \<Rightarrow> b)
              in unat (u16_of_le [b0, b1]) mod 64) [0..<4]"

definition update_bloom :: "(bytes \<Rightarrow> bytes) \<Rightarrow> bytes \<Rightarrow> block_builder \<Rightarrow> block_builder" where
  "update_bloom blake3 key B =
     B\<lparr>bb_bloom := fold (\<lambda>i w. w OR push_bit i 1) (block_bloom_bits blake3 key) (bb_bloom B)\<rparr>"

definition current_size :: "block_builder \<Rightarrow> nat" where
  "current_size B = length (bb_data B) + 8 + length (bb_offsets B) * 2 + 2"

definition encode_entry :: "bytes \<Rightarrow> bytes \<Rightarrow> u64 \<Rightarrow> u64 \<Rightarrow> bytes" where
  "encode_entry key val seq_no tx_id =
     u16_le (of_nat (length key)) @ key @ u64_le seq_no @ u64_le tx_id @
     u32_le (of_nat (length val)) @ val"

definition block_add ::
    "(bytes \<Rightarrow> bytes) \<Rightarrow> bytes \<Rightarrow> bytes \<Rightarrow> u64 \<Rightarrow> u64 \<Rightarrow> block_builder \<Rightarrow> bool \<times> block_builder" where
  "block_add blake3 key val seq_no tx_id B =
     (if bb_data B \<noteq> [] \<and> bb_block_size B < current_size B + length key + length val + 20
      then (False, B)
      else let B = update_bloom blake3 key B
           in (True, B\<lparr>bb_offsets := bb_offsets B @ [of_nat (length (bb_data B))],
                      bb_data := bb_data B @ encode_entry key val seq_no tx_id\<rparr>))"

definition block_is_empty :: "block_builder \<Rightarrow> bool" where
  "block_is_empty B = (bb_offsets B = [])"

definition block_build :: "block_builder \<Rightarrow> bytes" where
  "block_build B = bb_data B @ u64_le (bb_bloom B) @ concat (map u16_le (bb_offsets B)) @
     u16_le (of_nat (length (bb_offsets B)))"

section \<open>Searching\<close>

definition read_u16 :: "bytes \<Rightarrow> nat \<Rightarrow> string \<Rightarrow> nat res" where
  "read_u16 data pos msg =
     rbind (ok_or (Storage msg) (get_slice data pos (pos + 2))) (\<lambda>s. Inr (unat (u16_of_le s)))"

definition read_u32 :: "bytes \<Rightarrow> nat \<Rightarrow> string \<Rightarrow> nat res" where
  "read_u32 data pos msg =
     rbind (ok_or (Storage msg) (get_slice data pos (pos + 4))) (\<lambda>s. Inr (unat (u32_of_le s)))"

definition read_u64 :: "bytes \<Rightarrow> nat \<Rightarrow> string \<Rightarrow> u64 res" where
  "read_u64 data pos msg =
     rbind (ok_or (Storage msg) (get_slice data pos (pos + 8))) (\<lambda>s. Inr (u64_of_le s))"

text \<open>Offset, key length and key of the entry with a given index.\<close>

definition block_key_at :: "bytes \<Rightarrow> nat \<Rightarrow> nat \<Rightarrow> (nat \<times> nat \<times> bytes) res" where
  "block_key_at block_data offsets_start i =
     rbind (read_u16 block_data (offsets_start + i * 2) ''malformed block: off_pos'') (\<lambda>entry_off.
     rbind (read_u16 block_data entry_off ''malformed block: k_len'') (\<lambda>k_len.
     rbind (ok_or (Storage ''malformed block: entry_key'')
       (get_slice block_data (entry_off + 2) (entry_off + 2 + k_len))) (\<lambda>entry_key.
     Inr (entry_off, k_len, entry_key))))"

function index_loop :: "bytes \<Rightarrow> nat \<Rightarrow> bytes \<Rightarrow> nat \<Rightarrow> nat \<Rightarrow> (nat + nat) res" where
  "index_loop block_data offsets_start key low high =
     (if low < high
      then let mid = low + (high - low) div 2
           in rbind (block_key_at block_data offsets_start mid) (\<lambda>(off, kl, entry_key).
                if entry_key < key then index_loop block_data offsets_start key (mid + 1) high
                else if key < entry_key then index_loop block_data offsets_start key low mid
                else Inr (Inr mid))
      else Inr (Inl low))"
  by pat_completeness auto
termination
  by (relation "measure (\<lambda>(d, s, k, low, high). high - low)") auto

declare index_loop.simps [simp del]

definition binary_search_index_in_block :: "bytes \<Rightarrow> nat \<Rightarrow> nat \<Rightarrow> bytes \<Rightarrow> (nat + nat) res" where
  "binary_search_index_in_block block_data offsets_start num_offsets key =
     (if num_offsets = 0 then Inr (Inl 0)
      else index_loop block_data offsets_start key 0 num_offsets)"

definition binary_search_entry_in_block ::
    "bytes \<Rightarrow> nat \<Rightarrow> nat \<Rightarrow> bytes \<Rightarrow> (nat \<times> nat) option res" where
  "binary_search_entry_in_block block_data offsets_start num_offsets key =
     rbind (binary_search_index_in_block block_data offsets_start num_offsets key) (\<lambda>r.
       case r of
         Inr idx \<Rightarrow>
           rbind (read_u16 block_data (offsets_start + idx * 2) ''malformed block: off_pos'') (\<lambda>entry_off.
           rbind (read_u16 block_data entry_off ''malformed block: k_len'') (\<lambda>k_len.
           Inr (Some (entry_off, k_len))))
       | Inl _ \<Rightarrow> Inr None)"

function lower_loop :: "bytes \<Rightarrow> nat \<Rightarrow> bytes \<Rightarrow> nat \<Rightarrow> nat \<Rightarrow> nat res" where
  "lower_loop block_data offsets_start key lo hi =
     (if lo < hi
      then let mid = lo + (hi - lo) div 2
           in rbind (block_key_at block_data offsets_start mid) (\<lambda>(off, kl, entry_key).
                if entry_key < key then lower_loop block_data offsets_start key (mid + 1) hi
                else lower_loop block_data offsets_start key lo mid)
      else Inr lo)"
  by pat_completeness auto
termination
  by (relation "measure (\<lambda>(d, s, k, lo, hi). hi - lo)") auto

declare lower_loop.simps [simp del]

definition block_binary_search :: "bytes \<Rightarrow> nat \<Rightarrow> nat \<Rightarrow> bytes \<Rightarrow> nat option res" where
  "block_binary_search block_data offsets_start num_offsets key =
     (if num_offsets = 0 then Inr None
      else rbind (lower_loop block_data offsets_start key 0 num_offsets) (\<lambda>lo.
        if lo < num_offsets
        then rbind (block_key_at block_data offsets_start lo) (\<lambda>(entry_off, kl, entry_key).
               Inr (if entry_key = key then Some entry_off else None))
        else Inr None))"

section \<open>Entries at offsets\<close>

fun enc :: "kv_entry \<Rightarrow> bytes" where "enc (k, v, s, t) = encode_entry k v s t"

definition entry_ok :: "kv_entry \<Rightarrow> bool" where
  "entry_ok e = (case e of (k, v, s, t) \<Rightarrow> length k < 65536 \<and> length v < 4294967296)"

definition entry_at :: "bytes \<Rightarrow> nat \<Rightarrow> kv_entry \<Rightarrow> bool" where
  "entry_at data off e \<longleftrightarrow> entry_ok e \<and> (\<exists>pre post. data = pre @ enc e @ post \<and> off = length pre)"

lemma length_enc: "length (enc (k, v, s, t)) = length k + length v + 22"
  by (simp add: encode_entry_def)

lemma enc_pos: "22 \<le> length (enc e)"
  by (cases e) (simp add: length_enc del: enc.simps)

lemma read_u16_append:
  "pos = length pre \<Longrightarrow> read_u16 (pre @ u16_le w @ post) pos msg = Inr (unat w)"
  by (simp add: read_u16_def get_slice_append)

lemma read_u32_append:
  "pos = length pre \<Longrightarrow> read_u32 (pre @ u32_le w @ post) pos msg = Inr (unat w)"
  by (simp add: read_u32_def get_slice_append)

lemma read_u64_append:
  "pos = length pre \<Longrightarrow> read_u64 (pre @ u64_le w @ post) pos msg = Inr w"
  by (simp add: read_u64_def get_slice_append)

text \<open>Reading the fields of an entry where one was written.\<close>

lemma entry_at_fields:
  assumes "entry_at data off (k, v, s, t)"
  shows "read_u16 data off msg = Inr (length k)"
    "get_slice data (off + 2) (off + 2 + length k) = Some k"
    "read_u64 data (off + 2 + length k) msg = Inr s"
    "read_u64 data (off + 2 + length k + 8) msg = Inr t"
    "read_u32 data (off + 2 + length k + 16) msg = Inr (length v)"
    "get_slice data (off + 2 + length k + 20) (off + 2 + length k + 20 + length v) = Some v"
    "off + 2 + length k + 20 + length v \<le> length data"
proof -
  from assms obtain pre post where d: "data = pre @ encode_entry k v s t @ post" "off = length pre"
    and ok: "length k < 65536" "length v < 4294967296"
    by (auto simp: entry_at_def entry_ok_def)
  have kl: "unat (of_nat (length k) :: u16) = length k" "unat (of_nat (length v) :: u32) = length v"
    using ok by (simp_all add: unat_of_nat_u16 unat_of_nat_u32)
  note E = encode_entry_def
  show "read_u16 data off msg = Inr (length k)"
    using read_u16_append [of off pre "of_nat (length k)" _ msg] d kl by (simp add: E)
  show "get_slice data (off + 2) (off + 2 + length k) = Some k"
    using get_slice_append [of "off + 2" "pre @ u16_le (of_nat (length k))" "off + 2 + length k" k] d
    by (simp add: E)
  show "read_u64 data (off + 2 + length k) msg = Inr s"
    using read_u64_append [of "off + 2 + length k" "pre @ u16_le (of_nat (length k)) @ k" s _ msg] d
    by (simp add: E)
  show "read_u64 data (off + 2 + length k + 8) msg = Inr t"
    using read_u64_append [of "off + 2 + length k + 8" "pre @ u16_le (of_nat (length k)) @ k @ u64_le s" t _ msg] d
    by (simp add: E)
  show "read_u32 data (off + 2 + length k + 16) msg = Inr (length v)"
    using read_u32_append [of "off + 2 + length k + 16"
        "pre @ u16_le (of_nat (length k)) @ k @ u64_le s @ u64_le t" "of_nat (length v)" _ msg] d kl
    by (simp add: E)
  show "get_slice data (off + 2 + length k + 20) (off + 2 + length k + 20 + length v) = Some v"
    using get_slice_append [of "off + 2 + length k + 20"
        "pre @ u16_le (of_nat (length k)) @ k @ u64_le s @ u64_le t @ u32_le (of_nat (length v))"
        "off + 2 + length k + 20 + length v" v] d
    by (simp add: E)
  show "off + 2 + length k + 20 + length v \<le> length data" using d by (simp add: E)
qed

text \<open>A byte string that holds the entries \<open>es\<close>, found through the offset table at \<open>start\<close>.\<close>

definition block_repr :: "bytes \<Rightarrow> nat \<Rightarrow> kv_entry list \<Rightarrow> bool" where
  "block_repr data start es \<longleftrightarrow> sorted_wrt (<) (map fst es) \<and>
     (\<forall>i < length es. \<exists>off. (\<forall>msg. read_u16 data (start + i * 2) msg = Inr off) \<and> entry_at data off (es ! i))"

lemma block_key_at_repr:
  assumes "block_repr data start es" "i < length es"
  obtains off where "\<And>msg. read_u16 data (start + i * 2) msg = Inr off" "entry_at data off (es ! i)"
    "block_key_at data start i = Inr (off, length (fst (es ! i)), fst (es ! i))"
proof -
  from assms obtain off where off: "\<And>msg. read_u16 data (start + i * 2) msg = Inr off"
    "entry_at data off (es ! i)" unfolding block_repr_def by blast
  obtain k v s t where e: "es ! i = (k, v, s, t)" by (cases "es ! i") auto
  show ?thesis
    using entry_at_fields [OF off(2) [unfolded e]] off e
    by (intro that [OF off]) (simp add: block_key_at_def)
qed

lemma repr_keys_less:
  "block_repr data start es \<Longrightarrow> i < j \<Longrightarrow> j < length es \<Longrightarrow> fst (es ! i) < fst (es ! j)"
  unfolding block_repr_def using sorted_wrt_nth_less [of "(<)" "map fst es" i j] by simp

lemma lower_loop_repr:
  assumes "block_repr data start es" "hi \<le> length es" "lo \<le> hi"
    and "\<forall>j < lo. fst (es ! j) < key" "\<forall>j. hi \<le> j \<and> j < length es \<longrightarrow> key \<le> fst (es ! j)"
  shows "\<exists>m \<le> length es. lower_loop data start key lo hi = Inr m \<and> (\<forall>j < m. fst (es ! j) < key) \<and>
     (\<forall>j. m \<le> j \<and> j < length es \<longrightarrow> key \<le> fst (es ! j))"
  using assms
proof (induction data start key lo hi rule: lower_loop.induct)
  case (1 data start key lo hi)
  show ?case
  proof (cases "lo < hi")
    case False
    with "1.prems" show ?thesis by (subst lower_loop.simps) auto
  next
    case True
    define mid where "mid = lo + (hi - lo) div 2"
    have mid: "lo \<le> mid" "mid < hi" "mid < length es" using True "1.prems"(2) by (auto simp: mid_def)
    from block_key_at_repr [OF "1.prems"(1) mid(3)] obtain off where
      k: "block_key_at data start mid = Inr (off, length (fst (es ! mid)), fst (es ! mid))" by metis
    note less = repr_keys_less [OF "1.prems"(1)]
    have step: "lower_loop data start key lo hi = (if fst (es ! mid) < key
        then lower_loop data start key (mid + 1) hi else lower_loop data start key lo mid)"
      using True k by (subst lower_loop.simps) (simp add: Let_def mid_def [symmetric])
    show ?thesis
    proof (cases "fst (es ! mid) < key")
      case lt: True
      have "fst (es ! j) < key" if "j < mid + 1" for j
        using lt less [of j mid] mid(3) that by (cases "j = mid") (auto intro: order.strict_trans)
      then show ?thesis unfolding step if_P [OF lt]
        by (intro "1.IH"(1) [OF True mid_def k refl refl lt "1.prems"(1,2)] "1.prems"(5)) (use mid in auto)
    next
      case ge: False
      have "key \<le> fst (es ! j)" if "mid \<le> j" "j < length es" for j
        using ge less [of mid j] that by (cases "j = mid") (auto simp: not_less)
      then show ?thesis unfolding step if_not_P [OF ge]
        by (intro "1.IH"(2) [OF True mid_def k refl refl ge "1.prems"(1)] "1.prems"(4)) (use mid in auto)
    qed
  qed
qed

lemma index_loop_repr:
  assumes "block_repr data start es" "hi \<le> length es" "lo \<le> hi"
    and "\<forall>j < lo. fst (es ! j) < key" "\<forall>j. hi \<le> j \<and> j < length es \<longrightarrow> key < fst (es ! j)"
  shows "\<exists>r. index_loop data start key lo hi = Inr r \<and> insertion_point r \<le> length es \<and>
     (\<forall>j < insertion_point r. fst (es ! j) < key) \<and>
     (\<forall>j. insertion_point r \<le> j \<and> j < length es \<longrightarrow> key \<le> fst (es ! j)) \<and>
     (case r of Inr i \<Rightarrow> i < length es \<and> fst (es ! i) = key
      | Inl i \<Rightarrow> \<forall>j. i \<le> j \<and> j < length es \<longrightarrow> key < fst (es ! j))"
  using assms
proof (induction data start key lo hi rule: index_loop.induct)
  case (1 data start key lo hi)
  show ?case
  proof (cases "lo < hi")
    case False
    with "1.prems" show ?thesis
      by (subst index_loop.simps) (auto simp: insertion_point_def less_imp_le)
  next
    case True
    define mid where "mid = lo + (hi - lo) div 2"
    have mid: "lo \<le> mid" "mid < hi" "mid < length es" using True "1.prems"(2) by (auto simp: mid_def)
    from block_key_at_repr [OF "1.prems"(1) mid(3)] obtain off where
      k: "block_key_at data start mid = Inr (off, length (fst (es ! mid)), fst (es ! mid))" by metis
    note less = repr_keys_less [OF "1.prems"(1)]
    have step: "index_loop data start key lo hi = (if fst (es ! mid) < key
        then index_loop data start key (mid + 1) hi
        else if key < fst (es ! mid) then index_loop data start key lo mid else Inr (Inr mid))"
      using True k by (subst index_loop.simps) (simp add: Let_def mid_def [symmetric])
    consider (lt) "fst (es ! mid) < key" | (gt) "key < fst (es ! mid)" | (eq) "fst (es ! mid) = key"
      by fastforce
    then show ?thesis
    proof cases
      case lt
      have "fst (es ! j) < key" if "j < mid + 1" for j
        using lt less [of j mid] mid(3) that by (cases "j = mid") (auto intro: order.strict_trans)
      then show ?thesis unfolding step if_P [OF lt]
        by (intro "1.IH"(1) [OF True mid_def k refl refl lt "1.prems"(1,2)] "1.prems"(5)) (use mid in auto)
    next
      case gt
      then have ge: "\<not> fst (es ! mid) < key" by simp
      have "key < fst (es ! j)" if "mid \<le> j" "j < length es" for j
        using gt less [of mid j] that by (cases "j = mid") (auto intro: order.strict_trans)
      then show ?thesis unfolding step if_not_P [OF ge] if_P [OF gt]
        by (intro "1.IH"(2) [OF True mid_def k refl refl ge gt "1.prems"(1)] "1.prems"(4)) (use mid in auto)
    next
      case eq
      have "key \<le> fst (es ! j)" if "mid \<le> j" "j < length es" for j
        using eq less [of mid j] that by (cases "j = mid") auto
      with eq less [of _ mid] mid(3) show ?thesis
        unfolding step by (auto simp: insertion_point_def)
    qed
  qed
qed

lemma block_binary_search_repr:
  assumes "block_repr data start es"
  shows "e \<in> set es \<Longrightarrow> \<exists>off. block_binary_search data start (length es) (fst e) = Inr (Some off) \<and>
           entry_at data off e"
    "key \<notin> fst ` set es \<Longrightarrow> block_binary_search data start (length es) key = Inr None"
proof -
  have lower: "\<exists>m \<le> length es. lower_loop data start key 0 (length es) = Inr m \<and>
      (\<forall>j < m. fst (es ! j) < key) \<and> (\<forall>j. m \<le> j \<and> j < length es \<longrightarrow> key \<le> fst (es ! j))" for key
    by (rule lower_loop_repr [OF assms]) auto
  show "\<exists>off. block_binary_search data start (length es) (fst e) = Inr (Some off) \<and> entry_at data off e"
    if e: "e \<in> set es"
  proof -
    from e obtain i where i: "i < length es" "es ! i = e" by (auto simp: in_set_conv_nth)
    from lower [of "fst e"] obtain m where m: "lower_loop data start (fst e) 0 (length es) = Inr m"
      "\<forall>j < m. fst (es ! j) < fst e" "\<forall>j. m \<le> j \<and> j < length es \<longrightarrow> fst e \<le> fst (es ! j)" by blast
    have "\<not> i < m" using m(2) i by auto
    moreover have "\<not> m < i"
      using m(3) i repr_keys_less [OF assms, of m i] by (meson leD less_imp_le_nat less_trans order_refl)
    ultimately have "m = i" by simp
    from block_key_at_repr [OF assms i(1)] i show ?thesis
      using m(1) \<open>m = i\<close> by (fastforce simp: block_binary_search_def)
  qed
  show "block_binary_search data start (length es) key = Inr None" if no: "key \<notin> fst ` set es"
  proof -
    from lower [of key] obtain m where m: "lower_loop data start key 0 (length es) = Inr m" by blast
    show ?thesis
    proof (cases "m < length es")
      case True
      from block_key_at_repr [OF assms True] obtain off where
        "block_key_at data start m = Inr (off, length (fst (es ! m)), fst (es ! m))" by metis
      moreover have "fst (es ! m) \<noteq> key" using no True by (metis image_eqI nth_mem)
      ultimately show ?thesis using m True by (simp add: block_binary_search_def)
    qed (use m in \<open>simp add: block_binary_search_def\<close>)
  qed
qed

lemma binary_search_index_exact:
  assumes "block_repr data start es"
  shows "\<exists>r. binary_search_index_in_block data start (length es) key = Inr r \<and>
     ((\<exists>i < length es. r = Inr i) \<longleftrightarrow> key \<in> fst ` set es) \<and> ((\<exists>i. r = Inl i) \<longleftrightarrow> key \<notin> fst ` set es)"
proof (cases "es = []")
  case True
  then show ?thesis by (simp add: binary_search_index_in_block_def)
next
  case False
  have "\<forall>j. length es \<le> j \<and> j < length es \<longrightarrow> key < fst (es ! j)" by auto
  from index_loop_repr [OF assms order_refl le0 _ this] False obtain r where
    r: "binary_search_index_in_block data start (length es) key = Inr r"
      "\<forall>j < insertion_point r. fst (es ! j) < key"
      "case r of Inr i \<Rightarrow> i < length es \<and> fst (es ! i) = key
       | Inl i \<Rightarrow> \<forall>j. i \<le> j \<and> j < length es \<longrightarrow> key < fst (es ! j)"
    by (auto simp: binary_search_index_in_block_def)
  show ?thesis
  proof (cases r)
    case (Inl i)
    have "fst (es ! j) \<noteq> key" if "j < length es" for j
      using r(2,3) that Inl order.irrefl by (cases "j < i") (fastforce simp: insertion_point_def not_less)+
    then have "key \<notin> fst ` set es" by (force simp: in_set_conv_nth)
    with r(1) Inl show ?thesis by auto
  next
    case (Inr i)
    with r(3) have "i < length es" "key \<in> fst ` set es" by (auto intro!: image_eqI [OF _ nth_mem])
    with r(1) Inr show ?thesis by auto
  qed
qed

lemma binary_search_index_repr:
  assumes "block_repr data start es"
  shows "\<exists>r. binary_search_index_in_block data start (length es) key = Inr r \<and>
     insertion_point r \<le> length es \<and> (\<forall>j < insertion_point r. fst (es ! j) < key) \<and>
     (\<forall>j. insertion_point r \<le> j \<and> j < length es \<longrightarrow> key \<le> fst (es ! j))"
proof (cases "es = []")
  case True
  then show ?thesis by (simp add: binary_search_index_in_block_def insertion_point_def)
next
  case False
  have "\<forall>j. length es \<le> j \<and> j < length es \<longrightarrow> key < fst (es ! j)" by auto
  from index_loop_repr [OF assms order_refl le0 _ this] False show ?thesis
    by (simp add: binary_search_index_in_block_def) blast
qed

section \<open>What the builder writes\<close>

abbreviation enc_all :: "kv_entry list \<Rightarrow> bytes" where
  "enc_all es \<equiv> concat (map enc es)"

definition block_inv :: "(bytes \<Rightarrow> bytes) \<Rightarrow> kv_entry list \<Rightarrow> block_builder \<Rightarrow> bool" where
  "block_inv blake3 es B \<longleftrightarrow> bb_block_size B \<le> 65536 \<and> bb_data B = enc_all es \<and>
     bb_offsets B = map (\<lambda>i. of_nat (length (enc_all (take i es)))) [0..<length es] \<and>
     (\<forall>i < length es. length (enc_all (take i es)) < 65536) \<and> (\<forall>e\<in>set es. entry_ok e) \<and>
     (\<forall>e\<in>set es. \<forall>i\<in>set (block_bloom_bits blake3 (fst e)). bit (bb_bloom B) i)"

lemma block_bloom_bits_lt: "i \<in> set (block_bloom_bits blake3 k) \<Longrightarrow> i < 64"
  by (auto simp: block_bloom_bits_def Let_def)

lemma bit_fold_or:
  "\<forall>i\<in>set is. i < 64 \<Longrightarrow> bit (fold (\<lambda>i w. w OR push_bit i 1) is w) n \<longleftrightarrow> bit (w :: u64) n \<or> n \<in> set is"
proof (induction "is" arbitrary: w)
  case (Cons i "is")
  then have "bit (push_bit i 1 :: u64) n \<longleftrightarrow> n = i" by (auto simp: bit_exp_iff)
  with Cons show ?case by (auto simp: bit_or_iff)
qed simp

lemma block_inv_new: "n \<le> 65536 \<Longrightarrow> block_inv blake3 [] (block_builder_new n)"
  by (simp add: block_inv_def block_builder_new_def)

lemma block_add_inv:
  assumes "block_inv blake3 es B" "entry_ok (k, v, s, t)" "block_add blake3 k v s t B = (True, B')"
  shows "block_inv blake3 (es @ [(k, v, s, t)]) B'" "bb_block_size B' = bb_block_size B"
proof -
  note inv = assms(1) [unfolded block_inv_def]
  define B1 where "B1 = update_bloom blake3 k B"
  have B': "B' = B1\<lparr>bb_offsets := bb_offsets B @ [of_nat (length (bb_data B))],
      bb_data := bb_data B @ encode_entry k v s t\<rparr>"
    and fits: "bb_data B = [] \<or> current_size B + length k + length v + 20 \<le> bb_block_size B"
    using assms(3) by (auto simp: block_add_def B1_def update_bloom_def Let_def split: if_splits)
  have "bb_block_size B \<le> 65536" using inv by blast
  with fits have lt: "length (bb_data B) < 65536" by (auto simp: current_size_def)
  have bloom: "bit (bb_bloom B') i \<longleftrightarrow> bit (bb_bloom B) i \<or> i \<in> set (block_bloom_bits blake3 k)" for i
    using bit_fold_or [of "block_bloom_bits blake3 k" "bb_bloom B" i] block_bloom_bits_lt
    by (simp add: B' B1_def update_bloom_def)
  have "bb_offsets B' = map (\<lambda>i. of_nat (length (enc_all (take i (es @ [(k, v, s, t)])))))
      [0..<length (es @ [(k, v, s, t)])]"
    using inv by (simp add: B')
  moreover have "length (enc_all (take i (es @ [(k, v, s, t)]))) < 65536"
    if "i < length (es @ [(k, v, s, t)])" for i
    using that inv lt by (cases "i = length es") auto
  ultimately show "block_inv blake3 (es @ [(k, v, s, t)]) B'"
    using inv assms(2) bloom by (auto simp: block_inv_def B' B1_def update_bloom_def)
  show "bb_block_size B' = bb_block_size B" by (simp add: B' B1_def update_bloom_def)
qed

lemma enc_all_length: "22 * length es \<le> length (enc_all es)"
proof (induction es)
  case (Cons e es)
  then show ?case using enc_pos [of e] by simp
qed simp

lemma block_inv_count:
  assumes "block_inv blake3 es B" shows "length es < 65536"
proof (cases "length es")
  case (Suc n)
  then have "length (enc_all (take n es)) < 65536" using assms by (simp add: block_inv_def)
  moreover have "22 * n \<le> length (enc_all (take n es))" using enc_all_length [of "take n es"] Suc by simp
  ultimately show ?thesis using Suc by simp
qed simp

lemma length_concat_u16 [simp]: "length (concat (map u16_le ws)) = 2 * length ws"
  by (induction ws) auto

lemma block_build_repr:
  assumes inv: "block_inv blake3 es B" and sorted: "sorted_wrt (<) (map fst es)"
  shows "block_repr (block_build B) (length (bb_data B) + 8) es"
  unfolding block_repr_def
proof (intro conjI allI impI)
  fix i assume i: "i < length es"
  let ?off = "length (enc_all (take i es))"
  define os where "os = bb_offsets B"
  have os: "length os = length es" "os ! i = of_nat ?off"
    using inv i by (simp_all add: block_inv_def os_def)
  have off: "?off < 65536" using inv i by (simp add: block_inv_def)
  have "block_build B = (bb_data B @ u64_le (bb_bloom B) @ concat (map u16_le (take i os))) @
      u16_le (os ! i) @ concat (map u16_le (drop (Suc i) os)) @ u16_le (of_nat (length os))"
    using concat_map_split [of i os u16_le] i os(1) by (simp add: block_build_def os_def [symmetric])
  then have "read_u16 (block_build B) (length (bb_data B) + 8 + i * 2) msg = Inr (unat (os ! i))" for msg
    using i os(1) by (simp only:) (rule read_u16_append, simp)
  moreover have "unat (os ! i) = ?off" using off os(2) by (simp add: unat_of_nat_u16)
  moreover have "entry_at (block_build B) ?off (es ! i)"
  proof -
    have "block_build B = enc_all (take i es) @ enc (es ! i) @ enc_all (drop (Suc i) es) @
        u64_le (bb_bloom B) @ concat (map u16_le os) @ u16_le (of_nat (length os))"
    proof -
      have "bb_data B = enc_all es" using inv by (simp add: block_inv_def)
      then show ?thesis
        using concat_map_split [OF i, of enc] by (simp add: block_build_def os_def [symmetric])
    qed
    moreover have "entry_ok (es ! i)" using inv i by (simp add: block_inv_def)
    ultimately show ?thesis unfolding entry_at_def by blast
  qed
  ultimately show "\<exists>off. (\<forall>msg. read_u16 (block_build B) (length (bb_data B) + 8 + i * 2) msg = Inr off) \<and>
      entry_at (block_build B) off (es ! i)" by auto
qed (rule sorted)

text \<open>Where readers find the count, the filter and the offsets of a built block.\<close>

lemma block_build_layout:
  fixes B :: block_builder
  defines "n \<equiv> length (block_build B)"
  assumes "block_inv blake3 es B"
  shows "read_u16 (block_build B) (n - 2) msg = Inr (length es)"
    "n = length (bb_data B) + 8 + 2 * length es + 2"
    "read_u64 (block_build B) (length (bb_data B)) msg = Inr (bb_bloom B)"
proof -
  have len: "length (bb_offsets B) = length es" using assms(2) by (simp add: block_inv_def)
  show n: "n = length (bb_data B) + 8 + 2 * length es + 2"
    by (simp add: n_def block_build_def len)
  have "block_build B = (bb_data B @ u64_le (bb_bloom B) @ concat (map u16_le (bb_offsets B))) @
      u16_le (of_nat (length es)) @ []" by (simp add: block_build_def len)
  moreover have "n - 2 = length (bb_data B @ u64_le (bb_bloom B) @ concat (map u16_le (bb_offsets B)))"
    using n len by simp
  ultimately have "read_u16 (block_build B) (n - 2) msg = Inr (unat (of_nat (length es) :: u16))"
    using read_u16_append by metis
  with block_inv_count [OF assms(2)] show "read_u16 (block_build B) (n - 2) msg = Inr (length es)"
    by (simp add: unat_of_nat_u16)
  show "read_u64 (block_build B) (length (bb_data B)) msg = Inr (bb_bloom B)"
    by (simp add: block_build_def read_u64_append)
qed

end
