(* ===== verification/Key_Manager.thy ===== *)
theory Key_Manager
  imports Types
begin

text \<open>
  The file keys that the tables and the write-ahead log encrypt with, the pass-through key manager
  of the default build, and what the storage relies on of an encrypting one: encryption succeeds
  with a nonce of 12 bytes and decryption inverts it.
\<close>

text \<open>
  The file key. The \<open>i\<close>-th call of \<open>encrypt_auto_nonce\<close> may use a different nonce; the default
  build has the pass-through key manager of \<open>wal/mod.rs\<close>.
\<close>

record key_manager =
  km_encrypt :: "nat \<Rightarrow> bytes \<Rightarrow> (bytes \<times> bytes) res"
  km_decrypt :: "bytes \<Rightarrow> bytes \<Rightarrow> bytes res"

definition km_plain :: key_manager where
  "km_plain = \<lparr>km_encrypt = (\<lambda>i plaintext. Inr (plaintext, replicate 12 0)),
               km_decrypt = (\<lambda>ciphertext nonce. Inr ciphertext)\<rparr>"

definition km_lawful :: "key_manager \<Rightarrow> bool" where
  "km_lawful km \<longleftrightarrow> (\<forall>i x. \<exists>c n. km_encrypt km i x = Inr (c, n) \<and> length n = 12 \<and> km_decrypt km c n = Inr x)"

definition km_opt_lawful :: "key_manager option \<Rightarrow> bool" where
  "km_opt_lawful km = (case km of None \<Rightarrow> True | Some m \<Rightarrow> km_lawful m)"

lemma km_plain_lawful: "km_lawful km_plain"
  by (simp add: km_lawful_def km_plain_def)

end
