(* ===== verification/Sstable.thy ===== *)
theory Sstable
  imports Bloom_Filter Block_Format Key_Manager
begin

text \<open>
  SSTable files: \<open>SstableBuilder\<close> (\<open>crates/contextra-store/src/sstable/builder.rs\<close>),
  \<open>SstableReader\<close> (\<open>reader.rs\<close>, \<open>reader_ext.rs\<close>) and \<open>SstableStream\<close> (\<open>stream.rs\<close>).
  A file is its bytes; writes and reads of the file succeed, short files give the read error of
  \<open>pread_exact\<close>. The checksum (\<open>crc32fast\<close>), the digest (\<open>blake3\<close>) and the cipher of an
  encrypting key manager are parameters. The shared block cache only repeats earlier reads of an
  immutable file and is left out.
\<close>

section \<open>Builder\<close>

definition BLOCK_SIZE :: nat where "BLOCK_SIZE = 4096"
definition SSTABLE_MAGIC_MFSX :: u32 where "SSTABLE_MAGIC_MFSX = 0x5853464D"
definition SSTABLE_MAGIC_LEGACY :: u32 where "SSTABLE_MAGIC_LEGACY = 0x4D465354"
definition MAX_VALUE_SIZE :: nat where "MAX_VALUE_SIZE = 134217728"

record sst_metadata =
  sm_first_key :: bytes
  sm_last_key :: bytes
  sm_file_size :: nat
  sm_min_tx_id :: u64
  sm_max_tx_id :: u64
  sm_min_seq :: u64
  sm_max_seq :: u64

record sst_builder =
  sb_file :: bytes
  sb_block :: block_builder
  sb_index :: "(bytes \<times> u64) list"
  sb_first_key :: "bytes option"
  sb_last_key :: "bytes option"
  sb_offset :: u64
  sb_km :: "key_manager option"
  sb_bloom :: bloom_filter
  sb_key_count :: nat
  sb_min_tx_id :: u64
  sb_max_tx_id :: u64
  sb_min_seq :: u64
  sb_max_seq :: u64

text \<open>\<open>fm\<close> and \<open>fh\<close> are the filter dimensions of \<open>BloomFilter::new(100_000, 0.01)\<close>.\<close>

definition sst_create :: "nat \<Rightarrow> nat \<Rightarrow> key_manager option \<Rightarrow> sst_builder" where
  "sst_create fm fh km =
     \<lparr>sb_file = [], sb_block = block_builder_new BLOCK_SIZE, sb_index = [], sb_first_key = None,
      sb_last_key = None, sb_offset = 0, sb_km = km, sb_bloom = bloom_new fm fh, sb_key_count = 0,
      sb_min_tx_id = - 1, sb_max_tx_id = 0, sb_min_seq = - 1, sb_max_seq = 0\<rparr>"

definition with_crc :: "(bytes \<Rightarrow> u32) \<Rightarrow> bytes \<Rightarrow> bytes" where
  "with_crc crc32 data = u32_le (crc32 data) @ data"

definition flush_block :: "(bytes \<Rightarrow> u32) \<Rightarrow> sst_builder \<Rightarrow> sst_builder res" where
  "flush_block crc32 S =
     (if block_is_empty (sb_block S) then Inr S
      else rbind (ok_or (Storage ''Missing last_key'') (sb_last_key S)) (\<lambda>last_key.
        let block_data = block_build (sb_block S);
            plain = with_crc crc32 block_data
        in rbind (case sb_km S of
                    None \<Rightarrow> Inr plain
                  | Some km \<Rightarrow> rbind (km_encrypt km (length (sb_index S)) plain)
                      (\<lambda>(encrypted, nonce). Inr (nonce @ encrypted))) (\<lambda>block.
           Inr (S\<lparr>sb_block := block_builder_new BLOCK_SIZE,
                  sb_file := sb_file S @ block,
                  sb_index := sb_index S @ [(last_key, sb_offset S)],
                  sb_offset := sb_offset S + of_nat (length block)\<rparr>))))"

definition sst_add ::
    "(bytes \<Rightarrow> u32) \<Rightarrow> (bytes \<Rightarrow> bytes) \<Rightarrow> bytes \<Rightarrow> bytes \<Rightarrow> u64 \<Rightarrow> u64 \<Rightarrow> sst_builder \<Rightarrow> sst_builder res" where
  "sst_add crc32 blake3 key val seq_no tx_id S =
     (if key = [] then Inl (InvalidInput ''SSTable key cannot be empty'')
      else if 65535 < length key \<or> MAX_VALUE_SIZE < length val
      then Inl (InvalidInput ''Key exceeds 65535 limit or value exceeds MAX_VALUE_SIZE limit'')
      else let S = (if sb_first_key S = None then S\<lparr>sb_first_key := Some key\<rparr> else S)
           in rbind (case block_add blake3 key val seq_no tx_id (sb_block S) of
                       (True, b) \<Rightarrow> Inr (S\<lparr>sb_block := b\<rparr>)
                     | (False, _) \<Rightarrow> rbind (flush_block crc32 S) (\<lambda>S.
                         case block_add blake3 key val seq_no tx_id (sb_block S) of
                           (True, b) \<Rightarrow> Inr (S\<lparr>sb_block := b\<rparr>)
                         | (False, _) \<Rightarrow> Inl (Storage ''Key-value entry too large for SSTable block''))) (\<lambda>S.
              rbind (bloom_insert blake3 key (sb_bloom S)) (\<lambda>bloom.
              Inr (S\<lparr>sb_bloom := bloom,
                     sb_key_count := sb_key_count S + 1,
                     sb_min_tx_id := min (sb_min_tx_id S) tx_id,
                     sb_max_tx_id := max (sb_max_tx_id S) tx_id,
                     sb_min_seq := min (sb_min_seq S) (raw_seq seq_no),
                     sb_max_seq := max (sb_max_seq S) (raw_seq seq_no),
                     sb_last_key := Some key\<rparr>))))"

definition index_entry :: "bytes \<times> u64 \<Rightarrow> bytes" where
  "index_entry e = u16_le (of_nat (length (fst e))) @ fst e @ u64_le (snd e)"

definition sst_finish :: "(bytes \<Rightarrow> u32) \<Rightarrow> sst_builder \<Rightarrow> (bytes \<times> sst_metadata) res" where
  "sst_finish crc32 S =
     rbind (flush_block crc32 S) (\<lambda>S.
       let index_offset = sb_offset S;
           index_to_write = with_crc crc32 (concat (map index_entry (sb_index S)));
           bloom_offset = index_offset + of_nat (length index_to_write);
           bloom_to_write = with_crc crc32 (bloom_to_bytes (sb_bloom S));
           file = sb_file S @ index_to_write @ bloom_to_write @
             u64_le (sb_min_tx_id S) @ u64_le (sb_max_tx_id S) @ u64_le (sb_min_seq S) @
             u64_le (sb_max_seq S) @ u64_le bloom_offset @ u64_le index_offset @
             u16_le 1 @ u32_le SSTABLE_MAGIC_MFSX
       in Inr (file,
            \<lparr>sm_first_key = (case sb_first_key S of None \<Rightarrow> [] | Some k \<Rightarrow> k),
             sm_last_key = (case sb_last_key S of None \<Rightarrow> [] | Some k \<Rightarrow> k),
             sm_file_size = length file, sm_min_tx_id = sb_min_tx_id S, sm_max_tx_id = sb_max_tx_id S,
             sm_min_seq = sb_min_seq S, sm_max_seq = sb_max_seq S\<rparr>))"

fun sst_add_all ::
    "(bytes \<Rightarrow> u32) \<Rightarrow> (bytes \<Rightarrow> bytes) \<Rightarrow> kv_entry list \<Rightarrow> sst_builder \<Rightarrow> sst_builder res" where
  "sst_add_all crc32 blake3 [] S = Inr S"
| "sst_add_all crc32 blake3 ((k, v, s, t) # es) S =
     rbind (sst_add crc32 blake3 k v s t S) (sst_add_all crc32 blake3 es)"

text \<open>The whole life of a builder, as the flush and the compaction drive it.\<close>

definition sst_build ::
    "(bytes \<Rightarrow> u32) \<Rightarrow> (bytes \<Rightarrow> bytes) \<Rightarrow> nat \<Rightarrow> nat \<Rightarrow> key_manager option \<Rightarrow> kv_entry list \<Rightarrow>
     (bytes \<times> sst_metadata) res" where
  "sst_build crc32 blake3 fm fh km es =
     rbind (sst_add_all crc32 blake3 es (sst_create fm fh km)) (sst_finish crc32)"

section \<open>Reader\<close>

record sst_reader =
  rd_file :: bytes
  rd_index :: "(bytes \<times> u64) list"
  rd_metadata :: sst_metadata
  rd_index_offset :: u64
  rd_km :: "key_manager option"
  rd_bloom :: "bloom_filter option"
  rd_has_crc :: bool

definition pread_exact :: "bytes \<Rightarrow> nat \<Rightarrow> nat \<Rightarrow> string \<Rightarrow> bytes res" where
  "pread_exact file offset len msg = ok_or (Storage msg) (get_slice file offset (offset + len))"

text \<open>Undoing encryption and checksum of what is stored for a block.\<close>

definition decode_block :: "(bytes \<Rightarrow> u32) \<Rightarrow> key_manager option \<Rightarrow> bool \<Rightarrow> u64 \<Rightarrow> bytes \<Rightarrow> bytes res" where
  "decode_block crc32 km has_crc offset data =
     rbind (case km of
              None \<Rightarrow> Inr data
            | Some m \<Rightarrow> if length data < 12 then Inl (Storage ''Block too small for nonce'')
                       else km_decrypt m (drop 12 data) (take 12 data)) (\<lambda>block_data.
     if has_crc
     then if length block_data < 4 then Inl (Storage ''Block too small for CRC'')
          else if u32_of_le (take 4 block_data) \<noteq> crc32 (drop 4 block_data)
          then Inl (ChecksumMismatch offset)
          else Inr (drop 4 block_data)
     else Inr block_data)"

definition read_block_at_file ::
    "(bytes \<Rightarrow> u32) \<Rightarrow> bytes \<Rightarrow> u64 \<Rightarrow> u64 \<Rightarrow> key_manager option \<Rightarrow> bool \<Rightarrow> bytes res" where
  "read_block_at_file crc32 file offset next_offset km has_crc =
     rbind (pread_exact file (unat offset) (unat next_offset - unat offset) ''Block read failed'')
       (decode_block crc32 km has_crc offset)"

text \<open>The loop over the index bytes.\<close>

fun parse_index :: "bytes \<Rightarrow> (bytes \<times> u64) list res" where
  "parse_index data =
     (if length data < 10 then Inr []
      else let key_len = unat (u16_of_le (take 2 data))
           in if length data < 2 + key_len + 8 then Inl (ParseError ''corrupted index: data too short'')
              else rbind (parse_index (drop (2 + key_len + 8) data)) (\<lambda>rest.
                Inr ((take key_len (drop 2 data), u64_of_le (take 8 (drop (2 + key_len) data))) # rest)))"

declare parse_index.simps [simp del]

definition check_crc :: "(bytes \<Rightarrow> u32) \<Rightarrow> bool \<Rightarrow> u64 \<Rightarrow> string \<Rightarrow> bytes \<Rightarrow> bytes res" where
  "check_crc crc32 has_crc offset msg raw =
     (if has_crc
      then if length raw < 4 then Inl (Storage msg)
           else if crc32 (drop 4 raw) \<noteq> u32_of_le (take 4 raw) then Inl (ChecksumMismatch offset)
           else Inr (drop 4 raw)
      else Inr raw)"

text \<open>The eight bytes of the trailer at a position.\<close>

definition trailer_u64 :: "bytes \<Rightarrow> nat \<Rightarrow> u64" where
  "trailer_u64 trailer pos = u64_of_le (take 8 (drop pos trailer))"

record sst_trailer =
  tr_is_mfsx :: bool
  tr_version :: u16
  tr_min_tx_id :: u64
  tr_max_tx_id :: u64
  tr_min_seq :: u64
  tr_max_seq :: u64
  tr_bloom_offset :: u64
  tr_index_offset :: u64

definition parse_trailer :: "bytes \<Rightarrow> sst_trailer res" where
  "parse_trailer trailer =
     (let n = length trailer;
          v1 = 54 \<le> n \<and> u32_of_le (take 4 (drop 50 trailer)) = SSTABLE_MAGIC_MFSX;
          v0 = \<not> v1 \<and> 52 \<le> n \<and> u32_of_le (take 4 (drop 48 trailer)) = SSTABLE_MAGIC_MFSX;
          is_mfsx = (v1 \<or> v0);
          format_version = (if v1 then u16_of_le (take 2 (drop 48 trailer)) else 0)
      in if is_mfsx
         then let base = (if 1 \<le> format_version then 0 else 2)
              in Inr \<lparr>tr_is_mfsx = True, tr_version = format_version,
                   tr_min_tx_id = trailer_u64 trailer base,
                   tr_max_tx_id = trailer_u64 trailer (base + 8),
                   tr_min_seq = trailer_u64 trailer (base + 16),
                   tr_max_seq = trailer_u64 trailer (base + 24),
                   tr_bloom_offset = trailer_u64 trailer (base + 32),
                   tr_index_offset = trailer_u64 trailer (base + 40)\<rparr>
         else if n < 54 then Inl (Panic ''range end index 54 out of range for slice'')
         else if u32_of_le (take 4 (drop 50 trailer)) = SSTABLE_MAGIC_LEGACY
         then Inr \<lparr>tr_is_mfsx = False, tr_version = 0, tr_min_tx_id = 0, tr_max_tx_id = 0,
                tr_min_seq = 0, tr_max_seq = 0, tr_bloom_offset = 0,
                tr_index_offset = trailer_u64 trailer 42\<rparr>
         else Inl (Storage ''Invalid SSTable magic number''))"

definition next_block_offset :: "(bytes \<times> u64) list \<Rightarrow> u64 \<Rightarrow> nat \<Rightarrow> u64" where
  "next_block_offset index index_offset idx =
     (if idx + 1 < length index then snd (index ! (idx + 1)) else index_offset)"

definition sst_open ::
    "(bytes \<Rightarrow> u32) \<Rightarrow> key_manager option \<Rightarrow> bytes \<Rightarrow> sst_reader res" where
  "sst_open crc32 km file =
     (let file_size = length file
      in if file_size < 12 then Inl (Storage ''SSTable file too small'')
         else rbind (parse_trailer (drop (file_size - 54) file)) (\<lambda>tr.
           let has_crc = tr_is_mfsx tr;
               has_bloom = (tr_bloom_offset tr \<noteq> 0);
               tail = (if tr_is_mfsx tr then (if 1 \<le> tr_version tr then 54 else 52) else 12);
               bloom_end = file_size - (if tr_is_mfsx tr then tail else 20);
               index_end = (if has_bloom then unat (tr_bloom_offset tr) else file_size - tail)
           in rbind (if has_bloom
                     then rbind (pread_exact file (unat (tr_bloom_offset tr))
                            (bloom_end - unat (tr_bloom_offset tr)) ''Bloom read failed'') (\<lambda>raw.
                          rbind (check_crc crc32 has_crc (tr_bloom_offset tr)
                            ''Bloom filter data too short for CRC'' raw) (\<lambda>data.
                          rbind (bloom_from_bytes data) (\<lambda>b. Inr (Some b))))
                     else Inr None) (\<lambda>bloom_filter.
              rbind (pread_exact file (unat (tr_index_offset tr))
                (index_end - unat (tr_index_offset tr)) ''Index read failed'') (\<lambda>raw.
              rbind (check_crc crc32 has_crc (tr_index_offset tr) ''Index data too short for CRC'' raw) (\<lambda>index_bytes.
              rbind (parse_index index_bytes) (\<lambda>index.
              rbind (if index \<noteq> []
                     then rbind (read_block_at_file crc32 file (snd (index ! 0))
                            (next_block_offset index (tr_index_offset tr) 0) km has_crc) (\<lambda>block.
                          Inr (if 2 \<le> length block \<and>
                                  2 + unat (u16_of_le (take 2 block)) \<le> length block
                               then take (unat (u16_of_le (take 2 block))) (drop 2 block) else []))
                     else Inr []) (\<lambda>first_key.
              Inr \<lparr>rd_file = file, rd_index = index,
                   rd_metadata = \<lparr>sm_first_key = first_key,
                     sm_last_key = (if index = [] then [] else fst (last index)),
                     sm_file_size = file_size, sm_min_tx_id = tr_min_tx_id tr,
                     sm_max_tx_id = tr_max_tx_id tr, sm_min_seq = tr_min_seq tr,
                     sm_max_seq = tr_max_seq tr\<rparr>,
                   rd_index_offset = tr_index_offset tr, rd_km = km,
                   rd_bloom = bloom_filter, rd_has_crc = has_crc\<rparr>))))))) "

definition get_block :: "(bytes \<Rightarrow> u32) \<Rightarrow> sst_reader \<Rightarrow> nat \<Rightarrow> bytes res" where
  "get_block crc32 R idx =
     read_block_at_file crc32 (rd_file R) (snd (rd_index R ! idx))
       (next_block_offset (rd_index R) (rd_index_offset R) idx) (rd_km R) (rd_has_crc R)"

text \<open>Number of offsets and their position; \<open>None\<close> for a block shorter than ten bytes.\<close>

definition block_header :: "bytes \<Rightarrow> (nat \<times> nat) option res" where
  "block_header block_data =
     (let n = length block_data
      in if n < 10 then Inr None
         else rbind (read_u16 block_data (n - 2) ''malformed block: missing num_offsets'') (\<lambda>num_offsets.
           if n < num_offsets * 2 + 10 then Inl (Storage ''malformed block: num_offsets too large'')
           else Inr (Some (num_offsets, n - 2 - num_offsets * 2))))"

text \<open>Sequence number, transaction and value of an entry behind its key.\<close>

definition entry_tail :: "bytes \<Rightarrow> nat \<Rightarrow> (u64 \<times> u64 \<times> bytes) res" where
  "entry_tail block_data ep =
     rbind (read_u64 block_data ep ''malformed block: seq_no'') (\<lambda>seq_no.
     rbind (read_u64 block_data (ep + 8) ''malformed block: tx_id'') (\<lambda>tx_id.
     rbind (read_u32 block_data (ep + 16) ''malformed block: v_len'') (\<lambda>v_len.
     if length block_data < ep + 20 + v_len
     then Inl (Storage ''malformed block: value length out of bounds'')
     else Inr (seq_no, tx_id, take v_len (drop (ep + 20) block_data)))))"

definition block_may_contain :: "(bytes \<Rightarrow> bytes) \<Rightarrow> u64 \<Rightarrow> bytes \<Rightarrow> bool" where
  "block_may_contain blake3 bloom key =
     list_all (\<lambda>i. bloom AND push_bit i 1 \<noteq> 0) (block_bloom_bits blake3 key)"

definition get_in_block ::
    "(bytes \<Rightarrow> bytes) \<Rightarrow> bytes \<Rightarrow> bytes \<Rightarrow> (bytes \<times> u64 \<times> u64) option res" where
  "get_in_block blake3 block_data key =
     rbind (block_header block_data) (\<lambda>h.
       case h of
         None \<Rightarrow> Inl (Storage ''block too small'')
       | Some (num_offsets, offsets_start) \<Rightarrow>
           rbind (read_u64 block_data (offsets_start - 8) ''malformed block: missing bloom filter'') (\<lambda>bloom.
           if \<not> block_may_contain blake3 bloom key then Inr None
           else rbind (block_binary_search block_data offsets_start num_offsets key) (\<lambda>r.
             case r of
               None \<Rightarrow> Inr None
             | Some entry_off \<Rightarrow>
                 rbind (read_u16 block_data entry_off ''malformed block: k_len'') (\<lambda>k_len.
                 rbind (entry_tail block_data (entry_off + 2 + k_len)) (\<lambda>(seq_no, tx_id, val).
                 Inr (Some (val, seq_no, tx_id)))))))"

definition sst_get ::
    "(bytes \<Rightarrow> u32) \<Rightarrow> (bytes \<Rightarrow> bytes) \<Rightarrow> sst_reader \<Rightarrow> bytes \<Rightarrow> (bytes \<times> u64 \<times> u64) option res" where
  "sst_get crc32 blake3 R key =
     rbind (case rd_bloom R of None \<Rightarrow> Inr True | Some b \<Rightarrow> may_contain blake3 key b) (\<lambda>may.
       if \<not> may then Inr None
       else if key < sm_first_key (rd_metadata R) \<or> sm_last_key (rd_metadata R) < key then Inr None
       else let idx = insertion_point (binary_search (map fst (rd_index R)) key)
            in if length (rd_index R) \<le> idx then Inr None
               else rbind (get_block crc32 R idx) (\<lambda>block_data. get_in_block blake3 block_data key))"

text \<open>
  \<open>lookup_metrics\<close>: did the key pass the table filter, the key range, was a block read, was the
  key found; every error of the block counts as not found.
\<close>

definition found_in_block :: "(bytes \<Rightarrow> bytes) \<Rightarrow> bytes \<Rightarrow> bytes \<Rightarrow> bool" where
  "found_in_block blake3 block_data key =
     (case rbind (block_header block_data) (\<lambda>h.
        case h of
          None \<Rightarrow> Inr None
        | Some (num_offsets, offsets_start) \<Rightarrow>
            rbind (read_u64 block_data (offsets_start - 8) ''malformed block: missing bloom filter'') (\<lambda>bloom.
            if \<not> block_may_contain blake3 bloom key then Inr None
            else binary_search_entry_in_block block_data offsets_start num_offsets key)) of
        Inr (Some _) \<Rightarrow> True
      | _ \<Rightarrow> False)"

definition lookup_metrics ::
    "(bytes \<Rightarrow> u32) \<Rightarrow> (bytes \<Rightarrow> bytes) \<Rightarrow> sst_reader \<Rightarrow> bytes \<Rightarrow> (bool \<times> bool \<times> bool \<times> bool) res" where
  "lookup_metrics crc32 blake3 R key =
     rbind (case rd_bloom R of None \<Rightarrow> Inr True | Some b \<Rightarrow> may_contain blake3 key b) (\<lambda>may.
       if \<not> may then Inr (False, False, False, False)
       else if key < sm_first_key (rd_metadata R) \<or> sm_last_key (rd_metadata R) < key
       then Inr (True, False, False, False)
       else let idx = insertion_point (binary_search (map fst (rd_index R)) key)
            in if length (rd_index R) \<le> idx then Inr (True, True, False, False)
               else case get_block crc32 R idx of
                      Inl _ \<Rightarrow> Inr (True, True, False, False)
                    | Inr block_data \<Rightarrow> Inr (True, True, True, found_in_block blake3 block_data key))"

section \<open>Scans\<close>

definition entry_at_index :: "bytes \<Rightarrow> nat \<Rightarrow> nat \<Rightarrow> kv_entry res" where
  "entry_at_index block_data offsets_start i =
     rbind (block_key_at block_data offsets_start i) (\<lambda>(entry_off, k_len, key).
     rbind (entry_tail block_data (entry_off + 2 + k_len)) (\<lambda>(seq_no, tx_id, val).
     Inr (key, val, seq_no, tx_id)))"

definition iter_block :: "bytes \<Rightarrow> kv_entry list res" where
  "iter_block block_data =
     rbind (block_header block_data) (\<lambda>h.
       case h of
         None \<Rightarrow> Inr []
       | Some (num_offsets, offsets_start) \<Rightarrow>
           rmap (entry_at_index block_data offsets_start) [0..<num_offsets])"

definition sst_iter :: "(bytes \<Rightarrow> u32) \<Rightarrow> sst_reader \<Rightarrow> (bytes \<times> bytes \<times> u64) list res" where
  "sst_iter crc32 R =
     rbind (rmap (\<lambda>idx. rbind (get_block crc32 R idx) iter_block) [0..<length (rd_index R)]) (\<lambda>blocks.
     Inr (map (\<lambda>(k, v, s, t). (k, v, s)) (concat blocks)))"

text \<open>Entries of one block from a position on; the flag says that the scan has passed the prefix.\<close>

fun prefix_entries ::
    "bytes \<Rightarrow> nat \<Rightarrow> bytes \<Rightarrow> nat list \<Rightarrow> kv_entry list \<Rightarrow> (kv_entry list \<times> bool) res" where
  "prefix_entries block_data offsets_start prefix [] results = Inr (results, False)"
| "prefix_entries block_data offsets_start prefix (i # is) results =
     rbind (block_key_at block_data offsets_start i) (\<lambda>(entry_off, k_len, key).
       if \<not> starts_with prefix key \<and> prefix < key then Inr (results, True)
       else if starts_with prefix key
       then rbind (entry_tail block_data (entry_off + 2 + k_len)) (\<lambda>(seq_no, tx_id, val).
              prefix_entries block_data offsets_start prefix is (results @ [(key, val, seq_no, tx_id)]))
       else prefix_entries block_data offsets_start prefix is results)"

fun prefix_blocks ::
    "(bytes \<Rightarrow> u32) \<Rightarrow> sst_reader \<Rightarrow> bytes \<Rightarrow> nat list \<Rightarrow> kv_entry list \<Rightarrow> kv_entry list res" where
  "prefix_blocks crc32 R prefix [] results = Inr results"
| "prefix_blocks crc32 R prefix (idx # idxs) results =
     rbind (get_block crc32 R idx) (\<lambda>block_data.
     rbind (block_header block_data) (\<lambda>h.
       case h of
         None \<Rightarrow> prefix_blocks crc32 R prefix idxs results
       | Some (num_offsets, offsets_start) \<Rightarrow>
           rbind (binary_search_index_in_block block_data offsets_start num_offsets prefix) (\<lambda>r.
           rbind (prefix_entries block_data offsets_start prefix [insertion_point r..<num_offsets] results)
             (\<lambda>(results, broke).
               if broke then Inr results else prefix_blocks crc32 R prefix idxs results))))"

definition sst_scan_prefix :: "(bytes \<Rightarrow> u32) \<Rightarrow> sst_reader \<Rightarrow> bytes \<Rightarrow> kv_entry list res" where
  "sst_scan_prefix crc32 R prefix =
     (let start_idx = (case binary_search (map fst (rd_index R)) prefix of Inr i \<Rightarrow> i | Inl i \<Rightarrow> i - 1)
      in prefix_blocks crc32 R prefix [start_idx..<length (rd_index R)] [])"

fun range_entries ::
    "bytes \<Rightarrow> nat \<Rightarrow> key_bound \<Rightarrow> key_bound \<Rightarrow> nat list \<Rightarrow> kv_entry list \<Rightarrow> (kv_entry list \<times> bool) res" where
  "range_entries block_data offsets_start start stop [] results = Inr (results, False)"
| "range_entries block_data offsets_start start stop (i # is) results =
     rbind (block_key_at block_data offsets_start i) (\<lambda>(entry_off, k_len, key).
       if \<not> above start key then range_entries block_data offsets_start start stop is results
       else if \<not> below stop key then Inr (results, True)
       else rbind (entry_tail block_data (entry_off + 2 + k_len)) (\<lambda>(seq_no, tx_id, val).
              range_entries block_data offsets_start start stop is (results @ [(key, val, seq_no, tx_id)])))"

fun range_blocks ::
    "(bytes \<Rightarrow> u32) \<Rightarrow> sst_reader \<Rightarrow> key_bound \<Rightarrow> key_bound \<Rightarrow> nat list \<Rightarrow> kv_entry list \<Rightarrow> kv_entry list res" where
  "range_blocks crc32 R start stop [] results = Inr results"
| "range_blocks crc32 R start stop (idx # idxs) results =
     rbind (get_block crc32 R idx) (\<lambda>block_data.
     rbind (block_header block_data) (\<lambda>h.
       case h of
         None \<Rightarrow> range_blocks crc32 R start stop idxs results
       | Some (num_offsets, offsets_start) \<Rightarrow>
           rbind (case start of
                    Unbounded \<Rightarrow> Inr 0
                  | Included s \<Rightarrow> rbind (binary_search_index_in_block block_data offsets_start num_offsets s)
                      (\<lambda>r. Inr (insertion_point r))
                  | Excluded s \<Rightarrow> rbind (binary_search_index_in_block block_data offsets_start num_offsets s)
                      (\<lambda>r. Inr (insertion_point r))) (\<lambda>from.
           rbind (range_entries block_data offsets_start start stop [from..<num_offsets] results)
             (\<lambda>(results, finished).
               if finished then Inr results else range_blocks crc32 R start stop idxs results))))"

definition sst_scan_range ::
    "(bytes \<Rightarrow> u32) \<Rightarrow> sst_reader \<Rightarrow> key_bound \<Rightarrow> key_bound \<Rightarrow> kv_entry list res" where
  "sst_scan_range crc32 R start stop = range_blocks crc32 R start stop [0..<length (rd_index R)] []"

section \<open>Streaming\<close>

record sst_stream =
  st_block_idx :: nat
  st_entry_idx :: nat
  st_current :: "bytes option"
  st_num_offsets :: nat
  st_offsets_start :: nat

definition stream_new :: sst_stream where
  "stream_new = \<lparr>st_block_idx = 0, st_entry_idx = 0, st_current = None, st_num_offsets = 0,
     st_offsets_start = 0\<rparr>"

text \<open>Yielding the current entry; the value slice is unchecked.\<close>

definition stream_yield :: "bytes \<Rightarrow> sst_stream \<Rightarrow> (kv_entry option \<times> sst_stream) res" where
  "stream_yield block_data S =
     rbind (block_key_at block_data (st_offsets_start S) (st_entry_idx S)) (\<lambda>(entry_off, k_len, key).
     rbind (read_u64 block_data (entry_off + 2 + k_len) ''missing seq_no'') (\<lambda>seq_no.
     rbind (read_u64 block_data (entry_off + 2 + k_len + 8) ''missing tx_id'') (\<lambda>tx_id.
     rbind (read_u32 block_data (entry_off + 2 + k_len + 16) ''missing v_len'') (\<lambda>v_len.
     rbind (ok_or (Panic ''range end out of bounds'')
       (get_slice block_data (entry_off + 2 + k_len + 20) (entry_off + 2 + k_len + 20 + v_len))) (\<lambda>val.
     Inr (Some (key, val, seq_no, tx_id), S\<lparr>st_entry_idx := st_entry_idx S + 1\<rparr>))))))"

text \<open>One iteration of the loop that does not yield or stop has moved on to another block.\<close>

function stream_next ::
    "(bytes \<Rightarrow> u32) \<Rightarrow> sst_reader \<Rightarrow> sst_stream \<Rightarrow> (kv_entry option \<times> sst_stream) res" where
  "stream_next crc32 R S =
     (if rd_index R = [] then Inr (None, S) else
      case (st_current S, st_entry_idx S < st_num_offsets S) of
        (Some block_data, True) \<Rightarrow> stream_yield block_data S
      | _ \<Rightarrow>
          if length (rd_index R) \<le> st_block_idx S then Inr (None, S)
          else rbind (get_block crc32 R (st_block_idx S)) (\<lambda>block_data.
            let S = S\<lparr>st_block_idx := st_block_idx S + 1, st_entry_idx := 0\<rparr>;
                n = length block_data
            in if n < 10 then stream_next crc32 R S
               else rbind (read_u16 block_data (n - 2) ''missing num_offsets'') (\<lambda>num_offsets.
                 let S = S\<lparr>st_num_offsets := num_offsets\<rparr>
                 in if n < 10 + num_offsets * 2 then stream_next crc32 R S
                    else let S = S\<lparr>st_offsets_start := n - 2 - num_offsets * 2, st_current := Some block_data\<rparr>
                         in if st_entry_idx S < st_num_offsets S then stream_yield block_data S
                            else stream_next crc32 R (S\<lparr>st_current := None\<rparr>))))"
  by pat_completeness auto
termination
  by (relation "measure (\<lambda>(crc32, R, S). length (rd_index R) - st_block_idx S)") auto

declare stream_next.simps [simp del]

section \<open>Blocks as entry lists\<close>

text \<open>A decoded block that holds the entries \<open>es\<close>.\<close>

definition block_view :: "(bytes \<Rightarrow> bytes) \<Rightarrow> bytes \<Rightarrow> nat \<Rightarrow> kv_entry list \<Rightarrow> bool" where
  "block_view blake3 data start es \<longleftrightarrow> block_header data = Inr (Some (length es, start)) \<and>
     block_repr data start es \<and>
     (\<exists>w. (\<forall>msg. read_u64 data (start - 8) msg = Inr w) \<and>
        (\<forall>e\<in>set es. \<forall>i\<in>set (block_bloom_bits blake3 (fst e)). bit w i))"

lemma block_build_view:
  assumes "block_inv blake3 es B" "sorted_wrt (<) (map fst es)"
  shows "block_view blake3 (block_build B) (length (bb_data B) + 8) es"
proof -
  note lay = block_build_layout [OF assms(1)]
  have "block_header (block_build B) = Inr (Some (length es, length (bb_data B) + 8))"
    using lay by (simp add: block_header_def Let_def)
  moreover have "\<forall>e\<in>set es. \<forall>i\<in>set (block_bloom_bits blake3 (fst e)). bit (bb_bloom B) i"
    using assms(1) by (simp add: block_inv_def)
  ultimately show ?thesis
    using block_build_repr [OF assms] lay(3) by (auto simp: block_view_def)
qed

lemma entry_tail_at:
  "entry_at data off (k, v, s, t) \<Longrightarrow> entry_tail data (off + 2 + length k) = Inr (s, t, v)"
  using entry_at_fields [of data off k v s t]
  by (simp add: entry_tail_def get_slice_def split: if_splits)

lemma block_may_contain_set:
  assumes "\<forall>i\<in>set (block_bloom_bits blake3 k). bit w i" shows "block_may_contain blake3 w k"
proof -
  have "w AND push_bit i 1 \<noteq> 0" if "bit w i" for i :: nat
  proof
    assume "w AND push_bit i 1 = 0"
    moreover have "bit (w AND push_bit i 1) i"
      using that bit_imp_le_length [OF that] by (simp add: bit_and_iff bit_exp_iff)
    ultimately show False by simp
  qed
  with assms show ?thesis unfolding block_may_contain_def list_all_iff by blast
qed

lemma sorted_map_of_in:
  "sorted_wrt (<) (map fst es) \<Longrightarrow> e \<in> set es \<longleftrightarrow> map_of es (fst e) = Some (snd (e :: kv_entry))"
  using bt_wf_map_of_in [of es "fst e" "snd e"] by (simp add: bt_wf_def)

lemma get_in_block_view:
  assumes "block_view blake3 data start es"
  shows "get_in_block blake3 data key = Inr (map_of es key)"
proof -
  from assms obtain w where w: "\<And>msg. read_u64 data (start - 8) msg = Inr w"
    "\<forall>e\<in>set es. \<forall>i\<in>set (block_bloom_bits blake3 (fst e)). bit w i"
    and h: "block_header data = Inr (Some (length es, start))" and r: "block_repr data start es"
    by (auto simp: block_view_def)
  have sorted: "sorted_wrt (<) (map fst es)" using r by (simp add: block_repr_def)
  show ?thesis
  proof (cases "key \<in> fst ` set es")
    case True
    then obtain v s t where e: "(key, v, s, t) \<in> set es" by auto
    from block_binary_search_repr(1) [OF r e] obtain off where
      off: "block_binary_search data start (length es) key = Inr (Some off)"
        "entry_at data off (key, v, s, t)" by auto
    have "block_may_contain blake3 w key" using w(2) e by (intro block_may_contain_set) force
    moreover have "map_of es key = Some (v, s, t)"
      using sorted_map_of_in [OF sorted, of "(key, v, s, t)"] e by simp
    ultimately show ?thesis
      using h w(1) off entry_at_fields(1) [OF off(2)] entry_tail_at [OF off(2)]
      by (simp add: get_in_block_def)
  next
    case False
    then have "map_of es key = None" by (simp add: map_of_eq_None_iff)
    with False block_binary_search_repr(2) [OF r False] h w(1) show ?thesis
      by (simp add: get_in_block_def)
  qed
qed

lemma found_in_block_view:
  assumes "block_view blake3 data start es"
  shows "found_in_block blake3 data key \<longleftrightarrow> map_of es key \<noteq> None"
proof -
  from assms obtain w where w: "\<And>msg. read_u64 data (start - 8) msg = Inr w"
    "\<forall>e\<in>set es. \<forall>i\<in>set (block_bloom_bits blake3 (fst e)). bit w i"
    and h: "block_header data = Inr (Some (length es, start))" and r: "block_repr data start es"
    by (auto simp: block_view_def)
  show ?thesis
  proof (cases "key \<in> fst ` set es")
    case True
    then obtain e where e: "e \<in> set es" "key = fst e" by blast
    have "block_may_contain blake3 w key" using w(2) e by (intro block_may_contain_set) blast
    moreover obtain i where i: "binary_search_index_in_block data start (length es) key = Inr (Inr i)"
      "i < length es"
      using binary_search_index_exact [OF r, of key] True by blast
    moreover from block_key_at_repr [OF r i(2)] obtain off where "entry_at data off (es ! i)"
      "block_key_at data start i = Inr (off, length (fst (es ! i)), fst (es ! i))" by metis
    ultimately have "found_in_block blake3 data key"
      using h w(1) by (auto simp: found_in_block_def binary_search_entry_in_block_def block_key_at_def rbind_def split: sum.splits)
    with True show ?thesis by (simp add: map_of_eq_None_iff)
  next
    case False
    then have "\<not> found_in_block blake3 data key"
      using binary_search_index_exact [OF r, of key] h w(1)
      by (auto simp: found_in_block_def binary_search_entry_in_block_def rbind_def split: sum.splits)
    with False show ?thesis by (simp add: map_of_eq_None_iff)
  qed
qed

lemma entry_at_index_repr:
  assumes "block_repr data start es" "i < length es"
  shows "entry_at_index data start i = Inr (es ! i)"
proof -
  obtain k v s t where e: "es ! i = (k, v, s, t)" by (cases "es ! i") auto
  from block_key_at_repr [OF assms] obtain off where "entry_at data off (es ! i)"
    "block_key_at data start i = Inr (off, length (fst (es ! i)), fst (es ! i))" by metis
  with entry_tail_at [of data off k v s t] e show ?thesis by (simp add: entry_at_index_def)
qed

lemma iter_block_view: "block_view blake3 data start es \<Longrightarrow> iter_block data = Inr es"
proof -
  assume v: "block_view blake3 data start es"
  then have r: "block_repr data start es" by (simp add: block_view_def)
  have "rmap (entry_at_index data start) [0..<length es] = Inr (map (\<lambda>i. es ! i) [0..<length es])"
    by (rule rmap_Inr) (simp add: entry_at_index_repr [OF r])
  then show ?thesis using v by (simp add: iter_block_def block_view_def map_nth)
qed

text \<open>From the insertion point of the prefix on, the loop keeps entries up to the first mismatch.\<close>

lemma prefix_entries_repr:
  assumes "block_repr data start es" "\<forall>j. i \<le> j \<and> j < length es \<longrightarrow> p \<le> fst (es ! j)"
  shows "prefix_entries data start p [i..<length es] acc =
     Inr (acc @ takeWhile (\<lambda>e. starts_with p (fst e)) (drop i es),
          \<exists>e\<in>set (drop i es). \<not> starts_with p (fst e))"
  using assms(2)
proof (induction "length es - i" arbitrary: i acc)
  case 0
  then show ?case by simp
next
  case (Suc n)
  then have i: "i < length es" by simp
  obtain k v s t where e: "es ! i = (k, v, s, t)" by (cases "es ! i") auto
  from block_key_at_repr [OF assms(1) i] obtain off where k: "entry_at data off (es ! i)"
    "block_key_at data start i = Inr (off, length (fst (es ! i)), fst (es ! i))" by metis
  have up: "[i..<length es] = i # [Suc i..<length es]" using i by (simp add: upt_conv_Cons)
  have dr: "drop i es = es ! i # drop (Suc i) es" using i by (simp add: Cons_nth_drop_Suc)
  have IH: "prefix_entries data start p [Suc i..<length es] acc' =
     Inr (acc' @ takeWhile (\<lambda>e. starts_with p (fst e)) (drop (Suc i) es),
          \<exists>e\<in>set (drop (Suc i) es). \<not> starts_with p (fst e))" for acc'
    using Suc by (intro Suc.hyps(1)) auto
  have "p \<le> k" using Suc.prems i e by (metis fst_conv order_refl)
  show ?case
  proof (cases "starts_with p k")
    case True
    then show ?thesis
      using k e IH entry_tail_at [of data off k v s t] unfolding up dr by simp
  next
    case False
    then have "p < k" using \<open>p \<le> k\<close> by (metis append_Nil2 order_le_less starts_with_append)
    with False k e show ?thesis unfolding up dr by simp
  qed
qed

lemma takeWhile_prefix:
  "sorted_wrt (<) (map fst es) \<Longrightarrow> \<forall>e\<in>set es. p \<le> fst e \<Longrightarrow>
     takeWhile (\<lambda>e. starts_with p (fst e)) es = filter (\<lambda>e. starts_with p (fst e)) (es :: kv_entry list)"
proof (induction es)
  case (Cons e es)
  have "filter (\<lambda>e. starts_with p (fst e)) es = []" if "\<not> starts_with p (fst e)"
  proof -
    have "\<not> starts_with p (fst e')" if "e' \<in> set es" for e'
      using starts_with_convex [of p "fst e" "fst e'"] Cons.prems that \<open>\<not> starts_with p (fst e)\<close>
      by (auto intro: less_imp_le)
    then show ?thesis by (simp add: filter_empty_conv)
  qed
  with Cons show ?case by auto
qed simp

end
