(* ===== verification/Sstable_Reads.thy ===== *)
theory Sstable_Reads
  imports Sstable
begin

text \<open>
  What the read paths of \<open>SstableReader\<close> and \<open>SstableStream\<close> return on a reader whose blocks
  hold known groups of entries: point lookup, full iteration, prefix and range scans and the
  entry stream all agree with the concatenation of the groups.
\<close>

section \<open>Readers as lists of groups\<close>

definition group_at :: "(bytes \<Rightarrow> u32) \<Rightarrow> (bytes \<Rightarrow> bytes) \<Rightarrow> sst_reader \<Rightarrow> nat \<Rightarrow> kv_entry list \<Rightarrow> bool" where
  "group_at crc32 blake3 R i g \<longleftrightarrow> g \<noteq> [] \<and> fst (rd_index R ! i) = fst (last g) \<and>
     (\<exists>data start. get_block crc32 R i = Inr data \<and> block_view blake3 data start g)"

definition reader_repr ::
    "(bytes \<Rightarrow> u32) \<Rightarrow> (bytes \<Rightarrow> bytes) \<Rightarrow> sst_reader \<Rightarrow> kv_entry list list \<Rightarrow> bool" where
  "reader_repr crc32 blake3 R gs \<longleftrightarrow> length (rd_index R) = length gs \<and>
     (\<forall>i < length gs. group_at crc32 blake3 R i (gs ! i)) \<and>
     sorted_wrt (<) (map fst (concat gs)) \<and>
     sm_first_key (rd_metadata R) = (if gs = [] then [] else fst (hd (concat gs))) \<and>
     sm_last_key (rd_metadata R) = (if gs = [] then [] else fst (last (concat gs))) \<and>
     (\<forall>b. rd_bloom R = Some b \<longrightarrow> bloom_wf b \<and> (\<forall>e\<in>set (concat gs). bloom_holds blake3 b (fst e)))"

lemma sorted_concat_less:
  assumes "sorted_wrt (<) (map fst (concat gs))" "i < j" "j < length gs" "e \<in> set (gs ! i)" "e' \<in> set (gs ! j)"
  shows "fst e < (fst e' :: 'k::linorder)"
proof -
  have "gs = take j gs @ gs ! j # drop (Suc j) gs" using assms(3) by (rule id_take_nth_drop)
  then have "concat gs = concat (take j gs) @ gs ! j @ concat (drop (Suc j) gs)"
    by (metis concat.simps(2) concat_append)
  moreover have "gs ! i \<in> set (take j gs)"
    using nth_mem [of i "take j gs"] assms(2,3) by simp
  then have "e \<in> set (concat (take j gs))" using assms(4) by auto
  ultimately show ?thesis using assms(1,5) by (auto simp: sorted_wrt_append)
qed

lemma sorted_group:
  assumes "sorted_wrt (<) (map fst (concat gs))" "i < length gs"
  shows "sorted_wrt (<) (map fst (gs ! i))"
  using assms concat_map_split [of i gs id] by (simp add: sorted_wrt_append)

lemma last_greatest:
  "sorted_wrt (<) (map fst g) \<Longrightarrow> e \<in> set g \<Longrightarrow> fst e \<le> (fst (last g) :: 'k::linorder)"
proof (induction g)
  case (Cons a g)
  then show ?case by (cases "g = []") (auto intro: less_imp_le)
qed simp

lemma index_keys:
  assumes "reader_repr crc32 blake3 R gs"
  shows "map fst (rd_index R) = map (\<lambda>g. fst (last g)) gs"
  using assms by (intro nth_equalityI) (auto simp: reader_repr_def group_at_def)

lemma index_sorted:
  assumes "reader_repr crc32 blake3 R gs"
  shows "sorted_wrt (<) (map fst (rd_index R))"
proof -
  have s: "sorted_wrt (<) (map fst (concat gs))" using assms by (simp add: reader_repr_def)
  have "fst (last (gs ! i)) < fst (last (gs ! j))" if "i < j" "j < length gs" for i j
  proof (rule sorted_concat_less [OF s that])
    show "last (gs ! i) \<in> set (gs ! i)" "last (gs ! j) \<in> set (gs ! j)"
      using assms that by (auto simp: reader_repr_def group_at_def)
  qed
  then show ?thesis unfolding index_keys [OF assms] by (simp add: sorted_wrt_iff_nth_less)
qed

text \<open>The index search selects the only block that can hold the key.\<close>

lemma index_point:
  assumes R: "reader_repr crc32 blake3 R gs"
    and i: "i = insertion_point (binary_search (map fst (rd_index R)) key)"
  shows "i \<le> length gs" "j < i \<Longrightarrow> e \<in> set (gs ! j) \<Longrightarrow> fst e < key"
    "i < j \<Longrightarrow> j < length gs \<Longrightarrow> e \<in> set (gs ! j) \<Longrightarrow> key < fst e"
proof -
  note p = binary_search_point [OF index_sorted [OF R] i, unfolded index_keys [OF R]]
  have s: "sorted_wrt (<) (map fst (concat gs))" using R by (simp add: reader_repr_def)
  show le: "i \<le> length gs" using p(1) by simp
  show "fst e < key" if "j < i" "e \<in> set (gs ! j)"
  proof -
    have "fst (last (gs ! j)) < key" using p(2) that le by simp
    moreover have "fst e \<le> fst (last (gs ! j))"
      using last_greatest [OF sorted_group [OF s] that(2)] that(1) le by simp
    ultimately show ?thesis by order
  qed
  show "key < fst e" if j: "i < j" "j < length gs" "e \<in> set (gs ! j)"
  proof -
    have "key \<le> fst (last (gs ! i))" using p(3) j by simp
    moreover have "last (gs ! i) \<in> set (gs ! i)"
      using R j by (auto simp: reader_repr_def group_at_def)
    then have "fst (last (gs ! i)) < fst e" using sorted_concat_less [OF s j(1,2) _ j(3)] by blast
    ultimately show ?thesis by order
  qed
qed

lemma map_of_group:
  assumes R: "reader_repr crc32 blake3 R gs"
    and i: "i = insertion_point (binary_search (map fst (rd_index R)) key)"
  shows "map_of (concat gs) key = (if i < length gs then map_of (gs ! i) key else None)"
proof -
  have s: "sorted_wrt (<) (map fst (concat gs))" using R by (simp add: reader_repr_def)
  have mem: "(key, v) \<in> set (concat gs) \<longleftrightarrow> i < length gs \<and> (key, v) \<in> set (gs ! i)" for v
  proof
    assume "(key, v) \<in> set (concat gs)"
    then obtain j where j: "j < length gs" "(key, v) \<in> set (gs ! j)"
      by (auto simp: in_set_conv_nth [of _ gs])
    then have "j = i" using index_point(2,3) [OF R i, of j "(key, v)"] by fastforce
    with j show "i < length gs \<and> (key, v) \<in> set (gs ! i)" by simp
  next
    assume "i < length gs \<and> (key, v) \<in> set (gs ! i)"
    moreover from this have "gs ! i \<in> set gs" by simp
    ultimately show "(key, v) \<in> set (concat gs)" by auto
  qed
  show ?thesis
  proof (cases "map_of (concat gs) key")
    case None
    then have "(key, v) \<notin> set (concat gs)" for v
      using sorted_map_of_in [OF s, of "(key, v)"] by simp
    then have "i < length gs \<Longrightarrow> map_of (gs ! i) key = None"
      using mem by (metis map_of_SomeD not_None_eq)
    with None show ?thesis by simp
  next
    case (Some v)
    then have "i < length gs" "(key, v) \<in> set (gs ! i)" using mem map_of_SomeD by metis+
    moreover from this have "map_of (gs ! i) key = Some v"
      using sorted_map_of_in [OF sorted_group [OF s], of i "(key, v)"] by simp
    ultimately show ?thesis using Some by simp
  qed
qed

text \<open>Point lookup: the filters before the block read reject only absent keys.\<close>

definition bloom_may :: "(bytes \<Rightarrow> bytes) \<Rightarrow> sst_reader \<Rightarrow> bytes \<Rightarrow> bool" where
  "bloom_may blake3 R key = (case rd_bloom R of None \<Rightarrow> True | Some b \<Rightarrow> bloom_holds blake3 b key)"

lemma bloom_may_check:
  assumes "reader_repr crc32 blake3 R gs"
  shows "(case rd_bloom R of None \<Rightarrow> Inr True | Some b \<Rightarrow> may_contain blake3 key b) =
     Inr (bloom_may blake3 R key)"
proof (cases "rd_bloom R")
  case (Some b)
  with assms have "bloom_wf b" unfolding reader_repr_def by blast
  with Some show ?thesis by (simp add: bloom_may_def may_contain_holds)
qed (simp add: bloom_may_def)

lemma present_passes:
  assumes R: "reader_repr crc32 blake3 R gs" and e: "e \<in> set (concat gs)"
  shows "bloom_may blake3 R (fst e)" "sm_first_key (rd_metadata R) \<le> fst e"
    "fst e \<le> sm_last_key (rd_metadata R)"
proof -
  have s: "sorted_wrt (<) (map fst (concat gs))" using R by (simp add: reader_repr_def)
  show "bloom_may blake3 R (fst e)"
  proof (cases "rd_bloom R")
    case (Some b)
    with R e have "bloom_holds blake3 b (fst e)" unfolding reader_repr_def by blast
    with Some show ?thesis by (simp add: bloom_may_def)
  qed (simp add: bloom_may_def)
  obtain f fs where f: "concat gs = f # fs" using e by (metis list.exhaust list.set_cases)
  have "gs \<noteq> []" using f by (metis concat.simps(1) list.distinct(1))
  with R have keys: "sm_first_key (rd_metadata R) = fst (hd (concat gs))"
    "sm_last_key (rd_metadata R) = fst (last (concat gs))" unfolding reader_repr_def by metis+
  have "sorted_wrt (<) (map fst (f # fs))" "e \<in> set (f # fs)" using s e unfolding f by blast+
  then have "fst f \<le> fst e" by (auto intro: less_imp_le)
  then show "sm_first_key (rd_metadata R) \<le> fst e" unfolding keys f by simp
  show "fst e \<le> sm_last_key (rd_metadata R)" unfolding keys by (rule last_greatest [OF s e])
qed

lemma block_hit:
  assumes "reader_repr crc32 blake3 R gs" "i < length gs"
  shows "rbind (get_block crc32 R i) (\<lambda>d. get_in_block blake3 d key) = Inr (map_of (gs ! i) key)"
proof -
  from assms have "group_at crc32 blake3 R i (gs ! i)" by (simp add: reader_repr_def)
  then obtain d st where "get_block crc32 R i = Inr d" "block_view blake3 d st (gs ! i)"
    by (auto simp: group_at_def)
  then show ?thesis by (simp add: get_in_block_view)
qed

lemma sst_get_repr:
  assumes R: "reader_repr crc32 blake3 R gs"
  shows "sst_get crc32 blake3 R key = Inr (map_of (concat gs) key)"
proof -
  define i where "i = insertion_point (binary_search (map fst (rd_index R)) key)"
  have len: "length (rd_index R) = length gs" using R by (simp add: reader_repr_def)
  show ?thesis
  proof (cases "\<not> bloom_may blake3 R key \<or> key < sm_first_key (rd_metadata R) \<or>
      sm_last_key (rd_metadata R) < key")
    case True
    have "key \<noteq> fst e" if "e \<in> set (concat gs)" for e
      using True present_passes [OF R that] by (auto simp: not_less [symmetric])
    then have "map_of (concat gs) key = None" by (auto simp: map_of_eq_None_iff simp del: set_concat)
    moreover have "sst_get crc32 blake3 R key = Inr None"
      using True unfolding sst_get_def bloom_may_check [OF R] rbind_Inr by (rule disjE) simp_all
    ultimately show ?thesis by simp
  next
    case False
    then have get: "sst_get crc32 blake3 R key = (if length gs \<le> i then Inr None
        else rbind (get_block crc32 R i) (\<lambda>d. get_in_block blake3 d key))"
      unfolding sst_get_def bloom_may_check [OF R] rbind_Inr Let_def i_def len by simp
    show ?thesis
    proof (cases "i < length gs")
      case True
      then show ?thesis unfolding get block_hit [OF R True] map_of_group [OF R i_def] by simp
    next
      case False
      then show ?thesis unfolding get map_of_group [OF R i_def] by simp
    qed
  qed
qed

lemma block_found:
  assumes "reader_repr crc32 blake3 R gs" "i < length gs"
  shows "\<exists>d. get_block crc32 R i = Inr d \<and> found_in_block blake3 d key = (map_of (gs ! i) key \<noteq> None)"
  using assms found_in_block_view by (auto simp: reader_repr_def group_at_def)

lemma lookup_metrics_repr:
  assumes R: "reader_repr crc32 blake3 R gs"
  shows "\<exists>b r k. lookup_metrics crc32 blake3 R key = Inr (b, r, k, map_of (concat gs) key \<noteq> None) \<and>
    (map_of (concat gs) key \<noteq> None \<longrightarrow> b \<and> r \<and> k)"
proof -
  define i where "i = insertion_point (binary_search (map fst (rd_index R)) key)"
  have len: "length (rd_index R) = length gs" using R by (simp add: reader_repr_def)
  show ?thesis
  proof (cases "\<not> bloom_may blake3 R key \<or> key < sm_first_key (rd_metadata R) \<or>
      sm_last_key (rd_metadata R) < key")
    case True
    have "key \<noteq> fst e" if "e \<in> set (concat gs)" for e
      using True present_passes [OF R that] by (auto simp: not_less [symmetric])
    then have "map_of (concat gs) key = None" by (auto simp: map_of_eq_None_iff simp del: set_concat)
    then show ?thesis
      using True unfolding lookup_metrics_def bloom_may_check [OF R] rbind_Inr by auto
  next
    case False
    then have get: "lookup_metrics crc32 blake3 R key = (if length gs \<le> i then Inr (True, True, False, False)
        else case get_block crc32 R i of Inl _ \<Rightarrow> Inr (True, True, False, False)
          | Inr d \<Rightarrow> Inr (True, True, True, found_in_block blake3 d key))"
      unfolding lookup_metrics_def bloom_may_check [OF R] rbind_Inr Let_def i_def len by simp
    show ?thesis
    proof (cases "i < length gs")
      case True
      then show ?thesis using block_found [OF R True, of key] unfolding get map_of_group [OF R i_def] by auto
    next
      case False
      then show ?thesis unfolding get map_of_group [OF R i_def] by auto
    qed
  qed
qed

text \<open>Full iteration.\<close>

lemma sst_iter_repr:
  assumes R: "reader_repr crc32 blake3 R gs"
  shows "sst_iter crc32 R = Inr (map (\<lambda>(k, v, s, t). (k, v, s)) (concat gs))"
proof -
  have len: "length (rd_index R) = length gs" using R by (simp add: reader_repr_def)
  have "rmap (\<lambda>i. rbind (get_block crc32 R i) iter_block) [0..<length gs] =
      Inr (map (\<lambda>i. gs ! i) [0..<length gs])"
  proof (rule rmap_Inr)
    fix i assume "i \<in> set [0..<length gs]"
    then show "rbind (get_block crc32 R i) iter_block = Inr (gs ! i)"
      using R by (auto simp: reader_repr_def group_at_def iter_block_view)
  qed
  then show ?thesis by (simp add: sst_iter_def len map_nth)
qed

section \<open>Scans\<close>

lemma drop_Suc_group: "i < length gs \<Longrightarrow> concat (drop i gs) = gs ! i @ concat (drop (Suc i) gs)"
  by (metis Cons_nth_drop_Suc concat.simps(2))

lemma filter_drop_point:
  assumes "\<And>j. j < m \<Longrightarrow> \<not> P (g ! j)" "m \<le> length g" shows "filter P (drop m g) = filter P g"
proof -
  have "filter P (take m g) = []"
    using assms by (auto simp: filter_empty_conv in_set_conv_nth)
  then show ?thesis by (metis append_Nil append_take_drop_id filter_append)
qed

lemma later_groups:
  assumes "sorted_wrt (<) (map fst (concat gs))" "i < length gs" "e \<in> set (gs ! i)"
    "e' \<in> set (concat (drop (Suc i) gs))"
  shows "fst e < (fst e' :: 'k::linorder)"
proof -
  from assms(4) obtain g where g: "g \<in> set (drop (Suc i) gs)" "e' \<in> set g" by auto
  from g(1) obtain j where "Suc i \<le> j" "j < length gs" "g = gs ! j" by (rule set_dropE)
  with sorted_concat_less [OF assms(1), of i j e e'] assms(3) g(2) show ?thesis by simp
qed

lemma group_view:
  assumes "reader_repr crc32 blake3 R gs" "i < length gs"
  obtains data start where "get_block crc32 R i = Inr data" "block_view blake3 data start (gs ! i)"
    "block_header data = Inr (Some (length (gs ! i), start))" "block_repr data start (gs ! i)"
  using assms unfolding reader_repr_def group_at_def block_view_def by blast

lemma prefix_group:
  assumes "block_repr data start g"
  shows "\<exists>r. binary_search_index_in_block data start (length g) p = Inr r \<and>
     prefix_entries data start p [insertion_point r..<length g] acc =
       Inr (acc @ filter (\<lambda>e. starts_with p (fst e)) g,
            \<exists>e\<in>set (drop (insertion_point r) g). \<not> starts_with p (fst e)) \<and>
     (\<forall>e\<in>set (drop (insertion_point r) g). p \<le> fst e)"
proof -
  from binary_search_index_repr [OF assms, of p] obtain r where
    r: "binary_search_index_in_block data start (length g) p = Inr r" "insertion_point r \<le> length g"
      "\<forall>j < insertion_point r. fst (g ! j) < p"
      "\<forall>j. insertion_point r \<le> j \<and> j < length g \<longrightarrow> p \<le> fst (g ! j)" by blast
  let ?m = "insertion_point r"
  have ge: "\<forall>e\<in>set (drop ?m g). p \<le> fst e"
    using r(4) by (blast elim: set_dropE)
  have sorted: "sorted_wrt (<) (map fst g)" using assms by (simp add: block_repr_def)
  have "takeWhile (\<lambda>e. starts_with p (fst e)) (drop ?m g) = filter (\<lambda>e. starts_with p (fst e)) (drop ?m g)"
    using sorted ge by (intro takeWhile_prefix) (simp_all add: sorted_wrt_drop flip: drop_map)
  also have "\<dots> = filter (\<lambda>e. starts_with p (fst e)) g"
    using r(2,3) starts_with_imp_le by (intro filter_drop_point) (auto dest: leD)
  finally show ?thesis using r(1) ge prefix_entries_repr [OF assms r(4), of acc] by auto
qed

lemma prefix_blocks_repr:
  assumes R: "reader_repr crc32 blake3 R gs"
  shows "prefix_blocks crc32 R p [i..<length gs] acc =
     Inr (acc @ filter (\<lambda>e. starts_with p (fst e)) (concat (drop i gs)))"
proof (induction "length gs - i" arbitrary: i acc)
  case 0
  then show ?case by simp
next
  case (Suc n)
  then have i: "i < length gs" by simp
  have s: "sorted_wrt (<) (map fst (concat gs))" using R by (simp add: reader_repr_def)
  obtain data start where d: "get_block crc32 R i = Inr data"
    "block_header data = Inr (Some (length (gs ! i), start))" "block_repr data start (gs ! i)"
    by (rule group_view [OF R i])
  from prefix_group [OF d(3), of p acc] obtain r where r:
    "binary_search_index_in_block data start (length (gs ! i)) p = Inr r"
    "prefix_entries data start p [insertion_point r..<length (gs ! i)] acc =
       Inr (acc @ filter (\<lambda>e. starts_with p (fst e)) (gs ! i),
            \<exists>e\<in>set (drop (insertion_point r) (gs ! i)). \<not> starts_with p (fst e))"
    "\<forall>e\<in>set (drop (insertion_point r) (gs ! i)). p \<le> fst e" by blast
  have up: "[i..<length gs] = i # [Suc i..<length gs]" using i by (rule upt_conv_Cons)
  have IH: "prefix_blocks crc32 R p [Suc i..<length gs] acc' =
      Inr (acc' @ filter (\<lambda>e. starts_with p (fst e)) (concat (drop (Suc i) gs)))" for acc'
    using Suc.hyps by (intro Suc.hyps(1)) simp
  have stop: "filter (\<lambda>e. starts_with p (fst e)) (concat (drop (Suc i) gs)) = []"
    if "\<exists>e\<in>set (drop (insertion_point r) (gs ! i)). \<not> starts_with p (fst e)"
  proof -
    from that obtain e where e: "e \<in> set (drop (insertion_point r) (gs ! i))" "\<not> starts_with p (fst e)" by blast
    from e(1) have "e \<in> set (gs ! i)" by (rule in_set_dropD)
    have "\<not> starts_with p (fst e')" if "e' \<in> set (concat (drop (Suc i) gs))" for e'
    proof -
      have "fst e < fst e'" "p \<le> fst e"
        using later_groups [OF s i \<open>e \<in> set (gs ! i)\<close> that] e(1) r(3) by blast+
      then show ?thesis using starts_with_convex [of p "fst e" "fst e'"] e(2) less_imp_le by blast
    qed
    then show ?thesis unfolding filter_empty_conv by blast
  qed
  show ?case
    unfolding up drop_Suc_group [OF i] prefix_blocks.simps d(1,2) rbind_Inr
    by (simp only: option.case prod.case r(1,2) rbind_Inr filter_append)
      (use stop IH in \<open>auto simp del: set_concat filter_concat\<close>)
qed

lemma sst_scan_prefix_repr:
  assumes R: "reader_repr crc32 blake3 R gs"
  shows "sst_scan_prefix crc32 R p = Inr (filter (\<lambda>e. starts_with p (fst e)) (concat gs))"
proof -
  define r where "r = binary_search (map fst (rd_index R)) p"
  define st where "st = (case r of Inr i \<Rightarrow> i | Inl i \<Rightarrow> i - 1)"
  have len: "length (rd_index R) = length gs" using R by (simp add: reader_repr_def)
  have le: "st \<le> insertion_point r" by (auto simp: st_def insertion_point_def split: sum.splits)
  have "\<not> starts_with p (fst e)" if "e \<in> set (concat (take st gs))" for e
  proof -
    from that obtain g where "g \<in> set (take st gs)" "e \<in> set g" by auto
    moreover from this(1) obtain j where "j < st" "g = gs ! j" by (rule set_takeE)
    ultimately have "fst e < p" using index_point(2) [OF R refl, of j p e] le by (simp add: r_def)
    then show ?thesis using starts_with_imp_le leD by blast
  qed
  then have "filter (\<lambda>e. starts_with p (fst e)) (concat (take st gs)) = []"
    unfolding filter_empty_conv by blast
  moreover have "concat gs = concat (take st gs) @ concat (drop st gs)"
    by (metis append_take_drop_id concat_append)
  ultimately show ?thesis
    unfolding sst_scan_prefix_def Let_def len r_def [symmetric] st_def [symmetric]
      prefix_blocks_repr [OF R] by (metis append_Nil filter_append)
qed

text \<open>Range scans.\<close>

lemma range_entries_repr:
  assumes "block_repr data start g"
  shows "\<exists>done. range_entries data start lo hi [i..<length g] acc =
     Inr (acc @ filter (\<lambda>e. above lo (fst e) \<and> below hi (fst e)) (drop i g), done) \<and>
     (done \<longrightarrow> (\<exists>e\<in>set g. \<not> below hi (fst e)))"
proof (induction "length g - i" arbitrary: i acc)
  case 0
  then show ?case by (intro exI [of _ False]) simp
next
  case (Suc n)
  then have i: "i < length g" by simp
  obtain k v s t where e: "g ! i = (k, v, s, t)" by (cases "g ! i") auto
  from block_key_at_repr [OF assms i] obtain off where k: "entry_at data off (g ! i)"
    "block_key_at data start i = Inr (off, length (fst (g ! i)), fst (g ! i))" by metis
  have up: "[i..<length g] = i # [Suc i..<length g]" using i by (rule upt_conv_Cons)
  have dr: "drop i g = g ! i # drop (Suc i) g" using i by (simp add: Cons_nth_drop_Suc)
  have IH: "\<exists>done. range_entries data start lo hi [Suc i..<length g] acc' =
     Inr (acc' @ filter (\<lambda>e. above lo (fst e) \<and> below hi (fst e)) (drop (Suc i) g), done) \<and>
     (done \<longrightarrow> (\<exists>e\<in>set g. \<not> below hi (fst e)))" for acc'
    using Suc.hyps by (intro Suc.hyps(1)) simp
  consider "\<not> above lo k" | "above lo k" "below hi k" | (past) "above lo k" "\<not> below hi k" by blast
  then show ?case
  proof cases
    case past
    have "\<not> below hi (fst e')" if "e' \<in> set (drop (Suc i) g)" for e'
    proof -
      from that obtain j where "Suc i \<le> j" "j < length g" "e' = g ! j" by (rule set_dropE)
      then have "k < fst e'" using repr_keys_less [OF assms, of i j] e by simp
      with past(2) show ?thesis by (cases hi) auto
    qed
    then have "filter (\<lambda>e. above lo (fst e) \<and> below hi (fst e)) (drop (Suc i) g) = []"
      unfolding filter_empty_conv by blast
    then have "filter (\<lambda>e. above lo (fst e) \<and> below hi (fst e)) (drop i g) = []"
      using past(2) e unfolding dr by simp
    moreover have "\<exists>e\<in>set g. \<not> below hi (fst e)" using past(2) e nth_mem [OF i] by (metis fst_conv)
    moreover have "range_entries data start lo hi [i..<length g] acc = Inr (acc, True)"
      unfolding up using k(2) e past by simp
    ultimately show ?thesis by (intro exI [of _ True]) simp
  next
    case 1
    then have "range_entries data start lo hi [i..<length g] acc =
        range_entries data start lo hi [Suc i..<length g] acc"
      unfolding up using k(2) e by simp
    with IH [of acc] 1 e show ?thesis unfolding dr by simp
  next
    case 2
    then have "range_entries data start lo hi [i..<length g] acc =
        range_entries data start lo hi [Suc i..<length g] (acc @ [(k, v, s, t)])"
      unfolding up using k e entry_tail_at [of data off k v s t] by simp
    with IH [of "acc @ [(k, v, s, t)]"] 2 e show ?thesis unfolding dr by simp
  qed
qed

fun bound_key :: "key_bound \<Rightarrow> bytes" where
  "bound_key (Included k) = k" | "bound_key (Excluded k) = k" | "bound_key Unbounded = []"

definition range_from :: "key_bound \<Rightarrow> bytes \<Rightarrow> nat \<Rightarrow> nat \<Rightarrow> nat res" where
  "range_from lo block_data offsets_start num_offsets =
     (case lo of
        Unbounded \<Rightarrow> Inr 0
      | Included s \<Rightarrow> rbind (binary_search_index_in_block block_data offsets_start num_offsets s)
          (\<lambda>r. Inr (insertion_point r))
      | Excluded s \<Rightarrow> rbind (binary_search_index_in_block block_data offsets_start num_offsets s)
          (\<lambda>r. Inr (insertion_point r)))"

lemma range_from_repr:
  assumes "block_repr data start g"
  shows "\<exists>m \<le> length g. range_from lo data start (length g) = Inr m \<and>
     (\<forall>j < m. \<not> above lo (fst (g ! j)))"
proof (cases lo)
  case Unbounded
  then show ?thesis by (simp add: range_from_def)
qed (use binary_search_index_repr [OF assms, of "bound_key lo"] in \<open>fastforce simp: range_from_def\<close>)+

lemma range_blocks_repr:
  assumes R: "reader_repr crc32 blake3 R gs"
  shows "range_blocks crc32 R lo hi [i..<length gs] acc =
     Inr (acc @ filter (\<lambda>e. above lo (fst e) \<and> below hi (fst e)) (concat (drop i gs)))"
proof (induction "length gs - i" arbitrary: i acc)
  case 0
  then show ?case by simp
next
  case (Suc n)
  then have i: "i < length gs" by simp
  let ?P = "\<lambda>e. above lo (fst e) \<and> below hi (fst e)"
  have s: "sorted_wrt (<) (map fst (concat gs))" using R by (simp add: reader_repr_def)
  obtain data start where d: "get_block crc32 R i = Inr data"
    "block_header data = Inr (Some (length (gs ! i), start))" "block_repr data start (gs ! i)"
    by (rule group_view [OF R i])
  from range_from_repr [OF d(3), of lo] obtain m where m: "m \<le> length (gs ! i)"
    "range_from lo data start (length (gs ! i)) = Inr m" "\<forall>j < m. \<not> above lo (fst (gs ! i ! j))" by blast
  from range_entries_repr [OF d(3), of lo hi m acc] obtain fin where
    e: "range_entries data start lo hi [m..<length (gs ! i)] acc = Inr (acc @ filter ?P (drop m (gs ! i)), fin)"
    and fin: "fin \<Longrightarrow> \<exists>e\<in>set (gs ! i). \<not> below hi (fst e)" by blast
  have drop: "filter ?P (drop m (gs ! i)) = filter ?P (gs ! i)"
    using m(1,3) by (intro filter_drop_point) auto
  have up: "[i..<length gs] = i # [Suc i..<length gs]" using i by (rule upt_conv_Cons)
  have IH: "range_blocks crc32 R lo hi [Suc i..<length gs] acc' =
      Inr (acc' @ filter ?P (concat (drop (Suc i) gs)))" for acc'
    using Suc.hyps by (intro Suc.hyps(1)) simp
  have stop: "filter ?P (concat (drop (Suc i) gs)) = []" if "fin"
  proof -
    from fin [OF that] obtain x where x: "x \<in> set (gs ! i)" "\<not> below hi (fst x)" by blast
    have "\<not> below hi (fst e')" if "e' \<in> set (concat (drop (Suc i) gs))" for e'
      using later_groups [OF s i x(1) that] x(2) by (cases hi) auto
    then show ?thesis unfolding filter_empty_conv by blast
  qed
  have "range_blocks crc32 R lo hi [i..<length gs] acc = (if fin then Inr (acc @ filter ?P (gs ! i))
      else range_blocks crc32 R lo hi [Suc i..<length gs] (acc @ filter ?P (gs ! i)))"
    unfolding up range_blocks.simps d(1,2) rbind_Inr range_from_def [symmetric]
    by (simp only: option.case prod.case m(2) e drop rbind_Inr)
  then show ?case
    using stop IH unfolding drop_Suc_group [OF i] filter_append by (cases fin) simp_all
qed

lemma sst_scan_range_repr:
  assumes R: "reader_repr crc32 blake3 R gs"
  shows "sst_scan_range crc32 R lo hi =
     Inr (filter (\<lambda>e. above lo (fst e) \<and> below hi (fst e)) (concat gs))"
proof -
  have "length (rd_index R) = length gs" using R by (simp add: reader_repr_def)
  then show ?thesis using range_blocks_repr [OF R, of lo hi 0 "[]"]
    unfolding sst_scan_range_def by (simp only: append_Nil drop_0)
qed

section \<open>Streaming\<close>

lemma stream_yield_repr:
  assumes "block_repr data (st_offsets_start S) g" "st_entry_idx S < length g"
  shows "stream_yield data S = Inr (Some (g ! st_entry_idx S), S\<lparr>st_entry_idx := st_entry_idx S + 1\<rparr>)"
proof -
  obtain k v s t where e: "g ! st_entry_idx S = (k, v, s, t)" by (cases "g ! st_entry_idx S") auto
  from block_key_at_repr [OF assms] obtain off where
    k: "entry_at data off (g ! st_entry_idx S)" "block_key_at data (st_offsets_start S) (st_entry_idx S) =
      Inr (off, length (fst (g ! st_entry_idx S)), fst (g ! st_entry_idx S))" by metis
  show ?thesis
    using k entry_at_fields [of data off k v s t] e
    unfolding stream_yield_def by (simp add: add.assoc [symmetric])
qed

text \<open>What a stream has still to deliver.\<close>

definition stream_repr ::
    "(bytes \<Rightarrow> bytes) \<Rightarrow> kv_entry list list \<Rightarrow> sst_stream \<Rightarrow> kv_entry list \<Rightarrow> bool" where
  "stream_repr blake3 gs S rest \<longleftrightarrow>
     (case st_current S of
        None \<Rightarrow> rest = concat (drop (st_block_idx S) gs)
      | Some data \<Rightarrow> gs \<noteq> [] \<and> (\<exists>g. block_view blake3 data (st_offsets_start S) g \<and> st_num_offsets S = length g \<and>
          st_entry_idx S \<le> length g \<and> rest = drop (st_entry_idx S) g @ concat (drop (st_block_idx S) gs)))"

lemma stream_new_repr: "stream_repr blake3 gs stream_new (concat gs)"
  by (simp add: stream_repr_def stream_new_def)

lemma stream_next_current:
  assumes "reader_repr crc32 blake3 R gs" "gs \<noteq> []" "st_current S = Some data"
    "st_entry_idx S < st_num_offsets S"
  shows "stream_next crc32 R S = stream_yield data S"
proof -
  have "rd_index R \<noteq> []" using assms(1,2) by (auto simp: reader_repr_def)
  with assms(3,4) show ?thesis by (subst stream_next.simps) simp
qed

lemma stream_next_load:
  assumes R: "reader_repr crc32 blake3 R gs"
    and need: "st_current S = None \<or> \<not> st_entry_idx S < st_num_offsets S"
  shows "length gs \<le> st_block_idx S \<Longrightarrow> stream_next crc32 R S = Inr (None, S)"
    "st_block_idx S < length gs \<Longrightarrow> \<exists>S'. stream_next crc32 R S = Inr (Some (hd (gs ! st_block_idx S)), S') \<and>
       stream_repr blake3 gs S' (tl (gs ! st_block_idx S) @ concat (drop (Suc (st_block_idx S)) gs))"
proof -
  have len: "length (rd_index R) = length gs" using R by (simp add: reader_repr_def)
  have unfold: "stream_next crc32 R S = (if length gs \<le> st_block_idx S then Inr (None, S)
      else rbind (get_block crc32 R (st_block_idx S)) (\<lambda>block_data.
            let S = S\<lparr>st_block_idx := st_block_idx S + 1, st_entry_idx := 0\<rparr>;
                n = length block_data
            in if n < 10 then stream_next crc32 R S
               else rbind (read_u16 block_data (n - 2) ''missing num_offsets'') (\<lambda>num_offsets.
                 let S = S\<lparr>st_num_offsets := num_offsets\<rparr>
                 in if n < 10 + num_offsets * 2 then stream_next crc32 R S
                    else let S = S\<lparr>st_offsets_start := n - 2 - num_offsets * 2, st_current := Some block_data\<rparr>
                         in if st_entry_idx S < st_num_offsets S then stream_yield block_data S
                            else stream_next crc32 R (S\<lparr>st_current := None\<rparr>))))"
    if "gs \<noteq> []"
  proof -
    have "rd_index R \<noteq> []" using that len by auto
    with need show ?thesis
      by (subst stream_next.simps, subst len [symmetric])
        (cases "st_current S"; cases "st_entry_idx S < st_num_offsets S"; simp only: prod.case option.case
           bool.case if_False refl simp_thms list.distinct)
  qed
  show "stream_next crc32 R S = Inr (None, S)" if "length gs \<le> st_block_idx S"
  proof (cases "gs = []")
    case True
    with len show ?thesis by (subst stream_next.simps) simp
  qed (simp add: unfold that)
  show "\<exists>S'. stream_next crc32 R S = Inr (Some (hd (gs ! st_block_idx S)), S') \<and>
       stream_repr blake3 gs S' (tl (gs ! st_block_idx S) @ concat (drop (Suc (st_block_idx S)) gs))"
    if b: "st_block_idx S < length gs"
  proof -
    define g where "g = gs ! st_block_idx S"
    obtain data start where d: "get_block crc32 R (st_block_idx S) = Inr data"
      "block_view blake3 data start g" "block_header data = Inr (Some (length g, start))"
      "block_repr data start g" using group_view [OF R b] unfolding g_def by metis
    have ne: "g \<noteq> []" "gs \<noteq> []" using R b by (auto simp: reader_repr_def group_at_def g_def)
    let ?n = "length data"
    have n: "\<not> ?n < 10" "read_u16 data (?n - 2) msg = Inr (length g)" "\<not> ?n < 10 + length g * 2"
      "start = ?n - 2 - length g * 2" for msg
      using d(3) by (auto simp: block_header_def Let_def read_u16_def rbind_eq_Inr ok_or_eq_Inr split: if_splits)
    define S1 where "S1 = S\<lparr>st_block_idx := st_block_idx S + 1, st_entry_idx := 0,
      st_num_offsets := length g, st_offsets_start := start, st_current := Some data\<rparr>"
    have "stream_next crc32 R S = stream_yield data S1"
      unfolding unfold [OF ne(2)] using b d(1) n ne(1) by (simp add: Let_def S1_def)
    moreover have "stream_yield data S1 = Inr (Some (g ! 0), S1\<lparr>st_entry_idx := 1\<rparr>)"
      using stream_yield_repr [of data S1 g] d(4) ne(1) by (simp add: S1_def)
    moreover have "stream_repr blake3 gs (S1\<lparr>st_entry_idx := 1\<rparr>)
        (tl g @ concat (drop (Suc (st_block_idx S)) gs))"
      unfolding stream_repr_def using d(2) ne by (auto simp: S1_def drop_Suc Suc_le_eq intro!: exI [of _ g])
    ultimately show ?thesis using ne(1) by (simp add: g_def [symmetric] hd_conv_nth)
  qed
qed

text \<open>Each call delivers the next entry, or none when all have been delivered.\<close>

lemma stream_next_repr:
  assumes R: "reader_repr crc32 blake3 R gs" and S: "stream_repr blake3 gs S rest"
  shows "\<exists>S'. stream_repr blake3 gs S' (tl rest) \<and>
     stream_next crc32 R S = Inr (if rest = [] then None else Some (hd rest), S')"
proof (cases "st_current S = None \<or> \<not> st_entry_idx S < st_num_offsets S")
  case True
  then have rest: "rest = concat (drop (st_block_idx S) gs)"
    using S by (auto simp: stream_repr_def split: option.splits)
  show ?thesis
  proof (cases "st_block_idx S < length gs")
    case b: True
    define g where "g = gs ! st_block_idx S"
    have "g \<noteq> []" using R b by (auto simp: reader_repr_def group_at_def g_def)
    then have "rest \<noteq> []" "hd rest = hd g" "tl rest = tl g @ concat (drop (Suc (st_block_idx S)) gs)"
      unfolding rest drop_Suc_group [OF b] g_def [symmetric] by simp_all
    with stream_next_load(2) [OF R True b] show ?thesis unfolding g_def by auto
  next
    case False
    then have "rest = []" unfolding rest by simp
    with stream_next_load(1) [OF R True] False S show ?thesis by auto
  qed
next
  case False
  then obtain data where cur: "st_current S = Some data" "st_entry_idx S < st_num_offsets S" by auto
  with S obtain g where g: "gs \<noteq> []" "block_view blake3 data (st_offsets_start S) g"
    "st_num_offsets S = length g" "rest = drop (st_entry_idx S) g @ concat (drop (st_block_idx S) gs)"
    by (auto simp: stream_repr_def)
  let ?S' = "S\<lparr>st_entry_idx := st_entry_idx S + 1\<rparr>"
  have i: "st_entry_idx S < length g" using cur(2) g(3) by simp
  have "stream_next crc32 R S = Inr (Some (g ! st_entry_idx S), ?S')"
    using stream_next_current [OF R g(1) cur] stream_yield_repr [of data S g] g(2) i
    by (simp add: block_view_def)
  moreover have "drop (st_entry_idx S) g = g ! st_entry_idx S # drop (Suc (st_entry_idx S)) g"
    using i by (simp add: Cons_nth_drop_Suc)
  moreover have "stream_repr blake3 gs ?S' (drop (Suc (st_entry_idx S)) g @ concat (drop (st_block_idx S) gs))"
    unfolding stream_repr_def using g(1-3) cur(1) i by (auto intro!: exI [of _ g])
  ultimately show ?thesis using g(4) by auto
qed

text \<open>Draining a stream with enough calls.\<close>

fun stream_collect :: "(bytes \<Rightarrow> u32) \<Rightarrow> sst_reader \<Rightarrow> nat \<Rightarrow> sst_stream \<Rightarrow> kv_entry list res" where
  "stream_collect crc32 R 0 S = Inr []"
| "stream_collect crc32 R (Suc n) S =
     rbind (stream_next crc32 R S) (\<lambda>(e, S).
       case e of None \<Rightarrow> Inr [] | Some e \<Rightarrow> rbind (stream_collect crc32 R n S) (\<lambda>es. Inr (e # es)))"

lemma stream_collect_repr:
  assumes R: "reader_repr crc32 blake3 R gs"
  shows "stream_repr blake3 gs S rest \<Longrightarrow> length rest < n \<Longrightarrow> stream_collect crc32 R n S = Inr rest"
proof (induction n arbitrary: S rest)
  case (Suc n)
  from stream_next_repr [OF R Suc.prems(1)] obtain S' where S': "stream_repr blake3 gs S' (tl rest)"
    "stream_next crc32 R S = Inr (if rest = [] then None else Some (hd rest), S')" by blast
  show ?case
  proof (cases rest)
    case Nil
    with S'(2) show ?thesis by simp
  next
    case (Cons e es)
    with Suc.IH [OF S'(1)] Suc.prems(2) S'(2) show ?thesis by simp
  qed
qed simp

end
