(* ===== verification/Sstable_Roundtrip.thy ===== *)
theory Sstable_Roundtrip
  imports Sstable_Reads
begin

text \<open>
  Building and reopening SSTables: the invariant of \<open>SstableBuilder\<close> over any sequence of
  additions, the layout of the finished file, and that \<open>open\<close> recovers a reader whose blocks
  hold exactly the added entries. The cipher enters through the contract \<open>block_cipher\<close>.
\<close>

section \<open>The cipher contract\<close>

definition frame_block :: "key_manager option \<Rightarrow> nat \<Rightarrow> bytes \<Rightarrow> bytes res" where
  "frame_block km i plain = (case km of
     None \<Rightarrow> Inr plain
   | Some m \<Rightarrow> rbind (km_encrypt m i plain) (\<lambda>(encrypted, nonce). Inr (nonce @ encrypted)))"

locale block_cipher =
  fixes km :: key_manager
  assumes encrypts: "\<exists>c n. km_encrypt km i x = Inr (c, n) \<and> length n = 12 \<and> km_decrypt km c n = Inr x"
begin

lemma lawful: "km_lawful km"
  using encrypts by (simp add: km_lawful_def)

lemma frame_decodes:
  "\<exists>block. frame_block (Some km) i (with_crc crc32 data) = Inr block \<and>
     (\<forall>off. decode_block crc32 (Some km) True off block = Inr data)"
proof -
  obtain c n where c: "km_encrypt km i (with_crc crc32 data) = Inr (c, n)" "length n = 12"
    "km_decrypt km c n = Inr (with_crc crc32 data)" using encrypts by blast
  then show ?thesis by (simp add: frame_block_def decode_block_def with_crc_def)
qed

end

interpretation plain: block_cipher km_plain
  by unfold_locales (simp add: km_plain_def)

lemma frame_block_decodes:
  assumes "km_opt_lawful km"
  shows "\<exists>block. frame_block km i (with_crc crc32 data) = Inr block \<and>
     (\<forall>off. decode_block crc32 km True off block = Inr data)"
proof (cases km)
  case None
  then show ?thesis by (simp add: frame_block_def decode_block_def with_crc_def)
next
  case (Some m)
  with assms have "block_cipher m" by unfold_locales (simp add: km_opt_lawful_def km_lawful_def)
  with Some show ?thesis using block_cipher.frame_decodes by blast
qed

section \<open>The builder invariant\<close>

definition stored_group ::
    "(bytes \<Rightarrow> u32) \<Rightarrow> (bytes \<Rightarrow> bytes) \<Rightarrow> key_manager option \<Rightarrow> kv_entry list \<Rightarrow> bytes \<Rightarrow> bool" where
  "stored_group crc32 blake3 km g b \<longleftrightarrow> g \<noteq> [] \<and>
     (\<exists>B. block_inv blake3 g B \<and> (\<forall>off. decode_block crc32 km True off b = Inr (block_build B)))"

definition group_index :: "kv_entry list list \<Rightarrow> bytes list \<Rightarrow> (bytes \<times> u64) list" where
  "group_index gs bs = map (\<lambda>i. (fst (last (gs ! i)), of_nat (length (concat (take i bs))))) [0..<length gs]"

definition sst_inv ::
    "(bytes \<Rightarrow> u32) \<Rightarrow> (bytes \<Rightarrow> bytes) \<Rightarrow> sst_builder \<Rightarrow> kv_entry list list \<Rightarrow> bytes list \<Rightarrow>
     kv_entry list \<Rightarrow> bool" where
  "sst_inv crc32 blake3 S gs bs cur \<longleftrightarrow> km_opt_lawful (sb_km S) \<and>
     block_inv blake3 cur (sb_block S) \<and> list_all2 (stored_group crc32 blake3 (sb_km S)) gs bs \<and>
     sb_file S = concat bs \<and> sb_offset S = of_nat (length (concat bs)) \<and>
     sb_index S = group_index gs bs \<and>
     sb_last_key S = (if concat gs @ cur = [] then None else Some (fst (last (concat gs @ cur)))) \<and>
     bloom_wf (sb_bloom S) \<and> (\<forall>e\<in>set (concat gs @ cur). bloom_holds blake3 (sb_bloom S) (fst e))"

lemma block_inv_fresh: "block_inv blake3 [] (block_builder_new BLOCK_SIZE)"
  by (rule block_inv_new) (simp add: BLOCK_SIZE_def)

lemma sst_create_inv:
  "km_opt_lawful km \<Longrightarrow> sst_inv crc32 blake3 (sst_create fm fh km) [] [] []"
  by (simp add: sst_inv_def sst_create_def block_inv_fresh group_index_def bloom_new_wf)

lemma block_empty_iff: "block_inv blake3 cur B \<Longrightarrow> block_is_empty B \<longleftrightarrow> cur = []"
  by (auto simp: block_inv_def block_is_empty_def)

lemma group_index_snoc:
  "length gs = length bs \<Longrightarrow> group_index (gs @ [g]) (bs @ [b]) =
     group_index gs bs @ [(fst (last g), of_nat (length (concat bs)))]"
  by (auto simp: group_index_def nth_append)

lemma flush_block_inv:
  assumes inv: "sst_inv crc32 blake3 S gs bs cur"
  shows "\<exists>S'. flush_block crc32 S = Inr S' \<and> sb_km S' = sb_km S \<and>
     (if cur = [] then S' = S
      else \<exists>b. sst_inv crc32 blake3 S' (gs @ [cur]) (bs @ [b]) [] \<and> sb_block S' = block_builder_new BLOCK_SIZE)"
proof (cases "cur = []")
  case True
  then show ?thesis using inv block_empty_iff [of blake3 cur "sb_block S"]
    by (simp add: flush_block_def sst_inv_def)
next
  case False
  note I = inv [unfolded sst_inv_def]
  from frame_block_decodes [of "sb_km S" "length (sb_index S)" crc32 "block_build (sb_block S)"] I
  obtain b where b: "frame_block (sb_km S) (length (sb_index S)) (with_crc crc32 (block_build (sb_block S))) = Inr b"
    "\<forall>off. decode_block crc32 (sb_km S) True off b = Inr (block_build (sb_block S))" by blast
  let ?S' = "S\<lparr>sb_block := block_builder_new BLOCK_SIZE, sb_file := sb_file S @ b,
      sb_index := sb_index S @ [(fst (last cur), sb_offset S)],
      sb_offset := sb_offset S + of_nat (length b)\<rparr>"
  have "block_inv blake3 cur (sb_block S)" using I by blast
  then have ne: "\<not> block_is_empty (sb_block S)" using block_empty_iff False by blast
  have lk: "sb_last_key S = Some (fst (last cur))" using I False by simp
  have fb: "flush_block crc32 S = Inr ?S'"
    using ne lk b(1) unfolding flush_block_def frame_block_def by (simp add: Let_def)
  have len: "length gs = length bs" using I by (auto dest: list_all2_lengthD)
  have "stored_group crc32 blake3 (sb_km S) cur b"
    unfolding stored_group_def using False b(2) \<open>block_inv blake3 cur (sb_block S)\<close> by blast
  then have "list_all2 (stored_group crc32 blake3 (sb_km S)) (gs @ [cur]) (bs @ [b])"
    using I by (intro list_all2_appendI) auto
  moreover have "sb_index ?S' = group_index (gs @ [cur]) (bs @ [b])"
    using I group_index_snoc [OF len] by simp
  ultimately have "sst_inv crc32 blake3 ?S' (gs @ [cur]) (bs @ [b]) []"
    unfolding sst_inv_def using I by (simp add: block_inv_fresh)
  with fb False show ?thesis by (intro exI [of _ ?S']) auto
qed

definition entry_fits :: "kv_entry \<Rightarrow> bool" where
  "entry_fits e \<longleftrightarrow> (case e of (k, v, s, t) \<Rightarrow> k \<noteq> [] \<and> length k \<le> 65535 \<and> length v \<le> MAX_VALUE_SIZE)"

lemma entry_fits_ok: "entry_fits e \<Longrightarrow> entry_ok e"
  by (auto simp: entry_fits_def entry_ok_def MAX_VALUE_SIZE_def)

lemma block_add_fresh: "fst (block_add blake3 k v s t (block_builder_new n))"
  by (simp add: block_add_def block_builder_new_def Let_def)

text \<open>Adding to the block, flushing it first when it is full.\<close>

definition place_entry ::
    "(bytes \<Rightarrow> u32) \<Rightarrow> (bytes \<Rightarrow> bytes) \<Rightarrow> bytes \<Rightarrow> bytes \<Rightarrow> u64 \<Rightarrow> u64 \<Rightarrow> sst_builder \<Rightarrow> sst_builder res" where
  "place_entry crc32 blake3 key val seq_no tx_id S =
     (case block_add blake3 key val seq_no tx_id (sb_block S) of
        (True, b) \<Rightarrow> Inr (S\<lparr>sb_block := b\<rparr>)
      | (False, _) \<Rightarrow> rbind (flush_block crc32 S) (\<lambda>S.
          case block_add blake3 key val seq_no tx_id (sb_block S) of
            (True, b) \<Rightarrow> Inr (S\<lparr>sb_block := b\<rparr>)
          | (False, _) \<Rightarrow> Inl (Storage ''Key-value entry too large for SSTable block'')))"

text \<open>The invariant with an entry placed in the block but not yet in the filter and last key.\<close>

definition sst_placed where
  "sst_placed crc32 blake3 S gs bs cur e \<longleftrightarrow>
     (\<exists>B0. sst_inv crc32 blake3 (S\<lparr>sb_block := B0\<rparr>) gs bs cur) \<and>
     block_inv blake3 (cur @ [e]) (sb_block S)"

lemma sst_placedI:
  assumes "sst_inv crc32 blake3 S gs bs cur" "block_inv blake3 (cur @ [e]) b"
  shows "sst_placed crc32 blake3 (S\<lparr>sb_block := b\<rparr>) gs bs cur e"
proof -
  have "S\<lparr>sb_block := b\<rparr>\<lparr>sb_block := sb_block S\<rparr> = S" by (cases S) simp
  moreover have "sb_block (S\<lparr>sb_block := b\<rparr>) = b" by simp
  ultimately show ?thesis unfolding sst_placed_def using assms by metis
qed

lemma place_entry_inv:
  assumes inv: "sst_inv crc32 blake3 S gs bs cur" and fits: "entry_fits (k, v, s, t)"
  shows "\<exists>S' gs' bs' cur'. place_entry crc32 blake3 k v s t S = Inr S' \<and> sb_km S' = sb_km S \<and>
     concat gs' @ cur' = concat gs @ cur \<and> sst_placed crc32 blake3 S' gs' bs' cur' (k, v, s, t)"
proof -
  obtain ok b where add: "block_add blake3 k v s t (sb_block S) = (ok, b)" by fastforce
  have B: "block_inv blake3 cur (sb_block S)" using inv by (simp add: sst_inv_def)
  show ?thesis
  proof (cases ok)
    case True
    with add have a: "block_add blake3 k v s t (sb_block S) = (True, b)" by simp
    have "block_inv blake3 (cur @ [(k, v, s, t)]) b"
      by (rule block_add_inv(1) [OF B entry_fits_ok [OF fits] a])
    then have "sst_placed crc32 blake3 (S\<lparr>sb_block := b\<rparr>) gs bs cur (k, v, s, t)"
      by (rule sst_placedI [OF inv])
    then show ?thesis using a by (auto simp: place_entry_def)
  next
    case False
    then have "cur \<noteq> []" using add B by (auto simp: block_add_def block_inv_def Let_def split: if_splits)
    with flush_block_inv [OF inv] obtain S1 b1 where S1: "flush_block crc32 S = Inr S1" "sb_km S1 = sb_km S"
      "sst_inv crc32 blake3 S1 (gs @ [cur]) (bs @ [b1]) []" "sb_block S1 = block_builder_new BLOCK_SIZE" by auto
    obtain b2 where a2: "block_add blake3 k v s t (sb_block S1) = (True, b2)"
      using block_add_fresh [of blake3 k v s t BLOCK_SIZE] S1(4)
      by (cases "block_add blake3 k v s t (sb_block S1)") simp
    have "block_inv blake3 [] (sb_block S1)" using S1(4) by (simp add: block_inv_fresh)
    from block_add_inv(1) [OF this entry_fits_ok [OF fits] a2]
    have "block_inv blake3 ([] @ [(k, v, s, t)]) b2" .
    then have "sst_placed crc32 blake3 (S1\<lparr>sb_block := b2\<rparr>) (gs @ [cur]) (bs @ [b1]) [] (k, v, s, t)"
      by (rule sst_placedI [OF S1(3)])
    moreover have "place_entry crc32 blake3 k v s t S = Inr (S1\<lparr>sb_block := b2\<rparr>)"
      using add False S1(1) a2 by (simp add: place_entry_def)
    ultimately show ?thesis using S1(2) by (intro exI [of _ "S1\<lparr>sb_block := b2\<rparr>"] exI [of _ "gs @ [cur]"]
        exI [of _ "bs @ [b1]"] exI [of _ "[]"]) simp
  qed
qed

lemma sst_inv_first_key [simp]:
  "sst_inv crc32 blake3 (S\<lparr>sb_first_key := x\<rparr>) gs bs cur = sst_inv crc32 blake3 S gs bs cur"
  by (simp add: sst_inv_def)

lemma sst_add_inv:
  assumes inv: "sst_inv crc32 blake3 S gs bs cur" and fits: "entry_fits (k, v, s, t)"
  shows "\<exists>S' gs' bs' cur'. sst_add crc32 blake3 k v s t S = Inr S' \<and> sb_km S' = sb_km S \<and>
     concat gs' @ cur' = concat gs @ cur @ [(k, v, s, t)] \<and> sst_inv crc32 blake3 S' gs' bs' cur'"
proof -
  define S0 where "S0 = (if sb_first_key S = None then S\<lparr>sb_first_key := Some k\<rparr> else S)"
  have S0: "sst_inv crc32 blake3 S0 gs bs cur" "sb_km S0 = sb_km S" using inv by (simp_all add: S0_def)
  from place_entry_inv [OF S0(1) fits] obtain S1 gs' bs' cur' where
    S1: "place_entry crc32 blake3 k v s t S0 = Inr S1" "sb_km S1 = sb_km S0"
      "concat gs' @ cur' = concat gs @ cur" "sst_placed crc32 blake3 S1 gs' bs' cur' (k, v, s, t)" by blast
  from S1(4) obtain B0 where I: "sst_inv crc32 blake3 (S1\<lparr>sb_block := B0\<rparr>) gs' bs' cur'"
    and blk: "block_inv blake3 (cur' @ [(k, v, s, t)]) (sb_block S1)" by (auto simp: sst_placed_def)
  have wf: "bloom_wf (sb_bloom S1)" and old: "\<forall>e\<in>set (concat gs' @ cur'). bloom_holds blake3 (sb_bloom S1) (fst e)"
    using I by (simp_all add: sst_inv_def)
  from bloom_insert_ok [OF wf, of blake3 k] obtain bl where bl: "bloom_insert blake3 k (sb_bloom S1) = Inr bl"
    "bloom_wf bl" "bloom_holds blake3 bl k" "\<forall>x. bloom_holds blake3 (sb_bloom S1) x \<longrightarrow> bloom_holds blake3 bl x" by blast
  define S2 where "S2 = S1\<lparr>sb_bloom := bl, sb_key_count := sb_key_count S1 + 1,
      sb_min_tx_id := min (sb_min_tx_id S1) t, sb_max_tx_id := max (sb_max_tx_id S1) t,
      sb_min_seq := min (sb_min_seq S1) (raw_seq s), sb_max_seq := max (sb_max_seq S1) (raw_seq s),
      sb_last_key := Some k\<rparr>"
  have "sst_add crc32 blake3 k v s t S = Inr S2"
    using fits S1(1) bl(1)
    unfolding sst_add_def S0_def [symmetric] Let_def place_entry_def [symmetric]
    by (simp add: entry_fits_def S2_def)
  moreover have "sst_inv crc32 blake3 S2 gs' bs' (cur' @ [(k, v, s, t)])"
    using I blk bl(2-4) old unfolding sst_inv_def S2_def by simp
  moreover have "sb_km S2 = sb_km S" using S1(2) S0(2) by (simp add: S2_def)
  moreover have "concat gs' @ cur' @ [(k, v, s, t)] = concat gs @ cur @ [(k, v, s, t)]"
    using S1(3) by (metis append.assoc)
  ultimately show ?thesis by blast
qed

lemma sst_add_all_inv:
  "sst_inv crc32 blake3 S gs bs cur \<Longrightarrow> \<forall>e\<in>set es. entry_fits e \<Longrightarrow>
   \<exists>S' gs' bs' cur'. sst_add_all crc32 blake3 es S = Inr S' \<and> sb_km S' = sb_km S \<and>
     concat gs' @ cur' = concat gs @ cur @ es \<and> sst_inv crc32 blake3 S' gs' bs' cur'"
proof (induction es arbitrary: S gs bs cur)
  case Nil
  then show ?case by auto
next
  case (Cons e es)
  obtain k v s t where e: "e = (k, v, s, t)" by (cases e) auto
  with Cons.prems(2) have "entry_fits (k, v, s, t)" by simp
  from sst_add_inv [OF Cons.prems(1) this] obtain S1 gs1 bs1 cur1 where
    S1: "sst_add crc32 blake3 k v s t S = Inr S1" "sb_km S1 = sb_km S"
      "concat gs1 @ cur1 = concat gs @ cur @ [(k, v, s, t)]" "sst_inv crc32 blake3 S1 gs1 bs1 cur1" by blast
  from Cons.IH [OF S1(4)] Cons.prems(2) obtain S2 gs2 bs2 cur2 where
    S2: "sst_add_all crc32 blake3 es S1 = Inr S2" "sb_km S2 = sb_km S1"
      "concat gs2 @ cur2 = concat gs1 @ cur1 @ es" "sst_inv crc32 blake3 S2 gs2 bs2 cur2" by auto
  have "concat gs2 @ cur2 = concat gs @ cur @ (e # es)"
    using S2(3) S1(3) e by (metis append.assoc append_Cons append_Nil)
  with S1 S2 e show ?case by (intro exI [of _ S2]) auto
qed

lemma flush_all_inv:
  assumes "sst_inv crc32 blake3 S gs bs cur"
  shows "\<exists>S' gs' bs'. flush_block crc32 S = Inr S' \<and> sb_km S' = sb_km S \<and>
     concat gs' = concat gs @ cur \<and> sst_inv crc32 blake3 S' gs' bs' []"
proof (cases "cur = []")
  case True
  with flush_block_inv [OF assms] assms show ?thesis by auto
next
  case False
  with flush_block_inv [OF assms] obtain S' b where
    "flush_block crc32 S = Inr S'" "sb_km S' = sb_km S" "sst_inv crc32 blake3 S' (gs @ [cur]) (bs @ [b]) []" by auto
  then show ?thesis by (intro exI [of _ S'] exI [of _ "gs @ [cur]"] exI [of _ "bs @ [b]"]) simp
qed

section \<open>Reopening\<close>

definition sst_trailer_bytes :: "sst_builder \<Rightarrow> u64 \<Rightarrow> u64 \<Rightarrow> bytes" where
  "sst_trailer_bytes S bloom_offset index_offset =
     u64_le (sb_min_tx_id S) @ u64_le (sb_max_tx_id S) @ u64_le (sb_min_seq S) @
     u64_le (sb_max_seq S) @ u64_le bloom_offset @ u64_le index_offset @
     u16_le 1 @ u32_le SSTABLE_MAGIC_MFSX"

lemma length_trailer [simp]: "length (sst_trailer_bytes S a b) = 54"
  by (simp add: sst_trailer_bytes_def)

lemma parse_trailer_bytes:
  "parse_trailer (sst_trailer_bytes S bo io) =
     Inr \<lparr>tr_is_mfsx = True, tr_version = 1, tr_min_tx_id = sb_min_tx_id S, tr_max_tx_id = sb_max_tx_id S,
       tr_min_seq = sb_min_seq S, tr_max_seq = sb_max_seq S, tr_bloom_offset = bo, tr_index_offset = io\<rparr>"
  unfolding parse_trailer_def Let_def
  by (simp add: sst_trailer_bytes_def trailer_u64_def)

lemma parse_index_entries:
  "\<forall>e\<in>set ix. length (fst e) < 65536 \<Longrightarrow> parse_index (concat (map index_entry ix)) = Inr ix"
proof (induction ix)
  case Nil
  show ?case by (subst parse_index.simps) simp
next
  case (Cons e ix)
  obtain k off where e: "e = (k, off)" by fastforce
  have k: "unat (of_nat (length k) :: u16) = length k" using Cons.prems e by (simp add: unat_of_nat_u16)
  let ?rest = "concat (map index_entry ix)"
  have d: "concat (map index_entry (e # ix)) = u16_le (of_nat (length k)) @ k @ u64_le off @ ?rest"
    by (simp add: e index_entry_def)
  show ?case
    unfolding d
    by (subst parse_index.simps) (use Cons in \<open>simp add: k Let_def e\<close>)
qed

lemma check_crc_with_crc [simp]: "check_crc crc32 True off msg (with_crc crc32 d) = Inr d"
  by (simp add: check_crc_def with_crc_def)

lemma pread_append:
  "off = length pre \<Longrightarrow> len = length mid \<Longrightarrow> pread_exact (pre @ mid @ post) off len msg = Inr mid"
  by (simp add: pread_exact_def get_slice_append)

lemma length_take_concat_le: "length (concat (take i bs)) \<le> length (concat bs)"
proof -
  have "concat bs = concat (take i bs) @ concat (drop i bs)"
    by (metis append_take_drop_id concat_append)
  then show ?thesis by (metis length_append le_add1)
qed

lemma read_stored_block:
  assumes st: "list_all2 (stored_group crc32 blake3 km) gs bs" and i: "i < length gs"
    and lt: "length (concat bs) < 2 ^ 64"
  shows "\<exists>B. block_inv blake3 (gs ! i) B \<and>
     read_block_at_file crc32 (concat bs @ post) (snd (group_index gs bs ! i))
       (next_block_offset (group_index gs bs) (of_nat (length (concat bs))) i) km True = Inr (block_build B)"
proof -
  have len: "length gs = length bs" using st by (rule list_all2_lengthD)
  define off where "off = length (concat (take i bs))"
  have split: "concat bs = concat (take i bs) @ bs ! i @ concat (drop (Suc i) bs)"
    using concat_map_split [of i bs id] i len by simp
  have next_len: "length (concat (take (Suc i) bs)) = off + length (bs ! i)"
    using i len by (simp add: take_Suc_conv_app_nth off_def)
  have le: "off < 2 ^ 64" "off + length (bs ! i) < 2 ^ 64"
    using length_take_concat_le [of i bs] length_take_concat_le [of "Suc i" bs] lt next_len
    by (simp_all add: off_def)
  have o1: "unat (snd (group_index gs bs ! i)) = off"
    using i le(1) by (simp add: group_index_def off_def unat_of_nat_u64)
  have "next_block_offset (group_index gs bs) (of_nat (length (concat bs))) i =
      of_nat (length (concat (take (Suc i) bs)))"
    using i len by (cases "Suc i < length gs") (simp_all add: next_block_offset_def group_index_def)
  then have o2: "unat (next_block_offset (group_index gs bs) (of_nat (length (concat bs))) i) = off + length (bs ! i)"
    using le(2) next_len by (simp add: unat_of_nat_u64 del: of_nat_add)
  have rd: "pread_exact (concat bs @ post) off (length (bs ! i)) msg = Inr (bs ! i)" for msg
    using pread_append [of off "concat (take i bs)" "length (bs ! i)" "bs ! i" "concat (drop (Suc i) bs) @ post" msg]
    unfolding split by (simp add: off_def)
  have "stored_group crc32 blake3 km (gs ! i) (bs ! i)" using st i by (rule list_all2_nthD)
  then obtain B where B: "block_inv blake3 (gs ! i) B"
    "\<forall>pos. decode_block crc32 km True pos (bs ! i) = Inr (block_build B)" by (auto simp: stored_group_def)
  have "read_block_at_file crc32 (concat bs @ post) (snd (group_index gs bs ! i))
      (next_block_offset (group_index gs bs) (of_nat (length (concat bs))) i) km True = Inr (block_build B)"
    unfolding read_block_at_file_def o1 o2 using rd B(2) by simp
  with B(1) show ?thesis by blast
qed

lemma group_index_keys:
  assumes "list_all2 (stored_group crc32 blake3 km) gs bs"
  shows "\<forall>e\<in>set (group_index gs bs). length (fst e) < 65536"
proof
  fix e assume "e \<in> set (group_index gs bs)"
  then obtain i where i: "i < length gs" "fst e = fst (last (gs ! i))" by (auto simp: group_index_def)
  from list_all2_nthD [OF assms i(1)] obtain B where g: "gs ! i \<noteq> []" "block_inv blake3 (gs ! i) B"
    by (auto simp: stored_group_def)
  then have "entry_ok (last (gs ! i))" by (simp add: block_inv_def)
  with i(2) show "length (fst e) < 65536" by (auto simp: entry_ok_def)
qed

text \<open>The first key is read from the first block.\<close>

lemma block_first_key:
  assumes "block_inv blake3 g B" "g \<noteq> []"
  shows "2 \<le> length (block_build B)" "unat (u16_of_le (take 2 (block_build B))) = length (fst (hd g))"
    "take (length (fst (hd g))) (drop 2 (block_build B)) = fst (hd g)"
    "2 + length (fst (hd g)) \<le> length (block_build B)"
proof -
  obtain k v s t g' where g: "g = (k, v, s, t) # g'" using assms(2) by (cases g) auto
  have ok: "length k < 65536" using assms(1) g by (simp add: block_inv_def entry_ok_def)
  obtain post where "block_build B = u16_le (of_nat (length k)) @ k @ post"
    using assms(1) g by (auto simp: block_build_def block_inv_def encode_entry_def)
  with ok g show "2 \<le> length (block_build B)" "unat (u16_of_le (take 2 (block_build B))) = length (fst (hd g))"
    "take (length (fst (hd g))) (drop 2 (block_build B)) = fst (hd g)"
    "2 + length (fst (hd g)) \<le> length (block_build B)" by (simp_all add: unat_of_nat_u16)
qed

lemma sst_reader_open:
  fixes S :: sst_builder and crc32 :: "bytes \<Rightarrow> u32"
  defines "index_offset \<equiv> sb_offset S"
    and "index_to_write \<equiv> with_crc crc32 (concat (map index_entry (sb_index S)))"
    and "bloom_to_write \<equiv> with_crc crc32 (bloom_to_bytes (sb_bloom S))"
  defines "bloom_offset \<equiv> index_offset + of_nat (length index_to_write)"
  defines "file \<equiv> sb_file S @ index_to_write @ bloom_to_write @ sst_trailer_bytes S bloom_offset index_offset"
  assumes inv: "sst_inv crc32 blake3 S gs bs []" and sorted: "sorted_wrt (<) (map fst (concat gs))"
    and lt: "length file < 2 ^ 64"
  shows "\<exists>R. sst_open crc32 (sb_km S) file = Inr R \<and> reader_repr crc32 blake3 R gs \<and>
     sm_min_tx_id (rd_metadata R) = sb_min_tx_id S \<and> sm_max_tx_id (rd_metadata R) = sb_max_tx_id S \<and>
     sm_min_seq (rd_metadata R) = sb_min_seq S \<and> sm_max_seq (rd_metadata R) = sb_max_seq S"
proof -
  note I = inv [unfolded sst_inv_def]
  let ?A = "concat bs" and ?km = "sb_km S" and ?ix = "group_index gs bs"
  let ?nA = "length (concat bs)" and ?nI = "length index_to_write" and ?nB = "length bloom_to_write"
  have F: "file = ?A @ index_to_write @ bloom_to_write @ sst_trailer_bytes S bloom_offset index_offset"
    using I by (simp add: file_def)
  have ix: "sb_index S = ?ix" and st: "list_all2 (stored_group crc32 blake3 ?km) gs bs"
    and bw: "bloom_wf (sb_bloom S)" using I by blast+
  have n: "length file = ?nA + ?nI + ?nB + 54" unfolding F by simp
  have io: "index_offset = of_nat ?nA" using I by (simp add: index_offset_def)
  have uA: "unat index_offset = ?nA" using lt n by (simp add: io unat_of_nat_u64)
  have "bloom_offset = of_nat (?nA + ?nI)" by (simp add: bloom_offset_def io)
  then have uB: "unat bloom_offset = ?nA + ?nI"
    using lt n by (simp add: unat_of_nat_u64 del: of_nat_add)
  have nI: "4 \<le> ?nI" by (simp add: index_to_write_def with_crc_def)
  then have b0: "bloom_offset \<noteq> 0" using uB by auto
  have tr: "drop (length file - 54) file = sst_trailer_bytes S bloom_offset index_offset"
    unfolding n by (simp add: F)
  have rB: "pread_exact file (?nA + ?nI) (length file - 54 - (?nA + ?nI)) msg = Inr bloom_to_write" for msg
    using pread_append [of "?nA + ?nI" "?A @ index_to_write" ?nB bloom_to_write _ msg]
    unfolding n by (simp add: F)
  have rI: "pread_exact file ?nA (?nA + ?nI - ?nA) msg = Inr index_to_write" for msg
    using pread_append [of ?nA ?A ?nI index_to_write _ msg] by (simp add: F)
  have blocks: "\<exists>B. block_inv blake3 (gs ! i) B \<and> read_block_at_file crc32 file (snd (?ix ! i))
      (next_block_offset ?ix index_offset i) ?km True = Inr (block_build B)" if "i < length gs" for i
    using read_stored_block [OF st that, of "index_to_write @ bloom_to_write @ sst_trailer_bytes S bloom_offset index_offset"]
      lt n unfolding F io by simp
  have lix: "length ?ix = length gs" by (simp add: group_index_def)
  define fk where "fk = (if gs = [] then [] else fst (hd (concat gs)))"
  have first: "(if ?ix \<noteq> [] then rbind (read_block_at_file crc32 file (snd (?ix ! 0))
        (next_block_offset ?ix index_offset 0) ?km True) (\<lambda>block.
          Inr (if 2 \<le> length block \<and> 2 + unat (u16_of_le (take 2 block)) \<le> length block
               then take (unat (u16_of_le (take 2 block))) (drop 2 block) else []))
      else Inr []) = Inr fk"
  proof (cases "gs = []")
    case True
    with lix have "?ix = []" by simp
    with True show ?thesis by (simp add: fk_def)
  next
    case False
    then have 0: "0 < length gs" by simp
    from list_all2_nthD [OF st this] have g0: "gs ! 0 \<noteq> []" by (simp add: stored_group_def)
    from blocks [OF 0] obtain B where B: "block_inv blake3 (gs ! 0) B" "read_block_at_file crc32 file (snd (?ix ! 0))
      (next_block_offset ?ix index_offset 0) ?km True = Inr (block_build B)" by blast
    have "hd (concat gs) = hd (gs ! 0)" using False g0 by (cases gs) auto
    moreover have "?ix \<noteq> []" using lix False by auto
    ultimately show ?thesis using B block_first_key [OF B(1) g0] False by (simp add: fk_def)
  qed
  define R where "R = \<lparr>rd_file = file, rd_index = ?ix,
      rd_metadata = \<lparr>sm_first_key = fk, sm_last_key = (if ?ix = [] then [] else fst (last ?ix)),
        sm_file_size = length file, sm_min_tx_id = sb_min_tx_id S, sm_max_tx_id = sb_max_tx_id S,
        sm_min_seq = sb_min_seq S, sm_max_seq = sb_max_seq S\<rparr>,
      rd_index_offset = index_offset, rd_km = ?km, rd_bloom = Some (sb_bloom S), rd_has_crc = True\<rparr>"
  have "sst_open crc32 ?km file = Inr R"
  proof -
    have p: "parse_index (concat (map index_entry ?ix)) = Inr ?ix"
      by (rule parse_index_entries [OF group_index_keys [OF st]])
    have c1: "check_crc crc32 True o1 m bloom_to_write = Inr (bloom_to_bytes (sb_bloom S))" for o1 m
      by (simp add: bloom_to_write_def)
    have c2: "check_crc crc32 True o1 m index_to_write = Inr (concat (map index_entry ?ix))" for o1 m
      by (simp add: index_to_write_def ix)
    have "\<not> length file < 12" using n by simp
    then show ?thesis
      unfolding sst_open_def Let_def tr parse_trailer_bytes rbind_Inr if_not_P [OF \<open>\<not> length file < 12\<close>]
      by (simp only: sst_trailer.select_convs uA uB rB rI c1 c2 p bloom_roundtrip [OF bw] first R_def
          rbind_Inr b0 if_True if_False simp_thms order_refl)
  qed
  moreover have "reader_repr crc32 blake3 R gs"
    unfolding reader_repr_def
  proof (intro conjI allI impI)
    show "length (rd_index R) = length gs" by (simp add: R_def lix)
    fix i assume i: "i < length gs"
    from blocks [OF i] obtain B where B: "block_inv blake3 (gs ! i) B" "get_block crc32 R i = Inr (block_build B)"
      by (auto simp: get_block_def R_def)
    have "block_view blake3 (block_build B) (length (bb_data B) + 8) (gs ! i)"
      by (rule block_build_view [OF B(1) sorted_group [OF sorted i]])
    moreover have "gs ! i \<noteq> []" using list_all2_nthD [OF st i] by (simp add: stored_group_def)
    moreover have "fst (rd_index R ! i) = fst (last (gs ! i))" using i by (simp add: R_def group_index_def)
    ultimately show "group_at crc32 blake3 R i (gs ! i)" unfolding group_at_def using B(2) by blast
  next
    show "sorted_wrt (<) (map fst (concat gs))" by (rule sorted)
    show "sm_first_key (rd_metadata R) = (if gs = [] then [] else fst (hd (concat gs)))"
      by (simp add: R_def fk_def)
    show "sm_last_key (rd_metadata R) = (if gs = [] then [] else fst (last (concat gs)))"
    proof (cases gs rule: rev_cases)
      case Nil
      with lix show ?thesis by (simp add: R_def)
    next
      case (snoc gs' g)
      have "g \<noteq> []" using list_all2_nthD [OF st, of "length gs'"] snoc by (simp add: stored_group_def)
      moreover have "fst (last ?ix) = fst (last g)" using snoc by (simp add: group_index_def)
      moreover have "?ix \<noteq> []" using lix snoc by auto
      ultimately show ?thesis using snoc by (simp add: R_def)
    qed
    fix b assume "rd_bloom R = Some b"
    then have "b = sb_bloom S" by (simp add: R_def)
    then show "bloom_wf b" "\<forall>e\<in>set (concat gs). bloom_holds blake3 b (fst e)" using I by simp_all
  qed
  ultimately show ?thesis by (auto simp: R_def)
qed

text \<open>Building any fitting, strictly ascending entries and opening the file.\<close>

lemma sst_build_open:
  assumes km: "km_opt_lawful km" and fits: "\<forall>e\<in>set es. entry_fits e"
    and sorted: "sorted_wrt (<) (map fst es)"
  shows "\<exists>file meta. sst_build crc32 blake3 fm fh km es = Inr (file, meta) \<and>
     (length file < 2 ^ 64 \<longrightarrow> (\<exists>R gs. sst_open crc32 km file = Inr R \<and> reader_repr crc32 blake3 R gs \<and>
        concat gs = es \<and>
        sm_min_tx_id (rd_metadata R) = sm_min_tx_id meta \<and> sm_max_tx_id (rd_metadata R) = sm_max_tx_id meta \<and>
        sm_min_seq (rd_metadata R) = sm_min_seq meta \<and> sm_max_seq (rd_metadata R) = sm_max_seq meta))"
proof -
  from sst_add_all_inv [OF sst_create_inv [OF km] fits] obtain S1 gs1 bs1 cur1 where
    S1: "sst_add_all crc32 blake3 es (sst_create fm fh km) = Inr S1" "sb_km S1 = sb_km (sst_create fm fh km)"
      "concat gs1 @ cur1 = concat [] @ [] @ es" "sst_inv crc32 blake3 S1 gs1 bs1 cur1" by blast
  from flush_all_inv [OF S1(4)] obtain S gs bs where
    S: "flush_block crc32 S1 = Inr S" "sb_km S = sb_km S1" "concat gs = concat gs1 @ cur1"
      "sst_inv crc32 blake3 S gs bs []" by blast
  have es: "concat gs = es" using S(3) S1(3) by simp
  have k: "sb_km S = km" using S(2) S1(2) by (simp add: sst_create_def)
  obtain f meta where fin: "sst_finish crc32 S1 = Inr (f, meta)"
    "f = sb_file S @ with_crc crc32 (concat (map index_entry (sb_index S))) @
       with_crc crc32 (bloom_to_bytes (sb_bloom S)) @ sst_trailer_bytes S
         (sb_offset S + of_nat (length (with_crc crc32 (concat (map index_entry (sb_index S)))))) (sb_offset S)"
    "sm_min_tx_id meta = sb_min_tx_id S" "sm_max_tx_id meta = sb_max_tx_id S"
    "sm_min_seq meta = sb_min_seq S" "sm_max_seq meta = sb_max_seq S"
    using S(1) by (simp add: sst_finish_def Let_def sst_trailer_bytes_def)
  have b: "sst_build crc32 blake3 fm fh km es = Inr (f, meta)"
    using S1(1) fin(1) by (simp add: sst_build_def)
  have "\<exists>R. sst_open crc32 km f = Inr R \<and> reader_repr crc32 blake3 R gs \<and>
     sm_min_tx_id (rd_metadata R) = sb_min_tx_id S \<and> sm_max_tx_id (rd_metadata R) = sb_max_tx_id S \<and>
     sm_min_seq (rd_metadata R) = sb_min_seq S \<and> sm_max_seq (rd_metadata R) = sb_max_seq S"
    if "length f < 2 ^ 64"
    using sst_reader_open [OF S(4)] sorted that unfolding es fin(2) k by blast
  with b es fin show ?thesis by metis
qed

section \<open>Ranges\<close>

definition ranges_of :: "sst_builder \<Rightarrow> u64 \<times> u64 \<times> u64 \<times> u64" where
  "ranges_of S = (sb_min_tx_id S, sb_max_tx_id S, sb_min_seq S, sb_max_seq S)"

lemma flush_block_ranges: "flush_block crc32 S = Inr S' \<Longrightarrow> ranges_of S' = ranges_of S"
  by (auto simp: flush_block_def ranges_of_def rbind_eq_Inr ok_or_eq_Inr Let_def split: if_splits)

lemma place_entry_ranges:
  assumes "place_entry crc32 blake3 k v s t S = Inr S'"
  shows "ranges_of S' = ranges_of S"
proof (cases "fst (block_add blake3 k v s t (sb_block S))")
  case True
  with assms show ?thesis
    by (cases "block_add blake3 k v s t (sb_block S)") (auto simp: place_entry_def ranges_of_def)
next
  case False
  then obtain b where "block_add blake3 k v s t (sb_block S) = (False, b)"
    by (cases "block_add blake3 k v s t (sb_block S)") auto
  with assms obtain S1 where S1: "flush_block crc32 S = Inr S1"
    "(case block_add blake3 k v s t (sb_block S1) of (True, b) \<Rightarrow> Inr (S1\<lparr>sb_block := b\<rparr>)
      | (False, _) \<Rightarrow> Inl (Storage ''Key-value entry too large for SSTable block'')) = Inr S'"
    by (auto simp: place_entry_def rbind_eq_Inr)
  from S1(2) have "ranges_of S' = ranges_of S1"
    by (cases "block_add blake3 k v s t (sb_block S1)") (auto simp: ranges_of_def split: bool.splits)
  with flush_block_ranges [OF S1(1)] show ?thesis by simp
qed

lemma sst_add_ranges:
  assumes "sst_add crc32 blake3 k v s t S = Inr S'"
  shows "sb_min_tx_id S' = min (sb_min_tx_id S) t" "sb_max_tx_id S' = max (sb_max_tx_id S) t"
    "sb_min_seq S' = min (sb_min_seq S) (raw_seq s)" "sb_max_seq S' = max (sb_max_seq S) (raw_seq s)"
proof -
  define S0 where "S0 = (if sb_first_key S = None then S\<lparr>sb_first_key := Some k\<rparr> else S)"
  have S0: "ranges_of S0 = ranges_of S" by (simp add: S0_def ranges_of_def)
  have "rbind (place_entry crc32 blake3 k v s t S0) (\<lambda>S. rbind (bloom_insert blake3 k (sb_bloom S)) (\<lambda>bloom.
      Inr (S\<lparr>sb_bloom := bloom, sb_key_count := sb_key_count S + 1,
        sb_min_tx_id := min (sb_min_tx_id S) t, sb_max_tx_id := max (sb_max_tx_id S) t,
        sb_min_seq := min (sb_min_seq S) (raw_seq s), sb_max_seq := max (sb_max_seq S) (raw_seq s),
        sb_last_key := Some k\<rparr>))) = Inr S'"
    using assms unfolding sst_add_def S0_def [symmetric] Let_def place_entry_def [symmetric]
    by (simp split: if_splits)
  then obtain S1 bloom where "place_entry crc32 blake3 k v s t S0 = Inr S1"
    "S' = S1\<lparr>sb_bloom := bloom, sb_key_count := sb_key_count S1 + 1,
        sb_min_tx_id := min (sb_min_tx_id S1) t, sb_max_tx_id := max (sb_max_tx_id S1) t,
        sb_min_seq := min (sb_min_seq S1) (raw_seq s), sb_max_seq := max (sb_max_seq S1) (raw_seq s),
        sb_last_key := Some k\<rparr>" by (auto simp: rbind_eq_Inr)
  with place_entry_ranges S0 show "sb_min_tx_id S' = min (sb_min_tx_id S) t" "sb_max_tx_id S' = max (sb_max_tx_id S) t"
    "sb_min_seq S' = min (sb_min_seq S) (raw_seq s)" "sb_max_seq S' = max (sb_max_seq S) (raw_seq s)"
    by (auto simp: ranges_of_def)
qed

lemma sst_add_all_ranges:
  "sst_add_all crc32 blake3 es S = Inr S' \<Longrightarrow>
     sb_min_tx_id S' = fold min (map (\<lambda>(k, v, s, t). t) es) (sb_min_tx_id S) \<and>
     sb_max_tx_id S' = fold max (map (\<lambda>(k, v, s, t). t) es) (sb_max_tx_id S) \<and>
     sb_min_seq S' = fold min (map (\<lambda>(k, v, s, t). raw_seq s) es) (sb_min_seq S) \<and>
     sb_max_seq S' = fold max (map (\<lambda>(k, v, s, t). raw_seq s) es) (sb_max_seq S)"
proof (induction es arbitrary: S)
  case (Cons e es)
  obtain k v s t where e: "e = (k, v, s, t)" by (cases e) auto
  with Cons.prems obtain S1 where "sst_add crc32 blake3 k v s t S = Inr S1"
    "sst_add_all crc32 blake3 es S1 = Inr S'" by (auto simp: rbind_eq_Inr)
  with Cons.IH [of S1] sst_add_ranges [of crc32 blake3 k v s t S S1] e show ?case
    by (simp add: min.commute max.commute)
qed simp

lemma sst_build_ranges:
  assumes "sst_build crc32 blake3 fm fh km es = Inr (f, meta)"
  shows "sm_min_tx_id meta = fold min (map (\<lambda>(k, v, s, t). t) es) (- 1)"
    "sm_max_tx_id meta = fold max (map (\<lambda>(k, v, s, t). t) es) 0"
    "sm_min_seq meta = fold min (map (\<lambda>(k, v, s, t). raw_seq s) es) (- 1)"
    "sm_max_seq meta = fold max (map (\<lambda>(k, v, s, t). raw_seq s) es) 0"
proof -
  from assms obtain S where S: "sst_add_all crc32 blake3 es (sst_create fm fh km) = Inr S"
    "sst_finish crc32 S = Inr (f, meta)" by (auto simp: sst_build_def rbind_eq_Inr)
  from S(2) obtain S' where S': "flush_block crc32 S = Inr S'" "sm_min_tx_id meta = sb_min_tx_id S'"
    "sm_max_tx_id meta = sb_max_tx_id S'" "sm_min_seq meta = sb_min_seq S'" "sm_max_seq meta = sb_max_seq S'"
    by (auto simp: sst_finish_def rbind_eq_Inr Let_def)
  from sst_add_all_ranges [OF S(1)] flush_block_ranges [OF S'(1)] S'(2-)
  show "sm_min_tx_id meta = fold min (map (\<lambda>(k, v, s, t). t) es) (- 1)"
    "sm_max_tx_id meta = fold max (map (\<lambda>(k, v, s, t). t) es) 0"
    "sm_min_seq meta = fold min (map (\<lambda>(k, v, s, t). raw_seq s) es) (- 1)"
    "sm_max_seq meta = fold max (map (\<lambda>(k, v, s, t). raw_seq s) es) 0"
    by (simp_all add: ranges_of_def sst_create_def)
qed

section \<open>Properties\<close>

text \<open>
  C14. SSTable round trip, for every checksum, digest and lawful cipher: adding any fitting
  entries in strictly ascending key order succeeds, and on the finished file \<open>open\<close> succeeds
  and \<open>get\<close> returns, for every key, exactly the entry that was added, if any; the last flag of
  \<open>lookup_metrics\<close> says whether \<open>get\<close> finds the key.
\<close>

theorem sstable_get_roundtrip:
  assumes "km_opt_lawful km" "\<forall>e\<in>set es. entry_fits e" "sorted_wrt (<) (map fst es)"
  shows "\<exists>file meta. sst_build crc32 blake3 fm fh km es = Inr (file, meta) \<and>
     (length file < 2 ^ 64 \<longrightarrow> (\<exists>R. sst_open crc32 km file = Inr R \<and>
        (\<forall>key. sst_get crc32 blake3 R key = Inr (map_of es key) \<and>
           (\<exists>b r k. lookup_metrics crc32 blake3 R key = Inr (b, r, k, map_of es key \<noteq> None)))))"
proof -
  from sst_build_open [OF assms, of crc32 blake3 fm fh] obtain f meta where
    f: "sst_build crc32 blake3 fm fh km es = Inr (f, meta)"
      "length f < 2 ^ 64 \<Longrightarrow> \<exists>R gs. sst_open crc32 km f = Inr R \<and> reader_repr crc32 blake3 R gs \<and> concat gs = es"
    by blast
  have "sst_get crc32 blake3 R key = Inr (map_of es key) \<and>
      (\<exists>b r k. lookup_metrics crc32 blake3 R key = Inr (b, r, k, map_of es key \<noteq> None))"
    if "reader_repr crc32 blake3 R gs" "concat gs = es" for R gs key
    using sst_get_repr [OF that(1)] lookup_metrics_repr [OF that(1), of key] unfolding that(2) by blast
  then have "length f < 2 ^ 64 \<Longrightarrow> \<exists>R. sst_open crc32 km f = Inr R \<and>
      (\<forall>key. sst_get crc32 blake3 R key = Inr (map_of es key) \<and>
         (\<exists>b r k. lookup_metrics crc32 blake3 R key = Inr (b, r, k, map_of es key \<noteq> None)))"
    using f(2) by blast
  with f(1) show ?thesis by blast
qed

lemma sst_example_size:
  "case sst_build (\<lambda>d. 0) (\<lambda>d. []) 64 1 (Some km_plain) [([1], [2], 3, 4)] of
     Inr (f, meta) \<Rightarrow> length f < 1000 | Inl e \<Rightarrow> False"
  by (simp add: sst_build_def sst_create_def sst_add_def sst_finish_def flush_block_def block_add_def
      block_builder_new_def BLOCK_SIZE_def MAX_VALUE_SIZE_def bloom_insert_def bloom_new_def clamp_def
      BLOOM_MAX_BITS_def next_multiple_of_def bloom_bit_idx_def hash_pair_def bloom_set_bit_def
      block_is_empty_def update_bloom_def block_build_def encode_entry_def with_crc_def km_plain_def
      index_entry_def bloom_to_bytes_def Let_def)

theorem sstable_get_roundtrip_witness:
  "\<exists>file meta R. sst_build (\<lambda>d. 0) (\<lambda>d. []) 64 1 (Some km_plain) [([1], [2], 3, 4)] = Inr (file, meta) \<and>
     sst_open (\<lambda>d. 0) (Some km_plain) file = Inr R \<and>
     sst_get (\<lambda>d. 0) (\<lambda>d. []) R [1] = Inr (Some ([2], 3, 4)) \<and> sst_get (\<lambda>d. 0) (\<lambda>d. []) R [9] = Inr None"
proof -
  have "km_opt_lawful (Some km_plain)" using plain.lawful by (simp add: km_opt_lawful_def)
  from sstable_get_roundtrip [OF this, of "[([1], [2], 3, 4)]" "\<lambda>d. 0" "\<lambda>d. []" 64 1]
  obtain f meta where f: "sst_build (\<lambda>d. 0) (\<lambda>d. []) 64 1 (Some km_plain) [([1], [2], 3, 4)] = Inr (f, meta)"
    "length f < 2 ^ 64 \<longrightarrow> (\<exists>R. sst_open (\<lambda>d. 0) (Some km_plain) f = Inr R \<and>
        (\<forall>key. sst_get (\<lambda>d. 0) (\<lambda>d. []) R key = Inr (map_of [([1], [2], 3, 4)] key)))"
    by (auto simp: entry_fits_def MAX_VALUE_SIZE_def)
  have "length f < 2 ^ 64" using sst_example_size f(1) by simp
  with f show ?thesis by auto
qed

text \<open>
  Scans of a built SSTable are exact: the prefix scan returns, in key order, the added
  entries whose key has the prefix, and the range scan those between the bounds.
\<close>

theorem sstable_scans_exact:
  assumes "km_opt_lawful km" "\<forall>e\<in>set es. entry_fits e" "sorted_wrt (<) (map fst es)"
  shows "\<exists>file meta. sst_build crc32 blake3 fm fh km es = Inr (file, meta) \<and>
     (length file < 2 ^ 64 \<longrightarrow> (\<exists>R. sst_open crc32 km file = Inr R \<and>
        (\<forall>p. sst_scan_prefix crc32 R p = Inr (filter (\<lambda>e. starts_with p (fst e)) es)) \<and>
        (\<forall>lo hi. sst_scan_range crc32 R lo hi =
           Inr (filter (\<lambda>e. above lo (fst e) \<and> below hi (fst e)) es))))"
proof -
  from sst_build_open [OF assms, of crc32 blake3 fm fh] obtain f meta where
    f: "sst_build crc32 blake3 fm fh km es = Inr (f, meta)"
      "length f < 2 ^ 64 \<Longrightarrow> \<exists>R gs. sst_open crc32 km f = Inr R \<and> reader_repr crc32 blake3 R gs \<and> concat gs = es"
    by blast
  from f(2) sst_scan_prefix_repr sst_scan_range_repr
  have "length f < 2 ^ 64 \<Longrightarrow> \<exists>R. sst_open crc32 km f = Inr R \<and>
      (\<forall>p. sst_scan_prefix crc32 R p = Inr (filter (\<lambda>e. starts_with p (fst e)) es)) \<and>
      (\<forall>lo hi. sst_scan_range crc32 R lo hi = Inr (filter (\<lambda>e. above lo (fst e) \<and> below hi (fst e)) es))"
    by blast
  with f(1) show ?thesis by blast
qed

theorem sstable_scans_exact_witness:
  "\<exists>file meta R. sst_build (\<lambda>d. 0) (\<lambda>d. []) 64 1 (Some km_plain) [([1], [2], 3, 4)] = Inr (file, meta) \<and>
     sst_open (\<lambda>d. 0) (Some km_plain) file = Inr R \<and>
     sst_scan_prefix (\<lambda>d. 0) R [1] = Inr [([1], [2], 3, 4)] \<and>
     sst_scan_range (\<lambda>d. 0) R (Excluded [1]) Unbounded = Inr []"
proof -
  have "km_opt_lawful (Some km_plain)" using plain.lawful by (simp add: km_opt_lawful_def)
  from sstable_scans_exact [OF this, of "[([1], [2], 3, 4)]" "\<lambda>d. 0" "\<lambda>d. []" 64 1]
  obtain f meta where f: "sst_build (\<lambda>d. 0) (\<lambda>d. []) 64 1 (Some km_plain) [([1], [2], 3, 4)] = Inr (f, meta)"
    "length f < 2 ^ 64 \<longrightarrow> (\<exists>R. sst_open (\<lambda>d. 0) (Some km_plain) f = Inr R \<and>
        (\<forall>p. sst_scan_prefix (\<lambda>d. 0) R p = Inr (filter (\<lambda>e. starts_with p (fst e)) [([1], [2], 3, 4)])) \<and>
        (\<forall>lo hi. sst_scan_range (\<lambda>d. 0) R lo hi =
           Inr (filter (\<lambda>e. above lo (fst e) \<and> below hi (fst e)) [([1], [2], 3, 4)])))"
    by (auto simp: entry_fits_def MAX_VALUE_SIZE_def)
  have "length f < 2 ^ 64" using sst_example_size f(1) by simp
  with f show ?thesis by auto
qed

text \<open>
  Enumeration of a built SSTable is complete: \<open>iter\<close> returns every entry in order (without
  its transaction), and a fresh stream delivers the same entries one by one and then ends.
\<close>

theorem sstable_enumeration_complete:
  assumes "km_opt_lawful km" "\<forall>e\<in>set es. entry_fits e" "sorted_wrt (<) (map fst es)"
  shows "\<exists>file meta. sst_build crc32 blake3 fm fh km es = Inr (file, meta) \<and>
     (length file < 2 ^ 64 \<longrightarrow> (\<exists>R. sst_open crc32 km file = Inr R \<and>
        sst_iter crc32 R = Inr (map (\<lambda>(k, v, s, t). (k, v, s)) es) \<and>
        (\<forall>n > length es. stream_collect crc32 R n stream_new = Inr es)))"
proof -
  from sst_build_open [OF assms, of crc32 blake3 fm fh] obtain f meta where
    f: "sst_build crc32 blake3 fm fh km es = Inr (f, meta)"
      "length f < 2 ^ 64 \<Longrightarrow> \<exists>R gs. sst_open crc32 km f = Inr R \<and> reader_repr crc32 blake3 R gs \<and> concat gs = es"
    by blast
  have "\<exists>R. sst_open crc32 km f = Inr R \<and> sst_iter crc32 R = Inr (map (\<lambda>(k, v, s, t). (k, v, s)) es) \<and>
      (\<forall>n > length es. stream_collect crc32 R n stream_new = Inr es)" if "length f < 2 ^ 64"
  proof -
    from f(2) [OF that] obtain R gs where R: "sst_open crc32 km f = Inr R" "reader_repr crc32 blake3 R gs"
      "concat gs = es" by blast
    have "sst_iter crc32 R = Inr (map (\<lambda>(k, v, s, t). (k, v, s)) es)"
      using sst_iter_repr [OF R(2)] R(3) by simp
    moreover have "stream_collect crc32 R n stream_new = Inr es" if "length es < n" for n
      using stream_collect_repr [OF R(2) stream_new_repr] R(3) that by simp
    ultimately show ?thesis using R(1) by blast
  qed
  with f(1) show ?thesis by blast
qed

theorem sstable_enumeration_complete_witness:
  "\<exists>file meta R. sst_build (\<lambda>d. 0) (\<lambda>d. []) 64 1 (Some km_plain) [([1], [2], 3, 4)] = Inr (file, meta) \<and>
     sst_open (\<lambda>d. 0) (Some km_plain) file = Inr R \<and>
     stream_collect (\<lambda>d. 0) R 5 stream_new = Inr [([1], [2], 3, 4)]"
proof -
  have "km_opt_lawful (Some km_plain)" using plain.lawful by (simp add: km_opt_lawful_def)
  from sstable_enumeration_complete [OF this, of "[([1], [2], 3, 4)]" "\<lambda>d. 0" "\<lambda>d. []" 64 1]
  obtain f meta where f: "sst_build (\<lambda>d. 0) (\<lambda>d. []) 64 1 (Some km_plain) [([1], [2], 3, 4)] = Inr (f, meta)"
    "length f < 2 ^ 64 \<longrightarrow> (\<exists>R. sst_open (\<lambda>d. 0) (Some km_plain) f = Inr R \<and>
        (\<forall>n > length [([1::u8], [2::u8], 3::u64, 4::u64)].
           stream_collect (\<lambda>d. 0) R n stream_new = Inr [([1], [2], 3, 4)]))"
    by (auto simp: entry_fits_def MAX_VALUE_SIZE_def)
  have "length f < 2 ^ 64" using sst_example_size f(1) by simp
  with f show ?thesis by auto
qed

text \<open>
  The ranges in the metadata are exact, in the file as in the builder's result: they are the
  least and greatest transaction and logical sequence number of the added entries, so skipping a
  table by its range skips no entry.
\<close>

theorem sstable_ranges_exact:
  assumes "km_opt_lawful km" "\<forall>e\<in>set es. entry_fits e" "sorted_wrt (<) (map fst es)"
    and "sst_build crc32 blake3 fm fh km es = Inr (f, meta)" "length f < 2 ^ 64"
  shows "\<exists>R. sst_open crc32 km f = Inr R \<and>
     sm_min_tx_id (rd_metadata R) = Min (insert (- 1) ((\<lambda>(k, v, s, t). t) ` set es)) \<and>
     sm_max_tx_id (rd_metadata R) = Max (insert 0 ((\<lambda>(k, v, s, t). t) ` set es)) \<and>
     sm_min_seq (rd_metadata R) = Min (insert (- 1) ((\<lambda>(k, v, s, t). raw_seq s) ` set es)) \<and>
     sm_max_seq (rd_metadata R) = Max (insert 0 ((\<lambda>(k, v, s, t). raw_seq s) ` set es))"
proof -
  from sst_build_open [OF assms(1-3), of crc32 blake3 fm fh] assms(4,5) obtain R where
    "sst_open crc32 km f = Inr R" "sm_min_tx_id (rd_metadata R) = sm_min_tx_id meta"
    "sm_max_tx_id (rd_metadata R) = sm_max_tx_id meta" "sm_min_seq (rd_metadata R) = sm_min_seq meta"
    "sm_max_seq (rd_metadata R) = sm_max_seq meta" by auto
  with sst_build_ranges [OF assms(4)] show ?thesis by (simp add: fold_min_Min fold_max_Max)
qed

theorem sstable_ranges_exact_witness:
  "\<exists>f meta R. sst_build (\<lambda>d. 0) (\<lambda>d. []) 64 1 (Some km_plain) [([1], [2], 3, 4)] = Inr (f, meta) \<and>
     sst_open (\<lambda>d. 0) (Some km_plain) f = Inr R \<and> sm_min_tx_id (rd_metadata R) = 4 \<and>
     sm_max_tx_id (rd_metadata R) = 4"
proof -
  have km: "km_opt_lawful (Some km_plain)" using plain.lawful by (simp add: km_opt_lawful_def)
  obtain f meta where f: "sst_build (\<lambda>d. 0) (\<lambda>d. []) 64 1 (Some km_plain) [([1], [2], 3, 4)] = Inr (f, meta)"
    using sst_example_size by (auto split: sum.splits prod.splits)
  have "length f < 2 ^ 64" using sst_example_size f(1) by simp
  from sstable_ranges_exact [OF km _ _ f this] f show ?thesis
    by (auto simp: entry_fits_def MAX_VALUE_SIZE_def)
qed

end
