(* ===== verification/Block_Cache.thy ===== *)
theory Block_Cache
  imports Sstable
begin

text \<open>
  The block cache of \<open>crates/contextra-store/src/sstable/block_cache.rs\<close> and the cached read of
  \<open>SstableReader::get_block\<close>: the SIEVE backend with the shared nodes as an explicit store, the
  LRU backend over the operations of the \<open>lru\<close> crate, the sharded cache over any backend, and the
  transparency of the cache for block reads.
\<close>

type_synonym blk_key = "u64 \<times> u64"

section \<open>SIEVE backend\<close>

text \<open>
  A node is an \<open>Arc<SieveNode>\<close> shared by the map and the queue: \<open>sv_heap\<close> holds the nodes by
  address, \<open>sv_map\<close> and \<open>sv_nodes\<close> hold addresses, \<open>Arc::ptr_eq\<close> compares addresses and
  \<open>sv_next\<close> is the next address \<open>Arc::new\<close> returns.
\<close>

record sieve_node =
  sn_key :: blk_key
  sn_value :: bytes
  sn_visited :: bool

record sieve_state =
  sv_heap :: "nat \<Rightarrow> sieve_node"
  sv_next :: nat
  sv_map :: "(blk_key \<times> nat) list"
  sv_nodes :: "nat list"
  sv_hand :: nat
  sv_current_bytes :: nat
  sv_capacity_bytes :: nat

definition sieve_new :: "nat \<Rightarrow> sieve_state" where
  "sieve_new capacity_bytes =
     \<lparr>sv_heap = (\<lambda>_. \<lparr>sn_key = (0, 0), sn_value = [], sn_visited = False\<rparr>), sv_next = 0, sv_map = [],
      sv_nodes = [], sv_hand = 0, sv_current_bytes = 0, sv_capacity_bytes = max capacity_bytes 1\<rparr>"

definition set_visited :: "nat \<Rightarrow> bool \<Rightarrow> (nat \<Rightarrow> sieve_node) \<Rightarrow> nat \<Rightarrow> sieve_node" where
  "set_visited a b h = h(a := (h a)\<lparr>sn_visited := b\<rparr>)"

definition sieve_get :: "blk_key \<Rightarrow> sieve_state \<Rightarrow> bytes option \<times> sieve_state" where
  "sieve_get key S =
     (case map_of (sv_map S) key of
        Some a \<Rightarrow> (Some (sn_value (sv_heap S a)), S\<lparr>sv_heap := set_visited a True (sv_heap S)\<rparr>)
      | None \<Rightarrow> (None, S))"

definition remove_nth :: "nat \<Rightarrow> 'a list \<Rightarrow> 'a list" where
  "remove_nth i xs = take i xs @ drop (Suc i) xs"

text \<open>One round of the eviction loop at the hand, which has been brought into range.\<close>

definition sieve_step :: "sieve_state \<Rightarrow> sieve_state" where
  "sieve_step S =
     (let hand = (if length (sv_nodes S) \<le> sv_hand S then 0 else sv_hand S);
          a = sv_nodes S ! hand;
          node = sv_heap S a;
          drop_node = S\<lparr>sv_hand := hand, sv_nodes := remove_nth hand (sv_nodes S)\<rparr>
      in if map_of (sv_map S) (sn_key node) = Some a
         then if sn_visited node
              then S\<lparr>sv_hand := hand + 1, sv_heap := set_visited a False (sv_heap S)\<rparr>
              else drop_node\<lparr>sv_map := AList.delete (sn_key node) (sv_map S),
                             sv_current_bytes := sv_current_bytes S - length (sn_value node)\<rparr>
         else drop_node)"

definition sieve_full :: "sieve_state \<Rightarrow> bool" where
  "sieve_full S \<longleftrightarrow> sv_capacity_bytes S < sv_current_bytes S \<and> sv_map S \<noteq> [] \<and> sv_nodes S \<noteq> []"

definition sieve_work :: "sieve_state \<Rightarrow> nat" where
  "sieve_work S = length (sv_nodes S) + length (filter (\<lambda>a. sn_visited (sv_heap S a)) (sv_nodes S))"

lemma length_remove_nth [simp]: "i < length xs \<Longrightarrow> length (remove_nth i xs) = length xs - 1"
  by (simp add: remove_nth_def)

lemma length_filter_remove_nth: "length (filter P (remove_nth i xs)) \<le> length (filter P xs)"
proof -
  have "length (filter P (drop (Suc i) xs)) \<le> length (filter P (drop i xs))"
    by (cases "i < length xs") (simp_all add: Cons_nth_drop_Suc [symmetric])
  moreover have "length (filter P xs) = length (filter P (take i xs)) + length (filter P (drop i xs))"
    by (metis append_take_drop_id filter_append length_append)
  ultimately show ?thesis by (simp add: remove_nth_def)
qed

lemma filter_clear_less:
  assumes "a \<in> set xs" and "P a" and "\<And>x. Q x \<Longrightarrow> P x" and "\<not> Q a"
  shows "length (filter Q xs) < length (filter P xs)"
proof -
  have "filter Q xs = filter Q (filter P xs)" using assms(3) by (induction xs) auto
  moreover have "length (filter Q (filter P xs)) < length (filter P xs)"
    using assms(1,2,4) length_filter_less [of a "filter P xs" Q] by simp
  ultimately show ?thesis by simp
qed

lemma sieve_step_work:
  assumes "sv_nodes S \<noteq> []"
  shows "sieve_work (sieve_step S) < sieve_work S"
proof -
  define hand where "hand = (if length (sv_nodes S) \<le> sv_hand S then 0 else sv_hand S)"
  have hand: "hand < length (sv_nodes S)" using assms by (auto simp: hand_def)
  let ?a = "sv_nodes S ! hand"
  have shorter: "length (remove_nth hand (sv_nodes S)) +
      length (filter (\<lambda>a. sn_visited (sv_heap S a)) (remove_nth hand (sv_nodes S))) < sieve_work S"
    using hand assms length_filter_remove_nth [of "\<lambda>a. sn_visited (sv_heap S a)" hand "sv_nodes S"]
    by (simp add: sieve_work_def add_less_le_mono)
  have clear: "length (filter (\<lambda>a. sn_visited (set_visited ?a False (sv_heap S) a)) (sv_nodes S)) <
      length (filter (\<lambda>a. sn_visited (sv_heap S a)) (sv_nodes S))" if "sn_visited (sv_heap S ?a)"
    by (rule filter_clear_less [of ?a]) (use hand that in \<open>auto simp: set_visited_def split: if_splits\<close>)
  show ?thesis
    using shorter clear
    by (auto simp: sieve_step_def Let_def hand_def [symmetric] sieve_work_def)
qed

function sieve_evict :: "sieve_state \<Rightarrow> sieve_state" where
  "sieve_evict S = (if sieve_full S then sieve_evict (sieve_step S) else S)"
  by auto
termination by (relation "measure sieve_work") (auto simp: sieve_full_def intro: sieve_step_work)

declare sieve_evict.simps [simp del]

text \<open>The state after the new node is linked into the map and the queue.\<close>

definition sieve_push :: "blk_key \<Rightarrow> bytes \<Rightarrow> bool \<Rightarrow> sieve_state \<Rightarrow> sieve_state" where
  "sieve_push key val visited S =
     S\<lparr>sv_heap := (sv_heap S)(sv_next S := \<lparr>sn_key = key, sn_value = val, sn_visited = visited\<rparr>),
       sv_next := Suc (sv_next S), sv_map := AList.update key (sv_next S) (sv_map S),
       sv_nodes := sv_nodes S @ [sv_next S]\<rparr>"

definition sieve_insert :: "blk_key \<Rightarrow> bytes \<Rightarrow> sieve_state \<Rightarrow> sieve_state" where
  "sieve_insert key val S =
     (case map_of (sv_map S) key of
        Some old \<Rightarrow> (sieve_push key val True S)\<lparr>sv_current_bytes :=
                       sv_current_bytes S - length (sn_value (sv_heap S old)) + length val\<rparr>
      | None \<Rightarrow> sieve_evict ((sieve_push key val False S)\<lparr>sv_current_bytes := sv_current_bytes S + length val\<rparr>))"

definition sieve_len :: "sieve_state \<Rightarrow> nat" where
  "sieve_len S = length (sv_map S)"

definition sieve_contains :: "blk_key \<Rightarrow> sieve_state \<Rightarrow> bool \<times> sieve_state" where
  "sieve_contains key S = (case sieve_get key S of (r, S') \<Rightarrow> (r \<noteq> None, S'))"

subsection \<open>Invariant of the SIEVE state\<close>

definition sieve_lookup :: "sieve_state \<Rightarrow> blk_key \<Rightarrow> bytes option" where
  "sieve_lookup S k = map_option (\<lambda>a. sn_value (sv_heap S a)) (map_of (sv_map S) k)"

definition sieve_bytes :: "sieve_state \<Rightarrow> nat" where
  "sieve_bytes S = (\<Sum>(k, a)\<leftarrow>sv_map S. length (sn_value (sv_heap S a)))"

definition sieve_inv :: "sieve_state \<Rightarrow> bool" where
  "sieve_inv S \<longleftrightarrow>
     distinct (map fst (sv_map S)) \<and> distinct (sv_nodes S) \<and> (\<forall>a \<in> set (sv_nodes S). a < sv_next S) \<and>
     (\<forall>(k, a) \<in> set (sv_map S). a \<in> set (sv_nodes S) \<and> sn_key (sv_heap S a) = k) \<and>
     sv_current_bytes S = sieve_bytes S"

lemma delete_absent: "k \<notin> fst ` set xs \<Longrightarrow> AList.delete k xs = xs"
  by (induction xs) auto

lemma in_set_delete: "(k, v) \<in> set (AList.delete q xs) \<longleftrightarrow> (k, v) \<in> set xs \<and> k \<noteq> q"
  by (induction xs) auto

lemma sum_list_delete:
  fixes f :: "'a \<times> 'b \<Rightarrow> nat"
  assumes "distinct (map fst xs)" and "map_of xs k = Some v"
  shows "sum_list (map f xs) = f (k, v) + sum_list (map f (AList.delete k xs))"
  using assms
proof (induction xs)
  case (Cons x xs)
  show ?case
  proof (cases "fst x = k")
    case True
    then have "AList.delete k xs = xs" using Cons.prems(1) by (simp add: delete_absent)
    with True Cons.prems show ?thesis by (cases x) simp
  next
    case False
    then show ?thesis using Cons by (cases x) auto
  qed
qed simp

lemma sum_list_update_new:
  fixes f :: "'a \<times> 'b \<Rightarrow> nat"
  assumes "map_of xs k = None"
  shows "sum_list (map f (AList.update k v xs)) = sum_list (map f xs) + f (k, v)"
  using assms by (induction xs) (auto split: if_splits)

lemma sum_list_update_old:
  fixes f :: "'a \<times> 'b \<Rightarrow> nat"
  assumes "distinct (map fst xs)" and "map_of xs k = Some w"
  shows "sum_list (map f (AList.update k v xs)) = sum_list (map f xs) - f (k, w) + f (k, v)"
  using assms
proof (induction xs)
  case (Cons x xs)
  show ?case
  proof (cases "fst x = k")
    case True
    then show ?thesis using Cons.prems by (cases x) simp
  next
    case False
    then have "f (k, w) \<le> sum_list (map f xs)"
      using Cons.prems by (cases x) (auto intro!: member_le_sum_list dest: map_of_SomeD)
    with False Cons show ?thesis by (cases x) auto
  qed
qed simp

lemma sieve_invD:
  assumes "sieve_inv S"
  shows "distinct (map fst (sv_map S))" and "distinct (sv_nodes S)"
    and "\<And>a. a \<in> set (sv_nodes S) \<Longrightarrow> a < sv_next S"
    and "\<And>k a. map_of (sv_map S) k = Some a \<Longrightarrow> a \<in> set (sv_nodes S) \<and> sn_key (sv_heap S a) = k"
    and "sv_current_bytes S = sieve_bytes S"
  using assms by (auto simp: sieve_inv_def dest!: map_of_SomeD)

lemma set_visited_sel [simp]:
  "sn_value (set_visited a b h c) = sn_value (h c)" "sn_key (set_visited a b h c) = sn_key (h c)"
  by (simp_all add: set_visited_def)

lemma sieve_touch_inv [simp]: "sieve_inv (S\<lparr>sv_hand := i, sv_heap := set_visited a b (sv_heap S)\<rparr>) = sieve_inv S"
  by (simp add: sieve_inv_def sieve_bytes_def)

lemma sieve_get_spec:
  shows "fst (sieve_get k S) = sieve_lookup S k" and "sieve_inv (snd (sieve_get k S)) = sieve_inv S"
    and "sieve_lookup (snd (sieve_get k S)) = sieve_lookup S"
  by (auto simp: sieve_get_def sieve_lookup_def sieve_inv_def sieve_bytes_def split: option.split)

lemma remove_nth_split: "i < length xs \<Longrightarrow> \<exists>ys zs. xs = ys @ xs ! i # zs \<and> remove_nth i xs = ys @ zs"
  by (rule exI [of _ "take i xs"], rule exI [of _ "drop (Suc i) xs"])
    (simp add: remove_nth_def id_take_nth_drop [symmetric])

lemma set_remove_nth:
  assumes "distinct xs" and "i < length xs"
  shows "set (remove_nth i xs) = set xs - {xs ! i}"
proof -
  obtain ys zs where "xs = ys @ xs ! i # zs" "remove_nth i xs = ys @ zs"
    using remove_nth_split [OF assms(2)] by blast
  moreover from this(1) assms(1) have "distinct (ys @ xs ! i # zs)" by simp
  ultimately show ?thesis by (metis Diff_insert_absorb Un_insert_right distinct.simps(2) distinct_append list.simps(15) set_append not_distinct_conv_prefix Un_iff disjoint_iff list.set_intros(1))
qed

lemma distinct_remove_nth:
  assumes "distinct xs" and "i < length xs"
  shows "distinct (remove_nth i xs)"
proof -
  obtain ys zs where s: "xs = ys @ xs ! i # zs" "remove_nth i xs = ys @ zs"
    using remove_nth_split [OF assms(2)] by blast
  have "distinct (ys @ xs ! i # zs)" using s(1) assms(1) by simp
  then show ?thesis unfolding s(2) by simp
qed

lemma sieve_drop_stale:
  assumes "sieve_inv S" and "i < length (sv_nodes S)"
    and "map_of (sv_map S) (sn_key (sv_heap S (sv_nodes S ! i))) \<noteq> Some (sv_nodes S ! i)"
  shows "sieve_inv (S\<lparr>sv_hand := h, sv_nodes := remove_nth i (sv_nodes S)\<rparr>)"
proof -
  note inv = sieve_invD [OF assms(1)]
  have "a \<in> set (remove_nth i (sv_nodes S)) \<and> sn_key (sv_heap S a) = k"
    if "(k, a) \<in> set (sv_map S)" for k a
  proof -
    have m: "map_of (sv_map S) k = Some a" by (rule map_of_is_SomeI [OF inv(1) that])
    then have "a \<in> set (sv_nodes S)" "sn_key (sv_heap S a) = k" using inv(4) by simp_all
    moreover from this m assms(3) have "a \<noteq> sv_nodes S ! i" by blast
    ultimately show ?thesis using set_remove_nth [OF inv(2) assms(2)] by simp
  qed
  then show ?thesis
    using inv(1,3,5) distinct_remove_nth [OF inv(2) assms(2)] set_remove_nth [OF inv(2) assms(2)]
    by (auto simp: sieve_inv_def sieve_bytes_def)
qed

lemma sieve_drop_live:
  assumes "sieve_inv S" and "i < length (sv_nodes S)" and a: "a = sv_nodes S ! i"
    and key: "map_of (sv_map S) (sn_key (sv_heap S a)) = Some a"
  shows "sieve_inv (S\<lparr>sv_hand := h, sv_nodes := remove_nth i (sv_nodes S),
            sv_map := AList.delete (sn_key (sv_heap S a)) (sv_map S),
            sv_current_bytes := sv_current_bytes S - length (sn_value (sv_heap S a))\<rparr>)"
proof -
  note inv = sieve_invD [OF assms(1)]
  let ?k = "sn_key (sv_heap S a)"
  have nodes: "c \<in> set (remove_nth i (sv_nodes S)) \<and> sn_key (sv_heap S c) = k"
    if "(k, c) \<in> set (AList.delete ?k (sv_map S))" for k c
  proof -
    have kc: "(k, c) \<in> set (sv_map S)" "k \<noteq> ?k" using that unfolding in_set_delete by blast+
    then have c: "c \<in> set (sv_nodes S)" "sn_key (sv_heap S c) = k"
      using inv(4) [OF map_of_is_SomeI [OF inv(1) kc(1)]] by simp_all
    then have "c \<noteq> a" using kc(2) by blast
    then show ?thesis using c set_remove_nth [OF inv(2) assms(2)] a by simp
  qed
  have bytes: "sieve_bytes S - length (sn_value (sv_heap S a)) =
      (\<Sum>(k, a)\<leftarrow>AList.delete ?k (sv_map S). length (sn_value (sv_heap S a)))"
    unfolding sieve_bytes_def sum_list_delete [OF inv(1) key] by simp
  have "\<forall>c \<in> set (remove_nth i (sv_nodes S)). c < sv_next S"
    using inv(3) set_remove_nth [OF inv(2) assms(2)] by blast
  moreover have "\<forall>(k, c) \<in> set (AList.delete ?k (sv_map S)).
      c \<in> set (remove_nth i (sv_nodes S)) \<and> sn_key (sv_heap S c) = k"
    using nodes by blast
  ultimately show ?thesis
    unfolding sieve_inv_def sieve_bytes_def
    using bytes inv(5) distinct_remove_nth [OF inv(2) assms(2)] distinct_delete [OF inv(1), of ?k]
    by (intro conjI) simp_all
qed

lemma sieve_step_keeps:
  assumes "sieve_inv S" and "sv_nodes S \<noteq> []"
  shows "sieve_inv (sieve_step S)"
    and "sieve_lookup (sieve_step S) k = Some v \<Longrightarrow> sieve_lookup S k = Some v"
    and "sv_capacity_bytes (sieve_step S) = sv_capacity_bytes S"
proof -
  define hand where "hand = (if length (sv_nodes S) \<le> sv_hand S then 0 else sv_hand S)"
  have hand: "hand < length (sv_nodes S)" using assms by (auto simp: hand_def)
  show "sieve_inv (sieve_step S)"
    using assms(1) sieve_drop_stale [OF assms(1) hand] sieve_drop_live [OF assms(1) hand refl]
    by (simp add: sieve_step_def Let_def hand_def [symmetric])
  show "sieve_lookup (sieve_step S) k = Some v \<Longrightarrow> sieve_lookup S k = Some v"
    by (auto simp: sieve_step_def Let_def hand_def [symmetric] sieve_lookup_def delete_conv' split: if_splits)
  show "sv_capacity_bytes (sieve_step S) = sv_capacity_bytes S"
    by (simp add: sieve_step_def Let_def)
qed

lemma sieve_evict_keeps:
  assumes "sieve_inv S"
  shows "sieve_inv (sieve_evict S) \<and> (sieve_lookup (sieve_evict S) k = Some v \<longrightarrow> sieve_lookup S k = Some v) \<and>
    sv_capacity_bytes (sieve_evict S) = sv_capacity_bytes S \<and> \<not> sieve_full (sieve_evict S)"
  using assms
proof (induction S rule: sieve_evict.induct)
  case (1 S)
  show ?case
  proof (cases "sieve_full S")
    case True
    then have "sv_nodes S \<noteq> []" by (simp add: sieve_full_def)
    note keeps = sieve_step_keeps [OF "1.prems" this]
    show ?thesis using "1.IH" [OF True keeps(1)] keeps(2,3) True by (simp add: sieve_evict.simps [of S])
  qed (use 1 in \<open>simp add: sieve_evict.simps [of S]\<close>)
qed

lemma sieve_inv_bounded:
  assumes "sieve_inv S" and "\<not> sieve_full S"
  shows "sv_current_bytes S \<le> sv_capacity_bytes S"
proof (cases "sv_map S = []")
  case True
  then show ?thesis using sieve_invD(5) [OF assms(1)] by (simp add: sieve_bytes_def)
next
  case False
  then have "hd (sv_map S) \<in> set (sv_map S)" by simp
  then have "snd (hd (sv_map S)) \<in> set (sv_nodes S)" using assms(1) by (simp add: sieve_inv_def split_beta)
  then have "sv_nodes S \<noteq> []" by fastforce
  then show ?thesis using assms(2) False by (auto simp: sieve_full_def)
qed

lemma sieve_push_lookup:
  assumes "sieve_inv S"
  shows "sieve_lookup (sieve_push key val b S) = (sieve_lookup S)(key \<mapsto> val)"
proof
  fix k
  have "map_of (sv_map S) k = Some a \<Longrightarrow> a \<noteq> sv_next S" for a
    using sieve_invD(3,4) [OF assms] by blast
  then show "sieve_lookup (sieve_push key val b S) k = ((sieve_lookup S)(key \<mapsto> val)) k"
    by (cases "map_of (sv_map S) k")
      (simp_all add: sieve_lookup_def sieve_push_def update_conv')
qed

lemma sieve_push_inv:
  assumes inv: "sieve_inv S"
    and bytes: "n = sv_current_bytes S - length (case sieve_lookup S key of None \<Rightarrow> [] | Some v \<Rightarrow> v) + length val"
  shows "sieve_inv ((sieve_push key val b S)\<lparr>sv_current_bytes := n\<rparr>)"
proof -
  note inv' = sieve_invD [OF inv]
  let ?h = "(sv_heap S)(sv_next S := \<lparr>sn_key = key, sn_value = val, sn_visited = b\<rparr>)"
  let ?m = "AList.update key (sv_next S) (sv_map S)"
  let ?f = "\<lambda>h :: nat \<Rightarrow> sieve_node. \<lambda>x :: blk_key \<times> nat. length (sn_value (h (snd x)))"
  have old: "a \<noteq> sv_next S" if "(k, a) \<in> set (sv_map S)" for k a
    using inv'(4) [OF map_of_is_SomeI [OF inv'(1) that]] inv'(3) by blast
  have d: "distinct (map fst ?m)" using distinct_update [OF inv'(1)] .
  have mem: "a \<in> set (sv_nodes S @ [sv_next S]) \<and> sn_key (?h a) = k" if ka: "(k, a) \<in> set ?m" for k a
  proof (cases "k = key")
    case True
    with map_of_is_SomeI [OF d ka] have "a = sv_next S" by (simp add: update_conv')
    then show ?thesis using True by simp
  next
    case False
    with map_of_is_SomeI [OF d ka] have "map_of (sv_map S) k = Some a" by (simp add: update_conv')
    with inv'(4) [OF this] inv'(3) show ?thesis by fastforce
  qed
  define h where "h = ?h"
  have new: "sn_value (h (sv_next S)) = val" by (simp add: h_def)
  have same: "map (?f h) (sv_map S) = map (?f (sv_heap S)) (sv_map S)" using old by (fastforce simp: h_def)
  have cur: "sv_current_bytes S = sum_list (map (?f (sv_heap S)) (sv_map S))"
    using inv'(5) by (simp add: sieve_bytes_def case_prod_unfold)
  have "n = sum_list (map (?f h) ?m)"
  proof (cases "map_of (sv_map S) key")
    case None
    then show ?thesis
      unfolding sum_list_update_new [OF None] same using bytes cur by (simp add: new sieve_lookup_def)
  next
    case (Some a)
    then have "a \<noteq> sv_next S" using old map_of_SomeD by fast
    then have "sn_value (h a) = sn_value (sv_heap S a)" by (simp add: h_def)
    then show ?thesis
      unfolding sum_list_update_old [OF inv'(1) Some] same using bytes cur Some
      by (simp add: new sieve_lookup_def)
  qed
  then have "n = sum_list (map (?f ?h) ?m)" unfolding h_def .
  moreover have "distinct (sv_nodes S @ [sv_next S])" using inv'(2,3) by fastforce
  moreover have "\<forall>a \<in> set (sv_nodes S @ [sv_next S]). a < Suc (sv_next S)" using inv'(3) less_SucI by fastforce
  moreover have "\<forall>(k, a) \<in> set ?m. a \<in> set (sv_nodes S @ [sv_next S]) \<and> sn_key (?h a) = k" using mem by blast
  ultimately show ?thesis
    unfolding sieve_inv_def sieve_bytes_def sieve_push_def using d
    by (intro conjI) (simp_all add: case_prod_unfold)
qed

lemma sieve_insert_spec:
  assumes "sieve_inv S"
  shows "sieve_inv (sieve_insert key val S)"
    and "sieve_lookup (sieve_insert key val S) k = Some v \<Longrightarrow> ((sieve_lookup S)(key \<mapsto> val)) k = Some v"
    and "sieve_lookup S key = None \<Longrightarrow>
      sv_current_bytes (sieve_insert key val S) \<le> sv_capacity_bytes (sieve_insert key val S)"
proof -
  let ?P = "\<lambda>b n. (sieve_push key val b S)\<lparr>sv_current_bytes := n\<rparr>"
  have look: "sieve_lookup (?P b n) = (sieve_lookup S)(key \<mapsto> val)" for b n
    using sieve_push_lookup [OF assms, of key val b] by (simp add: sieve_lookup_def fun_eq_iff)
  have "sieve_inv (sieve_insert key val S) \<and>
      (sieve_lookup (sieve_insert key val S) k = Some v \<longrightarrow> ((sieve_lookup S)(key \<mapsto> val)) k = Some v) \<and>
      (sieve_lookup S key = None \<longrightarrow> \<not> sieve_full (sieve_insert key val S))"
  proof (cases "map_of (sv_map S) key")
    case None
    have "sieve_inv (?P False (sv_current_bytes S + length val))"
      by (rule sieve_push_inv [OF assms]) (simp add: sieve_lookup_def None)
    from sieve_evict_keeps [OF this, of k v] None look show ?thesis
      by (simp add: sieve_insert_def)
  next
    case (Some a)
    have "sieve_inv (?P True (sv_current_bytes S - length (sn_value (sv_heap S a)) + length val))"
      by (rule sieve_push_inv [OF assms]) (simp add: sieve_lookup_def Some)
    with look Some show ?thesis by (simp add: sieve_insert_def) (simp add: sieve_lookup_def)
  qed
  then show "sieve_inv (sieve_insert key val S)"
    and "sieve_lookup (sieve_insert key val S) k = Some v \<Longrightarrow> ((sieve_lookup S)(key \<mapsto> val)) k = Some v"
    and "sieve_lookup S key = None \<Longrightarrow>
      sv_current_bytes (sieve_insert key val S) \<le> sv_capacity_bytes (sieve_insert key val S)"
    by (blast intro: sieve_inv_bounded)+
qed

section \<open>LRU backend\<close>

text \<open>The operations of the \<open>lru\<close> crate that the backend calls, over its own cache type.\<close>

record 'c lru_crate =
  lru_unbounded :: 'c
  lru_get :: "blk_key \<Rightarrow> 'c \<Rightarrow> bytes option \<times> 'c"
  lru_put :: "blk_key \<Rightarrow> bytes \<Rightarrow> 'c \<Rightarrow> bytes option \<times> 'c"
  lru_pop :: "'c \<Rightarrow> (blk_key \<times> bytes) option \<times> 'c"
  lru_size :: "'c \<Rightarrow> nat"

text \<open>
  What the crate documents, with \<open>view\<close> the cache as an association list, most recently used
  first: \<open>get\<close> and \<open>put\<close> move the key to the front, \<open>put\<close> returns the value it replaces and
  \<open>pop_lru\<close> removes the entry at the back.
\<close>

definition lru_lawful :: "'c lru_crate \<Rightarrow> ('c \<Rightarrow> (blk_key \<times> bytes) list) \<Rightarrow> bool" where
  "lru_lawful L view \<longleftrightarrow>
     view (lru_unbounded L) = [] \<and>
     (\<forall>k c. fst (lru_get L k c) = map_of (view c) k) \<and>
     (\<forall>k c. view (snd (lru_get L k c)) =
        (case map_of (view c) k of None \<Rightarrow> view c | Some v \<Rightarrow> (k, v) # AList.delete k (view c))) \<and>
     (\<forall>k v c. fst (lru_put L k v c) = map_of (view c) k) \<and>
     (\<forall>k v c. view (snd (lru_put L k v c)) = (k, v) # AList.delete k (view c)) \<and>
     (\<forall>c. fst (lru_pop L c) = (if view c = [] then None else Some (last (view c)))) \<and>
     (\<forall>c. view (snd (lru_pop L c)) = butlast (view c)) \<and>
     (\<forall>c. lru_size L c = length (view c))"

record 'c lru_state =
  lb_cache :: 'c
  lb_current_bytes :: nat
  lb_capacity_bytes :: nat

definition lru_new :: "'c lru_crate \<Rightarrow> nat \<Rightarrow> 'c lru_state" where
  "lru_new L capacity_bytes =
     \<lparr>lb_cache = lru_unbounded L, lb_current_bytes = 0, lb_capacity_bytes = max capacity_bytes 1\<rparr>"

definition lru_backend_get :: "'c lru_crate \<Rightarrow> blk_key \<Rightarrow> 'c lru_state \<Rightarrow> bytes option \<times> 'c lru_state" where
  "lru_backend_get L key S = (case lru_get L key (lb_cache S) of (r, c) \<Rightarrow> (r, S\<lparr>lb_cache := c\<rparr>))"

text \<open>The eviction loop, with the number of cached blocks as fuel.\<close>

fun lru_evict :: "'c lru_crate \<Rightarrow> nat \<Rightarrow> 'c lru_state \<Rightarrow> 'c lru_state" where
  "lru_evict L 0 S = S"
| "lru_evict L (Suc n) S =
     (if lb_capacity_bytes S < lb_current_bytes S \<and> lru_size L (lb_cache S) \<noteq> 0
      then (case lru_pop L (lb_cache S) of
              (Some (k, popped), c) \<Rightarrow>
                lru_evict L n (S\<lparr>lb_cache := c, lb_current_bytes := lb_current_bytes S - length popped\<rparr>)
            | (None, c) \<Rightarrow> S\<lparr>lb_cache := c\<rparr>)
      else S)"

definition lru_backend_insert :: "'c lru_crate \<Rightarrow> blk_key \<Rightarrow> bytes \<Rightarrow> 'c lru_state \<Rightarrow> 'c lru_state" where
  "lru_backend_insert L key val S =
     (case lru_put L key val (lb_cache S) of
        (old, c) \<Rightarrow>
          let cur = (case old of Some v \<Rightarrow> lb_current_bytes S - length v | None \<Rightarrow> lb_current_bytes S);
              S = S\<lparr>lb_cache := c, lb_current_bytes := cur + length val\<rparr>
          in lru_evict L (lru_size L c) S)"

definition lru_lookup :: "('c \<Rightarrow> (blk_key \<times> bytes) list) \<Rightarrow> 'c lru_state \<Rightarrow> blk_key \<Rightarrow> bytes option" where
  "lru_lookup view S = map_of (view (lb_cache S))"

definition view_bytes :: "(blk_key \<times> bytes) list \<Rightarrow> nat" where
  "view_bytes xs = sum_list (map (\<lambda>x. length (snd x)) xs)"

definition lru_inv :: "('c \<Rightarrow> (blk_key \<times> bytes) list) \<Rightarrow> 'c lru_state \<Rightarrow> bool" where
  "lru_inv view S \<longleftrightarrow>
     distinct (map fst (view (lb_cache S))) \<and> lb_current_bytes S = view_bytes (view (lb_cache S))"

lemma lru_lawfulD:
  assumes "lru_lawful L view"
  shows "view (lru_unbounded L) = []" and "fst (lru_get L k c) = map_of (view c) k"
    and "view (snd (lru_get L k c)) =
      (case map_of (view c) k of None \<Rightarrow> view c | Some v \<Rightarrow> (k, v) # AList.delete k (view c))"
    and "fst (lru_put L k v c) = map_of (view c) k"
    and "view (snd (lru_put L k v c)) = (k, v) # AList.delete k (view c)"
    and "fst (lru_pop L c) = (if view c = [] then None else Some (last (view c)))"
    and "view (snd (lru_pop L c)) = butlast (view c)" and "lru_size L c = length (view c)"
  using assms unfolding lru_lawful_def by blast+

lemma view_bytes_move:
  assumes "distinct (map fst xs)" and "map_of xs k = Some v"
  shows "view_bytes xs = length v + view_bytes (AList.delete k xs)"
  unfolding view_bytes_def sum_list_delete [OF assms] by simp

lemma map_of_move: "map_of ((k, v) # AList.delete k xs) = (map_of xs)(k \<mapsto> v)"
  by (simp add: delete_conv' fun_eq_iff)

lemma distinct_move: "distinct (map fst xs) \<Longrightarrow> distinct (map fst ((k, v) # AList.delete k xs))"
  by (simp add: distinct_delete) (force simp: in_set_delete)

lemma view_snoc:
  assumes "distinct (map fst (xs @ [(k, v)]))"
  shows "view_bytes (xs @ [(k, v)]) - length v = view_bytes xs" and "map_of xs q = Some w \<Longrightarrow> map_of (xs @ [(k, v)]) q = Some w"
  by (simp_all add: view_bytes_def)

lemma lru_get_spec:
  assumes L: "lru_lawful L view" and inv: "lru_inv view S"
  shows "fst (lru_backend_get L k S) = lru_lookup view S k"
    and "lru_inv view (snd (lru_backend_get L k S))"
    and "lru_lookup view (snd (lru_backend_get L k S)) = lru_lookup view S"
proof -
  obtain r c where g: "lru_get L k (lb_cache S) = (r, c)" by fastforce
  have r: "r = map_of (view (lb_cache S)) k"
    and c: "view c = (case map_of (view (lb_cache S)) k of None \<Rightarrow> view (lb_cache S)
      | Some v \<Rightarrow> (k, v) # AList.delete k (view (lb_cache S)))"
    using lru_lawfulD(2,3) [OF L, of k "lb_cache S"] g by simp_all
  show "fst (lru_backend_get L k S) = lru_lookup view S k"
    by (simp add: lru_backend_get_def g lru_lookup_def r)
  show "lru_inv view (snd (lru_backend_get L k S))"
  proof (cases "map_of (view (lb_cache S)) k")
    case (Some v)
    then show ?thesis
      using inv distinct_move [of "view (lb_cache S)" k v] view_bytes_move [OF _ Some]
      by (simp add: lru_backend_get_def g lru_inv_def c) (simp add: view_bytes_def)
  qed (use inv in \<open>simp add: lru_backend_get_def g lru_inv_def c\<close>)
  show "lru_lookup view (snd (lru_backend_get L k S)) = lru_lookup view S"
    by (auto simp: lru_backend_get_def g lru_lookup_def c map_of_move simp del: map_of.simps split: option.split)
qed

lemma lru_evict_spec:
  assumes L: "lru_lawful L view" and "lru_inv view S" and "length (view (lb_cache S)) \<le> n"
  shows "lru_inv view (lru_evict L n S) \<and>
    (lru_lookup view (lru_evict L n S) k = Some v \<longrightarrow> lru_lookup view S k = Some v) \<and>
    lb_capacity_bytes (lru_evict L n S) = lb_capacity_bytes S \<and>
    lb_current_bytes (lru_evict L n S) \<le> lb_capacity_bytes (lru_evict L n S)"
  using assms(2,3)
proof (induction n arbitrary: S)
  case 0
  then show ?case by (simp add: lru_inv_def view_bytes_def)
next
  case (Suc n)
  show ?case
  proof (cases "lb_capacity_bytes S < lb_current_bytes S \<and> view (lb_cache S) \<noteq> []")
    case True
    then obtain xs q w where v: "view (lb_cache S) = xs @ [(q, w)]"
      by (metis append_butlast_last_id surj_pair)
    obtain c where p: "lru_pop L (lb_cache S) = (Some (q, w), c)" "view c = xs"
      using lru_lawfulD(6,7) [OF L, of "lb_cache S"] v by (metis butlast_snoc last_snoc prod.collapse snoc_eq_iff_butlast)
    let ?S = "S\<lparr>lb_cache := c, lb_current_bytes := lb_current_bytes S - length w\<rparr>"
    have d: "distinct (map fst (xs @ [(q, w)]))" using Suc.prems(1) v by (simp add: lru_inv_def)
    have inv: "lru_inv view ?S" using Suc.prems(1) v p(2) d view_snoc(1) [OF d] by (simp add: lru_inv_def)
    have "lru_evict L (Suc n) S = lru_evict L n ?S"
      using True p(1) lru_lawfulD(8) [OF L] by simp
    moreover have "lru_lookup view ?S k = Some v \<longrightarrow> lru_lookup view S k = Some v"
      using view_snoc(2) [OF d] p(2) v by (simp add: lru_lookup_def)
    ultimately show ?thesis using Suc.IH [OF inv] Suc.prems(2) v p(2) by simp
  next
    case False
    have "lru_evict L (Suc n) S = S" using False lru_lawfulD(8) [OF L] by auto
    then show ?thesis using False Suc.prems(1) by (auto simp: lru_inv_def view_bytes_def not_less)
  qed
qed

lemma lru_insert_spec:
  assumes L: "lru_lawful L view" and inv: "lru_inv view S"
  shows "lru_inv view (lru_backend_insert L key val S)"
    and "lru_lookup view (lru_backend_insert L key val S) k = Some v \<Longrightarrow>
      ((lru_lookup view S)(key \<mapsto> val)) k = Some v"
    and "lb_current_bytes (lru_backend_insert L key val S) \<le> lb_capacity_bytes S"
proof -
  let ?xs = "view (lb_cache S)"
  obtain old c where p: "lru_put L key val (lb_cache S) = (old, c)" by fastforce
  have old: "old = map_of ?xs key" and c: "view c = (key, val) # AList.delete key ?xs"
    using lru_lawfulD(4,5) [OF L, of key val "lb_cache S"] p by simp_all
  let ?cur = "case old of Some v \<Rightarrow> lb_current_bytes S - length v | None \<Rightarrow> lb_current_bytes S"
  let ?S = "S\<lparr>lb_cache := c, lb_current_bytes := ?cur + length val\<rparr>"
  have d: "distinct (map fst ?xs)" and b: "lb_current_bytes S = view_bytes ?xs"
    using inv by (simp_all add: lru_inv_def)
  have "?cur = view_bytes (AList.delete key ?xs)"
  proof (cases "map_of ?xs key")
    case None
    then have "AList.delete key ?xs = ?xs" by (simp add: map_of_eq_None_iff delete_absent)
    with None show ?thesis by (simp add: old b)
  next
    case (Some w)
    then show ?thesis using view_bytes_move [OF d Some] by (simp add: old b)
  qed
  then have inv': "lru_inv view ?S"
    using distinct_move [OF d, of key val] by (simp add: lru_inv_def c) (simp add: view_bytes_def)
  have ins: "lru_backend_insert L key val S = lru_evict L (length (view (lb_cache ?S))) ?S"
    by (simp add: lru_backend_insert_def p Let_def lru_lawfulD(8) [OF L])
  have look: "lru_lookup view ?S = (lru_lookup view S)(key \<mapsto> val)"
    unfolding lru_lookup_def using map_of_move [of key val ?xs] by (simp add: c)
  note ev = lru_evict_spec [OF L inv' order_refl, of k v, folded ins, unfolded look]
  show "lru_inv view (lru_backend_insert L key val S)"
    and "lru_lookup view (lru_backend_insert L key val S) k = Some v \<Longrightarrow>
      ((lru_lookup view S)(key \<mapsto> val)) k = Some v"
    and "lb_current_bytes (lru_backend_insert L key val S) \<le> lb_capacity_bytes S"
    using ev by (auto simp del: fun_upd_apply)
qed

section \<open>Interface of a backend and the sharded cache\<close>

text \<open>
  The contract of \<open>BlockCacheBackend\<close>: a cache may forget, but what it returns for a key is the
  value inserted last for that key.
\<close>

locale cache_backend =
  fixes binv :: "'s \<Rightarrow> bool"
    and lookup :: "'s \<Rightarrow> blk_key \<Rightarrow> bytes option"
    and bget :: "blk_key \<Rightarrow> 's \<Rightarrow> bytes option \<times> 's"
    and binsert :: "blk_key \<Rightarrow> bytes \<Rightarrow> 's \<Rightarrow> 's"
  assumes get_value: "binv s \<Longrightarrow> fst (bget k s) = lookup s k"
    and get_inv: "binv s \<Longrightarrow> binv (snd (bget k s))"
    and get_lookup: "binv s \<Longrightarrow> lookup (snd (bget k s)) = lookup s"
    and insert_inv: "binv s \<Longrightarrow> binv (binsert k v s)"
    and insert_lookup: "binv s \<Longrightarrow> lookup (binsert k v s) q = Some w \<Longrightarrow> ((lookup s)(k \<mapsto> v)) q = Some w"

interpretation sieve: cache_backend sieve_inv sieve_lookup sieve_get sieve_insert
  by unfold_locales (simp_all only: sieve_get_spec sieve_insert_spec(1), erule (1) sieve_insert_spec(2))

lemma lru_cache_backend:
  assumes "lru_lawful L view"
  shows "cache_backend (lru_inv view) (lru_lookup view) (lru_backend_get L) (lru_backend_insert L)"
  by unfold_locales
    (simp_all only: lru_get_spec [OF assms] lru_insert_spec(1) [OF assms], erule (1) lru_insert_spec(2) [OF assms])

definition BLOCK_CACHE_SHARDS :: nat where "BLOCK_CACHE_SHARDS = 64"

text \<open>The sharded cache over the constructor and the operations of a backend; \<open>hash\<close> is its \<open>RandomState\<close>.\<close>

definition new_with_shards :: "(nat \<Rightarrow> 's) \<Rightarrow> nat \<Rightarrow> nat \<Rightarrow> 's list" where
  "new_with_shards bnew capacity_per_shard num_shards =
     replicate (max num_shards 1) (bnew (max capacity_per_shard 1))"

definition bc_shard_idx :: "(blk_key \<Rightarrow> u64) \<Rightarrow> 's list \<Rightarrow> blk_key \<Rightarrow> nat" where
  "bc_shard_idx hash shards k = unat (hash k) mod length shards"

definition bc_get ::
    "(blk_key \<Rightarrow> 's \<Rightarrow> bytes option \<times> 's) \<Rightarrow> (blk_key \<Rightarrow> u64) \<Rightarrow> blk_key \<Rightarrow> 's list \<Rightarrow> bytes option \<times> 's list" where
  "bc_get bget hash k shards =
     (let i = bc_shard_idx hash shards k
      in case bget k (shards ! i) of (r, s) \<Rightarrow> (r, shards[i := s]))"

definition bc_insert ::
    "(blk_key \<Rightarrow> bytes \<Rightarrow> 's \<Rightarrow> 's) \<Rightarrow> (blk_key \<Rightarrow> u64) \<Rightarrow> blk_key \<Rightarrow> bytes \<Rightarrow> 's list \<Rightarrow> 's list" where
  "bc_insert binsert hash k v shards =
     (let i = bc_shard_idx hash shards k in shards[i := binsert k v (shards ! i)])"

definition create_block_cache_with_shards :: "(nat \<Rightarrow> 's) \<Rightarrow> nat \<Rightarrow> nat \<Rightarrow> 's list" where
  "create_block_cache_with_shards bnew capacity_mb num_shards =
     (let num_shards = max num_shards 1;
          total_bytes = min (max (min (capacity_mb * (1024 * 1024)) (2 ^ 64 - 1)) (512 * 1024 * 1024))
                          (8 * 1024 * 1024 * 1024);
          per_shard_bytes = max (total_bytes div num_shards) (64 * 1024)
      in new_with_shards bnew per_shard_bytes num_shards)"

definition bc_lookup :: "('s \<Rightarrow> blk_key \<Rightarrow> bytes option) \<Rightarrow> (blk_key \<Rightarrow> u64) \<Rightarrow> 's list \<Rightarrow> blk_key \<Rightarrow> bytes option" where
  "bc_lookup lookup hash shards k = lookup (shards ! bc_shard_idx hash shards k) k"

definition bc_inv :: "('s \<Rightarrow> bool) \<Rightarrow> 's list \<Rightarrow> bool" where
  "bc_inv binv shards \<longleftrightarrow> shards \<noteq> [] \<and> (\<forall>s \<in> set shards. binv s)"

lemma bc_shard_idx_less: "shards \<noteq> [] \<Longrightarrow> bc_shard_idx hash shards k < length shards"
  by (simp add: bc_shard_idx_def)

lemma bc_shard_idx_update [simp]: "bc_shard_idx hash (shards[i := s]) k = bc_shard_idx hash shards k"
  by (simp add: bc_shard_idx_def)

lemma bc_inv_update: "bc_inv binv shards \<Longrightarrow> binv s \<Longrightarrow> bc_inv binv (shards[i := s])"
  using set_update_subset_insert [of shards i s] by (auto simp: bc_inv_def)

section \<open>Block reads through the cache\<close>

text \<open>
  \<open>get_block\<close> with the cache in front of the file, over the operations of the cache; a request is
  a reader with its file id and a block number.
\<close>

definition get_block_cached ::
    "(bytes \<Rightarrow> u32) \<Rightarrow> (blk_key \<Rightarrow> 'c \<Rightarrow> bytes option \<times> 'c) \<Rightarrow> (blk_key \<Rightarrow> bytes \<Rightarrow> 'c \<Rightarrow> 'c) \<Rightarrow>
     u64 \<times> sst_reader \<times> nat \<Rightarrow> 'c \<Rightarrow> bytes res \<times> 'c" where
  "get_block_cached crc32 cget cinsert q cache =
     (case q of (file_id, R, idx) \<Rightarrow>
        let key = (file_id, snd (rd_index R ! idx))
        in case cget key cache of
             (Some cached, cache) \<Rightarrow> (Inr cached, cache)
           | (None, cache) \<Rightarrow>
               (case get_block crc32 R idx of
                  Inl e \<Rightarrow> (Inl e, cache)
                | Inr block \<Rightarrow> (Inr block, cinsert key block cache)))"

fun cached_reads ::
    "(bytes \<Rightarrow> u32) \<Rightarrow> (blk_key \<Rightarrow> 'c \<Rightarrow> bytes option \<times> 'c) \<Rightarrow> (blk_key \<Rightarrow> bytes \<Rightarrow> 'c \<Rightarrow> 'c) \<Rightarrow>
     (u64 \<times> sst_reader \<times> nat) list \<Rightarrow> 'c \<Rightarrow> bytes res list \<times> 'c" where
  "cached_reads crc32 cget cinsert [] cache = ([], cache)"
| "cached_reads crc32 cget cinsert (q # qs) cache =
     (case get_block_cached crc32 cget cinsert q cache of
        (r, cache) \<Rightarrow> (case cached_reads crc32 cget cinsert qs cache of (rs, cache) \<Rightarrow> (r # rs, cache)))"

fun request_key :: "u64 \<times> sst_reader \<times> nat \<Rightarrow> blk_key" where
  "request_key (file_id, R, idx) = (file_id, snd (rd_index R ! idx))"

fun request_block :: "(bytes \<Rightarrow> u32) \<Rightarrow> u64 \<times> sst_reader \<times> nat \<Rightarrow> bytes res" where
  "request_block crc32 (file_id, R, idx) = get_block crc32 R idx"

text \<open>The sharded cache satisfies the contract its backend satisfies.\<close>

context cache_backend
begin

lemma sharded:
  "cache_backend (bc_inv binv) (bc_lookup lookup hash) (bc_get bget hash) (bc_insert binsert hash)"
proof unfold_locales
  fix s :: "'s list" and k q v w
  assume I: "bc_inv binv s"
  let ?i = "bc_shard_idx hash s k"
  have i: "?i < length s" "binv (s ! ?i)"
    using I bc_shard_idx_less [of s hash k] by (auto simp: bc_inv_def)
  show "fst (bc_get bget hash k s) = bc_lookup lookup hash s k"
    using get_value [OF i(2), of k] by (simp add: bc_get_def bc_lookup_def Let_def split_beta)
  show "bc_inv binv (snd (bc_get bget hash k s))"
    using bc_inv_update [OF I get_inv [OF i(2)]] by (simp add: bc_get_def Let_def split_beta)
  show "bc_lookup lookup hash (snd (bc_get bget hash k s)) = bc_lookup lookup hash s"
    using get_lookup [OF i(2), of k] i(1)
    by (auto simp: bc_get_def Let_def split_beta bc_lookup_def fun_eq_iff nth_list_update)
  show "bc_inv binv (bc_insert binsert hash k v s)"
    using bc_inv_update [OF I insert_inv [OF i(2)]] by (simp add: bc_insert_def Let_def)
  assume "bc_lookup lookup hash (bc_insert binsert hash k v s) q = Some w"
  then show "((bc_lookup lookup hash s)(k \<mapsto> v)) q = Some w"
    using insert_lookup [OF i(2), of k v q w] i(1)
    by (cases "bc_shard_idx hash s q = ?i")
      (auto simp: bc_insert_def Let_def bc_lookup_def nth_list_update split: if_splits)
qed

definition coherent :: "(bytes \<Rightarrow> u32) \<Rightarrow> (u64 \<times> sst_reader \<times> nat) set \<Rightarrow> 's \<Rightarrow> bool" where
  "coherent crc32 Q c \<longleftrightarrow> (\<forall>q \<in> Q. \<forall>b. lookup c (request_key q) = Some b \<longrightarrow> request_block crc32 q = Inr b)"

lemma get_block_cached_correct:
  assumes I: "binv c" and coh: "coherent crc32 Q c" and q: "q \<in> Q" and inj: "inj_on request_key Q"
    and res: "get_block_cached crc32 bget binsert q c = (r, c')"
  shows "r = request_block crc32 q \<and> binv c' \<and> coherent crc32 Q c'"
proof -
  let ?c = "snd (bget (request_key q) c)" and ?r = "fst (bget (request_key q) c)"
  have r: "?r = lookup c (request_key q)" and I': "binv ?c" and look: "lookup ?c = lookup c"
    using get_value [OF I] get_inv [OF I] get_lookup [OF I] by simp_all
  have coh': "coherent crc32 Q ?c" using coh look by (simp add: coherent_def)
  have ins: "coherent crc32 Q (binsert (request_key q) b ?c)" if b: "request_block crc32 q = Inr b" for b
    unfolding coherent_def
  proof (intro ballI allI impI)
    fix p w assume p: "p \<in> Q" "lookup (binsert (request_key q) b ?c) (request_key p) = Some w"
    show "request_block crc32 p = Inr w"
    proof (cases "request_key p = request_key q")
      case True
      then have "p = q" using inj p(1) q by (meson inj_onD)
      then show ?thesis using insert_lookup [OF I' p(2)] b by simp
    next
      case False
      then have "lookup ?c (request_key p) = Some w" using insert_lookup [OF I' p(2)] by simp
      then show ?thesis using coh' p(1) by (simp add: coherent_def)
    qed
  qed
  have unf: "get_block_cached crc32 bget binsert q c =
      (case ?r of Some cached \<Rightarrow> (Inr cached, ?c)
       | None \<Rightarrow> (case request_block crc32 q of Inl e \<Rightarrow> (Inl e, ?c)
           | Inr block \<Rightarrow> (Inr block, binsert (request_key q) block ?c)))"
    by (cases q) (auto simp: get_block_cached_def Let_def split: prod.splits option.splits sum.splits)
  show ?thesis
  proof (cases ?r)
    case (Some b)
    then have "request_block crc32 q = Inr b" using coh q r by (simp add: coherent_def)
    then show ?thesis using res unf Some I' coh' by simp
  next
    case None
    then show ?thesis
      using res unf I' coh' ins insert_inv [OF I', of "request_key q"] by (cases "request_block crc32 q") auto
  qed
qed

lemma cached_reads_transparent:
  assumes "binv c" and "coherent crc32 Q c" and "set qs \<subseteq> Q" and "inj_on request_key Q"
  shows "fst (cached_reads crc32 bget binsert qs c) = map (request_block crc32) qs"
  using assms
proof (induction qs arbitrary: c)
  case (Cons q qs)
  obtain r c' where g: "get_block_cached crc32 bget binsert q c = (r, c')" by fastforce
  from get_block_cached_correct [OF Cons.prems(1,2) _ Cons.prems(4) g] Cons.prems(3)
  have "r = request_block crc32 q" "binv c'" "coherent crc32 Q c'" by auto
  with Cons.IH [OF this(2,3)] Cons.prems(3,4) g show ?case by (simp add: split_beta)
qed simp

end

interpretation sieve_cache: cache_backend "bc_inv sieve_inv" "bc_lookup sieve_lookup hash"
    "bc_get sieve_get hash" "bc_insert sieve_insert hash" for hash
  by (rule sieve.sharded)

section \<open>Properties\<close>

text \<open>A reachable SIEVE cache, with the value inserted last for each key.\<close>

inductive sieve_reach :: "(blk_key \<Rightarrow> bytes option) \<Rightarrow> sieve_state \<Rightarrow> bool" where
  sieve_start: "sieve_reach (\<lambda>_. None) (sieve_new capacity)"
| sieve_read: "sieve_reach m S \<Longrightarrow> sieve_reach m (snd (sieve_get k S))"
| sieve_write: "sieve_reach m S \<Longrightarrow> sieve_reach (m(k \<mapsto> v)) (sieve_insert k v S)"

lemma sieve_reach_inv:
  assumes "sieve_reach m S"
  shows "sieve_inv S \<and> (\<forall>k v. sieve_lookup S k = Some v \<longrightarrow> m k = Some v)"
  using assms
proof induction
  case (sieve_start capacity)
  then show ?case by (simp add: sieve_new_def sieve_inv_def sieve_bytes_def sieve_lookup_def)
next
  case (sieve_read m S k)
  then show ?case by (simp add: sieve_get_spec)
next
  case (sieve_write m S k v)
  then show ?case using sieve_insert_spec [of S k v] by (metis fun_upd_apply)
qed

text \<open>
  C22. The SIEVE cache never returns stale data and accounts exactly: in every reachable state a
  hit is the value inserted last for the key, the byte counter is the size of the cached blocks,
  and inserting a block that is not cached leaves the counter within the capacity.
\<close>
theorem sieve_cache_correct:
  assumes "sieve_reach m S"
  shows "(\<forall>v. fst (sieve_get k S) = Some v \<longrightarrow> m k = Some v) \<and>
    sv_current_bytes S = (\<Sum>(k, a)\<leftarrow>sv_map S. length (sn_value (sv_heap S a))) \<and>
    (fst (sieve_get k S) = None \<longrightarrow>
       sv_current_bytes (sieve_insert k v S) \<le> sv_capacity_bytes (sieve_insert k v S))"
  unfolding sieve_get_spec(1) sieve_bytes_def [symmetric]
  using sieve_reach_inv [OF assms] sieve_invD(5) [of S] sieve_insert_spec(3) [of S k v] by blast

theorem sieve_cache_correct_witness:
  "sv_current_bytes (sieve_insert (1, 2) [7] (sieve_insert (1, 1) [5, 6] (sieve_new 2))) \<le>
   sv_capacity_bytes (sieve_insert (1, 2) [7] (sieve_insert (1, 1) [5, 6] (sieve_new 2)))"
proof -
  have "sieve_reach (Map.empty((1, 1) \<mapsto> [5, 6])) (sieve_insert (1, 1) [5, 6] (sieve_new 2))"
    by (intro sieve_write sieve_start)
  from sieve_cache_correct [OF this, of "(1, 2)" "[7]"] show ?thesis
    by (simp add: sieve_get_spec(1) sieve_lookup_def sieve_insert_def sieve_new_def sieve_push_def
        sieve_evict.simps sieve_full_def)
qed

lemma new_with_shards_fresh:
  assumes "cache_backend binv lookup bget binsert" and "binv (bnew (max c 1))"
    and "\<And>k. lookup (bnew (max c 1)) k = None"
  shows "bc_inv binv (new_with_shards bnew c n)"
    and "bc_lookup lookup hash (new_with_shards bnew c n) k = None"
proof -
  have "new_with_shards bnew c n \<noteq> []" by (simp add: new_with_shards_def)
  from bc_shard_idx_less [OF this, of hash k] assms(2,3)
  show "bc_inv binv (new_with_shards bnew c n)"
    and "bc_lookup lookup hash (new_with_shards bnew c n) k = None"
    by (simp_all add: bc_inv_def bc_lookup_def new_with_shards_def)
qed

text \<open>
  C21. The block cache is transparent: for every sequence of block reads, with any sharding hash,
  the sharded LRU cache returns what reading, decrypting and verifying the file would, as long as
  a file id and an offset name one block.
\<close>
theorem block_cache_transparent:
  assumes L: "lru_lawful L view" and inj: "inj_on request_key (set qs)"
  shows "fst (cached_reads crc32 (bc_get (lru_backend_get L) hash) (bc_insert (lru_backend_insert L) hash) qs
      (create_block_cache_with_shards (lru_new L) capacity_mb num_shards)) = map (request_block crc32) qs"
proof -
  note B = lru_cache_backend [OF L]
  note S = cache_backend.sharded [OF B, of hash]
  let ?C = "create_block_cache_with_shards (lru_new L) capacity_mb num_shards"
  have new: "lru_inv view (lru_new L c)" "lru_lookup view (lru_new L c) k = None" for c k
    using lru_lawfulD(1) [OF L] by (simp_all add: lru_inv_def lru_lookup_def lru_new_def view_bytes_def)
  obtain c n where C: "?C = new_with_shards (lru_new L) c n"
    by (simp add: create_block_cache_with_shards_def Let_def)
  have "bc_inv (lru_inv view) ?C" and "bc_lookup (lru_lookup view) hash ?C k = None" for k
    unfolding C using new_with_shards_fresh [OF B new(1,2)] by simp_all
  then show ?thesis
    by (intro cache_backend.cached_reads_transparent [OF S, where Q = "set qs"])
      (simp_all add: cache_backend.coherent_def [OF S] inj)
qed

text \<open>The recency list itself is a lawful crate.\<close>

definition lru_list :: "(blk_key \<times> bytes) list lru_crate" where
  "lru_list = \<lparr>lru_unbounded = [],
     lru_get = (\<lambda>k c. case map_of c k of None \<Rightarrow> (None, c) | Some v \<Rightarrow> (Some v, (k, v) # AList.delete k c)),
     lru_put = (\<lambda>k v c. (map_of c k, (k, v) # AList.delete k c)),
     lru_pop = (\<lambda>c. (if c = [] then None else Some (last c), butlast c)),
     lru_size = length\<rparr>"

lemma lru_list_lawful: "lru_lawful lru_list (\<lambda>c. c)"
  by (simp add: lru_lawful_def lru_list_def split: option.split)

theorem block_cache_transparent_witness:
  "fst (cached_reads (\<lambda>_. 0) (bc_get (lru_backend_get lru_list) (\<lambda>_. 5)) (bc_insert (lru_backend_insert lru_list) (\<lambda>_. 5))
     (let q = (1, \<lparr>rd_file = [4, 5, 6], rd_index = [([1], 1)], rd_metadata =
        \<lparr>sm_first_key = [], sm_last_key = [1], sm_file_size = 3, sm_min_tx_id = 0, sm_max_tx_id = 0,
         sm_min_seq = 0, sm_max_seq = 0\<rparr>, rd_index_offset = 3, rd_km = None, rd_bloom = None, rd_has_crc = False\<rparr>, 0) in [q, q])
     (create_block_cache_with_shards (lru_new lru_list) 1 4)) = [Inr [5, 6], Inr [5, 6]]"
  by (subst block_cache_transparent [OF lru_list_lawful])
    (simp_all add: Let_def get_slice_def get_block_def read_block_at_file_def next_block_offset_def pread_exact_def decode_block_def)

end
