(* ===== verification/Text_Codec.thy ===== *)
theory Text_Codec
  imports Types
begin

text \<open>
  What the codecs use of the standard library: integers at an offset of a buffer, decimal printing
  and parsing of \<open>u64\<close>, the UTF-8 check, and the last component of a path, with the round trip of
  decimal text.
\<close>

section \<open>Integers at an offset\<close>

definition u32_at :: "bytes \<Rightarrow> nat \<Rightarrow> nat" where
  "u32_at bs off = unat (u32_of_le (take 4 (drop off bs)))"

definition u64_at :: "bytes \<Rightarrow> nat \<Rightarrow> u64" where
  "u64_at bs off = u64_of_le (take 8 (drop off bs))"

lemma u32_at_append: "length xs = n \<Longrightarrow> u32_at (xs @ u32_le w @ ys) n = unat w"
  by (simp add: u32_at_def)

lemma u64_at_append: "length xs = n \<Longrightarrow> u64_at (xs @ u64_le w @ ys) n = w"
  by (simp add: u64_at_def)

lemma u32_at_take: "off + 4 \<le> length (take j bs) \<Longrightarrow> u32_at (take j bs) off = u32_at bs off"
  by (simp add: u32_at_def drop_take min_def split: if_splits)

section \<open>Decimal text\<close>

function dec :: "nat \<Rightarrow> bytes" where
  "dec n = (if n < 10 then [48 + of_nat n] else dec (n div 10) @ [48 + of_nat (n mod 10)])"
  by auto
termination by (relation "measure id") auto

declare dec.simps [simp del]

definition show_u64 :: "u64 \<Rightarrow> bytes" where
  "show_u64 w = dec (unat w)"

definition is_digit :: "u8 \<Rightarrow> bool" where
  "is_digit b \<longleftrightarrow> 48 \<le> b \<and> b \<le> 57"

fun parse_digits :: "nat \<Rightarrow> bytes \<Rightarrow> nat option" where
  "parse_digits acc [] = Some acc"
| "parse_digits acc (b # bs) = (if is_digit b then parse_digits (acc * 10 + (unat b - 48)) bs else None)"

text \<open>\<open>str::parse::<u64>\<close>: an optional plus sign, at least one digit, no overflow.\<close>

definition parse_u64 :: "bytes \<Rightarrow> u64 option" where
  "parse_u64 s =
     (let ds = (case s of b # bs \<Rightarrow> if b = 43 \<and> bs \<noteq> [] then bs else s | [] \<Rightarrow> [])
      in if ds = [] then None
         else case parse_digits 0 ds of
                Some n \<Rightarrow> if n < 2 ^ 64 then Some (of_nat n) else None
              | None \<Rightarrow> None)"

definition in_range :: "u8 \<Rightarrow> u8 \<Rightarrow> u8 \<Rightarrow> bool" where
  "in_range lo hi b \<longleftrightarrow> lo \<le> b \<and> b \<le> hi"

text \<open>\<open>std::str::from_utf8\<close>: the well-formed byte sequences of the Unicode standard.\<close>

fun utf8_valid :: "bytes \<Rightarrow> bool" where
  "utf8_valid [] = True"
| "utf8_valid (b # bs) =
     (if b < 128 then utf8_valid bs
      else if in_range 0xC2 0xDF b then (case bs of c # r \<Rightarrow> in_range 0x80 0xBF c \<and> utf8_valid r | _ \<Rightarrow> False)
      else if in_range 0xE0 0xEF b
      then (case bs of
              c # d # r \<Rightarrow> in_range (if b = 0xE0 then 0xA0 else 0x80) (if b = 0xED then 0x9F else 0xBF) c \<and>
                in_range 0x80 0xBF d \<and> utf8_valid r
            | _ \<Rightarrow> False)
      else if in_range 0xF0 0xF4 b
      then (case bs of
              c # d # e # r \<Rightarrow> in_range (if b = 0xF0 then 0x90 else 0x80) (if b = 0xF4 then 0x8F else 0xBF) c \<and>
                in_range 0x80 0xBF d \<and> in_range 0x80 0xBF e \<and> utf8_valid r
            | _ \<Rightarrow> False)
      else False)"

section \<open>Decimal round trip\<close>

lemma digit_word:
  assumes "n < 10"
  shows "is_digit (48 + of_nat n)" and "unat (48 + of_nat n :: u8) = 48 + n"
proof -
  have "unat (of_nat n :: u8) = n" using assms by (simp add: unat_of_nat)
  then show u: "unat (48 + of_nat n :: u8) = 48 + n"
    using assms by (subst unat_add_lem [THEN iffD1]) auto
  show "is_digit (48 + of_nat n)" using u assms by (simp add: is_digit_def word_le_nat_alt)
qed

lemma dec_digits: "b \<in> set (dec n) \<Longrightarrow> is_digit b"
proof (induction n rule: dec.induct)
  case (1 n)
  show ?case using "1.prems" "1.IH" digit_word(1) [of n] digit_word(1) [of "n mod 10"]
    by (subst (asm) dec.simps) (auto split: if_splits)
qed

lemma dec_nonempty: "dec n \<noteq> []"
  by (subst dec.simps) simp

lemma parse_digits_append:
  "parse_digits acc (xs @ ys) = (case parse_digits acc xs of None \<Rightarrow> None | Some a \<Rightarrow> parse_digits a ys)"
  by (induction acc xs rule: parse_digits.induct) auto

lemma parse_dec: "parse_digits 0 (dec n) = Some n"
proof (induction n rule: dec.induct)
  case (1 n)
  show ?case
  proof (cases "n < 10")
    case True
    then show ?thesis using digit_word [of n] by (subst dec.simps) simp
  next
    case False
    then show ?thesis using "1.IH" digit_word [of "n mod 10"]
      by (subst dec.simps) (simp add: parse_digits_append)
  qed
qed

lemma parse_show_u64: "parse_u64 (show_u64 w) = Some w"
proof -
  obtain b bs where d: "dec (unat w) = b # bs" using dec_nonempty by (cases "dec (unat w)") auto
  then have "b \<noteq> 43" using dec_digits [of b "unat w"] by (auto simp: is_digit_def)
  then show ?thesis
    using d parse_dec [of "unat w"] unsigned_less [of w, where ?'a = nat] by (simp add: parse_u64_def show_u64_def Let_def)
qed

lemma show_u64_no_colon: "58 \<notin> set (show_u64 w)"
  using dec_digits [of 58 "unat w"] by (auto simp: show_u64_def is_digit_def)

lemma show_u64_inj: "show_u64 v = show_u64 w \<longleftrightarrow> v = w"
  using parse_show_u64 by (metis option.inject)

lemma digit_ascii: "is_digit b \<Longrightarrow> b < 128"
  unfolding is_digit_def by (rule order.strict_trans1 [of _ 57]) auto

lemma utf8_ascii: "\<forall>b \<in> set bs. b < 128 \<Longrightarrow> utf8_valid (bs @ rest) = utf8_valid rest"
  by (induction bs) auto

lemma show_u64_ascii: "\<forall>b \<in> set (show_u64 w). b < 128"
  using dec_digits digit_ascii by (auto simp: show_u64_def)

lemma takeWhile_field: "58 \<notin> set xs \<Longrightarrow> takeWhile (\<lambda>b. b \<noteq> 58) (xs @ 58 # ys) = xs"
  by (induction xs) auto

lemma field_split: "58 \<notin> set xs \<Longrightarrow> 58 \<notin> set ys \<Longrightarrow> xs @ 58 # a = ys @ 58 # b \<Longrightarrow> xs = ys \<and> a = b"
  using takeWhile_field [of xs a] takeWhile_field [of ys b] by auto

lemma starts_with_iff: "starts_with p k \<longleftrightarrow> (\<exists>r. k = p @ r)"
  unfolding starts_with_def by (metis append_eq_conv_conj)

lemma starts_with_same: "starts_with (p @ q) (p @ k) \<longleftrightarrow> starts_with q k"
  by (simp add: starts_with_def)

section \<open>Paths\<close>

text \<open>
  A path as its UTF-8 bytes. \<open>Path::file_name\<close> is the last component after empty and \<open>.\<close>
  components are dropped, unless that is \<open>..\<close>.
\<close>

type_synonym path = bytes

fun split_slash :: "bytes \<Rightarrow> bytes list" where
  "split_slash [] = [[]]"
| "split_slash (b # bs) =
     (if b = 47 then [] # split_slash bs
      else case split_slash bs of c # cs \<Rightarrow> (b # c) # cs | [] \<Rightarrow> [[b]])"

definition path_components :: "path \<Rightarrow> bytes list" where
  "path_components p = filter (\<lambda>c. c \<noteq> [] \<and> c \<noteq> [46]) (split_slash p)"

definition file_name :: "path \<Rightarrow> bytes option" where
  "file_name p =
     (let cs = path_components p
      in if cs = [] \<or> last cs = [46, 46] then None else Some (last cs))"

end
