(* ===== verification/Tenant_Codec.thy ===== *)
theory Tenant_Codec
  imports Text_Codec
begin

text \<open>
  The key encoding of \<open>crates/contextra-store/src/tenant_codec.rs\<close> with \<open>TenantId::try_new\<close> of
  \<open>crates/contextra-types\<close>, the decode round trip and the isolation of tenants and collections
  under prefix scans.
\<close>

section \<open>Codec\<close>

type_synonym tenant_id = u64
type_synonym collection_id = u64

definition tenant_try_new :: "u64 \<Rightarrow> tenant_id res" where
  "tenant_try_new n =
     (if n = 0 then Inl (InvalidInput ''TenantId(0) is reserved for TenantId::SYSTEM'') else Inr n)"

record tenant_key_codec =
  tkc_tenant_id :: tenant_id
  tkc_scan_prefix_cache :: bytes

text \<open>The literals \<open>t:\<close>, \<open>:\<close>, \<open>:chunk:\<close> and \<open>:graph:\<close> of the format strings.\<close>

definition lit_t :: bytes where "lit_t = [116, 58]"
definition lit_chunk :: bytes where "lit_chunk = [58, 99, 104, 117, 110, 107, 58]"
definition lit_graph :: bytes where "lit_graph = [58, 103, 114, 97, 112, 104, 58]"

definition tenant_codec_new :: "tenant_id \<Rightarrow> tenant_key_codec" where
  "tenant_codec_new t = \<lparr>tkc_tenant_id = t, tkc_scan_prefix_cache = lit_t @ show_u64 t @ [58]\<rparr>"

definition encode_chunk_key :: "tenant_key_codec \<Rightarrow> collection_id \<Rightarrow> doc_id \<Rightarrow> bytes" where
  "encode_chunk_key C col doc =
     lit_t @ show_u64 (tkc_tenant_id C) @ [58] @ show_u64 col @ lit_chunk @ show_u64 doc"

definition encode_graph_key :: "tenant_key_codec \<Rightarrow> collection_id \<Rightarrow> u64 \<Rightarrow> bytes" where
  "encode_graph_key C col entity =
     lit_t @ show_u64 (tkc_tenant_id C) @ [58] @ show_u64 col @ lit_graph @ show_u64 entity"

definition tenant_scan_prefix :: "tenant_key_codec \<Rightarrow> bytes" where
  "tenant_scan_prefix C = tkc_scan_prefix_cache C"

definition collection_prefix :: "tenant_key_codec \<Rightarrow> collection_id \<Rightarrow> bytes" where
  "collection_prefix C col = lit_t @ show_u64 (tkc_tenant_id C) @ [58] @ show_u64 col @ [58]"

definition decode_tenant_id :: "bytes \<Rightarrow> tenant_id option" where
  "decode_tenant_id key =
     (if \<not> utf8_valid key \<or> \<not> starts_with lit_t key then None
      else let rest = drop (length lit_t) key
           in if 58 \<notin> set rest then None
              else case parse_u64 (takeWhile (\<lambda>b. b \<noteq> 58) rest) of
                     None \<Rightarrow> None
                   | Some n \<Rightarrow> if n = 0 then None else Some n)"

section \<open>Properties\<close>

text \<open>
  Tenant keys decode: for every tenant \<open>try_new\<close> accepts, both kinds of encoded key decode to
  that tenant, whatever the collection, document and entity.
\<close>
theorem tenant_key_roundtrip:
  assumes "tenant_try_new n = Inr t"
  shows "decode_tenant_id (encode_chunk_key (tenant_codec_new t) col doc) = Some t \<and>
    decode_tenant_id (encode_graph_key (tenant_codec_new t) col entity) = Some t"
proof -
  have t: "t \<noteq> 0" using assms by (auto simp: tenant_try_new_def split: if_splits)
  have "decode_tenant_id (lit_t @ show_u64 t @ 58 # rest) = Some t" if "\<forall>b \<in> set rest. b < 128" for rest
  proof -
    have "utf8_valid (lit_t @ show_u64 t @ 58 # rest)"
      using utf8_ascii [of "lit_t @ show_u64 t @ 58 # rest" "[]"] that show_u64_ascii
      by (auto simp: lit_t_def)
    then show ?thesis
      using t takeWhile_field [OF show_u64_no_colon, of t rest] parse_show_u64
      by (simp add: decode_tenant_id_def starts_with_def lit_t_def)
  qed
  moreover have "\<forall>b \<in> set (show_u64 col @ lit_chunk @ show_u64 doc). b < 128"
    and "\<forall>b \<in> set (show_u64 col @ lit_graph @ show_u64 entity). b < 128"
    using show_u64_ascii by (auto simp: lit_chunk_def lit_graph_def)
  ultimately show ?thesis by (simp add: encode_chunk_key_def encode_graph_key_def tenant_codec_new_def)
qed

theorem tenant_key_roundtrip_witness:
  "decode_tenant_id (encode_chunk_key (tenant_codec_new 7) 42 99) = Some 7"
  using tenant_key_roundtrip [of 7 7 42 99 0] by (simp add: tenant_try_new_def)

lemma starts_with_field:
  "starts_with (show_u64 a @ 58 # p) (show_u64 b @ 58 # k) \<longleftrightarrow> a = b \<and> starts_with p k"
proof
  assume "starts_with (show_u64 a @ 58 # p) (show_u64 b @ 58 # k)"
  then obtain r where "show_u64 b @ 58 # k = show_u64 a @ 58 # (p @ r)"
    unfolding starts_with_iff by (metis append.assoc append_Cons)
  from field_split [OF show_u64_no_colon show_u64_no_colon this]
  show "a = b \<and> starts_with p k" unfolding show_u64_inj starts_with_iff by blast
next
  assume "a = b \<and> starts_with p k"
  then show "starts_with (show_u64 a @ 58 # p) (show_u64 b @ 58 # k)"
    using starts_with_same [of "show_u64 a @ [58]" p k] by simp
qed

text \<open>
  C24. Isolation of tenants and collections (INV-TENANT-2): a key matches the scan prefix of a tenant
  exactly when it was encoded for that tenant, and the prefix of a collection exactly when it was
  encoded for that collection of that tenant, for both kinds of key; a scan can therefore not leak
  keys of tenant 12 to tenant 1.
\<close>
theorem tenant_prefix_isolation:
  "(starts_with (tenant_scan_prefix (tenant_codec_new a)) (encode_chunk_key (tenant_codec_new b) col doc) \<longleftrightarrow> a = b) \<and>
   (starts_with (tenant_scan_prefix (tenant_codec_new a)) (encode_graph_key (tenant_codec_new b) col entity) \<longleftrightarrow> a = b) \<and>
   (starts_with (collection_prefix (tenant_codec_new a) c) (encode_chunk_key (tenant_codec_new b) col doc) \<longleftrightarrow>
      a = b \<and> c = col) \<and>
   (starts_with (collection_prefix (tenant_codec_new a) c) (encode_graph_key (tenant_codec_new b) col entity) \<longleftrightarrow>
      a = b \<and> c = col)"
  by (simp add: starts_with_same starts_with_field tenant_scan_prefix_def tenant_codec_new_def encode_chunk_key_def encode_graph_key_def
      collection_prefix_def lit_chunk_def lit_graph_def)

end
