(* ===== verification/Kv_Locks.thy ===== *)
theory Kv_Locks
  imports Prelude
begin

text \<open>
  The sharded key locks of \<open>crates/contextra-store/src/kv_locks.rs\<close>: the shard selection and the
  acquisition plan of \<open>acquire_multi_sorted\<close>, and the interleavings of threads that acquire and
  release shard locks as a step relation, with mutual exclusion, progress and a work bound.
\<close>

section \<open>Lock manager\<close>

record kv_key_locks =
  kkl_shards :: nat
  kkl_shard_mask :: u64

definition kv_locks_new :: "u32 \<Rightarrow> kv_key_locks" where
  "kv_locks_new shard_count_pow2 =
     (let num_shards = 2 ^ unat (min shard_count_pow2 16)
      in \<lparr>kkl_shards = num_shards, kkl_shard_mask = of_nat num_shards - 1\<rparr>)"

definition lock_shard_idx :: "kv_key_locks \<Rightarrow> u64 \<Rightarrow> nat" where
  "lock_shard_idx K key_hash = unat (key_hash AND kkl_shard_mask K)"

text \<open>The shards a request locks, in the order it locks them.\<close>

definition lock_plan :: "kv_key_locks \<Rightarrow> u64 list \<Rightarrow> nat list" where
  "lock_plan K hashes = remdups_adj (sort (map (lock_shard_idx K) hashes))"

text \<open>
  A thread holds the locks of a guard under construction and still has to take the rest of the
  plan; \<open>acquire\<close>, unlike \<open>acquire_multi_sorted\<close>, takes a poisoned lock too (\<open>into_inner\<close>). A thread
  holds at most one guard at a time.
\<close>

record lock_thread =
  lt_held :: "nat list"
  lt_todo :: "nat list"
  lt_into_inner :: bool

definition lt_idle :: lock_thread where
  "lt_idle = \<lparr>lt_held = [], lt_todo = [], lt_into_inner = False\<rparr>"

type_synonym lock_sys = "lock_thread list"

definition lock_free :: "lock_sys \<Rightarrow> nat \<Rightarrow> bool" where
  "lock_free T s \<longleftrightarrow> (\<forall>t \<in> set T. s \<notin> set (lt_held t))"

text \<open>
  One step of a thread inside the lock manager: it takes the next lock when that is free; a
  poisoned lock ends \<open>acquire_multi_sorted\<close> with an error that drops the guards taken so far; a
  complete guard is dropped.
\<close>

inductive lock_step :: "nat set \<Rightarrow> lock_sys \<Rightarrow> lock_sys \<Rightarrow> bool" for poisoned where
  lock_grant: "i < length T \<Longrightarrow> lt_todo (T ! i) = s # rest \<Longrightarrow> lock_free T s \<Longrightarrow>
     s \<notin> poisoned \<or> lt_into_inner (T ! i) \<Longrightarrow>
     lock_step poisoned T (T[i := (T ! i)\<lparr>lt_held := lt_held (T ! i) @ [s], lt_todo := rest\<rparr>])"
| lock_poison: "i < length T \<Longrightarrow> lt_todo (T ! i) = s # rest \<Longrightarrow> lock_free T s \<Longrightarrow>
     s \<in> poisoned \<Longrightarrow> \<not> lt_into_inner (T ! i) \<Longrightarrow>
     lock_step poisoned T (T[i := lt_idle])"
| lock_release: "i < length T \<Longrightarrow> lt_todo (T ! i) = [] \<Longrightarrow> lt_held (T ! i) \<noteq> [] \<Longrightarrow>
     lock_step poisoned T (T[i := lt_idle])"

inductive lock_reach :: "kv_key_locks \<Rightarrow> nat set \<Rightarrow> lock_sys \<Rightarrow> bool" for K poisoned where
  lock_init: "lock_reach K poisoned (replicate n lt_idle)"
| lock_request: "lock_reach K poisoned T \<Longrightarrow> i < length T \<Longrightarrow> T ! i = lt_idle \<Longrightarrow>
     lock_reach K poisoned (T[i := lt_idle\<lparr>lt_todo := lock_plan K hashes\<rparr>])"
| lock_acquire: "lock_reach K poisoned T \<Longrightarrow> i < length T \<Longrightarrow> T ! i = lt_idle \<Longrightarrow>
     lock_reach K poisoned (T[i := lt_idle\<lparr>lt_todo := [lock_shard_idx K key_hash], lt_into_inner := True\<rparr>])"
| lock_internal: "lock_reach K poisoned T \<Longrightarrow> lock_step poisoned T T' \<Longrightarrow> lock_reach K poisoned T'"

inductive_cases lock_stepE: "lock_step poisoned T T'"

section \<open>Invariant\<close>

definition thread_ok :: "lock_thread \<Rightarrow> bool" where
  "thread_ok t \<longleftrightarrow> sorted_wrt (<) (lt_held t @ lt_todo t)"

definition locks_ok :: "lock_sys \<Rightarrow> bool" where
  "locks_ok T \<longleftrightarrow> (\<forall>t \<in> set T. thread_ok t) \<and>
     (\<forall>i < length T. \<forall>j < length T. i \<noteq> j \<longrightarrow> set (lt_held (T ! i)) \<inter> set (lt_held (T ! j)) = {})"

lemma thread_ok_idle [simp]: "thread_ok lt_idle"
  by (simp add: thread_ok_def lt_idle_def)

lemma sorted_remdups_adj_strict: "sorted xs \<Longrightarrow> sorted_wrt (<) (remdups_adj (xs :: nat list))"
  by (induction xs rule: remdups_adj.induct) (auto simp: less_le)

lemma lock_plan_sorted: "sorted_wrt (<) (lock_plan K hashes)"
  by (simp add: lock_plan_def sorted_remdups_adj_strict)

lemma locks_ok_update:
  assumes ok: "locks_ok T" and i: "i < length T" and t: "thread_ok t"
    and held: "\<And>s. s \<in> set (lt_held t) \<Longrightarrow> s \<in> set (lt_held (T ! i)) \<or> lock_free T s"
  shows "locks_ok (T[i := t])"
proof -
  have disj: "set (lt_held t) \<inter> set (lt_held (T ! j)) = {}" if j: "j < length T" "j \<noteq> i" for j
  proof -
    have "s \<notin> set (lt_held (T ! j))" if "s \<in> set (lt_held t)" for s
      using held [OF that]
    proof
      assume "s \<in> set (lt_held (T ! i))"
      then show ?thesis using ok i j by (auto simp: locks_ok_def)
    next
      assume "lock_free T s"
      then show ?thesis using j by (simp add: lock_free_def)
    qed
    then show ?thesis by blast
  qed
  have "\<forall>u \<in> set (T[i := t]). thread_ok u"
    using ok t set_update_subset_insert [of T i t] by (auto simp: locks_ok_def)
  moreover have "set (lt_held (T[i := t] ! a)) \<inter> set (lt_held (T[i := t] ! b)) = {}"
    if "a < length T" "b < length T" "a \<noteq> b" for a b
    using that disj [of a] disj [of b] ok by (cases "a = i"; cases "b = i") (auto simp: locks_ok_def Int_commute)
  ultimately show ?thesis by (simp add: locks_ok_def)
qed

lemma lock_step_ok:
  assumes "lock_step poisoned T T'" and "locks_ok T"
  shows "locks_ok T'"
  using assms(1)
proof cases
  case (lock_grant i s rest)
  have "thread_ok (T ! i)" using assms(2) lock_grant by (simp add: locks_ok_def)
  then have "thread_ok ((T ! i)\<lparr>lt_held := lt_held (T ! i) @ [s], lt_todo := rest\<rparr>)"
    using lock_grant by (simp add: thread_ok_def)
  then show ?thesis unfolding lock_grant(1)
    by (intro locks_ok_update [OF assms(2) lock_grant(2)]) (use lock_grant in auto)
qed (auto simp: lt_idle_def intro!: locks_ok_update [OF assms(2)] thread_ok_idle [unfolded lt_idle_def])

lemma lock_reach_ok: "lock_reach K poisoned T \<Longrightarrow> locks_ok T"
proof (induction rule: lock_reach.induct)
  case (lock_init n)
  then show ?case by (simp add: locks_ok_def lt_idle_def thread_ok_def)
next
  case (lock_request T i hashes)
  then show ?case
    by (intro locks_ok_update) (simp_all add: thread_ok_def lock_plan_sorted lt_idle_def)
next
  case (lock_acquire T i key_hash)
  then show ?case by (intro locks_ok_update) (simp_all add: thread_ok_def lt_idle_def)
qed (rule lock_step_ok)

lemma lock_shard_idx_less: "lock_shard_idx (kv_locks_new p) h < kkl_shards (kv_locks_new p)"
proof -
  let ?k = "unat (min p 16)"
  have "h AND (of_nat (2 ^ ?k) - 1) = take_bit ?k h"
    by (simp add: take_bit_eq_mask mask_eq_exp_minus_1)
  then show ?thesis
    by (simp add: lock_shard_idx_def kv_locks_new_def Let_def unsigned_take_bit_eq)
qed

lemma lock_plan_bound: "set (lock_plan (kv_locks_new p) hashes) \<subseteq> {..<kkl_shards (kv_locks_new p)}"
  using lock_shard_idx_less by (auto simp: lock_plan_def)

lemma lock_reach_bound:
  "lock_reach (kv_locks_new p) poisoned T \<Longrightarrow> \<forall>t \<in> set T. set (lt_held t @ lt_todo t) \<subseteq> {..<kkl_shards (kv_locks_new p)}"
proof (induction rule: lock_reach.induct)
  case (lock_request T i hashes)
  then show ?case
    using lock_plan_bound [of p hashes] by (auto simp: lt_idle_def dest!: set_update_subset_insert [THEN subsetD])
next
  case (lock_acquire T i key_hash)
  then show ?case
    using lock_shard_idx_less by (auto simp: lt_idle_def dest!: set_update_subset_insert [THEN subsetD])
next
  case (lock_internal T T')
  from lock_internal.hyps(2) show ?case
  proof cases
    case (lock_grant i s rest)
    have "T ! i \<in> set T" using lock_grant by simp
    with lock_internal.IH have "set (lt_held (T ! i) @ lt_todo (T ! i)) \<subseteq> {..<kkl_shards (kv_locks_new p)}" by blast
    then show ?thesis
      using lock_internal.IH lock_grant(3) unfolding lock_grant(1)
      by (auto dest!: set_update_subset_insert [THEN subsetD])
  qed (use lock_internal.IH in \<open>auto simp: lt_idle_def dest!: set_update_subset_insert [THEN subsetD]\<close>)
qed (simp add: lt_idle_def)

section \<open>Progress\<close>

text \<open>A waiting thread whose next lock is the greatest awaited one is never blocked by a waiting thread.\<close>

lemma lock_progress:
  assumes ok: "locks_ok T" and i: "i < length T" "lt_todo (T ! i) \<noteq> []"
  shows "\<exists>T'. lock_step poisoned T T'"
proof (cases "\<exists>j < length T. lt_todo (T ! j) = [] \<and> lt_held (T ! j) \<noteq> []")
  case True
  then show ?thesis by (blast intro: lock_release)
next
  case False
  define W where "W = {j. j < length T \<and> lt_todo (T ! j) \<noteq> []}"
  have "finite W" "i \<in> W" using i by (simp_all add: W_def)
  then have "Max ((\<lambda>j. hd (lt_todo (T ! j))) ` W) \<in> (\<lambda>j. hd (lt_todo (T ! j))) ` W" by (intro Max_in) auto
  then obtain m where m: "m \<in> W" "hd (lt_todo (T ! m)) = Max ((\<lambda>j. hd (lt_todo (T ! j))) ` W)" by auto
  have greatest: "hd (lt_todo (T ! j)) \<le> hd (lt_todo (T ! m))" if "j \<in> W" for j
    unfolding m(2) using \<open>finite W\<close> that by simp
  from m(1) obtain s rest where s: "lt_todo (T ! m) = s # rest" and mT: "m < length T"
    by (auto simp: W_def neq_Nil_conv)
  have "lock_free T s"
    unfolding lock_free_def
  proof (intro ballI notI)
    fix t assume "t \<in> set T" and held: "s \<in> set (lt_held t)"
    then obtain j where j: "j < length T" "T ! j = t" by (auto simp: in_set_conv_nth)
    have "thread_ok t" using ok \<open>t \<in> set T\<close> by (simp add: locks_ok_def)
    moreover have "lt_todo t \<noteq> []" using False held j by fastforce
    ultimately have "s < hd (lt_todo t)" using held by (auto simp: thread_ok_def sorted_wrt_append)
    moreover have "j \<in> W" using j \<open>lt_todo t \<noteq> []\<close> by (simp add: W_def)
    ultimately show False using greatest [of j] s j by simp
  qed
  then show ?thesis
    using mT s by (cases "s \<in> poisoned \<and> \<not> lt_into_inner (T ! m)") (blast intro: lock_grant lock_poison)+
qed

definition lock_work :: "lock_sys \<Rightarrow> nat" where
  "lock_work T = (\<Sum>t\<leftarrow>T. 2 * length (lt_todo t) + length (lt_held t))"

lemma sum_list_upd_less:
  "i < length T \<Longrightarrow> f t < (f (T ! i) :: nat) \<Longrightarrow> sum_list (map f (T[i := t])) < sum_list (map f T)"
proof (induction T arbitrary: i)
  case (Cons a T)
  then show ?case by (cases i) auto
qed simp

lemma lock_step_work: "lock_step poisoned T T' \<Longrightarrow> lock_work T' < lock_work T"
  unfolding lock_work_def
  by (erule lock_stepE) (auto simp: lt_idle_def intro!: sum_list_upd_less)

section \<open>Properties\<close>

text \<open>
  C23. Key locks exclude each other and never deadlock: in every reachable interleaving no shard is
  held twice, no guard asks for a shard it holds and every shard asked for exists; while some thread waits, a step is possible;
  and every step takes work off a finite amount, so the requests that are under way all end.
\<close>
theorem key_locks_deadlock_free:
  assumes "lock_reach (kv_locks_new p) poisoned T"
  shows "(\<forall>i < length T. \<forall>j < length T. i \<noteq> j \<longrightarrow> set (lt_held (T ! i)) \<inter> set (lt_held (T ! j)) = {}) \<and>
    (\<forall>t \<in> set T. distinct (lt_held t @ lt_todo t) \<and>
       (\<forall>s \<in> set (lt_held t @ lt_todo t). s < kkl_shards (kv_locks_new p))) \<and>
    ((\<exists>t \<in> set T. lt_todo t \<noteq> []) \<longrightarrow> (\<exists>T'. lock_step poisoned T T')) \<and>
    (\<forall>T'. lock_step poisoned T T' \<longrightarrow> lock_work T' < lock_work T)"
proof -
  note ok = lock_reach_ok [OF assms]
  have "distinct (lt_held t @ lt_todo t)" if "t \<in> set T" for t
    using ok that strict_sorted_iff [of "lt_held t @ lt_todo t"] by (simp add: locks_ok_def thread_ok_def)
  moreover have "\<exists>T'. lock_step poisoned T T'" if "t \<in> set T" "lt_todo t \<noteq> []" for t
    using lock_progress [OF ok] that by (metis in_set_conv_nth)
  ultimately show ?thesis using ok lock_step_work lock_reach_bound [OF assms] by (auto simp: locks_ok_def)
qed

theorem key_locks_deadlock_free_witness:
  "\<exists>T'. lock_step {} [lt_idle\<lparr>lt_todo := [1, 2]\<rparr>, lt_idle] T'"
proof -
  have plan: "lock_plan (kv_locks_new 4) [18, 1, 2] = [1, 2]"
    by (simp add: lock_plan_def lock_shard_idx_def kv_locks_new_def)
  have "lock_reach (kv_locks_new 4) {} (replicate 2 lt_idle)" by (rule lock_init)
  from lock_request [OF this, of 0 "[18, 1, 2]"]
  have "lock_reach (kv_locks_new 4) {} [lt_idle\<lparr>lt_todo := [1, 2]\<rparr>, lt_idle]"
    by (simp add: plan numeral_2_eq_2)
  from key_locks_deadlock_free [OF this] show ?thesis by simp
qed

end
