(* ===== verification/Manifest_Log.thy ===== *)
theory Manifest_Log
  imports Text_Codec
begin

text \<open>
  The SSTable manifest of \<open>crates/contextra-store/src/manifest\<close>: the frame codec of \<open>entry.rs\<close>,
  appending, loading and reconstruction of \<open>core.rs\<close>, the torn-tail check of \<open>recovery.rs\<close> and the
  rollover of \<open>rollover.rs\<close>. The file is a byte list; \<open>crc32\<close> is the checksum of \<open>crc32fast\<close>. Proved
  are the round trip of frames and logs, recovery from a log cut at any byte, and what the
  reconstructed set of tables contains.
\<close>

section \<open>Entries and frames\<close>

definition MAX_MANIFEST_ENTRY_SIZE :: nat where "MAX_MANIFEST_ENTRY_SIZE = 1024 * 1024"
definition DEFAULT_ROLLOVER_THRESHOLD_BYTES :: nat where "DEFAULT_ROLLOVER_THRESHOLD_BYTES = 64 * 1024"

datatype manifest_entry =
    MAdd path u64
  | MRemove path
  | MRollbackComplete u64
  | MReplace "path list" path u64 u64

text \<open>A path with its length in front; \<open>to_string_lossy\<close> is the identity on the UTF-8 paths of the model.\<close>

definition lpath :: "path \<Rightarrow> bytes" where
  "lpath p = u32_le (of_nat (length p)) @ p"

fun manifest_payload :: "manifest_entry \<Rightarrow> bytes" where
  "manifest_payload (MAdd p max_tx) = 0 # u64_le max_tx @ lpath p"
| "manifest_payload (MRemove p) = 1 # lpath p"
| "manifest_payload (MRollbackComplete target_tx) = 2 # u64_le target_tx"
| "manifest_payload (MReplace removed added added_max_tx rank) =
     3 # u64_le added_max_tx @ u64_le rank @ lpath added @ u32_le (of_nat (length removed)) @
     concat (map lpath removed)"

definition manifest_to_bytes :: "(bytes \<Rightarrow> u32) \<Rightarrow> manifest_entry \<Rightarrow> bytes res" where
  "manifest_to_bytes crc32 e =
     (let payload = manifest_payload e;
          total = of_nat (4 + length payload) :: u32
      in if MAX_MANIFEST_ENTRY_SIZE < unat total
         then Inl (Serialization ''Manifest entry exceeds max size'')
         else Inr (u32_le total @ u32_le (crc32 payload) @ payload))"

text \<open>The path of the given length at an offset, with the errors for a short buffer and for invalid UTF-8.\<close>

definition path_at :: "bytes \<Rightarrow> nat \<Rightarrow> nat \<Rightarrow> string \<Rightarrow> string \<Rightarrow> path res" where
  "path_at bs off len short bad =
     (if length bs < off + len then Inl (Serialization short)
      else let p = take len (drop off bs)
           in if utf8_valid p then Inr p else Inl (Serialization bad))"

fun read_removed :: "nat \<Rightarrow> bytes \<Rightarrow> nat \<Rightarrow> path list res" where
  "read_removed 0 bs off = Inr []"
| "read_removed (Suc n) bs off =
     (if length bs < off + 4 then Inl (Serialization ''Replace removed path length truncated'')
      else let r_len = u32_at bs off
           in rbind (path_at bs (off + 4) r_len ''Replace removed path data truncated'' ''Invalid removed path UTF-8'')
                (\<lambda>p. rbind (read_removed n bs (off + 4 + r_len)) (\<lambda>ps. Inr (p # ps))))"

definition decode_replace :: "bytes \<Rightarrow> manifest_entry res" where
  "decode_replace rem =
     (if length rem < 24 then Inl (Serialization ''Replace payload header too short'')
      else let added_len = u32_at rem 16
           in rbind (path_at rem 20 added_len ''Replace added path data truncated'' ''Invalid added path UTF-8'') (\<lambda>added.
              let off = 20 + added_len
              in if length rem < off + 4 then Inl (Serialization ''Replace removed count truncated'')
                 else rbind (read_removed (u32_at rem off) rem (off + 4)) (\<lambda>removed.
                      Inr (MReplace removed added (u64_at rem 0) (u64_at rem 8)))))"

definition decode_op :: "u8 \<Rightarrow> bytes \<Rightarrow> manifest_entry res" where
  "decode_op op_tag rem =
     (if op_tag = 0
      then if length rem < 12 then Inl (Serialization ''Add payload too short'')
           else rbind (path_at rem 12 (u32_at rem 8) ''Add path data truncated'' ''Invalid path UTF-8'')
                  (\<lambda>p. Inr (MAdd p (u64_at rem 0)))
      else if op_tag = 1
      then if length rem < 4 then Inl (Serialization ''Remove payload too short'')
           else rbind (path_at rem 4 (u32_at rem 0) ''Remove path data truncated'' ''Invalid path UTF-8'')
                  (\<lambda>p. Inr (MRemove p))
      else if op_tag = 2
      then if length rem < 8 then Inl (Serialization ''RollbackComplete payload too short'')
           else Inr (MRollbackComplete (u64_at rem 0))
      else if op_tag = 3 then decode_replace rem
      else Inl (Serialization ''Unknown Manifest op tag''))"

definition manifest_from_bytes :: "(bytes \<Rightarrow> u32) \<Rightarrow> bytes \<Rightarrow> manifest_entry res" where
  "manifest_from_bytes crc32 data =
     (if length data < 5 then Inl (Serialization ''Manifest entry too short'')
      else let payload = drop 4 data
           in if u32_of_le (take 4 data) \<noteq> crc32 payload then Inl (Serialization ''CRC mismatch'')
              else decode_op (hd payload) (tl payload))"

section \<open>Torn tails\<close>

text \<open>The lengths of the removed paths, as far as their headers are there.\<close>

fun removed_len :: "nat \<Rightarrow> bytes \<Rightarrow> nat \<Rightarrow> nat option" where
  "removed_len 0 rem off = Some 0"
| "removed_len (Suc n) rem off =
     (if off + 4 \<le> length rem
      then map_option (\<lambda>l. 4 + u32_at rem off + l) (removed_len n rem (off + 4 + u32_at rem off))
      else None)"

definition torn_replace :: "nat \<Rightarrow> bytes \<Rightarrow> bool" where
  "torn_replace claimed_len rem \<longleftrightarrow>
     30 \<le> claimed_len \<and>
     (20 \<le> length rem \<longrightarrow>
        (let added_len = u32_at rem 16; off = 20 + added_len
         in off + 4 \<le> length rem \<longrightarrow>
              (case removed_len (u32_at rem off) rem (off + 4) of
                 Some l \<Rightarrow> claimed_len = 29 + added_len + l
               | None \<Rightarrow> True)))"

definition is_valid_tail_truncation_candidate :: "nat \<Rightarrow> bytes \<Rightarrow> bool" where
  "is_valid_tail_truncation_candidate claimed_len partial \<longleftrightarrow>
     10 \<le> claimed_len \<and> claimed_len \<le> MAX_MANIFEST_ENTRY_SIZE \<and>
     (5 \<le> length partial \<longrightarrow>
        (let op_tag = partial ! 4; rem = drop 5 partial
         in if op_tag = 0
            then 18 \<le> claimed_len \<and> (12 \<le> length rem \<longrightarrow> claimed_len = 17 + u32_at rem 8)
            else if op_tag = 1
            then 10 \<le> claimed_len \<and> (4 \<le> length rem \<longrightarrow> claimed_len = 9 + u32_at rem 0)
            else if op_tag = 2 then claimed_len = 13
            else if op_tag = 3 then torn_replace claimed_len rem
            else False))"

section \<open>The log file\<close>

definition manifest_frames :: "(bytes \<Rightarrow> u32) \<Rightarrow> manifest_entry list \<Rightarrow> bytes res" where
  "manifest_frames crc32 es = rbind (rmap (manifest_to_bytes crc32) es) (\<lambda>fs. Inr (concat fs))"

text \<open>
  Appending with a fault of the disk: with \<open>Some k\<close> the call fails after the first \<open>k\<close> bytes have
  reached the file, in \<open>write_all\<close>, or in \<open>flush\<close> or \<open>sync_all\<close> behind all of them. What was written
  stays in the file. \<open>manifest_append_batch\<close> is the append on a disk that does not fail.
\<close>

type_synonym write_fault = "nat option"

definition manifest_append_batch_io ::
    "(bytes \<Rightarrow> u32) \<Rightarrow> write_fault \<Rightarrow> manifest_entry list \<Rightarrow> bytes \<Rightarrow> unit res \<times> bytes" where
  "manifest_append_batch_io crc32 fault es file =
     (if es = [] then (Inr (), file)
      else case manifest_frames crc32 es of
             Inl e \<Rightarrow> (Inl e, file)
           | Inr bs \<Rightarrow>
               (case fault of
                  None \<Rightarrow> (Inr (), file @ bs)
                | Some k \<Rightarrow> (Inl (Storage ''MANIFEST write failed''), file @ take k bs)))"

definition manifest_append_batch :: "(bytes \<Rightarrow> u32) \<Rightarrow> manifest_entry list \<Rightarrow> bytes \<Rightarrow> bytes res" where
  "manifest_append_batch crc32 es file =
     (if es = [] then Inr file
      else rbind (manifest_frames crc32 es) (\<lambda>bs. Inr (file @ bs)))"

definition manifest_append :: "(bytes \<Rightarrow> u32) \<Rightarrow> manifest_entry \<Rightarrow> bytes \<Rightarrow> bytes res" where
  "manifest_append crc32 e = manifest_append_batch crc32 [e]"

definition manifest_append_io ::
    "(bytes \<Rightarrow> u32) \<Rightarrow> write_fault \<Rightarrow> manifest_entry \<Rightarrow> bytes \<Rightarrow> unit res \<times> bytes" where
  "manifest_append_io crc32 fault e = manifest_append_batch_io crc32 fault [e]"

lemma manifest_append_io_None:
  "manifest_append_io crc32 None e file =
     (case manifest_append crc32 e file of Inl err \<Rightarrow> (Inl err, file) | Inr file' \<Rightarrow> (Inr (), file'))"
  by (simp add: manifest_append_io_def manifest_append_def manifest_append_batch_io_def manifest_append_batch_def
      rbind_def split: sum.split)

function load_frames :: "(bytes \<Rightarrow> u32) \<Rightarrow> bytes \<Rightarrow> manifest_entry list res" where
  "load_frames crc32 rest =
     (if rest = [] \<or> length rest < 4 then Inr []
      else let len = u32_at rest 0
           in if len < 5 \<or> MAX_MANIFEST_ENTRY_SIZE < len
              then Inl (Storage ''MANIFEST entry length invalid or exceeds max size'')
              else if 4 + len \<le> length rest
              then case manifest_from_bytes crc32 (take len (drop 4 rest)) of
                     Inl _ \<Rightarrow> Inl (Storage ''MANIFEST entry corruption'')
                   | Inr e \<Rightarrow> rbind (load_frames crc32 (drop (4 + len) rest)) (\<lambda>es. Inr (e # es))
              else if is_valid_tail_truncation_candidate len (drop 4 rest) then Inr []
              else Inl (Storage ''MANIFEST mid-file corruption''))"
  by auto
termination by (relation "measure (\<lambda>(c, rest). length rest)") auto

declare load_frames.simps [simp del]

definition manifest_load :: "(bytes \<Rightarrow> u32) \<Rightarrow> bytes option \<Rightarrow> manifest_entry list res" where
  "manifest_load crc32 file = (case file of None \<Rightarrow> Inr [] | Some f \<Rightarrow> load_frames crc32 f)"

definition manifest_maybe_rollover ::
    "(bytes \<Rightarrow> u32) \<Rightarrow> manifest_entry list \<Rightarrow> nat \<Rightarrow> bytes \<Rightarrow> bool res \<times> bytes" where
  "manifest_maybe_rollover crc32 live threshold_bytes file =
     (if length file < threshold_bytes then (Inr False, file)
      else case manifest_frames crc32 live of
             Inl e \<Rightarrow> (Inl e, file)
           | Inr new_file \<Rightarrow> (Inr True, new_file))"

definition manifest_rollover :: "(bytes \<Rightarrow> u32) \<Rightarrow> manifest_entry list \<Rightarrow> bytes \<Rightarrow> unit res \<times> bytes" where
  "manifest_rollover crc32 live file =
     (case manifest_maybe_rollover crc32 live 0 file of (r, f) \<Rightarrow> (rbind r (\<lambda>_. Inr ()), f))"

section \<open>Reconstruction\<close>

definition sst_name :: "path \<Rightarrow> path" where
  "sst_name p = (case file_name p of Some n \<Rightarrow> n | None \<Rightarrow> p)"

text \<open>
  One entry applied to the map from names to ranks and the next rank. The map of the source is a
  \<open>HashMap\<close>: the order of tables with equal ranks in the sorted list is not determined there, and no
  property below depends on it.
\<close>

fun replay_entry :: "manifest_entry \<Rightarrow> (path \<times> u64) list \<times> u64 \<Rightarrow> (path \<times> u64) list \<times> u64" where
  "replay_entry (MAdd p _) (m, next_rank) = (AList.update (sst_name p) next_rank m, next_rank + 1)"
| "replay_entry (MRemove p) (m, next_rank) = (AList.delete (sst_name p) m, next_rank)"
| "replay_entry (MRollbackComplete _) (m, next_rank) = (m, next_rank)"
| "replay_entry (MReplace removed added _ rank) (m, next_rank) =
     (AList.update (sst_name added) rank (fold (\<lambda>p. AList.delete (sst_name p)) removed m),
      if next_rank \<le> rank then rank + 1 else next_rank)"

definition reconstruct_valid_sstables :: "manifest_entry list \<Rightarrow> (path \<times> u64) list" where
  "reconstruct_valid_sstables es = sort_key snd (fst (fold replay_entry es ([], 0)))"

fun removed_names :: "manifest_entry \<Rightarrow> path list" where
  "removed_names (MRemove p) = [sst_name p]"
| "removed_names (MReplace removed _ _ _) = map sst_name removed"
| "removed_names _ = []"

definition reconstruct_dead_sstables :: "manifest_entry list \<Rightarrow> path set" where
  "reconstruct_dead_sstables es =
     (let valid_set = set (map fst (reconstruct_valid_sstables es))
      in set (filter (\<lambda>n. n \<notin> valid_set) (concat (map removed_names es))))"

section \<open>Frames decode\<close>

fun entry_paths :: "manifest_entry \<Rightarrow> path list" where
  "entry_paths (MAdd p _) = [p]"
| "entry_paths (MRemove p) = [p]"
| "entry_paths (MRollbackComplete _) = []"
| "entry_paths (MReplace removed added _ _) = added # removed"

text \<open>Entries the engine writes: UTF-8 paths that are not empty, and a payload that fits a frame.\<close>

definition mentry_ok :: "manifest_entry \<Rightarrow> bool" where
  "mentry_ok e \<longleftrightarrow> 4 + length (manifest_payload e) \<le> MAX_MANIFEST_ENTRY_SIZE \<and>
     (\<forall>p \<in> set (entry_paths e). utf8_valid p \<and> p \<noteq> [])"

lemma path_at_append:
  "length xs = n \<Longrightarrow> utf8_valid p \<Longrightarrow> path_at (xs @ p @ ys) n (length p) short bad = Inr p"
  by (simp add: path_at_def)

lemma unat_len [simp]: "n \<le> MAX_MANIFEST_ENTRY_SIZE \<Longrightarrow> unat (of_nat n :: u32) = n"
  by (simp add: unat_of_nat MAX_MANIFEST_ENTRY_SIZE_def)

lemma length_lpath [simp]: "length (lpath p) = 4 + length p"
  by (simp add: lpath_def)

lemma lpath_length_le: "p \<in> set ps \<Longrightarrow> length p \<le> length (concat (map lpath ps))"
  by (induction ps) (auto simp: lpath_def)

lemma length_concat_lpath_le: "length ps \<le> length (concat (map lpath ps))"
  by (induction ps) auto

lemma read_removed_lpaths:
  assumes "\<forall>p \<in> set ps. utf8_valid p \<and> length p \<le> MAX_MANIFEST_ENTRY_SIZE" and "length pre = off"
  shows "read_removed (length ps) (pre @ concat (map lpath ps)) off = Inr ps"
  using assms
proof (induction ps arbitrary: pre off)
  case (Cons p ps)
  let ?bs = "pre @ concat (map lpath (p # ps))"
  have bs: "?bs = pre @ u32_le (of_nat (length p)) @ p @ concat (map lpath ps)" by (simp add: lpath_def)
  have len: "u32_at ?bs off = length p"
    unfolding bs using u32_at_append [OF Cons.prems(2), of "of_nat (length p)"] Cons.prems(1) by simp
  have p: "path_at ?bs (off + 4) (length p) a b = Inr p" for a b
    using path_at_append [of "pre @ u32_le (of_nat (length p))" "off + 4" p "concat (map lpath ps)"] Cons.prems
    unfolding bs by simp
  have "read_removed (length ps) ?bs (off + 4 + length p) = Inr ps"
    using Cons.IH [of "pre @ lpath p" "off + 4 + length p"] Cons.prems by simp
  then show ?case
    using len p Cons.prems(2) by (simp del: append.simps concat.simps list.map(2)) simp
qed simp

lemma decode_payload:
  assumes "mentry_ok e"
  shows "decode_op (hd (manifest_payload e)) (tl (manifest_payload e)) = Inr e"
proof (cases e)
  case (MAdd p m)
  let ?rem = "u64_le m @ u32_le (of_nat (length p)) @ p"
  have p: "utf8_valid p" "length p \<le> MAX_MANIFEST_ENTRY_SIZE"
    using assms MAdd by (simp_all add: mentry_ok_def)
  have "u32_at ?rem 8 = length p" using u32_at_append [of "u64_le m" 8] p(2) by simp
  moreover have "u64_at ?rem 0 = m" using u64_at_append [of "[]" 0] by simp
  moreover have "path_at ?rem 12 (length p) a b = Inr p" for a b
    using path_at_append [of "u64_le m @ u32_le (of_nat (length p))" 12 p "[]"] p(1) by simp
  ultimately show ?thesis by (simp add: MAdd decode_op_def lpath_def)
next
  case (MRemove p)
  let ?rem = "u32_le (of_nat (length p)) @ p"
  have p: "utf8_valid p" "length p \<le> MAX_MANIFEST_ENTRY_SIZE"
    using assms MRemove by (simp_all add: mentry_ok_def)
  have "u32_at ?rem 0 = length p" using u32_at_append [of "[]" 0] p(2) by simp
  moreover have "path_at ?rem 4 (length p) a b = Inr p" for a b
    using path_at_append [of "u32_le (of_nat (length p))" 4 p "[]"] p(1) by simp
  ultimately show ?thesis by (simp add: MRemove decode_op_def lpath_def)
next
  case (MRollbackComplete t)
  then show ?thesis using u64_at_append [of "[]" 0 t "[]"] by (simp add: decode_op_def)
next
  case (MReplace removed added m r)
  let ?tail = "concat (map lpath removed)"
  let ?rem = "u64_le m @ u64_le r @ u32_le (of_nat (length added)) @ added @ u32_le (of_nat (length removed)) @ ?tail"
  have len: "29 + length added + length ?tail \<le> MAX_MANIFEST_ENTRY_SIZE"
    and utf: "utf8_valid added" "\<forall>p \<in> set removed. utf8_valid p"
    using assms MReplace by (simp_all add: mentry_ok_def)
  have small: "\<forall>p \<in> set removed. utf8_valid p \<and> length p \<le> MAX_MANIFEST_ENTRY_SIZE"
    using utf(2) len lpath_length_le [of _ removed] by fastforce
  have "u64_at ?rem 0 = m" using u64_at_append [of "[]" 0] by simp
  moreover have "u64_at ?rem 8 = r" using u64_at_append [of "u64_le m" 8] by simp
  moreover have "u32_at ?rem 16 = length added"
    using u32_at_append [of "u64_le m @ u64_le r" 16] len by simp
  moreover have "path_at ?rem 20 (length added) a b = Inr added" for a b
    using path_at_append [of "u64_le m @ u64_le r @ u32_le (of_nat (length added))" 20 added] utf(1) by simp
  moreover have "u32_at ?rem (20 + length added) = length removed"
    using u32_at_append [of "u64_le m @ u64_le r @ u32_le (of_nat (length added)) @ added" "20 + length added"]
      len length_concat_lpath_le [of removed] by simp
  moreover have "read_removed (length removed) ?rem (20 + length added + 4) = Inr removed"
    using read_removed_lpaths [OF small, of "u64_le m @ u64_le r @ u32_le (of_nat (length added)) @ added @
      u32_le (of_nat (length removed))"] by simp
  ultimately show ?thesis
    by (simp add: MReplace decode_op_def decode_replace_def Let_def lpath_def)
qed

definition frame :: "(bytes \<Rightarrow> u32) \<Rightarrow> manifest_entry \<Rightarrow> bytes" where
  "frame crc32 e = u32_le (of_nat (4 + length (manifest_payload e))) @
     u32_le (crc32 (manifest_payload e)) @ manifest_payload e"

lemma to_bytes_frame: "mentry_ok e \<Longrightarrow> manifest_to_bytes crc32 e = Inr (frame crc32 e)"
  using unat_len [of "4 + length (manifest_payload e)"]
  by (simp add: manifest_to_bytes_def mentry_ok_def Let_def frame_def del: of_nat_add)

lemma length_frame: "length (frame crc32 e) = 8 + length (manifest_payload e)"
  by (simp add: frame_def)

lemma payload_nonempty: "manifest_payload e \<noteq> []"
  by (cases e) auto

lemma from_bytes_frame:
  assumes "mentry_ok e"
  shows "manifest_from_bytes crc32 (u32_le (crc32 (manifest_payload e)) @ manifest_payload e) = Inr e"
  using decode_payload [OF assms] payload_nonempty [of e]
  by (cases "manifest_payload e") (simp_all add: manifest_from_bytes_def)

lemma load_frame_Cons:
  assumes "mentry_ok e"
  shows "load_frames crc32 (frame crc32 e @ rest) = rbind (load_frames crc32 rest) (\<lambda>es. Inr (e # es))"
proof -
  let ?n = "4 + length (manifest_payload e)"
  have n: "?n \<le> MAX_MANIFEST_ENTRY_SIZE" "5 \<le> ?n"
    using assms payload_nonempty [of e] by (auto simp: mentry_ok_def Suc_le_eq)
  have len: "u32_at (frame crc32 e @ rest) 0 = ?n"
    using u32_at_append [of "[]" 0 "of_nat ?n"] unat_len [OF n(1)] by (simp add: frame_def del: of_nat_add)
  have body: "take ?n (drop 4 (frame crc32 e @ rest)) = u32_le (crc32 (manifest_payload e)) @ manifest_payload e"
    and rest: "drop (4 + ?n) (frame crc32 e @ rest) = rest"
    by (simp_all add: frame_def)
  have F: "frame crc32 e @ rest \<noteq> []" "4 + ?n \<le> length (frame crc32 e @ rest)"
    using length_frame [of crc32 e] by (auto simp del: length_0_conv)
  define F where "F = frame crc32 e @ rest"
  have "load_frames crc32 F = (case manifest_from_bytes crc32 (take ?n (drop 4 F)) of
      Inl _ \<Rightarrow> Inl (Storage ''MANIFEST entry corruption'')
    | Inr e \<Rightarrow> rbind (load_frames crc32 (drop (4 + ?n) F)) (\<lambda>es. Inr (e # es)))"
    using n len F unfolding F_def [symmetric] by (subst load_frames.simps) (simp only: Let_def, auto)
  then show ?thesis unfolding F_def body rest from_bytes_frame [OF assms] by simp
qed

lemma load_frames_append:
  assumes "\<forall>e \<in> set es. mentry_ok e"
  shows "load_frames crc32 (concat (map (frame crc32) es) @ rest) =
    rbind (load_frames crc32 rest) (\<lambda>es'. Inr (es @ es'))"
  using assms by (induction es) (auto simp: load_frame_Cons rbind_def split: sum.splits)

lemma manifest_frames_ok:
  "\<forall>e \<in> set es. mentry_ok e \<Longrightarrow> manifest_frames crc32 es = Inr (concat (map (frame crc32) es))"
  using rmap_Inr [of es "manifest_to_bytes crc32" "frame crc32"]
  by (simp add: manifest_frames_def to_bytes_frame)

section \<open>Torn frames are recognised\<close>

lemma removed_len_torn:
  assumes "\<forall>p \<in> set ps. length p \<le> MAX_MANIFEST_ENTRY_SIZE" and "length pre = off"
    and "removed_len (length ps) (take j (pre @ concat (map lpath ps))) off = Some l"
  shows "l = length (concat (map lpath ps))"
  using assms
proof (induction ps arbitrary: pre off l)
  case (Cons p ps)
  define bs where "bs = pre @ concat (map lpath (p # ps))"
  have bs: "bs = pre @ u32_le (of_nat (length p)) @ p @ concat (map lpath ps)" by (simp add: bs_def lpath_def)
  have h: "off + 4 \<le> length (take j bs)" using Cons.prems(3) by (auto simp: bs_def split: if_splits)
  have "u32_at bs off = length p"
    unfolding bs using u32_at_append [OF Cons.prems(2), of "of_nat (length p)"] Cons.prems(1) by simp
  then have len: "u32_at (take j bs) off = length p" using u32_at_take [OF h] by simp
  have "removed_len (Suc (length ps)) (take j bs) off = Some l" using Cons.prems(3) by (simp add: bs_def)
  then have "map_option (\<lambda>l. 4 + length p + l) (removed_len (length ps) (take j bs) (off + 4 + length p)) = Some l"
    unfolding removed_len.simps len if_P [OF h] .
  then obtain l' where l': "removed_len (length ps) (take j bs) (off + 4 + length p) = Some l'"
    "l = 4 + length p + l'" by blast
  have "l' = length (concat (map lpath ps))"
    using Cons.IH [of "pre @ lpath p" "off + 4 + length p" l'] Cons.prems(1,2) l'(1) by (simp add: bs_def)
  then show ?case using l'(2) by simp
qed simp

lemma torn_replace_frame:
  assumes "mentry_ok (MReplace removed added m r)"
  shows "torn_replace (4 + length (manifest_payload (MReplace removed added m r)))
    (take j (tl (manifest_payload (MReplace removed added m r))))"
proof -
  let ?tail = "concat (map lpath removed)"
  let ?pre = "u64_le m @ u64_le r @ u32_le (of_nat (length added)) @ added @ u32_le (of_nat (length removed))"
  let ?rem = "?pre @ ?tail"
  have len: "29 + length added + length ?tail \<le> MAX_MANIFEST_ENTRY_SIZE" and "added \<noteq> []"
    using assms by (simp_all add: mentry_ok_def)
  have small: "\<forall>p \<in> set removed. length p \<le> MAX_MANIFEST_ENTRY_SIZE"
    using len lpath_length_le [of _ removed] by fastforce
  define rem where "rem = ?rem"
  have a: "u32_at rem 16 = length added"
    using u32_at_append [of "u64_le m @ u64_le r" 16] len by (simp add: rem_def)
  have c: "u32_at rem (20 + length added) = length removed"
    using u32_at_append [of "u64_le m @ u64_le r @ u32_le (of_nat (length added)) @ added" "20 + length added"]
      len length_concat_lpath_le [of removed] by (simp add: rem_def)
  have pre: "length ?pre = 20 + length added + 4" by simp
  have torn: "removed_len (length removed) (take j rem) (20 + length added + 4) = Some l \<Longrightarrow> l = length ?tail" for l
    unfolding rem_def by (rule removed_len_torn [OF small pre])
  have "torn_replace (29 + length added + length ?tail) (take j rem)"
    unfolding torn_replace_def Let_def
  proof (intro conjI impI)
    show "30 \<le> 29 + length added + length ?tail" using \<open>added \<noteq> []\<close> by (cases added) auto
  next
    assume "20 \<le> length (take j rem)"
    then have "16 + 4 \<le> length (take j rem)" by linarith
    from u32_at_take [OF this] have a': "u32_at (take j rem) 16 = length added" unfolding a .
    assume h: "20 + u32_at (take j rem) 16 + 4 \<le> length (take j rem)"
    have "u32_at (take j rem) (20 + length added) = length removed"
      using u32_at_take [OF h [unfolded a']] unfolding c .
    then show "case removed_len (u32_at (take j rem) (20 + u32_at (take j rem) 16)) (take j rem)
          (20 + u32_at (take j rem) 16 + 4) of
        Some l \<Rightarrow> 29 + length added + length ?tail = 29 + u32_at (take j rem) 16 + l | None \<Rightarrow> True"
      unfolding a' using torn by (auto split: option.split)
  qed
  then show ?thesis by (simp add: rem_def lpath_def add.assoc)
qed

lemma torn_frame_candidate:
  assumes "mentry_ok e" and "n < 4 + length (manifest_payload e)"
  shows "is_valid_tail_truncation_candidate (4 + length (manifest_payload e))
    (take n (u32_le c @ manifest_payload e))"
proof -
  let ?P = "manifest_payload e"
  have size: "10 \<le> 4 + length ?P" "4 + length ?P \<le> MAX_MANIFEST_ENTRY_SIZE"
  proof -
    show "4 + length ?P \<le> MAX_MANIFEST_ENTRY_SIZE" using assms(1) by (simp add: mentry_ok_def)
    show "10 \<le> 4 + length ?P"
      using assms(1) by (cases e) (auto simp: mentry_ok_def neq_Nil_conv)
  qed
  have "?P \<noteq> []" by (rule payload_nonempty)
  then obtain tag rem where P: "?P = tag # rem" by (cases ?P) auto
  show ?thesis
  proof (cases "5 \<le> n")
    case False
    then show ?thesis using size by (simp add: is_valid_tail_truncation_candidate_def)
  next
    case True
    have tag: "take n (u32_le c @ ?P) ! 4 = tag" and drop: "drop 5 (take n (u32_le c @ ?P)) = take (n - 5) rem"
      using True assms(2) P by (simp_all add: drop_take nth_append take_Cons')
    have "if tag = 0 then 18 \<le> 4 + length ?P \<and>
          (12 \<le> length (take (n - 5) rem) \<longrightarrow> 4 + length ?P = 17 + u32_at (take (n - 5) rem) 8)
        else if tag = 1 then 10 \<le> 4 + length ?P \<and>
          (4 \<le> length (take (n - 5) rem) \<longrightarrow> 4 + length ?P = 9 + u32_at (take (n - 5) rem) 0)
        else if tag = 2 then 4 + length ?P = 13
        else if tag = 3 then torn_replace (4 + length ?P) (take (n - 5) rem) else False"
    proof (cases e)
      case (MAdd p m)
      then have "length p \<le> MAX_MANIFEST_ENTRY_SIZE" using assms(1) by (simp add: mentry_ok_def)
      with MAdd have "u32_at rem 8 = length p"
        using u32_at_append [of "u64_le m" 8 "of_nat (length p)" p] P assms(1)
        by (simp add: lpath_def mentry_ok_def)
      then show ?thesis
        using MAdd P assms(1) u32_at_take [of 8 "n - 5" rem] by (auto simp: mentry_ok_def Suc_le_eq)
    next
      case (MRemove p)
      then have "length p \<le> MAX_MANIFEST_ENTRY_SIZE" using assms(1) by (simp add: mentry_ok_def)
      with MRemove have "u32_at rem 0 = length p"
        using u32_at_append [of "[]" 0 "of_nat (length p)" p] P assms(1)
        by (simp add: lpath_def mentry_ok_def)
      then show ?thesis
        using MRemove P assms(1) u32_at_take [of 0 "n - 5" rem] by (auto simp: mentry_ok_def Suc_le_eq)
    next
      case (MRollbackComplete t)
      then show ?thesis using P by auto
    next
      case (MReplace removed added m r)
      then show ?thesis
        using torn_replace_frame [of removed added m r "n - 5"] P assms(1) by auto
    qed
    then show ?thesis
      unfolding is_valid_tail_truncation_candidate_def Let_def tag drop using size by (intro conjI impI)
  qed
qed

lemma load_torn_frame:
  assumes "mentry_ok e" and "n < length (frame crc32 e)"
  shows "load_frames crc32 (take n (frame crc32 e)) = Inr []"
proof (cases "n < 4")
  case True
  then have "length (take n (frame crc32 e)) < 4" by simp
  then show ?thesis by (subst load_frames.simps) simp
next
  case False
  let ?L = "4 + length (manifest_payload e)"
  have L: "?L \<le> MAX_MANIFEST_ENTRY_SIZE" "5 \<le> ?L"
    using assms payload_nonempty [of e] by (auto simp: mentry_ok_def Suc_le_eq)
  have "u32_at (frame crc32 e) 0 = ?L"
    using u32_at_append [of "[]" 0 "of_nat ?L"] unat_len [OF L(1)] by (simp add: frame_def del: of_nat_add)
  then have len: "u32_at (take n (frame crc32 e)) 0 = ?L" using u32_at_take [of 0 n "frame crc32 e"] False by (simp add: length_frame)
  have drop: "drop 4 (take n (frame crc32 e)) = take (n - 4) (u32_le (crc32 (manifest_payload e)) @ manifest_payload e)"
    using False by (simp add: frame_def drop_take)
  have "n - 4 < ?L" using assms(2) False by (simp add: length_frame)
  from torn_frame_candidate [OF assms(1) this] show ?thesis
    using L False assms(2) by (subst load_frames.simps) (auto simp: Let_def len drop length_frame)
qed

lemma load_cut_log:
  assumes "\<forall>e \<in> set es. mentry_ok e"
  shows "\<exists>m \<le> length es. load_frames crc32 (take n (concat (map (frame crc32) es))) = Inr (take m es) \<and>
    length (concat (map (frame crc32) (take m es))) \<le> n \<and>
    (m < length es \<longrightarrow> n < length (concat (map (frame crc32) (take (Suc m) es))))"
  using assms
proof (induction es arbitrary: n)
  case Nil
  then show ?case by (subst load_frames.simps) simp
next
  case (Cons e es)
  show ?case
  proof (cases "n < length (frame crc32 e)")
    case True
    then have "load_frames crc32 (take n (concat (map (frame crc32) (e # es)))) = Inr []"
      using load_torn_frame [OF _ True] Cons.prems by simp
    then show ?thesis using True by (intro exI [of _ 0]) simp
  next
    case False
    then obtain m where m: "m \<le> length es"
      "load_frames crc32 (take (n - length (frame crc32 e)) (concat (map (frame crc32) es))) = Inr (take m es)"
      "length (concat (map (frame crc32) (take m es))) \<le> n - length (frame crc32 e)"
      "m < length es \<longrightarrow> n - length (frame crc32 e) < length (concat (map (frame crc32) (take (Suc m) es)))"
      using Cons.IH [of "n - length (frame crc32 e)"] Cons.prems by auto
    have "load_frames crc32 (take n (concat (map (frame crc32) (e # es)))) = Inr (take (Suc m) (e # es))"
      using False load_frame_Cons [of e crc32] Cons.prems m(2) by (simp add: not_less)
    then show ?thesis using m False by (intro exI [of _ "Suc m"]) auto
  qed
qed

text \<open>A log with a torn last append loads to the entries before it, or to them and the whole new entry.\<close>

lemma load_torn_append:
  assumes es: "\<forall>e \<in> set es. mentry_ok e" and e: "mentry_ok e"
    and run: "manifest_append_io crc32 (Some k) e (concat (map (frame crc32) es)) = (r, file)"
  shows "(\<exists>err. r = Inl err) \<and>
    (manifest_load crc32 (Some file) = Inr es \<or> manifest_load crc32 (Some file) = Inr (es @ [e]))"
proof -
  let ?log = "concat (map (frame crc32) es)" and ?n = "length (concat (map (frame crc32) es)) + k"
  have fr: "manifest_frames crc32 [e] = Inr (frame crc32 e)" using manifest_frames_ok [of "[e]" crc32] e by simp
  then have r: "\<exists>err. r = Inl err" "file = take ?n (concat (map (frame crc32) (es @ [e])))"
    using run by (auto simp: manifest_append_io_def manifest_append_batch_io_def)
  have ok: "\<forall>x \<in> set (es @ [e]). mentry_ok x" using es e by simp
  obtain m where m: "m \<le> length (es @ [e])" "load_frames crc32 file = Inr (take m (es @ [e]))"
    "m < length (es @ [e]) \<longrightarrow> ?n < length (concat (map (frame crc32) (take (Suc m) (es @ [e]))))"
    using load_cut_log [OF ok, of crc32 ?n] unfolding r(2) by blast
  have "length es \<le> m"
  proof (rule ccontr)
    assume less: "\<not> length es \<le> m"
    then have "?n < length (concat (map (frame crc32) (take (Suc m) es)))" using m(3) by simp
    moreover have "length (concat (map (frame crc32) es)) =
        length (concat (map (frame crc32) (take (Suc m) es))) + length (concat (map (frame crc32) (drop (Suc m) es)))"
      by (metis append_take_drop_id concat_append length_append map_append)
    ultimately show False by simp
  qed
  then have "m = length es \<or> m = length (es @ [e])" using m(1) by auto
  then show ?thesis using m(2) r(1) by (auto simp: manifest_load_def)
qed

section \<open>Reconstruction lemmas\<close>

fun added_name :: "manifest_entry \<Rightarrow> path list" where
  "added_name (MAdd p _) = [sst_name p]"
| "added_name (MReplace _ added _ _) = [sst_name added]"
| "added_name _ = []"

lemma fold_delete_dom:
  "fst ` set (fold (\<lambda>p. AList.delete (f p)) ps m) = fst ` set m - f ` set ps"
  by (induction ps arbitrary: m) (auto simp: dom_map_of_conv_image_fst [symmetric] delete_conv' dom_def split: if_splits)

lemma update_dom: "fst ` set (AList.update k v m) = insert k (fst ` set m)"
  by (simp add: dom_map_of_conv_image_fst [symmetric] update_conv')

lemma fold_delete_distinct:
  "distinct (map fst m) \<Longrightarrow> distinct (map fst (fold (\<lambda>p. AList.delete (f p)) ps m))"
  by (induction ps arbitrary: m) (simp_all add: distinct_delete)

text \<open>The effect of one entry on the set of valid names.\<close>

fun live_step :: "manifest_entry \<Rightarrow> path set \<Rightarrow> path set" where
  "live_step e L = (L - set (removed_names e)) \<union> set (added_name e)"

lemma delete_dom: "fst ` set (AList.delete k m) = fst ` set m - {k}"
  using fold_delete_dom [of "\<lambda>_. k" "[k]" m] by simp

lemma replay_entry_dom:
  "fst ` set (fst (replay_entry e (m, r))) = live_step e (fst ` set m)"
  by (cases e) (simp_all only: replay_entry.simps fst_conv update_dom delete_dom fold_delete_dom
      live_step.simps removed_names.simps added_name.simps list.set set_map Un_insert_right Un_empty_right
      Diff_empty)

lemma replay_entry_distinct:
  "distinct (map fst m) \<Longrightarrow> distinct (map fst (fst (replay_entry e (m, r))))"
  by (cases e) (simp_all add: distinct_update distinct_delete fold_delete_distinct)

lemma replay_fold:
  "distinct (map fst m) \<Longrightarrow> distinct (map fst (fst (fold replay_entry es (m, r)))) \<and>
    fst ` set (fst (fold replay_entry es (m, r))) = fold live_step es (fst ` set m)"
proof (induction es arbitrary: m r)
  case (Cons e es)
  obtain m' r' where e: "replay_entry e (m, r) = (m', r')" by fastforce
  then show ?case
    using Cons.IH [of m' r'] replay_entry_distinct [OF Cons.prems, of e r] replay_entry_dom [of e m r] by simp
qed simp

lemma fold_live_lost:
  "(L \<union> set (concat (map added_name es))) - set (concat (map removed_names es)) \<subseteq> fold live_step es L"
proof (induction es arbitrary: L)
  case (Cons e es)
  have "(L \<union> set (concat (map added_name (e # es)))) - set (concat (map removed_names (e # es))) \<subseteq>
      (live_step e L \<union> set (concat (map added_name es))) - set (concat (map removed_names es))"
    unfolding list.map concat.simps set_append live_step.simps by blast
  also have "\<dots> \<subseteq> fold live_step es (live_step e L)" by (rule Cons.IH)
  finally show ?case unfolding fold_Cons comp_def .
qed (simp only: list.map concat.simps list.set fold_Nil id_apply Un_empty_right Diff_empty)

section \<open>Properties\<close>

text \<open>
  C13. The manifest survives a crash at any byte: a log of well-formed entries that is cut anywhere
  loads without an error and yields exactly the entries whose frames are complete; uncut, all of
  them.
\<close>
theorem manifest_load_after_cut:
  assumes "\<forall>e \<in> set es. mentry_ok e" and "manifest_append_batch crc32 es [] = Inr log"
  shows "\<exists>m \<le> length es. manifest_load crc32 (Some (take n log)) = Inr (take m es) \<and>
    length (concat (map (frame crc32) (take m es))) \<le> n \<and>
    (m < length es \<longrightarrow> n < length (concat (map (frame crc32) (take (Suc m) es)))) \<and>
    (length log \<le> n \<longrightarrow> manifest_load crc32 (Some (take n log)) = Inr es)"
proof -
  have log: "log = concat (map (frame crc32) es)"
    using assms manifest_frames_ok [OF assms(1), of crc32]
    by (auto simp: manifest_append_batch_def split: if_splits)
  have "load_frames crc32 [] = Inr []" by (subst load_frames.simps) simp
  then have "load_frames crc32 log = Inr es"
    using load_frames_append [OF assms(1), of crc32 "[]"] by (simp add: log)
  then show ?thesis
    using load_cut_log [OF assms(1), of crc32 n] unfolding log manifest_load_def by auto
qed

theorem manifest_load_after_cut_witness:
  "\<exists>m \<le> length [MAdd [97] 5, MRemove [98]]. \<exists>log. manifest_append_batch (\<lambda>_. 7) [MAdd [97] 5, MRemove [98]] [] = Inr log \<and>
     manifest_load (\<lambda>_. 7) (Some (take 25 log)) = Inr (take m [MAdd [97] 5, MRemove [98]])"
proof -
  have ok: "\<forall>e \<in> set [MAdd [97] 5, MRemove [98]]. mentry_ok e"
    by (simp add: mentry_ok_def MAX_MANIFEST_ENTRY_SIZE_def in_range_def)
  then obtain log where log: "manifest_append_batch (\<lambda>_. 7) [MAdd [97] 5, MRemove [98]] [] = Inr log"
    by (simp add: manifest_append_batch_def manifest_frames_ok)
  from manifest_load_after_cut [OF ok log, of 25] log show ?thesis by blast
qed

text \<open>
  Reconstruction classifies every table: the reconstructed list names each table once, in rank
  order; no table is both valid and proven dead; only removed tables are dead; and every table
  that was ever added is one of the two.
\<close>
theorem manifest_reconstruction_classifies:
  "distinct (map fst (reconstruct_valid_sstables es)) \<and> sorted (map snd (reconstruct_valid_sstables es)) \<and>
   fst ` set (reconstruct_valid_sstables es) = fold live_step es {} \<and>
   fst ` set (reconstruct_valid_sstables es) \<inter> reconstruct_dead_sstables es = {} \<and>
   reconstruct_dead_sstables es \<subseteq> set (concat (map removed_names es)) \<and>
   set (concat (map added_name es)) \<subseteq> fst ` set (reconstruct_valid_sstables es) \<union> reconstruct_dead_sstables es"
proof -
  let ?m = "fst (fold replay_entry es ([], 0))"
  have m: "distinct (map fst ?m)" "fst ` set ?m = fold live_step es {}"
    using replay_fold [of "[]" es 0] by auto
  have "mset (map fst (sort_key snd ?m)) = mset (map fst ?m)" by simp
  then have "distinct (map fst (reconstruct_valid_sstables es))"
    unfolding reconstruct_valid_sstables_def using m(1) mset_eq_imp_distinct_iff by blast
  moreover have valid: "fst ` set (reconstruct_valid_sstables es) = fold live_step es {}"
    by (simp add: reconstruct_valid_sstables_def m(2))
  moreover have dead: "reconstruct_dead_sstables es = set (concat (map removed_names es)) - fold live_step es {}"
    unfolding reconstruct_dead_sstables_def Let_def set_filter set_map valid by blast
  moreover have "set (concat (map added_name es)) - set (concat (map removed_names es)) \<subseteq> fold live_step es {}"
    using fold_live_lost [of "{}" es] by blast
  ultimately show ?thesis by (auto simp: reconstruct_valid_sstables_def)
qed

lemma replay_adds:
  assumes "distinct (map (\<lambda>(p, t). sst_name p) ts)" and "fst ` set m \<inter> (\<lambda>(p, t). sst_name p) ` set ts = {}"
  shows "fst (fold replay_entry (map (\<lambda>(p, t). MAdd p t) ts) (m, r)) =
    m @ map (\<lambda>i. (sst_name (fst (ts ! i)), r + of_nat i)) [0..<length ts]"
  using assms
proof (induction ts arbitrary: m r)
  case (Cons t ts)
  obtain p x where t: "t = (p, x)" by fastforce
  have upd: "AList.update k v m = m @ [(k, v)]" if "k \<notin> fst ` set m" for k :: path and v :: u64
    using that by (induction m) auto
  have "AList.update (sst_name p) r m = m @ [(sst_name p, r)]"
    using Cons.prems(2) t by (intro upd) auto
  moreover have "map (\<lambda>i. (sst_name (fst ((t # ts) ! i)), r + of_nat i)) [0..<length (t # ts)] =
      (sst_name p, r) # map (\<lambda>i. (sst_name (fst (ts ! i)), r + 1 + of_nat i)) [0..<length ts]"
    unfolding length_Cons upt_conv_Cons [OF zero_less_Suc] map_Suc_upt [symmetric]
    by (simp add: t comp_def add.assoc)
  moreover have "fst ` set (m @ [(sst_name p, r)]) \<inter> (\<lambda>(p, t). sst_name p) ` set ts = {}"
    using Cons.prems t by auto
  ultimately show ?case using Cons.IH [of "m @ [(sst_name p, r)]" "r + 1"] Cons.prems(1) t by simp
qed simp

text \<open>
  Rollover preserves the table list: when it succeeds, the new log loads to one \<open>Add\<close> per live
  table and reconstructs the live tables in the order they were given, with ranks counted from 0;
  when an entry cannot be encoded or the threshold is not reached, the file is untouched.
\<close>
theorem manifest_rollover_preserves:
  assumes "\<forall>(p, t) \<in> set tables. mentry_ok (MAdd p t)" and "distinct (map (\<lambda>(p, t). sst_name p) tables)"
    and "length tables < 2 ^ 64"
    and "manifest_maybe_rollover crc32 (map (\<lambda>(p, t). MAdd p t) tables) threshold log = (r, log')"
  shows "(r = Inr True \<longrightarrow> (\<exists>es. manifest_load crc32 (Some log') = Inr es \<and>
      es = map (\<lambda>(p, t). MAdd p t) tables \<and>
      reconstruct_valid_sstables es = map (\<lambda>i. (sst_name (fst (tables ! i)), of_nat i)) [0..<length tables])) \<and>
    (r \<noteq> Inr True \<longrightarrow> log' = log)"
proof -
  let ?es = "map (\<lambda>(p, t). MAdd p t) tables"
  have ok: "\<forall>e \<in> set ?es. mentry_ok e" using assms(1) by auto
  have nil: "load_frames crc32 [] = Inr []" by (subst load_frames.simps) simp
  have load: "load_frames crc32 (concat (map (frame crc32) ?es)) = Inr ?es"
    using load_frames_append [OF ok, of crc32 "[]"] nil by simp
  have "sorted (map (\<lambda>i. of_nat i :: u64) [0..<length tables])"
    using assms(3) by (auto simp: sorted_iff_nth_mono word_le_nat_alt unat_of_nat)
  then have "reconstruct_valid_sstables ?es = map (\<lambda>i. (sst_name (fst (tables ! i)), of_nat i)) [0..<length tables]"
    using replay_adds [OF assms(2), of "[]" 0] by (simp add: reconstruct_valid_sstables_def sort_key_id_if_sorted comp_def)
  with load assms(4) manifest_frames_ok [OF ok, of crc32] show ?thesis
    by (auto simp: manifest_maybe_rollover_def manifest_load_def split: if_splits)
qed

theorem manifest_rollover_preserves_witness:
  "\<exists>log'. manifest_maybe_rollover (\<lambda>_. 7) [MAdd [97] 5, MAdd [98] 6] 3 [1, 2, 3] = (Inr True, log') \<and>
     manifest_load (\<lambda>_. 7) (Some log') = Inr [MAdd [97] 5, MAdd [98] 6]"
proof -
  have ok: "\<forall>(p, t) \<in> set [([97], 5), ([98], 6)]. mentry_ok (MAdd p t)"
    by (simp add: mentry_ok_def MAX_MANIFEST_ENTRY_SIZE_def)
  have d: "distinct (map (\<lambda>(p, t). sst_name p) [([97 :: u8], 5 :: u64), ([98], 6)])"
    by (simp add: sst_name_def file_name_def path_components_def)
  have fr: "manifest_frames (\<lambda>_. 7) [MAdd [97] 5, MAdd [98] 6] =
      Inr (concat (map (frame (\<lambda>_. 7)) [MAdd [97] 5, MAdd [98] 6]))"
    by (rule manifest_frames_ok) (use ok in simp)
  let ?log = "concat (map (frame (\<lambda>_. 7)) [MAdd [97] 5, MAdd [98] 6])"
  have r: "manifest_maybe_rollover (\<lambda>_. 7) (map (\<lambda>(p, t). MAdd p t) [([97], 5), ([98], 6)]) 3 [1, 2, 3] = (Inr True, ?log)"
    using fr by (simp add: manifest_maybe_rollover_def)
  from manifest_rollover_preserves [OF ok d _ r] r show ?thesis by auto
qed

text \<open>
  The handle is not poisoned by a failed append and the torn bytes are not cut off: the next append
  that succeeds lies behind them, and then the manifest does not load any more.
\<close>

lemma append_behind_torn_entry:
  "let torn = snd (manifest_append_io (\<lambda>_. 7) (Some 4) (MAdd [97] 5) []);
       file = snd (manifest_append_io (\<lambda>_. 7) None (MAdd [98] 6) torn)
   in manifest_load (\<lambda>_. 7) (Some torn) = Inr [] \<and>
      manifest_load (\<lambda>_. 7) (Some file) = Inl (Storage ''MANIFEST entry corruption'')"
proof -
  have ok: "mentry_ok (MAdd [97] 5)" "mentry_ok (MAdd [98] 6)"
    by (simp_all add: mentry_ok_def MAX_MANIFEST_ENTRY_SIZE_def)
  let ?f = "frame (\<lambda>_. 7)"
  have torn: "snd (manifest_append_io (\<lambda>_. 7) (Some 4) (MAdd [97] 5) []) = u32_le 18"
    using manifest_frames_ok [of "[MAdd [97] 5]" "\<lambda>_. 7"] ok
    by (simp add: manifest_append_io_def manifest_append_batch_io_def frame_def)
  have behind: "snd (manifest_append_io (\<lambda>_. 7) None (MAdd [98] 6) (u32_le 18)) = u32_le 18 @ ?f (MAdd [98] 6)"
    using manifest_frames_ok [of "[MAdd [98] 6]" "\<lambda>_. 7"] ok
    by (simp add: manifest_append_io_def manifest_append_batch_io_def)
  have len: "u32_at (u32_le 18 @ bs) 0 = 18" for bs by (simp add: u32_at_def)
  have "load_frames (\<lambda>_. 7) (u32_le 18) = Inr []"
    by (subst load_frames.simps)
      (simp add: len [of "[]", simplified] is_valid_tail_truncation_candidate_def MAX_MANIFEST_ENTRY_SIZE_def Let_def)
  moreover have "load_frames (\<lambda>_. 7) (u32_le 18 @ ?f (MAdd [98] 6)) = Inl (Storage ''MANIFEST entry corruption'')"
    by (subst load_frames.simps)
      (simp add: len MAX_MANIFEST_ENTRY_SIZE_def Let_def manifest_from_bytes_def frame_def)
  ultimately show ?thesis unfolding Let_def torn behind by (simp add: manifest_load_def)
qed

end
