(* ===== verification/Compaction.thy ===== *)
theory Compaction
  imports Sstable_Roundtrip Manifest_Log "HOL-Library.Product_Lexorder"
begin

text \<open>
  The compaction engine of \<open>crates/contextra-store/src/compaction\<close>: selection of the tables, the
  multi-way merge with its retention rule, and the swap of the merged table into the table list and
  the manifest. Delays (pressure, I/O rate) have no effect on the result and are left out; the
  cancellation token and the outcome of waiting for memory are parameters, as are the two
  floating-point computations. Proved here are that the merge ends and builds exactly the retained
  entries in order and that retention changes no snapshot read; \<open>Compaction_Run\<close> has the properties
  of whole runs.
\<close>

section \<open>Configuration and environment\<close>

text \<open>\<open>cc_ratio_le a b\<close> is the comparison of the quotient of two file sizes with \<open>size_ratio\<close>.\<close>

record compaction_config =
  cc_min_sstables_per_tier :: nat
  cc_ratio_le :: "nat \<Rightarrow> nat \<Rightarrow> bool"
  cc_yield_threshold :: nat
  cc_max_memory_bytes :: "u64 option"
  cc_max_peak_memory_bytes :: "u64 option"

text \<open>
  What a merge observes of its surroundings, by the number of entries processed so far: whether it
  is cancelled, and how the wait for memory ends.
\<close>

datatype wait_outcome = WaitOk | WaitTimeout | WaitCancelled

record merge_env =
  me_cancelled :: "nat \<Rightarrow> bool"
  me_wait :: "nat \<Rightarrow> wait_outcome"

definition div_ceil :: "u64 \<Rightarrow> u64 \<Rightarrow> u64" where
  "div_ceil a b = (if a mod b = 0 then a div b else a div b + 1)"

definition merge_interrupt :: "compaction_config \<Rightarrow> merge_env \<Rightarrow> nat \<Rightarrow> contextra_error option" where
  "merge_interrupt cfg env n =
     (if me_cancelled env n then Some (Internal ''Compaction cancelled during merge stream processing'')
      else if cc_yield_threshold cfg = 0 then Some (Panic ''attempt to calculate the remainder with a divisor of zero'')
      else if Suc n mod cc_yield_threshold cfg = 0
      then case me_wait env n of
             WaitOk \<Rightarrow> None
           | WaitTimeout \<Rightarrow>
               let mb = div_ceil (case cc_max_memory_bytes cfg of Some b \<Rightarrow> b | None \<Rightarrow> 128 * 1024 * 1024) (1024 * 1024)
               in Some (MemoryBudgetExceeded mb mb)
           | WaitCancelled \<Rightarrow> Some (Internal ''Compaction cancelled during memory budget wait'')
      else None)"

section \<open>The merge\<close>

type_synonym heap_item = "kv_entry \<times> nat"

text \<open>The order of the binary heap: the greatest item is the one with the least key, then the greatest
  logical sequence number, then the greatest source.\<close>

fun item_gt :: "heap_item \<Rightarrow> heap_item \<Rightarrow> bool" where
  "item_gt ((k, v, s, t), i) ((k', v', s', t'), i') \<longleftrightarrow>
     (if k = k' then raw_seq s' < raw_seq s \<or> raw_seq s' = raw_seq s \<and> i' < i else k < k')"

fun heap_pop :: "heap_item list \<Rightarrow> (heap_item \<times> heap_item list) option" where
  "heap_pop [] = None"
| "heap_pop (x # xs) =
     (let m = fold (\<lambda>y m. if item_gt y m then y else m) xs x in Some (m, remove1 m (x # xs)))"

text \<open>The retention rule: whether the next entry is written, and the state for the entry after it.\<close>

record retain_state =
  rs_last_key :: "bytes option"
  rs_floor_emitted :: bool

definition retain_start :: retain_state where
  "retain_start = \<lparr>rs_last_key = None, rs_floor_emitted = False\<rparr>"

fun retain_step :: "u64 \<Rightarrow> bool \<Rightarrow> kv_entry \<Rightarrow> retain_state \<Rightarrow> bool \<times> retain_state" where
  "retain_step min_snapshot_seq is_full (key, value, seq, tx) st =
     (let floor_emitted = (if rs_last_key st \<noteq> Some key then False else rs_floor_emitted st);
          (keep, floor_emitted) =
            (if min_snapshot_seq \<le> raw_seq seq then (True, floor_emitted)
             else if \<not> floor_emitted then (True, True) else (False, floor_emitted))
      in if keep
         then (\<not> (is_tombstone seq \<and> is_full \<and> raw_seq seq < min_snapshot_seq),
               \<lparr>rs_last_key = Some key, rs_floor_emitted = floor_emitted\<rparr>)
         else (False, st\<lparr>rs_floor_emitted := floor_emitted\<rparr>))"

text \<open>The loop over the heap, for any way to fetch the next entry of a source and to write an entry.\<close>

partial_function (option) merge_loop ::
    "('s \<Rightarrow> (kv_entry option \<times> 's) res) \<Rightarrow> (kv_entry \<Rightarrow> 'b \<Rightarrow> 'b res) \<Rightarrow>
     (nat \<Rightarrow> contextra_error option) \<Rightarrow> (kv_entry \<Rightarrow> retain_state \<Rightarrow> bool \<times> retain_state) \<Rightarrow>
     's list \<Rightarrow> heap_item list \<Rightarrow> retain_state \<Rightarrow> nat \<Rightarrow> 'b \<Rightarrow> 'b res option" where
  "merge_loop next_entry add interrupt step streams heap st n builder =
     (case heap_pop heap of
        None \<Rightarrow> Some (Inr builder)
      | Some ((item, source_idx), heap) \<Rightarrow>
          (case interrupt n of
             Some err \<Rightarrow> Some (Inl err)
           | None \<Rightarrow>
               (let (emit, st) = step item st
                in case (if emit then add item builder else Inr builder) of
                     Inl err \<Rightarrow> Some (Inl err)
                   | Inr builder \<Rightarrow>
                       (case next_entry (streams ! source_idx) of
                          Inl err \<Rightarrow> Some (Inl err)
                        | Inr (nxt, s) \<Rightarrow>
                            merge_loop next_entry add interrupt step (streams[source_idx := s])
                              (case nxt of None \<Rightarrow> heap | Some e \<Rightarrow> (e, source_idx) # heap) st (Suc n) builder))))"

text \<open>The first entry of each stream.\<close>

fun heap_init ::
    "('s \<Rightarrow> (kv_entry option \<times> 's) res) \<Rightarrow> nat \<Rightarrow> 's list \<Rightarrow> (heap_item list \<times> 's list) res" where
  "heap_init next_entry i [] = Inr ([], [])"
| "heap_init next_entry i (s # ss) =
     rbind (next_entry s) (\<lambda>(nxt, s').
     rbind (heap_init next_entry (Suc i) ss) (\<lambda>(heap, ss').
     Inr (case nxt of None \<Rightarrow> heap | Some e \<Rightarrow> (e, i) # heap, s' # ss')))"

definition source_next ::
    "(bytes \<Rightarrow> u32) \<Rightarrow> sst_reader \<times> sst_stream \<Rightarrow> (kv_entry option \<times> sst_reader \<times> sst_stream) res" where
  "source_next crc32 = (\<lambda>(R, S). rbind (stream_next crc32 R S) (\<lambda>(nxt, S'). Inr (nxt, R, S')))"

definition builder_add ::
    "(bytes \<Rightarrow> u32) \<Rightarrow> (bytes \<Rightarrow> bytes) \<Rightarrow> kv_entry \<Rightarrow> sst_builder \<Rightarrow> sst_builder res" where
  "builder_add crc32 blake3 = (\<lambda>(k, v, s, t). sst_add crc32 blake3 k v s t)"

text \<open>The whole merge: the bytes of the output file, or the error after which the file is removed.\<close>

definition merge_sstables ::
    "compaction_config \<Rightarrow> merge_env \<Rightarrow> (bytes \<Rightarrow> u32) \<Rightarrow> (bytes \<Rightarrow> bytes) \<Rightarrow> nat \<Rightarrow> nat \<Rightarrow>
     key_manager option \<Rightarrow> sst_reader list \<Rightarrow> u64 \<Rightarrow> bool \<Rightarrow> bytes res option" where
  "merge_sstables cfg env crc32 blake3 fm fh km inputs min_snapshot_seq is_full =
     (case heap_init (source_next crc32) 0 (map (\<lambda>R. (R, stream_new)) inputs) of
        Inl err \<Rightarrow> Some (Inl err)
      | Inr (heap, streams) \<Rightarrow>
          map_option (\<lambda>r. rbind r (\<lambda>builder. rbind (sst_finish crc32 builder) (\<lambda>(file, meta). Inr file)))
            (merge_loop (source_next crc32) (builder_add crc32 blake3) (merge_interrupt cfg env)
               (retain_step min_snapshot_seq is_full) streams heap retain_start 0 (sst_create fm fh km)))"

section \<open>Selection\<close>

text \<open>A table of the list: its identity (the \<open>Arc\<close>), its path and its reader.\<close>

record sst_handle =
  sh_id :: nat
  sh_path :: path
  sh_reader :: sst_reader

definition sh_size :: "sst_handle \<Rightarrow> nat" where
  "sh_size h = sm_file_size (rd_metadata (sh_reader h))"

definition sh_max_seq :: "sst_handle \<Rightarrow> u64" where
  "sh_max_seq h = raw_seq (sm_max_seq (rd_metadata (sh_reader h)))"

definition same_tier :: "compaction_config \<Rightarrow> nat \<Rightarrow> nat \<Rightarrow> bool" where
  "same_tier cfg file_size neighbor_size =
     (if neighbor_size < file_size then cc_ratio_le cfg file_size (max neighbor_size 1)
      else cc_ratio_le cfg neighbor_size (max file_size 1))"

fun place_tier :: "compaction_config \<Rightarrow> sst_handle list \<Rightarrow> nat \<Rightarrow> nat list list \<Rightarrow> nat list list" where
  "place_tier cfg ssts i [] = [[i]]"
| "place_tier cfg ssts i (tier # tiers) =
     (if tier \<noteq> [] \<and> last tier < length ssts \<and> same_tier cfg (sh_size (ssts ! i)) (sh_size (ssts ! last tier))
      then (tier @ [i]) # tiers
      else tier # place_tier cfg ssts i tiers)"

definition tier_key :: "sst_handle list \<Rightarrow> nat list \<Rightarrow> int \<times> nat" where
  "tier_key ssts tier =
     (- int (length tier),
      case tier of [] \<Rightarrow> 0 | i # _ \<Rightarrow> if i < length ssts then sh_size (ssts ! i) else 0)"

definition select_compaction_candidates :: "compaction_config \<Rightarrow> sst_handle list \<Rightarrow> sst_handle list option" where
  "select_compaction_candidates cfg ssts =
     (if length ssts < 2 then None
      else let tiers = sort_key (tier_key ssts) (fold (place_tier cfg ssts) [0..<length ssts] []);
               by_seq = (\<lambda>is. map (\<lambda>i. ssts ! i) (sort_key (\<lambda>i. sh_max_seq (ssts ! i)) is))
           in case find (\<lambda>tier. cc_min_sstables_per_tier cfg \<le> length tier) tiers of
                Some tier \<Rightarrow> Some (by_seq tier)
              | None \<Rightarrow>
                  if cc_min_sstables_per_tier cfg * 2 \<le> length ssts
                  then Some (by_seq (take (cc_min_sstables_per_tier cfg)
                         (sort_key (\<lambda>i. sh_size (ssts ! i)) [0..<length ssts])))
                  else None)"

text \<open>\<open>scale\<close> is the product with 1.5 in double precision.\<close>

definition estimate_compaction_peak_bytes :: "(u64 \<Rightarrow> u64) \<Rightarrow> sst_handle list \<Rightarrow> u64" where
  "estimate_compaction_peak_bytes scale candidates =
     scale (\<Sum>h\<leftarrow>candidates. of_nat (sh_size h)) + of_nat (length candidates) * 4096 * 4"

section \<open>A compaction run\<close>

definition compact_select :: "compaction_config \<Rightarrow> sst_handle list \<Rightarrow> (sst_handle list \<times> bool) option" where
  "compact_select cfg ssts =
     (if length ssts < cc_min_sstables_per_tier cfg then None
      else case select_compaction_candidates cfg ssts of
             None \<Rightarrow> None
           | Some candidates \<Rightarrow>
               if 2 \<le> length candidates
               then Some (sort_key sh_max_seq candidates, length candidates = length ssts) else None)"

definition compact_peak_ok :: "compaction_config \<Rightarrow> (u64 \<Rightarrow> u64) \<Rightarrow> sst_handle list \<Rightarrow> unit res" where
  "compact_peak_ok cfg scale inputs =
     (case cc_max_peak_memory_bytes cfg of
        None \<Rightarrow> Inr ()
      | Some limit_bytes \<Rightarrow>
          let estimated_peak = estimate_compaction_peak_bytes scale inputs
          in if limit_bytes < estimated_peak
             then Inl (MemoryBudgetExceeded (div_ceil estimated_peak (1024 * 1024)) (div_ceil limit_bytes (1024 * 1024)))
             else Inr ())"

text \<open>The consistency check: the position of the first input and the paths of the inputs.\<close>

definition is_input :: "sst_handle list \<Rightarrow> sst_handle \<Rightarrow> bool" where
  "is_input inputs h \<longleftrightarrow> sh_id h \<in> set (map sh_id inputs)"

definition compact_check :: "sst_handle list \<Rightarrow> sst_handle list \<Rightarrow> (nat \<times> path list) option" where
  "compact_check inputs ssts =
     (if \<forall>inp \<in> set inputs. \<exists>h \<in> set ssts. sh_id h = sh_id inp
      then Some (length (takeWhile (\<lambda>h. \<not> is_input inputs h) ssts),
                 map sh_path (List.map_filter (\<lambda>inp. find (\<lambda>h. sh_id h = sh_id inp) ssts) inputs))
      else None)"

definition compact_swap :: "sst_handle list \<Rightarrow> nat \<Rightarrow> sst_handle \<Rightarrow> sst_handle list \<Rightarrow> sst_handle list" where
  "compact_swap inputs ins_point new_sst ssts =
     (let retained = filter (\<lambda>h. \<not> is_input inputs h) ssts;
          insert_idx = min ins_point (length retained)
      in sort_key sh_max_seq (take insert_idx retained @ [new_sst] @ drop insert_idx retained))"

definition live_entries :: "sst_handle list \<Rightarrow> manifest_entry list" where
  "live_entries ssts = map (\<lambda>h. MAdd (sh_path h) (sm_max_tx_id (rd_metadata (sh_reader h)))) ssts"

text \<open>
  One run over the table list and the manifest file. The locks of the two are taken and released
  several times; \<open>conc i\<close> is what other tasks do to them in the \<open>i\<close>-th gap. \<open>new_id\<close> and \<open>output_path\<close>
  are fresh. The result is the outcome (\<open>None\<close> when the merge does not return) and the new state.
\<close>

type_synonym tables = "sst_handle list \<times> bytes option"

record compact_params =
  cp_cfg :: compaction_config
  cp_env :: merge_env
  cp_crc32 :: "bytes \<Rightarrow> u32"
  cp_blake3 :: "bytes \<Rightarrow> bytes"
  cp_fm :: nat
  cp_fh :: nat
  cp_km :: "key_manager option"
  cp_scale :: "u64 \<Rightarrow> u64"
  cp_min_snapshot_seq :: u64
  cp_output_path :: path
  cp_new_id :: nat

text \<open>The manifest entry of a run; \<open>fault\<close> is where its write fails, if it does.\<close>

definition append_replace ::
    "compact_params \<Rightarrow> write_fault \<Rightarrow> path list \<Rightarrow> sst_reader \<Rightarrow> nat \<Rightarrow> bytes option \<Rightarrow> unit res \<times> bytes option" where
  "append_replace P fault old_paths R ins_point manifest =
     (case manifest of
        None \<Rightarrow> (Inr (), None)
      | Some m \<Rightarrow>
          (case manifest_append_io (cp_crc32 P) fault
                  (MReplace old_paths (cp_output_path P) (sm_max_tx_id (rd_metadata R)) (of_nat ins_point)) m of
             (r, m') \<Rightarrow> (r, Some m')))"

definition periodic_rollover ::
    "(bytes \<Rightarrow> u32) \<Rightarrow> (tables \<Rightarrow> tables) \<Rightarrow> tables \<Rightarrow> tables" where
  "periodic_rollover crc32 gap T =
     (case gap T of (ssts, manifest) \<Rightarrow>
        (ssts, map_option (\<lambda>m. snd (manifest_maybe_rollover crc32 (live_entries (fst T))
                 DEFAULT_ROLLOVER_THRESHOLD_BYTES m)) manifest))"

text \<open>From the consistency check on, with the output file written.\<close>

definition compact_install_io ::
    "compact_params \<Rightarrow> write_fault \<Rightarrow> (nat \<Rightarrow> tables \<Rightarrow> tables) \<Rightarrow> sst_handle list \<Rightarrow> bytes \<Rightarrow> tables \<Rightarrow> bool res \<times> tables" where
  "compact_install_io P fault conc inputs file T =
     (case compact_check inputs (fst T) of
        None \<Rightarrow> (Inr False, T)
      | Some (ins_point, old_paths) \<Rightarrow>
          (case sst_open (cp_crc32 P) (cp_km P) file of
             Inl err \<Rightarrow> (Inl err, T)
           | Inr R \<Rightarrow>
               (let T1 = conc 1 T
                in case append_replace P fault old_paths R ins_point (snd T1) of
                     (Inl err, manifest) \<Rightarrow> (Inl err, (fst T1, manifest))
                   | (Inr _, manifest) \<Rightarrow>
                       (let new_sst = \<lparr>sh_id = cp_new_id P, sh_path = cp_output_path P, sh_reader = R\<rparr>;
                            T2 = conc 2 (fst T1, manifest);
                            T3 = conc 3 (compact_swap inputs ins_point new_sst (fst T2), snd T2)
                        in (Inr True, periodic_rollover (cp_crc32 P) (conc 4) T3)))))"

definition maybe_compact_io ::
    "compact_params \<Rightarrow> write_fault \<Rightarrow> (nat \<Rightarrow> tables \<Rightarrow> tables) \<Rightarrow> tables \<Rightarrow> (bool res \<times> tables) option" where
  "maybe_compact_io P fault conc T =
     (case compact_select (cp_cfg P) (fst T) of
        None \<Rightarrow> Some (Inr False, T)
      | Some (inputs, is_full) \<Rightarrow>
          (case compact_peak_ok (cp_cfg P) (cp_scale P) inputs of
             Inl err \<Rightarrow> Some (Inl err, T)
           | Inr _ \<Rightarrow>
               (case merge_sstables (cp_cfg P) (cp_env P) (cp_crc32 P) (cp_blake3 P) (cp_fm P) (cp_fh P) (cp_km P)
                       (map sh_reader inputs) (cp_min_snapshot_seq P) is_full of
                  None \<Rightarrow> None
                | Some (Inl err) \<Rightarrow> Some (Inl err, conc 0 T)
                | Some (Inr file) \<Rightarrow> Some (compact_install_io P fault conc inputs file (conc 0 T)))))"

text \<open>The same on a disk that does not fail.\<close>

definition compact_install ::
    "compact_params \<Rightarrow> (nat \<Rightarrow> tables \<Rightarrow> tables) \<Rightarrow> sst_handle list \<Rightarrow> bytes \<Rightarrow> tables \<Rightarrow> bool res \<times> tables" where
  "compact_install P = compact_install_io P None"

definition maybe_compact ::
    "compact_params \<Rightarrow> (nat \<Rightarrow> tables \<Rightarrow> tables) \<Rightarrow> tables \<Rightarrow> (bool res \<times> tables) option" where
  "maybe_compact P = maybe_compact_io P None"

text \<open>One round of the background loop: a round without a compaction checks the manifest size.\<close>

definition compaction_round ::
    "compact_params \<Rightarrow> (nat \<Rightarrow> tables \<Rightarrow> tables) \<Rightarrow> tables \<Rightarrow> tables option" where
  "compaction_round P conc T =
     map_option (\<lambda>(r, T'). if r = Inr False then periodic_rollover (cp_crc32 P) (conc 4) (conc 3 T') else T')
       (maybe_compact P conc T)"

section \<open>The merge as a sort\<close>

text \<open>
  The specification of the merge: all entries of the sources, each with the number of its source,
  sorted by key, then by descending logical sequence number, then by descending source.
\<close>

fun item_rank :: "heap_item \<Rightarrow> bytes \<times> int \<times> int" where
  "item_rank ((k, v, s, t), i) = (k, - uint (raw_seq s), - int i)"

definition tagged :: "kv_entry list list \<Rightarrow> heap_item list" where
  "tagged ls = concat (map (\<lambda>i. map (\<lambda>e. (e, i)) (ls ! i)) [0..<length ls])"

definition merged :: "kv_entry list list \<Rightarrow> kv_entry list" where
  "merged ls = map fst (sort_key item_rank (tagged ls))"

text \<open>The order of the entries inside one table: keys ascending, versions of a key newest first.\<close>

fun entry_lt :: "kv_entry \<Rightarrow> kv_entry \<Rightarrow> bool" where
  "entry_lt (k, v, s, t) (k', v', s', t') \<longleftrightarrow> k < k' \<or> k = k' \<and> raw_seq s' < raw_seq s"

abbreviation table_sorted :: "kv_entry list \<Rightarrow> bool" where
  "table_sorted es \<equiv> sorted_wrt entry_lt es"

fun retain :: "(kv_entry \<Rightarrow> retain_state \<Rightarrow> bool \<times> retain_state) \<Rightarrow> kv_entry list \<Rightarrow> retain_state \<Rightarrow> kv_entry list" where
  "retain step [] st = []"
| "retain step (e # es) st = (if fst (step e st) then [e] else []) @ retain step es (snd (step e st))"

fun add_all :: "(kv_entry \<Rightarrow> 'b \<Rightarrow> 'b res) \<Rightarrow> kv_entry list \<Rightarrow> 'b \<Rightarrow> 'b res" where
  "add_all add [] b = Inr b"
| "add_all add (e # es) b = rbind (add e b) (add_all add es)"

lemma item_gt_rank: "item_gt a b \<longleftrightarrow> item_rank a < item_rank b"
  by (cases a rule: item_rank.cases; cases b rule: item_rank.cases)
    (auto simp: less_prod_def' word_less_def dest: unsigned_word_eqI)

lemma entry_lt_rank: "entry_lt a b \<longleftrightarrow> item_rank (a, i) < item_rank (b, i)"
  by (cases a; cases b) (auto simp: less_prod_def' word_less_def)

lemma heap_pop_None [simp]: "heap_pop h = None \<longleftrightarrow> h = []"
  by (cases h) (simp_all add: Let_def)

lemma fold_item_max:
  "let m = fold (\<lambda>y m. if item_gt y m then y else m) xs x in
     m \<in> set (x # xs) \<and> (\<forall>y \<in> set (x # xs). item_rank m \<le> item_rank y)"
proof (induction xs arbitrary: x)
  case (Cons y xs)
  show ?case
    using Cons.IH [of "if item_gt y x then y else x"]
    by (auto simp: Let_def item_gt_rank split: if_splits)
qed simp

lemma heap_pop_Some:
  assumes "heap_pop h = Some (m, h')"
  shows "m \<in> set h" "h' = remove1 m h" "\<forall>y \<in> set h. item_rank m \<le> item_rank y"
proof -
  obtain x xs where h: "h = x # xs" using assms by (cases h) auto
  from assms fold_item_max [of xs x] show "m \<in> set h" "h' = remove1 m h" "\<forall>y \<in> set h. item_rank m \<le> item_rank y"
    unfolding h heap_pop.simps Let_def by auto
qed

definition heads :: "kv_entry list list \<Rightarrow> heap_item list" where
  "heads ls = concat (map (\<lambda>i. if ls ! i = [] then [] else [(hd (ls ! i), i)]) [0..<length ls])"

lemma set_heads: "x \<in> set (heads ls) \<longleftrightarrow> snd x < length ls \<and> ls ! snd x \<noteq> [] \<and> fst x = hd (ls ! snd x)"
  by (cases x) (auto simp: heads_def)

lemma set_tagged: "x \<in> set (tagged ls) \<longleftrightarrow> snd x < length ls \<and> fst x \<in> set (ls ! snd x)"
  by (cases x) (auto simp: tagged_def)

lemma mset_concat_upd:
  assumes "i < n" "\<And>j. j < n \<Longrightarrow> j \<noteq> i \<Longrightarrow> f j = g j"
  shows "mset (concat (map f [0..<n])) + mset (g i) = mset (concat (map g [0..<n])) + mset (f i)"
proof -
  have n: "[0..<n] = [0..<i] @ i # [Suc i..<n]" using assms(1) upt_add_eq_append [of 0 i "n - i"] upt_conv_Cons [of i n] by simp
  have "map f [0..<i] = map g [0..<i]" "map f [Suc i..<n] = map g [Suc i..<n]" using assms by auto
  then show ?thesis unfolding n map_append concat_append list.map concat.simps mset_append by (simp only: ac_simps)
qed

lemma tagged_pop:
  assumes "i < length ls" "ls ! i = e # es"
  shows "mset (tagged ls) = add_mset (e, i) (mset (tagged (ls[i := es])))"
  using mset_concat_upd [of i "length ls" "\<lambda>j. map (\<lambda>e. (e, j)) (ls ! j)" "\<lambda>j. map (\<lambda>e. (e, j)) (ls[i := es] ! j)"] assms
  by (simp add: tagged_def)

lemma heads_pop:
  assumes "i < length ls" "ls ! i = e # es"
  shows "mset (heads (ls[i := es])) = mset (heads ls) - {#(e, i)#} + (if es = [] then {#} else {#(hd es, i)#})"
proof -
  define head where "head l j = (if l = [] then [] else [(hd l :: kv_entry, j :: nat)])" for l j
  have h: "heads ls = concat (map (\<lambda>j. head (ls ! j) j) [0..<length ls])" for ls
    by (simp add: heads_def head_def)
  have "mset (heads ls) + mset (head es i) = mset (heads (ls[i := es])) + mset (head (e # es) i)"
    using mset_concat_upd [of i "length ls" "\<lambda>j. head (ls ! j) j" "\<lambda>j. head (ls[i := es] ! j) j"] assms
    by (simp add: h)
  then have "mset (heads ls) + mset (head es i) = add_mset (e, i) (mset (heads (ls[i := es])))"
    unfolding head_def [of "e # es"] by simp
  moreover have "(e, i) \<in># mset (heads ls)" using assms by (simp add: set_heads)
  then obtain K where "mset (heads ls) = add_mset (e, i) K" by (metis mset_add)
  ultimately have "mset (heads (ls[i := es])) = mset (heads ls) - {#(e, i)#} + mset (head es i)" by simp
  then show ?thesis by (simp add: head_def)
qed

lemma rank_inj:
  assumes "\<forall>l \<in> set ls. table_sorted l"
  shows "inj_on item_rank (set (tagged ls))"
proof (rule inj_onI)
  fix x y assume xy: "x \<in> set (tagged ls)" "y \<in> set (tagged ls)" "item_rank x = item_rank y"
  obtain a i b j where x: "x = (a, i)" and y: "y = (b, j)" by fastforce
  have ij: "i = j" using xy(3) by (cases a; cases b) (simp add: x y)
  then have s: "table_sorted (ls ! i)" "a \<in> set (ls ! i)" "b \<in> set (ls ! i)" "i < length ls"
    using xy assms by (auto simp: set_tagged x y)
  then obtain m n where mn: "m < length (ls ! i)" "n < length (ls ! i)" "a = ls ! i ! m" "b = ls ! i ! n"
    by (metis in_set_conv_nth)
  have "\<not> entry_lt a b" "\<not> entry_lt b a" using entry_lt_rank [of _ _ i] xy(3) by (simp_all add: x y ij)
  then have "m = n" using s(1) mn by (metis nat_neq_iff sorted_wrt_nth_less)
  then show "x = y" by (simp add: x y ij mn)
qed

lemma sorted_pop:
  assumes ls: "\<forall>l \<in> set ls. table_sorted l" and i: "i < length ls" "ls ! i = e # es"
    and least: "\<forall>x \<in> set (heads ls). item_rank (e, i) \<le> item_rank x"
  shows "sort_key item_rank (tagged ls) = (e, i) # sort_key item_rank (tagged (ls[i := es]))"
proof (rule sort_key_inj_key_eq)
  show "mset (tagged ls) = mset ((e, i) # sort_key item_rank (tagged (ls[i := es])))"
    using tagged_pop [OF i] by simp
  show "inj_on item_rank (set (tagged ls))" by (rule rank_inj [OF ls])
  have "item_rank (e, i) \<le> item_rank x" if "x \<in> set (tagged (ls[i := es]))" for x
  proof -
    have "x \<in># mset (tagged ls)" using that unfolding tagged_pop [OF i] by simp
    then have x: "snd x < length ls" "fst x \<in> set (ls ! snd x)" by (simp_all add: set_tagged)
    then obtain l where l: "ls ! snd x = hd (ls ! snd x) # l" by (cases "ls ! snd x") auto
    have "table_sorted (ls ! snd x)" using ls x by simp
    then have "fst x = hd (ls ! snd x) \<or> entry_lt (hd (ls ! snd x)) (fst x)"
      using x(2) by (subst (asm) (1 2) l) auto
    then have "item_rank (hd (ls ! snd x), snd x) \<le> item_rank (fst x, snd x)"
      using entry_lt_rank [of _ "fst x" "snd x"] by (metis less_imp_le order_refl)
    then have "item_rank (hd (ls ! snd x), snd x) \<le> item_rank x" unfolding prod.collapse .
    moreover have "(hd (ls ! snd x), snd x) \<in> set (heads ls)" using x l by (auto simp: set_heads)
    ultimately show ?thesis using least by (meson order_trans)
  qed
  then show "sorted (map item_rank ((e, i) # sort_key item_rank (tagged (ls[i := es]))))" by simp
qed

text \<open>
  A source of entries: each call delivers the next of the entries it stands for, or none at the
  end. The merge needs no more than this of the streams.
\<close>

locale entry_source =
  fixes next_entry :: "'s \<Rightarrow> (kv_entry option \<times> 's) res" and repr :: "'s \<Rightarrow> kv_entry list \<Rightarrow> bool"
  assumes next_repr: "repr s es \<Longrightarrow>
    \<exists>s'. next_entry s = Inr (if es = [] then None else Some (hd es), s') \<and> repr s' (tl es)"
begin

lemma heap_init_heads:
  assumes "list_all2 repr ss ls"
  shows "\<exists>heap ss'. heap_init next_entry n ss = Inr (heap, ss') \<and> list_all2 repr ss' (map tl ls) \<and>
    heap = concat (map (\<lambda>i. if ls ! i = [] then [] else [(hd (ls ! i), n + i)]) [0..<length ls])"
  using assms
proof (induction ss ls arbitrary: n rule: list_all2_induct)
  case (Cons s ss l ls)
  obtain s' where s': "next_entry s = Inr (if l = [] then None else Some (hd l), s')" "repr s' (tl l)"
    using next_repr [OF Cons.hyps(1)] by blast
  obtain heap ss' where IH: "heap_init next_entry (Suc n) ss = Inr (heap, ss')" "list_all2 repr ss' (map tl ls)"
    "heap = concat (map (\<lambda>i. if ls ! i = [] then [] else [(hd (ls ! i), Suc n + i)]) [0..<length ls])"
    using Cons.IH [of "Suc n"] by blast
  have "map (\<lambda>i. if (l # ls) ! i = [] then [] else [(hd ((l # ls) ! i), n + i)]) [0..<length (l # ls)] =
     (if l = [] then [] else [(hd l, n)]) #
     map (\<lambda>i. if ls ! i = [] then [] else [(hd (ls ! i), Suc n + i)]) [0..<length ls]"
    unfolding length_Cons upt_conv_Cons [OF zero_less_Suc] map_Suc_upt [symmetric] by (simp add: comp_def)
  then show ?case using s' IH by auto
qed simp

lemma merge_loop_sorts:
  assumes "list_all2 repr streams (map tl ls)" and "mset heap = mset (heads ls)"
    and "\<forall>l \<in> set ls. table_sorted l" and "\<And>n. interrupt n = None"
  shows "merge_loop next_entry add interrupt step streams heap st n b =
    Some (add_all add (retain step (merged ls) st) b)"
  using assms(1-3)
proof (induction "length (tagged ls)" arbitrary: ls streams heap st n b rule: less_induct)
  case less
  show ?case
  proof (cases "heap_pop heap")
    case None
    then have "heap = []" by simp
    then have "heads ls = []" using less.prems(2) by simp
    then have "ls ! i = []" if "i < length ls" for i using that set_heads [of "(hd (ls ! i), i)" ls] by auto
    then have "tagged ls = []" by (simp add: tagged_def)
    then show ?thesis using None by (subst merge_loop.simps) (simp add: merged_def)
  next
    case (Some p)
    obtain e i heap' where p: "p = ((e, i), heap')" by (metis prod.exhaust)
    note pop = heap_pop_Some [OF Some [unfolded p]]
    have set: "set heap = set (heads ls)" using less.prems(2) by (metis set_mset_mset)
    then obtain es where i: "i < length ls" "ls ! i = e # es"
      using pop(1) by (auto simp: set_heads neq_Nil_conv)
    have least: "\<forall>x \<in> set (heads ls). item_rank (e, i) \<le> item_rank x" using pop(3) set by simp
    let ?ls = "ls[i := es]"
    have sort: "merged ls = e # merged ?ls"
      using sorted_pop [OF less.prems(3) i least] by (simp add: merged_def)
    have len: "length streams = length ls" using less.prems(1) by (auto dest: list_all2_lengthD)
    have "repr (streams ! i) es" using list_all2_nthD2 [OF less.prems(1), of i] i by simp
    moreover define nxt where "nxt = (if es = [] then None else Some (hd es))"
    ultimately obtain s' where s': "next_entry (streams ! i) = Inr (nxt, s')" "repr s' (tl es)"
      using next_repr by blast
    let ?heap = "case nxt of None \<Rightarrow> heap' | Some e \<Rightarrow> (e, i) # heap'"
    have "merge_loop next_entry add interrupt step (streams[i := s']) ?heap st' (Suc n) b' =
        Some (add_all add (retain step (merged ?ls) st') b')" for st' b'
    proof (rule less.hyps)
      show "length (tagged ?ls) < length (tagged ls)"
        using arg_cong [OF tagged_pop [OF i], of size] by simp
      show "list_all2 repr (streams[i := s']) (map tl ?ls)"
        using list_all2_update_cong [OF less.prems(1) s'(2)] by (simp add: map_update)
      show "mset ?heap = mset (heads ?ls)"
        unfolding heads_pop [OF i] less.prems(2) [symmetric] pop(2) by (simp add: nxt_def)
      show "\<forall>l \<in> set ?ls. table_sorted l"
        using less.prems(3) i set_update_subset_insert [of ls i es] nth_mem [OF i(1)] by fastforce
    qed
    moreover obtain emit st' where step: "step e st = (emit, st')" by fastforce
    ultimately show ?thesis
      unfolding sort using s'(1)
      by (subst merge_loop.simps)
        (cases emit; cases "add e b"; simp only: Some p assms(4) step retain.simps fst_conv snd_conv
          option.case sum.case prod.case Let_def if_True if_False append_Cons append_Nil add_all.simps
          rbind_Inl rbind_Inr)
  qed
qed

end

section \<open>Merging tables\<close>

definition source_repr ::
    "(bytes \<Rightarrow> u32) \<Rightarrow> (bytes \<Rightarrow> bytes) \<Rightarrow> sst_reader \<times> sst_stream \<Rightarrow> kv_entry list \<Rightarrow> bool" where
  "source_repr crc32 blake3 = (\<lambda>(R, S) es. \<exists>gs. reader_repr crc32 blake3 R gs \<and> stream_repr blake3 gs S es)"

interpretation sst_source: entry_source "source_next crc32" "source_repr crc32 blake3" for crc32 blake3
proof
  fix s es assume "source_repr crc32 blake3 s es"
  then obtain R S gs where s: "s = (R, S)" "reader_repr crc32 blake3 R gs" "stream_repr blake3 gs S es"
    by (auto simp: source_repr_def)
  from stream_next_repr [OF s(2,3)] obtain S' where "stream_repr blake3 gs S' (tl es)"
    "stream_next crc32 R S = Inr (if es = [] then None else Some (hd es), S')" by blast
  with s show "\<exists>s'. source_next crc32 s = Inr (if es = [] then None else Some (hd es), s') \<and>
      source_repr crc32 blake3 s' (tl es)"
    by (auto simp: source_next_def source_repr_def)
qed

text \<open>
  An open table that holds the given entries, one for each of its keys, in the order of the keys: the tables
  that flushes write, and outputs of a merge that kept one version of each key.
\<close>

definition holds_entries :: "(bytes \<Rightarrow> u32) \<Rightarrow> (bytes \<Rightarrow> bytes) \<Rightarrow> sst_reader \<Rightarrow> kv_entry list \<Rightarrow> bool" where
  "holds_entries crc32 blake3 R es \<longleftrightarrow> (\<exists>gs. reader_repr crc32 blake3 R gs \<and> concat gs = es)"

lemma strict_table_sorted:
  assumes "sorted_wrt (<) (map fst es)"
  shows "table_sorted es"
proof (rule sorted_wrt_mono_rel [of _ "\<lambda>a b. fst a < fst b"])
  show "sorted_wrt (\<lambda>a b. fst a < fst b) es" using assms by (simp add: sorted_wrt_map)
  fix a b :: kv_entry assume "fst a < fst b"
  then show "entry_lt a b" by (cases a; cases b) simp
qed

lemma holds_entries_sorted: "holds_entries crc32 blake3 R es \<Longrightarrow> sorted_wrt (<) (map fst es)"
  by (auto simp: holds_entries_def reader_repr_def)

lemma add_all_builder: "add_all (builder_add crc32 blake3) es b = sst_add_all crc32 blake3 es b"
  by (induction es arbitrary: b) (auto simp: builder_add_def rbind_def split: sum.split)

lemma merge_sstables_builds:
  assumes "list_all2 (holds_entries crc32 blake3) Rs ls" and "\<And>n. merge_interrupt cfg env n = None"
  shows "merge_sstables cfg env crc32 blake3 fm fh km Rs m full =
    Some (rbind (sst_build crc32 blake3 fm fh km (retain (retain_step m full) (merged ls) retain_start))
      (\<lambda>(file, meta). Inr file))"
proof -
  have len: "length Rs = length ls" using assms(1) by (rule list_all2_lengthD)
  have "source_repr crc32 blake3 (Rs ! i, stream_new) (ls ! i)" if i: "i < length Rs" for i
  proof -
    obtain gs where gs: "reader_repr crc32 blake3 (Rs ! i) gs" "concat gs = ls ! i"
      using list_all2_nthD [OF assms(1) i] by (auto simp: holds_entries_def)
    then have "stream_repr blake3 gs stream_new (ls ! i)" using stream_new_repr [of blake3 gs] by simp
    with gs(1) show ?thesis by (auto simp: source_repr_def)
  qed
  then have "list_all2 (source_repr crc32 blake3) (map (\<lambda>R. (R, stream_new)) Rs) ls"
    using len by (simp add: list_all2_conv_all_nth)
  from sst_source.heap_init_heads [OF this, of 0] obtain heap ss where
    init: "heap_init (source_next crc32) 0 (map (\<lambda>R. (R, stream_new)) Rs) = Inr (heap, ss)"
      "list_all2 (source_repr crc32 blake3) ss (map tl ls)" "heap = heads ls"
    unfolding heads_def add_0 by blast
  have "\<forall>l \<in> set ls. table_sorted l"
    using assms(1) holds_entries_sorted strict_table_sorted by (metis in_set_conv_nth list_all2_nthD2)
  then have "merge_loop (source_next crc32) (builder_add crc32 blake3) (merge_interrupt cfg env)
      (retain_step m full) ss heap retain_start 0 (sst_create fm fh km) =
    Some (sst_add_all crc32 blake3 (retain (retain_step m full) (merged ls) retain_start) (sst_create fm fh km))"
    using sst_source.merge_loop_sorts [OF init(2), where interrupt = "merge_interrupt cfg env" and add = "builder_add crc32 blake3"] init(3) assms(2)
    by (simp add: add_all_builder)
  then show ?thesis
    by (simp add: merge_sstables_def init(1) sst_build_def rbind_def split: sum.split)
qed

section \<open>What the merge keeps\<close>

fun entry_raw :: "kv_entry \<Rightarrow> u64" where
  "entry_raw (k, v, s, t) = raw_seq s"

definition newest_first :: "kv_entry list \<Rightarrow> bool" where
  "newest_first es \<longleftrightarrow> sorted_wrt (\<lambda>a b. fst a < fst b \<or> fst a = fst b \<and> entry_raw b \<le> entry_raw a) es"

lemma newest_first_Cons:
  "newest_first (e # es) \<longleftrightarrow> newest_first es \<and> (\<forall>b \<in> set es. fst e < fst b \<or> fst e = fst b \<and> entry_raw b \<le> entry_raw e)"
  by (auto simp: newest_first_def)

lemma newest_first_merged: "newest_first (merged ls)"
proof -
  have r: "fst (fst a) < fst (fst b) \<or> fst (fst a) = fst (fst b) \<and> entry_raw (fst b) \<le> entry_raw (fst a)"
    if "item_rank a \<le> item_rank b" for a b
    using that by (cases a rule: item_rank.cases; cases b rule: item_rank.cases)
      (auto simp: less_eq_prod_def word_le_def)
  have "sorted_wrt (\<lambda>a b. item_rank a \<le> item_rank b) (sort_key item_rank (tagged ls))"
    using sorted_sort_key [of item_rank "tagged ls"] by (simp add: sorted_map)
  from sorted_wrt_mono_rel [OF r this] show ?thesis
    by (simp add: newest_first_def merged_def sorted_wrt_map)
qed

lemma mset_merged: "mset (merged ls) = mset (concat ls)"
proof -
  have "map fst (tagged ls) = concat (map (\<lambda>i. ls ! i) [0..<length ls])"
    by (simp add: tagged_def map_concat comp_def)
  then have "mset (map fst (tagged ls)) = mset (concat ls)" by (simp only: map_nth)
  then show ?thesis by (simp only: merged_def mset_map mset_sort)
qed

text \<open>After the floor version of a key, no further version of it is written.\<close>

lemma retain_after_floor:
  assumes "newest_first es" and "\<forall>e \<in> set es. fst e = k \<longrightarrow> entry_raw e < m" and "\<forall>e \<in> set es. k \<le> fst e"
    and "rs_last_key st = Some k" "rs_floor_emitted st"
  shows "\<forall>e \<in> set (retain (retain_step m full) es st). fst e \<noteq> k"
  using assms
proof (induction es arbitrary: st)
  case (Cons e es)
  obtain key v s t where e: "e = (key, v, s, t)" by (metis prod.exhaust)
  have sub: "set (retain step es st') \<subseteq> set es" for step es st' by (induction es arbitrary: st') auto
  show ?case
  proof (cases "key = k")
    case True
    then have "\<not> m \<le> raw_seq s" using Cons.prems(2) e by (simp add: not_le)
    then have "retain_step m full e st = (False, st)" using Cons.prems(4,5) True e by simp
    then show ?thesis using Cons by (simp add: newest_first_Cons)
  next
    case False
    then have "k < key" using Cons.prems(3) e by auto
    then have "\<forall>x \<in> set (e # es). fst x \<noteq> k" using Cons.prems(1) e by (auto simp: newest_first_Cons)
    then show ?thesis using sub [of "retain_step m full" "e # es" st] by blast
  qed
qed simp

text \<open>
  Of every key the newest version, the first in the merged order, is retained, unless a full
  compaction drops it as a tombstone below the bound.
\<close>

lemma newest_retain:
  assumes "newest_first es" and "\<not> (rs_last_key st = Some k \<and> rs_floor_emitted st)"
  shows "map_of (retain (retain_step m full) es st) k =
    (case map_of es k of
       None \<Rightarrow> None
     | Some (v, q, t) \<Rightarrow> if full \<and> is_tombstone q \<and> raw_seq q < m then None else Some (v, q, t))"
  using assms
proof (induction es arbitrary: st)
  case (Cons e es)
  obtain key v q t where e: "e = (key, v, q, t)" by (metis prod.exhaust)
  obtain emit st' where step: "retain_step m full e st = (emit, st')" by fastforce
  have nf: "newest_first es" using Cons.prems(1) by (simp add: newest_first_Cons)
  show ?case
  proof (cases "key = k")
    case True
    show ?thesis
    proof (cases emit)
      case emitted: True
      then have "\<not> (full \<and> is_tombstone q \<and> raw_seq q < m)"
        using step by (auto simp: e Let_def split: if_splits)
      then show ?thesis using True step emitted by (auto simp: e)
    next
      case gc: False
      have old: "raw_seq q < m" "full" "is_tombstone q" and st': "rs_last_key st' = Some k" "rs_floor_emitted st'"
        using gc step True Cons.prems(2) by (auto simp: e Let_def not_le split: if_splits)
      have "\<forall>x \<in> set (retain (retain_step m full) es st'). fst x \<noteq> k"
      proof (rule retain_after_floor [OF nf _ _ st'])
        show "\<forall>e \<in> set es. fst e = k \<longrightarrow> entry_raw e < m" "\<forall>e \<in> set es. k \<le> fst e"
          using Cons.prems(1) True old(1) by (auto simp: newest_first_Cons e)
      qed
      then have "map_of (retain (retain_step m full) es st') k = None"
        by (auto simp: map_of_eq_None_iff)
      then show ?thesis using gc step True old by (simp add: e)
    qed
  next
    case False
    then have "\<not> (rs_last_key st' = Some k \<and> rs_floor_emitted st')"
      using step Cons.prems(2) by (auto simp: e Let_def split: if_splits)
    from Cons.IH [OF nf this] False step show ?thesis by (auto simp: e)
  qed
qed simp

lemma retain_start_fresh: "\<not> (rs_last_key retain_start = Some k \<and> rs_floor_emitted retain_start)"
  by (simp add: retain_start_def)

lemma retain_subset: "set (retain step es st) \<subseteq> set es"
  by (induction es arbitrary: st) auto

text \<open>With a bound above every version, one version per key is left.\<close>

lemma retain_one_version:
  assumes "newest_first es" and "\<forall>e \<in> set es. entry_raw e < m"
    and "\<forall>k. rs_last_key st = Some k \<longrightarrow> (\<forall>e \<in> set es. k \<le> fst e) \<and> rs_floor_emitted st"
  shows "sorted_wrt (<) (map fst (retain (retain_step m full) es st)) \<and>
    (\<forall>k. rs_last_key st = Some k \<longrightarrow> (\<forall>e \<in> set (retain (retain_step m full) es st). fst e \<noteq> k))"
  using assms
proof (induction es arbitrary: st)
  case (Cons e es)
  obtain key v q t where e: "e = (key, v, q, t)" by (metis prod.exhaust)
  obtain emit st' where step: "retain_step m full e st = (emit, st')" by fastforce
  have st': "rs_last_key st' = Some key" "rs_floor_emitted st'" "emit \<Longrightarrow> rs_last_key st \<noteq> Some key"
    using step Cons.prems(2,3) by (auto simp: e Let_def not_le split: if_splits)
  have ge: "\<forall>x \<in> set es. key \<le> fst x" using Cons.prems(1) by (auto simp: newest_first_Cons e)
  have IH: "sorted_wrt (<) (map fst (retain (retain_step m full) es st'))"
    "\<forall>x \<in> set (retain (retain_step m full) es st'). fst x \<noteq> key"
    using Cons.IH [of st'] Cons.prems st' ge by (auto simp: newest_first_Cons)
  have gt: "\<forall>x \<in> set (retain (retain_step m full) es st'). key < fst x"
    using IH(2) ge retain_subset [of "retain_step m full" es st'] by fastforce
  have "fst x \<noteq> k" if "rs_last_key st = Some k" "x \<in> set (retain (retain_step m full) es st')" for x k
    using gt that Cons.prems(3) e by fastforce
  moreover have "retain (retain_step m full) (e # es) st = (if emit then [e] else []) @ retain (retain_step m full) es st'"
    by (simp only: retain.simps step fst_conv snd_conv)
  moreover have "\<forall>k. rs_last_key st = Some k \<longrightarrow> key \<noteq> k" if emit using st'(3) that by blast
  ultimately show ?case
    using IH(1) gt by (cases emit) (simp_all add: e del: retain.simps)
qed simp

lemma sst_build_ok:
  assumes "km_opt_lawful km" "\<forall>e \<in> set es. entry_fits e"
  shows "\<exists>file meta. sst_build crc32 blake3 fm fh km es = Inr (file, meta)"
proof -
  from sst_add_all_inv [OF sst_create_inv [OF assms(1)] assms(2), of crc32 blake3 fm fh] obtain S gs bs cur where
    S: "sst_add_all crc32 blake3 es (sst_create fm fh km) = Inr S" "sst_inv crc32 blake3 S gs bs cur" by blast
  from flush_all_inv [OF S(2)] obtain S' where "flush_block crc32 S = Inr S'" by blast
  with S(1) show ?thesis by (simp add: sst_build_def sst_finish_def Let_def)
qed

lemma entry_raw_less_max: "entry_raw e < - 1"
proof -
  obtain k v s t where e: "e = (k, v, s, t)" by (metis prod.exhaust)
  have "bit (- 1 :: u64) 63" "\<not> bit (raw_seq s) 63"
    using is_tombstone_bit [of "raw_seq s"] by (simp_all add: bit_minus_1_iff)
  then have "raw_seq s \<noteq> - 1" by metis
  then show ?thesis using word_order.extremum [of "raw_seq s"] by (simp add: e less_le)
qed

lemma retained_fits:
  assumes "\<forall>l \<in> set ls. \<forall>e \<in> set l. entry_fits e"
  shows "\<forall>e \<in> set (retain step (merged ls) st). entry_fits e"
proof
  fix e assume "e \<in> set (retain step (merged ls) st)"
  then have "e \<in> set (merged ls)" using retain_subset by blast
  then have "e \<in># mset (concat ls)" unfolding mset_merged [symmetric] by simp
  then obtain l where "l \<in> set ls" "e \<in> set l" unfolding set_mset_mset set_concat by blast
  with assms show "entry_fits e" by blast
qed

lemma mem_merged: "e \<in> set (merged ls) \<longleftrightarrow> (\<exists>l \<in> set ls. e \<in> set l)"
proof -
  have "e \<in># mset (merged ls) \<longleftrightarrow> e \<in># mset (concat ls)" by (simp only: mset_merged)
  then show ?thesis unfolding set_mset_mset set_concat by blast
qed

lemma newest_first_map_of:
  assumes "newest_first es" "map_of es k = Some x" "(k, y) \<in> set es"
  shows "entry_raw (k, y) \<le> entry_raw (k, x)"
  using assms
proof (induction es)
  case (Cons e es)
  then show ?case
  proof (cases "fst e = k")
    case True
    then have e: "e = (k, x)" using Cons.prems(2) by (cases e) simp
    show ?thesis
    proof (cases "(k, y) = e")
      case False
      then have "(k, y) \<in> set es" using Cons.prems(3) by simp
      with Cons.prems(1) show ?thesis unfolding newest_first_Cons e by fastforce
    qed (simp add: e)
  qed (auto simp: newest_first_Cons)
qed simp

text \<open>The newest entry of a key in the merged order is the newest of what the tables return.\<close>

lemma holds_get: "holds_entries crc32 blake3 R es \<Longrightarrow> sst_get crc32 blake3 R k = Inr (map_of es k)"
  using sst_get_repr by (auto simp: holds_entries_def)

lemma mem_tables:
  assumes "list_all2 (holds_entries crc32 blake3) Rs ls"
  shows "(\<exists>I \<in> set Rs. sst_get crc32 blake3 I k = Inr (Some x)) \<longleftrightarrow> (k, x) \<in> set (merged ls)"
proof -
  have "sst_get crc32 blake3 (Rs ! i) k = Inr (Some x) \<longleftrightarrow> (k, x) \<in> set (ls ! i)" if "i < length Rs" for i
  proof -
    have h: "holds_entries crc32 blake3 (Rs ! i) (ls ! i)" using list_all2_nthD [OF assms that] .
    have "distinct (map fst (ls ! i))"
      using holds_entries_sorted [OF h] by (simp add: strict_sorted_iff)
    then show ?thesis using holds_get [OF h] by simp
  qed
  moreover have "length Rs = length ls" using assms by (rule list_all2_lengthD)
  moreover have "(\<exists>I \<in> set Rs. sst_get crc32 blake3 I k = Inr (Some x)) \<longleftrightarrow>
      (\<exists>i < length Rs. sst_get crc32 blake3 (Rs ! i) k = Inr (Some x))"
    by (metis in_set_conv_nth)
  moreover have "(\<exists>l \<in> set ls. (k, x) \<in> set l) \<longleftrightarrow> (\<exists>i < length ls. (k, x) \<in> set (ls ! i))"
    by (metis in_set_conv_nth)
  ultimately show ?thesis unfolding mem_merged by auto
qed

lemma merged_newest:
  assumes "list_all2 (holds_entries crc32 blake3) Rs ls"
  defines "C \<equiv> \<lambda>k. {x. \<exists>I \<in> set Rs. sst_get crc32 blake3 I k = Inr (Some x)}"
  shows "map_of (merged ls) k = None \<longleftrightarrow> C k = {}"
    and "map_of (merged ls) k = Some (v, s, t) \<Longrightarrow>
      (v, s, t) \<in> C k \<and> (\<forall>(v', s', t') \<in> C k. raw_seq s' \<le> raw_seq s)"
proof -
  have C: "x \<in> C k \<longleftrightarrow> (k, x) \<in> set (merged ls)" for x
    using mem_tables [OF assms(1)] by (simp add: C_def)
  show "map_of (merged ls) k = None \<longleftrightarrow> C k = {}"
  proof -
    have "map_of (merged ls) k = None \<longleftrightarrow> (\<forall>x. (k, x) \<notin> set (merged ls))"
      by (force simp: map_of_eq_None_iff)
    with C show ?thesis by blast
  qed
  assume m: "map_of (merged ls) k = Some (v, s, t)"
  have "raw_seq s' \<le> raw_seq s" if "(v', s', t') \<in> C k" for v' s' t'
    using newest_first_map_of [OF newest_first_merged m] that C by fastforce
  with map_of_SomeD [OF m] C
  show "(v, s, t) \<in> C k \<and> (\<forall>(v', s', t') \<in> C k. raw_seq s' \<le> raw_seq s)" by auto
qed

section \<open>Properties of the merge\<close>

text \<open>
  C9. The merge ends and is exact: over tables with any entries, not interrupted, it returns the file
  that the builder makes of the retained entries of the sorted union of the tables, and that union
  has every entry of every table once, by key and then newest first.
\<close>
theorem compaction_merge_exact:
  assumes "list_all2 (holds_entries crc32 blake3) Rs ls" and "\<forall>l \<in> set ls. \<forall>e \<in> set l. entry_fits e"
    and "km_opt_lawful km" and "\<forall>n. merge_interrupt cfg env n = None"
  shows "\<exists>file meta. merge_sstables cfg env crc32 blake3 fm fh km Rs m full = Some (Inr file) \<and>
    sst_build crc32 blake3 fm fh km (retain (retain_step m full) (merged ls) retain_start) = Inr (file, meta) \<and>
    mset (merged ls) = mset (concat ls) \<and> newest_first (merged ls)"
proof -
  from sst_build_ok [OF assms(3) retained_fits [OF assms(2)]] obtain out meta where
    f: "sst_build crc32 blake3 fm fh km (retain (retain_step m full) (merged ls) retain_start) = Inr (out, meta)" by blast
  have "merge_sstables cfg env crc32 blake3 fm fh km Rs m full = Some (Inr out)"
    using merge_sstables_builds [OF assms(1), of cfg env fm fh km m full] assms(4) f by simp
  with f mset_merged newest_first_merged show ?thesis by blast
qed

text \<open>An open table for the witnesses.\<close>

definition example_config :: compaction_config where
  "example_config = \<lparr>cc_min_sstables_per_tier = 2, cc_ratio_le = (\<lambda>a b. a \<le> 4 * b), cc_yield_threshold = 1000,
     cc_max_memory_bytes = None, cc_max_peak_memory_bytes = None\<rparr>"

definition example_env :: merge_env where
  "example_env = \<lparr>me_cancelled = (\<lambda>n. False), me_wait = (\<lambda>n. WaitOk)\<rparr>"

lemma example_runs: "merge_interrupt example_config example_env n = None"
  by (simp add: merge_interrupt_def example_config_def example_env_def)

lemma example_table:
  "\<exists>R. holds_entries (\<lambda>d. 0) (\<lambda>d. []) R [([1], [2], 3, 4)]"
proof -
  have "km_opt_lawful (Some km_plain)" using plain.lawful by (simp add: km_opt_lawful_def)
  from sst_build_open [OF this, of "[([1], [2], 3, 4)]" "\<lambda>d. 0" "\<lambda>d. []" 64 1]
  obtain f meta where f: "sst_build (\<lambda>d. 0) (\<lambda>d. []) 64 1 (Some km_plain) [([1], [2], 3, 4)] = Inr (f, meta)"
    "length f < 2 ^ 64 \<longrightarrow> (\<exists>R gs. reader_repr (\<lambda>d. 0) (\<lambda>d. []) R gs \<and> concat gs = [([1], [2], 3, 4)])"
    by (auto simp: entry_fits_def MAX_VALUE_SIZE_def)
  have "length f < 2 ^ 64" using sst_example_size f(1) by simp
  with f show ?thesis by (auto simp: holds_entries_def)
qed

theorem compaction_merge_exact_witness:
  "\<exists>R file. merge_sstables example_config example_env (\<lambda>d. 0) (\<lambda>d. []) 64 1 (Some km_plain) [R, R] 7 True = Some (Inr file)"
proof -
  obtain R where R: "holds_entries (\<lambda>d. 0) (\<lambda>d. []) R [([1], [2], 3, 4)]" using example_table by blast
  have "km_opt_lawful (Some km_plain)" using plain.lawful by (simp add: km_opt_lawful_def)
  from compaction_merge_exact [OF _ _ this, of "\<lambda>d. 0" "\<lambda>d. []" "[R, R]" "[[([1], [2], 3, 4)], [([1], [2], 3, 4)]]"
      example_config example_env 64 1 7 True] R example_runs
  show ?thesis by (fastforce simp: entry_fits_def MAX_VALUE_SIZE_def)
qed

text \<open>
  C10. The merged table answers for its inputs. Let the bound lie above every version in the inputs,
  as it does when no snapshot is active (\<open>min_active_seqno\<close> is then \<open>u64::MAX\<close>). Then the merge,
  not interrupted, returns a file that opens, and \<open>get\<close> on it returns for every key the version
  with the greatest sequence number among those \<open>get\<close> returns on the input tables; it returns
  nothing when no input has the key, or when that version is a tombstone and the compaction is a
  full one.
\<close>
theorem compaction_result_reads:
  assumes "list_all2 (holds_entries crc32 blake3) Rs ls" and "\<forall>l \<in> set ls. \<forall>e \<in> set l. entry_fits e"
    and "km_opt_lawful km" and "\<forall>n. merge_interrupt cfg env n = None"
    and "\<forall>l \<in> set ls. \<forall>e \<in> set l. entry_raw e < m"
  shows "\<exists>file. merge_sstables cfg env crc32 blake3 fm fh km Rs m full = Some (Inr file) \<and>
    (length file < 2 ^ 64 \<longrightarrow> (\<exists>R. sst_open crc32 km file = Inr R \<and>
      (\<forall>k. let C = {x. \<exists>I \<in> set Rs. sst_get crc32 blake3 I k = Inr (Some x)}
        in if C = {} then sst_get crc32 blake3 R k = Inr None
           else \<exists>v s t. (v, s, t) \<in> C \<and> (\<forall>(v', s', t') \<in> C. raw_seq s' \<le> raw_seq s) \<and>
             sst_get crc32 blake3 R k = Inr (if full \<and> is_tombstone s then None else Some (v, s, t)))))"
proof -
  let ?out = "retain (retain_step m full) (merged ls) retain_start"
  note fits = retained_fits [OF assms(2)]
  have below: "\<forall>e \<in> set (merged ls). entry_raw e < m" using assms(5) mem_merged by blast
  have sorted: "sorted_wrt (<) (map fst ?out)"
    using retain_one_version [OF newest_first_merged below, of retain_start full]
    by (simp add: retain_start_def)
  from sst_build_open [OF assms(3) fits sorted, of crc32 blake3 fm fh] obtain f meta where
    f: "sst_build crc32 blake3 fm fh km ?out = Inr (f, meta)"
      "length f < 2 ^ 64 \<Longrightarrow> \<exists>R gs. sst_open crc32 km f = Inr R \<and> reader_repr crc32 blake3 R gs \<and> concat gs = ?out"
    by blast
  have merge: "merge_sstables cfg env crc32 blake3 fm fh km Rs m full = Some (Inr f)"
    using merge_sstables_builds [OF assms(1), of cfg env fm fh km m full] assms(4) f(1) by simp
  have "let C = {x. \<exists>I \<in> set Rs. sst_get crc32 blake3 I k = Inr (Some x)}
        in if C = {} then sst_get crc32 blake3 R k = Inr None
           else \<exists>v s t. (v, s, t) \<in> C \<and> (\<forall>(v', s', t') \<in> C. raw_seq s' \<le> raw_seq s) \<and>
             sst_get crc32 blake3 R k = Inr (if full \<and> is_tombstone s then None else Some (v, s, t))"
    if "reader_repr crc32 blake3 R gs" "concat gs = ?out" for R gs k
  proof -
    have get: "sst_get crc32 blake3 R k = Inr (map_of ?out k)" using sst_get_repr [OF that(1)] that(2) by simp
    note new = newest_retain [OF newest_first_merged retain_start_fresh, of m full ls k]
    show ?thesis
    proof (cases "map_of (merged ls) k")
      case None
      with get new merged_newest(1) [OF assms(1), of k] show ?thesis by simp
    next
      case (Some x)
      obtain v s t where x: "x = (v, s, t)" by (cases x)
      have "(k, v, s, t) \<in> set (merged ls)" using map_of_SomeD [OF Some] x by simp
      with below have "entry_raw (k, v, s, t) < m" by blast
      then have "sst_get crc32 blake3 R k = Inr (if full \<and> is_tombstone s then None else Some (v, s, t))"
        using get new Some x by simp
      moreover note mem = merged_newest(2) [OF assms(1) Some [unfolded x]]
      moreover have "{x. \<exists>I \<in> set Rs. sst_get crc32 blake3 I k = Inr (Some x)} \<noteq> {}" using mem by blast
      ultimately show ?thesis unfolding Let_def by (simp only: if_False) blast
    qed
  qed
  with f(2) merge show ?thesis by blast
qed

theorem compaction_result_reads_witness:
  "\<exists>R file. merge_sstables example_config example_env (\<lambda>d. 0) (\<lambda>d. []) 64 1 (Some km_plain) [R] (- 1) True = Some (Inr file)"
proof -
  obtain R where R: "holds_entries (\<lambda>d. 0) (\<lambda>d. []) R [([1], [2], 3, 4)]" using example_table by blast
  have "km_opt_lawful (Some km_plain)" using plain.lawful by (simp add: km_opt_lawful_def)
  from compaction_result_reads [OF _ _ this, of "\<lambda>d. 0" "\<lambda>d. []" "[R]" "[[([1], [2], 3, 4)]]"
      example_config example_env "- 1" 64 1 True] R example_runs entry_raw_less_max
  show ?thesis by (fastforce simp: entry_fits_def MAX_VALUE_SIZE_def simp del: entry_raw.simps)
qed

end
