(* ===== verification/Compaction_Run.thy ===== *)
theory Compaction_Run
  imports Compaction
begin

text \<open>
  Runs of the compaction engine: what selection picks, that the manifest keeps naming exactly the
  tables of the list, and what a run that fails, also in the middle of its manifest write, leaves
  behind.
\<close>

section \<open>Selection of the inputs\<close>

lemma mset_place_tier: "mset (concat (place_tier cfg ssts i tiers)) = add_mset i (mset (concat tiers))"
  by (induction tiers) auto

lemma mset_tiers: "mset (concat (fold (place_tier cfg ssts) is tiers)) = mset is + mset (concat tiers)"
  by (induction "is" arbitrary: tiers) (auto simp: mset_place_tier)

lemma tier_subset:
  assumes "tier \<in> set (fold (place_tier cfg ssts) [0..<n] [])"
  shows "mset tier \<subseteq># mset [0..<n]"
proof -
  have "mset tier \<subseteq># mset (concat xss)" if "tier \<in> set xss" for xss :: "nat list list"
    using that by (induction xss) (auto intro: subset_mset.order_trans [OF _ mset_subset_eq_add_right])
  from this [OF assms] show ?thesis by (simp add: mset_tiers)
qed

lemma mset_pick:
  assumes "mset is \<subseteq># mset [0..<length ssts]"
  shows "mset (map (\<lambda>i. ssts ! i) (sort_key f is)) \<subseteq># mset ssts"
proof -
  have "mset (map (\<lambda>i. ssts ! i) is) \<subseteq># mset (map (\<lambda>i. ssts ! i) [0..<length ssts])"
    using image_mset_subseteq_mono [OF assms, of "\<lambda>i. ssts ! i"] by (simp del: upt_Suc)
  then show ?thesis by (simp only: map_nth mset_map mset_sort)
qed

lemma find_in_set: "find P xs = Some x \<Longrightarrow> x \<in> set xs \<and> P x"
  by (induction xs) (auto split: if_splits)

lemma select_candidates:
  assumes "select_compaction_candidates cfg ssts = Some cs"
  shows "mset cs \<subseteq># mset ssts" "cc_min_sstables_per_tier cfg \<le> length cs"
proof -
  let ?min = "cc_min_sstables_per_tier cfg"
  let ?tiers = "sort_key (tier_key ssts) (fold (place_tier cfg ssts) [0..<length ssts] [])"
  let ?key = "\<lambda>i. sh_max_seq (ssts ! i)"
  obtain js where js: "cs = map (\<lambda>i. ssts ! i) (sort_key ?key js)" "mset js \<subseteq># mset [0..<length ssts]" "?min \<le> length js"
  proof (cases "find (\<lambda>tier. ?min \<le> length tier) ?tiers")
    case None
    let ?is = "take ?min (sort_key (\<lambda>i. sh_size (ssts ! i)) [0..<length ssts])"
    have "cs = map (\<lambda>i. ssts ! i) (sort_key ?key ?is)" "?min * 2 \<le> length ssts"
      using assms None by (simp_all add: select_compaction_candidates_def Let_def split: if_splits)
    moreover have "mset ?is \<subseteq># mset [0..<length ssts]"
      by (metis append_take_drop_id mset_append mset_sort mset_subset_eq_add_left)
    ultimately show ?thesis using that by simp
  next
    case (Some tier)
    then have "tier \<in> set ?tiers" "?min \<le> length tier" using find_in_set [OF Some] by blast+
    moreover have "cs = map (\<lambda>i. ssts ! i) (sort_key ?key tier)"
      using assms Some by (simp add: select_compaction_candidates_def Let_def split: if_splits)
    ultimately show ?thesis using that tier_subset [of tier cfg ssts "length ssts"] by simp
  qed
  from mset_pick [OF js(2), of ?key] js show "mset cs \<subseteq># mset ssts" "?min \<le> length cs" by simp_all
qed

lemma compact_select_subset:
  "compact_select cfg ssts = Some (inputs, is_full) \<Longrightarrow> mset inputs \<subseteq># mset ssts"
  using select_candidates by (auto simp: compact_select_def split: if_splits option.splits)

text \<open>
  Selection picks whole tables, enough of them and in age order: the inputs of a run are at
  least two and at least the configured number of tables of the list, no table twice, sorted by
  their greatest sequence number; and the run counts as full exactly when every table is an input.
\<close>
theorem compaction_selection_sound:
  assumes "compact_select cfg ssts = Some (inputs, is_full)"
  shows "2 \<le> length inputs \<and> cc_min_sstables_per_tier cfg \<le> length inputs \<and> mset inputs \<subseteq># mset ssts \<and>
    sorted (map sh_max_seq inputs) \<and> (is_full \<longleftrightarrow> mset inputs = mset ssts)"
proof -
  obtain cs where cs: "select_compaction_candidates cfg ssts = Some cs" "2 \<le> length cs"
    "inputs = sort_key sh_max_seq cs" "is_full \<longleftrightarrow> length cs = length ssts"
    using assms by (auto simp: compact_select_def split: if_splits option.splits)
  note sel = select_candidates [OF cs(1)]
  have "length cs = length ssts \<longleftrightarrow> mset cs = mset ssts"
    using sel(1) by (metis mset_subset_size size_mset subset_mset.le_imp_less_or_eq less_irrefl)
  then show ?thesis using sel cs by simp
qed

theorem compaction_selection_sound_witness:
  "\<exists>ssts inputs. compact_select example_config ssts = Some (inputs, True) \<and> mset inputs = mset ssts"
proof -
  define h where "h = \<lparr>sh_id = 1, sh_path = [], sh_reader = undefined\<lparr>rd_metadata := undefined\<lparr>sm_file_size := 9, sm_max_seq := 3\<rparr>\<rparr>\<rparr>"
  have "compact_select example_config [h, h] = Some ([h, h], True)"
    by (simp add: compact_select_def select_compaction_candidates_def example_config_def same_tier_def
        sh_size_def sh_max_seq_def h_def tier_key_def numeral_2_eq_2)
  with compaction_selection_sound [OF this] show ?thesis by blast
qed

section \<open>Runs\<close>

text \<open>A run that does not install its table changes at most the manifest, by a failed append.\<close>

lemma append_replace_error:
  assumes "append_replace P fault old_paths R ins_point m = (Inl err, m')"
  shows "m' = m \<or> (\<exists>k log. fault = Some k \<and> m = Some log \<and>
    manifest_append_io (cp_crc32 P) (Some k)
      (MReplace old_paths (cp_output_path P) (sm_max_tx_id (rd_metadata R)) (of_nat ins_point)) log = (Inl err, the m') \<and> m' \<noteq> None)"
  using assms
  by (auto simp: append_replace_def manifest_append_io_def manifest_append_batch_io_def
      split: option.splits prod.splits sum.splits if_splits)

lemma maybe_compact_failed:
  assumes "maybe_compact P (\<lambda>i T. T) T = Some (r, T')" and "r \<noteq> Inr True"
  shows "T' = T"
  using assms
  by (auto simp: maybe_compact_def maybe_compact_io_def compact_install_io_def Let_def dest: append_replace_error
      split: option.split_asm sum.split_asm prod.split_asm)

definition example_params :: "path \<Rightarrow> compact_params" where
  "example_params out = \<lparr>cp_cfg = example_config, cp_env = example_env, cp_crc32 = (\<lambda>d. 0), cp_blake3 = (\<lambda>d. []),
     cp_fm = 64, cp_fh = 1, cp_km = Some km_plain, cp_scale = (\<lambda>n. n), cp_min_snapshot_seq = - 1,
     cp_output_path = out, cp_new_id = 7\<rparr>"

section \<open>Agreement with the manifest\<close>

text \<open>
  The table list and the manifest agree: the manifest is a log of well-formed entries whose
  reconstruction names exactly the tables of the list. File names are distinct and all paths
  together fit one manifest entry.
\<close>

definition sh_name :: "sst_handle \<Rightarrow> path" where
  "sh_name h = sst_name (sh_path h)"

definition paths_size :: "sst_handle list \<Rightarrow> nat" where
  "paths_size ssts = (\<Sum>h\<leftarrow>ssts. 4 + length (sh_path h))"

definition tables_ok :: "sst_handle list \<Rightarrow> bool" where
  "tables_ok ssts \<longleftrightarrow> distinct (map sh_id ssts) \<and> distinct (map sh_name ssts) \<and>
     (\<forall>h \<in> set ssts. utf8_valid (sh_path h) \<and> sh_path h \<noteq> [])"

definition manifest_agrees :: "(bytes \<Rightarrow> u32) \<Rightarrow> tables \<Rightarrow> bool" where
  "manifest_agrees crc32 T \<longleftrightarrow> tables_ok (fst T) \<and>
     (\<exists>es. snd T = Some (concat (map (frame crc32) es)) \<and> (\<forall>e \<in> set es. mentry_ok e) \<and>
       fst ` set (reconstruct_valid_sstables es) = sh_name ` set (fst T))"

lemma valid_names: "fst ` set (reconstruct_valid_sstables es) = fold live_step es {}"
  using replay_fold [of "[]" es 0] by (simp add: reconstruct_valid_sstables_def)

lemma manifest_append_ok:
  assumes "mentry_ok e"
  shows "manifest_append crc32 e log = Inr (log @ frame crc32 e)"
  using manifest_frames_ok [of "[e]" crc32] assms by (simp add: manifest_append_def manifest_append_batch_def)

lemma length_lpaths: "length (concat (map lpath ps)) = (\<Sum>p\<leftarrow>ps. 4 + length p)"
  by (induction ps) simp_all

text \<open>The inputs found again in the list, by identity, are the tables themselves.\<close>

lemma find_by_id:
  assumes "distinct (map sh_id ssts)" "h \<in> set ssts"
  shows "find (\<lambda>x. sh_id x = sh_id h) ssts = Some h"
  using assms by (induction ssts) (auto simp: image_iff)

lemma compact_check_inputs:
  assumes "distinct (map sh_id ssts)" "set inputs \<subseteq> set ssts"
  shows "\<exists>ins. compact_check inputs ssts = Some (ins, map sh_path inputs)"
proof -
  have "List.map_filter (\<lambda>inp. find (\<lambda>h. sh_id h = sh_id inp) ssts) inputs = inputs"
    using find_by_id [OF assms(1)] assms(2) by (induction inputs) (auto simp: List.map_filter_simps)
  then show ?thesis using assms(2) by (auto simp: compact_check_def)
qed

lemma set_compact_swap:
  assumes "distinct (map sh_id ssts)" "set inputs \<subseteq> set ssts"
  shows "set (compact_swap inputs ins h ssts) = insert h (set ssts - set inputs)"
proof -
  have "is_input inputs x \<longleftrightarrow> x \<in> set inputs" if "x \<in> set ssts" for x
    using assms that by (auto simp: is_input_def distinct_map inj_on_def)
  then have "set (filter (\<lambda>x. \<not> is_input inputs x) ssts) = set ssts - set inputs" by auto
  moreover have "set (take n xs) \<union> set (drop n xs) = set xs" for n and xs :: "sst_handle list"
    by (metis append_take_drop_id set_append)
  ultimately show ?thesis by (simp add: compact_swap_def Let_def del: set_filter)
qed

lemma mset_compact_swap:
  "mset (compact_swap inputs ins h ssts) = add_mset h (mset (filter (\<lambda>x. \<not> is_input inputs x) ssts))"
  by (simp add: compact_swap_def Let_def) (metis append_take_drop_id mset_append mset_filter)

lemma distinct_compact_swap:
  assumes "distinct (map f ssts)" "f h \<notin> f ` set ssts"
  shows "distinct (map f (compact_swap inputs ins h ssts))"
proof -
  let ?K = "filter (\<lambda>x. \<not> is_input inputs x) ssts"
  have "mset (map f (compact_swap inputs ins h ssts)) = mset (map f (h # ?K))" by (simp add: mset_compact_swap)
  moreover have "distinct (map f (h # ?K))" using assms by (auto simp: distinct_map inj_on_def)
  ultimately show ?thesis using mset_eq_imp_distinct_iff by blast
qed

lemma tables_ok_swap:
  assumes ok: "tables_ok ssts" and inputs: "set inputs \<subseteq> set ssts"
    and h: "sh_id h \<notin> sh_id ` set ssts" "sh_name h \<notin> sh_name ` set ssts" "utf8_valid (sh_path h)" "sh_path h \<noteq> []"
  shows "tables_ok (compact_swap inputs ins h ssts)"
proof -
  have "set (compact_swap inputs ins h ssts) \<subseteq> insert h (set ssts)"
    using set_compact_swap [OF _ inputs, of ins h] ok by (auto simp: tables_ok_def)
  then show ?thesis
    using ok h distinct_compact_swap [of sh_id ssts h] distinct_compact_swap [of sh_name ssts h]
    by (auto simp: tables_ok_def)
qed

lemma replace_names:
  assumes ok: "tables_ok ssts" and inputs: "set inputs \<subseteq> set ssts"
  shows "live_step (MReplace (map sh_path inputs) (sh_path h) t r) (sh_name ` set ssts) =
    sh_name ` set (compact_swap inputs ins h ssts)"
proof -
  have "inj_on sh_name (set ssts)" using ok by (simp add: tables_ok_def distinct_map)
  then have "sh_name ` set ssts - sh_name ` set inputs = sh_name ` (set ssts - set inputs)"
    using inputs by (simp add: inj_on_image_set_diff)
  moreover have "set (removed_names (MReplace (map sh_path inputs) (sh_path h) t r)) = sh_name ` set inputs"
    by (simp add: sh_name_def image_image)
  moreover have "set (added_name (MReplace (map sh_path inputs) (sh_path h) t r)) = {sh_name h}"
    by (simp add: sh_name_def)
  moreover have "distinct (map sh_id ssts)" using ok by (simp add: tables_ok_def)
  ultimately show ?thesis
    unfolding live_step.simps set_compact_swap [OF \<open>distinct (map sh_id ssts)\<close> inputs] by (simp only: image_insert) simp
qed

lemma live_entries_names: "fold live_step (live_entries ssts) L = L \<union> sh_name ` set ssts"
  by (induction ssts arbitrary: L) (auto simp: live_entries_def sh_name_def)

lemma paths_size_member: "h \<in> set ssts \<Longrightarrow> 4 + length (sh_path h) \<le> paths_size ssts"
  unfolding paths_size_def by (induction ssts) auto

lemma paths_size_subset:
  assumes "mset inputs \<subseteq># mset ssts"
  shows "paths_size inputs \<le> paths_size ssts"
proof -
  obtain K where "mset ssts = mset inputs + K" using assms by (metis subset_mset.add_diff_inverse)
  moreover have "paths_size xs = (\<Sum>h \<in># mset xs. 4 + length (sh_path h))" for xs
    by (simp add: paths_size_def sum_mset_sum_list [symmetric])
  ultimately show ?thesis by simp
qed

lemma rollover_agrees:
  assumes ag: "manifest_agrees crc32 T" and "\<forall>h \<in> set (fst T). length (sh_path h) + 17 \<le> MAX_MANIFEST_ENTRY_SIZE"
  shows "manifest_agrees crc32 (periodic_rollover crc32 (\<lambda>T. T) T)"
proof -
  obtain ssts es where T: "T = (ssts, Some (concat (map (frame crc32) es)))" using ag by (cases T) (auto simp: manifest_agrees_def)
  have ok: "\<forall>e \<in> set (live_entries ssts). mentry_ok e"
    using ag assms(2) by (auto simp: manifest_agrees_def tables_ok_def T live_entries_def mentry_ok_def)
  have "manifest_agrees crc32 (ssts, Some (concat (map (frame crc32) (live_entries ssts))))"
    using ag ok live_entries_names [of ssts "{}"] by (auto simp: manifest_agrees_def T valid_names)
  with ag show ?thesis
    by (simp add: periodic_rollover_def T manifest_maybe_rollover_def manifest_frames_ok [OF ok])
qed

lemma replace_entry_ok:
  assumes ok: "tables_ok ssts" and inputs: "mset inputs \<subseteq># mset ssts" and out: "utf8_valid out" "out \<noteq> []"
    and fit: "paths_size ssts + length out + 29 \<le> MAX_MANIFEST_ENTRY_SIZE"
  shows "mentry_ok (MReplace (map sh_path inputs) out t i)"
proof -
  have "length (manifest_payload (MReplace (map sh_path inputs) out t i)) = 25 + length out + paths_size inputs"
    using length_lpaths [of "map sh_path inputs"] by (simp add: paths_size_def comp_def)
  moreover have "set inputs \<subseteq> set ssts" using inputs by (auto dest: mset_subset_eqD)
  ultimately show ?thesis
    using paths_size_subset [OF inputs] fit out ok by (auto simp: mentry_ok_def tables_ok_def)
qed

lemma compact_install_agrees:
  assumes ag: "manifest_agrees (cp_crc32 P) T" and run: "compact_install P (\<lambda>i T. T) inputs out T = (Inr True, T')"
    and inputs: "mset inputs \<subseteq># mset (fst T)"
    and new: "cp_new_id P \<notin> sh_id ` set (fst T)" "sst_name (cp_output_path P) \<notin> sh_name ` set (fst T)"
      "utf8_valid (cp_output_path P)" "cp_output_path P \<noteq> []"
    and fit: "paths_size (fst T) + length (cp_output_path P) + 29 \<le> MAX_MANIFEST_ENTRY_SIZE"
  shows "manifest_agrees (cp_crc32 P) T'"
proof -
  obtain ssts es where T: "T = (ssts, Some (concat (map (frame (cp_crc32 P)) es)))"
    and es: "\<forall>e \<in> set es. mentry_ok e" "fst ` set (reconstruct_valid_sstables es) = sh_name ` set ssts"
    and ok: "tables_ok ssts" using ag by (cases T) (auto simp: manifest_agrees_def)
  have sub: "set inputs \<subseteq> set ssts" using inputs by (auto simp: T dest: mset_subset_eqD)
  obtain ins where check: "compact_check inputs ssts = Some (ins, map sh_path inputs)"
    using compact_check_inputs [OF _ sub] ok by (auto simp: tables_ok_def)
  obtain R where R: "sst_open (cp_crc32 P) (cp_km P) out = Inr R"
    using run by (auto simp: compact_install_def compact_install_io_def T check Let_def split: sum.split_asm)
  define h where "h = \<lparr>sh_id = cp_new_id P, sh_path = cp_output_path P, sh_reader = R\<rparr>"
  define e where "e = MReplace (map sh_path inputs) (sh_path h) (sm_max_tx_id (rd_metadata R)) (of_nat ins)"
  have e: "mentry_ok e"
    unfolding e_def h_def using replace_entry_ok [OF ok _ new(3,4)] inputs fit by (simp add: T)
  let ?S = "compact_swap inputs ins h ssts"
  have T': "T' = periodic_rollover (cp_crc32 P) (\<lambda>T. T) (?S, Some (concat (map (frame (cp_crc32 P)) (es @ [e]))))"
    using run manifest_append_ok [OF e, of "cp_crc32 P"]
    by (simp add: compact_install_def compact_install_io_def T check R append_replace_def manifest_append_io_None Let_def h_def e_def)
  have "tables_ok ?S" using tables_ok_swap [OF ok sub, of h ins] new by (simp add: T h_def sh_name_def)
  moreover have "fst ` set (reconstruct_valid_sstables (es @ [e])) = sh_name ` set ?S"
    using es(2) replace_names [OF ok sub, of h _ _ ins] unfolding valid_names e_def fold_append by simp
  ultimately have "manifest_agrees (cp_crc32 P) (?S, Some (concat (map (frame (cp_crc32 P)) (es @ [e]))))"
    using es(1) e unfolding manifest_agrees_def fst_conv snd_conv by (intro conjI exI [of _ "es @ [e]"]) auto
  moreover have "set ?S \<subseteq> insert h (set ssts)"
    using set_compact_swap [OF _ sub, of ins h] ok by (auto simp: tables_ok_def)
  then have "\<forall>x \<in> set ?S. length (sh_path x) + 17 \<le> MAX_MANIFEST_ENTRY_SIZE"
    using paths_size_member [of _ ssts] fit by (fastforce simp: T h_def)
  ultimately show ?thesis unfolding T' by (intro rollover_agrees) simp_all
qed

text \<open>
  C12. Compaction keeps the manifest and the table list in agreement: when the manifest names exactly
  the tables of the list and no other task interferes, then after a run, successful or not and with
  or without a rollover, it does so again.
\<close>
theorem compaction_keeps_manifest_agreement:
  assumes "manifest_agrees (cp_crc32 P) T" and "maybe_compact P (\<lambda>i T. T) T = Some (r, T')"
    and "cp_new_id P \<notin> sh_id ` set (fst T)" and "sst_name (cp_output_path P) \<notin> sh_name ` set (fst T)"
    and "utf8_valid (cp_output_path P)" and "cp_output_path P \<noteq> []"
    and "paths_size (fst T) + length (cp_output_path P) + 29 \<le> MAX_MANIFEST_ENTRY_SIZE"
  shows "manifest_agrees (cp_crc32 P) T'"
proof (cases "r = Inr True")
  case False
  then have "T' = T" using maybe_compact_failed [OF assms(2)] by simp
  with assms(1) show ?thesis by simp
next
  case True
  obtain inputs is_full out where sel: "compact_select (cp_cfg P) (fst T) = Some (inputs, is_full)"
    and inst: "compact_install P (\<lambda>i T. T) inputs out T = (Inr True, T')"
    using assms(2) True by (auto simp: maybe_compact_def maybe_compact_io_def compact_install_def split: option.split_asm sum.split_asm)
  show ?thesis
    by (rule compact_install_agrees [OF assms(1) inst compact_select_subset [OF sel] assms(3-7)])
qed

text \<open>A run that merges two tables with one entry each.\<close>

definition example_handle :: "sst_reader \<Rightarrow> nat \<Rightarrow> sst_handle" where
  "example_handle R i = \<lparr>sh_id = i, sh_path = [of_nat (97 + i)], sh_reader = R\<rparr>"

definition example_tables :: "sst_reader \<Rightarrow> tables" where
  "example_tables R = ([example_handle R 2, example_handle R 3],
     Some (concat (map (frame (\<lambda>d. 0)) [MAdd [99] 4, MAdd [100] 4])))"

lemma example_agrees: "manifest_agrees (\<lambda>d. 0) (example_tables R)"
proof -
  have n: "sst_name [99] = [99]" "sst_name [100] = [100]"
    by (simp_all add: sst_name_def file_name_def path_components_def)
  have "tables_ok (fst (example_tables R))"
    by (simp add: tables_ok_def example_tables_def example_handle_def sh_name_def n)
  moreover have "\<forall>e \<in> set [MAdd [99] 4, MAdd [100] 4]. mentry_ok e"
    by (simp add: mentry_ok_def MAX_MANIFEST_ENTRY_SIZE_def)
  moreover have "fst ` set (reconstruct_valid_sstables [MAdd [99] 4, MAdd [100] 4]) = sh_name ` set (fst (example_tables R))"
    by (simp add: valid_names n example_tables_def example_handle_def sh_name_def insert_commute)
  ultimately show ?thesis
    unfolding manifest_agrees_def
    by (intro conjI exI [of _ "[MAdd [99] 4, MAdd [100] 4]"]) (simp_all add: example_tables_def)
qed

lemma example_merge:
  assumes "holds_entries (\<lambda>d. 0) (\<lambda>d. []) R [([1], [2], 3, 4)]"
  shows "\<exists>out R'. merge_sstables example_config example_env (\<lambda>d. 0) (\<lambda>d. []) 64 1 (Some km_plain) [R, R] (- 1) True = Some (Inr out) \<and>
    sst_open (\<lambda>d. 0) (Some km_plain) out = Inr R'"
proof -
  let ?es = "[([1], [2], 3, 4)] :: kv_entry list"
  have "\<not> (- 1 :: u64) \<le> 3" using entry_raw_less_max [of "([], [], 3, 0)"] by (simp add: raw_seq_def TOMBSTONE_BIT_def not_le)
  then have "retain (retain_step (- 1) True) (merged [?es, ?es]) retain_start = ?es"
    by (simp add: merged_def tagged_def upt_rec raw_seq_def TOMBSTONE_BIT_def retain_start_def is_tombstone_def Let_def)
  moreover have l: "list_all2 (holds_entries (\<lambda>d. 0) (\<lambda>d. [])) [R, R] [?es, ?es]" using assms by simp
  moreover obtain f meta where f: "sst_build (\<lambda>d. 0) (\<lambda>d. []) 64 1 (Some km_plain) ?es = Inr (f, meta)"
    using sst_example_size by (auto split: sum.splits prod.splits)
  ultimately have "merge_sstables example_config example_env (\<lambda>d. 0) (\<lambda>d. []) 64 1 (Some km_plain) [R, R] (- 1) True = Some (Inr f)"
    using merge_sstables_builds [OF l example_runs, of 64 1 "Some km_plain" "- 1" True] by simp
  moreover have "km_opt_lawful (Some km_plain)" using plain.lawful by (simp add: km_opt_lawful_def)
  from sst_build_open [OF this, of ?es "\<lambda>d. 0" "\<lambda>d. []" 64 1] f sst_example_size
  have "\<exists>R'. sst_open (\<lambda>d. 0) (Some km_plain) f = Inr R'" by (auto simp: entry_fits_def MAX_VALUE_SIZE_def)
  ultimately show ?thesis by blast
qed

lemma example_run_io:
  assumes "holds_entries (\<lambda>d. 0) (\<lambda>d. []) R [([1], [2], 3, 4)]"
  shows "\<exists>r T'. maybe_compact_io (example_params [97]) fault (\<lambda>i T. T) (example_tables R) = Some (r, T') \<and> (r = Inr True \<longleftrightarrow> fault = None)"
proof -
  let ?hs = "[example_handle R 2, example_handle R 3]"
  have sel: "compact_select example_config ?hs = Some (?hs, True)"
    by (simp add: compact_select_def select_compaction_candidates_def example_config_def same_tier_def upt_rec
        sh_size_def sh_max_seq_def example_handle_def tier_key_def)
  have peak: "compact_peak_ok example_config s ?hs = Inr ()" for s by (simp add: compact_peak_ok_def example_config_def)
  obtain out R' where out: "merge_sstables example_config example_env (\<lambda>d. 0) (\<lambda>d. []) 64 1 (Some km_plain) [R, R] (- 1) True = Some (Inr out)"
    "sst_open (\<lambda>d. 0) (Some km_plain) out = Inr R'" using example_merge [OF assms] by blast
  have check: "compact_check ?hs ?hs = Some (0, [[99], [100]])"
    by (simp add: compact_check_def is_input_def example_handle_def List.map_filter_def)
  have ok: "mentry_ok (MReplace [[99], [100]] [97] t 0)" for t by (simp add: mentry_ok_def MAX_MANIFEST_ENTRY_SIZE_def)
  have "\<exists>r m. append_replace (example_params [97]) fault [[99], [100]] R' 0 (Some log) = (r, m) \<and> (r = Inr () \<longleftrightarrow> fault = None)" for log
    using manifest_frames_ok [of "[MReplace [[99], [100]] [97] (sm_max_tx_id (rd_metadata R')) 0]" "\<lambda>d. 0"] ok
    by (cases fault) (simp_all add: append_replace_def manifest_append_io_def manifest_append_batch_io_def example_params_def)
  then obtain r m where app: "append_replace (example_params [97]) fault [[99], [100]] R' 0 (snd (example_tables R)) = (r, m)"
    "r = Inr () \<longleftrightarrow> fault = None" unfolding example_tables_def snd_conv by blast
  have inst: "\<exists>r T'. compact_install_io (example_params [97]) fault (\<lambda>i T. T) ?hs out (example_tables R) = (r, T') \<and> (r = Inr True \<longleftrightarrow> fault = None)"
  proof (cases r)
    case (Inl e)
    with app show ?thesis
      by (simp add: compact_install_io_def check Let_def example_tables_def [of R]) (simp add: example_params_def out(2))
  next
    case (Inr u)
    with app show ?thesis
      by (simp add: compact_install_io_def check Let_def example_tables_def [of R]) (simp add: example_params_def out(2))
  qed
  moreover have "map sh_reader ?hs = [R, R]" by (simp add: example_handle_def)
  ultimately show ?thesis
    unfolding maybe_compact_io_def using sel peak out(1)
    by (simp add: example_tables_def [of R] example_params_def [of "[97]"] del: One_nat_def)
qed

lemma example_run:
  assumes "holds_entries (\<lambda>d. 0) (\<lambda>d. []) R [([1], [2], 3, 4)]"
  shows "\<exists>T'. maybe_compact (example_params [97]) (\<lambda>i T. T) (example_tables R) = Some (Inr True, T')"
  using example_run_io [OF assms, of None] by (auto simp: maybe_compact_def)

theorem compaction_keeps_manifest_agreement_witness:
  "\<exists>R T'. maybe_compact (example_params [97]) (\<lambda>i T. T) (example_tables R) = Some (Inr True, T') \<and>
     manifest_agrees (cp_crc32 (example_params [97])) T'"
proof -
  obtain R where R: "holds_entries (\<lambda>d. 0) (\<lambda>d. []) R [([1], [2], 3, 4)]" using example_table by blast
  obtain T' where run: "maybe_compact (example_params [97]) (\<lambda>i T. T) (example_tables R) = Some (Inr True, T')"
    using example_run [OF R] by blast
  have "manifest_agrees (cp_crc32 (example_params [97])) (example_tables R)"
    using example_agrees by (simp add: example_params_def)
  from compaction_keeps_manifest_agreement [OF this run]
  have "manifest_agrees (cp_crc32 (example_params [97])) T'"
    by (simp add: example_params_def example_tables_def example_handle_def MAX_MANIFEST_ENTRY_SIZE_def paths_size_def
        sst_name_def sh_name_def file_name_def path_components_def)
  with run show ?thesis by blast
qed

section \<open>Failed runs\<close>

lemma failed_run:
  assumes "maybe_compact_io P fault (\<lambda>i T. T) T = Some (r, T')" and "r \<noteq> Inr True"
  shows "T' = T \<or> (\<exists>k inputs is_full ins olds (R :: sst_reader) log torn err. fault = Some k \<and>
    compact_select (cp_cfg P) (fst T) = Some (inputs, is_full) \<and> compact_check inputs (fst T) = Some (ins, olds) \<and>
    snd T = Some log \<and> T' = (fst T, Some torn) \<and>
    manifest_append_io (cp_crc32 P) (Some k)
      (MReplace olds (cp_output_path P) (sm_max_tx_id (rd_metadata R)) (of_nat ins)) log = (Inl err, torn))"
proof (cases "T' = T")
  case False
  obtain inputs is_full out where sel: "compact_select (cp_cfg P) (fst T) = Some (inputs, is_full)"
    and inst: "compact_install_io P fault (\<lambda>i T. T) inputs out T = (r, T')"
    using assms False by (auto simp: maybe_compact_io_def split: option.split_asm sum.split_asm)
  obtain ins olds where check: "compact_check inputs (fst T) = Some (ins, olds)"
    using inst False by (auto simp: compact_install_io_def split: option.split_asm)
  obtain R where R: "sst_open (cp_crc32 P) (cp_km P) out = Inr R"
    using inst False by (auto simp: compact_install_io_def check split: sum.split_asm)
  obtain err m where app: "append_replace P fault olds R ins (snd T) = (Inl err, m)" "T' = (fst T, m)"
    using inst assms(2) by (auto simp: compact_install_io_def check R Let_def split: sum.split_asm prod.split_asm)
  then have "m \<noteq> snd T" using False by (metis prod.collapse)
  with append_replace_error [OF app(1)] obtain k log torn where k: "fault = Some k" "snd T = Some log" "m = Some torn"
    "manifest_append_io (cp_crc32 P) (Some k)
      (MReplace olds (cp_output_path P) (sm_max_tx_id (rd_metadata R)) (of_nat ins)) log = (Inl err, torn)" by auto
  with sel check app(2) show ?thesis by blast
qed simp

text \<open>
  C11. A run that fails leaves a store that can be opened again with no table lost. When the manifest
  names exactly the tables of the list and no other task interferes, let a run end without
  installing its table: nothing to do, the memory estimate, an interruption, an error of the merge,
  or a manifest write that fails after any number of bytes, the last of them in \<open>flush\<close> or
  \<open>sync_all\<close>. Then the table list is unchanged and the manifest loads, and it names either exactly
  the old tables or, if the whole \<open>Replace\<close> entry reached the file, exactly the old tables with the
  inputs replaced by the output. An append after a torn entry is outside
  (\<open>Manifest_Log.append_behind_torn_entry\<close>).
\<close>
theorem compaction_failure_recoverable:
  assumes "manifest_agrees (cp_crc32 P) T" and "maybe_compact_io P fault (\<lambda>i T. T) T = Some (r, T')" and "r \<noteq> Inr True"
    and "utf8_valid (cp_output_path P)" and "cp_output_path P \<noteq> []"
    and "paths_size (fst T) + length (cp_output_path P) + 29 \<le> MAX_MANIFEST_ENTRY_SIZE"
  shows "fst T' = fst T \<and> (\<exists>es. manifest_load (cp_crc32 P) (snd T') = Inr es \<and>
    (fst ` set (reconstruct_valid_sstables es) = sh_name ` set (fst T) \<or>
     (\<exists>k inputs is_full. fault = Some k \<and> compact_select (cp_cfg P) (fst T) = Some (inputs, is_full) \<and>
        fst ` set (reconstruct_valid_sstables es) =
          insert (sst_name (cp_output_path P)) (sh_name ` set (fst T) - sh_name ` set inputs))))"
proof -
  obtain ssts es where T: "T = (ssts, Some (concat (map (frame (cp_crc32 P)) es)))"
    and es: "\<forall>e \<in> set es. mentry_ok e" "fst ` set (reconstruct_valid_sstables es) = sh_name ` set ssts"
    and ok: "tables_ok ssts" using assms(1) by (cases T) (auto simp: manifest_agrees_def)
  have "load_frames (cp_crc32 P) [] = Inr []" by (subst load_frames.simps) simp
  then have load: "manifest_load (cp_crc32 P) (snd T) = Inr es"
    using load_frames_append [OF es(1), of "cp_crc32 P" "[]"] by (simp add: T manifest_load_def)
  show ?thesis
  proof (cases "T' = T")
    case True
    then show ?thesis using load es(2) by (auto simp: T)
  next
    case False
    with failed_run [OF assms(2,3)] obtain k inputs is_full ins olds log torn err and R :: sst_reader where
      f: "fault = Some k" "compact_select (cp_cfg P) (fst T) = Some (inputs, is_full)" "compact_check inputs (fst T) = Some (ins, olds)"
        "snd T = Some log" "T' = (fst T, Some torn)"
      and app: "manifest_append_io (cp_crc32 P) (Some k)
        (MReplace olds (cp_output_path P) (sm_max_tx_id (rd_metadata R)) (of_nat ins)) log = (Inl err, torn)" by blast
    have sub: "mset inputs \<subseteq># mset ssts" using compact_select_subset [OF f(2)] by (simp add: T)
    then have ins: "set inputs \<subseteq> set ssts" by (auto dest: mset_subset_eqD)
    have olds: "olds = map sh_path inputs"
      using compact_check_inputs [OF _ ins] ok f(3) by (auto simp: T tables_ok_def)
    define e where "e = MReplace olds (cp_output_path P) (sm_max_tx_id (rd_metadata R)) (of_nat ins)"
    have "mentry_ok e"
      unfolding e_def olds using replace_entry_ok [OF ok sub assms(4,5)] assms(6) by (simp add: T)
    from load_torn_append [OF es(1) this] app have
      "manifest_load (cp_crc32 P) (Some torn) = Inr es \<or> manifest_load (cp_crc32 P) (Some torn) = Inr (es @ [e])"
      using f(4) by (auto simp: T e_def)
    moreover have "fst ` set (reconstruct_valid_sstables (es @ [e])) =
        insert (sst_name (cp_output_path P)) (sh_name ` set ssts - sh_name ` set inputs)"
      using es(2) unfolding valid_names by (simp add: e_def olds sh_name_def image_image)
    ultimately show ?thesis using f es(2) by (auto simp: T)
  qed
qed

theorem compaction_failure_recoverable_witness:
  "\<exists>R r T' es. maybe_compact_io (example_params [97]) (Some 20) (\<lambda>i T. T) (example_tables R) = Some (r, T') \<and> r \<noteq> Inr True \<and>
     fst T' = fst (example_tables R) \<and> manifest_load (\<lambda>d. 0) (snd T') = Inr es"
proof -
  obtain R where R: "holds_entries (\<lambda>d. 0) (\<lambda>d. []) R [([1], [2], 3, 4)]" using example_table by blast
  obtain r T' where run: "maybe_compact_io (example_params [97]) (Some 20) (\<lambda>i T. T) (example_tables R) = Some (r, T')" "r \<noteq> Inr True"
    using example_run_io [OF R, of "Some 20"] by blast
  have "manifest_agrees (cp_crc32 (example_params [97])) (example_tables R)"
    using example_agrees by (simp add: example_params_def)
  from compaction_failure_recoverable [OF this run]
  have "fst T' = fst (example_tables R)" "\<exists>es. manifest_load (\<lambda>d. 0) (snd T') = Inr es"
    by (auto simp: example_params_def example_tables_def example_handle_def MAX_MANIFEST_ENTRY_SIZE_def paths_size_def)
  with run show ?thesis by blast
qed

text \<open>
  Without the assumption that no other task interferes agreement can be lost: the flush of a table
  \<open>h\<close> that appends its \<open>Add\<close> between the moment the live tables are read and the rollover is dropped
  from the manifest, although the table is in the list afterwards.
\<close>

lemma rollover_drops_concurrent_add:
  assumes ok: "\<forall>e \<in> set (live_entries ssts). mentry_ok e" and fresh: "sh_name h \<notin> sh_name ` set ssts"
    and big: "DEFAULT_ROLLOVER_THRESHOLD_BYTES \<le> length log"
    and T': "periodic_rollover crc32 (\<lambda>(s, m). (s @ [h], map_option (\<lambda>l. l @ frame crc32 (MAdd (sh_path h) t)) m))
      (ssts, Some log) = T'"
  shows "h \<in> set (fst T') \<and> (\<exists>es. manifest_load crc32 (snd T') = Inr es \<and> sh_name h \<notin> fst ` set (reconstruct_valid_sstables es))"
proof -
  have "load_frames crc32 [] = Inr []" by (subst load_frames.simps) simp
  then have "load_frames crc32 (concat (map (frame crc32) (live_entries ssts))) = Inr (live_entries ssts)"
    using load_frames_append [OF ok, of crc32 "[]"] by simp
  then show ?thesis
    using T' big fresh live_entries_names [of ssts "{}"]
    by (auto simp: periodic_rollover_def manifest_maybe_rollover_def manifest_frames_ok [OF ok] manifest_load_def valid_names)
qed

end
