(* ===== verification/Wal_Codec.thy ===== *)
theory Wal_Codec
  imports Text_Codec
begin

text \<open>
  Entries of the write-ahead log: \<open>crates/contextra-store/src/wal/encode.rs\<close> and the HMAC chain of
  \<open>crates/contextra-crypto/src/wal_crypto.rs\<close>. The checksum \<open>crc32\<close> and the keyed hash \<open>hmac\<close>
  (HMAC-SHA256) are parameters; \<open>wp_encryption\<close> says whether the build has the feature
  \<open>encryption-at-rest\<close>. Proved is the round trip of an entry.
\<close>

section \<open>Operations and entries\<close>

datatype wal_op =
    WPut tx_id bytes bytes
  | WDelete tx_id bytes
  | WTxEnd tx_id bool

fun wal_op_tx :: "wal_op \<Rightarrow> tx_id" where
  "wal_op_tx (WPut tx _ _) = tx"
| "wal_op_tx (WDelete tx _) = tx"
| "wal_op_tx (WTxEnd tx _) = tx"

record wal_entry =
  wal_op :: wal_op
  wal_seq_no :: u64
  wal_checksum :: bytes
  wal_prev_hmac :: bytes

datatype wal_version = WalV1 | WalV2 | WalV3

record wal_params =
  wp_encryption :: bool
  wp_hmac :: "bytes \<Rightarrow> bytes \<Rightarrow> bytes"
  wp_crc32 :: "bytes \<Rightarrow> u32"

definition MAX_WAL_ENTRY_SIZE :: nat where "MAX_WAL_ENTRY_SIZE = 64 * 1024 * 1024"
definition WAL_V2_HEADER :: bytes where "WAL_V2_HEADER = [77, 70, 87, 50]"
definition WAL_V3_HEADER :: bytes where "WAL_V3_HEADER = [77, 70, 87, 51]"
definition zero_hmac :: bytes where "zero_hmac = replicate 32 0"

section \<open>The keyed hash\<close>

text \<open>\<open>b"contextra-wal-v1"\<close>\<close>

definition wal_domain :: bytes where
  "wal_domain = [99, 111, 110, 116, 101, 120, 116, 114, 97, 45, 119, 97, 108, 45, 118, 49]"

definition wal_hmac :: "(bytes \<Rightarrow> bytes \<Rightarrow> bytes) \<Rightarrow> bytes \<Rightarrow> bytes \<Rightarrow> bytes res" where
  "wal_hmac hmac key data =
     (if key = [] then Inl (InvalidInput ''Key cannot be empty'')
      else if 10000 < length key then Inl (InvalidInput ''integrity_key length exceeds maximum allowed bound of 10000 bytes'')
      else Inr (hmac key (wal_domain @ data)))"

definition bool_byte :: "bool \<Rightarrow> u8" where
  "bool_byte b = (if b then 1 else 0)"

fun checksum_msg_v3 :: "wal_op \<Rightarrow> u64 \<Rightarrow> bytes \<Rightarrow> bytes" where
  "checksum_msg_v3 (WPut tx key val) seq prev = prev @ u64_le seq @ u64_le tx @ [0] @
     u32_le (of_nat (length key)) @ key @ u32_le (of_nat (length val)) @ val"
| "checksum_msg_v3 (WDelete tx key) seq prev = prev @ u64_le seq @ u64_le tx @ [1] @
     u32_le (of_nat (length key)) @ key"
| "checksum_msg_v3 (WTxEnd tx committed) seq prev = prev @ u64_le seq @ u64_le tx @ [2, bool_byte committed]"

fun checksum_msg_v2 :: "wal_op \<Rightarrow> u64 \<Rightarrow> bytes \<Rightarrow> bytes" where
  "checksum_msg_v2 (WPut tx key val) seq prev = prev @ u64_le seq @ [0] @ key @ val"
| "checksum_msg_v2 (WDelete tx key) seq prev = prev @ u64_le seq @ [1] @ key"
| "checksum_msg_v2 (WTxEnd tx committed) seq prev = prev @ u64_le seq @ [2, bool_byte committed]"

definition compute_checksum_v3 :: "wal_params \<Rightarrow> wal_op \<Rightarrow> u64 \<Rightarrow> bytes \<Rightarrow> bytes \<Rightarrow> bytes res" where
  "compute_checksum_v3 P op seq_no integrity_key prev_hmac =
     (if wp_encryption P then wal_hmac (wp_hmac P) integrity_key (checksum_msg_v3 op seq_no prev_hmac)
      else Inr zero_hmac)"

definition wal_entry_try_new :: "wal_params \<Rightarrow> wal_op \<Rightarrow> u64 \<Rightarrow> bytes \<Rightarrow> bytes \<Rightarrow> wal_entry res" where
  "wal_entry_try_new P op seq_no integrity_key prev_hmac =
     rbind (compute_checksum_v3 P op seq_no integrity_key prev_hmac) (\<lambda>checksum.
       Inr \<lparr>wal_op = op, wal_seq_no = seq_no, wal_checksum = checksum, wal_prev_hmac = prev_hmac\<rparr>)"

section \<open>Bytes\<close>

fun wal_op_bytes :: "wal_op \<Rightarrow> bytes" where
  "wal_op_bytes (WPut tx key val) =
     [0] @ u64_le tx @ u32_le (of_nat (length key)) @ key @ u32_le (of_nat (length val)) @ val"
| "wal_op_bytes (WDelete tx key) = [1] @ u64_le tx @ u32_le (of_nat (length key)) @ key"
| "wal_op_bytes (WTxEnd tx committed) = [2] @ u64_le tx @ [bool_byte committed]"

definition wal_payload :: "wal_entry \<Rightarrow> bytes" where
  "wal_payload e = u64_le (wal_seq_no e) @ wal_checksum e @ wal_prev_hmac e @ wal_op_bytes (wal_op e)"

definition wal_to_bytes :: "wal_params \<Rightarrow> wal_entry \<Rightarrow> bytes res" where
  "wal_to_bytes P e =
     (let total_payload_size = 4 + length (wal_payload e)
      in if MAX_WAL_ENTRY_SIZE < total_payload_size then Inl (Serialization ''WAL entry too large'')
         else Inr (u32_le (of_nat total_payload_size) @ u32_le (wp_crc32 P (wal_payload e)) @ wal_payload e))"

definition wal_field :: "bytes \<Rightarrow> nat \<Rightarrow> nat \<Rightarrow> string \<Rightarrow> bytes res" where
  "wal_field bs a b msg = ok_or (Serialization msg) (get_slice bs a b)"

fun wal_decode_op :: "u8 \<Rightarrow> bytes \<Rightarrow> wal_op res" where
  "wal_decode_op op_type remaining =
     (if op_type = 0
      then rbind (wal_field remaining 0 8 ''Put op too short for tx_id'') (\<lambda>tx.
           rbind (wal_field remaining 8 12 ''Put op too short for key_len'') (\<lambda>kl.
           let key_len = unat (u32_of_le kl); val_start = 12 + key_len
           in if 1024 * 1024 < key_len then Inl (Serialization ''key_len exceeds 1 MiB limit'')
              else rbind (wal_field remaining 12 (12 + key_len) ''Put op missing key data'') (\<lambda>key.
                   rbind (wal_field remaining val_start (val_start + 4) ''Put op missing val_len'') (\<lambda>vl.
                   let val_len = unat (u32_of_le vl)
                   in if 128 * 1024 * 1024 < val_len then Inl (Serialization ''val_len exceeds 128 MiB limit'')
                      else rbind (wal_field remaining (val_start + 4) (val_start + 4 + val_len) ''Put op missing value data'')
                             (\<lambda>val. Inr (WPut (u64_of_le tx) key val))))))
      else if op_type = 1
      then rbind (wal_field remaining 0 8 ''Delete op too short for tx_id'') (\<lambda>tx.
           rbind (wal_field remaining 8 12 ''Delete op too short for key_len'') (\<lambda>kl.
           let key_len = unat (u32_of_le kl)
           in if 1024 * 1024 < key_len then Inl (Serialization ''key_len exceeds 1 MiB limit'')
              else rbind (wal_field remaining 12 (12 + key_len) ''Delete op missing key data'')
                     (\<lambda>key. Inr (WDelete (u64_of_le tx) key))))
      else if op_type = 2
      then rbind (wal_field remaining 0 8 ''TxEnd op too short for tx_id'') (\<lambda>tx.
           rbind (ok_or (Serialization ''TxEnd op too short for committed flag'') (get_at remaining 8)) (\<lambda>c.
           Inr (WTxEnd (u64_of_le tx) (c \<noteq> 0))))
      else Inl (Serialization ''Unknown WAL op type''))"

definition wal_from_bytes :: "wal_params \<Rightarrow> bytes \<Rightarrow> wal_entry res" where
  "wal_from_bytes P data =
     rbind (wal_field data 0 4 ''WAL entry too short for CRC header'') (\<lambda>crc.
     let payload = drop 4 data
     in if u32_of_le crc \<noteq> wp_crc32 P payload then Inl (Serialization ''CRC mismatch'')
        else rbind (wal_field payload 0 8 ''WAL payload too short for seq_no'') (\<lambda>seq.
             rbind (wal_field payload 8 40 ''WAL payload too short for checksum'') (\<lambda>checksum.
             rbind (wal_field payload 40 72 ''WAL payload too short for prev_hmac'') (\<lambda>prev_hmac.
             rbind (ok_or (Serialization ''WAL payload too short for op_type'') (get_at payload 72)) (\<lambda>op_type.
             rbind (ok_or (Serialization ''WAL payload missing op body'') (get_from payload 73)) (\<lambda>remaining.
             rbind (wal_decode_op op_type remaining) (\<lambda>op.
             Inr \<lparr>wal_op = op, wal_seq_no = u64_of_le seq, wal_checksum = checksum, wal_prev_hmac = prev_hmac\<rparr>)))))))"

section \<open>Round trip\<close>

fun wal_op_ok :: "wal_op \<Rightarrow> bool" where
  "wal_op_ok (WPut tx key val) \<longleftrightarrow> length key \<le> 1024 * 1024 \<and> length val \<le> 128 * 1024 * 1024"
| "wal_op_ok (WDelete tx key) \<longleftrightarrow> length key \<le> 1024 * 1024"
| "wal_op_ok (WTxEnd tx committed) \<longleftrightarrow> True"

text \<open>Entries that the log accepts and reads back.\<close>

definition wal_entry_ok :: "wal_entry \<Rightarrow> bool" where
  "wal_entry_ok e \<longleftrightarrow> wal_op_ok (wal_op e) \<and> length (wal_checksum e) = 32 \<and> length (wal_prev_hmac e) = 32 \<and>
     4 + length (wal_payload e) \<le> MAX_WAL_ENTRY_SIZE"

lemma wal_decode_op_bytes:
  assumes "wal_op_ok op"
  shows "wal_decode_op (hd (wal_op_bytes op)) (tl (wal_op_bytes op)) = Inr op"
proof (cases op)
  case (WPut tx key val)
  let ?pre = "u64_le tx @ u32_le (of_nat (length key)) @ key"
  have k: "unat (of_nat (length key) :: u32) = length key" and v: "unat (of_nat (length val) :: u32) = length val"
    using assms WPut by (simp_all add: unat_of_nat_u32)
  have "get_slice (?pre @ u32_le (of_nat (length val)) @ val) (12 + length key) (16 + length key) = Some (u32_le (of_nat (length val)))"
    "get_slice (?pre @ u32_le (of_nat (length val)) @ val) (16 + length key) (16 + length key + length val) = Some val"
    "get_slice (?pre @ u32_le (of_nat (length val)) @ val) 12 (12 + length key) = Some key"
    "get_slice (?pre @ u32_le (of_nat (length val)) @ val) 8 12 = Some (u32_le (of_nat (length key)))"
    "get_slice (?pre @ u32_le (of_nat (length val)) @ val) 0 8 = Some (u64_le tx)"
    by (simp_all add: get_slice_def)
  then show ?thesis using assms WPut k v by (simp add: wal_field_def Let_def)
next
  case (WDelete tx key)
  have k: "unat (of_nat (length key) :: u32) = length key"
    using assms WDelete by (simp add: unat_of_nat_u32)
  have "get_slice (u64_le tx @ u32_le (of_nat (length key)) @ key) 12 (12 + length key) = Some key"
    "get_slice (u64_le tx @ u32_le (of_nat (length key)) @ key) 8 12 = Some (u32_le (of_nat (length key)))"
    "get_slice (u64_le tx @ u32_le (of_nat (length key)) @ key) 0 8 = Some (u64_le tx)"
    by (simp_all add: get_slice_def)
  then show ?thesis using assms WDelete k by (simp add: wal_field_def Let_def)
next
  case (WTxEnd tx committed)
  have "get_slice (u64_le tx @ [bool_byte committed]) 0 8 = Some (u64_le tx)"
    "get_at (u64_le tx @ [bool_byte committed]) 8 = Some (bool_byte committed)"
    by (simp_all add: get_slice_def get_at_def nth_append)
  then show ?thesis using WTxEnd by (simp add: wal_field_def bool_byte_def)
qed

lemma wal_op_bytes_Cons: "wal_op_bytes op = hd (wal_op_bytes op) # tl (wal_op_bytes op)"
  by (cases op) simp_all

lemma wal_from_to_bytes:
  assumes "wal_entry_ok e"
  shows "wal_from_bytes P (u32_le (wp_crc32 P (wal_payload e)) @ wal_payload e) = Inr e"
proof -
  define b where "b = hd (wal_op_bytes (wal_op e))"
  define r where "r = tl (wal_op_bytes (wal_op e))"
  have p: "wal_payload e = u64_le (wal_seq_no e) @ wal_checksum e @ wal_prev_hmac e @ b # r"
    unfolding wal_payload_def b_def r_def using wal_op_bytes_Cons [of "wal_op e"] by simp
  have len: "length (wal_checksum e) = 32" "length (wal_prev_hmac e) = 32"
    and ok: "wal_op_ok (wal_op e)" using assms by (simp_all add: wal_entry_ok_def)
  have "get_slice (wal_payload e) 0 8 = Some (u64_le (wal_seq_no e))"
    "get_slice (wal_payload e) 8 40 = Some (wal_checksum e)"
    "get_slice (wal_payload e) 40 72 = Some (wal_prev_hmac e)"
    "get_at (wal_payload e) 72 = Some b" "get_from (wal_payload e) 73 = Some r"
    unfolding p by (simp_all add: get_slice_def get_at_def get_from_def len nth_append)
  moreover have "wal_decode_op b r = Inr (wal_op e)"
    unfolding b_def r_def by (rule wal_decode_op_bytes [OF ok])
  moreover have "get_slice (u32_le (wp_crc32 P (wal_payload e)) @ wal_payload e) 0 4 = Some (u32_le (wp_crc32 P (wal_payload e)))"
    by (simp add: get_slice_def)
  ultimately show ?thesis
    by (simp add: wal_from_bytes_def wal_field_def Let_def del: wal_decode_op.simps)
qed

end
