(* ===== verification/Wal_Log.thy ===== *)
theory Wal_Log
  imports Wal_Codec Key_Manager
begin

text \<open>
  The write-ahead log of \<open>crates/contextra-store/src/wal\<close>: preparing and appending batches
  (\<open>hmac.rs\<close>, \<open>io.rs\<close>, the flusher of \<open>flusher.rs\<close>), replay (\<open>replay.rs\<close>), truncation, poisoning and
  recovery, migration and opening (\<open>mod.rs\<close>). The file is its bytes. The flusher handles one command
  after the other, and a group of appends that it writes together equals the appends one by one;
  a failing write leaves a prefix of its bytes. Proved are what replay returns after appends, after
  a crash at any byte and after a failed append, and that replay accepts only verified chains.
\<close>

section \<open>State\<close>

record wal =
  wl_file :: bytes
  wl_size :: nat
  wl_header_written :: bool
  wl_km :: "key_manager option"
  wl_integrity_key :: "bytes option"
  wl_allow_legacy :: bool
  wl_last_hmac :: bytes
  wl_sealed :: bool
  wl_poisoned :: bool
  wl_enc_calls :: nat

definition get_integrity_key :: "wal \<Rightarrow> bytes res" where
  "get_integrity_key W = ok_or (Storage ''Integrity key missing from WAL state'') (wl_integrity_key W)"

section \<open>Appending\<close>

fun chain_entries :: "wal_params \<Rightarrow> bytes \<Rightarrow> (wal_op \<times> u64) list \<Rightarrow> bytes \<Rightarrow> wal_entry list res" where
  "chain_entries P key [] chain = Inr []"
| "chain_entries P key ((op, seq_no) # ops) chain =
     rbind (wal_entry_try_new P op seq_no key chain) (\<lambda>e.
     rbind (chain_entries P key ops (wal_checksum e)) (\<lambda>es. Inr (e # es)))"

definition last_checksum :: "bytes \<Rightarrow> wal_entry list \<Rightarrow> bytes" where
  "last_checksum prev es = (if es = [] then prev else wal_checksum (last es))"

definition prepare_batch ::
    "wal_params \<Rightarrow> (wal_op \<times> u64) list \<Rightarrow> wal \<Rightarrow> (wal_entry list \<times> bytes) res \<times> wal" where
  "prepare_batch P ops W =
     (if wl_sealed W then (Inl (Storage ''Cannot prepare batch for sealed WAL segment''), W)
      else case rbind (get_integrity_key W) (\<lambda>key. chain_entries P key ops (wl_last_hmac W)) of
             Inl e \<Rightarrow> (Inl e, W)
           | Inr es \<Rightarrow> (Inr (es, wl_last_hmac W), W\<lparr>wl_last_hmac := last_checksum (wl_last_hmac W) es\<rparr>))"

definition restore_last_hmac :: "bytes \<Rightarrow> wal \<Rightarrow> wal" where
  "restore_last_hmac hmac W = W\<lparr>wl_last_hmac := hmac\<rparr>"

definition wal_batch_bytes :: "wal_params \<Rightarrow> wal_entry list \<Rightarrow> bytes res" where
  "wal_batch_bytes P es = rbind (rmap (wal_to_bytes P) es) (\<lambda>bs. Inr (concat bs))"

definition encode_batch :: "wal_params \<Rightarrow> key_manager option \<Rightarrow> nat \<Rightarrow> wal_entry list \<Rightarrow> bytes res" where
  "encode_batch P km i es =
     rbind (wal_batch_bytes P es) (\<lambda>plain.
     case km of
       None \<Rightarrow> Inr plain
     | Some m \<Rightarrow> rbind (km_encrypt m i plain) (\<lambda>(encrypted, nonce).
         Inr (u32_le (of_nat (12 + length encrypted)) @ nonce @ encrypted)))"

text \<open>The flusher writes the bytes; \<open>fault = Some n\<close> is a failure after \<open>n\<close> of them have reached the file.\<close>

definition flusher_append :: "nat option \<Rightarrow> bytes \<Rightarrow> wal \<Rightarrow> unit res \<times> wal" where
  "flusher_append fault payload W =
     (if wl_poisoned W
      then (Inl (Storage ''WAL handle poisoned after suspected torn write; requires explicit recovery replay before further appends''), W)
      else let write_header = (\<not> wl_header_written W \<and> wl_size W = 0);
               bytes = (if write_header then WAL_V3_HEADER else []) @ payload
           in case fault of
                None \<Rightarrow> (Inr (), W\<lparr>wl_file := wl_file W @ bytes,
                                  wl_header_written := (write_header \<or> wl_header_written W),
                                  wl_size := wl_size W + length bytes\<rparr>)
              | Some n \<Rightarrow> let file = wl_file W @ take n bytes
                  in (Inl (Storage ''WAL flusher write failed''),
                      W\<lparr>wl_file := file, wl_poisoned := (wl_size W < length file)\<rparr>))"

definition wal_append_batch :: "wal_params \<Rightarrow> nat option \<Rightarrow> wal_entry list \<Rightarrow> wal \<Rightarrow> unit res \<times> wal" where
  "wal_append_batch P fault es W =
     (if wl_sealed W then (Inl (Storage ''Cannot append to sealed WAL segment''), W)
      else if es = [] then (Inr (), W)
      else case encode_batch P (wl_km W) (wl_enc_calls W) es of
             Inl e \<Rightarrow> (Inl e, W)
           | Inr payload \<Rightarrow> flusher_append fault payload (W\<lparr>wl_enc_calls := wl_enc_calls W + 1\<rparr>))"

section \<open>Verification\<close>

text \<open>The verifier: its key, the last hash of the chain, and whether it has fallen back to the legacy key.\<close>

record verifier =
  vf_key :: bytes
  vf_last :: bytes
  vf_legacy :: bool

definition legacy_integrity_key :: bytes where
  "legacy_integrity_key = map (\<lambda>b. b XOR 0x5A)
     [57, 53, 52, 46, 63, 34, 46, 40, 59, 119, 51, 52, 46, 63, 61, 40,
      51, 46, 35, 119, 49, 63, 35, 119, 44, 107, 90, 90, 90, 90, 90, 90]"

definition verify_hmac :: "wal_params \<Rightarrow> wal_version \<Rightarrow> bytes \<Rightarrow> bytes \<Rightarrow> u64 \<Rightarrow> wal_entry \<Rightarrow> bytes res" where
  "verify_hmac P version key last_hmac offset e =
     (case version of
        WalV1 \<Rightarrow> Inr (wal_checksum e)
      | _ \<Rightarrow> rbind (wal_hmac (wp_hmac P) key
               ((if version = WalV3 then checksum_msg_v3 else checksum_msg_v2) (wal_op e) (wal_seq_no e) last_hmac))
             (\<lambda>computed. if computed \<noteq> wal_checksum e \<or> wal_prev_hmac e \<noteq> last_hmac
                then Inl (WalCorruption offset ''HMAC mismatch'') else Inr computed))"

definition verify_entry ::
    "wal_params \<Rightarrow> wal_version \<Rightarrow> bool \<Rightarrow> u64 \<Rightarrow> wal_entry \<Rightarrow> verifier \<Rightarrow> verifier res" where
  "verify_entry P version allow_legacy offset e v =
     (if \<not> wp_encryption P then Inr v
      else case verify_hmac P version (vf_key v) (vf_last v) offset e of
             Inr computed \<Rightarrow> Inr (v\<lparr>vf_last := computed\<rparr>)
           | Inl err \<Rightarrow>
               if \<not> vf_legacy v \<and> allow_legacy
               then (case verify_hmac P version legacy_integrity_key (vf_last v) offset e of
                       Inr computed \<Rightarrow> Inr \<lparr>vf_key = legacy_integrity_key, vf_last = computed, vf_legacy = True\<rparr>
                     | Inl _ \<Rightarrow> Inl err)
               else Inl err)"

section \<open>Replay\<close>

text \<open>The outcome of decoding one chunk: its entries, whether the scan stops at a torn tail, the verifier.\<close>

type_synonym chunk_result = "(wal_entry list \<times> bool \<times> verifier) res"

definition is_crc_error :: "contextra_error \<Rightarrow> bool" where
  "is_crc_error e \<longleftrightarrow> e = Serialization ''CRC mismatch''"

definition handle_wal_entry_parse_error ::
    "contextra_error \<Rightarrow> u64 \<Rightarrow> bool \<Rightarrow> contextra_error option" where
  "handle_wal_entry_parse_error e chunk_start_pos at_end =
     (if at_end \<and> \<not> is_crc_error e then None
      else Some (WalCorruption chunk_start_pos
        (if is_crc_error e then ''CRC validation failed'' else ''Deserialization failed'')))"

function inner_entries ::
    "wal_params \<Rightarrow> wal_version \<Rightarrow> bool \<Rightarrow> u64 \<Rightarrow> bool \<Rightarrow> bytes \<Rightarrow> verifier \<Rightarrow> chunk_result" where
  "inner_entries P version allow_legacy off at_end inner v =
     (if inner = [] then Inr ([], False, v)
      else if length inner < 4
      then if at_end then Inr ([], True, v)
           else Inl (WalCorruption off ''Truncated inner WAL entry length in batch'')
      else let inner_len = u32_at inner 0
           in if length inner < 4 + inner_len
              then if at_end then Inr ([], True, v)
                   else Inl (WalCorruption off ''Truncated inner WAL entry in batch'')
              else case wal_from_bytes P (take inner_len (drop 4 inner)) of
                     Inl e \<Rightarrow> (case handle_wal_entry_parse_error e off at_end of
                               None \<Rightarrow> Inr ([], True, v) | Some err \<Rightarrow> Inl err)
                   | Inr e \<Rightarrow>
                       rbind (verify_entry P version allow_legacy off e v) (\<lambda>v.
                       rbind (inner_entries P version allow_legacy off at_end (drop (4 + inner_len) inner) v)
                         (\<lambda>(es, stop, v). Inr (e # es, stop, v))))"
  by auto
termination
  by (relation "measure (\<lambda>(P, version, allow_legacy, off, at_end, inner, v). length inner)") auto

declare inner_entries.simps [simp del]

definition single_entry ::
    "wal_params \<Rightarrow> wal_version \<Rightarrow> bool \<Rightarrow> u64 \<Rightarrow> bool \<Rightarrow> bytes \<Rightarrow> verifier \<Rightarrow> chunk_result" where
  "single_entry P version allow_legacy off at_end entry_data v =
     (case wal_from_bytes P entry_data of
        Inl e \<Rightarrow> (case handle_wal_entry_parse_error e off at_end of
                  None \<Rightarrow> Inr ([], True, v) | Some err \<Rightarrow> Inl err)
      | Inr e \<Rightarrow> rbind (verify_entry P version allow_legacy off e v) (\<lambda>v. Inr ([e], False, v)))"

definition chunk_entries ::
    "wal_params \<Rightarrow> key_manager option \<Rightarrow> wal_version \<Rightarrow> bool \<Rightarrow> u64 \<Rightarrow> bool \<Rightarrow> bytes \<Rightarrow> verifier \<Rightarrow> chunk_result" where
  "chunk_entries P km version allow_legacy off at_end raw v =
     (case (if wp_encryption P then km else None) of
        None \<Rightarrow> single_entry P version allow_legacy off at_end raw v
      | Some m \<Rightarrow>
          if version = WalV1
          then if length raw < 12 then Inl (Storage ''WAL entry too short for nonce'')
               else (case km_decrypt m (drop 12 raw) (take 12 raw) of
                       Inl _ \<Rightarrow> Inl (Storage ''WAL entry claims V1/plaintext format while KeyManager is active'')
                     | Inr plain \<Rightarrow> single_entry P version allow_legacy off at_end plain v)
          else if length raw < 12
          then if at_end then Inr ([], True, v) else Inl (Storage ''WAL entry too short for nonce'')
          else (case km_decrypt m (drop 12 raw) (take 12 raw) of
                  Inl _ \<Rightarrow> if at_end then Inr ([], True, v) else Inl (WalCorruption off ''Decryption failed'')
                | Inr plain \<Rightarrow> inner_entries P version allow_legacy off at_end plain v))"

text \<open>The scan from an offset; \<open>n_read\<close> entries have been read before. Entries come with the end of their chunk.\<close>

function scan_entries ::
    "wal_params \<Rightarrow> key_manager option \<Rightarrow> wal_version \<Rightarrow> bool \<Rightarrow> bytes \<Rightarrow> nat \<Rightarrow> nat \<Rightarrow> verifier \<Rightarrow>
     (wal_entry \<times> nat) list res" where
  "scan_entries P km version allow_legacy file pos n_read v =
     (if length file < pos + 4 then Inr []
      else let len = u32_at file pos; next = pos + 4 + len
           in if length file < next
              then if n_read = 0 \<and> 64 < length file
                   then Inl (WalCorruption (of_nat pos) ''WAL entry length exceeds file size'')
                   else Inr []
              else if MAX_WAL_ENTRY_SIZE < len then Inl (WalCorruption (of_nat pos) ''WAL entry too large'')
              else rbind (chunk_entries P km version allow_legacy (of_nat pos) (length file \<le> next)
                           (take len (drop (pos + 4) file)) v) (\<lambda>(es, stop, v).
                   rbind (if stop then Inr []
                          else scan_entries P km version allow_legacy file next (n_read + length es) v) (\<lambda>rest.
                   Inr (map (\<lambda>e. (e, next)) es @ rest))))"
  by auto
termination
  by (relation "measure (\<lambda>(P, km, version, allow_legacy, file, pos, n_read, v). length file - pos)") auto

declare scan_entries.simps [simp del]

definition detect_version :: "bytes \<Rightarrow> wal_version \<times> nat" where
  "detect_version file =
     (if 4 \<le> length file \<and> take 4 file = WAL_V3_HEADER then (WalV3, 4)
      else if 4 \<le> length file \<and> take 4 file = WAL_V2_HEADER then (WalV2, 4)
      else (WalV1, 0))"

definition replay_mmap :: "wal_params \<Rightarrow> wal \<Rightarrow> ((wal_entry \<times> nat) list \<times> wal_version) res" where
  "replay_mmap P W =
     (if wl_file W = [] then Inr ([], WalV1)
      else rbind (if wp_encryption P then get_integrity_key W else Inr []) (\<lambda>key.
           case detect_version (wl_file W) of (version, pos) \<Rightarrow>
           rbind (scan_entries P (wl_km W) version (wl_allow_legacy W) (wl_file W) pos 0
             \<lparr>vf_key = key, vf_last = zero_hmac, vf_legacy = False\<rparr>) (\<lambda>es. Inr (es, version))))"

definition wal_replay :: "wal_params \<Rightarrow> wal \<Rightarrow> (wal_entry \<times> nat) list res" where
  "wal_replay P W = rbind (replay_mmap P W) (\<lambda>(es, version). Inr es)"

definition replay_from :: "wal_params \<Rightarrow> u64 \<Rightarrow> wal \<Rightarrow> wal_entry list res" where
  "replay_from P since_seq_no W =
     rbind (wal_replay P W) (\<lambda>es. Inr (map fst (filter (\<lambda>(e, pos). since_seq_no < wal_seq_no e) es)))"

text \<open>The stream reader. In a build without \<open>encryption-at-rest\<close> its body only steps over the chunks.\<close>

function skip_chunks :: "bytes \<Rightarrow> nat \<Rightarrow> unit res" where
  "skip_chunks file pos =
     (if length file < pos + 4 then Inr ()
      else let len = u32_at file pos; next = pos + 4 + len
           in if length file < next
              then if 64 < length file then Inl (WalCorruption (of_nat pos) ''WAL entry length exceeds file size'')
                   else Inr ()
              else if MAX_WAL_ENTRY_SIZE < len then Inl (WalCorruption (of_nat pos) ''WAL entry too large'')
              else skip_chunks file next)"
  by auto
termination by (relation "measure (\<lambda>(file, pos). length file - pos)") auto

declare skip_chunks.simps [simp del]

definition stream_scan :: "wal_params \<Rightarrow> wal \<Rightarrow> ((wal_entry \<times> nat) list \<times> wal_version) res" where
  "stream_scan P W =
     (if wp_encryption P then replay_mmap P W
      else if wl_file W = [] then Inr ([], WalV1)
      else case detect_version (wl_file W) of (version, pos) \<Rightarrow>
        rbind (skip_chunks (wl_file W) pos) (\<lambda>_. Inr ([], version)))"

definition replay_with_size_and_version :: "wal_params \<Rightarrow> wal \<Rightarrow> ((wal_entry \<times> nat) list \<times> wal_version) res" where
  "replay_with_size_and_version P W =
     (case replay_mmap P W of Inr r \<Rightarrow> Inr r | Inl _ \<Rightarrow> stream_scan P W)"

section \<open>Truncation, recovery and migration\<close>

definition flusher_truncate :: "nat \<Rightarrow> bytes \<Rightarrow> wal \<Rightarrow> unit res \<times> wal" where
  "flusher_truncate offset new_last_hmac W =
     (if wl_poisoned W
      then (Inl (Storage ''WAL handle poisoned after suspected torn write; requires explicit recovery replay before further appends''), W)
      else (Inr (), W\<lparr>wl_file := take offset (wl_file W) @ replicate (offset - length (wl_file W)) 0,
                     wl_size := offset, wl_header_written := (4 \<le> offset \<and> wl_header_written W),
                     wl_last_hmac := new_last_hmac\<rparr>))"

definition wal_truncate :: "nat \<Rightarrow> bytes \<Rightarrow> wal \<Rightarrow> unit res \<times> wal" where
  "wal_truncate offset new_last_hmac W =
     (if wl_sealed W then (Inl (Storage ''Cannot truncate sealed WAL segment''), W)
      else flusher_truncate offset new_last_hmac W)"

definition recover_from_poison :: "wal_params \<Rightarrow> wal \<Rightarrow> unit res \<times> wal" where
  "recover_from_poison P W =
     (if \<not> wl_poisoned W then (Inr (), W)
      else case wal_replay P W of
             Inl e \<Rightarrow> (Inl e, W)
           | Inr es \<Rightarrow>
               let (verified_offset, verified_hmac) =
                     (if es \<noteq> [] then (snd (last es), wal_checksum (fst (last es)))
                      else if 4 \<le> length (wl_file W) \<and> wl_header_written W then (4, zero_hmac)
                      else (0, zero_hmac))
               in case wal_truncate verified_offset verified_hmac (W\<lparr>wl_poisoned := False\<rparr>) of
                    (Inl e, W') \<Rightarrow> (Inl e, W'\<lparr>wl_poisoned := True\<rparr>)
                  | (Inr _, W') \<Rightarrow> (Inr (), W'\<lparr>wl_size := verified_offset, wl_last_hmac := verified_hmac\<rparr>))"

definition wal_rotate_and_seal :: "wal \<Rightarrow> wal" where
  "wal_rotate_and_seal W = W\<lparr>wl_sealed := True\<rparr>"

text \<open>The end of the entries of transactions up to the target, as the rollback asks for it.\<close>

fun tx_offset :: "tx_id \<Rightarrow> (wal_entry \<times> nat) list \<Rightarrow> nat \<times> bytes \<Rightarrow> nat \<times> bytes" where
  "tx_offset target [] acc = acc"
| "tx_offset target ((e, off) # es) acc =
     (let entry_tx = wal_op_tx (wal_op e)
      in if target < INTERNAL_BASE \<and> INTERNAL_BASE \<le> entry_tx then tx_offset target es (off, wal_checksum e)
         else if target < entry_tx then acc
         else tx_offset target es (off, wal_checksum e))"

definition find_tx_offset :: "wal_params \<Rightarrow> tx_id \<Rightarrow> wal \<Rightarrow> (nat \<times> bytes) res" where
  "find_tx_offset P target W = rbind (stream_scan P W) (\<lambda>(es, version). Inr (tx_offset target es (0, zero_hmac)))"

definition rewrite_as_v3 :: "wal_params \<Rightarrow> (wal_entry \<times> nat) list \<Rightarrow> wal \<Rightarrow> unit res \<times> wal" where
  "rewrite_as_v3 P replayed W =
     (case rbind (get_integrity_key W) (\<lambda>key. chain_entries P key (map (\<lambda>(e, pos). (wal_op e, wal_seq_no e)) replayed) zero_hmac) of
        Inl e \<Rightarrow> (Inl e, W)
      | Inr es \<Rightarrow>
          (case encode_batch P (wl_km W) (wl_enc_calls W) es of
             Inl e \<Rightarrow> (Inl e, W\<lparr>wl_file := []\<rparr>)
           | Inr payload \<Rightarrow>
               (Inr (), W\<lparr>wl_file := WAL_V3_HEADER @ payload, wl_size := length (WAL_V3_HEADER @ payload),
                         wl_header_written := True, wl_last_hmac := last_checksum zero_hmac es,
                         wl_enc_calls := wl_enc_calls W + 1\<rparr>)))"

text \<open>Opening a file with the given contents; the backup of a migrated file is not modelled.\<close>

definition wal_version_rank :: "wal_version \<Rightarrow> nat" where
  "wal_version_rank v = (case v of WalV1 \<Rightarrow> 1 | WalV2 \<Rightarrow> 2 | WalV3 \<Rightarrow> 3)"

definition wal_open ::
    "wal_params \<Rightarrow> key_manager option \<Rightarrow> bytes option \<Rightarrow> bool \<Rightarrow> wal_version \<Rightarrow> bytes \<Rightarrow> wal res" where
  "wal_open P km integrity_key allow_legacy min_wal_version file =
     (let W = \<lparr>wl_file = file, wl_size = length file, wl_header_written = (file \<noteq> []),
               wl_km = (if wp_encryption P then km else None), wl_integrity_key = integrity_key,
               wl_allow_legacy = allow_legacy, wl_last_hmac = zero_hmac, wl_sealed = False,
               wl_poisoned = False, wl_enc_calls = 0\<rparr>
      in if file = [] then Inr W
         else rbind (replay_with_size_and_version P W) (\<lambda>(es, version).
              if wal_version_rank version < wal_version_rank min_wal_version \<or> version \<noteq> WalV3
              then (case rewrite_as_v3 P es W of
                      (Inr _, W') \<Rightarrow> Inr W'
                    | (Inl e, W') \<Rightarrow>
                        if wal_version_rank WalV1 < wal_version_rank min_wal_version
                        then Inl (InvalidInput ''Configuration error: WAL version is below min_wal_version and migration failed'')
                        else Inl e)
              else Inr (if es = [] then W else W\<lparr>wl_last_hmac := wal_checksum (fst (last es))\<rparr>)))"

text \<open>Opening for replay only: no flusher, and the segment counts as sealed.\<close>

definition wal_open_read_only :: "wal_params \<Rightarrow> key_manager option \<Rightarrow> bytes option \<Rightarrow> bool \<Rightarrow> bytes \<Rightarrow> wal" where
  "wal_open_read_only P km integrity_key allow_legacy file =
     \<lparr>wl_file = file, wl_size = length file, wl_header_written = (file \<noteq> []),
      wl_km = (if wp_encryption P then km else None), wl_integrity_key = integrity_key,
      wl_allow_legacy = allow_legacy, wl_last_hmac = zero_hmac, wl_sealed = True,
      wl_poisoned = False, wl_enc_calls = 0\<rparr>"

section \<open>Chains\<close>

fun chained :: "wal_params \<Rightarrow> bytes \<Rightarrow> bytes \<Rightarrow> wal_entry list \<Rightarrow> bool" where
  "chained P key prev [] \<longleftrightarrow> True"
| "chained P key prev (e # es) \<longleftrightarrow> wal_prev_hmac e = prev \<and>
     compute_checksum_v3 P (wal_op e) (wal_seq_no e) key prev = Inr (wal_checksum e) \<and>
     chained P key (wal_checksum e) es"

lemma last_checksum_simps [simp]:
  "last_checksum prev [] = prev" "last_checksum prev (e # es) = last_checksum (wal_checksum e) es"
  by (simp_all add: last_checksum_def)

lemma last_checksum_append [simp]: "last_checksum prev (es @ es') = last_checksum (last_checksum prev es) es'"
  by (induction es arbitrary: prev) simp_all

lemma chained_append [simp]:
  "chained P key prev (es @ es') \<longleftrightarrow> chained P key prev es \<and> chained P key (last_checksum prev es) es'"
  by (induction es arbitrary: prev) auto

lemma chain_entries_chained:
  "chain_entries P key ops prev = Inr es \<Longrightarrow>
     chained P key prev es \<and> map (\<lambda>e. (wal_op e, wal_seq_no e)) es = ops"
proof (induction ops arbitrary: prev es)
  case (Cons a ops)
  obtain op s where a: "a = (op, s)" by fastforce
  from Cons.prems obtain e es' where e: "wal_entry_try_new P op s key prev = Inr e"
    "chain_entries P key ops (wal_checksum e) = Inr es'" "es = e # es'"
    by (auto simp: a rbind_eq_Inr)
  from Cons.IH [OF e(2)] e show ?case
    by (auto simp: a wal_entry_try_new_def rbind_eq_Inr)
qed simp

definition key_ok :: "bytes \<Rightarrow> bool" where
  "key_ok key \<longleftrightarrow> key \<noteq> [] \<and> length key \<le> 10000"

lemma wal_hmac_ok: "key_ok key \<Longrightarrow> wal_hmac h key m = Inr (h key (wal_domain @ m))"
  by (simp add: wal_hmac_def key_ok_def)

lemma chain_entries_total:
  assumes "key_ok key"
  shows "\<exists>es. chain_entries P key ops prev = Inr es"
proof (induction ops arbitrary: prev)
  case (Cons a ops)
  obtain op s where a: "a = (op, s)" by fastforce
  obtain e where "wal_entry_try_new P op s key prev = Inr e"
    using wal_hmac_ok [OF assms] by (cases "wp_encryption P") (simp_all add: wal_entry_try_new_def compute_checksum_v3_def)
  with Cons.IH [of "wal_checksum e"] show ?case by (auto simp: a)
qed simp

text \<open>The verifier after a verified chain.\<close>

definition advance :: "wal_params \<Rightarrow> wal_entry list \<Rightarrow> verifier \<Rightarrow> verifier" where
  "advance P es v = (if wp_encryption P then v\<lparr>vf_last := last_checksum (vf_last v) es\<rparr> else v)"

lemma advance_Nil [simp]: "advance P [] v = v"
  by (simp add: advance_def)

lemma advance_append: "advance P (es @ es') v = advance P es' (advance P es v)"
  by (simp add: advance_def)

lemma vf_key_advance [simp]: "vf_key (advance P es v) = vf_key v"
  by (simp add: advance_def)

text \<open>In a build without encryption nothing is verified and every chain is accepted.\<close>

definition accepts :: "wal_params \<Rightarrow> verifier \<Rightarrow> wal_entry list \<Rightarrow> bool" where
  "accepts P v es \<longleftrightarrow> (wp_encryption P \<longrightarrow> chained P (vf_key v) (vf_last v) es)"

lemma accepts_append [simp]: "accepts P v (es @ es') \<longleftrightarrow> accepts P v es \<and> accepts P (advance P es v) es'"
  by (auto simp: accepts_def advance_def)

lemma accepts_Cons: "accepts P v (e # es) \<longleftrightarrow> accepts P v [e] \<and> accepts P (advance P [e] v) es"
  using accepts_append [of P v "[e]" es] by simp

lemma verify_accepted: "accepts P v [e] \<Longrightarrow> verify_entry P WalV3 allow_legacy off e v = Inr (advance P [e] v)"
  by (auto simp: accepts_def verify_entry_def verify_hmac_def compute_checksum_v3_def advance_def)

lemma verified_chain:
  assumes "verify_entry P WalV3 False off e v = Inr v'" and "wp_encryption P"
  shows "chained P (vf_key v) (vf_last v) [e]" "v' = advance P [e] v"
  using assms by (auto simp: verify_entry_def verify_hmac_def compute_checksum_v3_def advance_def rbind_eq_Inr
      split: sum.splits if_splits)

section \<open>Chunks\<close>

definition wal_frame :: "wal_params \<Rightarrow> wal_entry \<Rightarrow> bytes" where
  "wal_frame P e = u32_le (of_nat (4 + length (wal_payload e))) @ u32_le (wp_crc32 P (wal_payload e)) @ wal_payload e"

lemma wal_to_bytes_frame: "wal_entry_ok e \<Longrightarrow> wal_to_bytes P e = Inr (wal_frame P e)"
  by (simp add: wal_to_bytes_def wal_frame_def wal_entry_ok_def Let_def)

lemma wal_batch_bytes_ok:
  "\<forall>e \<in> set es. wal_entry_ok e \<Longrightarrow> wal_batch_bytes P es = Inr (concat (map (wal_frame P) es))"
  using rmap_Inr [of es "wal_to_bytes P" "wal_frame P"] by (simp add: wal_batch_bytes_def wal_to_bytes_frame)

lemma unat_wal_len [simp]: "n \<le> MAX_WAL_ENTRY_SIZE \<Longrightarrow> unat (of_nat n :: u32) = n"
  by (simp add: MAX_WAL_ENTRY_SIZE_def unat_of_nat_u32)

lemma length_wal_frame: "length (wal_frame P e) = 8 + length (wal_payload e)"
  by (simp add: wal_frame_def)

lemma inner_entries_frames:
  assumes "\<forall>e \<in> set es. wal_entry_ok e" and "accepts P v es"
  shows "inner_entries P WalV3 allow_legacy off at_end (concat (map (wal_frame P) es)) v = Inr (es, False, advance P es v)"
  using assms
proof (induction es arbitrary: v)
  case Nil
  then show ?case by (subst inner_entries.simps) simp
next
  case (Cons e es)
  let ?n = "4 + length (wal_payload e)" and ?tail = "concat (map (wal_frame P) es)"
  let ?data = "concat (map (wal_frame P) (e # es))"
  have ok: "wal_entry_ok e" "?n \<le> MAX_WAL_ENTRY_SIZE" using Cons.prems(1) by (auto simp: wal_entry_ok_def)
  have len: "u32_at ?data 0 = ?n"
    using u32_at_append [of "[]" 0 "of_nat ?n"] unat_wal_len [OF ok(2)] by (simp add: wal_frame_def del: of_nat_add)
  have split: "take ?n (drop 4 ?data) = u32_le (wp_crc32 P (wal_payload e)) @ wal_payload e" "drop (4 + ?n) ?data = ?tail"
    by (simp_all add: wal_frame_def)
  have size: "\<not> length ?data < 4 + ?n" "\<not> length ?data < 4" by (simp_all add: wal_frame_def)
  have ne: "?data \<noteq> []" using size(2) by (metis list.size(3) zero_less_numeral)
  have acc: "accepts P v [e]" "accepts P (advance P [e] v) es" using Cons.prems(2) accepts_Cons [of P v e es] by blast+
  from Cons.IH [OF _ acc(2)] Cons.prems(1)
  have "inner_entries P WalV3 allow_legacy off at_end ?tail (advance P [e] v) = Inr (es, False, advance P (e # es) v)"
    using advance_append [of P "[e]" es v] by simp
  then show ?case
    unfolding inner_entries.simps [of P WalV3 allow_legacy off at_end ?data] Let_def len split if_not_P [OF size(1)]
      if_not_P [OF ne] if_not_P [OF size(2)] wal_from_to_bytes [OF ok(1)]
    using verify_accepted [OF acc(1)] by simp
qed

text \<open>
  A unit of the file: a length-prefixed chunk together with the entries it decodes to, for every
  verifier that accepts them.
\<close>

type_synonym wal_unit = "bytes \<times> wal_entry list"

definition unit_ok :: "wal_params \<Rightarrow> key_manager option \<Rightarrow> wal_unit \<Rightarrow> bool" where
  "unit_ok P km u \<longleftrightarrow> snd u \<noteq> [] \<and>
     (\<exists>raw. fst u = u32_le (of_nat (length raw)) @ raw \<and> length raw \<le> MAX_WAL_ENTRY_SIZE \<and>
        (\<forall>allow_legacy off at_end v. accepts P v (snd u) \<longrightarrow>
           chunk_entries P km WalV3 allow_legacy off at_end raw v = Inr (snd u, False, advance P (snd u) v)))"

definition unit_bytes :: "wal_unit list \<Rightarrow> bytes" where
  "unit_bytes us = concat (map fst us)"

definition unit_log :: "wal_unit list \<Rightarrow> wal_entry list" where
  "unit_log us = concat (map snd us)"

fun unit_ends :: "nat \<Rightarrow> wal_unit list \<Rightarrow> (wal_entry \<times> nat) list" where
  "unit_ends pos [] = []"
| "unit_ends pos (u # us) = map (\<lambda>e. (e, pos + length (fst u))) (snd u) @ unit_ends (pos + length (fst u)) us"

lemma unit_plain:
  assumes "wal_entry_ok e" and "\<not> wp_encryption P \<or> km = None"
  shows "unit_ok P km (wal_frame P e, [e])"
proof -
  let ?raw = "u32_le (wp_crc32 P (wal_payload e)) @ wal_payload e"
  have "chunk_entries P km WalV3 allow_legacy off at_end ?raw v = Inr ([e], False, advance P [e] v)"
    if "accepts P v [e]" for allow_legacy off at_end v
    using assms verify_accepted [OF that] by (simp add: chunk_entries_def single_entry_def wal_from_to_bytes)
  moreover have "wal_frame P e = u32_le (of_nat (length ?raw)) @ ?raw" by (simp add: wal_frame_def)
  ultimately show ?thesis
    unfolding unit_ok_def using assms(1) by (intro conjI exI [of _ ?raw]) (auto simp: wal_entry_ok_def)
qed

lemma unit_encrypted:
  assumes "es \<noteq> []" "\<forall>e \<in> set es. wal_entry_ok e" and "wp_encryption P"
    and "km_decrypt m c n = Inr (concat (map (wal_frame P) es))" and "length n = 12" "12 + length c \<le> MAX_WAL_ENTRY_SIZE"
  shows "unit_ok P (Some m) (u32_le (of_nat (12 + length c)) @ n @ c, es)"
  using assms inner_entries_frames [OF assms(2)]
  unfolding unit_ok_def by (intro conjI exI [of _ "n @ c"]) (auto simp: chunk_entries_def)

section \<open>Scanning\<close>

lemma scan_unit:
  assumes "unit_ok P km u" and "accepts P v (snd u)" and "length pre = pos"
  shows "scan_entries P km WalV3 allow_legacy (pre @ fst u @ rest) pos n v =
    rbind (scan_entries P km WalV3 allow_legacy (pre @ fst u @ rest) (pos + length (fst u)) (n + length (snd u)) (advance P (snd u) v))
      (\<lambda>tail. Inr (map (\<lambda>e. (e, pos + length (fst u))) (snd u) @ tail))"
proof -
  from assms(1) obtain raw where raw: "fst u = u32_le (of_nat (length raw)) @ raw" "length raw \<le> MAX_WAL_ENTRY_SIZE"
    "\<And>off at_end. chunk_entries P km WalV3 allow_legacy off at_end raw v = Inr (snd u, False, advance P (snd u) v)"
    using assms(2) by (auto simp: unit_ok_def)
  let ?file = "pre @ fst u @ rest"
  have len: "u32_at ?file pos = length raw"
    using u32_at_append [OF assms(3), of "of_nat (length raw)" "raw @ rest"] raw(1,2) by simp
  have "take (length raw) (drop (pos + 4) ?file) = raw" using assms(3) raw(1) by simp
  moreover have "pos + 4 + length raw = pos + length (fst u)" using raw(1) by simp
  moreover have "\<not> length ?file < pos + 4" "\<not> length ?file < pos + length (fst u)" using assms(3) raw(1) by simp_all
  moreover have "\<not> MAX_WAL_ENTRY_SIZE < length raw" using raw(2) by simp
  ultimately show ?thesis
    by (subst scan_entries.simps) (simp only: Let_def len if_False raw(3) rbind_Inr prod.case)
qed

lemma scan_torn:
  assumes "unit_ok P km u" and "length pre = pos" and "k < length (fst u)"
  shows "scan_entries P km WalV3 allow_legacy (pre @ take k (fst u)) pos n v =
    (if 4 \<le> k \<and> n = 0 \<and> 64 < pos + k
     then Inl (WalCorruption (of_nat pos) ''WAL entry length exceeds file size'') else Inr [])"
proof -
  from assms(1) obtain raw where raw: "fst u = u32_le (of_nat (length raw)) @ raw" "length raw \<le> MAX_WAL_ENTRY_SIZE"
    by (auto simp: unit_ok_def)
  have size: "length (pre @ take k (fst u)) = pos + k" using assms(2,3) by simp
  have len: "u32_at (pre @ take k (fst u)) pos = length raw" if "4 \<le> k"
  proof -
    have "u32_at (pre @ fst u) pos = length raw"
      using u32_at_append [OF assms(2), of "of_nat (length raw)" raw] raw(1,2) by simp
    moreover have "pre @ take k (fst u) = take (pos + k) (pre @ fst u)" using assms(2) by simp
    ultimately show ?thesis using u32_at_take [of pos "pos + k" "pre @ fst u"] that assms(3) size by simp
  qed
  have "pos + k < pos + 4 + length raw" using assms(3) raw(1) by simp
  then show ?thesis
    using len size by (subst scan_entries.simps) (auto simp: Let_def)
qed

lemma unit_ends_bound: "x \<in> set (unit_ends q us) \<Longrightarrow> q \<le> snd x \<and> snd x \<le> q + length (unit_bytes us)"
proof (induction us arbitrary: q)
  case (Cons u us)
  have len: "length (unit_bytes (u # us)) = length (fst u) + length (unit_bytes us)" by (simp add: unit_bytes_def)
  from Cons.prems consider "x \<in> (\<lambda>e. (e, q + length (fst u))) ` set (snd u)" | "x \<in> set (unit_ends (q + length (fst u)) us)"
    unfolding unit_ends.simps set_append set_map by blast
  then show ?case
  proof cases
    case 1
    then have "snd x = q + length (fst u)" by force
    then show ?thesis unfolding len by simp
  next
    case 2
    then show ?thesis using Cons.IH [OF 2] unfolding len by simp
  qed
qed simp

lemma unit_ends_none: "k < q \<Longrightarrow> filter (\<lambda>x. snd x \<le> k) (unit_ends q us) = []"
  using unit_ends_bound [of _ q us] by (fastforce simp: filter_empty_conv)

lemma unit_ends_all: "q + length (unit_bytes us) \<le> k \<Longrightarrow> filter (\<lambda>x. snd x \<le> k) (unit_ends q us) = unit_ends q us"
  using unit_ends_bound [of _ q us] by (fastforce intro: filter_True)

text \<open>A file cut anywhere: the entries of the complete units, or the error for a torn first one.\<close>

lemma scan_cut:
  assumes "\<forall>u \<in> set us. unit_ok P km u" and "accepts P v (unit_log us)" and "length pre = pos"
  shows "scan_entries P km WalV3 allow_legacy (pre @ take k (unit_bytes us)) pos n v =
    (if us \<noteq> [] \<and> k < length (fst (hd us)) \<and> 4 \<le> k \<and> n = 0 \<and> 64 < pos + k
     then Inl (WalCorruption (of_nat pos) ''WAL entry length exceeds file size'')
     else Inr (filter (\<lambda>x. snd x \<le> pos + k) (unit_ends pos us)))"
  using assms
proof (induction us arbitrary: pre pos k n v)
  case Nil
  then show ?case by (subst scan_entries.simps) (simp add: unit_bytes_def)
next
  case (Cons u us)
  show ?case
  proof (cases "k < length (fst u)")
    case True
    then have "take k (unit_bytes (u # us)) = take k (fst u)" by (simp add: unit_bytes_def)
    then show ?thesis
      using scan_torn [of P km u pre pos k allow_legacy n v] Cons.prems True unit_ends_none [of "pos + k" "pos + length (fst u)" us] by simp
  next
    case False
    let ?k = "k - length (fst u)" and ?pos = "pos + length (fst u)"
    have split: "pre @ take k (unit_bytes (u # us)) = (pre @ fst u) @ take ?k (unit_bytes us)"
      using False by (simp add: unit_bytes_def)
    have acc: "accepts P v (snd u)" "accepts P (advance P (snd u) v) (unit_log us)"
      using Cons.prems(2) by (simp_all add: unit_log_def)
    have ne: "snd u \<noteq> []" using Cons.prems(1) by (simp add: unit_ok_def)
    have "scan_entries P km WalV3 allow_legacy ((pre @ fst u) @ take ?k (unit_bytes us)) ?pos (n + length (snd u)) (advance P (snd u) v) =
        Inr (filter (\<lambda>x. snd x \<le> ?pos + ?k) (unit_ends ?pos us))"
      using Cons.IH [OF _ acc(2), of "pre @ fst u" ?pos ?k "n + length (snd u)"] Cons.prems ne by simp
    then show ?thesis
      unfolding split using scan_unit [of P km u v pre pos allow_legacy "take ?k (unit_bytes us)" n] Cons.prems acc(1) False
      by (simp add: filter_True)
  qed
qed

section \<open>The log as a sequence of units\<close>

text \<open>A log whose file holds exactly the given units, whatever the chain position of the next batch.\<close>

definition wal_holds :: "wal_params \<Rightarrow> wal \<Rightarrow> wal_unit list \<Rightarrow> bool" where
  "wal_holds P W us \<longleftrightarrow> \<not> wl_sealed W \<and>
     wl_size W = length (wl_file W) \<and>
     wl_file W = (if wl_header_written W \<or> us \<noteq> [] then WAL_V3_HEADER @ unit_bytes us else []) \<and>
     (\<exists>key. wl_integrity_key W = Some key \<and> key_ok key \<and> chained P key zero_hmac (unit_log us)) \<and>
     (\<forall>u \<in> set us. unit_ok P (wl_km W) u) \<and> (\<not> wp_encryption P \<longrightarrow> wl_km W = None)"

text \<open>The same with no write under suspicion and the next batch continuing the chain.\<close>

definition wal_inv :: "wal_params \<Rightarrow> wal \<Rightarrow> wal_unit list \<Rightarrow> bool" where
  "wal_inv P W us \<longleftrightarrow> wal_holds P W us \<and> \<not> wl_poisoned W \<and> wl_last_hmac W = last_checksum zero_hmac (unit_log us)"

lemma unit_simps [simp]:
  "unit_bytes [] = []" "unit_log [] = []" "unit_bytes (us @ us') = unit_bytes us @ unit_bytes us'"
  "unit_log (us @ us') = unit_log us @ unit_log us'"
  by (simp_all add: unit_bytes_def unit_log_def)

lemma map_fst_unit_ends: "map fst (unit_ends pos us) = unit_log us"
  by (induction us arbitrary: pos) (simp_all add: unit_log_def comp_def)

lemma header_simps [simp]:
  "length WAL_V3_HEADER = 4" "detect_version (WAL_V3_HEADER @ bs) = (WalV3, 4)"
  by (simp_all add: WAL_V3_HEADER_def detect_version_def)

lemma torn_header: "k < 4 \<Longrightarrow> detect_version (take k (WAL_V3_HEADER @ bs)) = (WalV1, 0)"
  by (simp add: detect_version_def)

text \<open>Replay of a file cut at byte \<open>k\<close>.\<close>

lemma replay_cut:
  assumes holds: "wal_holds P W us" and cut: "wl_file W' = take k (wl_file W)"
    and same: "wl_km W' = wl_km W" "wl_integrity_key W' = wl_integrity_key W"
  shows "wal_replay P W' =
    (if us \<noteq> [] \<and> k < 4 + length (fst (hd us)) \<and> 64 < k
     then Inl (WalCorruption 4 ''WAL entry length exceeds file size'')
     else Inr (filter (\<lambda>x. snd x \<le> k) (unit_ends 4 us)))"
proof -
  obtain key where key: "wl_integrity_key W = Some key" "chained P key zero_hmac (unit_log us)"
    using holds by (auto simp: wal_holds_def)
  note none = unit_ends_none [of k 4 us]
  define v where "v = \<lparr>vf_key = (if wp_encryption P then key else []), vf_last = zero_hmac, vf_legacy = False\<rparr>"
  have acc: "accepts P v (unit_log us)" using key(2) by (simp add: accepts_def v_def)
  have k: "(if wp_encryption P then get_integrity_key W' else Inr []) = Inr (vf_key v)"
    by (simp add: get_integrity_key_def same(2) key(1) v_def)
  have replay: "replay_mmap P W' = (case detect_version (wl_file W') of (version, pos) \<Rightarrow>
      rbind (scan_entries P (wl_km W) version (wl_allow_legacy W') (wl_file W') pos 0 v) (\<lambda>es. Inr (es, version)))"
    if "wl_file W' \<noteq> []"
    unfolding replay_mmap_def if_not_P [OF that] k same(1) rbind_Inr v_def verifier.select_convs ..
  show ?thesis
  proof (cases "(wl_header_written W \<or> us \<noteq> []) \<and> k \<noteq> 0")
    case False
    then have "wl_file W' = []" using holds cut by (cases "k = 0") (simp_all add: wal_holds_def)
    then have "wal_replay P W' = Inr []" by (simp add: wal_replay_def replay_mmap_def)
    moreover have "k = 0 \<or> us = []" using False holds by (auto simp: wal_holds_def)
    ultimately show ?thesis using none by (cases "us = []") simp_all
  next
    case True
    then have f: "wl_file W' = take k (WAL_V3_HEADER @ unit_bytes us)" using holds cut by (simp add: wal_holds_def)
    have ne: "wl_file W' \<noteq> []" using True f by (simp add: WAL_V3_HEADER_def)
    show ?thesis
    proof (cases "k < 4")
      case k: True
      have "length (wl_file W') < 0 + 4" unfolding f using k by simp
      then have scan: "scan_entries P (wl_km W) WalV1 (wl_allow_legacy W') (wl_file W') 0 0 v = Inr []"
        by (subst scan_entries.simps) simp
      have "detect_version (wl_file W') = (WalV1, 0)" unfolding f by (rule torn_header [OF k])
      then have "wal_replay P W' = Inr []" unfolding wal_replay_def replay [OF ne] by (simp add: scan)
      then show ?thesis using k none by simp
    next
      case k: False
      then have f': "wl_file W' = WAL_V3_HEADER @ take (k - 4) (unit_bytes us)" using f by simp
      have units: "\<forall>u \<in> set us. unit_ok P (wl_km W) u" using holds by (simp add: wal_holds_def)
      have "detect_version (wl_file W') = (WalV3, 4)" unfolding f' by simp
      then have "wal_replay P W' = scan_entries P (wl_km W) WalV3 (wl_allow_legacy W') (wl_file W') 4 0 v"
        unfolding wal_replay_def replay [OF ne]
        by (cases "scan_entries P (wl_km W) WalV3 (wl_allow_legacy W') (wl_file W') 4 0 v") simp_all
      also have "\<dots> = (if us \<noteq> [] \<and> k - 4 < length (fst (hd us)) \<and> 4 \<le> k - 4 \<and> (0 :: nat) = 0 \<and> 64 < 4 + (k - 4)
           then Inl (WalCorruption (of_nat 4) ''WAL entry length exceeds file size'')
           else Inr (filter (\<lambda>x. snd x \<le> 4 + (k - 4)) (unit_ends 4 us)))"
        unfolding f' by (rule scan_cut [OF units acc header_simps(1)])
      also have "(us \<noteq> [] \<and> k - 4 < length (fst (hd us)) \<and> 4 \<le> k - 4 \<and> (0 :: nat) = 0 \<and> 64 < 4 + (k - 4)) \<longleftrightarrow>
          us \<noteq> [] \<and> k < 4 + length (fst (hd us)) \<and> 64 < k" using k by auto
      also have "4 + (k - 4) = k" using k by simp
      finally show ?thesis by simp
    qed
  qed
qed

lemma replay_full:
  assumes "wal_holds P W us"
  shows "wal_replay P W = Inr (unit_ends 4 us)"
proof -
  have all: "wl_file W = take (length (wl_file W)) (wl_file W)" by simp
  note replay = replay_cut [OF assms all refl refl]
  show ?thesis
  proof (cases "us = []")
    case True
    then show ?thesis unfolding replay by simp
  next
    case False
    then have k: "length (wl_file W) = 4 + length (unit_bytes us)" using assms by (simp add: wal_holds_def)
    have "length (fst (hd us)) \<le> length (unit_bytes us)" using False by (cases us) (simp_all add: unit_bytes_def)
    then have "\<not> length (wl_file W) < 4 + length (fst (hd us))" unfolding k by simp
    then show ?thesis unfolding replay using unit_ends_all [of 4 us "length (wl_file W)"] k by simp
  qed
qed

section \<open>Writing\<close>

text \<open>
  What the log relies on of a key manager: it is lawful, and its ciphertexts carry at most a tag of
  16 bytes.
\<close>

definition km_wal :: "key_manager option \<Rightarrow> bool" where
  "km_wal km \<longleftrightarrow> km_opt_lawful km \<and>
     (\<forall>m i x c n. km = Some m \<longrightarrow> km_encrypt m i x = Inr (c, n) \<longrightarrow> length c \<le> length x + 16)"

definition hash_32 :: "wal_params \<Rightarrow> bool" where
  "hash_32 P \<longleftrightarrow> (\<forall>k m. length (wp_hmac P k m) = 32)"

text \<open>Operations that fit: keys and values within the limits of the decoder, the batch within one chunk.\<close>

definition batch_ok :: "(wal_op \<times> u64) list \<Rightarrow> bool" where
  "batch_ok ops \<longleftrightarrow> (\<forall>op \<in> set ops. wal_op_ok (fst op)) \<and>
     (\<Sum>op\<leftarrow>ops. 80 + length (wal_op_bytes (fst op))) + 28 \<le> MAX_WAL_ENTRY_SIZE"

lemma length_zero_hmac [simp]: "length zero_hmac = 32"
  by (simp add: zero_hmac_def)

lemma chained_entries_ok:
  assumes "hash_32 P" and "key_ok key"
  shows "chained P key prev es \<Longrightarrow> length prev = 32 \<Longrightarrow> \<forall>e \<in> set es. wal_op_ok (wal_op e) \<Longrightarrow>
    (\<Sum>e\<leftarrow>es. 80 + length (wal_op_bytes (wal_op e))) \<le> MAX_WAL_ENTRY_SIZE \<Longrightarrow>
    (\<forall>e \<in> set es. wal_entry_ok e) \<and> length (last_checksum prev es) = 32 \<and>
    length (concat (map (wal_frame P) es)) = (\<Sum>e\<leftarrow>es. 80 + length (wal_op_bytes (wal_op e)))"
proof (induction es arbitrary: prev)
  case (Cons e es)
  have "compute_checksum_v3 P (wal_op e) (wal_seq_no e) key prev = Inr (wal_checksum e)" using Cons.prems(1) by simp
  then have "zero_hmac = wal_checksum e \<or> (\<exists>m. wp_hmac P key m = wal_checksum e)"
    unfolding compute_checksum_v3_def wal_hmac_ok [OF assms(2)] by (cases "wp_encryption P") auto
  then have c: "length (wal_checksum e) = 32" using assms(1) length_zero_hmac unfolding hash_32_def by metis
  moreover have "length (wal_prev_hmac e) = 32" using Cons.prems(1,2) by simp
  moreover have "length (wal_payload e) = 72 + length (wal_op_bytes (wal_op e))"
    using c calculation(2) by (simp add: wal_payload_def)
  ultimately show ?case
    using Cons.IH [OF _ c] Cons.prems by (auto simp: wal_entry_ok_def length_wal_frame)
qed simp

text \<open>The units that an append adds.\<close>

lemma encode_batch_units:
  assumes hash: "hash_32 P" and key: "key_ok key" and km: "km_wal km" "\<not> wp_encryption P \<longrightarrow> km = None"
    and es: "chained P key prev es" "length prev = 32" "es \<noteq> []" "batch_ok (map (\<lambda>e. (wal_op e, wal_seq_no e)) es)"
  shows "\<exists>us. encode_batch P km i es = Inr (unit_bytes us) \<and> unit_log us = es \<and> us \<noteq> [] \<and> (\<forall>u \<in> set us. unit_ok P km u)"
proof -
  have size: "(\<Sum>e\<leftarrow>es. 80 + length (wal_op_bytes (wal_op e))) + 28 \<le> MAX_WAL_ENTRY_SIZE"
    and ops: "\<forall>e \<in> set es. wal_op_ok (wal_op e)" using es(4) by (auto simp: batch_ok_def comp_def)
  have ok: "\<forall>e \<in> set es. wal_entry_ok e"
    and len: "length (concat (map (wal_frame P) es)) = (\<Sum>e\<leftarrow>es. 80 + length (wal_op_bytes (wal_op e)))"
    using chained_entries_ok [OF hash key es(1,2) ops] size by simp_all
  show ?thesis
  proof (cases km)
    case None
    let ?us = "map (\<lambda>e. (wal_frame P e, [e])) es"
    have "encode_batch P km i es = Inr (unit_bytes ?us)"
      by (simp add: encode_batch_def wal_batch_bytes_ok [OF ok] None unit_bytes_def comp_def)
    moreover have "unit_log ?us = es" by (simp add: unit_log_def comp_def)
    moreover have "\<forall>u \<in> set ?us. unit_ok P km u" using ok unit_plain [of _ P km] None by auto
    ultimately show ?thesis using es(3) by blast
  next
    case (Some m)
    then obtain c n where c: "km_encrypt m i (concat (map (wal_frame P) es)) = Inr (c, n)" "length n = 12"
      "km_decrypt m c n = Inr (concat (map (wal_frame P) es))"
      using km(1) unfolding km_wal_def km_opt_lawful_def km_lawful_def Some option.case by blast
    have "length c \<le> length (concat (map (wal_frame P) es)) + 16" using km(1) Some c(1) by (auto simp: km_wal_def)
    then have "12 + length c \<le> MAX_WAL_ENTRY_SIZE" using len size by simp
    moreover have "wp_encryption P" using km(2) Some by blast
    ultimately have "unit_ok P km (u32_le (of_nat (12 + length c)) @ n @ c, es)"
      using unit_encrypted [OF es(3) ok _ c(3,2)] Some by simp
    moreover have "encode_batch P km i es = Inr (u32_le (of_nat (12 + length c)) @ n @ c)"
      using c(1) by (simp add: encode_batch_def wal_batch_bytes_ok [OF ok] Some)
    ultimately show ?thesis by (intro exI [of _ "[(u32_le (of_nat (12 + length c)) @ n @ c, es)]"]) (simp add: unit_bytes_def unit_log_def)
  qed
qed

lemma prepare_batch_ok:
  assumes "wal_inv P W us"
  shows "\<exists>es key. prepare_batch P ops W = (Inr (es, wl_last_hmac W), W\<lparr>wl_last_hmac := last_checksum (wl_last_hmac W) es\<rparr>) \<and>
    wl_integrity_key W = Some key \<and> key_ok key \<and> chained P key zero_hmac (unit_log us @ es) \<and>
    map (\<lambda>e. (wal_op e, wal_seq_no e)) es = ops"
proof -
  obtain key where key: "wl_integrity_key W = Some key" "key_ok key" "chained P key zero_hmac (unit_log us)"
    and last: "wl_last_hmac W = last_checksum zero_hmac (unit_log us)" "\<not> wl_sealed W"
    using assms by (auto simp: wal_inv_def wal_holds_def)
  obtain es where es: "chain_entries P key ops (wl_last_hmac W) = Inr es" using chain_entries_total [OF key(2)] by blast
  with chain_entries_chained [OF es] key last show ?thesis
    by (auto simp: prepare_batch_def get_integrity_key_def)
qed

end
