(* ===== verification/Wal_Recovery.thy ===== *)
theory Wal_Recovery
  imports Wal_Log
begin

text \<open>
  The write-ahead log over its life: batches written one after the other, replay and reopening, a
  crash that cuts the file at any byte, a failed append with the recovery from the poisoned handle,
  and what replay guarantees of entries it did not write itself.
\<close>

section \<open>Writing batches\<close>

text \<open>The log's part of a commit (\<open>lsm/ops/write.rs\<close>): a failed append puts the chain back.\<close>

definition wal_write :: "wal_params \<Rightarrow> nat option \<Rightarrow> (wal_op \<times> u64) list \<Rightarrow> wal \<Rightarrow> unit res \<times> wal" where
  "wal_write P fault ops W =
     (case prepare_batch P ops W of
        (Inl e, W1) \<Rightarrow> (Inl e, W1)
      | (Inr (es, prev_hmac_snapshot), W1) \<Rightarrow>
          (case wal_append_batch P fault es W1 of
             (Inr _, W2) \<Rightarrow> (Inr (), W2)
           | (Inl e, W2) \<Rightarrow> (Inl e, restore_last_hmac prev_hmac_snapshot W2)))"

fun wal_write_all :: "wal_params \<Rightarrow> (wal_op \<times> u64) list list \<Rightarrow> wal \<Rightarrow> unit res \<times> wal" where
  "wal_write_all P [] W = (Inr (), W)"
| "wal_write_all P (ops # batches) W =
     (case wal_write P None ops W of
        (Inl e, W') \<Rightarrow> (Inl e, W')
      | (Inr _, W') \<Rightarrow> wal_write_all P batches W')"

abbreviation entry_op :: "wal_entry \<Rightarrow> wal_op \<times> u64" where
  "entry_op e \<equiv> (wal_op e, wal_seq_no e)"

abbreviation replayed_ops :: "(wal_entry \<times> nat) list \<Rightarrow> (wal_op \<times> u64) list" where
  "replayed_ops es \<equiv> map (\<lambda>x. entry_op (fst x)) es"

text \<open>The parts of the state that no write changes.\<close>

definition same_config :: "wal \<Rightarrow> wal \<Rightarrow> bool" where
  "same_config W' W \<longleftrightarrow> wl_km W' = wl_km W \<and> wl_integrity_key W' = wl_integrity_key W \<and>
     wl_allow_legacy W' = wl_allow_legacy W"

lemma length_last_checksum:
  assumes "hash_32 P" and "key_ok key"
  shows "chained P key prev es \<Longrightarrow> length prev = 32 \<Longrightarrow> length (last_checksum prev es) = 32"
proof (induction es arbitrary: prev)
  case (Cons e es)
  have "compute_checksum_v3 P (wal_op e) (wal_seq_no e) key prev = Inr (wal_checksum e)" using Cons.prems(1) by simp
  then have "zero_hmac = wal_checksum e \<or> (\<exists>m. wp_hmac P key m = wal_checksum e)"
    unfolding compute_checksum_v3_def wal_hmac_ok [OF assms(2)] by (cases "wp_encryption P") auto
  then have "length (wal_checksum e) = 32" using assms(1) length_zero_hmac unfolding hash_32_def by metis
  then show ?case using Cons.IH Cons.prems(1) by simp
qed simp

text \<open>What a batch adds to the log, whether or not its write succeeds.\<close>

lemma wal_write_cases:
  assumes holds: "wal_inv P W us" and env: "hash_32 P" "km_wal (wl_km W)" and ops: "batch_ok ops"
  shows "\<exists>new. map entry_op (unit_log new) = ops \<and> (new = [] \<longleftrightarrow> ops = []) \<and>
    chained P (the (wl_integrity_key W)) zero_hmac (unit_log (us @ new)) \<and> (\<forall>u \<in> set new. unit_ok P (wl_km W) u) \<and>
    (\<forall>fault. wal_write P fault ops W =
       (if ops = [] then (Inr (), W)
        else case flusher_append fault (unit_bytes new)
                   (W\<lparr>wl_last_hmac := last_checksum zero_hmac (unit_log (us @ new)), wl_enc_calls := wl_enc_calls W + 1\<rparr>) of
               (Inr _, W2) \<Rightarrow> (Inr (), W2)
             | (Inl e, W2) \<Rightarrow> (Inl e, restore_last_hmac (wl_last_hmac W) W2)))"
proof -
  obtain es key where prep: "prepare_batch P ops W = (Inr (es, wl_last_hmac W), W\<lparr>wl_last_hmac := last_checksum (wl_last_hmac W) es\<rparr>)"
    and key: "wl_integrity_key W = Some key" "key_ok key" "chained P key zero_hmac (unit_log us @ es)"
    and es: "map entry_op es = ops" using prepare_batch_ok [OF holds, of ops] by blast
  have last: "wl_last_hmac W = last_checksum zero_hmac (unit_log us)" "\<not> wl_sealed W"
    and km: "\<not> wp_encryption P \<longrightarrow> wl_km W = None" using holds by (auto simp: wal_inv_def wal_holds_def)
  show ?thesis
  proof (cases "es = []")
    case True
    then have "ops = []" using es by simp
    then show ?thesis using True prep key last
      by (intro exI [of _ "[]"]) (simp add: wal_write_def wal_append_batch_def)
  next
    case False
    have chain: "chained P key (wl_last_hmac W) es" "length (wl_last_hmac W) = 32"
      using key(3) last(1) length_last_checksum [OF env(1) key(2)] by simp_all
    obtain new where new: "encode_batch P (wl_km W) (wl_enc_calls W) es = Inr (unit_bytes new)" "unit_log new = es" "new \<noteq> []"
      "\<forall>u \<in> set new. unit_ok P (wl_km W) u"
      using encode_batch_units [OF env(1) key(2) env(2) km chain False, of "wl_enc_calls W"] ops es by auto
    have ne: "ops \<noteq> []" using False es by auto
    have h: "last_checksum zero_hmac (unit_log (us @ new)) = last_checksum (wl_last_hmac W) es" by (simp add: last new(2))
    have "wal_write P fault ops W =
       (case flusher_append fault (unit_bytes new)
          (W\<lparr>wl_last_hmac := last_checksum zero_hmac (unit_log (us @ new)), wl_enc_calls := wl_enc_calls W + 1\<rparr>) of
          (Inr _, W2) \<Rightarrow> (Inr (), W2) | (Inl e, W2) \<Rightarrow> (Inl e, restore_last_hmac (wl_last_hmac W) W2))" for fault
      unfolding h using prep new(1) last(2) False by (simp add: wal_write_def wal_append_batch_def)
    then show ?thesis using new ne es key(1,3) by (intro exI [of _ new]) simp
  qed
qed

definition append_bytes :: "wal \<Rightarrow> wal_unit list \<Rightarrow> bytes" where
  "append_bytes W new = (if \<not> wl_header_written W \<and> wl_size W = 0 then WAL_V3_HEADER else []) @ unit_bytes new"

lemma flusher_append_units:
  assumes "\<not> wl_poisoned W"
  shows "flusher_append None (unit_bytes new) W = (Inr (), W\<lparr>wl_file := wl_file W @ append_bytes W new,
      wl_header_written := (wl_header_written W \<or> wl_size W = 0), wl_size := wl_size W + length (append_bytes W new)\<rparr>)"
    "flusher_append (Some n) (unit_bytes new) W = (Inl (Storage ''WAL flusher write failed''),
      W\<lparr>wl_file := wl_file W @ take n (append_bytes W new),
        wl_poisoned := (wl_size W < length (wl_file W @ take n (append_bytes W new)))\<rparr>)"
  using assms unfolding flusher_append_def append_bytes_def Let_def
  by (simp_all only: if_False option.case) (cases "wl_header_written W"; simp)

text \<open>The file grown by the bytes of an append holds the old units and the new ones.\<close>

lemma append_holds:
  assumes holds: "wal_holds P W us" and key: "chained P (the (wl_integrity_key W)) zero_hmac (unit_log (us @ new))"
    and new: "\<forall>u \<in> set new. unit_ok P (wl_km W) u" "new \<noteq> []"
    and W': "wl_file W' = wl_file W @ append_bytes W new" "wl_size W' = length (wl_file W')" "\<not> wl_sealed W'" "same_config W' W"
  shows "wal_holds P W' (us @ new)"
proof -
  have size: "wl_size W = length (wl_file W)"
    and contents: "wl_file W = (if wl_header_written W \<or> us \<noteq> [] then WAL_V3_HEADER @ unit_bytes us else [])"
    using holds by (simp_all add: wal_holds_def)
  have "wl_size W = 0 \<longleftrightarrow> \<not> (wl_header_written W \<or> us \<noteq> [])" using size contents by (simp add: WAL_V3_HEADER_def)
  then have "wl_file W' = WAL_V3_HEADER @ unit_bytes (us @ new)"
    unfolding W'(1) append_bytes_def contents by (cases "wl_header_written W \<or> us \<noteq> []") simp_all
  moreover have "wl_km W' = wl_km W" "wl_integrity_key W' = wl_integrity_key W" using W'(4) by (simp_all add: same_config_def)
  ultimately show ?thesis using holds key new W'(2,3) unfolding wal_holds_def by auto
qed

lemma wal_write_ok:
  assumes holds: "wal_inv P W us" and env: "hash_32 P" "km_wal (wl_km W)" and ops: "batch_ok ops"
  shows "\<exists>W' new. wal_write P None ops W = (Inr (), W') \<and> wal_inv P W' (us @ new) \<and>
    map entry_op (unit_log new) = ops \<and> same_config W' W"
proof (cases "ops = []")
  case True
  then show ?thesis using wal_write_cases [OF assms] holds
    by (intro exI [of _ W] exI [of _ "[]"]) (auto simp: same_config_def)
next
  case False
  obtain new where new: "map entry_op (unit_log new) = ops" "new \<noteq> []"
    "chained P (the (wl_integrity_key W)) zero_hmac (unit_log (us @ new))" "\<forall>u \<in> set new. unit_ok P (wl_km W) u"
    and step: "wal_write P None ops W =
       (case flusher_append None (unit_bytes new)
          (W\<lparr>wl_last_hmac := last_checksum zero_hmac (unit_log (us @ new)), wl_enc_calls := wl_enc_calls W + 1\<rparr>) of
          (Inr _, W2) \<Rightarrow> (Inr (), W2) | (Inl e, W2) \<Rightarrow> (Inl e, restore_last_hmac (wl_last_hmac W) W2))"
    using wal_write_cases [OF assms] False by auto
  define W0 where "W0 = W\<lparr>wl_last_hmac := last_checksum zero_hmac (unit_log (us @ new)), wl_enc_calls := wl_enc_calls W + 1\<rparr>"
  define W' where "W' = W0\<lparr>wl_file := wl_file W0 @ append_bytes W0 new,
      wl_header_written := (wl_header_written W0 \<or> wl_size W0 = 0), wl_size := wl_size W0 + length (append_bytes W0 new)\<rparr>"
  have W: "wal_holds P W us" "\<not> wl_poisoned W0" "wl_size W = length (wl_file W)" "\<not> wl_sealed W"
    using holds by (simp_all add: wal_inv_def W0_def wal_holds_def)
  have same: "append_bytes W0 new = append_bytes W new" by (simp add: W0_def append_bytes_def)
  have conf: "same_config W' W" by (simp add: same_config_def W'_def W0_def)
  have "wal_holds P W' (us @ new)"
    by (rule append_holds [OF W(1) new(3,4,2)]) (use W conf in \<open>simp_all add: W'_def same, simp_all add: W0_def\<close>)
  then have "wal_inv P W' (us @ new)" using W(2) by (simp add: wal_inv_def W'_def W0_def)
  moreover have "wal_write P None ops W = (Inr (), W')"
    unfolding step W0_def [symmetric] flusher_append_units(1) [OF W(2)] by (simp add: W'_def)
  ultimately show ?thesis using new(1) conf by blast
qed

lemma wal_write_all_ok:
  assumes "wal_inv P W us" and "hash_32 P" and "km_wal (wl_km W)" and "\<forall>ops \<in> set batches. batch_ok ops"
  shows "\<exists>W' new. wal_write_all P batches W = (Inr (), W') \<and> wal_inv P W' (us @ new) \<and>
    map entry_op (unit_log new) = concat batches \<and> same_config W' W"
  using assms
proof (induction batches arbitrary: W us)
  case Nil
  then show ?case by (intro exI [of _ W] exI [of _ "[]"]) (simp add: same_config_def)
next
  case (Cons ops batches)
  obtain W1 new1 where one: "wal_write P None ops W = (Inr (), W1)" "wal_inv P W1 (us @ new1)"
    "map entry_op (unit_log new1) = ops" "same_config W1 W"
    using wal_write_ok [OF Cons.prems(1-3), of ops] Cons.prems(4) by auto
  moreover have "km_wal (wl_km W1)" using one(4) Cons.prems(3) by (simp add: same_config_def)
  ultimately obtain W2 new2 where "wal_write_all P batches W1 = (Inr (), W2)" "wal_inv P W2 ((us @ new1) @ new2)"
    "map entry_op (unit_log new2) = concat batches" "same_config W2 W1"
    using Cons.IH [OF one(2) Cons.prems(2)] Cons.prems(4) by auto
  then show ?case using one by (intro exI [of _ W2] exI [of _ "new1 @ new2"]) (simp add: same_config_def)
qed

section \<open>Opening\<close>

lemma wal_open_empty:
  assumes "key_ok key"
  shows "\<exists>W. wal_open P km (Some key) allow_legacy min_version [] = Inr W \<and> wal_inv P W [] \<and>
    wl_km W = (if wp_encryption P then km else None) \<and> wl_integrity_key W = Some key \<and> wl_allow_legacy W = allow_legacy"
  using assms by (simp add: wal_open_def wal_inv_def wal_holds_def)

lemma wal_version_rank_max: "\<not> wal_version_rank WalV3 < wal_version_rank v"
  by (cases v) (simp_all add: wal_version_rank_def)

text \<open>Opening the file again gives the log with the chain at its end.\<close>

lemma unit_ends_last:
  assumes "us \<noteq> []" and "\<forall>u \<in> set us. snd u \<noteq> []"
  shows "unit_ends q us \<noteq> []" "snd (last (unit_ends q us)) = q + length (unit_bytes us)"
    "fst (last (unit_ends q us)) = last (unit_log us)" "unit_log us \<noteq> []"
proof -
  show ne: "unit_ends q us \<noteq> []" using assms by (cases us) simp_all
  show log: "unit_log us \<noteq> []" using assms by (cases us) (simp_all add: unit_log_def)
  show "fst (last (unit_ends q us)) = last (unit_log us)"
    using last_map [OF ne, of fst] by (simp add: map_fst_unit_ends)
  show "snd (last (unit_ends q us)) = q + length (unit_bytes us)"
    using assms
  proof (induction us arbitrary: q)
    case (Cons u us)
    show ?case
    proof (cases "us = []")
      case True
      then show ?thesis using Cons.prems by (simp add: unit_bytes_def last_map)
    next
      case False
      then have "unit_ends (q + length (fst u)) us \<noteq> []" using Cons.prems by (cases us) simp_all
      then show ?thesis using Cons.IH [OF False] Cons.prems by (simp add: unit_bytes_def)
    qed
  qed simp
qed

lemma units_nonempty: "wal_holds P W us \<Longrightarrow> \<forall>u \<in> set us. snd u \<noteq> []"
  by (auto simp: wal_holds_def unit_ok_def)

lemma replay_mmap_full:
  assumes "wal_holds P W us" and "wl_file W \<noteq> []"
  shows "replay_mmap P W = Inr (unit_ends 4 us, WalV3)"
proof -
  have "wl_file W = WAL_V3_HEADER @ unit_bytes us" using assms by (auto simp: wal_holds_def split: if_splits)
  then have "detect_version (wl_file W) = (WalV3, 4)" by simp
  then show ?thesis using replay_full [OF assms(1)] assms(2)
    by (auto simp: wal_replay_def replay_mmap_def rbind_eq_Inr)
qed

lemma wal_reopen:
  assumes holds: "wal_inv P W us" and km: "wl_km W = (if wp_encryption P then km else None)"
  shows "\<exists>W'. wal_open P km (wl_integrity_key W) allow_legacy min_version (wl_file W) = Inr W' \<and>
    wal_inv P W' us \<and> wl_file W' = wl_file W \<and> wl_last_hmac W' = wl_last_hmac W"
proof -
  define R where "R = \<lparr>wl_file = wl_file W, wl_size = length (wl_file W), wl_header_written = (wl_file W \<noteq> []),
     wl_km = wl_km W, wl_integrity_key = wl_integrity_key W,
     wl_allow_legacy = allow_legacy, wl_last_hmac = zero_hmac, wl_sealed = False,
     wl_poisoned = False, wl_enc_calls = 0\<rparr>"
  have contents: "wl_file W = (if wl_header_written W \<or> us \<noteq> [] then WAL_V3_HEADER @ unit_bytes us else [])"
    and last: "wl_last_hmac W = last_checksum zero_hmac (unit_log us)"
    and hs: "wal_holds P W us"
    using holds by (simp_all add: wal_inv_def wal_holds_def)
  have empty: "wl_file W = [] \<longrightarrow> us = []" using contents by (simp add: WAL_V3_HEADER_def split: if_splits)
  have "wl_file W = WAL_V3_HEADER @ unit_bytes us \<or> wl_file W = [] \<and> us = []"
    unfolding contents by (cases "wl_header_written W \<or> us \<noteq> []") simp_all
  then have "wl_file W = (if wl_file W \<noteq> [] \<or> us \<noteq> [] then WAL_V3_HEADER @ unit_bytes us else [])"
    by (metis (mono_tags))
  then have R: "wal_holds P R us"
    using hs unfolding wal_holds_def R_def wal.select_convs by blast
  show ?thesis
  proof (cases "wl_file W = []")
    case True
    then have "us = []" using empty by blast
    then show ?thesis using R True last
      by (intro exI [of _ R]) (simp add: wal_open_def km R_def wal_inv_def)
  next
    case False
    have replay: "replay_with_size_and_version P R = Inr (unit_ends 4 us, WalV3)"
      using replay_mmap_full [OF R] False by (simp add: replay_with_size_and_version_def R_def)
    define R' where "R' = (if unit_ends 4 us = [] then R else R\<lparr>wl_last_hmac := wal_checksum (fst (last (unit_ends 4 us)))\<rparr>)"
    have "wal_open P km (wl_integrity_key W) allow_legacy min_version (wl_file W) = Inr R'"
      using False replay wal_version_rank_max unfolding wal_open_def Let_def km [symmetric] R_def [symmetric]
      by (simp add: R'_def)
    moreover have "wl_last_hmac R' = wl_last_hmac W"
      using unit_ends_last(1,3) [OF _ units_nonempty [OF hs], of 4] unit_ends_last(4) [OF _ units_nonempty [OF hs]] last
      by (cases "us = []") (simp_all add: R'_def R_def last_checksum_def)
    moreover have "wl_file R' = wl_file W" "wal_holds P R' us" "\<not> wl_poisoned R'"
      using R by (simp_all add: R'_def R_def wal_holds_def)
    ultimately show ?thesis using last by (intro exI [of _ R']) (simp add: wal_inv_def)
  qed
qed

section \<open>Recovery from a torn write\<close>

lemma unit_ends_append: "unit_ends q (us @ us') = unit_ends q us @ unit_ends (q + length (unit_bytes us)) us'"
  by (induction us arbitrary: q) (simp_all add: unit_bytes_def add.assoc)

lemma units_upto:
  "\<exists>kept rest. us = kept @ rest \<and> filter (\<lambda>x. snd x \<le> k) (unit_ends q us) = unit_ends q kept \<and>
     (kept \<noteq> [] \<longrightarrow> q + length (unit_bytes kept) \<le> k)"
proof (induction us arbitrary: q)
  case (Cons u us)
  show ?case
  proof (cases "q + length (fst u) \<le> k")
    case True
    obtain kept rest where IH: "us = kept @ rest"
      "filter (\<lambda>x. snd x \<le> k) (unit_ends (q + length (fst u)) us) = unit_ends (q + length (fst u)) kept"
      "kept \<noteq> [] \<longrightarrow> q + length (fst u) + length (unit_bytes kept) \<le> k" using Cons.IH by blast
    have "filter (\<lambda>x. snd x \<le> k) (unit_ends q (u # us)) = unit_ends q (u # kept)"
      using True IH(2) by (simp add: filter_True)
    moreover have "q + length (unit_bytes (u # kept)) \<le> k"
      using True IH(3) by (cases "kept = []") (simp_all add: unit_bytes_def)
    ultimately show ?thesis using IH(1) by (intro exI [of _ "u # kept"] exI [of _ rest]) simp
  next
    case False
    then have "filter (\<lambda>x. snd x \<le> k) (unit_ends q (u # us)) = []" using unit_ends_none [of k "q + length (fst u)" us] by simp
    then show ?thesis by (intro exI [of _ "[]"] exI [of _ "u # us"]) simp
  qed
qed simp

lemma wal_holds_prefix:
  assumes F: "wal_holds P F (us @ us')" and conf: "same_config W F" and W: "\<not> wl_sealed W" "wl_size W = length (wl_file W)"
    and contents: "wl_file W = (if wl_header_written W \<or> us \<noteq> [] then WAL_V3_HEADER @ unit_bytes us else [])"
  shows "wal_holds P W us"
proof -
  have same: "wl_km W = wl_km F" "wl_integrity_key W = wl_integrity_key F" using conf by (simp_all add: same_config_def)
  have "\<exists>key. wl_integrity_key W = Some key \<and> key_ok key \<and> chained P key zero_hmac (unit_log us)"
    "\<forall>u \<in> set us. unit_ok P (wl_km W) u" "\<not> wp_encryption P \<longrightarrow> wl_km W = None"
    using F unfolding same by (auto simp: wal_holds_def)
  with W contents show ?thesis unfolding wal_holds_def by blast
qed

lemma recover_cut:
  assumes F: "wal_holds P F (us @ new)" and cut: "wl_file W = take k (wl_file F)" "k \<le> length (wl_file F)"
    and conf: "same_config W F" and W: "wl_poisoned W" "\<not> wl_sealed W"
    and kept: "wl_header_written W \<or> us \<noteq> [] \<Longrightarrow> 4 + length (unit_bytes us) \<le> k"
  shows "us = [] \<and> 64 < k \<and> recover_from_poison P W = (Inl (WalCorruption 4 ''WAL entry length exceeds file size''), W) \<or>
    (\<exists>keep rest W'. new = keep @ rest \<and> recover_from_poison P W = (Inr (), W') \<and> wal_inv P W' (us @ keep) \<and> same_config W' W)"
proof -
  have same: "wl_km W = wl_km F" "wl_integrity_key W = wl_integrity_key F" using conf by (simp_all add: same_config_def)
  note replay = replay_cut [OF F cut(1) same]
  show ?thesis
  proof (cases "us @ new \<noteq> [] \<and> k < 4 + length (fst (hd (us @ new))) \<and> 64 < k")
    case True
    have "us = []" using True kept by (cases us) (auto simp: unit_bytes_def)
    moreover have "recover_from_poison P W = (Inl (WalCorruption 4 ''WAL entry length exceeds file size''), W)"
      using W(1) unfolding recover_from_poison_def replay if_P [OF True] by simp
    ultimately show ?thesis using True by blast
  next
    case False
    obtain keep rest where new: "new = keep @ rest"
      "filter (\<lambda>x. snd x \<le> k) (unit_ends (4 + length (unit_bytes us)) new) = unit_ends (4 + length (unit_bytes us)) keep"
      "keep \<noteq> [] \<longrightarrow> 4 + length (unit_bytes us) + length (unit_bytes keep) \<le> k" using units_upto by blast
    let ?us = "us @ keep"
    have bound: "?us \<noteq> [] \<longrightarrow> 4 + length (unit_bytes ?us) \<le> k"
      using new(3) kept by (cases "keep = []") simp_all
    have "filter (\<lambda>x. snd x \<le> k) (unit_ends 4 us) = unit_ends 4 us"
      using unit_ends_all [of 4 us k] kept by (cases "us = []") simp_all
    then have entries: "wal_replay P W = Inr (unit_ends 4 ?us)"
      unfolding replay if_not_P [OF False] by (simp add: unit_ends_append new(2))
    have F': "wal_holds P F (?us @ rest)" using F new(1) by simp
    have contents: "wl_file F = WAL_V3_HEADER @ unit_bytes ?us @ unit_bytes rest" if "?us \<noteq> []"
      using F' that unfolding wal_holds_def by auto
    define off where "off = (if ?us \<noteq> [] then 4 + length (unit_bytes ?us) else if wl_header_written W then 4 else 0)"
    define hm where "hm = last_checksum zero_hmac (unit_log ?us)"
    have off: "off \<le> k" using bound kept by (cases "wl_header_written W") (simp_all add: off_def)
    have len: "length (wl_file W) = k" using cut by simp
    have "(if unit_ends 4 ?us \<noteq> [] then (snd (last (unit_ends 4 ?us)), wal_checksum (fst (last (unit_ends 4 ?us))))
        else if 4 \<le> length (wl_file W) \<and> wl_header_written W then (4, zero_hmac) else (0, zero_hmac)) = (off, hm)"
    proof (cases "?us = []")
      case True
      then show ?thesis using kept len by (auto simp: off_def hm_def)
    next
      case ne: False
      have "\<forall>u \<in> set ?us. snd u \<noteq> []" using units_nonempty [OF F'] by auto
      with ne show ?thesis unfolding off_def hm_def last_checksum_def
        using unit_ends_last(1,2,3) [OF ne, of 4] unit_ends_last(4) [OF ne] by auto
    qed
    moreover define W' where "W' = W\<lparr>wl_poisoned := False, wl_file := take off (wl_file W), wl_size := off,
        wl_header_written := (4 \<le> off \<and> wl_header_written W), wl_last_hmac := hm\<rparr>"
    ultimately have "recover_from_poison P W = (Inr (), W')"
      using W len off unfolding recover_from_poison_def entries by (simp add: wal_truncate_def flusher_truncate_def)
    moreover have "wl_file W' = (if wl_header_written W' \<or> ?us \<noteq> [] then WAL_V3_HEADER @ unit_bytes ?us else [])"
    proof (cases "?us = []")
      case True
      have "take 4 (wl_file F) = WAL_V3_HEADER" if "wl_header_written W"
        using kept that cut(2) F' True by (auto simp: wal_holds_def split: if_splits)
      with True off show ?thesis unfolding W'_def off_def cut(1) by (simp add: min_def)
    next
      case ne: False
      have "wl_file W' = take off (wl_file F)" unfolding W'_def using cut(1) off by (simp add: min_def)
      with ne show ?thesis unfolding contents [OF ne] by (simp add: off_def)
    qed
    moreover have "same_config W' W" "\<not> wl_sealed W'" "wl_size W' = length (wl_file W')" "\<not> wl_poisoned W'" "wl_last_hmac W' = hm"
      using W(2) len off by (simp_all add: same_config_def W'_def)
    moreover have "same_config W' F" using conf by (simp add: same_config_def W'_def)
    ultimately have "wal_inv P W' ?us" using wal_holds_prefix [OF F'] unfolding wal_inv_def hm_def by blast
    then show ?thesis using new(1) \<open>recover_from_poison P W = (Inr (), W')\<close> \<open>same_config W' W\<close> by blast
  qed
qed

text \<open>A write that fails after any number of bytes, and the recovery after it.\<close>

lemma wal_write_fails:
  assumes holds: "wal_inv P W us" and env: "hash_32 P" "km_wal (wl_km W)" and ops: "batch_ok ops" "ops \<noteq> []"
  shows "\<exists>e W1. wal_write P (Some n) ops W = (Inl e, W1) \<and>
    (us = [] \<and> 64 < length (wl_file W1) \<and> wl_poisoned W1 \<and>
       recover_from_poison P W1 = (Inl (WalCorruption 4 ''WAL entry length exceeds file size''), W1) \<or>
     (\<exists>keep rest W2. ops = map entry_op (unit_log keep) @ rest \<and> recover_from_poison P W1 = (Inr (), W2) \<and>
        wal_inv P W2 (us @ keep) \<and> same_config W2 W))"
proof -
  obtain new where new: "map entry_op (unit_log new) = ops" "new \<noteq> []"
    "chained P (the (wl_integrity_key W)) zero_hmac (unit_log (us @ new))" "\<forall>u \<in> set new. unit_ok P (wl_km W) u"
    and step: "wal_write P (Some n) ops W =
       (case flusher_append (Some n) (unit_bytes new)
          (W\<lparr>wl_last_hmac := last_checksum zero_hmac (unit_log (us @ new)), wl_enc_calls := wl_enc_calls W + 1\<rparr>) of
          (Inr _, W2) \<Rightarrow> (Inr (), W2) | (Inl e, W2) \<Rightarrow> (Inl e, restore_last_hmac (wl_last_hmac W) W2))"
    using wal_write_cases [OF assms(1-4)] ops(2) by auto
  define W0 where "W0 = W\<lparr>wl_last_hmac := last_checksum zero_hmac (unit_log (us @ new)), wl_enc_calls := wl_enc_calls W + 1\<rparr>"
  define W1 where "W1 = restore_last_hmac (wl_last_hmac W) (W0\<lparr>wl_file := wl_file W0 @ take n (append_bytes W0 new),
        wl_poisoned := (wl_size W0 < length (wl_file W0 @ take n (append_bytes W0 new)))\<rparr>)"
  have W: "wal_holds P W us" "\<not> wl_poisoned W0" "wl_size W = length (wl_file W)" "\<not> wl_sealed W"
    "wl_last_hmac W = last_checksum zero_hmac (unit_log us)"
    using holds by (simp_all add: wal_inv_def W0_def wal_holds_def)
  have same: "append_bytes W0 new = append_bytes W new" by (simp add: W0_def append_bytes_def)
  have fails: "wal_write P (Some n) ops W = (Inl (Storage ''WAL flusher write failed''), W1)"
    unfolding step W0_def [symmetric] flusher_append_units(2) [OF W(2)] by (simp add: W1_def)
  have fields: "wl_file W1 = wl_file W @ take n (append_bytes W new)" "wl_last_hmac W1 = wl_last_hmac W" "wl_size W1 = wl_size W"
    "wl_poisoned W1 \<longleftrightarrow> take n (append_bytes W new) \<noteq> []" "\<not> wl_sealed W1" "wl_header_written W1 = wl_header_written W"
    and conf: "same_config W1 W"
    using W(3,4) by (simp_all add: W1_def restore_last_hmac_def same, auto simp: W0_def same_config_def)
  show ?thesis
  proof (cases "wl_poisoned W1")
    case False
    then have "wl_file W1 = wl_file W" using fields(1,4) by simp
    moreover have "wl_km W1 = wl_km W" "wl_integrity_key W1 = wl_integrity_key W" using conf by (simp_all add: same_config_def)
    ultimately have "wal_holds P W1 us" using W(1) fields(3,5,6) by (auto simp only: wal_holds_def)
    then have "wal_inv P W1 us" using False W(5) fields(2) by (simp add: wal_inv_def)
    moreover have "recover_from_poison P W1 = (Inr (), W1)" using False by (simp add: recover_from_poison_def)
    ultimately show ?thesis using fails conf ops(2) new(1)
      by (intro exI [of _ "Storage ''WAL flusher write failed''"] exI [of _ W1]) (auto intro!: exI [of _ "[] :: wal_unit list"])
  next
    case True
    define F where "F = W1\<lparr>wl_file := wl_file W @ append_bytes W new, wl_size := length (wl_file W @ append_bytes W new)\<rparr>"
    have F: "wal_holds P F (us @ new)"
      by (rule append_holds [OF W(1) new(3,4,2)]) (use fields(5) conf in \<open>simp_all add: F_def same_config_def\<close>)
    define k where "k = length (wl_file W1)"
    have "wl_file W1 = take k (wl_file F)" "k \<le> length (wl_file F)" by (simp_all add: k_def fields(1) F_def min_def)
    moreover have "same_config W1 F" by (simp add: same_config_def F_def)
    moreover have "4 + length (unit_bytes us) \<le> k" if "wl_header_written W1 \<or> us \<noteq> []"
      using that W(1) fields(1,6) by (simp add: k_def wal_holds_def)
    ultimately consider "us = []" "64 < k" "recover_from_poison P W1 = (Inl (WalCorruption 4 ''WAL entry length exceeds file size''), W1)"
      | keep rest W2 where "new = keep @ rest" "recover_from_poison P W1 = (Inr (), W2)" "wal_inv P W2 (us @ keep)" "same_config W2 W1"
      using recover_cut [OF F, of W1 k] True fields(5) by blast
    then show ?thesis
    proof cases
      case 1
      then show ?thesis using fails True unfolding k_def by blast
    next
      case (2 keep rest W2)
      moreover have "ops = map entry_op (unit_log keep) @ map entry_op (unit_log rest)" using 2(1) new(1) by auto
      moreover have "same_config W2 W" using 2(4) conf by (simp add: same_config_def)
      ultimately show ?thesis using fails by blast
    qed
  qed
qed

section \<open>Verified chains\<close>

text \<open>
  What the verifier has established of entries it let pass: a chain under its key, or one that at
  some entry switched to the legacy key, which only the configuration can allow.
\<close>

definition verified :: "wal_params \<Rightarrow> bool \<Rightarrow> verifier \<Rightarrow> wal_entry list \<Rightarrow> verifier \<Rightarrow> bool" where
  "verified P allow_legacy v es v' \<longleftrightarrow>
     chained P (vf_key v) (vf_last v) es \<and> v' = advance P es v \<or>
     allow_legacy \<and> \<not> vf_legacy v \<and> (\<exists>es1 es2. es = es1 @ es2 \<and> chained P (vf_key v) (vf_last v) es1 \<and>
        chained P legacy_integrity_key (last_checksum (vf_last v) es1) es2 \<and>
        v' = \<lparr>vf_key = legacy_integrity_key, vf_last = last_checksum (vf_last v) es, vf_legacy = True\<rparr>)"

lemma verified_Nil: "verified P allow_legacy v [] v"
  by (simp add: verified_def)

lemma verified_append:
  assumes "wp_encryption P" and "verified P allow_legacy v es v'" and "verified P allow_legacy v' es' v''"
  shows "verified P allow_legacy v (es @ es') v''"
proof -
  from assms(2) consider (key) "chained P (vf_key v) (vf_last v) es" "v' = advance P es v"
    | (legacy) es1 es2 where "allow_legacy" "\<not> vf_legacy v" "es = es1 @ es2" "chained P (vf_key v) (vf_last v) es1"
      "chained P legacy_integrity_key (last_checksum (vf_last v) es1) es2"
      "v' = \<lparr>vf_key = legacy_integrity_key, vf_last = last_checksum (vf_last v) es, vf_legacy = True\<rparr>"
    unfolding verified_def by blast
  then show ?thesis
  proof cases
    case key
    have v': "vf_key v' = vf_key v" "vf_last v' = last_checksum (vf_last v) es" "vf_legacy v' = vf_legacy v"
      using assms(1) key(2) by (simp_all add: advance_def)
    from assms(3) consider "chained P (vf_key v') (vf_last v') es'" "v'' = advance P es' v'"
      | es1 es2 where "allow_legacy" "\<not> vf_legacy v'" "es' = es1 @ es2" "chained P (vf_key v') (vf_last v') es1"
        "chained P legacy_integrity_key (last_checksum (vf_last v') es1) es2"
        "v'' = \<lparr>vf_key = legacy_integrity_key, vf_last = last_checksum (vf_last v') es', vf_legacy = True\<rparr>"
      unfolding verified_def by blast
    then show ?thesis
    proof cases
      case 1
      then show ?thesis using key v' by (simp add: verified_def advance_append)
    next
      case (2 es1 es2)
      then show ?thesis using key v' unfolding verified_def
        by (intro disjI2 conjI exI [of _ "es @ es1"] exI [of _ es2]) simp_all
    qed
  next
    case (legacy es1 es2)
    from assms(3) have "chained P (vf_key v') (vf_last v') es'" "v'' = advance P es' v'"
      using legacy(6) by (simp_all add: verified_def)
    then show ?thesis using legacy assms(1) unfolding verified_def
      by (intro disjI2 conjI exI [of _ es1] exI [of _ "es2 @ es'"]) (simp_all add: advance_def)
  qed
qed

lemma verify_entry_verified:
  assumes "verify_entry P WalV3 allow_legacy off e v = Inr v'" and "wp_encryption P"
  shows "verified P allow_legacy v [e] v'"
proof (cases "verify_entry P WalV3 False off e v")
  case (Inr v1)
  then have "v1 = v'" using assms by (auto simp: verify_entry_def split: sum.splits if_splits)
  then show ?thesis using verified_chain [OF Inr assms(2)] by (simp add: verified_def)
next
  case (Inl err)
  then have fallback: "allow_legacy" "\<not> vf_legacy v"
    "verify_entry P WalV3 False off e (v\<lparr>vf_key := legacy_integrity_key\<rparr>) = Inr (advance P [e] (v\<lparr>vf_key := legacy_integrity_key\<rparr>))"
    "v' = \<lparr>vf_key = legacy_integrity_key, vf_last = wal_checksum e, vf_legacy = True\<rparr>"
    using assms by (auto simp: verify_entry_def verify_hmac_def advance_def rbind_eq_Inr split: sum.splits if_splits)
  show ?thesis
    using verified_chain(1) [OF fallback(3) assms(2)] fallback unfolding verified_def
    by (intro disjI2 conjI exI [of _ "[]"] exI [of _ "[e]"]) simp_all
qed

lemma single_entry_verified:
  assumes "single_entry P WalV3 allow_legacy off at_end raw v = Inr (es, stop, v')" and "wp_encryption P"
  shows "verified P allow_legacy v es v'"
  using assms verify_entry_verified verified_Nil
  by (auto simp: single_entry_def rbind_eq_Inr split: sum.splits option.splits)

lemma inner_entries_verified:
  assumes "inner_entries P version allow_legacy off at_end inner v = Inr (es, stop, v')" and "wp_encryption P" and "version = WalV3"
  shows "verified P allow_legacy v es v'"
  using assms
proof (induction P version allow_legacy off at_end inner v arbitrary: es stop v' rule: inner_entries.induct)
  case (1 P version allow_legacy off at_end inner v)
  show ?case
  proof (cases "es = []")
    case True
    then have "v' = v" using 1(2) unfolding inner_entries.simps [of P version allow_legacy off at_end inner v]
      by (auto simp: Let_def rbind_eq_Inr split: if_splits sum.splits option.splits)
    then show ?thesis using True verified_Nil by simp
  next
    case False
    let ?n = "u32_at inner 0"
    have c: "inner \<noteq> []" "\<not> length inner < 4" "\<not> length inner < 4 + ?n"
      using 1(2) False unfolding inner_entries.simps [of P version allow_legacy off at_end inner v] by (auto simp: Let_def split: if_splits)
    obtain e v1 es1 stop1 where e: "wal_from_bytes P (take ?n (drop 4 inner)) = Inr e"
      "verify_entry P version allow_legacy off e v = Inr v1"
      "inner_entries P version allow_legacy off at_end (drop (4 + ?n) inner) v1 = Inr (es1, stop1, v')" "es = e # es1"
      using 1(2) False c unfolding inner_entries.simps [of P version allow_legacy off at_end inner v]
      by (auto simp: Let_def rbind_eq_Inr split: sum.splits option.splits)
    have "verified P allow_legacy v1 es1 v'" using 1(1) [OF c(1,2) refl c(3) e(1,2,3) 1(3,4)] .
    moreover have "verified P allow_legacy v [e] v1" using verify_entry_verified e(2) 1(3,4) by blast
    ultimately show ?thesis using verified_append [OF 1(3), of allow_legacy v "[e]"] e(4) by simp
  qed
qed

lemma chunk_entries_verified:
  assumes "chunk_entries P km WalV3 allow_legacy off at_end raw v = Inr (es, stop, v')" and "wp_encryption P"
  shows "verified P allow_legacy v es v'"
proof (cases km)
  case None
  then show ?thesis using assms single_entry_verified by (simp add: chunk_entries_def)
next
  case (Some m)
  then consider plain where "inner_entries P WalV3 allow_legacy off at_end plain v = Inr (es, stop, v')" | "es = []" "v' = v"
    using assms by (auto simp: chunk_entries_def split: if_splits sum.splits)
  then show ?thesis using inner_entries_verified [OF _ assms(2) refl] verified_Nil by cases auto
qed

lemma scan_entries_verified:
  assumes "scan_entries P km version allow_legacy file_bytes pos n v = Inr es" and "wp_encryption P" and "version = WalV3"
  shows "\<exists>v'. verified P allow_legacy v (map fst es) v'"
  using assms
proof (induction P km version allow_legacy file_bytes pos n v arbitrary: es rule: scan_entries.induct)
  case (1 P km version allow_legacy file_bytes pos n v)
  let ?len = "u32_at file_bytes pos"
  show ?case
  proof (cases "es = []")
    case True
    then show ?thesis using verified_Nil by auto
  next
    case False
    have c: "\<not> length file_bytes < pos + 4" "\<not> length file_bytes < pos + 4 + ?len" "\<not> MAX_WAL_ENTRY_SIZE < ?len"
      using 1(2) False unfolding scan_entries.simps [of P km version allow_legacy file_bytes pos n v] by (auto simp: Let_def split: if_splits)
    obtain es1 stop v1 rest where chunk: "chunk_entries P km version allow_legacy (of_nat pos) (length file_bytes \<le> pos + 4 + ?len)
        (take ?len (drop (pos + 4) file_bytes)) v = Inr (es1, stop, v1)"
      and rest: "(if stop then Inr [] else scan_entries P km version allow_legacy file_bytes (pos + 4 + ?len) (n + length es1) v1) = Inr rest"
      and es: "map fst es = es1 @ map fst rest"
      using 1(2) c unfolding scan_entries.simps [of P km version allow_legacy file_bytes pos n v]
      by (auto simp: Let_def rbind_eq_Inr comp_def)
    have one: "verified P allow_legacy v es1 v1" using chunk_entries_verified chunk 1(3,4) by blast
    show ?thesis
    proof (cases stop)
      case True
      then show ?thesis using one es rest by auto
    next
      case stop: False
      obtain v2 where "verified P allow_legacy v1 (map fst rest) v2"
        using 1(1) [OF c(1) refl refl c(2,3) chunk refl refl stop, of rest] rest stop 1(3,4) by auto
      then show ?thesis using verified_append [OF 1(3) one] es by auto
    qed
  qed
qed

section \<open>Properties\<close>

text \<open>
  C5. What is written is replayed: from an empty file every sequence of batches within the limits
  is written, replay returns exactly their operations with their sequence numbers in order, as one
  chain under the integrity key, and opening the file again restores the position of the chain and
  replays the same entries.
\<close>

theorem wal_replay_roundtrip:
  assumes "hash_32 P" and "key_ok key" and "km_wal km" and "\<forall>ops \<in> set batches. batch_ok ops"
    and "wal_open P km (Some key) allow_legacy min_version [] = Inr W"
  shows "\<exists>W' es R. wal_write_all P batches W = (Inr (), W') \<and> wal_replay P W' = Inr es \<and>
    replayed_ops es = concat batches \<and> chained P key zero_hmac (map fst es) \<and>
    wal_open P km (Some key) allow_legacy min_version (wl_file W') = Inr R \<and>
    wl_last_hmac R = wl_last_hmac W' \<and> wal_replay P R = Inr es"
proof -
  have W: "wal_inv P W []" "wl_km W = (if wp_encryption P then km else None)" "wl_integrity_key W = Some key"
    using wal_open_empty [OF assms(2), of P km allow_legacy min_version] assms(5) by auto
  have km: "km_wal (wl_km W)" using assms(3) W(2) by (simp add: km_wal_def km_opt_lawful_def)
  obtain W' new where W': "wal_write_all P batches W = (Inr (), W')" "wal_inv P W' new"
    "map entry_op (unit_log new) = concat batches" "same_config W' W"
    using wal_write_all_ok [OF W(1) assms(1) km assms(4)] by auto
  have conf: "wl_km W' = (if wp_encryption P then km else None)" "wl_integrity_key W' = Some key"
    using W'(4) W(2,3) by (simp_all add: same_config_def)
  obtain R where R: "wal_open P km (Some key) allow_legacy min_version (wl_file W') = Inr R" "wal_inv P R new"
    "wl_last_hmac R = wl_last_hmac W'"
    using wal_reopen [OF W'(2) conf(1), of allow_legacy min_version] unfolding conf(2) by blast
  have log: "replayed_ops (unit_ends 4 new) = map entry_op (unit_log new)"
    unfolding map_fst_unit_ends [of 4 new, symmetric] by simp
  have "wal_replay P W' = Inr (unit_ends 4 new)" "wal_replay P R = Inr (unit_ends 4 new)"
    using W'(2) R(2) replay_full unfolding wal_inv_def by blast+
  moreover have "chained P key zero_hmac (map fst (unit_ends 4 new))"
    unfolding map_fst_unit_ends using W'(2) conf(2) by (auto simp: wal_inv_def wal_holds_def)
  ultimately show ?thesis using W'(1,3) R(1,3) log
    by (intro exI [of _ W'] exI [of _ "unit_ends 4 new"] exI [of _ R]) simp
qed

definition enc_params :: wal_params where
  "enc_params = \<lparr>wp_encryption = True, wp_hmac = (\<lambda>k m. replicate 32 (of_nat (length m))), wp_crc32 = (\<lambda>bs. of_nat (length bs))\<rparr>"

definition demo_batches :: "(wal_op \<times> u64) list list" where
  "demo_batches = [[(WPut 2 [3] [4], 5), (WTxEnd 2 True, 5)], [(WDelete 6 [3], 7), (WTxEnd 6 True, 7)]]"

lemma demo_ok:
  "hash_32 enc_params" "key_ok [9]" "km_wal (Some km_plain)" "\<forall>ops \<in> set demo_batches. batch_ok ops"
  by (simp_all add: hash_32_def enc_params_def key_ok_def km_wal_def km_opt_lawful_def km_plain_lawful
      demo_batches_def batch_ok_def MAX_WAL_ENTRY_SIZE_def) (simp add: km_plain_def)

theorem wal_replay_roundtrip_witness:
  "\<exists>W W' es R. wal_open enc_params (Some km_plain) (Some [9]) False WalV1 [] = Inr W \<and>
    wal_write_all enc_params demo_batches W = (Inr (), W') \<and> wal_replay enc_params W' = Inr es \<and>
    replayed_ops es = [(WPut 2 [3] [4], 5), (WTxEnd 2 True, 5), (WDelete 6 [3], 7), (WTxEnd 6 True, 7)] \<and>
    wal_open enc_params (Some km_plain) (Some [9]) False WalV1 (wl_file W') = Inr R \<and> wal_replay enc_params R = Inr es"
proof -
  obtain W where "wal_open enc_params (Some km_plain) (Some [9]) False WalV1 [] = Inr W"
    using wal_open_empty [OF demo_ok(2)] by blast
  with wal_replay_roundtrip [OF demo_ok this] show ?thesis by (auto simp: demo_batches_def)
qed

text \<open>
  C6. A crash may cut the file of a log at any byte: replay then returns exactly the entries whose
  chunks lie completely before the cut. The only exception is a cut inside the first chunk and
  behind byte 64, which replay reports as corruption.
\<close>

theorem wal_replay_after_cut:
  assumes "hash_32 P" and "key_ok key" and "km_wal km" and "\<forall>ops \<in> set batches. batch_ok ops"
    and "wal_open P km (Some key) allow_legacy min_version [] = Inr W"
    and "wal_write_all P batches W = (Inr (), W')" and "wal_replay P W' = Inr es"
  shows "wal_replay P (W'\<lparr>wl_file := take n (wl_file W')\<rparr>) =
    (if es \<noteq> [] \<and> n < snd (hd es) \<and> 64 < n
     then Inl (WalCorruption 4 ''WAL entry length exceeds file size'')
     else Inr (filter (\<lambda>x. snd x \<le> n) es))"
proof -
  have W: "wal_inv P W []" "wl_km W = (if wp_encryption P then km else None)"
    using wal_open_empty [OF assms(2), of P km allow_legacy min_version] assms(5) by auto
  have km: "km_wal (wl_km W)" using assms(3) W(2) by (simp add: km_wal_def km_opt_lawful_def)
  obtain us where us: "wal_holds P W' us"
    using wal_write_all_ok [OF W(1) assms(1) km assms(4)] assms(6) by (auto simp: wal_inv_def)
  have es: "es = unit_ends 4 us" using replay_full [OF us] assms(7) by simp
  have hd: "us \<noteq> [] \<and> n < 4 + length (fst (hd us)) \<and> 64 < n \<longleftrightarrow> es \<noteq> [] \<and> n < snd (hd es) \<and> 64 < n"
  proof (cases us)
    case (Cons u us')
    then have "snd u \<noteq> []" using units_nonempty [OF us] by simp
    then show ?thesis unfolding es Cons by (cases "snd u") simp_all
  qed (simp add: es)
  show ?thesis using replay_cut [OF us, of "W'\<lparr>wl_file := take n (wl_file W')\<rparr>" n] unfolding hd es by simp
qed

theorem wal_replay_after_cut_witness:
  "\<exists>W' es. replayed_ops es = concat demo_batches \<and>
     wal_replay enc_params (W'\<lparr>wl_file := take 3 (wl_file W')\<rparr>) = Inr (filter (\<lambda>x. snd x \<le> 3) es)"
proof -
  obtain W where W: "wal_open enc_params (Some km_plain) (Some [9]) False WalV1 [] = Inr W" "wal_inv enc_params W []" "wl_km W = Some km_plain"
    using wal_open_empty [OF demo_ok(2), of enc_params "Some km_plain" False WalV1] by (auto simp: enc_params_def)
  have km: "km_wal (wl_km W)" using W(3) demo_ok(3) by simp
  obtain W' new where W': "wal_write_all enc_params demo_batches W = (Inr (), W')" "wal_holds enc_params W' new"
    "map entry_op (unit_log new) = concat demo_batches"
    using wal_write_all_ok [OF W(2) demo_ok(1) km demo_ok(4)] by (auto simp: wal_inv_def)
  have log: "replayed_ops (unit_ends 4 new) = concat demo_batches"
    unfolding W'(3) [symmetric] map_fst_unit_ends [of 4 new, symmetric] by simp
  from wal_replay_after_cut [OF demo_ok W(1) W'(1) replay_full [OF W'(2)], of 3] log show ?thesis by auto
qed

text \<open>
  C7. After an append to the log that fails after any number of bytes there are two outcomes. Either
  recovery from the poisoned handle succeeds, keeps every batch written before and a prefix of the
  failed one, and batches written afterwards are replayed after them. Or no operation had been
  written before, the torn file is longer than 64 bytes, recovery itself fails with \<open>WalCorruption\<close>
  and the handle stays poisoned. So a log with an earlier operation is always repaired.
\<close>

theorem wal_recovers_from_failed_append:
  assumes "hash_32 P" and "key_ok key" and "km_wal km"
    and "\<forall>ops \<in> set batches. batch_ok ops" and "batch_ok ops" "ops \<noteq> []" and "\<forall>ops \<in> set later. batch_ok ops"
    and "wal_open P km (Some key) allow_legacy min_version [] = Inr W"
    and "wal_write_all P batches W = (Inr (), W1)" and "wal_write P (Some n) ops W1 = (r, W2)"
  shows "(\<exists>e. r = Inl e) \<and>
    (concat batches = [] \<and> 64 < length (wl_file W2) \<and> wl_poisoned W2 \<and>
       recover_from_poison P W2 = (Inl (WalCorruption 4 ''WAL entry length exceeds file size''), W2) \<or>
     (\<exists>kept rest W3 W4 es. ops = kept @ rest \<and> recover_from_poison P W2 = (Inr (), W3) \<and>
        wal_write_all P later W3 = (Inr (), W4) \<and> wal_replay P W4 = Inr es \<and>
        replayed_ops es = concat batches @ kept @ concat later))"
proof -
  have W: "wal_inv P W []" "wl_km W = (if wp_encryption P then km else None)"
    using wal_open_empty [OF assms(2), of P km allow_legacy min_version] assms(8) by auto
  have km: "km_wal (wl_km W)" using assms(3) W(2) by (simp add: km_wal_def km_opt_lawful_def)
  obtain us where us: "wal_inv P W1 us" "map entry_op (unit_log us) = concat batches" "same_config W1 W"
    using wal_write_all_ok [OF W(1) assms(1) km assms(4)] assms(9) by auto
  have km1: "km_wal (wl_km W1)" using km us(3) by (simp add: same_config_def)
  from wal_write_fails [OF us(1) assms(1) km1 assms(5,6), of n] assms(10)
  have err: "\<exists>e. r = Inl e" and "us = [] \<and> 64 < length (wl_file W2) \<and> wl_poisoned W2 \<and> recover_from_poison P W2 = (Inl (WalCorruption 4 ''WAL entry length exceeds file size''), W2) \<or>
     (\<exists>keep rest W3. ops = map entry_op (unit_log keep) @ rest \<and> recover_from_poison P W2 = (Inr (), W3) \<and>
        wal_inv P W3 (us @ keep) \<and> same_config W3 W1)" by auto
  then consider "us = []" "64 < length (wl_file W2)" "wl_poisoned W2" "recover_from_poison P W2 = (Inl (WalCorruption 4 ''WAL entry length exceeds file size''), W2)"
    | keep rest W3 where "ops = map entry_op (unit_log keep) @ rest" "recover_from_poison P W2 = (Inr (), W3)"
      "wal_inv P W3 (us @ keep)" "same_config W3 W1" by blast
  then show ?thesis
  proof cases
    case 1
    then show ?thesis using err us(2) by simp
  next
    case (2 keep rest W3)
    have km3: "km_wal (wl_km W3)" using km1 2(4) by (simp add: same_config_def)
    obtain W4 new where W4: "wal_write_all P later W3 = (Inr (), W4)" "wal_holds P W4 ((us @ keep) @ new)"
      "map entry_op (unit_log new) = concat later"
      using wal_write_all_ok [OF 2(3) assms(1) km3 assms(7)] by (auto simp: wal_inv_def)
    have "replayed_ops (unit_ends 4 ((us @ keep) @ new)) = map entry_op (unit_log ((us @ keep) @ new))"
      unfolding map_fst_unit_ends [of 4, symmetric] by simp
    then have "replayed_ops (unit_ends 4 ((us @ keep) @ new)) = concat batches @ map entry_op (unit_log keep) @ concat later"
      using us(2) W4(3) by simp
    then show ?thesis using err 2(1,2) W4(1) replay_full [OF W4(2)] by blast
  qed
qed

theorem wal_recovers_from_failed_append_witness:
  "\<exists>e W1 W2. wal_write enc_params (Some 11) [(WTxEnd 8 True, 9)] W1 = (Inl e, W2) \<and>
     (\<exists>kept rest W3 W4 es. [(WTxEnd 8 True, 9)] = kept @ rest \<and> recover_from_poison enc_params W2 = (Inr (), W3) \<and>
        wal_write_all enc_params demo_batches W3 = (Inr (), W4) \<and> wal_replay enc_params W4 = Inr es \<and>
        replayed_ops es = concat demo_batches @ kept @ concat demo_batches)"
proof -
  obtain W where W: "wal_open enc_params (Some km_plain) (Some [9]) False WalV1 [] = Inr W" "wal_inv enc_params W []" "wl_km W = Some km_plain"
    using wal_open_empty [OF demo_ok(2), of enc_params "Some km_plain" False WalV1] by (auto simp: enc_params_def)
  have km: "km_wal (wl_km W)" using W(3) demo_ok(3) by simp
  obtain W1 where W1: "wal_write_all enc_params demo_batches W = (Inr (), W1)"
    using wal_write_all_ok [OF W(2) demo_ok(1) km demo_ok(4)] by blast
  have one: "batch_ok [(WTxEnd 8 True, 9)]" "[(WTxEnd 8 True, 9)] \<noteq> []" by (simp_all add: batch_ok_def MAX_WAL_ENTRY_SIZE_def)
  obtain r W2 where step: "wal_write enc_params (Some 11) [(WTxEnd 8 True, 9)] W1 = (r, W2)" by fastforce
  have "concat demo_batches \<noteq> []" by (simp add: demo_batches_def)
  with wal_recovers_from_failed_append [OF demo_ok(1-4) one demo_ok(4) W(1) W1 step] step show ?thesis by blast
qed

text \<open>
  C8. Replay verifies what it returns: in a build with encryption at rest, the entries that replay
  of a current file returns form one chain of keyed hashes from the start of the log under the
  integrity key, or, where the configuration allows it, under the legacy key from some entry on.
\<close>

theorem wal_replay_verifies_chain:
  assumes "wp_encryption P" and "wl_integrity_key W = Some key" and "take 4 (wl_file W) = WAL_V3_HEADER"
    and "wal_replay P W = Inr es"
  shows "\<exists>es1 es2. map fst es = es1 @ es2 \<and> chained P key zero_hmac es1 \<and>
    (es2 \<noteq> [] \<longrightarrow> wl_allow_legacy W \<and> chained P legacy_integrity_key (last_checksum zero_hmac es1) es2)"
proof -
  have "wl_file W \<noteq> []" using assms(3) by (auto simp: WAL_V3_HEADER_def)
  moreover have "4 \<le> length (wl_file W)" using arg_cong [OF assms(3), of length] by simp
  ultimately have "scan_entries P (wl_km W) WalV3 (wl_allow_legacy W) (wl_file W) 4 0
      \<lparr>vf_key = key, vf_last = zero_hmac, vf_legacy = False\<rparr> = Inr es"
    using assms by (auto simp: wal_replay_def replay_mmap_def detect_version_def get_integrity_key_def rbind_eq_Inr)
  from scan_entries_verified [OF this assms(1) refl]
  obtain v' where "verified P (wl_allow_legacy W) \<lparr>vf_key = key, vf_last = zero_hmac, vf_legacy = False\<rparr> (map fst es) v'" by blast
  then consider "chained P key zero_hmac (map fst es)"
    | es1 es2 where "wl_allow_legacy W" "map fst es = es1 @ es2" "chained P key zero_hmac es1"
      "chained P legacy_integrity_key (last_checksum zero_hmac es1) es2"
    unfolding verified_def verifier.select_convs by blast
  then show ?thesis
  proof cases
    case 1
    then show ?thesis by (intro exI [of _ "map fst es"] exI [of _ "[]"]) simp
  qed blast
qed

theorem wal_replay_verifies_chain_witness:
  "\<exists>es es1 es2. replayed_ops es = concat demo_batches \<and> map fst es = es1 @ es2 \<and> chained enc_params [9] zero_hmac es1 \<and> es2 = []"
proof -
  obtain W where W: "wal_inv enc_params W []" "wl_km W = Some km_plain" "wl_integrity_key W = Some [9]" "\<not> wl_allow_legacy W"
    using wal_open_empty [OF demo_ok(2), of enc_params "Some km_plain" False WalV1] by (auto simp: enc_params_def)
  have km: "km_wal (wl_km W)" using W(2) demo_ok(3) by simp
  obtain W' new where W': "wal_holds enc_params W' new" "map entry_op (unit_log new) = concat demo_batches" "same_config W' W"
    using wal_write_all_ok [OF W(1) demo_ok(1) km demo_ok(4)] by (auto simp: wal_inv_def)
  have "new \<noteq> []" using W'(2) by (auto simp: demo_batches_def)
  then have hdr: "take 4 (wl_file W') = WAL_V3_HEADER" using W'(1) by (simp add: wal_holds_def)
  have key: "wl_integrity_key W' = Some [9]" "\<not> wl_allow_legacy W'" using W'(3) W(3,4) by (simp_all add: same_config_def)
  have enc: "wp_encryption enc_params" by (simp add: enc_params_def)
  have log: "replayed_ops (unit_ends 4 new) = concat demo_batches"
    unfolding W'(2) [symmetric] map_fst_unit_ends [of 4 new, symmetric] by simp
  from wal_replay_verifies_chain [OF enc key(1) hdr replay_full [OF W'(1)]] log key(2) show ?thesis by blast
qed

section \<open>Appending behind a torn chunk\<close>

text \<open>Bytes behind a torn chunk belong to it as long as they do not complete it.\<close>

lemma scan_hidden:
  assumes "\<forall>u \<in> set us. unit_ok P km u" and "accepts P v (unit_log us)" and "length pre = pos"
    and "unit_ok P km t" and "4 \<le> j" and "j + length B < length (fst t)" and "us \<noteq> [] \<or> 0 < n"
  shows "scan_entries P km WalV3 allow_legacy (pre @ unit_bytes us @ take j (fst t) @ B) pos n v = Inr (unit_ends pos us)"
  using assms
proof (induction us arbitrary: pre pos n v)
  case Nil
  obtain raw where raw: "fst t = u32_le (of_nat (length raw)) @ raw" "length raw \<le> MAX_WAL_ENTRY_SIZE"
    using Nil.prems(4) by (auto simp: unit_ok_def)
  have "take j (fst t) = u32_le (of_nat (length raw)) @ take (j - 4) raw" using raw(1) Nil.prems(5) by simp
  then have len: "u32_at (pre @ unit_bytes [] @ take j (fst t) @ B) pos = length raw"
    using u32_at_append [OF Nil.prems(3), of "of_nat (length raw)" "take (j - 4) raw @ B"] raw(2) by simp
  have size: "length (pre @ unit_bytes [] @ take j (fst t) @ B) = pos + j + length B" using Nil.prems(3,6) by simp
  have "pos + j + length B < pos + 4 + length raw" using Nil.prems(6) raw(1) by simp
  then show ?case using Nil.prems(5,7) size len by (subst scan_entries.simps) (simp add: Let_def)
next
  case (Cons u us)
  have acc: "accepts P v (snd u)" "accepts P (advance P (snd u) v) (unit_log us)"
    using Cons.prems(2) by (simp_all add: unit_log_def)
  have split: "pre @ unit_bytes (u # us) @ take j (fst t) @ B = pre @ fst u @ unit_bytes us @ take j (fst t) @ B"
    by (simp add: unit_bytes_def)
  have u: "unit_ok P km u" "snd u \<noteq> []" using Cons.prems(1) by (auto simp: unit_ok_def)
  have "scan_entries P km WalV3 allow_legacy (pre @ fst u @ unit_bytes us @ take j (fst t) @ B) (pos + length (fst u))
      (n + length (snd u)) (advance P (snd u) v) = Inr (unit_ends (pos + length (fst u)) us)"
    using Cons.IH [OF _ acc(2), of "pre @ fst u" "pos + length (fst u)" "n + length (snd u)"] Cons.prems u(2) by simp
  then show ?case unfolding split using scan_unit [OF u(1) acc(1) Cons.prems(3)] by simp
qed

definition plain_params :: wal_params where
  "plain_params = \<lparr>wp_encryption = False, wp_hmac = (\<lambda>k m. replicate 32 0), wp_crc32 = (\<lambda>bs. of_nat (length bs))\<rparr>"

definition plain_entry :: "wal_op \<Rightarrow> u64 \<Rightarrow> wal_entry" where
  "plain_entry op s = \<lparr>wal_op = op, wal_seq_no = s, wal_checksum = zero_hmac, wal_prev_hmac = zero_hmac\<rparr>"

abbreviation plain_frames :: "(wal_op \<times> u64) list \<Rightarrow> bytes" where
  "plain_frames ops \<equiv> concat (map (\<lambda>x. wal_frame plain_params (plain_entry (fst x) (snd x))) ops)"

lemma plain_chain: "chain_entries plain_params key ops zero_hmac = Inr (map (\<lambda>x. plain_entry (fst x) (snd x)) ops)"
proof (induction ops)
  case (Cons x ops)
  have "wal_entry_try_new plain_params (fst x) (snd x) key zero_hmac = Inr (plain_entry (fst x) (snd x))"
    by (simp add: wal_entry_try_new_def compute_checksum_v3_def plain_params_def plain_entry_def)
  moreover have "wal_checksum (plain_entry (fst x) (snd x)) = zero_hmac" by (simp add: plain_entry_def)
  ultimately show ?case using Cons by (cases x) simp
qed simp

lemma plain_write:
  assumes "\<not> wl_sealed W" "\<not> wl_poisoned W" "wl_km W = None" "wl_integrity_key W = Some key" "wl_last_hmac W = zero_hmac"
    and "\<forall>x \<in> set ops. wal_entry_ok (plain_entry (fst x) (snd x))" and "ops \<noteq> []"
  shows "\<exists>W'. wal_write plain_params None ops W = (Inr (), W') \<and>
    wl_file W' = wl_file W @ (if \<not> wl_header_written W \<and> wl_size W = 0 then WAL_V3_HEADER else []) @ plain_frames ops \<and>
    wl_km W' = None"
proof -
  let ?es = "map (\<lambda>x. plain_entry (fst x) (snd x)) ops"
  have enc: "encode_batch plain_params None i ?es = Inr (plain_frames ops)" for i
    using wal_batch_bytes_ok [of ?es plain_params] assms(6) by (simp add: encode_batch_def comp_def)
  show ?thesis
    using assms plain_chain enc
    by (auto simp: wal_write_def prepare_batch_def get_integrity_key_def wal_append_batch_def flusher_append_def Let_def)
qed

lemma plain_entry_ok:
  "wal_op_ok op \<Longrightarrow> length (wal_op_bytes op) \<le> 1000 \<Longrightarrow> wal_entry_ok (plain_entry op s)"
  "length (wal_frame plain_params (plain_entry op s)) = 80 + length (wal_op_bytes op)"
  by (simp_all add: wal_entry_ok_def plain_entry_def length_wal_frame wal_payload_def MAX_WAL_ENTRY_SIZE_def)

lemma plain_replay:
  assumes "\<forall>u \<in> set us. unit_ok plain_params (wl_km W) u" and "unit_ok plain_params (wl_km W) t" and "us \<noteq> []"
    and "4 \<le> j" and "j + length B < length (fst t)" and "wl_file W = WAL_V3_HEADER @ unit_bytes us @ take j (fst t) @ B"
  shows "replay_mmap plain_params W = Inr (unit_ends 4 us, WalV3)"
proof -
  have "wl_file W \<noteq> []" using assms(6) by (simp add: WAL_V3_HEADER_def)
  moreover have "\<not> wp_encryption plain_params" by (simp add: plain_params_def)
  moreover have "accepts plain_params v (unit_log us)" for v by (simp add: accepts_def plain_params_def)
  note scan_hidden [OF assms(1) this header_simps(1) assms(2,4,5)]
  ultimately show ?thesis using assms(3,6) by (simp add: replay_mmap_def)
qed

text \<open>
  Opening a log after a crash keeps the torn chunk at its end, and the next batch is appended
  behind it. Here the first transaction of a log is cut 8 bytes into its second operation and the log
  is opened again; as no transaction is complete, recovery has nothing to flush and goes on with
  this log. The next transaction is written with success, and replay does not return it: the length
  prefix of the torn chunk hides it.
\<close>

theorem torn_tail_hides_next_batch:
  "\<exists>W W2 C C3 es.
     wal_open plain_params None (Some [9]) False WalV3 [] = Inr W \<and>
     wal_write plain_params None [(WPut 2 [1] [7], 2), (WPut 2 [4] (replicate 500 0), 3), (WTxEnd 2 True, 3)] W = (Inr (), W2) \<and>
     wal_open plain_params None (Some [9]) False WalV3 (take 111 (wl_file W2)) = Inr C \<and>
     wal_write plain_params None [(WPut 5 [1] [8], 4), (WTxEnd 5 True, 4)] C = (Inr (), C3) \<and>
     wal_replay plain_params C3 = Inr es \<and> replayed_ops es = [(WPut 2 [1] [7], 2)]"
proof -
  let ?ops1 = "[(WPut 2 [1] [7], 2), (WPut 2 [4] (replicate 500 0), 3), (WTxEnd 2 True, 3)]"
    and ?ops2 = "[(WPut 5 [1] [8], 4), (WTxEnd 5 True, 4)]"
  define e1 e2 where "e1 = plain_entry (WPut 2 [1] [7]) 2" and "e2 = plain_entry (WPut 2 [4] (replicate 500 0)) 3"
  define u t where "u = (wal_frame plain_params e1, [e1])" and "t = (wal_frame plain_params e2, [e2])"
  have ok: "\<forall>x \<in> set ?ops1. wal_entry_ok (plain_entry (fst x) (snd x))" "\<forall>x \<in> set ?ops2. wal_entry_ok (plain_entry (fst x) (snd x))"
    by (simp_all add: plain_entry_ok(1))
  then have e: "wal_entry_ok e1" "wal_entry_ok e2" by (simp_all add: e1_def e2_def)
  have len: "length (fst u) = 99" "length (fst t) = 598" "length (plain_frames ?ops2) = 189"
    by (simp_all add: u_def t_def e1_def e2_def plain_entry_ok(2))
  have units: "unit_ok plain_params None u" "unit_ok plain_params None t"
    unfolding u_def t_def using unit_plain [OF e(1)] unit_plain [OF e(2)] by blast+
  obtain W where W: "wal_open plain_params None (Some [9]) False WalV3 [] = Inr W" "wl_file W = []" "\<not> wl_header_written W"
    "wl_size W = 0" "\<not> wl_sealed W" "\<not> wl_poisoned W" "wl_km W = None" "wl_integrity_key W = Some [9]" "wl_last_hmac W = zero_hmac"
    by (simp add: wal_open_def)
  obtain W2 where W2: "wal_write plain_params None ?ops1 W = (Inr (), W2)" "wl_file W2 = WAL_V3_HEADER @ plain_frames ?ops1"
    using plain_write [OF W(5-9) ok(1)] W(2-4) by auto
  have frames: "plain_frames ?ops1 = fst u @ fst t @ wal_frame plain_params (plain_entry (WTxEnd 2 True) 3)"
    by (simp add: u_def t_def e1_def e2_def)
  have cut: "take 111 (wl_file W2) = WAL_V3_HEADER @ unit_bytes [u] @ take 8 (fst t) @ []"
    unfolding W2(2) frames using len(1,2) by (simp add: unit_bytes_def)
  obtain C where C: "wal_open plain_params None (Some [9]) False WalV3 (take 111 (wl_file W2)) = Inr C"
    "wl_file C = take 111 (wl_file W2)" "wl_header_written C" "\<not> wl_sealed C" "\<not> wl_poisoned C" "wl_km C = None"
    "wl_integrity_key C = Some [9]" "wl_last_hmac C = zero_hmac"
  proof -
    let ?f = "take 111 (wl_file W2)"
    let ?R = "\<lparr>wl_file = ?f, wl_size = length ?f, wl_header_written = (?f \<noteq> []), wl_km = None, wl_integrity_key = Some [9],
      wl_allow_legacy = False, wl_last_hmac = zero_hmac, wl_sealed = False, wl_poisoned = False, wl_enc_calls = 0\<rparr>"
    have ne: "?f \<noteq> []" unfolding cut by (simp add: WAL_V3_HEADER_def)
    have "replay_mmap plain_params ?R = Inr (unit_ends 4 [u], WalV3)"
      by (rule plain_replay [of _ _ t 8 "[]"]) (use units len cut in simp_all)
    then have "wal_open plain_params None (Some [9]) False WalV3 ?f = Inr ?R"
      using ne by (simp add: wal_open_def replay_with_size_and_version_def u_def e1_def plain_entry_def plain_params_def)
    then show ?thesis using that [of ?R] ne by simp
  qed
  obtain C3 where C3: "wal_write plain_params None ?ops2 C = (Inr (), C3)"
    "wl_file C3 = WAL_V3_HEADER @ unit_bytes [u] @ take 8 (fst t) @ plain_frames ?ops2" "wl_km C3 = None"
    using plain_write [OF C(4-8) ok(2)] C(2,3) cut by auto
  have "replay_mmap plain_params C3 = Inr (unit_ends 4 [u], WalV3)"
    by (rule plain_replay [of _ _ t 8 "plain_frames ?ops2"]) (use units len C3 in simp_all)
  then have "wal_replay plain_params C3 = Inr (unit_ends 4 [u])" by (simp add: wal_replay_def)
  moreover have "replayed_ops (unit_ends 4 [u]) = [(WPut 2 [1] [7], 2)]" by (simp add: u_def e1_def plain_entry_def)
  ultimately show ?thesis using W(1) W2(1) C(1) C3(1)
    by (intro exI [of _ W] exI [of _ W2] exI [of _ C] exI [of _ C3] exI [of _ "unit_ends 4 [u]"]) simp
qed

end
