(* ===== verification/Budget.thy ===== *)
theory Budget
  imports Types "HOL-Library.Sublist"
begin

text \<open>
  Memory and token budgets: \<open>crates/contextra-types/src/types/budget.rs\<close>. Every compare-and-swap
  loop is one step. The products with 0.8 and 0.95 in floating point are the argument \<open>scale\<close>, a
  function of the percentage and the limit. Proved is that open and settled reservations account
  for all consumed tokens and never exceed the limit, in any interleaving.
\<close>

section \<open>Saturating arithmetic\<close>

definition sat_add :: "u64 \<Rightarrow> u64 \<Rightarrow> u64" where
  "sat_add a b = (if unat a + unat b < 2 ^ 64 then a + b else - 1)"

definition sat_sub :: "u64 \<Rightarrow> u64 \<Rightarrow> u64" where
  "sat_sub a b = (if b \<le> a then a - b else 0)"

lemma unat_sat_add: "unat (sat_add a b) = min (unat a + unat b) (2 ^ 64 - 1)"
proof (cases "unat a + unat b < 2 ^ 64")
  case True
  then show ?thesis by (simp add: sat_add_def unat_word_ariths)
next
  case False
  moreover have "unat (- 1 :: u64) = 2 ^ 64 - 1" by (simp add: unsigned_minus_1_eq_mask mask_eq_exp_minus_1)
  ultimately show ?thesis by (simp add: sat_add_def min_def)
qed

lemma unat_sat_sub: "unat (sat_sub a b) = unat a - unat b"
  by (auto simp: sat_sub_def word_le_nat_alt unat_sub)

section \<open>Token budgets\<close>

datatype budget_strategy = Conservative | Aggressive | Exact u64

record token_budget =
  tk_limit :: u64
  tk_strategy :: budget_strategy
  tk_reserved :: u64
  tk_consumed :: u64

type_synonym budget_scale = "nat \<Rightarrow> u64 \<Rightarrow> u64"

definition token_budget_new :: "u64 \<Rightarrow> u64 \<Rightarrow> token_budget" where
  "token_budget_new max_tokens reserve_tokens =
     \<lparr>tk_limit = max_tokens, tk_strategy = Exact max_tokens, tk_reserved = reserve_tokens, tk_consumed = 0\<rparr>"

definition token_budget_default :: token_budget where
  "token_budget_default = \<lparr>tk_limit = 8192, tk_strategy = Conservative, tk_reserved = 512, tk_consumed = 0\<rparr>"

text \<open>\<open>str::contains\<close>\<close>

definition str_contains :: "string \<Rightarrow> string \<Rightarrow> bool" where
  "str_contains pat s = list_ex (prefix pat) (suffixes s)"

definition for_model :: "string \<Rightarrow> token_budget" where
  "for_model model =
     (let has = (\<lambda>pat. str_contains pat model);
          limit = (if has ''claude-4'' \<or> has ''claude-opus-4'' \<or> has ''claude-sonnet-4'' then 200000
                   else if has ''gpt-4o-mini'' then 128000
                   else if has ''gpt-4o'' then 128000
                   else if has ''gpt-4'' then 8192
                   else if has ''claude-3'' then 200000
                   else if has ''claude-sonnet'' then 200000
                   else if has ''llama3'' then 8192
                   else if has ''mistral'' then 32768
                   else 8192)
      in \<lparr>tk_limit = limit, tk_strategy = Conservative, tk_reserved = 0, tk_consumed = 0\<rparr>)"

definition with_reserved :: "u64 \<Rightarrow> u64 \<Rightarrow> token_budget \<Rightarrow> token_budget" where
  "with_reserved system_tokens answer_tokens B = B\<lparr>tk_reserved := system_tokens + answer_tokens\<rparr>"

definition with_strategy :: "budget_strategy \<Rightarrow> token_budget \<Rightarrow> token_budget" where
  "with_strategy strategy B = B\<lparr>tk_strategy := strategy\<rparr>"

definition effective_limit :: "budget_scale \<Rightarrow> token_budget \<Rightarrow> u64" where
  "effective_limit scale B =
     (case tk_strategy B of Conservative \<Rightarrow> scale 80 (tk_limit B) | Aggressive \<Rightarrow> scale 95 (tk_limit B) | Exact n \<Rightarrow> n)"

definition tokens_available :: "budget_scale \<Rightarrow> token_budget \<Rightarrow> u64" where
  "tokens_available scale B = sat_sub (sat_sub (effective_limit scale B) (tk_reserved B)) (tk_consumed B)"

definition consume_tokens :: "u64 \<Rightarrow> token_budget \<Rightarrow> token_budget" where
  "consume_tokens tokens B = B\<lparr>tk_consumed := sat_add (tk_consumed B) tokens\<rparr>"

definition refund_tokens :: "u64 \<Rightarrow> token_budget \<Rightarrow> token_budget" where
  "refund_tokens tokens B = B\<lparr>tk_consumed := sat_sub (tk_consumed B) tokens\<rparr>"

text \<open>A reservation is its amount; dropping one that was not settled refunds it.\<close>

definition reserve_tokens :: "budget_scale \<Rightarrow> u64 \<Rightarrow> token_budget \<Rightarrow> u64 res \<times> token_budget" where
  "reserve_tokens scale amount B =
     (let avail = tokens_available scale B
      in if avail = 0 \<or> avail < amount then (Inl (Internal ''Token budget exhausted before step execution''), B)
         else (Inr amount, consume_tokens amount B))"

definition try_reserve_tokens :: "budget_scale \<Rightarrow> u64 \<Rightarrow> token_budget \<Rightarrow> unit res \<times> token_budget" where
  "try_reserve_tokens scale tokens B =
     (let avail = tokens_available scale B
      in if avail = 0 \<or> avail < tokens then (Inl (Internal ''Token budget exhausted before step execution''), B)
         else (Inr (), consume_tokens tokens B))"

definition drop_reservation :: "bool \<Rightarrow> u64 \<Rightarrow> token_budget \<Rightarrow> token_budget" where
  "drop_reservation settled amount B = (if settled then B else refund_tokens amount B)"

text \<open>
  Concurrent users of one budget: the open reservations, and the tokens that were settled or taken
  with \<open>try_reserve\<close>.
\<close>

inductive budget_run :: "budget_scale \<Rightarrow> token_budget \<Rightarrow> token_budget \<Rightarrow> u64 list \<Rightarrow> nat \<Rightarrow> bool"
  for scale B0 where
  run_start: "budget_run scale B0 B0 [] 0"
| run_reserve: "budget_run scale B0 B opened spent \<Longrightarrow> reserve_tokens scale n B = (Inr r, B') \<Longrightarrow>
    budget_run scale B0 B' (r # opened) spent"
| run_reserve_fail: "budget_run scale B0 B opened spent \<Longrightarrow> reserve_tokens scale n B = (Inl e, B') \<Longrightarrow>
    budget_run scale B0 B' opened spent"
| run_try: "budget_run scale B0 B opened spent \<Longrightarrow> try_reserve_tokens scale n B = (Inr u, B') \<Longrightarrow>
    budget_run scale B0 B' opened (spent + unat n)"
| run_settle: "budget_run scale B0 B opened spent \<Longrightarrow> r \<in> set opened \<Longrightarrow>
    budget_run scale B0 (drop_reservation True r B) (remove1 r opened) (spent + unat r)"
| run_drop: "budget_run scale B0 B opened spent \<Longrightarrow> r \<in> set opened \<Longrightarrow>
    budget_run scale B0 (drop_reservation False r B) (remove1 r opened) spent"

lemma reserve_tokens_ok:
  assumes "reserve_tokens scale n B = (Inr r, B')"
  shows "r = n" "tk_limit B' = tk_limit B \<and> tk_strategy B' = tk_strategy B \<and> tk_reserved B' = tk_reserved B" "unat (tk_consumed B') = unat (tk_consumed B) + unat n"
    "unat (tk_consumed B') \<le> unat (effective_limit scale B) - unat (tk_reserved B)"
proof -
  have B': "B' = consume_tokens n B" "r = n" and avail: "\<not> tokens_available scale B < n" "tokens_available scale B \<noteq> 0"
    using assms by (auto simp: reserve_tokens_def Let_def split: if_splits)
  then show "r = n" "tk_limit B' = tk_limit B \<and> tk_strategy B' = tk_strategy B \<and> tk_reserved B' = tk_reserved B" by (simp_all add: consume_tokens_def)
  have "unat n \<le> unat (effective_limit scale B) - unat (tk_reserved B) - unat (tk_consumed B)"
    using avail(1) by (simp add: tokens_available_def unat_sat_sub word_less_nat_alt)
  moreover have "unat (tokens_available scale B) \<noteq> 0" using avail(2) by (simp add: unat_eq_0)
  then have "unat (tk_consumed B) < unat (effective_limit scale B) - unat (tk_reserved B)"
    by (simp add: tokens_available_def unat_sat_sub)
  moreover have "unat (effective_limit scale B) < 2 ^ 64" using unat_lt_pow [of "effective_limit scale B"] by simp
  ultimately show "unat (tk_consumed B') = unat (tk_consumed B) + unat n"
    "unat (tk_consumed B') \<le> unat (effective_limit scale B) - unat (tk_reserved B)"
    by (simp_all add: B' consume_tokens_def unat_sat_add)
qed

lemma try_reserve_eq:
  "try_reserve_tokens scale n B = (Inr u, B') \<longleftrightarrow> reserve_tokens scale n B = (Inr n, B')"
  by (auto simp: try_reserve_tokens_def reserve_tokens_def Let_def)

lemma sum_list_remove1: "r \<in> set xs \<Longrightarrow> sum_list (map f xs) = f r + sum_list (map f (remove1 r xs))" for f :: "'a \<Rightarrow> nat"
  by (induction xs) auto

text \<open>Every consumed token is settled or held by an open reservation, and the limit holds.\<close>

definition same_limits :: "token_budget \<Rightarrow> token_budget \<Rightarrow> bool" where
  "same_limits B B0 \<longleftrightarrow> tk_limit B = tk_limit B0 \<and> tk_strategy B = tk_strategy B0 \<and> tk_reserved B = tk_reserved B0"

lemma same_limits_effective: "same_limits B B0 \<Longrightarrow> effective_limit scale B = effective_limit scale B0 \<and> tk_reserved B = tk_reserved B0"
  by (auto simp: same_limits_def effective_limit_def split: budget_strategy.split)

lemma budget_run_exact:
  assumes "budget_run scale B0 B opened spent" and "tk_consumed B0 = 0"
  shows "unat (tk_consumed B) = spent + sum_list (map unat opened) \<and> same_limits B B0 \<and>
    unat (tk_consumed B) \<le> unat (effective_limit scale B0) - unat (tk_reserved B0)"
  using assms
proof (induction rule: budget_run.induct)
  case run_start
  then show ?case by (simp add: same_limits_def)
next
  case (run_reserve B opened spent n r B')
  note IH = run_reserve(3) [OF run_reserve(4)]
  then show ?case using reserve_tokens_ok [OF run_reserve(2)] same_limits_effective [of B B0 scale]
    by (auto simp: same_limits_def consume_tokens_def)
next
  case (run_reserve_fail B opened spent n e B')
  then show ?case by (auto simp: reserve_tokens_def Let_def split: if_splits)
next
  case (run_try B opened spent n u B')
  note IH = run_try(3) [OF run_try(4)]
  have "reserve_tokens scale n B = (Inr n, B')" using run_try(2) try_reserve_eq by blast
  then show ?case using IH reserve_tokens_ok [of scale n B n B'] same_limits_effective [of B B0 scale]
    by (auto simp: same_limits_def)
next
  case (run_settle B opened spent r)
  then show ?case using sum_list_remove1 [OF run_settle(2), of unat] by (simp add: drop_reservation_def)
next
  case (run_drop B opened spent r)
  then show ?case using sum_list_remove1 [OF run_drop(2), of unat]
    by (simp add: drop_reservation_def refund_tokens_def unat_sat_sub same_limits_def)
qed

section \<open>Memory\<close>

record resource_tracker =
  rt_memory_limit :: u64
  rt_memory_used :: u64

definition resource_tracker_new :: "u64 \<Rightarrow> resource_tracker" where
  "resource_tracker_new memory_limit = \<lparr>rt_memory_limit = memory_limit, rt_memory_used = 0\<rparr>"

definition consume_memory :: "u64 \<Rightarrow> resource_tracker \<Rightarrow> unit res \<times> resource_tracker" where
  "consume_memory bytes T =
     (let next = sat_add (rt_memory_used T) bytes
      in if rt_memory_limit T < next
         then (Inl (MemoryBudgetExceeded (next div (1024 * 1024)) (rt_memory_limit T div (1024 * 1024))), T)
         else (Inr (), T\<lparr>rt_memory_used := next\<rparr>))"

definition release_memory :: "u64 \<Rightarrow> resource_tracker \<Rightarrow> resource_tracker" where
  "release_memory bytes T = T\<lparr>rt_memory_used := sat_sub (rt_memory_used T) bytes\<rparr>"

definition has_memory_capacity :: "budget_scale \<Rightarrow> resource_tracker \<Rightarrow> bool" where
  "has_memory_capacity scale T \<longleftrightarrow> rt_memory_used T < scale 95 (rt_memory_limit T)"

lemma consume_memory_bounded:
  "consume_memory n T = (r, T') \<Longrightarrow> rt_memory_used T \<le> rt_memory_limit T \<Longrightarrow> rt_memory_used T' \<le> rt_memory_limit T'"
  by (auto simp: consume_memory_def Let_def split: if_splits)

lemma release_memory_bounded:
  "rt_memory_used T \<le> rt_memory_limit T \<Longrightarrow> rt_memory_used (release_memory n T) \<le> rt_memory_limit (release_memory n T)"
proof -
  have "sat_sub (rt_memory_used T) n \<le> rt_memory_used T" by (simp add: word_le_nat_alt unat_sat_sub)
  then show "rt_memory_used T \<le> rt_memory_limit T \<Longrightarrow> ?thesis" by (simp add: release_memory_def)
qed

end
