(* ===== verification/Lsm_Store.thy ===== *)
theory Lsm_Store
  imports Tx_Buffer Mem_Table Compaction Wal_Recovery Budget
begin

text \<open>
  The storage engine of \<open>crates/contextra-store/src/lsm\<close>: staging, commit, point reads and the
  flush (\<open>validate.rs\<close>, \<open>commit.rs\<close>, \<open>ops/write.rs\<close>, \<open>ops/read.rs\<close>, \<open>ops/compaction.rs\<close>,
  \<open>ops/maintenance.rs\<close>) over the transaction buffer, the memtables, the tables with their manifest
  and the write-ahead log. An operation runs as one step: commits hold the commit mutex, and the
  flush is called under it. Delays, metrics and file names on disk other than the tables' are left out.
\<close>

section \<open>State\<close>

text \<open>
  The parameters: the hashes and the scaling by a percentage, the sizing of the bloom filter, the
  key manager of the tables, the directory, the limit of the memtable, and for the log with a given
  name its derived key manager and integrity key. A log is named by its number, and the log of a new
  store (\<open>wal.log\<close>, marked) shares the number 0 with the first log of a flush (\<open>wal-00...0.log\<close>).
\<close>

type_synonym log_name = "u64 \<times> bool"

record lsm_params =
  lp_wal :: wal_params
  lp_crc32 :: "bytes \<Rightarrow> u32"
  lp_blake3 :: "bytes \<Rightarrow> bytes"
  lp_hash :: "bytes \<Rightarrow> u64"
  lp_scale :: budget_scale
  lp_bloom_m :: nat
  lp_bloom_k :: nat
  lp_km :: "key_manager option"
  lp_path :: path
  lp_memtable_size_limit :: nat
  lp_wal_keys :: "log_name \<Rightarrow> key_manager option \<times> bytes"

record lsm =
  ls_memtable :: mem_table
  ls_immutable :: "mem_table list"
  ls_tables :: tables
  ls_tx_buffer :: kv_buffer
  ls_budget :: resource_tracker
  ls_drift :: u64
  ls_wal :: wal
  ls_old_wals :: "bytes list"
  ls_next_seq_no :: u64
  ls_last_committed_tx :: tx_id
  ls_flush_counter :: u64
  ls_segment_counter :: u64
  ls_intent_locks :: "(bytes \<times> tx_id) list"

definition MAX_KEY_SIZE :: nat where "MAX_KEY_SIZE = 65535"
definition MAX_BATCH_SIZE :: nat where "MAX_BATCH_SIZE = 10000"
definition MAX_GROUP_COMMIT_BATCH_SIZE :: nat where "MAX_GROUP_COMMIT_BATCH_SIZE = 1000"

section \<open>Staging\<close>

definition validate_key :: "bytes \<Rightarrow> unit res" where
  "validate_key key =
     (if key = [] then Inl (InvalidInput ''Key cannot be empty'')
      else if MAX_KEY_SIZE < length key then Inl (InvalidInput ''Key length exceeds limit'')
      else Inr ())"

definition validate_value :: "bytes \<Rightarrow> unit res" where
  "validate_value val =
     (if MAX_VALUE_SIZE < length val then Inl (InvalidInput ''Value length exceeds limit'') else Inr ())"

definition derive_doc_id :: "lsm_params \<Rightarrow> bytes \<Rightarrow> doc_id" where
  "derive_doc_id P key = u64_of_le (take 8 (lp_blake3 P key))"

definition clear_intent_locks_for_tx :: "tx_id \<Rightarrow> lsm \<Rightarrow> lsm" where
  "clear_intent_locks_for_tx tx S = S\<lparr>ls_intent_locks := filter (\<lambda>x. snd x \<noteq> tx) (ls_intent_locks S)\<rparr>"

definition clear_intent_locks_above_tx :: "tx_id \<Rightarrow> lsm \<Rightarrow> lsm" where
  "clear_intent_locks_above_tx target S = S\<lparr>ls_intent_locks := filter (\<lambda>x. snd x \<le> target) (ls_intent_locks S)\<rparr>"

definition cleanup_intent_locks_for_txs :: "tx_id list \<Rightarrow> lsm \<Rightarrow> lsm" where
  "cleanup_intent_locks_for_txs txs S = S\<lparr>ls_intent_locks := filter (\<lambda>x. snd x \<notin> set txs) (ls_intent_locks S)\<rparr>"

definition stage_op :: "lsm_params \<Rightarrow> tx_id \<Rightarrow> kv_op \<Rightarrow> instant \<Rightarrow> lsm \<Rightarrow> unit res \<times> lsm" where
  "stage_op P tx op now S =
     (case stage_kv (lp_hash P) tx op now (ls_tx_buffer S) of (r, B) \<Rightarrow> (r, S\<lparr>ls_tx_buffer := B\<rparr>))"

definition out_of_memory :: "lsm_params \<Rightarrow> lsm \<Rightarrow> contextra_error option" where
  "out_of_memory P S =
     (if has_memory_capacity (lp_scale P) (ls_budget S) then None else Some (Storage ''Memory budget exceeded (95%)''))"

definition lsm_put :: "lsm_params \<Rightarrow> tx_id \<Rightarrow> bytes \<Rightarrow> bytes \<Rightarrow> instant \<Rightarrow> lsm \<Rightarrow> unit res \<times> lsm" where
  "lsm_put P tx key val now S =
     (case rbind (validate_key key) (\<lambda>_. validate_value val) of
        Inl e \<Rightarrow> (Inl e, S)
      | Inr _ \<Rightarrow>
          (case out_of_memory P S of
             Some e \<Rightarrow> (Inl e, S)
           | None \<Rightarrow> stage_op P tx (IdxInsert (derive_doc_id P key) (key, val)) now S))"

definition lsm_delete :: "lsm_params \<Rightarrow> tx_id \<Rightarrow> bytes \<Rightarrow> instant \<Rightarrow> lsm \<Rightarrow> unit res \<times> lsm" where
  "lsm_delete P tx key now S =
     (case validate_key key of
        Inl e \<Rightarrow> (Inl e, S)
      | Inr _ \<Rightarrow> stage_op P tx (IdxDelete (derive_doc_id P key) (Some (key, []))) now S)"

definition lsm_delete_many :: "lsm_params \<Rightarrow> tx_id \<Rightarrow> bytes list \<Rightarrow> instant \<Rightarrow> lsm \<Rightarrow> u64 res \<times> lsm" where
  "lsm_delete_many P tx keys now S =
     (if MAX_BATCH_SIZE < length keys then (Inl (InvalidInput ''Batch size exceeds limit''), S)
      else case rmap validate_key keys of
             Inl e \<Rightarrow> (Inl e, S)
           | Inr _ \<Rightarrow>
               if keys = [] then (Inr 0, S)
               else (case stage_many tx (map (\<lambda>key. IdxDelete (derive_doc_id P key) (Some (key, []))) keys) now (ls_tx_buffer S) of
                       (Inl e, B) \<Rightarrow> (Inl e, S\<lparr>ls_tx_buffer := B\<rparr>)
                     | (Inr _, B) \<Rightarrow> (Inr (of_nat (length keys)), S\<lparr>ls_tx_buffer := B\<rparr>)))"

definition lsm_rollback :: "lsm_params \<Rightarrow> tx_id \<Rightarrow> lsm \<Rightarrow> lsm" where
  "lsm_rollback P tx S =
     clear_intent_locks_for_tx tx (S\<lparr>ls_tx_buffer := discard_kv (lp_hash P) tx (ls_tx_buffer S)\<rparr>)"

section \<open>Point reads\<close>

text \<open>A version found on the way down: the value, or nothing for a tombstone.\<close>

definition live_value :: "bytes \<Rightarrow> u64 \<Rightarrow> bytes option" where
  "live_value val seq = (if is_tombstone seq then None else Some val)"

fun read_memtables :: "bytes \<Rightarrow> u64 \<Rightarrow> tx_id \<Rightarrow> mem_table list \<Rightarrow> bytes option option" where
  "read_memtables key seq_no snapshot_tx [] = None"
| "read_memtables key seq_no snapshot_tx (T # Ts) =
     (case mt_get_at_seq key seq_no snapshot_tx T of
        Some (val, seq, tx) \<Rightarrow> Some (live_value val seq)
      | None \<Rightarrow> read_memtables key seq_no snapshot_tx Ts)"

fun read_sstables :: "lsm_params \<Rightarrow> bytes \<Rightarrow> u64 \<Rightarrow> tx_id \<Rightarrow> sst_reader list \<Rightarrow> bytes option res" where
  "read_sstables P key seq_no snapshot_tx [] = Inr None"
| "read_sstables P key seq_no snapshot_tx (R # Rs) =
     (if snapshot_tx < sm_min_tx_id (rd_metadata R) \<or> seq_no < sm_min_seq (rd_metadata R)
      then read_sstables P key seq_no snapshot_tx Rs
      else rbind (sst_get (lp_crc32 P) (lp_blake3 P) R key) (\<lambda>found.
           case found of
             Some (val, seq, tx) \<Rightarrow>
               if raw_seq seq \<le> seq_no \<and> tx \<le> snapshot_tx then Inr (live_value val seq)
               else read_sstables P key seq_no snapshot_tx Rs
           | None \<Rightarrow> read_sstables P key seq_no snapshot_tx Rs))"

definition lsm_get_at_seq :: "lsm_params \<Rightarrow> bytes \<Rightarrow> u64 \<Rightarrow> lsm \<Rightarrow> bytes option res" where
  "lsm_get_at_seq P key seq_no S =
     rbind (validate_key key) (\<lambda>_.
       let snapshot_tx = ls_last_committed_tx S
       in case read_memtables key seq_no snapshot_tx (ls_memtable S # rev (ls_immutable S)) of
            Some r \<Rightarrow> Inr r
          | None \<Rightarrow> read_sstables P key seq_no snapshot_tx (rev (map sh_reader (fst (ls_tables S)))))"

definition lsm_get :: "lsm_params \<Rightarrow> bytes \<Rightarrow> lsm \<Rightarrow> bytes option res" where
  "lsm_get P key S = rbind (validate_key key) (\<lambda>_. lsm_get_at_seq P key (ls_next_seq_no S) S)"

section \<open>Insertion of absent keys\<close>

text \<open>The three phases of \<open>put_if_absent\<close>; other operations may run between them.\<close>

definition intent_register :: "bytes \<Rightarrow> tx_id \<Rightarrow> lsm \<Rightarrow> bool \<times> lsm" where
  "intent_register key tx S =
     (case map_of (ls_intent_locks S) key of
        Some existing_tx \<Rightarrow> (existing_tx = tx, S)
      | None \<Rightarrow> (True, S\<lparr>ls_intent_locks := (key, tx) # ls_intent_locks S\<rparr>))"

definition intent_release :: "bytes \<Rightarrow> tx_id \<Rightarrow> lsm \<Rightarrow> lsm" where
  "intent_release key tx S =
     (if map_of (ls_intent_locks S) key = Some tx
      then S\<lparr>ls_intent_locks := filter (\<lambda>x. fst x \<noteq> key) (ls_intent_locks S)\<rparr> else S)"

definition lsm_put_if_absent ::
    "lsm_params \<Rightarrow> tx_id \<Rightarrow> bytes \<Rightarrow> bytes \<Rightarrow> instant \<Rightarrow> lsm \<Rightarrow> bool res \<times> lsm" where
  "lsm_put_if_absent P tx key val now S =
     (case rbind (validate_key key) (\<lambda>_. validate_value val) of
        Inl e \<Rightarrow> (Inl e, S)
      | Inr _ \<Rightarrow>
          (case out_of_memory P S of
             Some e \<Rightarrow> (Inl e, S)
           | None \<Rightarrow>
               if staged_status (lp_hash P) key (ls_tx_buffer S) = Some True then (Inr False, S)
               else (case intent_register key tx S of
                       (False, S1) \<Rightarrow> (Inr False, S1)
                     | (True, S1) \<Rightarrow>
                         (case lsm_get_at_seq P key (ls_next_seq_no S1) S1 of
                            Inl e \<Rightarrow> (Inl e, intent_release key tx S1)
                          | Inr (Some _) \<Rightarrow> (Inr False, intent_release key tx S1)
                          | Inr None \<Rightarrow>
                              (case stage_op P tx (IdxInsert (derive_doc_id P key) (key, val)) now S1 of
                                 (Inl e, S2) \<Rightarrow> (Inl e, intent_release key tx S2)
                               | (Inr _, S2) \<Rightarrow> (Inr True, S2))))))"

section \<open>Flush\<close>

definition advance_visibility :: "tx_id \<Rightarrow> lsm \<Rightarrow> lsm" where
  "advance_visibility tx S =
     (if tx < INTERNAL_BASE \<and> ls_last_committed_tx S < tx then S\<lparr>ls_last_committed_tx := tx\<rparr> else S)"

definition zero_pad :: "nat \<Rightarrow> u64 \<Rightarrow> bytes" where
  "zero_pad n x = replicate (n - length (show_u64 x)) 48 @ show_u64 x"

text \<open>\<open>sst-{seq:020}-{cnt % 1000000:06}.sst\<close> in the data directory.\<close>

definition sst_path :: "lsm_params \<Rightarrow> u64 \<Rightarrow> u64 \<Rightarrow> path" where
  "sst_path P seq cnt =
     lp_path P @ [47] @ [115, 115, 116, 45] @ zero_pad 20 seq @ [45] @ zero_pad 6 (cnt mod 1000000) @ [46, 115, 115, 116]"

definition flush_entries :: "mem_table list \<Rightarrow> kv_entry list" where
  "flush_entries to_flush =
     fold (\<lambda>T m. fold (\<lambda>e. bt_insert (fst e) (snd e)) (mt_iter_latest T) m) to_flush []"

text \<open>The swap under the write lock: a new log, the active memtable joins the immutable ones.\<close>

definition flush_rotate :: "lsm_params \<Rightarrow> lsm \<Rightarrow> unit res \<times> lsm" where
  "flush_rotate P S =
     (if mt_is_empty (ls_memtable S) then (Inr (), S)
      else let (km, key) = lp_wal_keys P (ls_flush_counter S, False);
               S1 = S\<lparr>ls_flush_counter := ls_flush_counter S + 1\<rparr>
           in case wal_open (lp_wal P) km (Some key) False WalV3 [] of
                Inl e \<Rightarrow> (Inl e, S1)
              | Inr W \<Rightarrow> (Inr (), S1\<lparr>ls_memtable := mem_table_new, ls_immutable := ls_immutable S1 @ [ls_memtable S1],
                            ls_wal := W, ls_old_wals := ls_old_wals S1 @ [wl_file (ls_wal S1)]\<rparr>))"

text \<open>Writing the table, its manifest entry and the transition; \<open>rotated\<close> says that a log was replaced.\<close>

definition flush_install :: "lsm_params \<Rightarrow> bool \<Rightarrow> lsm \<Rightarrow> unit res \<times> lsm" where
  "flush_install P rotated S0 =
     (let name = sst_path P (ls_next_seq_no S0) (ls_segment_counter S0);
          id = unat (ls_segment_counter S0);
          S = S0\<lparr>ls_segment_counter := ls_segment_counter S0 + 1\<rparr>
      in case rbind (sst_build (lp_crc32 P) (lp_blake3 P) (lp_bloom_m P) (lp_bloom_k P) (lp_km P) (flush_entries (ls_immutable S)))
                (\<lambda>(file, meta). sst_open (lp_crc32 P) (lp_km P) file) of
           Inl e \<Rightarrow> (Inl e, S)
         | Inr R \<Rightarrow>
             (case (case snd (ls_tables S) of
                      None \<Rightarrow> Inr None
                    | Some m \<Rightarrow> rbind (manifest_append (lp_crc32 P) (MAdd name (sm_max_tx_id (rd_metadata R))) m) (\<lambda>m. Inr (Some m))) of
                Inl e \<Rightarrow> (Inl e, S)
              | Inr manifest \<Rightarrow>
                  (let S1 = advance_visibility (sm_max_tx_id (rd_metadata R)) (S\<lparr>ls_immutable := []\<rparr>);
                       table = \<lparr>sh_id = id, sh_path = name, sh_reader = R\<rparr>
                   in (Inr (), S1\<lparr>ls_tables := (sort_key sh_max_seq (fst (ls_tables S1) @ [table]), manifest),
                         ls_old_wals := (if rotated then butlast (ls_old_wals S1) else ls_old_wals S1),
                         ls_budget := release_memory (of_nat (sum_list (map mt_size (ls_immutable S)))) (ls_budget S1),
                         ls_drift := 0\<rparr>))))"

definition lsm_flush :: "lsm_params \<Rightarrow> lsm \<Rightarrow> unit res \<times> lsm" where
  "lsm_flush P S =
     (if mt_is_empty (ls_memtable S) \<and> ls_immutable S = [] then (Inr (), S)
      else case flush_rotate P S of
             (Inl e, S1) \<Rightarrow> (Inl e, S1)
           | (Inr _, S1) \<Rightarrow> flush_install P (\<not> mt_is_empty (ls_memtable S)) S1)"

end
