(* ===== verification/Lsm_Recovery.thy ===== *)
theory Lsm_Recovery
  imports Lsm_Store
begin

text \<open>
  Recovery of the storage engine, \<open>crates/contextra-store/src/lsm/recovery.rs\<close>: replay of the
  logs into a memtable, opening the store on what a crash left on disk, and the rollback to an
  earlier transaction.
\<close>

section \<open>Replay into a memtable\<close>

text \<open>
  \<open>pending_tx_map\<close> collects the operations of a transaction until its end marker; \<open>applied\<close> puts
  one of them into the memtable.
\<close>

type_synonym pending = "(tx_id \<times> (u64 \<times> wal_op) list) list"

record replay_state =
  rp_memtable :: mem_table
  rp_max_seq :: u64
  rp_max_tx :: tx_id
  rp_size :: u64
  rp_pending :: pending

definition replay_start :: replay_state where
  "replay_start = \<lparr>rp_memtable = mem_table_new, rp_max_seq = 0, rp_max_tx = 0, rp_size = 0, rp_pending = []\<rparr>"

fun apply_pending :: "u64 \<times> wal_op \<Rightarrow> mem_table \<Rightarrow> mem_table" where
  "apply_pending (lsn, WPut tx key val) T = mt_put key val lsn tx T"
| "apply_pending (lsn, WDelete tx key) T = mt_put key [] (lsn OR TOMBSTONE_BIT) tx T"
| "apply_pending (lsn, WTxEnd tx committed) T = T"

fun pending_size :: "u64 \<times> wal_op \<Rightarrow> u64" where
  "pending_size (lsn, WPut tx key val) = of_nat (length key + length val)"
| "pending_size (lsn, WDelete tx key) = of_nat (length key)"
| "pending_size (lsn, WTxEnd tx committed) = 0"

definition pending_ops :: "tx_id \<Rightarrow> pending \<Rightarrow> (u64 \<times> wal_op) list" where
  "pending_ops tx pend = (case map_of pend tx of None \<Rightarrow> [] | Some ops \<Rightarrow> ops)"

definition replay_wal_entry :: "wal_entry \<Rightarrow> replay_state \<Rightarrow> replay_state" where
  "replay_wal_entry e R0 =
     (let R = R0\<lparr>rp_max_seq := max (rp_max_seq R0) (raw_seq (wal_seq_no e))\<rparr>
      in case wal_op e of
           WTxEnd tx committed \<Rightarrow>
             if committed
             then R\<lparr>rp_max_tx := (if rp_max_tx R < tx \<and> tx < INTERNAL_BASE then tx else rp_max_tx R),
                    rp_memtable := fold apply_pending (pending_ops tx (rp_pending R)) (rp_memtable R),
                    rp_size := rp_size R + sum_list (map pending_size (pending_ops tx (rp_pending R))),
                    rp_pending := AList.delete tx (rp_pending R)\<rparr>
             else R\<lparr>rp_pending := AList.delete tx (rp_pending R)\<rparr>
         | op \<Rightarrow> R\<lparr>rp_pending := AList.update (wal_op_tx op)
               (pending_ops (wal_op_tx op) (rp_pending R) @ [(wal_seq_no e, op)]) (rp_pending R)\<rparr>)"

text \<open>The logs on disk, oldest first; the pending operations carry over from one to the next.\<close>

fun replay_logs :: "wal_params \<Rightarrow> wal list \<Rightarrow> replay_state \<Rightarrow> replay_state res" where
  "replay_logs P [] R = Inr R"
| "replay_logs P (W # Ws) R =
     rbind (wal_replay P W) (\<lambda>es. replay_logs P Ws (fold (\<lambda>x. replay_wal_entry (fst x)) es R))"

section \<open>Rollback to an earlier transaction\<close>

definition MIN_ENTRIES_FOR_SSTABLE_REBUILD :: nat where "MIN_ENTRIES_FOR_SSTABLE_REBUILD = 8"

text \<open>
  A table whose transactions span the target: its entries up to the target go into a new table, or,
  when they are few, into the memtable. The stream of a table yields fewer entries than its file has bytes.
\<close>

definition rollback_spanning :: "lsm_params \<Rightarrow> tx_id \<Rightarrow> sst_handle \<Rightarrow> lsm \<Rightarrow> unit res \<times> lsm" where
  "rollback_spanning P target h S =
     (case stream_collect (lp_crc32 P) (sh_reader h) (length (rd_file (sh_reader h)) + 1) stream_new of
        Inl e \<Rightarrow> (Inl e, S)
      | Inr es \<Rightarrow>
          let surviving = filter (\<lambda>e. entry_tx e \<le> target) es
          in if MIN_ENTRIES_FOR_SSTABLE_REBUILD \<le> length surviving
             then let name = sst_path P (ls_next_seq_no S) (ls_segment_counter S);
                      id = unat (ls_segment_counter S);
                      S1 = S\<lparr>ls_segment_counter := ls_segment_counter S + 1\<rparr>
                  in case rbind (sst_build (lp_crc32 P) (lp_blake3 P) (lp_bloom_m P) (lp_bloom_k P) (lp_km P) surviving)
                            (\<lambda>(file, meta). sst_open (lp_crc32 P) (lp_km P) file) of
                       Inl e \<Rightarrow> (Inl e, S1)
                     | Inr R \<Rightarrow>
                         (case (case snd (ls_tables S1) of
                                  None \<Rightarrow> Inr None
                                | Some m \<Rightarrow> rbind (manifest_append (lp_crc32 P) (MAdd name (sm_max_tx_id (rd_metadata R))) m) (\<lambda>m. Inr (Some m))) of
                            Inl e \<Rightarrow> (Inl e, S1)
                          | Inr manifest \<Rightarrow>
                              (Inr (), S1\<lparr>ls_tables := (fst (ls_tables S1) @ [\<lparr>sh_id = id, sh_path = name, sh_reader = R\<rparr>], manifest)\<rparr>))
             else (Inr (), S\<lparr>ls_memtable := fold (\<lambda>(k, v, s, t). mt_put k v s t) surviving (ls_memtable S)\<rparr>))"

fun rollback_spannings :: "lsm_params \<Rightarrow> tx_id \<Rightarrow> sst_handle list \<Rightarrow> lsm \<Rightarrow> unit res \<times> lsm" where
  "rollback_spannings P target [] S = (Inr (), S)"
| "rollback_spannings P target (h # hs) S =
     (case rollback_spanning P target h S of
        (Inl e, S1) \<Rightarrow> (Inl e, S1)
      | (Inr _, S1) \<Rightarrow> rollback_spannings P target hs S1)"

definition table_min_tx :: "sst_handle \<Rightarrow> u64" where
  "table_min_tx h = sm_min_tx_id (rd_metadata (sh_reader h))"

definition table_max_tx :: "sst_handle \<Rightarrow> u64" where
  "table_max_tx h = sm_max_tx_id (rd_metadata (sh_reader h))"

text \<open>The tables that go, and the removal entries; a failure to write the manifest is only logged.\<close>

definition rollback_manifest :: "lsm_params \<Rightarrow> tx_id \<Rightarrow> path list \<Rightarrow> bytes option \<Rightarrow> bytes option" where
  "rollback_manifest P target removed manifest =
     map_option (\<lambda>m. case manifest_append_batch (lp_crc32 P) (map MRemove removed @ [MRollbackComplete target]) m of
                       Inl _ \<Rightarrow> m | Inr m' \<Rightarrow> m') manifest"

text \<open>The log after the rollback, replayed into the memtable.\<close>

definition rollback_replay :: "lsm_params \<Rightarrow> tx_id \<Rightarrow> u64 \<Rightarrow> lsm \<Rightarrow> unit res \<times> lsm" where
  "rollback_replay P target max_seq S =
     (case wal_replay (lp_wal P) (ls_wal S) of
        Inl e \<Rightarrow> (Inl e, S)
      | Inr es \<Rightarrow>
          let R = fold (\<lambda>x. replay_wal_entry (fst x)) es (replay_start\<lparr>rp_memtable := ls_memtable S, rp_max_seq := max_seq\<rparr>)
          in (Inr (), clear_intent_locks_above_tx target
                (S\<lparr>ls_memtable := rp_memtable R, ls_next_seq_no := rp_max_seq R + 1, ls_last_committed_tx := target\<rparr>)))"

definition rollback_to_tx :: "lsm_params \<Rightarrow> tx_id \<Rightarrow> lsm \<Rightarrow> unit res \<times> lsm" where
  "rollback_to_tx P target S0 =
     (let S = clear_intent_locks_above_tx target S0
      in case find_tx_offset (lp_wal P) target (ls_wal S) of
           Inl e \<Rightarrow> (Inl e, S)
         | Inr (target_offset, target_hmac) \<Rightarrow>
             (case wal_truncate target_offset target_hmac (ls_wal S) of
                (Inl e, W) \<Rightarrow> (Inl e, S\<lparr>ls_wal := W\<rparr>)
              | (Inr _, W) \<Rightarrow>
                  let newer = filter (\<lambda>h. target < table_min_tx h) (fst (ls_tables S));
                      spanning = filter (\<lambda>h. table_min_tx h \<le> target \<and> target < table_max_tx h) (fst (ls_tables S));
                      kept = filter (\<lambda>h. table_max_tx h \<le> target \<and> table_min_tx h \<le> target) (fst (ls_tables S));
                      S1 = S\<lparr>ls_wal := W, ls_memtable := mem_table_new, ls_immutable := [], ls_tables := (kept, snd (ls_tables S))\<rparr>
                  in case rollback_spannings P target spanning S1 of
                       (Inl e, S2) \<Rightarrow> (Inl e, S2)
                     | (Inr _, S2) \<Rightarrow>
                         let ssts = sort_key sh_max_seq (fst (ls_tables S2))
                         in rollback_replay P target (fold max (map sh_max_seq ssts) 0)
                              (S2\<lparr>ls_tables := (ssts, rollback_manifest P target (map sh_path (newer @ spanning)) (snd (ls_tables S2)))\<rparr>)))"

section \<open>Opening the store\<close>

text \<open>What a crash leaves: the logs with their names, the tables, the manifest, unfinished rollbacks.\<close>

record disk =
  dk_wals :: "(log_name \<times> bytes) list"
  dk_tables :: "(path \<times> bytes) list"
  dk_manifest :: "bytes option"
  dk_rollbacks :: "tx_id list"

fun open_tables :: "lsm_params \<Rightarrow> nat \<Rightarrow> (path \<times> bytes) list \<Rightarrow> sst_handle list res" where
  "open_tables P i [] = Inr []"
| "open_tables P i ((name, file) # rest) =
     rbind (sst_open (lp_crc32 P) (lp_km P) file) (\<lambda>R.
     rbind (open_tables P (Suc i) rest) (\<lambda>hs.
     Inr (\<lparr>sh_id = i, sh_path = name, sh_reader = R\<rparr> # hs)))"

definition table_live :: "manifest_entry list option \<Rightarrow> path \<Rightarrow> bool" where
  "table_live manifest p =
     (case manifest of
        None \<Rightarrow> True
      | Some es \<Rightarrow> (case file_name p of None \<Rightarrow> False | Some n \<Rightarrow> n \<in> set (map fst (reconstruct_valid_sstables es))))"

fun rollback_all :: "lsm_params \<Rightarrow> tx_id list \<Rightarrow> lsm \<Rightarrow> lsm res" where
  "rollback_all P [] S = Inr S"
| "rollback_all P (tx # txs) S =
     (case rollback_to_tx P tx S of
        (Inl e, S1) \<Rightarrow> Inl (Storage ''Startup rollback recovery failed'')
      | (Inr _, S1) \<Rightarrow> rollback_all P txs S1)"

definition open_log :: "lsm_params \<Rightarrow> log_name \<Rightarrow> bytes \<Rightarrow> wal res" where
  "open_log P n file =
     (case lp_wal_keys P n of (km, key) \<Rightarrow> wal_open (lp_wal P) km (Some key) False WalV3 file)"

definition read_log :: "lsm_params \<Rightarrow> log_name \<times> bytes \<Rightarrow> wal" where
  "read_log P x =
     (case lp_wal_keys P (fst x) of (km, key) \<Rightarrow> wal_open_read_only (lp_wal P) km (Some key) False (snd x))"

text \<open>By number and then by path, where \<open>wal-...\<close> comes before \<open>wal.log\<close>.\<close>

definition sort_logs :: "(log_name \<times> bytes) list \<Rightarrow> (log_name \<times> bytes) list" where
  "sort_logs ls = sort_key (\<lambda>x. fst (fst x)) (sort_key (\<lambda>x. snd (fst x)) ls)"

definition startup_flush :: "lsm_params \<Rightarrow> bool \<Rightarrow> lsm \<Rightarrow> lsm res" where
  "startup_flush P replayed S =
     (if replayed
      then (case lsm_flush P S of
              (Inl e, S1) \<Rightarrow> Inl (Storage ''Startup flush after WAL replay failed'')
            | (Inr _, S1) \<Rightarrow> Inr S1)
      else Inr S)"

definition lsm_open :: "lsm_params \<Rightarrow> nat \<Rightarrow> duration \<Rightarrow> u64 \<Rightarrow> disk \<Rightarrow> lsm res" where
  "lsm_open P tx_shards tx_timeout memory_limit D =
     (let wals = sort_logs (dk_wals D)
      in rbind (replay_logs (lp_wal P) (map (read_log P) wals) replay_start) (\<lambda>R.
         rbind (if wals = [] then open_log P (0, True) [] else open_log P (fst (last wals)) (snd (last wals))) (\<lambda>W.
         rbind (case dk_manifest D of None \<Rightarrow> Inr None | Some m \<Rightarrow> rbind (manifest_load (lp_crc32 P) (Some m)) (\<lambda>es. Inr (Some es))) (\<lambda>entries.
         rbind (open_tables P 0 (sort_key fst (filter (\<lambda>x. table_live entries (fst x)) (dk_tables D)))) (\<lambda>hs.
         let ssts = sort_key sh_max_seq hs;
             max_seq = fold max (map sh_max_seq hs) (rp_max_seq R);
             max_tx = fold (\<lambda>h m. if m < table_max_tx h \<and> table_max_tx h < INTERNAL_BASE then table_max_tx h else m) hs (rp_max_tx R)
         in rbind (case dk_manifest D of Some m \<Rightarrow> Inr m | None \<Rightarrow> manifest_append_batch (lp_crc32 P) (live_entries ssts) []) (\<lambda>m.
            rbind (startup_flush P (rp_size R \<noteq> 0 \<and> wals \<noteq> [])
              \<lparr>ls_memtable = rp_memtable R, ls_immutable = [], ls_tables = (ssts, Some m),
               ls_tx_buffer = new_with_config tx_shards tx_timeout,
               ls_budget = snd (consume_memory (rp_size R) (resource_tracker_new memory_limit)), ls_drift = 0,
               ls_wal = W, ls_old_wals = map snd (butlast wals), ls_next_seq_no = sat_add max_seq 1, ls_last_committed_tx = max_tx,
               ls_flush_counter = (if wals = [] then 0 else sat_add (fold max (map (fst \<circ> fst) wals) 0) 1),
               ls_segment_counter = 0, ls_intent_locks = []\<rparr>) (\<lambda>S.
            rollback_all P (sort (dk_rollbacks D)) (S\<lparr>ls_old_wals := []\<rparr>))))))))"

end
