(* ===== verification/Lsm_Commit.thy ===== *)
theory Lsm_Commit
  imports Lsm_Recovery
begin

text \<open>
  Commits of the storage engine (\<open>lsm/ops/write.rs\<close>, \<open>lsm/commit.rs\<close>): alone and in a group.
\<close>

section \<open>Commit\<close>

text \<open>Sequence numbers, log operations and memtable updates of the drained operations.\<close>

fun commit_ops :: "tx_id \<Rightarrow> kv_op list \<Rightarrow> u64 \<Rightarrow> (wal_op \<times> u64) list \<times> (bytes \<times> bytes \<times> u64) list" where
  "commit_ops tx [] seq = ([], [])"
| "commit_ops tx (IdxInsert d x # ops) seq =
     (case commit_ops tx ops (seq + 1) of (w, m) \<Rightarrow>
        ((WPut tx (fst x) (snd x), seq) # w, (fst x, snd x, seq) # m))"
| "commit_ops tx (IdxDelete d None # ops) seq = commit_ops tx ops (seq + 1)"
| "commit_ops tx (IdxDelete d (Some x) # ops) seq =
     (case commit_ops tx ops (seq + 1) of (w, m) \<Rightarrow>
        ((WDelete tx (fst x), seq) # w, (fst x, [], seq OR TOMBSTONE_BIT) # m))"

record commit_request =
  cr_tx :: tx_id
  cr_wal_entries :: "wal_entry list"
  cr_mem_updates :: "(bytes \<times> bytes \<times> u64) list"
  cr_prev_hmac :: bytes

text \<open>Up to the prepared batch, under the commit mutex; nothing is to be done without operations.\<close>

definition commit_prepare :: "lsm_params \<Rightarrow> tx_id \<Rightarrow> lsm \<Rightarrow> commit_request option res \<times> lsm" where
  "commit_prepare P tx S =
     (case out_of_memory P S of
        Some e \<Rightarrow> (Inl e, S)
      | None \<Rightarrow>
          (case drain_kv (lp_hash P) tx (ls_tx_buffer S) of (ops, B) \<Rightarrow>
             if ops = [] then (Inr None, clear_intent_locks_for_tx tx (S\<lparr>ls_tx_buffer := B\<rparr>))
             else (case commit_ops tx ops (ls_next_seq_no S) of (wal_ops, mem_updates) \<Rightarrow>
                     let last_seq = ls_next_seq_no S + of_nat (length ops) - 1;
                         S1 = S\<lparr>ls_tx_buffer := B, ls_next_seq_no := ls_next_seq_no S + of_nat (length ops)\<rparr>
                     in case prepare_batch (lp_wal P) (wal_ops @ [(WTxEnd tx True, last_seq)]) (ls_wal S1) of
                          (Inl e, W) \<Rightarrow> (Inl e, clear_intent_locks_for_tx tx (S1\<lparr>ls_wal := W\<rparr>))
                        | (Inr (es, prev), W) \<Rightarrow>
                            (Inr (Some \<lparr>cr_tx = tx, cr_wal_entries = es, cr_mem_updates = mem_updates, cr_prev_hmac = prev\<rparr>),
                             S1\<lparr>ls_wal := W\<rparr>))))"

fun apply_mem_updates :: "tx_id \<Rightarrow> (bytes \<times> bytes \<times> u64) list \<Rightarrow> lsm \<Rightarrow> lsm" where
  "apply_mem_updates tx [] S = S"
| "apply_mem_updates tx ((key, val, seq) # ups) S =
     (let entry_size = of_nat (length key + length val + 8);
          S1 = (case consume_memory entry_size (ls_budget S) of
                  (Inr _, b) \<Rightarrow> S\<lparr>ls_budget := b\<rparr>
                | (Inl _, b) \<Rightarrow> S\<lparr>ls_budget := b, ls_drift := ls_drift S + entry_size\<rparr>)
      in apply_mem_updates tx ups (S1\<lparr>ls_memtable := mt_put key val seq tx (ls_memtable S1)\<rparr>))"

definition commit_apply :: "commit_request \<Rightarrow> lsm \<Rightarrow> lsm" where
  "commit_apply r S = apply_mem_updates (cr_tx r) (cr_mem_updates r) (advance_visibility (cr_tx r) S)"

definition needs_flush :: "lsm_params \<Rightarrow> lsm \<Rightarrow> bool" where
  "needs_flush P S \<longleftrightarrow> lp_memtable_size_limit P < mt_size (ls_memtable S)"

text \<open>
  After a failed append: the chain is put back and the store rolled back to the last committed
  transaction. The result of the rollback is only reported.
\<close>

definition commit_failed :: "lsm_params \<Rightarrow> bytes \<Rightarrow> lsm \<Rightarrow> lsm" where
  "commit_failed P prev S =
     snd (rollback_to_tx P (ls_last_committed_tx S) (S\<lparr>ls_wal := restore_last_hmac prev (ls_wal S)\<rparr>))"

definition commit_single :: "lsm_params \<Rightarrow> nat option \<Rightarrow> tx_id \<Rightarrow> lsm \<Rightarrow> unit res \<times> lsm" where
  "commit_single P fault tx S =
     (case commit_prepare P tx S of
        (Inl e, S1) \<Rightarrow> (Inl e, S1)
      | (Inr None, S1) \<Rightarrow> (Inr (), S1)
      | (Inr (Some r), S1) \<Rightarrow>
          (case wal_append_batch (lp_wal P) fault (cr_wal_entries r) (ls_wal S1) of
             (Inl e, W) \<Rightarrow>
               (Inl (Storage ''Commit failed (at WAL append), WAL rollback executed''),
                clear_intent_locks_for_tx tx (commit_failed P (cr_prev_hmac r) (S1\<lparr>ls_wal := W\<rparr>)))
           | (Inr _, W) \<Rightarrow>
               let S2 = commit_apply r (S1\<lparr>ls_wal := W\<rparr>)
               in if needs_flush P S2
                  then (case lsm_flush P S2 of (res, S3) \<Rightarrow> (res, clear_intent_locks_for_tx tx S3))
                  else (Inr (), clear_intent_locks_for_tx tx S2)))"

text \<open>
  A group: the leader and its followers prepare one after the other, the leader appends all their
  entries at once, applies their updates in this order and flushes at most once. The outcome is the
  one that the leader and every follower with operations receive.
\<close>

fun group_prepare :: "lsm_params \<Rightarrow> tx_id list \<Rightarrow> lsm \<Rightarrow> commit_request list \<times> lsm" where
  "group_prepare P [] S = ([], S)"
| "group_prepare P (tx # txs) S =
     (case commit_prepare P tx S of
        (Inr (Some r), S1) \<Rightarrow> (case group_prepare P txs S1 of (rs, S2) \<Rightarrow> (r # rs, S2))
      | (_, S1) \<Rightarrow> group_prepare P txs S1)"

definition group_commit :: "lsm_params \<Rightarrow> nat option \<Rightarrow> tx_id list \<Rightarrow> lsm \<Rightarrow> unit res \<times> lsm" where
  "group_commit P fault txs S =
     (case group_prepare P txs S of
        ([], S1) \<Rightarrow> (Inr (), S1)
      | (leader # followers, S1) \<Rightarrow>
          let batch = leader # followers
          in case wal_append_batch (lp_wal P) fault (concat (map cr_wal_entries batch)) (ls_wal S1) of
               (Inl e, W) \<Rightarrow>
                 (Inl (Storage ''Commit failed (at WAL append), WAL rollback executed''),
                  cleanup_intent_locks_for_txs (map cr_tx batch) (commit_failed P (cr_prev_hmac leader) (S1\<lparr>ls_wal := W\<rparr>)))
             | (Inr _, W) \<Rightarrow>
                 let S2 = fold commit_apply batch (S1\<lparr>ls_wal := W\<rparr>);
                     S3 = (if needs_flush P S2 then snd (lsm_flush P S2) else S2)
                 in (Inr (), cleanup_intent_locks_for_txs (map cr_tx batch) S3))"

end
