(* ===== verification/Lsm_Crash.thy ===== *)
theory Lsm_Crash
  imports Lsm_Commit
begin

text \<open>
  What a commit promises: the log of a store is cut at any byte by a crash, and the recovery finds
  the memtable as it was after a prefix of the commits that contains every acknowledged one.
\<close>

section \<open>Replay of one commit\<close>

definition commit_batch :: "tx_id \<Rightarrow> kv_op list \<Rightarrow> u64 \<Rightarrow> (wal_op \<times> u64) list" where
  "commit_batch tx ops seq = fst (commit_ops tx ops seq) @ [(WTxEnd tx True, seq + of_nat (length ops) - 1)]"

abbreviation entry_of :: "wal_op \<times> u64 \<Rightarrow> wal_entry" where
  "entry_of x \<equiv> \<lparr>wal_op = fst x, wal_seq_no = snd x, wal_checksum = [], wal_prev_hmac = []\<rparr>"

definition replay_ops :: "(wal_op \<times> u64) list \<Rightarrow> replay_state \<Rightarrow> replay_state" where
  "replay_ops ops R = fold (\<lambda>x. replay_wal_entry (entry_of x)) ops R"

lemma replay_ops_simps [simp]:
  "replay_ops [] R = R" "replay_ops (x # ops) R = replay_ops ops (replay_wal_entry (entry_of x) R)"
  "replay_ops (ops @ ops') R = replay_ops ops' (replay_ops ops R)"
  by (simp_all add: replay_ops_def)

text \<open>Replay depends on the operations and their numbers only.\<close>

lemma replay_entry_op: "replay_wal_entry e R = replay_wal_entry (entry_of (entry_op e)) R"
  by (cases "wal_op e") (simp_all add: replay_wal_entry_def)

lemma replay_entries: "fold (\<lambda>x. replay_wal_entry (fst x)) es R = replay_ops (replayed_ops es) R"
proof (induction es arbitrary: R)
  case (Cons x es)
  show ?case using Cons.IH replay_entry_op [of "fst x" R] by (simp only: fold_simps(2) comp_apply list.map replay_ops_simps(2))
qed simp

abbreviation put_update :: "tx_id \<Rightarrow> bytes \<times> bytes \<times> u64 \<Rightarrow> mem_table \<Rightarrow> mem_table" where
  "put_update tx x T \<equiv> mt_put (fst x) (fst (snd x)) (snd (snd x)) tx T"

fun op_tx_is :: "tx_id \<Rightarrow> wal_op \<Rightarrow> bool" where
  "op_tx_is tx (WPut t k v) \<longleftrightarrow> t = tx"
| "op_tx_is tx (WDelete t k) \<longleftrightarrow> t = tx"
| "op_tx_is tx (WTxEnd t c) \<longleftrightarrow> False"

lemma commit_ops_tx: "x \<in> set (fst (commit_ops tx ops seq)) \<Longrightarrow> op_tx_is tx (fst x)"
  by (induction tx ops seq rule: commit_ops.induct) (auto split: prod.splits)

text \<open>Operations before the end marker only wait.\<close>

lemma replay_waiting:
  assumes "\<forall>x \<in> set ws. op_tx_is tx (fst x)" and "rp_pending R = (if ps = [] then [] else [(tx, ps)])"
  shows "rp_memtable (replay_ops ws R) = rp_memtable R \<and> rp_max_tx (replay_ops ws R) = rp_max_tx R \<and>
    rp_pending (replay_ops ws R) = (let qs = ps @ map (\<lambda>x. (snd x, fst x)) ws in if qs = [] then [] else [(tx, qs)])"
  using assms
proof (induction ws arbitrary: R ps)
  case (Cons w ws)
  have w: "op_tx_is tx (fst w)" using Cons.prems(1) by simp
  have "rp_pending (replay_wal_entry (entry_of w) R) = [(tx, ps @ [(snd w, fst w)])]"
    "rp_memtable (replay_wal_entry (entry_of w) R) = rp_memtable R" "rp_max_tx (replay_wal_entry (entry_of w) R) = rp_max_tx R"
    using w Cons.prems(2) by (cases "fst w"; simp add: replay_wal_entry_def pending_ops_def Let_def)+
  with Cons.IH [of "replay_wal_entry (entry_of w) R" "ps @ [(snd w, fst w)]"] Cons.prems(1) show ?case by simp
qed simp

lemma apply_pending_updates:
  "fold apply_pending (map (\<lambda>x. (snd x, fst x)) (fst (commit_ops tx ops seq))) T = fold (put_update tx) (snd (commit_ops tx ops seq)) T"
  by (induction tx ops seq arbitrary: T rule: commit_ops.induct) (auto split: prod.splits)

lemma replay_commit:
  assumes "rp_pending R = []"
  shows "rp_memtable (replay_ops (commit_batch tx ops seq) R) = fold (put_update tx) (snd (commit_ops tx ops seq)) (rp_memtable R) \<and>
    rp_max_tx (replay_ops (commit_batch tx ops seq) R) = (if rp_max_tx R < tx \<and> tx < INTERNAL_BASE then tx else rp_max_tx R) \<and>
    rp_pending (replay_ops (commit_batch tx ops seq) R) = []"
proof -
  let ?ws = "fst (commit_ops tx ops seq)" and ?R = "replay_ops (fst (commit_ops tx ops seq)) R"
  have w: "rp_memtable ?R = rp_memtable R" "rp_max_tx ?R = rp_max_tx R"
    "rp_pending ?R = (let qs = map (\<lambda>x. (snd x, fst x)) ?ws in if qs = [] then [] else [(tx, qs)])"
    using replay_waiting [of ?ws tx R "[]"] commit_ops_tx assms by simp_all
  have "pending_ops tx (rp_pending ?R) = map (\<lambda>x. (snd x, fst x)) ?ws" "AList.delete tx (rp_pending ?R) = []"
    unfolding w(3) by (simp_all add: pending_ops_def Let_def)
  then show ?thesis using w(1,2) by (simp add: commit_batch_def replay_wal_entry_def Let_def apply_pending_updates)
qed

section \<open>What a commit writes\<close>

lemma flush_unrotated:
  assumes "lsm_flush P S = (Inr (), S')" "ls_flush_counter S' = ls_flush_counter S" "ls_immutable S = []"
  shows "S' = S"
proof (cases "mt_is_empty (ls_memtable S)")
  case True
  then show ?thesis using assms by (simp add: lsm_flush_def)
next
  case False
  have "ls_flush_counter S' = ls_flush_counter S + 1"
    using assms(1) False
    by (auto simp: lsm_flush_def flush_rotate_def flush_install_def advance_visibility_def Let_def
        split: sum.splits prod.splits option.splits if_splits)
  then show ?thesis using assms(2) by simp
qed

lemma apply_mem_updates_memtable:
  "ls_memtable (apply_mem_updates tx ups S) = fold (put_update tx) ups (ls_memtable S) \<and>
   ls_wal (apply_mem_updates tx ups S) = ls_wal S \<and> ls_immutable (apply_mem_updates tx ups S) = ls_immutable S \<and>
   ls_flush_counter (apply_mem_updates tx ups S) = ls_flush_counter S \<and>
   ls_last_committed_tx (apply_mem_updates tx ups S) = ls_last_committed_tx S"
  by (induction tx ups S rule: apply_mem_updates.induct) (auto simp: Let_def split: prod.splits sum.splits)

text \<open>The batch that a commit writes.\<close>

definition batch_of :: "lsm_params \<Rightarrow> tx_id \<Rightarrow> lsm \<Rightarrow> (wal_op \<times> u64) list" where
  "batch_of P tx S =
     (let ops = fst (drain_kv (lp_hash P) tx (ls_tx_buffer S)) in if ops = [] then [] else commit_batch tx ops (ls_next_seq_no S))"

text \<open>What changes with a commit: nothing, or the operations of the batch and the visibility.\<close>

definition commits :: "tx_id \<Rightarrow> (wal_op \<times> u64) list \<Rightarrow> lsm \<Rightarrow> lsm \<Rightarrow> bool" where
  "commits tx batch S S' \<longleftrightarrow>
     batch = [] \<and> ls_memtable S' = ls_memtable S \<and> ls_last_committed_tx S' = ls_last_committed_tx S \<or>
     (\<exists>ops seq. batch = commit_batch tx ops seq \<and>
        ls_memtable S' = fold (put_update tx) (snd (commit_ops tx ops seq)) (ls_memtable S) \<and>
        ls_last_committed_tx S' = (if ls_last_committed_tx S < tx \<and> tx < INTERNAL_BASE then tx else ls_last_committed_tx S))"

lemma clear_locks_simps [simp]:
  "ls_memtable (clear_intent_locks_for_tx tx S) = ls_memtable S" "ls_wal (clear_intent_locks_for_tx tx S) = ls_wal S"
  "ls_immutable (clear_intent_locks_for_tx tx S) = ls_immutable S" "ls_flush_counter (clear_intent_locks_for_tx tx S) = ls_flush_counter S"
  "ls_last_committed_tx (clear_intent_locks_for_tx tx S) = ls_last_committed_tx S"
  by (simp_all add: clear_intent_locks_for_tx_def)

lemma commit_apply_state:
  assumes "S2 = commit_apply r S1"
  shows "ls_memtable S2 = fold (put_update (cr_tx r)) (cr_mem_updates r) (ls_memtable S1)" "ls_wal S2 = ls_wal S1"
    "ls_immutable S2 = ls_immutable S1" "ls_flush_counter S2 = ls_flush_counter S1"
    "ls_last_committed_tx S2 = (if ls_last_committed_tx S1 < cr_tx r \<and> cr_tx r < INTERNAL_BASE then cr_tx r else ls_last_committed_tx S1)"
  unfolding assms commit_apply_def by (simp_all add: apply_mem_updates_memtable advance_visibility_def)

lemma commit_single_writes:
  assumes run: "commit_single P None tx S = (Inr (), S')" and same: "ls_flush_counter S' = ls_flush_counter S" "ls_immutable S = []"
  shows "ls_immutable S' = [] \<and> commits tx (batch_of P tx S) S S' \<and>
    (if batch_of P tx S = [] then ls_wal S' = ls_wal S
     else wal_write (lp_wal P) None (batch_of P tx S) (ls_wal S) = (Inr (), ls_wal S'))"
proof -
  obtain pr S1 where prep: "commit_prepare P tx S = (pr, S1)" by fastforce
  obtain ops B where dr: "drain_kv (lp_hash P) tx (ls_tx_buffer S) = (ops, B)" by fastforce
  obtain w m where co: "commit_ops tx ops (ls_next_seq_no S) = (w, m)" by fastforce
  have mem: "out_of_memory P S = None" using run by (auto simp: commit_single_def commit_prepare_def split: option.splits)
  show ?thesis
  proof (cases "ops = []")
    case True
    then have "S' = clear_intent_locks_for_tx tx (S\<lparr>ls_tx_buffer := B\<rparr>)" using run dr mem
      by (simp add: commit_single_def commit_prepare_def)
    then show ?thesis using same(2) dr True by (simp add: batch_of_def commits_def)
  next
    case False
    let ?ws = "commit_batch tx ops (ls_next_seq_no S)"
    have ws: "w @ [(WTxEnd tx True, ls_next_seq_no S + of_nat (length ops) - 1)] = ?ws" using co by (simp add: commit_batch_def)
    have b: "batch_of P tx S = ?ws" using dr False by (simp add: batch_of_def)
    obtain es prev W where pb: "prepare_batch (lp_wal P) ?ws (ls_wal S) = (Inr (es, prev), W)"
      using run dr mem False co ws
      by (cases "prepare_batch (lp_wal P) ?ws (ls_wal S)") (auto simp: commit_single_def commit_prepare_def Let_def split: sum.splits)
    define r where "r = \<lparr>cr_tx = tx, cr_wal_entries = es, cr_mem_updates = m, cr_prev_hmac = prev\<rparr>"
    define S1 where "S1 = S\<lparr>ls_tx_buffer := B, ls_next_seq_no := ls_next_seq_no S + of_nat (length ops), ls_wal := W\<rparr>"
    have prep: "commit_prepare P tx S = (Inr (Some r), S1)"
      using dr mem False co ws pb by (simp add: commit_prepare_def Let_def r_def S1_def)
    obtain W2 where ap: "wal_append_batch (lp_wal P) None es W = (Inr (), W2)"
      using run unfolding commit_single_def prep
      by (cases "wal_append_batch (lp_wal P) None es W") (auto simp: r_def S1_def split: sum.splits)
    define S2 where "S2 = commit_apply r (S1\<lparr>ls_wal := W2\<rparr>)"
    note st = commit_apply_state [OF S2_def]
    have cs: "(if needs_flush P S2 then (case lsm_flush P S2 of (res, S3) \<Rightarrow> (res, clear_intent_locks_for_tx tx S3))
        else (Inr (), clear_intent_locks_for_tx tx S2)) = (Inr (), S')"
    proof -
      have "wal_append_batch (lp_wal P) None (cr_wal_entries r) (ls_wal S1) = (Inr (), W2)" using ap by (simp add: r_def S1_def)
      then show ?thesis using run unfolding commit_single_def prep S2_def Let_def by (simp only: prod.case sum.case option.case)
    qed
    have "S' = clear_intent_locks_for_tx tx S2"
    proof (cases "needs_flush P S2")
      case True
      obtain S3 where S3: "lsm_flush P S2 = (Inr (), S3)" "S' = clear_intent_locks_for_tx tx S3"
        using cs True by (cases "lsm_flush P S2") auto
      have "S3 = S2" by (rule flush_unrotated [OF S3(1)]) (use S3(2) st same in \<open>simp_all add: S1_def\<close>)
      then show ?thesis using S3(2) by simp
    qed (use cs in simp)
    moreover have "wal_write (lp_wal P) None ?ws (ls_wal S) = (Inr (), W2)" by (simp add: wal_write_def pb ap)
    moreover have "?ws \<noteq> []" by (simp add: commit_batch_def)
    moreover have "commits tx ?ws S S2" unfolding commits_def
      using st(1,5) co by (intro disjI2 exI [of _ ops] exI [of _ "ls_next_seq_no S"]) (simp add: r_def S1_def)
    ultimately show ?thesis unfolding b using st(2,3) same(2) by (simp add: S1_def commits_def)
  qed
qed

section \<open>Runs\<close>

text \<open>
  Staging and successful commits in any order, on one log (no commit of the run rotates it). A run
  carries for every commit the length of the log, the memtable and the visible transaction at the
  moment it is acknowledged. \<open>batch_ok\<close> bounds the batch by the size of a log chunk.
\<close>

inductive commit_run :: "lsm_params \<Rightarrow> lsm \<Rightarrow> (nat \<times> mem_table \<times> tx_id) list \<Rightarrow> lsm \<Rightarrow> bool" for P S0 where
  run_start: "commit_run P S0 [] S0"
| run_put: "commit_run P S0 cs S \<Longrightarrow> lsm_put P tx key val now S = (r, S') \<Longrightarrow> commit_run P S0 cs S'"
| run_put_if_absent: "commit_run P S0 cs S \<Longrightarrow> lsm_put_if_absent P tx key val now S = (r', S') \<Longrightarrow> commit_run P S0 cs S'"
| run_delete: "commit_run P S0 cs S \<Longrightarrow> lsm_delete P tx key now S = (r, S') \<Longrightarrow> commit_run P S0 cs S'"
| run_delete_many: "commit_run P S0 cs S \<Longrightarrow> lsm_delete_many P tx keys now S = (r'', S') \<Longrightarrow> commit_run P S0 cs S'"
| run_rollback: "commit_run P S0 cs S \<Longrightarrow> commit_run P S0 cs (lsm_rollback P tx S)"
| run_commit: "commit_run P S0 cs S \<Longrightarrow> commit_single P None tx S = (Inr (), S') \<Longrightarrow>
    ls_flush_counter S' = ls_flush_counter S \<Longrightarrow> batch_ok (batch_of P tx S) \<Longrightarrow>
    commit_run P S0 (cs @ [(length (wl_file (ls_wal S')), ls_memtable S', ls_last_committed_tx S')]) S'"

text \<open>What staging does not touch.\<close>

definition same_core :: "lsm \<Rightarrow> lsm \<Rightarrow> bool" where
  "same_core S' S \<longleftrightarrow> ls_memtable S' = ls_memtable S \<and> ls_wal S' = ls_wal S \<and> ls_immutable S' = ls_immutable S \<and>
     ls_last_committed_tx S' = ls_last_committed_tx S"

lemma same_core_trans: "same_core S2 S1 \<Longrightarrow> same_core S1 S \<Longrightarrow> same_core S2 S"
  by (simp add: same_core_def)

lemma same_core_ops:
  "same_core S S" "same_core (intent_release key tx S) S" "intent_register key tx S = (b, S') \<Longrightarrow> same_core S' S"
  "stage_op P tx op now S = (r, S') \<Longrightarrow> same_core S' S"
  by (auto simp: same_core_def intent_release_def intent_register_def stage_op_def split: option.splits prod.splits)

lemma staging_same_core:
  "lsm_put P tx key val now S = (r, S') \<Longrightarrow> same_core S' S"
  "lsm_delete P tx key now S = (r, S') \<Longrightarrow> same_core S' S"
  "lsm_delete_many P tx keys now S = (r'', S') \<Longrightarrow> same_core S' S"
  "same_core (lsm_rollback P tx S) S"
  using same_core_ops(1,4)
  by (auto simp: lsm_put_def lsm_delete_def lsm_delete_many_def lsm_rollback_def same_core_def split: sum.splits option.splits prod.splits if_splits)

lemma put_if_absent_same_core:
  assumes "lsm_put_if_absent P tx key val now S = (r', S')"
  shows "same_core S' S"
proof -
  obtain b S1 where reg: "intent_register key tx S = (b, S1)" by fastforce
  obtain r S2 where st: "stage_op P tx (IdxInsert (derive_doc_id P key) (key, val)) now S1 = (r, S2)" by fastforce
  have "S' \<in> {S, S1, intent_release key tx S1, intent_release key tx S2, S2}"
    using assms reg st by (auto simp: lsm_put_if_absent_def split: sum.splits option.splits if_splits bool.splits)
  moreover have "same_core S1 S" "same_core S2 S1" using same_core_ops(3) [OF reg] same_core_ops(4) [OF st] .
  ultimately show ?thesis using same_core_ops(1,2) same_core_trans by blast
qed

section \<open>The log of a run\<close>

definition commit_state :: "(nat \<times> mem_table \<times> tx_id) list \<Rightarrow> nat \<Rightarrow> mem_table \<times> tx_id" where
  "commit_state cs j = (if j = 0 then (mem_table_new, 0) else snd (cs ! (j - 1)))"

definition unit_replay :: "wal_unit list \<Rightarrow> replay_state" where
  "unit_replay us = replay_ops (map entry_op (unit_log us)) replay_start"

definition replays_to :: "wal_unit list \<Rightarrow> mem_table \<times> tx_id \<Rightarrow> bool" where
  "replays_to us s \<longleftrightarrow> (rp_memtable (unit_replay us), rp_max_tx (unit_replay us)) = s"

text \<open>The log holds one group of units for every commit, and replay up to the end of a group gives the state of its commit.\<close>

definition run_inv :: "lsm_params \<Rightarrow> wal \<Rightarrow> lsm \<Rightarrow> (nat \<times> mem_table \<times> tx_id) list \<Rightarrow> wal_unit list list \<Rightarrow> bool" where
  "run_inv P W0 S cs bs \<longleftrightarrow>
     wal_inv (lp_wal P) (ls_wal S) (concat bs) \<and> same_config (ls_wal S) W0 \<and> ls_immutable S = [] \<and> length bs = length cs \<and>
     (\<forall>j \<le> length bs. replays_to (concat (take j bs)) (commit_state cs j) \<and> rp_pending (unit_replay (concat (take j bs))) = []) \<and>
     (\<forall>b \<in> set bs. b = [] \<or> (\<exists>tx ops seq. map entry_op (unit_log b) = commit_batch tx ops seq)) \<and>
     commit_state cs (length cs) = (ls_memtable S, ls_last_committed_tx S) \<and>
     (\<forall>i < length cs. concat (take (Suc i) bs) = [] \<or> fst (cs ! i) = 4 + length (unit_bytes (concat (take (Suc i) bs))))"

lemma run_inv_same_core: "run_inv P W0 S cs bs \<Longrightarrow> same_core S' S \<Longrightarrow> run_inv P W0 S' cs bs"
  by (simp add: run_inv_def same_core_def)

lemma commit_state_append: "j \<le> length cs \<Longrightarrow> commit_state (cs @ [c]) j = commit_state cs j"
  by (auto simp: commit_state_def nth_append)

lemma run_inv_commit:
  assumes inv: "run_inv P W0 S cs bs" and env: "hash_32 (lp_wal P)" "km_wal (wl_km W0)"
    and run: "commit_single P None tx S = (Inr (), S')" "ls_flush_counter S' = ls_flush_counter S" and fits: "batch_ok (batch_of P tx S)"
  shows "\<exists>b. run_inv P W0 S' (cs @ [(length (wl_file (ls_wal S')), ls_memtable S', ls_last_committed_tx S')]) (bs @ [b])"
proof -
  let ?c = "(length (wl_file (ls_wal S')), ls_memtable S', ls_last_committed_tx S')" and ?batch = "batch_of P tx S"
  have wal: "wal_inv (lp_wal P) (ls_wal S) (concat bs)" "same_config (ls_wal S) W0" "ls_immutable S = []" "length bs = length cs"
    and reps: "\<And>j. j \<le> length bs \<Longrightarrow> replays_to (concat (take j bs)) (commit_state cs j) \<and> rp_pending (unit_replay (concat (take j bs))) = []"
    and now: "commit_state cs (length cs) = (ls_memtable S, ls_last_committed_tx S)"
    using inv by (auto simp: run_inv_def)
  have w: "ls_immutable S' = []" "commits tx ?batch S S'"
    "if ?batch = [] then ls_wal S' = ls_wal S else wal_write (lp_wal P) None ?batch (ls_wal S) = (Inr (), ls_wal S')"
    using commit_single_writes [OF run wal(3)] by blast+
  have km: "km_wal (wl_km (ls_wal S))" using env(2) wal(2) by (simp add: same_config_def)
  obtain b where b: "wal_inv (lp_wal P) (ls_wal S') (concat bs @ b)" "map entry_op (unit_log b) = ?batch" "same_config (ls_wal S') W0" "?batch = [] \<longrightarrow> b = []"
  proof (cases "?batch = []")
    case True
    then show ?thesis using that [of "[]"] w(3) wal(1,2) by simp
  next
    case False
    then show ?thesis using that wal_write_ok [OF wal(1) env(1) km fits] w(3) wal(2) by (auto simp: same_config_def)
  qed
  have full: "unit_replay (concat bs @ b) = replay_ops ?batch (unit_replay (concat bs))" by (simp add: unit_replay_def b(2))
  have old: "rp_pending (unit_replay (concat bs)) = []" "rp_memtable (unit_replay (concat bs)) = ls_memtable S"
    "rp_max_tx (unit_replay (concat bs)) = ls_last_committed_tx S"
    using reps [of "length bs"] now wal(4) by (simp_all add: replays_to_def)
  have new: "replays_to (concat bs @ b) (ls_memtable S', ls_last_committed_tx S') \<and> rp_pending (unit_replay (concat bs @ b)) = []"
    using w(2) old replay_commit [OF old(1)] unfolding commits_def replays_to_def full by auto
  have "run_inv P W0 S' (cs @ [?c]) (bs @ [b])"
    unfolding run_inv_def
  proof (intro conjI allI impI)
    show "wal_inv (lp_wal P) (ls_wal S') (concat (bs @ [b]))" using b(1) by simp
    show "commit_state (cs @ [?c]) (length (cs @ [?c])) = (ls_memtable S', ls_last_committed_tx S')" by (simp add: commit_state_def)
    show "\<forall>b \<in> set (bs @ [b]). b = [] \<or> (\<exists>tx ops seq. map entry_op (unit_log b) = commit_batch tx ops seq)"
    proof -
      have "b = [] \<or> (\<exists>tx ops seq. map entry_op (unit_log b) = commit_batch tx ops seq)"
        using w(2) b(4) unfolding commits_def b(2) by blast
      moreover have "\<forall>b \<in> set bs. b = [] \<or> (\<exists>tx ops seq. map entry_op (unit_log b) = commit_batch tx ops seq)"
        using inv unfolding run_inv_def by blast
      ultimately show ?thesis by simp
    qed
  next
    fix j assume "j \<le> length (bs @ [b])"
    then consider "j \<le> length bs" | "j = Suc (length cs)" using wal(4) by fastforce
    then have "replays_to (concat (take j (bs @ [b]))) (commit_state (cs @ [?c]) j) \<and> rp_pending (unit_replay (concat (take j (bs @ [b])))) = []"
    proof cases
      case 1
      then show ?thesis using reps [of j] wal(4) by (simp add: commit_state_append)
    next
      case 2
      then show ?thesis using new wal(4) by (simp add: commit_state_def)
    qed
    then show "replays_to (concat (take j (bs @ [b]))) (commit_state (cs @ [?c]) j)" "rp_pending (unit_replay (concat (take j (bs @ [b])))) = []"
      by blast+
  next
    fix i assume "i < length (cs @ [?c])"
    moreover have "concat bs @ b = [] \<or> length (wl_file (ls_wal S')) = 4 + length (unit_bytes (concat bs @ b))"
      using b(1) by (auto simp: wal_inv_def wal_holds_def)
    ultimately show "concat (take (Suc i) (bs @ [b])) = [] \<or> fst ((cs @ [?c]) ! i) = 4 + length (unit_bytes (concat (take (Suc i) (bs @ [b]))))"
      using inv wal(4) by (cases "i < length cs") (auto simp: run_inv_def nth_append)
  qed (use b(3) w(1) wal(4) in simp_all)
  then show ?thesis by blast
qed

lemma commit_run_inv:
  assumes "commit_run P S0 cs S" and env: "hash_32 (lp_wal P)" "km_wal (wl_km (ls_wal S0))"
    and fresh: "wal_inv (lp_wal P) (ls_wal S0) []" "ls_memtable S0 = mem_table_new" "ls_immutable S0 = []" "ls_last_committed_tx S0 = 0"
  shows "\<exists>bs. run_inv P (ls_wal S0) S cs bs"
  using assms(1)
proof (induction rule: commit_run.induct)
  case run_start
  then show ?case using fresh
    by (intro exI [of _ "[]"]) (simp add: run_inv_def same_config_def commit_state_def replays_to_def unit_replay_def replay_start_def)
next
  case (run_commit cs S tx S')
  then show ?case using run_inv_commit [OF _ env] by blast
qed (use staging_same_core put_if_absent_same_core run_inv_same_core in metis)+

section \<open>The cut\<close>

lemma longer_prefix:
  assumes "a @ b = c @ d" "\<not> length a \<le> length c"
  shows "\<exists>x xs. a = c @ x # xs"
proof -
  have "take (length c) a = c" using assms by (metis append_eq_conv_conj append_take_drop_id linorder_le_cases take_all_iff take_append diff_is_0_eq' take_0 append_Nil2)
  then have "a = c @ drop (length c) a" by (metis append_take_drop_id)
  moreover have "drop (length c) a \<noteq> []" using assms(2) by simp
  ultimately show ?thesis by (metis neq_Nil_conv)
qed

text \<open>Where in the commits a cut of the units falls.\<close>

lemma cut_position:
  assumes "concat bs = kept @ rest"
  shows "\<exists>j part. j \<le> length bs \<and> kept = concat (take j bs) @ part \<and> (part = [] \<or> j < length bs) \<and>
    (j < length bs \<longrightarrow> (\<exists>x xs. bs ! j = part @ x # xs))"
  using assms
proof (induction bs arbitrary: kept)
  case (Cons b bs)
  show ?case
  proof (cases "length b \<le> length kept")
    case True
    then obtain kept' where k: "kept = b @ kept'" "concat bs = kept' @ rest"
      using Cons.prems by (auto simp: append_eq_append_conv2)
    from Cons.IH [OF k(2)] obtain j part where "j \<le> length bs" "kept' = concat (take j bs) @ part" "part = [] \<or> j < length bs"
      "j < length bs \<longrightarrow> (\<exists>x xs. bs ! j = part @ x # xs)" by blast
    then show ?thesis using k(1) by (intro exI [of _ "Suc j"] exI [of _ part]) simp
  next
    case False
    then obtain x xs where "b = kept @ x # xs" using longer_prefix [of b "concat bs" kept rest] Cons.prems by auto
    then show ?thesis by (intro exI [of _ 0] exI [of _ kept]) simp
  qed
qed simp

text \<open>A commit whose units are all kept lies before the position of the cut.\<close>

lemma cut_before:
  assumes "concat bs = kept @ rest" "kept = concat (take j bs) @ part" "j < length bs \<longrightarrow> (\<exists>x xs. bs ! j = part @ x # xs)"
    and i: "i < length bs" "length (concat (take (Suc i) bs)) \<le> length kept"
  shows "i < j"
proof (rule ccontr)
  assume "\<not> i < j"
  then have j: "j < length bs" "Suc j \<le> Suc i" using i by simp_all
  obtain x xs where "bs ! j = part @ x # xs" using assms(3) j(1) by blast
  then have "concat (take (Suc j) bs) = kept @ x # xs" using assms(2) j(1) by (simp add: take_Suc_conv_app_nth)
  moreover have "concat (take (Suc i) bs) = concat (take (Suc j) bs) @ concat (take (i - j) (drop (Suc j) bs))"
    using take_add [of "Suc j" "i - j" bs] j(2) by simp
  ultimately show False using i(2) by simp
qed

text \<open>The part of a commit that a cut leaves is without its end marker.\<close>

lemma replay_part:
  assumes batch: "map entry_op (unit_log (part @ x # xs)) = commit_batch tx ops seq" and ne: "snd x \<noteq> []" and R: "rp_pending R = []"
  shows "rp_memtable (replay_ops (map entry_op (unit_log part)) R) = rp_memtable R \<and>
    rp_max_tx (replay_ops (map entry_op (unit_log part)) R) = rp_max_tx R"
proof -
  define A where "A = map entry_op (unit_log part)"
  define C where "C = map entry_op (unit_log (x # xs))"
  have AC: "A @ C = fst (commit_ops tx ops seq) @ [(WTxEnd tx True, seq + of_nat (length ops) - 1)]"
    using batch by (simp only: unit_simps map_append A_def C_def commit_batch_def)
  have "C \<noteq> []" using ne by (simp add: C_def unit_log_def)
  then have "A @ butlast C = butlast (A @ C)" by (simp add: butlast_append)
  then have "fst (commit_ops tx ops seq) = A @ butlast C" unfolding AC by simp
  then have "y \<in> set (fst (commit_ops tx ops seq))" if "y \<in> set A" for y using that by simp
  then have "\<forall>y \<in> set A. op_tx_is tx (fst y)" using commit_ops_tx by blast
  from replay_waiting [OF this, of R "[]"] R show ?thesis unfolding A_def [symmetric] by simp
qed

lemma cut_maximal:
  assumes "filter (\<lambda>x. snd x \<le> k) (unit_ends 4 (kept @ x # xs)) = unit_ends 4 kept" "kept \<noteq> [] \<longrightarrow> 4 + length (unit_bytes kept) \<le> k" "snd x \<noteq> []"
  shows "k < 4 + length (unit_bytes (kept @ [x]))"
proof -
  have "filter (\<lambda>x. snd x \<le> k) (unit_ends 4 kept) = unit_ends 4 kept"
    using assms(2) unit_ends_all [of 4 kept k] by (cases "kept = []") simp_all
  then have "filter (\<lambda>x. snd x \<le> k) (unit_ends (4 + length (unit_bytes kept)) (x # xs)) = []"
    using assms(1) unfolding unit_ends_append by simp
  moreover obtain e es where "snd x = e # es" using assms(3) by (cases "snd x") simp_all
  ultimately show ?thesis by (simp add: unit_bytes_def split: if_splits)
qed

lemma cut_state:
  assumes inv: "run_inv P W0 S cs bs" and kept: "concat bs = kept @ rest"
    "filter (\<lambda>x. snd x \<le> k) (unit_ends 4 (concat bs)) = unit_ends 4 kept" "kept \<noteq> [] \<longrightarrow> 4 + length (unit_bytes kept) \<le> k"
  shows "\<exists>j \<le> length cs. replays_to kept (commit_state cs j) \<and> (\<forall>i < length cs. fst (cs ! i) \<le> k \<longrightarrow> i < j)"
proof -
  have len: "length bs = length cs" and ne: "\<And>u. u \<in> set (concat bs) \<Longrightarrow> snd u \<noteq> []"
    using inv units_nonempty unfolding run_inv_def wal_inv_def by blast+
  obtain j part where j: "j \<le> length bs" "kept = concat (take j bs) @ part" "part = [] \<or> j < length bs"
    "j < length bs \<longrightarrow> (\<exists>x xs. bs ! j = part @ x # xs)" using cut_position [OF kept(1)] by blast
  have old: "replays_to (concat (take j bs)) (commit_state cs j)" "rp_pending (unit_replay (concat (take j bs))) = []"
    using inv j(1) unfolding run_inv_def by blast+
  have "replays_to kept (commit_state cs j)"
  proof (cases "j < length bs")
    case True
    then obtain x xs where b: "bs ! j = part @ x # xs" using j(4) by blast
    have "bs ! j \<in> set bs" using True by simp
    then have "bs ! j = [] \<or> (\<exists>tx ops seq. map entry_op (unit_log (bs ! j)) = commit_batch tx ops seq)"
      using inv unfolding run_inv_def by blast
    moreover have "bs ! j \<noteq> []" by (simp add: b)
    ultimately have "\<exists>tx ops seq. map entry_op (unit_log (bs ! j)) = commit_batch tx ops seq" by blast
    moreover have x: "snd x \<noteq> []"
    proof (rule ne)
      have "x \<in> set (bs ! j)" by (simp add: b)
      then show "x \<in> set (concat bs)" using \<open>bs ! j \<in> set bs\<close> by auto
    qed
    ultimately obtain tx ops seq where "map entry_op (unit_log (part @ x # xs)) = commit_batch tx ops seq" unfolding b by blast
    from replay_part [OF this x old(2)] show ?thesis using old(1) unfolding j(2) replays_to_def by (simp add: unit_replay_def)
  qed (use j(2,3) old(1) in simp)
  moreover have "i < j" if i: "i < length cs" "fst (cs ! i) \<le> k" for i
  proof (rule cut_before [OF kept(1) j(2,4)])
    show "i < length bs" using i(1) len by simp
    let ?pre = "concat (take (Suc i) bs)"
    have pre: "concat bs = ?pre @ concat (drop (Suc i) bs)" by (metis append_take_drop_id concat_append)
    show "length ?pre \<le> length kept"
    proof (rule ccontr)
      assume gt: "\<not> length ?pre \<le> length kept"
      then have "?pre \<noteq> []" by (metis le0 list.size(3))
      then have "fst (cs ! i) = 4 + length (unit_bytes ?pre)" using inv i(1) unfolding run_inv_def by blast
      then have bound: "4 + length (unit_bytes ?pre) \<le> k" using i(2) by simp
      obtain x xs where x: "?pre = kept @ x # xs" using longer_prefix [OF pre [symmetric, unfolded kept(1)] gt] by blast
      then have whole: "concat bs = kept @ x # (xs @ concat (drop (Suc i) bs))" using pre by simp
      then have "k < 4 + length (unit_bytes (kept @ [x]))"
        using cut_maximal [OF kept(2) [unfolded whole] kept(3)] ne [of x] by simp
      moreover have "length (unit_bytes (kept @ [x])) \<le> length (unit_bytes ?pre)" unfolding x by (simp add: unit_bytes_def)
      ultimately show False using bound by simp
    qed
  qed
  ultimately show ?thesis using j(1) len by (intro exI [of _ j]) simp
qed

text \<open>
  The log of a new store and the log of its first flush have the same number, and the start reads
  the one of the flush first. A key written to both is then flushed with the value of the older log.
\<close>

lemma first_flush_log_read_first: "sort_logs [((0, True), old), ((0, False), new)] = [((0, False), new), ((0, True), old)]"
  by (simp add: sort_logs_def)

lemma older_log_wins:
  "flush_entries [rp_memtable (replay_ops
      (commit_batch 5 [IdxInsert 0 ([1], [20])] 3 @ commit_batch 4 [IdxInsert 0 ([1], [10])] 1) replay_start)] = [([1], [10], 1, 4)]"
proof -
  have "rp_memtable (replay_ops (commit_batch 5 [IdxInsert 0 ([1], [20])] 3 @ commit_batch 4 [IdxInsert 0 ([1], [10])] 1) replay_start) =
      mt_put [1] [10] 1 4 (mt_put [1] [20] 3 5 mem_table_new)"
    by (simp add: replay_commit replay_start_def)
  moreover have "replicate 16 x = x # replicate 15 x" for x :: mt_shard
    using replicate_Suc [of 15 x] by (simp del: replicate_Suc)
  ultimately show ?thesis
    by (simp add: flush_entries_def mt_iter_latest_def mt_put_def mem_table_new_def shard_for_def get_at_def SHARD_COUNT_def
        shard_iter_latest_def Let_def)
qed

section \<open>Properties\<close>

text \<open>
  A cut inside the first chunk behind byte 64 is before the end of the log, and no commit acknowledged
  before it had written anything.
\<close>

lemma torn_first_commit:
  assumes inv: "run_inv P W0 S cs bs" and hs: "wal_holds (lp_wal P) (ls_wal S) (concat bs)"
    and cut: "concat bs \<noteq> [] \<and> k < 4 + length (fst (hd (concat bs))) \<and> 64 < k"
  shows "64 < k \<and> k < length (wl_file (ls_wal S)) \<and> (\<forall>i < length cs. fst (cs ! i) \<le> k \<longrightarrow> snd (cs ! i) = commit_state cs 0)"
proof -
  have "snd (cs ! i) = commit_state cs 0" if i: "i < length cs" "fst (cs ! i) \<le> k" for i
  proof -
    let ?pre = "concat (take (Suc i) bs)"
    have pre: "concat bs = ?pre @ concat (drop (Suc i) bs)" by (metis append_take_drop_id concat_append)
    have empty: "?pre = []"
    proof (rule ccontr)
      assume ne: "?pre \<noteq> []"
      then have "fst (cs ! i) = 4 + length (unit_bytes ?pre)" using inv i(1) unfolding run_inv_def by blast
      moreover have "hd (concat bs) = hd ?pre" using ne pre by (metis hd_append2)
      moreover have "length (fst (hd ?pre)) \<le> length (unit_bytes ?pre)" using ne by (cases ?pre) (simp_all add: unit_bytes_def)
      ultimately show False using cut i(2) by simp
    qed
    have "Suc i \<le> length bs" using inv i(1) by (simp add: run_inv_def)
    then have "replays_to ?pre (commit_state cs (Suc i))" using inv unfolding run_inv_def by blast
    then show ?thesis unfolding empty by (simp add: replays_to_def unit_replay_def replay_start_def commit_state_def)
  qed
  moreover have "wl_file (ls_wal S) = WAL_V3_HEADER @ unit_bytes (concat bs)" using hs cut unfolding wal_holds_def by simp
  moreover have "length (fst (hd (concat bs))) \<le> length (unit_bytes (concat bs))"
    using cut by (cases "concat bs") (simp_all add: unit_bytes_def)
  ultimately show ?thesis using cut by simp
qed

text \<open>
  C1. Commits are durable and atomic. On a fresh log run any sequence of staging operations and of
  commits that succeed one at a time (\<open>commit_single\<close>), whose batches are within the limits of the
  log (\<open>batch_ok\<close>), without rotating the log; then a crash cuts the log at byte \<open>k\<close>. Replaying it as
  the start of the engine does has one of two outcomes. Either it gives the memtable and the visible
  transaction as they were after some prefix of the commits, whole transactions only, and this
  prefix contains every commit that was acknowledged while the log was no longer than \<open>k\<close>. Or the
  cut is behind byte 64 and before the end of the log, no commit acknowledged before it had written
  anything (the cut is inside the first chunk), and replay fails with \<open>WalCorruption\<close>.
\<close>

theorem recovery_restores_commits:
  assumes run: "commit_run P S0 cs S" and hash: "hash_32 (lp_wal P)"
    and keys: "lp_wal_keys P n = (km, key)" "key_ok key" "km_wal km"
    and fresh: "open_log P n [] = Inr (ls_wal S0)" "ls_memtable S0 = mem_table_new" "ls_immutable S0 = []" "ls_last_committed_tx S0 = 0"
  shows "(\<exists>R j. replay_logs (lp_wal P) [read_log P (n, take k (wl_file (ls_wal S)))] replay_start = Inr R \<and> j \<le> length cs \<and>
      (rp_memtable R, rp_max_tx R) = commit_state cs j \<and> (\<forall>i < length cs. fst (cs ! i) \<le> k \<longrightarrow> i < j)) \<or>
    replay_logs (lp_wal P) [read_log P (n, take k (wl_file (ls_wal S)))] replay_start =
      Inl (WalCorruption 4 ''WAL entry length exceeds file size'') \<and> 64 < k \<and> k < length (wl_file (ls_wal S)) \<and>
    (\<forall>i < length cs. fst (cs ! i) \<le> k \<longrightarrow> snd (cs ! i) = commit_state cs 0)"
proof -
  let ?W = "read_log P (n, take k (wl_file (ls_wal S)))"
  have W0: "wal_inv (lp_wal P) (ls_wal S0) []" "wl_km (ls_wal S0) = (if wp_encryption (lp_wal P) then km else None)"
    "wl_integrity_key (ls_wal S0) = Some key"
    using wal_open_empty [OF keys(2), of "lp_wal P" km False WalV3] fresh(1) keys(1) by (auto simp: open_log_def)
  have km: "km_wal (wl_km (ls_wal S0))" using keys(3) W0(2) by (simp add: km_wal_def km_opt_lawful_def)
  obtain bs where inv: "run_inv P (ls_wal S0) S cs bs" using commit_run_inv [OF run hash km W0(1) fresh(2-4)] by blast
  then have hs: "wal_holds (lp_wal P) (ls_wal S) (concat bs)" and conf: "same_config (ls_wal S) (ls_wal S0)"
    by (simp_all add: run_inv_def wal_inv_def)
  have "wl_km ?W = wl_km (ls_wal S)" "wl_integrity_key ?W = wl_integrity_key (ls_wal S)" "wl_file ?W = take k (wl_file (ls_wal S))"
    using conf W0(2,3) keys(1) by (simp_all add: read_log_def wal_open_read_only_def same_config_def)
  note replay = replay_cut [OF hs this(3) this(1,2)]
  show ?thesis
  proof (cases "concat bs \<noteq> [] \<and> k < 4 + length (fst (hd (concat bs))) \<and> 64 < k")
    case True
    have err: "replay_logs (lp_wal P) [?W] replay_start = Inl (WalCorruption 4 ''WAL entry length exceeds file size'')"
      using replay unfolding if_P [OF True] by simp
    show ?thesis using err torn_first_commit [OF inv hs] True by blast
  next
    case False
    obtain kept rest where kept: "concat bs = kept @ rest" "filter (\<lambda>x. snd x \<le> k) (unit_ends 4 (concat bs)) = unit_ends 4 kept"
      "kept \<noteq> [] \<longrightarrow> 4 + length (unit_bytes kept) \<le> k" using units_upto [of "concat bs" k 4] by blast
    have log: "replayed_ops (unit_ends 4 kept) = map entry_op (unit_log kept)"
      unfolding map_fst_unit_ends [of 4 kept, symmetric] by simp
    have "replay_logs (lp_wal P) [?W] replay_start = Inr (unit_replay kept)"
      using replay unfolding if_not_P [OF False] kept(2) by (simp add: replay_entries log unit_replay_def)
    with cut_state [OF inv kept] show ?thesis unfolding replays_to_def by blast
  qed
qed

definition crash_params :: lsm_params where
  "crash_params =
     \<lparr>lp_wal = enc_params, lp_crc32 = (\<lambda>d. 0), lp_blake3 = (\<lambda>d. []), lp_hash = (\<lambda>k. 0), lp_scale = (\<lambda>p x. x), lp_bloom_m = 64,
      lp_bloom_k = 1, lp_km = Some km_plain, lp_path = [], lp_memtable_size_limit = 1000, lp_wal_keys = (\<lambda>n. (Some km_plain, [9]))\<rparr>"

definition crash_start :: "wal \<Rightarrow> lsm" where
  "crash_start W =
     \<lparr>ls_memtable = mem_table_new, ls_immutable = [], ls_tables = ([], None), ls_tx_buffer = tx_buffer_new,
      ls_budget = resource_tracker_new 1000, ls_drift = 0, ls_wal = W, ls_old_wals = [], ls_next_seq_no = 1,
      ls_last_committed_tx = 0, ls_flush_counter = 0, ls_segment_counter = 0, ls_intent_locks = []\<rparr>"

text \<open>One put and its commit.\<close>

lemma crash_example:
  assumes "wal_inv enc_params W []" "wl_km W = Some km_plain"
  shows "\<exists>S1 S2. lsm_put crash_params 2 [3] [4] 0 (crash_start W) = (Inr (), S1) \<and> commit_single crash_params None 2 S1 = (Inr (), S2) \<and>
    ls_flush_counter S2 = ls_flush_counter S1 \<and> batch_ok (batch_of crash_params 2 S1) \<and>
    ls_memtable S2 = mt_put [3] [4] 1 2 mem_table_new \<and> ls_last_committed_tx S2 = 2"
proof -
  define op where "op = (IdxInsert (derive_doc_id crash_params [3]) ([3], [4]) :: kv_op)"
  obtain r B where st: "stage_all (stage_kv (\<lambda>k. 0)) [(2, op, 0)] tx_buffer_new = (r, B)" by fastforce
  obtain os B' where dr: "drain_kv (\<lambda>k. 0) 2 B = (os, B')" by fastforce
  have new: "tb_wf (tx_buffer_new :: kv_buffer)" "\<forall>t. staged t (tx_buffer_new :: kv_buffer) = []"
    "tb_cap (tx_buffer_new :: kv_buffer) = DEFAULT_MAX_OPS_PER_TX"
    by (simp_all add: tb_wf_new staged_def get_ops_def tx_buffer_new_def new_with_config_def) (simp add: new_with_config_ext_def Let_def tx_buffer_config_default_def)
  have cap: "\<forall>t. length (ops_of t [(2, op, 0)]) \<le> tb_cap (tx_buffer_new :: kv_buffer)"
    unfolding new(3) by (simp add: ops_of_def DEFAULT_MAX_OPS_PER_TX_def)
  have ok: "r = Inr ()" "os = [op]" using kv_stage.stage_all_drain [OF new(1,2) cap st dr] by (simp_all add: ops_of_def)
  define S1 where "S1 = (crash_start W)\<lparr>ls_tx_buffer := B\<rparr>"
  have put: "lsm_put crash_params 2 [3] [4] 0 (crash_start W) = (Inr (), S1)"
    using st ok(1) unfolding op_def
    by (auto simp: lsm_put_def stage_op_def validate_key_def validate_value_def MAX_KEY_SIZE_def MAX_VALUE_SIZE_def out_of_memory_def
        has_memory_capacity_def S1_def crash_start_def crash_params_def resource_tracker_new_def split: prod.splits sum.splits)
  let ?ws = "[(WPut 2 [3] [4], 1), (WTxEnd 2 True, 1)]"
  have batch: "commit_ops 2 [op] 1 = ([(WPut 2 [3] [4], 1)], [([3], [4], 1)])" by (simp add: op_def)
  have b: "batch_of crash_params 2 S1 = ?ws"
    using dr ok(2) batch by (simp add: batch_of_def commit_batch_def S1_def crash_start_def crash_params_def)
  have fits: "batch_ok ?ws" by (simp add: batch_ok_def MAX_WAL_ENTRY_SIZE_def)
  obtain W2 where "wal_write enc_params None ?ws W = (Inr (), W2)"
    using wal_write_ok [OF assms(1) demo_ok(1) _ fits] assms(2) demo_ok(3) by auto
  then obtain es prev W1 where w: "prepare_batch enc_params ?ws W = (Inr (es, prev), W1)" "wal_append_batch enc_params None es W1 = (Inr (), W2)"
    by (auto simp: wal_write_def split: prod.splits sum.splits)
  have mem: "out_of_memory crash_params S1 = None"
    by (simp add: out_of_memory_def has_memory_capacity_def S1_def crash_start_def crash_params_def resource_tracker_new_def)
  define r' where "r' = \<lparr>cr_tx = 2, cr_wal_entries = es, cr_mem_updates = [([3], [4], 1)], cr_prev_hmac = prev\<rparr>"
  define S1' where "S1' = S1\<lparr>ls_tx_buffer := B', ls_next_seq_no := 2, ls_wal := W1\<rparr>"
  have prep: "commit_prepare crash_params 2 S1 = (Inr (Some r'), S1')"
    using dr ok(2) batch w(1) unfolding commit_prepare_def mem
    by (simp add: S1_def S1'_def r'_def crash_start_def crash_params_def Let_def)
  define S2 where "S2 = commit_apply r' (S1'\<lparr>ls_wal := W2\<rparr>)"
  note st2 = commit_apply_state [OF S2_def]
  have m: "ls_memtable S2 = mt_put [3] [4] 1 2 mem_table_new" "ls_last_committed_tx S2 = 2" "ls_flush_counter S2 = ls_flush_counter S1"
    using st2(1,4,5) by (simp_all add: r'_def S1'_def S1_def crash_start_def INTERNAL_BASE_def)
  have "\<not> needs_flush crash_params S2" using m(1) by (simp add: needs_flush_def crash_params_def mt_put_def mem_table_new_def Let_def)
  moreover have "wal_append_batch (lp_wal crash_params) None (cr_wal_entries r') (ls_wal S1') = (Inr (), W2)"
    using w(2) by (simp add: r'_def S1'_def crash_params_def)
  ultimately have "commit_single crash_params None 2 S1 = (Inr (), clear_intent_locks_for_tx 2 S2)"
    unfolding commit_single_def prep Let_def S2_def by (simp only: prod.case sum.case option.case if_False)
  then show ?thesis using put m b fits
    by (intro exI [of _ S1] exI [of _ "clear_intent_locks_for_tx 2 S2"]) simp
qed

theorem recovery_restores_commits_witness:
  "\<exists>W S cs R. open_log crash_params (0, True) [] = Inr W \<and> commit_run crash_params (crash_start W) cs S \<and> length cs = 1 \<and>
     replay_logs enc_params [read_log crash_params ((0, True), take (length (wl_file (ls_wal S))) (wl_file (ls_wal S)))] replay_start = Inr R \<and>
     rp_memtable R = mt_put [3] [4] 1 2 mem_table_new \<and> rp_max_tx R = 2"
proof -
  obtain W where W: "wal_open enc_params (Some km_plain) (Some [9]) False WalV3 [] = Inr W" "wal_inv enc_params W []" "wl_km W = Some km_plain"
    using wal_open_empty [OF demo_ok(2), of enc_params "Some km_plain" False WalV3] by (auto simp: enc_params_def)
  obtain S1 S2 where S: "lsm_put crash_params 2 [3] [4] 0 (crash_start W) = (Inr (), S1)" "commit_single crash_params None 2 S1 = (Inr (), S2)"
    "ls_flush_counter S2 = ls_flush_counter S1" "batch_ok (batch_of crash_params 2 S1)"
    "ls_memtable S2 = mt_put [3] [4] 1 2 mem_table_new" "ls_last_committed_tx S2 = 2" using crash_example [OF W(2,3)] by blast
  define c where "c = (length (wl_file (ls_wal S2)), ls_memtable S2, ls_last_committed_tx S2)"
  have run: "commit_run crash_params (crash_start W) [c] S2"
    using run_commit [OF run_put [OF run_start S(1)] S(2-4)] by (simp add: c_def)
  have open0: "open_log crash_params (0, True) [] = Inr (ls_wal (crash_start W))"
    using W(1) by (simp add: open_log_def crash_params_def crash_start_def)
  have "hash_32 (lp_wal crash_params)" "lp_wal_keys crash_params (0, True) = (Some km_plain, [9])"
    using demo_ok(1) by (simp_all add: crash_params_def)
  from recovery_restores_commits [OF run this demo_ok(2,3) open0, of "length (wl_file (ls_wal S2))"] S(5,6)
  obtain R j where R: "replay_logs (lp_wal crash_params) [read_log crash_params ((0, True), take (length (wl_file (ls_wal S2))) (wl_file (ls_wal S2)))] replay_start = Inr R"
    "(rp_memtable R, rp_max_tx R) = commit_state [c] j" "j \<le> 1" "0 < j"
    by (auto simp: crash_start_def c_def commit_state_def)
  then have "commit_state [c] j = (ls_memtable S2, ls_last_committed_tx S2)" by (simp add: commit_state_def c_def)
  with R run open0 S(5,6) show ?thesis
    by (intro exI [of _ W] exI [of _ S2] exI [of _ "[c]"] exI [of _ R]) (simp add: crash_params_def crash_start_def)
qed

end
