(* ===== verification/Lsm_Reads.thy ===== *)
theory Lsm_Reads
  imports Lsm_Store
begin

text \<open>
  What point reads of the storage engine return. The history of a store is the list of all puts made
  to it, in the order of their sequence numbers. It is cut into consecutive parts: a memtable holds
  every put of its part, a table only the newest put of each key of its part, since a flush writes no
  other. A read walks the layers from the newest to the oldest. Proved is that a read that sees all
  puts of its key returns the newest of them, before and after a flush; a read at an older sequence
  number can lose its value with the flush (\<open>flush_loses_older_versions\<close>).
\<close>

section \<open>Layers\<close>

fun first_hit :: "('l \<Rightarrow> 'v option) \<Rightarrow> 'l list \<Rightarrow> 'v option" where
  "first_hit hit [] = None"
| "first_hit hit (l # ls) = (case hit l of Some v \<Rightarrow> Some v | None \<Rightarrow> first_hit hit ls)"

lemma first_hit_append: "first_hit hit (ls @ ls') = (case first_hit hit ls of Some v \<Rightarrow> Some v | None \<Rightarrow> first_hit hit ls')"
  by (induction ls) (auto split: option.splits)

text \<open>
  The interface of a layer: it answers with the newest of the puts it holds, and the newest of two
  consecutive parts of the history is the one of the later part, if there is one.
\<close>

locale read_layers =
  fixes hit :: "'l \<Rightarrow> 'v option" and holds :: "'l \<Rightarrow> 'h list \<Rightarrow> bool" and newest :: "'h list \<Rightarrow> 'v option"
  assumes hit_newest: "holds l ps \<Longrightarrow> hit l = newest ps"
    and newest_Nil: "newest [] = None"
    and newest_append: "newest (ps @ qs) = (case newest qs of Some v \<Rightarrow> Some v | None \<Rightarrow> newest ps)"
begin

lemma walk_newest: "list_all2 holds ls pss \<Longrightarrow> first_hit hit (rev ls) = newest (concat pss)"
proof (induction ls pss rule: list_all2_induct)
  case Nil
  then show ?case by (simp add: newest_Nil)
next
  case (Cons l ls ps pss)
  then show ?case by (simp add: first_hit_append newest_append hit_newest split: option.split)
qed

end

lemma latest_put_Nil [simp]: "latest_put P [] = None"
  by (simp add: latest_put_def)

lemma latest_put_append: "latest_put P (ps @ qs) = (case latest_put P qs of Some p \<Rightarrow> Some p | None \<Rightarrow> latest_put P ps)"
  by (simp add: latest_put_def Let_def)

lemma latest_put_in: "latest_put P ps = Some p \<Longrightarrow> p \<in> set ps \<and> P p"
  using last_in_set [of "filter P ps"] by (auto simp: latest_put_def Let_def split: if_splits)

lemma latest_put_cong: "(\<And>p. p \<in> set ps \<Longrightarrow> P p = Q p) \<Longrightarrow> latest_put P ps = latest_put Q ps"
  by (simp add: latest_put_def cong: filter_cong)

lemma latest_put_None: "latest_put P ps = None \<longleftrightarrow> (\<forall>p \<in> set ps. \<not> P p)"
  by (auto simp: latest_put_def Let_def filter_empty_conv)

section \<open>Memtables\<close>

fun put_value :: "kv_entry \<Rightarrow> bytes option" where
  "put_value (k, v, s, t) = live_value v s"

definition mem_hit :: "bytes \<Rightarrow> u64 \<Rightarrow> tx_id \<Rightarrow> mem_table \<Rightarrow> bytes option option" where
  "mem_hit key q tx T = map_option (\<lambda>(v, s, t). live_value v s) (mt_get_at_seq key q tx T)"

lemma read_memtables_hit: "read_memtables key q tx Ts = first_hit (mem_hit key q tx) Ts"
  by (induction Ts) (auto simp: mem_hit_def split: option.split)

interpretation mem_layers: read_layers "mem_hit key q tx" "\<lambda>T ps. mt_reach ps T"
  "\<lambda>ps. map_option put_value (latest_put (visible_put key q tx) ps)" for key q tx
proof (unfold_locales, goal_cases)
  case (1 T ps)
  then show ?case by (auto simp: mem_hit_def mt_get_at_seq_puts option.map_comp comp_def intro!: option.map_cong)
next
  case (3 ps qs)
  then show ?case by (simp add: latest_put_append split: option.split)
qed simp

lemma mt_reach_empty: "mt_reach ps T \<Longrightarrow> mt_is_empty T \<longleftrightarrow> ps = []"
proof -
  assume reach: "mt_reach ps T"
  then have wf: "mt_wf T" and vs: "\<And>k. mt_versions T k = map to_version (puts_of k ps)"
    using mt_reach_versions by blast+
  have "mt_is_empty T \<longleftrightarrow> mt_flat T = []" by (auto simp: mt_is_empty_def mt_flat_def list_all_iff)
  also have "\<dots> \<longleftrightarrow> fst ` set (mt_flat T) = {}" by simp
  also have "\<dots> \<longleftrightarrow> (\<forall>k. puts_of k ps = [])" using mt_flat_keys [OF wf] vs by (metis all_not_in_conv map_is_Nil_conv)
  also have "\<dots> \<longleftrightarrow> ps = []" by (cases ps) (auto simp: puts_of_def filter_empty_conv)
  finally show "mt_is_empty T \<longleftrightarrow> ps = []" .
qed

section \<open>Tables\<close>

text \<open>
  A table that contains, of a part \<open>ps\<close> of the history, the newest put of every key and nothing
  else. The superseded puts of the part are in the history, not in the table.
\<close>

definition table_newest_of :: "lsm_params \<Rightarrow> sst_reader \<Rightarrow> kv_entry list \<Rightarrow> bool" where
  "table_newest_of P R ps \<longleftrightarrow> ps \<noteq> [] \<and> (\<exists>es. holds_entries (lp_crc32 P) (lp_blake3 P) R es \<and>
     (\<forall>k. map_of es k = map_option snd (latest_put (\<lambda>p. fst p = k) ps)) \<and>
     (\<forall>e \<in> set es. sm_min_tx_id (rd_metadata R) \<le> entry_tx e \<and> sm_min_seq (rd_metadata R) \<le> entry_seq e)) \<and>
     raw_seq (sm_max_seq (rd_metadata R)) = Max (entry_seq ` set ps)"

text \<open>What a table answers to a read, and a read that sees every put of its key.\<close>

definition table_hit :: "lsm_params \<Rightarrow> bytes \<Rightarrow> u64 \<Rightarrow> tx_id \<Rightarrow> sst_reader \<Rightarrow> bytes option option" where
  "table_hit P key q tx R =
     (if tx < sm_min_tx_id (rd_metadata R) \<or> q < sm_min_seq (rd_metadata R) then None
      else case sst_get (lp_crc32 P) (lp_blake3 P) R key of
             Inr (Some (v, s, t)) \<Rightarrow> if raw_seq s \<le> q \<and> t \<le> tx then Some (live_value v s) else None
           | _ \<Rightarrow> None)"

definition sees_key :: "bytes \<Rightarrow> u64 \<Rightarrow> tx_id \<Rightarrow> kv_entry list \<Rightarrow> bool" where
  "sees_key key q tx ps \<longleftrightarrow> (\<forall>p \<in> set ps. fst p = key \<longrightarrow> entry_seq p \<le> q \<and> entry_tx p \<le> tx)"

lemma table_newest_of_get:
  assumes "table_newest_of P R ps"
  shows "sst_get (lp_crc32 P) (lp_blake3 P) R key = Inr (map_option snd (latest_put (\<lambda>p. fst p = key) ps))"
  using assms sst_get_repr by (fastforce simp: table_newest_of_def holds_entries_def)

lemma table_newest_of_hit:
  assumes holds: "table_newest_of P R ps" and sees: "sees_key key q tx ps"
  shows "table_hit P key q tx R = map_option put_value (latest_put (\<lambda>p. fst p = key) ps)"
proof (cases "latest_put (\<lambda>p. fst p = key) ps")
  case None
  then show ?thesis using table_newest_of_get [OF holds, of key] by (simp add: table_hit_def)
next
  case (Some p)
  then have p: "p \<in> set ps" "fst p = key" using latest_put_in by fastforce+
  obtain v s t where pe: "p = (key, v, s, t)" using p(2) by (cases p) auto
  obtain es where es: "map_of es key = map_option snd (latest_put (\<lambda>p. fst p = key) ps)"
    "\<forall>e \<in> set es. sm_min_tx_id (rd_metadata R) \<le> entry_tx e \<and> sm_min_seq (rd_metadata R) \<le> entry_seq e"
    using holds unfolding table_newest_of_def by blast
  have "(key, v, s, t) \<in> set es" using es(1) Some pe map_of_SomeD by simp
  then have "sm_min_tx_id (rd_metadata R) \<le> t" "sm_min_seq (rd_metadata R) \<le> raw_seq s" using es(2) by force+
  moreover have "raw_seq s \<le> q" "t \<le> tx" using sees p(1) pe by (auto simp: sees_key_def)
  ultimately show ?thesis
    using table_newest_of_get [OF holds, of key] Some pe by (auto simp: table_hit_def)
qed

lemma read_sstables_hit:
  assumes "list_all2 (table_newest_of P) Rs pss"
  shows "read_sstables P key q tx Rs = Inr (Option.bind (first_hit (table_hit P key q tx) Rs) id)"
  using assms
proof (induction Rs pss rule: list_all2_induct)
  case (Cons R Rs ps pss)
  show ?case using Cons.IH table_newest_of_get [OF Cons.hyps(1), of key]
    by (auto simp: table_hit_def split: option.split prod.split)
qed simp

interpretation table_layers: read_layers "table_hit P key q tx" "\<lambda>R ps. table_newest_of P R ps \<and> sees_key key q tx ps"
  "\<lambda>ps. map_option put_value (latest_put (\<lambda>p. fst p = key) ps)" for P key q tx
proof (unfold_locales, goal_cases)
  case (1 R ps)
  then show ?case using table_newest_of_hit by blast
next
  case (3 ps qs)
  then show ?case by (simp add: latest_put_append split: option.split)
qed simp

section \<open>The entries of a flush\<close>

lemma fold_bt_insert:
  assumes "bt_wf m"
  shows "bt_wf (fold (\<lambda>e. bt_insert (fst e) (snd e)) es m) \<and>
    map_of (fold (\<lambda>e. bt_insert (fst e) (snd e)) es m) k =
      (case latest_put (\<lambda>p. fst p = k) es of Some p \<Rightarrow> Some (snd p) | None \<Rightarrow> map_of m k)"
  using assms
proof (induction es arbitrary: m)
  case (Cons e es)
  have "bt_wf (bt_insert (fst e) (snd e) m)" using Cons.prems by (rule bt_wf_bt_insert)
  from Cons.IH [OF this] show ?case
    using Cons.prems latest_put_append [of "\<lambda>p. fst p = k" "[e]" es]
    by (auto simp: latest_put_def Let_def split: option.split)
qed simp

lemma latest_put_puts_of: "latest_put (\<lambda>p. fst p = k) ps = (if puts_of k ps = [] then None else Some (last (puts_of k ps)))"
  by (simp add: latest_put_def puts_of_def Let_def)

lemma latest_of_iter:
  assumes "mt_reach ps T"
  shows "latest_put (\<lambda>p. fst p = k) (mt_iter_latest T) = latest_put (\<lambda>p. fst p = k) ps"
proof -
  define f where "f = (\<lambda>k. last (puts_of k ps))"
  have key: "fst (f k') = k'" if "k' \<in> fst ` set ps" for k'
  proof -
    have "puts_of k' ps \<noteq> []" using that by (auto simp: puts_of_def filter_empty_conv)
    then show ?thesis using last_in_set [of "puts_of k' ps"] unfolding f_def by (auto simp: puts_of_def)
  qed
  have "filter (\<lambda>p. fst p = k) (map f (sorted_list_of_set (fst ` set ps))) = (if k \<in> fst ` set ps then [f k] else [])"
  proof -
    have "filter (\<lambda>p. fst p = k) (map f ks) = (if k \<in> set ks then [f k] else [])"
      if "distinct ks" "set ks \<subseteq> fst ` set ps" for ks
      using that by (induction ks) (auto simp: key)
    then show ?thesis by simp
  qed
  then have "latest_put (\<lambda>p. fst p = k) (mt_iter_latest T) = (if k \<in> fst ` set ps then Some (f k) else None)"
    unfolding mt_iter_latest_spec [OF assms] f_def [symmetric] by (simp add: latest_put_def Let_def)
  moreover have "puts_of k ps = [] \<longleftrightarrow> k \<notin> fst ` set ps" by (auto simp: puts_of_def filter_empty_conv)
  ultimately show ?thesis by (simp add: latest_put_puts_of f_def)
qed

lemma flush_entries_latest:
  assumes "list_all2 (\<lambda>T ps. mt_reach ps T) Ts pss"
  shows "bt_wf (flush_entries Ts) \<and> map_of (flush_entries Ts) k = map_option snd (latest_put (\<lambda>p. fst p = k) (concat pss))"
proof -
  let ?f = "\<lambda>T m. fold (\<lambda>e. bt_insert (fst e) (snd e)) (mt_iter_latest T) m"
  have "bt_wf (fold ?f Ts m) \<and> map_of (fold ?f Ts m) k =
      (case latest_put (\<lambda>p. fst p = k) (concat pss) of Some p \<Rightarrow> Some (snd p) | None \<Rightarrow> map_of m k)" if "bt_wf m" for m
    using assms that
  proof (induction Ts pss arbitrary: m rule: list_all2_induct)
    case (Cons T Ts ps pss)
    from Cons.IH [of "?f T m"] fold_bt_insert [OF Cons.prems, of "mt_iter_latest T" k] show ?case
      by (auto simp: latest_of_iter [OF Cons.hyps(1)] latest_put_append split: option.split)
  qed simp
  from this [of "[]"] show ?thesis by (simp add: flush_entries_def split: option.split)
qed

lemma flush_entries_subset:
  assumes "list_all2 (\<lambda>T ps. mt_reach ps T) Ts pss"
  shows "set (flush_entries Ts) \<subseteq> set (concat pss)"
proof
  fix e assume e: "e \<in> set (flush_entries Ts)"
  have "distinct (map fst (flush_entries Ts))" using flush_entries_latest [OF assms] bt_wf_distinct by blast
  then have "map_of (flush_entries Ts) (fst e) = Some (snd e)" using e by simp
  then obtain p where p: "latest_put (\<lambda>p. fst p = fst e) (concat pss) = Some p" "snd p = snd e"
    using flush_entries_latest [OF assms, of "fst e"]
    by (cases "latest_put (\<lambda>p. fst p = fst e) (concat pss)") simp_all
  have "p = e" using p latest_put_in [OF p(1)] by (simp add: prod_eq_iff)
  then show "e \<in> set (concat pss)" using latest_put_in [OF p(1)] by simp
qed

text \<open>The newest put of all is among them.\<close>

lemma flush_entries_max:
  assumes mem: "list_all2 (\<lambda>T ps. mt_reach ps T) Ts pss" and asc: "sorted_wrt (<) (map entry_seq (concat pss))" and ne: "concat pss \<noteq> []"
  shows "last (concat pss) \<in> set (flush_entries Ts)" "entry_seq (last (concat pss)) = Max (entry_seq ` set (concat pss))"
proof -
  let ?p = "last (concat pss)"
  have split: "concat pss = butlast (concat pss) @ [?p]" using ne by simp
  have "latest_put (\<lambda>p. fst p = fst ?p) (concat pss) = Some ?p"
    by (subst split, subst latest_put_append) (simp add: latest_put_def)
  then have "map_of (flush_entries Ts) (fst ?p) = Some (snd ?p)" using flush_entries_latest [OF mem, of "fst ?p"] by simp
  then show "?p \<in> set (flush_entries Ts)" using map_of_SomeD by fastforce
  have "sorted_wrt (<) (map entry_seq (butlast (concat pss) @ [?p]))" using asc split by simp
  then have "\<forall>p \<in> set (butlast (concat pss)). entry_seq p < entry_seq ?p" by (simp add: sorted_wrt_append)
  then have "\<forall>p \<in> set (concat pss). entry_seq p \<le> entry_seq ?p" by (subst split) auto
  moreover have "?p \<in> set (concat pss)" using ne by (rule last_in_set)
  ultimately show "entry_seq ?p = Max (entry_seq ` set (concat pss))"
    by (intro Max_eqI [symmetric]) auto
qed

lemma flush_table_newest:
  assumes mem: "list_all2 (\<lambda>T ps. mt_reach ps T) Ts pss" and asc: "sorted_wrt (<) (map entry_seq (concat pss))"
    and ne: "concat pss \<noteq> []" and fits: "\<forall>p \<in> set (concat pss). entry_fits p" and km: "km_opt_lawful (lp_km P)"
  shows "\<exists>f meta. sst_build (lp_crc32 P) (lp_blake3 P) (lp_bloom_m P) (lp_bloom_k P) (lp_km P) (flush_entries Ts) = Inr (f, meta) \<and>
    (length f < 2 ^ 64 \<longrightarrow> (\<exists>R. sst_open (lp_crc32 P) (lp_km P) f = Inr R \<and> table_newest_of P R (concat pss)))"
proof -
  let ?es = "flush_entries Ts" and ?ps = "concat pss"
  have fits': "\<forall>e \<in> set ?es. entry_fits e" using fits flush_entries_subset [OF mem] by blast
  have sorted: "sorted_wrt (<) (map fst ?es)" using flush_entries_latest [OF mem] by (simp add: bt_wf_def)
  obtain f meta where f: "sst_build (lp_crc32 P) (lp_blake3 P) (lp_bloom_m P) (lp_bloom_k P) (lp_km P) ?es = Inr (f, meta)"
    and opens: "length f < 2 ^ 64 \<longrightarrow> (\<exists>R gs. sst_open (lp_crc32 P) (lp_km P) f = Inr R \<and>
        reader_repr (lp_crc32 P) (lp_blake3 P) R gs \<and> concat gs = ?es \<and>
        sm_min_tx_id (rd_metadata R) = sm_min_tx_id meta \<and> sm_max_tx_id (rd_metadata R) = sm_max_tx_id meta \<and>
        sm_min_seq (rd_metadata R) = sm_min_seq meta \<and> sm_max_seq (rd_metadata R) = sm_max_seq meta)"
    using sst_build_open [OF km fits' sorted] by blast
  have lo: "\<forall>e \<in> set ?es. sm_min_tx_id meta \<le> entry_tx e \<and> sm_min_seq meta \<le> entry_seq e"
    unfolding sst_build_ranges(1) [OF f] sst_build_ranges(3) [OF f] fold_min_Min by (force intro!: Min_le)
  have "Max (insert 0 (entry_seq ` set ?es)) = Max (entry_seq ` set ?ps)"
  proof (rule Max_eqI)
    have "entry_seq (last ?ps) \<in> insert 0 (entry_seq ` set ?es)" using flush_entries_max(1) [OF mem asc ne] by blast
    then show "Max (entry_seq ` set ?ps) \<in> insert 0 (entry_seq ` set ?es)"
      by (simp only: flush_entries_max(2) [OF mem asc ne])
  next
    fix x assume "x \<in> insert 0 (entry_seq ` set ?es)"
    then consider "x = 0" | "x \<in> entry_seq ` set ?ps" using flush_entries_subset [OF mem] by blast
    then show "x \<le> Max (entry_seq ` set ?ps)" by cases simp_all
  qed simp
  moreover have "sm_max_seq meta = Max (insert 0 (entry_seq ` set ?es))"
  proof -
    have "(\<lambda>(k, v, s, t). raw_seq s) = entry_seq" by (auto simp: fun_eq_iff)
    then show ?thesis unfolding sst_build_ranges(4) [OF f] fold_max_Max by simp
  qed
  moreover have "raw_seq (Max (entry_seq ` set ?ps)) = Max (entry_seq ` set ?ps)"
    using flush_entries_max(2) [OF mem asc ne, symmetric] by (cases "last ?ps") simp
  ultimately have hi: "raw_seq (sm_max_seq meta) = Max (entry_seq ` set ?ps)" by simp
  have "\<forall>k. map_of ?es k = map_option snd (latest_put (\<lambda>p. fst p = k) ?ps)" using flush_entries_latest [OF mem] by blast
  with opens lo hi ne have "length f < 2 ^ 64 \<longrightarrow> (\<exists>R. sst_open (lp_crc32 P) (lp_km P) f = Inr R \<and> table_newest_of P R ?ps)"
    unfolding table_newest_of_def holds_entries_def by metis
  with f show ?thesis by blast
qed

section \<open>The store\<close>

text \<open>
  A store with the history \<open>concat tabs @ concat imms @ mem\<close>: the parts \<open>tabs\<close> behind its tables, the
  parts \<open>imms\<close> in its immutable memtables and \<open>mem\<close> in the active one, in the order of their
  sequence numbers.
\<close>

definition lsm_holds :: "lsm_params \<Rightarrow> lsm \<Rightarrow> kv_entry list list \<Rightarrow> kv_entry list list \<Rightarrow> kv_entry list \<Rightarrow> bool" where
  "lsm_holds P S tabs imms mem \<longleftrightarrow>
     list_all2 (table_newest_of P) (map sh_reader (fst (ls_tables S))) tabs \<and>
     list_all2 (\<lambda>T ps. mt_reach ps T) (ls_immutable S) imms \<and> mt_reach mem (ls_memtable S) \<and> [] \<notin> set imms \<and>
     sorted_wrt (<) (map entry_seq (concat tabs @ concat imms @ mem)) \<and>
     (\<forall>p \<in> set (concat tabs @ concat imms @ mem). entry_fits p)"

definition newest_value :: "bytes \<Rightarrow> kv_entry list \<Rightarrow> bytes option" where
  "newest_value key ps = Option.bind (latest_put (\<lambda>p. fst p = key) ps) put_value"

lemma newest_value_append:
  "newest_value key (ps @ qs) = (case latest_put (\<lambda>p. fst p = key) qs of Some p \<Rightarrow> put_value p | None \<Rightarrow> newest_value key ps)"
  by (simp add: newest_value_def latest_put_append split: option.split)

text \<open>A read that sees every put of its key returns the newest of them.\<close>

lemma lsm_get_at_seq_newest:
  assumes holds: "lsm_holds P S tabs imms mem"
    and sees: "sees_key key q (ls_last_committed_tx S) (concat tabs @ concat imms @ mem)"
  shows "lsm_get_at_seq P key q S = rbind (validate_key key) (\<lambda>_. Inr (newest_value key (concat tabs @ concat imms @ mem)))"
proof -
  let ?tx = "ls_last_committed_tx S" and ?Rs = "map sh_reader (fst (ls_tables S))"
  let ?at = "\<lambda>p. fst p = key"
  have vis: "latest_put (visible_put key q ?tx) (concat imms @ mem) = latest_put ?at (concat imms @ mem)"
    using sees by (intro latest_put_cong) (auto simp: visible_put_def sees_key_def tx_visible_def)
  have "list_all2 (\<lambda>T ps. mt_reach ps T) (ls_immutable S @ [ls_memtable S]) (imms @ [mem])"
    using holds by (simp add: lsm_holds_def list_all2_appendI)
  from mem_layers.walk_newest [OF this, of key q ?tx]
  have m: "read_memtables key q ?tx (ls_memtable S # rev (ls_immutable S)) = map_option put_value (latest_put ?at (concat imms @ mem))"
    using vis by (simp only: read_memtables_hit rev_append rev.simps append.simps concat_append concat.simps append_Nil2)
  have tabs: "list_all2 (table_newest_of P) ?Rs tabs" using holds by (simp add: lsm_holds_def)
  have "\<forall>ps \<in> set tabs. sees_key key q ?tx ps" using sees by (auto simp: sees_key_def)
  with tabs have "list_all2 (\<lambda>R ps. table_newest_of P R ps \<and> sees_key key q ?tx ps) ?Rs tabs"
    by (auto simp: list_all2_conv_all_nth)
  from table_layers.walk_newest [OF this]
  have "first_hit (table_hit P key q ?tx) (rev ?Rs) = map_option put_value (latest_put ?at (concat tabs))" .
  moreover have "list_all2 (table_newest_of P) (rev ?Rs) (rev tabs)" using tabs by (simp only: list_all2_rev)
  ultimately have "read_sstables P key q ?tx (rev ?Rs) = Inr (newest_value key (concat tabs))"
    using read_sstables_hit [of P "rev ?Rs" "rev tabs" key q ?tx]
    by (cases "latest_put ?at (concat tabs)") (simp_all add: newest_value_def)
  with m show ?thesis
    by (cases "validate_key key") (auto simp: lsm_get_at_seq_def Let_def newest_value_append split: option.split)
qed

lemma lsm_get_at: "lsm_get P key S = lsm_get_at_seq P key (ls_next_seq_no S) S"
  by (cases "validate_key key") (simp_all add: lsm_get_def lsm_get_at_seq_def)

section \<open>The flush\<close>

lemma tables_ordered:
  assumes "list_all2 (table_newest_of P) (map sh_reader hs) tabs" "sorted_wrt (<) (map entry_seq (concat tabs))"
  shows "sorted (map sh_max_seq hs)"
proof -
  have "list_all2 (\<lambda>h ps. table_newest_of P (sh_reader h) ps) hs tabs" using assms(1) by (simp add: list_all2_map1)
  then have "sorted (map sh_max_seq hs) \<and> (\<forall>h \<in> set hs. \<exists>p \<in> set (concat tabs). sh_max_seq h = entry_seq p)"
    using assms(2)
  proof (induction hs tabs rule: list_all2_induct)
    case (Cons h hs ps tabs)
    have ne: "ps \<noteq> []" and mx: "sh_max_seq h = Max (entry_seq ` set ps)"
      using Cons.hyps(1) by (simp_all add: table_newest_of_def sh_max_seq_def)
    have IH: "sorted (map sh_max_seq hs)" "\<forall>h \<in> set hs. \<exists>p \<in> set (concat tabs). sh_max_seq h = entry_seq p"
      using Cons.IH Cons.prems by (simp_all add: sorted_wrt_append)
    have "Max (entry_seq ` set ps) \<in> entry_seq ` set ps" using ne by (intro Max_in) simp_all
    then obtain p where p: "p \<in> set ps" "sh_max_seq h = entry_seq p" unfolding mx by blast
    have "\<forall>q \<in> set (concat tabs). entry_seq p < entry_seq q"
      using Cons.prems p(1) by (simp only: concat.simps map_append sorted_wrt_append set_map) blast
    then have "\<forall>h' \<in> set hs. sh_max_seq h \<le> sh_max_seq h'" using IH(2) p(2) by (metis less_imp_le)
    moreover have "\<forall>h' \<in> set (h # hs). \<exists>p \<in> set (concat (ps # tabs)). sh_max_seq h' = entry_seq p"
      using p IH(2) by (simp only: concat.simps set_append list.set ball_simps bex_Un) blast
    ultimately show ?case using IH(1) by simp
  qed simp
  then show ?thesis by blast
qed

definition to_flush :: "lsm \<Rightarrow> mem_table list" where
  "to_flush S = ls_immutable S @ (if mt_is_empty (ls_memtable S) then [] else [ls_memtable S])"

text \<open>The file offsets of the table to write fit their 64 bits.\<close>

definition table_size_ok :: "lsm_params \<Rightarrow> mem_table list \<Rightarrow> bool" where
  "table_size_ok P Ts \<longleftrightarrow>
     (case sst_build (lp_crc32 P) (lp_blake3 P) (lp_bloom_m P) (lp_bloom_k P) (lp_km P) (flush_entries Ts) of
        Inr (f, meta) \<Rightarrow> length f < 2 ^ 64 | Inl e \<Rightarrow> True)"

lemma flush_rotate_holds:
  assumes holds: "lsm_holds P S tabs imms mem" and rot: "flush_rotate P S = (r, S1)"
  shows "\<exists>imms1 mem1. lsm_holds P S1 tabs imms1 mem1 \<and> concat imms1 @ mem1 = concat imms @ mem \<and>
    (r = Inr () \<longrightarrow> mem1 = [] \<and> ls_immutable S1 = to_flush S) \<and> ls_next_seq_no S1 = ls_next_seq_no S \<and> ls_last_committed_tx S1 = ls_last_committed_tx S"
proof (cases "mt_is_empty (ls_memtable S)")
  case True
  then have "S1 = S" using rot by (simp add: flush_rotate_def)
  moreover have "mem = []" using holds True mt_reach_empty by (auto simp: lsm_holds_def)
  ultimately show ?thesis using holds True by (auto simp: to_flush_def)
next
  case False
  then have ne: "mem \<noteq> []" using holds mt_reach_empty by (auto simp: lsm_holds_def)
  obtain km key where k: "lp_wal_keys P (ls_flush_counter S, False) = (km, key)" by fastforce
  show ?thesis
  proof (cases "wal_open (lp_wal P) km (Some key) False WalV3 []")
    case (Inl e)
    then show ?thesis using rot False k holds by (auto simp: flush_rotate_def lsm_holds_def)
  next
    case (Inr W)
    then have S1: "ls_memtable S1 = mem_table_new" "ls_immutable S1 = ls_immutable S @ [ls_memtable S]" "ls_tables S1 = ls_tables S"
      "ls_next_seq_no S1 = ls_next_seq_no S" "ls_last_committed_tx S1 = ls_last_committed_tx S"
      using rot False k by (auto simp: flush_rotate_def)
    then have "lsm_holds P S1 tabs (imms @ [mem]) []"
      using holds ne by (auto simp: lsm_holds_def mt_reach_new intro: list_all2_appendI)
    then show ?thesis using S1 False by (intro exI [of _ "imms @ [mem]"] exI [of _ "[]"]) (simp add: to_flush_def)
  qed
qed

text \<open>Visibility is never withdrawn and stays below the internal transactions.\<close>

definition visibility_grows :: "lsm \<Rightarrow> lsm \<Rightarrow> bool" where
  "visibility_grows S S' \<longleftrightarrow> ls_last_committed_tx S \<le> ls_last_committed_tx S' \<and>
     (ls_last_committed_tx S < INTERNAL_BASE \<longrightarrow> ls_last_committed_tx S' < INTERNAL_BASE)"

lemma flush_install_holds:
  assumes holds: "lsm_holds P S tabs imms []" and ne: "imms \<noteq> []" and km: "km_opt_lawful (lp_km P)"
    and small: "table_size_ok P (ls_immutable S)"
    and run: "flush_install P rotated S = (r, S')"
  shows "\<exists>tabs' imms'. lsm_holds P S' tabs' imms' [] \<and> concat tabs' @ concat imms' = concat tabs @ concat imms \<and>
    (r = Inr () \<longrightarrow> imms' = [] \<and> tabs' = tabs @ [concat imms]) \<and> ls_next_seq_no S' = ls_next_seq_no S \<and>
    visibility_grows S S'"
proof -
  have mem: "list_all2 (\<lambda>T ps. mt_reach ps T) (ls_immutable S) imms" using holds by (simp add: lsm_holds_def)
  have "sorted_wrt (<) (map entry_seq (concat imms))" "\<forall>p \<in> set (concat imms). entry_fits p"
    using holds by (simp_all add: lsm_holds_def sorted_wrt_append)
  moreover have "concat imms \<noteq> []" using holds ne by (cases imms) (auto simp: lsm_holds_def)
  ultimately obtain f meta R where f: "sst_build (lp_crc32 P) (lp_blake3 P) (lp_bloom_m P) (lp_bloom_k P) (lp_km P) (flush_entries (ls_immutable S)) = Inr (f, meta)"
    and R: "sst_open (lp_crc32 P) (lp_km P) f = Inr R" "table_newest_of P R (concat imms)"
    using flush_table_newest [OF mem _ _ _ km] small unfolding table_size_ok_def by fastforce
  define table where "table = \<lparr>sh_id = unat (ls_segment_counter S), sh_path = sst_path P (ls_next_seq_no S) (ls_segment_counter S), sh_reader = R\<rparr>"
  have tabs: "list_all2 (table_newest_of P) (map sh_reader (fst (ls_tables S) @ [table])) (tabs @ [concat imms])"
    using holds R(2) by (simp add: lsm_holds_def table_def list_all2_appendI)
  then have "sorted (map sh_max_seq (fst (ls_tables S) @ [table]))"
    by (rule tables_ordered) (use holds in \<open>simp add: lsm_holds_def\<close>)
  then have sort: "sort_key sh_max_seq (fst (ls_tables S) @ [table]) = fst (ls_tables S) @ [table]" by (rule sort_key_id_if_sorted)
  show ?thesis
  proof (cases r)
    case (Inl e)
    then have "S' = S\<lparr>ls_segment_counter := ls_segment_counter S + 1\<rparr>"
      using run f R(1) by (auto simp: flush_install_def Let_def split: sum.splits)
    then show ?thesis using holds Inl by (intro exI [of _ tabs] exI [of _ imms]) (simp add: lsm_holds_def visibility_grows_def)
  next
    case (Inr u)
    then have "fst (ls_tables S') = fst (ls_tables S) @ [table] \<and> ls_immutable S' = [] \<and> ls_memtable S' = ls_memtable S \<and>
        ls_next_seq_no S' = ls_next_seq_no S \<and> visibility_grows S S'"
      using run f R(1) sort by (auto simp: visibility_grows_def flush_install_def Let_def advance_visibility_def table_def split: sum.splits)
    then show ?thesis using holds tabs Inr
      by (intro exI [of _ "tabs @ [concat imms]"] exI [of _ "[]"]) (simp add: lsm_holds_def)
  qed
qed

lemma lsm_flush_holds:
  assumes holds: "lsm_holds P S tabs imms mem" and km: "km_opt_lawful (lp_km P)"
    and small: "table_size_ok P (to_flush S)"
    and run: "lsm_flush P S = (r, S')"
  shows "\<exists>tabs' imms' mem'. lsm_holds P S' tabs' imms' mem' \<and>
    concat tabs' @ concat imms' @ mem' = concat tabs @ concat imms @ mem \<and>
    (r = Inr () \<longrightarrow> imms' = [] \<and> mem' = [] \<and> tabs' = tabs @ (if concat imms @ mem = [] then [] else [concat imms @ mem])) \<and>
    ls_next_seq_no S' = ls_next_seq_no S \<and> visibility_grows S S'"
proof (cases "mt_is_empty (ls_memtable S) \<and> ls_immutable S = []")
  case True
  then have "S' = S" "mem = []" "imms = []" using run holds mt_reach_empty by (auto simp: lsm_flush_def lsm_holds_def)
  then show ?thesis using holds by (intro exI [of _ tabs] exI [of _ "[]"]) (simp add: visibility_grows_def)
next
  case False
  obtain r1 S1 where rot: "flush_rotate P S = (r1, S1)" by fastforce
  from flush_rotate_holds [OF holds rot] obtain imms1 mem1 where
    h1: "lsm_holds P S1 tabs imms1 mem1" "concat imms1 @ mem1 = concat imms @ mem"
      "r1 = Inr () \<longrightarrow> mem1 = [] \<and> ls_immutable S1 = to_flush S" "ls_next_seq_no S1 = ls_next_seq_no S"
      "ls_last_committed_tx S1 = ls_last_committed_tx S" by blast
  show ?thesis
  proof (cases r1)
    case (Inl e)
    then have "r = Inl e" "S' = S1" using run False rot by (auto simp: lsm_flush_def)
    with h1 show ?thesis by (intro exI [of _ tabs] exI [of _ imms1] exI [of _ mem1]) (simp add: visibility_grows_def)
  next
    case (Inr u)
    have inst: "flush_install P (\<not> mt_is_empty (ls_memtable S)) S1 = (r, S')"
      using run rot Inr False unfolding lsm_flush_def by (simp only: prod.case sum.case if_False)
    have m: "mem1 = []" "ls_immutable S1 = to_flush S" using h1(3) Inr by simp_all
    then have h: "lsm_holds P S1 tabs imms1 []" using h1(1) by simp
    have "ls_immutable S1 \<noteq> []" using False m(2) by (auto simp: to_flush_def)
    then have ne: "imms1 \<noteq> []" using h by (auto simp: lsm_holds_def)
    then have "concat imms1 \<noteq> []" using h by (cases imms1) (auto simp: lsm_holds_def)
    with flush_install_holds [OF h ne km _ inst] small m h1(2,4,5) show ?thesis
      by (fastforce simp: visibility_grows_def)
  qed
qed

lemma latest_put_narrow:
  assumes "latest_put Q ps = Some p" "P p" "\<And>p. P p \<Longrightarrow> Q p"
  shows "latest_put P ps = Some p"
proof -
  have ne: "filter Q ps \<noteq> []" and p: "last (filter Q ps) = p" using assms(1) by (auto simp: latest_put_def Let_def split: if_splits)
  have "(\<lambda>p. Q p \<and> P p) = P" using assms(3) by blast
  then have "filter P ps = filter P (filter Q ps)" by simp
  also have "filter Q ps = butlast (filter Q ps) @ [p]" using append_butlast_last_id [OF ne] unfolding p by (rule sym)
  finally show ?thesis using assms(2) by (simp add: latest_put_def del: filter_filter)
qed

lemma lsm_get_memtable:
  assumes holds: "lsm_holds P S tabs imms mem"
    and p: "latest_put (visible_put key q (ls_last_committed_tx S)) (concat imms @ mem) = Some p"
  shows "lsm_get_at_seq P key q S = rbind (validate_key key) (\<lambda>_. Inr (put_value p))"
proof -
  let ?tx = "ls_last_committed_tx S"
  have "list_all2 (\<lambda>T ps. mt_reach ps T) (ls_immutable S @ [ls_memtable S]) (imms @ [mem])"
    using holds by (simp add: lsm_holds_def list_all2_appendI)
  then have "read_memtables key q ?tx (ls_memtable S # rev (ls_immutable S)) = Some (put_value p)"
    using mem_layers.walk_newest [of "ls_immutable S @ [ls_memtable S]" "imms @ [mem]" key q ?tx] p by (simp add: read_memtables_hit)
  then show ?thesis by (cases "validate_key key") (auto simp: lsm_get_at_seq_def Let_def)
qed

text \<open>A table whose newest put of a key is hidden from the reader answers nothing.\<close>

lemma table_hides:
  assumes holds: "table_newest_of P R ps" and hid: "\<And>p. latest_put (\<lambda>p. fst p = key) ps = Some p \<Longrightarrow> tx < entry_tx p \<or> q < entry_seq p"
  shows "table_hit P key q tx R = None"
proof (cases "latest_put (\<lambda>p. fst p = key) ps")
  case None
  then show ?thesis using table_newest_of_get [OF holds, of key] by (simp add: table_hit_def)
next
  case (Some p)
  obtain k v s t where "p = (k, v, s, t)" by (cases p) auto
  then show ?thesis using table_newest_of_get [OF holds, of key] Some hid [OF Some] by (auto simp: table_hit_def)
qed

lemma first_hit_None: "\<forall>l \<in> set ls. hit l = None \<Longrightarrow> first_hit hit ls = None"
  by (induction ls) auto

lemma lsm_get_hidden:
  assumes holds: "lsm_holds P S tabs [] []"
    and hid: "\<And>ps p. ps \<in> set tabs \<Longrightarrow> latest_put (\<lambda>p. fst p = key) ps = Some p \<Longrightarrow>
      ls_last_committed_tx S < entry_tx p \<or> q < entry_seq p"
    and key: "validate_key key = Inr ()"
  shows "lsm_get_at_seq P key q S = Inr None"
proof -
  let ?q = "q" and ?tx = "ls_last_committed_tx S" and ?Rs = "map sh_reader (fst (ls_tables S))"
  have tabs: "list_all2 (table_newest_of P) ?Rs tabs" and mem: "ls_immutable S = []" "mt_reach [] (ls_memtable S)"
    using holds by (simp_all add: lsm_holds_def)
  have m: "read_memtables key ?q ?tx [ls_memtable S] = None"
    using mem_layers.hit_newest [OF mem(2), of key ?q ?tx] by (simp add: read_memtables_hit)
  have "table_hit P key ?q ?tx R = None" if R: "R \<in> set ?Rs" for R
  proof -
    obtain i where i: "i < length ?Rs" "R = ?Rs ! i" using R unfolding in_set_conv_nth by blast
    then have "table_newest_of P R (tabs ! i)" "tabs ! i \<in> set tabs"
      using list_all2_nthD [OF tabs i(1)] list_all2_lengthD [OF tabs] by simp_all
    then show ?thesis using table_hides hid by blast
  qed
  then have "first_hit (table_hit P key ?q ?tx) (rev ?Rs) = None" by (intro first_hit_None) simp
  moreover have "list_all2 (table_newest_of P) (rev ?Rs) (rev tabs)" using tabs by (simp only: list_all2_rev)
  ultimately have "read_sstables P key ?q ?tx (rev ?Rs) = Inr None"
    using read_sstables_hit [of P "rev ?Rs" "rev tabs" key ?q ?tx] by simp
  with m key mem(1) show ?thesis by (simp add: lsm_get_at_seq_def Let_def)
qed

section \<open>Properties\<close>


lemma flush_example_size:
  "case sst_build (\<lambda>d. 0) (\<lambda>d. []) 64 1 (Some km_plain) [([1], [2], 3, t)] of
     Inr (f, meta) \<Rightarrow> length f < 1000 | Inl e \<Rightarrow> False"
  by (simp add: sst_build_def sst_create_def sst_add_def sst_finish_def flush_block_def block_add_def
      block_builder_new_def BLOCK_SIZE_def MAX_VALUE_SIZE_def bloom_insert_def bloom_new_def clamp_def
      BLOOM_MAX_BITS_def next_multiple_of_def bloom_bit_idx_def hash_pair_def bloom_set_bit_def
      block_is_empty_def update_bloom_def block_build_def encode_entry_def with_crc_def km_plain_def
      index_entry_def bloom_to_bytes_def Let_def)

definition example_lsm_params :: lsm_params where
  "example_lsm_params =
     \<lparr>lp_wal = \<lparr>wp_encryption = False, wp_hmac = (\<lambda>k d. replicate 32 0), wp_crc32 = (\<lambda>d. 0)\<rparr>, lp_crc32 = (\<lambda>d. 0),
      lp_blake3 = (\<lambda>d. []), lp_hash = (\<lambda>k. 0), lp_scale = (\<lambda>p x. x), lp_bloom_m = 64, lp_bloom_k = 1,
      lp_km = Some km_plain, lp_path = [], lp_memtable_size_limit = 1000, lp_wal_keys = (\<lambda>n. (None, replicate 32 0))\<rparr>"

definition example_wal :: wal where
  "example_wal = \<lparr>wl_file = [], wl_size = 0, wl_header_written = False, wl_km = None, wl_integrity_key = Some (replicate 32 0),
     wl_allow_legacy = False, wl_last_hmac = zero_hmac, wl_sealed = False, wl_poisoned = False, wl_enc_calls = 0\<rparr>"

text \<open>One put, by the given transaction, in the memtable.\<close>

definition example_lsm :: "tx_id \<Rightarrow> lsm" where
  "example_lsm tx =
     \<lparr>ls_memtable = mt_put [1] [2] 3 tx mem_table_new, ls_immutable = [], ls_tables = ([], None), ls_tx_buffer = tx_buffer_new,
      ls_budget = resource_tracker_new 0, ls_drift = 0, ls_wal = example_wal, ls_old_wals = [], ls_next_seq_no = 4,
      ls_last_committed_tx = 4, ls_flush_counter = 1, ls_segment_counter = 0, ls_intent_locks = []\<rparr>"

lemma example_lsm_flush:
  "lsm_holds example_lsm_params (example_lsm t) [] [] [([1], [2], 3, t)]" (is ?holds)
  "km_opt_lawful (lp_km example_lsm_params)" "table_size_ok example_lsm_params (to_flush (example_lsm t))"
  "\<exists>S'. lsm_flush example_lsm_params (example_lsm t) = (Inr (), S')"
proof -
  have reach: "mt_reach [([1], [2], 3, t)] (mt_put [1] [2] 3 t mem_table_new)" using mt_reach_put [OF mt_reach_new, of "[1]" 3 "[2]" t] by simp
  then show holds: ?holds by (simp add: lsm_holds_def example_lsm_def entry_fits_def MAX_VALUE_SIZE_def)
  have ne: "\<not> mt_is_empty (mt_put [1] [2] 3 t mem_table_new)" using mt_reach_empty [OF reach] by simp
  have es: "flush_entries [mt_put [1] [2] 3 t mem_table_new] = [([1], [2], 3, t)]"
    using mt_iter_latest_spec [OF reach] by (simp add: flush_entries_def puts_of_def)
  show km: "km_opt_lawful (lp_km example_lsm_params)" using plain.lawful by (simp add: km_opt_lawful_def example_lsm_params_def)
  show size: "table_size_ok example_lsm_params (to_flush (example_lsm t))"
    using flush_example_size [of t] ne es by (auto simp: table_size_ok_def to_flush_def example_lsm_def example_lsm_params_def split: sum.splits)
  from flush_table_newest [of "[mt_put [1] [2] 3 t mem_table_new]" "[[([1], [2], 3, t)]]" example_lsm_params] reach km obtain f meta where
    f: "sst_build (\<lambda>d. 0) (\<lambda>d. []) 64 1 (Some km_plain) [([1], [2], 3, t)] = Inr (f, meta)"
      "length f < 2 ^ 64 \<longrightarrow> (\<exists>R. sst_open (\<lambda>d. 0) (Some km_plain) f = Inr R)"
    by (auto simp: es example_lsm_params_def entry_fits_def MAX_VALUE_SIZE_def)
  moreover have "length f < 2 ^ 64" using flush_example_size [of t] f(1) by simp
  ultimately obtain R where "sst_open (\<lambda>d. 0) (Some km_plain) f = Inr R" by blast
  then show "\<exists>S'. lsm_flush example_lsm_params (example_lsm t) = (Inr (), S')"
    using f(1) ne es by (simp add: lsm_flush_def flush_rotate_def flush_install_def wal_open_def example_lsm_params_def example_lsm_def Let_def)
qed


text \<open>
  A write of an internal transaction (one numbered at or above \<open>INTERNAL_BASE\<close>) that a read
  returns from the memtable disappears from reads with the next successful flush: the memtable
  makes internal transactions visible to everyone, the read of the tables compares the number with
  the last committed transaction, which never reaches \<open>INTERNAL_BASE\<close>.
\<close>

theorem flush_hides_internal_writes:
  assumes holds: "lsm_holds P S tabs imms mem" and km: "km_opt_lawful (lp_km P)"
    and small: "table_size_ok P (to_flush S)"
    and new: "latest_put (\<lambda>p. fst p = key) (concat imms @ mem) = Some (key, v, s, t)" "key \<notin> fst ` set (concat tabs)"
    and int: "INTERNAL_BASE \<le> t" "ls_last_committed_tx S < INTERNAL_BASE" "raw_seq s \<le> ls_next_seq_no S" "\<not> is_tombstone s"
    and run: "lsm_flush P S = (Inr (), S')"
  shows "lsm_get P key S = Inr (Some v) \<and> lsm_get P key S' = Inr None"
proof -
  have inl: "(key, v, s, t) \<in> set (concat imms @ mem)" using latest_put_in [OF new(1)] by blast
  then have "entry_fits (key, v, s, t)" using holds unfolding lsm_holds_def set_append by blast
  then have key: "validate_key key = Inr ()" by (simp add: validate_key_def entry_fits_def MAX_KEY_SIZE_def)
  have "visible_put key (ls_next_seq_no S) (ls_last_committed_tx S) (key, v, s, t)"
    using int by (simp add: visible_put_def tx_visible_def)
  with new(1) have "latest_put (visible_put key (ls_next_seq_no S) (ls_last_committed_tx S)) (concat imms @ mem) = Some (key, v, s, t)"
    by (rule latest_put_narrow) (simp add: visible_put_def)
  from lsm_get_memtable [OF holds this] key int(4) have a: "lsm_get P key S = Inr (Some v)"
    unfolding lsm_get_at by (simp add: live_value_def)
  have ne: "concat imms @ mem \<noteq> []" using inl by (metis empty_iff empty_set)
  from lsm_flush_holds [OF holds km small run] int(2) have
    h: "lsm_holds P S' (tabs @ [concat imms @ mem]) [] []" "ls_last_committed_tx S' < INTERNAL_BASE"
    unfolding visibility_grows_def if_not_P [OF ne] by (metis, metis)
  have "lsm_get P key S' = Inr None" unfolding lsm_get_at
  proof (rule lsm_get_hidden [OF h(1) _ key])
    fix ps p assume ps: "ps \<in> set (tabs @ [concat imms @ mem])" "latest_put (\<lambda>p. fst p = key) ps = Some p"
    have "ps \<notin> set tabs" using new(2) latest_put_in [OF ps(2)] by auto
    then have "p = (key, v, s, t)" using ps new(1) by simp
    then show "ls_last_committed_tx S' < entry_tx p \<or> ls_next_seq_no S' < entry_seq p"
      using less_le_trans [OF h(2) int(1)] by simp
  qed
  with a show ?thesis by blast
qed

theorem flush_hides_internal_writes_witness:
  "\<exists>S'. lsm_flush example_lsm_params (example_lsm (INTERNAL_BASE + 1)) = (Inr (), S') \<and>
     lsm_get example_lsm_params [1] (example_lsm (INTERNAL_BASE + 1)) = Inr (Some [2]) \<and> lsm_get example_lsm_params [1] S' = Inr None"
proof -
  obtain S' where S': "lsm_flush example_lsm_params (example_lsm (INTERNAL_BASE + 1)) = (Inr (), S')" using example_lsm_flush(4) by blast
  have "latest_put (\<lambda>p. fst p = [1]) (concat [] @ [([1], [2], 3, INTERNAL_BASE + 1)]) = Some ([1], [2], 3, INTERNAL_BASE + 1)"
    by (simp add: latest_put_def)
  from flush_hides_internal_writes [OF example_lsm_flush(1-3) this _ _ _ _ _ S'] S' show ?thesis
    by (simp add: INTERNAL_BASE_def example_lsm_def raw_seq_def is_tombstone_def TOMBSTONE_BIT_def)
qed

text \<open>
  A read below the newest put of its key loses its value with the next successful flush: the
  memtable has the older version, the flush writes only the newest one, and the read of the table
  skips that one as too new.
\<close>

lemma flush_loses_older_versions:
  assumes holds: "lsm_holds P S tabs imms mem" and km: "km_opt_lawful (lp_km P)"
    and small: "table_size_ok P (to_flush S)"
    and old: "latest_put (visible_put key q (ls_last_committed_tx S)) (concat imms @ mem) = Some (key, v, s, t)" "\<not> is_tombstone s"
    and new: "latest_put (\<lambda>p. fst p = key) (concat imms @ mem) = Some p" "q < entry_seq p" "key \<notin> fst ` set (concat tabs)"
    and run: "lsm_flush P S = (Inr (), S')"
  shows "lsm_get_at_seq P key q S = Inr (Some v) \<and> lsm_get_at_seq P key q S' = Inr None"
proof -
  have inl: "(key, v, s, t) \<in> set (concat imms @ mem)" using latest_put_in [OF old(1)] by blast
  then have "entry_fits (key, v, s, t)" using holds unfolding lsm_holds_def set_append by blast
  then have key: "validate_key key = Inr ()" by (simp add: validate_key_def entry_fits_def MAX_KEY_SIZE_def)
  from lsm_get_memtable [OF holds old(1)] key old(2) have a: "lsm_get_at_seq P key q S = Inr (Some v)"
    by (simp add: live_value_def)
  have ne: "concat imms @ mem \<noteq> []" using inl by (metis empty_iff empty_set)
  from lsm_flush_holds [OF holds km small run] have h: "lsm_holds P S' (tabs @ [concat imms @ mem]) [] []"
    unfolding if_not_P [OF ne] by metis
  have "lsm_get_at_seq P key q S' = Inr None"
  proof (rule lsm_get_hidden [OF h _ key])
    fix ps p' assume ps: "ps \<in> set (tabs @ [concat imms @ mem])" "latest_put (\<lambda>p. fst p = key) ps = Some p'"
    have "ps \<notin> set tabs" using new(3) latest_put_in [OF ps(2)] by auto
    then show "ls_last_committed_tx S' < entry_tx p' \<or> q < entry_seq p'" using ps new(1,2) by simp
  qed
  with a show ?thesis by blast
qed

end
