(* ===== verification/Lsm_Scan.thy ===== *)
theory Lsm_Scan
  imports Lsm_Reads
begin

text \<open>
  Scans of the storage engine, \<open>crates/contextra-store/src/lsm/scan.rs\<close> and \<open>ops/read.rs\<close>: tables,
  immutable memtables and the active memtable are merged into one map, from which tombstones are
  dropped and pages are cut. Proved is that a scan returns the newest live value of every key in its
  range in order, and that following the cursors from page to page returns the same, or fails with
  \<open>LimitExceeded\<close> when the range has more keys than the merge admits.
\<close>

section \<open>Collecting the visible entries\<close>

datatype scan_mode = ScanPrefix bytes | ScanRange key_bound key_bound

definition check_in_range :: "bytes \<Rightarrow> key_bound \<Rightarrow> key_bound \<Rightarrow> bool" where
  "check_in_range k start stop \<longleftrightarrow>
     (case start of Included s \<Rightarrow> s \<le> k | Excluded s \<Rightarrow> s < k | Unbounded \<Rightarrow> True) \<and>
     (case stop of Included e \<Rightarrow> k \<le> e | Excluded e \<Rightarrow> k < e | Unbounded \<Rightarrow> True)"

definition MAX_SCAN_MERGE_ACCUMULATOR :: nat where "MAX_SCAN_MERGE_ACCUMULATOR = 100000"

type_synonym entry_filter = "bytes \<Rightarrow> u64 \<Rightarrow> u64 \<Rightarrow> bool"

text \<open>A table whose keys all lie outside the prefix is not read.\<close>

definition prefix_skips :: "bytes \<Rightarrow> sst_reader \<Rightarrow> bool" where
  "prefix_skips pfx R =
     (let first = sm_first_key (rd_metadata R); last_key = sm_last_key (rd_metadata R)
      in first \<noteq> [] \<and> last_key \<noteq> [] \<and>
         (last_key < pfx \<or>
          (pfx \<noteq> [] \<and> last pfx \<noteq> 255 \<and> butlast pfx @ [last pfx + 1] \<le> first)))"

definition table_entries :: "lsm_params \<Rightarrow> scan_mode \<Rightarrow> sst_reader \<Rightarrow> kv_entry list res" where
  "table_entries P mode R =
     (case mode of
        ScanPrefix pfx \<Rightarrow> if prefix_skips pfx R then Inr [] else sst_scan_prefix (lp_crc32 P) R pfx
      | ScanRange start stop \<Rightarrow> sst_scan_range (lp_crc32 P) R start stop)"

fun merge_table ::
    "entry_filter \<Rightarrow> bool \<Rightarrow> nat option \<Rightarrow> tx_id \<Rightarrow> kv_entry list \<Rightarrow> nat \<Rightarrow> scan_target \<Rightarrow> scan_target res" where
  "merge_table flt check lim last_tx [] source_count target = Inr target"
| "merge_table flt check lim last_tx ((k, v, seq, tx) # es) source_count target =
     (if (tx \<le> last_tx \<or> INTERNAL_BASE \<le> tx) \<and> flt k (raw_seq seq) tx
      then let target' = merge_entry k (v, seq) target
           in if check \<and> MAX_SCAN_MERGE_ACCUMULATOR < length target' then Inl (LimitExceeded MAX_SCAN_MERGE_ACCUMULATOR)
              else if (case lim of None \<Rightarrow> False | Some l \<Rightarrow> l \<le> source_count + 1) then Inr target'
              else merge_table flt check lim last_tx es (source_count + 1) target'
      else merge_table flt check lim last_tx es source_count target)"

fun scan_tables ::
    "lsm_params \<Rightarrow> scan_mode \<Rightarrow> entry_filter \<Rightarrow> bool \<Rightarrow> nat option \<Rightarrow> tx_id \<Rightarrow> sst_reader list \<Rightarrow> scan_target \<Rightarrow> scan_target res" where
  "scan_tables P mode flt check lim last_tx [] target = Inr target"
| "scan_tables P mode flt check lim last_tx (R # Rs) target =
     rbind (table_entries P mode R) (\<lambda>es.
     rbind (merge_table flt check lim last_tx es 0 target) (\<lambda>target'.
     scan_tables P mode flt check lim last_tx Rs target'))"

text \<open>The whole range is read by iteration over all versions.\<close>

definition merge_visible :: "entry_filter \<Rightarrow> tx_id \<Rightarrow> kv_entry \<Rightarrow> scan_target \<Rightarrow> scan_target" where
  "merge_visible flt last_tx e target =
     (case e of (k, v, seq, tx) \<Rightarrow>
        if last_tx < tx \<and> tx < INTERNAL_BASE then target
        else if flt k (raw_seq seq) tx then merge_entry k (v, seq) target else target)"

definition scan_memtable :: "scan_mode \<Rightarrow> entry_filter \<Rightarrow> tx_id \<Rightarrow> mem_table \<Rightarrow> scan_target \<Rightarrow> scan_target res" where
  "scan_memtable mode flt last_tx T target =
     (case mode of
        ScanPrefix pfx \<Rightarrow> Inr (mt_scan_prefix_into_matching pfx (- 1) last_tx flt T target)
      | ScanRange Unbounded Unbounded \<Rightarrow> Inr (fold (merge_visible flt last_tx) (mt_iter T) target)
      | ScanRange start stop \<Rightarrow> mt_scan_range_into_matching start stop (- 1) last_tx flt T target)"

fun scan_memtables ::
    "scan_mode \<Rightarrow> entry_filter \<Rightarrow> bool \<Rightarrow> tx_id \<Rightarrow> mem_table list \<Rightarrow> scan_target \<Rightarrow> scan_target res" where
  "scan_memtables mode flt check last_tx [] target = Inr target"
| "scan_memtables mode flt check last_tx (T # Ts) target =
     rbind (scan_memtable mode flt last_tx T target) (\<lambda>target'.
       if check \<and> MAX_SCAN_MERGE_ACCUMULATOR < length target' then Inl (LimitExceeded MAX_SCAN_MERGE_ACCUMULATOR)
       else scan_memtables mode flt check last_tx Ts target')"

definition collect_visible_entries ::
    "lsm_params \<Rightarrow> scan_mode \<Rightarrow> entry_filter \<Rightarrow> bool \<Rightarrow> nat option \<Rightarrow> lsm \<Rightarrow> scan_target res" where
  "collect_visible_entries P mode flt check per_source_limit S =
     rbind (scan_tables P mode flt check per_source_limit (ls_last_committed_tx S) (map sh_reader (fst (ls_tables S))) [])
       (\<lambda>target. scan_memtables mode flt check (ls_last_committed_tx S) (ls_immutable S @ [ls_memtable S]) target)"

section \<open>Scans\<close>

definition live_entries_of :: "scan_target \<Rightarrow> (bytes \<times> bytes) list" where
  "live_entries_of target = map (\<lambda>(k, v, s). (k, v)) (filter (\<lambda>(k, v, s). \<not> is_tombstone s) target)"

text \<open>The loop that fills a page and stops when it is full; what it leaves is returned too.\<close>

fun fill_page :: "nat \<Rightarrow> scan_target \<Rightarrow> (bytes \<times> bytes) list \<Rightarrow> (bytes \<times> bytes) list \<times> scan_target" where
  "fill_page limit [] results = (results, [])"
| "fill_page limit ((k, v, seq) # rest) results =
     (if is_tombstone seq then fill_page limit rest results
      else let results' = results @ [(k, v)]
           in if length results' = limit then (results', rest) else fill_page limit rest results')"

definition page_of :: "nat \<Rightarrow> scan_target \<Rightarrow> (bytes \<times> bytes) list \<times> bytes option" where
  "page_of limit target =
     (case fill_page limit target [] of (results, rest) \<Rightarrow>
        (results,
         if length results = limit \<and> (\<exists>x \<in> set rest. \<not> is_tombstone (snd (snd x)))
         then (if results = [] then None else Some (fst (last results))) else None))"

definition lsm_scan_prefix_at :: "lsm_params \<Rightarrow> bytes \<Rightarrow> u64 \<Rightarrow> lsm \<Rightarrow> (bytes \<times> bytes) list res" where
  "lsm_scan_prefix_at P pfx seq_no S =
     rbind (collect_visible_entries P (ScanPrefix pfx) (\<lambda>k s t. s \<le> seq_no \<and> starts_with pfx k) False None S)
       (\<lambda>target. Inr (live_entries_of target))"

definition lsm_scan_prefix :: "lsm_params \<Rightarrow> bytes \<Rightarrow> lsm \<Rightarrow> (bytes \<times> bytes) list res" where
  "lsm_scan_prefix P pfx S = lsm_scan_prefix_at P pfx (- 1) S"

definition lsm_scan_prefix_bounded ::
    "lsm_params \<Rightarrow> bytes \<Rightarrow> nat \<Rightarrow> bytes option \<Rightarrow> lsm \<Rightarrow> ((bytes \<times> bytes) list \<times> bytes option) res" where
  "lsm_scan_prefix_bounded P pfx limit cursor S =
     rbind (collect_visible_entries P (ScanPrefix pfx)
              (\<lambda>k s t. \<not> (case cursor of None \<Rightarrow> False | Some c \<Rightarrow> k \<le> c) \<and> starts_with pfx k) True None S)
       (\<lambda>target. Inr (page_of limit (filter (\<lambda>x. case cursor of None \<Rightarrow> True | Some c \<Rightarrow> c < fst x) target)))"

definition lsm_scan_bounded ::
    "lsm_params \<Rightarrow> key_bound \<Rightarrow> key_bound \<Rightarrow> nat \<Rightarrow> bytes option \<Rightarrow> lsm \<Rightarrow> ((bytes \<times> bytes) list \<times> bytes option) res" where
  "lsm_scan_bounded P start stop limit cursor S =
     (let effective_start = (case cursor of Some c \<Rightarrow> Excluded c | None \<Rightarrow> start)
      in rbind (collect_visible_entries P (ScanRange effective_start stop)
                  (\<lambda>k s t. check_in_range k effective_start stop) True None S)
           (\<lambda>target. Inr (page_of limit target)))"

definition lsm_scan ::
    "lsm_params \<Rightarrow> key_bound \<Rightarrow> key_bound \<Rightarrow> nat option \<Rightarrow> lsm \<Rightarrow> (bytes \<times> bytes) list res" where
  "lsm_scan P start stop limit S =
     rbind (collect_visible_entries P (ScanRange start stop) (\<lambda>k s t. check_in_range k start stop) False limit S)
       (\<lambda>target. Inr (case limit of None \<Rightarrow> live_entries_of target | Some lim \<Rightarrow> fst (fill_page lim target [])))"

definition lsm_delete_prefix :: "lsm_params \<Rightarrow> tx_id \<Rightarrow> bytes \<Rightarrow> instant \<Rightarrow> lsm \<Rightarrow> u64 res \<times> lsm" where
  "lsm_delete_prefix P tx pfx now S =
     (case lsm_scan_prefix P pfx S of
        Inl e \<Rightarrow> (Inl e, S)
      | Inr kvs \<Rightarrow> lsm_delete_many P tx (map fst kvs) now S)"

section \<open>Statistics\<close>

definition lsm_stats :: "lsm \<Rightarrow> nat \<times> nat \<times> nat" where
  "lsm_stats S =
     (length (fst (ls_tables S)), sum_list (map (\<lambda>h. sm_file_size (rd_metadata (sh_reader h))) (fst (ls_tables S))),
      mt_size (ls_memtable S) + sum_list (map mt_size (ls_immutable S)))"

definition last_seq_no :: "lsm \<Rightarrow> u64" where
  "last_seq_no S = sat_sub (ls_next_seq_no S) 1"

text \<open>The counters of a lookup; the only failure is a panic of the bloom filter.\<close>

fun point_lookup_tables ::
    "lsm_params \<Rightarrow> bytes \<Rightarrow> sst_reader list \<Rightarrow> nat \<times> nat \<times> nat \<times> nat \<times> bool \<Rightarrow> (nat \<times> nat \<times> nat \<times> nat \<times> bool) res" where
  "point_lookup_tables P key [] acc = Inr acc"
| "point_lookup_tables P key (R # Rs) (e, b, r, k, found) =
     rbind (lookup_metrics (lp_crc32 P) (lp_blake3 P) R key) (\<lambda>(b_pass, r_pass, blk_read, k_found).
       let acc = (e + 1, b + (if b_pass then 1 else 0), r + (if r_pass then 1 else 0), k + (if blk_read then 1 else 0), found \<or> k_found)
       in if k_found then Inr acc else point_lookup_tables P key Rs acc)"

definition point_lookup_metrics :: "lsm_params \<Rightarrow> bytes \<Rightarrow> lsm \<Rightarrow> (nat \<times> nat \<times> nat \<times> nat \<times> bool) res" where
  "point_lookup_metrics P key S = point_lookup_tables P key (rev (map sh_reader (fst (ls_tables S)))) (0, 0, 0, 0, False)"

section \<open>Sources of a scan\<close>

text \<open>What a scan should find for a key among the puts of the history.\<close>

definition put_pair :: "kv_entry \<Rightarrow> bytes \<times> u64" where
  "put_pair p = (fst (snd p), fst (snd (snd p)))"

definition scan_spec :: "(bytes \<Rightarrow> bool) \<Rightarrow> kv_entry list \<Rightarrow> bytes \<Rightarrow> (bytes \<times> u64) option" where
  "scan_spec Q ps k = (if Q k then map_option put_pair (latest_put (\<lambda>p. fst p = k) ps) else None)"

definition scan_holds :: "(bytes \<Rightarrow> bool) \<Rightarrow> kv_entry list \<Rightarrow> scan_target \<Rightarrow> bool" where
  "scan_holds Q ps target \<longleftrightarrow> bt_wf target \<and> (\<forall>k. map_of target k = scan_spec Q ps k)"

lemma raw_put_pair [simp]: "raw_seq (snd (put_pair p)) = entry_seq p"
  by (cases p) (simp add: put_pair_def)

text \<open>Merging a later part of the history.\<close>

lemma scan_holds_merge:
  assumes old: "scan_holds Q hs target" and asc: "sorted_wrt (<) (map entry_seq (hs @ ps))"
    and new: "bt_wf target'" "\<And>k. map_of target' k = newer (map_of target k) (scan_spec Q ps k)"
  shows "scan_holds Q (hs @ ps) target'"
proof -
  have "newer (scan_spec Q hs k) (scan_spec Q ps k) = scan_spec Q (hs @ ps) k" for k
  proof (cases "latest_put (\<lambda>p. fst p = k) ps")
    case None
    then show ?thesis by (simp add: scan_spec_def latest_put_append)
  next
    case (Some p)
    show ?thesis
    proof (cases "latest_put (\<lambda>p. fst p = k) hs")
      case None
      then show ?thesis using Some by (simp add: scan_spec_def latest_put_append)
    next
      case old: (Some q)
      have "q \<in> set hs" "p \<in> set ps" using latest_put_in [OF old] latest_put_in [OF Some] by simp_all
      then have "entry_seq q < entry_seq p" using asc by (simp only: map_append sorted_wrt_append set_map) blast
      then show ?thesis using Some old by (simp add: scan_spec_def latest_put_append)
    qed
  qed
  then show ?thesis using old new unfolding scan_holds_def by simp
qed

fun merge_all :: "('s \<Rightarrow> scan_target \<Rightarrow> scan_target res) \<Rightarrow> 's list \<Rightarrow> scan_target \<Rightarrow> scan_target res" where
  "merge_all merge [] target = Inr target"
| "merge_all merge (s # ss) target = rbind (merge s target) (merge_all merge ss)"

text \<open>
  The interface of a source: when it is merged into a map, the newest put it holds of every key of
  the scan replaces an older one.
\<close>

locale scan_source =
  fixes merge :: "'s \<Rightarrow> scan_target \<Rightarrow> scan_target res" and holds :: "'s \<Rightarrow> kv_entry list \<Rightarrow> bool" and Q :: "bytes \<Rightarrow> bool"
  assumes merge_newer: "holds s ps \<Longrightarrow> bt_wf target \<Longrightarrow> merge s target = Inr target' \<Longrightarrow>
    bt_wf target' \<and> map_of target' k = newer (map_of target k) (scan_spec Q ps k)"
begin

lemma merge_all_holds:
  assumes "list_all2 holds ss pss" "scan_holds Q hs target" "sorted_wrt (<) (map entry_seq (hs @ concat pss))"
    and "merge_all merge ss target = Inr target'"
  shows "scan_holds Q (hs @ concat pss) target'"
  using assms
proof (induction ss pss arbitrary: hs target rule: list_all2_induct)
  case (Cons s ss ps pss)
  obtain t where t: "merge s target = Inr t" "merge_all merge ss t = Inr target'"
    using Cons.prems(3) by (auto simp: rbind_eq_Inr)
  have "bt_wf target" using Cons.prems(1) by (simp add: scan_holds_def)
  note m = merge_newer [OF Cons.hyps(1) this t(1)]
  have "scan_holds Q (hs @ ps) t"
    by (rule scan_holds_merge [OF Cons.prems(1)]) (use Cons.prems(2) m in \<open>simp_all add: sorted_wrt_append\<close>)
  from Cons.IH [OF this _ t(2)] Cons.prems(2) show ?case by simp
qed simp

end

text \<open>A source whose merge does not fail on maps of a kind that it keeps.\<close>

locale total_source = scan_source +
  fixes ok :: "scan_target \<Rightarrow> bool"
  assumes merge_total: "holds s ps \<Longrightarrow> ok target \<Longrightarrow> \<exists>target'. merge s target = Inr target' \<and> ok target'"
begin

lemma merge_all_total: "list_all2 holds ss pss \<Longrightarrow> ok target \<Longrightarrow> \<exists>target'. merge_all merge ss target = Inr target' \<and> ok target'"
proof (induction ss pss arbitrary: target rule: list_all2_induct)
  case (Cons s ss ps pss)
  obtain t where t: "merge s target = Inr t" "ok t" using merge_total [OF Cons.hyps(1) Cons.prems] by blast
  then show ?case using Cons.IH [of t] by simp
qed simp

end

text \<open>
  With the limit checked, the map stays below it when the scan covers few keys; \<open>K\<close> is the set of
  these keys.
\<close>

definition scanned_keys :: "(bytes \<Rightarrow> bool) \<Rightarrow> kv_entry list \<Rightarrow> bytes set" where
  "scanned_keys Q ps = {k \<in> fst ` set ps. Q k}"

definition few_keys :: "bool \<Rightarrow> bytes set \<Rightarrow> (bytes \<Rightarrow> bool) \<Rightarrow> kv_entry list \<Rightarrow> bool" where
  "few_keys check K Q ps \<longleftrightarrow> (check \<longrightarrow> scanned_keys Q ps \<subseteq> K \<and> finite K \<and> card K \<le> MAX_SCAN_MERGE_ACCUMULATOR)"

lemma few_keys_mono: "few_keys check K Q ps \<Longrightarrow> set qs \<subseteq> set ps \<Longrightarrow> few_keys check K Q qs"
  unfolding few_keys_def scanned_keys_def by blast

lemma finite_scanned_keys [simp]: "finite (scanned_keys Q ps)"
  by (simp add: scanned_keys_def)

lemma latest_put_key: "latest_put (\<lambda>p. fst p = k) ps = None \<longleftrightarrow> k \<notin> fst ` set ps"
  unfolding latest_put_None by blast

definition target_ok :: "bool \<Rightarrow> bytes set \<Rightarrow> scan_target \<Rightarrow> bool" where
  "target_ok check K target \<longleftrightarrow> bt_wf target \<and> (check \<longrightarrow> fst ` set target \<subseteq> K)"

lemma target_ok_length:
  assumes "target_ok check K target" "few_keys check K Q ps" "check"
  shows "length target \<le> MAX_SCAN_MERGE_ACCUMULATOR"
proof -
  have "length target = card (fst ` set target)"
    using assms(1) bt_wf_distinct [of target] distinct_card [of "map fst target"] by (simp add: target_ok_def)
  also have "\<dots> \<le> card K" using assms by (auto simp: target_ok_def few_keys_def intro: card_mono)
  finally show ?thesis using assms(2,3) by (simp add: few_keys_def)
qed

text \<open>Merging keeps the map within the keys.\<close>

lemma target_ok_newer:
  assumes "target_ok check K target" "few_keys check K Q ps" "bt_wf target'"
    and new: "\<And>k. map_of target' k = newer (map_of target k) (scan_spec Q ps k)"
  shows "target_ok check K target'"
proof -
  have "k \<in> K" if check "k \<in> fst ` set target'" for k
  proof -
    have "map_of target' k \<noteq> None" using that(2) by (simp add: map_of_eq_None_iff)
    then have "map_of target k \<noteq> None \<or> scan_spec Q ps k \<noteq> None" unfolding new by (cases "scan_spec Q ps k") auto
    then have "k \<in> fst ` set target \<or> k \<in> scanned_keys Q ps"
      unfolding map_of_eq_None_iff scan_spec_def scanned_keys_def
      by (metis (mono_tags, lifting) latest_put_key mem_Collect_eq option.map_disc_iff)
    then show ?thesis using assms(1,2) that(1) unfolding target_ok_def few_keys_def by blast
  qed
  then show ?thesis using assms(3) by (auto simp: target_ok_def)
qed

section \<open>Memtables as sources\<close>

definition in_mode :: "scan_mode \<Rightarrow> bytes \<Rightarrow> bool" where
  "in_mode mode k = (case mode of ScanPrefix p \<Rightarrow> starts_with p k | ScanRange start stop \<Rightarrow> above start k \<and> below stop k)"

text \<open>The mode covers the keys of the scan, and \<open>BTreeMap::range\<close> accepts its bounds.\<close>

definition mode_ok :: "scan_mode \<Rightarrow> (bytes \<Rightarrow> bool) \<Rightarrow> bool" where
  "mode_ok mode Q \<longleftrightarrow> (\<forall>k. Q k \<longrightarrow> in_mode mode k) \<and>
     (case mode of ScanPrefix p \<Rightarrow> True | ScanRange start stop \<Rightarrow> \<not> range_panics start stop)"

text \<open>All puts are visible, and the filter selects by key.\<close>

definition scan_sees :: "entry_filter \<Rightarrow> tx_id \<Rightarrow> (bytes \<Rightarrow> bool) \<Rightarrow> kv_entry list \<Rightarrow> bool" where
  "scan_sees flt last_tx Q ps \<longleftrightarrow>
     (\<forall>p \<in> set ps. tx_visible last_tx (entry_tx p) \<and> flt (fst p) (entry_seq p) (entry_tx p) = Q (fst p))"

lemma scan_sees_append: "scan_sees flt last_tx Q (ps @ qs) \<longleftrightarrow> scan_sees flt last_tx Q ps \<and> scan_sees flt last_tx Q qs"
  by (auto simp: scan_sees_def)

abbreviation fold_newer :: "kv_entry list \<Rightarrow> (bytes \<times> u64) option \<Rightarrow> (bytes \<times> u64) option" where
  "fold_newer \<equiv> fold (\<lambda>e acc. newer acc (Some (put_pair e)))"

lemma fold_newer_ascending:
  "sorted_wrt (<) (map entry_seq es) \<Longrightarrow> fold_newer es old = (if es = [] then old else newer old (Some (put_pair (last es))))"
proof (induction es arbitrary: old)
  case (Cons e es)
  have "newer (newer old (Some (put_pair e))) (Some (put_pair (last es))) = newer old (Some (put_pair (last es)))" if "es \<noteq> []"
  proof -
    have "entry_seq e < entry_seq (last es)" using Cons.prems that by simp
    then show ?thesis by (cases old) auto
  qed
  with Cons show ?case by simp
qed simp

lemma fold_merge_visible:
  assumes "bt_wf target"
  shows "bt_wf (fold (merge_visible flt last_tx) es target) \<and>
    map_of (fold (merge_visible flt last_tx) es target) k =
      fold_newer (filter (\<lambda>e. fst e = k \<and> tx_visible last_tx (entry_tx e) \<and> flt k (entry_seq e) (entry_tx e)) es) (map_of target k)"
  using assms
proof (induction es arbitrary: target)
  case (Cons e es)
  obtain k' v s t where e: "e = (k', v, s, t)" by (cases e) auto
  have "bt_wf (merge_visible flt last_tx e target)" "map_of (merge_visible flt last_tx e target) k =
      (if k' = k \<and> tx_visible last_tx t \<and> flt k (raw_seq s) t then newer (map_of target k) (Some (v, s)) else map_of target k)"
    using merge_entry_spec [OF Cons.prems, of k' "(v, s)"] Cons.prems
    by (auto simp: e merge_visible_def tx_visible_def not_less)
  with Cons.IH [of "merge_visible flt last_tx e target"] show ?case by (simp add: e put_pair_def)
qed simp

lemma scan_latest_sees:
  assumes "scan_sees flt last_tx Q ps"
  shows "scan_latest flt k (raw_seq (- 1)) last_tx ps = scan_spec Q ps k"
proof -
  have "raw_seq s \<le> raw_seq (- 1)" for s by (simp add: raw_seq_def word_and_le1)
  then have "entry_seq p \<le> raw_seq (- 1)" for p by (cases p) simp
  then have "latest_put (\<lambda>e. visible_put k (raw_seq (- 1)) last_tx e \<and> flt k (entry_seq e) (entry_tx e)) ps =
      latest_put (\<lambda>e. fst e = k \<and> Q k) ps"
    using assms by (intro latest_put_cong) (auto simp: visible_put_def scan_sees_def)
  moreover have "latest_put (\<lambda>e. False) ps = None" by (simp add: latest_put_None)
  moreover have "(\<lambda>(k, v, s, t). (v, s)) = put_pair" by (auto simp: put_pair_def)
  ultimately show ?thesis by (simp add: scan_latest_def scan_spec_def)
qed

lemma merge_iter_newer:
  assumes reach: "mt_reach ps T" and sees: "scan_sees flt last_tx Q ps" and wf: "bt_wf target"
  shows "bt_wf (fold (merge_visible flt last_tx) (mt_iter T) target) \<and>
    map_of (fold (merge_visible flt last_tx) (mt_iter T) target) k = newer (map_of target k) (scan_spec Q ps k)"
proof -
  have "filter (\<lambda>e. fst e = k \<and> tx_visible last_tx (entry_tx e) \<and> flt k (entry_seq e) (entry_tx e)) (mt_iter T) =
      filter (\<lambda>e. tx_visible last_tx (entry_tx e) \<and> flt k (entry_seq e) (entry_tx e)) (puts_of k ps)"
    unfolding filter_mt_iter [OF reach, symmetric] by (simp add: conj_commute conj_left_commute)
  also have "\<dots> = (if Q k then puts_of k ps else [])"
    using sees by (induction ps) (auto simp: scan_sees_def puts_of_def)
  finally show ?thesis
    using fold_merge_visible [OF wf, of flt last_tx "mt_iter T" k] fold_newer_ascending [OF mt_reach_sorted [OF reach, of k]]
    by (simp add: scan_spec_def latest_put_puts_of)
qed

definition memtable_merge :: "scan_mode \<Rightarrow> entry_filter \<Rightarrow> bool \<Rightarrow> tx_id \<Rightarrow> mem_table \<Rightarrow> scan_target \<Rightarrow> scan_target res" where
  "memtable_merge mode flt check last_tx T target =
     rbind (scan_memtable mode flt last_tx T target) (\<lambda>target'.
       if check \<and> MAX_SCAN_MERGE_ACCUMULATOR < length target' then Inl (LimitExceeded MAX_SCAN_MERGE_ACCUMULATOR) else Inr target')"

lemma scan_memtables_merge: "scan_memtables mode flt check last_tx Ts target = merge_all (memtable_merge mode flt check last_tx) Ts target"
proof (induction Ts arbitrary: target)
  case (Cons T Ts)
  then show ?case by (cases "scan_memtable mode flt last_tx T target") (simp_all add: memtable_merge_def)
qed simp

lemma scan_memtable_newer:
  assumes reach: "mt_reach ps T" and sees: "scan_sees flt last_tx Q ps" and mode: "mode_ok mode Q" and wf: "bt_wf target"
  shows "\<exists>target'. scan_memtable mode flt last_tx T target = Inr target' \<and> bt_wf target' \<and>
    (\<forall>k. map_of target' k = newer (map_of target k) (scan_spec Q ps k))"
proof -
  have wfT: "mt_wf T" using mt_reach_versions [OF reach] by simp
  note flat = scan_flat_spec [OF reach wf, of flt "raw_seq (- 1)" last_tx, unfolded scan_latest_sees [OF sees]]
  have none: "scan_spec Q ps k = None" if "\<not> in_mode mode k" for k using mode that by (auto simp: mode_ok_def scan_spec_def)
  show ?thesis
  proof (cases mode)
    case (ScanPrefix p)
    then have "(if starts_with p k then scan_spec Q ps k else None) = scan_spec Q ps k" for k using none [of k] by (simp add: in_mode_def)
    then show ?thesis using flat [of "starts_with p"] ScanPrefix by (simp add: scan_memtable_def scan_prefix_flat [OF wfT])
  next
    case (ScanRange start stop)
    then have panics: "\<not> range_panics start stop" using mode by (simp add: mode_ok_def)
    have "(if above start k \<and> below stop k then scan_spec Q ps k else None) = scan_spec Q ps k" for k
      using none [of k] ScanRange by (simp add: in_mode_def)
    then have "\<exists>target'. mt_scan_range_into_matching start stop (- 1) last_tx flt T target = Inr target' \<and> bt_wf target' \<and>
        (\<forall>k. map_of target' k = newer (map_of target k) (scan_spec Q ps k))"
      using flat [of "\<lambda>k. above start k \<and> below stop k"] by (simp add: scan_range_flat [OF wfT panics])
    moreover have "\<exists>target'. (Inr (fold (merge_visible flt last_tx) (mt_iter T) target) :: scan_target res) = Inr target' \<and> bt_wf target' \<and>
        (\<forall>k. map_of target' k = newer (map_of target k) (scan_spec Q ps k))"
      using merge_iter_newer [OF reach sees wf] by simp
    ultimately show ?thesis unfolding ScanRange
      by (cases start; cases stop) (simp_all only: scan_memtable_def scan_mode.case key_bound.case)
  qed
qed

interpretation memtable_source: scan_source "memtable_merge mode flt check last_tx"
  "\<lambda>T ps. mt_reach ps T \<and> scan_sees flt last_tx Q ps \<and> mode_ok mode Q" Q for mode flt check last_tx Q
proof (unfold_locales, goal_cases)
  case (1 T ps target target' k)
  then show ?case using scan_memtable_newer [of ps T flt last_tx Q mode target]
    by (auto simp: memtable_merge_def split: if_splits)
qed

interpretation total_memtable: total_source "memtable_merge mode flt check last_tx"
  "\<lambda>T ps. (mt_reach ps T \<and> scan_sees flt last_tx Q ps \<and> mode_ok mode Q) \<and> few_keys check K Q ps" Q "target_ok check K" for mode flt check last_tx Q K
proof (unfold_locales, goal_cases)
  case (1 T ps target target' k)
  then show ?case using memtable_source.merge_newer by blast
next
  case (2 T ps target)
  then have "bt_wf target" by (simp add: target_ok_def)
  then obtain target' where t: "scan_memtable mode flt last_tx T target = Inr target'" "bt_wf target'"
    "\<And>k. map_of target' k = newer (map_of target k) (scan_spec Q ps k)"
    using 2 scan_memtable_newer [of ps T flt last_tx Q mode target] by blast
  have ok: "target_ok check K target'" using target_ok_newer [OF _ _ t(2,3)] 2 by blast
  then show ?case using t(1) target_ok_length [OF ok, of Q ps] 2 by (auto simp: memtable_merge_def not_less)
qed

section \<open>Tables as sources\<close>

definition table_merge :: "lsm_params \<Rightarrow> scan_mode \<Rightarrow> entry_filter \<Rightarrow> bool \<Rightarrow> tx_id \<Rightarrow> sst_reader \<Rightarrow> scan_target \<Rightarrow> scan_target res" where
  "table_merge P mode flt check last_tx R target =
     rbind (table_entries P mode R) (\<lambda>es. merge_table flt check None last_tx es 0 target)"

lemma scan_tables_merge: "scan_tables P mode flt check None last_tx Rs target = merge_all (table_merge P mode flt check last_tx) Rs target"
proof (induction Rs arbitrary: target)
  case (Cons R Rs)
  then have "scan_tables P mode flt check None last_tx Rs = merge_all (table_merge P mode flt check last_tx) Rs" by (intro ext)
  then show ?case by (cases "table_entries P mode R") (simp_all add: table_merge_def [of P mode flt check last_tx R])
qed simp

lemma merge_table_fold:
  "merge_table flt check None last_tx es n target = Inr target' \<Longrightarrow> target' = fold (merge_visible flt last_tx) es target"
proof (induction es arbitrary: n target)
  case (Cons e es)
  obtain k v s t where e: "e = (k, v, s, t)" by (cases e) auto
  show ?case
  proof (cases "(t \<le> last_tx \<or> INTERNAL_BASE \<le> t) \<and> flt k (raw_seq s) t")
    case True
    then have "merge_table flt check None last_tx es (n + 1) (merge_entry k (v, s) target) = Inr target'"
      using Cons.prems by (auto simp: e Let_def split: if_splits)
    moreover have "merge_visible flt last_tx e target = merge_entry k (v, s) target" using True by (auto simp: merge_visible_def e)
    ultimately show ?thesis using Cons.IH by simp
  next
    case False
    then have "merge_visible flt last_tx e target = target" by (auto simp: merge_visible_def e)
    then show ?thesis using False Cons.IH Cons.prems by (auto simp: e)
  qed
qed simp

lemma merge_table_total: "\<exists>target'. merge_table flt False None last_tx es n target = Inr target'"
  by (induction es arbitrary: n target) (auto simp: Let_def)

lemma starts_with_below_next:
  assumes "starts_with p k" "p \<noteq> []" "last p \<noteq> (255 :: u8)"
  shows "k < butlast p @ [last p + 1]"
proof -
  have "unat (last p) \<noteq> 255" using assms(3) by (simp add: word_unat_eq_iff)
  then have "last p < last p + 1" using unat_lt_pow [of "last p"] by (simp add: word_less_nat_alt unat_word_ariths)
  then have "q @ last p # r < q @ [last p + 1]" for q r by (induction q) simp_all
  moreover obtain r where "k = p @ r" using assms(1) by (metis append_take_drop_id starts_with_def)
  then have "k = butlast p @ last p # r" using assms(2) by (metis append.assoc append_Cons append_Nil append_butlast_last_id)
  ultimately show ?thesis by metis
qed

text \<open>Skipping a table by its key range skips no entry.\<close>

lemma prefix_skips_sound:
  assumes R: "reader_repr crc32 blake3 R gs" and skip: "prefix_skips p R"
  shows "filter (\<lambda>e. starts_with p (fst e)) (concat gs) = []"
proof -
  have keys: "sorted_wrt (<) (map fst (concat gs))" "gs \<noteq> []" "sm_first_key (rd_metadata R) = fst (hd (concat gs))"
    "sm_last_key (rd_metadata R) = fst (last (concat gs))"
    using R skip by (auto simp: reader_repr_def prefix_skips_def Let_def)
  have "\<not> starts_with p (fst e)" if e: "e \<in> set (concat gs)" for e
  proof
    assume st: "starts_with p (fst e)"
    have ne: "concat gs \<noteq> []" using e by (metis empty_iff empty_set)
    have asc: "sorted (map fst (concat gs))" using keys(1) by (simp only: strict_sorted_iff)
    obtain i where i: "i < length (concat gs)" "e = concat gs ! i" using e unfolding in_set_conv_nth by blast
    have "map fst (concat gs) ! 0 \<le> map fst (concat gs) ! i" by (rule sorted_nth_mono [OF asc]) (use i in simp_all)
    then have lo: "sm_first_key (rd_metadata R) \<le> fst e" using i ne keys(3) by (simp add: hd_conv_nth)
    have "map fst (concat gs) ! i \<le> map fst (concat gs) ! (length (concat gs) - 1)" by (rule sorted_nth_mono [OF asc]) (use i in simp_all)
    then have hi: "fst e \<le> sm_last_key (rd_metadata R)" using i ne keys(4) by (simp add: last_conv_nth)
    show False
      using skip lo hi starts_with_imp_le [OF st] starts_with_below_next [OF st] by (auto simp: prefix_skips_def Let_def)
  qed
  then show ?thesis by (simp only: filter_empty_conv) blast
qed

lemma table_entries_holds:
  assumes "holds_entries (lp_crc32 P) (lp_blake3 P) R es"
  shows "table_entries P mode R = Inr (filter (\<lambda>e. in_mode mode (fst e)) es)"
proof -
  obtain gs where gs: "reader_repr (lp_crc32 P) (lp_blake3 P) R gs" "concat gs = es" using assms by (auto simp: holds_entries_def)
  show ?thesis
    using sst_scan_prefix_repr [OF gs(1)] sst_scan_range_repr [OF gs(1)] prefix_skips_sound [OF gs(1)]
    by (cases mode) (simp_all add: table_entries_def in_mode_def gs(2))
qed

lemma filter_key_distinct:
  "distinct (map fst es) \<Longrightarrow> filter (\<lambda>e. fst e = k) es = (case map_of es k of None \<Rightarrow> [] | Some x \<Rightarrow> [(k, x)])"
proof (induction es)
  case (Cons e es)
  obtain k' x where e: "e = (k', x)" by fastforce
  show ?case
  proof (cases "k' = k")
    case True
    then have "filter (\<lambda>e. fst e = k) es = []" using Cons.prems by (auto simp: e filter_empty_conv)
    then show ?thesis using True by (simp add: e)
  qed (use Cons in \<open>simp add: e\<close>)
qed simp

lemma table_newer:
  assumes holds: "table_newest_of P R ps" and sees: "scan_sees flt last_tx Q ps" and mode: "mode_ok mode Q" and wf: "bt_wf target"
    and run: "table_merge P mode flt check last_tx R target = Inr target'"
  shows "bt_wf target' \<and> map_of target' k = newer (map_of target k) (scan_spec Q ps k)"
proof -
  obtain es where es: "holds_entries (lp_crc32 P) (lp_blake3 P) R es" "\<And>k. map_of es k = map_option snd (latest_put (\<lambda>p. fst p = k) ps)"
    using holds unfolding table_newest_of_def by blast
  have dist: "distinct (map fst es)" using holds_entries_sorted [OF es(1)] by (simp add: strict_sorted_iff)
  have t': "target' = fold (merge_visible flt last_tx) (filter (\<lambda>e. in_mode mode (fst e)) es) target"
    using run merge_table_fold unfolding table_merge_def table_entries_holds [OF es(1)] rbind_Inr by blast
  let ?vis = "\<lambda>e. tx_visible last_tx (entry_tx e) \<and> flt k (entry_seq e) (entry_tx e)"
  have "filter (\<lambda>e. fst e = k \<and> ?vis e) (filter (\<lambda>e. in_mode mode (fst e)) es) =
      filter (\<lambda>e. in_mode mode k \<and> ?vis e) (filter (\<lambda>e. fst e = k) es)"
    unfolding filter_filter by (intro filter_cong) auto
  also have "\<dots> = (if Q k then case latest_put (\<lambda>p. fst p = k) ps of None \<Rightarrow> [] | Some p \<Rightarrow> [p] else [])"
  proof (cases "latest_put (\<lambda>p. fst p = k) ps")
    case None
    then show ?thesis by (simp add: filter_key_distinct [OF dist] es(2))
  next
    case (Some p)
    have p: "p \<in> set ps" "fst p = k" using latest_put_in [OF Some] by simp_all
    then have "(k, snd p) = p" by auto
    moreover have "?vis p \<longleftrightarrow> Q k" "Q k \<longrightarrow> in_mode mode k" using sees mode p by (auto simp: scan_sees_def mode_ok_def)
    ultimately show ?thesis by (auto simp: filter_key_distinct [OF dist] es(2) Some)
  qed
  finally have "fold_newer (filter (\<lambda>e. fst e = k \<and> ?vis e) (filter (\<lambda>e. in_mode mode (fst e)) es)) (map_of target k) =
      newer (map_of target k) (scan_spec Q ps k)"
    by (cases "latest_put (\<lambda>p. fst p = k) ps") (simp_all add: scan_spec_def)
  then show ?thesis unfolding t'
    using fold_merge_visible [OF wf, of flt last_tx "filter (\<lambda>e. in_mode mode (fst e)) es" k] by simp
qed

interpretation table_source: scan_source "table_merge P mode flt check last_tx"
  "\<lambda>R ps. table_newest_of P R ps \<and> scan_sees flt last_tx Q ps \<and> mode_ok mode Q" Q for P mode flt check last_tx Q
  by unfold_locales (metis table_newer)

lemma merge_table_ok:
  assumes "target_ok check K target" "few_keys check K Q ps" "set es \<subseteq> set ps" and sees: "scan_sees flt last_tx Q ps"
  shows "\<exists>target'. merge_table flt check None last_tx es n target = Inr target' \<and> target_ok check K target'"
  using assms(1,3)
proof (induction es arbitrary: n target)
  case (Cons e es)
  obtain k v s t where e: "e = (k, v, s, t)" by (cases e) auto
  have ok: "target_ok check K (merge_entry k (v, s) target)" if "flt k (raw_seq s) t"
  proof -
    have wf: "bt_wf target" using Cons.prems(1) by (simp add: target_ok_def)
    have "k \<in> scanned_keys Q ps" using that Cons.prems(2) sees by (force simp: e scan_sees_def scanned_keys_def)
    moreover have "fst ` set (merge_entry k (v, s) target) \<subseteq> insert k (fst ` set target)"
      using merge_entry_spec [OF wf, of k "(v, s)"] unfolding dom_map_of_conv_image_fst [symmetric] by auto
    ultimately show ?thesis using merge_entry_spec [OF wf, of k "(v, s)"] Cons.prems(1) assms(2)
      unfolding target_ok_def few_keys_def by blast
  qed
  then show ?case using Cons.IH Cons.prems target_ok_length [OF _ assms(2), of "merge_entry k (v, s) target"]
    by (auto simp: e Let_def not_less)
qed simp

interpretation total_table: total_source "table_merge P mode flt check last_tx"
  "\<lambda>R ps. (table_newest_of P R ps \<and> scan_sees flt last_tx Q ps \<and> mode_ok mode Q) \<and> few_keys check K Q ps" Q "target_ok check K"
  for P mode flt check last_tx Q K
proof (unfold_locales, goal_cases)
  case (1 R ps target target' k)
  then show ?case using table_source.merge_newer by blast
next
  case (2 R ps target)
  then obtain es where es: "holds_entries (lp_crc32 P) (lp_blake3 P) R es" "\<And>k. map_of es k = map_option snd (latest_put (\<lambda>p. fst p = k) ps)"
    unfolding table_newest_of_def by blast
  have "set (filter (\<lambda>e. in_mode mode (fst e)) es) \<subseteq> set ps"
  proof
    fix e assume "e \<in> set (filter (\<lambda>e. in_mode mode (fst e)) es)"
    moreover have "distinct (map fst es)" using holds_entries_sorted [OF es(1)] by (simp add: strict_sorted_iff)
    ultimately have "map_of es (fst e) = Some (snd e)" by simp
    then obtain p where p: "latest_put (\<lambda>p. fst p = fst e) ps = Some p" "snd p = snd e" unfolding es(2) by blast
    then have "p = e" "p \<in> set ps" using latest_put_in [OF p(1)] by (simp_all add: prod_eq_iff)
    then show "e \<in> set ps" by simp
  qed
  from merge_table_ok [OF _ _ this] 2 show ?case unfolding table_merge_def table_entries_holds [OF es(1)] rbind_Inr by blast
qed

text \<open>A checked merge fails only at the limit, and what it returns is within it.\<close>

locale limited_source = scan_source +
  fixes err :: contextra_error
  assumes merge_error: "holds s ps \<Longrightarrow> bt_wf target \<Longrightarrow> merge s target = Inl e \<Longrightarrow> e = err"
begin

lemma merge_all_error:
  "list_all2 holds ss pss \<Longrightarrow> bt_wf target \<Longrightarrow> merge_all merge ss target = Inl e \<Longrightarrow> e = err"
proof (induction ss pss arbitrary: target rule: list_all2_induct)
  case (Cons s ss ps pss)
  show ?case
  proof (cases "merge s target")
    case (Inl e')
    then show ?thesis using merge_error [OF Cons.hyps(1) Cons.prems(1)] Cons.prems(2) by simp
  next
    case (Inr t)
    then show ?thesis using merge_newer [OF Cons.hyps(1) Cons.prems(1) Inr] Cons.IH [of t] Cons.prems(2) by simp
  qed
qed simp

end

lemma merge_table_error: "merge_table flt check lim last_tx es n target = Inl e \<Longrightarrow> e = LimitExceeded MAX_SCAN_MERGE_ACCUMULATOR"
proof (induction flt check lim last_tx es n target rule: merge_table.induct)
  case (2 flt check lim last_tx k v seq tx es n target)
  then show ?case by (auto simp: Let_def split: if_splits option.splits)
qed simp

interpretation limited_table: limited_source "table_merge P mode flt check last_tx"
  "\<lambda>R ps. table_newest_of P R ps \<and> scan_sees flt last_tx Q ps \<and> mode_ok mode Q" Q "LimitExceeded MAX_SCAN_MERGE_ACCUMULATOR"
  for P mode flt check last_tx Q
proof (unfold_locales, goal_cases)
  case (1 R ps target e)
  then obtain es where es: "holds_entries (lp_crc32 P) (lp_blake3 P) R es" unfolding table_newest_of_def by blast
  from 1(3) show ?case unfolding table_merge_def table_entries_holds [OF es] rbind_Inr by (rule merge_table_error)
qed

interpretation limited_memtable: limited_source "memtable_merge mode flt check last_tx"
  "\<lambda>T ps. mt_reach ps T \<and> scan_sees flt last_tx Q ps \<and> mode_ok mode Q" Q "LimitExceeded MAX_SCAN_MERGE_ACCUMULATOR"
  for mode flt check last_tx Q
proof (unfold_locales, goal_cases)
  case (1 T ps target e)
  then obtain target' where "scan_memtable mode flt last_tx T target = Inr target'"
    using scan_memtable_newer [of ps T flt last_tx Q mode target] by blast
  with 1(3) show ?case by (auto simp: memtable_merge_def split: if_splits)
qed

section \<open>What is collected\<close>

lemma list_all2_conj: "list_all2 R xs ys \<Longrightarrow> \<forall>y \<in> set ys. S y \<Longrightarrow> list_all2 (\<lambda>x y. R x y \<and> S y) xs ys"
  by (auto simp: list_all2_conv_all_nth)

lemma collect_holds:
  assumes holds: "lsm_holds P S tabs imms mem" and sees: "scan_sees flt (ls_last_committed_tx S) Q (concat tabs @ concat imms @ mem)"
    and mode: "mode_ok mode Q" and run: "collect_visible_entries P mode flt check None S = Inr target"
  shows "scan_holds Q (concat tabs @ concat imms @ mem) target"
proof -
  let ?tx = "ls_last_committed_tx S" and ?Rs = "map sh_reader (fst (ls_tables S))" and ?Ts = "ls_immutable S @ [ls_memtable S]"
  obtain t where t: "merge_all (table_merge P mode flt check ?tx) ?Rs [] = Inr t" "merge_all (memtable_merge mode flt check ?tx) ?Ts t = Inr target"
    using run by (auto simp: collect_visible_entries_def rbind_eq_Inr scan_tables_merge scan_memtables_merge)
  have R: "list_all2 (\<lambda>R ps. table_newest_of P R ps \<and> scan_sees flt ?tx Q ps \<and> mode_ok mode Q) ?Rs tabs"
    using holds sees mode by (intro list_all2_conj) (auto simp: lsm_holds_def scan_sees_def)
  have T: "list_all2 (\<lambda>T ps. mt_reach ps T \<and> scan_sees flt ?tx Q ps \<and> mode_ok mode Q) ?Ts (imms @ [mem])"
    using holds sees mode by (intro list_all2_conj) (auto simp: lsm_holds_def scan_sees_def intro: list_all2_appendI)
  have asc: "sorted_wrt (<) (map entry_seq (concat tabs @ concat (imms @ [mem])))" using holds by (simp add: lsm_holds_def)
  have "scan_holds Q ([] @ concat tabs) t"
    by (rule table_source.merge_all_holds [OF R _ _ t(1)]) (use asc in \<open>simp_all add: scan_holds_def scan_spec_def sorted_wrt_append\<close>)
  then have "scan_holds Q (concat tabs @ concat (imms @ [mem])) target"
    using memtable_source.merge_all_holds [OF T _ asc t(2)] by simp
  then show ?thesis by simp
qed

lemma collect_total:
  assumes holds: "lsm_holds P S tabs imms mem" and sees: "scan_sees flt (ls_last_committed_tx S) Q (concat tabs @ concat imms @ mem)"
    and mode: "mode_ok mode Q" and few: "few_keys check K Q (concat tabs @ concat imms @ mem)"
  shows "\<exists>target. collect_visible_entries P mode flt check None S = Inr target"
proof -
  let ?tx = "ls_last_committed_tx S" and ?Rs = "map sh_reader (fst (ls_tables S))" and ?Ts = "ls_immutable S @ [ls_memtable S]"
  have fR: "\<forall>ps \<in> set tabs. few_keys check K Q ps" by (intro ballI few_keys_mono [OF few]) auto
  have fT: "\<forall>ps \<in> set (imms @ [mem]). few_keys check K Q ps" by (intro ballI few_keys_mono [OF few]) auto
  have R: "list_all2 (\<lambda>R ps. (table_newest_of P R ps \<and> scan_sees flt ?tx Q ps \<and> mode_ok mode Q) \<and> few_keys check K Q ps) ?Rs tabs"
    using holds sees mode by (intro list_all2_conj fR) (auto simp: lsm_holds_def scan_sees_def)
  have T: "list_all2 (\<lambda>T ps. (mt_reach ps T \<and> scan_sees flt ?tx Q ps \<and> mode_ok mode Q) \<and> few_keys check K Q ps) ?Ts (imms @ [mem])"
    using holds sees mode by (intro list_all2_conj fT) (auto simp: lsm_holds_def scan_sees_def intro: list_all2_appendI)
  obtain t where "merge_all (table_merge P mode flt check ?tx) ?Rs [] = Inr t" "target_ok check K t"
    using total_table.merge_all_total [OF R, of "[]"] by (auto simp: target_ok_def)
  with total_memtable.merge_all_total [OF T, of t] show ?thesis
    by (auto simp: collect_visible_entries_def scan_tables_merge scan_memtables_merge)
qed

text \<open>With more keys in range than the limit, the collection fails at the limit.\<close>

lemma merge_all_snoc: "merge_all merge (ss @ [s]) target = rbind (merge_all merge ss target) (merge s)"
  by (induction ss arbitrary: target) (simp_all add: rbind_def split: sum.split)

lemma collect_many:
  assumes holds: "lsm_holds P S tabs imms mem" and sees: "scan_sees flt (ls_last_committed_tx S) Q (concat tabs @ concat imms @ mem)"
    and mode: "mode_ok mode Q" and many: "MAX_SCAN_MERGE_ACCUMULATOR < card (scanned_keys Q (concat tabs @ concat imms @ mem))"
  shows "collect_visible_entries P mode flt True None S = Inl (LimitExceeded MAX_SCAN_MERGE_ACCUMULATOR)"
proof (cases "collect_visible_entries P mode flt True None S")
  case (Inr target)
  define ps where "ps = concat tabs @ concat imms @ mem"
  from collect_holds [OF holds sees mode Inr] have t: "bt_wf target" "\<And>k. map_of target k = scan_spec Q ps k"
    by (simp_all add: scan_holds_def ps_def)
  have "fst ` set target = scanned_keys Q ps"
  proof (intro set_eqI)
    fix k
    have "k \<in> fst ` set target \<longleftrightarrow> scan_spec Q ps k \<noteq> None"
      using t(2) [of k] map_of_eq_None_iff [of target k] by metis
    also have "\<dots> \<longleftrightarrow> Q k \<and> latest_put (\<lambda>p. fst p = k) ps \<noteq> None"
      by (cases "latest_put (\<lambda>p. fst p = k) ps") (simp_all add: scan_spec_def)
    also have "\<dots> \<longleftrightarrow> k \<in> scanned_keys Q ps"
      unfolding latest_put_key scanned_keys_def by blast
    finally show "k \<in> fst ` set target \<longleftrightarrow> k \<in> scanned_keys Q ps" .
  qed
  moreover have "length target = card (fst ` set target)"
    using bt_wf_distinct [OF t(1)] distinct_card [of "map fst target"] by simp
  ultimately have "MAX_SCAN_MERGE_ACCUMULATOR < length target" using many unfolding ps_def by simp
  moreover have "length target \<le> MAX_SCAN_MERGE_ACCUMULATOR"
    using Inr by (auto simp: collect_visible_entries_def rbind_eq_Inr scan_memtables_merge merge_all_snoc memtable_merge_def
        not_less split: if_splits)
  ultimately show ?thesis by simp
next
  case (Inl e)
  let ?tx = "ls_last_committed_tx S" and ?Rs = "map sh_reader (fst (ls_tables S))" and ?Ts = "ls_immutable S @ [ls_memtable S]"
  have R: "list_all2 (\<lambda>R ps. table_newest_of P R ps \<and> scan_sees flt ?tx Q ps \<and> mode_ok mode Q) ?Rs tabs"
    using holds sees mode by (intro list_all2_conj) (auto simp: lsm_holds_def scan_sees_def)
  have T: "list_all2 (\<lambda>T ps. mt_reach ps T \<and> scan_sees flt ?tx Q ps \<and> mode_ok mode Q) ?Ts (imms @ [mem])"
    using holds sees mode by (intro list_all2_conj) (auto simp: lsm_holds_def scan_sees_def intro: list_all2_appendI)
  have "e = LimitExceeded MAX_SCAN_MERGE_ACCUMULATOR"
  proof (cases "merge_all (table_merge P mode flt True ?tx) ?Rs []")
    case (Inl e')
    with \<open>collect_visible_entries P mode flt True None S = Inl e\<close> limited_table.merge_all_error [OF R _ Inl]
    show ?thesis by (simp add: collect_visible_entries_def scan_tables_merge)
  next
    case (Inr t)
    have asc: "sorted_wrt (<) (map entry_seq ([] @ concat tabs))" using holds by (simp add: lsm_holds_def sorted_wrt_append)
    have "scan_holds Q [] []" by (simp add: scan_holds_def scan_spec_def)
    from table_source.merge_all_holds [OF R this asc Inr] have "bt_wf t" by (simp add: scan_holds_def)
    moreover have "merge_all (memtable_merge mode flt True ?tx) ?Ts t = Inl e"
      using \<open>collect_visible_entries P mode flt True None S = Inl e\<close> Inr
      by (simp add: collect_visible_entries_def scan_tables_merge scan_memtables_merge)
    ultimately show ?thesis using limited_memtable.merge_all_error [OF T] by blast
  qed
  with Inl show ?thesis by simp
qed

section \<open>Live pairs\<close>

text \<open>The keys with a live newest put, in order, with their values.\<close>

definition live_pairs :: "(bytes \<Rightarrow> bool) \<Rightarrow> kv_entry list \<Rightarrow> (bytes \<times> bytes) list" where
  "live_pairs Q ps = map (\<lambda>k. (k, the (newest_value k ps))) (filter (\<lambda>k. Q k \<and> newest_value k ps \<noteq> None) (sorted_list_of_set (fst ` set ps)))"

lemma bt_wf_live_pairs: "bt_wf (live_pairs Q ps)"
  by (auto simp: live_pairs_def bt_wf_def comp_def sorted_wrt_filter)

lemma newest_value_key: "newest_value k ps \<noteq> None \<Longrightarrow> k \<in> fst ` set ps"
  using latest_put_key [of k ps] by (auto simp: newest_value_def)

lemma map_of_live_pairs: "map_of (live_pairs Q ps) k = (if Q k then newest_value k ps else None)"
proof -
  have "map_of (map (\<lambda>k. (k, f k)) ks) k = (if k \<in> set ks then Some (f k) else None)" for f :: "bytes \<Rightarrow> bytes" and ks
    by (induction ks) auto
  then show ?thesis using newest_value_key [of k ps] by (cases "newest_value k ps") (auto simp: live_pairs_def)
qed

lemma live_entries_scan:
  assumes "scan_holds Q ps target"
  shows "live_entries_of target = live_pairs Q ps"
proof (rule bt_wf_ext)
  have wf: "bt_wf target" and m: "\<And>k. map_of target k = scan_spec Q ps k" using assms by (simp_all add: scan_holds_def)
  have fst: "map fst (live_entries_of target) = map fst (filter (\<lambda>(k, v, s). \<not> is_tombstone s) target)"
    by (auto simp: live_entries_of_def)
  then show wf': "bt_wf (live_entries_of target)" using bt_wf_filter [OF wf] by (simp add: bt_wf_def)
  show "bt_wf (live_pairs Q ps)" by (rule bt_wf_live_pairs)
  show "map_of (live_entries_of target) = map_of (live_pairs Q ps)"
  proof
    fix k
    have "map_of (live_entries_of target) k = Option.bind (map_of target k) (\<lambda>(v, s). live_value v s)"
      using bt_wf_distinct [OF wf]
    proof (induction target)
      case (Cons e target)
      obtain k' v s where e: "e = (k', v, s)" by (cases e) auto
      have "map_of target k = None" if "k' = k" using Cons.prems that by (simp add: e map_of_eq_None_iff)
      then show ?case using Cons by (auto simp: e live_entries_of_def live_value_def)
    qed (simp add: live_entries_of_def)
    also have "\<dots> = (if Q k then newest_value k ps else None)"
      unfolding m scan_spec_def newest_value_def by (cases "latest_put (\<lambda>p. fst p = k) ps") (auto simp: put_pair_def)
    finally show "map_of (live_entries_of target) k = map_of (live_pairs Q ps) k" by (simp add: map_of_live_pairs)
  qed
qed

section \<open>Pages\<close>

lemma live_entries_simps [simp]:
  "live_entries_of [] = []" "live_entries_of ((k, v, s) # target) = (if is_tombstone s then [] else [(k, v)]) @ live_entries_of target"
  by (simp_all add: live_entries_of_def)

lemma fill_page_live:
  "length results < limit \<Longrightarrow> \<exists>rest. fill_page limit target results = (results @ take (limit - length results) (live_entries_of target), rest) \<and>
     live_entries_of rest = drop (limit - length results) (live_entries_of target)"
proof (induction limit target results rule: fill_page.induct)
  case (2 limit k v seq rest results)
  show ?case
  proof (cases "is_tombstone seq \<or> length results + 1 = limit")
    case True
    then show ?thesis using 2 by auto
  next
    case False
    then have "length (results @ [(k, v)]) < limit" using 2(3) by simp
    moreover have "limit - length results = Suc (limit - length (results @ [(k, v)]))" using 2(3) by simp
    ultimately show ?thesis using False 2(2) [of "results @ [(k, v)]"] by (auto simp: Let_def)
  qed
qed simp

lemma page_of_live:
  assumes "0 < limit"
  shows "page_of limit target = (let L = live_entries_of target
    in (take limit L, if limit < length L then Some (fst (L ! (limit - 1))) else None))"
proof -
  let ?L = "live_entries_of target"
  obtain rest where r: "fill_page limit target [] = (take limit ?L, rest)" "live_entries_of rest = drop limit ?L"
    using fill_page_live [of "[]" limit target] assms by auto
  have "(\<exists>x \<in> set rest. \<not> is_tombstone (snd (snd x))) \<longleftrightarrow> live_entries_of rest \<noteq> []"
    by (force simp: live_entries_of_def filter_empty_conv)
  then have more: "(\<exists>x \<in> set rest. \<not> is_tombstone (snd (snd x))) \<longleftrightarrow> limit < length ?L" by (simp add: r(2) not_le)
  have "last (take limit ?L) = ?L ! (limit - 1)" if "limit < length ?L"
    using that assms last_conv_nth [of "take limit ?L"] by (cases "take limit ?L = []") (auto simp: min_def)
  moreover have "take limit ?L \<noteq> []" if "limit < length ?L" using that assms by auto
  ultimately show ?thesis using more by (auto simp: page_of_def r(1) Let_def)
qed

lemma check_in_range_bounds: "check_in_range k start stop \<longleftrightarrow> above start k \<and> below stop k"
  by (cases start; cases stop) (simp_all add: check_in_range_def)

text \<open>Following the cursors, as a client does.\<close>

fun scan_pages ::
    "nat \<Rightarrow> lsm_params \<Rightarrow> key_bound \<Rightarrow> key_bound \<Rightarrow> nat \<Rightarrow> bytes option \<Rightarrow> lsm \<Rightarrow> (bytes \<times> bytes) list res option" where
  "scan_pages 0 P start stop limit cursor S = None"
| "scan_pages (Suc n) P start stop limit cursor S =
     (case lsm_scan_bounded P start stop limit cursor S of
        Inl e \<Rightarrow> Some (Inl e)
      | Inr (page, None) \<Rightarrow> Some (Inr page)
      | Inr (page, Some c) \<Rightarrow>
          map_option (\<lambda>r. rbind r (\<lambda>rest. Inr (page @ rest))) (scan_pages n P start stop limit (Some c) S))"

lemma filter_above_nth:
  fixes xs :: "(bytes \<times> 'v) list"
  assumes "sorted_wrt (<) (map fst xs)" "i < length xs"
  shows "filter (\<lambda>x. fst (xs ! i) < fst x) xs = drop (Suc i) xs"
proof -
  have le: "fst (xs ! j) \<le> fst (xs ! i)" if "j \<le> i" for j
    using sorted_nth_mono [of "map fst xs" j i] assms that by (simp add: strict_sorted_iff)
  have gt: "fst (xs ! i) < fst (xs ! j)" if "i < j" "j < length xs" for j
    using sorted_wrt_nth_less [OF assms(1), of i j] assms that by simp
  have "\<not> fst (xs ! i) < fst x" if "x \<in> set (take (Suc i) xs)" for x
  proof -
    obtain j where j: "j < length (take (Suc i) xs)" "x = take (Suc i) xs ! j" using \<open>x \<in> _\<close> unfolding in_set_conv_nth by blast
    then show ?thesis using le [of j] by (simp add: not_less)
  qed
  then have "filter (\<lambda>x. fst (xs ! i) < fst x) (take (Suc i) xs) = []" by (simp only: filter_empty_conv) blast
  moreover have "fst (xs ! i) < fst x" if "x \<in> set (drop (Suc i) xs)" for x
  proof -
    obtain j where j: "j < length (drop (Suc i) xs)" "x = drop (Suc i) xs ! j" using \<open>x \<in> _\<close> unfolding in_set_conv_nth by blast
    then show ?thesis using gt [of "Suc i + j"] by simp
  qed
  then have "filter (\<lambda>x. fst (xs ! i) < fst x) (drop (Suc i) xs) = drop (Suc i) xs" by (simp only: filter_id_conv) blast
  ultimately show ?thesis by (metis append_Nil append_take_drop_id filter_append)
qed

lemma live_pairs_after:
  fixes ps :: "kv_entry list" and start stop :: key_bound
  defines "L \<equiv> live_pairs (\<lambda>k. above start k \<and> below stop k) ps"
  assumes "i < length L"
  shows "live_pairs (\<lambda>k. above (Excluded (fst (L ! i))) k \<and> below stop k) ps = drop (Suc i) L" "above start (fst (L ! i))" "below stop (fst (L ! i))"
proof -
  define c where "c = fst (L ! i)"
  have "L ! i \<in> set L" using assms(2) by simp
  then have "above start c \<and> below stop c" unfolding c_def by (auto simp: L_def live_pairs_def)
  then show ab: "above start (fst (L ! i))" "below stop (fst (L ! i))" by (simp_all add: c_def)
  have up: "above start k" if "c < k" for k using ab(1) that unfolding c_def [symmetric] by (cases start) auto
  have "live_pairs (\<lambda>k. above (Excluded c) k \<and> below stop k) ps = filter (\<lambda>x. c < fst x) L"
  proof -
    have "(\<lambda>k. (above (Excluded c) k \<and> below stop k) \<and> newest_value k ps \<noteq> None) =
        (\<lambda>k. ((above start k \<and> below stop k) \<and> newest_value k ps \<noteq> None) \<and> c < k)"
      using up by (auto simp: fun_eq_iff)
    then show ?thesis unfolding L_def live_pairs_def by (simp add: filter_map comp_def)
  qed
  also have "\<dots> = drop (Suc i) L"
    unfolding c_def using bt_wf_live_pairs [of "\<lambda>k. above start k \<and> below stop k" ps]
    by (intro filter_above_nth assms(2)) (simp add: L_def bt_wf_def)
  finally show "live_pairs (\<lambda>k. above (Excluded (fst (L ! i))) k \<and> below stop k) ps = drop (Suc i) L" by (simp add: c_def)
qed

definition all_visible :: "lsm \<Rightarrow> kv_entry list \<Rightarrow> bool" where
  "all_visible S ps \<longleftrightarrow> (\<forall>p \<in> set ps. tx_visible (ls_last_committed_tx S) (entry_tx p))"

lemma all_visible_sees: "all_visible S ps \<Longrightarrow> (\<And>p. p \<in> set ps \<Longrightarrow> flt (fst p) (entry_seq p) (entry_tx p) = Q (fst p)) \<Longrightarrow>
    scan_sees flt (ls_last_committed_tx S) Q ps"
  by (simp add: all_visible_def scan_sees_def)

lemma scan_collects:
  assumes holds: "lsm_holds P S tabs imms mem" and vis: "all_visible S (concat tabs @ concat imms @ mem)"
    and mode: "mode_ok mode Q" and flt: "\<And>k s t. flt k s t = Q k"
    and few: "check \<longrightarrow> card (scanned_keys Q (concat tabs @ concat imms @ mem)) \<le> MAX_SCAN_MERGE_ACCUMULATOR"
  shows "\<exists>target. collect_visible_entries P mode flt check None S = Inr target \<and>
    live_entries_of target = live_pairs Q (concat tabs @ concat imms @ mem)"
proof -
  let ?ps = "concat tabs @ concat imms @ mem"
  have sees: "scan_sees flt (ls_last_committed_tx S) Q ?ps" by (rule all_visible_sees [OF vis]) (rule flt)
  have "few_keys check (scanned_keys Q ?ps) Q ?ps" using few by (simp add: few_keys_def)
  from collect_total [OF holds sees mode this] obtain target where t: "collect_visible_entries P mode flt check None S = Inr target" by blast
  from live_entries_scan [OF collect_holds [OF holds sees mode this]] t show ?thesis by blast
qed

lemma scan_bounded_page:
  fixes start stop :: key_bound and cursor :: "bytes option"
  defines "lo \<equiv> (case cursor of Some c \<Rightarrow> Excluded c | None \<Rightarrow> start)"
  assumes holds: "lsm_holds P S tabs imms mem" and vis: "all_visible S (concat tabs @ concat imms @ mem)"
    and few: "card (scanned_keys (\<lambda>k. above lo k \<and> below stop k) (concat tabs @ concat imms @ mem)) \<le> MAX_SCAN_MERGE_ACCUMULATOR"
    and range: "\<not> range_panics lo stop" and limit: "0 < limit"
  shows "lsm_scan_bounded P start stop limit cursor S =
    (let L = live_pairs (\<lambda>k. above lo k \<and> below stop k) (concat tabs @ concat imms @ mem)
     in Inr (take limit L, if limit < length L then Some (fst (L ! (limit - 1))) else None))"
proof -
  have "mode_ok (ScanRange lo stop) (\<lambda>k. above lo k \<and> below stop k)" using range by (simp add: mode_ok_def in_mode_def)
  from scan_collects [OF holds vis this, of "\<lambda>k s t. check_in_range k lo stop" True] few obtain target where
    "collect_visible_entries P (ScanRange lo stop) (\<lambda>k s t. check_in_range k lo stop) True None S = Inr target"
    "live_entries_of target = live_pairs (\<lambda>k. above lo k \<and> below stop k) (concat tabs @ concat imms @ mem)"
    by (auto simp: check_in_range_bounds)
  then show ?thesis by (simp add: lsm_scan_bounded_def lo_def Let_def page_of_live [OF limit])
qed

text \<open>Every page shortens what is left, so following the cursors ends.\<close>

lemma scan_pages_from:
  assumes holds: "lsm_holds P S tabs imms mem" and vis: "all_visible S (concat tabs @ concat imms @ mem)"
    and limit: "0 < limit"
  shows "\<not> range_panics (case cursor of Some c \<Rightarrow> Excluded c | None \<Rightarrow> start) stop \<Longrightarrow>
    card (scanned_keys (\<lambda>k. above (case cursor of Some c \<Rightarrow> Excluded c | None \<Rightarrow> start) k \<and> below stop k)
      (concat tabs @ concat imms @ mem)) \<le> MAX_SCAN_MERGE_ACCUMULATOR \<Longrightarrow>
    length (live_pairs (\<lambda>k. above (case cursor of Some c \<Rightarrow> Excluded c | None \<Rightarrow> start) k \<and> below stop k) (concat tabs @ concat imms @ mem)) < n \<Longrightarrow>
    scan_pages n P start stop limit cursor S =
      Some (Inr (live_pairs (\<lambda>k. above (case cursor of Some c \<Rightarrow> Excluded c | None \<Rightarrow> start) k \<and> below stop k) (concat tabs @ concat imms @ mem)))"
proof (induction n arbitrary: cursor)
  case (Suc n)
  define ps where "ps = concat tabs @ concat imms @ mem"
  define lo where "lo = (case cursor of Some c \<Rightarrow> Excluded c | None \<Rightarrow> start)"
  define L where "L = live_pairs (\<lambda>k. above lo k \<and> below stop k) ps"
  have page: "lsm_scan_bounded P start stop limit cursor S = Inr (take limit L, if limit < length L then Some (fst (L ! (limit - 1))) else None)"
    using scan_bounded_page [OF holds vis Suc.prems(2,1) limit] unfolding L_def lo_def ps_def Let_def .
  show ?case
  proof (cases "limit < length L")
    case False
    then show ?thesis using page by (simp add: L_def lo_def ps_def)
  next
    case True
    define c where "c = fst (L ! (limit - 1))"
    have i: "limit - 1 < length L" "Suc (limit - 1) = limit" using True limit by simp_all
    have rest: "live_pairs (\<lambda>k. above (Excluded c) k \<and> below stop k) ps = drop limit L" "below stop c" "above lo c"
      using live_pairs_after [of "limit - 1" lo stop ps] i unfolding L_def [symmetric] c_def by simp_all
    have "\<not> range_panics (Excluded c) stop" using rest(2) by (cases stop) auto
    moreover have "card (scanned_keys (\<lambda>k. above (Excluded c) k \<and> below stop k) ps) \<le> MAX_SCAN_MERGE_ACCUMULATOR"
    proof -
      have "above lo k" if "c < k" for k using rest(3) that by (cases lo) auto
      then have "scanned_keys (\<lambda>k. above (Excluded c) k \<and> below stop k) ps \<subseteq> scanned_keys (\<lambda>k. above lo k \<and> below stop k) ps"
        by (auto simp: scanned_keys_def)
      from card_mono [OF finite_scanned_keys this] Suc.prems(2) show ?thesis unfolding lo_def ps_def by linarith
    qed
    moreover have "length (drop limit L) < n" using Suc.prems(3) True limit unfolding L_def [symmetric] lo_def [symmetric] ps_def [symmetric] by simp
    ultimately have "scan_pages n P start stop limit (Some c) S = Some (Inr (drop limit L))"
      using Suc.IH [of "Some c"] rest(1) by (simp add: ps_def)
    moreover have "take limit L @ drop limit L = L" by simp
    moreover have "lsm_scan_bounded P start stop limit cursor S = Inr (take limit L, Some c)" using page True unfolding c_def by simp
    ultimately show ?thesis unfolding L_def [symmetric] lo_def [symmetric] ps_def [symmetric] by simp
  qed
qed simp

text \<open>
  A limit is also applied to every table before the merge, tombstones included: a deleted key takes
  the place of a live one.
\<close>

lemma table_newest_of_entries:
  assumes "table_newest_of P R ps" and sorted: "sorted_wrt (<) (map fst ps)"
  shows "table_entries P (ScanRange Unbounded Unbounded) R = Inr ps"
proof -
  obtain es where es: "holds_entries (lp_crc32 P) (lp_blake3 P) R es" "\<And>k. map_of es k = map_option snd (latest_put (\<lambda>p. fst p = k) ps)"
    using assms(1) unfolding table_newest_of_def by blast
  have wf: "bt_wf es" "bt_wf ps" using holds_entries_sorted [OF es(1)] sorted by (simp_all add: bt_wf_def)
  have "map_of es k = map_of ps k" for k
    unfolding es(2) latest_put_def filter_key_distinct [OF bt_wf_distinct [OF wf(2)]] by (cases "map_of ps k") simp_all
  then have "es = ps" using bt_wf_ext [OF wf] by blast
  then show ?thesis by (simp add: table_entries_holds [OF es(1)] in_mode_def)
qed

lemma scan_limit_loses_keys:
  assumes holds: "lsm_holds P S [[(a, va, s1, t1), (b, vb, s2, t2)], [(a, [], s3, t3)]] [] []"
    and vis: "all_visible S [(a, va, s1, t1), (b, vb, s2, t2), (a, [], s3, t3)]"
    and ab: "a < b" and live: "\<not> is_tombstone s1" "\<not> is_tombstone s2" and dead: "is_tombstone s3"
  shows "lsm_scan P Unbounded Unbounded None S = Inr [(b, vb)] \<and> lsm_scan P Unbounded Unbounded (Some 1) S = Inr []"
proof
  let ?tabs = "[[(a, va, s1, t1), (b, vb, s2, t2)], [(a, [], s3, t3)]]"
  have ne: "a \<noteq> b" using ab by auto
  have "mode_ok (ScanRange Unbounded Unbounded) (\<lambda>k. True)" by (simp add: mode_ok_def in_mode_def)
  from scan_collects [OF holds _ this, of "\<lambda>k s t. check_in_range k Unbounded Unbounded" False] vis
  have "lsm_scan P Unbounded Unbounded None S = Inr (live_pairs (\<lambda>k. True) (concat ?tabs))"
    by (auto simp: lsm_scan_def check_in_range_def)
  also have "live_pairs (\<lambda>k. True) (concat ?tabs) = [(b, vb)]"
  proof -
    have "sorted_list_of_set {a, b} = [a, b]" using ab ne by (simp add: sorted_list_of_set_insert)
    then show ?thesis using ne live dead by (simp add: live_pairs_def newest_value_def latest_put_def live_value_def insert_commute)
  qed
  finally show "lsm_scan P Unbounded Unbounded None S = Inr [(b, vb)]" .
  obtain R1 R2 where R: "map sh_reader (fst (ls_tables S)) = [R1, R2]" "table_newest_of P R1 [(a, va, s1, t1), (b, vb, s2, t2)]"
    "table_newest_of P R2 [(a, [], s3, t3)]"
    using holds by (auto simp: lsm_holds_def list_all2_Cons2)
  have mem: "ls_immutable S = []" "mt_iter (ls_memtable S) = []" using holds mt_iter_sorts [of "[]" "ls_memtable S"] by (simp_all add: lsm_holds_def)
  have seq: "raw_seq s1 < raw_seq s3" using holds by (auto simp: lsm_holds_def)
  have tx: "t1 \<le> ls_last_committed_tx S \<or> INTERNAL_BASE \<le> t1" "t3 \<le> ls_last_committed_tx S \<or> INTERNAL_BASE \<le> t3"
    using vis by (auto simp: all_visible_def tx_visible_def)
  have es: "table_entries P (ScanRange Unbounded Unbounded) R1 = Inr [(a, va, s1, t1), (b, vb, s2, t2)]"
    "table_entries P (ScanRange Unbounded Unbounded) R2 = Inr [(a, [], s3, t3)]"
    using table_newest_of_entries [OF R(2)] table_newest_of_entries [OF R(3)] ab by simp_all
  have "collect_visible_entries P (ScanRange Unbounded Unbounded) (\<lambda>k s t. check_in_range k Unbounded Unbounded) False (Some 1) S = Inr [(a, [], s3)]"
    using tx seq by (simp add: collect_visible_entries_def R(1) es mem scan_memtable_def check_in_range_def merge_entry_def)
  then show "lsm_scan P Unbounded Unbounded (Some 1) S = Inr []" using dead by (simp add: lsm_scan_def)
qed

section \<open>Properties\<close>

text \<open>
  C3. Scans over all layers are exact: on a store whose puts are visible, internal ones included,
  a prefix scan and an unlimited range scan return, in key order, every key of the range whose
  newest put is not a tombstone, with the value of that put.
\<close>

theorem lsm_scans_exact:
  assumes "lsm_holds P S tabs imms mem" "all_visible S (concat tabs @ concat imms @ mem)" "\<not> range_panics start stop"
  shows "lsm_scan_prefix P p S = Inr (live_pairs (starts_with p) (concat tabs @ concat imms @ mem)) \<and>
    lsm_scan P start stop None S = Inr (live_pairs (\<lambda>k. above start k \<and> below stop k) (concat tabs @ concat imms @ mem))"
proof
  have "mode_ok (ScanPrefix p) (starts_with p)" by (simp add: mode_ok_def in_mode_def)
  from scan_collects [OF assms(1,2) this, of "\<lambda>k s t. s \<le> - 1 \<and> starts_with p k" False]
  show "lsm_scan_prefix P p S = Inr (live_pairs (starts_with p) (concat tabs @ concat imms @ mem))"
    by (auto simp: lsm_scan_prefix_def lsm_scan_prefix_at_def)
  have "mode_ok (ScanRange start stop) (\<lambda>k. above start k \<and> below stop k)" using assms(3) by (simp add: mode_ok_def in_mode_def)
  from scan_collects [OF assms(1,2) this, of "\<lambda>k s t. check_in_range k start stop" False]
  show "lsm_scan P start stop None S = Inr (live_pairs (\<lambda>k. above start k \<and> below stop k) (concat tabs @ concat imms @ mem))"
    by (auto simp: lsm_scan_def check_in_range_bounds)
qed

lemma example_visible: "all_visible (example_lsm 4) (concat [] @ concat [] @ [([1], [2], 3, 4)])"
  by (simp add: all_visible_def example_lsm_def tx_visible_def)

lemma example_live: "live_pairs Q (concat [] @ concat [] @ [([1], [2], 3, 4)]) = (if Q [1] then [([1], [2])] else [])"
  by (simp add: live_pairs_def newest_value_def latest_put_def live_value_def is_tombstone_def TOMBSTONE_BIT_def)

theorem lsm_scans_exact_witness:
  "lsm_scan_prefix example_lsm_params [1] (example_lsm 4) = Inr [([1], [2])] \<and>
   lsm_scan example_lsm_params (Included [1]) (Excluded [5]) None (example_lsm 4) = Inr [([1], [2])]"
  using lsm_scans_exact [OF example_lsm_flush(1) example_visible, of "Included [1]" "Excluded [5]" "[1]"]
  by (simp add: example_live starts_with_def del: concat.simps append.simps)

text \<open>
  C4. Pagination over a range, on a store whose puts are visible and with any positive page size.
  If the range covers at most \<open>MAX_SCAN_MERGE_ACCUMULATOR\<close> (100000) distinct keys, deleted ones
  included, then starting without a cursor and following the cursor of each page ends after
  finitely many pages and returns exactly what the unlimited scan of the range returns; one more
  page than there are results is enough. If it covers more, already the first page fails with
  \<open>LimitExceeded\<close>.
\<close>

theorem scan_pages_complete:
  assumes "lsm_holds P S tabs imms mem" "all_visible S (concat tabs @ concat imms @ mem)" "\<not> range_panics start stop" "0 < limit"
  shows "if card {k \<in> fst ` set (concat tabs @ concat imms @ mem). above start k \<and> below stop k} \<le> MAX_SCAN_MERGE_ACCUMULATOR
    then \<exists>xs. lsm_scan P start stop None S = Inr xs \<and> (\<forall>n > length xs. scan_pages n P start stop limit None S = Some (Inr xs))
    else lsm_scan_bounded P start stop limit None S = Inl (LimitExceeded MAX_SCAN_MERGE_ACCUMULATOR) \<and>
      (\<forall>n > 0. scan_pages n P start stop limit None S = Some (Inl (LimitExceeded MAX_SCAN_MERGE_ACCUMULATOR)))"
proof -
  let ?Q = "\<lambda>k. above start k \<and> below stop k" and ?ps = "concat tabs @ concat imms @ mem"
  have mode: "mode_ok (ScanRange start stop) ?Q" using assms(3) by (simp add: mode_ok_def in_mode_def)
  show ?thesis
  proof (cases "card (scanned_keys ?Q ?ps) \<le> MAX_SCAN_MERGE_ACCUMULATOR")
    case True
    from scan_collects [OF assms(1,2) mode, of "\<lambda>k s t. check_in_range k start stop" False]
    have "lsm_scan P start stop None S = Inr (live_pairs ?Q ?ps)"
      by (auto simp: lsm_scan_def check_in_range_bounds)
    with scan_pages_from [OF assms(1,2,4), where cursor = None and start = start and stop = stop] assms(3) True
    show ?thesis by (simp add: scanned_keys_def)
  next
    case False
    have "scan_sees (\<lambda>k s t. check_in_range k start stop) (ls_last_committed_tx S) ?Q ?ps"
      by (rule all_visible_sees [OF assms(2)]) (simp add: check_in_range_bounds)
    from collect_many [OF assms(1) this mode] False
    have e: "lsm_scan_bounded P start stop limit None S = Inl (LimitExceeded MAX_SCAN_MERGE_ACCUMULATOR)"
      by (simp add: lsm_scan_bounded_def)
    then have "scan_pages n P start stop limit None S = Some (Inl (LimitExceeded MAX_SCAN_MERGE_ACCUMULATOR))" if "0 < n" for n
      using that by (cases n) simp_all
    with e False show ?thesis by (simp add: scanned_keys_def)
  qed
qed

theorem scan_pages_complete_witness:
  "scan_pages 2 example_lsm_params Unbounded Unbounded 1 None (example_lsm 4) = Some (Inr [([1], [2])])"
proof -
  obtain xs where xs: "lsm_scan example_lsm_params Unbounded Unbounded None (example_lsm 4) = Inr xs"
    "\<forall>n > length xs. scan_pages n example_lsm_params Unbounded Unbounded 1 None (example_lsm 4) = Some (Inr xs)"
    using scan_pages_complete [OF example_lsm_flush(1) example_visible, of Unbounded Unbounded 1] by (auto simp: MAX_SCAN_MERGE_ACCUMULATOR_def split: if_splits)
  have "mode_ok (ScanRange Unbounded Unbounded) (\<lambda>k. True)" by (simp add: mode_ok_def in_mode_def)
  from scan_collects [OF example_lsm_flush(1) example_visible this, of "\<lambda>k s t. check_in_range k Unbounded Unbounded" False]
  have "xs = [([1], [2])]" using xs(1) unfolding example_live by (auto simp: lsm_scan_def check_in_range_def)
  then show ?thesis using xs(2) by simp
qed

end
