(* ===== verification/Radix_Tree.thy ===== *)
theory Radix_Tree
  imports Tenant_Codec
begin

text \<open>
  The prefix radix tree of the KV cache (\<open>contextra-kvcache/src/radix.rs\<close>): a compressed trie
  over token sequences that maps each inserted sequence to a block id. The nodes keep the code's
  layout, a vector of children per node that is searched front to back; the loops over the
  vector are recursions over the list. \<open>usize\<close> counters of in-memory entries are naturals.

  \<open>radix_get\<close> reads one sequence out of the tree and \<open>radix_wf\<close> is the structural invariant: no
  empty label, and siblings start with different tokens. Insertion and removal refine the update
  of a finite map, the entry counter is the size of that map, and \<open>find_longest_prefix\<close> equals
  the search for the longest stored prefix that the policy accepts. The locale \<open>prefix_index\<close>
  is what the stores above the tree rely on.
\<close>

named_theorems radix_simps \<open>radix tree operations\<close>

section \<open>Reuse policy\<close>

datatype kv_reuse_policy = Always | CostBased nat | Never

definition default_reuse_policy :: kv_reuse_policy where
  "default_reuse_policy = CostBased 4"

fun should_reuse :: "kv_reuse_policy \<Rightarrow> nat \<Rightarrow> bool" where
  "should_reuse Always matched_len = (matched_len > 0)"
| "should_reuse (CostBased min_prefix_len) matched_len = (matched_len \<ge> min_prefix_len)"
| "should_reuse Never matched_len = False"

section \<open>Nodes and tree\<close>

record prefix_match =
  pm_matched_tokens :: "u32 list"
  pm_matched_len :: nat
  pm_block_id :: u64

datatype radix_node = RadixNode (rn_tokens: "u32 list") (rn_block_id: "u64 option")
  (rn_children: "radix_node list")

definition lcp_len :: "u32 list \<Rightarrow> u32 list \<Rightarrow> nat" where
  "lcp_len a b = length (takeWhile (\<lambda>(x, y). x = y) (zip a b))"

record prefix_radix_tree =
  prt_tenant_id :: tenant_id
  prt_children :: "radix_node list"
  prt_total_entries :: nat

definition prt_new :: "tenant_id \<Rightarrow> prefix_radix_tree" where
  "prt_new tenant = \<lparr>prt_tenant_id = tenant, prt_children = [], prt_total_entries = 0\<rparr>"

fun insert_into_vec ::
  "radix_node list \<Rightarrow> u32 list \<Rightarrow> u64 \<Rightarrow> nat \<Rightarrow> radix_node list \<times> nat" where
  "insert_into_vec [] tokens block_id tot =
     ([RadixNode tokens (Some block_id) []], tot + 1)"
| "insert_into_vec (RadixNode ts bid cs # nodes) tokens block_id tot =
     (let lcp = lcp_len ts tokens in
      if lcp = 0 then
        (let (nodes', tot') = insert_into_vec nodes tokens block_id tot
         in (RadixNode ts bid cs # nodes', tot'))
      else if lcp = length ts then
        (let remaining = drop lcp tokens in
         if remaining = []
         then (RadixNode ts (Some block_id) cs # nodes, if bid = None then tot + 1 else tot)
         else (let (cs', tot') = insert_into_vec cs remaining block_id tot
               in (RadixNode ts bid cs' # nodes, tot')))
      else
        (let old_child = RadixNode (drop lcp ts) bid cs; query_remaining = drop lcp tokens in
         if query_remaining = []
         then (RadixNode (take lcp ts) (Some block_id) [old_child] # nodes, tot + 1)
         else (RadixNode (take lcp ts) None
                 [old_child, RadixNode query_remaining (Some block_id) []] # nodes, tot + 1)))"

definition prt_insert ::
  "prefix_radix_tree \<Rightarrow> u32 list \<Rightarrow> u64 \<Rightarrow> prefix_radix_tree res" where
  "prt_insert t tokens block_id =
     (if tokens = []
      then Inl (InvalidInput ''Cannot insert empty token sequence into PrefixRadixTree'')
      else let (nodes, tot) =
             insert_into_vec (prt_children t) tokens block_id (prt_total_entries t)
           in Inr (t\<lparr>prt_children := nodes, prt_total_entries := tot\<rparr>))"

text \<open>
  The \<open>while\<close> loop of \<open>find_longest_prefix\<close>: one round takes the first child that shares a token
  with the rest of the query and either ends or descends past the whole label of that child.
\<close>

lemma find_holds: "find P xs = Some y \<Longrightarrow> P y \<and> y \<in> set xs"
  by (auto simp: find_Some_iff)

function find_loop ::
  "kv_reuse_policy \<Rightarrow> radix_node list \<Rightarrow> u32 list \<Rightarrow> u32 list \<Rightarrow> prefix_match option
     \<Rightarrow> prefix_match option" where
  "find_loop policy nodes remaining acc best =
     (if remaining = [] then best
      else case find (\<lambda>n. lcp_len (rn_tokens n) remaining > 0) nodes of
        None \<Rightarrow> best
      | Some (RadixNode ts bid cs) \<Rightarrow>
          let lcp = lcp_len ts remaining; acc' = acc @ take lcp ts in
          if lcp = length ts
          then find_loop policy cs (drop lcp remaining) acc'
                 (case bid of
                    None \<Rightarrow> best
                  | Some b \<Rightarrow>
                      if should_reuse policy (length acc')
                      then Some \<lparr>pm_matched_tokens = acc', pm_matched_len = length acc',
                                 pm_block_id = b\<rparr>
                      else best)
          else best)"
  by pat_completeness auto
termination
  by (relation "measure (\<lambda>(policy, nodes, remaining, acc, best). length remaining)")
    (auto dest: find_holds)

declare find_loop.simps [simp del]

definition find_longest_prefix ::
  "prefix_radix_tree \<Rightarrow> u32 list \<Rightarrow> kv_reuse_policy \<Rightarrow> prefix_match option" where
  "find_longest_prefix t tokens policy =
     (if tokens = [] \<or> policy = Never then None
      else find_loop policy (prt_children t) tokens [] None)"

fun remove_from_vec ::
  "radix_node list \<Rightarrow> u32 list \<Rightarrow> nat \<Rightarrow> radix_node list \<times> nat \<times> u64 option" where
  "remove_from_vec [] tokens tot = ([], tot, None)"
| "remove_from_vec (RadixNode ts bid cs # nodes) tokens tot =
     (let lcp = lcp_len ts tokens in
      if lcp = length ts then
        (let remaining = drop lcp tokens in
         if remaining = [] then
           (case bid of
              Some b \<Rightarrow> (RadixNode ts None cs # nodes, tot - 1, Some b)
            | None \<Rightarrow> (RadixNode ts None cs # nodes, tot, None))
         else (let (cs', tot', r) = remove_from_vec cs remaining tot
               in (RadixNode ts bid cs' # nodes, tot', r)))
      else (let (nodes', tot', r) = remove_from_vec nodes tokens tot
            in (RadixNode ts bid cs # nodes', tot', r)))"

definition prt_remove ::
  "prefix_radix_tree \<Rightarrow> u32 list \<Rightarrow> prefix_radix_tree \<times> u64 option" where
  "prt_remove t tokens =
     (if tokens = [] then (t, None)
      else let (nodes, tot, r) = remove_from_vec (prt_children t) tokens (prt_total_entries t)
           in (t\<lparr>prt_children := nodes, prt_total_entries := tot\<rparr>, r))"

definition prt_len :: "prefix_radix_tree \<Rightarrow> nat" where
  "prt_len t = prt_total_entries t"

definition prt_is_empty :: "prefix_radix_tree \<Rightarrow> bool" where
  "prt_is_empty t \<longleftrightarrow> prt_total_entries t = 0"

definition prt_clear :: "prefix_radix_tree \<Rightarrow> prefix_radix_tree" where
  "prt_clear t = t\<lparr>prt_children := [], prt_total_entries := 0\<rparr>"

section \<open>Common prefixes\<close>

lemma lcp_len_Nil [simp]: "lcp_len [] b = 0" "lcp_len a [] = 0"
  by (simp_all add: lcp_len_def)

lemma lcp_len_Cons [simp]:
  "lcp_len (x # a) (y # b) = (if x = y then Suc (lcp_len a b) else 0)"
  by (simp add: lcp_len_def)

lemma lcp_len_le: "lcp_len a b \<le> length a" "lcp_len a b \<le> length b"
  by (induction a b rule: list_induct2') auto

lemma lcp_len_zero: "a \<noteq> [] \<Longrightarrow> b \<noteq> [] \<Longrightarrow> lcp_len a b = 0 \<longleftrightarrow> hd a \<noteq> hd b"
  by (cases a; cases b) auto

lemma lcp_len_take: "take (lcp_len a b) a = take (lcp_len a b) b"
  by (induction a b rule: list_induct2') auto

lemma lcp_len_full: "lcp_len a b = length a \<longleftrightarrow> starts_with a b"
  by (induction a b rule: list_induct2') (auto simp: starts_with_def)

lemma lcp_len_split:
  "lcp_len a b < length a \<Longrightarrow> lcp_len a b < length b \<Longrightarrow>
     hd (drop (lcp_len a b) a) \<noteq> hd (drop (lcp_len a b) b)"
  by (induction a b rule: list_induct2') auto

section \<open>The tree as a finite map\<close>

fun radix_get :: "radix_node list \<Rightarrow> u32 list \<Rightarrow> u64 option" where
  "radix_get [] q = None"
| "radix_get (RadixNode ts bid cs # nodes) q =
     (if starts_with ts q
      then (if drop (length ts) q = [] then bid else radix_get cs (drop (length ts) q))
      else radix_get nodes q)"

fun radix_wf :: "radix_node list \<Rightarrow> bool" where
  "radix_wf [] = True"
| "radix_wf (RadixNode ts bid cs # nodes) \<longleftrightarrow>
     ts \<noteq> [] \<and> radix_wf cs \<and> radix_wf nodes \<and> (\<forall>n\<in>set nodes. hd (rn_tokens n) \<noteq> hd ts)"

fun radix_entries :: "radix_node list \<Rightarrow> (u32 list \<times> u64) list" where
  "radix_entries [] = []"
| "radix_entries (RadixNode ts bid cs # nodes) =
     (case bid of None \<Rightarrow> [] | Some b \<Rightarrow> [(ts, b)]) @ map (\<lambda>(k, b). (ts @ k, b)) (radix_entries cs)
       @ radix_entries nodes"

definition prt_wf :: "prefix_radix_tree \<Rightarrow> bool" where
  "prt_wf t \<longleftrightarrow> radix_wf (prt_children t)
     \<and> prt_total_entries t = length (radix_entries (prt_children t))"

definition prt_map :: "prefix_radix_tree \<Rightarrow> u32 list \<Rightarrow> u64 option" where
  "prt_map t = radix_get (prt_children t)"

lemma radix_get_Nil [simp]: "radix_wf nodes \<Longrightarrow> radix_get nodes [] = None"
  by (induction nodes "[] :: u32 list" rule: radix_get.induct) (auto simp: starts_with_def)

lemma radix_get_no_head:
  "q \<noteq> [] \<Longrightarrow> radix_wf nodes \<Longrightarrow> \<forall>n\<in>set nodes. hd (rn_tokens n) \<noteq> hd q \<Longrightarrow>
     radix_get nodes q = None"
proof (induction nodes)
  case (Cons n nodes)
  then show ?case by (cases n; cases q; cases "rn_tokens n") auto
qed simp

lemma radix_wf_nonempty: "radix_wf nodes \<Longrightarrow> n \<in> set nodes \<Longrightarrow> rn_tokens n \<noteq> []"
proof (induction nodes)
  case (Cons a nodes)
  then show ?case by (cases a) auto
qed simp

lemma radix_wf_child: "radix_wf nodes \<Longrightarrow> n \<in> set nodes \<Longrightarrow> radix_wf (rn_children n)"
proof (induction nodes)
  case (Cons a nodes)
  then show ?case by (cases a) auto
qed simp

lemma starts_withD: "starts_with p q \<Longrightarrow> q = p @ drop (length p) q"
  by (metis append_take_drop_id starts_with_def)

lemma starts_with_hd: "starts_with p q \<Longrightarrow> p \<noteq> [] \<Longrightarrow> q \<noteq> [] \<and> hd q = hd p"
  by (cases p; cases q) auto

section \<open>Insertion\<close>

lemma insert_into_vec_heads:
  "radix_wf nodes \<Longrightarrow> tokens \<noteq> [] \<Longrightarrow>
     (\<lambda>n. hd (rn_tokens n)) ` set (fst (insert_into_vec nodes tokens b k))
       = insert (hd tokens) ((\<lambda>n. hd (rn_tokens n)) ` set nodes)"
proof (induction nodes tokens b k rule: insert_into_vec.induct)
  case (2 ts bid cs nodes tokens b k)
  show ?case
  proof (cases "lcp_len ts tokens = 0")
    case True
    with 2 show ?thesis by (auto simp: Let_def split: prod.splits)
  next
    case False
    then have "hd ts = hd tokens" "hd (take (lcp_len ts tokens) ts) = hd ts"
      using "2.prems" lcp_len_zero [of ts tokens] by auto
    with False show ?thesis by (auto simp: Let_def split: prod.splits)
  qed
qed simp

lemma radix_wf_insert:
  "radix_wf nodes \<Longrightarrow> tokens \<noteq> [] \<Longrightarrow> radix_wf (fst (insert_into_vec nodes tokens b k))"
proof (induction nodes tokens b k rule: insert_into_vec.induct)
  case (2 ts bid cs nodes tokens b k)
  consider (skip) "lcp_len ts tokens = 0" | (full) "lcp_len ts tokens = length ts" "ts \<noteq> []"
    | (split) "0 < lcp_len ts tokens" "lcp_len ts tokens < length ts"
    using lcp_len_le(1) [of ts tokens] by force
  then show ?case
  proof cases
    case skip
    then have h: "hd ts \<noteq> hd tokens" using "2.prems" lcp_len_zero by auto
    have "(\<lambda>n. hd (rn_tokens n)) ` set (fst (insert_into_vec nodes tokens b k))
        = insert (hd tokens) ((\<lambda>n. hd (rn_tokens n)) ` set nodes)"
      using "2.prems" by (intro insert_into_vec_heads) auto
    then have "\<forall>n\<in>set (fst (insert_into_vec nodes tokens b k)). hd (rn_tokens n) \<noteq> hd ts"
      using h "2.prems"(1) by (metis (no_types, lifting) image_iff insert_iff radix_wf.simps(2))
    with skip 2 show ?thesis by (auto simp: Let_def split: prod.splits)
  next
    case full
    with 2 show ?thesis by (auto simp: Let_def split: prod.splits)
  next
    case split
    then have "hd (take (lcp_len ts tokens) ts) = hd ts" by (simp add: hd_take)
    with split "2.prems" lcp_len_split [of ts tokens] show ?thesis
      by (auto simp: Let_def)
  qed
qed simp

lemma starts_with_append_iff:
  "starts_with (a @ b) q \<longleftrightarrow> starts_with a q \<and> starts_with b (drop (length a) q)"
proof (induction a arbitrary: q)
  case (Cons x a)
  then show ?case by (cases q) simp_all
qed simp

lemma radix_get_insert:
  "radix_wf nodes \<Longrightarrow> tokens \<noteq> [] \<Longrightarrow> q \<noteq> [] \<Longrightarrow>
     radix_get (fst (insert_into_vec nodes tokens b k)) q
       = (if q = tokens then Some b else radix_get nodes q)"
proof (induction nodes tokens b k arbitrary: q rule: insert_into_vec.induct)
  case (1 tokens b k)
  then show ?case by (auto simp: starts_with_def)
next
  case (2 ts bid cs nodes tokens b k)
  define l where "l = lcp_len ts tokens"
  have le: "l \<le> length ts" "l \<le> length tokens" by (simp_all add: l_def lcp_len_le)
  have tk: "take l ts = take l tokens" by (simp add: l_def lcp_len_take)
  consider (skip) "l = 0" | (full) "l = length ts" "ts \<noteq> []" | (split) "0 < l" "l < length ts"
    using le by force
  then show ?case
  proof cases
    case skip
    then have "\<not> starts_with ts tokens"
      using "2.prems" lcp_len_full [of ts tokens] by (simp add: l_def)
    with skip 2 show ?thesis by (auto simp: Let_def l_def split: prod.splits)
  next
    case full
    then have tks: "tokens = ts @ drop l tokens" using tk by (metis append_take_drop_id take_all_iff le_refl)
    show ?thesis
    proof (cases "drop l tokens = []")
      case True
      with full tks have "tokens = ts" by simp
      with full 2 show ?thesis
        by (auto simp: Let_def l_def starts_with_def)
    next
      case False
      have q: "starts_with ts q \<Longrightarrow> q = ts @ drop l q" using starts_withD [of ts q] full by simp
      have "radix_get (fst (insert_into_vec cs (drop l tokens) b k)) (drop l q)
          = (if drop l q = drop l tokens then Some b else radix_get cs (drop l q))"
        if "drop l q \<noteq> []"
        using "2.IH"(2) [of l "drop l tokens" "drop l q"] full False that "2.prems"
        by (simp add: l_def)
      moreover have "starts_with ts tokens" using tks starts_with_append by metis
      moreover have "q = tokens \<longleftrightarrow> drop l q = drop l tokens" if "starts_with ts q"
        using q [OF that] tks by (metis same_append_eq)
      ultimately show ?thesis using full False
        by (auto simp: Let_def l_def split: prod.splits)
    qed
  next
    case split
    have sw: "starts_with ts q \<longleftrightarrow> starts_with (take l ts) q \<and> starts_with (drop l ts) (drop l q)"
      using starts_with_append_iff [of "take l ts" "drop l ts" q] le by simp
    have tks: "tokens = take l ts @ drop l tokens" by (simp add: tk)
    have ln: "length (take l ts) = l" using le by simp
    have res: "fst (insert_into_vec (RadixNode ts bid cs # nodes) tokens b k) =
        (if drop l tokens = []
         then RadixNode (take l ts) (Some b) [RadixNode (drop l ts) bid cs] # nodes
         else RadixNode (take l ts) None
           [RadixNode (drop l ts) bid cs, RadixNode (drop l tokens) (Some b) []] # nodes)"
      using split by (simp add: Let_def l_def)
    have nohead: "radix_get nodes q = None" if "starts_with (take l ts) q"
    proof (rule radix_get_no_head)
      have "hd q = hd ts" using starts_with_hd [OF that] split by (simp add: hd_take) (metis list.size(3) not_less_zero)
      then show "\<forall>n\<in>set nodes. hd (rn_tokens n) \<noteq> hd q" using "2.prems"(1) by auto
    qed (use "2.prems" in auto)
    have dd: "drop (length (drop l ts)) (drop l q) = drop (length ts) q"
      using le by (simp add: add.commute)
    show ?thesis
    proof (cases "starts_with (take l ts) q")
      case False
      then have "q \<noteq> tokens" using tks starts_with_append [of "take l ts" "drop l tokens"] by metis
      with False sw res show ?thesis by (simp add: ln)
    next
      case True
      have qe: "q = take l ts @ drop l q" using starts_withD [OF True] ln by simp
      then have qt: "q = tokens \<longleftrightarrow> drop l q = drop l tokens" using tks by (metis same_append_eq)
      have ne: "\<not> starts_with (drop l ts) (drop l tokens)" if "drop l tokens \<noteq> []"
        using that starts_with_hd [of "drop l ts" "drop l tokens"] split
          lcp_len_split [of ts tokens] by (auto simp: l_def)
      show ?thesis using True sw res qt ne nohead [OF True] split
        by (auto simp: ln dd starts_with_def)
    qed
  qed
qed

section \<open>Entries and the entry counter\<close>

lemma length_entries_insert:
  "radix_wf nodes \<Longrightarrow> tokens \<noteq> [] \<Longrightarrow>
     snd (insert_into_vec nodes tokens b k) + length (radix_entries nodes)
       = k + length (radix_entries (fst (insert_into_vec nodes tokens b k)))"
proof (induction nodes tokens b k rule: insert_into_vec.induct)
  case (2 ts bid cs nodes tokens b k)
  have "lcp_len ts tokens = 0 \<or> lcp_len ts tokens = length ts
      \<or> lcp_len ts tokens \<noteq> 0 \<and> lcp_len ts tokens \<noteq> length ts" by blast
  with 2 show ?case by (auto simp: Let_def split: prod.splits option.splits)
qed simp

lemma radix_entries_nonempty: "radix_wf nodes \<Longrightarrow> (q, b) \<in> set (radix_entries nodes) \<Longrightarrow> q \<noteq> []"
  by (induction nodes arbitrary: q rule: radix_entries.induct) (auto split: option.splits)

lemma radix_entries_get:
  "radix_wf nodes \<Longrightarrow> (q, b) \<in> set (radix_entries nodes) \<longleftrightarrow> q \<noteq> [] \<and> radix_get nodes q = Some b"
proof (induction nodes arbitrary: q rule: radix_entries.induct)
  case (2 ts bid cs nodes)
  have cs: "\<And>q. (q, b) \<in> set (radix_entries cs) \<longleftrightarrow> q \<noteq> [] \<and> radix_get cs q = Some b"
    and ns: "\<And>q. (q, b) \<in> set (radix_entries nodes) \<longleftrightarrow> q \<noteq> [] \<and> radix_get nodes q = Some b"
    and ts: "ts \<noteq> []" using 2 by auto
  show ?case
  proof (cases "starts_with ts q")
    case True
    then obtain r where q: "q = ts @ r" using starts_withD by blast
    have "radix_get nodes q = None"
      using radix_get_no_head [of q nodes] "2.prems" q ts by auto
    then show ?thesis using q ts ns [of q] cs by (auto split: option.splits)
  next
    case False
    then have "\<And>r. q \<noteq> ts @ r" by auto
    moreover have "q \<noteq> ts" using False by (auto simp: starts_with_def)
    ultimately show ?thesis using False ns by (auto split: option.splits)
  qed
qed simp

lemma radix_entries_keys:
  "map fst (radix_entries (RadixNode ts bid cs # nodes)) =
     (if bid = None then [] else [ts]) @ map ((@) ts) (map fst (radix_entries cs))
       @ map fst (radix_entries nodes)"
  by (simp add: comp_def case_prod_unfold split: option.splits)

lemma radix_entries_distinct: "radix_wf nodes \<Longrightarrow> distinct (map fst (radix_entries nodes))"
proof (induction nodes rule: radix_entries.induct)
  case (2 ts bid cs nodes)
  have d: "distinct (map fst (radix_entries cs))" "distinct (map fst (radix_entries nodes))"
    using 2 by auto
  have a: "distinct (map ((@) ts) (map fst (radix_entries cs)))"
    using d(1) by (simp add: distinct_map inj_on_def)
  have b: "q \<notin> set (map fst (radix_entries nodes))" if "starts_with ts q" for q
  proof
    assume "q \<in> set (map fst (radix_entries nodes))"
    then obtain b where "radix_get nodes q = Some b" "q \<noteq> []"
      using radix_entries_get [of nodes] "2.prems" by fastforce
    moreover have "hd q = hd ts" using starts_with_hd [OF that] "2.prems" by auto
    ultimately show False using radix_get_no_head [of q nodes] "2.prems" by auto
  qed
  have c: "ts \<notin> set (map ((@) ts) (map fst (radix_entries cs)))"
    using radix_entries_nonempty [of cs] "2.prems" by fastforce
  have f: "set (map ((@) ts) (map fst (radix_entries cs))) \<inter> set (map fst (radix_entries nodes)) = {}"
  proof -
    have "starts_with ts q" if "q \<in> set (map ((@) ts) (map fst (radix_entries cs)))" for q
      using that by auto
    then show ?thesis using b by blast
  qed
  have e: "ts \<notin> set (map fst (radix_entries nodes))" using b [of ts] by (simp add: starts_with_def)
  show ?case unfolding radix_entries_keys
    using a c d(2) e f by (simp add: disjoint_iff)
qed simp

lemma map_of_radix_entries:
  assumes "radix_wf nodes"
  shows "map_of (radix_entries nodes) q = radix_get nodes q"
proof (cases "map_of (radix_entries nodes) q")
  case None
  then have "\<And>b. (q, b) \<notin> set (radix_entries nodes)" by (force simp: map_of_eq_None_iff)
  then have "q \<noteq> [] \<Longrightarrow> radix_get nodes q = None" using radix_entries_get [OF assms] by fastforce
  then show ?thesis using None assms by (cases "q = []") auto
next
  case (Some b)
  then have "(q, b) \<in> set (radix_entries nodes)" by (rule map_of_SomeD)
  then have "radix_get nodes q = Some b" using radix_entries_get [OF assms, of q b] by blast
  then show ?thesis using Some by simp
qed

lemma prt_len_card: "prt_wf t \<Longrightarrow> prt_len t = card (dom (prt_map t))"
proof -
  assume wf: "prt_wf t"
  then have "dom (prt_map t) = fst ` set (radix_entries (prt_children t))"
    using map_of_radix_entries dom_map_of_conv_image_fst unfolding prt_wf_def prt_map_def
    by (metis (no_types, opaque_lifting) ext)
  moreover have "distinct (map fst (radix_entries (prt_children t)))"
    using wf radix_entries_distinct by (simp add: prt_wf_def)
  ultimately show ?thesis using wf distinct_card
    unfolding prt_wf_def prt_len_def by fastforce
qed

section \<open>Removal\<close>

text \<open>
  A lookup and a removal walk the same path: past a sibling whose label is no prefix of the
  sequence, to the node whose label is the sequence, or down into its children.
\<close>

lemma radix_path_induct [case_names Empty Skip Here Down]:
  assumes "\<And>q. P [] q"
    and "\<And>ts bid cs nodes q. \<not> starts_with ts q \<Longrightarrow> P nodes q \<Longrightarrow> P (RadixNode ts bid cs # nodes) q"
    and "\<And>ts bid cs nodes. P (RadixNode ts bid cs # nodes) ts"
    and "\<And>ts bid cs nodes r. r \<noteq> [] \<Longrightarrow> P cs r \<Longrightarrow> P (RadixNode ts bid cs # nodes) (ts @ r)"
  shows "P nodes q"
proof (induction nodes q rule: radix_get.induct)
  case (2 ts bid cs nodes q)
  show ?case
  proof (cases "starts_with ts q")
    case True
    define r where "r = drop (length ts) q"
    have q: "q = ts @ r" using starts_withD [OF True] by (simp add: r_def)
    show ?thesis
    proof (cases "r = []")
      case True then show ?thesis using assms(3) q by simp
    next
      case False
      then have "P cs r" using "2.IH"(1) True by (simp add: r_def \<open>starts_with ts q\<close>)
      then show ?thesis using assms(4) [OF False] q by blast
    qed
  next
    case False
    then show ?thesis using assms(2) 2 by blast
  qed
qed (rule assms(1))

lemma starts_with_refl [simp]: "starts_with ts ts"
  by (simp add: starts_with_def)

lemma remove_skip [radix_simps]:
  "\<not> starts_with ts q \<Longrightarrow> remove_from_vec (RadixNode ts bid cs # nodes) q k =
     (RadixNode ts bid cs # fst (remove_from_vec nodes q k), snd (remove_from_vec nodes q k))"
  by (simp add: remove_from_vec.simps lcp_len_full split_def Let_def)

lemma remove_here [radix_simps]:
  "remove_from_vec (RadixNode ts bid cs # nodes) ts k =
     (RadixNode ts None cs # nodes, if bid = None then k else k - 1, bid)"
  using lcp_len_full [of ts ts] by (simp split: option.splits)

lemma remove_down [radix_simps]:
  "r \<noteq> [] \<Longrightarrow> remove_from_vec (RadixNode ts bid cs # nodes) (ts @ r) k =
     (RadixNode ts bid (fst (remove_from_vec cs r k)) # nodes, snd (remove_from_vec cs r k))"
  using lcp_len_full [of ts "ts @ r"] by (simp add: split_def Let_def)

declare remove_from_vec.simps(2) [simp del]

lemma radix_get_path [radix_simps]:
  "\<not> starts_with ts q \<Longrightarrow> radix_get (RadixNode ts bid cs # nodes) q = radix_get nodes q"
  "radix_get (RadixNode ts bid cs # nodes) ts = bid"
  "r \<noteq> [] \<Longrightarrow> radix_get (RadixNode ts bid cs # nodes) (ts @ r) = radix_get cs r"
  by simp_all

lemma remove_from_vec_labels:
  "map rn_tokens (fst (remove_from_vec nodes tokens k)) = map rn_tokens nodes"
  by (induction nodes tokens rule: radix_path_induct) (simp_all add: radix_simps)

lemma remove_from_vec_wf:
  "radix_wf nodes \<Longrightarrow> radix_wf (fst (remove_from_vec nodes tokens k))"
proof (induction nodes tokens rule: radix_path_induct)
  case (Skip ts bid cs nodes q)
  let ?ns = "fst (remove_from_vec nodes q k)"
  have "(\<lambda>n. hd (rn_tokens n)) ` set ?ns = hd ` set (map rn_tokens ?ns)"
    by (simp add: image_image)
  also have "\<dots> = (\<lambda>n. hd (rn_tokens n)) ` set nodes"
    unfolding remove_from_vec_labels by (simp add: image_image)
  finally have "\<forall>n\<in>set ?ns. hd (rn_tokens n) \<noteq> hd ts"
    using Skip.prems by (metis (no_types, lifting) image_iff radix_wf.simps(2))
  with Skip show ?case by (simp add: radix_simps)
qed (simp_all add: radix_simps)

lemma remove_from_vec_result:
  "snd (snd (remove_from_vec nodes tokens k)) = radix_get nodes tokens"
  by (induction nodes tokens rule: radix_path_induct) (simp_all add: radix_simps)

lemma remove_from_vec_count:
  "length (radix_entries nodes) \<le> k \<Longrightarrow>
     fst (snd (remove_from_vec nodes tokens k)) + length (radix_entries nodes)
       = k + length (radix_entries (fst (remove_from_vec nodes tokens k)))"
  by (induction nodes tokens rule: radix_path_induct)
    (auto simp: radix_simps split: option.splits)

lemma radix_get_remove:
  "tokens \<noteq> [] \<Longrightarrow> q \<noteq> [] \<Longrightarrow> radix_get (fst (remove_from_vec nodes tokens k)) q
     = (if q = tokens then None else radix_get nodes q)"
proof (induction nodes tokens arbitrary: q rule: radix_path_induct)
  case (Skip ts bid cs nodes tokens)
  then show ?case by (auto simp: radix_simps)
next
  case (Here ts bid cs nodes)
  then show ?case using starts_withD [of ts q] by (auto simp: radix_simps)
next
  case (Down ts bid cs nodes r)
  have "radix_get (fst (remove_from_vec cs r k)) q'
      = (if q' = r then None else radix_get cs q')" if "q' \<noteq> []" for q'
    using Down that by blast
  moreover have "starts_with ts q \<Longrightarrow> q = ts @ r \<longleftrightarrow> drop (length ts) q = r"
    using starts_withD [of ts q] by auto
  ultimately show ?case using Down.hyps by (auto simp: radix_simps)
qed simp

section \<open>Longest reusable prefix\<close>

text \<open>
  The reference of the search: the last length, counted up from one, at which a stored sequence
  ends and which the policy accepts.
\<close>

definition reuse_step ::
  "kv_reuse_policy \<Rightarrow> (u32 list \<Rightarrow> u64 option) \<Rightarrow> u32 list \<Rightarrow> u32 list \<Rightarrow> nat
     \<Rightarrow> prefix_match option \<Rightarrow> prefix_match option" where
  "reuse_step policy m acc q n best =
     (case m (take n q) of
        None \<Rightarrow> best
      | Some b \<Rightarrow> if should_reuse policy (length acc + n)
          then Some \<lparr>pm_matched_tokens = acc @ take n q, pm_matched_len = length acc + n,
                     pm_block_id = b\<rparr>
          else best)"

definition longest_reusable ::
  "kv_reuse_policy \<Rightarrow> (u32 list \<Rightarrow> u64 option) \<Rightarrow> u32 list \<Rightarrow> prefix_match option" where
  "longest_reusable policy m q = fold (reuse_step policy m [] q) [1..<Suc (length q)] None"

lemma fold_no_step: "(\<And>x. x \<in> set xs \<Longrightarrow> f x = (\<lambda>b. b)) \<Longrightarrow> fold f xs best = best"
  by (induction xs arbitrary: best) auto

lemma fold_reuse_none:
  "(\<And>n. n \<in> set ns \<Longrightarrow> m (take n q) = None) \<Longrightarrow> fold (reuse_step policy m acc q) ns best = best"
  by (rule fold_no_step) (simp add: reuse_step_def fun_eq_iff)

lemma radix_get_find:
  assumes "radix_wf nodes" "q \<noteq> []"
  shows "find (\<lambda>n. lcp_len (rn_tokens n) q > 0) nodes = None \<Longrightarrow> radix_get nodes q = None"
    and "find (\<lambda>n. lcp_len (rn_tokens n) q > 0) nodes = Some (RadixNode ts bid cs) \<Longrightarrow>
           radix_get nodes q = radix_get [RadixNode ts bid cs] q"
proof -
  show "find (\<lambda>n. lcp_len (rn_tokens n) q > 0) nodes = None \<Longrightarrow> radix_get nodes q = None"
  proof (rule radix_get_no_head [OF assms(2,1)])
    assume "find (\<lambda>n. lcp_len (rn_tokens n) q > 0) nodes = None"
    then show "\<forall>n\<in>set nodes. hd (rn_tokens n) \<noteq> hd q"
      using assms radix_wf_nonempty lcp_len_zero by (auto simp: find_None_iff)
  qed
  show "find (\<lambda>n. lcp_len (rn_tokens n) q > 0) nodes = Some (RadixNode ts bid cs) \<Longrightarrow>
      radix_get nodes q = radix_get [RadixNode ts bid cs] q"
    using assms(1)
  proof (induction nodes)
    case (Cons n nodes)
    obtain ts' bid' cs' where n: "n = RadixNode ts' bid' cs'" by (cases n)
    show ?case
    proof (cases "lcp_len ts' q > 0")
      case True
      then have "hd ts' = hd q" using Cons.prems(2) n assms(2) lcp_len_zero [of ts' q] by auto
      then have "radix_get nodes q = None"
        using radix_get_no_head [OF assms(2), of nodes] Cons.prems(2) n by auto
      then show ?thesis using True Cons.prems(1) n by simp
    next
      case False
      then have "\<not> starts_with ts' q"
        using lcp_len_full [of ts' q] Cons.prems(2) n by (metis length_0_conv not_gr_zero radix_wf.simps(2))
      then show ?thesis using False Cons n by simp
    qed
  qed simp
qed

lemma lcp_len_take_pos: "0 < n \<Longrightarrow> 0 < lcp_len a (take n q) \<longleftrightarrow> 0 < lcp_len a q"
  by (cases a; cases q; cases n) auto

lemma radix_get_find_take:
  assumes "radix_wf nodes" "q \<noteq> []" "0 < n"
  shows "find (\<lambda>n. lcp_len (rn_tokens n) q > 0) nodes = None \<Longrightarrow> radix_get nodes (take n q) = None"
    and "find (\<lambda>n. lcp_len (rn_tokens n) q > 0) nodes = Some (RadixNode ts bid cs) \<Longrightarrow>
           radix_get nodes (take n q) = radix_get [RadixNode ts bid cs] (take n q)"
  using radix_get_find [OF assms(1), of "take n q"] assms(2,3) by (simp_all add: lcp_len_take_pos)

lemma starts_with_take: "starts_with p (take n q) \<longleftrightarrow> starts_with p q \<and> length p \<le> n \<or> p = []"
proof (induction p arbitrary: n q)
  case (Cons x p)
  then show ?case by (cases q; cases n) auto
qed simp

lemma upt_split_label:
  assumes "0 < l"
  shows "[1..<Suc (l + k)] = [1..<l] @ l # map (\<lambda>j. l + j) [1..<Suc k]"
proof -
  have "map (\<lambda>j. j + l) [1..<Suc k] = [1 + l..<Suc k + l]" by (induction k) auto
  then have "map (\<lambda>j. l + j) [1..<Suc k] = [Suc l..<Suc (l + k)]" by (simp add: add.commute)
  moreover have "[1..<Suc (l + k)] = [1..<l] @ [l..<Suc (l + k)]"
    using assms upt_add_eq_append [of 1 l "Suc k"] by simp
  moreover have "[l..<Suc (l + k)] = l # [Suc l..<Suc (l + k)]" by (rule upt_conv_Cons) simp
  ultimately show ?thesis by simp
qed

lemma find_loop_spec:
  "radix_wf nodes \<Longrightarrow> find_loop policy nodes q acc best
     = fold (reuse_step policy (radix_get nodes) acc q) [1..<Suc (length q)] best"
proof (induction policy nodes q acc best rule: find_loop.induct)
  case (1 policy nodes q acc best)
  show ?case
  proof (cases "q = []")
    case True
    then show ?thesis by (simp add: find_loop.simps)
  next
    case q: False
    show ?thesis
    proof (cases "find (\<lambda>n. lcp_len (rn_tokens n) q > 0) nodes")
      case None
      have "fold (reuse_step policy (radix_get nodes) acc q) [1..<Suc (length q)] best = best"
        by (intro fold_reuse_none radix_get_find_take(1) [OF "1.prems" q _ None]) auto
      then show ?thesis using None q by (simp add: find_loop.simps)
    next
      case (Some node)
      obtain ts bid cs where node: "node = RadixNode ts bid cs" by (cases node)
      note found = Some [unfolded node]
      have get: "radix_get nodes (take n q) = radix_get [RadixNode ts bid cs] (take n q)" if "0 < n" for n
        by (rule radix_get_find_take(2) [OF "1.prems" q that found])
      show ?thesis
      proof (cases "starts_with ts q")
        case False
        then have l: "lcp_len ts q \<noteq> length ts" by (simp add: lcp_len_full)
        have "ts \<noteq> []" using find_holds [OF found] by auto
        then have "radix_get nodes (take n q) = None" if "0 < n" for n
          using False get [OF that] by (simp add: starts_with_take)
        then have "fold (reuse_step policy (radix_get nodes) acc q) [1..<Suc (length q)] best = best"
          by (intro fold_reuse_none) (metis atLeastLessThan_iff less_le_trans set_upt zero_less_one)
        then show ?thesis using found q l by (simp add: find_loop.simps [of policy nodes] Let_def)
      next
        case True
        define r where "r = drop (length ts) q"
        have qr: "q = ts @ r" using starts_withD [OF True] by (simp add: r_def)
        have l: "lcp_len ts q = length ts" using True by (simp add: lcp_len_full)
        have pos: "0 < length ts" using find_holds [OF found] l by auto
        have wf: "radix_wf cs" using find_holds [OF found] "1.prems" radix_wf_child by fastforce
        let ?step = "reuse_step policy (radix_get nodes) acc q"
        have low: "fold ?step [1..<length ts] best = best"
          using pos by (intro fold_reuse_none) (auto simp: get starts_with_take)
        have "radix_get nodes ts = bid" using get [OF pos] by (simp add: qr)
        then have at: "?step (length ts) best = reuse_step policy (\<lambda>_. bid) (acc @ ts) [] 0 best"
          by (simp add: reuse_step_def qr split: option.split)
        have "radix_get nodes (ts @ take j r) = radix_get cs (take j r)"
          if "j \<in> set [1..<Suc (length r)]" for j
          using get [of "length ts + j"] that pos by (auto simp: qr)
        then have up: "?step (length ts + j) = reuse_step policy (radix_get cs) (acc @ ts) r j"
          if "j \<in> set [1..<Suc (length r)]" for j
          using that by (simp add: reuse_step_def qr fun_eq_iff add.assoc split: option.split)
        have sp: "[1..<Suc (length q)] =
            [1..<length ts] @ length ts # map (\<lambda>j. length ts + j) [1..<Suc (length r)]"
          using upt_split_label [OF pos, of "length r"] by (simp add: qr del: upt_Suc)
        have "fold ?step [1..<Suc (length q)] best =
            fold (\<lambda>j. ?step (length ts + j)) [1..<Suc (length r)]
              (?step (length ts) (fold ?step [1..<length ts] best))"
          unfolding sp by (simp add: fold_map comp_def del: upt_Suc)
        also have "\<dots> = fold (reuse_step policy (radix_get cs) (acc @ ts) r) [1..<Suc (length r)]
              (reuse_step policy (\<lambda>_. bid) (acc @ ts) [] 0 best)"
          unfolding low at by (rule fold_cong) (simp_all only: up)
        finally have spec: "fold ?step [1..<Suc (length q)] best = \<dots>" .
        have best': "(case bid of None \<Rightarrow> best
            | Some b \<Rightarrow> if should_reuse policy (length (acc @ take (lcp_len ts q) ts))
                then Some \<lparr>pm_matched_tokens = acc @ take (lcp_len ts q) ts,
                           pm_matched_len = length (acc @ take (lcp_len ts q) ts),
                           pm_block_id = b\<rparr> else best)
            = reuse_step policy (\<lambda>_. bid) (acc @ ts) [] 0 best"
          by (simp add: reuse_step_def l split: option.split)
        have "find_loop policy nodes q acc best =
            find_loop policy cs r (acc @ ts) (reuse_step policy (\<lambda>_. bid) (acc @ ts) [] 0 best)"
          using q found l by (simp add: find_loop.simps [of policy nodes] r_def reuse_step_def Let_def
              split: option.split)
        moreover have "find_loop policy cs r (acc @ ts)
              (reuse_step policy (\<lambda>_. bid) (acc @ ts) [] 0 best)
            = fold (reuse_step policy (radix_get cs) (acc @ ts) r) [1..<Suc (length r)]
                (reuse_step policy (\<lambda>_. bid) (acc @ ts) [] 0 best)"
          using "1.IH" [OF q found refl refl refl] wf
          unfolding best' by (simp add: l del: upt_Suc flip: r_def)
        ultimately show ?thesis using spec by simp
      qed
    qed
  qed
qed

section \<open>The tree as a prefix index\<close>

lemma fold_reuse_last:
  assumes "fold (reuse_step policy m acc q) [1..<Suc k] None = Some p"
  shows "\<exists>n b. 0 < n \<and> n \<le> k \<and> m (take n q) = Some b \<and> should_reuse policy (length acc + n)
    \<and> p = \<lparr>pm_matched_tokens = acc @ take n q, pm_matched_len = length acc + n, pm_block_id = b\<rparr>
    \<and> (\<forall>j b'. n < j \<and> j \<le> k \<and> m (take j q) = Some b' \<longrightarrow> \<not> should_reuse policy (length acc + j))"
  using assms
proof (induction k)
  case (Suc k)
  let ?before = "fold (reuse_step policy m acc q) [1..<Suc k] None"
  have step: "reuse_step policy m acc q (Suc k) ?before = Some p" using Suc.prems by simp
  show ?case
  proof (cases "\<exists>b. m (take (Suc k) q) = Some b \<and> should_reuse policy (length acc + Suc k)")
    case True
    then show ?thesis using step by (intro exI [of _ "Suc k"]) (auto simp: reuse_step_def)
  next
    case False
    then have "?before = Some p" using step by (auto simp: reuse_step_def simp del: upt_Suc split: option.splits)
    from Suc.IH [OF this] False show ?thesis by (metis le_Suc_eq)
  qed
qed simp

lemma fold_reuse_none_iff:
  "fold (reuse_step policy m acc q) [1..<Suc k] None = None \<longleftrightarrow>
     (\<forall>n b. 0 < n \<and> n \<le> k \<and> m (take n q) = Some b \<longrightarrow> \<not> should_reuse policy (length acc + n))"
proof (induction k)
  case (Suc k)
  have "fold (reuse_step policy m acc q) [1..<Suc (Suc k)] None
      = reuse_step policy m acc q (Suc k) (fold (reuse_step policy m acc q) [1..<Suc k] None)"
    by simp
  also have "\<dots> = None \<longleftrightarrow> fold (reuse_step policy m acc q) [1..<Suc k] None = None
      \<and> (\<forall>b. m (take (Suc k) q) = Some b \<longrightarrow> \<not> should_reuse policy (length acc + Suc k))"
    by (simp add: reuse_step_def del: upt_Suc split: option.split)
  finally show ?case unfolding Suc by (auto simp: le_Suc_eq)
qed simp

text \<open>
  What a client of the tree relies on. \<open>lookup\<close> is the abstract content; \<open>find\<close> answers from it
  alone, so clients never reason about nodes.
\<close>

locale prefix_index =
  fixes wf :: "'t \<Rightarrow> bool"
    and lookup :: "'t \<Rightarrow> u32 list \<Rightarrow> u64 option"
    and put :: "'t \<Rightarrow> u32 list \<Rightarrow> u64 \<Rightarrow> 't res"
    and del :: "'t \<Rightarrow> u32 list \<Rightarrow> 't \<times> u64 option"
    and longest :: "'t \<Rightarrow> u32 list \<Rightarrow> kv_reuse_policy \<Rightarrow> prefix_match option"
  assumes lookup_Nil: "wf t \<Longrightarrow> lookup t [] = None"
    and put_ok: "wf t \<Longrightarrow> q \<noteq> [] \<Longrightarrow>
          \<exists>t'. put t q b = Inr t' \<and> wf t' \<and> lookup t' = (lookup t)(q \<mapsto> b)"
    and del_ok: "wf t \<Longrightarrow> wf (fst (del t q)) \<and> lookup (fst (del t q)) = (lookup t)(q := None)
          \<and> snd (del t q) = lookup t q"
    and longest_ok: "wf t \<Longrightarrow> longest t q policy = longest_reusable policy (lookup t) q"
begin

lemma longest_Some:
  assumes "wf t" "longest t q policy = Some p"
  shows "\<exists>n b. 0 < n \<and> n \<le> length q \<and> lookup t (take n q) = Some b \<and> should_reuse policy n
    \<and> p = \<lparr>pm_matched_tokens = take n q, pm_matched_len = n, pm_block_id = b\<rparr>
    \<and> (\<forall>j b'. n < j \<and> j \<le> length q \<and> lookup t (take j q) = Some b' \<longrightarrow> \<not> should_reuse policy j)"
  using fold_reuse_last [of policy "lookup t" "[]" q "length q" p] assms
  by (simp add: longest_ok longest_reusable_def del: upt_Suc)

lemma longest_None:
  assumes "wf t"
  shows "longest t q policy = None \<longleftrightarrow>
    (\<forall>n b. 0 < n \<and> n \<le> length q \<and> lookup t (take n q) = Some b \<longrightarrow> \<not> should_reuse policy n)"
  using fold_reuse_none_iff [of policy "lookup t" "[]" q "length q"] assms
  by (simp add: longest_ok longest_reusable_def del: upt_Suc)

lemma longest_hit:
  assumes "wf t" "q \<noteq> []" "lookup t q = Some b" "should_reuse policy (length q)"
  shows "longest t q policy =
    Some \<lparr>pm_matched_tokens = q, pm_matched_len = length q, pm_block_id = b\<rparr>"
proof (cases "longest t q policy")
  case None
  then show ?thesis using longest_None [OF assms(1)] assms(2-4)
    by (metis le_refl length_greater_0_conv take_all)
next
  case (Some p)
  then obtain n b' where n: "n \<le> length q" "lookup t (take n q) = Some b'"
      "p = \<lparr>pm_matched_tokens = take n q, pm_matched_len = n, pm_block_id = b'\<rparr>"
      "\<forall>j b'. n < j \<and> j \<le> length q \<and> lookup t (take j q) = Some b' \<longrightarrow> \<not> should_reuse policy j"
    using longest_Some [OF assms(1)] by blast
  then have "n = length q" using assms(3,4) by (metis le_neq_implies_less le_refl take_all)
  then show ?thesis using n assms(3) Some by simp
qed

lemma longest_after_put:
  "wf t \<Longrightarrow> q \<noteq> [] \<Longrightarrow> should_reuse policy (length q) \<Longrightarrow> put t q b = Inr t' \<Longrightarrow>
     longest t' q policy = Some \<lparr>pm_matched_tokens = q, pm_matched_len = length q, pm_block_id = b\<rparr>"
  using put_ok [of t q b] longest_hit [of t' q b] by auto

end

lemma prt_map_Nil: "prt_wf t \<Longrightarrow> prt_map t [] = None"
  by (simp add: prt_wf_def prt_map_def)

lemma prt_insert_ok:
  assumes "prt_wf t" "q \<noteq> []"
  shows "\<exists>t'. prt_insert t q b = Inr t' \<and> prt_wf t' \<and> prt_map t' = (prt_map t)(q \<mapsto> b)"
proof -
  let ?r = "insert_into_vec (prt_children t) q b (prt_total_entries t)"
  let ?t = "t\<lparr>prt_children := fst ?r, prt_total_entries := snd ?r\<rparr>"
  have wf: "radix_wf (prt_children t)" using assms by (simp add: prt_wf_def)
  have "prt_insert t q b = Inr ?t" using assms by (simp add: prt_insert_def split_def Let_def)
  moreover have "prt_wf ?t"
    using assms radix_wf_insert [OF wf assms(2)] length_entries_insert [OF wf assms(2), of b "prt_total_entries t"]
    by (simp add: prt_wf_def)
  moreover have "prt_map ?t q' = ((prt_map t)(q \<mapsto> b)) q'" for q'
    using radix_get_insert [OF wf assms(2), of q'] radix_wf_insert [OF wf assms(2)] wf assms(2)
    by (cases "q' = []") (auto simp: prt_map_def)
  ultimately show ?thesis by (intro exI [of _ ?t]) auto
qed

lemma prt_remove_ok:
  assumes "prt_wf t"
  shows "prt_wf (fst (prt_remove t q)) \<and> prt_map (fst (prt_remove t q)) = (prt_map t)(q := None)
    \<and> snd (prt_remove t q) = prt_map t q"
proof (cases "q = []")
  case True
  then show ?thesis using assms prt_map_Nil [OF assms] by (auto simp: prt_remove_def fun_eq_iff)
next
  case False
  let ?r = "remove_from_vec (prt_children t) q (prt_total_entries t)"
  have wf: "radix_wf (prt_children t)" using assms by (simp add: prt_wf_def)
  have r: "prt_remove t q =
      (t\<lparr>prt_children := fst ?r, prt_total_entries := fst (snd ?r)\<rparr>, snd (snd ?r))"
    using False by (simp add: prt_remove_def split_def Let_def)
  have "prt_wf (fst (prt_remove t q))"
    using assms remove_from_vec_wf [OF wf]
      remove_from_vec_count [of "prt_children t" "prt_total_entries t" q]
    by (simp add: prt_wf_def r)
  moreover have "prt_map (fst (prt_remove t q)) q' = ((prt_map t)(q := None)) q'" for q'
    using radix_get_remove [OF False, of q'] remove_from_vec_wf [OF wf] wf False
    by (cases "q' = []") (auto simp: prt_map_def r)
  ultimately show ?thesis by (auto simp: r prt_map_def remove_from_vec_result)
qed

lemma find_longest_prefix_ok:
  assumes "prt_wf t"
  shows "find_longest_prefix t q policy = longest_reusable policy (prt_map t) q"
proof (cases "q = [] \<or> policy = Never")
  case True
  have "should_reuse Never n = False" for n by simp
  then show ?thesis using True fold_reuse_none_iff [of policy "prt_map t" "[]" q "length q"]
    by (auto simp: find_longest_prefix_def longest_reusable_def simp del: upt_Suc)
next
  case False
  then show ?thesis
    using find_loop_spec [of "prt_children t" policy q "[]" None] assms
    by (simp add: find_longest_prefix_def longest_reusable_def prt_wf_def prt_map_def del: upt_Suc)
qed

interpretation prt: prefix_index prt_wf prt_map prt_insert prt_remove find_longest_prefix
  by unfold_locales (simp_all add: prt_map_Nil prt_insert_ok prt_remove_ok find_longest_prefix_ok)

lemma prt_wf_new [simp]: "prt_wf (prt_new tenant)" "prt_map (prt_new tenant) = Map.empty"
  by (auto simp: prt_wf_def prt_new_def prt_map_def)

lemma prt_wf_clear: "prt_wf (prt_clear t)" "prt_map (prt_clear t) = Map.empty"
  by (auto simp: prt_wf_def prt_clear_def prt_map_def)

section \<open>Runs\<close>

datatype radix_op = OpInsert "u32 list" u64 | OpRemove "u32 list" | OpClear

definition radix_step :: "radix_op \<Rightarrow> prefix_radix_tree \<Rightarrow> prefix_radix_tree" where
  "radix_step c t =
     (case c of
        OpInsert q b \<Rightarrow> (case prt_insert t q b of Inl _ \<Rightarrow> t | Inr t' \<Rightarrow> t')
      | OpRemove q \<Rightarrow> fst (prt_remove t q)
      | OpClear \<Rightarrow> prt_clear t)"

definition spec_step :: "radix_op \<Rightarrow> (u32 list \<Rightarrow> u64 option) \<Rightarrow> u32 list \<Rightarrow> u64 option" where
  "spec_step c m =
     (case c of
        OpInsert q b \<Rightarrow> if q = [] then m else m(q \<mapsto> b)
      | OpRemove q \<Rightarrow> m(q := None)
      | OpClear \<Rightarrow> Map.empty)"

lemma radix_step_refines:
  assumes "prt_wf t"
  shows "prt_wf (radix_step c t) \<and> prt_map (radix_step c t) = spec_step c (prt_map t)"
proof (cases c)
  case (OpInsert q b)
  show ?thesis
  proof (cases "q = []")
    case True
    with OpInsert assms show ?thesis by (simp add: radix_step_def spec_step_def prt_insert_def)
  next
    case False
    with OpInsert show ?thesis using prt.put_ok [OF assms False, of b]
      by (auto simp: radix_step_def spec_step_def)
  qed
next
  case (OpRemove q)
  then show ?thesis using prt.del_ok [OF assms] by (simp add: radix_step_def spec_step_def)
qed (simp add: radix_step_def spec_step_def prt_wf_clear)

lemma radix_run_refines:
  "prt_wf t \<Longrightarrow> prt_wf (fold radix_step cmds t)
     \<and> prt_map (fold radix_step cmds t) = fold spec_step cmds (prt_map t)"
  by (induction cmds arbitrary: t) (simp_all add: radix_step_refines)

text \<open>
  C25. After any sequence of insertions, removals and clearings the tree holds the finite map
  that the sequence describes: the entry counter is the number of stored sequences, a removal
  returns the block of its sequence, and the search for the longest prefix equals the reference
  that tries every length of the query.
\<close>

theorem radix_tree_refines_map:
  "let t = fold radix_step cmds (prt_new tenant); m = fold spec_step cmds Map.empty
   in prt_len t = card (dom m)
      \<and> snd (prt_remove t q) = m q
      \<and> find_longest_prefix t q policy = longest_reusable policy m q"
proof -
  have r: "prt_wf (fold radix_step cmds (prt_new tenant))"
      "prt_map (fold radix_step cmds (prt_new tenant)) = fold spec_step cmds Map.empty"
    using radix_run_refines [OF prt_wf_new(1)] by simp_all
  then show ?thesis using prt_len_card [OF r(1)] prt.del_ok [OF r(1)] prt.longest_ok [OF r(1)]
    by (simp add: Let_def)
qed

text \<open>
  A removal clears the block id of a node and keeps the node: the tree never shrinks, however
  many sequences are removed.
\<close>

fun radix_nodes :: "radix_node list \<Rightarrow> nat" where
  "radix_nodes [] = 0"
| "radix_nodes (RadixNode ts bid cs # nodes) = Suc (radix_nodes cs + radix_nodes nodes)"

theorem removal_keeps_nodes: "radix_nodes (prt_children (fst (prt_remove t q))) = radix_nodes (prt_children t)"
proof -
  have "radix_nodes (fst (remove_from_vec nodes q k)) = radix_nodes nodes" for nodes k
    by (induction nodes q rule: radix_path_induct) (simp_all add: radix_simps)
  then show ?thesis by (simp add: prt_remove_def split_def Let_def)
qed

end
