(* ===== verification/Prefix_Store.thy ===== *)
theory Prefix_Store
  imports Radix_Tree
begin

text \<open>
  The tenant-isolated KV prefix store (\<open>contextra-kvcache/src/prefix_store.rs\<close> with the block
  types of \<open>contextra-ports/src/kv.rs\<close>): one partition per tenant and prefix key, each with a
  radix tree over token sequences and the block groups the tree points to, a byte budget per
  tenant and eviction of the least recently used groups.

  A prefix key is a value of any type: the store only compares keys. (Keys hold floating-point
  numbers; the equality of the model is reflexive, so keys with a NaN are outside the model.)
  Both hash maps are association lists. The eviction loop is a partial function whose value
  \<open>None\<close> is non-termination; the lemmas show it returns on every store that operations build.
\<close>

section \<open>State\<close>

record kv_block =
  kb_block_id :: u64
  kb_data :: bytes

record kv_prefix_hit =
  kh_matched_tokens :: nat
  kh_blocks :: "kv_block list"

record block_group =
  bg_group_id :: u64
  bg_tokens :: "u32 list"
  bg_blocks :: "kv_block list"
  bg_bytes :: nat
  bg_tick :: u64

record partition =
  pt_tree :: prefix_radix_tree
  pt_groups :: "(u64 \<times> block_group) list"
  pt_total_bytes :: nat

type_synonym 'k partitions = "((tenant_id \<times> 'k) \<times> partition) list"

record 'k prefix_store =
  ps_partitions :: "'k partitions"
  ps_byte_budget :: nat
  ps_reuse_policy :: kv_reuse_policy
  ps_next_tick :: u64
  ps_next_group_id :: u64

definition DEFAULT_BYTE_BUDGET_PER_TENANT :: nat where
  "DEFAULT_BYTE_BUDGET_PER_TENANT = 256 * 1024 * 1024"

definition partition_new :: "tenant_id \<Rightarrow> partition" where
  "partition_new tenant = \<lparr>pt_tree = prt_new tenant, pt_groups = [], pt_total_bytes = 0\<rparr>"

definition prefix_store_new :: "'k prefix_store" where
  "prefix_store_new =
     \<lparr>ps_partitions = [], ps_byte_budget = DEFAULT_BYTE_BUDGET_PER_TENANT,
      ps_reuse_policy = default_reuse_policy, ps_next_tick = 1, ps_next_group_id = 1\<rparr>"

definition with_byte_budget_per_tenant :: "nat \<Rightarrow> 'k prefix_store \<Rightarrow> 'k prefix_store" where
  "with_byte_budget_per_tenant budget S = S\<lparr>ps_byte_budget := budget\<rparr>"

definition with_reuse_policy :: "kv_reuse_policy \<Rightarrow> 'k prefix_store \<Rightarrow> 'k prefix_store" where
  "with_reuse_policy policy S = S\<lparr>ps_reuse_policy := policy\<rparr>"

section \<open>Eviction to the budget\<close>

definition tenant_bytes :: "tenant_id \<Rightarrow> 'k partitions \<Rightarrow> nat" where
  "tenant_bytes tenant m =
     sum_list (map (\<lambda>(k, p). pt_total_bytes p) (filter (\<lambda>(k, p). fst k = tenant) m))"

definition tenant_groups :: "tenant_id \<Rightarrow> 'k partitions \<Rightarrow> ('k \<times> u64 \<times> u64) list" where
  "tenant_groups tenant m =
     concat (map (\<lambda>((t, key), p).
       if t \<noteq> tenant then [] else map (\<lambda>(gid, g). (key, gid, bg_tick g)) (pt_groups p)) m)"

fun better_candidate :: "'k \<times> u64 \<times> u64 \<Rightarrow> ('k \<times> u64 \<times> u64) option \<Rightarrow> ('k \<times> u64 \<times> u64) option" where
  "better_candidate c None = Some c"
| "better_candidate (key, gid, tick) (Some (best_key, best_gid, best_tick)) =
     (if tick < best_tick \<or> tick = best_tick \<and> gid < best_gid then Some (key, gid, tick)
      else Some (best_key, best_gid, best_tick))"

definition evict_candidate :: "tenant_id \<Rightarrow> 'k partitions \<Rightarrow> ('k \<times> u64 \<times> u64) option" where
  "evict_candidate tenant m = fold better_candidate (tenant_groups tenant m) None"

definition drop_group :: "u64 \<Rightarrow> partition \<Rightarrow> partition" where
  "drop_group gid p =
     (case map_of (pt_groups p) gid of
        None \<Rightarrow> p
      | Some g \<Rightarrow> p\<lparr>pt_groups := AList.delete gid (pt_groups p),
                    pt_tree := fst (prt_remove (pt_tree p) (bg_tokens g)),
                    pt_total_bytes := pt_total_bytes p - bg_bytes g\<rparr>)"

definition evict_group :: "tenant_id \<Rightarrow> 'k \<Rightarrow> u64 \<Rightarrow> 'k partitions \<Rightarrow> 'k partitions" where
  "evict_group tenant key gid m =
     (case map_of m (tenant, key) of
        None \<Rightarrow> m
      | Some p \<Rightarrow>
          let p' = drop_group gid p in
          if pt_groups p' = [] then AList.delete (tenant, key) m
          else AList.update (tenant, key) p' m)"

partial_function (option) evict_to_budget_internal ::
  "tenant_id \<Rightarrow> nat \<Rightarrow> 'k partitions \<Rightarrow> 'k partitions option" where
  "evict_to_budget_internal tenant budget m =
     (if tenant_bytes tenant m \<le> budget then Some m
      else case evict_candidate tenant m of
        None \<Rightarrow> Some m
      | Some (target_key, target_gid, _) \<Rightarrow>
          evict_to_budget_internal tenant budget (evict_group tenant target_key target_gid m))"

section \<open>Operations\<close>

definition ps_lookup ::
  "tenant_id \<Rightarrow> 'k \<Rightarrow> u32 list \<Rightarrow> 'k prefix_store \<Rightarrow> kv_prefix_hit option \<times> 'k prefix_store" where
  "ps_lookup tenant key tokens S =
     (if tokens = [] then (None, S)
      else case map_of (ps_partitions S) (tenant, key) of
        None \<Rightarrow> (None, S)
      | Some p \<Rightarrow>
          (case find_longest_prefix (pt_tree p) tokens (ps_reuse_policy S) of
             None \<Rightarrow> (None, S)
           | Some pm \<Rightarrow>
               (case map_of (pt_groups p) (pm_block_id pm) of
                  None \<Rightarrow> (None, S)
                | Some g \<Rightarrow>
                    (let g' = g\<lparr>bg_tick := ps_next_tick S\<rparr>;
                         p' = p\<lparr>pt_groups := AList.update (pm_block_id pm) g' (pt_groups p)\<rparr>
                     in (Some \<lparr>kh_matched_tokens = pm_matched_len pm, kh_blocks = bg_blocks g\<rparr>,
                         S\<lparr>ps_partitions := AList.update (tenant, key) p' (ps_partitions S),
                           ps_next_tick := ps_next_tick S + 1\<rparr>)))))"

definition group_bytes :: "kv_block list \<Rightarrow> nat" where
  "group_bytes blocks = sum_list (map (\<lambda>b. length (kb_data b)) blocks)"

text \<open>
  The body of \<open>insert\<close> on the partition of the key: the old group of the same tokens is dropped,
  then the tree and the groups get the new one. The error of the tree is unreachable (the tokens
  are not empty) and kept as a branch.
\<close>

definition replace_old :: "u32 list \<Rightarrow> partition \<Rightarrow> partition" where
  "replace_old tokens p =
     (case prt_remove (pt_tree p) tokens of
        (tree, None) \<Rightarrow> p\<lparr>pt_tree := tree\<rparr>
      | (tree, Some old_gid) \<Rightarrow>
          (case map_of (pt_groups p) old_gid of
             None \<Rightarrow> p\<lparr>pt_tree := tree\<rparr>
           | Some old \<Rightarrow> p\<lparr>pt_tree := tree, pt_groups := AList.delete old_gid (pt_groups p),
                          pt_total_bytes := pt_total_bytes p - bg_bytes old\<rparr>))"

definition ps_insert ::
  "tenant_id \<Rightarrow> 'k \<Rightarrow> u32 list \<Rightarrow> kv_block list \<Rightarrow> 'k prefix_store
     \<Rightarrow> (unit res \<times> 'k prefix_store) option" where
  "ps_insert tenant key tokens blocks S =
     (if tokens = [] then Some (Inl (InvalidInput ''Cannot insert with empty tokens''), S)
      else if blocks = [] then Some (Inl (InvalidInput ''Cannot insert with empty blocks''), S)
      else if group_bytes blocks > ps_byte_budget S
      then Some (Inl (PolicyViolation ''Block group size exceeds tenant byte budget''), S)
      else
        let p = (case map_of (ps_partitions S) (tenant, key) of
                   Some p \<Rightarrow> p | None \<Rightarrow> partition_new tenant);
            p = replace_old tokens p;
            gid = ps_next_group_id S; tick = ps_next_tick S;
            S = S\<lparr>ps_next_group_id := gid + 1, ps_next_tick := tick + 1\<rparr>
        in case prt_insert (pt_tree p) tokens gid of
             Inl e \<Rightarrow>
               Some (Inl e, S\<lparr>ps_partitions := AList.update (tenant, key) p (ps_partitions S)\<rparr>)
           | Inr tree \<Rightarrow>
               let g = \<lparr>bg_group_id = gid, bg_tokens = tokens, bg_blocks = blocks,
                        bg_bytes = group_bytes blocks, bg_tick = tick\<rparr>;
                   p = p\<lparr>pt_tree := tree, pt_groups := AList.update gid g (pt_groups p),
                         pt_total_bytes := pt_total_bytes p + group_bytes blocks\<rparr>
               in map_option (\<lambda>m. (Inr (), S\<lparr>ps_partitions := m\<rparr>))
                    (evict_to_budget_internal tenant (ps_byte_budget S)
                      (AList.update (tenant, key) p (ps_partitions S))))"

definition ps_evict :: "tenant_id \<Rightarrow> 'k \<Rightarrow> 'k prefix_store \<Rightarrow> u64 res \<times> 'k prefix_store" where
  "ps_evict tenant key S =
     (case map_of (ps_partitions S) (tenant, key) of
        Some p \<Rightarrow>
          (Inr (of_nat (sum_list (map (\<lambda>(gid, g). length (bg_blocks g)) (pt_groups p)))),
           S\<lparr>ps_partitions := AList.delete (tenant, key) (ps_partitions S)\<rparr>)
      | None \<Rightarrow> (Inr 0, S))"

section \<open>Sums over hash maps\<close>

lemma hm_sum_delete:
  "hm_wf m \<Longrightarrow> map_of m k = Some v \<Longrightarrow>
     sum_list (map f (AList.delete k m)) + f (k, v) = (sum_list (map f m) :: nat)"
proof (induction m)
  case (Cons a m)
  show ?case
  proof (cases "fst a = k")
    case True
    then have "k \<notin> set (map fst m)" using Cons.prems by auto
    then have "AList.delete k m = m" by (force simp: AList.delete_eq filter_id_conv)
    then show ?thesis using True Cons.prems by (cases a) (simp add: AList.delete_eq)
  next
    case False
    then show ?thesis using Cons by (cases a) (simp add: AList.delete_eq)
  qed
qed simp

lemma hm_sum_update:
  "map_of m k = Some v \<Longrightarrow>
     sum_list (map f (AList.update k v' m)) + f (k, v) = (sum_list (map f m) :: nat) + f (k, v')"
proof (induction m)
  case (Cons a m)
  then show ?case by (cases a) (auto split: if_splits)
qed simp

lemma hm_sum_insert:
  "map_of m k = None \<Longrightarrow> sum_list (map f (AList.update k v m)) = (sum_list (map f m) :: nat) + f (k, v)"
proof (induction m)
  case (Cons a m)
  then show ?case by (cases a) (auto split: if_splits)
qed simp

lemma hm_member_le_sum: "map_of m k = Some v \<Longrightarrow> f (k, v) \<le> (sum_list (map f m) :: nat)"
  using member_le_sum_list [of "f (k, v)" "map f m"] map_of_SomeD [of m k v] by fastforce

section \<open>Invariant of a partition\<close>

text \<open>The tree and the groups describe the same sequences.\<close>

definition points_to :: "(u32 list \<Rightarrow> u64 option) \<Rightarrow> (u64 \<Rightarrow> block_group option) \<Rightarrow> bool" where
  "points_to m gs \<longleftrightarrow> (\<forall>q gid. m q = Some gid \<longleftrightarrow> (\<exists>g. gs gid = Some g \<and> bg_tokens g = q))"

definition groups_ok :: "(u64 \<Rightarrow> block_group option) \<Rightarrow> bool" where
  "groups_ok gs \<longleftrightarrow>
     (\<forall>gid g. gs gid = Some g \<longrightarrow> bg_tokens g \<noteq> [] \<and> bg_bytes g = group_bytes (bg_blocks g))"

definition part_wf :: "partition \<Rightarrow> bool" where
  "part_wf p \<longleftrightarrow> prt_wf (pt_tree p) \<and> hm_wf (pt_groups p)
     \<and> points_to (prt_map (pt_tree p)) (map_of (pt_groups p)) \<and> groups_ok (map_of (pt_groups p))
     \<and> pt_total_bytes p = sum_list (map (bg_bytes \<circ> snd) (pt_groups p))"

text \<open>The content of a partition: the group stored for a token sequence.\<close>

definition part_get :: "partition \<Rightarrow> u32 list \<Rightarrow> block_group option" where
  "part_get p q = Option.bind (prt_map (pt_tree p) q) (map_of (pt_groups p))"

lemma points_to_own: "points_to m gs \<Longrightarrow> gs gid = Some g \<Longrightarrow> m (bg_tokens g) = Some gid"
  by (auto simp: points_to_def)

lemma points_to_delete:
  "points_to m gs \<Longrightarrow> gs gid = Some g \<Longrightarrow> points_to (m(bg_tokens g := None)) (gs(gid := None))"
  unfolding points_to_def fun_upd_apply by (metis option.distinct(1) option.inject)

lemma points_to_insert:
  "points_to m gs \<Longrightarrow> gs gid = None \<Longrightarrow> m (bg_tokens g) = None \<Longrightarrow>
     points_to (m(bg_tokens g \<mapsto> gid)) (gs(gid \<mapsto> g))"
  unfolding points_to_def fun_upd_apply by (metis option.distinct(1) option.inject)

lemma points_to_retick:
  "points_to m gs \<Longrightarrow> gs gid = Some g \<Longrightarrow> bg_tokens g' = bg_tokens g \<Longrightarrow> points_to m (gs(gid \<mapsto> g'))"
  unfolding points_to_def fun_upd_apply by (metis option.inject)

lemma points_to_get:
  "points_to m gs \<Longrightarrow> Option.bind (m q) gs = Some g \<longleftrightarrow> (\<exists>gid. gs gid = Some g \<and> bg_tokens g = q)"
  unfolding points_to_def bind_eq_Some_conv by (metis option.inject)

lemma part_get_group:
  "part_wf p \<Longrightarrow> part_get p q = Some g \<longleftrightarrow> (\<exists>gid. map_of (pt_groups p) gid = Some g \<and> bg_tokens g = q)"
  unfolding part_get_def part_wf_def by (rule points_to_get) blast

lemma part_get_exists:
  assumes "part_wf p" "prt_map (pt_tree p) q = Some gid"
  shows "\<exists>g. map_of (pt_groups p) gid = Some g \<and> part_get p q = Some g \<and> bg_tokens g = q"
proof -
  obtain g where "map_of (pt_groups p) gid = Some g" "bg_tokens g = q"
    using assms unfolding part_wf_def points_to_def by blast
  then show ?thesis using assms(2) unfolding part_get_def by (intro exI [of _ g]) simp
qed

lemma part_wf_new [simp]: "part_wf (partition_new tenant)" "part_get (partition_new tenant) q = None"
  by (simp_all add: part_wf_def partition_new_def part_get_def points_to_def groups_ok_def)

lemma part_wf_delete:
  assumes "part_wf p" and g: "map_of (pt_groups p) gid = Some g"
  defines "p' \<equiv> p\<lparr>pt_groups := AList.delete gid (pt_groups p),
      pt_tree := fst (prt_remove (pt_tree p) (bg_tokens g)),
      pt_total_bytes := pt_total_bytes p - bg_bytes g\<rparr>"
  shows "part_wf p'" and "part_get p' = (part_get p)(bg_tokens g := None)"
    and "pt_total_bytes p' + bg_bytes g = pt_total_bytes p"
proof -
  have wf: "prt_wf (pt_tree p)" and h: "hm_wf (pt_groups p)"
    and pt: "points_to (prt_map (pt_tree p)) (map_of (pt_groups p))"
    and ok: "groups_ok (map_of (pt_groups p))"
    and tot: "pt_total_bytes p = sum_list (map (bg_bytes \<circ> snd) (pt_groups p))"
    using assms(1) unfolding part_wf_def by blast+
  note rem = prt.del_ok [OF wf, of "bg_tokens g"]
  have sum: "sum_list (map (bg_bytes \<circ> snd) (AList.delete gid (pt_groups p))) + bg_bytes g
      = pt_total_bytes p" using hm_sum_delete [OF h g, of "bg_bytes \<circ> snd"] tot by simp
  then show "pt_total_bytes p' + bg_bytes g = pt_total_bytes p" by (simp add: p'_def)
  have m: "prt_map (pt_tree p') = (prt_map (pt_tree p))(bg_tokens g := None)"
    and gs: "map_of (pt_groups p') = (map_of (pt_groups p))(gid := None)"
    using rem by (simp_all add: p'_def)
  have "groups_ok (map_of (pt_groups p'))" using ok unfolding gs groups_ok_def by simp
  then show "part_wf p'"
    using rem h sum points_to_delete [OF pt g] unfolding part_wf_def m gs
    by (simp add: p'_def)
  show "part_get p' = (part_get p)(bg_tokens g := None)"
  proof
    fix q
    have "q \<noteq> bg_tokens g \<Longrightarrow> prt_map (pt_tree p) q \<noteq> Some gid"
      using pt g unfolding points_to_def by (metis option.inject)
    then show "part_get p' q = ((part_get p)(bg_tokens g := None)) q"
      unfolding part_get_def m gs by (cases "prt_map (pt_tree p) q") auto
  qed
qed

lemma part_wf_insert:
  assumes "part_wf p" and fresh: "map_of (pt_groups p) gid = None"
    and new: "part_get p (bg_tokens g) = None" "bg_tokens g \<noteq> []" "bg_bytes g = group_bytes (bg_blocks g)"
    and ins: "prt_insert (pt_tree p) (bg_tokens g) gid = Inr tree"
  defines "p' \<equiv> p\<lparr>pt_tree := tree, pt_groups := AList.update gid g (pt_groups p),
      pt_total_bytes := pt_total_bytes p + bg_bytes g\<rparr>"
  shows "part_wf p'" and "part_get p' = (part_get p)(bg_tokens g \<mapsto> g)"
proof -
  have wf: "prt_wf (pt_tree p)" and h: "hm_wf (pt_groups p)"
    and pt: "points_to (prt_map (pt_tree p)) (map_of (pt_groups p))"
    and ok: "groups_ok (map_of (pt_groups p))"
    and tot: "pt_total_bytes p = sum_list (map (bg_bytes \<circ> snd) (pt_groups p))"
    using assms(1) unfolding part_wf_def by blast+
  have put: "prt_wf tree" "prt_map tree = (prt_map (pt_tree p))(bg_tokens g \<mapsto> gid)"
    using prt.put_ok [OF wf new(2), of gid] ins by auto
  have m: "prt_map (pt_tree p') = (prt_map (pt_tree p))(bg_tokens g \<mapsto> gid)"
    and gs: "map_of (pt_groups p') = (map_of (pt_groups p))(gid \<mapsto> g)"
    using put by (simp_all add: p'_def)
  have none: "prt_map (pt_tree p) (bg_tokens g) = None"
  proof (rule ccontr)
    assume "prt_map (pt_tree p) (bg_tokens g) \<noteq> None"
    then obtain gid' where "prt_map (pt_tree p) (bg_tokens g) = Some gid'" by blast
    from part_get_exists [OF assms(1) this] new(1) show False by simp
  qed
  have "groups_ok (map_of (pt_groups p'))"
    using ok new(2,3) unfolding gs groups_ok_def by simp
  moreover have "sum_list (map (bg_bytes \<circ> snd) (AList.update gid g (pt_groups p)))
      = pt_total_bytes p + bg_bytes g" using hm_sum_insert [OF fresh, of "bg_bytes \<circ> snd" g] tot by simp
  ultimately show "part_wf p'"
    using put h points_to_insert [OF pt fresh none] unfolding part_wf_def m gs
    by (simp add: p'_def)
  show "part_get p' = (part_get p)(bg_tokens g \<mapsto> g)"
  proof
    fix q
    have "prt_map (pt_tree p) q \<noteq> Some gid" using pt fresh unfolding points_to_def by auto
    then show "part_get p' q = ((part_get p)(bg_tokens g \<mapsto> g)) q"
      unfolding part_get_def m gs by (cases "prt_map (pt_tree p) q") auto
  qed
qed

lemma part_wf_retick:
  fixes tick :: u64
  assumes "part_wf p" and g: "map_of (pt_groups p) gid = Some g"
  defines "p' \<equiv> p\<lparr>pt_groups := AList.update gid (g\<lparr>bg_tick := tick\<rparr>) (pt_groups p)\<rparr>"
  shows "part_wf p'" and "part_get p' = (part_get p)(bg_tokens g \<mapsto> g\<lparr>bg_tick := tick\<rparr>)"
proof -
  have h: "hm_wf (pt_groups p)"
    and pt: "points_to (prt_map (pt_tree p)) (map_of (pt_groups p))"
    and ok: "groups_ok (map_of (pt_groups p))"
    and tot: "pt_total_bytes p = sum_list (map (bg_bytes \<circ> snd) (pt_groups p))"
    using assms(1) unfolding part_wf_def by blast+
  have gs: "map_of (pt_groups p') = (map_of (pt_groups p))(gid \<mapsto> g\<lparr>bg_tick := tick\<rparr>)"
    by (simp add: p'_def)
  have pt': "points_to (prt_map (pt_tree p)) (map_of (pt_groups p'))"
    unfolding gs by (rule points_to_retick [OF pt g]) simp
  have "groups_ok (map_of (pt_groups p'))" using ok g unfolding gs groups_ok_def by simp
  moreover have "sum_list (map (bg_bytes \<circ> snd) (AList.update gid (g\<lparr>bg_tick := tick\<rparr>) (pt_groups p)))
      = pt_total_bytes p"
    using hm_sum_update [OF g, of "bg_bytes \<circ> snd" "g\<lparr>bg_tick := tick\<rparr>"] tot by simp
  ultimately show "part_wf p'" using assms(1) h pt' unfolding part_wf_def by (simp add: p'_def)
  show "part_get p' = (part_get p)(bg_tokens g \<mapsto> g\<lparr>bg_tick := tick\<rparr>)"
  proof
    fix q
    have "prt_map (pt_tree p) q = Some gid \<longleftrightarrow> q = bg_tokens g"
      using pt g unfolding points_to_def by (metis option.inject)
    moreover have "pt_tree p' = pt_tree p" by (simp add: p'_def)
    ultimately show "part_get p' q = ((part_get p)(bg_tokens g \<mapsto> g\<lparr>bg_tick := tick\<rparr>)) q"
      unfolding part_get_def gs by (cases "prt_map (pt_tree p) q") auto
  qed
qed

section \<open>Invariant of the partitions\<close>

definition parts_wf :: "'k partitions \<Rightarrow> bool" where
  "parts_wf m \<longleftrightarrow> hm_wf m \<and> (\<forall>k p. map_of m k = Some p \<longrightarrow> part_wf p)"

definition parts_get :: "'k partitions \<Rightarrow> tenant_id \<Rightarrow> 'k \<Rightarrow> u32 list \<Rightarrow> block_group option" where
  "parts_get m tenant key q = Option.bind (map_of m (tenant, key)) (\<lambda>p. part_get p q)"

definition tenant_part :: "tenant_id \<Rightarrow> (partition \<Rightarrow> nat) \<Rightarrow> (tenant_id \<times> 'k) \<times> partition \<Rightarrow> nat" where
  "tenant_part tenant f e = (if fst (fst e) = tenant then f (snd e) else 0)"

lemma tenant_bytes_alt: "tenant_bytes tenant m = sum_list (map (tenant_part tenant pt_total_bytes) m)"
  by (induction m) (auto simp: tenant_bytes_def tenant_part_def)

lemma length_tenant_groups:
  "length (tenant_groups tenant m) = sum_list (map (tenant_part tenant (length \<circ> pt_groups)) m)"
  by (induction m) (auto simp: tenant_groups_def tenant_part_def)

lemma tenant_groups_set:
  "(key, gid, tick) \<in> set (tenant_groups tenant m) \<longleftrightarrow>
     (\<exists>p g. ((tenant, key), p) \<in> set m \<and> (gid, g) \<in> set (pt_groups p) \<and> tick = bg_tick g)"
proof (induction m)
  case (Cons e m)
  obtain t k p where e: "e = ((t, k), p)" by (metis surj_pair)
  have "(key, gid, tick) \<in> (\<lambda>(gid, g). (k, gid, bg_tick g)) ` set (pt_groups p) \<longleftrightarrow>
      k = key \<and> (\<exists>g. (gid, g) \<in> set (pt_groups p) \<and> tick = bg_tick g)" by force
  then have "(key, gid, tick) \<in> set (tenant_groups tenant (e # m)) \<longleftrightarrow>
      t = tenant \<and> k = key \<and> (\<exists>g. (gid, g) \<in> set (pt_groups p) \<and> tick = bg_tick g)
      \<or> (key, gid, tick) \<in> set (tenant_groups tenant m)"
    by (simp add: e tenant_groups_def)
  then show ?case using Cons by (auto simp: e)
qed (simp add: tenant_groups_def)

lemma tenant_groups_member:
  assumes "parts_wf m"
  shows "(key, gid, tick) \<in> set (tenant_groups tenant m) \<longleftrightarrow>
    (\<exists>p g. map_of m (tenant, key) = Some p \<and> map_of (pt_groups p) gid = Some g \<and> tick = bg_tick g)"
proof -
  have h: "hm_wf m" "\<And>k p. map_of m k = Some p \<Longrightarrow> hm_wf (pt_groups p)"
    using assms unfolding parts_wf_def part_wf_def by blast+
  have "(key, gid, tick) \<in> set (tenant_groups tenant m) \<longleftrightarrow>
      (\<exists>p g. ((tenant, key), p) \<in> set m \<and> (gid, g) \<in> set (pt_groups p) \<and> tick = bg_tick g)"
    by (rule tenant_groups_set)
  also have "\<dots> \<longleftrightarrow> (\<exists>p g. map_of m (tenant, key) = Some p \<and> map_of (pt_groups p) gid = Some g
      \<and> tick = bg_tick g)"
    using h by (metis map_of_eq_Some_iff)
  finally show ?thesis .
qed

lemma parts_get_group:
  assumes "parts_wf m"
  shows "parts_get m tenant key q = Some g \<longleftrightarrow>
    (\<exists>p gid. map_of m (tenant, key) = Some p \<and> map_of (pt_groups p) gid = Some g \<and> bg_tokens g = q)"
proof -
  have "map_of m (tenant, key) = Some p \<Longrightarrow> part_wf p" for p
    using assms unfolding parts_wf_def by blast
  then show ?thesis unfolding parts_get_def bind_eq_Some_conv using part_get_group by blast
qed

lemma evict_group_effect:
  assumes wf: "parts_wf m" and p: "map_of m (tenant, key) = Some p"
    and g: "map_of (pt_groups p) gid = Some g"
  defines "m' \<equiv> evict_group tenant key gid m"
  shows "parts_wf m'"
    and "parts_get m' t k = (if (t, k) = (tenant, key) then (parts_get m tenant key)(bg_tokens g := None)
                             else parts_get m t k)"
    and "tenant_bytes tenant m' + bg_bytes g = tenant_bytes tenant m"
    and "t \<noteq> tenant \<Longrightarrow> tenant_bytes t m' = tenant_bytes t m"
    and "length (tenant_groups tenant m') < length (tenant_groups tenant m)"
    and "map_of m' (t, k) = Some p2 \<Longrightarrow> map_of (pt_groups p2) gid2 = Some g2 \<Longrightarrow>
           \<exists>p1. map_of m (t, k) = Some p1 \<and> map_of (pt_groups p1) gid2 = Some g2"
proof -
  have h: "hm_wf m" and pw: "part_wf p" using wf p unfolding parts_wf_def by blast+
  define p' where "p' = drop_group gid p"
  have p'_eq: "p' = p\<lparr>pt_groups := AList.delete gid (pt_groups p),
      pt_tree := fst (prt_remove (pt_tree p) (bg_tokens g)),
      pt_total_bytes := pt_total_bytes p - bg_bytes g\<rparr>"
    using g by (simp add: p'_def drop_group_def)
  note del = part_wf_delete [OF pw g, folded p'_eq]
  have hg: "hm_wf (pt_groups p)" using pw unfolding part_wf_def by blast
  have len: "Suc (length (pt_groups p')) = length (pt_groups p)"
    using hm_sum_delete [OF hg g, of "\<lambda>_. 1"] by (simp add: p'_eq sum_list_triv)
  have m'_eq: "m' = (if pt_groups p' = [] then AList.delete (tenant, key) m
      else AList.update (tenant, key) p' m)"
    using p by (simp add: m'_def evict_group_def p'_def)
  have mo: "map_of m' = (map_of m)((tenant, key) := if pt_groups p' = [] then None else Some p')"
    by (simp add: m'_eq)
  have "hm_wf m'" using h by (simp add: m'_eq)
  then show "parts_wf m'" using wf del(1) unfolding parts_wf_def mo by (auto split: if_splits)
  have empty: "part_get p' q = None" if "pt_groups p' = []" for q
    using that by (cases "prt_map (pt_tree p') q") (simp_all add: part_get_def)
  show "parts_get m' t k = (if (t, k) = (tenant, key)
      then (parts_get m tenant key)(bg_tokens g := None) else parts_get m t k)"
  proof
    fix q
    have "part_get p' q = ((part_get p)(bg_tokens g := None)) q" by (simp add: del(2))
    then show "parts_get m' t k q = (if (t, k) = (tenant, key)
        then (parts_get m tenant key)(bg_tokens g := None) else parts_get m t k) q"
      using p empty [of q] by (auto simp: parts_get_def mo)
  qed
  have sums: "sum_list (map (tenant_part t f) m') + tenant_part t f ((tenant, key), p)
      = sum_list (map (tenant_part t f) m) + (if t = tenant \<and> pt_groups p' \<noteq> [] then f p' else 0)"
    for t f
    using hm_sum_delete [OF h p, of "tenant_part t f"] hm_sum_update [OF p, of "tenant_part t f" p']
    by (auto simp: m'_eq tenant_part_def)
  have "pt_total_bytes p' = 0" if "pt_groups p' = []"
    using del(1) that unfolding part_wf_def by simp
  then show "tenant_bytes tenant m' + bg_bytes g = tenant_bytes tenant m"
    using sums [of tenant pt_total_bytes] del(3)
    unfolding tenant_bytes_alt by (auto simp: tenant_part_def split: if_splits)
  show "t \<noteq> tenant \<Longrightarrow> tenant_bytes t m' = tenant_bytes t m"
    using sums [of t pt_total_bytes] unfolding tenant_bytes_alt by (simp add: tenant_part_def)
  show "length (tenant_groups tenant m') < length (tenant_groups tenant m)"
    using sums [of tenant "length \<circ> pt_groups"] len
    unfolding length_tenant_groups by (auto simp: tenant_part_def split: if_splits)
  show "\<exists>p1. map_of m (t, k) = Some p1 \<and> map_of (pt_groups p1) gid2 = Some g2"
    if "map_of m' (t, k) = Some p2" "map_of (pt_groups p2) gid2 = Some g2"
    using that p by (auto simp: mo p'_eq split: if_splits)
qed

section \<open>The eviction loop\<close>

abbreviation evict_rank :: "'k \<times> u64 \<times> u64 \<Rightarrow> nat \<times> nat" where
  "evict_rank c \<equiv> (unat (snd (snd c)), unat (fst (snd c)))"

lemma better_candidate_least:
  "\<exists>b. better_candidate a best = Some b \<and> (b = a \<or> best = Some b)
     \<and> unat (snd (snd b)) \<le> unat (snd (snd a))
     \<and> (\<forall>c'\<in>set_option best. unat (snd (snd b)) \<le> unat (snd (snd c')))"
proof (cases best)
  case (Some b)
  obtain k i n k' i' n' where eq: "a = (k, i, n)" "b = (k', i', n')" by (metis prod_cases3)
  show ?thesis
    by (cases "n < n' \<or> n = n' \<and> i < i'") (auto simp: Some eq word_less_nat_alt)
qed simp

lemma better_candidate_fold_None: "fold better_candidate cs best = None \<longleftrightarrow> cs = [] \<and> best = None"
proof (induction cs arbitrary: best)
  case (Cons a cs)
  obtain b where "better_candidate a best = Some b" using better_candidate_least by blast
  then show ?case using Cons [of "Some b"] by simp
qed simp

lemma better_candidate_fold:
  "fold better_candidate cs best = Some c \<Longrightarrow> (c \<in> set cs \<or> best = Some c)
     \<and> (\<forall>c'\<in>set cs \<union> set_option best. unat (snd (snd c)) \<le> unat (snd (snd c')))"
proof (induction cs arbitrary: best)
  case (Cons a cs)
  obtain b where b: "better_candidate a best = Some b" "b = a \<or> best = Some b"
      "unat (snd (snd b)) \<le> unat (snd (snd a))"
      "\<forall>c'\<in>set_option best. unat (snd (snd b)) \<le> unat (snd (snd c'))"
    using better_candidate_least by blast
  have "fold better_candidate cs (Some b) = Some c" using Cons.prems b(1) by simp
  note ih = Cons.IH [OF this]
  have "c \<in> set (a # cs) \<or> best = Some c" using ih b(2) by auto
  moreover have cb: "unat (snd (snd c)) \<le> unat (snd (snd b))" using ih by simp
  have "unat (snd (snd c)) \<le> unat (snd (snd c'))" if "c' \<in> set (a # cs) \<union> set_option best" for c'
  proof -
    from that consider "c' = a" | "c' \<in> set cs" | "c' \<in> set_option best" by auto
    then show ?thesis using ih b(3,4) cb by cases (blast intro: order_trans)+
  qed
  ultimately show ?case by blast
qed simp

lemma evict_candidate_None: "evict_candidate tenant m = None \<longleftrightarrow> tenant_groups tenant m = []"
  by (simp add: evict_candidate_def better_candidate_fold_None)

lemma evict_candidate_Some:
  "evict_candidate tenant m = Some (key, gid, tick) \<Longrightarrow> (key, gid, tick) \<in> set (tenant_groups tenant m)
     \<and> (\<forall>(k, i, n)\<in>set (tenant_groups tenant m). unat tick \<le> unat n)"
  using better_candidate_fold [of "tenant_groups tenant m" None "(key, gid, tick)"]
  by (fastforce simp: evict_candidate_def)

lemma no_groups_no_bytes:
  assumes "parts_wf m" "tenant_groups tenant m = []"
  shows "tenant_bytes tenant m = 0"
proof -
  have "tenant_part tenant pt_total_bytes e = 0" if "e \<in> set m" for e
  proof -
    obtain t k p where e: "e = ((t, k), p)" by (metis surj_pair)
    have "map_of m (t, k) = Some p" using that e assms(1) unfolding parts_wf_def by simp
    then have "part_wf p" using assms(1) unfolding parts_wf_def by blast
    moreover have "pt_groups p = []" if "t = tenant"
      using assms(2) \<open>e \<in> set m\<close> e that unfolding tenant_groups_def by auto
    ultimately show ?thesis unfolding part_wf_def e tenant_part_def by simp
  qed
  then show ?thesis by (simp add: tenant_bytes_alt)
qed

text \<open>
  What one run of the loop does: it returns, the tenant is within the budget, only groups of the
  tenant go, and no group that goes was used more recently than one that stays.
\<close>

definition newest_group :: "tenant_id \<Rightarrow> 'k partitions \<Rightarrow> 'k \<Rightarrow> u32 list \<Rightarrow> block_group \<Rightarrow> bool" where
  "newest_group tenant m key q g \<longleftrightarrow> parts_get m tenant key q = Some g
     \<and> (\<forall>k q' g'. parts_get m tenant k q' = Some g' \<and> (k, q') \<noteq> (key, q)
          \<longrightarrow> unat (bg_tick g') < unat (bg_tick g))"

definition evicted_to :: "tenant_id \<Rightarrow> nat \<Rightarrow> 'k partitions \<Rightarrow> 'k partitions \<Rightarrow> bool" where
  "evicted_to tenant budget m m' \<longleftrightarrow> parts_wf m' \<and> tenant_bytes tenant m' \<le> budget
     \<and> (\<forall>t. t \<noteq> tenant \<longrightarrow> parts_get m' t = parts_get m t \<and> tenant_bytes t m' = tenant_bytes t m)
     \<and> (\<forall>k. parts_get m' tenant k \<subseteq>\<^sub>m parts_get m tenant k)
     \<and> (\<forall>k q g k' q' g'. parts_get m tenant k q = Some g \<and> parts_get m' tenant k q = None
          \<and> parts_get m' tenant k' q' = Some g' \<longrightarrow> unat (bg_tick g) \<le> unat (bg_tick g'))
     \<and> (\<forall>k q g. newest_group tenant m k q g \<and> bg_bytes g \<le> budget \<longrightarrow> parts_get m' tenant k q = Some g)
     \<and> (\<forall>t k p gid g. map_of m' (t, k) = Some p \<and> map_of (pt_groups p) gid = Some g
          \<longrightarrow> (\<exists>p1. map_of m (t, k) = Some p1 \<and> map_of (pt_groups p1) gid = Some g))"

lemma evicted_toD:
  assumes "evicted_to tenant budget m m'"
  shows "parts_wf m'" and "tenant_bytes tenant m' \<le> budget"
    and "t \<noteq> tenant \<Longrightarrow> parts_get m' t = parts_get m t"
    and "t \<noteq> tenant \<Longrightarrow> tenant_bytes t m' = tenant_bytes t m"
    and "parts_get m' tenant k q = Some g \<Longrightarrow> parts_get m tenant k q = Some g"
    and "parts_get m tenant k q = Some g \<Longrightarrow> parts_get m' tenant k q = None \<Longrightarrow>
           parts_get m' tenant k' q' = Some g' \<Longrightarrow> unat (bg_tick g) \<le> unat (bg_tick g')"
    and "newest_group tenant m k q g \<Longrightarrow> bg_bytes g \<le> budget \<Longrightarrow> parts_get m' tenant k q = Some g"
    and "map_of m' (t, k) = Some p \<Longrightarrow> map_of (pt_groups p) gid = Some g \<Longrightarrow>
           \<exists>p1. map_of m (t, k) = Some p1 \<and> map_of (pt_groups p1) gid = Some g"
proof -
  note E = assms [unfolded evicted_to_def]
  show "parts_wf m'" "tenant_bytes tenant m' \<le> budget" using E by blast+
  show "t \<noteq> tenant \<Longrightarrow> parts_get m' t = parts_get m t"
    "t \<noteq> tenant \<Longrightarrow> tenant_bytes t m' = tenant_bytes t m" using E by blast+
  have "parts_get m' tenant k \<subseteq>\<^sub>m parts_get m tenant k" using E by blast
  then show "parts_get m' tenant k q = Some g \<Longrightarrow> parts_get m tenant k q = Some g"
    by (auto simp: map_le_def dom_def)
  show "parts_get m tenant k q = Some g \<Longrightarrow> parts_get m' tenant k q = None \<Longrightarrow>
      parts_get m' tenant k' q' = Some g' \<Longrightarrow> unat (bg_tick g) \<le> unat (bg_tick g')"
    using E by blast
  show "newest_group tenant m k q g \<Longrightarrow> bg_bytes g \<le> budget \<Longrightarrow> parts_get m' tenant k q = Some g"
    using E by blast
  show "map_of m' (t, k) = Some p \<Longrightarrow> map_of (pt_groups p) gid = Some g \<Longrightarrow>
      \<exists>p1. map_of m (t, k) = Some p1 \<and> map_of (pt_groups p1) gid = Some g"
    using E by meson
qed

lemma evicted_to_refl: "parts_wf m \<Longrightarrow> tenant_bytes tenant m \<le> budget \<Longrightarrow> evicted_to tenant budget m m"
  unfolding evicted_to_def newest_group_def by auto

lemma only_group_evicted:
  assumes wf: "parts_wf m" and p: "map_of m (tenant, key) = Some p"
    and g: "map_of (pt_groups p) gid = Some g"
    and newest: "newest_group tenant m key (bg_tokens g) g"
    and least: "\<forall>(k, i, n)\<in>set (tenant_groups tenant m). unat (bg_tick g) \<le> unat n"
  shows "tenant_bytes tenant m = bg_bytes g"
proof -
  let ?m = "evict_group tenant key gid m"
  note eff = evict_group_effect [OF wf p g]
  have "(k, i, n) \<notin> set (tenant_groups tenant ?m)" for k i n
  proof
    assume mem: "(k, i, n) \<in> set (tenant_groups tenant ?m)"
    then obtain p' g' where p': "map_of ?m (tenant, k) = Some p'" "map_of (pt_groups p') i = Some g'"
        "n = bg_tick g'" using tenant_groups_member [OF eff(1)] by blast
    then have get: "parts_get ?m tenant k (bg_tokens g') = Some g'" using parts_get_group [OF eff(1)] by blast
    then have ne: "(k, bg_tokens g') \<noteq> (key, bg_tokens g)" using eff(2) [of tenant k] by auto
    have "parts_get m tenant k (bg_tokens g') = Some g'"
      using get ne eff(2) [of tenant k] by (auto split: if_splits)
    then have "unat (bg_tick g') < unat (bg_tick g)" using newest ne unfolding newest_group_def by blast
    moreover obtain p1 where "map_of m (tenant, k) = Some p1" "map_of (pt_groups p1) i = Some g'"
      using eff(6) [OF p'(1,2)] by blast
    then have "(k, i, n) \<in> set (tenant_groups tenant m)"
      using tenant_groups_member [OF wf] p'(3) by blast
    from bspec [OF least this] have "unat (bg_tick g) \<le> unat (bg_tick g')" by (simp add: p'(3))
    ultimately show False by simp
  qed
  then have "tenant_groups tenant ?m = []" by (metis list.set_intros(1) neq_Nil_conv prod_cases3)
  then show ?thesis using no_groups_no_bytes [OF eff(1)] eff(3) by simp
qed

lemma evicted_to_step:
  assumes over: "budget < tenant_bytes tenant m" and wf: "parts_wf m" and p: "map_of m (tenant, key) = Some p"
    and g: "map_of (pt_groups p) gid = Some g"
    and least: "\<forall>(k, i, n)\<in>set (tenant_groups tenant m). unat (bg_tick g) \<le> unat n"
    and rest: "evicted_to tenant budget (evict_group tenant key gid m) m'"
  shows "evicted_to tenant budget m m'"
proof -
  let ?m = "evict_group tenant key gid m"
  note eff = evict_group_effect [OF wf p g]
  note R = rest [unfolded evicted_to_def]
  have sub: "parts_get ?m tenant k \<subseteq>\<^sub>m parts_get m tenant k" for k
    using eff(2) [of tenant k] by (auto simp: map_le_def)
  have others: "\<forall>t. t \<noteq> tenant \<longrightarrow> parts_get m' t = parts_get m t \<and> tenant_bytes t m' = tenant_bytes t m"
  proof (intro allI impI conjI)
    fix t assume "t \<noteq> tenant"
    then have "parts_get ?m t = parts_get m t" "tenant_bytes t ?m = tenant_bytes t m"
      using eff(2,4) by (auto simp: fun_eq_iff)
    then show "parts_get m' t = parts_get m t" "tenant_bytes t m' = tenant_bytes t m"
      using R \<open>t \<noteq> tenant\<close> by auto
  qed
  have keep: "parts_get m' tenant k \<subseteq>\<^sub>m parts_get m tenant k" for k
    using R sub map_le_trans by blast
  have tick: "unat (bg_tick g) \<le> unat (bg_tick g')" if got: "parts_get m tenant k' q' = Some g'"
    for k' q' g'
  proof -
    obtain p2 gid2 where "map_of m (tenant, k') = Some p2" "map_of (pt_groups p2) gid2 = Some g'"
      using iffD1 [OF parts_get_group [OF wf] got] by blast
    then have "(k', gid2, bg_tick g') \<in> set (tenant_groups tenant m)"
      using tenant_groups_member [OF wf] by blast
    from bspec [OF least this] show ?thesis by simp
  qed
  have own: "parts_get m tenant key (bg_tokens g) = Some g" using parts_get_group [OF wf] p g by blast
  have order: "unat (bg_tick g1) \<le> unat (bg_tick g')"
    if "parts_get m tenant k q = Some g1" "parts_get m' tenant k q = None"
      "parts_get m' tenant k' q' = Some g'" for k q g1 k' q' g'
  proof (cases "parts_get ?m tenant k q")
    case None
    then have "k = key \<and> q = bg_tokens g" using that(1) eff(2) [of tenant k] by (auto split: if_splits)
    then have "g1 = g" using that(1) own by simp
    moreover have "parts_get m tenant k' q' = Some g'" using keep that(3) by (auto simp: map_le_def dom_def)
    ultimately show ?thesis using tick by blast
  next
    case (Some x)
    then have "parts_get ?m tenant k q = Some g1" using that(1) sub [of k] by (auto simp: map_le_def dom_def)
    then show ?thesis using R that(2,3) by blast
  qed
  have sub_groups: "\<exists>p1. map_of m (t, k) = Some p1 \<and> map_of (pt_groups p1) i = Some g1"
    if "map_of m' (t, k) = Some p2" "map_of (pt_groups p2) i = Some g1" for t k p2 i g1
  proof -
    have "\<exists>p1. map_of ?m (t, k) = Some p1 \<and> map_of (pt_groups p1) i = Some g1"
      using evicted_toD(8) [OF rest that] .
    then show ?thesis using eff(6) by blast
  qed
  have kept: "parts_get m' tenant k q = Some g'"
    if new: "newest_group tenant m k q g'" and fits: "bg_bytes g' \<le> budget" for k q g'
  proof -
    have "(k, q) \<noteq> (key, bg_tokens g)"
    proof
      assume eq: "(k, q) = (key, bg_tokens g)"
      then have "g' = g" using new own unfolding newest_group_def by simp
      then have "tenant_bytes tenant m = bg_bytes g'"
        using only_group_evicted [OF wf p g _ least] new eq by simp
      then show False using over fits by simp
    qed
    then have "parts_get ?m tenant k q = parts_get m tenant k q"
      using eff(2) [of tenant k] by (auto split: if_splits)
    moreover have "parts_get m tenant k' q' = Some g''" if "parts_get ?m tenant k' q' = Some g''" for k' q' g''
      using that sub [of k'] by (auto simp: map_le_def dom_def)
    ultimately have "newest_group tenant ?m k q g'" using new unfolding newest_group_def by metis
    then show ?thesis using R fits by blast
  qed
  have base: "parts_wf m'" "tenant_bytes tenant m' \<le> budget" using R by blast+
  show ?thesis unfolding evicted_to_def
    by (intro conjI base others allI impI keep; (elim conjE)?; (rule order sub_groups kept; assumption))
qed

lemma evict_loop_returns:
  "parts_wf m \<Longrightarrow> \<exists>m'. evict_to_budget_internal tenant budget m = Some m' \<and> evicted_to tenant budget m m'"
proof (induction "length (tenant_groups tenant m)" arbitrary: m rule: less_induct)
  case less
  show ?case
  proof (cases "tenant_bytes tenant m \<le> budget")
    case True
    then show ?thesis using evicted_to_refl [OF less.prems] by (simp add: evict_to_budget_internal.simps)
  next
    case False
    then have "tenant_groups tenant m \<noteq> []" using no_groups_no_bytes [OF less.prems] by fastforce
    then obtain key gid tick where c: "evict_candidate tenant m = Some (key, gid, tick)"
      using evict_candidate_None by (metis option.exhaust prod_cases3)
    obtain p g where p: "map_of m (tenant, key) = Some p" and g: "map_of (pt_groups p) gid = Some g"
      and least: "\<forall>(k, i, n)\<in>set (tenant_groups tenant m). unat (bg_tick g) \<le> unat n"
    proof -
      note cand = evict_candidate_Some [OF c]
      then obtain p g where "map_of m (tenant, key) = Some p" "map_of (pt_groups p) gid = Some g"
          "tick = bg_tick g"
        using tenant_groups_member [OF less.prems] by blast
      then show thesis using cand by (intro that) auto
    qed
    note eff = evict_group_effect [OF less.prems p g]
    obtain m' where m': "evict_to_budget_internal tenant budget (evict_group tenant key gid m) = Some m'"
        "evicted_to tenant budget (evict_group tenant key gid m) m'"
      using less.hyps [OF eff(5,1)] by blast
    have "evict_to_budget_internal tenant budget m = Some m'"
      using False c m'(1) by (subst evict_to_budget_internal.simps) simp
    then show ?thesis using evicted_to_step [OF _ less.prems p g least m'(2)] False by (simp add: not_le)
  qed
qed

section \<open>Invariant of the store\<close>

definition ps_wf :: "'k prefix_store \<Rightarrow> bool" where
  "ps_wf S \<longleftrightarrow> parts_wf (ps_partitions S)
     \<and> (\<forall>t. tenant_bytes t (ps_partitions S) \<le> ps_byte_budget S)
     \<and> (\<forall>t k p gid g. map_of (ps_partitions S) (t, k) = Some p \<and> map_of (pt_groups p) gid = Some g
          \<longrightarrow> unat gid < unat (ps_next_group_id S) \<and> unat (bg_tick g) < unat (ps_next_tick S))"

abbreviation ps_get :: "'k prefix_store \<Rightarrow> tenant_id \<Rightarrow> 'k \<Rightarrow> u32 list \<Rightarrow> block_group option" where
  "ps_get S \<equiv> parts_get (ps_partitions S)"

lemma replace_old_effect:
  assumes "part_wf p"
  shows "part_wf (replace_old q p)" and "part_get (replace_old q p) = (part_get p)(q := None)"
    and "pt_total_bytes (replace_old q p) \<le> pt_total_bytes p"
    and "map_of (pt_groups (replace_old q p)) gid = Some g \<Longrightarrow> map_of (pt_groups p) gid = Some g"
proof -
  have wf: "prt_wf (pt_tree p)" using assms unfolding part_wf_def by blast
  obtain tree r where rem: "prt_remove (pt_tree p) q = (tree, r)" by fastforce
  have tree: "prt_wf tree" "prt_map tree = (prt_map (pt_tree p))(q := None)" "r = prt_map (pt_tree p) q"
    using prt.del_ok [OF wf, of q] rem by auto
  have "part_wf (replace_old q p) \<and> part_get (replace_old q p) = (part_get p)(q := None)
    \<and> pt_total_bytes (replace_old q p) \<le> pt_total_bytes p
    \<and> (map_of (pt_groups (replace_old q p)) gid = Some g \<longrightarrow> map_of (pt_groups p) gid = Some g)"
  proof (cases r)
    case None
    then have m: "prt_map tree = prt_map (pt_tree p)" using tree by (simp add: fun_upd_idem)
    have eq: "replace_old q p = p\<lparr>pt_tree := tree\<rparr>" using rem None by (simp add: replace_old_def)
    have "part_get p q = None" using None tree(3) by (simp add: part_get_def)
    then have "part_get (replace_old q p) = (part_get p)(q := None)"
      using m unfolding eq by (auto simp: part_get_def fun_eq_iff)
    moreover have "part_wf (replace_old q p)"
      using assms tree(1) unfolding eq part_wf_def by (simp add: m)
    ultimately show ?thesis by (simp add: eq)
  next
    case (Some old)
    obtain g0 where g0: "map_of (pt_groups p) old = Some g0" "bg_tokens g0 = q"
      using part_get_exists [OF assms] Some tree(3) by metis
    have eq: "replace_old q p = p\<lparr>pt_groups := AList.delete old (pt_groups p),
        pt_tree := fst (prt_remove (pt_tree p) (bg_tokens g0)),
        pt_total_bytes := pt_total_bytes p - bg_bytes g0\<rparr>"
      using rem Some g0 by (simp add: replace_old_def)
    note del = part_wf_delete [OF assms g0(1), folded eq]
    have "map_of (pt_groups (replace_old q p)) = (map_of (pt_groups p))(old := None)"
      unfolding eq by simp
    then have "map_of (pt_groups (replace_old q p)) gid = Some g \<longrightarrow> map_of (pt_groups p) gid = Some g"
      by (simp add: fun_upd_apply)
    then show ?thesis using del g0(2) by simp
  qed
  then show "part_wf (replace_old q p)" "part_get (replace_old q p) = (part_get p)(q := None)"
    "pt_total_bytes (replace_old q p) \<le> pt_total_bytes p"
    "map_of (pt_groups (replace_old q p)) gid = Some g \<Longrightarrow> map_of (pt_groups p) gid = Some g"
    by blast+
qed

lemma parts_update:
  fixes m :: "'k partitions" and tenant :: tenant_id and key :: 'k
  assumes "parts_wf m" "part_wf p"
  defines "m' \<equiv> AList.update (tenant, key) p m"
  shows "parts_wf m'"
    and "parts_get m' t k = (if (t, k) = (tenant, key) then part_get p else parts_get m t k)"
    and "t \<noteq> tenant \<Longrightarrow> tenant_bytes t m' = tenant_bytes t m"
proof -
  have mo: "map_of m' = (map_of m)((tenant, key) \<mapsto> p)" by (simp add: m'_def)
  show "parts_wf m'" using assms(1,2) unfolding parts_wf_def mo by (simp add: m'_def)
  show "parts_get m' t k = (if (t, k) = (tenant, key) then part_get p else parts_get m t k)"
    by (simp add: parts_get_def mo fun_eq_iff)
  assume t: "t \<noteq> tenant"
  show "tenant_bytes t m' = tenant_bytes t m"
    using hm_sum_update [of m "(tenant, key)" _ "tenant_part t pt_total_bytes" p]
      hm_sum_insert [of m "(tenant, key)" "tenant_part t pt_total_bytes" p] t
    unfolding tenant_bytes_alt m'_def
    by (cases "map_of m (tenant, key)") (simp_all add: tenant_part_def)
qed

text \<open>What a successful insertion does to the content.\<close>

definition inserted ::
  "tenant_id \<Rightarrow> 'k \<Rightarrow> u32 list \<Rightarrow> kv_block list \<Rightarrow> 'k prefix_store \<Rightarrow> 'k prefix_store \<Rightarrow> bool" where
  "inserted tenant key tokens blocks S S' \<longleftrightarrow>
     (\<exists>g. ps_get S' tenant key tokens = Some g \<and> bg_blocks g = blocks)
     \<and> (\<forall>t k q g. ps_get S' t k q = Some g \<and> (t, k, q) \<noteq> (tenant, key, tokens) \<longrightarrow> ps_get S t k q = Some g)
     \<and> (\<forall>t. t \<noteq> tenant \<longrightarrow> ps_get S' t = ps_get S t)
     \<and> (\<forall>k q g k' q' g'. (k, q) \<noteq> (key, tokens) \<and> ps_get S tenant k q = Some g
          \<and> ps_get S' tenant k q = None \<and> ps_get S' tenant k' q' = Some g'
          \<longrightarrow> unat (bg_tick g) \<le> unat (bg_tick g'))"

lemma ps_insert_effect:
  assumes wf: "ps_wf S"
    and room: "Suc (unat (ps_next_group_id S)) < 2 ^ 64" "Suc (unat (ps_next_tick S)) < 2 ^ 64"
    and ok: "tokens \<noteq> []" "blocks \<noteq> []" "group_bytes blocks \<le> ps_byte_budget S"
  shows "\<exists>S'. ps_insert tenant key tokens blocks S = Some (Inr (), S') \<and> ps_wf S'
    \<and> inserted tenant key tokens blocks S S'
    \<and> ps_byte_budget S' = ps_byte_budget S \<and> ps_reuse_policy S' = ps_reuse_policy S
    \<and> ps_next_group_id S' = ps_next_group_id S + 1 \<and> ps_next_tick S' = ps_next_tick S + 1"
proof -
  define m where "m = ps_partitions S"
  define gid where "gid = ps_next_group_id S"
  define tick where "tick = ps_next_tick S"
  have mwf: "parts_wf m" and within: "\<And>t. tenant_bytes t m \<le> ps_byte_budget S"
    and below: "\<And>t k p i g. map_of m (t, k) = Some p \<Longrightarrow> map_of (pt_groups p) i = Some g \<Longrightarrow>
      unat i < unat gid \<and> unat (bg_tick g) < unat tick"
    using wf unfolding ps_wf_def m_def gid_def tick_def by blast+
  define p0 where "p0 = (case map_of m (tenant, key) of Some p \<Rightarrow> p | None \<Rightarrow> partition_new tenant)"
  have p0wf: "part_wf p0" using mwf unfolding p0_def parts_wf_def by (simp split: option.split)
  have p0_get: "part_get p0 = parts_get m tenant key"
    by (auto simp: p0_def parts_get_def fun_eq_iff split: option.split)
  have p0_below: "unat i < unat gid \<and> unat (bg_tick g) < unat tick"
    if "map_of (pt_groups p0) i = Some g" for i g
    using that below by (auto simp: p0_def partition_new_def split: option.splits)
  define p1 where "p1 = replace_old tokens p0"
  note p1 = replace_old_effect [OF p0wf, of tokens, folded p1_def]
  have fresh: "map_of (pt_groups p1) gid = None"
  proof (rule ccontr)
    assume "map_of (pt_groups p1) gid \<noteq> None"
    then obtain g where "map_of (pt_groups p1) gid = Some g" by blast
    from p0_below [OF p1(4) [OF this]] show False by simp
  qed
  define g where "g = \<lparr>bg_group_id = gid, bg_tokens = tokens, bg_blocks = blocks,
    bg_bytes = group_bytes blocks, bg_tick = tick\<rparr>"
  obtain tree where tree: "prt_insert (pt_tree p1) tokens gid = Inr tree"
    using prt.put_ok [of "pt_tree p1" tokens gid] p1(1) ok(1) unfolding part_wf_def by blast
  define p2 where "p2 = p1\<lparr>pt_tree := tree, pt_groups := AList.update gid g (pt_groups p1),
    pt_total_bytes := pt_total_bytes p1 + bg_bytes g\<rparr>"
  have p2: "part_wf p2" "part_get p2 = (part_get p1)(tokens \<mapsto> g)"
    using part_wf_insert [OF p1(1) fresh, of g tree] p1(2) ok(1) tree
    by (simp_all add: p2_def g_def)
  define m2 where "m2 = AList.update (tenant, key) p2 m"
  note m2 = parts_update [OF mwf p2(1), where tenant = tenant and key = key, folded m2_def]
  have get2: "parts_get m2 t k q = (if (t, k, q) = (tenant, key, tokens) then Some g else parts_get m t k q)"
    for t k q using m2(2) [of t k] p2(2) p1(2) p0_get by simp
  have groups2: "unat i < unat (gid + 1) \<and> unat (bg_tick g') < unat (tick + 1)"
    if "map_of m2 (t, k) = Some p" "map_of (pt_groups p) i = Some g'" for t k p i g'
  proof -
    have nw: "unat (gid + 1) = Suc (unat gid)" "unat (tick + 1) = Suc (unat tick)"
      using room by (simp_all add: gid_def tick_def unat_word_ariths)
    show ?thesis
    proof (cases "(t, k) = (tenant, key)")
      case True
      then have "p = p2" using that(1) by (simp add: m2_def)
      then show ?thesis using that(2) p0_below p1(4) nw
        by (auto simp: p2_def g_def less_Suc_eq split: if_splits)
    next
      case False
      then have "map_of m (t, k) = Some p" using that(1) by (auto simp: m2_def)
      from below [OF this that(2)] show ?thesis using nw by simp
    qed
  qed
  have "newest_group tenant m2 key tokens g"
  proof -
    have "unat (bg_tick g') < unat tick" if "parts_get m tenant k q = Some g'" for k q g'
      using iffD1 [OF parts_get_group [OF mwf]] that below by blast
    then show ?thesis unfolding newest_group_def get2 by (auto simp: g_def)
  qed
  moreover obtain m3 where m3: "evict_to_budget_internal tenant (ps_byte_budget S) m2 = Some m3"
      "evicted_to tenant (ps_byte_budget S) m2 m3"
    using evict_loop_returns [OF m2(1)] by blast
  ultimately have own: "parts_get m3 tenant key tokens = Some g"
    using ok(3) evicted_toD(7) by (fastforce simp: g_def)
  define S' where "S' = S\<lparr>ps_next_group_id := gid + 1, ps_next_tick := tick + 1, ps_partitions := m3\<rparr>"
  have run: "ps_insert tenant key tokens blocks S = Some (Inr (), S')"
    using ok tree m3(1) unfolding ps_insert_def
    by (simp add: Let_def S'_def m2_def p2_def p1_def p0_def m_def g_def gid_def tick_def not_less)
  note E = evicted_toD [OF m3(2)]
  have "tenant_bytes t m3 \<le> ps_byte_budget S" for t
    using E(2) E(4) [of t] m2(3) [of t] within [of t] by (cases "t = tenant") auto
  moreover have "unat i < unat (gid + 1) \<and> unat (bg_tick g') < unat (tick + 1)"
    if "map_of m3 (t, k) = Some p" "map_of (pt_groups p) i = Some g'" for t k p i g'
    using E(8) [OF that] groups2 by blast
  ultimately have "ps_wf S'" using E(1) unfolding ps_wf_def by (simp add: S'_def) blast
  moreover have "inserted tenant key tokens blocks S S'"
    unfolding inserted_def
  proof (intro conjI allI impI)
    show "\<exists>g. ps_get S' tenant key tokens = Some g \<and> bg_blocks g = blocks"
      using own by (simp add: S'_def g_def)
  next
    fix t k q g' assume a: "ps_get S' t k q = Some g' \<and> (t, k, q) \<noteq> (tenant, key, tokens)"
    then have "parts_get m2 t k q = Some g'"
      using E(3) [of t] E(5) by (cases "t = tenant") (auto simp: S'_def)
    then show "ps_get S t k q = Some g'" using a by (auto simp: get2 m_def split: if_splits)
  next
    fix t assume "t \<noteq> tenant"
    then show "ps_get S' t = ps_get S t" using E(3) [of t] get2 by (simp add: S'_def m_def fun_eq_iff)
  next
    fix k q g1 k' q' g'
    assume a: "(k, q) \<noteq> (key, tokens) \<and> ps_get S tenant k q = Some g1
      \<and> ps_get S' tenant k q = None \<and> ps_get S' tenant k' q' = Some g'"
    then have "parts_get m2 tenant k q = Some g1" by (auto simp: get2 m_def)
    then show "unat (bg_tick g1) \<le> unat (bg_tick g')" using E(6) a by (auto simp: S'_def)
  qed
  ultimately show ?thesis using run by (intro exI [of _ S']) (simp add: S'_def gid_def tick_def)
qed

lemma ps_insert_error:
  assumes "tokens = [] \<or> blocks = [] \<or> group_bytes blocks > ps_byte_budget S"
  shows "\<exists>e. ps_insert tenant key tokens blocks S = Some (Inl e, S)"
  using assms by (auto simp: ps_insert_def)

text \<open>
  The reference of a lookup: the longest prefix of the query that is stored and that the policy
  accepts, with the blocks stored for it.
\<close>

definition longest_group ::
  "kv_reuse_policy \<Rightarrow> (u32 list \<Rightarrow> block_group option) \<Rightarrow> u32 list \<Rightarrow> (nat \<times> block_group) option" where
  "longest_group policy content q =
     fold (\<lambda>n best. case content (take n q) of
         None \<Rightarrow> best
       | Some g \<Rightarrow> if should_reuse policy n then Some (n, g) else best)
       [1..<Suc (length q)] None"

lemma longest_group_tree:
  assumes "part_wf p"
  shows "longest_group policy (part_get p) q =
    map_option (\<lambda>pm. (pm_matched_len pm, the (map_of (pt_groups p) (pm_block_id pm))))
      (find_longest_prefix (pt_tree p) q policy)"
proof -
  have wf: "prt_wf (pt_tree p)" using assms unfolding part_wf_def by blast
  let ?f = "\<lambda>n best. case part_get p (take n q) of None \<Rightarrow> best
       | Some g \<Rightarrow> if should_reuse policy n then Some (n, g) else best"
  let ?h = "map_option (\<lambda>pm. (pm_matched_len pm, the (map_of (pt_groups p) (pm_block_id pm))))"
  have step: "?f n (?h best) = ?h (reuse_step policy (prt_map (pt_tree p)) [] q n best)" for n best
  proof (cases "prt_map (pt_tree p) (take n q)")
    case (Some gid)
    then show ?thesis using part_get_exists [OF assms Some] by (auto simp: reuse_step_def)
  qed (simp add: reuse_step_def part_get_def)
  have "fold ?f ns (?h best) = ?h (fold (reuse_step policy (prt_map (pt_tree p)) [] q) ns best)" for ns best
    by (induction ns arbitrary: best) (simp_all add: step)
  from this [of "[1..<Suc (length q)]" None] show ?thesis
    unfolding longest_group_def prt.longest_ok [OF wf] longest_reusable_def by (simp del: upt_Suc)
qed

text \<open>A lookup changes ticks only.\<close>

definition touched :: "'k prefix_store \<Rightarrow> 'k prefix_store \<Rightarrow> bool" where
  "touched S T \<longleftrightarrow> ps_wf T
     \<and> (\<forall>t k q. map_option bg_blocks (ps_get T t k q) = map_option bg_blocks (ps_get S t k q))
     \<and> ps_byte_budget T = ps_byte_budget S \<and> ps_reuse_policy T = ps_reuse_policy S
     \<and> ps_next_group_id T = ps_next_group_id S \<and> unat (ps_next_tick T) \<le> Suc (unat (ps_next_tick S))"

lemma touch_group:
  assumes wf: "ps_wf S" and room: "Suc (unat (ps_next_tick S)) < 2 ^ 64"
    and p: "map_of (ps_partitions S) (tenant, key) = Some p"
    and g: "map_of (pt_groups p) gid = Some g"
    and p'_def: "p' = p\<lparr>pt_groups := AList.update gid (g\<lparr>bg_tick := ps_next_tick S\<rparr>) (pt_groups p)\<rparr>"
    and T_def: "T = S\<lparr>ps_partitions := AList.update (tenant, key) p' (ps_partitions S),
      ps_next_tick := ps_next_tick S + 1\<rparr>"
  shows "touched S T"
proof -
  have mw: "parts_wf (ps_partitions S)" using wf unfolding ps_wf_def by blast
  then have pw: "part_wf p" using p unfolding parts_wf_def by blast
  note p' = part_wf_retick [OF pw g, of "ps_next_tick S", folded p'_def]
  note upd = parts_update [OF mw p'(1), where tenant = tenant and key = key]
  have nw: "unat (ps_next_tick S + 1) = Suc (unat (ps_next_tick S))"
    using room by (simp add: unat_word_ariths)
  have bytes: "tenant_bytes t (ps_partitions T) = tenant_bytes t (ps_partitions S)" for t
    using hm_sum_update [OF p, of "tenant_part t pt_total_bytes" p']
    unfolding tenant_bytes_alt by (simp add: T_def tenant_part_def p'_def split: if_splits)
  have "unat i < unat (ps_next_group_id T) \<and> unat (bg_tick g1) < unat (ps_next_tick T)"
    if p1: "map_of (ps_partitions T) (t, k) = Some p1" "map_of (pt_groups p1) i = Some g1" for t k p1 i g1
  proof -
    have below: "unat i < unat (ps_next_group_id S) \<and> unat (bg_tick g2) < unat (ps_next_tick S)"
      if "map_of (ps_partitions S) (t, k) = Some p2" "map_of (pt_groups p2) i = Some g2" for t k p2 i g2
      using wf that unfolding ps_wf_def by blast
    show ?thesis
    proof (cases "(t, k) = (tenant, key)")
      case True
      then have "p1 = p'" using p1(1) by (simp add: T_def)
      then show ?thesis using p1(2) below [OF p] g nw
        by (auto simp: p'_def T_def less_Suc_eq split: if_splits)
    next
      case False
      then have "map_of (ps_partitions S) (t, k) = Some p1" using p1(1) by (auto simp: T_def)
      from below [OF this p1(2)] show ?thesis using nw by (simp add: T_def)
    qed
  qed
  moreover have "parts_wf (ps_partitions T)" using upd(1) by (simp add: T_def)
  moreover have "tenant_bytes t (ps_partitions T) \<le> ps_byte_budget T" for t
    using wf unfolding bytes ps_wf_def by (simp add: T_def)
  ultimately have "ps_wf T" unfolding ps_wf_def by blast
  moreover have "map_option bg_blocks (ps_get T t k q) = map_option bg_blocks (ps_get S t k q)" for t k q
  proof -
    have "part_get p (bg_tokens g) = Some g" using part_get_group [OF pw] g by blast
    moreover have "ps_get S tenant key = part_get p" by (simp add: parts_get_def p fun_eq_iff)
    ultimately show ?thesis using upd(2) [of t k] p'(2) by (simp add: T_def)
  qed
  ultimately show ?thesis using nw unfolding touched_def by (simp add: T_def)
qed

lemma ps_lookup_effect:
  assumes wf: "ps_wf S" and room: "Suc (unat (ps_next_tick S)) < 2 ^ 64"
  shows "fst (ps_lookup tenant key tokens S) =
      map_option (\<lambda>(n, g). \<lparr>kh_matched_tokens = n, kh_blocks = bg_blocks g\<rparr>)
        (longest_group (ps_reuse_policy S) (ps_get S tenant key) tokens)
    \<and> touched S (snd (ps_lookup tenant key tokens S))"
proof (cases "tokens = [] \<or> map_of (ps_partitions S) (tenant, key) = None")
  case True
  have none: "longest_group policy (\<lambda>_. None) q = None" for policy q
    unfolding longest_group_def by (rule fold_no_step) simp
  have "longest_group (ps_reuse_policy S) (ps_get S tenant key) tokens = None"
  proof (cases "tokens = []")
    case False
    then have "ps_get S tenant key = (\<lambda>_. None)" using True by (simp add: parts_get_def fun_eq_iff)
    then show ?thesis using none by simp
  qed (simp add: longest_group_def)
  moreover have "touched S S" using wf by (simp add: touched_def)
  ultimately show ?thesis using True by (auto simp: ps_lookup_def)
next
  case False
  then obtain p where p: "map_of (ps_partitions S) (tenant, key) = Some p" by blast
  have pw: "part_wf p" using wf p unfolding ps_wf_def parts_wf_def by blast
  have get: "ps_get S tenant key = part_get p" by (simp add: parts_get_def p fun_eq_iff)
  note lg = longest_group_tree [OF pw, of "ps_reuse_policy S" tokens, folded get]
  show ?thesis
  proof (cases "find_longest_prefix (pt_tree p) tokens (ps_reuse_policy S)")
    case None
    moreover have "touched S S" using wf by (simp add: touched_def)
    ultimately show ?thesis using False p lg by (simp add: ps_lookup_def)
  next
    case (Some pm)
    have "prt_wf (pt_tree p)" using pw unfolding part_wf_def by blast
    from prt.longest_Some [OF this Some] obtain q
      where "prt_map (pt_tree p) q = Some (pm_block_id pm)" by auto
    then obtain g where g: "map_of (pt_groups p) (pm_block_id pm) = Some g"
      using part_get_exists [OF pw] by blast
    show ?thesis using touch_group [OF wf room p g refl refl] False p Some g lg
      by (simp add: ps_lookup_def)
  qed
qed

lemma ps_evict_effect:
  assumes wf: "ps_wf S"
  shows "ps_wf (snd (ps_evict tenant key S))"
    and "ps_get (snd (ps_evict tenant key S)) t k q =
      (if (t, k) = (tenant, key) then None else ps_get S t k q)"
    and "snd (ps_evict tenant key S) = S\<lparr>ps_partitions := AList.delete (tenant, key) (ps_partitions S)\<rparr>"
proof -
  let ?m = "ps_partitions S" and ?m' = "AList.delete (tenant, key) (ps_partitions S)"
  have noop: "map_of ?m (tenant, key) = None \<Longrightarrow> ?m' = ?m"
    by (force simp: AList.delete_eq filter_id_conv map_of_eq_None_iff)
  then show eq: "snd (ps_evict tenant key S) = S\<lparr>ps_partitions := ?m'\<rparr>"
    by (simp add: ps_evict_def split: option.split)
  have mo: "map_of ?m' = (map_of ?m)((tenant, key) := None)" by simp
  have h: "hm_wf ?m" and pw: "\<And>k p. map_of ?m k = Some p \<Longrightarrow> part_wf p"
    using wf unfolding ps_wf_def parts_wf_def by blast+
  have "parts_wf ?m'" using h pw unfolding parts_wf_def mo by (auto split: if_splits)
  moreover have "tenant_bytes t ?m' \<le> tenant_bytes t ?m" for t
    using noop hm_sum_delete [OF h, of "(tenant, key)" _ "tenant_part t pt_total_bytes"]
    unfolding tenant_bytes_alt by (cases "map_of ?m (tenant, key)") (simp, metis le_add1)
  moreover have "unat i < unat (ps_next_group_id S) \<and> unat (bg_tick g) < unat (ps_next_tick S)"
    if "map_of ?m' (t, k) = Some p" "map_of (pt_groups p) i = Some g" for t k p i g
  proof -
    have "map_of ?m (t, k) = Some p" using that(1) unfolding mo by (simp split: if_splits)
    then show ?thesis using wf that(2) unfolding ps_wf_def by blast
  qed
  ultimately show "ps_wf (snd (ps_evict tenant key S))"
    using wf unfolding eq ps_wf_def by (simp del: AList.delete_conv') (meson order_trans)
  show "ps_get (snd (ps_evict tenant key S)) t k q =
      (if (t, k) = (tenant, key) then None else ps_get S t k q)"
    unfolding eq parts_get_def by simp
qed

section \<open>Runs\<close>

datatype 'k ps_op =
    PsInsert tenant_id 'k "u32 list" "kv_block list"
  | PsLookup tenant_id 'k "u32 list"
  | PsEvict tenant_id 'k

definition ps_step :: "'k ps_op \<Rightarrow> 'k prefix_store \<Rightarrow> 'k prefix_store option" where
  "ps_step c S =
     (case c of
        PsInsert t k tokens blocks \<Rightarrow> map_option snd (ps_insert t k tokens blocks S)
      | PsLookup t k tokens \<Rightarrow> Some (snd (ps_lookup t k tokens S))
      | PsEvict t k \<Rightarrow> Some (snd (ps_evict t k S)))"

fun ps_run :: "'k ps_op list \<Rightarrow> 'k prefix_store \<Rightarrow> 'k prefix_store option" where
  "ps_run [] S = Some S"
| "ps_run (c # cs) S = Option.bind (ps_step c S) (ps_run cs)"

definition ps_start :: "nat \<Rightarrow> kv_reuse_policy \<Rightarrow> 'k prefix_store" where
  "ps_start budget policy =
     with_reuse_policy policy (with_byte_budget_per_tenant budget prefix_store_new)"

lemma ps_wf_start [simp]: "ps_wf (ps_start budget policy)"
  by (simp add: ps_wf_def ps_start_def with_reuse_policy_def with_byte_budget_per_tenant_def
      prefix_store_new_def parts_wf_def tenant_bytes_def)

text \<open>Counters move by at most one per operation, so they stay below any bound on the run.\<close>

definition ps_room :: "nat \<Rightarrow> 'k prefix_store \<Rightarrow> bool" where
  "ps_room n S \<longleftrightarrow> unat (ps_next_group_id S) + n < 2 ^ 64 \<and> unat (ps_next_tick S) + n < 2 ^ 64"

lemma ps_step_ok:
  assumes wf: "ps_wf S" and room: "ps_room (Suc n) S"
  shows "\<exists>S'. ps_step c S = Some S' \<and> ps_wf S' \<and> ps_room n S'
    \<and> ps_byte_budget S' = ps_byte_budget S \<and> ps_reuse_policy S' = ps_reuse_policy S"
proof -
  have r: "Suc (unat (ps_next_group_id S)) < 2 ^ 64" "Suc (unat (ps_next_tick S)) < 2 ^ 64"
    "unat (ps_next_group_id S + 1) = Suc (unat (ps_next_group_id S))"
    "unat (ps_next_tick S + 1) = Suc (unat (ps_next_tick S))"
    "ps_room n S"
    using room by (simp_all add: ps_room_def unat_word_ariths)
  show ?thesis
  proof (cases c)
    case (PsInsert t k tokens blocks)
    show ?thesis
    proof (cases "tokens = [] \<or> blocks = [] \<or> group_bytes blocks > ps_byte_budget S")
      case True
      then show ?thesis using ps_insert_error [OF True] PsInsert wf r
        by (fastforce simp: ps_step_def)
    next
      case False
      then obtain S' where S': "ps_insert t k tokens blocks S = Some (Inr (), S')" "ps_wf S'"
        "ps_byte_budget S' = ps_byte_budget S" "ps_reuse_policy S' = ps_reuse_policy S"
        "ps_next_group_id S' = ps_next_group_id S + 1" "ps_next_tick S' = ps_next_tick S + 1"
        using ps_insert_effect [OF wf r(1,2)] by (metis not_le)
      then show ?thesis using PsInsert r room by (intro exI [of _ S']) (simp add: ps_step_def ps_room_def)
    qed
  next
    case (PsLookup t k tokens)
    have "touched S (snd (ps_lookup t k tokens S))" using ps_lookup_effect [OF wf r(2)] by blast
    then show ?thesis using PsLookup room
      by (simp add: touched_def ps_step_def ps_room_def)
  next
    case (PsEvict t k)
    then show ?thesis using ps_evict_effect(1,3) [OF wf, of t k] r(5) by (simp add: ps_step_def ps_room_def)
  qed
qed

lemma ps_run_ok:
  "ps_wf S \<Longrightarrow> ps_room (length cs + n) S \<Longrightarrow>
     \<exists>S'. ps_run cs S = Some S' \<and> ps_wf S' \<and> ps_room n S'
       \<and> ps_byte_budget S' = ps_byte_budget S \<and> ps_reuse_policy S' = ps_reuse_policy S"
proof (induction cs arbitrary: S)
  case (Cons c cs)
  obtain S1 where S1: "ps_step c S = Some S1" "ps_wf S1" "ps_room (length cs + n) S1"
      "ps_byte_budget S1 = ps_byte_budget S" "ps_reuse_policy S1 = ps_reuse_policy S"
    using ps_step_ok [OF Cons.prems(1), of "length cs + n" c] Cons.prems(2) by auto
  from Cons.IH [OF S1(2,3)] show ?case using S1 by auto
qed auto

lemma ps_run_start:
  assumes "length cs + n < 2 ^ 64 - 1"
  shows "\<exists>S. ps_run cs (ps_start budget policy) = Some S \<and> ps_wf S \<and> ps_room n S
    \<and> ps_byte_budget S = budget \<and> ps_reuse_policy S = policy"
proof -
  have "ps_room (length cs + n) (ps_start budget policy)"
    using assms by (simp add: ps_room_def ps_start_def with_reuse_policy_def
        with_byte_budget_per_tenant_def prefix_store_new_def)
  from ps_run_ok [OF ps_wf_start this] show ?thesis
    by (simp add: ps_start_def with_reuse_policy_def with_byte_budget_per_tenant_def)
qed

section \<open>Properties\<close>

definition stored_bytes :: "tenant_id \<Rightarrow> 'k prefix_store \<Rightarrow> nat" where
  "stored_bytes tenant S =
     sum_list (map (\<lambda>((t, k), p). if t = tenant
         then sum_list (map (\<lambda>(gid, g). group_bytes (bg_blocks g)) (pt_groups p)) else 0)
       (ps_partitions S))"

lemma part_wf_bytes:
  assumes "part_wf p"
  shows "sum_list (map (\<lambda>(gid, g). group_bytes (bg_blocks g)) (pt_groups p)) = pt_total_bytes p"
proof -
  have "bg_bytes (snd e) = (case e of (gid, g) \<Rightarrow> group_bytes (bg_blocks g))" if "e \<in> set (pt_groups p)" for e
    using assms that unfolding part_wf_def groups_ok_def
    by (cases e) (metis map_of_eq_Some_iff snd_conv split_conv)
  then show ?thesis using assms unfolding part_wf_def
    by (metis (no_types, lifting) comp_apply map_eq_conv)
qed

lemma stored_bytes_tracked: "ps_wf S \<Longrightarrow> stored_bytes tenant S = tenant_bytes tenant (ps_partitions S)"
proof -
  assume "ps_wf S"
  then have "part_wf p" if "((t, k), p) \<in> set (ps_partitions S)" for t k p
    using that unfolding ps_wf_def parts_wf_def by (metis map_of_eq_Some_iff)
  then have "map (\<lambda>((t, k), p). if t = tenant
         then sum_list (map (\<lambda>(gid, g). group_bytes (bg_blocks g)) (pt_groups p)) else 0) (ps_partitions S)
      = map (tenant_part tenant pt_total_bytes) (ps_partitions S)"
    by (intro map_cong) (auto simp: tenant_part_def part_wf_bytes)
  then show ?thesis unfolding stored_bytes_def tenant_bytes_alt by (rule arg_cong)
qed

text \<open>
  C26. Whatever insertions, lookups and evictions run on a new store (fewer than \<open>2 ^ 64 - 1\<close> of
  them), every operation returns, in particular the eviction loop ends, and no tenant ever holds
  more bytes of block data than the budget.
\<close>

theorem prefix_store_within_budget:
  assumes "length cs < 2 ^ 64 - 1"
  shows "\<exists>S. ps_run cs (ps_start budget policy) = Some S \<and> stored_bytes tenant S \<le> budget"
proof -
  obtain S where "ps_run cs (ps_start budget policy) = Some S" "ps_wf S" "ps_byte_budget S = budget"
    using ps_run_start [of cs 0 budget policy] assms by auto
  then show ?thesis using stored_bytes_tracked [of S tenant] unfolding ps_wf_def by auto
qed

theorem prefix_store_within_budget_witness:
  "\<exists>S. ps_run [PsInsert 1 () [1, 2] [\<lparr>kb_block_id = 7, kb_data = [1, 2, 3]\<rparr>],
               PsInsert 1 () [1, 2, 3] [\<lparr>kb_block_id = 8, kb_data = [4, 5]\<rparr>]] (ps_start 4 Always) = Some S
     \<and> stored_bytes 1 S \<le> 4"
  using prefix_store_within_budget [of "[PsInsert 1 () [1, 2] [\<lparr>kb_block_id = 7, kb_data = [1, 2, 3]\<rparr>],
      PsInsert 1 () [1, 2, 3] [\<lparr>kb_block_id = 8, kb_data = [4, 5]\<rparr>]]" 4 Always 1] by simp

text \<open>
  On every store that such a run builds, a lookup returns the longest stored prefix of the
  query that the policy accepts, with the blocks stored for it, and changes no content.
\<close>

theorem prefix_store_lookup_longest:
  assumes "length cs < 2 ^ 64 - 2"
  shows "\<exists>S. ps_run cs (ps_start budget policy) = Some S
    \<and> fst (ps_lookup tenant key tokens S) =
        map_option (\<lambda>(n, g). \<lparr>kh_matched_tokens = n, kh_blocks = bg_blocks g\<rparr>)
          (longest_group policy (ps_get S tenant key) tokens)
    \<and> (\<forall>t k q. map_option bg_blocks (ps_get (snd (ps_lookup tenant key tokens S)) t k q)
          = map_option bg_blocks (ps_get S t k q))"
proof -
  obtain S where S: "ps_run cs (ps_start budget policy) = Some S" "ps_wf S" "ps_room 1 S"
      "ps_reuse_policy S = policy"
    using ps_run_start [of cs 1 budget policy] assms by auto
  then have "Suc (unat (ps_next_tick S)) < 2 ^ 64" by (simp add: ps_room_def)
  from ps_lookup_effect [OF S(2) this, of tenant key tokens] show ?thesis
    using S(1,4) unfolding touched_def by auto
qed

theorem prefix_store_lookup_longest_witness:
  "\<exists>S. ps_run [PsInsert 1 () [1, 2] [\<lparr>kb_block_id = 7, kb_data = [1, 2, 3]\<rparr>]] (ps_start 4 Always) = Some S
    \<and> fst (ps_lookup 1 () [1, 2, 5] S) =
        map_option (\<lambda>(n, g). \<lparr>kh_matched_tokens = n, kh_blocks = bg_blocks g\<rparr>)
          (longest_group Always (ps_get S 1 ()) [1, 2, 5])"
proof -
  have "length [PsInsert 1 () [1, 2] [\<lparr>kb_block_id = 7, kb_data = [1, 2, 3]\<rparr>]] < 2 ^ 64 - 2" by simp
  from prefix_store_lookup_longest [OF this, of 4 Always 1 "()" "[1, 2, 5]"] show ?thesis by blast
qed

text \<open>
  C27. On every store that such a run builds, an insertion of non-empty tokens and blocks that fit
  the budget succeeds, however full the store is: its own entry is there and found by a lookup of
  its tokens, every other entry is unchanged or evicted, entries of other tenants are all
  unchanged, and no evicted entry was used more recently than one that stays.
\<close>

theorem prefix_store_insert_keeps:
  assumes "length cs < 2 ^ 64 - 3" and "tokens \<noteq> []" "blocks \<noteq> []" "group_bytes blocks \<le> budget"
  shows "\<exists>S S'. ps_run cs (ps_start budget policy) = Some S
    \<and> ps_insert tenant key tokens blocks S = Some (Inr (), S')
    \<and> inserted tenant key tokens blocks S S'
    \<and> (should_reuse policy (length tokens) \<longrightarrow>
        fst (ps_lookup tenant key tokens S') =
          Some \<lparr>kh_matched_tokens = length tokens, kh_blocks = blocks\<rparr>)"
proof -
  obtain S where S: "ps_run cs (ps_start budget policy) = Some S" "ps_wf S" "ps_room 2 S"
      "ps_byte_budget S = budget" "ps_reuse_policy S = policy"
    using ps_run_start [of cs 2 budget policy] assms(1) by auto
  then have room: "Suc (unat (ps_next_group_id S)) < 2 ^ 64" "Suc (unat (ps_next_tick S)) < 2 ^ 64"
    by (simp_all add: ps_room_def)
  obtain S' where S': "ps_insert tenant key tokens blocks S = Some (Inr (), S')" "ps_wf S'"
      "inserted tenant key tokens blocks S S'" "ps_reuse_policy S' = policy"
      "ps_next_tick S' = ps_next_tick S + 1"
    using ps_insert_effect [OF S(2) room assms(2,3)] assms(4) S(4,5) by metis
  obtain g where g: "ps_get S' tenant key tokens = Some g" "bg_blocks g = blocks"
    using S'(3) unfolding inserted_def by blast
  have "Suc (unat (ps_next_tick S')) < 2 ^ 64"
    using S'(5) S(3) by (simp add: ps_room_def unat_word_ariths)
  note hit = ps_lookup_effect [OF S'(2) this, of tenant key tokens]
  have "longest_group policy (ps_get S' tenant key) tokens = Some (length tokens, g)"
    if "should_reuse policy (length tokens)"
    using g(1) that assms(2) by (cases "length tokens") (simp_all add: longest_group_def)
  then show ?thesis using S(1) S'(1,3,4) hit g(2) by (intro exI [of _ S] exI [of _ S']) simp
qed

theorem prefix_store_insert_keeps_witness:
  "\<exists>S S'. ps_run [PsInsert 1 () [1, 2] [\<lparr>kb_block_id = 7, kb_data = [1, 2, 3]\<rparr>]] (ps_start 4 Always) = Some S
    \<and> ps_insert 1 () [1, 2, 3] [\<lparr>kb_block_id = 8, kb_data = [4, 5]\<rparr>] S = Some (Inr (), S')
    \<and> fst (ps_lookup 1 () [1, 2, 3] S') =
          Some \<lparr>kh_matched_tokens = 3, kh_blocks = [\<lparr>kb_block_id = 8, kb_data = [4, 5]\<rparr>]\<rparr>"
proof -
  have "length [PsInsert 1 () [1, 2] [\<lparr>kb_block_id = 7, kb_data = [1, 2, 3]\<rparr>]] < 2 ^ 64 - 3"
    "[1, 2, 3] \<noteq> ([] :: u32 list)" "[\<lparr>kb_block_id = 8, kb_data = [4, 5]\<rparr>] \<noteq> []"
    "group_bytes [\<lparr>kb_block_id = 8, kb_data = [4, 5]\<rparr>] \<le> 4" by (simp_all add: group_bytes_def)
  note inst = prefix_store_insert_keeps [OF this, of Always 1 "()"]
  have "should_reuse Always (length ([1, 2, 3] :: u32 list))" "length ([1, 2, 3] :: u32 list) = 3"
    by simp_all
  with inst show ?thesis by metis
qed

end
