(* ===== verification/Posting_List.thy ===== *)
theory Posting_List
  imports Types
begin

text \<open>
  The resident posting lists of the text index (\<open>contextra-text/src/posting_list.rs\<close>): postings
  sorted by document, their block-max metadata, copy-on-write updates, the compact delta-varint
  format and the in-memory index from terms to lists. Document ids are 64 bits wide (the build
  without the feature \<open>docid-128\<close>). The unstable sort of the standard library is a parameter with
  its contract in the locale \<open>unstable_sort\<close>; the decoder of the legacy format is the
  third-party \<open>bincode\<close> and a parameter of \<open>decode_compact\<close>. A list behind an \<open>Arc\<close> is never
  changed in place, so the index holds lists as values.
\<close>

section \<open>Postings and block metadata\<close>

record posting =
  po_doc_id :: u64
  po_tf :: u32
  po_doc_len :: u32

record posting_block_info =
  bi_max_doc_id :: u64
  bi_max_tf :: u32
  bi_min_doc_len :: u32

record posting_list =
  pl_postings :: "posting list"
  pl_blocks :: "posting_block_info list"

definition POSTING_BLOCK_SIZE :: nat where "POSTING_BLOCK_SIZE = 64"

definition POSTING_LIST_V2_MAGIC :: bytes where "POSTING_LIST_V2_MAGIC = [0x50, 0x4c, 0x02, 0x00]"

text \<open>\<open>slice::chunks\<close>.\<close>

function chunks_of :: "nat \<Rightarrow> 'a list \<Rightarrow> 'a list list" where
  "chunks_of n xs = (if xs = [] \<or> n = 0 then [] else take n xs # chunks_of n (drop n xs))"
  by pat_completeness auto
termination by (relation "measure (\<lambda>(n, xs). length xs)") auto

declare chunks_of.simps [simp del]

definition block_tf :: "posting list \<Rightarrow> u32" where
  "block_tf chunk = fold (\<lambda>p max_tf. if po_tf p > max_tf then po_tf p else max_tf) chunk 0"

definition block_min_len :: "posting list \<Rightarrow> u32" where
  "block_min_len chunk =
     (let min_doc_len =
        fold (\<lambda>p min_len. if po_doc_len p < min_len then po_doc_len p else min_len) chunk (- 1)
      in if min_doc_len = - 1 then 0 else min_doc_len)"

definition block_info :: "posting list \<Rightarrow> posting_block_info" where
  "block_info chunk =
     \<lparr>bi_max_doc_id = (if chunk = [] then 0 else po_doc_id (last chunk)),
      bi_max_tf = block_tf chunk, bi_min_doc_len = block_min_len chunk\<rparr>"

definition compute_blocks :: "posting list \<Rightarrow> posting_block_info list" where
  "compute_blocks postings =
     (if postings = [] then [] else map block_info (chunks_of POSTING_BLOCK_SIZE postings))"

section \<open>Construction and updates\<close>

definition pl_empty :: posting_list where
  "pl_empty = \<lparr>pl_postings = [], pl_blocks = []\<rparr>"

definition pl_of :: "posting list \<Rightarrow> posting_list" where
  "pl_of ps = \<lparr>pl_postings = ps, pl_blocks = compute_blocks ps\<rparr>"

text \<open>\<open>dedup_by_key\<close> keeps the first of consecutive postings of one document.\<close>

fun dedup_by_doc :: "posting list \<Rightarrow> posting list" where
  "dedup_by_doc (p # q # ps) =
     (if po_doc_id p = po_doc_id q then dedup_by_doc (p # ps) else p # dedup_by_doc (q # ps))"
| "dedup_by_doc ps = ps"

definition pl_new :: "(posting list \<Rightarrow> posting list) \<Rightarrow> posting list \<Rightarrow> posting_list" where
  "pl_new sort_by_doc postings = pl_of (dedup_by_doc (sort_by_doc postings))"

definition pl_len :: "posting_list \<Rightarrow> nat" where "pl_len l = length (pl_postings l)"

definition pl_is_empty :: "posting_list \<Rightarrow> bool" where "pl_is_empty l \<longleftrightarrow> pl_postings l = []"

definition pl_upsert :: "posting_list \<Rightarrow> posting \<Rightarrow> posting_list" where
  "pl_upsert l p =
     (let ps = pl_postings l in
      case binary_search (map po_doc_id ps) (po_doc_id p) of
        Inr idx \<Rightarrow> pl_of (ps[idx := p])
      | Inl idx \<Rightarrow> pl_of (take idx ps @ p # drop idx ps))"

definition pl_remove :: "posting_list \<Rightarrow> u64 \<Rightarrow> posting_list" where
  "pl_remove l doc_id =
     (let ps = pl_postings l in
      case binary_search (map po_doc_id ps) doc_id of
        Inr idx \<Rightarrow> pl_of (take idx ps @ drop (Suc idx) ps)
      | Inl _ \<Rightarrow> pl_of ps)"

section \<open>Compact format\<close>

function encode_varint :: "u64 \<Rightarrow> bytes" where
  "encode_varint val =
     (if val \<ge> 0x80 then ((ucast val AND 0x7f) OR 0x80) # encode_varint (drop_bit 7 val)
      else [ucast val])"
  by auto
termination
proof (relation "measure unat")
  fix val :: u64
  assume "0x80 \<le> val"
  then have "0 < unat val" by (simp add: word_le_nat_alt)
  then show "(drop_bit 7 val, val) \<in> measure unat"
    by (simp add: drop_bit_eq_div unat_div)
qed simp

declare encode_varint.simps [simp del]

function decode_varint_loop :: "bytes \<Rightarrow> nat \<Rightarrow> u64 \<Rightarrow> nat \<Rightarrow> (u64 \<times> nat) res" where
  "decode_varint_loop bs offset result shift =
     (if offset < length bs then
        let byte = bs ! offset; result = result OR push_bit shift (ucast (byte AND 0x7f)) in
        if byte AND 0x80 = 0 then Inr (result, offset + 1)
        else if shift + 7 \<ge> 64 then Inl (Storage ''Varint overflow'')
        else decode_varint_loop bs (offset + 1) result (shift + 7)
      else Inl (Storage ''Unexpected EOF while decoding varint''))"
  by pat_completeness auto
termination by (relation "measure (\<lambda>(bs, offset, result, shift). length bs - offset)") auto

declare decode_varint_loop.simps [simp del]

definition decode_varint :: "bytes \<Rightarrow> nat \<Rightarrow> (u64 \<times> nat) res" where
  "decode_varint bs offset = decode_varint_loop bs offset 0 0"

fun encode_postings :: "u64 \<Rightarrow> posting list \<Rightarrow> bytes res" where
  "encode_postings prev [] = Inr []"
| "encode_postings prev (p # ps) =
     (if po_doc_id p < prev then Inl (Storage ''Unsorted or overflow doc_id in posting list'')
      else rbind (encode_postings (po_doc_id p) ps)
        (\<lambda>rest. Inr (encode_varint (po_doc_id p - prev) @ encode_varint (ucast (po_tf p))
                  @ encode_varint (ucast (po_doc_len p)) @ rest)))"

definition encode_compact :: "posting_list \<Rightarrow> bytes res" where
  "encode_compact l =
     rbind (encode_postings 0 (pl_postings l))
       (\<lambda>body. Inr (POSTING_LIST_V2_MAGIC @ encode_varint (of_nat (length (pl_postings l))) @ body))"

definition to_u32 :: "string \<Rightarrow> u64 \<Rightarrow> u32 res" where
  "to_u32 msg n = (if n > 0xFFFFFFFF then Inl (Storage msg) else Inr (ucast n))"

fun decode_postings :: "bytes \<Rightarrow> nat \<Rightarrow> nat \<Rightarrow> u64 \<Rightarrow> (posting list \<times> nat) res" where
  "decode_postings bs 0 offset prev = Inr ([], offset)"
| "decode_postings bs (Suc n) offset prev =
     rbind (decode_varint bs offset) (\<lambda>(delta, offset).
     rbind (decode_varint bs offset) (\<lambda>(tf_u64, offset).
     rbind (decode_varint bs offset) (\<lambda>(doc_len_u64, offset).
       if unat prev + unat delta \<ge> 2 ^ 64
       then Inl (Storage ''DocId overflow during delta decoding'')
       else
         rbind (to_u32 ''TF overflow in varint'' tf_u64) (\<lambda>tf.
         rbind (to_u32 ''DocLen overflow in varint'' doc_len_u64) (\<lambda>doc_len.
         rbind (decode_postings bs n offset (prev + delta)) (\<lambda>(ps, offset).
           Inr (\<lparr>po_doc_id = prev + delta, po_tf = tf, po_doc_len = doc_len\<rparr> # ps, offset)))))))"

definition decode_compact :: "(bytes \<Rightarrow> posting_list option) \<Rightarrow> bytes \<Rightarrow> posting_list res" where
  "decode_compact bincode bs =
     (if starts_with POSTING_LIST_V2_MAGIC bs then
        rbind (decode_varint bs (length POSTING_LIST_V2_MAGIC)) (\<lambda>(n, offset).
          if n > 100000000 then Inl (Storage ''Oversized posting list count'')
          else rbind (decode_postings bs (unat n) offset 0) (\<lambda>(ps, offset).
            if offset \<noteq> length bs
            then Inl (Storage ''Extra trailing bytes after posting list decoding'')
            else Inr (pl_of ps)))
      else ok_or (Storage ''bincode legacy decode error'') (bincode bs))"

section \<open>Resident index\<close>

type_synonym resident_index = "(string \<times> posting_list) list"

definition ri_get :: "resident_index \<Rightarrow> string \<Rightarrow> posting_list option" where
  "ri_get idx term = map_of idx term"

definition ri_insert_list :: "string \<Rightarrow> posting_list \<Rightarrow> resident_index \<Rightarrow> resident_index" where
  "ri_insert_list term l idx = AList.update term l idx"

definition ri_upsert_posting ::
  "(posting list \<Rightarrow> posting list) \<Rightarrow> string \<Rightarrow> posting \<Rightarrow> resident_index \<Rightarrow> resident_index" where
  "ri_upsert_posting sort_by_doc term p idx =
     (let updated = (case map_of idx term of
            Some l \<Rightarrow> pl_upsert l p | None \<Rightarrow> pl_new sort_by_doc [p])
      in AList.update term updated idx)"

definition ri_remove_posting :: "u64 \<Rightarrow> string \<Rightarrow> resident_index \<Rightarrow> resident_index" where
  "ri_remove_posting doc_id term idx =
     (case map_of idx term of
        None \<Rightarrow> idx
      | Some l \<Rightarrow>
          let updated = pl_remove l doc_id in
          if pl_is_empty updated then AList.delete term idx else AList.update term updated idx)"

definition ri_remove_posting_from_terms :: "string list \<Rightarrow> u64 \<Rightarrow> resident_index \<Rightarrow> resident_index" where
  "ri_remove_posting_from_terms terms doc_id idx = fold (ri_remove_posting doc_id) terms idx"

definition ri_remove_terms :: "string list \<Rightarrow> resident_index \<Rightarrow> resident_index" where
  "ri_remove_terms terms idx = fold AList.delete terms idx"

definition ri_clear :: "resident_index \<Rightarrow> resident_index" where
  "ri_clear idx = []"

section \<open>Sorted lists\<close>

definition pl_wf :: "posting_list \<Rightarrow> bool" where
  "pl_wf l \<longleftrightarrow> sorted_wrt (<) (map po_doc_id (pl_postings l))
     \<and> pl_blocks l = compute_blocks (pl_postings l)"

text \<open>The content of a list: the posting of a document.\<close>

definition pl_map :: "posting_list \<Rightarrow> u64 \<Rightarrow> posting option" where
  "pl_map l = map_of (map (\<lambda>p. (po_doc_id p, p)) (pl_postings l))"

lemma pl_of_simps [simp]: "pl_postings (pl_of ps) = ps" "pl_blocks (pl_of ps) = compute_blocks ps"
  by (simp_all add: pl_of_def)

lemma pl_map_None: "pl_map l d = None \<longleftrightarrow> d \<notin> po_doc_id ` set (pl_postings l)"
  by (force simp: pl_map_def map_of_eq_None_iff)

lemma map_of_docs_notin: "d \<notin> po_doc_id ` set ps \<Longrightarrow> map_of (map (\<lambda>p. (po_doc_id p, p)) ps) d = None"
  by (force simp: map_of_eq_None_iff)

text \<open>The binary search splits a sorted list at the document.\<close>

lemma binary_search_exact:
  assumes "sorted_wrt (<) ks"
  shows "binary_search ks x = Inr i \<Longrightarrow> i < length ks \<and> ks ! i = x"
    and "binary_search ks x = Inl i \<Longrightarrow> x \<notin> set ks"
proof -
  define b where "b = bsearch_window ks x 0 (length ks)"
  have b: "b < length ks" "b = 0 \<or> ks ! b \<le> x" "\<forall>i. b < i \<and> i < length ks \<longrightarrow> x < ks ! i"
    if "ks \<noteq> []"
  proof -
    have "\<forall>i. 0 + length ks \<le> i \<and> i < length ks \<longrightarrow> x < ks ! i" by auto
    from bsearch_window_bounds [OF _ _ _ _ this] that assms
    show "b < length ks" "b = 0 \<or> ks ! b \<le> x" "\<forall>i. b < i \<and> i < length ks \<longrightarrow> x < ks ! i"
      by (auto simp: b_def Let_def strict_sorted_iff)
  qed
  show "binary_search ks x = Inr i \<Longrightarrow> i < length ks \<and> ks ! i = x"
    using b by (auto simp: binary_search_def Let_def b_def split: if_splits)
  assume r: "binary_search ks x = Inl i"
  show "x \<notin> set ks"
  proof
    assume "x \<in> set ks"
    then obtain j where j: "j < length ks" "ks ! j = x" by (auto simp: in_set_conv_nth)
    then have ne: "ks \<noteq> []" by auto
    have neq: "ks ! b \<noteq> x" using r ne by (auto simp: binary_search_def Let_def b_def split: if_splits)
    have "\<not> b < j" using b(3) [OF ne] j by force
    moreover have "j \<noteq> b" using neq j(2) by auto
    ultimately have "j < b" by simp
    then have "x < ks ! b" using assms j b(1) [OF ne] by (metis sorted_wrt_nth_less)
    then show False using b(2) [OF ne] \<open>j < b\<close> by auto
  qed
qed

lemma search_found:
  assumes "sorted_wrt (<) (map po_doc_id ps)" "binary_search (map po_doc_id ps) d = Inr i"
  obtains xs p ys where "ps = xs @ p # ys" "i = length xs" "po_doc_id p = d"
proof -
  have i: "i < length ps" "po_doc_id (ps ! i) = d" using binary_search_exact(1) [OF assms] by auto
  show thesis using i by (intro that [of "take i ps" "ps ! i" "drop (Suc i) ps"]) (simp_all add: id_take_nth_drop)
qed

lemma search_absent:
  assumes sw: "sorted_wrt (<) (map po_doc_id ps)" and r: "binary_search (map po_doc_id ps) d = Inl i"
  obtains xs ys where "ps = xs @ ys" "i = length xs" "\<forall>p\<in>set xs. po_doc_id p < d" "\<forall>p\<in>set ys. d < po_doc_id p"
proof -
  have i: "i = insertion_point (binary_search (map po_doc_id ps) d)" using r by (simp add: insertion_point_def)
  note pt = binary_search_point [OF sw i]
  have "d \<notin> set (map po_doc_id ps)" by (rule binary_search_exact(2) [OF sw r])
  then have ne: "po_doc_id (ps ! j) \<noteq> d" if "j < length ps" for j using that by auto
  have "\<forall>p\<in>set (take i ps). po_doc_id p < d"
    using pt(1,2) by (auto simp: in_set_conv_nth)
  moreover have "\<forall>p\<in>set (drop i ps). d < po_doc_id p"
  proof
    fix p assume "p \<in> set (drop i ps)"
    then obtain j where "j < length ps - i" "p = ps ! (i + j)" by (auto simp: in_set_conv_nth)
    moreover from this have "d \<le> po_doc_id (ps ! (i + j))" "po_doc_id (ps ! (i + j)) \<noteq> d"
      using pt(3) ne [of "i + j"] by auto
    ultimately show "d < po_doc_id p" by simp
  qed
  ultimately show thesis using pt(1) by (intro that [of "take i ps" "drop i ps"]) simp_all
qed

lemma pl_upsert_ok:
  assumes "pl_wf l"
  shows "pl_wf (pl_upsert l p)" "pl_map (pl_upsert l p) = (pl_map l)(po_doc_id p \<mapsto> p)"
proof -
  let ?ps = "pl_postings l"
  have sw: "sorted_wrt (<) (map po_doc_id ?ps)" using assms by (simp add: pl_wf_def)
  have "pl_wf (pl_upsert l p) \<and> pl_map (pl_upsert l p) = (pl_map l)(po_doc_id p \<mapsto> p)"
  proof (cases "binary_search (map po_doc_id ?ps) (po_doc_id p)")
    case (Inr i)
    obtain xs q ys where ps: "?ps = xs @ q # ys" "i = length xs" "po_doc_id q = po_doc_id p"
      using search_found [OF sw Inr] by metis
    have "pl_upsert l p = pl_of (xs @ p # ys)"
      using Inr ps by (simp add: pl_upsert_def)
    moreover have "po_doc_id p \<notin> po_doc_id ` set xs" using sw ps by (force simp: sorted_wrt_append)
    ultimately show ?thesis using sw ps
      by (simp add: pl_wf_def pl_map_def sorted_wrt_append map_of_docs_notin fun_eq_iff map_add_def
          split: option.split)
  next
    case (Inl i)
    obtain xs ys where ps: "?ps = xs @ ys" "i = length xs" "\<forall>q\<in>set xs. po_doc_id q < po_doc_id p"
        "\<forall>q\<in>set ys. po_doc_id p < po_doc_id q"
      using search_absent [OF sw Inl] by metis
    have "pl_upsert l p = pl_of (xs @ p # ys)"
      using Inl ps by (simp add: pl_upsert_def)
    moreover have "po_doc_id p \<notin> po_doc_id ` set xs" using ps(3) by auto
    ultimately show ?thesis using sw ps
      by (auto simp: pl_wf_def pl_map_def sorted_wrt_append map_of_docs_notin fun_eq_iff map_add_def
          split: option.split)
  qed
  then show "pl_wf (pl_upsert l p)" "pl_map (pl_upsert l p) = (pl_map l)(po_doc_id p \<mapsto> p)" by blast+
qed

lemma pl_remove_ok:
  assumes "pl_wf l"
  shows "pl_wf (pl_remove l d)" "pl_map (pl_remove l d) = (pl_map l)(d := None)"
proof -
  let ?ps = "pl_postings l"
  have sw: "sorted_wrt (<) (map po_doc_id ?ps)" using assms by (simp add: pl_wf_def)
  have "pl_wf (pl_remove l d) \<and> pl_map (pl_remove l d) = (pl_map l)(d := None)"
  proof (cases "binary_search (map po_doc_id ?ps) d")
    case (Inr i)
    obtain xs q ys where ps: "?ps = xs @ q # ys" "i = length xs" "po_doc_id q = d"
      using search_found [OF sw Inr] by metis
    have "pl_remove l d = pl_of (xs @ ys)"
      using Inr ps by (simp add: pl_remove_def)
    moreover have "d \<notin> po_doc_id ` set xs" "d \<notin> po_doc_id ` set ys"
      using sw ps by (force simp: sorted_wrt_append)+
    ultimately show ?thesis using sw ps
      by (simp add: pl_wf_def pl_map_def sorted_wrt_append map_of_docs_notin fun_eq_iff map_add_def
          split: option.split)
  next
    case (Inl i)
    have "pl_remove l d = pl_of ?ps" using Inl by (simp add: pl_remove_def)
    moreover have "pl_map l d = None"
      using binary_search_exact(2) [OF sw Inl] by (simp add: pl_map_None)
    ultimately show ?thesis using sw by (auto simp: pl_wf_def pl_map_def fun_eq_iff)
  qed
  then show "pl_wf (pl_remove l d)" "pl_map (pl_remove l d) = (pl_map l)(d := None)" by blast+
qed

section \<open>Construction from unsorted postings\<close>

text \<open>The contract of \<open>sort_unstable_by_key\<close>: an ordered permutation.\<close>

locale unstable_sort =
  fixes srt :: "posting list \<Rightarrow> posting list"
  assumes srt_mset: "mset (srt ps) = mset ps"
    and srt_sorted: "sorted (map po_doc_id (srt ps))"
begin

lemma srt_single: "srt [p] = [p]"
  using srt_mset [of "[p]"] by simp

lemma srt_set: "set (srt ps) = set ps"
  using srt_mset [of ps] by (metis set_mset_mset)

end

lemma dedup_by_doc_set: "set (dedup_by_doc ps) \<subseteq> set ps"
  by (induction ps rule: dedup_by_doc.induct) auto

lemma dedup_by_doc_docs: "po_doc_id ` set (dedup_by_doc ps) = po_doc_id ` set ps"
  by (induction ps rule: dedup_by_doc.induct) auto

lemma dedup_by_doc_sorted:
  "sorted (map po_doc_id ps) \<Longrightarrow> sorted_wrt (<) (map po_doc_id (dedup_by_doc ps))"
proof (induction ps rule: dedup_by_doc.induct)
  case (1 p q ps)
  show ?case
  proof (cases "po_doc_id p = po_doc_id q")
    case True
    with 1 show ?thesis by simp
  next
    case False
    have "po_doc_id p < po_doc_id r" if "r \<in> set (q # ps)" for r
      using "1.prems" False that by (auto simp: order_less_le)
    moreover have "po_doc_id r \<in> po_doc_id ` set (q # ps)" if "r \<in> set (dedup_by_doc (q # ps))" for r
      using that dedup_by_doc_docs [of "q # ps"] by blast
    ultimately have "\<forall>r\<in>set (dedup_by_doc (q # ps)). po_doc_id p < po_doc_id r" by fastforce
    with False 1 show ?thesis by simp
  qed
qed simp_all

context unstable_sort
begin

lemma pl_new_wf: "pl_wf (pl_new srt ps)"
  by (simp add: pl_wf_def pl_new_def dedup_by_doc_sorted srt_sorted)

lemma pl_new_content:
  shows "set (pl_postings (pl_new srt ps)) \<subseteq> set ps"
    and "pl_map (pl_new srt ps) d = None \<longleftrightarrow> d \<notin> po_doc_id ` set ps"
  using dedup_by_doc_set [of "srt ps"] dedup_by_doc_docs [of "srt ps"] srt_set [of ps]
  by (auto simp: pl_new_def pl_map_None)

lemma pl_new_single: "pl_postings (pl_new srt [p]) = [p]"
  by (simp add: pl_new_def srt_single)

end

interpretation stable: unstable_sort "sort_key po_doc_id"
  by unfold_locales simp_all

section \<open>Block metadata\<close>

lemma length_chunks_of: "0 < n \<Longrightarrow> length (chunks_of n xs) = (length xs + n - 1) div n"
proof (induction n xs rule: chunks_of.induct)
  case (1 n xs)
  show ?case
  proof (cases "xs = []")
    case True
    then show ?thesis using 1 by (simp add: chunks_of.simps)
  next
    case False
    have "length (chunks_of n xs) = Suc ((length (drop n xs) + n - 1) div n)"
      using 1 False by (simp add: chunks_of.simps [of n xs])
    also have "\<dots> = (length xs + n - 1) div n"
    proof (cases "length xs \<le> n")
      case True
      then have "(length xs + n - 1) div n = 1"
        using False 1(2) by (intro div_nat_eqI) (auto simp: neq_Nil_conv)
      then show ?thesis using True 1(2) by simp
    next
      case False
      then have "length xs + n - 1 = (length (drop n xs) + n - 1) + n" using 1(2) by simp
      moreover have "((length (drop n xs) + n - 1) + n) div n = Suc ((length (drop n xs) + n - 1) div n)"
        using div_add_self2 [of n "length (drop n xs) + n - 1"] 1(2) by (metis Suc_eq_plus1 less_not_refl)
      ultimately show ?thesis by metis
    qed
    finally show ?thesis .
  qed
qed

lemma chunks_of_nth:
  "i < length xs \<Longrightarrow> 0 < n \<Longrightarrow> i div n < length (chunks_of n xs)
     \<and> chunks_of n xs ! (i div n) = take n (drop (n * (i div n)) xs)"
proof (induction n xs arbitrary: i rule: chunks_of.induct)
  case (1 n xs)
  have c: "chunks_of n xs = take n xs # chunks_of n (drop n xs)"
    using 1(2,3) by (auto simp: chunks_of.simps [of n xs])
  show ?case
  proof (cases "i < n")
    case True
    then show ?thesis by (simp add: c)
  next
    case False
    then have "i - n < length (drop n xs)" using 1(2) by auto
    then have ih: "(i - n) div n < length (chunks_of n (drop n xs))"
        "chunks_of n (drop n xs) ! ((i - n) div n) = take n (drop (n * ((i - n) div n)) (drop n xs))"
      using 1(1) [of "i - n"] 1(2,3) by (cases "xs = []"; simp)+
    have "i div n = Suc ((i - n) div n)" using False 1(3) by (simp add: le_div_geq)
    then show ?thesis using ih by (simp add: c add.commute)
  qed
qed

lemma block_tf_Max: "block_tf chunk = Max (insert 0 (po_tf ` set chunk))"
proof -
  have f: "(\<lambda>p m. if po_tf p > m then po_tf p else m) = max \<circ> po_tf" by (auto simp: fun_eq_iff max_def)
  show ?thesis unfolding block_tf_def f fold_map [symmetric] fold_max_Max by simp
qed

lemma block_min_len_lower: "p \<in> set chunk \<Longrightarrow> block_min_len chunk \<le> po_doc_len p"
proof -
  assume p: "p \<in> set chunk"
  have f: "(\<lambda>p m. if po_doc_len p < m then po_doc_len p else m) = min \<circ> po_doc_len"
    by (auto simp: fun_eq_iff min_def)
  have "fold (\<lambda>p m. if po_doc_len p < m then po_doc_len p else m) chunk (- 1) \<le> po_doc_len p"
    unfolding f fold_map [symmetric] fold_min_Min using p by simp
  then show ?thesis by (simp add: block_min_len_def Let_def)
qed

text \<open>The block of a posting bounds it from the side a top-k search prunes on.\<close>

lemma compute_blocks_bounds:
  assumes "sorted (map po_doc_id ps)" "i < length ps"
  defines "b \<equiv> compute_blocks ps ! (i div POSTING_BLOCK_SIZE)"
  shows "i div POSTING_BLOCK_SIZE < length (compute_blocks ps)"
    and "po_doc_id (ps ! i) \<le> bi_max_doc_id b" "po_tf (ps ! i) \<le> bi_max_tf b"
    and "bi_min_doc_len b \<le> po_doc_len (ps ! i)"
proof -
  define k where "k = i div POSTING_BLOCK_SIZE"
  define chunk where "chunk = take POSTING_BLOCK_SIZE (drop (POSTING_BLOCK_SIZE * k) ps)"
  have ne: "ps \<noteq> []" and pos: "0 < POSTING_BLOCK_SIZE" using assms(2) by (auto simp: POSTING_BLOCK_SIZE_def)
  note c = chunks_of_nth [OF assms(2) pos, folded k_def chunk_def]
  then show "i div POSTING_BLOCK_SIZE < length (compute_blocks ps)" using ne by (simp add: compute_blocks_def k_def)
  have b: "b = block_info chunk" using c ne by (simp add: b_def compute_blocks_def chunk_def k_def [symmetric])
  have im: "POSTING_BLOCK_SIZE * k \<le> i" "i - POSTING_BLOCK_SIZE * k < POSTING_BLOCK_SIZE"
    using pos by (simp_all add: k_def minus_mult_div_eq_mod)
  have len: "i - POSTING_BLOCK_SIZE * k < length chunk" using im assms(2) by (simp add: chunk_def)
  have ith: "chunk ! (i - POSTING_BLOCK_SIZE * k) = ps ! i" using im assms(2) by (simp add: chunk_def)
  have mem: "ps ! i \<in> set chunk" using len ith nth_mem by metis
  show "po_tf (ps ! i) \<le> bi_max_tf b" using mem by (simp add: b block_info_def block_tf_Max)
  show "bi_min_doc_len b \<le> po_doc_len (ps ! i)" using block_min_len_lower [OF mem] by (simp add: b block_info_def)
  have "sorted (map po_doc_id chunk)"
    using assms(1) by (simp add: chunk_def take_map [symmetric] drop_map [symmetric] sorted_wrt_take sorted_wrt_drop)
  then have "map po_doc_id chunk ! (i - POSTING_BLOCK_SIZE * k) \<le> map po_doc_id chunk ! (length chunk - 1)"
    using len by (intro sorted_nth_mono) auto
  then show "po_doc_id (ps ! i) \<le> bi_max_doc_id b"
    using len ith mem by (auto simp: b block_info_def last_conv_nth)
qed

section \<open>Round trip of the compact format\<close>

lemma bit_0x80: "bit (0x80 :: u8) n \<longleftrightarrow> n = 7"
proof -
  have "(0x80 :: u8) = push_bit 7 1" by simp
  then show ?thesis by (simp only: bit_push_bit_iff bit_1_iff possible_bit_word) auto
qed

lemma bit_0x7f: "bit (0x7f :: u8) n \<longleftrightarrow> n < 7" "bit (0x7f :: u64) n \<longleftrightarrow> n < 7"
proof -
  have "(0x7f :: u8) = mask 7" "(0x7f :: u64) = mask 7" by (simp_all add: mask_eq_exp_minus_1)
  then show "bit (0x7f :: u8) n \<longleftrightarrow> n < 7" "bit (0x7f :: u64) n \<longleftrightarrow> n < 7"
    by (simp_all only: bit_mask_iff possible_bit_word) auto
qed

lemma varint_cont_byte:
  fixes val :: u64
  shows "((ucast val AND 0x7f) OR 0x80 :: u8) AND 0x80 \<noteq> 0"
    and "ucast (((ucast val AND 0x7f) OR 0x80 :: u8) AND 0x7f) = val AND 0x7f"
proof -
  have "bit (((ucast val AND 0x7f) OR 0x80 :: u8) AND 0x80) 7"
    by (simp only: bit_and_iff bit_or_iff bit_0x80 simp_thms)
  then show "((ucast val AND 0x7f) OR 0x80 :: u8) AND 0x80 \<noteq> 0" by (metis bit_0_eq bot_apply bot_bool_def)
  show "ucast (((ucast val AND 0x7f) OR 0x80 :: u8) AND 0x7f) = val AND 0x7f"
    by (rule bit_word_eqI)
      (auto simp only: bit_and_iff bit_or_iff bit_unsigned_iff bit_0x80 bit_0x7f possible_bit_word len_of_numeral_defs)
qed

lemma varint_last_byte:
  fixes val :: u64
  assumes "val < 0x80"
  shows "(ucast val :: u8) AND 0x80 = 0" and "ucast ((ucast val :: u8) AND 0x7f) = val"
proof -
  have "unat (take_bit 7 val) = unat val"
    using assms by (simp add: unsigned_take_bit_eq take_bit_nat_eq_self word_less_nat_alt)
  then have small: "take_bit 7 val = val" by (simp only: word_unat_eq_iff)
  have hi: "\<not> bit val n" if "7 \<le> n" for n
    using that small by (metis bit_take_bit_iff not_le)
  have "\<not> bit ((ucast val :: u8) AND 0x80) n" for n
    using hi [of 7] unfolding bit_and_iff bit_unsigned_iff bit_0x80 by auto
  then show "(ucast val :: u8) AND 0x80 = 0" by (intro bit_word_eqI) simp
  show "ucast ((ucast val :: u8) AND 0x7f) = val"
  proof (rule bit_word_eqI)
    fix n :: nat assume "n < LENGTH(64)"
    then show "bit (ucast ((ucast val :: u8) AND 0x7f) :: u64) n = bit val n"
      using hi [of n] unfolding bit_and_iff bit_unsigned_iff bit_0x7f possible_bit_word
      by (cases "7 \<le> n") auto
  qed
qed

lemma varint_combine:
  fixes val :: u64
  shows "(r OR push_bit s (val AND 0x7f)) OR push_bit (s + 7) (drop_bit 7 val) = r OR push_bit s val"
proof (rule bit_word_eqI)
  fix n :: nat assume "n < LENGTH(64)"
  have "s + 7 \<le> n \<Longrightarrow> 7 + (n - (s + 7)) = n - s" by simp
  moreover have "s \<le> n \<Longrightarrow> bit (0x7f :: u64) (n - s) \<longleftrightarrow> n < s + 7" using bit_0x7f(2) [of "n - s"] by auto
  ultimately show "bit ((r OR push_bit s (val AND 0x7f)) OR push_bit (s + 7) (drop_bit 7 val)) n
      = bit (r OR push_bit s val) n"
    unfolding bit_or_iff bit_push_bit_iff bit_and_iff bit_drop_bit_eq comp_def
    by (cases "s + 7 \<le> n") auto
qed

lemma decode_varint_loop_encode:
  fixes val :: u64
  assumes "shift < 64" "unat val < 2 ^ (64 - shift)"
  shows "decode_varint_loop (pre @ encode_varint val @ rest) (length pre) r shift
    = Inr (r OR push_bit shift val, length pre + length (encode_varint val))"
  using assms
proof (induction val arbitrary: pre r shift rule: encode_varint.induct)
  case (1 val)
  show ?case
  proof (cases "0x80 \<le> val")
    case False
    then have v: "val < 0x80" by simp
    then have "encode_varint val = [ucast val]" by (simp add: encode_varint.simps)
    then show ?thesis using varint_last_byte [OF v]
      by (subst decode_varint_loop.simps) (simp add: nth_append)
  next
    case True
    let ?b = "(ucast val AND 0x7f) OR 0x80 :: u8" and ?v = "drop_bit 7 val"
    have enc: "encode_varint val = ?b # encode_varint ?v" using True by (simp add: encode_varint.simps [of val])
    have ge: "128 \<le> unat val" using True by (simp add: word_le_nat_alt)
    have s: "shift + 7 < 64"
    proof (rule ccontr)
      assume "\<not> shift + 7 < 64"
      then have "(2 :: nat) ^ (64 - shift) \<le> 2 ^ 7" by (intro power_increasing) auto
      then show False using "1.prems"(2) ge by simp
    qed
    have "unat ?v < 2 ^ (64 - (shift + 7))"
    proof -
      have "64 - shift = (64 - (shift + 7)) + 7" using s by simp
      then have "(2 :: nat) ^ (64 - shift) = 2 ^ (64 - (shift + 7)) * 2 ^ 7"
        by (simp only: power_add)
      then have "unat val < 2 ^ (64 - (shift + 7)) * 128" using "1.prems"(2) by simp
      then show ?thesis by (simp add: drop_bit_eq_div unat_div less_mult_imp_div_less)
    qed
    note ih = "1.IH" [OF True s this]
    define r' where "r' = r OR push_bit shift (ucast (?b AND 0x7f))"
    have r': "r' OR push_bit (shift + 7) ?v = r OR push_bit shift val"
      unfolding r'_def varint_cont_byte(2) by (rule varint_combine)
    have "decode_varint_loop (pre @ encode_varint val @ rest) (Suc (length pre)) r' (shift + 7)
        = Inr (r OR push_bit shift val, length pre + length (encode_varint val))"
      using ih [of "pre @ [?b]" r'] unfolding r' enc by simp
    moreover have "decode_varint_loop (pre @ encode_varint val @ rest) (length pre) r shift
        = decode_varint_loop (pre @ encode_varint val @ rest) (Suc (length pre)) r' (shift + 7)"
    proof -
      have "(pre @ encode_varint val @ rest) ! length pre = ?b"
        "length pre < length (pre @ encode_varint val @ rest)" by (simp_all add: enc nth_append)
      moreover have "\<not> 64 \<le> shift + 7" using s by simp
      ultimately show ?thesis using varint_cont_byte(1) [of val] unfolding r'_def
        by (subst decode_varint_loop.simps) (simp only: Let_def if_True if_False Suc_eq_plus1 simp_thms)
    qed
    ultimately show ?thesis by simp
  qed
qed

lemma decode_varint_encode:
  "decode_varint (pre @ encode_varint val @ rest) (length pre)
     = Inr (val, length pre + length (encode_varint val))"
  using decode_varint_loop_encode [of 0 val pre rest 0] unat_lt_pow [of val]
  by (simp add: decode_varint_def)

abbreviation varint_eof :: contextra_error where
  "varint_eof \<equiv> Storage ''Unexpected EOF while decoding varint''"

lemma decode_varint_loop_cut:
  fixes val :: u64
  assumes "shift < 64" "unat val < 2 ^ (64 - shift)" "k < length (encode_varint val)"
  shows "\<exists>e. decode_varint_loop (pre @ take k (encode_varint val)) (length pre) r shift = Inl e"
  using assms
proof (induction val arbitrary: pre r shift k rule: encode_varint.induct)
  case (1 val)
  show ?case
  proof (cases k)
    case 0
    then show ?thesis by (subst decode_varint_loop.simps) simp
  next
    case (Suc j)
    have True: "0x80 \<le> val"
      using "1.prems"(3) Suc by (cases "0x80 \<le> val") (simp_all add: encode_varint.simps [of val])
    let ?b = "(ucast val AND 0x7f) OR 0x80 :: u8" and ?v = "drop_bit 7 val"
    have enc: "encode_varint val = ?b # encode_varint ?v" using True by (simp add: encode_varint.simps [of val])
    show ?thesis
    proof (cases "shift + 7 < 64")
      case s: False
      have "(pre @ take k (encode_varint val)) ! length pre = ?b"
        "length pre < length (pre @ take k (encode_varint val))" by (simp_all add: enc Suc nth_append)
      moreover have "64 \<le> shift + 7" using s by simp
      ultimately show ?thesis using varint_cont_byte(1) [of val]
        by (subst decode_varint_loop.simps) (simp only: Let_def if_True if_False simp_thms, blast)
    next
      case s: True
      have "64 - shift = (64 - (shift + 7)) + 7" using s by simp
      then have "(2 :: nat) ^ (64 - shift) = 2 ^ (64 - (shift + 7)) * 2 ^ 7"
        by (simp only: power_add)
      then have "unat val < 2 ^ (64 - (shift + 7)) * 128" using "1.prems"(2) by simp
      then have "unat ?v < 2 ^ (64 - (shift + 7))"
        by (simp add: drop_bit_eq_div unat_div less_mult_imp_div_less)
      moreover have "j < length (encode_varint ?v)" using "1.prems"(3) Suc enc by simp
      ultimately obtain e where "decode_varint_loop ((pre @ [?b]) @ take j (encode_varint ?v)) (length (pre @ [?b]))
          (r OR push_bit shift (ucast (?b AND 0x7f))) (shift + 7) = Inl e"
        using "1.IH" [OF True s] by blast
      moreover have "(pre @ take k (encode_varint val)) ! length pre = ?b"
        "length pre < length (pre @ take k (encode_varint val))"
        "(pre @ [?b]) @ take j (encode_varint ?v) = pre @ take k (encode_varint val)"
        "length (pre @ [?b]) = length pre + 1" by (simp_all add: enc Suc nth_append)
      moreover have "\<not> 64 \<le> shift + 7" using s by simp
      ultimately show ?thesis using varint_cont_byte(1) [of val]
        by (subst decode_varint_loop.simps) (simp only: Let_def if_True if_False simp_thms, blast)
    qed
  qed
qed

lemma decode_varint_cut:
  assumes "k < length (encode_varint val)"
  shows "\<exists>e. decode_varint (pre @ take k (encode_varint val @ rest)) (length pre) = Inl e"
  using decode_varint_loop_cut [of 0 val k pre 0] unat_lt_pow [of val] assms
  by (simp add: decode_varint_def)

lemma to_u32_ucast [simp]: "to_u32 msg (ucast (n :: u32)) = Inr n"
proof -
  have lt: "unat n < 4294967296" using unat_lt_pow [of n] by simp
  then have "unat (ucast n :: u64) = unat n" by (simp add: unsigned_ucast_eq take_bit_nat_eq_self)
  with lt have "\<not> (ucast n :: u64) > 0xFFFFFFFF" by (simp add: word_less_nat_alt)
  moreover have "ucast (ucast n :: u64) = n" by (rule bit_word_eqI) (auto simp: bit_simps)
  ultimately show ?thesis by (simp add: to_u32_def)
qed

lemma doc_delta:
  fixes d prev :: u64
  assumes "prev \<le> d"
  shows "unat prev + unat (d - prev) < 2 ^ 64" "prev + (d - prev) = d"
  using assms unat_lt_pow [of d] by (simp_all add: unat_sub word_le_nat_alt)

lemma decode_postings_encode:
  "encode_postings prev ps = Inr body \<Longrightarrow>
     decode_postings (pre @ body @ rest) (length ps) (length pre) prev = Inr (ps, length pre + length body)"
proof (induction ps arbitrary: prev body pre)
  case (Cons p ps)
  have le: "prev \<le> po_doc_id p" using Cons.prems by (auto split: if_splits)
  obtain tl where tl: "encode_postings (po_doc_id p) ps = Inr tl"
    and body: "body = encode_varint (po_doc_id p - prev) @ encode_varint (ucast (po_tf p))
      @ encode_varint (ucast (po_doc_len p)) @ tl"
    using Cons.prems by (auto simp: rbind_eq_Inr split: if_splits)
  let ?e1 = "encode_varint (po_doc_id p - prev)" and ?e2 = "encode_varint (ucast (po_tf p))"
    and ?e3 = "encode_varint (ucast (po_doc_len p))"
  let ?bs = "pre @ ?e1 @ ?e2 @ ?e3 @ tl @ rest"
  have d1: "decode_varint ?bs (length pre) = Inr (po_doc_id p - prev, length pre + length ?e1)"
    by (rule decode_varint_encode)
  have d2: "decode_varint ?bs (length pre + length ?e1) =
      Inr (ucast (po_tf p), length pre + length ?e1 + length ?e2)"
    using decode_varint_encode [of "pre @ ?e1" "ucast (po_tf p)" "?e3 @ tl @ rest"] by simp
  have d3: "decode_varint ?bs (length pre + length ?e1 + length ?e2) =
      Inr (ucast (po_doc_len p), length pre + length ?e1 + length ?e2 + length ?e3)"
    using decode_varint_encode [of "pre @ ?e1 @ ?e2" "ucast (po_doc_len p)" "tl @ rest"] by (simp add: add.assoc)
  have d4: "decode_postings ?bs (length ps) (length pre + length ?e1 + length ?e2 + length ?e3) (po_doc_id p)
      = Inr (ps, length pre + length ?e1 + length ?e2 + length ?e3 + length tl)"
    using Cons.IH [OF tl, of "pre @ ?e1 @ ?e2 @ ?e3"] by (simp add: add.assoc)
  have "decode_postings ?bs (Suc (length ps)) (length pre) prev =
      Inr (p # ps, length pre + length ?e1 + length ?e2 + length ?e3 + length tl)"
    using doc_delta [OF le] by (simp add: d1 d2 d3 d4 not_le)
  then show ?case by (simp add: body add.assoc)
qed simp

lemma decode_postings_cut:
  "encode_postings prev ps = Inr body \<Longrightarrow> k < length body \<Longrightarrow>
     \<exists>e. decode_postings (pre @ take k body) (length ps) (length pre) prev = Inl e"
proof (induction ps arbitrary: prev body pre k)
  case (Cons p ps)
  have le: "prev \<le> po_doc_id p" using Cons.prems by (auto split: if_splits)
  obtain tl where tl: "encode_postings (po_doc_id p) ps = Inr tl"
    and body: "body = encode_varint (po_doc_id p - prev) @ encode_varint (ucast (po_tf p))
      @ encode_varint (ucast (po_doc_len p)) @ tl"
    using Cons.prems by (auto simp: rbind_eq_Inr split: if_splits)
  let ?e1 = "encode_varint (po_doc_id p - prev)" and ?e2 = "encode_varint (ucast (po_tf p))"
    and ?e3 = "encode_varint (ucast (po_doc_len p))"
  let ?bs = "pre @ take k body"
  show ?case
  proof (cases "k < length ?e1")
    case True
    then obtain e where "decode_varint ?bs (length pre) = Inl e"
      using decode_varint_cut [OF True, of pre "?e2 @ ?e3 @ tl"] body by auto
    then show ?thesis by simp
  next
    case k1: False
    define k2 where "k2 = k - length ?e1"
    have b1: "take k body = ?e1 @ take k2 (?e2 @ ?e3 @ tl)" using k1 by (simp add: body k2_def)
    have d1: "decode_varint ?bs (length pre) = Inr (po_doc_id p - prev, length pre + length ?e1)"
      unfolding b1 by (rule decode_varint_encode)
    show ?thesis
    proof (cases "k2 < length ?e2")
      case True
      then obtain e where "decode_varint ?bs (length pre + length ?e1) = Inl e"
        using decode_varint_cut [OF True, of "pre @ ?e1" "?e3 @ tl"] unfolding b1 by auto
      then show ?thesis using d1 by simp
    next
      case c2: False
      define k3 where "k3 = k2 - length ?e2"
      have b2: "take k body = ?e1 @ ?e2 @ take k3 (?e3 @ tl)" using c2 by (simp add: b1 k3_def)
      have d2: "decode_varint ?bs (length pre + length ?e1) =
          Inr (ucast (po_tf p), length pre + length ?e1 + length ?e2)"
        using decode_varint_encode [of "pre @ ?e1" "ucast (po_tf p)"] unfolding b2 by simp
      show ?thesis
      proof (cases "k3 < length ?e3")
        case True
        then obtain e where "decode_varint ?bs (length pre + length ?e1 + length ?e2) = Inl e"
          using decode_varint_cut [OF True, of "pre @ ?e1 @ ?e2" tl] unfolding b2 by (auto simp: add.assoc)
        then show ?thesis using d1 d2 by simp
      next
        case c3: False
        define k4 where "k4 = k3 - length ?e3"
        have b3: "take k body = ?e1 @ ?e2 @ ?e3 @ take k4 tl" using c3 by (simp add: b2 k4_def)
        have d3: "decode_varint ?bs (length pre + length ?e1 + length ?e2) =
            Inr (ucast (po_doc_len p), length pre + length ?e1 + length ?e2 + length ?e3)"
          using decode_varint_encode [of "pre @ ?e1 @ ?e2" "ucast (po_doc_len p)"]
          unfolding b3 by (simp add: add.assoc)
        have "k4 < length tl" using Cons.prems(2) k1 c2 c3 by (simp add: body k2_def k3_def k4_def)
        from Cons.IH [OF tl this, of "pre @ ?e1 @ ?e2 @ ?e3"]
        obtain e where "decode_postings ?bs (length ps)
            (length pre + length ?e1 + length ?e2 + length ?e3) (po_doc_id p) = Inl e"
          unfolding b3 by (auto simp: add.assoc)
        then show ?thesis using doc_delta [OF le] by (simp add: d1 d2 d3 not_le)
      qed
    qed
  qed
qed simp

lemma encode_postings_ok:
  "sorted (map po_doc_id ps) \<Longrightarrow> \<forall>p\<in>set ps. prev \<le> po_doc_id p \<Longrightarrow> \<exists>body. encode_postings prev ps = Inr body"
proof (induction ps arbitrary: prev)
  case (Cons p ps)
  then obtain body where "encode_postings (po_doc_id p) ps = Inr body" by force
  then show ?case using Cons.prems(2) by (simp add: not_less [symmetric])
qed simp

text \<open>
  C28. A sorted list of at most 100 million postings is encoded, decoding the bytes gives the list
  back with its block metadata, and the decoder accepts no other cut of the file: bytes appended
  to it are an error, and so is every proper prefix that still has the magic number.
\<close>

theorem posting_codec_exact:
  assumes "pl_wf l" "pl_len l \<le> 100000000"
  shows "\<exists>bs. encode_compact l = Inr bs \<and> decode_compact bincode bs = Inr l
    \<and> (\<forall>x xs. \<exists>e. decode_compact bincode (bs @ x # xs) = Inl e)
    \<and> (\<forall>k. length POSTING_LIST_V2_MAGIC \<le> k \<and> k < length bs \<longrightarrow>
         (\<exists>e. decode_compact bincode (take k bs) = Inl e))"
proof -
  let ?ps = "pl_postings l" and ?m = POSTING_LIST_V2_MAGIC
  let ?n = "of_nat (length (pl_postings l)) :: u64"
  have "sorted (map po_doc_id ?ps)" using assms(1) by (simp add: pl_wf_def strict_sorted_iff)
  then obtain body where body: "encode_postings 0 ?ps = Inr body" using encode_postings_ok by fastforce
  have l: "l = pl_of ?ps" using assms(1) by (simp add: pl_wf_def pl_of_def)
  have n: "unat ?n = length ?ps" "\<not> ?n > 100000000"
  proof -
    show "unat ?n = length ?ps" using assms(2) by (simp add: pl_len_def unat_of_nat_u64)
    then show "\<not> ?n > 100000000" using assms(2) by (simp add: pl_len_def word_less_nat_alt)
  qed
  let ?bs = "?m @ encode_varint ?n @ body"
  have enc: "encode_compact l = Inr ?bs" using body by (simp add: encode_compact_def)
  have hdr: "decode_varint (?m @ encode_varint ?n @ r) (length ?m) = Inr (?n, length ?m + length (encode_varint ?n))"
    for r by (rule decode_varint_encode)
  have rest: "decode_postings (?m @ encode_varint ?n @ body @ r) (length ?ps) (length ?m + length (encode_varint ?n)) 0
      = Inr (?ps, length ?m + length (encode_varint ?n) + length body)" for r
    using decode_postings_encode [OF body, of "?m @ encode_varint ?n" r] by simp
  have dec: "decode_compact bincode (?bs @ r) =
      (if r = [] then Inr l else Inl (Storage ''Extra trailing bytes after posting list decoding''))" for r
    unfolding decode_compact_def using n hdr [of "body @ r"] rest [of r] l by simp
  have cut: "\<exists>e. decode_compact bincode (take k ?bs) = Inl e" if k: "length ?m \<le> k" "k < length ?bs" for k
  proof (cases "k - length ?m < length (encode_varint ?n)")
    case True
    have "take k ?bs = ?m @ take (k - length ?m) (encode_varint ?n @ body)" using k by simp
    then show ?thesis using decode_varint_cut [OF True, of ?m body] by (auto simp: decode_compact_def)
  next
    case False
    define j where "j = k - length ?m - length (encode_varint ?n)"
    have t: "take k ?bs = ?m @ encode_varint ?n @ take j body" using k False by (simp add: j_def)
    have "j < length body" using k False by (simp add: j_def)
    from decode_postings_cut [OF body this, of "?m @ encode_varint ?n"]
    obtain e where "decode_postings (take k ?bs) (length ?ps) (length ?m + length (encode_varint ?n)) 0 = Inl e"
      unfolding t by auto
    then show ?thesis unfolding decode_compact_def using n hdr [of "take j body"] unfolding t by simp
  qed
  show ?thesis using enc dec [of "[]"] dec cut by (intro exI [of _ ?bs]) simp
qed

theorem posting_codec_exact_witness:
  "\<exists>bs. encode_compact (pl_of [\<lparr>po_doc_id = 5, po_tf = 2, po_doc_len = 300\<rparr>, \<lparr>po_doc_id = 900, po_tf = 1, po_doc_len = 7\<rparr>])
       = Inr bs
     \<and> decode_compact (\<lambda>_. None) bs =
         Inr (pl_of [\<lparr>po_doc_id = 5, po_tf = 2, po_doc_len = 300\<rparr>, \<lparr>po_doc_id = 900, po_tf = 1, po_doc_len = 7\<rparr>])"
proof -
  have "pl_wf (pl_of [\<lparr>po_doc_id = 5, po_tf = 2, po_doc_len = 300\<rparr>, \<lparr>po_doc_id = 900, po_tf = 1, po_doc_len = 7\<rparr>])"
    "pl_len (pl_of [\<lparr>po_doc_id = 5, po_tf = 2, po_doc_len = 300\<rparr>, \<lparr>po_doc_id = 900, po_tf = 1, po_doc_len = 7\<rparr>])
      \<le> 100000000"
    by (simp_all add: pl_wf_def pl_len_def)
  from posting_codec_exact [OF this, of "\<lambda>_. None"] show ?thesis by blast
qed

section \<open>The resident index as a map\<close>

definition ri_wf :: "resident_index \<Rightarrow> bool" where
  "ri_wf idx \<longleftrightarrow> (\<forall>term l. map_of idx term = Some l \<longrightarrow> pl_wf l)"

definition ri_map :: "resident_index \<Rightarrow> string \<Rightarrow> u64 \<Rightarrow> posting option" where
  "ri_map idx term d = Option.bind (map_of idx term) (\<lambda>l. pl_map l d)"

context unstable_sort
begin

lemma ri_upsert_posting_ok:
  assumes "ri_wf idx"
  shows "ri_wf (ri_upsert_posting srt term p idx)"
    and "ri_map (ri_upsert_posting srt term p idx) t d =
      (if t = term \<and> d = po_doc_id p then Some p else ri_map idx t d)"
proof -
  let ?u = "case map_of idx term of Some l \<Rightarrow> pl_upsert l p | None \<Rightarrow> pl_new srt [p]"
  have u: "pl_wf ?u" "pl_map ?u d = (if d = po_doc_id p then Some p else ri_map idx term d)" for d
    using assms pl_upsert_ok [of _ p] pl_new_wf [of "[p]"] pl_new_single [of p]
    by (auto simp: ri_wf_def ri_map_def pl_map_def split: option.splits)
  have m: "map_of (ri_upsert_posting srt term p idx) = (map_of idx)(term \<mapsto> ?u)"
    by (simp add: ri_upsert_posting_def)
  show "ri_wf (ri_upsert_posting srt term p idx)" using assms u(1) unfolding ri_wf_def m by simp
  show "ri_map (ri_upsert_posting srt term p idx) t d =
      (if t = term \<and> d = po_doc_id p then Some p else ri_map idx t d)"
    using u(2) [of d] unfolding ri_map_def m by auto
qed

end

lemma ri_remove_posting_ok:
  assumes "ri_wf idx"
  shows "ri_wf (ri_remove_posting doc term idx)"
    and "ri_map (ri_remove_posting doc term idx) t d = (if t = term \<and> d = doc then None else ri_map idx t d)"
proof -
  have "ri_wf (ri_remove_posting doc term idx) \<and> ri_map (ri_remove_posting doc term idx) t d =
      (if t = term \<and> d = doc then None else ri_map idx t d)"
  proof (cases "map_of idx term")
    case None
    then show ?thesis using assms by (auto simp: ri_remove_posting_def ri_map_def)
  next
    case (Some l)
    then have "pl_wf l" using assms by (simp add: ri_wf_def)
    note rem = pl_remove_ok [OF this, of doc]
    have m: "map_of (ri_remove_posting doc term idx) = (map_of idx)
        (term := if pl_is_empty (pl_remove l doc) then None else Some (pl_remove l doc))"
      using Some by (simp add: ri_remove_posting_def Let_def)
    have "pl_is_empty (pl_remove l doc) \<Longrightarrow> pl_map (pl_remove l doc) d = None"
      by (simp add: pl_is_empty_def pl_map_def)
    moreover have "pl_map (pl_remove l doc) d = (if d = doc then None else pl_map l d)"
      using rem(2) by simp
    ultimately have "ri_map (ri_remove_posting doc term idx) t d =
        (if t = term \<and> d = doc then None else ri_map idx t d)"
      unfolding ri_map_def m by (cases "t = term"; cases "d = doc") (auto simp: Some)
    moreover have "ri_wf (ri_remove_posting doc term idx)"
      using assms rem(1) unfolding ri_wf_def m by simp
    ultimately show ?thesis by blast
  qed
  then show "ri_wf (ri_remove_posting doc term idx)"
    "ri_map (ri_remove_posting doc term idx) t d = (if t = term \<and> d = doc then None else ri_map idx t d)"
    by blast+
qed

lemma ri_remove_posting_from_terms_ok:
  "ri_wf idx \<Longrightarrow> ri_wf (ri_remove_posting_from_terms terms doc idx)
     \<and> (\<forall>t d. ri_map (ri_remove_posting_from_terms terms doc idx) t d =
         (if t \<in> set terms \<and> d = doc then None else ri_map idx t d))"
  unfolding ri_remove_posting_from_terms_def
proof (induction terms arbitrary: idx)
  case (Cons a terms)
  from Cons.IH [OF ri_remove_posting_ok(1) [OF Cons.prems, of doc a]]
  show ?case using ri_remove_posting_ok(2) [OF Cons.prems] by auto
qed simp

lemma map_of_remove_terms: "map_of (ri_remove_terms terms idx) t = (if t \<in> set terms then None else map_of idx t)"
  unfolding ri_remove_terms_def by (induction terms arbitrary: idx) (auto simp: AList.delete_conv')

lemma ri_remove_terms_ok:
  "ri_wf idx \<Longrightarrow> ri_wf (ri_remove_terms terms idx)"
  "ri_map (ri_remove_terms terms idx) t d = (if t \<in> set terms then None else ri_map idx t d)"
  by (simp_all add: ri_wf_def ri_map_def map_of_remove_terms)

datatype ri_op =
    RiUpsert string posting
  | RiInsertList string posting_list
  | RiRemovePosting "string list" u64
  | RiRemoveTerms "string list"
  | RiClear

definition ri_step :: "(posting list \<Rightarrow> posting list) \<Rightarrow> ri_op \<Rightarrow> resident_index \<Rightarrow> resident_index" where
  "ri_step srt c idx =
     (case c of
        RiUpsert t p \<Rightarrow> ri_upsert_posting srt t p idx
      | RiInsertList t l \<Rightarrow> ri_insert_list t l idx
      | RiRemovePosting ts d \<Rightarrow> ri_remove_posting_from_terms ts d idx
      | RiRemoveTerms ts \<Rightarrow> ri_remove_terms ts idx
      | RiClear \<Rightarrow> ri_clear idx)"

text \<open>The reference: one map from term and document to posting.\<close>

definition ri_spec :: "ri_op \<Rightarrow> (string \<Rightarrow> u64 \<Rightarrow> posting option) \<Rightarrow> string \<Rightarrow> u64 \<Rightarrow> posting option" where
  "ri_spec c m t d =
     (case c of
        RiUpsert term p \<Rightarrow> if t = term \<and> d = po_doc_id p then Some p else m t d
      | RiInsertList term l \<Rightarrow> if t = term then pl_map l d else m t d
      | RiRemovePosting terms doc \<Rightarrow> if t \<in> set terms \<and> d = doc then None else m t d
      | RiRemoveTerms terms \<Rightarrow> if t \<in> set terms then None else m t d
      | RiClear \<Rightarrow> None)"

definition ri_op_ok :: "ri_op \<Rightarrow> bool" where
  "ri_op_ok c = (case c of RiInsertList t l \<Rightarrow> pl_wf l | _ \<Rightarrow> True)"

context unstable_sort
begin

lemma ri_step_refines:
  assumes "ri_wf idx" "ri_op_ok c"
  shows "ri_wf (ri_step srt c idx) \<and> ri_map (ri_step srt c idx) = ri_spec c (ri_map idx)"
proof (cases c)
  case (RiUpsert t p)
  then show ?thesis using ri_upsert_posting_ok [OF assms(1)] by (simp add: ri_step_def ri_spec_def fun_eq_iff)
next
  case (RiInsertList t l)
  then show ?thesis using assms
    by (auto simp: ri_step_def ri_spec_def ri_op_ok_def ri_insert_list_def ri_wf_def ri_map_def fun_eq_iff)
next
  case (RiRemovePosting ts d)
  then show ?thesis using ri_remove_posting_from_terms_ok [OF assms(1)]
    by (simp add: ri_step_def ri_spec_def fun_eq_iff)
next
  case (RiRemoveTerms ts)
  then show ?thesis using ri_remove_terms_ok assms(1) by (simp add: ri_step_def ri_spec_def fun_eq_iff)
next
  case RiClear
  then show ?thesis by (simp add: ri_step_def ri_spec_def ri_clear_def ri_wf_def ri_map_def fun_eq_iff)
qed

lemma ri_run_refines:
  "ri_wf idx \<Longrightarrow> list_all ri_op_ok cs \<Longrightarrow> ri_wf (fold (ri_step srt) cs idx)
     \<and> ri_map (fold (ri_step srt) cs idx) = fold ri_spec cs (ri_map idx)"
  by (induction cs arbitrary: idx) (simp_all add: ri_step_refines)

end

text \<open>
  C29. After any sequence of index operations that install only lists built by the constructors,
  with any conforming unstable sort, looking up a term and searching a document in its list gives
  the posting of the reference map, every list is strictly sorted by document, and the block of
  every posting bounds its document id and term frequency from above and its length from below.
\<close>

theorem resident_index_refines:
  assumes "unstable_sort srt" "list_all ri_op_ok cs"
  shows "let idx = fold (ri_step srt) cs [] in
    ri_map idx = fold ri_spec cs (\<lambda>t d. None)
    \<and> (\<forall>t l. ri_get idx t = Some l \<longrightarrow> sorted_wrt (<) (map po_doc_id (pl_postings l))
        \<and> (\<forall>i < pl_len l.
             i div POSTING_BLOCK_SIZE < length (pl_blocks l)
             \<and> po_doc_id (pl_postings l ! i) \<le> bi_max_doc_id (pl_blocks l ! (i div POSTING_BLOCK_SIZE))
             \<and> po_tf (pl_postings l ! i) \<le> bi_max_tf (pl_blocks l ! (i div POSTING_BLOCK_SIZE))
             \<and> bi_min_doc_len (pl_blocks l ! (i div POSTING_BLOCK_SIZE)) \<le> po_doc_len (pl_postings l ! i)))"
proof -
  define idx where "idx = fold (ri_step srt) cs []"
  have "ri_wf []" "ri_map [] = (\<lambda>t d. None)" by (simp_all add: ri_wf_def ri_map_def fun_eq_iff)
  with unstable_sort.ri_run_refines [OF assms(1) _ assms(2), of "[]"]
  have run: "ri_wf idx" "ri_map idx = fold ri_spec cs (\<lambda>t d. None)" by (simp_all add: idx_def)
  have "sorted_wrt (<) (map po_doc_id (pl_postings l))
        \<and> (\<forall>i < pl_len l.
             i div POSTING_BLOCK_SIZE < length (pl_blocks l)
             \<and> po_doc_id (pl_postings l ! i) \<le> bi_max_doc_id (pl_blocks l ! (i div POSTING_BLOCK_SIZE))
             \<and> po_tf (pl_postings l ! i) \<le> bi_max_tf (pl_blocks l ! (i div POSTING_BLOCK_SIZE))
             \<and> bi_min_doc_len (pl_blocks l ! (i div POSTING_BLOCK_SIZE)) \<le> po_doc_len (pl_postings l ! i))"
    if "ri_get idx t = Some l" for t l
  proof -
    have "pl_wf l" using run(1) that by (simp add: ri_wf_def ri_get_def)
    then have sw: "sorted_wrt (<) (map po_doc_id (pl_postings l))"
      and b: "pl_blocks l = compute_blocks (pl_postings l)" by (simp_all add: pl_wf_def)
    from sw have "sorted (map po_doc_id (pl_postings l))" by (simp add: strict_sorted_iff)
    from compute_blocks_bounds [OF this] show ?thesis using sw unfolding b pl_len_def by blast
  qed
  then show ?thesis using run(2) unfolding Let_def idx_def [symmetric] by blast
qed

theorem resident_index_refines_witness:
  "ri_map (fold (ri_step (sort_key po_doc_id))
       [RiUpsert ''cat'' \<lparr>po_doc_id = 9, po_tf = 2, po_doc_len = 30\<rparr>,
        RiUpsert ''cat'' \<lparr>po_doc_id = 4, po_tf = 1, po_doc_len = 10\<rparr>,
        RiRemovePosting [''cat''] 9] []) ''cat'' 4 = Some \<lparr>po_doc_id = 4, po_tf = 1, po_doc_len = 10\<rparr>"
proof -
  have "list_all ri_op_ok [RiUpsert ''cat'' \<lparr>po_doc_id = 9, po_tf = 2, po_doc_len = 30\<rparr>,
        RiUpsert ''cat'' \<lparr>po_doc_id = 4, po_tf = 1, po_doc_len = 10\<rparr>, RiRemovePosting [''cat''] 9]"
    by (simp add: ri_op_ok_def)
  from resident_index_refines [OF stable.unstable_sort_axioms this] show ?thesis
    unfolding Let_def by (elim conjE) (simp add: ri_spec_def)
qed

text \<open>
  The tenth byte of a varint may carry bits above the 64th: they are shifted out and the decoder
  returns a value without an error. Ten bytes that encode \<open>2 ^ 64\<close> decode to zero.
\<close>

theorem varint_overflow_accepted:
  "decode_varint [0x80, 0x80, 0x80, 0x80, 0x80, 0x80, 0x80, 0x80, 0x80, 0x02] 0 = Inr (0, 10)"
  by (simp add: decode_varint_def decode_varint_loop.simps)

end
