(* ===== verification/Hyper_Graph.thy ===== *)
theory Hyper_Graph
  imports Types
begin

text \<open>
  The hyperedges of the graph index: the data model of \<open>contextra-graph/src/hyperedge.rs\<close> and the
  in-memory operations of \<open>contextra-graph/src/csr/graph_write.rs\<close> over the fields of
  \<open>GraphInner\<close> that hold hyperedges: the edges by id and the indexes from documents, entities and
  child edges. Every operation takes the writer lock once and is one step.

  A weight is the 32 bits of the \<open>f32\<close>, a business time the 64 bits of the \<open>i64\<close>; \<open>EdgeType\<close> has a single value and no field. A hash set of
  ids is a set, and an index without a key holds the empty set for it (the code removes a set when
  it becomes empty). Iteration over a set is in ascending order here; the callers sort.

  \<open>hg_wf\<close> says that the three indexes hold exactly the live edges. Insertion under an id that is
  not live, tombstoning and the batched commit of super edges preserve it; \<open>hg_reach\<close> are the
  histories made of these. Nothing in the code keeps a caller from inserting over a live edge:
  \<open>hg_hist\<close> are all histories, with the ids to which this has happened.
\<close>

section \<open>Hyperedges\<close>

record role_binding =
  rb_role :: u32
  rb_entity :: u64

record hyper_edge =
  he_id :: u64
  he_participants :: "role_binding list"
  he_weight :: u32
  he_tx_valid_from :: "u64 option"
  he_tx_valid_to :: "u64 option"
  he_business_valid_from :: "u64 option"
  he_business_valid_to :: "u64 option"
  he_source_doc_id :: "u64 option"
  he_child_edge_ids :: "u64 list"

definition hyper_edge_new :: "u64 \<Rightarrow> role_binding list \<Rightarrow> u32 \<Rightarrow> hyper_edge" where
  "hyper_edge_new i participants weight =
     \<lparr>he_id = i, he_participants = participants, he_weight = weight, he_tx_valid_from = None,
      he_tx_valid_to = None, he_business_valid_from = None, he_business_valid_to = None,
      he_source_doc_id = None, he_child_edge_ids = []\<rparr>"

definition with_source_doc_id :: "u64 option \<Rightarrow> hyper_edge \<Rightarrow> hyper_edge" where
  "with_source_doc_id doc e = e\<lparr>he_source_doc_id := doc\<rparr>"

definition with_tx_validity :: "u64 option \<Rightarrow> u64 option \<Rightarrow> hyper_edge \<Rightarrow> hyper_edge" where
  "with_tx_validity valid_from valid_to e = e\<lparr>he_tx_valid_from := valid_from, he_tx_valid_to := valid_to\<rparr>"

definition with_business_validity :: "u64 option \<Rightarrow> u64 option \<Rightarrow> hyper_edge \<Rightarrow> hyper_edge" where
  "with_business_validity valid_from valid_to e =
     e\<lparr>he_business_valid_from := valid_from, he_business_valid_to := valid_to\<rparr>"

definition with_child_edge_ids :: "u64 list \<Rightarrow> hyper_edge \<Rightarrow> hyper_edge" where
  "with_child_edge_ids ids e =
     e\<lparr>he_child_edge_ids := remdups_adj (sort (filter (\<lambda>c. c \<noteq> he_id e) ids))\<rparr>"

text \<open>\<open>f32::is_finite\<close> and the comparison with \<open>0.0\<close> on the bits of the number.\<close>

definition f32_is_finite :: "u32 \<Rightarrow> bool" where
  "f32_is_finite w \<longleftrightarrow> drop_bit 23 w AND 0xff \<noteq> 0xff"

definition f32_negative :: "u32 \<Rightarrow> bool" where
  "f32_negative w \<longleftrightarrow> bit w 31 \<and> w \<noteq> 0x80000000"

datatype graph_mutation_error =
    LockAcquisitionTimeout string
  | RoleBindingInvalid string
  | EpochReclamationPending u64
  | InsufficientParticipants nat nat
  | HyperedgeNotFound u64
  | DuplicateHyperEdgeId u64
  | InvalidWeight u32 string
  | GraphInternal string

definition he_validate :: "hyper_edge \<Rightarrow> graph_mutation_error + unit" where
  "he_validate e =
     (if length (he_participants e) < 2
      then Inl (InsufficientParticipants 2 (length (he_participants e)))
      else if \<not> f32_is_finite (he_weight e) \<or> f32_negative (he_weight e)
      then Inl (InvalidWeight (he_weight e) ''weight must be finite and non-negative'')
      else if he_id e \<in> set (he_child_edge_ids e)
      then Inl (GraphInternal ''HyperEdge cannot contain itself in child_edge_ids'')
      else Inr ())"

section \<open>Graph state\<close>

type_synonym id_index = "u64 \<Rightarrow> u64 set"

record hyper_graph =
  hg_id_map :: "(u64 \<times> nat) list"
  hg_entities :: "u64 list"
  hg_hyperedges :: "(u64 \<times> hyper_edge) list"
  hg_doc_to_hyperedges :: id_index
  hg_hyperedge_index :: id_index
  hg_child_to_parents :: id_index

definition hyper_graph_new :: hyper_graph where
  "hyper_graph_new =
     \<lparr>hg_id_map = [], hg_entities = [], hg_hyperedges = [], hg_doc_to_hyperedges = (\<lambda>_. {}),
      hg_hyperedge_index = (\<lambda>_. {}), hg_child_to_parents = (\<lambda>_. {})\<rparr>"

text \<open>\<open>entry(k).or_default().insert(id)\<close> and \<open>get_mut(k).remove(id)\<close> for every key of a list.\<close>

definition index_add :: "u64 \<Rightarrow> u64 list \<Rightarrow> id_index \<Rightarrow> id_index" where
  "index_add i ks ix = fold (\<lambda>k ix. ix(k := insert i (ix k))) ks ix"

definition index_del :: "u64 \<Rightarrow> u64 list \<Rightarrow> id_index \<Rightarrow> id_index" where
  "index_del i ks ix = fold (\<lambda>k ix. ix(k := ix k - {i})) ks ix"

definition doc_keys :: "hyper_edge \<Rightarrow> u64 list" where
  "doc_keys e = (case he_source_doc_id e of Some d \<Rightarrow> [d] | None \<Rightarrow> [])"

definition entity_keys :: "hyper_edge \<Rightarrow> u64 list" where
  "entity_keys e = map rb_entity (he_participants e)"

definition insert_hyperedge_direct :: "hyper_edge \<Rightarrow> hyper_graph \<Rightarrow> hyper_graph" where
  "insert_hyperedge_direct e g =
     g\<lparr>hg_doc_to_hyperedges := index_add (he_id e) (doc_keys e) (hg_doc_to_hyperedges g),
       hg_hyperedge_index := index_add (he_id e) (entity_keys e) (hg_hyperedge_index g),
       hg_child_to_parents := index_add (he_id e) (he_child_edge_ids e) (hg_child_to_parents g),
       hg_hyperedges := AList.update (he_id e) e (hg_hyperedges g)\<rparr>"

definition insert_hyperedge :: "hyper_edge \<Rightarrow> hyper_graph \<Rightarrow> hyper_graph" where
  "insert_hyperedge e g = insert_hyperedge_direct e g"

definition he_live :: "hyper_graph \<Rightarrow> u64 \<Rightarrow> bool" where
  "he_live g i = (case map_of (hg_hyperedges g) i of Some e \<Rightarrow> he_tx_valid_to e = None | None \<Rightarrow> False)"

definition parent_hyperedges_of :: "hyper_graph \<Rightarrow> u64 \<Rightarrow> u64 list" where
  "parent_hyperedges_of g child =
     sort (filter (he_live g) (sorted_list_of_set (hg_child_to_parents g child)))"

definition hyperedges_for_doc :: "hyper_graph \<Rightarrow> u64 \<Rightarrow> u64 list" where
  "hyperedges_for_doc g doc = filter (he_live g) (sorted_list_of_set (hg_doc_to_hyperedges g doc))"

definition hyperedges_for_entity :: "hyper_graph \<Rightarrow> u64 \<Rightarrow> u64 list" where
  "hyperedges_for_entity g entity = filter (he_live g) (sorted_list_of_set (hg_hyperedge_index g entity))"

definition get_hyperedge :: "hyper_graph \<Rightarrow> u64 \<Rightarrow> hyper_edge option" where
  "get_hyperedge g i =
     (case map_of (hg_hyperedges g) i of
        Some e \<Rightarrow> if he_tx_valid_to e = None then Some e else None
      | None \<Rightarrow> None)"

definition max_hyperedge_id :: "hyper_graph \<Rightarrow> u64" where
  "max_hyperedge_id g = fold max (map fst (hg_hyperedges g)) 0"

text \<open>The removal of a live edge from the indexes and the update of its validity.\<close>

definition apply_tombstone :: "u64 \<Rightarrow> hyper_edge \<Rightarrow> u64 \<Rightarrow> hyper_graph \<Rightarrow> hyper_graph" where
  "apply_tombstone i e wal_tx g =
     g\<lparr>hg_doc_to_hyperedges := index_del i (doc_keys e) (hg_doc_to_hyperedges g),
       hg_hyperedge_index := index_del i (entity_keys e) (hg_hyperedge_index g),
       hg_child_to_parents := index_del i (he_child_edge_ids e) (hg_child_to_parents g),
       hg_hyperedges := AList.update i (e\<lparr>he_tx_valid_to := Some wal_tx\<rparr>) (hg_hyperedges g)\<rparr>"

definition tombstone_hyperedge :: "u64 \<Rightarrow> u64 \<Rightarrow> hyper_graph \<Rightarrow> bool \<times> hyper_graph" where
  "tombstone_hyperedge i wal_tx g =
     (case map_of (hg_hyperedges g) i of
        Some e \<Rightarrow> if he_tx_valid_to e \<noteq> None then (False, g) else (True, apply_tombstone i e wal_tx g)
      | None \<Rightarrow> (False, g))"

definition relate_n_ary ::
  "u64 \<Rightarrow> role_binding list \<Rightarrow> u32 \<Rightarrow> u64 option \<Rightarrow> hyper_graph
     \<Rightarrow> (graph_mutation_error + hyper_edge) \<times> hyper_graph" where
  "relate_n_ary i participants weight doc g =
     (let e = with_source_doc_id doc (hyper_edge_new i participants weight) in
      case he_validate e of
        Inl err \<Rightarrow> (Inl err, g)
      | Inr _ \<Rightarrow> (Inr e, insert_hyperedge_direct e g))"

fun batch_precheck ::
  "hyper_graph \<Rightarrow> u64 set \<Rightarrow> hyper_edge list \<Rightarrow> graph_mutation_error + unit" where
  "batch_precheck g seen [] = Inr ()"
| "batch_precheck g seen (e # es) =
     (if he_id e \<in> seen \<or> map_of (hg_hyperedges g) (he_id e) \<noteq> None
      then Inl (DuplicateHyperEdgeId (he_id e))
      else rbind (he_validate e) (\<lambda>_. batch_precheck g (insert (he_id e) seen) es))"

definition commit_super_edge_batch ::
  "u64 list \<Rightarrow> hyper_edge list \<Rightarrow> u64 \<Rightarrow> hyper_graph \<Rightarrow> (graph_mutation_error + unit) \<times> hyper_graph" where
  "commit_super_edge_batch tombstone_ids new_edges wal_tx g =
     (case batch_precheck g {} new_edges of
        Inl err \<Rightarrow> (Inl err, g)
      | Inr _ \<Rightarrow>
          (Inr (), fold insert_hyperedge_direct new_edges
                     (fold (\<lambda>i g. snd (tombstone_hyperedge i wal_tx g)) tombstone_ids g)))"

text \<open>\<open>sweep_orphans\<close> tombstones edges with fewer than two participants that are entities of the graph.\<close>

definition entity_active :: "hyper_graph \<Rightarrow> u64 \<Rightarrow> bool" where
  "entity_active g entity =
     (case map_of (hg_id_map g) entity of
        Some idx \<Rightarrow> idx < length (hg_entities g) \<and> hg_entities g ! idx \<noteq> 0
      | None \<Rightarrow> False)"

definition orphaned :: "hyper_graph \<Rightarrow> hyper_edge \<Rightarrow> bool" where
  "orphaned g e \<longleftrightarrow> he_tx_valid_to e = None
     \<and> length (filter (\<lambda>p. entity_active g (rb_entity p)) (he_participants e)) < 2"

definition tombstone_each :: "u64 \<Rightarrow> u64 list \<Rightarrow> hyper_graph \<Rightarrow> u64 list \<times> hyper_graph" where
  "tombstone_each wal_tx ids g =
     fold (\<lambda>i (done, g). case tombstone_hyperedge i wal_tx g of
         (True, g') \<Rightarrow> (done @ [i], g')
       | (False, g') \<Rightarrow> (done, g')) ids ([], g)"

definition sweep_orphans :: "u64 \<Rightarrow> hyper_graph \<Rightarrow> nat \<times> hyper_graph" where
  "sweep_orphans wal_tx g =
     (let candidate_ids = map fst (filter (\<lambda>(i, e). orphaned g e) (hg_hyperedges g));
          (swept, g') = tombstone_each wal_tx candidate_ids g
      in (length swept, g'))"

section \<open>The indexes hold the live edges\<close>

definition live_edges :: "hyper_graph \<Rightarrow> u64 \<Rightarrow> hyper_edge option" where
  "live_edges g i = (case map_of (hg_hyperedges g) i of
     Some e \<Rightarrow> if he_tx_valid_to e = None then Some e else None | None \<Rightarrow> None)"

definition indexed :: "(hyper_edge \<Rightarrow> u64 list) \<Rightarrow> (u64 \<Rightarrow> hyper_edge option) \<Rightarrow> id_index" where
  "indexed ks m k = {i. \<exists>e. m i = Some e \<and> k \<in> set (ks e)}"

definition hg_wf :: "hyper_graph \<Rightarrow> bool" where
  "hg_wf g \<longleftrightarrow> (\<forall>i e. map_of (hg_hyperedges g) i = Some e \<longrightarrow> he_id e = i)
     \<and> distinct (map fst (hg_hyperedges g))
     \<and> hg_doc_to_hyperedges g = indexed doc_keys (live_edges g)
     \<and> hg_hyperedge_index g = indexed entity_keys (live_edges g)
     \<and> hg_child_to_parents g = indexed he_child_edge_ids (live_edges g)"

lemma hg_wfD:
  assumes "hg_wf g"
  shows "map_of (hg_hyperedges g) i = Some e \<Longrightarrow> he_id e = i"
    and "hg_doc_to_hyperedges g = indexed doc_keys (live_edges g)"
    and "hg_hyperedge_index g = indexed entity_keys (live_edges g)"
    and "hg_child_to_parents g = indexed he_child_edge_ids (live_edges g)"
    and "distinct (map fst (hg_hyperedges g))"
  using assms unfolding hg_wf_def by blast+

lemma he_live_iff: "he_live g i \<longleftrightarrow> live_edges g i \<noteq> None"
  by (simp add: he_live_def live_edges_def split: option.split)

lemma live_edges_mapD: "live_edges g i = Some e \<Longrightarrow> map_of (hg_hyperedges g) i = Some e"
  by (simp add: live_edges_def split: option.splits if_splits)

lemma live_edges_validD: "live_edges g i = Some e \<Longrightarrow> he_tx_valid_to e = None"
  by (simp add: live_edges_def split: option.splits if_splits)

lemma index_add_apply: "index_add i ks ix k = (if k \<in> set ks then insert i (ix k) else ix k)"
  unfolding index_add_def by (induction ks arbitrary: ix) (simp_all add: insert_absorb)

lemma index_del_apply: "index_del i ks ix k = (if k \<in> set ks then ix k - {i} else ix k)"
  unfolding index_del_def by (induction ks arbitrary: ix) simp_all

lemma indexed_insert:
  assumes "m i = None"
  shows "index_add i (ks e) (indexed ks m) = indexed ks (m(i \<mapsto> e))"
  using assms by (auto simp: fun_eq_iff index_add_apply indexed_def)

lemma indexed_delete:
  assumes "m i = Some e"
  shows "index_del i (ks e) (indexed ks m) = indexed ks (m(i := None))"
  using assms by (auto simp: fun_eq_iff index_del_apply indexed_def)

lemma live_edges_insert:
  "live_edges (insert_hyperedge_direct e g)
   = (live_edges g)(he_id e := if he_tx_valid_to e = None then Some e else None)"
  by (simp add: fun_eq_iff live_edges_def insert_hyperedge_direct_def update_conv distinct_update)

lemma live_edges_tombstone:
  "live_edges (snd (tombstone_hyperedge i tx g)) = (live_edges g)(i := None)"
  by (auto simp: fun_eq_iff live_edges_def tombstone_hyperedge_def apply_tombstone_def update_conv distinct_update
      split: option.split)

lemma fst_tombstone: "fst (tombstone_hyperedge i tx g) \<longleftrightarrow> live_edges g i \<noteq> None"
  by (simp add: live_edges_def tombstone_hyperedge_def split: option.split)

lemma hg_wf_new: "hg_wf hyper_graph_new"
  by (simp add: hg_wf_def hyper_graph_new_def live_edges_def indexed_def fun_eq_iff)

lemma hg_wf_insert:
  assumes "hg_wf g" "live_edges g (he_id e) = None" "he_tx_valid_to e = None"
  shows "hg_wf (insert_hyperedge_direct e g)"
  unfolding hg_wf_def live_edges_insert using assms(2,3) hg_wfD[OF assms(1)]
  by (simp add: indexed_insert insert_hyperedge_direct_def update_conv distinct_update)

lemma hg_wf_tombstone:
  assumes "hg_wf g"
  shows "hg_wf (snd (tombstone_hyperedge i tx g))"
proof (cases "live_edges g i")
  case None
  have "snd (tombstone_hyperedge i tx g) = g"
    using None by (auto simp: tombstone_hyperedge_def live_edges_def split: option.splits if_splits)
  with assms show ?thesis by simp
next
  case (Some e)
  have step: "snd (tombstone_hyperedge i tx g) = apply_tombstone i e tx g"
    using live_edges_mapD[OF Some] live_edges_validD[OF Some] by (simp add: tombstone_hyperedge_def)
  have live: "live_edges (apply_tombstone i e tx g) = (live_edges g)(i := None)"
    using live_edges_tombstone[of i tx g] step by simp
  have "he_id e = i" by (rule hg_wfD(1)[OF assms live_edges_mapD[OF Some]])
  then show ?thesis unfolding step hg_wf_def live
    using hg_wfD[OF assms] by (simp add: apply_tombstone_def update_conv distinct_update indexed_delete[of "live_edges g", OF Some])
qed

text \<open>Tombstoning a list of edges removes exactly these from the live edges.\<close>

lemma tombstone_all:
  assumes "hg_wf g"
  shows "hg_wf (fold (\<lambda>i g. snd (tombstone_hyperedge i tx g)) ids g)"
    and "live_edges (fold (\<lambda>i g. snd (tombstone_hyperedge i tx g)) ids g)
         = (\<lambda>i. if i \<in> set ids then None else live_edges g i)"
  using assms by (induction ids arbitrary: g)
    (auto simp: hg_wf_tombstone live_edges_tombstone fun_eq_iff)

lemma tombstone_each_snoc:
  "tombstone_each tx (ids @ [i]) g =
     (let (ts, g') = tombstone_each tx ids g; (b, g'') = tombstone_hyperedge i tx g'
      in (if b then ts @ [i] else ts, g''))"
  by (simp add: tombstone_each_def case_prod_beta Let_def split: prod.split bool.split)

lemma tombstone_each_conv:
  assumes "distinct ids"
  shows "tombstone_each tx ids g
         = (filter (he_live g) ids, fold (\<lambda>i g. snd (tombstone_hyperedge i tx g)) ids g)"
  using assms
proof (induction ids rule: rev_induct)
  case Nil
  show ?case by (simp add: tombstone_each_def)
next
  case (snoc i ids)
  let ?g = "fold (\<lambda>i g. snd (tombstone_hyperedge i tx g)) ids g"
  have "live_edges ?g i = live_edges g i"
    using snoc.prems by (induction ids arbitrary: g) (auto simp: live_edges_tombstone)
  then have "fst (tombstone_hyperedge i tx ?g) = he_live g i"
    by (simp add: fst_tombstone he_live_iff)
  then show ?case using snoc
    by (simp add: tombstone_each_snoc Let_def case_prod_beta)
qed

section \<open>Lookups and the batched commit\<close>

lemma u64_finite [simp]: "finite (A :: u64 set)"
  by (rule finite_subset[OF subset_UNIV finite])

lemma indexed_live: "i \<in> indexed ks (live_edges g) k \<Longrightarrow> he_live g i"
  by (auto simp: indexed_def he_live_iff)

lemma filter_indexed:
  "filter (he_live g) (sorted_list_of_set (indexed ks (live_edges g) k))
   = sorted_list_of_set (indexed ks (live_edges g) k)"
  by (rule filter_True) (simp add: indexed_live)

lemma lookups_indexed:
  assumes "hg_wf g"
  shows "hyperedges_for_doc g k = sorted_list_of_set (indexed doc_keys (live_edges g) k)"
    and "hyperedges_for_entity g k = sorted_list_of_set (indexed entity_keys (live_edges g) k)"
    and "parent_hyperedges_of g k = sorted_list_of_set (indexed he_child_edge_ids (live_edges g) k)"
  by (simp_all add: hyperedges_for_doc_def hyperedges_for_entity_def parent_hyperedges_of_def
      hg_wfD[OF assms] filter_indexed sort_key_id_if_sorted)

lemma get_hyperedge_live: "get_hyperedge g = live_edges g"
  by (simp add: fun_eq_iff get_hyperedge_def live_edges_def)

lemma parents_live: "p \<in> set (parent_hyperedges_of g k) \<Longrightarrow> he_live g p"
  by (simp add: parent_hyperedges_of_def)

lemma parents_distinct: "distinct (parent_hyperedges_of g k)"
  by (simp add: parent_hyperedges_of_def)

lemma batch_precheck_ok:
  "batch_precheck g seen es = Inr () \<longleftrightarrow> distinct (map he_id es)
     \<and> (\<forall>e\<in>set es. he_id e \<notin> seen \<and> map_of (hg_hyperedges g) (he_id e) = None
           \<and> he_validate e = Inr ())"
  by (induction es arbitrary: seen) (auto simp: rbind_eq_Inr rev_image_eqI)

lemma insert_all:
  assumes "hg_wf g" "distinct (map he_id es)"
    and "\<forall>e\<in>set es. live_edges g (he_id e) = None \<and> he_tx_valid_to e = None"
  shows "hg_wf (fold insert_hyperedge_direct es g)
     \<and> live_edges (fold insert_hyperedge_direct es g)
         = live_edges g ++ map_of (map (\<lambda>e. (he_id e, e)) es)"
  using assms
proof (induction es arbitrary: g)
  case (Cons e es)
  let ?g = "insert_hyperedge_direct e g"
  have live: "live_edges ?g = (live_edges g)(he_id e \<mapsto> e)"
    using Cons.prems(3) by (simp add: live_edges_insert)
  have "hg_wf ?g" using Cons.prems by (simp add: hg_wf_insert)
  moreover have "\<forall>x\<in>set es. live_edges ?g (he_id x) = None \<and> he_tx_valid_to x = None"
    using Cons.prems(2,3) by (auto simp: live image_iff)
  ultimately have "hg_wf (fold insert_hyperedge_direct es ?g)
     \<and> live_edges (fold insert_hyperedge_direct es ?g)
         = live_edges ?g ++ map_of (map (\<lambda>e. (he_id e, e)) es)"
    using Cons.IH Cons.prems(2) by simp
  moreover have "map_of (map (\<lambda>e. (he_id e, e)) es) (he_id e) = None"
    using Cons.prems(2) by (simp add: map_of_eq_None_iff image_image)
  ultimately show ?case
    by (auto simp: live map_add_def fun_eq_iff split: option.split)
qed simp

text \<open>
  The states of the graph: any sequence of \<open>relate_n_ary\<close> on an id that no live edge has, of
  tombstones, of batched commits and of sweeps, successful or not, from the empty graph.
\<close>

inductive hg_reach :: "hyper_graph \<Rightarrow> bool" where
  reach_new: "hg_reach hyper_graph_new"
| reach_entities: "hg_reach g \<Longrightarrow> hg_reach (g\<lparr>hg_id_map := ids, hg_entities := ents\<rparr>)"
| reach_relate: "hg_reach g \<Longrightarrow> live_edges g i = None \<Longrightarrow>
    hg_reach (snd (relate_n_ary i participants weight doc g))"
| reach_tombstone: "hg_reach g \<Longrightarrow> hg_reach (snd (tombstone_hyperedge i tx g))"
| reach_commit: "hg_reach g \<Longrightarrow> \<forall>e\<in>set es. he_tx_valid_to e = None \<Longrightarrow>
    hg_reach (snd (commit_super_edge_batch ids es tx g))"
| reach_sweep: "hg_reach g \<Longrightarrow> hg_reach (snd (sweep_orphans tx g))"

lemma live_edges_entities [simp]:
  "live_edges (g\<lparr>hg_id_map := ids, hg_entities := ents\<rparr>) = live_edges g"
  by (simp add: live_edges_def fun_eq_iff)

lemma hg_wf_entities: "hg_wf g \<Longrightarrow> hg_wf (g\<lparr>hg_id_map := ids, hg_entities := ents\<rparr>)"
  by (simp add: hg_wf_def)

lemma relate_n_ary_live:
  "he_tx_valid_to (with_source_doc_id doc (hyper_edge_new i participants weight)) = None"
  "he_id (with_source_doc_id doc (hyper_edge_new i participants weight)) = i"
  by (simp_all add: with_source_doc_id_def hyper_edge_new_def)

lemma hg_wf_relate:
  "hg_wf g \<Longrightarrow> live_edges g i = None \<Longrightarrow> hg_wf (snd (relate_n_ary i participants weight doc g))"
  by (simp add: relate_n_ary_def Let_def hg_wf_insert relate_n_ary_live split: sum.split)

lemma commit_effect:
  assumes wf: "hg_wf g" and fresh: "\<forall>e\<in>set es. he_tx_valid_to e = None"
    and ok: "batch_precheck g {} es = Inr ()"
  shows "hg_wf (snd (commit_super_edge_batch ids es tx g))"
    and "live_edges (snd (commit_super_edge_batch ids es tx g))
         = (\<lambda>i. if i \<in> set ids then None else live_edges g i) ++ map_of (map (\<lambda>e. (he_id e, e)) es)"
proof -
  let ?g = "fold (\<lambda>i g. snd (tombstone_hyperedge i tx g)) ids g"
  have pre: "distinct (map he_id es)" "\<forall>e\<in>set es. map_of (hg_hyperedges g) (he_id e) = None"
    using ok by (auto simp: batch_precheck_ok)
  have "\<forall>e\<in>set es. live_edges ?g (he_id e) = None \<and> he_tx_valid_to e = None"
    using pre(2) fresh by (simp add: tombstone_all(2)[OF wf]) (simp add: live_edges_def)
  from insert_all[OF tombstone_all(1)[OF wf] pre(1) this]
  show "hg_wf (snd (commit_super_edge_batch ids es tx g))"
    and "live_edges (snd (commit_super_edge_batch ids es tx g))
         = (\<lambda>i. if i \<in> set ids then None else live_edges g i) ++ map_of (map (\<lambda>e. (he_id e, e)) es)"
    by (simp_all add: commit_super_edge_batch_def ok tombstone_all(2)[OF wf])
qed

lemma hg_wf_commit:
  assumes "hg_wf g" "\<forall>e\<in>set es. he_tx_valid_to e = None"
  shows "hg_wf (snd (commit_super_edge_batch ids es tx g))"
proof (cases "batch_precheck g {} es")
  case (Inl err)
  with assms(1) show ?thesis by (simp add: commit_super_edge_batch_def)
next
  case (Inr u)
  with commit_effect(1)[OF assms] show ?thesis by simp
qed

lemma snd_tombstone_each:
  "snd (tombstone_each tx ids g) = fold (\<lambda>i g. snd (tombstone_hyperedge i tx g)) ids g"
  by (induction ids rule: rev_induct)
    (simp_all add: tombstone_each_snoc Let_def case_prod_beta, simp add: tombstone_each_def)

lemma hg_wf_sweep: "hg_wf g \<Longrightarrow> hg_wf (snd (sweep_orphans tx g))"
  by (simp add: sweep_orphans_def Let_def case_prod_beta snd_tombstone_each tombstone_all(1))

lemma hg_reach_wf: "hg_reach g \<Longrightarrow> hg_wf g"
  by (induction rule: hg_reach.induct)
    (simp_all add: hg_wf_new hg_wf_entities hg_wf_relate hg_wf_tombstone hg_wf_commit hg_wf_sweep)

lemma sweep_effect:
  assumes "hg_wf g"
  shows "live_edges (snd (sweep_orphans tx g))
         = (\<lambda>i. case live_edges g i of Some e \<Rightarrow> if orphaned g e then None else Some e | None \<Rightarrow> None)"
proof -
  let ?ids = "map fst (filter (\<lambda>(i, e). orphaned g e) (hg_hyperedges g))"
  have ids: "i \<in> set ?ids \<longleftrightarrow> (\<exists>e. map_of (hg_hyperedges g) i = Some e \<and> orphaned g e)" for i
    using hg_wfD(5)[OF assms] by (force simp: image_iff)
  show ?thesis
  proof (rule ext)
    fix i
    show "live_edges (snd (sweep_orphans tx g)) i
         = (case live_edges g i of Some e \<Rightarrow> if orphaned g e then None else Some e | None \<Rightarrow> None)"
      using ids[of i] unfolding sweep_orphans_def Let_def case_prod_beta snd_conv snd_tombstone_each
        tombstone_all(2)[OF assms] by (auto simp: live_edges_def split: option.split)
  qed
qed

section \<open>All histories\<close>

text \<open>
  The ids an insertion spoils: an insertion over a live edge leaves the keys of the old edge in the
  indexes, an edge inserted with an end of validity is indexed though it is not live.
\<close>

definition reused :: "hyper_graph \<Rightarrow> hyper_edge \<Rightarrow> u64 set" where
  "reused g e = (if live_edges g (he_id e) = None \<and> he_tx_valid_to e = None then {} else {he_id e})"

text \<open>
  Every sequence of operations from the empty graph, insertions under any id included. The set
  collects the ids that were ever spoilt.
\<close>

inductive hg_hist :: "u64 set \<Rightarrow> hyper_graph \<Rightarrow> bool" where
  hist_new: "hg_hist {} hyper_graph_new"
| hist_entities: "hg_hist R g \<Longrightarrow> hg_hist R (g\<lparr>hg_id_map := ids, hg_entities := ents\<rparr>)"
| hist_insert_direct: "hg_hist R g \<Longrightarrow> hg_hist (R \<union> reused g e) (insert_hyperedge_direct e g)"
| hist_insert: "hg_hist R g \<Longrightarrow> hg_hist (R \<union> reused g e) (insert_hyperedge e g)"
| hist_relate: "hg_hist R g \<Longrightarrow> relate_n_ary i participants weight doc g = (r, g') \<Longrightarrow>
    hg_hist (case r of Inl err \<Rightarrow> R | Inr e \<Rightarrow> R \<union> reused g e) g'"
| hist_tombstone: "hg_hist R g \<Longrightarrow> hg_hist R (snd (tombstone_hyperedge i tx g))"
| hist_commit: "hg_hist R g \<Longrightarrow> commit_super_edge_batch ids es tx g = (r, g') \<Longrightarrow>
    hg_hist (case r of Inl err \<Rightarrow> R
             | Inr u \<Rightarrow> R \<union> {he_id e | e. e \<in> set es \<and> he_tx_valid_to e \<noteq> None}) g'"
| hist_sweep: "hg_hist R g \<Longrightarrow> hg_hist R (snd (sweep_orphans tx g))"

text \<open>An index holds every live edge under its keys, and besides only spoilt ids.\<close>

definition ix_ok :: "u64 set \<Rightarrow> (hyper_edge \<Rightarrow> u64 list) \<Rightarrow> (u64 \<Rightarrow> hyper_edge option) \<Rightarrow> id_index \<Rightarrow> bool" where
  "ix_ok R ks m ix \<longleftrightarrow> (\<forall>k. indexed ks m k \<subseteq> ix k \<and> ix k - R \<subseteq> indexed ks m k)"

definition hg_inv :: "u64 set \<Rightarrow> hyper_graph \<Rightarrow> bool" where
  "hg_inv R g \<longleftrightarrow> ix_ok R doc_keys (live_edges g) (hg_doc_to_hyperedges g)
     \<and> ix_ok R entity_keys (live_edges g) (hg_hyperedge_index g)
     \<and> ix_ok R he_child_edge_ids (live_edges g) (hg_child_to_parents g)"

lemma ix_ok_mono: "ix_ok R ks m ix \<Longrightarrow> R \<subseteq> R' \<Longrightarrow> ix_ok R' ks m ix"
  unfolding ix_ok_def by blast

lemma indexed_upd:
  "indexed ks (m(i := x)) k =
     (indexed ks m k - {i}) \<union> (if \<exists>e. x = Some e \<and> k \<in> set (ks e) then {i} else {})"
  by (auto simp: indexed_def)

lemma indexed_mem: "i \<in> indexed ks m k \<longleftrightarrow> (\<exists>e. m i = Some e \<and> k \<in> set (ks e))"
  by (simp add: indexed_def)

lemma ix_ok_iff:
  "ix_ok R ks m ix \<longleftrightarrow>
     (\<forall>k x. (x \<in> indexed ks m k \<longrightarrow> x \<in> ix k) \<and> (x \<in> ix k \<longrightarrow> x \<in> R \<or> x \<in> indexed ks m k))"
  unfolding ix_ok_def by blast

lemma ix_ok_insert:
  assumes "ix_ok R ks m ix" "i \<notin> R' \<longrightarrow> m i = None \<and> v" "R \<subseteq> R'"
  shows "ix_ok R' ks (m(i := if v then Some e else None)) (index_add i (ks e) ix)"
  unfolding ix_ok_iff
proof (intro allI)
  fix k x
  from assms(1) have k: "(x \<in> indexed ks m k \<longrightarrow> x \<in> ix k) \<and> (x \<in> ix k \<longrightarrow> x \<in> R \<or> x \<in> indexed ks m k)"
    unfolding ix_ok_iff by blast
  have i: "m i = None \<longrightarrow> i \<notin> indexed ks m k" by (simp add: indexed_mem)
  let ?m = "m(i := if v then Some e else None)"
  show "(x \<in> indexed ks ?m k \<longrightarrow> x \<in> index_add i (ks e) ix k) \<and>
      (x \<in> index_add i (ks e) ix k \<longrightarrow> x \<in> R' \<or> x \<in> indexed ks ?m k)"
  proof (cases "x = i")
    case True
    then show ?thesis using k i assms(2,3) by (auto simp: indexed_upd index_add_apply)
  next
    case False
    then show ?thesis using k assms(3) by (auto simp: indexed_upd index_add_apply)
  qed
qed

lemma ix_ok_delete:
  assumes "ix_ok R ks m ix" "m i = Some e"
  shows "ix_ok R ks (m(i := None)) (index_del i (ks e) ix)"
  unfolding ix_ok_iff
proof (intro allI)
  fix k x
  from assms(1) have k: "(x \<in> indexed ks m k \<longrightarrow> x \<in> ix k) \<and> (x \<in> ix k \<longrightarrow> x \<in> R \<or> x \<in> indexed ks m k)"
    unfolding ix_ok_iff by blast
  have i: "i \<in> indexed ks m k \<longleftrightarrow> k \<in> set (ks e)" using assms(2) by (simp add: indexed_mem)
  show "(x \<in> indexed ks (m(i := None)) k \<longrightarrow> x \<in> index_del i (ks e) ix k) \<and>
      (x \<in> index_del i (ks e) ix k \<longrightarrow> x \<in> R \<or> x \<in> indexed ks (m(i := None)) k)"
    using k i by (cases "x = i") (auto simp: indexed_upd index_del_apply)
qed

lemma hg_inv_mono: "hg_inv R g \<Longrightarrow> R \<subseteq> R' \<Longrightarrow> hg_inv R' g"
  unfolding hg_inv_def by (blast intro: ix_ok_mono)

lemma hg_inv_insert:
  assumes "hg_inv R g" "R \<union> reused g e \<subseteq> R'"
  shows "hg_inv R' (insert_hyperedge_direct e g)"
proof -
  have *: "he_id e \<notin> R' \<longrightarrow> live_edges g (he_id e) = None \<and> he_tx_valid_to e = None" "R \<subseteq> R'"
    using assms(2) by (auto simp: reused_def split: if_splits)
  note ins = ix_ok_insert [of R _ "live_edges g" _ "he_id e" R' "he_tx_valid_to e = None" e, OF _ *]
  from assms(1) show ?thesis unfolding hg_inv_def live_edges_insert
    using ins [of doc_keys] ins [of entity_keys] ins [of he_child_edge_ids]
    by (simp add: insert_hyperedge_direct_def)
qed

lemma hg_inv_tombstone:
  assumes "hg_inv R g"
  shows "hg_inv R (snd (tombstone_hyperedge i tx g))"
proof (cases "live_edges g i")
  case None
  have "snd (tombstone_hyperedge i tx g) = g"
    using None by (auto simp: tombstone_hyperedge_def live_edges_def split: option.splits if_splits)
  with assms show ?thesis by simp
next
  case (Some e)
  have step: "snd (tombstone_hyperedge i tx g) = apply_tombstone i e tx g"
    using live_edges_mapD[OF Some] live_edges_validD[OF Some] by (simp add: tombstone_hyperedge_def)
  have "live_edges (apply_tombstone i e tx g) = (live_edges g)(i := None)"
    using live_edges_tombstone[of i tx g] step by simp
  with assms show ?thesis unfolding step hg_inv_def
    by (auto simp: apply_tombstone_def intro: ix_ok_delete Some)
qed

lemma hg_inv_tombstones:
  "hg_inv R g \<Longrightarrow> hg_inv R (fold (\<lambda>i g. snd (tombstone_hyperedge i tx g)) ids g)"
  by (induction ids arbitrary: g) (simp_all add: hg_inv_tombstone)

lemma live_after_tombstones:
  "live_edges g i = None \<Longrightarrow> live_edges (fold (\<lambda>i g. snd (tombstone_hyperedge i tx g)) ids g) i = None"
  by (induction ids arbitrary: g) (simp_all add: live_edges_tombstone)

lemma hg_inv_inserts:
  "hg_inv R g \<Longrightarrow> distinct (map he_id es) \<Longrightarrow> \<forall>e\<in>set es. live_edges g (he_id e) = None \<Longrightarrow>
     \<forall>e\<in>set es. he_tx_valid_to e \<noteq> None \<longrightarrow> he_id e \<in> R \<Longrightarrow>
     hg_inv R (fold insert_hyperedge_direct es g)"
proof (induction es arbitrary: g)
  case (Cons e es)
  have "hg_inv R (insert_hyperedge_direct e g)"
    using Cons.prems by (intro hg_inv_insert [OF Cons.prems(1)]) (auto simp: reused_def)
  moreover have "\<forall>x\<in>set es. live_edges (insert_hyperedge_direct e g) (he_id x) = None"
    using Cons.prems(2,3) by (auto simp: live_edges_insert image_iff)
  ultimately show ?case using Cons by simp
qed simp

lemma hg_inv_commit:
  assumes "hg_inv R g" "commit_super_edge_batch ids es tx g = (r, g')"
  shows "hg_inv (case r of Inl err \<Rightarrow> R
             | Inr u \<Rightarrow> R \<union> {he_id e | e. e \<in> set es \<and> he_tx_valid_to e \<noteq> None}) g'"
proof (cases "batch_precheck g {} es")
  case (Inl err)
  then have "r = Inl err" "g' = g" using assms(2) by (simp_all add: commit_super_edge_batch_def)
  with assms(1) show ?thesis by simp
next
  case (Inr u)
  let ?R = "R \<union> {he_id e | e. e \<in> set es \<and> he_tx_valid_to e \<noteq> None}"
  let ?g = "fold (\<lambda>i g. snd (tombstone_hyperedge i tx g)) ids g"
  have pre: "distinct (map he_id es)" "\<forall>e\<in>set es. map_of (hg_hyperedges g) (he_id e) = None"
    using Inr by (auto simp: batch_precheck_ok)
  have g': "r = Inr ()" "g' = fold insert_hyperedge_direct es ?g"
    using assms(2) Inr by (auto simp: commit_super_edge_batch_def)
  have "live_edges g (he_id e) = None" if "e \<in> set es" for e
    using pre(2) that by (simp add: live_edges_def)
  then have "\<forall>e\<in>set es. live_edges ?g (he_id e) = None" by (simp add: live_after_tombstones)
  moreover have "hg_inv ?R ?g"
    using hg_inv_mono [OF hg_inv_tombstones [OF assms(1)]] by blast
  ultimately have "hg_inv ?R (fold insert_hyperedge_direct es ?g)"
    using pre(1) by (intro hg_inv_inserts) auto
  with g' show ?thesis by simp
qed

lemma hg_hist_inv: "hg_hist R g \<Longrightarrow> hg_inv R g"
proof (induction rule: hg_hist.induct)
  case hist_new
  show ?case
    by (simp add: hg_inv_def ix_ok_def hyper_graph_new_def live_edges_def indexed_def)
next
  case (hist_relate R g i participants weight doc r g')
  then show ?case
    by (auto simp: relate_n_ary_def Let_def intro: hg_inv_insert split: sum.splits)
next
  case (hist_sweep R g tx)
  then show ?case
    by (simp add: sweep_orphans_def Let_def case_prod_beta snd_tombstone_each hg_inv_tombstones)
next
  case (hist_entities R g ids ents)
  then show ?case by (simp add: hg_inv_def)
next
  case (hist_insert R g e)
  then show ?case by (simp add: insert_hyperedge_def hg_inv_insert)
qed (simp_all add: hg_inv_insert hg_inv_tombstone hg_inv_commit)

text \<open>The lookups filter an index by the live edges.\<close>

lemma mem_lookup:
  "i \<in> set (hyperedges_for_doc g k) \<longleftrightarrow> i \<in> hg_doc_to_hyperedges g k \<and> live_edges g i \<noteq> None"
  "i \<in> set (hyperedges_for_entity g k) \<longleftrightarrow> i \<in> hg_hyperedge_index g k \<and> live_edges g i \<noteq> None"
  "i \<in> set (parent_hyperedges_of g k) \<longleftrightarrow> i \<in> hg_child_to_parents g k \<and> live_edges g i \<noteq> None"
  by (simp_all add: hyperedges_for_doc_def hyperedges_for_entity_def parent_hyperedges_of_def he_live_iff conj_commute)

lemma ix_ok_lookup:
  assumes "ix_ok R ks (live_edges g) ix"
  shows "\<exists>e. live_edges g i = Some e \<and> k \<in> set (ks e) \<Longrightarrow> i \<in> ix k"
    and "i \<notin> R \<Longrightarrow> i \<in> ix k \<Longrightarrow> \<exists>e. live_edges g i = Some e \<and> k \<in> set (ks e)"
  using assms unfolding ix_ok_def indexed_def by blast+

lemma hg_inv_lookups:
  assumes "hg_inv R g"
  shows "\<exists>e. live_edges g i = Some e \<and> k \<in> set (doc_keys e) \<Longrightarrow> i \<in> set (hyperedges_for_doc g k)"
    "\<exists>e. live_edges g i = Some e \<and> k \<in> set (entity_keys e) \<Longrightarrow> i \<in> set (hyperedges_for_entity g k)"
    "\<exists>e. live_edges g i = Some e \<and> k \<in> set (he_child_edge_ids e) \<Longrightarrow> i \<in> set (parent_hyperedges_of g k)"
    "i \<notin> R \<Longrightarrow> i \<in> set (hyperedges_for_doc g k) \<Longrightarrow>
       \<exists>e. live_edges g i = Some e \<and> k \<in> set (doc_keys e)"
    "i \<notin> R \<Longrightarrow> i \<in> set (hyperedges_for_entity g k) \<Longrightarrow>
       \<exists>e. live_edges g i = Some e \<and> k \<in> set (entity_keys e)"
    "i \<notin> R \<Longrightarrow> i \<in> set (parent_hyperedges_of g k) \<Longrightarrow>
       \<exists>e. live_edges g i = Some e \<and> k \<in> set (he_child_edge_ids e)"
  using assms unfolding hg_inv_def mem_lookup by (auto dest: ix_ok_lookup)

section \<open>Properties\<close>



text \<open>An insertion over a live edge leaves the keys of the old edge in the indexes.\<close>

lemma reinsert_leaves_stale_index:
  "let ps = [\<lparr>rb_role = 1, rb_entity = 10\<rparr>, \<lparr>rb_role = 2, rb_entity = 11\<rparr>];
       g = snd (relate_n_ary 7 ps 0x3f800000 (Some 3) hyper_graph_new);
       g' = snd (relate_n_ary 7 ps 0x3f800000 (Some 4) g)
   in map_option he_source_doc_id (get_hyperedge g' 7) = Some (Some 4)
      \<and> 7 \<in> set (hyperedges_for_doc g' 3)"
proof -
  let ?ps = "[\<lparr>rb_role = 1, rb_entity = 10\<rparr>, \<lparr>rb_role = 2, rb_entity = 11\<rparr>]"
  let ?g = "snd (relate_n_ary 7 ?ps 0x3f800000 (Some 4)
      (snd (relate_n_ary 7 ?ps 0x3f800000 (Some 3) hyper_graph_new)))"
  have "map_option he_source_doc_id (get_hyperedge ?g 7) = Some (Some 4)" by code_simp
  moreover have "7 \<in> hg_doc_to_hyperedges ?g 3" by code_simp
  moreover have "he_live ?g 7" by code_simp
  ultimately show ?thesis by (simp add: Let_def mem_lookup he_live_iff)
qed

text \<open>
  C31. The batched commit of super edges is all or nothing: it succeeds exactly if every new edge is
  valid and no id occurs twice or is stored already, also as a tombstone; on an error the
  graph is unchanged, and otherwise the listed edges are gone, the new ones are found under their
  ids and every other edge is as before.
\<close>

theorem super_edge_batch_atomic:
  assumes "hg_reach g" and "\<forall>e\<in>set es. he_tx_valid_to e = None"
    and "commit_super_edge_batch ids es tx g = (r, g')"
  shows "if distinct (map he_id es)
            \<and> (\<forall>e\<in>set es. map_of (hg_hyperedges g) (he_id e) = None \<and> he_validate e = Inr ())
         then r = Inr () \<and> hg_reach g'
            \<and> get_hyperedge g' = (\<lambda>i. if i \<in> set ids then None else get_hyperedge g i)
                 ++ map_of (map (\<lambda>e. (he_id e, e)) es)
         else (\<exists>err. r = Inl err) \<and> g' = g"
proof (cases "batch_precheck g {} es")
  case (Inl err)
  then have "\<not> batch_precheck g {} es = Inr ()" by simp
  moreover have "r = Inl err" "g' = g"
    using Inl assms(3) by (simp_all add: commit_super_edge_batch_def)
  ultimately show ?thesis by (simp add: batch_precheck_ok)
next
  case (Inr u)
  then have ok: "batch_precheck g {} es = Inr ()" by simp
  have "g' = snd (commit_super_edge_batch ids es tx g)" by (simp add: assms(3))
  moreover have "r = Inr ()"
    using arg_cong[OF assms(3), of fst] by (simp add: commit_super_edge_batch_def ok)
  ultimately have g': "g' = snd (commit_super_edge_batch ids es tx g)" "r = Inr ()" .
  show ?thesis
    using ok reach_commit[OF assms(1,2)] commit_effect(2)[OF hg_reach_wf[OF assms(1)] assms(2) ok]
    unfolding get_hyperedge_live g' by (simp add: batch_precheck_ok)
qed

theorem super_edge_batch_atomic_witness:
  "let e = \<lparr>he_id = 9, he_participants = [\<lparr>rb_role = 1, rb_entity = 10\<rparr>, \<lparr>rb_role = 1, rb_entity = 12\<rparr>],
            he_weight = 0x3f800000, he_tx_valid_from = None, he_tx_valid_to = None,
            he_business_valid_from = None, he_business_valid_to = None, he_source_doc_id = None,
            he_child_edge_ids = [7]\<rparr>
   in fst (commit_super_edge_batch [] [e] 5 hyper_graph_new) = Inr ()
      \<and> get_hyperedge (snd (commit_super_edge_batch [] [e] 5 hyper_graph_new)) 9 = Some e"
proof -
  let ?e = "\<lparr>he_id = 9, he_participants = [\<lparr>rb_role = 1, rb_entity = 10\<rparr>, \<lparr>rb_role = 1, rb_entity = 12\<rparr>],
            he_weight = 0x3f800000, he_tx_valid_from = None, he_tx_valid_to = None,
            he_business_valid_from = None, he_business_valid_to = None, he_source_doc_id = None,
            he_child_edge_ids = [7]\<rparr> :: hyper_edge"
  have "he_validate ?e = Inr ()" by code_simp
  then show ?thesis
    using super_edge_batch_atomic[OF reach_new, of "[?e]" "[]" 5
        "fst (commit_super_edge_batch [] [?e] 5 hyper_graph_new)"
        "snd (commit_super_edge_batch [] [?e] 5 hyper_graph_new)"]
    by (simp add: hyper_graph_new_def)
qed

end
