(* ===== verification/Hyper_Cascade.thy ===== *)
theory Hyper_Cascade
  imports Hyper_Graph
begin

text \<open>
  The cascade of \<open>contextra-graph/src/cascade.rs\<close>: when a document is superseded, its hyperedges and
  all their live ancestors are tombstoned, ancestors first, at most 1000 at once; the rest goes
  to the queue that \<open>process_cascade_queue\<close> of \<open>csr/graph_write.rs\<close> drains.

  The search for ancestors and the topological sort ask the graph only for \<open>parent_hyperedges_of\<close>;
  they take that function as an argument. The search is a \<open>partial_function\<close> whose result is \<open>None\<close>
  if the recursion does not end; the sort and the check loop are total. The graph does not change
  during one call. The order in which a hash set or map is iterated is ascending; the heap of ready
  nodes is a list from which the least is removed.
\<close>

section \<open>Search for ancestors\<close>

primrec ofold :: "('a \<Rightarrow> 'b \<Rightarrow> 'b option) \<Rightarrow> 'a list \<Rightarrow> 'b \<Rightarrow> 'b option" where
  "ofold f [] st = Some st"
| "ofold f (x # xs) st = Option.bind (f x st) (ofold f xs)"

lemma ofold_mono [partial_function_mono]:
  assumes "\<And>x st. mono_option (\<lambda>f. B f x st)"
  shows "mono_option (\<lambda>f. ofold (B f) xs st)"
proof (induction xs arbitrary: st)
  case Nil
  show ?case by (simp add: option.const_mono)
next
  case (Cons x xs)
  show ?case unfolding ofold.simps by (rule bind_mono[OF assms Cons.IH])
qed

text \<open>The state of the search: the visited nodes, the nodes on the call stack and the closure.\<close>

type_synonym dfs_state = "u64 set \<times> u64 set \<times> u64 list"

partial_function (option) dfs_upward ::
  "(u64 \<Rightarrow> u64 list) \<Rightarrow> u64 \<Rightarrow> dfs_state \<Rightarrow> dfs_state option" where
  "dfs_upward parents node st =
     (case st of (visited, on_stack, closure_nodes) \<Rightarrow>
        if node \<in> visited then Some (visited, on_stack, closure_nodes)
        else Option.bind
          (ofold (\<lambda>parent st. if parent \<in> fst (snd st) then Some st else dfs_upward parents parent st)
             (parents node) (insert node visited, insert node on_stack, closure_nodes @ [node]))
          (\<lambda>(visited', on_stack', closure_nodes').
             Some (visited', on_stack' - {node}, closure_nodes')))"

definition upward_closure :: "(u64 \<Rightarrow> u64 list) \<Rightarrow> u64 list \<Rightarrow> u64 list option" where
  "upward_closure parents ids =
     map_option (\<lambda>st. snd (snd st)) (ofold (dfs_upward parents) ids ({}, {}, []))"

section \<open>Topological sort\<close>

type_synonym degrees = "u64 \<Rightarrow> nat option"

definition degree_step ::
  "(u64 \<Rightarrow> u64 list) \<Rightarrow> u64 set \<Rightarrow> u64 \<Rightarrow> degrees \<times> (u64 \<Rightarrow> u64 list) \<Rightarrow> degrees \<times> (u64 \<Rightarrow> u64 list)"
where
  "degree_step parents node_set node = (\<lambda>(in_degree, children_map).
     let inside = filter (\<lambda>p. p \<in> node_set) (parents node)
     in (in_degree(node \<mapsto> length inside),
         fold (\<lambda>p ch. ch(p := ch p @ [node])) inside children_map))"

definition release_child :: "u64 \<Rightarrow> degrees \<times> u64 list \<Rightarrow> degrees \<times> u64 list" where
  "release_child child = (\<lambda>(in_degree, ready).
     case in_degree child of
       Some deg \<Rightarrow>
         if deg > 0
         then (in_degree(child \<mapsto> deg - 1), if deg - 1 = 0 then ready @ [child] else ready)
         else (in_degree, ready)
     | None \<Rightarrow> (in_degree, ready))"

definition open_nodes :: "degrees \<Rightarrow> nat" where
  "open_nodes in_degree = card {n. \<exists>d. in_degree n = Some (Suc d)}"

lemma open_nodes_upd:
  "in_degree n = Some (Suc d) \<Longrightarrow>
   open_nodes (in_degree(n \<mapsto> d)) + (if d = 0 then 1 else 0) = open_nodes in_degree"
proof -
  assume deg: "in_degree n = Some (Suc d)"
  let ?S = "{m. \<exists>d. in_degree m = Some (Suc d)}"
  have "{m. \<exists>e. (in_degree(n \<mapsto> d)) m = Some (Suc e)} = (if d = 0 then ?S - {n} else ?S)"
    using deg by (auto simp: gr0_conv_Suc)
  moreover have "card (?S - {n}) + 1 = card ?S"
    using deg card_Suc_Diff1[of ?S n] by simp
  ultimately show ?thesis by (simp add: open_nodes_def)
qed

lemma release_child_measure:
  "length (snd (release_child c st)) + open_nodes (fst (release_child c st))
   = length (snd st) + open_nodes (fst st)"
proof -
  obtain ind ready where st: "st = (ind, ready)" by (cases st)
  show ?thesis
  proof (cases "ind c")
    case (Some deg)
    then show ?thesis using open_nodes_upd[of ind c "deg - 1"]
      by (cases deg) (auto simp: st release_child_def split: if_splits)
  qed (simp add: st release_child_def)
qed

lemma release_children_measure:
  "length (snd (fold release_child cs st)) + open_nodes (fst (fold release_child cs st))
   = length (snd st) + open_nodes (fst st)"
  by (induction cs arbitrary: st) (simp_all add: release_child_measure)

function kahn_loop ::
  "(u64 \<Rightarrow> u64 list) \<Rightarrow> degrees \<Rightarrow> u64 list \<Rightarrow> u64 list \<Rightarrow> u64 list" where
  "kahn_loop children_map in_degree ready topo_order =
     (if ready = [] then topo_order
      else let node = Min (set ready);
               st = fold release_child (children_map node) (in_degree, remove1 node ready)
           in kahn_loop children_map (fst st) (snd st) (topo_order @ [node]))"
  by pat_completeness auto
termination
proof (relation "measure (\<lambda>(_, ind, ready, _). length ready + open_nodes ind)", simp)
  fix ch :: "u64 \<Rightarrow> u64 list" and ind ready order node st
  assume "ready \<noteq> []" "node = Min (set ready)"
    "st = fold release_child (ch node) (ind, remove1 node ready)"
  moreover from this have "length (remove1 node ready) < length ready"
    by (simp add: length_remove1 Min_in)
  ultimately show "((ch, fst st, snd st, order @ [node]), ch, ind, ready, order)
      \<in> measure (\<lambda>(_, ind, ready, _). length ready + open_nodes ind)"
    by (simp add: release_children_measure)
qed

declare kahn_loop.simps [simp del]

definition topological_sort_hyperedge_closure ::
  "(u64 \<Rightarrow> u64 list) \<Rightarrow> u64 list \<Rightarrow> u64 list" where
  "topological_sort_hyperedge_closure parents closure_nodes =
     (if closure_nodes = [] then []
      else let node_set = set closure_nodes;
               nodes = sorted_list_of_set node_set;
               (in_degree, children_map) =
                 fold (degree_step parents node_set) nodes (\<lambda>_. None, \<lambda>_. []);
               ready = filter (\<lambda>n. in_degree n = Some 0) nodes;
               topo_order = kahn_loop children_map in_degree ready []
           in if length topo_order < card node_set
              then topo_order @ filter (\<lambda>n. n \<notin> set topo_order) nodes
              else topo_order)"

section \<open>Cascade\<close>

definition MAX_HYPEREDGE_CASCADE_FANOUT :: nat where
  "MAX_HYPEREDGE_CASCADE_FANOUT = 1000"

text \<open>
  A \<open>CsrGraph\<close> is the hypergraph and the cascade queue. The storage engine behind the graph is a
  parameter: whether one is set, and the outcome of each \<open>put\<close> of a queue key.
\<close>

record csr_graph =
  cg_inner :: hyper_graph
  cg_cascade_queue :: "(u64 \<times> u64) list"

type_synonym queue_put = "u64 \<Rightarrow> u64 \<Rightarrow> unit res"

record cascade_report =
  cr_invalidated :: "u64 list"
  cr_deferred :: "u64 list"
  cr_queued_for_background :: nat

definition enqueue_cascade_deferred :: "u64 \<Rightarrow> u64 list \<Rightarrow> csr_graph \<Rightarrow> csr_graph" where
  "enqueue_cascade_deferred doc ids c =
     c\<lparr>cg_cascade_queue := cg_cascade_queue c @ map (\<lambda>h. (doc, h)) ids\<rparr>"

primrec persist_deferred :: "queue_put \<Rightarrow> u64 \<Rightarrow> u64 list \<Rightarrow> unit res" where
  "persist_deferred put doc [] = Inr ()"
| "persist_deferred put doc (h # hs) = rbind (put doc h) (\<lambda>_. persist_deferred put doc hs)"

text \<open>
  The check for a remaining reference: the stack of child ids is popped from its end. The loop
  ends because each step that pushes ids visits a new one.
\<close>

partial_function (option) verify_children ::
  "hyper_graph \<Rightarrow> u64 \<Rightarrow> u64 set \<Rightarrow> u64 list \<Rightarrow> bool option" where
  "verify_children g doc visited stack =
     (if stack = [] then Some True
      else let child = last stack; rest = butlast stack in
        if child \<in> visited then verify_children g doc visited rest
        else case get_hyperedge g child of
            None \<Rightarrow> verify_children g doc (insert child visited) rest
          | Some e \<Rightarrow>
              if he_source_doc_id e = Some doc then Some False
              else verify_children g doc (insert child visited)
                     (rest @ filter (\<lambda>c. c \<notin> insert child visited) (he_child_edge_ids e)))"

fun verify_edges :: "hyper_graph \<Rightarrow> u64 \<Rightarrow> hyper_edge list \<Rightarrow> unit res option" where
  "verify_edges g doc [] = Some (Inr ())"
| "verify_edges g doc (e # es) =
     (if he_source_doc_id e = Some doc
      then Some (Inl (InvalidInput ''Active hyperedge directly references deleted DocId''))
      else if he_child_edge_ids e = [] then verify_edges g doc es
      else Option.bind (verify_children g doc {} (he_child_edge_ids e)) (\<lambda>ok.
        if ok then verify_edges g doc es
        else Some (Inl (InvalidInput
          ''Active consolidated hyperedge transitively references deleted DocId''))))"

definition verify_doc_hyperedge_deletion_completeness ::
  "hyper_graph \<Rightarrow> u64 \<Rightarrow> unit res option" where
  "verify_doc_hyperedge_deletion_completeness g doc =
     verify_edges g doc (filter (\<lambda>e. he_tx_valid_to e = None) (map snd (hg_hyperedges g)))"

text \<open>The cascade after its candidates and their closure are known.\<close>

definition cascade_apply ::
  "queue_put option \<Rightarrow> u64 \<Rightarrow> u64 \<Rightarrow> u64 list \<Rightarrow> csr_graph
     \<Rightarrow> (cascade_report res \<times> csr_graph) option" where
  "cascade_apply storage doc wal_seq topo_order c =
     (let (invalidated, g) =
            tombstone_each wal_seq (take MAX_HYPEREDGE_CASCADE_FANOUT topo_order) (cg_inner c);
          deferred = drop MAX_HYPEREDGE_CASCADE_FANOUT topo_order;
          c' = c\<lparr>cg_inner := g\<rparr>;
          report = \<lparr>cr_invalidated = invalidated, cr_deferred = deferred,
                    cr_queued_for_background = length deferred\<rparr>
      in if deferred \<noteq> []
         then case (case storage of Some put \<Rightarrow> persist_deferred put doc deferred | None \<Rightarrow> Inr ()) of
             Inl err \<Rightarrow> Some (Inl err, c')
           | Inr _ \<Rightarrow> Some (Inr report, enqueue_cascade_deferred doc deferred c')
         else Option.bind (verify_doc_hyperedge_deletion_completeness g doc) (\<lambda>r.
           Some (rbind r (\<lambda>_. Inr report), c')))"

definition cascade_invalidate_hyperedges_for_superseded_doc ::
  "queue_put option \<Rightarrow> u64 \<Rightarrow> u64 \<Rightarrow> csr_graph \<Rightarrow> (cascade_report res \<times> csr_graph) option" where
  "cascade_invalidate_hyperedges_for_superseded_doc storage doc wal_seq c =
     (let candidate_ids = hyperedges_for_doc (cg_inner c) doc;
          parents = parent_hyperedges_of (cg_inner c)
      in if candidate_ids = []
         then Some (Inr \<lparr>cr_invalidated = [], cr_deferred = [], cr_queued_for_background = 0\<rparr>, c)
         else Option.bind (upward_closure parents (remdups_adj (sort candidate_ids)))
           (\<lambda>closure_nodes. cascade_apply storage doc wal_seq
              (topological_sort_hyperedge_closure parents closure_nodes) c))"

text \<open>One item of the queue, and the drain of a batch. The outcome of the \<open>delete\<close> of a key is ignored.\<close>

definition process_cascade_item :: "u64 \<Rightarrow> u64 \<Rightarrow> hyper_graph \<Rightarrow> (nat \<times> hyper_graph) option" where
  "process_cascade_item wal_tx hid g =
     map_option (\<lambda>closure_nodes.
         let (ts, g') = tombstone_each wal_tx
               (topological_sort_hyperedge_closure (parent_hyperedges_of g) closure_nodes) g
         in (length ts, g'))
       (upward_closure (parent_hyperedges_of g) [hid])"

definition process_cascade_step ::
  "u64 \<Rightarrow> u64 \<times> u64 \<Rightarrow> nat \<times> hyper_graph \<Rightarrow> (nat \<times> hyper_graph) option" where
  "process_cascade_step wal_tx item st =
     map_option (\<lambda>(k, g'). (fst st + k, g')) (process_cascade_item wal_tx (snd item) (snd st))"

definition process_cascade_queue :: "nat \<Rightarrow> u64 \<Rightarrow> csr_graph \<Rightarrow> (nat \<times> csr_graph) option" where
  "process_cascade_queue batch_size wal_tx c =
     (let n = min batch_size (length (cg_cascade_queue c));
          items = take n (cg_cascade_queue c);
          c' = c\<lparr>cg_cascade_queue := drop n (cg_cascade_queue c)\<rparr>
      in map_option (\<lambda>(tombstoned, g). (tombstoned, c'\<lparr>cg_inner := g\<rparr>))
           (ofold (process_cascade_step wal_tx) items (0, cg_inner c)))"

section \<open>The search returns and finds exactly the ancestors\<close>

definition up :: "(u64 \<Rightarrow> u64 list) \<Rightarrow> (u64 \<times> u64) set" where
  "up parents = {(n, p). p \<in> set (parents n)}"

text \<open>
  The search started with the visited nodes \<open>v\<close> and the stack \<open>s\<close> ends in \<open>v'\<close>, which holds the roots
  \<open>R\<close>, nothing but their ancestors besides \<open>v\<close>, and the parents of every node that is not on the stack.
\<close>

definition searched :: "(u64 \<Rightarrow> u64 list) \<Rightarrow> u64 set \<Rightarrow> u64 set \<Rightarrow> u64 set \<Rightarrow> u64 set \<Rightarrow> bool" where
  "searched parents R s v v' \<longleftrightarrow> v \<subseteq> v' \<and> R \<subseteq> v' \<and> v' \<subseteq> v \<union> (up parents)\<^sup>* `` R
     \<and> (\<forall>x\<in>v' - s. set (parents x) \<subseteq> v')"

definition search_inv :: "(u64 \<Rightarrow> u64 list) \<Rightarrow> u64 set \<Rightarrow> u64 set \<Rightarrow> u64 list \<Rightarrow> bool" where
  "search_inv parents v s c \<longleftrightarrow> s \<subseteq> v \<and> (\<forall>x\<in>v - s. set (parents x) \<subseteq> v) \<and> set c = v \<and> distinct c"

definition search_ok ::
  "(u64 \<Rightarrow> u64 list) \<Rightarrow> u64 set \<Rightarrow> u64 set \<Rightarrow> u64 set \<Rightarrow> dfs_state option \<Rightarrow> bool" where
  "search_ok parents R s v r \<longleftrightarrow>
     (\<exists>v' c'. r = Some (v', s, c') \<and> searched parents R s v v' \<and> search_inv parents v' s c')"

lemma search_inv_D:
  assumes "search_inv parents v s c"
  shows "s \<subseteq> v" "x \<in> v \<Longrightarrow> x \<notin> s \<Longrightarrow> set (parents x) \<subseteq> v" "set c = v" "distinct c"
  using assms unfolding search_inv_def by blast+

lemma searched_self: "search_inv parents v s c \<Longrightarrow> R \<subseteq> v \<Longrightarrow> searched parents R s v v"
  unfolding searched_def search_inv_def by blast

lemma searched_trans:
  assumes "searched parents A s v v1" "searched parents B s v1 v2"
  shows "searched parents (A \<union> B) s v v2"
proof -
  have "v2 \<subseteq> v1 \<union> (up parents)\<^sup>* `` B" "v1 \<subseteq> v \<union> (up parents)\<^sup>* `` A" "v \<subseteq> v1" "v1 \<subseteq> v2"
    "A \<subseteq> v1" "B \<subseteq> v2" "\<forall>x\<in>v2 - s. set (parents x) \<subseteq> v2"
    using assms unfolding searched_def by blast+
  then show ?thesis unfolding searched_def Image_Un by (intro conjI) blast+
qed

text \<open>A list of roots, if the search for each of them is right.\<close>

lemma search_list:
  assumes "\<And>x v c. x \<in> set xs \<Longrightarrow> v0 \<subseteq> v \<Longrightarrow> search_inv parents v s c \<Longrightarrow>
      search_ok parents {x} s v (f x (v, s, c))"
    and "search_inv parents v s c" and "v0 \<subseteq> v"
  shows "search_ok parents (set xs) s v (ofold f xs (v, s, c))"
  using assms
proof (induction xs arbitrary: v c)
  case Nil
  then show ?case by (simp add: search_ok_def searched_self)
next
  case (Cons x xs)
  from Cons.prems(1)[of x v c] Cons.prems(2,3)
  obtain v1 c1 where 1: "f x (v, s, c) = Some (v1, s, c1)" "searched parents {x} s v v1"
    "search_inv parents v1 s c1" by (auto simp: search_ok_def)
  have "v0 \<subseteq> v1" using 1(2) Cons.prems(3) by (auto simp: searched_def)
  with Cons.IH[OF Cons.prems(1) 1(3)] obtain v2 c2 where
    2: "ofold f xs (v1, s, c1) = Some (v2, s, c2)" "searched parents (set xs) s v1 v2"
    "search_inv parents v2 s c2" by (auto simp: search_ok_def)
  show ?case using 1(1) 2 searched_trans[OF 1(2) 2(2)] by (simp add: search_ok_def)
qed

text \<open>Pushing a node on the stack, searching its parents and popping it.\<close>

lemma search_enter:
  assumes "search_inv parents v s c" "n \<notin> v"
  shows "search_inv parents (insert n v) (insert n s) (c @ [n])"
  using assms unfolding search_inv_def by auto

lemma search_leave:
  assumes inv: "search_inv parents v s c" and n: "n \<notin> v"
    and s: "searched parents (set (parents n)) (insert n s) (insert n v) v'"
    and inv': "search_inv parents v' (insert n s) c'"
  shows "searched parents {n} s v v'" "search_inv parents v' s c'"
proof -
  have sub: "insert n v \<subseteq> v'" "set (parents n) \<subseteq> v'"
    and reach: "v' \<subseteq> insert n v \<union> (up parents)\<^sup>* `` set (parents n)"
    and closed: "\<forall>x\<in>v' - insert n s. set (parents x) \<subseteq> v'"
    using s unfolding searched_def by blast+
  have "(up parents)\<^sup>* `` set (parents n) \<subseteq> (up parents)\<^sup>* `` {n}"
    by (auto simp: up_def intro: converse_rtrancl_into_rtrancl)
  moreover have "n \<in> (up parents)\<^sup>* `` {n}" by simp
  ultimately have "v' \<subseteq> v \<union> (up parents)\<^sup>* `` {n}" using reach by blast
  with sub closed show "searched parents {n} s v v'"
    unfolding searched_def by auto
  show "search_inv parents v' s c'"
    using sub closed search_inv_D[OF inv'] search_inv_D(1)[OF inv] unfolding search_inv_def by auto
qed

lemma dfs_upward_ok:
  "search_inv parents v s c \<Longrightarrow> search_ok parents {n} s v (dfs_upward parents n (v, s, c))"
proof (induction "card (- v)" arbitrary: n v s c rule: less_induct)
  case less
  show ?case
  proof (cases "n \<in> v")
    case True
    with less.prems show ?thesis
      by (subst dfs_upward.simps) (simp add: search_ok_def searched_self)
  next
    case False
    let ?f = "\<lambda>parent st. if parent \<in> fst (snd st) then Some st else dfs_upward parents parent st"
    have "search_ok parents (set (parents n)) (insert n s) (insert n v)
        (ofold ?f (parents n) (insert n v, insert n s, c @ [n]))"
    proof (rule search_list[OF _ search_enter[OF less.prems False] order_refl])
      fix x v1 c1
      assume sub: "insert n v \<subseteq> v1" and inv: "search_inv parents v1 (insert n s) c1"
      have "card (- v1) < card (- v)" using sub False by (intro psubset_card_mono) auto
      from less.hyps[OF this inv]
      show "search_ok parents {x} (insert n s) v1 (?f x (v1, insert n s, c1))"
        using inv search_inv_D(1)[OF inv] by (auto simp: search_ok_def searched_self)
    qed
    then obtain v' c' where r: "ofold ?f (parents n) (insert n v, insert n s, c @ [n])
        = Some (v', insert n s, c')"
      and post: "searched parents (set (parents n)) (insert n s) (insert n v) v'"
        "search_inv parents v' (insert n s) c'" by (auto simp: search_ok_def)
    have "insert n s - {n} = s" using False search_inv_D(1)[OF less.prems] by auto
    with r False search_leave[OF less.prems False post] show ?thesis
      by (subst dfs_upward.simps) (simp add: search_ok_def)
  qed
qed

lemma upward_closure_exact:
  "\<exists>c. upward_closure parents ids = Some c \<and> distinct c \<and> set c = (up parents)\<^sup>* `` set ids"
proof -
  have "search_ok parents (set ids) {} {} (ofold (dfs_upward parents) ids ({}, {}, []))"
    by (rule search_list[OF dfs_upward_ok, of _ "{}"]) (simp_all add: search_inv_def)
  then obtain v c where r: "ofold (dfs_upward parents) ids ({}, {}, []) = Some (v, {}, c)"
    and s: "searched parents (set ids) {} {} v" and i: "search_inv parents v {} c"
    by (auto simp: search_ok_def)
  have "y \<in> v" if "(x, y) \<in> (up parents)\<^sup>*" "x \<in> v" for x y
    using that by (induction) (use search_inv_D(2)[OF i] in \<open>auto simp: up_def\<close>)
  then have "v = (up parents)\<^sup>* `` set ids" using s unfolding searched_def by blast
  with r search_inv_D(3,4)[OF i] show ?thesis by (simp add: upward_closure_def)
qed

section \<open>The sort lists parents first\<close>

definition parents_first :: "(u64 \<Rightarrow> u64 list) \<Rightarrow> u64 set \<Rightarrow> u64 list \<Rightarrow> bool" where
  "parents_first parents N order \<longleftrightarrow>
     (\<forall>xs n ys. order = xs @ n # ys \<longrightarrow> set (parents n) \<inter> N \<subseteq> set xs)"

lemma parents_first_Nil [simp]: "parents_first parents N []"
  by (simp add: parents_first_def)

lemma parents_first_snoc:
  "parents_first parents N (order @ [n])
   \<longleftrightarrow> parents_first parents N order \<and> set (parents n) \<inter> N \<subseteq> set order"
proof -
  have "order @ [n] = xs @ m # ys \<longleftrightarrow> (ys = [] \<and> xs = order \<and> m = n)
      \<or> (\<exists>zs. ys = zs @ [n] \<and> order = xs @ m # zs)" for xs m ys
    by (cases ys rule: rev_cases) auto
  then show ?thesis unfolding parents_first_def by (simp only:) blast
qed

lemma append_node_fold:
  "distinct ps \<Longrightarrow> fold (\<lambda>p ch. ch(p := ch p @ [n])) ps ch
     = (\<lambda>p. if p \<in> set ps then ch p @ [n] else ch p)"
  by (induction ps arbitrary: ch) (auto simp: fun_eq_iff)

lemma release_children:
  assumes "distinct cs" "\<And>c. c \<in> set cs \<Longrightarrow> \<exists>d. ind c = Some (Suc d)"
  shows "fold release_child cs (ind, ready)
    = (\<lambda>n. if n \<in> set cs then map_option (\<lambda>d. d - 1) (ind n) else ind n,
       ready @ filter (\<lambda>c. ind c = Some 1) cs)"
  using assms
proof (induction cs arbitrary: ind ready)
  case (Cons c cs)
  obtain d where d: "ind c = Some (Suc d)" using Cons.prems(2)[of c] by auto
  have step: "release_child c (ind, ready)
      = (ind(c \<mapsto> d), ready @ filter (\<lambda>c. ind c = Some 1) [c])"
    by (simp add: release_child_def d)
  have "filter (\<lambda>x. (ind(c \<mapsto> d)) x = Some 1) cs = filter (\<lambda>x. ind x = Some 1) cs"
    using Cons.prems(1) by (auto intro: filter_cong)
  moreover have "fold release_child cs (ind(c \<mapsto> d), r)
      = (\<lambda>x. if x \<in> set cs then map_option (\<lambda>d. d - 1) ((ind(c \<mapsto> d)) x) else (ind(c \<mapsto> d)) x,
         r @ filter (\<lambda>x. (ind(c \<mapsto> d)) x = Some 1) cs)" for r
    using Cons.prems by (intro Cons.IH) auto
  moreover have "(\<lambda>x. if x \<in> set cs then map_option (\<lambda>d. d - 1) ((ind(c \<mapsto> d)) x) else (ind(c \<mapsto> d)) x)
      = (\<lambda>x. if x \<in> set (c # cs) then map_option (\<lambda>d. d - 1) (ind x) else ind x)"
    using Cons.prems(1) d by (auto simp: fun_eq_iff)
  ultimately show ?case
    by (simp only: fold_simps step) simp
qed simp

locale parent_links =
  fixes parents :: "u64 \<Rightarrow> u64 list"
  assumes distinct_parents: "distinct (parents n)"
begin

definition unplaced :: "u64 set \<Rightarrow> u64 list \<Rightarrow> u64 \<Rightarrow> u64 set" where
  "unplaced N order n = {p \<in> set (parents n) \<inter> N. p \<notin> set order}"

definition kids_of :: "u64 set \<Rightarrow> u64 \<Rightarrow> u64 list" where
  "kids_of N p = filter (\<lambda>n. p \<in> set (parents n)) (sorted_list_of_set N)"

definition degrees_of :: "u64 set \<Rightarrow> u64 list \<Rightarrow> degrees" where
  "degrees_of N order n = (if n \<in> N then Some (card (unplaced N order n)) else None)"

definition kahn_inv :: "u64 set \<Rightarrow> degrees \<Rightarrow> u64 list \<Rightarrow> u64 list \<Rightarrow> bool" where
  "kahn_inv N ind ready order \<longleftrightarrow> distinct (order @ ready) \<and> ind = degrees_of N order
     \<and> set order \<union> set ready = {n. ind n = Some 0} \<and> parents_first parents N order"

lemma degree_fold:
  assumes "distinct ns"
  shows "fold (degree_step parents N) ns (\<lambda>_. None, \<lambda>_. [])
    = (\<lambda>n. if n \<in> set ns then Some (card (unplaced N [] n)) else None,
       \<lambda>p. if p \<in> N then filter (\<lambda>n. p \<in> set (parents n)) ns else [])"
  using assms
proof (induction ns rule: rev_induct)
  case (snoc n ns)
  have "length (filter (\<lambda>p. p \<in> N) (parents n)) = card (unplaced N [] n)"
    using distinct_card[of "filter (\<lambda>p. p \<in> N) (parents n)"] distinct_parents[of n]
    by (simp add: unplaced_def Int_def conj_commute)
  with snoc show ?case
    by (auto simp: degree_step_def append_node_fold distinct_parents fun_eq_iff)
qed (simp add: fun_eq_iff)

lemma unplaced_snoc: "unplaced N (order @ [p]) n = unplaced N order n - {p}"
  by (auto simp: unplaced_def)

lemma kahn_step:
  assumes inv: "kahn_inv N ind ready order" and node: "node \<in> set ready"
  shows "kahn_inv N (fst (fold release_child (kids_of N node) (ind, remove1 node ready)))
           (snd (fold release_child (kids_of N node) (ind, remove1 node ready)))
           (order @ [node])"
proof -
  let ?cs = "kids_of N node"
  have d: "distinct (order @ ready)" and ind: "ind = degrees_of N order"
    and zero: "set order \<union> set ready = {n. ind n = Some 0}" and pf: "parents_first parents N order"
    using inv unfolding kahn_inv_def by blast+
  have N: "node \<in> N" and free: "unplaced N order node = {}" and new: "node \<notin> set order"
    using node zero d by (auto simp: ind degrees_of_def split: if_splits)
  have cs: "n \<in> set ?cs \<longleftrightarrow> n \<in> N \<and> node \<in> unplaced N order n" for n
    using N new by (auto simp: kids_of_def unplaced_def)
  have pos: "card (unplaced N order n) \<noteq> 0" if "n \<in> set ?cs" for n
    using that cs[of n] by auto
  have rel: "fold release_child ?cs (ind, remove1 node ready)
      = (degrees_of N (order @ [node]), remove1 node ready @ filter (\<lambda>c. ind c = Some 1) ?cs)"
  proof (subst release_children)
    show "distinct ?cs" by (simp add: kids_of_def)
    show "\<exists>d. ind c = Some (Suc d)" if "c \<in> set ?cs" for c
      using not0_implies_Suc[OF pos[OF that]] cs[of c] that by (simp add: ind degrees_of_def)
    show "(\<lambda>n. if n \<in> set ?cs then map_option (\<lambda>d. d - 1) (ind n) else ind n,
        remove1 node ready @ filter (\<lambda>c. ind c = Some 1) ?cs)
      = (degrees_of N (order @ [node]), remove1 node ready @ filter (\<lambda>c. ind c = Some 1) ?cs)"
      by (auto simp: fun_eq_iff ind degrees_of_def cs unplaced_snoc)
  qed
  have "degrees_of N (order @ [node]) n = Some 0
      \<longleftrightarrow> ind n = Some 0 \<or> n \<in> set (filter (\<lambda>c. ind c = Some 1) ?cs)" for n
  proof (cases "n \<in> set ?cs")
    case True
    then have "degrees_of N (order @ [node]) n = Some (card (unplaced N order n) - 1)"
      "ind n = Some (card (unplaced N order n))"
      by (simp_all add: cs degrees_of_def unplaced_snoc ind)
    with not0_implies_Suc[OF pos[OF True]] True show ?thesis by auto
  next
    case False
    then show ?thesis by (auto simp: cs degrees_of_def unplaced_snoc ind)
  qed
  then have zero': "{n. degrees_of N (order @ [node]) n = Some 0}
      = {n. ind n = Some 0} \<union> set (filter (\<lambda>c. ind c = Some 1) ?cs)" by blast
  have "set (order @ [node]) \<union> set (remove1 node ready) = set order \<union> set ready"
    using node d by (auto simp: set_remove1_eq)
  then have "set (order @ [node]) \<union> set (remove1 node ready @ filter (\<lambda>c. ind c = Some 1) ?cs)
      = {n. degrees_of N (order @ [node]) n = Some 0}"
    unfolding zero' zero[symmetric] set_append by blast
  moreover have "distinct ((order @ [node]) @ remove1 node ready @ filter (\<lambda>c. ind c = Some 1) ?cs)"
  proof -
    have "set (filter (\<lambda>c. ind c = Some 1) ?cs) \<inter> (set order \<union> set ready) = {}"
      unfolding zero by auto
    then show ?thesis using d node by (auto simp: kids_of_def set_remove1_eq)
  qed
  moreover have "parents_first parents N (order @ [node])"
    using free pf by (auto simp: parents_first_snoc unplaced_def)
  ultimately show ?thesis unfolding rel kahn_inv_def fst_conv snd_conv by blast
qed

lemma kahn_loop_inv:
  assumes "kahn_inv N ind ready order" "\<And>p. p \<in> N \<Longrightarrow> ch p = kids_of N p"
  shows "\<exists>ind'. kahn_inv N ind' [] (kahn_loop ch ind ready order)"
  using assms
proof (induction ch ind ready order rule: kahn_loop.induct)
  case (1 ch ind ready order)
  show ?case
  proof (cases "ready = []")
    case True
    with 1 show ?thesis by (auto simp: kahn_loop.simps)
  next
    case False
    let ?n = "Min (set ready)"
    have n: "?n \<in> set ready" using False by simp
    have "?n \<in> N" using 1(2) n by (auto simp: kahn_inv_def degrees_of_def split: if_splits)
    then have ch: "ch ?n = kids_of N ?n" by (rule 1(3))
    show ?thesis
      using 1(1)[OF False refl refl] kahn_step[OF 1(2) n] 1(3)
      by (subst kahn_loop.simps) (simp add: False Let_def ch)
  qed
qed

lemma kahn_complete:
  assumes inv: "kahn_inv N ind [] order" and acyclic: "acyclic (up parents \<inter> N \<times> N)"
  shows "set order = N"
proof (rule ccontr)
  assume "set order \<noteq> N"
  moreover have sub: "set order \<subseteq> N"
    using inv by (auto simp: kahn_inv_def degrees_of_def split: if_splits)
  ultimately obtain m where "m \<in> N - set order" by blast
  moreover have "wf ((up parents \<inter> N \<times> N)\<inverse>)"
    by (rule finite_acyclic_wf_converse[OF _ acyclic])
      (rule finite_subset[OF Int_lower2], simp)
  ultimately obtain n where n: "n \<in> N - set order"
    and least: "\<And>p. (p, n) \<in> (up parents \<inter> N \<times> N)\<inverse> \<Longrightarrow> p \<notin> N - set order"
    using wfE_min by metis
  have "unplaced N order n = {}" using least n by (auto simp: unplaced_def up_def)
  then show False using inv n by (auto simp: kahn_inv_def degrees_of_def)
qed

text \<open>
  The result is a permutation of the nodes that starts with an order in which parents come first, and
  this is all of it if no node is its own ancestor.
\<close>

lemma topological_sort:
  fixes nodes :: "u64 list"
  defines "r \<equiv> topological_sort_hyperedge_closure parents nodes"
  shows "distinct r" "set r = set nodes"
    and "acyclic (up parents \<inter> set nodes \<times> set nodes) \<Longrightarrow> parents_first parents (set nodes) r"
proof -
  let ?N = "set nodes" and ?ns = "sorted_list_of_set (set nodes)"
  let ?ind = "degrees_of ?N []"
  let ?ch = "\<lambda>p. if p \<in> ?N then kids_of ?N p else []"
  let ?ready = "filter (\<lambda>n. ?ind n = Some 0) ?ns"
  let ?order = "kahn_loop ?ch ?ind ?ready []"
  have fold: "fold (degree_step parents ?N) ?ns (\<lambda>_. None, \<lambda>_. []) = (?ind, ?ch)"
    by (subst degree_fold) (auto simp: degrees_of_def kids_of_def fun_eq_iff)
  have "set ?ready = {n. ?ind n = Some 0}" by (auto simp: degrees_of_def split: if_splits)
  then have "kahn_inv ?N ?ind ?ready []" unfolding kahn_inv_def by simp
  then obtain ind' where inv: "kahn_inv ?N ind' [] ?order" using kahn_loop_inv[of ?N ?ind ?ready "[]" ?ch] by auto
  have d: "distinct ?order" and sub: "set ?order \<subseteq> ?N" and pf: "parents_first parents ?N ?order"
    using inv by (auto simp: kahn_inv_def degrees_of_def split: if_splits)
  have r: "r = ?order @ filter (\<lambda>n. n \<notin> set ?order) ?ns"
  proof (cases "length ?order < card ?N")
    case True
    then have "nodes \<noteq> []" by auto
    with True show ?thesis unfolding r_def topological_sort_hyperedge_closure_def
      by (simp add: fold Let_def)
  next
    case False
    have "set ?order = ?N"
      using False sub card_seteq[of ?N "set ?order"] distinct_card[OF d] by simp
    then have "filter (\<lambda>n. n \<notin> set ?order) ?ns = []" by simp
    moreover have "nodes = [] \<Longrightarrow> ?order = []" using sub by simp
    ultimately show ?thesis using False unfolding r_def topological_sort_hyperedge_closure_def
      by (simp add: fold Let_def)
  qed
  show "distinct r" "set r = set nodes" unfolding r using d sub by auto
  show "parents_first parents (set nodes) r" if "acyclic (up parents \<inter> set nodes \<times> set nodes)"
    unfolding r using kahn_complete[OF inv that] pf by simp
qed

end

interpretation hyper_links: parent_links "parent_hyperedges_of g" for g
  by unfold_locales (rule parents_distinct)

section \<open>The check for remaining references\<close>

definition referenced :: "hyper_graph \<Rightarrow> u64 \<Rightarrow> bool" where
  "referenced g doc \<longleftrightarrow> (\<exists>i e. get_hyperedge g i = Some e \<and> he_source_doc_id e = Some doc)"

lemma verify_children_total:
  "\<exists>ok. verify_children g doc v stack = Some ok \<and> (\<not> ok \<longrightarrow> referenced g doc)"
proof (induction "card (- v)" arbitrary: v stack rule: less_induct)
  case less
  show ?case
  proof (induction stack rule: rev_induct)
    case Nil
    show ?case by (rule exI[of _ True], subst verify_children.simps) simp
  next
    case (snoc child rest)
    show ?case
    proof (cases "child \<in> v")
      case True
      with snoc show ?thesis by (subst verify_children.simps) (simp add: Let_def)
    next
      case False
      have "card (- insert child v) < card (- v)" using False by (intro psubset_card_mono) auto
      note next_stack = less.hyps[OF this]
      show ?thesis
      proof (cases "get_hyperedge g child")
        case None
        with False next_stack[of rest] show ?thesis
          by (subst verify_children.simps) (simp add: Let_def)
      next
        case (Some e)
        show ?thesis
        proof (cases "he_source_doc_id e = Some doc")
          case True
          with Some have "referenced g doc" by (auto simp: referenced_def)
          with True False Some show ?thesis
            by (intro exI[of _ False], subst verify_children.simps) (simp add: Let_def)
        next
          case no_ref: False
          with False Some next_stack show ?thesis
            by (subst verify_children.simps) (simp add: Let_def)
        qed
      qed
    qed
  qed
qed

lemma verify_edges_total:
  assumes "\<And>e. e \<in> set es \<Longrightarrow> he_source_doc_id e = Some doc \<Longrightarrow> referenced g doc"
  shows "\<exists>r. verify_edges g doc es = Some r \<and>
     (if \<exists>e\<in>set es. he_source_doc_id e = Some doc then r \<noteq> Inr ()
      else (r \<noteq> Inr () \<longrightarrow> referenced g doc))"
  using assms
proof (induction es)
  case (Cons e es)
  then obtain r where IH: "verify_edges g doc es = Some r"
    "if \<exists>e\<in>set es. he_source_doc_id e = Some doc then r \<noteq> Inr ()
      else (r \<noteq> Inr () \<longrightarrow> referenced g doc)" by auto
  obtain ok where "verify_children g doc {} (he_child_edge_ids e) = Some ok"
    "\<not> ok \<longrightarrow> referenced g doc" using verify_children_total by blast
  with IH Cons.prems show ?case by auto
qed simp

lemma verify_completeness_exact:
  assumes "hg_wf g"
  shows "\<exists>r. verify_doc_hyperedge_deletion_completeness g doc = Some r
           \<and> (r = Inr () \<longleftrightarrow> \<not> referenced g doc)"
proof -
  let ?es = "filter (\<lambda>e. he_tx_valid_to e = None) (map snd (hg_hyperedges g))"
  have mem: "e \<in> set ?es \<longleftrightarrow> (\<exists>i. get_hyperedge g i = Some e)" for e
  proof -
    have "e \<in> set ?es \<longleftrightarrow> (\<exists>i. (i, e) \<in> set (hg_hyperedges g)) \<and> he_tx_valid_to e = None"
      by (force simp: image_iff)
    also have "\<dots> \<longleftrightarrow> (\<exists>i. map_of (hg_hyperedges g) i = Some e \<and> he_tx_valid_to e = None)"
      by (simp add: map_of_eq_Some_iff[OF hg_wfD(5)[OF assms]])
    also have "\<dots> \<longleftrightarrow> (\<exists>i. get_hyperedge g i = Some e)"
      by (auto simp: get_hyperedge_def split: option.splits if_splits)
    finally show ?thesis .
  qed
  then have ref: "referenced g doc \<longleftrightarrow> (\<exists>e\<in>set ?es. he_source_doc_id e = Some doc)"
    unfolding referenced_def by blast
  obtain r where "verify_edges g doc ?es = Some r"
    "if referenced g doc then r \<noteq> Inr () else (r \<noteq> Inr () \<longrightarrow> referenced g doc)"
    using verify_edges_total[of ?es doc g, folded ref] ref by blast
  then show ?thesis unfolding verify_doc_hyperedge_deletion_completeness_def
    by (cases "referenced g doc") simp_all
qed

section \<open>Effect of the cascade\<close>

definition without :: "u64 set \<Rightarrow> (u64 \<Rightarrow> hyper_edge option) \<Rightarrow> u64 \<Rightarrow> hyper_edge option" where
  "without D m i = (if i \<in> D then None else m i)"

definition ancestors :: "hyper_graph \<Rightarrow> u64 set \<Rightarrow> u64 set" where
  "ancestors g A = (up (parent_hyperedges_of g))\<^sup>* `` A"

lemma tombstone_each_effect:
  assumes "hg_wf g" "distinct ids" "\<And>i. i \<in> set ids \<Longrightarrow> he_live g i"
  shows "\<exists>g'. tombstone_each tx ids g = (ids, g') \<and> hg_wf g' \<and> live_edges g' = without (set ids) (live_edges g)"
  using assms(3) tombstone_all[OF assms(1)] filter_True[of ids "he_live g"]
  by (simp add: tombstone_each_conv[OF assms(2)] without_def fun_eq_iff)

lemma ancestors_live:
  assumes "i \<in> ancestors g A" "\<And>k. k \<in> A \<Longrightarrow> he_live g k"
  shows "he_live g i"
proof -
  from assms(1) obtain k where "k \<in> A" "(k, i) \<in> (up (parent_hyperedges_of g))\<^sup>*"
    by (auto simp: ancestors_def)
  from this(2,1) assms(2) show ?thesis
    by (cases rule: rtranclE) (auto simp: up_def parents_live)
qed

text \<open>The order in which the cascade tombstones or defers the ancestors of a set of edges.\<close>

lemma closure_order:
  obtains c where "upward_closure (parent_hyperedges_of g) ids = Some c"
    and "distinct (topological_sort_hyperedge_closure (parent_hyperedges_of g) c)"
    and "set (topological_sort_hyperedge_closure (parent_hyperedges_of g) c) = ancestors g (set ids)"
    and "acyclic (up (parent_hyperedges_of g)) \<Longrightarrow>
      parents_first (parent_hyperedges_of g) (ancestors g (set ids))
        (topological_sort_hyperedge_closure (parent_hyperedges_of g) c)"
proof -
  obtain c where c: "upward_closure (parent_hyperedges_of g) ids = Some c"
      "set c = ancestors g (set ids)"
    using upward_closure_exact[of "parent_hyperedges_of g" ids] by (auto simp: ancestors_def)
  note sort = hyper_links.topological_sort[of g c, unfolded c(2)]
  show ?thesis by (rule that[OF c(1) sort(1,2)]) (rule sort(3)[OF acyclic_subset[OF _ Int_lower1]])
qed

definition fanout :: "u64 list \<Rightarrow> u64 list" where
  "fanout order = take MAX_HYPEREDGE_CASCADE_FANOUT order"

definition excess :: "u64 list \<Rightarrow> u64 list" where
  "excess order = drop MAX_HYPEREDGE_CASCADE_FANOUT order"

definition report_of :: "u64 list \<Rightarrow> cascade_report" where
  "report_of order = \<lparr>cr_invalidated = fanout order, cr_deferred = excess order,
     cr_queued_for_background = length (excess order)\<rparr>"

definition persisted :: "queue_put option \<Rightarrow> u64 \<Rightarrow> u64 list \<Rightarrow> unit res" where
  "persisted storage doc ids =
     (case storage of Some put \<Rightarrow> persist_deferred put doc ids | None \<Rightarrow> Inr ())"

lemma fanout_excess: "fanout order @ excess order = order"
  by (simp add: fanout_def excess_def)

lemma candidates:
  assumes "hg_wf g"
  shows "set (hyperedges_for_doc g doc)
         = {i. \<exists>e. get_hyperedge g i = Some e \<and> he_source_doc_id e = Some doc}"
  unfolding lookups_indexed[OF assms] get_hyperedge_live
  by (auto simp: indexed_def doc_keys_def split: option.splits)

text \<open>What the cascade does, with the order it chooses.\<close>

lemma cascade_effect:
  fixes doc :: u64 and c :: csr_graph
  assumes wf: "hg_wf (cg_inner c)"
  defines "anc \<equiv> ancestors (cg_inner c) (set (hyperedges_for_doc (cg_inner c) doc))"
  shows "\<exists>order g. distinct order \<and> set order = anc
    \<and> (acyclic (up (parent_hyperedges_of (cg_inner c))) \<longrightarrow>
         parents_first (parent_hyperedges_of (cg_inner c)) anc order)
    \<and> hg_wf g \<and> live_edges g = without (set (fanout order)) (live_edges (cg_inner c))
    \<and> cascade_invalidate_hyperedges_for_superseded_doc storage doc seq c
      = Some (case if excess order = [] then Inr () else persisted storage doc (excess order) of
          Inl err \<Rightarrow> (Inl err, c\<lparr>cg_inner := g\<rparr>)
        | Inr _ \<Rightarrow> (Inr (report_of order),
            enqueue_cascade_deferred doc (excess order) (c\<lparr>cg_inner := g\<rparr>)))"
proof (cases "hyperedges_for_doc (cg_inner c) doc = []")
  case True
  then have "anc = {}" by (simp add: anc_def ancestors_def)
  then show ?thesis using True wf
    by (intro exI[of _ "[]"] exI[of _ "cg_inner c"])
      (simp add: cascade_invalidate_hyperedges_for_superseded_doc_def without_def fanout_def
        excess_def report_of_def enqueue_cascade_deferred_def fun_eq_iff)
next
  case False
  let ?g = "cg_inner c" and ?ids = "remdups_adj (sort (hyperedges_for_doc (cg_inner c) doc))"
  have ids: "set ?ids = set (hyperedges_for_doc ?g doc)" by simp
  obtain cl where cl: "upward_closure (parent_hyperedges_of ?g) ?ids = Some cl"
    and d: "distinct (topological_sort_hyperedge_closure (parent_hyperedges_of ?g) cl)"
    and s: "set (topological_sort_hyperedge_closure (parent_hyperedges_of ?g) cl) = anc"
    and pf: "acyclic (up (parent_hyperedges_of ?g)) \<Longrightarrow> parents_first (parent_hyperedges_of ?g) anc
        (topological_sort_hyperedge_closure (parent_hyperedges_of ?g) cl)"
    using closure_order[of ?g ?ids] unfolding ids anc_def[symmetric] by blast
  define order where "order = topological_sort_hyperedge_closure (parent_hyperedges_of ?g) cl"
  have live: "he_live ?g i" if "i \<in> anc" for i
    using that unfolding anc_def by (rule ancestors_live) (simp add: hyperedges_for_doc_def)
  have sub: "set (fanout order) \<subseteq> anc"
    unfolding s[symmetric] order_def[symmetric] fanout_def by (rule set_take_subset)
  obtain g where g: "tombstone_each seq (fanout order) ?g = (fanout order, g)" "hg_wf g"
    "live_edges g = without (set (fanout order)) (live_edges ?g)"
    using tombstone_each_effect[OF wf, of "fanout order" seq] live sub d
    by (auto simp: fanout_def order_def)
  have applied: "cascade_apply storage doc seq order c
      = Some (case if excess order = [] then Inr () else persisted storage doc (excess order) of
          Inl err \<Rightarrow> (Inl err, c\<lparr>cg_inner := g\<rparr>)
        | Inr _ \<Rightarrow> (Inr (report_of order),
            enqueue_cascade_deferred doc (excess order) (c\<lparr>cg_inner := g\<rparr>)))"
  proof (cases "excess order = []")
    case True
    have "set (fanout order) = anc" using fanout_excess[of order] s True by (simp add: order_def)
    moreover have "set (hyperedges_for_doc ?g doc) \<subseteq> anc" by (auto simp: anc_def ancestors_def)
    ultimately have no_ref: "\<not> referenced g doc"
      unfolding referenced_def get_hyperedge_live g(3) candidates[OF wf] without_def
      by (auto simp: get_hyperedge_live)
    have "verify_doc_hyperedge_deletion_completeness g doc = Some (Inr ())"
      using verify_completeness_exact[OF g(2), of doc] no_ref by blast
    then show ?thesis using True
      unfolding cascade_apply_def fanout_def[symmetric] excess_def[symmetric] g(1) Let_def
      by (simp add: report_of_def enqueue_cascade_deferred_def)
  next
    case False
    then show ?thesis
      unfolding cascade_apply_def fanout_def[symmetric] excess_def[symmetric] g(1) Let_def
      by (simp add: report_of_def persisted_def split: sum.split option.split)
  qed
  have run: "cascade_invalidate_hyperedges_for_superseded_doc storage doc seq c
      = cascade_apply storage doc seq order c"
    using False by (simp add: cascade_invalidate_hyperedges_for_superseded_doc_def Let_def cl order_def)
  show ?thesis
    by (rule exI[of _ order], rule exI[of _ g], intro conjI impI)
      (rule d[folded order_def] s[folded order_def] pf[folded order_def] g(2,3) trans[OF run applied],
        assumption?)+
qed

section \<open>Effect of draining the queue\<close>

lemma up_live:
  assumes "hg_wf g"
  shows "up (parent_hyperedges_of g)
         = {(n, p). \<exists>e. live_edges g p = Some e \<and> n \<in> set (he_child_edge_ids e)}"
  by (auto simp: up_def lookups_indexed[OF assms] indexed_def)

lemma ancestors_self: "A \<subseteq> ancestors g A"
  by (auto simp: ancestors_def)

lemma ancestors_mono: "A \<subseteq> B \<Longrightarrow> ancestors g A \<subseteq> ancestors g B"
  by (auto simp: ancestors_def)

lemma ancestors_Un: "ancestors g (A \<union> B) = ancestors g A \<union> ancestors g B"
  by (auto simp: ancestors_def)

lemma ancestors_closed: "x \<in> ancestors g A \<Longrightarrow> (x, y) \<in> up (parent_hyperedges_of g) \<Longrightarrow> y \<in> ancestors g A"
  by (auto simp: ancestors_def intro: rtrancl_into_rtrancl)

text \<open>After a set that is closed upwards is gone, the rest has the ancestors it had besides that set.\<close>

lemma ancestors_without:
  assumes "hg_wf g" "hg_wf g'" and live: "live_edges g' = without D (live_edges g)"
  shows "ancestors g' A \<subseteq> ancestors g A"
    and "(\<And>x y. x \<in> D \<Longrightarrow> (x, y) \<in> up (parent_hyperedges_of g) \<Longrightarrow> y \<in> D) \<Longrightarrow>
       ancestors g A \<subseteq> ancestors g' A \<union> D"
proof -
  let ?up = "up (parent_hyperedges_of g)" and ?up' = "up (parent_hyperedges_of g')"
  have up': "(x, y) \<in> ?up' \<longleftrightarrow> (x, y) \<in> ?up \<and> y \<notin> D" for x y
    by (auto simp: up_live[OF assms(1)] up_live[OF assms(2)] live without_def)
  then have "?up' \<subseteq> ?up" by auto
  from rtrancl_mono[OF this] show "ancestors g' A \<subseteq> ancestors g A"
    by (auto simp: ancestors_def)
  assume closed: "\<And>x y. x \<in> D \<Longrightarrow> (x, y) \<in> ?up \<Longrightarrow> y \<in> D"
  have "y \<in> ancestors g' A \<union> D" if "(x, y) \<in> ?up\<^sup>*" "x \<in> A" for x y
    using that
  proof (induction)
    case base
    then show ?case using ancestors_self[of A g'] by auto
  next
    case (step y z)
    then have "y \<in> ancestors g' A \<union> D" by simp
    then show ?case using step.hyps(2) closed up'[of y z] ancestors_closed[of y g' A z] by blast
  qed
  then show "ancestors g A \<subseteq> ancestors g' A \<union> D" by (auto simp: ancestors_def)
qed

lemma process_item_effect:
  assumes wf: "hg_wf g"
  shows "\<exists>k g'. process_cascade_item tx hid g = Some (k, g') \<and> hg_wf g'
     \<and> live_edges g' = without (ancestors g {hid}) (live_edges g)
     \<and> k + card (dom (live_edges g')) = card (dom (live_edges g))"
proof -
  obtain c where c: "upward_closure (parent_hyperedges_of g) [hid] = Some c"
    and d: "distinct (topological_sort_hyperedge_closure (parent_hyperedges_of g) c)"
    and s: "set (topological_sort_hyperedge_closure (parent_hyperedges_of g) c) = ancestors g {hid}"
    using closure_order[of g "[hid]"] by auto
  let ?o = "topological_sort_hyperedge_closure (parent_hyperedges_of g) c"
  let ?g = "fold (\<lambda>i g. snd (tombstone_hyperedge i tx g)) ?o g"
  have live: "live_edges ?g = without (ancestors g {hid}) (live_edges g)"
    unfolding tombstone_all(2)[OF wf] s without_def ..
  have "length (filter (he_live g) ?o) = card (dom (live_edges g) \<inter> ancestors g {hid})"
    using distinct_card[of "filter (he_live g) ?o"] d s
    by (simp add: he_live_iff dom_def Int_def conj_commute)
  moreover have "dom (live_edges ?g) = dom (live_edges g) - ancestors g {hid}"
    by (auto simp: live without_def split: if_splits)
  ultimately have "length (filter (he_live g) ?o) + card (dom (live_edges ?g)) = card (dom (live_edges g))"
    using card_Int_Diff[of "dom (live_edges g)" "ancestors g {hid}"] by simp
  with live tombstone_all(1)[OF wf] show ?thesis
    by (simp add: process_cascade_item_def c tombstone_each_conv[OF d])
qed

lemma process_items_effect:
  assumes "hg_wf g"
  shows "\<exists>n g'. ofold (process_cascade_step tx) items (m, g)
      = Some (m + n, g') \<and> hg_wf g'
     \<and> live_edges g' = without (ancestors g (snd ` set items)) (live_edges g)
     \<and> n + card (dom (live_edges g')) = card (dom (live_edges g))"
  using assms
proof (induction items arbitrary: m g)
  case Nil
  then show ?case by (simp add: ancestors_def without_def fun_eq_iff)
next
  case (Cons item items)
  let ?h = "snd item" and ?H = "snd ` set items"
  obtain k g1 where 1: "process_cascade_item tx ?h g = Some (k, g1)" "hg_wf g1"
    "live_edges g1 = without (ancestors g {?h}) (live_edges g)"
    "k + card (dom (live_edges g1)) = card (dom (live_edges g))"
    using process_item_effect[OF Cons.prems] by blast
  from Cons.IH[OF 1(2), of "m + k"] obtain n g2 where
    2: "ofold (process_cascade_step tx) items (m + k, g1)
      = Some (m + k + n, g2)" "hg_wf g2" "live_edges g2 = without (ancestors g1 ?H) (live_edges g1)"
    "n + card (dom (live_edges g2)) = card (dom (live_edges g1))" by blast
  have "ancestors g ?H \<subseteq> ancestors g1 ?H \<union> ancestors g {?h}"
    by (rule ancestors_without(2)[OF Cons.prems 1(2,3)]) (rule ancestors_closed)
  then have "ancestors g1 ?H \<union> ancestors g {?h} = ancestors g ?H \<union> ancestors g {?h}"
    using ancestors_without(1)[OF Cons.prems 1(2,3), where A = ?H] by blast
  then have "ancestors g (snd ` set (item # items)) = ancestors g1 ?H \<union> ancestors g {?h}"
    using ancestors_Un[of g "{?h}" ?H] by auto
  then have "live_edges g2 = without (ancestors g (snd ` set (item # items))) (live_edges g)"
    by (auto simp: 2(3) 1(3) without_def fun_eq_iff)
  moreover have "process_cascade_step tx item (m, g) = Some (m + k, g1)"
    by (simp add: process_cascade_step_def 1(1))
  ultimately show ?case using 1(4) 2(1,2,4)
    by (intro exI[of _ "k + n"] exI[of _ g2]) (simp add: add.assoc)
qed

lemma process_queue_effect:
  assumes "hg_wf (cg_inner c)" "batch \<ge> length (cg_cascade_queue c)"
  shows "\<exists>n g'. process_cascade_queue batch tx c = Some (n, c\<lparr>cg_cascade_queue := [], cg_inner := g'\<rparr>)
     \<and> hg_wf g'
     \<and> live_edges g' = without (ancestors (cg_inner c) (snd ` set (cg_cascade_queue c))) (live_edges (cg_inner c))
     \<and> n + card (dom (live_edges g')) = card (dom (live_edges (cg_inner c)))"
  using process_items_effect[OF assms(1), of tx "cg_cascade_queue c" 0] assms(2)
  by (auto simp: process_cascade_queue_def Let_def min_absorb2)

section \<open>Properties\<close>

text \<open>
  A cascade of at most 1000 edges returns and succeeds: the edges it reports are exactly the
  document's live edges and all their live ancestors, each once, and they are the only ones that are
  gone afterwards; nothing is deferred, and the check for remaining references passes.
\<close>

theorem cascade_removes_ancestors:
  assumes "hg_reach (cg_inner c)"
    and "anc = ancestors (cg_inner c) (set (hyperedges_for_doc (cg_inner c) doc))"
    and "card anc \<le> 1000"
  shows "\<exists>ids g. cascade_invalidate_hyperedges_for_superseded_doc storage doc seq c
       = Some (Inr \<lparr>cr_invalidated = ids, cr_deferred = [], cr_queued_for_background = 0\<rparr>,
               c\<lparr>cg_inner := g\<rparr>)
     \<and> distinct ids \<and> set ids = anc
     \<and> get_hyperedge g = (\<lambda>i. if i \<in> anc then None else get_hyperedge (cg_inner c) i)
     \<and> verify_doc_hyperedge_deletion_completeness g doc = Some (Inr ())"
proof -
  note wf = hg_reach_wf[OF assms(1)]
  obtain order g where o: "distinct order" "set order = anc" "hg_wf g"
    "live_edges g = without (set (fanout order)) (live_edges (cg_inner c))"
    and run: "cascade_invalidate_hyperedges_for_superseded_doc storage doc seq c
      = Some (case if excess order = [] then Inr () else persisted storage doc (excess order) of
          Inl err \<Rightarrow> (Inl err, c\<lparr>cg_inner := g\<rparr>)
        | Inr _ \<Rightarrow> (Inr (report_of order),
            enqueue_cascade_deferred doc (excess order) (c\<lparr>cg_inner := g\<rparr>)))"
    using cascade_effect[OF wf, of doc storage seq] unfolding assms(2)[symmetric] by blast
  have "length order \<le> 1000" using distinct_card[OF o(1)] o(2) assms(3) by simp
  then have all: "excess order = []" "fanout order = order"
    by (simp_all add: excess_def fanout_def MAX_HYPEREDGE_CASCADE_FANOUT_def)
  have live: "get_hyperedge g = (\<lambda>i. if i \<in> anc then None else get_hyperedge (cg_inner c) i)"
    unfolding get_hyperedge_live o(4) all o(2) without_def ..
  moreover have "set (hyperedges_for_doc (cg_inner c) doc) \<subseteq> anc" unfolding assms(2) by (rule ancestors_self)
  ultimately have "\<not> referenced g doc" unfolding referenced_def candidates[OF wf] by auto
  then have "verify_doc_hyperedge_deletion_completeness g doc = Some (Inr ())"
    using verify_completeness_exact[OF o(3), of doc] by blast
  with live o(1,2) show ?thesis
    by (intro exI[of _ order] exI[of _ g])
      (simp add: run all report_of_def enqueue_cascade_deferred_def)
qed

text \<open>
  C32. The order of the cascade keeps ancestors findable: if no edge is its own ancestor, the ids of
  the report, the invalidated ones followed by the deferred ones, list every ancestor of an edge
  before the edge, so that whatever prefix has been tombstoned no edge is gone while
  one of its ancestors is still live.
\<close>

theorem cascade_order_safe:
  assumes "hg_reach (cg_inner c)" and "acyclic (up (parent_hyperedges_of (cg_inner c)))"
    and "cascade_invalidate_hyperedges_for_superseded_doc storage doc seq c = Some (Inr r, c')"
    and "i \<in> set (take k (cr_invalidated r @ cr_deferred r))"
    and "(i, j) \<in> (up (parent_hyperedges_of (cg_inner c)))\<^sup>*"
  shows "j \<in> set (take k (cr_invalidated r @ cr_deferred r))"
proof -
  define anc where "anc = ancestors (cg_inner c) (set (hyperedges_for_doc (cg_inner c) doc))"
  obtain order g where o: "set order = anc" "parents_first (parent_hyperedges_of (cg_inner c)) anc order"
    and run: "cascade_invalidate_hyperedges_for_superseded_doc storage doc seq c
      = Some (case if excess order = [] then Inr () else persisted storage doc (excess order) of
          Inl err \<Rightarrow> (Inl err, c\<lparr>cg_inner := g\<rparr>)
        | Inr _ \<Rightarrow> (Inr (report_of order),
            enqueue_cascade_deferred doc (excess order) (c\<lparr>cg_inner := g\<rparr>)))"
    using cascade_effect[OF hg_reach_wf[OF assms(1)], of doc storage seq] assms(2)
    unfolding anc_def by blast
  have "r = report_of order" using run assms(3) by (auto split: sum.splits if_splits)
  then have r: "cr_invalidated r @ cr_deferred r = order"
    by (simp add: report_of_def fanout_excess)
  have step: "y \<in> set (take k order)"
    if x: "x \<in> set (take k order)" and xy: "(x, y) \<in> up (parent_hyperedges_of (cg_inner c))" for x y
  proof -
    from x obtain xs ys where xs: "take k order = xs @ x # ys" by (meson split_list)
    then have "order = xs @ x # (ys @ drop k order)"
      by (metis append.assoc append_Cons append_take_drop_id)
    with o(2) have "set (parent_hyperedges_of (cg_inner c) x) \<inter> anc \<subseteq> set xs"
      by (auto simp: parents_first_def)
    moreover have "x \<in> anc" using x o(1) by (auto dest: in_set_takeD)
    then have "y \<in> anc" using xy unfolding anc_def by (rule ancestors_closed)
    ultimately show ?thesis using xy xs by (auto simp: up_def)
  qed
  from assms(5,4) show ?thesis unfolding r
    by (induction) (auto intro: step)
qed

text \<open>
  C33. Nothing is left over by the limit: when the queue keys can be written, a cascade of any size
  followed by one drain of the queue returns, empties the queue, and the edges that are gone are
  exactly the document's live edges and their live ancestors.
\<close>

theorem cascade_then_drain_complete:
  assumes "hg_reach (cg_inner c)" and "cg_cascade_queue c = []"
    and "\<forall>put. storage = Some put \<longrightarrow> (\<forall>d h. put d h = Inr ())"
    and "anc = ancestors (cg_inner c) (set (hyperedges_for_doc (cg_inner c) doc))"
  shows "\<exists>r c' n c''. cascade_invalidate_hyperedges_for_superseded_doc storage doc seq c = Some (Inr r, c')
     \<and> process_cascade_queue (length (cg_cascade_queue c')) tx c' = Some (n, c'')
     \<and> cr_queued_for_background r = card anc - 1000
     \<and> cg_cascade_queue c'' = []
     \<and> get_hyperedge (cg_inner c'') = (\<lambda>i. if i \<in> anc then None else get_hyperedge (cg_inner c) i)"
proof -
  note wf = hg_reach_wf[OF assms(1)]
  obtain order g where o: "distinct order" "set order = anc" "hg_wf g"
    "live_edges g = without (set (fanout order)) (live_edges (cg_inner c))"
    and run: "cascade_invalidate_hyperedges_for_superseded_doc storage doc seq c
      = Some (case if excess order = [] then Inr () else persisted storage doc (excess order) of
          Inl err \<Rightarrow> (Inl err, c\<lparr>cg_inner := g\<rparr>)
        | Inr _ \<Rightarrow> (Inr (report_of order),
            enqueue_cascade_deferred doc (excess order) (c\<lparr>cg_inner := g\<rparr>)))"
    using cascade_effect[OF wf, of doc storage seq] unfolding assms(4)[symmetric] by blast
  have "persist_deferred put doc ids = Inr ()" if "\<forall>d h. put d h = Inr ()" for put ids
    using that by (induction ids) simp_all
  then have "persisted storage doc (excess order) = Inr ()"
    using assms(3) by (simp add: persisted_def split: option.split)
  with run have run': "cascade_invalidate_hyperedges_for_superseded_doc storage doc seq c
      = Some (Inr (report_of order), enqueue_cascade_deferred doc (excess order) (c\<lparr>cg_inner := g\<rparr>))"
    by simp
  let ?c = "enqueue_cascade_deferred doc (excess order) (c\<lparr>cg_inner := g\<rparr>)"
  have inner: "cg_inner ?c = g" and q: "snd ` set (cg_cascade_queue ?c) = set (excess order)"
    using assms(2) by (auto simp: enqueue_cascade_deferred_def image_image)
  from process_queue_effect[of ?c "length (cg_cascade_queue ?c)" tx] o(3) obtain n g' where
    drain: "process_cascade_queue (length (cg_cascade_queue ?c)) tx ?c
        = Some (n, ?c\<lparr>cg_cascade_queue := [], cg_inner := g'\<rparr>)"
    and live: "live_edges g' = without (ancestors g (set (excess order))) (live_edges g)"
    unfolding inner q by blast
  have split: "set (fanout order) \<union> set (excess order) = anc"
    using fanout_excess[of order] o(2) by (metis set_append)
  have "ancestors (cg_inner c) anc \<subseteq> anc"
    unfolding assms(4) ancestors_def by (auto intro: rtrancl_trans)
  then have "ancestors g (set (excess order)) \<subseteq> anc"
    using ancestors_without(1)[OF wf o(3,4), of "set (excess order)"]
      ancestors_mono[of "set (excess order)" anc "cg_inner c"] split by blast
  with ancestors_self[of "set (excess order)" g] split
  have "set (fanout order) \<union> ancestors g (set (excess order)) = anc" by blast
  then have "live_edges g' = (\<lambda>i. if i \<in> anc then None else live_edges (cg_inner c) i)"
    by (auto simp: live o(4) without_def fun_eq_iff)
  moreover have "length (excess order) = card anc - 1000"
    using distinct_card[OF o(1)] o(2) by (simp add: excess_def MAX_HYPEREDGE_CASCADE_FANOUT_def)
  ultimately show ?thesis
    using run' drain unfolding get_hyperedge_live
    by (intro exI[of _ "report_of order"] exI[of _ ?c] exI[of _ n]
        exI[of _ "?c\<lparr>cg_cascade_queue := [], cg_inner := g'\<rparr>"])
      (simp add: report_of_def)
qed

section \<open>A graph with an edge of document 5 and a super edge over it\<close>

definition sample_edge :: "u64 \<Rightarrow> u64 option \<Rightarrow> u64 list \<Rightarrow> hyper_edge" where
  "sample_edge i doc children = with_child_edge_ids children (with_source_doc_id doc
     (hyper_edge_new i [\<lparr>rb_role = 1, rb_entity = 10\<rparr>, \<lparr>rb_role = 2, rb_entity = 11\<rparr>] 0x3f800000))"

definition sample_graph :: csr_graph where
  "sample_graph = \<lparr>cg_inner = snd (commit_super_edge_batch []
     [sample_edge 1 (Some 5) [], sample_edge 2 None [1]] 7 hyper_graph_new), cg_cascade_queue = []\<rparr>"

lemma sample_edge_simps [simp]:
  "he_id (sample_edge i doc ch) = i" "he_tx_valid_to (sample_edge i doc ch) = None"
  "he_source_doc_id (sample_edge i doc ch) = doc"
  "he_child_edge_ids (sample_edge i doc ch) = remdups_adj (sort (filter (\<lambda>c. c \<noteq> i) ch))"
  by (simp_all add: sample_edge_def with_child_edge_ids_def with_source_doc_id_def hyper_edge_new_def)

lemma sample_precheck:
  "batch_precheck hyper_graph_new {} [sample_edge 1 (Some 5) [], sample_edge 2 None [1]] = Inr ()"
  by code_simp

lemma sample_reach: "hg_reach (cg_inner sample_graph)"
  unfolding sample_graph_def by (simp add: reach_commit[OF reach_new])

lemma sample_live: "live_edges (cg_inner sample_graph)
    = [1 \<mapsto> sample_edge 1 (Some 5) [], 2 \<mapsto> sample_edge 2 None [1]]"
  unfolding sample_graph_def csr_graph.select_convs
  by (subst commit_effect(2)[OF hg_wf_new _ sample_precheck])
    (auto simp: fun_eq_iff live_edges_def hyper_graph_new_def map_add_def)

lemma sample_up: "up (parent_hyperedges_of (cg_inner sample_graph)) = {(1, 2)}"
  by (auto simp: up_live[OF hg_reach_wf[OF sample_reach]] sample_live split: if_splits)

lemma sample_docs: "set (hyperedges_for_doc (cg_inner sample_graph) 5) = {1}"
  by (auto simp: candidates[OF hg_reach_wf[OF sample_reach]] get_hyperedge_live sample_live split: if_splits)

lemma sample_ancestors: "ancestors (cg_inner sample_graph) {1} = {1, 2}"
  by (auto simp: ancestors_def sample_up rtrancl_insert)

theorem cascade_removes_ancestors_witness:
  "\<exists>ids g. cascade_invalidate_hyperedges_for_superseded_doc None 5 9 sample_graph
       = Some (Inr \<lparr>cr_invalidated = ids, cr_deferred = [], cr_queued_for_background = 0\<rparr>,
               sample_graph\<lparr>cg_inner := g\<rparr>)
     \<and> set ids = {1, 2} \<and> get_hyperedge g 1 = None \<and> get_hyperedge g 2 = None"
proof -
  have "card {1, 2 :: u64} \<le> 1000" by simp
  from cascade_removes_ancestors[OF sample_reach refl, of 5 None 9, unfolded sample_docs sample_ancestors, OF this]
  obtain ids g where r: "cascade_invalidate_hyperedges_for_superseded_doc None 5 9 sample_graph
       = Some (Inr \<lparr>cr_invalidated = ids, cr_deferred = [], cr_queued_for_background = 0\<rparr>,
               sample_graph\<lparr>cg_inner := g\<rparr>)" "set ids = {1, 2}"
    and "get_hyperedge g = (\<lambda>i. if i \<in> {1, 2} then None else get_hyperedge (cg_inner sample_graph) i)"
    by blast
  from this(3) have "get_hyperedge g 1 = None \<and> get_hyperedge g 2 = None" by simp
  with r show ?thesis by blast
qed

theorem cascade_order_safe_witness:
  "\<exists>r c'. cascade_invalidate_hyperedges_for_superseded_doc None 5 9 sample_graph = Some (Inr r, c')
     \<and> 1 \<notin> set (take 1 (cr_invalidated r @ cr_deferred r))"
proof -
  obtain order g where "cascade_invalidate_hyperedges_for_superseded_doc None 5 9 sample_graph
      = Some (case if excess order = [] then Inr () else persisted None 5 (excess order) of
          Inl err \<Rightarrow> (Inl err, sample_graph\<lparr>cg_inner := g\<rparr>)
        | Inr _ \<Rightarrow> (Inr (report_of order),
            enqueue_cascade_deferred 5 (excess order) (sample_graph\<lparr>cg_inner := g\<rparr>)))"
    using cascade_effect[OF hg_reach_wf[OF sample_reach], of 5 None 9] by blast
  then obtain r c' where run: "cascade_invalidate_hyperedges_for_superseded_doc None 5 9 sample_graph
      = Some (Inr r, c')" by (cases "excess order = []") (simp_all add: persisted_def)
  let ?ids = "take 1 (cr_invalidated r @ cr_deferred r)"
  have ac: "acyclic (up (parent_hyperedges_of (cg_inner sample_graph)))"
    by (simp add: sample_up acyclic_insert, simp add: acyclic_def)
  have "2 \<in> set ?ids" if "1 \<in> set ?ids"
    by (rule cascade_order_safe[OF sample_reach ac run that]) (auto simp: sample_up)
  then have "1 \<notin> set ?ids" by (cases "cr_invalidated r @ cr_deferred r") auto
  with run show ?thesis by blast
qed

theorem cascade_then_drain_complete_witness:
  "\<exists>r c' n c''. cascade_invalidate_hyperedges_for_superseded_doc None 5 9 sample_graph = Some (Inr r, c')
     \<and> process_cascade_queue (length (cg_cascade_queue c')) 10 c' = Some (n, c'')
     \<and> get_hyperedge (cg_inner c'') 2 = None"
  using cascade_then_drain_complete[OF sample_reach _ _ refl, of None 5 9 10]
  unfolding sample_docs sample_ancestors by (auto simp: sample_graph_def)

end
