(* ===== verification/Session_Dag.thy ===== *)
theory Session_Dag
  imports Text_Codec "HOL-Library.AList" "HOL-Library.Sublist" "HOL-Library.Multiset"
begin

text \<open>
  The tree of agent steps of \<open>contextra-graph/src/session_dag.rs\<close>: nodes by id, edges in the order they
  were added, the active head and the id of the next node. The operations that change the tree hold
  the lock on its nodes throughout, so each is one step. Strings are their UTF-8 bytes. The counter is an
  atomic \<open>u64\<close> whose increment wraps around.

  \<open>sd_wf\<close> is the invariant of the file's header: ids are given in ascending order, every node but
  the root has one edge from an older node, and the head exists. The loop of \<open>path_to_head\<close> is
  shown equal to a walk without its visited set. Saving and loading goes through \<open>bincode\<close>, which
  is a parameter given by its round trip.
\<close>

section \<open>Data\<close>

record agent_state_node =
  sn_step_id :: u64
  sn_prompt :: bytes
  sn_response :: bytes
  sn_snapshot_tx_id :: "u64 option"
  sn_tool_outputs :: "bytes list"
  sn_compacted :: bool

record dag_edge =
  de_parent :: u64
  de_child :: u64
  de_label :: bytes

record step_options =
  so_prompt :: bytes
  so_response :: bytes
  so_snapshot_tx_id :: "u64 option"
  so_tool_outputs :: "bytes list"
  so_label :: bytes

record session_tree =
  sd_nodes :: "(u64 \<times> agent_state_node) list"
  sd_edges :: "dag_edge list"
  sd_active_head :: u64
  sd_next_id :: u64

definition MAX_DAG_STRING_BYTES :: nat where
  "MAX_DAG_STRING_BYTES = 10 * 1024 * 1024"

definition MAX_DAG_TRAVERSAL_DEPTH :: nat where
  "MAX_DAG_TRAVERSAL_DEPTH = 10000"

section \<open>Operations\<close>

definition session_new :: "bytes \<Rightarrow> bytes \<Rightarrow> session_tree" where
  "session_new root_prompt root_response =
     \<lparr>sd_nodes = [(0, \<lparr>sn_step_id = 0, sn_prompt = root_prompt, sn_response = root_response,
                       sn_snapshot_tx_id = None, sn_tool_outputs = [], sn_compacted = False\<rparr>)],
      sd_edges = [], sd_active_head = 0, sd_next_id = 1\<rparr>"

definition step_node :: "u64 \<Rightarrow> step_options \<Rightarrow> agent_state_node" where
  "step_node i opts =
     \<lparr>sn_step_id = i, sn_prompt = so_prompt opts, sn_response = so_response opts,
      sn_snapshot_tx_id = so_snapshot_tx_id opts, sn_tool_outputs = so_tool_outputs opts,
      sn_compacted = False\<rparr>"

definition branch_from :: "u64 \<Rightarrow> step_options \<Rightarrow> session_tree \<Rightarrow> u64 res \<times> session_tree" where
  "branch_from parent opts t =
     (if length (so_prompt opts) > MAX_DAG_STRING_BYTES \<or> length (so_response opts) > MAX_DAG_STRING_BYTES
      then (Inl (InvalidInput ''SessionDAG: prompt or response size exceeds limit''), t)
      else if map_of (sd_nodes t) parent = None
      then (Inl (InvalidInput ''SessionDAG: node nicht gefunden''), t)
      else let new_id = sd_next_id t in
        (Inr new_id,
         t\<lparr>sd_next_id := new_id + 1,
           sd_nodes := AList.update new_id (step_node new_id opts) (sd_nodes t),
           sd_edges := sd_edges t @ [\<lparr>de_parent = parent, de_child = new_id, de_label = so_label opts\<rparr>]\<rparr>))"

definition append_step :: "step_options \<Rightarrow> session_tree \<Rightarrow> u64 res \<times> session_tree" where
  "append_step opts t =
     (case branch_from (sd_active_head t) opts t of
        (Inl e, t') \<Rightarrow> (Inl e, t')
      | (Inr new_id, t') \<Rightarrow> (Inr new_id, t'\<lparr>sd_active_head := new_id\<rparr>))"

definition set_active_head :: "u64 \<Rightarrow> session_tree \<Rightarrow> unit res \<times> session_tree" where
  "set_active_head i t =
     (if map_of (sd_nodes t) i \<noteq> None then (Inr (), t\<lparr>sd_active_head := i\<rparr>)
      else (Inl (InvalidInput ''SessionDAG: node nicht gefunden''), t))"

definition edge_to :: "dag_edge list \<Rightarrow> u64 \<Rightarrow> dag_edge option" where
  "edge_to es i = find (\<lambda>e. de_child e = i) (rev es)"

function path_loop ::
  "session_tree \<Rightarrow> u64 \<Rightarrow> u64 set \<Rightarrow> agent_state_node list \<Rightarrow> agent_state_node list" where
  "path_loop t current visited path =
     (if current \<in> visited then path
      else if length path \<ge> MAX_DAG_TRAVERSAL_DEPTH then path
      else
        let path' = (case map_of (sd_nodes t) current of Some n \<Rightarrow> path @ [n] | None \<Rightarrow> path)
        in case edge_to (sd_edges t) current of
             Some e \<Rightarrow> path_loop t (de_parent e) (insert current visited) path'
           | None \<Rightarrow> path')"
  by pat_completeness auto
termination
  by (relation "measure (\<lambda>(_, _, visited, _). card (- visited))")
    (auto intro!: psubset_card_mono finite_subset[OF subset_UNIV finite])

declare path_loop.simps [simp del]

definition path_to_head :: "session_tree \<Rightarrow> agent_state_node list" where
  "path_to_head t = rev (path_loop t (sd_active_head t) {} [])"

definition children_of :: "session_tree \<Rightarrow> u64 \<Rightarrow> u64 list" where
  "children_of t i = map de_child (filter (\<lambda>e. de_parent e = i) (sd_edges t))"

definition node_count :: "session_tree \<Rightarrow> nat" where
  "node_count t = length (sd_nodes t)"

definition get_node :: "session_tree \<Rightarrow> u64 \<Rightarrow> agent_state_node option" where
  "get_node t i = map_of (sd_nodes t) i"

section \<open>Save and load\<close>

text \<open>
  The three types of values as \<open>bincode\<close> writes and reads them. The loaded entries are what
  \<open>scan_prefix\<close> of the storage returns for the prefix of the namespace.
\<close>

record dag_codec =
  ser_node :: "agent_state_node \<Rightarrow> bytes res"
  ser_edges :: "dag_edge list \<Rightarrow> bytes res"
  ser_meta :: "u64 \<times> u64 \<Rightarrow> bytes res"
  des_node :: "bytes \<Rightarrow> agent_state_node res"
  des_edges :: "bytes \<Rightarrow> dag_edge list res"
  des_meta :: "bytes \<Rightarrow> (u64 \<times> u64) res"

definition ascii :: "string \<Rightarrow> bytes" where
  "ascii s = map of_char s"

definition dag_prefix :: "bytes \<Rightarrow> bytes" where
  "dag_prefix ns = ascii ''__session_dag:'' @ ns @ ascii '':''"

definition node_key :: "bytes \<Rightarrow> u64 \<Rightarrow> bytes" where
  "node_key ns i = dag_prefix ns @ ascii ''node:'' @ show_u64 i"

definition edges_key :: "bytes \<Rightarrow> bytes" where
  "edges_key ns = dag_prefix ns @ ascii ''edges''"

definition meta_key :: "bytes \<Rightarrow> bytes" where
  "meta_key ns = dag_prefix ns @ ascii ''meta''"

primrec save_nodes ::
  "dag_codec \<Rightarrow> bytes \<Rightarrow> (u64 \<times> agent_state_node) list \<Rightarrow> (bytes \<times> bytes) list res" where
  "save_nodes C ns [] = Inr []"
| "save_nodes C ns (x # xs) =
     rbind (ser_node C (snd x)) (\<lambda>v. rbind (save_nodes C ns xs) (\<lambda>r. Inr ((node_key ns (fst x), v) # r)))"

text \<open>
  The entries \<open>save\<close> puts, in this order, and its result. The counter and the head are written last,
  after the nodes and edges have been put.
\<close>

definition session_save :: "dag_codec \<Rightarrow> bytes \<Rightarrow> session_tree \<Rightarrow> (bytes \<times> bytes) list \<times> unit res" where
  "session_save C ns t =
     (case rbind (save_nodes C ns (sd_nodes t)) (\<lambda>items.
             rbind (ser_edges C (sd_edges t)) (\<lambda>edges_val. Inr (items @ [(edges_key ns, edges_val)]))) of
        Inl e \<Rightarrow> ([], Inl e)
      | Inr puts \<Rightarrow>
          (case ser_meta C (sd_active_head t, sd_next_id t) of
             Inl e \<Rightarrow> (puts, Inl e)
           | Inr meta_val \<Rightarrow> (puts @ [(meta_key ns, meta_val)], Inr ())))"

lemma session_save_ok:
  assumes "session_save C ns t = (saved, Inr ())"
  obtains items ev mv where "save_nodes C ns (sd_nodes t) = Inr items" "ser_edges C (sd_edges t) = Inr ev"
    "ser_meta C (sd_active_head t, sd_next_id t) = Inr mv"
    "saved = items @ [(edges_key ns, ev), (meta_key ns, mv)]"
proof (cases "save_nodes C ns (sd_nodes t)")
  case (Inl e)
  with assms show ?thesis by (simp add: session_save_def)
next
  case items: (Inr items)
  show ?thesis
  proof (cases "ser_edges C (sd_edges t)")
    case (Inl e)
    with assms items show ?thesis by (simp add: session_save_def)
  next
    case edges: (Inr ev)
    show ?thesis
    proof (cases "ser_meta C (sd_active_head t, sd_next_id t)")
      case (Inl e)
      with assms items edges show ?thesis by (simp add: session_save_def)
    next
      case (Inr mv)
      with assms items edges show ?thesis by (intro that) (auto simp: session_save_def)
    qed
  qed
qed

definition load_entry ::
  "dag_codec \<Rightarrow> bytes \<times> bytes \<Rightarrow> session_tree \<Rightarrow> session_tree res" where
  "load_entry C kv t =
     (let key = fst kv; val = snd kv in
      if \<not> utf8_valid key then Inl (Internal ''session dag key UTF-8'')
      else if suffix (ascii ''edges'') key
      then rbind (des_edges C val) (\<lambda>es. Inr (t\<lparr>sd_edges := es\<rparr>))
      else if suffix (ascii ''meta'') key
      then rbind (des_meta C val) (\<lambda>(h, n). Inr (t\<lparr>sd_active_head := h, sd_next_id := n\<rparr>))
      else if sublist (ascii '':node:'') key
      then rbind (des_node C val) (\<lambda>n. Inr (t\<lparr>sd_nodes := AList.update (sn_step_id n) n (sd_nodes t)\<rparr>))
      else Inr t)"

primrec load_entries ::
  "dag_codec \<Rightarrow> (bytes \<times> bytes) list \<Rightarrow> session_tree \<Rightarrow> session_tree res" where
  "load_entries C [] t = Inr t"
| "load_entries C (kv # kvs) t = rbind (load_entry C kv t) (load_entries C kvs)"

definition session_load :: "dag_codec \<Rightarrow> (bytes \<times> bytes) list \<Rightarrow> session_tree res" where
  "session_load C entries =
     (if entries = [] then Inl (NotFound ''SessionDAG: namespace nicht im Storage gefunden'')
      else rbind (load_entries C entries
             \<lparr>sd_nodes = [], sd_edges = [], sd_active_head = 0, sd_next_id = 1\<rparr>) (\<lambda>t.
        if map_of (sd_nodes t) (sd_active_head t) = None
        then Inl (InvalidInput ''SessionDAG: active_head nicht in geladenen nodes gefunden'')
        else Inr t))"

section \<open>The invariant\<close>

definition sd_wf :: "session_tree \<Rightarrow> bool" where
  "sd_wf t \<longleftrightarrow> distinct (map fst (sd_nodes t))
     \<and> (\<forall>i. map_of (sd_nodes t) i = None \<longleftrightarrow> \<not> i < sd_next_id t)
     \<and> (\<forall>i n. map_of (sd_nodes t) i = Some n \<longrightarrow> sn_step_id n = i)
     \<and> distinct (map de_child (sd_edges t))
     \<and> de_child ` set (sd_edges t) = {i. 0 < i \<and> i < sd_next_id t}
     \<and> (\<forall>e\<in>set (sd_edges t). de_parent e < de_child e)
     \<and> sd_active_head t < sd_next_id t"

lemma sd_wfD:
  assumes "sd_wf t"
  shows "distinct (map fst (sd_nodes t))"
    and "map_of (sd_nodes t) i = None \<longleftrightarrow> \<not> i < sd_next_id t"
    and "map_of (sd_nodes t) i = Some n \<Longrightarrow> sn_step_id n = i"
    and "distinct (map de_child (sd_edges t))"
    and "de_child ` set (sd_edges t) = {i. 0 < i \<and> i < sd_next_id t}"
    and "e \<in> set (sd_edges t) \<Longrightarrow> de_parent e < de_child e"
    and "sd_active_head t < sd_next_id t"
  using assms unfolding sd_wf_def by blast+

lemma sd_wf_new: "sd_wf (session_new p r)"
proof -
  have "i < 1 \<longleftrightarrow> i = 0" for i :: u64 by (simp add: word_less_nat_alt unat_eq_0)
  then show ?thesis by (auto simp: sd_wf_def session_new_def)
qed

lemma no_wrap_less:
  assumes "i + 1 \<noteq> 0"
  shows "(j :: u64) < i + 1 \<longleftrightarrow> j < i \<or> j = i"
proof -
  have "unat (i + 1) = Suc (unat i)" using unatSuc[of i] assms by (simp add: add.commute)
  then show ?thesis by (simp add: word_less_nat_alt less_Suc_eq word_unat_eq_iff)
qed

text \<open>A successful step and what it leaves of the tree.\<close>

lemma branch_from_cases:
  obtains (failed) e where "branch_from parent opts t = (Inl e, t)"
  | (added) "length (so_prompt opts) \<le> MAX_DAG_STRING_BYTES" "length (so_response opts) \<le> MAX_DAG_STRING_BYTES"
    "map_of (sd_nodes t) parent \<noteq> None"
    "branch_from parent opts t = (Inr (sd_next_id t),
         t\<lparr>sd_next_id := sd_next_id t + 1,
           sd_nodes := AList.update (sd_next_id t) (step_node (sd_next_id t) opts) (sd_nodes t),
           sd_edges := sd_edges t @
             [\<lparr>de_parent = parent, de_child = sd_next_id t, de_label = so_label opts\<rparr>]\<rparr>)"
proof (cases "length (so_prompt opts) > MAX_DAG_STRING_BYTES \<or> length (so_response opts) > MAX_DAG_STRING_BYTES
    \<or> map_of (sd_nodes t) parent = None")
  case True
  then show ?thesis
    by (cases "length (so_prompt opts) > MAX_DAG_STRING_BYTES \<or> length (so_response opts) > MAX_DAG_STRING_BYTES")
      (rule failed, simp add: branch_from_def)+
next
  case False
  then show ?thesis by (intro added) (simp_all add: branch_from_def Let_def)
qed

lemma sd_wf_added:
  assumes wf: "sd_wf t" and no_wrap: "sd_next_id t + 1 \<noteq> 0" and parent: "map_of (sd_nodes t) parent \<noteq> None"
  shows "sd_wf (t\<lparr>sd_next_id := sd_next_id t + 1,
           sd_nodes := AList.update (sd_next_id t) (step_node (sd_next_id t) opts) (sd_nodes t),
           sd_edges := sd_edges t @
             [\<lparr>de_parent = parent, de_child = sd_next_id t, de_label = so_label opts\<rparr>]\<rparr>)"
proof -
  note less = no_wrap_less[OF no_wrap]
  have p: "parent < sd_next_id t" using sd_wfD(2)[OF wf, of parent] parent by blast
  then have "0 < sd_next_id t" by (metis word_gt_0 word_not_simps(1))
  then have "insert (sd_next_id t) (de_child ` set (sd_edges t)) = {i. 0 < i \<and> i < sd_next_id t + 1}"
    unfolding sd_wfD(5)[OF wf] less by auto
  moreover have "sd_next_id t \<notin> de_child ` set (sd_edges t)" unfolding sd_wfD(5)[OF wf] by simp
  ultimately show ?thesis
    using sd_wfD[OF wf] p
    by (auto simp: sd_wf_def less update_conv distinct_update step_node_def split: if_splits)
qed

lemma sd_wf_branch:
  "sd_wf t \<Longrightarrow> sd_next_id t + 1 \<noteq> 0 \<Longrightarrow> sd_wf (snd (branch_from parent opts t))"
  by (cases parent opts t rule: branch_from_cases) (simp_all add: sd_wf_added)

lemma sd_wf_head: "sd_wf t \<Longrightarrow> i < sd_next_id t \<Longrightarrow> sd_wf (t\<lparr>sd_active_head := i\<rparr>)"
  by (simp add: sd_wf_def)

lemma sd_wf_append:
  "sd_wf t \<Longrightarrow> sd_next_id t + 1 \<noteq> 0 \<Longrightarrow> sd_wf (snd (append_step opts t))"
  by (cases "sd_active_head t" opts t rule: branch_from_cases)
    (auto simp: append_step_def no_wrap_less intro!: sd_wf_head sd_wf_added)

lemma sd_wf_set_head: "sd_wf t \<Longrightarrow> sd_wf (snd (set_active_head i t))"
  by (auto simp: set_active_head_def sd_wfD(2) intro!: sd_wf_head)

text \<open>The trees that the operations build while the counter does not wrap around.\<close>

inductive sd_reach :: "session_tree \<Rightarrow> bool" where
  sd_new: "sd_reach (session_new p r)"
| sd_branch: "sd_reach t \<Longrightarrow> sd_next_id t + 1 \<noteq> 0 \<Longrightarrow> sd_reach (snd (branch_from parent opts t))"
| sd_append: "sd_reach t \<Longrightarrow> sd_next_id t + 1 \<noteq> 0 \<Longrightarrow> sd_reach (snd (append_step opts t))"
| sd_set_head: "sd_reach t \<Longrightarrow> sd_reach (snd (set_active_head i t))"

lemma sd_reach_wf: "sd_reach t \<Longrightarrow> sd_wf t"
  by (induction rule: sd_reach.induct) (simp_all add: sd_wf_new sd_wf_branch sd_wf_append sd_wf_set_head)

section \<open>The path is the lineage of the head\<close>

primrec lineage :: "dag_edge list \<Rightarrow> nat \<Rightarrow> u64 \<Rightarrow> u64 list" where
  "lineage es 0 i = []"
| "lineage es (Suc n) i = i # (case edge_to es i of Some e \<Rightarrow> lineage es n (de_parent e) | None \<Rightarrow> [])"

lemma edge_to_Some: "edge_to es i = Some e \<Longrightarrow> e \<in> set es \<and> de_child e = i"
  by (auto simp: edge_to_def find_Some_iff) (metis nth_mem set_rev length_rev)

lemma edge_to_None: "edge_to es i = None \<longleftrightarrow> i \<notin> de_child ` set es"
  by (auto simp: edge_to_def find_None_iff)

lemma path_loop_lineage:
  assumes "sd_wf t" "current < sd_next_id t" "\<forall>v\<in>visited. current < v"
  shows "path_loop t current visited path
    = path @ map (\<lambda>i. the (map_of (sd_nodes t) i))
               (lineage (sd_edges t) (MAX_DAG_TRAVERSAL_DEPTH - length path) current)"
  using assms
proof (induction t current visited path rule: path_loop.induct)
  case (1 t current visited path)
  have new: "current \<notin> visited" using 1(4) by auto
  show ?case
  proof (cases "length path \<ge> MAX_DAG_TRAVERSAL_DEPTH")
    case True
    with new show ?thesis by (simp add: path_loop.simps)
  next
    case False
    obtain n where n: "map_of (sd_nodes t) current = Some n" using sd_wfD(2)[OF 1(2)] 1(3) by blast
    have len: "MAX_DAG_TRAVERSAL_DEPTH - length path
        = Suc (MAX_DAG_TRAVERSAL_DEPTH - length (path @ [n]))" using False by simp
    show ?thesis
    proof (cases "edge_to (sd_edges t) current")
      case None
      with n new False show ?thesis by (subst path_loop.simps) (simp add: len)
    next
      case (Some e)
      have "de_parent e < current" using edge_to_Some[OF Some] sd_wfD(6)[OF 1(2)] by auto
      with 1(3,4) have "de_parent e < sd_next_id t" "\<forall>v\<in>insert current visited. de_parent e < v" by auto
      from 1(1)[OF new False refl Some 1(2) this] n new False Some show ?thesis
        by (subst path_loop.simps) (simp add: len)
    qed
  qed
qed

lemma path_to_head_lineage:
  assumes "sd_wf t"
  shows "path_to_head t = map (\<lambda>i. the (map_of (sd_nodes t) i))
    (rev (lineage (sd_edges t) MAX_DAG_TRAVERSAL_DEPTH (sd_active_head t)))"
  using path_loop_lineage[OF assms sd_wfD(7)[OF assms], of "{}" "[]"]
  by (simp add: path_to_head_def rev_map)

lemma lineage_length: "length (lineage es n i) \<le> n"
  by (induction n arbitrary: i) (simp_all split: option.split)

lemma lineage_bound:
  assumes "sd_wf t" "i < sd_next_id t" "j \<in> set (lineage (sd_edges t) n i)"
  shows "j < sd_next_id t"
  using assms(2,3)
proof (induction n arbitrary: i)
  case (Suc n)
  have "de_parent e < sd_next_id t" if "edge_to (sd_edges t) i = Some e" for e
    using edge_to_Some[OF that] sd_wfD(6)[OF assms(1)] Suc.prems(1) by force
  with Suc show ?case by (cases "edge_to (sd_edges t) i") auto
qed simp

lemma lineage_chain:
  "successively (\<lambda>c p. \<exists>e\<in>set es. de_child e = c \<and> de_parent e = p) (lineage es n i)"
proof (induction n arbitrary: i)
  case (Suc n)
  have "\<exists>e\<in>set es. de_child e = i \<and> de_parent e = hd (lineage es n (de_parent e'))"
    if "edge_to es i = Some e'" "lineage es n (de_parent e') \<noteq> []" for e'
    using edge_to_Some[OF that(1)] that(2) by (cases n) auto
  with Suc show ?case by (auto simp: successively_Cons split: option.split)
qed simp

lemma lineage_root:
  assumes "sd_wf t" "i < sd_next_id t" "length (lineage (sd_edges t) n i) < n"
  shows "last (lineage (sd_edges t) n i) = 0"
  using assms(2,3)
proof (induction n arbitrary: i)
  case (Suc n)
  show ?case
  proof (cases "edge_to (sd_edges t) i")
    case None
    then have "i = 0" using Suc.prems(1) sd_wfD(5)[OF assms(1)] by (auto simp: edge_to_None word_gt_0)
    with None show ?thesis by simp
  next
    case (Some e)
    have "de_parent e < sd_next_id t"
      using edge_to_Some[OF Some] sd_wfD(6)[OF assms(1)] Suc.prems(1) by force
    with Suc Some show ?thesis by (cases n) auto
  qed
qed simp

lemma lineage_take: "take m (lineage es n i) = lineage es (min m n) i"
proof (induction n arbitrary: m i)
  case (Suc n)
  then show ?case by (cases m) (simp_all split: option.split)
qed simp

lemma lineage_append:
  assumes "sd_wf t" "i < sd_next_id t" "de_child e = sd_next_id t"
  shows "lineage (sd_edges t @ [e]) n i = lineage (sd_edges t) n i"
  using assms(2)
proof (induction n arbitrary: i)
  case (Suc n)
  have old: "edge_to (sd_edges t @ [e]) i = edge_to (sd_edges t) i"
    using Suc.prems assms(3) by (auto simp: edge_to_def)
  have "de_parent e' < sd_next_id t" if "edge_to (sd_edges t) i = Some e'" for e'
    using edge_to_Some[OF that] sd_wfD(6)[OF assms(1)] Suc.prems by force
  with Suc.IH show ?case by (simp add: old split: option.split)
qed simp

lemma path_ids:
  assumes "sd_wf t"
  shows "map sn_step_id (path_to_head t)
    = rev (lineage (sd_edges t) MAX_DAG_TRAVERSAL_DEPTH (sd_active_head t))"
  unfolding path_to_head_lineage[OF assms] map_map
proof (rule map_idI)
  fix i
  assume "i \<in> set (rev (lineage (sd_edges t) MAX_DAG_TRAVERSAL_DEPTH (sd_active_head t)))"
  then have "i < sd_next_id t" using lineage_bound[OF assms sd_wfD(7)[OF assms]] by simp
  then obtain n where "map_of (sd_nodes t) i = Some n" using sd_wfD(2)[OF assms, of i] by blast
  then show "(sn_step_id \<circ> (\<lambda>i. the (map_of (sd_nodes t) i))) i = i"
    using sd_wfD(3)[OF assms] by simp
qed

lemma path_nodes:
  assumes "sd_wf t" "n \<in> set (path_to_head t)"
  shows "get_node t (sn_step_id n) = Some n"
proof -
  from assms(2) obtain i where i: "n = the (map_of (sd_nodes t) i)"
    "i \<in> set (lineage (sd_edges t) MAX_DAG_TRAVERSAL_DEPTH (sd_active_head t))"
    unfolding path_to_head_lineage[OF assms(1)] by auto
  have "i < sd_next_id t" by (rule lineage_bound[OF assms(1) sd_wfD(7)[OF assms(1)] i(2)])
  then obtain m where m: "map_of (sd_nodes t) i = Some m" using sd_wfD(2)[OF assms(1), of i] by blast
  then show ?thesis using i(1) sd_wfD(3)[OF assms(1) m] by (simp add: get_node_def)
qed

section \<open>Keys and loading\<close>

lemma utf8_append: "utf8_valid xs \<Longrightarrow> utf8_valid (xs @ ys) = utf8_valid ys"
proof (induction xs rule: utf8_valid.induct)
  case (2 b bs)
  consider "b < 128" | "\<not> b < 128" "in_range 0xC2 0xDF b"
    | "\<not> b < 128" "\<not> in_range 0xC2 0xDF b" "in_range 0xE0 0xEF b"
    | "\<not> b < 128" "\<not> in_range 0xC2 0xDF b" "\<not> in_range 0xE0 0xEF b" "in_range 0xF0 0xF4 b"
    using "2.prems" by (auto split: if_splits)
  then show ?case
  proof cases
    case 1
    with "2.IH"(1) "2.prems" show ?thesis by simp
  next
    case b: 2
    obtain c r where bs: "bs = c # r" using "2.prems" b by (cases bs) auto
    show ?thesis using "2.IH"(2)[OF b bs] "2.prems" b by (simp add: bs)
  next
    case b: 3
    obtain c d r where bs: "bs = c # d # r"
      using "2.prems" b by (cases bs; cases "tl bs") auto
    show ?thesis using "2.IH"(3)[OF b bs refl] "2.prems" b by (simp add: bs)
  next
    case b: 4
    obtain c d e r where bs: "bs = c # d # e # r"
      using "2.prems" b by (cases bs; cases "tl bs"; cases "tl (tl bs)") auto
    show ?thesis using "2.IH"(4)[OF b bs refl refl] "2.prems" b by (simp add: bs)
  qed
qed simp

lemma ascii_utf8: "(\<forall>b\<in>set bs. b < 128) \<Longrightarrow> utf8_valid bs"
  using utf8_ascii[of bs "[]"] by simp

lemma ascii_literals:
  "ascii ''__session_dag:'' = [95, 95, 115, 101, 115, 115, 105, 111, 110, 95, 100, 97, 103, 58]"
  "ascii '':'' = [58]" "ascii ''node:'' = [110, 111, 100, 101, 58]"
  "ascii '':node:'' = [58, 110, 111, 100, 101, 58]"
  "ascii ''edges'' = [101, 100, 103, 101, 115]" "ascii ''meta'' = [109, 101, 116, 97]"
  by (simp_all add: ascii_def)

lemma dag_prefix_utf8: "utf8_valid ns \<Longrightarrow> utf8_valid (dag_prefix ns @ rest) = utf8_valid rest"
  by (simp add: dag_prefix_def ascii_literals utf8_append)

lemma suffix_last: "suffix xs ys \<Longrightarrow> xs \<noteq> [] \<Longrightarrow> last ys = last xs"
  by (auto simp: suffix_def)

lemma show_u64_last: "is_digit (last (show_u64 i)) \<and> show_u64 i \<noteq> []"
  unfolding show_u64_def by (intro conjI dec_digits[OF last_in_set] dec_nonempty)

lemma load_edges_entry:
  assumes "utf8_valid ns" "des_edges C v = Inr es"
  shows "load_entry C (edges_key ns, v) t = Inr (t\<lparr>sd_edges := es\<rparr>)"
proof -
  have "suffix (ascii ''edges'') (edges_key ns)" by (simp add: edges_key_def suffix_def)
  moreover have "utf8_valid (edges_key ns)"
    using assms(1) by (simp add: edges_key_def dag_prefix_utf8) (simp add: ascii_literals)
  ultimately show ?thesis using assms(2) by (simp add: load_entry_def)
qed

lemma load_meta_entry:
  assumes "utf8_valid ns" "des_meta C v = Inr (h, n)"
  shows "load_entry C (meta_key ns, v) t = Inr (t\<lparr>sd_active_head := h, sd_next_id := n\<rparr>)"
proof -
  have "\<not> suffix (ascii ''edges'') (meta_key ns)"
    using suffix_last[of "ascii ''edges''" "meta_key ns"] by (auto simp: meta_key_def ascii_literals)
  moreover have "suffix (ascii ''meta'') (meta_key ns)" by (simp add: meta_key_def suffix_def)
  moreover have "utf8_valid (meta_key ns)"
    using assms(1) by (simp add: meta_key_def dag_prefix_utf8) (simp add: ascii_literals)
  ultimately show ?thesis using assms(2) by (simp add: load_entry_def)
qed

lemma node_key_kind:
  "\<not> suffix (ascii ''edges'') (node_key ns i)" "\<not> suffix (ascii ''meta'') (node_key ns i)"
  "sublist (ascii '':node:'') (node_key ns i)"
proof -
  have last: "is_digit (last (node_key ns i))" using show_u64_last[of i] by (simp add: node_key_def)
  show "\<not> suffix (ascii ''edges'') (node_key ns i)"
    using suffix_last[of "ascii ''edges''" "node_key ns i"] last by (auto simp: ascii_literals is_digit_def)
  show "\<not> suffix (ascii ''meta'') (node_key ns i)"
    using suffix_last[of "ascii ''meta''" "node_key ns i"] last by (auto simp: ascii_literals is_digit_def)
  have "node_key ns i = (ascii ''__session_dag:'' @ ns) @ ascii '':node:'' @ show_u64 i"
    by (simp add: node_key_def dag_prefix_def ascii_literals)
  then show "sublist (ascii '':node:'') (node_key ns i)" unfolding sublist_def by blast
qed

lemma load_node_entry:
  assumes "utf8_valid ns" "des_node C v = Inr n"
  shows "load_entry C (node_key ns i, v) t
    = Inr (t\<lparr>sd_nodes := AList.update (sn_step_id n) n (sd_nodes t)\<rparr>)"
proof -
  have "utf8_valid (node_key ns i)"
    using assms(1) ascii_utf8[OF show_u64_ascii] by (simp add: node_key_def dag_prefix_utf8) (simp add: ascii_literals)
  with assms(2) show ?thesis by (simp add: load_entry_def node_key_kind)
qed

lemma node_key_inj: "node_key ns i = node_key ns j \<longleftrightarrow> i = j"
  by (simp add: node_key_def show_u64_inj)

lemma key_distinct:
  "edges_key ns \<noteq> meta_key ns" "node_key ns i \<noteq> edges_key ns" "node_key ns i \<noteq> meta_key ns"
  using node_key_kind[of ns i] by (auto simp: edges_key_def meta_key_def ascii_literals suffix_def)

definition codec_ok :: "dag_codec \<Rightarrow> bool" where
  "codec_ok C \<longleftrightarrow> (\<forall>n b. ser_node C n = Inr b \<longrightarrow> des_node C b = Inr n)
     \<and> (\<forall>es b. ser_edges C es = Inr b \<longrightarrow> des_edges C b = Inr es)
     \<and> (\<forall>m b. ser_meta C m = Inr b \<longrightarrow> des_meta C b = Inr m)"

lemma codec_okD:
  assumes "codec_ok C"
  shows "ser_node C n = Inr b \<Longrightarrow> des_node C b = Inr n"
    "ser_edges C es = Inr b \<Longrightarrow> des_edges C b = Inr es"
    "ser_meta C m = Inr b \<Longrightarrow> des_meta C b = Inr m"
  using assms unfolding codec_ok_def by blast+

text \<open>The entries of a saved tree, and what loading some of them in any order gives.\<close>

lemma save_nodes_entries:
  "save_nodes C ns xs = Inr items \<Longrightarrow>
   set items = {(node_key ns i, v) | i n v. (i, n) \<in> set xs \<and> ser_node C n = Inr v}"
proof (induction xs arbitrary: items)
  case (Cons x xs)
  then obtain v r where "ser_node C (snd x) = Inr v" "save_nodes C ns xs = Inr r"
    "items = (node_key ns (fst x), v) # r" by (auto simp: rbind_eq_Inr)
  with Cons.IH[of r] show ?case by (cases x) auto
qed simp

lemma save_nodes_total:
  "save_nodes C ns xs = Inr items \<Longrightarrow> (i, n) \<in> set xs \<Longrightarrow> \<exists>v. ser_node C n = Inr v"
  by (induction xs arbitrary: items) (auto simp: rbind_eq_Inr)

lemma load_entries_effect:
  assumes C: "codec_ok C" and wf: "sd_wf t" and ns: "utf8_valid ns"
    and e: "ser_edges C (sd_edges t) = Inr ev" and m: "ser_meta C (sd_active_head t, sd_next_id t) = Inr mv"
    and sub: "set es \<subseteq> {(edges_key ns, ev), (meta_key ns, mv)} \<union>
      {(node_key ns i, v) | i n v. map_of (sd_nodes t) i = Some n \<and> ser_node C n = Inr v}"
  shows "\<exists>t'. load_entries C es s = Inr t'
    \<and> sd_edges t' = (if (edges_key ns, ev) \<in> set es then sd_edges t else sd_edges s)
    \<and> (sd_active_head t', sd_next_id t') = (if (meta_key ns, mv) \<in> set es
         then (sd_active_head t, sd_next_id t) else (sd_active_head s, sd_next_id s))
    \<and> map_of (sd_nodes t') = (\<lambda>i. if node_key ns i \<in> fst ` set es
         then map_of (sd_nodes t) i else map_of (sd_nodes s) i)"
  using sub
proof (induction es arbitrary: s)
  case (Cons kv es)
  have es: "set es \<subseteq> {(edges_key ns, ev), (meta_key ns, mv)} \<union>
      {(node_key ns i, v) | i n v. map_of (sd_nodes t) i = Some n \<and> ser_node C n = Inr v}"
    using Cons.prems by simp
  from Cons.prems consider (edges) "kv = (edges_key ns, ev)" | (meta) "kv = (meta_key ns, mv)"
    | (node) i n v where "kv = (node_key ns i, v)" "map_of (sd_nodes t) i = Some n" "ser_node C n = Inr v"
    by auto
  then show ?case
  proof cases
    case edges
    from Cons.IH[OF es, of "s\<lparr>sd_edges := sd_edges t\<rparr>"] show ?thesis
      using load_edges_entry[OF ns codec_okD(2)[OF C e]] key_distinct[of ns] by (auto simp: edges fun_eq_iff)
  next
    case meta
    from Cons.IH[OF es, of "s\<lparr>sd_active_head := sd_active_head t, sd_next_id := sd_next_id t\<rparr>"]
    show ?thesis
      using load_meta_entry[OF ns codec_okD(3)[OF C m]] key_distinct[of ns] by (auto simp: meta fun_eq_iff split: if_splits)
  next
    case node
    have id: "sn_step_id n = i" by (rule sd_wfD(3)[OF wf node(2)])
    from Cons.IH[OF es, of "s\<lparr>sd_nodes := AList.update i n (sd_nodes s)\<rparr>"]
    obtain t' where t': "load_entries C es (s\<lparr>sd_nodes := AList.update i n (sd_nodes s)\<rparr>) = Inr t'"
      "sd_edges t' = (if (edges_key ns, ev) \<in> set es then sd_edges t else sd_edges s)"
      "(sd_active_head t', sd_next_id t') = (if (meta_key ns, mv) \<in> set es
         then (sd_active_head t, sd_next_id t) else (sd_active_head s, sd_next_id s))"
      "map_of (sd_nodes t') = (\<lambda>j. if node_key ns j \<in> fst ` set es
         then map_of (sd_nodes t) j else map_of (AList.update i n (sd_nodes s)) j)"
      by (auto simp: fun_eq_iff)
    have "load_entries C (kv # es) s = Inr t'"
      using t'(1) load_node_entry[OF ns codec_okD(1)[OF C node(3)]] by (simp add: node(1) id)
    moreover have "map_of (sd_nodes t') = (\<lambda>j. if node_key ns j \<in> fst ` set (kv # es)
         then map_of (sd_nodes t) j else map_of (sd_nodes s) j)"
      using node(2) unfolding t'(4) by (auto simp: node(1) update_conv node_key_inj fun_eq_iff)
    moreover have "(edges_key ns, ev) \<in> set (kv # es) \<longleftrightarrow> (edges_key ns, ev) \<in> set es"
      "(meta_key ns, mv) \<in> set (kv # es) \<longleftrightarrow> (meta_key ns, mv) \<in> set es"
      using key_distinct(2,3)[of ns i] unfolding node(1) by auto
    ultimately show ?thesis using t'(2,3) by (intro exI[of _ t'] conjI) (simp_all only:)
  qed
qed (simp add: fun_eq_iff)

lemma path_loop_cong:
  assumes "map_of (sd_nodes t') = map_of (sd_nodes t)" "sd_edges t' = sd_edges t"
  shows "path_loop t' i v p = path_loop t i v p"
  using assms
proof (induction t i v p rule: path_loop.induct)
  case (1 t i v p)
  show ?case
  proof (cases "i \<in> v \<or> length p \<ge> MAX_DAG_TRAVERSAL_DEPTH")
    case False
    with 1 show ?thesis
      by (subst (1 2) path_loop.simps) (simp add: Let_def split: option.split)
  qed (auto simp: path_loop.simps)
qed

lemma load_saved:
  assumes "codec_ok C" and wf: "sd_wf t" and "utf8_valid ns"
    and saved: "session_save C ns t = (saved, Inr ())" and entries: "set entries = set saved"
  shows "\<exists>t'. load_entries C entries s = Inr t' \<and> sd_edges t' = sd_edges t
     \<and> sd_active_head t' = sd_active_head t \<and> sd_next_id t' = sd_next_id t
     \<and> map_of (sd_nodes t') = map_of (sd_nodes s) ++ map_of (sd_nodes t)"
proof -
  obtain items ev mv where saved: "save_nodes C ns (sd_nodes t) = Inr items"
    "ser_edges C (sd_edges t) = Inr ev" "ser_meta C (sd_active_head t, sd_next_id t) = Inr mv"
    "saved = items @ [(edges_key ns, ev), (meta_key ns, mv)]"
    using session_save_ok[OF saved] by blast
  have "(i, n) \<in> set (sd_nodes t) \<longleftrightarrow> map_of (sd_nodes t) i = Some n" for i n
    by (simp add: map_of_eq_Some_iff[OF sd_wfD(1)[OF wf]])
  then have entries: "set entries = {(edges_key ns, ev), (meta_key ns, mv)} \<union>
      {(node_key ns i, v) | i n v. map_of (sd_nodes t) i = Some n \<and> ser_node C n = Inr v}"
    unfolding entries saved(4) set_append save_nodes_entries[OF saved(1)] by auto
  have nodes: "node_key ns i \<in> fst ` set entries \<longleftrightarrow> map_of (sd_nodes t) i \<noteq> None" for i
    unfolding entries
    using save_nodes_total[OF saved(1), of i] key_distinct(2,3)[of ns i] map_of_SomeD[of "sd_nodes t" i]
    by (force simp: node_key_inj image_iff)
  have in_entries: "(edges_key ns, ev) \<in> set entries" "(meta_key ns, mv) \<in> set entries"
    using entries by simp_all
  from load_entries_effect[OF assms(1) wf assms(3) saved(2,3) equalityD1[OF entries], of s,
      unfolded nodes if_P[OF in_entries(1)] if_P[OF in_entries(2)]]
  obtain t' where t': "load_entries C entries s = Inr t'"
    and eq: "sd_edges t' = sd_edges t" "sd_active_head t' = sd_active_head t" "sd_next_id t' = sd_next_id t"
    and m: "map_of (sd_nodes t') = (\<lambda>i. if map_of (sd_nodes t) i \<noteq> None then map_of (sd_nodes t) i
        else map_of (sd_nodes s) i)"
    by blast
  have "map_of (sd_nodes t') = map_of (sd_nodes s) ++ map_of (sd_nodes t)"
    unfolding m map_add_def by (auto simp: fun_eq_iff split: option.split)
  with t' eq show ?thesis by blast
qed

text \<open>
  The keys of a namespace that continues another one after a colon have the other's prefix. A scan
  for the shorter name returns them too, and where they come last the loaded tree has
  the edges, head and counter of the longer name.
\<close>

lemma load_entries_append:
  "load_entries C (xs @ ys) s = rbind (load_entries C xs s) (load_entries C ys)"
  by (induction xs arbitrary: s) (auto simp: rbind_def split: sum.split)

lemma longer_namespace_wins:
  assumes "codec_ok C" "sd_reach t" "sd_reach t2" "utf8_valid ns" "utf8_valid sub"
    and "session_save C ns t = (saved, Inr ())" "session_save C (ns @ ascii '':'' @ sub) t2 = (saved2, Inr ())"
  shows "\<forall>k\<in>fst ` set saved2. prefix (dag_prefix ns) k"
    and "\<exists>t'. session_load C (saved @ saved2) = Inr t' \<and> sd_edges t' = sd_edges t2
      \<and> sd_active_head t' = sd_active_head t2 \<and> sd_next_id t' = sd_next_id t2"
proof -
  note wf = sd_reach_wf[OF assms(2)] and wf2 = sd_reach_wf[OF assms(3)]
  obtain items2 where items2: "save_nodes C (ns @ ascii '':'' @ sub) (sd_nodes t2) = Inr items2"
    "fst ` set saved2 = fst ` set items2 \<union> {edges_key (ns @ ascii '':'' @ sub), meta_key (ns @ ascii '':'' @ sub)}"
    by (rule session_save_ok[OF assms(7)]) (auto simp: Un_commute insert_commute)
  have "prefix (dag_prefix ns) (dag_prefix (ns @ ascii '':'' @ sub) @ rest)" for rest
    by (simp add: dag_prefix_def)
  then show "\<forall>k\<in>fst ` set saved2. prefix (dag_prefix ns) k"
    unfolding items2(2) save_nodes_entries[OF items2(1)]
    by (auto simp: edges_key_def meta_key_def node_key_def)
  let ?s = "\<lparr>sd_nodes = [], sd_edges = [], sd_active_head = 0, sd_next_id = 1\<rparr>"
  have ns2: "utf8_valid (ns @ ascii '':'' @ sub)"
    using assms(4,5) by (simp add: utf8_append ascii_literals)
  obtain t1 where t1: "load_entries C saved ?s = Inr t1"
    using load_saved[OF assms(1) wf assms(4,6) refl] by blast
  obtain t' where t': "load_entries C saved2 t1 = Inr t'" "sd_edges t' = sd_edges t2"
    "sd_active_head t' = sd_active_head t2" "sd_next_id t' = sd_next_id t2"
    "map_of (sd_nodes t') = map_of (sd_nodes t1) ++ map_of (sd_nodes t2)"
    using load_saved[OF assms(1) wf2 ns2 assms(7) refl] by blast
  have "map_of (sd_nodes t2) (sd_active_head t2) \<noteq> None"
    using sd_wfD(2,7)[OF wf2] by blast
  then have "map_of (sd_nodes t') (sd_active_head t') \<noteq> None" by (auto simp: t'(3,5))
  moreover have "saved \<noteq> []" using session_save_ok[OF assms(6)] by blast
  ultimately show "\<exists>t'. session_load C (saved @ saved2) = Inr t' \<and> sd_edges t' = sd_edges t2
      \<and> sd_active_head t' = sd_active_head t2 \<and> sd_next_id t' = sd_next_id t2"
    using t' by (simp add: session_load_def load_entries_append t1)
qed

section \<open>Properties\<close>

text \<open>
  The reconstructed conversation is the line of descent of the active head: it ends in the head,
  each step is a child of the one before, ids ascend, every node is the stored one, it has at most
  10000 steps and starts at the root unless it is cut at this limit.
\<close>

theorem path_to_head_is_lineage:
  assumes "sd_reach t" and "ids = map sn_step_id (path_to_head t)"
  shows "ids \<noteq> [] \<and> last ids = sd_active_head t \<and> length ids \<le> 10000
     \<and> (length ids < 10000 \<longrightarrow> hd ids = 0)
     \<and> successively (\<lambda>a b. b \<in> set (children_of t a)) ids \<and> sorted_wrt (<) ids
     \<and> (\<forall>n\<in>set (path_to_head t). get_node t (sn_step_id n) = Some n)"
proof -
  note wf = sd_reach_wf[OF assms(1)]
  let ?L = "lineage (sd_edges t) MAX_DAG_TRAVERSAL_DEPTH (sd_active_head t)"
  have ids: "ids = rev ?L" by (simp add: assms(2) path_ids[OF wf])
  have chain: "successively (\<lambda>p c. \<exists>e\<in>set (sd_edges t). de_child e = c \<and> de_parent e = p) ids"
    unfolding ids using lineage_chain by (simp add: successively_rev)
  have hd_L: "\<exists>r. ?L = sd_active_head t # r" by (simp add: MAX_DAG_TRAVERSAL_DEPTH_def eval_nat_numeral)
  have "successively (\<lambda>a b. b \<in> set (children_of t a)) ids"
    using chain by (rule successively_mono) (auto simp: children_of_def)
  moreover have "successively (<) ids"
    using chain by (rule successively_mono) (use sd_wfD(6)[OF wf] in auto)
  then have "sorted_wrt (<) ids" by (simp add: successively_conv_sorted_wrt)
  moreover have "length ids < 10000 \<longrightarrow> hd ids = 0"
    using lineage_root[OF wf sd_wfD(7)[OF wf], of MAX_DAG_TRAVERSAL_DEPTH] hd_L
    by (auto simp: ids hd_rev MAX_DAG_TRAVERSAL_DEPTH_def)
  moreover have "length ids \<le> 10000"
    using lineage_length[of "sd_edges t" MAX_DAG_TRAVERSAL_DEPTH "sd_active_head t"]
    by (simp add: ids MAX_DAG_TRAVERSAL_DEPTH_def)
  ultimately show ?thesis using hd_L path_nodes[OF wf] by (auto simp: ids last_rev)
qed

definition sample_step :: step_options where
  "sample_step = \<lparr>so_prompt = [104, 105], so_response = [111, 107], so_snapshot_tx_id = Some 5,
     so_tool_outputs = [], so_label = [109]\<rparr>"

theorem path_to_head_is_lineage_witness:
  "last (map sn_step_id (path_to_head (snd (append_step sample_step (session_new [112] [114])))))
   = sd_active_head (snd (append_step sample_step (session_new [112] [114])))"
proof -
  have "sd_reach (snd (append_step sample_step (session_new [112] [114])))"
    by (rule sd_append[OF sd_new]) (simp add: session_new_def)
  from path_to_head_is_lineage[OF this refl] show ?thesis by blast
qed

text \<open>
  C34. Appending a step either fails and changes nothing, or gives the step the next id, makes it the
  head and a child of the old head, and the conversation is the old one followed by the new
  step, without its oldest step if it has 10000 already; all other nodes are as before.
\<close>

theorem append_step_extends_path:
  assumes "sd_reach t" and "sd_next_id t + 1 \<noteq> 0" and "append_step opts t = (r, t')"
  shows "case r of
      Inl e \<Rightarrow> t' = t
    | Inr i \<Rightarrow> i = sd_next_id t \<and> sd_active_head t' = i
        \<and> children_of t' (sd_active_head t) = children_of t (sd_active_head t) @ [i]
        \<and> path_to_head t' = drop (length (path_to_head t) - 9999) (path_to_head t) @ [step_node i opts]
        \<and> get_node t' = (get_node t)(i \<mapsto> step_node i opts)"
proof (cases "sd_active_head t" opts t rule: branch_from_cases)
  case (failed e)
  with assms(3) show ?thesis by (auto simp: append_step_def)
next
  case added
  note wf = sd_reach_wf[OF assms(1)]
  let ?i = "sd_next_id t" and ?h = "sd_active_head t"
  let ?e = "\<lparr>de_parent = ?h, de_child = ?i, de_label = so_label opts\<rparr>"
  have t': "t' = t\<lparr>sd_next_id := ?i + 1, sd_nodes := AList.update ?i (step_node ?i opts) (sd_nodes t),
      sd_edges := sd_edges t @ [?e], sd_active_head := ?i\<rparr>" and r: "r = Inr ?i"
    using assms(3) added(4) by (auto simp: append_step_def)
  have wf': "sd_wf t'" using sd_wf_append[OF wf assms(2), of opts] assms(3) by simp
  have head: "sd_active_head t' = ?i" by (simp add: t')
  have max: "MAX_DAG_TRAVERSAL_DEPTH = Suc 9999" by (simp add: MAX_DAG_TRAVERSAL_DEPTH_def)
  have "lineage (sd_edges t') (Suc n) ?i = ?i # lineage (sd_edges t) n ?h" for n
    using lineage_append[OF wf sd_wfD(7)[OF wf], of ?e] by (simp add: t' edge_to_def)
  moreover have "min 9999 (Suc 9999) = 9999" by simp
  ultimately have line: "lineage (sd_edges t') MAX_DAG_TRAVERSAL_DEPTH ?i
      = ?i # take 9999 (lineage (sd_edges t) MAX_DAG_TRAVERSAL_DEPTH ?h)"
    unfolding max lineage_take by (simp only:)
  have "the (map_of (sd_nodes t') j) = the (map_of (sd_nodes t) j)"
    if "j \<in> set (lineage (sd_edges t) MAX_DAG_TRAVERSAL_DEPTH ?h)" for j
    using lineage_bound[OF wf sd_wfD(7)[OF wf] that] by (auto simp: t' update_conv)
  then have "map (\<lambda>j. the (map_of (sd_nodes t') j)) (rev (take 9999 (lineage (sd_edges t) MAX_DAG_TRAVERSAL_DEPTH ?h)))
      = rev (take 9999 (rev (path_to_head t)))"
    unfolding path_to_head_lineage[OF wf] rev_map[symmetric]
    by (auto simp: take_map dest: in_set_takeD)
  then have "path_to_head t' = rev (take 9999 (rev (path_to_head t))) @ [step_node ?i opts]"
    unfolding path_to_head_lineage[OF wf'] head line
    by (simp only: rev.simps map_append) (simp add: t' update_conv)
  then have "path_to_head t' = drop (length (path_to_head t) - 9999) (path_to_head t) @ [step_node ?i opts]"
    by (simp add: rev_take)
  then show ?thesis
    by (simp add: r t' children_of_def get_node_def update_conv fun_eq_iff)
qed

theorem append_step_extends_path_witness:
  "path_to_head (snd (append_step sample_step (session_new [112] [114])))
   = path_to_head (session_new [112] [114]) @ [step_node 1 sample_step]"
proof -
  have "append_step sample_step (session_new [112] [114])
      = (Inr 1, snd (append_step sample_step (session_new [112] [114])))"
    by (simp add: append_step_def branch_from_def session_new_def sample_step_def MAX_DAG_STRING_BYTES_def)
  moreover have "path_to_head (session_new [112] [114]) = [snd (hd (sd_nodes (session_new [112] [114])))]"
    by (simp add: path_to_head_def path_loop.simps session_new_def edge_to_def MAX_DAG_TRAVERSAL_DEPTH_def)
  moreover have "sd_next_id (session_new [112] [114]) + 1 \<noteq> 0" by (simp add: session_new_def)
  ultimately show ?thesis
    using append_step_extends_path[OF sd_new, of "[112]" "[114]" sample_step "Inr 1"] by fastforce
qed

text \<open>
  C35. A saved session survives a restart: if the storage returns for the namespace what was saved,
  in any order, loading succeeds and gives back all nodes, the edges, the head and the counter, and
  the same conversation.
\<close>

theorem session_save_load:
  assumes "codec_ok C" and "sd_reach t" and "utf8_valid ns"
    and "session_save C ns t = (saved, Inr ())" and "set entries = set saved"
  shows "\<exists>t'. session_load C entries = Inr t' \<and> get_node t' = get_node t \<and> sd_edges t' = sd_edges t
     \<and> sd_active_head t' = sd_active_head t \<and> sd_next_id t' = sd_next_id t
     \<and> path_to_head t' = path_to_head t"
proof -
  note wf = sd_reach_wf[OF assms(2)]
  obtain t' where t': "load_entries C entries \<lparr>sd_nodes = [], sd_edges = [], sd_active_head = 0, sd_next_id = 1\<rparr> = Inr t'"
    and eq: "sd_edges t' = sd_edges t" "sd_active_head t' = sd_active_head t" "sd_next_id t' = sd_next_id t"
    and m: "map_of (sd_nodes t') = map_of (sd_nodes t)"
    using load_saved[OF assms(1) wf assms(3-5), of "\<lparr>sd_nodes = [], sd_edges = [], sd_active_head = 0, sd_next_id = 1\<rparr>"]
    by auto
  have "map_of (sd_nodes t') (sd_active_head t') \<noteq> None"
    using sd_wfD(7)[OF wf] sd_wfD(2)[OF wf, of "sd_active_head t"] by (simp add: m eq)
  moreover have "set saved \<noteq> {}" using session_save_ok[OF assms(4)] by fastforce
  then have "entries \<noteq> []" using assms(5) by auto
  ultimately have "session_load C entries = Inr t'" by (simp add: session_load_def t')
  then show ?thesis using eq m path_loop_cong[OF m eq(1)]
    by (simp add: get_node_def path_to_head_def fun_eq_iff)
qed

definition sample_root :: agent_state_node where
  "sample_root = snd (hd (sd_nodes (session_new [112] [114])))"

definition sample_codec :: dag_codec where
  "sample_codec =
     \<lparr>ser_node = \<lambda>n. if n = sample_root then Inr [1] else Inl (Serialization ''node''),
      ser_edges = \<lambda>es. if es = [] then Inr [2] else Inl (Serialization ''edges''),
      ser_meta = \<lambda>m. if m = (0, 1) then Inr [3] else Inl (Serialization ''meta''),
      des_node = \<lambda>b. if b = [1] then Inr sample_root else Inl (Serialization ''node''),
      des_edges = \<lambda>b. if b = [2] then Inr [] else Inl (Serialization ''edges''),
      des_meta = \<lambda>b. if b = [3] then Inr (0, 1) else Inl (Serialization ''meta'')\<rparr>"

theorem session_save_load_witness:
  "\<exists>t'. session_load sample_codec [(edges_key [97], [2]), (meta_key [97], [3]), (node_key [97] 0, [1])] = Inr t'
     \<and> path_to_head t' = path_to_head (session_new [112] [114])"
proof -
  have "codec_ok sample_codec" by (auto simp: codec_ok_def sample_codec_def split: if_splits)
  moreover have "session_save sample_codec [97] (session_new [112] [114])
      = ([(node_key [97] 0, [1]), (edges_key [97], [2]), (meta_key [97], [3])], Inr ())"
    by (simp add: session_save_def sample_codec_def session_new_def sample_root_def)
  ultimately show ?thesis
    using session_save_load[of sample_codec "session_new [112] [114]" "[97]"
        "[(node_key [97] 0, [1]), (edges_key [97], [2]), (meta_key [97], [3])]"
        "[(edges_key [97], [2]), (meta_key [97], [3]), (node_key [97] 0, [1])]"]
    by (auto simp: sd_new)
qed

end
