(* ===== verification/Rust_Text.thy ===== *)
theory Rust_Text
  imports Text_Codec "HOL-Library.AList" "HOL-Library.Sublist"
begin

text \<open>
  Strings and JSON values as the agent and checkpoint crates use them. A string is the list of its
  Unicode code points, because the code trims and counts by character and measures in bytes. A JSON value has the
  constructors of \<open>serde_json::Value\<close>; a number is kept as the text it prints as, an object as its
  entries in key order.
\<close>

section \<open>Strings\<close>

type_synonym rstr = "nat list"

definition lit :: "string \<Rightarrow> rstr" where
  "lit s = map of_char s"

definition utf8_len :: "nat \<Rightarrow> nat" where
  "utf8_len c = (if c < 0x80 then 1 else if c < 0x800 then 2 else if c < 0x10000 then 3 else 4)"

definition byte_len :: "rstr \<Rightarrow> nat" where
  "byte_len s = sum_list (map utf8_len s)"

definition is_white :: "nat \<Rightarrow> bool" where
  "is_white c \<longleftrightarrow> (9 \<le> c \<and> c \<le> 13) \<or> c = 0x20 \<or> c = 0x85 \<or> c = 0xA0 \<or> c = 0x1680
     \<or> (0x2000 \<le> c \<and> c \<le> 0x200A) \<or> c = 0x2028 \<or> c = 0x2029 \<or> c = 0x202F \<or> c = 0x205F \<or> c = 0x3000"

definition trim_with :: "(nat \<Rightarrow> bool) \<Rightarrow> rstr \<Rightarrow> rstr" where
  "trim_with P s = rev (dropWhile P (rev (dropWhile P s)))"

definition trim :: "rstr \<Rightarrow> rstr" where
  "trim s = trim_with is_white s"

definition strip_suffix :: "rstr \<Rightarrow> rstr \<Rightarrow> rstr option" where
  "strip_suffix suf s = (if suffix suf s then Some (take (length s - length suf) s) else None)"

fun split_once :: "rstr \<Rightarrow> rstr \<Rightarrow> (rstr \<times> rstr) option" where
  "split_once pat [] = (if pat = [] then Some ([], []) else None)"
| "split_once pat (c # cs) =
     (if prefix pat (c # cs) then Some ([], drop (length pat) (c # cs))
      else map_option (\<lambda>(a, b). (c # a, b)) (split_once pat cs))"

fun split_dot :: "rstr \<Rightarrow> rstr list" where
  "split_dot [] = [[]]"
| "split_dot (c # cs) =
     (if c = 46 then [] # split_dot cs
      else case split_dot cs of p # ps \<Rightarrow> (c # p) # ps | [] \<Rightarrow> [[c]])"

definition show_num :: "u64 \<Rightarrow> rstr" where
  "show_num n = map unat (show_u64 n)"

section \<open>Values\<close>

datatype json =
    JNull
  | JBool bool
  | JNumber rstr
  | JString rstr
  | JArray "json list"
  | JObject "(rstr \<times> json) list"

end
