(* ===== verification/Agent_Graph.thy ===== *)
theory Agent_Graph
  imports Budget Rust_Text
begin

text \<open>
  The declarative side of the agent workflows, \<open>contextra-agent/src\<close>: identifiers and the context of a
  run (\<open>context.rs\<close>), the state graph (\<open>graph.rs\<close>), the language of edge conditions
  (\<open>engine/condition.rs\<close>) and the choice of the next node (\<open>engine.rs\<close>).

  The JSON parser is the argument \<open>parse\<close>.
\<close>

section \<open>Context\<close>

datatype agent_status = Idle | Running | Completed | Failed

record background_event =
  be_payload :: json
  be_source :: rstr
  be_observed_at_seq :: u64

record agent_context =
  ac_task_id :: rstr
  ac_current_node :: rstr
  ac_step_count :: u64
  ac_budget :: token_budget
  ac_status :: agent_status
  ac_memory :: "(rstr \<times> json) list"
  ac_events :: "background_event list"
  ac_pending_routing :: "u64 option"

definition MAX_ID_LEN :: nat where
  "MAX_ID_LEN = 256"

definition MAX_TELEMETRY_EVENTS :: nat where
  "MAX_TELEMETRY_EVENTS = 10000"

definition validate_task_id :: "rstr \<Rightarrow> unit res" where
  "validate_task_id s =
     (if trim s = [] then Inl (InvalidInput ''task_id cannot be empty'')
      else if byte_len s > MAX_ID_LEN then Inl (InvalidInput ''task_id length exceeds maximum allowed length'')
      else if 0 \<in> set s then Inl (InvalidInput ''task_id cannot contain null bytes'')
      else Inr ())"

definition validate_node_id :: "rstr \<Rightarrow> unit res" where
  "validate_node_id s =
     (if trim s = [] then Inl (InvalidInput ''node_id cannot be empty'')
      else if byte_len s > MAX_ID_LEN then Inl (InvalidInput ''node_id length exceeds maximum allowed length'')
      else if 0 \<in> set s then Inl (InvalidInput ''node_id cannot contain null bytes'')
      else Inr ())"

definition context_try_new :: "rstr \<Rightarrow> rstr \<Rightarrow> token_budget \<Rightarrow> agent_context res" where
  "context_try_new task_id start_node budget =
     (if trim task_id = [] then Inl (InvalidInput ''AgentContext task_id must not be empty'')
      else if trim start_node = [] then Inl (InvalidInput ''AgentContext start_node must not be empty'')
      else Inr \<lparr>ac_task_id = task_id, ac_current_node = start_node, ac_step_count = 0, ac_budget = budget,
                ac_status = Idle, ac_memory = [], ac_events = [], ac_pending_routing = None\<rparr>)"

text \<open>\<open>to_value\<close> of an event is an argument; it fails or gives the value to remember.\<close>

definition attach_event ::
  "(background_event \<Rightarrow> json option) \<Rightarrow> background_event \<Rightarrow> agent_context \<Rightarrow> agent_context" where
  "attach_event to_value ev c =
     (let memory = (case to_value ev of
            Some v \<Rightarrow> AList.update (lit ''latest_event'') v (ac_memory c) | None \<Rightarrow> ac_memory c);
          events = (if length (ac_events c) \<ge> MAX_TELEMETRY_EVENTS then tl (ac_events c) else ac_events c)
      in c\<lparr>ac_memory := memory, ac_events := events @ [ev]\<rparr>)"

definition try_attach_event ::
  "(background_event \<Rightarrow> json option) \<Rightarrow> background_event \<Rightarrow> agent_context \<Rightarrow> unit res \<times> agent_context" where
  "try_attach_event to_value ev c =
     (if length (ac_events c) \<ge> MAX_TELEMETRY_EVENTS
      then (Inl (InvalidInput ''Telemetry event buffer limit reached''), c)
      else (Inr (), attach_event to_value ev c))"

definition next_retry_step_count :: "agent_context \<Rightarrow> u64" where
  "next_retry_step_count c = ac_step_count c + 1"

section \<open>State graph\<close>

datatype node_type = Start | Task | Decision | End

record agent_node =
  an_id :: rstr
  an_description :: rstr
  an_node_type :: node_type
  an_handler :: "rstr option"

record workflow_edge =
  we_from :: rstr
  we_to :: rstr
  we_condition :: "rstr option"
  we_priority :: u8

record state_graph =
  sg_nodes :: "(rstr \<times> agent_node) list"
  sg_edges :: "workflow_edge list"

definition state_graph_new :: state_graph where
  "state_graph_new = \<lparr>sg_nodes = [], sg_edges = []\<rparr>"

definition MAX_TEXT_LEN :: nat where
  "MAX_TEXT_LEN = 65536"

definition check_description :: "rstr \<Rightarrow> unit res" where
  "check_description d =
     (if byte_len d > MAX_TEXT_LEN then Inl (InvalidInput ''Node description length exceeds maximum allowed length'')
      else if 0 \<in> set d then Inl (InvalidInput ''Node description cannot contain null bytes'')
      else if trim d = [] then Inl (InvalidInput ''StateGraph node description must not be empty'')
      else Inr ())"

definition check_handler :: "rstr option \<Rightarrow> unit res" where
  "check_handler handler =
     (case handler of
        None \<Rightarrow> Inr ()
      | Some h \<Rightarrow>
          if trim h = [] then Inl (InvalidInput ''Node handler cannot be empty when provided'')
          else if byte_len h > MAX_ID_LEN then Inl (InvalidInput ''Node handler length exceeds maximum allowed length'')
          else if 0 \<in> set h then Inl (InvalidInput ''Node handler cannot contain null bytes'')
          else Inr ())"

definition try_add_node ::
  "rstr \<Rightarrow> rstr \<Rightarrow> node_type \<Rightarrow> rstr option \<Rightarrow> state_graph \<Rightarrow> unit res \<times> state_graph" where
  "try_add_node i description nt handler G =
     (case rbind (validate_node_id i) (\<lambda>_. rbind (check_description description) (\<lambda>_. check_handler handler)) of
        Inl e \<Rightarrow> (Inl e, G)
      | Inr _ \<Rightarrow>
          (Inr (), G\<lparr>sg_nodes := AList.update i
             \<lparr>an_id = i, an_description = description, an_node_type = nt, an_handler = handler\<rparr> (sg_nodes G)\<rparr>))"

definition check_condition :: "rstr option \<Rightarrow> unit res" where
  "check_condition condition =
     (case condition of
        None \<Rightarrow> Inr ()
      | Some c \<Rightarrow>
          if byte_len c > MAX_TEXT_LEN then Inl (InvalidInput ''Edge condition length exceeds maximum allowed length'')
          else if 0 \<in> set c then Inl (InvalidInput ''Edge condition cannot contain null bytes'')
          else Inr ())"

definition try_add_edge ::
  "rstr \<Rightarrow> rstr \<Rightarrow> rstr option \<Rightarrow> u8 \<Rightarrow> state_graph \<Rightarrow> unit res \<times> state_graph" where
  "try_add_edge from_id to_id condition priority G =
     (case rbind (validate_node_id from_id) (\<lambda>_. rbind (validate_node_id to_id) (\<lambda>_. check_condition condition)) of
        Inl e \<Rightarrow> (Inl e, G)
      | Inr _ \<Rightarrow>
          (Inr (), G\<lparr>sg_edges := sg_edges G @
             [\<lparr>we_from = from_id, we_to = to_id, we_condition = condition, we_priority = priority\<rparr>]\<rparr>))"

definition sg_get_node :: "state_graph \<Rightarrow> rstr \<Rightarrow> agent_node option" where
  "sg_get_node G i = map_of (sg_nodes G) i"

section \<open>Conditions\<close>

fun walk_path :: "json \<Rightarrow> rstr list \<Rightarrow> json option" where
  "walk_path v [] = Some v"
| "walk_path (JObject m) (p # ps) = (case map_of m p of Some v \<Rightarrow> walk_path v ps | None \<Rightarrow> None)"
| "walk_path _ (p # ps) = None"

definition status_text :: "agent_status \<Rightarrow> rstr" where
  "status_text s = lit (case s of Idle \<Rightarrow> ''Idle'' | Running \<Rightarrow> ''Running'' | Completed \<Rightarrow> ''Completed'' | Failed \<Rightarrow> ''Failed'')"

definition builtin_value :: "rstr \<Rightarrow> agent_context \<Rightarrow> json option" where
  "builtin_value key c =
     (if key = lit ''task_id'' then Some (JString (ac_task_id c))
      else if key = lit ''current_node'' then Some (JString (ac_current_node c))
      else if key = lit ''step_count'' then Some (JNumber (show_num (ac_step_count c)))
      else if key = lit ''status'' then Some (JString (status_text (ac_status c)))
      else None)"

definition path_value :: "rstr \<Rightarrow> agent_context \<Rightarrow> json option" where
  "path_value key c =
     (if 46 \<in> set key
      then case split_dot key of
             p # ps \<Rightarrow> (case map_of (ac_memory c) p of Some v \<Rightarrow> walk_path v ps | None \<Rightarrow> None)
           | [] \<Rightarrow> None
      else None)"

definition get_context_value :: "rstr \<Rightarrow> agent_context \<Rightarrow> json option" where
  "get_context_value key0 c =
     (let key = trim key0 in
      if key = [] then None
      else case map_of (ac_memory c) key of
          Some v \<Rightarrow> Some v
        | None \<Rightarrow> (case path_value key c of Some v \<Rightarrow> Some v | None \<Rightarrow> builtin_value key c))"

definition bool_text :: "bool \<Rightarrow> rstr" where
  "bool_text b = lit (if b then ''true'' else ''false'')"

definition value_matches :: "(rstr \<Rightarrow> json option) \<Rightarrow> json \<Rightarrow> rstr \<Rightarrow> bool" where
  "value_matches parse v raw =
     (let target = trim_with (\<lambda>c. c = 39) (trim_with (\<lambda>c. c = 34) (trim raw)) in
      case v of
        JString s \<Rightarrow> s = target \<or> s = trim raw
      | JBool b \<Rightarrow> bool_text b = target \<or> bool_text b = trim raw
      | JNumber n \<Rightarrow> n = target \<or> n = trim raw
      | JNull \<Rightarrow> target = lit ''null'' \<or> target = lit ''Null'' \<or> target = []
      | _ \<Rightarrow> (case parse (trim raw) of Some p \<Rightarrow> v = p | None \<Rightarrow> False))"

definition evaluate_condition_expr :: "(rstr \<Rightarrow> json option) \<Rightarrow> rstr \<Rightarrow> agent_context \<Rightarrow> bool" where
  "evaluate_condition_expr parse expr c =
     (let trimmed = trim expr in
      if trimmed = [] then False
      else case strip_suffix (lit '' exists'') trimmed of
          Some key_part \<Rightarrow>
            (let key = trim key_part in
             if key = [] then False
             else case get_context_value key c of Some v \<Rightarrow> v \<noteq> JNull | None \<Rightarrow> False)
        | None \<Rightarrow>
            (case split_once (lit ''!='') trimmed of
               Some (key_part, val_part) \<Rightarrow>
                 (let key = trim key_part; val = trim val_part in
                  if key = [] then False
                  else case get_context_value key c of Some v \<Rightarrow> \<not> value_matches parse v val | None \<Rightarrow> True)
             | None \<Rightarrow>
                 (case split_once (lit ''=='') trimmed of
                    Some (key_part, val_part) \<Rightarrow>
                      (let key = trim key_part; val = trim val_part in
                       if key = [] then False
                       else case get_context_value key c of Some v \<Rightarrow> value_matches parse v val | None \<Rightarrow> False)
                  | None \<Rightarrow> False)))"

section \<open>The next node\<close>

definition out_edges :: "state_graph \<Rightarrow> rstr \<Rightarrow> workflow_edge list" where
  "out_edges G n = filter (\<lambda>e. we_from e = n) (sg_edges G)"

text \<open>\<open>max_by_key\<close> keeps the last of several maxima.\<close>

definition max_by_priority :: "workflow_edge list \<Rightarrow> workflow_edge option" where
  "max_by_priority es =
     (case es of [] \<Rightarrow> None
      | e # rest \<Rightarrow> Some (fold (\<lambda>x best. if we_priority best \<le> we_priority x then x else best) rest e))"

definition resolve_next_node :: "state_graph \<Rightarrow> rstr \<Rightarrow> rstr option \<Rightarrow> rstr res" where
  "resolve_next_node G current_node next_edge =
     (let edges = out_edges G current_node in
      if edges = [] then Inl (Internal ''Dead end at node'')
      else if (case next_edge of Some f \<Rightarrow> list_ex (\<lambda>e. we_to e = f) edges | None \<Rightarrow> False)
      then Inr (the next_edge)
      else case max_by_priority edges of
          Some e \<Rightarrow> Inr (we_to e)
        | None \<Rightarrow> Inl (Internal ''No edges found''))"

definition evaluate_decision ::
  "(rstr \<Rightarrow> json option) \<Rightarrow> state_graph \<Rightarrow> agent_node \<Rightarrow> agent_context \<Rightarrow> rstr res" where
  "evaluate_decision parse G node c =
     (let edges = out_edges G (an_id node) in
      if edges = [] then Inl (Internal ''Decision Node has no outgoing edges'')
      else let matching = sort_key (\<lambda>e. 255 - unat (we_priority e))
                 (filter (\<lambda>e. case we_condition e of None \<Rightarrow> True
                            | Some expr \<Rightarrow> evaluate_condition_expr parse expr c) edges)
           in case matching of e # _ \<Rightarrow> Inr (we_to e)
              | [] \<Rightarrow> Inl (Internal ''Decision Node has no matching edge for current context''))"

lemma fold_max_priority:
  defines "pick \<equiv> \<lambda>x best. if we_priority best \<le> we_priority x then x else (best :: workflow_edge)"
  shows "fold pick es e \<in> set (e # es) \<and> (\<forall>x\<in>set (e # es). we_priority x \<le> we_priority (fold pick es e))"
proof (induction es arbitrary: e)
  case (Cons x es)
  have "pick x e \<in> {e, x}" "we_priority e \<le> we_priority (pick x e)" "we_priority x \<le> we_priority (pick x e)"
    by (auto simp: pick_def)
  then show ?case using Cons.IH[of "pick x e"] by (auto intro: order_trans)
qed simp

lemma max_by_priority_Some:
  assumes "es \<noteq> []"
  obtains e where "max_by_priority es = Some e" "e \<in> set es" "\<forall>x\<in>set es. we_priority x \<le> we_priority e"
  using assms fold_max_priority that by (cases es) (auto simp: max_by_priority_def)

text \<open>
  A step always continues along an edge of its node if there is one: the edge the tool asked for, or
  one of the highest priority.
\<close>

lemma resolve_next_node_cases:
  "(case resolve_next_node G n nxt of
      Inl e \<Rightarrow> out_edges G n = []
    | Inr t \<Rightarrow> (\<exists>e\<in>set (out_edges G n). we_to e = t
        \<and> (nxt = Some t \<or> (\<forall>x\<in>set (out_edges G n). we_priority x \<le> we_priority e))))"
proof (cases "out_edges G n = []")
  case True
  then show ?thesis by (simp add: resolve_next_node_def)
next
  case False
  then obtain e where "max_by_priority (out_edges G n) = Some e" "e \<in> set (out_edges G n)"
    "\<forall>x\<in>set (out_edges G n). we_priority x \<le> we_priority e" by (rule max_by_priority_Some)
  with False show ?thesis
    by (auto simp: resolve_next_node_def Let_def list_ex_iff split: option.splits if_splits)
qed

text \<open>A decision takes an edge whose condition holds, with the highest priority among these.\<close>

definition edge_enabled :: "(rstr \<Rightarrow> json option) \<Rightarrow> agent_context \<Rightarrow> workflow_edge \<Rightarrow> bool" where
  "edge_enabled parse c e =
     (case we_condition e of None \<Rightarrow> True | Some expr \<Rightarrow> evaluate_condition_expr parse expr c)"

lemma evaluate_decision_cases:
  "(case evaluate_decision parse G node c of
      Inl err \<Rightarrow> \<forall>e\<in>set (out_edges G (an_id node)). \<not> edge_enabled parse c e
    | Inr t \<Rightarrow> (\<exists>e\<in>set (out_edges G (an_id node)). we_to e = t \<and> edge_enabled parse c e
        \<and> (\<forall>x\<in>set (out_edges G (an_id node)). edge_enabled parse c x \<longrightarrow> we_priority x \<le> we_priority e)))"
proof -
  let ?es = "filter (edge_enabled parse c) (out_edges G (an_id node))"
  let ?key = "\<lambda>e. 255 - unat (we_priority e)"
  have dec: "evaluate_decision parse G node c = (if out_edges G (an_id node) = []
      then Inl (Internal ''Decision Node has no outgoing edges'')
      else case sort_key ?key ?es of e # _ \<Rightarrow> Inr (we_to e)
        | [] \<Rightarrow> Inl (Internal ''Decision Node has no matching edge for current context''))"
    by (simp add: evaluate_decision_def Let_def edge_enabled_def[abs_def])
  show ?thesis
  proof (cases "sort_key ?key ?es")
    case Nil
    then have "?es = []" by (metis set_empty set_sort)
    then show ?thesis using Nil by (auto simp: dec filter_empty_conv)
  next
    case (Cons e rest)
    have set: "set ?es = set (e # rest)" using Cons by (metis set_sort)
    have sorted: "sorted (map ?key (e # rest))" using Cons sorted_sort_key[of ?key ?es] by simp
    have "we_priority x \<le> we_priority e" if "x \<in> set ?es" for x
    proof -
      have "?key e \<le> ?key x" using sorted that unfolding set by auto
      moreover have "unat (we_priority x) \<le> 255" using unat_lt_pow[of "we_priority x"] by simp
      ultimately show ?thesis by (simp add: word_le_nat_alt)
    qed
    moreover have "e \<in> set ?es" unfolding set by simp
    ultimately show ?thesis using Cons by (auto simp: dec)
  qed
qed

end
