(* ===== verification/Actions.thy ===== *)
theory Actions
  imports Prelude
begin

text \<open>
  Calls that pass a state on and may fail: the state a failing call leaves behind stays, and \<open>seq\<close> is the
  question mark operator after a call.
\<close>

type_synonym ('s, 'a) action = "'s \<Rightarrow> 'a res \<times> 's"

definition ret :: "'a \<Rightarrow> ('s, 'a) action" where
  "ret x s = (Inr x, s)"

definition raise :: "contextra_error \<Rightarrow> ('s, 'a) action" where
  "raise e s = (Inl e, s)"

definition seq :: "('s, 'a) action \<Rightarrow> ('a \<Rightarrow> ('s, 'b) action) \<Rightarrow> ('s, 'b) action" where
  "seq m f s = (case m s of (Inl e, s') \<Rightarrow> (Inl e, s') | (Inr x, s') \<Rightarrow> f x s')"

definition lift :: "'a res \<Rightarrow> ('s, 'a) action" where
  "lift r s = (r, s)"

lemma seq_Inr:
  "seq m f s = (Inr y, s'') \<longleftrightarrow> (\<exists>x s'. m s = (Inr x, s') \<and> f x s' = (Inr y, s''))"
  by (auto simp: seq_def split: prod.splits sum.splits)

lemma seq_Inl:
  "seq m f s = (Inl e, s'') \<longleftrightarrow>
     m s = (Inl e, s'') \<or> (\<exists>x s'. m s = (Inr x, s') \<and> f x s' = (Inl e, s''))"
  by (auto simp: seq_def split: prod.splits sum.splits)

text \<open>An action obeys a relation when the state it leaves is related to the state it found.\<close>

definition obeys :: "('s \<Rightarrow> 's \<Rightarrow> bool) \<Rightarrow> ('s, 'a) action \<Rightarrow> bool" where
  "obeys R m \<longleftrightarrow> (\<forall>s. R s (snd (m s)))"

lemma obeysI: "(\<And>s. R s (snd (m s))) \<Longrightarrow> obeys R m"
  by (simp add: obeys_def)

lemma obeysD: "obeys R m \<Longrightarrow> R s (snd (m s))"
  by (simp add: obeys_def)

lemma obeys_result: "obeys R m \<Longrightarrow> m s = (r, s') \<Longrightarrow> R s s'"
  using obeysD[of R m s] by simp

text \<open>A preorder on states, and the actions composed of actions that obey it.\<close>

locale action_frame =
  fixes R :: "'s \<Rightarrow> 's \<Rightarrow> bool"
  assumes frame_refl: "R s s"
    and frame_trans: "R s s' \<Longrightarrow> R s' s'' \<Longrightarrow> R s s''"
begin

lemma obeys_ret: "obeys R (ret x)"
  by (simp add: obeys_def ret_def frame_refl)

lemma obeys_raise: "obeys R (raise e)"
  by (simp add: obeys_def raise_def frame_refl)

lemma obeys_lift: "obeys R (lift r)"
  by (simp add: obeys_def lift_def frame_refl)

lemma seq_frame:
  assumes "obeys R m" "\<And>x s'. m s = (Inr x, s') \<Longrightarrow> R s' (snd (f x s'))"
  shows "R s (snd (seq m f s))"
proof -
  obtain r s' where m: "m s = (r, s')" by (cases "m s")
  have "R s s'" by (rule obeys_result[OF assms(1) m])
  then show ?thesis using assms(2)[of _ s'] m by (cases r) (auto simp: seq_def intro: frame_trans)
qed

lemma obeys_seq:
  assumes "obeys R m" "\<And>x. obeys R (f x)"
  shows "obeys R (seq m f)"
  by (rule obeysI, rule seq_frame[OF assms(1)]) (rule obeysD[OF assms(2)])

end

end
