(* ===== verification/Checkpoint_Store.thy ===== *)
theory Checkpoint_Store
  imports Rust_Text Actions Snapshot_Registry "HOL-Library.Multiset" "HOL-Library.Code_Target_Nat"
begin

text \<open>
  The registry of named checkpoints, \<open>contextra-checkpoint/src\<close>: the manifest of a checkpoint
  (\<open>manifest.rs\<close>, \<open>meta.rs\<close>), the index in memory, the allocation of internal transaction ids and the
  operations of \<open>PersistentCheckpointStore\<close> (\<open>store.rs\<close>).

  The state is the store in memory and what lasts when the process ends: the documents of the
  namespace, the counter being one of them, the registry of orphans, and the pins of the storage engine (the registry of
  \<open>Snapshot_Registry\<close>). A call of the storage fails or not as \<open>F\<close> says for its number, and a call that fails
  may have taken effect all the same: the commit of \<open>LsmStorage\<close> applies its updates before the flush that can
  still fail it (\<open>lsm/ops/write.rs\<close>). A put or delete takes effect with its commit. A scan sees every document;
  \<open>storage.get\<close> of an engine that hides flushed internal writes, as \<open>LsmStorage\<close> does
  (\<open>Lsm_Reads.flush_hides_internal_writes\<close>), finds only those written after the last flush. The digest of a manifest and the
  rollback of the storage are arguments. Operations follow one another: the write lock orders all of them but
  \<open>get_checkpoint\<close>, \<open>load_checkpoint\<close> and \<open>list_checkpoints\<close>, which take none (\<open>stale_get_revives_checkpoint\<close> shows what a lookup
  does that runs beside a drop).
\<close>

section \<open>Metadata\<close>

record cp_meta =
  cp_name :: rstr
  cp_collection_id :: rstr
  cp_seq_no :: u64
  cp_tx_id :: u64
  cp_metadata :: json
  cp_created_at :: u64

record cp_manifest =
  mf_meta :: cp_meta
  mf_components :: "rstr list"
  mf_checksum :: rstr

type_synonym digest = "cp_meta \<times> rstr list \<Rightarrow> rstr"

definition validate_identifier :: "rstr \<Rightarrow> unit res" where
  "validate_identifier v =
     (if trim v = [] then Inl (InvalidInput ''identifier cannot be empty or whitespace-only'')
      else if length v > 256 then Inl (InvalidInput ''identifier exceeds maximum length of 256 characters'')
      else Inr ())"

definition manifest_new :: "digest \<Rightarrow> cp_meta \<Rightarrow> rstr list \<Rightarrow> cp_manifest res" where
  "manifest_new dg meta components =
     rbind (validate_identifier (cp_name meta)) (\<lambda>_.
     rbind (validate_identifier (cp_collection_id meta)) (\<lambda>_.
       if list_ex (\<lambda>c. trim c = []) components
       then Inl (InvalidInput ''Checkpoint component name cannot be empty'')
       else Inr \<lparr>mf_meta = meta, mf_components = components, mf_checksum = dg (meta, components)\<rparr>))"

definition manifest_verify :: "digest \<Rightarrow> cp_manifest \<Rightarrow> unit res" where
  "manifest_verify dg m =
     (if mf_checksum m \<noteq> dg (mf_meta m, mf_components m)
      then Inl (Serialization ''Checkpoint manifest checksum mismatch'') else Inr ())"

text \<open>The bytes of a document are a manifest, the older plain metadata, the counter, or none of them.\<close>

datatype cp_doc = Doc_Manifest cp_manifest | Doc_Meta cp_meta | Doc_Counter u64 | Doc_Other

definition parse_doc :: "digest \<Rightarrow> cp_doc \<Rightarrow> cp_meta res" where
  "parse_doc dg d =
     (case d of
        Doc_Manifest m \<Rightarrow> rbind (manifest_verify dg m) (\<lambda>_. Inr (mf_meta m))
      | Doc_Meta m \<Rightarrow> Inr m
      | _ \<Rightarrow> Inl (Serialization ''checkpoint''))"

section \<open>State\<close>

record cp_store =
  cs_by_seq :: "(u64 \<times> cp_meta) list"
  cs_by_name :: "(rstr \<times> u64) list"
  cs_tx_counter :: u64
  cs_allocated_hwm :: u64
  cs_clock :: u64

text \<open>
  The documents under \<open>namespace:checkpoint:\<close> by what follows this prefix: the name of the checkpoint, or the
  name the counter has. \<open>ks_flushed\<close> names those a flush has moved to tables, and \<open>ks_hides\<close> says whether the
  engine's \<open>get\<close> overlooks them.
\<close>

record cp_storage =
  ks_docs :: "(rstr \<times> cp_doc) list"
  ks_flushed :: "rstr list"
  ks_hides :: bool
  ks_last_tx :: u64
  ks_pins :: snapshot_registry
  ks_orphan_pins :: "u64 list"
  ks_orphan_checkpoints :: "u64 list"
  ks_calls :: nat

text \<open>The error of the call with this number, and whether the call has taken effect.\<close>

type_synonym faults = "nat \<Rightarrow> (contextra_error \<times> bool) option"
type_synonym 'a cp_act = "(cp_store \<times> cp_storage, 'a) action"

definition TX_BATCH_SIZE :: u64 where
  "TX_BATCH_SIZE = 100"

definition sys_tx_counter :: rstr where
  "sys_tx_counter = lit ''__sys_tx_counter__''"

text \<open>Keys that end with \<open>:__sys_tx_counter__\<close>; the prefix of the namespace ends with a colon.\<close>

definition skipped_name :: "rstr \<Rightarrow> bool" where
  "skipped_name name \<longleftrightarrow> suffix (lit '':'' @ sys_tx_counter) (lit '':'' @ name)"

definition storage_put :: "rstr \<Rightarrow> cp_doc \<Rightarrow> cp_storage \<Rightarrow> cp_storage" where
  "storage_put name d K = K\<lparr>ks_docs := AList.update name d (ks_docs K), ks_flushed := removeAll name (ks_flushed K)\<rparr>"

definition storage_delete :: "rstr \<Rightarrow> cp_storage \<Rightarrow> cp_storage" where
  "storage_delete name K = K\<lparr>ks_docs := AList.delete name (ks_docs K)\<rparr>"

definition storage_flush :: "cp_storage \<Rightarrow> cp_storage" where
  "storage_flush K = K\<lparr>ks_flushed := map fst (ks_docs K)\<rparr>"

definition storage_get :: "rstr \<Rightarrow> cp_storage \<Rightarrow> cp_doc option" where
  "storage_get name K = (if ks_hides K \<and> name \<in> set (ks_flushed K) then None else map_of (ks_docs K) name)"

text \<open>The mark that was committed last.\<close>

definition ks_hwm :: "cp_storage \<Rightarrow> u64 option" where
  "ks_hwm K = (case map_of (ks_docs K) sys_tx_counter of Some (Doc_Counter h) \<Rightarrow> Some h | _ \<Rightarrow> None)"

section \<open>Index\<close>

definition index_insert :: "cp_meta \<Rightarrow> cp_store \<Rightarrow> cp_store" where
  "index_insert meta S =
     (let by_seq = (case map_of (cs_by_name S) (cp_name meta) of
            Some old_seq \<Rightarrow> if old_seq \<noteq> cp_seq_no meta then AList.delete old_seq (cs_by_seq S) else cs_by_seq S
          | None \<Rightarrow> cs_by_seq S)
      in S\<lparr>cs_by_name := AList.update (cp_name meta) (cp_seq_no meta) (cs_by_name S),
           cs_by_seq := AList.update (cp_seq_no meta) meta by_seq\<rparr>)"

definition remove_by_name :: "rstr \<Rightarrow> cp_store \<Rightarrow> cp_store" where
  "remove_by_name name S =
     (case map_of (cs_by_name S) name of
        Some seq_no \<Rightarrow> S\<lparr>cs_by_name := AList.delete name (cs_by_name S), cs_by_seq := AList.delete seq_no (cs_by_seq S)\<rparr>
      | None \<Rightarrow> S)"

definition remove_by_seq :: "u64 \<Rightarrow> cp_store \<Rightarrow> cp_store" where
  "remove_by_seq seq_no S =
     (case map_of (cs_by_seq S) seq_no of
        Some meta \<Rightarrow>
          S\<lparr>cs_by_seq := AList.delete seq_no (cs_by_seq S),
            cs_by_name := (if map_of (cs_by_name S) (cp_name meta) = Some seq_no
              then AList.delete (cp_name meta) (cs_by_name S) else cs_by_name S)\<rparr>
      | None \<Rightarrow> S)"

definition get_by_name :: "rstr \<Rightarrow> cp_store \<Rightarrow> cp_meta option" where
  "get_by_name name S = Option.bind (map_of (cs_by_name S) name) (map_of (cs_by_seq S))"

definition get_by_seq :: "u64 \<Rightarrow> cp_store \<Rightarrow> cp_meta option" where
  "get_by_seq seq_no S = map_of (cs_by_seq S) seq_no"

definition index_clear :: "cp_store \<Rightarrow> cp_store" where
  "index_clear S = S\<lparr>cs_by_seq := [], cs_by_name := []\<rparr>"

section \<open>Transaction ids\<close>

definition storage_call :: "faults \<Rightarrow> (cp_storage \<Rightarrow> cp_storage) \<Rightarrow> unit cp_act" where
  "storage_call F g = (\<lambda>(S, K).
     let K' = K\<lparr>ks_calls := ks_calls K + 1\<rparr> in
     case F (ks_calls K) of
       None \<Rightarrow> (Inr (), (S, g K'))
     | Some (e, took) \<Rightarrow> (Inl e, (S, if took then g K' else K')))"

text \<open>A call that only reads or stages.\<close>

abbreviation cp_call :: "faults \<Rightarrow> unit cp_act" where
  "cp_call F \<equiv> storage_call F id"

text \<open>A call whose error is only logged; the answer says whether it succeeded.\<close>

definition try_call :: "faults \<Rightarrow> (cp_storage \<Rightarrow> cp_storage) \<Rightarrow> bool cp_act" where
  "try_call F g s = (case storage_call F g s of (Inr _, s') \<Rightarrow> (Inr True, s') | (Inl _, s') \<Rightarrow> (Inr False, s'))"

text \<open>A call after whose failure the transaction is rolled back.\<close>

definition guarded_call :: "faults \<Rightarrow> (cp_storage \<Rightarrow> cp_storage) \<Rightarrow> unit cp_act" where
  "guarded_call F g s =
     (case storage_call F g s of (Inr u, s') \<Rightarrow> (Inr u, s') | (Inl e, s') \<Rightarrow> (Inl e, snd (try_call F id s')))"

definition put_state :: "(cp_store \<Rightarrow> cp_store) \<Rightarrow> (cp_storage \<Rightarrow> cp_storage) \<Rightarrow> unit cp_act" where
  "put_state f g = (\<lambda>(S, K). (Inr (), (f S, g K)))"

text \<open>Put, commit and flush; the mark lasts from the commit on.\<close>

definition persist_hwm :: "faults \<Rightarrow> u64 \<Rightarrow> unit cp_act" where
  "persist_hwm F hwm =
     seq (cp_call F) (\<lambda>_. seq (storage_call F (storage_put sys_tx_counter (Doc_Counter hwm))) (\<lambda>_.
       storage_call F storage_flush))"

definition allocate_tx :: "faults \<Rightarrow> u64 cp_act" where
  "allocate_tx F = (\<lambda>(S, K).
     let raw = cs_tx_counter S; s1 = (S\<lparr>cs_tx_counter := raw + 1\<rparr>, K) in
     if raw \<ge> 1000000 then (Inl (Internal ''Checkpoint TxId counter overflow''), s1)
     else if raw \<ge> cs_allocated_hwm S
     then let new_hwm = raw + TX_BATCH_SIZE - 1 in
          seq (persist_hwm F new_hwm) (\<lambda>_. seq (put_state (\<lambda>S. S\<lparr>cs_allocated_hwm := new_hwm\<rparr>) id)
            (\<lambda>_. ret (INTERNAL_BASE + raw))) s1
     else (Inr (INTERNAL_BASE + raw), s1))"

text \<open>The offset of an internal transaction id.\<close>

definition raw_of :: "u64 \<Rightarrow> u64 option" where
  "raw_of tx = (if tx \<ge> INTERNAL_BASE then Some (tx - INTERNAL_BASE) else None)"

definition doc_tx :: "cp_doc \<Rightarrow> u64 option" where
  "doc_tx d = (case d of Doc_Manifest m \<Rightarrow> Some (cp_tx_id (mf_meta m)) | Doc_Meta m \<Rightarrow> Some (cp_tx_id m) | _ \<Rightarrow> None)"

definition scan_max :: "u64 option list \<Rightarrow> u64 option" where
  "scan_max xs = fold (\<lambda>x acc. case x of None \<Rightarrow> acc
     | Some r \<Rightarrow> (case acc of None \<Rightarrow> Some r | Some m \<Rightarrow> Some (max m r))) xs None"

abbreviation pins_map :: "(snapshot_registry \<Rightarrow> snapshot_registry) \<Rightarrow> cp_storage \<Rightarrow> cp_storage" where
  "pins_map f K \<equiv> K\<lparr>ks_pins := f (ks_pins K)\<rparr>"

fun unpin_orphans :: "faults \<Rightarrow> u64 list \<Rightarrow> cp_store \<times> cp_storage \<Rightarrow> u64 list \<times> (cp_store \<times> cp_storage)" where
  "unpin_orphans F [] s = ([], s)"
| "unpin_orphans F (p # ps) s =
     (case try_call F (pins_map (snapshot_unpin p)) s of
        (Inr True, (S, K)) \<Rightarrow>
          (case unpin_orphans F ps (S, K\<lparr>ks_orphan_pins := filter (\<lambda>q. q \<noteq> p) (ks_orphan_pins K)\<rparr>) of
             (recovered, s') \<Rightarrow> (p # recovered, s'))
      | (_, s') \<Rightarrow> unpin_orphans F ps s')"

text \<open>The store right after the process starts; its index is empty.\<close>

definition cp_store_new :: "u64 \<Rightarrow> u64 \<Rightarrow> cp_store" where
  "cp_store_new start_raw hwm =
     \<lparr>cs_by_seq = [], cs_by_name = [], cs_tx_counter = start_raw, cs_allocated_hwm = hwm, cs_clock = 0\<rparr>"

definition scanned_max_raw :: "bool \<Rightarrow> cp_storage \<Rightarrow> u64 option" where
  "scanned_max_raw last_ok K =
     scan_max (map (\<lambda>d. Option.bind (doc_tx d) raw_of) (map snd (ks_docs K))
       @ [if last_ok then raw_of (ks_last_tx K) else None])"

definition open_store :: "faults \<Rightarrow> unit cp_act" where
  "open_store F =
     seq (cp_call F) (\<lambda>_. seq (try_call F id) (\<lambda>last_ok. seq (try_call F id) (\<lambda>counter_ok (S, K).
       let scanned = scanned_max_raw last_ok K;
           persisted = (case storage_get sys_tx_counter K of
               Some (Doc_Counter h) \<Rightarrow> if counter_ok then Some h else None | _ \<Rightarrow> None)
       in if (case (persisted, scanned) of (Some p, Some s) \<Rightarrow> p < s | _ \<Rightarrow> False)
          then (Inl (Internal ''TxId collision / regression detected in namespace''), (S, K))
          else let start_raw = (case persisted of Some p \<Rightarrow> p + 1
                     | None \<Rightarrow> (case scanned of Some s \<Rightarrow> s + 1 | None \<Rightarrow> 0));
                   hwm = (case persisted of Some p \<Rightarrow> p | None \<Rightarrow> (case scanned of Some s \<Rightarrow> s | None \<Rightarrow> 0))
               in (Inr (), snd (unpin_orphans F (ks_orphan_pins K) (cp_store_new start_raw hwm, K))))))"

section \<open>Operations\<close>

definition get_checkpoint_internal :: "faults \<Rightarrow> digest \<Rightarrow> rstr \<Rightarrow> cp_meta option cp_act" where
  "get_checkpoint_internal F dg name = (\<lambda>(S, K).
     case get_by_name name S of
       Some cp \<Rightarrow> (Inr (Some cp), (S, K))
     | None \<Rightarrow>
         seq (cp_call F) (\<lambda>_ (S, K).
           case storage_get name K of
             Some d \<Rightarrow> seq (lift (parse_doc dg d)) (\<lambda>meta. seq (put_state (index_insert meta) id) (\<lambda>_. ret (Some meta))) (S, K)
           | None \<Rightarrow> (Inr None, (S, K))) (S, K))"

definition get_checkpoint :: "faults \<Rightarrow> digest \<Rightarrow> rstr \<Rightarrow> cp_meta option cp_act" where
  "get_checkpoint F dg name = seq (lift (validate_identifier name)) (\<lambda>_. get_checkpoint_internal F dg name)"

definition save_checkpoint_internal :: "faults \<Rightarrow> digest \<Rightarrow> cp_meta \<Rightarrow> unit cp_act" where
  "save_checkpoint_internal F dg meta =
     seq (lift (manifest_new dg meta [lit ''storage''])) (\<lambda>m.
     seq (allocate_tx F) (\<lambda>tx. seq (guarded_call F id) (\<lambda>_.
     seq (guarded_call F (storage_put (cp_name meta) (Doc_Manifest m))) (\<lambda>_. put_state (index_insert meta) id))))"

definition save_checkpoint :: "faults \<Rightarrow> digest \<Rightarrow> cp_meta \<Rightarrow> unit cp_act" where
  "save_checkpoint F dg meta = save_checkpoint_internal F dg meta"

definition unpin_quietly :: "faults \<Rightarrow> u64 \<Rightarrow> unit cp_act" where
  "unpin_quietly F seq_no = seq (try_call F (pins_map (snapshot_unpin seq_no))) (\<lambda>_. ret ())"

text \<open>\<open>monotonic_timestamp_ms\<close>; \<open>wall\<close> is the time of the system.\<close>

definition cp_timestamp :: "u64 \<Rightarrow> cp_store \<Rightarrow> u64 \<times> cp_store" where
  "cp_timestamp wall S = (max (cs_clock S) wall, S\<lparr>cs_clock := max (cs_clock S) wall\<rparr>)"

text \<open>A checkpoint that is replaced at another sequence number gives its pin back.\<close>

definition retire_old :: "faults \<Rightarrow> u64 \<Rightarrow> cp_meta option \<Rightarrow> unit cp_act" where
  "retire_old F seq_no old =
     (case old of
        Some prev \<Rightarrow> if cp_seq_no prev \<noteq> seq_no
          then seq (unpin_quietly F (cp_seq_no prev)) (\<lambda>_. put_state (remove_by_seq (cp_seq_no prev)) id)
          else ret ()
      | None \<Rightarrow> ret ())"

definition create_checkpoint ::
  "faults \<Rightarrow> digest \<Rightarrow> u64 \<Rightarrow> rstr \<Rightarrow> rstr \<Rightarrow> u64 \<Rightarrow> u64 \<Rightarrow> json \<Rightarrow> cp_meta cp_act" where
  "create_checkpoint F dg wall name collection seq_no tx_id metadata =
     seq (lift (validate_identifier name)) (\<lambda>_. seq (lift (validate_identifier collection)) (\<lambda>_ (S0, K0).
       case cp_timestamp wall S0 of (created, S1) \<Rightarrow>
       let meta = \<lparr>cp_name = name, cp_collection_id = collection, cp_seq_no = seq_no, cp_tx_id = tx_id,
                   cp_metadata = metadata, cp_created_at = created\<rparr> in
       seq (get_checkpoint_internal F dg name) (\<lambda>old.
       seq (storage_call F (pins_map (snapshot_pin seq_no))) (\<lambda>_ s.
         case save_checkpoint_internal F dg meta s of
           (Inl e, s') \<Rightarrow> (Inl e, snd (unpin_quietly F seq_no s'))
         | (Inr _, s') \<Rightarrow>
             seq (retire_old F seq_no old) (\<lambda>_. seq (put_state (index_insert meta) id) (\<lambda>_. ret meta)) s')) (S1, K0)))"

definition drop_checkpoint :: "faults \<Rightarrow> digest \<Rightarrow> rstr \<Rightarrow> unit cp_act" where
  "drop_checkpoint F dg name =
     seq (lift (validate_identifier name)) (\<lambda>_.
     seq (get_checkpoint_internal F dg name) (\<lambda>found.
       case found of
         None \<Rightarrow> ret ()
       | Some cp \<Rightarrow>
           seq (allocate_tx F) (\<lambda>tx. seq (guarded_call F id) (\<lambda>_. seq (guarded_call F (storage_delete name)) (\<lambda>_.
           seq (unpin_quietly F (cp_seq_no cp)) (\<lambda>_. put_state (remove_by_name (cp_name cp)) id))))))"

fun parse_docs :: "digest \<Rightarrow> cp_doc list \<Rightarrow> cp_meta list res" where
  "parse_docs dg [] = Inr []"
| "parse_docs dg (d # ds) = rbind (parse_doc dg d) (\<lambda>m. rbind (parse_docs dg ds) (\<lambda>ms. Inr (m # ms)))"

text \<open>A scan gives the documents in the order of their keys.\<close>

definition list_checkpoints :: "faults \<Rightarrow> digest \<Rightarrow> cp_meta list cp_act" where
  "list_checkpoints F dg =
     seq (cp_call F) (\<lambda>_ (S, K).
       seq (lift (parse_docs dg (map snd (filter (\<lambda>(n, _). \<not> skipped_name n) (sort_key fst (ks_docs K)))))) (\<lambda>ms.
       seq (put_state (\<lambda>S. fold index_insert ms (index_clear S)) id) (\<lambda>_. ret (sort_key cp_seq_no ms))) (S, K))"

definition load_checkpoint :: "faults \<Rightarrow> digest \<Rightarrow> u64 \<Rightarrow> cp_meta option cp_act" where
  "load_checkpoint F dg seq_no = (\<lambda>(S, K).
     case get_by_seq seq_no S of
       Some meta \<Rightarrow> (Inr (Some meta), (S, K))
     | None \<Rightarrow> seq (list_checkpoints F dg) (\<lambda>ms. ret (find (\<lambda>m. cp_seq_no m = seq_no) ms)) (S, K))"

definition restore_checkpoint ::
  "(u64 \<Rightarrow> cp_storage \<Rightarrow> cp_storage) \<Rightarrow> faults \<Rightarrow> digest \<Rightarrow> rstr \<Rightarrow> cp_meta cp_act" where
  "restore_checkpoint rollback_to_tx F dg name =
     seq (lift (validate_identifier name)) (\<lambda>_.
     seq (get_checkpoint_internal F dg name) (\<lambda>found.
     seq (lift (ok_or CheckpointNotFound found)) (\<lambda>meta.
     seq (cp_call F) (\<lambda>_ (S, K).
       if ks_last_tx K > cp_tx_id meta then (Inl (Transaction ''Serialization barrier violation''), (S, K))
       else seq (storage_call F (rollback_to_tx (cp_tx_id meta))) (\<lambda>_.
            seq (list_checkpoints F dg) (\<lambda>_. ret meta)) (S, K)))))"

definition recover_orphaned_pins :: "faults \<Rightarrow> u64 list cp_act" where
  "recover_orphaned_pins F = (\<lambda>(S, K).
     case unpin_orphans F (ks_orphan_pins K) (S, K) of (recovered, s') \<Rightarrow> (Inr recovered, s'))"

fun recover_checkpoints ::
  "(u64 \<Rightarrow> cp_storage \<Rightarrow> cp_storage) \<Rightarrow> faults \<Rightarrow> u64 \<Rightarrow> u64 list \<Rightarrow> cp_store \<times> cp_storage
     \<Rightarrow> u64 list \<times> (cp_store \<times> cp_storage)" where
  "recover_checkpoints rb F last_tx [] s = ([], s)"
| "recover_checkpoints rb F last_tx (t # ts) (S, K) =
     (let drop = (\<lambda>K. K\<lparr>ks_orphan_checkpoints := filter (\<lambda>u. u \<noteq> t) (ks_orphan_checkpoints K)\<rparr>) in
      if last_tx \<le> t
      then case try_call F (rb t) (S, K) of
             (Inr True, (S', K')) \<Rightarrow>
               (case recover_checkpoints rb F last_tx ts (S', drop K') of (r, s') \<Rightarrow> (t # r, s'))
           | (_, s') \<Rightarrow> recover_checkpoints rb F last_tx ts s'
      else recover_checkpoints rb F last_tx ts (S, drop K))"

definition recover_orphaned_checkpoints ::
  "(u64 \<Rightarrow> cp_storage \<Rightarrow> cp_storage) \<Rightarrow> faults \<Rightarrow> u64 list cp_act" where
  "recover_orphaned_checkpoints rb F = (\<lambda>(S, K). seq (cp_call F) (\<lambda>_ (S', K').
     case recover_checkpoints rb F (ks_last_tx K') (ks_orphan_checkpoints K) (S', K') of (r, s') \<Rightarrow> (Inr r, s')) (S, K))"

section \<open>Transaction ids are unique\<close>

text \<open>
  Histories of the counter: allocations, successful or not, a restart that finds the process' memory
  gone and reads the counter (no error, and the engine's \<open>get\<close> does not overlook it), and operations that change the documents, the index or the pins. The counter has not
  been asked \<open>2 ^ 64 - 1\<close> times.
\<close>

inductive cp_reach :: "u64 set \<Rightarrow> cp_store \<times> cp_storage \<Rightarrow> bool" where
  cp_init: "ks_hwm K = None \<Longrightarrow> cp_reach {} (cp_store_new 0 0, K)"
| cp_alloc: "cp_reach used s \<Longrightarrow> cs_tx_counter (fst s) < - 1 \<Longrightarrow> allocate_tx F s = (r, s') \<Longrightarrow>
    cp_reach (case r of Inr t \<Rightarrow> insert t used | Inl _ \<Rightarrow> used) s'"
| cp_reopen: "cp_reach used (S, K) \<Longrightarrow> F (ks_calls K + 2) = None \<Longrightarrow>
    (ks_hides K \<longrightarrow> sys_tx_counter \<notin> set (ks_flushed K)) \<Longrightarrow> open_store F (S0, K) = (Inr u, s') \<Longrightarrow>
    cp_reach used s'"
| cp_other: "cp_reach used (S, K) \<Longrightarrow> cs_tx_counter S' = cs_tx_counter S \<Longrightarrow>
    cs_allocated_hwm S' = cs_allocated_hwm S \<Longrightarrow> ks_hwm K' = ks_hwm K \<Longrightarrow> cp_reach used (S', K')"

definition ids_ok :: "u64 set \<Rightarrow> cp_store \<times> cp_storage \<Rightarrow> bool" where
  "ids_ok used s \<longleftrightarrow> (let (S, K) = s in
     (\<forall>t\<in>used. \<exists>r h. t = INTERNAL_BASE + r \<and> r < cs_tx_counter S \<and> ks_hwm K = Some h \<and> r \<le> h)
     \<and> (cs_allocated_hwm S \<le> cs_tx_counter S \<or> (\<exists>h. ks_hwm K = Some h \<and> cs_allocated_hwm S \<le> h))
     \<and> (\<forall>h. ks_hwm K = Some h \<longrightarrow> h < 2000000))"

lemma storage_call_effect: "storage_call F g (S, K) = (r, s') \<Longrightarrow>
    s' = (S, g (K\<lparr>ks_calls := ks_calls K + 1\<rparr>)) \<or> (\<exists>e. r = Inl e \<and> s' = (S, K\<lparr>ks_calls := ks_calls K + 1\<rparr>))"
  by (auto simp: storage_call_def Let_def split: option.splits if_splits)

lemma cp_call_effect: "cp_call F (S, K) = (r, s') \<Longrightarrow> s' = (S, K\<lparr>ks_calls := ks_calls K + 1\<rparr>)"
  using storage_call_effect[of F id S K r s'] by auto

lemma try_call_effect:
  "try_call F g (S, K) = (Inr (F (ks_calls K) = None),
     (S, if F (ks_calls K) = None \<or> snd (the (F (ks_calls K))) then g (K\<lparr>ks_calls := ks_calls K + 1\<rparr>) else K\<lparr>ks_calls := ks_calls K + 1\<rparr>))"
  by (auto simp: try_call_def storage_call_def Let_def split: option.split)

lemma try_read_effect:
  "try_call F id (S, K) = (Inr (F (ks_calls K) = None), (S, K\<lparr>ks_calls := ks_calls K + 1\<rparr>))"
  by (simp add: try_call_effect)

text \<open>The same documents but for the counter, which may have been written.\<close>

definition kept_docs :: "cp_storage \<Rightarrow> cp_storage \<Rightarrow> bool" where
  "kept_docs K K' \<longleftrightarrow> ks_hides K' = ks_hides K \<and> (distinct (map fst (ks_docs K)) \<longrightarrow> distinct (map fst (ks_docs K')))
     \<and> (\<forall>n. n \<noteq> sys_tx_counter \<longrightarrow> map_of (ks_docs K') n = map_of (ks_docs K) n)
     \<and> (map_of (ks_docs K') sys_tx_counter = map_of (ks_docs K) sys_tx_counter
        \<or> (\<exists>h. map_of (ks_docs K') sys_tx_counter = Some (Doc_Counter h)))"

lemma kept_docs_refl [simp]: "ks_docs K' = ks_docs K \<Longrightarrow> ks_hides K' = ks_hides K \<Longrightarrow> kept_docs K K'"
  by (simp add: kept_docs_def)

lemma kept_docs_trans: "kept_docs K K' \<Longrightarrow> kept_docs K' K'' \<Longrightarrow> kept_docs K K''"
  unfolding kept_docs_def by metis

lemma kept_docs_counter: "kept_docs K (storage_put sys_tx_counter (Doc_Counter h) K)"
  by (simp add: kept_docs_def storage_put_def update_conv distinct_update)

lemma ks_hwm_put [simp]: "ks_hwm (storage_put sys_tx_counter (Doc_Counter h) K) = Some h"
  by (simp add: ks_hwm_def storage_put_def update_conv)

lemma ks_hwm_flush [simp]: "ks_hwm (storage_flush K) = ks_hwm K"
  by (simp add: ks_hwm_def storage_flush_def)

lemma ks_hwm_calls [simp]: "ks_hwm (K\<lparr>ks_calls := n\<rparr>) = ks_hwm K"
  by (simp add: ks_hwm_def)

lemma persist_hwm_effect:
  assumes "persist_hwm F h (S, K) = (r, (S', K'))"
  shows "S' = S" "kept_docs K K'" "ks_hwm K' = ks_hwm K \<or> ks_hwm K' = Some h" "r = Inr u \<Longrightarrow> ks_hwm K' = Some h"
    "ks_pins K' = ks_pins K"
proof -
  let ?put = "storage_put sys_tx_counter (Doc_Counter h)"
  obtain r1 s1 where c1: "cp_call F (S, K) = (r1, s1)" by (cases "cp_call F (S, K)")
  have s1: "s1 = (S, K\<lparr>ks_calls := ks_calls K + 1\<rparr>)" by (rule cp_call_effect[OF c1])
  obtain K1 where K1: "s1 = (S, K1)" "ks_docs K1 = ks_docs K" "ks_hides K1 = ks_hides K" "ks_pins K1 = ks_pins K" by (simp add: s1)
  obtain r2 s2 where c2: "storage_call F ?put (S, K1) = (r2, s2)" by (cases "storage_call F ?put (S, K1)")
  obtain K2 where K2: "s2 = (S, K2)" "kept_docs K1 K2" "ks_pins K2 = ks_pins K" "ks_hwm K2 = ks_hwm K \<or> ks_hwm K2 = Some h"
    "\<And>u. r2 = Inr u \<Longrightarrow> ks_hwm K2 = Some h"
  proof -
    let ?K = "K1\<lparr>ks_calls := ks_calls K1 + 1\<rparr>"
    have "kept_docs K1 (?put ?K)" using kept_docs_trans[OF _ kept_docs_counter, of K1 ?K h] by simp
    moreover have "ks_hwm K1 = ks_hwm K" using K1(2) by (simp add: ks_hwm_def)
    moreover have "ks_pins (?put ?K) = ks_pins K" using K1(4) by (simp add: storage_put_def)
    moreover have "s2 = (S, ?put ?K) \<or> (\<exists>e. r2 = Inl e \<and> s2 = (S, ?K))" by (rule storage_call_effect[OF c2])
    ultimately show thesis using that[of "?put ?K"] that[of ?K] K1(4) by auto
  qed
  obtain r3 s3 where c3: "storage_call F storage_flush (S, K2) = (r3, s3)" by (cases "storage_call F storage_flush (S, K2)")
  obtain K3 where K3: "s3 = (S, K3)" "ks_docs K3 = ks_docs K2" "ks_hides K3 = ks_hides K2" "ks_pins K3 = ks_pins K2" "ks_hwm K3 = ks_hwm K2"
    using storage_call_effect[OF c3] by (auto simp: storage_flush_def ks_hwm_def)
  have "kept_docs K K1" "kept_docs K2 K3" using K1 K3 by simp_all
  then have docs: "kept_docs K K2" "kept_docs K K3" using K2(2) kept_docs_trans by blast+
  have "(S', K') = (S, K1) \<and> r = r1 \<and> (\<exists>e. r1 = Inl e) \<or> (S', K') = (S, K2) \<and> r = r2 \<and> (\<exists>e. r2 = Inl e)
      \<or> (S', K') = (S, K3) \<and> r = r3 \<and> (\<exists>u. r2 = Inr u)"
    using assms K1(1) K2(1) K3(1) by (auto simp: persist_hwm_def seq_def c1 c2 c3 split: sum.splits)
  moreover have "ks_hwm K1 = ks_hwm K" using K1(2) by (simp add: ks_hwm_def)
  ultimately show "S' = S" "kept_docs K K'" "ks_hwm K' = ks_hwm K \<or> ks_hwm K' = Some h" "r = Inr u \<Longrightarrow> ks_hwm K' = Some h"
    "ks_pins K' = ks_pins K"
    using K1 K2 K3 docs \<open>kept_docs K K1\<close> by auto
qed

lemma allocate_tx_effect:
  assumes "allocate_tx F (S, K) = (r, (S', K'))"
  obtains (overflow) e where "r = Inl e" "1000000 \<le> cs_tx_counter S"
      "S' = S\<lparr>cs_tx_counter := cs_tx_counter S + 1\<rparr>" "K' = K"
  | (within) "r = Inr (INTERNAL_BASE + cs_tx_counter S)" "cs_tx_counter S < 1000000"
      "cs_tx_counter S < cs_allocated_hwm S" "S' = S\<lparr>cs_tx_counter := cs_tx_counter S + 1\<rparr>" "K' = K"
  | (failed) e where "r = Inl e" "cs_tx_counter S < 1000000" "cs_allocated_hwm S \<le> cs_tx_counter S"
      "S' = S\<lparr>cs_tx_counter := cs_tx_counter S + 1\<rparr>" "kept_docs K K'" "ks_pins K' = ks_pins K"
      "ks_hwm K' = ks_hwm K \<or> ks_hwm K' = Some (cs_tx_counter S + 99)"
  | (extended) "r = Inr (INTERNAL_BASE + cs_tx_counter S)" "cs_tx_counter S < 1000000"
      "S' = S\<lparr>cs_tx_counter := cs_tx_counter S + 1, cs_allocated_hwm := cs_tx_counter S + 99\<rparr>"
      "kept_docs K K'" "ks_pins K' = ks_pins K" "ks_hwm K' = Some (cs_tx_counter S + 99)"
proof -
  let ?raw = "cs_tx_counter S"
  let ?S1 = "S\<lparr>cs_tx_counter := ?raw + 1\<rparr>"
  consider "1000000 \<le> ?raw" | "?raw < 1000000" "?raw < cs_allocated_hwm S" | "?raw < 1000000" "cs_allocated_hwm S \<le> ?raw"
    by force
  then show thesis
  proof cases
    case 1
    then show thesis using assms overflow by (auto simp: allocate_tx_def Let_def)
  next
    case 2
    then have "\<not> 1000000 \<le> ?raw" "\<not> cs_allocated_hwm S \<le> ?raw" by auto
    then have "r = Inr (INTERNAL_BASE + ?raw)" "S' = ?S1" "K' = K" using assms by (auto simp: allocate_tx_def Let_def)
    then show thesis using within 2 by blast
  next
    case 3
    obtain r1 S1 K1 where p: "persist_hwm F (?raw + 99) (?S1, K) = (r1, (S1, K1))" by (metis surj_pair)
    note e = persist_hwm_effect[OF p]
    have "\<not> 1000000 \<le> ?raw" using 3(1) by auto
    then have body: "(case r1 of Inl e \<Rightarrow> (Inl e, (S1, K1))
      | Inr u \<Rightarrow> (Inr (INTERNAL_BASE + ?raw), (S1\<lparr>cs_allocated_hwm := ?raw + 99\<rparr>, K1))) = (r, (S', K'))"
      using assms 3 p by (auto simp: allocate_tx_def Let_def TX_BATCH_SIZE_def seq_def put_state_def ret_def
          add_diff_eq[symmetric] split: sum.splits)
    show thesis
    proof (cases r1)
      case (Inl err)
      then show thesis using body e 3 failed by auto
    next
      case (Inr u)
      then show thesis using body e 3 extended by auto
    qed
  qed
qed

lemma raw_of_small: "raw_of tx = Some r \<Longrightarrow> r \<le> 1000000"
proof -
  assume "raw_of tx = Some r"
  then have tx: "INTERNAL_BASE \<le> tx" "r = tx - INTERNAL_BASE" by (auto simp: raw_of_def split: if_splits)
  have base: "unat INTERNAL_BASE = 2 ^ 64 - 1000001" by (simp add: INTERNAL_BASE_def)
  have "unat r = unat tx - unat INTERNAL_BASE" using tx by (simp add: unat_sub)
  moreover have "unat tx < 2 ^ 64" using unat_lt_pow[of tx] by simp
  ultimately have "unat r \<le> 1000000" using base by simp
  then show ?thesis by (simp add: word_le_nat_alt)
qed

lemma scan_max_mem: "scan_max xs = Some r \<Longrightarrow> Some r \<in> set xs"
proof -
  let ?f = "\<lambda>x acc. case x of None \<Rightarrow> acc | Some r \<Rightarrow> (case acc of None \<Rightarrow> Some r | Some m \<Rightarrow> Some (max m r :: u64))"
  have "fold ?f xs acc = Some r \<Longrightarrow> Some r \<in> set xs \<or> acc = Some r" for acc
  proof (induction xs arbitrary: acc)
    case (Cons x xs)
    have "Some r \<in> set xs \<or> ?f x acc = Some r" using Cons by simp
    then show ?case by (cases x; cases acc) (auto simp: max_def split: if_splits)
  qed simp
  then show "scan_max xs = Some r \<Longrightarrow> Some r \<in> set xs" by (auto simp: scan_max_def)
qed

lemma scanned_small: "scanned_max_raw b K = Some r \<Longrightarrow> r \<le> 1000000"
proof -
  assume "scanned_max_raw b K = Some r"
  then have "Some r \<in> set (map (\<lambda>d. Option.bind (doc_tx d) raw_of) (map snd (ks_docs K))
       @ [if b then raw_of (ks_last_tx K) else None])"
    unfolding scanned_max_raw_def by (rule scan_max_mem)
  then obtain tx where "raw_of tx = Some r" by (auto split: if_splits Option.bind_splits)
  then show ?thesis by (rule raw_of_small)
qed

lemma unpin_orphans_keeps:
  "ks_docs (snd (snd (unpin_orphans F ps (S, K)))) = ks_docs K \<and> ks_hides (snd (snd (unpin_orphans F ps (S, K)))) = ks_hides K
     \<and> fst (snd (unpin_orphans F ps (S, K))) = S"
proof (induction ps arbitrary: K)
  case (Cons p ps)
  then show ?case by (cases "F (ks_calls K)") (simp_all add: try_call_effect case_prod_beta)
qed simp

lemma open_store_result:
  assumes "open_store F (S, K) = (Inr u, (S', K'))"
  shows "ks_docs K' = ks_docs K" "ks_hides K' = ks_hides K"
    "\<exists>start hwm. S' = cp_store_new start hwm \<and>
      (F (ks_calls K + 2) = None \<longrightarrow> (ks_hides K \<longrightarrow> sys_tx_counter \<notin> set (ks_flushed K)) \<longrightarrow>
        (let sc = scanned_max_raw (F (ks_calls K + 1) = None) (K\<lparr>ks_calls := ks_calls K + 3\<rparr>) in
         start = (case ks_hwm K of Some p \<Rightarrow> p + 1 | None \<Rightarrow> (case sc of Some s \<Rightarrow> s + 1 | None \<Rightarrow> 0))
         \<and> hwm = (case ks_hwm K of Some p \<Rightarrow> p | None \<Rightarrow> (case sc of Some s \<Rightarrow> s | None \<Rightarrow> 0))))"
proof -
  let ?K = "K\<lparr>ks_calls := ks_calls K + 3\<rparr>"
  let ?sc = "scanned_max_raw (F (ks_calls K + 1) = None) ?K"
  define persisted where "persisted = (case storage_get sys_tx_counter ?K of
     Some (Doc_Counter h) \<Rightarrow> if F (ks_calls K + 2) = None then Some h else None | _ \<Rightarrow> None)"
  define start where "start = (case persisted of Some p \<Rightarrow> p + 1 | None \<Rightarrow> (case ?sc of Some s \<Rightarrow> s + 1 | None \<Rightarrow> 0))"
  define hwm where "hwm = (case persisted of Some p \<Rightarrow> p | None \<Rightarrow> (case ?sc of Some s \<Rightarrow> s | None \<Rightarrow> 0))"
  have calls: "ks_calls K + 1 = Suc (ks_calls K)" "ks_calls K + 2 = Suc (Suc (ks_calls K))" "ks_calls K + 3 = Suc (Suc (Suc (ks_calls K)))"
    by simp_all
  have ok: "F (ks_calls K) = None"
    using assms by (auto simp: open_store_def seq_def storage_call_def Let_def split: option.splits)
  have S': "(S', K') = snd (unpin_orphans F (ks_orphan_pins ?K) (cp_store_new start hwm, ?K))"
    using assms unfolding start_def hwm_def persisted_def calls
    by (simp add: open_store_def seq_def storage_call_def try_read_effect Let_def numeral_3_eq_3 ok split: if_splits)
  have keep: "ks_docs K' = ks_docs K" "ks_hides K' = ks_hides K" "S' = cp_store_new start hwm"
    using unpin_orphans_keeps[of F "ks_orphan_pins ?K" "cp_store_new start hwm" ?K] S'[symmetric] by simp_all
  then show "ks_docs K' = ks_docs K" "ks_hides K' = ks_hides K" by simp_all
  have "persisted = ks_hwm K" if "F (ks_calls K + 2) = None" "ks_hides K \<longrightarrow> sys_tx_counter \<notin> set (ks_flushed K)"
    using that by (auto simp: persisted_def storage_get_def ks_hwm_def split: option.split cp_doc.split)
  then have eqs: "F (ks_calls K + 2) = None \<longrightarrow> (ks_hides K \<longrightarrow> sys_tx_counter \<notin> set (ks_flushed K)) \<longrightarrow>
      start = (case ks_hwm K of Some p \<Rightarrow> p + 1 | None \<Rightarrow> (case ?sc of Some s \<Rightarrow> s + 1 | None \<Rightarrow> 0))
      \<and> hwm = (case ks_hwm K of Some p \<Rightarrow> p | None \<Rightarrow> (case ?sc of Some s \<Rightarrow> s | None \<Rightarrow> 0))"
    unfolding start_def hwm_def by blast
  show "\<exists>start hwm. S' = cp_store_new start hwm \<and>
      (F (ks_calls K + 2) = None \<longrightarrow> (ks_hides K \<longrightarrow> sys_tx_counter \<notin> set (ks_flushed K)) \<longrightarrow>
        (let sc = ?sc in
         start = (case ks_hwm K of Some p \<Rightarrow> p + 1 | None \<Rightarrow> (case sc of Some s \<Rightarrow> s + 1 | None \<Rightarrow> 0))
         \<and> hwm = (case ks_hwm K of Some p \<Rightarrow> p | None \<Rightarrow> (case sc of Some s \<Rightarrow> s | None \<Rightarrow> 0))))"
    unfolding Let_def by (intro exI[of _ start] exI[of _ hwm] conjI keep(3) eqs)
qed

lemma open_store_effect:
  assumes "open_store F (S, K) = (Inr u, (S', K'))" "F (ks_calls K + 2) = None"
    "ks_hides K \<longrightarrow> sys_tx_counter \<notin> set (ks_flushed K)"
  shows "ks_hwm K' = ks_hwm K"
    "ks_hwm K = Some p \<Longrightarrow> S' = cp_store_new (p + 1) p"
    "ks_hwm K = None \<Longrightarrow> \<exists>n h. h \<le> n \<and> S' = cp_store_new n h"
proof -
  note keep = open_store_result[OF assms(1)]
  define sc where "sc = scanned_max_raw (F (ks_calls K + 1) = None) (K\<lparr>ks_calls := ks_calls K + 3\<rparr>)"
  show "ks_hwm K' = ks_hwm K" by (simp add: ks_hwm_def keep(1))
  show "ks_hwm K = Some p \<Longrightarrow> S' = cp_store_new (p + 1) p" using keep(3) assms(2,3) by (auto simp: Let_def)
  assume none: "ks_hwm K = None"
  then have S': "S' = cp_store_new (case sc of Some s \<Rightarrow> s + 1 | None \<Rightarrow> 0) (case sc of Some s \<Rightarrow> s | None \<Rightarrow> 0)"
    using keep(3) assms(2,3) unfolding Let_def sc_def[symmetric] by auto
  have "r \<le> r + 1" if "sc = Some r" for r
  proof -
    have "r \<le> 1000000" by (rule scanned_small[OF that[unfolded sc_def]])
    then have "unat r \<le> 1000000" by (simp add: word_le_nat_alt)
    then show ?thesis by (simp add: word_le_nat_alt unat_word_ariths)
  qed
  then show "\<exists>n h. h \<le> n \<and> S' = cp_store_new n h" using S' by (cases sc) auto
qed

lemma ids_okI:
  assumes "\<And>t. t \<in> used \<Longrightarrow> \<exists>r h. t = INTERNAL_BASE + r \<and> r < cs_tx_counter S \<and> ks_hwm K = Some h \<and> r \<le> h"
    and "cs_allocated_hwm S \<le> cs_tx_counter S \<or> (\<exists>h. ks_hwm K = Some h \<and> cs_allocated_hwm S \<le> h)"
    and "\<And>h. ks_hwm K = Some h \<Longrightarrow> h < 2000000"
  shows "ids_ok used (S, K)"
  using assms unfolding ids_ok_def Let_def prod.case by blast

lemma ids_okD:
  assumes "ids_ok used (S, K)"
  shows "t \<in> used \<Longrightarrow> \<exists>r h. t = INTERNAL_BASE + r \<and> r < cs_tx_counter S \<and> ks_hwm K = Some h \<and> r \<le> h"
    and "cs_allocated_hwm S \<le> cs_tx_counter S \<or> (\<exists>h. ks_hwm K = Some h \<and> cs_allocated_hwm S \<le> h)"
    and "ks_hwm K = Some h \<Longrightarrow> h < 2000000"
  using assms unfolding ids_ok_def Let_def prod.case by blast+

lemma counter_arith:
  assumes "(n :: u64) < 1000000"
  shows "n < n + 1" "n \<le> n + 99" "n + 99 < 2000000" "r < n \<Longrightarrow> r < n + 1" "r < n \<Longrightarrow> r \<le> n + 99"
proof -
  have "unat n < 1000000" using assms by (simp add: word_less_nat_alt)
  then have "unat (n + 1) = unat n + 1" "unat (n + 99) = unat n + 99" by (simp_all add: unat_word_ariths)
  then show "n < n + 1" "n \<le> n + 99" "n + 99 < 2000000" "r < n \<Longrightarrow> r < n + 1" "r < n \<Longrightarrow> r \<le> n + 99"
    using \<open>unat n < 1000000\<close> by (simp_all add: word_less_nat_alt word_le_nat_alt)
qed

text \<open>An allocation that succeeds keeps the invariant with its id, one that fails without.\<close>

lemma allocate_ids:
  assumes ok: "ids_ok used (S, K)" and alloc: "allocate_tx F (S, K) = (r, (S', K'))" and n: "cs_tx_counter S < - 1"
  shows "ids_ok (case r of Inr t \<Rightarrow> insert t used | Inl _ \<Rightarrow> used) (S', K')"
proof -
  let ?n = "cs_tx_counter S"
  have "unat ?n < 2 ^ 64 - 1"
    using n by (simp add: word_less_nat_alt unsigned_minus_1_eq_mask mask_eq_exp_minus_1)
  then have "unat (?n + 1) = unat ?n + 1" by (simp add: unat_word_ariths)
  then have up: "x \<le> ?n \<Longrightarrow> x < ?n + 1" for x by (simp add: word_less_nat_alt word_le_nat_alt)
  note hwm = ids_okD(2)[OF ok] and bound = ids_okD(3)[OF ok]
  have old: "\<exists>r h'. t = INTERNAL_BASE + r \<and> r < ?n + 1 \<and> ks_hwm K2 = Some h' \<and> r \<le> h'"
    if t: "t \<in> used" and k: "ks_hwm K2 = ks_hwm K \<or> (?n < 1000000 \<and> ks_hwm K2 = Some (?n + 99))" for t K2
  proof -
    obtain r h where r: "t = INTERNAL_BASE + r" "r < ?n" "ks_hwm K = Some h" "r \<le> h" using ids_okD(1)[OF ok t] by blast
    have "r < ?n + 1" using r(2) up[of r] by simp
    then show ?thesis using r k counter_arith(5)[of ?n r] by auto
  qed
  from alloc show ?thesis
  proof (cases rule: allocate_tx_effect)
    case (overflow e)
    have "cs_allocated_hwm S \<le> ?n + 1 \<or> (\<exists>h. ks_hwm K = Some h \<and> cs_allocated_hwm S \<le> h)"
      using hwm up less_imp_le by blast
    then show ?thesis unfolding overflow(1) sum.case
      by (intro ids_okI) (use old[of _ K] bound in \<open>auto simp: overflow(3,4)\<close>)
  next
    case within
    then obtain h where h: "ks_hwm K = Some h" "cs_allocated_hwm S \<le> h" using hwm leD by blast
    then have "?n \<le> h" using within(3) by simp
    then show ?thesis unfolding within(1) sum.case
      by (intro ids_okI) (use old[of _ K] bound h up[of ?n] in \<open>auto simp: within(4,5)\<close>)
  next
    case (failed e)
    note a = counter_arith[OF failed(2)]
    have "cs_allocated_hwm S \<le> ?n + 1" using failed(3) up less_imp_le by blast
    moreover have "h < 2000000" if "ks_hwm K' = Some h" for h using that failed(7) bound a(3) by auto
    ultimately show ?thesis unfolding failed(1) sum.case
      by (intro ids_okI) (use old[of _ K'] failed(2,7) in \<open>auto simp: failed(4)\<close>)
  next
    case extended
    note a = counter_arith[OF extended(2)]
    have "\<exists>r. t = INTERNAL_BASE + r \<and> r < ?n + 1 \<and> r \<le> ?n + 99" if "t \<in> insert (INTERNAL_BASE + ?n) used" for t
      using that old[of t K'] extended(2,6) a(1,2) by auto
    then show ?thesis unfolding extended(1) sum.case
      by (intro ids_okI) (use a(3) in \<open>auto simp: extended(3,6)\<close>)
  qed
qed

lemma reach_ids: "cp_reach used s \<Longrightarrow> ids_ok used s"
proof (induction rule: cp_reach.induct)
  case (cp_init K)
  then show ?case by (intro ids_okI) (auto simp: cp_store_new_def)
next
  case (cp_alloc used s F r s')
  obtain S K S' K' where s: "s = (S, K)" "s' = (S', K')" by (metis surj_pair)
  show ?case unfolding s
    by (rule allocate_ids) (use cp_alloc in \<open>simp_all add: s\<close>)
next
  case (cp_reopen used S K F S0 u s')
  obtain S' K' where s': "s' = (S', K')" by (cases s')
  note e = open_store_effect[OF cp_reopen.hyps(4)[unfolded s'] cp_reopen.hyps(2,3)]
  note ok = cp_reopen.IH
  show ?case
  proof (cases "ks_hwm K")
    case None
    then have "used = {}" using ids_okD(1)[OF ok] by fastforce
    then show ?thesis unfolding s' using e(1,3) None by (intro ids_okI) (auto simp: cp_store_new_def)
  next
    case (Some p)
    have "unat p < 2000000" using ids_okD(3)[OF ok Some] by (simp add: word_less_nat_alt)
    then have "unat (p + 1) = unat p + 1" by (simp add: unat_word_ariths)
    then have p: "p \<le> p + 1" "\<And>r. r \<le> p \<Longrightarrow> r < p + 1" by (simp_all add: word_le_nat_alt word_less_nat_alt)
    show ?thesis unfolding s'
    proof (rule ids_okI)
      fix t assume "t \<in> used"
      then obtain r where "t = INTERNAL_BASE + r" "r \<le> p" using ids_okD(1)[OF ok] Some by fastforce
      then show "\<exists>r h. t = INTERNAL_BASE + r \<and> r < cs_tx_counter S' \<and> ks_hwm K' = Some h \<and> r \<le> h"
        using e(1) e(2)[OF Some] Some p by (auto simp: cp_store_new_def)
    qed (use e(1) e(2)[OF Some] Some p ids_okD(3)[OF ok] in \<open>auto simp: cp_store_new_def\<close>)
  qed
next
  case (cp_other used S K S' K')
  then show ?case by (simp add: ids_ok_def)
qed

text \<open>
  C39. A transaction id the checkpoint store hands out was never handed out before, over any history
  of allocations, failed writes of the counter, crashes and restarts, if each restart reads the
  counter that was committed last; and the id is in the internal range. (The LSM engine does not keep
  its side of this for internal transactions after a flush, \<open>Lsm_Reads.flush_hides_internal_writes\<close>.)
\<close>

theorem checkpoint_ids_unique:
  assumes "cp_reach used s" "allocate_tx F s = (Inr t, s')"
  shows "t \<notin> used \<and> (\<exists>r < 1000000. t = INTERNAL_BASE + r)"
proof -
  obtain S K S' K' where s: "s = (S, K)" "s' = (S', K')" by (metis surj_pair)
  have t: "t = INTERNAL_BASE + cs_tx_counter S" "cs_tx_counter S < 1000000"
    using assms(2) unfolding s by (cases rule: allocate_tx_effect; simp)+
  have "t \<notin> used"
  proof
    assume "t \<in> used"
    then obtain r where "t = INTERNAL_BASE + r" "r < cs_tx_counter S"
      using ids_okD(1)[OF reach_ids[OF assms(1), unfolded s]] by blast
    then show False using t by simp
  qed
  then show ?thesis using t by blast
qed

section \<open>The store as a map from names\<close>

text \<open>What a scan of the documents shows, without the keys a listing skips, and an index that agrees with it.\<close>

definition cp_view :: "digest \<Rightarrow> cp_storage \<Rightarrow> rstr \<Rightarrow> cp_meta option" where
  "cp_view dg K name =
     (if skipped_name name then None
      else case map_of (ks_docs K) name of
        None \<Rightarrow> None | Some d \<Rightarrow> (case parse_doc dg d of Inr m \<Rightarrow> Some m | Inl _ \<Rightarrow> None))"

definition idx_ok :: "(rstr \<Rightarrow> cp_meta option) \<Rightarrow> cp_store \<Rightarrow> bool" where
  "idx_ok v S \<longleftrightarrow> (\<forall>n q. map_of (cs_by_name S) n = Some q \<longrightarrow>
     (\<exists>m. map_of (cs_by_seq S) q = Some m \<and> v n = Some m \<and> cp_name m = n \<and> cp_seq_no m = q))"

text \<open>Every checkpoint is in the index.\<close>

definition idx_full :: "(rstr \<Rightarrow> cp_meta option) \<Rightarrow> cp_store \<Rightarrow> bool" where
  "idx_full v S \<longleftrightarrow> (\<forall>n. v n \<noteq> None \<longrightarrow> map_of (cs_by_name S) n \<noteq> None)"

text \<open>The documents are checkpoints under their names, and the counter.\<close>

definition docs_ok :: "digest \<Rightarrow> cp_storage \<Rightarrow> bool" where
  "docs_ok dg K \<longleftrightarrow> distinct (map fst (ks_docs K)) \<and> (\<forall>n d. map_of (ks_docs K) n = Some d \<longrightarrow>
     (if skipped_name n then n = sys_tx_counter \<and> (\<exists>h. d = Doc_Counter h) else \<exists>m. parse_doc dg d = Inr m \<and> cp_name m = n))"

text \<open>No two checkpoints have the same sequence number.\<close>

definition seqs_distinct :: "(rstr \<Rightarrow> cp_meta option) \<Rightarrow> bool" where
  "seqs_distinct v \<longleftrightarrow> (\<forall>n n' m m'. v n = Some m \<longrightarrow> v n' = Some m' \<longrightarrow> cp_seq_no m = cp_seq_no m' \<longrightarrow> n = n')"

definition storage_ok :: "digest \<Rightarrow> cp_storage \<Rightarrow> bool" where
  "storage_ok dg K \<longleftrightarrow> docs_ok dg K \<and> seqs_distinct (cp_view dg K)"

definition idx_synced :: "digest \<Rightarrow> cp_store \<times> cp_storage \<Rightarrow> bool" where
  "idx_synced dg s \<longleftrightarrow> idx_ok (cp_view dg (snd s)) (fst s) \<and> (ks_hides (snd s) \<longrightarrow> idx_full (cp_view dg (snd s)) (fst s))"

text \<open>With the flag on, the index can answer for the storage.\<close>

definition cp_inv :: "digest \<Rightarrow> bool \<Rightarrow> cp_store \<times> cp_storage \<Rightarrow> bool" where
  "cp_inv dg b s \<longleftrightarrow> storage_ok dg (snd s) \<and> (b \<longrightarrow> idx_synced dg s)"

lemma skipped_counter [simp]: "skipped_name sys_tx_counter"
  by (simp add: skipped_name_def)

lemma idx_okD:
  assumes "idx_ok v S" "map_of (cs_by_name S) n = Some q"
  obtains m where "map_of (cs_by_seq S) q = Some m" "v n = Some m" "cp_name m = n" "cp_seq_no m = q"
  using assms unfolding idx_ok_def by blast

lemma cp_inv_weaken: "cp_inv dg b s \<Longrightarrow> (b' \<Longrightarrow> b) \<Longrightarrow> cp_inv dg b' s"
  by (auto simp: cp_inv_def)

lemma docs_okD:
  assumes "docs_ok dg K" "map_of (ks_docs K) n = Some d"
  shows "if skipped_name n then n = sys_tx_counter \<and> (\<exists>h. d = Doc_Counter h) else \<exists>m. parse_doc dg d = Inr m \<and> cp_name m = n"
  using assms unfolding docs_ok_def by blast

lemma view_docs:
  assumes "docs_ok dg K" "cp_view dg K n = Some m"
  obtains d where "map_of (ks_docs K) n = Some d" "parse_doc dg d = Inr m" "cp_name m = n" "\<not> skipped_name n"
proof -
  have n: "\<not> skipped_name n" using assms(2) by (auto simp: cp_view_def)
  then obtain d where d: "map_of (ks_docs K) n = Some d" "parse_doc dg d = Inr m"
    using assms(2) by (auto simp: cp_view_def split: option.splits sum.splits)
  moreover have "cp_name m = n" using assms(1) n d unfolding docs_ok_def by fastforce
  ultimately show thesis using that n by blast
qed

lemma docs_view:
  assumes "docs_ok dg K" "map_of (ks_docs K) n = Some d" "parse_doc dg d = Inr m"
  shows "cp_view dg K n = Some m" "cp_name m = n" "\<not> skipped_name n"
proof -
  show n: "\<not> skipped_name n"
  proof
    assume "skipped_name n"
    then obtain h where "d = Doc_Counter h" using assms(1,2) unfolding docs_ok_def by fastforce
    then show False using assms(3) by (simp add: parse_doc_def)
  qed
  show "cp_view dg K n = Some m" using n assms(2,3) by (simp add: cp_view_def)
  show "cp_name m = n" using assms n unfolding docs_ok_def by fastforce
qed

lemma index_insert_ok:
  assumes ok: "idx_ok v S"
    and fresh: "\<And>n m. n \<noteq> cp_name meta \<Longrightarrow> v n = Some m \<Longrightarrow> cp_seq_no m \<noteq> cp_seq_no meta"
  shows "idx_ok (v(cp_name meta \<mapsto> meta)) (index_insert meta S)"
  unfolding idx_ok_def
proof (intro allI impI)
  fix n q assume at: "map_of (cs_by_name (index_insert meta S)) n = Some q"
  show "\<exists>m. map_of (cs_by_seq (index_insert meta S)) q = Some m \<and> (v(cp_name meta \<mapsto> meta)) n = Some m
    \<and> cp_name m = n \<and> cp_seq_no m = q"
  proof (cases "n = cp_name meta")
    case True
    then show ?thesis using at by (simp add: index_insert_def Let_def update_conv)
  next
    case False
    then have "map_of (cs_by_name S) n = Some q" using at by (simp add: index_insert_def Let_def update_conv)
    from idx_okD[OF ok this] obtain m where m: "map_of (cs_by_seq S) q = Some m" "v n = Some m" "cp_name m = n" "cp_seq_no m = q" .
    have "q \<noteq> cp_seq_no meta" using fresh[OF False m(2)] m(4) by simp
    moreover have "map_of (cs_by_name S) (cp_name meta) \<noteq> Some q"
      using idx_okD[OF ok, of "cp_name meta" q] m(1,3) False by force
    ultimately have "map_of (cs_by_seq (index_insert meta S)) q = Some m"
      using m(1) by (auto simp: index_insert_def Let_def update_conv delete_conv split: option.split)
    then show ?thesis using m False by simp
  qed
qed

lemma remove_by_seq_ok:
  assumes ok: "idx_ok v S"
  shows "idx_ok v (remove_by_seq q S)"
proof (cases "map_of (cs_by_seq S) q")
  case (Some m0)
  have "\<exists>m. map_of (cs_by_seq (remove_by_seq q S)) p = Some m \<and> v n = Some m \<and> cp_name m = n \<and> cp_seq_no m = p"
    if at: "map_of (cs_by_name (remove_by_seq q S)) n = Some p" for n p
  proof -
    have old: "map_of (cs_by_name S) n = Some p"
      using at Some by (auto simp: remove_by_seq_def delete_conv split: if_splits)
    from idx_okD[OF ok this] obtain m where m: "map_of (cs_by_seq S) p = Some m" "v n = Some m" "cp_name m = n" "cp_seq_no m = p" .
    have "p \<noteq> q"
    proof
      assume "p = q"
      then have "m0 = m" using m(1) Some by simp
      then show False using at old m \<open>p = q\<close> Some by (simp add: remove_by_seq_def delete_conv)
    qed
    then show ?thesis using m Some by (simp add: remove_by_seq_def delete_conv)
  qed
  then show ?thesis unfolding idx_ok_def by blast
qed (use ok in \<open>simp add: remove_by_seq_def\<close>)

lemma remove_by_name_ok:
  assumes ok: "idx_ok v S"
  shows "idx_ok (v(name := None)) (remove_by_name name S)"
proof -
  have "\<exists>m. map_of (cs_by_seq (remove_by_name name S)) p = Some m \<and> (v(name := None)) n = Some m \<and> cp_name m = n \<and> cp_seq_no m = p"
    if at: "map_of (cs_by_name (remove_by_name name S)) n = Some p" for n p
  proof -
    have n: "n \<noteq> name" and old: "map_of (cs_by_name S) n = Some p"
      using at by (auto simp: remove_by_name_def delete_conv split: option.splits if_splits)
    from idx_okD[OF ok old] obtain m where m: "map_of (cs_by_seq S) p = Some m" "v n = Some m" "cp_name m = n" "cp_seq_no m = p" .
    have "map_of (cs_by_name S) name \<noteq> Some p" using idx_okD[OF ok, of name p] m(1,3) n by force
    then show ?thesis using m n by (auto simp: remove_by_name_def delete_conv split: option.split)
  qed
  then show ?thesis unfolding idx_ok_def by blast
qed

lemma index_insert_full: "idx_full v S \<Longrightarrow> idx_full (v(cp_name meta \<mapsto> x)) (index_insert meta S)"
  by (auto simp: idx_full_def index_insert_def Let_def update_conv)

lemma remove_by_name_full: "idx_full v S \<Longrightarrow> idx_full (v(name := None)) (remove_by_name name S)"
  by (auto simp: idx_full_def remove_by_name_def delete_conv split: option.split)

lemma remove_by_seq_full:
  assumes "idx_full v S" "idx_ok v S" "\<And>n m. v n = Some m \<Longrightarrow> cp_seq_no m \<noteq> q"
  shows "idx_full v (remove_by_seq q S)"
proof -
  have "map_of (cs_by_name S) n \<noteq> Some q" for n using assms(3) idx_okD[OF assms(2), of n q] by metis
  then have "cs_by_name (remove_by_seq q S) = cs_by_name S" by (simp add: remove_by_seq_def split: option.split)
  then show ?thesis using assms(1) by (simp add: idx_full_def)
qed

text \<open>Calls that leave the index and all documents but the counter alone.\<close>

definition same_cat :: "cp_store \<times> cp_storage \<Rightarrow> cp_store \<times> cp_storage \<Rightarrow> bool" where
  "same_cat s s' \<longleftrightarrow> cs_by_seq (fst s') = cs_by_seq (fst s) \<and> cs_by_name (fst s') = cs_by_name (fst s)
     \<and> kept_docs (snd s) (snd s')"

lemma kept_docsD:
  assumes "kept_docs K K'"
  shows "ks_hides K' = ks_hides K" "distinct (map fst (ks_docs K)) \<Longrightarrow> distinct (map fst (ks_docs K'))"
    "n \<noteq> sys_tx_counter \<Longrightarrow> map_of (ks_docs K') n = map_of (ks_docs K) n"
    "map_of (ks_docs K') n = Some d \<Longrightarrow> map_of (ks_docs K) n \<noteq> Some d \<Longrightarrow> n = sys_tx_counter \<and> (\<exists>h. d = Doc_Counter h)"
proof -
  note docs = assms[unfolded kept_docs_def]
  show "ks_hides K' = ks_hides K" "distinct (map fst (ks_docs K)) \<Longrightarrow> distinct (map fst (ks_docs K'))"
    "n \<noteq> sys_tx_counter \<Longrightarrow> map_of (ks_docs K') n = map_of (ks_docs K) n"
    using docs by blast+
  assume at: "map_of (ks_docs K') n = Some d" and old: "map_of (ks_docs K) n \<noteq> Some d"
  have n: "n = sys_tx_counter" using docs at old by metis
  have "map_of (ks_docs K') n = map_of (ks_docs K) n \<or> (\<exists>h. map_of (ks_docs K') n = Some (Doc_Counter h))"
    using docs unfolding n by blast
  then show "n = sys_tx_counter \<and> (\<exists>h. d = Doc_Counter h)" using n at old by (metis option.inject)
qed

lemma kept_docs_view: "kept_docs K K' \<Longrightarrow> cp_view dg K' = cp_view dg K"
proof (rule ext)
  fix n assume docs: "kept_docs K K'"
  show "cp_view dg K' n = cp_view dg K n"
  proof (cases "skipped_name n")
    case False
    then have "n \<noteq> sys_tx_counter" by auto
    from kept_docsD(3)[OF docs this] show ?thesis by (simp add: cp_view_def)
  qed (simp add: cp_view_def)
qed

lemma kept_docs_ok:
  assumes docs: "kept_docs K K'" and ok: "storage_ok dg K"
  shows "storage_ok dg K'"
proof -
  have "docs_ok dg K'"
    unfolding docs_ok_def
  proof (intro conjI allI impI)
    show "distinct (map fst (ks_docs K'))" using kept_docsD(2)[OF docs] ok by (simp add: storage_ok_def docs_ok_def)
    fix n d assume at: "map_of (ks_docs K') n = Some d"
    show "if skipped_name n then n = sys_tx_counter \<and> (\<exists>h. d = Doc_Counter h) else \<exists>m. parse_doc dg d = Inr m \<and> cp_name m = n"
    proof (cases "map_of (ks_docs K) n = Some d")
      case True
      then show ?thesis using ok by (simp add: storage_ok_def docs_ok_def)
    next
      case False
      from kept_docsD(4)[OF docs at this] show ?thesis by simp
    qed
  qed
  then show ?thesis using ok by (simp add: storage_ok_def kept_docs_view[OF docs])
qed

lemma same_cat_inv:
  assumes "same_cat s s'"
  shows "cp_inv dg b s \<Longrightarrow> cp_inv dg b s'" "cp_view dg (snd s') = cp_view dg (snd s)"
proof -
  show v: "cp_view dg (snd s') = cp_view dg (snd s)" using assms kept_docs_view by (simp add: same_cat_def)
  have docs: "kept_docs (snd s) (snd s')" and idx: "cs_by_seq (fst s') = cs_by_seq (fst s)" "cs_by_name (fst s') = cs_by_name (fst s)"
    using assms by (simp_all add: same_cat_def)
  have "idx_synced dg s' = idx_synced dg s"
    unfolding idx_synced_def v kept_docsD(1)[OF docs] idx_ok_def idx_full_def idx ..
  then show "cp_inv dg b s \<Longrightarrow> cp_inv dg b s'" using kept_docs_ok[OF docs] unfolding cp_inv_def by blast
qed

interpretation cat: action_frame same_cat
  by unfold_locales (auto simp: same_cat_def intro: kept_docs_trans)

lemma storage_call_cat: "(\<And>K. kept_docs K (g K)) \<Longrightarrow> obeys same_cat (storage_call F g)"
proof (rule obeysI)
  fix s :: "cp_store \<times> cp_storage" assume g: "\<And>K. kept_docs K (g K)"
  obtain S K where s: "s = (S, K)" by (cases s)
  let ?K = "K\<lparr>ks_calls := ks_calls K + 1\<rparr>"
  have "kept_docs K (g ?K)" using kept_docs_trans[OF _ g[of ?K], of K] by simp
  then show "same_cat s (snd (storage_call F g s))"
    using storage_call_effect[of F g S K, OF surjective_pairing] by (auto simp: s same_cat_def)
qed

lemma try_call_state: "snd (try_call F g s) = snd (storage_call F g s)"
  by (simp add: try_call_def split: prod.split sum.split)

lemma cp_call_cat: "obeys same_cat (cp_call F)"
  by (rule storage_call_cat) simp

lemma try_call_cat: "(\<And>K. kept_docs K (g K)) \<Longrightarrow> obeys same_cat (try_call F g)"
  using storage_call_cat[of g F] by (simp add: obeys_def try_call_state)

lemma guarded_read_cat: "obeys same_cat (guarded_call F id)"
proof (rule obeysI)
  fix s
  obtain r1 s1 where c: "cp_call F s = (r1, s1)" by (cases "cp_call F s")
  have "same_cat s s1" "same_cat s1 (snd (try_call F id s1))"
    using obeys_result[OF cp_call_cat c] obeysD[OF try_call_cat[of id], of s1 F] by simp_all
  then show "same_cat s (snd (guarded_call F id s))"
    using cat.frame_trans[of s s1] unfolding guarded_call_def c by (cases r1) simp_all
qed

lemma unpin_quietly_cat: "obeys same_cat (unpin_quietly F q)"
  unfolding unpin_quietly_def by (intro cat.obeys_seq try_call_cat cat.obeys_ret) simp

lemma unpin_quietly_ok: "unpin_quietly F q s = (r, s') \<Longrightarrow> r = Inr ()"
  by (cases s) (auto simp: unpin_quietly_def seq_def try_call_effect ret_def)

lemma allocate_tx_cat: "obeys same_cat (allocate_tx F)"
proof (rule obeysI)
  fix s
  obtain S K r S' K' where s: "s = (S, K)" and a: "allocate_tx F (S, K) = (r, (S', K'))" by (metis surj_pair)
  from a have "same_cat (S, K) (S', K')"
    by (cases rule: allocate_tx_effect) (simp_all add: same_cat_def)
  then show "same_cat s (snd (allocate_tx F s))" by (simp add: s a)
qed

text \<open>A write of one document: transaction id, put or delete, commit. The commit may fail and take effect.\<close>

definition write_calls :: "faults \<Rightarrow> (cp_storage \<Rightarrow> cp_storage) \<Rightarrow> unit cp_act" where
  "write_calls F g = seq (allocate_tx F) (\<lambda>_. seq (guarded_call F id) (\<lambda>_. guarded_call F g))"

lemma guarded_call_effect:
  assumes "guarded_call F g (S, K) = (r, s')"
  obtains K1 where "kept_docs K K1" "same_cat (S, g K1) s'" | e where "r = Inl e" "same_cat (S, K) s'"
proof -
  let ?K = "K\<lparr>ks_calls := ks_calls K + 1\<rparr>"
  obtain r1 s1 where c: "storage_call F g (S, K) = (r1, s1)" by (cases "storage_call F g (S, K)")
  have "same_cat s1 (snd (try_call F id s1))" using obeysD[OF try_call_cat[of id], of s1 F] by simp
  then have s': "same_cat s1 s'" "r1 = Inr () \<longrightarrow> r = Inr ()" "(\<exists>e. r1 = Inl e) \<longrightarrow> (\<exists>e. r = Inl e)"
    using assms by (auto simp: guarded_call_def c cat.frame_refl split: sum.splits)
  have K: "kept_docs K ?K" by simp
  from storage_call_effect[OF c] show thesis
  proof (elim disjE exE conjE)
    assume "s1 = (S, g ?K)"
    then show thesis using that(1)[OF K] s'(1) by simp
  next
    fix e assume e: "r1 = Inl e" "s1 = (S, ?K)"
    then have "same_cat (S, K) s1" by (simp add: same_cat_def)
    then have "same_cat (S, K) s'" using s'(1) cat.frame_trans by blast
    then show thesis using that(2) s'(3) e(1) by blast
  qed
qed

lemma write_calls_effect:
  assumes "write_calls F g s = (r, s')"
  obtains (took) S1 K1 where "same_cat s (S1, K1)" "same_cat (S1, g K1) s'" | (failed) e where "r = Inl e" "same_cat s s'"
proof -
  let ?pre = "seq (allocate_tx F) (\<lambda>_. guarded_call F id)"
  have split: "write_calls F g s = (case ?pre s of (Inl e, s') \<Rightarrow> (Inl e, s') | (Inr x, s') \<Rightarrow> guarded_call F g s')"
    by (simp add: write_calls_def seq_def split: prod.split sum.split)
  have "obeys same_cat ?pre" by (intro cat.obeys_seq allocate_tx_cat guarded_read_cat)
  obtain r1 S1 K1 where pre: "?pre s = (r1, (S1, K1))" by (metis surj_pair)
  have cat: "same_cat s (S1, K1)" by (rule obeys_result[OF \<open>obeys same_cat ?pre\<close> pre])
  show thesis
  proof (cases r1)
    case (Inl e)
    then have "r = Inl e" "s' = (S1, K1)" using assms unfolding split pre by simp_all
    then show thesis using cat failed by blast
  next
    case (Inr u)
    then have "guarded_call F g (S1, K1) = (r, s')" using assms by (simp add: split pre)
    then show thesis
    proof (cases rule: guarded_call_effect)
      case (1 K2)
      then have "same_cat s (S1, K2)" using cat kept_docs_trans by (auto simp: same_cat_def)
      then show thesis using took 1 by blast
    next
      case (2 e)
      then show thesis using failed cat cat.frame_trans by blast
    qed
  qed
qed

lemma write_calls_Inr:
  assumes "write_calls F g s = (Inr u, s')"
  obtains S1 K1 where "same_cat s (S1, K1)" "same_cat (S1, g K1) s'"
  using assms by (cases rule: write_calls_effect) auto

lemma idx_synced_cong:
  assumes "cp_view dg (snd s') = cp_view dg (snd s)" "cs_by_seq (fst s') = cs_by_seq (fst s)"
    "cs_by_name (fst s') = cs_by_name (fst s)" "ks_hides (snd s') = ks_hides (snd s)"
  shows "idx_synced dg s' = idx_synced dg s"
  unfolding idx_synced_def idx_ok_def idx_full_def assms ..

lemma took_inv:
  assumes inv: "cp_inv dg b s" and pre: "same_cat s (S1, K1)" and post: "same_cat (S1, K2) s'"
    and hides: "ks_hides (K2) = ks_hides K1" and ok: "storage_ok dg (K2)"
  shows "cp_view dg (snd s') = cp_view dg (K2)" "cp_inv dg (b \<and> cp_view dg (snd s') = cp_view dg (snd s)) s'"
proof -
  show v: "cp_view dg (snd s') = cp_view dg (K2)" using same_cat_inv(2)[OF post] by simp
  have docs: "kept_docs (snd s) K1" "kept_docs (K2) (snd s')" using pre post by (simp_all add: same_cat_def)
  have "ks_hides (snd s') = ks_hides (snd s)"
    using kept_docsD(1)[OF docs(1)] kept_docsD(1)[OF docs(2)] hides by simp
  then have "idx_synced dg s' = idx_synced dg s" if "cp_view dg (snd s') = cp_view dg (snd s)"
    by (intro idx_synced_cong[OF that]) (use pre post in \<open>simp_all add: same_cat_def\<close>)
  moreover have "storage_ok dg (snd s')" by (rule kept_docs_ok[OF docs(2) ok])
  ultimately show "cp_inv dg (b \<and> cp_view dg (snd s') = cp_view dg (snd s)) s'" using inv unfolding cp_inv_def by blast
qed

lemma put_view:
  assumes ok: "storage_ok dg K" and m: "parse_doc dg d = Inr meta" and name: "\<not> skipped_name (cp_name meta)"
    and fresh: "\<And>n m. n \<noteq> cp_name meta \<Longrightarrow> cp_view dg K n = Some m \<Longrightarrow> cp_seq_no m \<noteq> cp_seq_no meta"
  shows "cp_view dg (storage_put (cp_name meta) d K) = (cp_view dg K)(cp_name meta \<mapsto> meta)"
    "storage_ok dg (storage_put (cp_name meta) d K)"
proof -
  let ?K = "storage_put (cp_name meta) d K"
  have docs: "map_of (ks_docs ?K) = (map_of (ks_docs K))(cp_name meta \<mapsto> d)" by (simp add: storage_put_def update_conv')
  show view: "cp_view dg ?K = (cp_view dg K)(cp_name meta \<mapsto> meta)"
    by (rule ext) (simp add: cp_view_def docs m name)
  have "docs_ok dg ?K" using ok m name unfolding docs_ok_def storage_ok_def docs
    by (simp add: storage_put_def distinct_update)
  moreover have "seqs_distinct (cp_view dg ?K)"
    using ok fresh fresh[THEN not_sym] unfolding view seqs_distinct_def storage_ok_def by (auto split: if_splits)
  ultimately show "storage_ok dg ?K" by (simp add: storage_ok_def)
qed

lemma delete_view:
  assumes ok: "storage_ok dg K"
  shows "cp_view dg (storage_delete name K) = (cp_view dg K)(name := None)" "storage_ok dg (storage_delete name K)"
proof -
  have docs: "map_of (ks_docs (storage_delete name K)) = (map_of (ks_docs K))(name := None)"
    by (simp add: storage_delete_def delete_conv')
  show view: "cp_view dg (storage_delete name K) = (cp_view dg K)(name := None)"
    by (rule ext) (simp add: cp_view_def docs)
  have "docs_ok dg (storage_delete name K)" using ok unfolding docs_ok_def storage_ok_def docs
    by (simp add: storage_delete_def distinct_delete)
  moreover have "seqs_distinct (cp_view dg (storage_delete name K))"
    using ok unfolding view seqs_distinct_def storage_ok_def by (auto split: if_splits)
  ultimately show "storage_ok dg (storage_delete name K)" by (simp add: storage_ok_def)
qed

lemma put_state_inv:
  assumes "cp_inv dg b (S, K)" "b \<Longrightarrow> idx_synced dg (S, K) \<Longrightarrow> idx_synced dg (f S, K)"
  shows "cp_inv dg b (f S, K)"
  using assms by (auto simp: cp_inv_def)

lemma index_insert_synced:
  assumes idx: "idx_ok v S" "ks_hides K \<Longrightarrow> idx_full v S" and view: "cp_view dg K = v(cp_name meta \<mapsto> meta)"
    and fresh: "\<And>n m. n \<noteq> cp_name meta \<Longrightarrow> v n = Some m \<Longrightarrow> cp_seq_no m \<noteq> cp_seq_no meta"
  shows "idx_synced dg (index_insert meta S, K)"
  using index_insert_ok[OF idx(1) fresh] index_insert_full[OF idx(2), of meta meta] by (simp add: idx_synced_def view)

section \<open>The operations\<close>

lemma seq_assoc: "seq (seq m f) g = seq m (\<lambda>x. seq (f x) g)"
  by (rule ext) (simp add: seq_def split: prod.split sum.split)

lemma save_internal_calls:
  "save_checkpoint_internal F dg meta =
     seq (lift (manifest_new dg meta [lit ''storage''])) (\<lambda>m.
     seq (write_calls F (storage_put (cp_name meta) (Doc_Manifest m))) (\<lambda>_. put_state (index_insert meta) id))"
  by (simp add: save_checkpoint_internal_def write_calls_def seq_assoc)

lemma manifest_new_ok:
  assumes "manifest_new dg meta cs = Inr m"
  shows "parse_doc dg (Doc_Manifest m) = Inr meta"
  using assms by (auto simp: manifest_new_def parse_doc_def manifest_verify_def rbind_eq_Inr split: if_splits)

lemma save_internal_effect:
  assumes inv: "cp_inv dg b s" and save: "save_checkpoint_internal F dg meta s = (r, s')" and name: "\<not> skipped_name (cp_name meta)"
    and fresh: "\<And>n m. n \<noteq> cp_name meta \<Longrightarrow> cp_view dg (snd s) n = Some m \<Longrightarrow> cp_seq_no m \<noteq> cp_seq_no meta"
  shows "cp_inv dg (b \<and> (r = Inr () \<or> cp_view dg (snd s') = cp_view dg (snd s))) s'
    \<and> (cp_view dg (snd s') = (cp_view dg (snd s))(cp_name meta \<mapsto> meta) \<or> (\<exists>e. r = Inl e) \<and> cp_view dg (snd s') = cp_view dg (snd s))"
proof (cases "manifest_new dg meta [lit ''storage'']")
  case (Inl e)
  then have "r = Inl e" "s' = s" using save by (simp_all add: save_internal_calls seq_def lift_def)
  then show ?thesis using inv by simp
next
  case new: (Inr m)
  let ?put = "storage_put (cp_name meta) (Doc_Manifest m)"
  obtain r1 s1 where w: "write_calls F ?put s = (r1, s1)" by (cases "write_calls F ?put s")
  have res: "case r1 of Inl e \<Rightarrow> r = Inl e \<and> s' = s1 | Inr _ \<Rightarrow> r = Inr () \<and> s' = (index_insert meta (fst s1), snd s1)"
    using save by (auto simp: save_internal_calls seq_def lift_def new w put_state_def split: sum.splits prod.splits)
  from w show ?thesis
  proof (cases rule: write_calls_effect)
    case (failed e)
    then have "r = Inl e" "s' = s1" using res by simp_all
    then show ?thesis using same_cat_inv[OF failed(2), of dg] inv by simp
  next
    case (took S1 K1)
    have K1: "cp_view dg K1 = cp_view dg (snd s)" "storage_ok dg K1"
      using same_cat_inv(2)[OF took(1)] same_cat_inv(1)[OF took(1) inv] by (simp_all add: cp_inv_def)
    have put: "cp_view dg (?put K1) = (cp_view dg (snd s))(cp_name meta \<mapsto> meta)" "storage_ok dg (?put K1)"
      using put_view[OF K1(2) manifest_new_ok[OF new] name] fresh K1(1) by simp_all
    have t': "cp_view dg (snd s1) = (cp_view dg (snd s))(cp_name meta \<mapsto> meta)"
      "cp_inv dg (b \<and> cp_view dg (snd s1) = cp_view dg (snd s)) s1"
      using took_inv[OF inv took _ put(2)] put(1) by (simp_all add: storage_put_def)
    show ?thesis
    proof (cases r1)
      case (Inl e)
      then show ?thesis using res t' by simp
    next
      case (Inr u)
      then have s': "r = Inr ()" "s' = (index_insert meta (fst s1), snd s1)" using res by simp_all
      have idx: "cs_by_seq (fst s1) = cs_by_seq (fst s)" "cs_by_name (fst s1) = cs_by_name (fst s)" "ks_hides (snd s1) = ks_hides (snd s)"
        using took kept_docsD(1)[of "snd s" K1] kept_docsD(1)[of "?put K1" "snd s1"] by (simp_all add: same_cat_def storage_put_def)
      have "idx_synced dg s'" if "idx_synced dg s"
        unfolding s'(2)
        by (rule index_insert_synced[where v = "cp_view dg (snd s)", OF _ _ t'(1) fresh])
          (use that idx in \<open>simp_all add: idx_synced_def idx_ok_def idx_full_def\<close>)
      then have "cp_inv dg b s'" using inv t'(2) by (simp add: cp_inv_def s')
      then show ?thesis using s' t'(1) by simp
    qed
  qed
qed

lemma get_internal_effect:
  assumes inv: "cp_inv dg b s" and get: "get_checkpoint_internal F dg name s = (r, s')"
  shows "cp_inv dg b s'" "cp_view dg (snd s') = cp_view dg (snd s)" "b \<Longrightarrow> r = Inr x \<Longrightarrow> x = cp_view dg (snd s) name"
    "F (ks_calls (snd s)) = None \<Longrightarrow> name \<noteq> sys_tx_counter \<Longrightarrow> \<exists>x. r = Inr x"
proof -
  obtain S K where s: "s = (S, K)" by (cases s)
  have docs: "docs_ok dg K" and dist: "seqs_distinct (cp_view dg K)" using inv by (simp_all add: cp_inv_def storage_ok_def s)
  have "cp_inv dg b s' \<and> cp_view dg (snd s') = cp_view dg (snd s) \<and> (b \<longrightarrow> r = Inr x \<longrightarrow> x = cp_view dg (snd s) name)
    \<and> (F (ks_calls K) = None \<longrightarrow> name \<noteq> sys_tx_counter \<longrightarrow> (\<exists>x. r = Inr x))"
  proof (cases "get_by_name name S")
    case (Some m)
    then obtain q where q: "map_of (cs_by_name S) name = Some q" "map_of (cs_by_seq S) q = Some m"
      by (auto simp: get_by_name_def split: Option.bind_splits)
    have "cp_view dg K name = Some m" if b
      using that inv idx_okD[OF _ q(1), of "cp_view dg K"] q(2) by (auto simp: cp_inv_def idx_synced_def s)
    then show ?thesis using get Some inv by (auto simp: get_checkpoint_internal_def s)
  next
    case None
    let ?K = "K\<lparr>ks_calls := ks_calls K + 1\<rparr>"
    obtain r1 s1 where call: "cp_call F (S, K) = (r1, s1)" by (cases "cp_call F (S, K)")
    have s1: "s1 = (S, ?K)" by (rule cp_call_effect[OF call])
    have r1: "F (ks_calls K) = None \<Longrightarrow> r1 = Inr ()" using call by (simp add: storage_call_def)
    have inv1: "cp_inv dg b (S, ?K)" and same: "cp_view dg ?K = cp_view dg K"
      using same_cat_inv[OF obeys_result[OF cp_call_cat call], of dg] inv unfolding s1 s snd_conv by blast+
    have absent: "cp_view dg K name = None" if hides: b "ks_hides K"
    proof (rule ccontr)
      assume "cp_view dg K name \<noteq> None"
      then obtain q where "map_of (cs_by_name S) name = Some q"
        using inv hides by (auto simp: cp_inv_def idx_synced_def idx_full_def s)
      moreover from this obtain m where "map_of (cs_by_seq S) q = Some m"
        using inv hides idx_okD[of "cp_view dg K" S name q] by (auto simp: cp_inv_def idx_synced_def s)
      ultimately show False using None by (simp add: get_by_name_def)
    qed
    show ?thesis
    proof (cases r1)
      case (Inl e)
      then show ?thesis using get None call s1 inv1 same r1 by (auto simp: get_checkpoint_internal_def s seq_def)
    next
      case (Inr u)
      have get': "(case storage_get name ?K of
          Some d \<Rightarrow> seq (lift (parse_doc dg d)) (\<lambda>meta. seq (put_state (index_insert meta) id) (\<lambda>_. ret (Some meta))) (S, ?K)
        | None \<Rightarrow> (Inr None, (S, ?K))) = (r, s')"
        using get unfolding get_checkpoint_internal_def s seq_def[of "cp_call F"] call s1 prod.case None option.case Inr sum.case .
      show ?thesis
      proof (cases "storage_get name ?K")
        case N: None
        have "cp_view dg K name = None" if b
          using N absent[OF that] by (auto simp: storage_get_def cp_view_def split: if_splits)
        then show ?thesis using get' N inv1 same s by auto
      next
        case (Some d)
        then have d: "map_of (ks_docs K) name = Some d" by (simp add: storage_get_def split: if_splits)
        show ?thesis
        proof (cases "parse_doc dg d")
          case (Inl e)
          have "name = sys_tx_counter" using docs_okD[OF docs d] Inl by (simp split: if_splits)
          moreover have "r = Inl e" "s' = (S, ?K)" using get' Some Inl by (simp_all add: seq_def lift_def)
          ultimately show ?thesis using inv1 same s by simp
        next
          case (Inr m)
          note v = docs_view[OF docs d Inr]
          have s': "r = Inr (Some m)" "s' = (index_insert m S, ?K)"
            using get' Some Inr by (simp_all add: seq_def lift_def put_state_def ret_def)
          have fresh: "cp_seq_no k \<noteq> cp_seq_no m" if "n \<noteq> cp_name m" "cp_view dg K n = Some k" for n k
            using that dist v unfolding seqs_distinct_def by blast
          have "cp_view dg ?K = (cp_view dg K)(cp_name m \<mapsto> m)" using v same by auto
          then have "idx_synced dg (index_insert m S, ?K)" if "idx_synced dg (S, ?K)"
            using that same by (intro index_insert_synced[where v = "cp_view dg K", OF _ _ _ fresh]) (simp_all add: idx_synced_def)
          then have "cp_inv dg b s'" unfolding s'(2) by (intro put_state_inv[OF inv1])
          then show ?thesis using s' v same s by simp
        qed
      qed
    qed
  qed
  then show "cp_inv dg b s'" "cp_view dg (snd s') = cp_view dg (snd s)" "b \<Longrightarrow> r = Inr x \<Longrightarrow> x = cp_view dg (snd s) name"
    "F (ks_calls (snd s)) = None \<Longrightarrow> name \<noteq> sys_tx_counter \<Longrightarrow> \<exists>x. r = Inr x"
    by (simp_all add: s)
qed

lemma retire_effect:
  assumes inv: "cp_inv dg b s" and ret: "retire_old F seq_no prev s = (r, s')"
    and other: "\<And>p n m. b \<Longrightarrow> prev = Some p \<Longrightarrow> cp_seq_no p \<noteq> seq_no \<Longrightarrow> cp_view dg (snd s) n = Some m \<Longrightarrow> cp_seq_no m \<noteq> cp_seq_no p"
  shows "r = Inr ()" "cp_inv dg b s'" "cp_view dg (snd s') = cp_view dg (snd s)"
proof -
  have "r = Inr () \<and> cp_inv dg b s' \<and> cp_view dg (snd s') = cp_view dg (snd s)"
  proof (cases "\<exists>p. prev = Some p \<and> cp_seq_no p \<noteq> seq_no")
    case False
    then have "(r, s') = (Inr (), s)" using ret by (auto simp: retire_old_def ret_def split: option.splits if_splits)
    then show ?thesis using inv by simp
  next
    case True
    then obtain p where p: "prev = Some p" "cp_seq_no p \<noteq> seq_no" by blast
    obtain r1 S1 K1 where u: "unpin_quietly F (cp_seq_no p) s = (r1, (S1, K1))" by (metis surj_pair)
    have same: "cp_inv dg b (S1, K1)" "cp_view dg K1 = cp_view dg (snd s)" "r1 = Inr ()"
      using same_cat_inv[OF obeys_result[OF unpin_quietly_cat u], of dg] unpin_quietly_ok[OF u] inv by simp_all
    have res: "r = Inr ()" "s' = (remove_by_seq (cp_seq_no p) S1, K1)"
      using ret p u same(3) by (auto simp: retire_old_def seq_def put_state_def)
    have "cp_inv dg b s'" unfolding res(2)
    proof (rule put_state_inv[OF same(1)])
      assume "b" "idx_synced dg (S1, K1)"
      then show "idx_synced dg (remove_by_seq (cp_seq_no p) S1, K1)"
        using remove_by_seq_ok remove_by_seq_full other[OF _ p] by (auto simp: idx_synced_def same(2))
    qed
    then show ?thesis using res same(2) by simp
  qed
  then show "r = Inr ()" "cp_inv dg b s'" "cp_view dg (snd s') = cp_view dg (snd s)" by blast+
qed

definition made_by :: "rstr \<Rightarrow> rstr \<Rightarrow> u64 \<Rightarrow> u64 \<Rightarrow> json \<Rightarrow> cp_meta \<Rightarrow> bool" where
  "made_by name collection seq_no tx_id metadata m \<longleftrightarrow> cp_name m = name \<and> cp_collection_id m = collection
     \<and> cp_seq_no m = seq_no \<and> cp_tx_id m = tx_id \<and> cp_metadata m = metadata"

text \<open>No other checkpoint has the sequence number.\<close>

definition seq_free :: "(rstr \<Rightarrow> cp_meta option) \<Rightarrow> rstr \<Rightarrow> u64 \<Rightarrow> bool" where
  "seq_free v name seq_no \<longleftrightarrow> (\<forall>n m. n \<noteq> name \<longrightarrow> v n = Some m \<longrightarrow> cp_seq_no m \<noteq> seq_no)"

lemma create_effect:
  assumes inv: "cp_inv dg b s" and name: "\<not> skipped_name name" and free: "seq_free (cp_view dg (snd s)) name seq_no"
    and create: "create_checkpoint F dg wall name collection seq_no tx_id metadata s = (r, s')"
  shows "cp_inv dg (b \<and> ((\<exists>m. r = Inr m) \<or> cp_view dg (snd s') = cp_view dg (snd s))) s'
    \<and> (case r of Inr m \<Rightarrow> made_by name collection seq_no tx_id metadata m \<and> cp_view dg (snd s') = (cp_view dg (snd s))(name \<mapsto> m)
      | Inl _ \<Rightarrow> cp_view dg (snd s') = cp_view dg (snd s) \<or>
          (\<exists>m. made_by name collection seq_no tx_id metadata m \<and> cp_view dg (snd s') = (cp_view dg (snd s))(name \<mapsto> m)))"
proof (cases "validate_identifier name = Inr () \<and> validate_identifier collection = Inr ()")
  case False
  then have "s' = s \<and> (\<exists>e. r = Inl e)"
    using create by (auto simp: create_checkpoint_def seq_def lift_def split: sum.splits)
  then show ?thesis using inv by auto
next
  case valid: True
  let ?v = "cp_view dg (snd s)"
  obtain S0 K0 where s: "s = (S0, K0)" by (cases s)
  obtain created S1 where ts: "cp_timestamp wall S0 = (created, S1)" by (cases "cp_timestamp wall S0")
  have "same_cat s (S1, K0)" using ts by (auto simp: cp_timestamp_def same_cat_def s)
  then have i1: "cp_inv dg b (S1, K0)" by (rule same_cat_inv(1)[OF _ inv])
  define meta where "meta = \<lparr>cp_name = name, cp_collection_id = collection, cp_seq_no = seq_no, cp_tx_id = tx_id,
     cp_metadata = metadata, cp_created_at = created\<rparr>"
  obtain r2 s2 where get: "get_checkpoint_internal F dg name (S1, K0) = (r2, s2)"
    by (cases "get_checkpoint_internal F dg name (S1, K0)")
  have i2: "cp_inv dg b s2" "cp_view dg (snd s2) = ?v" "\<And>old. b \<Longrightarrow> r2 = Inr old \<Longrightarrow> old = ?v name"
    using get_internal_effect(1-3)[OF i1 get] by (simp_all add: s)
  obtain r3 s3 where pin: "storage_call F (pins_map (snapshot_pin seq_no)) s2 = (r3, s3)"
    by (cases "storage_call F (pins_map (snapshot_pin seq_no)) s2")
  have "same_cat s2 s3" by (rule obeys_result[OF storage_call_cat pin]) simp
  then have i3: "cp_inv dg b s3" "cp_view dg (snd s3) = ?v" using same_cat_inv(1)[OF _ i2(1)] same_cat_inv(2) i2(2) by auto
  obtain r5 s5 where save: "save_checkpoint_internal F dg meta s3 = (r5, s5)"
    by (cases "save_checkpoint_internal F dg meta s3")
  have m: "cp_name meta = name" "cp_seq_no meta = seq_no" "made_by name collection seq_no tx_id metadata meta"
    by (simp_all add: meta_def made_by_def)
  have fresh: "cp_seq_no k \<noteq> seq_no" if "n \<noteq> name" "?v n = Some k" for n k
    using that free by (simp add: seq_free_def)
  have i5: "cp_inv dg (b \<and> (r5 = Inr () \<or> cp_view dg (snd s5) = ?v)) s5"
    "cp_view dg (snd s5) = ?v(name \<mapsto> meta) \<or> (\<exists>e. r5 = Inl e) \<and> cp_view dg (snd s5) = ?v"
    using save_internal_effect[OF i3(1) save] name fresh by (simp_all add: i3(2) m)
  note defs = create_checkpoint_def seq_def lift_def valid s ts Let_def meta_def[symmetric] get pin save
  show ?thesis
  proof (cases "\<exists>e. r2 = Inl e \<or> r3 = Inl e \<or> r5 = Inl e")
    case True
    have err: "\<exists>e. r = Inl e" using create True by (auto simp: defs split: sum.splits)
    have "s' = s2 \<or> s' = s3 \<or> (s' = snd (unpin_quietly F seq_no s5) \<and> r5 \<noteq> Inr ())"
      using create True by (auto simp: defs split: sum.splits)
    then show ?thesis
    proof (elim disjE conjE)
      assume e: "s' = snd (unpin_quietly F seq_no s5)" "r5 \<noteq> Inr ()"
      have cat: "same_cat s5 s'" unfolding e(1) by (rule obeysD[OF unpin_quietly_cat])
      have v': "cp_view dg (snd s') = cp_view dg (snd s5)" by (rule same_cat_inv(2)[OF cat])
      show ?thesis using same_cat_inv(1)[OF cat i5(1)] i5(2) m(3) err e(2) unfolding v' by auto
    qed (use i2 i3 err in auto)
  next
    case False
    then obtain old where oks: "r2 = Inr old" "r3 = Inr ()" "r5 = Inr ()" by (metis sumE old.unit.exhaust)
    obtain r6 S6 K6 where retire: "retire_old F seq_no old s5 = (r6, (S6, K6))" by (metis surj_pair)
    have v5: "cp_view dg (snd s5) = ?v(name \<mapsto> meta)" using i5(2) oks by simp
    have other: "cp_seq_no k \<noteq> cp_seq_no p" if on: b "old = Some p" "cp_seq_no p \<noteq> seq_no" "cp_view dg (snd s5) n = Some k" for p n k
    proof (cases "n = name")
      case True
      then show ?thesis using on v5 m(2) by auto
    next
      case False
      then have "?v n = Some k" "?v name = Some p" using on v5 i2(3)[OF on(1) oks(1)] by simp_all
      then show ?thesis using inv False unfolding cp_inv_def storage_ok_def seqs_distinct_def by blast
    qed
    have "cp_inv dg b s5" using i5(1) oks(3) by simp
    note i6 = retire_effect[OF this retire other]
    have res: "r = Inr meta" "s' = (index_insert meta S6, K6)"
      using create retire i6(1) oks by (auto simp: defs ret_def put_state_def)
    have v6: "cp_view dg K6 = ?v(name \<mapsto> meta)" using i6(3) v5 by simp
    have "cp_inv dg b (index_insert meta S6, K6)"
    proof (rule put_state_inv[OF i6(2)])
      assume "idx_synced dg (S6, K6)"
      then show "idx_synced dg (index_insert meta S6, K6)"
        by (intro index_insert_synced[where v = "cp_view dg K6"])
          (use fresh in \<open>auto simp: idx_synced_def v6 m\<close>)
    qed
    then show ?thesis unfolding res using v6 m(3) by simp
  qed
qed

lemma drop_calls:
  "drop_checkpoint F dg name =
     seq (lift (validate_identifier name)) (\<lambda>_. seq (get_checkpoint_internal F dg name) (\<lambda>found.
       case found of None \<Rightarrow> ret ()
       | Some cp \<Rightarrow> seq (write_calls F (storage_delete name)) (\<lambda>_.
           seq (unpin_quietly F (cp_seq_no cp)) (\<lambda>_. put_state (remove_by_name (cp_name cp)) id))))"
  by (simp add: drop_checkpoint_def write_calls_def seq_assoc cong: option.case_cong)

lemma drop_found:
  assumes inv: "cp_inv dg b s" and cp: "b \<Longrightarrow> cp_name cp = name"
    and drop: "seq (write_calls F (storage_delete name)) (\<lambda>_.
      seq (unpin_quietly F q) (\<lambda>_. put_state (remove_by_name (cp_name cp)) id)) s = (r, s')"
  shows "cp_inv dg (b \<and> ((\<exists>u. r = Inr u) \<or> cp_view dg (snd s') = cp_view dg (snd s))) s'
    \<and> (cp_view dg (snd s') = (cp_view dg (snd s))(name := None) \<or> (\<exists>e. r = Inl e) \<and> cp_view dg (snd s') = cp_view dg (snd s))"
proof -
  obtain r1 s1 where w: "write_calls F (storage_delete name) s = (r1, s1)" by (cases "write_calls F (storage_delete name) s")
  obtain r2 s2 where un: "unpin_quietly F q s1 = (r2, s2)" by (cases "unpin_quietly F q s1")
  have r2: "r2 = Inr ()" by (rule unpin_quietly_ok[OF un])
  have un_cat: "same_cat s1 s2" by (rule obeys_result[OF unpin_quietly_cat un])
  have res: "case r1 of Inl e \<Rightarrow> r = Inl e \<and> s' = s1 | Inr _ \<Rightarrow> r = Inr () \<and> s' = (remove_by_name (cp_name cp) (fst s2), snd s2)"
    using drop by (auto simp: seq_def w un r2 put_state_def split: sum.splits prod.splits)
  from w show ?thesis
  proof (cases rule: write_calls_effect)
    case (failed e)
    then have "r = Inl e" "s' = s1" using res by simp_all
    then show ?thesis using same_cat_inv(1)[OF failed(2) inv] same_cat_inv(2)[OF failed(2)] by simp
  next
    case (took S1 K1)
    let ?K = "storage_delete name K1"
    have K1: "cp_view dg K1 = cp_view dg (snd s)" "storage_ok dg K1"
      using same_cat_inv(2)[OF took(1)] same_cat_inv(1)[OF took(1) inv] by (simp_all add: cp_inv_def)
    have t: "cp_view dg (snd s1) = (cp_view dg (snd s))(name := None)"
      "cp_inv dg (b \<and> cp_view dg (snd s1) = cp_view dg (snd s)) s1"
      using took_inv[OF inv took _ delete_view(2)[OF K1(2)]] delete_view(1)[OF K1(2)] K1(1) by (simp_all add: storage_delete_def)
    show ?thesis
    proof (cases r1)
      case (Inl e)
      then show ?thesis using res t by simp
    next
      case (Inr u)
      then have s': "r = Inr ()" "s' = (remove_by_name (cp_name cp) (fst s2), snd s2)" using res by simp_all
      have v2: "cp_view dg (snd s2) = (cp_view dg (snd s))(name := None)" using same_cat_inv(2)[OF un_cat] t(1) by simp
      have idx: "cs_by_seq (fst s2) = cs_by_seq (fst s)" "cs_by_name (fst s2) = cs_by_name (fst s)"
        using took un_cat by (simp_all add: same_cat_def)
      have hides: "ks_hides (snd s2) = ks_hides (snd s)"
        using took un_cat kept_docsD(1)[of "snd s" K1] kept_docsD(1)[of ?K "snd s1"] kept_docsD(1)[of "snd s1" "snd s2"]
        by (simp add: same_cat_def storage_delete_def)
      have "idx_synced dg s'" if b
      proof -
        have "idx_ok (cp_view dg (snd s)) (fst s2)" "ks_hides (snd s2) \<Longrightarrow> idx_full (cp_view dg (snd s)) (fst s2)"
          using inv that idx hides by (simp_all add: cp_inv_def idx_synced_def idx_ok_def idx_full_def)
        then show ?thesis using remove_by_name_ok remove_by_name_full cp[OF that] by (simp add: idx_synced_def s' v2)
      qed
      moreover have "storage_ok dg (snd s2)" using same_cat_inv(1)[OF un_cat t(2)] by (simp add: cp_inv_def)
      ultimately show ?thesis using s' v2 by (simp add: cp_inv_def)
    qed
  qed
qed

lemma drop_effect:
  assumes inv: "cp_inv dg b s" and drop: "drop_checkpoint F dg name s = (r, s')"
  shows "cp_inv dg (b \<and> ((\<exists>u. r = Inr u) \<or> cp_view dg (snd s') = cp_view dg (snd s))) s'
    \<and> (cp_view dg (snd s') = (cp_view dg (snd s))(name := None)
      \<or> ((\<exists>e. r = Inl e) \<or> \<not> b) \<and> cp_view dg (snd s') = cp_view dg (snd s))"
proof (cases "validate_identifier name")
  case (Inl e)
  then have "r = Inl e" "s' = s" using drop by (simp_all add: drop_calls seq_def lift_def)
  then show ?thesis using inv by simp
next
  case valid: (Inr u)
  obtain r1 s1 where get: "get_checkpoint_internal F dg name s = (r1, s1)" by (cases "get_checkpoint_internal F dg name s")
  note i1 = get_internal_effect(1,2)[OF inv get] and found = get_internal_effect(3)[OF inv get]
  have after: "(case r1 of Inl e \<Rightarrow> (Inl e, s1) | Inr None \<Rightarrow> (Inr (), s1)
      | Inr (Some cp) \<Rightarrow> seq (write_calls F (storage_delete name)) (\<lambda>_.
           seq (unpin_quietly F (cp_seq_no cp)) (\<lambda>_. put_state (remove_by_name (cp_name cp)) id)) s1) = (r, s')"
    using drop valid by (simp add: drop_calls seq_def[of "lift _"] seq_def[of "get_checkpoint_internal _ _ _"] lift_def get ret_def
        split: sum.splits option.splits)
  consider (none) "r1 = Inr None" | (err) e where "r1 = Inl e" | (some) cp where "r1 = Inr (Some cp)"
    by (metis option.exhaust sumE)
  then show ?thesis
  proof cases
    case none
    have "cp_view dg (snd s) name = None" if b using found[OF that none] by simp
    then have "(cp_view dg (snd s))(name := None) = cp_view dg (snd s)" if b using that by auto
    moreover have "r = Inr ()" "s' = s1" using after none by simp_all
    ultimately show ?thesis using i1 by auto
  next
    case (err e)
    then have "r = Inl e" "s' = s1" using after by simp_all
    then show ?thesis using i1 by simp
  next
    case (some cp)
    have "cp_name cp = name" if b
    proof -
      have "cp_view dg (snd s) name = Some cp" using found[OF that some] by simp
      then show ?thesis using inv view_docs by (metis cp_inv_def storage_ok_def)
    qed
    then show ?thesis using drop_found[OF i1(1), of cp name F "cp_seq_no cp" r s'] after some i1(2) by auto
  qed
qed

text \<open>A listing reads all documents, whatever the index holds, and builds the index anew.\<close>

lemma fold_index_insert:
  assumes "idx_ok v S" "idx_full v S" "distinct (map cp_seq_no ms)" "distinct (map cp_name ms)"
    "\<And>n k m. v n = Some k \<Longrightarrow> m \<in> set ms \<Longrightarrow> cp_seq_no k \<noteq> cp_seq_no m \<and> n \<noteq> cp_name m"
    "\<And>n k. w n = Some k \<longleftrightarrow> v n = Some k \<or> (k \<in> set ms \<and> cp_name k = n)"
  shows "idx_ok w (fold index_insert ms S) \<and> idx_full w (fold index_insert ms S)"
  using assms
proof (induction ms arbitrary: v S)
  case Nil
  have "w n = v n" for n using Nil.prems(6)[of n] by (cases "v n"; cases "w n") auto
  then have "w = v" by (rule ext)
  then show ?case using Nil.prems(1,2) by simp
next
  case (Cons m ms)
  let ?v = "v(cp_name m \<mapsto> m)"
  have none: "v (cp_name m) = None" using Cons.prems(5)[of "cp_name m" _ m] by fastforce
  have "idx_ok w (fold index_insert ms (index_insert m S)) \<and> idx_full w (fold index_insert ms (index_insert m S))"
  proof (rule Cons.IH[of ?v])
    show "idx_ok ?v (index_insert m S)" by (rule index_insert_ok[OF Cons.prems(1)]) (use Cons.prems(5)[of _ _ m] in auto)
    show "idx_full ?v (index_insert m S)" by (rule index_insert_full[OF Cons.prems(2)])
    show "distinct (map cp_seq_no ms)" "distinct (map cp_name ms)" using Cons.prems(3,4) by simp_all
    show "cp_seq_no k \<noteq> cp_seq_no l \<and> n \<noteq> cp_name l" if at: "?v n = Some k" and l: "l \<in> set ms" for n k l
    proof (cases "n = cp_name m")
      case True
      have "cp_seq_no m \<noteq> cp_seq_no l" "cp_name m \<noteq> cp_name l"
        using Cons.prems(3,4) l by (auto simp: image_iff)
      then show ?thesis using True at by simp
    next
      case False
      then show ?thesis using Cons.prems(5)[of n k l] at l by simp
    qed
    show "w n = Some k \<longleftrightarrow> ?v n = Some k \<or> (k \<in> set ms \<and> cp_name k = n)" for n k
      using Cons.prems(6)[of n k] none by auto
  qed
  then show ?case by simp
qed

lemma parse_docs_all:
  assumes "\<And>d. d \<in> set ds \<Longrightarrow> \<exists>m. parse_doc dg d = Inr m"
  shows "parse_docs dg ds = Inr (map (\<lambda>d. projr (parse_doc dg d)) ds)"
  using assms
proof (induction ds)
  case (Cons d ds)
  obtain m where "parse_doc dg d = Inr m" using Cons.prems[of d] by auto
  moreover have "parse_docs dg ds = Inr (map (\<lambda>d. projr (parse_doc dg d)) ds)" using Cons by simp
  ultimately show ?case by simp
qed simp

lemma distinct_sort_key: "distinct (map f (sort_key g xs)) = distinct (map f xs)"
  using mset_eq_imp_distinct_iff[of "map f (sort_key g xs)" "map f xs"] by simp

lemma listed_docs:
  assumes ok: "storage_ok dg K"
  obtains ms where "parse_docs dg (map snd (filter (\<lambda>(n, _). \<not> skipped_name n) (sort_key fst (ks_docs K)))) = Inr ms"
    "\<And>n k. cp_view dg K n = Some k \<longleftrightarrow> k \<in> set ms \<and> cp_name k = n" "distinct (map cp_seq_no ms)" "distinct (map cp_name ms)"
proof -
  have docs: "docs_ok dg K" and dist: "distinct (map fst (ks_docs K))" and seqs: "seqs_distinct (cp_view dg K)"
    using ok by (simp_all add: storage_ok_def docs_ok_def)
  define xs where "xs = filter (\<lambda>(n, _). \<not> skipped_name n) (sort_key fst (ks_docs K))"
  define ms where "ms = map (\<lambda>d. projr (parse_doc dg d)) (map snd xs)"
  have xs: "map_of (ks_docs K) n = Some d \<and> \<not> skipped_name n" if "(n, d) \<in> set xs" for n d
    using that dist by (auto simp: xs_def)
  have at: "\<exists>m. parse_doc dg d = Inr m \<and> cp_name m = n \<and> cp_view dg K n = Some m" if "(n, d) \<in> set xs" for n d
    using docs_okD[OF docs, of n d] xs[OF that] by (auto simp: cp_view_def)
  have names: "map cp_name ms = map fst xs" using at by (force simp: ms_def)
  have dx: "distinct (map fst xs)" using dist by (simp add: xs_def distinct_map_filter distinct_sort_key)
  have in_ms: "cp_view dg K n = Some k \<longleftrightarrow> k \<in> set ms \<and> cp_name k = n" for n k
  proof
    assume v: "cp_view dg K n = Some k"
    from view_docs[OF docs v] obtain d where d: "map_of (ks_docs K) n = Some d" "parse_doc dg d = Inr k" "cp_name k = n" "\<not> skipped_name n" .
    then have "(n, d) \<in> set xs" by (auto simp: xs_def dest: map_of_SomeD)
    then have "projr (parse_doc dg d) \<in> set ms" by (force simp: ms_def)
    then show "k \<in> set ms \<and> cp_name k = n" using d by simp
  next
    assume k: "k \<in> set ms \<and> cp_name k = n"
    then obtain n' d where "(n', d) \<in> set xs" "k = projr (parse_doc dg d)" by (force simp: ms_def)
    then show "cp_view dg K n = Some k" using at[of n' d] k by auto
  qed
  have "inj_on cp_seq_no (set ms)"
  proof (rule inj_onI)
    fix x y assume "x \<in> set ms" "y \<in> set ms" "cp_seq_no x = cp_seq_no y"
    then have "cp_view dg K (cp_name x) = Some x" "cp_view dg K (cp_name y) = Some y" using in_ms by blast+
    then show "x = y" using seqs \<open>cp_seq_no x = cp_seq_no y\<close> unfolding seqs_distinct_def by (metis option.inject)
  qed
  moreover have dn: "distinct (map cp_name ms)" using names dx by simp
  ultimately have "distinct (map cp_seq_no ms)" by (simp add: distinct_map)
  moreover have "parse_docs dg (map snd xs) = Inr ms" unfolding ms_def
    by (rule parse_docs_all) (use at in force)
  ultimately show thesis using that in_ms dn unfolding xs_def by blast
qed

lemma list_effect:
  assumes inv: "cp_inv dg b s" and list: "list_checkpoints F dg s = (r, s')"
  shows "cp_inv dg (b \<or> (\<exists>ms. r = Inr ms)) s' \<and> cp_view dg (snd s') = cp_view dg (snd s)
    \<and> (F (ks_calls (snd s)) = None \<longrightarrow> (\<exists>ms. r = Inr ms))
    \<and> (\<forall>ms. r = Inr ms \<longrightarrow> sorted_wrt (<) (map cp_seq_no ms) \<and> (\<forall>n k. cp_view dg (snd s) n = Some k \<longleftrightarrow> k \<in> set ms \<and> cp_name k = n))"
proof -
  obtain S K where s: "s = (S, K)" by (cases s)
  let ?K = "K\<lparr>ks_calls := ks_calls K + 1\<rparr>"
  obtain r1 s1 where call: "cp_call F (S, K) = (r1, s1)" by (cases "cp_call F (S, K)")
  have s1: "s1 = (S, ?K)" by (rule cp_call_effect[OF call])
  have cat: "same_cat s (S, ?K)" using obeys_result[OF cp_call_cat call] by (simp add: s s1)
  have inv1: "cp_inv dg b (S, ?K)" and view: "cp_view dg ?K = cp_view dg (snd s)"
    using same_cat_inv(1)[OF cat inv] same_cat_inv(2)[OF cat] by simp_all
  show ?thesis
  proof (cases r1)
    case (Inl e)
    then have "r = Inl e" "s' = (S, ?K)" using list by (simp_all add: list_checkpoints_def seq_def call s s1)
    moreover have "F (ks_calls K) \<noteq> None" using call Inl by (auto simp: storage_call_def Let_def split: option.splits)
    ultimately show ?thesis using inv1 view by (auto simp: s)
  next
    case (Inr u)
    have "storage_ok dg ?K" using inv1 by (simp add: cp_inv_def)
    then obtain ms where ms:
      "parse_docs dg (map snd (filter (\<lambda>(n, _). \<not> skipped_name n) (sort_key fst (ks_docs ?K)))) = Inr ms"
      "\<And>n k. cp_view dg ?K n = Some k \<longleftrightarrow> k \<in> set ms \<and> cp_name k = n" "distinct (map cp_seq_no ms)" "distinct (map cp_name ms)"
      using listed_docs[of dg ?K] by blast
    let ?S = "fold index_insert ms (index_clear S)"
    have res: "r = Inr (sort_key cp_seq_no ms)" "s' = (?S, ?K)"
      using list Inr ms(1) by (simp_all add: list_checkpoints_def seq_def call s s1 lift_def put_state_def ret_def)
    have "idx_ok (cp_view dg ?K) ?S \<and> idx_full (cp_view dg ?K) ?S"
      by (rule fold_index_insert[where v = "\<lambda>_. None"])
        (use ms(2-4) in \<open>simp_all add: idx_ok_def idx_full_def index_clear_def\<close>)
    then have "cp_inv dg True s'" using inv1 by (simp add: cp_inv_def idx_synced_def res)
    moreover have "sorted_wrt (<) (map cp_seq_no (sort_key cp_seq_no ms))"
      using ms(3) by (simp add: strict_sorted_iff distinct_sort_key)
    ultimately show ?thesis using ms(2) view res by (simp add: cp_inv_def)
  qed
qed

lemma load_effect:
  assumes inv: "cp_inv dg b s" and load: "load_checkpoint F dg q s = (r, s')"
  shows "cp_inv dg b s' \<and> cp_view dg (snd s') = cp_view dg (snd s)"
proof -
  obtain S K where s: "s = (S, K)" by (cases s)
  obtain r1 s1 where l: "list_checkpoints F dg s = (r1, s1)" by (cases "list_checkpoints F dg s")
  have "cp_inv dg b s1" "cp_view dg (snd s1) = cp_view dg (snd s)"
    using list_effect[OF inv l] cp_inv_weaken[of dg "b \<or> (\<exists>ms. r1 = Inr ms)" s1 b] by blast+
  moreover have "s' = s \<or> s' = s1"
    using load l by (auto simp: load_checkpoint_def s seq_def ret_def split: option.splits sum.splits)
  ultimately show ?thesis using inv by auto
qed

section \<open>Histories\<close>

text \<open>
  Histories of the store: every operation, with any faults; changes of the storage by others that leave the
  documents (flushes above all); and a store opened on any storage whose documents are well formed, also
  one that a restart has changed, say by replaying a write whose commit had failed. The flag says that the index can answer for the storage. It
  is on for a store without documents, after a listing, and after opening when the engine hides nothing, and it goes off
  when a write takes effect although its operation fails.
\<close>

inductive cp_hist :: "digest \<Rightarrow> bool \<Rightarrow> cp_store \<times> cp_storage \<Rightarrow> bool" for dg where
  hist_fresh: "ks_docs K = [] \<Longrightarrow> cp_hist dg True (cp_store_new start hwm, K)"
| hist_open: "storage_ok dg K \<Longrightarrow> open_store F (S, K) = (Inr u, s') \<Longrightarrow> cp_hist dg (\<not> ks_hides K) s'"
| hist_create: "cp_hist dg b s \<Longrightarrow> \<not> skipped_name name \<Longrightarrow> seq_free (cp_view dg (snd s)) name seq_no \<Longrightarrow>
    create_checkpoint F dg wall name collection seq_no tx_id metadata s = (r, s') \<Longrightarrow>
    cp_hist dg (b \<and> ((\<exists>m. r = Inr m) \<or> cp_view dg (snd s') = cp_view dg (snd s))) s'"
| hist_save: "cp_hist dg b s \<Longrightarrow> \<not> skipped_name (cp_name meta) \<Longrightarrow> seq_free (cp_view dg (snd s)) (cp_name meta) (cp_seq_no meta) \<Longrightarrow>
    save_checkpoint F dg meta s = (r, s') \<Longrightarrow> cp_hist dg (b \<and> (r = Inr () \<or> cp_view dg (snd s') = cp_view dg (snd s))) s'"
| hist_drop: "cp_hist dg b s \<Longrightarrow> drop_checkpoint F dg name s = (r, s') \<Longrightarrow>
    cp_hist dg (b \<and> ((\<exists>u. r = Inr u) \<or> cp_view dg (snd s') = cp_view dg (snd s))) s'"
| hist_get: "cp_hist dg b s \<Longrightarrow> get_checkpoint F dg name s = (r, s') \<Longrightarrow> cp_hist dg b s'"
| hist_list: "cp_hist dg b s \<Longrightarrow> list_checkpoints F dg s = (r, s') \<Longrightarrow> cp_hist dg (b \<or> (\<exists>ms. r = Inr ms)) s'"
| hist_load: "cp_hist dg b s \<Longrightarrow> load_checkpoint F dg q s = (r, s') \<Longrightarrow> cp_hist dg b s'"
| hist_storage: "cp_hist dg b (S, K) \<Longrightarrow> ks_docs K' = ks_docs K \<Longrightarrow> ks_hides K' = ks_hides K \<Longrightarrow> cp_hist dg b (S, K')"

lemma new_store_synced: "(ks_hides K \<Longrightarrow> cp_view dg K = (\<lambda>_. None)) \<Longrightarrow> idx_synced dg (cp_store_new start hwm, K)"
  by (auto simp: idx_synced_def idx_ok_def idx_full_def cp_store_new_def)

lemma get_effect:
  assumes inv: "cp_inv dg b s" and get: "get_checkpoint F dg name s = (r, s')"
  shows "cp_inv dg b s' \<and> cp_view dg (snd s') = cp_view dg (snd s) \<and> (\<forall>x. b \<longrightarrow> r = Inr x \<longrightarrow> x = cp_view dg (snd s) name)
    \<and> (validate_identifier name = Inr () \<longrightarrow> F (ks_calls (snd s)) = None \<longrightarrow> name \<noteq> sys_tx_counter \<longrightarrow> (\<exists>x. r = Inr x))"
proof (cases "validate_identifier name")
  case (Inl e)
  then have "r = Inl e" "s' = s" using get by (simp_all add: get_checkpoint_def seq_def lift_def)
  then show ?thesis using inv Inl by simp
next
  case (Inr u)
  then have "get_checkpoint_internal F dg name s = (r, s')" using get by (simp add: get_checkpoint_def seq_def lift_def)
  from get_internal_effect[OF inv this] show ?thesis by blast
qed

lemma cp_hist_inv: "cp_hist dg b s \<Longrightarrow> cp_inv dg b s"
proof (induction rule: cp_hist.induct)
  case (hist_fresh K start hwm)
  have "cp_view dg K = (\<lambda>_. None)" by (rule ext) (simp add: cp_view_def hist_fresh)
  then show ?case by (simp add: cp_inv_def new_store_synced storage_ok_def docs_ok_def hist_fresh seqs_distinct_def)
next
  case (hist_open K F S u s')
  obtain S' K' where s': "s' = (S', K')" by (cases s')
  note o = open_store_result[OF hist_open(2)[unfolded s']]
  have "kept_docs K K'" using o(1,2) by simp
  then have "storage_ok dg K'" by (rule kept_docs_ok[OF _ hist_open(1)])
  then show ?case using o(2,3) new_store_synced[of K'] by (auto simp: cp_inv_def s')
next
  case (hist_create b s name seq_no F wall collection tx_id metadata r s')
  then show ?case using create_effect by blast
next
  case (hist_save b s meta F r s')
  then show ?case using save_internal_effect unfolding save_checkpoint_def seq_free_def by blast
next
  case (hist_drop b s F name r s')
  then show ?case using drop_effect by blast
next
  case (hist_get b s F name r s')
  then show ?case using get_effect by blast
next
  case (hist_list b s F r s')
  then show ?case using list_effect by blast
next
  case (hist_load b s F q r s')
  then show ?case using load_effect by blast
next
  case (hist_storage b S K K')
  then have "same_cat (S, K) (S, K')" by (simp add: same_cat_def)
  then show ?case by (rule same_cat_inv(1)) (rule hist_storage.IH)
qed


section \<open>A concrete store\<close>

text \<open>An equation for evaluation without the bits of the word.\<close>

lemma raw_seq_code [code]:
  "raw_seq s = (if s < 0x8000000000000000 then s else s - 0x8000000000000000)"
proof -
  have "raw_seq s = take_bit 63 s"
  proof (rule bit_eqI)
    fix n assume "possible_bit TYPE(u64) n"
    then have "n < 64" by simp
    then show "bit (raw_seq s) n = bit (take_bit 63 s) n"
      by (auto simp: raw_seq_def bit_and_iff bit_not_iff bit_TOMBSTONE_BIT bit_take_bit_iff)
  qed
  then have r: "unat (raw_seq s) = unat s mod 2 ^ 63" by (simp add: unsigned_take_bit_eq take_bit_nat_def)
  have b: "unat s < 2 ^ 64" using unat_lt_pow[of s] by simp
  show ?thesis
  proof (cases "s < 0x8000000000000000")
    case True
    then have "unat s < 2 ^ 63" by (simp add: word_less_nat_alt)
    then show ?thesis using True r by (simp add: word_unat_eq_iff)
  next
    case False
    then have "2 ^ 63 \<le> unat s" by (simp add: word_less_nat_alt)
    moreover from this have "unat s mod 2 ^ 63 = unat s - 2 ^ 63" using b by (simp add: mod_nat_eqI le_mod_geq)
    moreover have "unat (s - 0x8000000000000000) = unat s - 2 ^ 63" using False by (simp add: unat_sub)
    ultimately show ?thesis using False r by (simp add: word_unat_eq_iff)
  qed
qed

definition demo_storage :: "bool \<Rightarrow> cp_storage" where
  "demo_storage hides = \<lparr>ks_docs = [], ks_flushed = [], ks_hides = hides, ks_last_tx = 0, ks_pins = snapshot_registry_new,
     ks_orphan_pins = [], ks_orphan_checkpoints = [], ks_calls = 0\<rparr>"

definition demo_store :: "bool \<Rightarrow> cp_store \<times> cp_storage" where
  "demo_store hides = (cp_store_new 0 0, demo_storage hides)"

abbreviation no_fault :: faults where
  "no_fault \<equiv> \<lambda>_. None"

abbreviation demo_create :: "string \<Rightarrow> u64 \<Rightarrow> u64 \<Rightarrow> cp_meta cp_act" where
  "demo_create name q tx \<equiv> create_checkpoint no_fault (\<lambda>_. []) 1 (lit name) (lit ''col'') q tx JNull"

abbreviation demo_get :: "string \<Rightarrow> cp_meta option cp_act" where
  "demo_get name \<equiv> get_checkpoint no_fault (\<lambda>_. []) (lit name)"

lemma demo_hist: "cp_hist dg True (demo_store hides)"
  unfolding demo_store_def by (rule hist_fresh) (simp add: demo_storage_def)

lemma demo_create_ok:
  "\<exists>m s'. demo_create ''a'' 5 3 (demo_store True) = (Inr m, s')"
proof -
  have "case fst (demo_create ''a'' 5 3 (demo_store True)) of Inr m \<Rightarrow> True | Inl _ \<Rightarrow> False" by code_simp
  then show ?thesis by (cases "demo_create ''a'' 5 3 (demo_store True)") (auto split: sum.splits)
qed


lemma demo_alloc: "\<exists>s'. allocate_tx no_fault (demo_store False) = (Inr INTERNAL_BASE, s')"
proof -
  have "fst (allocate_tx no_fault (demo_store False)) = Inr INTERNAL_BASE" by code_simp
  then show ?thesis by (metis prod.collapse)
qed

theorem checkpoint_ids_unique_witness:
  "\<exists>s s' t. cp_reach {INTERNAL_BASE} s \<and> allocate_tx no_fault s = (Inr t, s') \<and> t \<notin> {INTERNAL_BASE}"
proof -
  obtain s1 where 1: "allocate_tx no_fault (demo_store False) = (Inr INTERNAL_BASE, s1)" using demo_alloc by blast
  have "cp_reach {} (demo_store False)" unfolding demo_store_def by (rule cp_init) (simp add: demo_storage_def ks_hwm_def)
  moreover have "cs_tx_counter (fst (demo_store False)) < - 1" by code_simp
  ultimately have reach: "cp_reach {INTERNAL_BASE} s1" using cp_alloc[OF _ _ 1] by simp
  have "case allocate_tx no_fault (snd (allocate_tx no_fault (demo_store False))) of (Inr t, _) \<Rightarrow> True | _ \<Rightarrow> False" by code_simp
  then obtain t s2 where 2: "allocate_tx no_fault s1 = (Inr t, s2)"
    by (auto simp: 1 split: prod.splits sum.splits)
  from checkpoint_ids_unique[OF reach 2] reach 2 show ?thesis by blast
qed

text \<open>
  On an engine that hides flushed internal writes, a store that is opened again after a flush does not find its checkpoint, and
  dropping it reports success and removes nothing, until a listing finds the document.
\<close>

lemma reopened_store_misses_checkpoint:
  "fst (seq (demo_create ''a'' 5 3) (\<lambda>_. seq (put_state id storage_flush) (\<lambda>_. seq (open_store no_fault) (\<lambda>_.
     seq (demo_get ''a'') (\<lambda>g. seq (drop_checkpoint no_fault (\<lambda>_. []) (lit ''a'')) (\<lambda>_.
     seq (list_checkpoints no_fault (\<lambda>_. [])) (\<lambda>ms. ret (g = None, map cp_name ms))))))) (demo_store True))
   = Inr (True, [lit ''a''])"
  by code_simp

text \<open>
  The commit of a new checkpoint fails after it took effect: the lookup finds nothing on an engine that hides flushed documents once a flush
  has followed, and the listing shows the checkpoint whose creation failed.
\<close>

lemma failed_create_is_listed:
  "fst (seq (\<lambda>s. (Inr (), snd (create_checkpoint (\<lambda>n. if n = 6 then Some (Storage ''flush'', True) else None) (\<lambda>_. []) 1
        (lit ''a'') (lit ''col'') 5 3 JNull s))) (\<lambda>_. seq (put_state id storage_flush) (\<lambda>_.
     seq (demo_get ''a'') (\<lambda>g. seq (list_checkpoints no_fault (\<lambda>_. [])) (\<lambda>ms. ret (g = None, map cp_name ms))))) (demo_store True))
   = Inr (True, [lit ''a''])"
  by code_simp

text \<open>
  A lookup on a store opened again reads the document, a drop runs, and the lookup puts what it read into the
  index: the checkpoint is found again although it was dropped.
\<close>

lemma stale_get_revives_checkpoint:
  "map_sum id (map_option cp_name) (fst (seq (demo_create ''a'' 5 3) (\<lambda>m. seq (open_store no_fault) (\<lambda>_.
     seq (drop_checkpoint no_fault (\<lambda>_. []) (lit ''a'')) (\<lambda>_. seq (put_state (index_insert m) id) (\<lambda>_. demo_get ''a'')))) (demo_store False)))
   = Inr (Some (lit ''a''))"
  by code_simp

text \<open>A checkpoint can have the name of the counter; it replaces the counter and no listing shows it.\<close>

lemma counter_name_collides:
  "map_sum id (\<lambda>(h, ms). (h, length ms)) (fst (seq (demo_create ''__sys_tx_counter__'' 5 3) (\<lambda>_.
     seq (list_checkpoints no_fault (\<lambda>_. [])) (\<lambda>ms (S, K). (Inr (ks_hwm K, ms), (S, K)))) (demo_store False))) = Inr (None, 0)"
  by code_simp

text \<open>
  Two checkpoints at one sequence number: the index answers a lookup of the first with the second.
\<close>

lemma same_seq_returns_other_checkpoint:
  "map_sum id (map_option cp_name) (fst (seq (demo_create ''a'' 5 3) (\<lambda>_. seq (demo_create ''b'' 5 4)
     (\<lambda>_. demo_get ''a'')) (demo_store False))) = Inr (Some (lit ''b''))"
  by code_simp

text \<open>
  Creating a checkpoint again at the same sequence number pins it twice, dropping it releases one pin.
\<close>

lemma recreate_leaks_pin:
  "sr_active (ks_pins (snd (snd (seq (demo_create ''a'' 5 3) (\<lambda>_. seq (demo_create ''a'' 5 3)
     (\<lambda>_. drop_checkpoint no_fault (\<lambda>_. []) (lit ''a''))) (demo_store False))))) = [(5, 1)]"
  by code_simp

text \<open>
  A checkpoint stored with \<open>save_checkpoint\<close> holds no pin; dropping it releases the pin another checkpoint
  holds at that sequence number.
\<close>

lemma drop_releases_foreign_pin:
  "sr_active (ks_pins (snd (snd (seq (put_state id (\<lambda>K. K\<lparr>ks_pins := snapshot_pin 5 (ks_pins K)\<rparr>)) (\<lambda>_.
     seq (save_checkpoint no_fault (\<lambda>_. []) \<lparr>cp_name = lit ''a'', cp_collection_id = lit ''col'', cp_seq_no = 5, cp_tx_id = 3,
        cp_metadata = JNull, cp_created_at = 1\<rparr>) (\<lambda>_. drop_checkpoint no_fault (\<lambda>_. []) (lit ''a''))) (demo_store False))))) = []"
  by code_simp

text \<open>
  A restart that cannot read the counter starts again at 0: the next id is one that was handed out before.
\<close>

lemma unread_counter_repeats_id:
  "fst (seq (allocate_tx no_fault) (\<lambda>t. seq (open_store (\<lambda>n. if n = 5 then Some (Storage ''read'', False) else None))
     (\<lambda>_. seq (allocate_tx no_fault) (\<lambda>u. ret (t = u)))) (demo_store False)) = Inr True"
  by code_simp

end
