(* ===== verification/Agent_Engine.thy ===== *)
theory Agent_Engine
  imports Agent_Graph Checkpoint_Store
begin

text \<open>
  The execution loop of \<open>contextra-agent/src/engine.rs\<close>: for every step a checkpoint, the reservation of
  the estimated tokens, the tool with its retries, settlement of the budget, the audit entry, the
  step document and the next node.

  Outside the crate are the tools and the database. A tool is a record of its answers; what an
  execution returns may depend on how many executions there were, so that a tool may fail now and
  succeed later. A call of the database fails or not as \<open>en_fault\<close> says for the number of the call;
  the documents it keeps are part of the state (\<open>world\<close>). The texts of errors and the test for null bytes in the text of a
  JSON value are parameters as well. \<open>put_kv_if_absent\<close> reports a conflict when
  the key exists. A tool does not change the context it is shown. The pins a checkpoint guard holds
  and the waiting time between attempts are not modelled.
\<close>

section \<open>State\<close>

record step_result =
  sr_node_id :: rstr
  sr_output :: json
  sr_tokens_consumed :: u64
  sr_next_edge :: "rstr option"

datatype dead_letter_reason =
    TimeoutReason u64
  | BudgetExhausted u64 u64
  | ToolError contextra_error
  | MaxRetriesExceeded u32

record step_dead_letter =
  dl_session_id :: rstr
  dl_node_id :: rstr
  dl_step_index :: u64
  dl_tx_id :: "u64 option"
  dl_failure_reason :: dead_letter_reason
  dl_input :: json
  dl_attempt :: nat

record audit_entry =
  ae_task_id :: rstr
  ae_step_count :: u64
  ae_node_id :: rstr
  ae_tokens_consumed :: u64
  ae_payload :: json
  ae_error :: "contextra_error option"
  ae_tx_id :: "u64 option"

record step_doc =
  sk_node :: rstr
  sk_memory :: "(rstr \<times> json) list"
  sk_output :: json
  sk_tokens_consumed :: u64
  sk_status :: agent_status
  sk_tx_id :: u64

record final_doc =
  fd_status :: agent_status
  fd_step_count :: u64
  fd_memory :: "(rstr \<times> json) list"
  fd_tokens_total :: u64

record checkpoint_meta =
  cm_name :: rstr
  cm_current_node :: rstr
  cm_step_count :: u64
  cm_memory :: "(rstr \<times> json) list"
  cm_budget_consumed :: u64
  cm_budget_available :: u64
  cm_tx_id :: u64

record world =
  wo_calls :: nat
  wo_execs :: nat
  wo_audit :: "(rstr \<times> audit_entry) list"
  wo_steps :: "(rstr \<times> step_doc) list"
  wo_final :: "(rstr \<times> final_doc) list"
  wo_checkpoints :: "(rstr \<times> checkpoint_meta) list"
  wo_dlq :: "(rstr \<times> step_dead_letter) list"
  wo_outcomes :: "(u64 \<times> bool) list"

datatype tool_outcome = ToolOk step_result | ToolFails contextra_error | ToolElapsed

record agent_tool =
  at_estimated_cost :: "json \<Rightarrow> u64"
  at_timeout_ms :: u64
  at_is_retriable :: bool
  at_max_retries :: u32
  at_execute :: "nat \<Rightarrow> agent_context \<Rightarrow> json \<Rightarrow> tool_outcome"

record engine =
  en_tools :: "(rstr \<times> agent_tool) list"
  en_dlq :: bool
  en_fault :: "nat \<Rightarrow> contextra_error option"
  en_tx :: "nat \<Rightarrow> u64"
  en_scale :: budget_scale
  en_parse :: "rstr \<Rightarrow> json option"
  en_nul :: "json \<Rightarrow> bool"
  en_err_text :: "contextra_error \<Rightarrow> rstr"

definition MAX_WORKFLOW_STEPS :: u64 where
  "MAX_WORKFLOW_STEPS = 10000"

section \<open>Calls\<close>

type_synonym 'a act = "(agent_context \<times> world, 'a) action"

definition db_call :: "engine \<Rightarrow> unit act" where
  "db_call E = (\<lambda>(c, w).
     (case en_fault E (wo_calls w) of Some e \<Rightarrow> Inl e | None \<Rightarrow> Inr (),
      (c, w\<lparr>wo_calls := wo_calls w + 1\<rparr>)))"

definition last_tx_id :: "engine \<Rightarrow> u64 act" where
  "last_tx_id E = (\<lambda>(c, w). seq (db_call E) (\<lambda>_. ret (en_tx E (wo_calls w))) (c, w))"

definition audit_key :: "rstr \<Rightarrow> u64 \<Rightarrow> rstr" where
  "audit_key task n = lit ''audit:'' @ task @ lit '':step:'' @ show_num n"

definition step_key :: "rstr \<Rightarrow> u64 \<Rightarrow> rstr" where
  "step_key task n = lit ''task:'' @ task @ lit '':step:'' @ show_num n"

definition final_key :: "rstr \<Rightarrow> rstr" where
  "final_key task = lit ''task:'' @ task @ lit '':final''"

definition checkpoint_name :: "agent_context \<Rightarrow> rstr" where
  "checkpoint_name c = lit ''task:'' @ ac_task_id c @ lit '':step:'' @ show_num (ac_step_count c)
     @ lit '':node:'' @ ac_current_node c"

definition dlq_key :: "step_dead_letter \<Rightarrow> rstr" where
  "dlq_key l = lit ''dlq:'' @ dl_session_id l @ lit '':'' @ dl_node_id l @ lit '':'' @ show_num (dl_step_index l)"

section \<open>Audit, documents and dead letters\<close>

text \<open>The checks on the message of an error, if there is one, and on the payload.\<close>

definition validate_audit_payload_and_error :: "engine \<Rightarrow> json \<Rightarrow> contextra_error option \<Rightarrow> unit res" where
  "validate_audit_payload_and_error E payload err =
     (if (case err of Some e \<Rightarrow> trim (en_err_text E e) = [] | None \<Rightarrow> False)
      then Inl (InvalidInput ''Audit error message cannot be empty when provided'')
      else if (case err of Some e \<Rightarrow> 0 \<in> set (en_err_text E e) | None \<Rightarrow> False)
      then Inl (InvalidInput ''Audit error message cannot contain null bytes'')
      else if (case payload of JString s \<Rightarrow> trim s = [] | _ \<Rightarrow> False)
      then Inl (InvalidInput ''Audit string payload cannot be empty'')
      else if en_nul E payload then Inl (InvalidInput ''Audit payload cannot contain null bytes'')
      else Inr ())"

definition audit_append :: "engine \<Rightarrow> audit_entry \<Rightarrow> unit act" where
  "audit_append E entry =
     seq (lift (validate_task_id (ae_task_id entry))) (\<lambda>_.
     seq (lift (validate_node_id (ae_node_id entry))) (\<lambda>_.
     seq (lift (validate_audit_payload_and_error E (ae_payload entry) (ae_error entry))) (\<lambda>_.
     seq (db_call E) (\<lambda>_ (c, w).
       (let key = audit_key (ae_task_id entry) (ae_step_count entry) in
        if map_of (wo_audit w) key \<noteq> None
        then (Inl (Conflict ''Key already exists in collection KV store''), (c, w))
        else (Inr (), (c, w\<lparr>wo_audit := AList.update key entry (wo_audit w)\<rparr>)))))))"

definition audit_log :: "engine \<Rightarrow> step_result \<Rightarrow> unit act" where
  "audit_log E result = seq (last_tx_id E) (\<lambda>tx (c, w).
     audit_append E \<lparr>ae_task_id = ac_task_id c, ae_step_count = ac_step_count c,
       ae_node_id = ac_current_node c, ae_tokens_consumed = sr_tokens_consumed result,
       ae_payload = sr_output result, ae_error = None, ae_tx_id = Some tx\<rparr> (c, w))"

definition audit_log_failure :: "engine \<Rightarrow> contextra_error \<Rightarrow> unit act" where
  "audit_log_failure E err s =
     (case last_tx_id E s of (tx, (c, w)) \<Rightarrow>
        audit_append E \<lparr>ae_task_id = ac_task_id c, ae_step_count = ac_step_count c,
          ae_node_id = ac_current_node c, ae_tokens_consumed = 0, ae_payload = JNull,
          ae_error = Some err, ae_tx_id = (case tx of Inr t \<Rightarrow> Some t | Inl _ \<Rightarrow> None)\<rparr> (c, w))"

text \<open>Log a failure and return it; if the log cannot take it, the error of the log is returned.\<close>

definition fail_with :: "engine \<Rightarrow> contextra_error \<Rightarrow> 'a act" where
  "fail_with E err = seq (audit_log_failure E err) (\<lambda>_. raise err)"

definition commit_step :: "engine \<Rightarrow> step_result \<Rightarrow> unit act" where
  "commit_step E result = seq (last_tx_id E) (\<lambda>tx. seq (db_call E) (\<lambda>_ (c, w).
     (Inr (), (c, w\<lparr>wo_steps := AList.update (step_key (ac_task_id c) (ac_step_count c))
        \<lparr>sk_node = ac_current_node c, sk_memory = ac_memory c, sk_output = sr_output result,
         sk_tokens_consumed = sr_tokens_consumed result, sk_status = ac_status c, sk_tx_id = tx\<rparr>
        (wo_steps w)\<rparr>))))"

definition persist_final_state :: "engine \<Rightarrow> unit act" where
  "persist_final_state E = seq (db_call E) (\<lambda>_ (c, w).
     (Inr (), (c, w\<lparr>wo_final := AList.update (final_key (ac_task_id c))
        \<lparr>fd_status = ac_status c, fd_step_count = ac_step_count c, fd_memory = ac_memory c,
         fd_tokens_total = tk_consumed (ac_budget c)\<rparr> (wo_final w)\<rparr>)))"

definition checkpoint :: "engine \<Rightarrow> unit act" where
  "checkpoint E = seq (db_call E) (\<lambda>_. seq (last_tx_id E) (\<lambda>tx (c, w).
     seq (lift (validate_identifier (checkpoint_name c))) (\<lambda>_. seq (db_call E) (\<lambda>_ (c, w).
       (Inr (), (c, w\<lparr>wo_checkpoints := AList.update (checkpoint_name c)
          \<lparr>cm_name = checkpoint_name c, cm_current_node = ac_current_node c,
           cm_step_count = ac_step_count c, cm_memory = ac_memory c,
           cm_budget_consumed = tk_consumed (ac_budget c),
           cm_budget_available = tokens_available (en_scale E) (ac_budget c), cm_tx_id = tx\<rparr>
          (wo_checkpoints w)\<rparr>)))) (c, w)))"

text \<open>A dead letter that cannot be stored is only logged.\<close>

definition dlq_push :: "engine \<Rightarrow> step_dead_letter \<Rightarrow> agent_context \<times> world \<Rightarrow> agent_context \<times> world" where
  "dlq_push E l s =
     (if en_dlq E
      then case db_call E s of
          (Inl _, s') \<Rightarrow> s'
        | (Inr _, (c, w)) \<Rightarrow> (c, w\<lparr>wo_dlq := AList.update (dlq_key l) l (wo_dlq w)\<rparr>)
      else s)"

definition dead_letter ::
  "agent_context \<Rightarrow> agent_node \<Rightarrow> u64 \<Rightarrow> json \<Rightarrow> dead_letter_reason \<Rightarrow> nat \<Rightarrow> step_dead_letter" where
  "dead_letter c node tx input reason attempt =
     \<lparr>dl_session_id = ac_task_id c, dl_node_id = an_id node, dl_step_index = ac_step_count c,
      dl_tx_id = Some tx, dl_failure_reason = reason, dl_input = input, dl_attempt = attempt\<rparr>"

section \<open>One step\<close>

fun retry_loop ::
  "engine \<Rightarrow> agent_tool \<Rightarrow> agent_node \<Rightarrow> u64 \<Rightarrow> u64 \<Rightarrow> json \<Rightarrow> u32 \<Rightarrow> nat \<Rightarrow> nat \<Rightarrow> step_result res
     \<Rightarrow> step_result act" where
  "retry_loop E t node tx est input max_attempts 0 attempt res s = (res, s)"
| "retry_loop E t node tx est input max_attempts (Suc left) attempt res (c, w) =
     (let letter = dead_letter c node tx input in
      if attempt > 0 \<and> tokens_available (en_scale E) (ac_budget c) = 0
      then (Inl (MemoryBudgetExceeded (tk_consumed (ac_budget c)) (tk_limit (ac_budget c))),
            dlq_push E (letter (BudgetExhausted 0 est) attempt) (c, w))
      else let w' = w\<lparr>wo_execs := wo_execs w + 1\<rparr> in
        case at_execute t (wo_execs w) c input of
          ToolOk r \<Rightarrow> (Inr r, (c, w'))
        | ToolFails e \<Rightarrow>
            if \<not> at_is_retriable t
            then (Inl e, dlq_push E (letter (ToolError e) attempt) (c, w'))
            else if left = 0
            then (Inl e, dlq_push E (letter (MaxRetriesExceeded max_attempts) attempt) (c, w'))
            else retry_loop E t node tx est input max_attempts left (attempt + 1) (Inl e) (c, w')
        | ToolElapsed \<Rightarrow>
            (let err = Inl (Timeout ''tool'' (at_timeout_ms t));
                 s' = dlq_push E (letter (TimeoutReason (at_timeout_ms t)) attempt) (c, w')
             in if \<not> at_is_retriable t then (err, s')
                else retry_loop E t node tx est input max_attempts left (attempt + 1) err s'))"

definition max_attempts_of :: "agent_tool \<Rightarrow> u32" where
  "max_attempts_of t = (if at_is_retriable t then at_max_retries t + 1 else 1)"

definition execute_node :: "engine \<Rightarrow> agent_node \<Rightarrow> u64 \<Rightarrow> u64 \<Rightarrow> json \<Rightarrow> step_result act" where
  "execute_node E node tx est input s =
     (case an_handler node of
        Some h \<Rightarrow>
          (case map_of (en_tools E) h of
             Some t \<Rightarrow> retry_loop E t node tx est input (max_attempts_of t) (unat (max_attempts_of t)) 0
                (Inl (Internal ''Tool failed without execution'')) s
           | None \<Rightarrow> (Inl (Internal ''Tool not registered''), s))
      | None \<Rightarrow>
          if an_node_type node = Start
          then (Inr \<lparr>sr_node_id = an_id node, sr_output = JNull, sr_tokens_consumed = 0, sr_next_edge = None\<rparr>, s)
          else (Inl (Internal ''Task Node lacks handler''), s))"

definition estimated_cost_of :: "engine \<Rightarrow> agent_node \<Rightarrow> json \<Rightarrow> u64" where
  "estimated_cost_of E node input =
     (if an_node_type node = Start then 0
      else case an_handler node of
          Some h \<Rightarrow> (case map_of (en_tools E) h of Some t \<Rightarrow> at_estimated_cost t input | None \<Rightarrow> 0)
        | None \<Rightarrow> 0)"

text \<open>The reservation before the execution; a start node or a cost of 0 reserves nothing.\<close>

definition reserve_step :: "engine \<Rightarrow> agent_node \<Rightarrow> u64 \<Rightarrow> u64 \<Rightarrow> json \<Rightarrow> bool act" where
  "reserve_step E node tx est input = (\<lambda>(c, w).
     if an_node_type node \<noteq> Start \<and> est > 0
     then case reserve_tokens (en_scale E) est (ac_budget c) of
         (Inr _, B) \<Rightarrow> (Inr True, (c\<lparr>ac_budget := B\<rparr>, w))
       | (Inl err, B) \<Rightarrow> fail_with E err (dlq_push E (dead_letter c node tx input
             (BudgetExhausted (tokens_available (en_scale E) (ac_budget c)) est) 0) (c, w))
     else (Inr False, (c, w)))"

definition report_outcome :: "bool \<Rightarrow> agent_context \<times> world \<Rightarrow> agent_context \<times> world" where
  "report_outcome ok = (\<lambda>(c, w).
     case ac_pending_routing c of
       Some d \<Rightarrow> (c\<lparr>ac_pending_routing := None\<rparr>, w\<lparr>wo_outcomes := wo_outcomes w @ [(d, ok)]\<rparr>)
     | None \<Rightarrow> (c, w))"

text \<open>Settlement: the difference between the estimated and the real cost is consumed or refunded.\<close>

definition settle_step :: "bool \<Rightarrow> u64 \<Rightarrow> step_result \<Rightarrow> agent_context \<Rightarrow> agent_context" where
  "settle_step reserved est r c =
     (let B = ac_budget c; used = sr_tokens_consumed r;
          B' = (if reserved
                then if used > est then consume_tokens (used - est) (drop_reservation True est B)
                     else if est > used then refund_tokens (est - used) (drop_reservation True est B)
                     else drop_reservation True est B
                else if used > 0 then consume_tokens used B else B)
      in c\<lparr>ac_budget := B', ac_memory := AList.update (lit ''last_output'') (sr_output r) (ac_memory c)\<rparr>)"

definition drop_reserved :: "bool \<Rightarrow> u64 \<Rightarrow> agent_context \<Rightarrow> agent_context" where
  "drop_reserved reserved est c =
     (if reserved then c\<lparr>ac_budget := drop_reservation False est (ac_budget c)\<rparr> else c)"

definition finish_execution ::
  "engine \<Rightarrow> bool \<Rightarrow> u64 \<Rightarrow> step_result res \<Rightarrow> step_result act" where
  "finish_execution E reserved est res s =
     (case report_outcome (case res of Inr _ \<Rightarrow> True | Inl _ \<Rightarrow> False) s of (c, w) \<Rightarrow>
        case res of
          Inr r \<Rightarrow> (Inr r, (settle_step reserved est r c, w))
        | Inl err \<Rightarrow>
            (case fail_with E err (c, w) of (r, (c', w')) \<Rightarrow> (r, (drop_reserved reserved est c', w'))))"

text \<open>
  A \<open>Start\<close> or \<open>Task\<close> node. Creating the guard of the checkpoint and committing it are one call each.
\<close>

definition advance_node :: "engine \<Rightarrow> state_graph \<Rightarrow> step_result \<Rightarrow> bool act" where
  "advance_node E G result = (\<lambda>(c, w).
     case resolve_next_node G (ac_current_node c) (sr_next_edge result) of
       Inl err \<Rightarrow> fail_with E err (c, w)
     | Inr next_node \<Rightarrow>
         seq (db_call E) (\<lambda>_. ret False)
           (c\<lparr>ac_current_node := next_node, ac_step_count := ac_step_count c + 1\<rparr>, w))"

definition after_execution :: "engine \<Rightarrow> state_graph \<Rightarrow> bool \<Rightarrow> u64 \<Rightarrow> step_result res \<Rightarrow> bool act" where
  "after_execution E G reserved est res =
     seq (finish_execution E reserved est res) (\<lambda>result.
     seq (audit_log E result) (\<lambda>_.
     seq (commit_step E result) (\<lambda>_. advance_node E G result)))"

definition task_body :: "engine \<Rightarrow> state_graph \<Rightarrow> agent_node \<Rightarrow> u64 \<Rightarrow> bool act" where
  "task_body E G node tx = (\<lambda>(c, w).
     let input = (case map_of (ac_memory c) (lit ''last_output'') of Some v \<Rightarrow> v | None \<Rightarrow> JNull);
         est = estimated_cost_of E node input
     in seq (reserve_step E node tx est input) (\<lambda>reserved s.
          (case execute_node E node tx est input s of (res, s') \<Rightarrow> after_execution E G reserved est res s'))
        (c, w))"

definition task_step :: "engine \<Rightarrow> state_graph \<Rightarrow> agent_node \<Rightarrow> bool act" where
  "task_step E G node =
     seq (last_tx_id E) (\<lambda>tx. seq (db_call E) (\<lambda>_. seq (checkpoint E) (\<lambda>_. task_body E G node tx)))"

definition end_step :: "engine \<Rightarrow> bool act" where
  "end_step E = (\<lambda>(c, w).
     seq (persist_final_state E) (\<lambda>_. seq (db_call E) (\<lambda>_. seq (checkpoint E) (\<lambda>_. ret True)))
       (c\<lparr>ac_status := Completed\<rparr>, w))"

definition decision_step :: "engine \<Rightarrow> state_graph \<Rightarrow> agent_node \<Rightarrow> bool act" where
  "decision_step E G node = (\<lambda>(c, w).
     case evaluate_decision (en_parse E) G node c of
       Inl err \<Rightarrow> fail_with E err (c, w)
     | Inr next_node \<Rightarrow> (Inr False, (c\<lparr>ac_current_node := next_node\<rparr>, w)))"

text \<open>One round of the loop: an error or \<open>True\<close> ends it.\<close>

definition engine_round :: "engine \<Rightarrow> state_graph \<Rightarrow> bool act" where
  "engine_round E G = (\<lambda>(c, w).
     if ac_step_count c \<ge> MAX_WORKFLOW_STEPS
     then fail_with E (Internal ''Maximum workflow step limit exceeded'') (c, w)
     else case sg_get_node G (ac_current_node c) of
         None \<Rightarrow> (Inl (Internal ''Node not found''), (c, w))
       | Some node \<Rightarrow>
           (case an_node_type node of
              End \<Rightarrow> end_step E
            | Start \<Rightarrow> task_step E G node
            | Task \<Rightarrow> task_step E G node
            | Decision \<Rightarrow> decision_step E G node) (c, w))"

partial_function (option) run_loop ::
  "engine \<Rightarrow> state_graph \<Rightarrow> agent_context \<times> world \<Rightarrow> (unit res \<times> (agent_context \<times> world)) option" where
  "run_loop E G s =
     (case engine_round E G s of
        (Inl e, s') \<Rightarrow> Some (Inl e, s')
      | (Inr fin, s') \<Rightarrow> if fin then Some (Inr (), s') else run_loop E G s')"

definition run_internal ::
  "engine \<Rightarrow> state_graph \<Rightarrow> agent_context \<times> world \<Rightarrow> (unit res \<times> (agent_context \<times> world)) option" where
  "run_internal E G s =
     (case seq (db_call E) (\<lambda>_. db_call E) s of
        (Inl e, s') \<Rightarrow> Some (Inl e, s')
      | (Inr _, s') \<Rightarrow> run_loop E G s')"

definition run ::
  "engine \<Rightarrow> state_graph \<Rightarrow> agent_context \<times> world \<Rightarrow> (unit res \<times> (agent_context \<times> world)) option" where
  "run E G = (\<lambda>(c, w).
     map_option (\<lambda>(r, (c', w')). (r, (case r of Inl _ \<Rightarrow> c'\<lparr>ac_status := Failed\<rparr> | Inr _ \<Rightarrow> c', w')))
       (run_internal E G (c\<lparr>ac_status := Running\<rparr>, w)))"

section \<open>Quiet actions\<close>

text \<open>Quiet actions leave the context, the audit log and the step documents alone.\<close>

definition same_docs :: "agent_context \<times> world \<Rightarrow> agent_context \<times> world \<Rightarrow> bool" where
  "same_docs s s' \<longleftrightarrow> fst s' = fst s \<and> wo_audit (snd s') = wo_audit (snd s) \<and> wo_steps (snd s') = wo_steps (snd s)"

abbreviation quiet :: "'a act \<Rightarrow> bool" where
  "quiet m \<equiv> obeys same_docs m"

lemma same_docs_refl [simp]: "same_docs s s"
  by (simp add: same_docs_def)

lemma same_docs_trans: "same_docs s s' \<Longrightarrow> same_docs s' s'' \<Longrightarrow> same_docs s s''"
  by (simp add: same_docs_def)

interpretation docs: action_frame same_docs
  by unfold_locales (auto intro: same_docs_trans)

lemmas quietD = obeys_result[where R = same_docs]
lemmas quiet_seq = docs.obeys_seq and quiet_ret = docs.obeys_ret and quiet_raise = docs.obeys_raise
  and quiet_lift = docs.obeys_lift

lemma quiet_db_call: "quiet (db_call E)"
  by (auto simp: obeys_def db_call_def same_docs_def split: option.split)

lemma quiet_last_tx_id: "quiet (last_tx_id E)"
  unfolding obeys_def
proof
  fix s :: "agent_context \<times> world"
  obtain c w where s: "s = (c, w)" by (cases s)
  have "quiet (seq (db_call E) (\<lambda>_. ret (en_tx E (wo_calls w))))"
    by (intro quiet_seq quiet_db_call quiet_ret)
  then show "same_docs s (snd (last_tx_id E s))" unfolding obeys_def s last_tx_id_def prod.case by blast
qed

lemma quiet_checkpoint: "quiet (checkpoint E)"
  unfolding checkpoint_def
proof (intro quiet_seq quiet_db_call quiet_last_tx_id)
  fix tx :: u64
  let ?save = "\<lambda>c. seq (lift (validate_identifier (checkpoint_name c))) (\<lambda>_. seq (db_call E) (\<lambda>_ (c, w).
       (Inr (), (c, w\<lparr>wo_checkpoints := AList.update (checkpoint_name c)
          \<lparr>cm_name = checkpoint_name c, cm_current_node = ac_current_node c,
           cm_step_count = ac_step_count c, cm_memory = ac_memory c,
           cm_budget_consumed = tk_consumed (ac_budget c),
           cm_budget_available = tokens_available (en_scale E) (ac_budget c), cm_tx_id = tx\<rparr>
          (wo_checkpoints w)\<rparr>))))"
  have "quiet (?save c)" for c
    by (intro quiet_seq quiet_lift quiet_db_call) (auto simp: obeys_def same_docs_def)
  then show "quiet (\<lambda>(c, w). ?save c (c, w))" unfolding obeys_def by auto
qed

lemma quiet_persist: "quiet (persist_final_state E)"
  unfolding persist_final_state_def
  by (intro quiet_seq quiet_db_call) (auto simp: obeys_def same_docs_def)

lemma dlq_push_docs: "same_docs s (dlq_push E l s)"
proof -
  obtain r s' where m: "db_call E s = (r, s')" by (cases "db_call E s")
  have "same_docs s s'" by (rule quietD[OF quiet_db_call m])
  then show ?thesis
    by (cases r) (auto simp: dlq_push_def m same_docs_def split: prod.split)
qed

lemma retry_loop_docs: "same_docs s (snd (retry_loop E t node tx est input mx left attempt res s))"
proof (induction E t node tx est input mx left attempt res s rule: retry_loop.induct)
  case (2 E t node tx est input mx left attempt res c w)
  have exec: "same_docs (c, w) (c, w\<lparr>wo_execs := wo_execs w + 1\<rparr>)" by (simp add: same_docs_def)
  show ?case
  proof (cases "attempt > 0 \<and> tokens_available (en_scale E) (ac_budget c) = 0")
    case True
    then show ?thesis by (simp add: Let_def dlq_push_docs)
  next
    case False
    show ?thesis
    proof (cases "at_execute t (wo_execs w) c input")
      case (ToolOk r)
      with exec show ?thesis unfolding retry_loop.simps(2) Let_def if_not_P[OF False] by simp
    next
      case (ToolFails e)
      with exec 2(1)[OF refl False refl ToolFails] dlq_push_docs show ?thesis
        unfolding retry_loop.simps(2) Let_def if_not_P[OF False] by (auto intro: same_docs_trans)
    next
      case ToolElapsed
      let ?s = "dlq_push E (dead_letter c node tx input (TimeoutReason (at_timeout_ms t)) attempt)
          (c, w\<lparr>wo_execs := wo_execs w + 1\<rparr>)"
      have push: "same_docs (c, w) ?s" by (rule same_docs_trans[OF exec dlq_push_docs])
      show ?thesis
      proof (cases "at_is_retriable t")
        case True
        have "same_docs ?s (snd (retry_loop E t node tx est input mx left (attempt + 1)
            (Inl (Timeout ''tool'' (at_timeout_ms t))) ?s))"
          by (rule 2(2)) (use True False ToolElapsed in simp_all)
        then show ?thesis using True ToolElapsed same_docs_trans[OF push]
          unfolding retry_loop.simps(2) Let_def if_not_P[OF False] by simp
      next
        case nr: False
        with ToolElapsed push show ?thesis
          unfolding retry_loop.simps(2) Let_def if_not_P[OF False] by simp
      qed
    qed
  qed
qed simp

lemma execute_node_docs: "same_docs s (snd (execute_node E node tx est input s))"
  by (auto simp: execute_node_def retry_loop_docs split: option.split)

section \<open>Effect of the parts of a step\<close>

lemma audit_append_effect:
  assumes "audit_append E entry s = (r, s')"
  shows "case r of
      Inl e \<Rightarrow> same_docs s s'
    | Inr _ \<Rightarrow> fst s' = fst s \<and> wo_steps (snd s') = wo_steps (snd s)
        \<and> map_of (wo_audit (snd s)) (audit_key (ae_task_id entry) (ae_step_count entry)) = None
        \<and> wo_audit (snd s') = AList.update (audit_key (ae_task_id entry) (ae_step_count entry)) entry (wo_audit (snd s))"
proof -
  obtain r0 s0 where call: "db_call E s = (r0, s0)" by (cases "db_call E s")
  have same: "same_docs s s0" by (rule quietD[OF quiet_db_call call])
  obtain c w where s0: "s0 = (c, w)" by (cases s0)
  show ?thesis using assms same
    unfolding audit_append_def seq_def lift_def
    by (auto simp: call s0 Let_def same_docs_def split: sum.splits if_splits)
qed

lemma audit_append_frame:
  assumes "audit_append E entry s = (r, s')"
  shows "fst s' = fst s" "wo_steps (snd s') = wo_steps (snd s)"
    and "map_of (wo_audit (snd s)) k = Some a \<Longrightarrow> map_of (wo_audit (snd s')) k = Some a"
proof -
  show "fst s' = fst s" "wo_steps (snd s') = wo_steps (snd s)"
    using audit_append_effect[OF assms] by (auto simp: same_docs_def split: sum.splits)
  assume "map_of (wo_audit (snd s)) k = Some a"
  then show "map_of (wo_audit (snd s')) k = Some a"
    using audit_append_effect[OF assms] by (auto simp: same_docs_def update_conv split: sum.splits)
qed

lemma audit_log_failure_frame:
  assumes "audit_log_failure E err s = (r, s')"
  shows "fst s' = fst s" "wo_steps (snd s') = wo_steps (snd s)"
    and "map_of (wo_audit (snd s)) k = Some a \<Longrightarrow> map_of (wo_audit (snd s')) k = Some a"
proof -
  obtain tx s0 where call: "last_tx_id E s = (tx, s0)" by (cases "last_tx_id E s")
  have same: "same_docs s s0" by (rule quietD[OF quiet_last_tx_id call])
  obtain entry where app: "audit_append E entry s0 = (r, s')"
    using assms by (auto simp: audit_log_failure_def call split: prod.splits)
  show "fst s' = fst s" "wo_steps (snd s') = wo_steps (snd s)"
    using audit_append_frame(1,2)[OF app] same by (simp_all add: same_docs_def)
  assume "map_of (wo_audit (snd s)) k = Some a"
  with same have "map_of (wo_audit (snd s0)) k = Some a" by (simp add: same_docs_def)
  then show "map_of (wo_audit (snd s')) k = Some a" by (rule audit_append_frame(3)[OF app])
qed

lemma fail_with_frame:
  assumes "fail_with E err s = (r, s')"
  shows "\<exists>e. r = Inl e" "fst s' = fst s" "wo_steps (snd s') = wo_steps (snd s)"
    and "map_of (wo_audit (snd s)) k = Some a \<Longrightarrow> map_of (wo_audit (snd s')) k = Some a"
proof -
  obtain r0 s0 where log: "audit_log_failure E err s = (r0, s0)" by (cases "audit_log_failure E err s")
  have s': "s' = s0" and r: "\<exists>e. r = Inl e"
    using assms by (auto simp: fail_with_def seq_def raise_def log split: sum.splits)
  show "\<exists>e. r = Inl e" by (rule r)
  show "fst s' = fst s" "wo_steps (snd s') = wo_steps (snd s)"
    unfolding s' by (rule audit_log_failure_frame[OF log])+
  show "map_of (wo_audit (snd s)) k = Some a \<Longrightarrow> map_of (wo_audit (snd s')) k = Some a"
    unfolding s' by (rule audit_log_failure_frame[OF log])
qed

lemma commit_step_effect:
  assumes "commit_step E result (c, w) = (r, (c', w'))"
  shows "c' = c" "wo_audit w' = wo_audit w"
    and "r = Inr u \<Longrightarrow> \<exists>doc. sk_node doc = ac_current_node c \<and> sk_output doc = sr_output result
      \<and> sk_tokens_consumed doc = sr_tokens_consumed result
      \<and> wo_steps w' = AList.update (step_key (ac_task_id c) (ac_step_count c)) doc (wo_steps w)"
proof -
  obtain r1 s1 where 1: "last_tx_id E (c, w) = (r1, s1)" by (cases "last_tx_id E (c, w)")
  have same1: "same_docs (c, w) s1" by (rule quietD[OF quiet_last_tx_id 1])
  obtain r2 s2 where 2: "db_call E s1 = (r2, s2)" by (cases "db_call E s1")
  have same2: "same_docs (c, w) s2" by (rule same_docs_trans[OF same1 quietD[OF quiet_db_call 2]])
  obtain c2 w2 where s2: "s2 = (c2, w2)" by (cases s2)
  note defs = commit_step_def seq_def 1 2 s2
  show "c' = c" "wo_audit w' = wo_audit w"
    using assms same1 same2 by (auto simp: defs same_docs_def split: sum.splits)
  assume "r = Inr u"
  then obtain tx where w': "w' = w2\<lparr>wo_steps := AList.update (step_key (ac_task_id c2) (ac_step_count c2))
      \<lparr>sk_node = ac_current_node c2, sk_memory = ac_memory c2, sk_output = sr_output result,
       sk_tokens_consumed = sr_tokens_consumed result, sk_status = ac_status c2, sk_tx_id = tx\<rparr> (wo_steps w2)\<rparr>"
    using assms by (auto simp: defs split: sum.splits)
  show "\<exists>doc. sk_node doc = ac_current_node c \<and> sk_output doc = sr_output result
      \<and> sk_tokens_consumed doc = sr_tokens_consumed result
      \<and> wo_steps w' = AList.update (step_key (ac_task_id c) (ac_step_count c)) doc (wo_steps w)"
    by (rule exI[of _ "\<lparr>sk_node = ac_current_node c2, sk_memory = ac_memory c2, sk_output = sr_output result,
       sk_tokens_consumed = sr_tokens_consumed result, sk_status = ac_status c2, sk_tx_id = tx\<rparr>"])
      (use same2 in \<open>simp add: w' s2 same_docs_def\<close>)
qed

lemma reserve_step_effect:
  assumes "reserve_step E node tx est input (c, w) = (r, (c', w'))"
  shows "wo_steps w' = wo_steps w" "map_of (wo_audit w) k = Some a \<Longrightarrow> map_of (wo_audit w') k = Some a"
    and "r = Inl e \<Longrightarrow> c' = c"
    and "r = Inr b \<Longrightarrow> wo_audit w' = wo_audit w
      \<and> (if b then reserve_tokens (en_scale E) est (ac_budget c) = (Inr est, ac_budget c') else ac_budget c' = ac_budget c)
      \<and> c' = c\<lparr>ac_budget := ac_budget c'\<rparr>"
proof -
  let ?l = "dead_letter c node tx input (BudgetExhausted (tokens_available (en_scale E) (ac_budget c)) est) 0"
  have push: "same_docs (c, w) (dlq_push E ?l (c, w))" by (rule dlq_push_docs)
  consider (none) "r = Inr False" "c' = c" "w' = w"
    | (ok) B where "reserve_tokens (en_scale E) est (ac_budget c) = (Inr est, B)" "r = Inr True" "c' = c\<lparr>ac_budget := B\<rparr>" "w' = w"
    | (failed) err where "fail_with E err (dlq_push E ?l (c, w)) = (r, (c', w'))"
  proof (cases "an_node_type node \<noteq> Start \<and> est > 0")
    case False
    show thesis by (rule none) (use assms False in \<open>auto simp: reserve_step_def\<close>)
  next
    case True
    obtain x B where res: "reserve_tokens (en_scale E) est (ac_budget c) = (x, B)" by (cases "reserve_tokens (en_scale E) est (ac_budget c)")
    show thesis
    proof (cases x)
      case (Inl err)
      show thesis by (rule failed[of err]) (use assms True res Inl in \<open>simp add: reserve_step_def\<close>)
    next
      case (Inr n)
      then have "n = est" using reserve_tokens_ok(1) res by blast
      then show thesis using assms True res Inr by (intro ok[of B]) (auto simp: reserve_step_def)
    qed
  qed
  then show "wo_steps w' = wo_steps w" "map_of (wo_audit w) k = Some a \<Longrightarrow> map_of (wo_audit w') k = Some a"
    "r = Inl e \<Longrightarrow> c' = c"
    "r = Inr b \<Longrightarrow> wo_audit w' = wo_audit w
      \<and> (if b then reserve_tokens (en_scale E) est (ac_budget c) = (Inr est, ac_budget c') else ac_budget c' = ac_budget c)
      \<and> c' = c\<lparr>ac_budget := ac_budget c'\<rparr>"
    using push by (cases; auto simp: same_docs_def dest: fail_with_frame)+
qed

text \<open>A reservation and its settlement consume exactly the tokens the step reports, up to the largest number.\<close>

definition reserved_from :: "engine \<Rightarrow> bool \<Rightarrow> u64 \<Rightarrow> token_budget \<Rightarrow> token_budget \<Rightarrow> bool" where
  "reserved_from E reserved est B0 B =
     (if reserved then reserve_tokens (en_scale E) est B0 = (Inr est, B) else B = B0)"

lemma settle_consumed:
  assumes "reserved_from E reserved est B0 (ac_budget c)"
  shows "unat (tk_consumed (ac_budget (settle_step reserved est r c)))
    = min (unat (tk_consumed B0) + unat (sr_tokens_consumed r)) (2 ^ 64 - 1)"
proof (cases reserved)
  case True
  then have res: "reserve_tokens (en_scale E) est B0 = (Inr est, ac_budget c)"
    using assms by (simp add: reserved_from_def)
  note c = reserve_tokens_ok(3)[OF res]
  have bound: "unat (tk_consumed (ac_budget c)) < 2 ^ 64" using unat_lt_pow[of "tk_consumed (ac_budget c)"] by simp
  consider "est < sr_tokens_consumed r" | "sr_tokens_consumed r < est" | "sr_tokens_consumed r = est" by force
  then show ?thesis
  proof cases
    case 1
    then show ?thesis using True c
      by (simp add: settle_step_def Let_def drop_reservation_def consume_tokens_def unat_sat_add unat_sub
          word_less_nat_alt word_le_nat_alt)
  next
    case 2
    then have "unat (est - sr_tokens_consumed r) = unat est - unat (sr_tokens_consumed r)" by (simp add: unat_sub)
    then show ?thesis using True c bound 2
      by (simp add: settle_step_def Let_def drop_reservation_def refund_tokens_def unat_sat_sub
          word_less_nat_alt not_less)
  next
    case 3
    then show ?thesis using True c bound
      by (simp add: settle_step_def Let_def drop_reservation_def)
  qed
next
  case False
  have "unat (tk_consumed B0) < 2 ^ 64" using unat_lt_pow[of "tk_consumed B0"] by simp
  with False assms show ?thesis
    by (auto simp: settle_step_def Let_def reserved_from_def consume_tokens_def unat_sat_add word_gt_0)
qed

lemma drop_consumed:
  assumes "reserved_from E reserved est B0 (ac_budget c)"
  shows "tk_consumed (ac_budget (drop_reserved reserved est c)) = tk_consumed B0"
proof (cases reserved)
  case True
  then have "unat (tk_consumed (ac_budget c)) = unat (tk_consumed B0) + unat est"
    using assms reserve_tokens_ok(3) by (auto simp: reserved_from_def)
  then have "unat (tk_consumed (ac_budget (drop_reserved reserved est c))) = unat (tk_consumed B0)"
    using True by (simp add: drop_reserved_def drop_reservation_def refund_tokens_def unat_sat_sub)
  then show ?thesis by (simp add: word_unat_eq_iff)
next
  case False
  with assms show ?thesis by (simp add: drop_reserved_def reserved_from_def)
qed

definition same_place :: "agent_context \<Rightarrow> agent_context \<Rightarrow> bool" where
  "same_place c c' \<longleftrightarrow> ac_task_id c' = ac_task_id c \<and> ac_current_node c' = ac_current_node c
     \<and> ac_step_count c' = ac_step_count c \<and> ac_status c' = ac_status c"

lemma same_place_refl [simp]: "same_place c c"
  by (simp add: same_place_def)

lemma report_outcome_effect:
  assumes "report_outcome ok (c, w) = (c', w')"
  shows "same_place c c'" "ac_budget c' = ac_budget c" "wo_audit w' = wo_audit w" "wo_steps w' = wo_steps w"
  using assms by (auto simp: report_outcome_def same_place_def split: option.splits)

lemma finish_execution_effect:
  assumes "finish_execution E reserved est res (c, w) = (r, (c', w'))"
    and "reserved_from E reserved est B0 (ac_budget c)"
  shows "same_place c c'" "wo_steps w' = wo_steps w"
    and "map_of (wo_audit w) k = Some a \<Longrightarrow> map_of (wo_audit w') k = Some a"
    and "r = Inl e \<Longrightarrow> tk_consumed (ac_budget c') = tk_consumed B0"
    and "r = Inr x \<Longrightarrow> wo_audit w' = wo_audit w
      \<and> unat (tk_consumed (ac_budget c')) = min (unat (tk_consumed B0) + unat (sr_tokens_consumed x)) (2 ^ 64 - 1)"
proof -
  obtain c1 w1 where rep: "report_outcome (case res of Inr _ \<Rightarrow> True | Inl _ \<Rightarrow> False) (c, w) = (c1, w1)"
    by (cases "report_outcome (case res of Inr _ \<Rightarrow> True | Inl _ \<Rightarrow> False) (c, w)")
  note e1 = report_outcome_effect[OF rep]
  have res1: "reserved_from E reserved est B0 (ac_budget c1)" using assms(2) e1(2) by simp
  have "same_place c c' \<and> wo_steps w' = wo_steps w
      \<and> (map_of (wo_audit w) k = Some a \<longrightarrow> map_of (wo_audit w') k = Some a)
      \<and> (r = Inl e \<longrightarrow> tk_consumed (ac_budget c') = tk_consumed B0)
      \<and> (r = Inr x \<longrightarrow> wo_audit w' = wo_audit w
        \<and> unat (tk_consumed (ac_budget c')) = min (unat (tk_consumed B0) + unat (sr_tokens_consumed x)) (2 ^ 64 - 1))"
  proof (cases res)
    case (Inr y)
    then have "r = Inr y" "c' = settle_step reserved est y c1" "w' = w1"
      using assms(1) by (auto simp: finish_execution_def rep[unfolded Inr sum.case])
    with e1 settle_consumed[OF res1] show ?thesis
      by (auto simp: same_place_def settle_step_def Let_def)
  next
    case (Inl err)
    obtain r2 :: "step_result res" and c2 w2 where f: "fail_with E err (c1, w1) = (r2, (c2, w2))"
      by (cases "(fail_with E err :: step_result act) (c1, w1)") auto
    then have r: "r = r2" "c' = drop_reserved reserved est c2" "w' = w2"
      using assms(1) Inl by (auto simp: finish_execution_def rep[unfolded Inl sum.case] f)
    have "c2 = c1" "wo_steps w2 = wo_steps w1" "\<exists>e. r2 = Inl e" using fail_with_frame[OF f] by auto
    moreover have "map_of (wo_audit w1) k = Some a \<longrightarrow> map_of (wo_audit w2) k = Some a"
      using fail_with_frame(4)[OF f] by auto
    moreover have "same_place c1 (drop_reserved reserved est c1)" by (simp add: same_place_def drop_reserved_def)
    ultimately show ?thesis using r e1 drop_consumed[OF res1] by (auto simp: same_place_def)
  qed
  then show "same_place c c'" "wo_steps w' = wo_steps w"
    "map_of (wo_audit w) k = Some a \<Longrightarrow> map_of (wo_audit w') k = Some a"
    "r = Inl e \<Longrightarrow> tk_consumed (ac_budget c') = tk_consumed B0"
    "r = Inr x \<Longrightarrow> wo_audit w' = wo_audit w
      \<and> unat (tk_consumed (ac_budget c')) = min (unat (tk_consumed B0) + unat (sr_tokens_consumed x)) (2 ^ 64 - 1)"
    by blast+
qed

text \<open>Actions that never change or remove an entry of the audit log.\<close>

definition audit_kept :: "agent_context \<times> world \<Rightarrow> agent_context \<times> world \<Rightarrow> bool" where
  "audit_kept s s' \<longleftrightarrow> (\<forall>k a. map_of (wo_audit (snd s)) k = Some a \<longrightarrow> map_of (wo_audit (snd s')) k = Some a)"

lemma audit_kept_refl [simp]: "audit_kept s s"
  by (simp add: audit_kept_def)

lemma audit_kept_trans: "audit_kept s s' \<Longrightarrow> audit_kept s' s'' \<Longrightarrow> audit_kept s s''"
  by (simp add: audit_kept_def)

lemma same_docs_kept: "same_docs s s' \<Longrightarrow> audit_kept s s'"
  by (simp add: same_docs_def audit_kept_def)

lemma fail_with_kept: "audit_kept s (snd (fail_with E err s))"
  using fail_with_frame(4)[of E err s] unfolding audit_kept_def by (metis surjective_pairing)

lemma audit_log_effect:
  assumes "audit_log E x (c, w) = (r, (c', w'))"
  shows "c' = c" "wo_steps w' = wo_steps w" "audit_kept (c, w) (c', w')"
    and "r = Inr u \<Longrightarrow> \<exists>entry. ae_task_id entry = ac_task_id c \<and> ae_step_count entry = ac_step_count c
      \<and> ae_node_id entry = ac_current_node c \<and> ae_payload entry = sr_output x
      \<and> ae_tokens_consumed entry = sr_tokens_consumed x \<and> ae_error entry = None
      \<and> map_of (wo_audit w) (audit_key (ac_task_id c) (ac_step_count c)) = None
      \<and> wo_audit w' = AList.update (audit_key (ac_task_id c) (ac_step_count c)) entry (wo_audit w)"
proof -
  obtain tx s0 where call: "last_tx_id E (c, w) = (tx, s0)" by (cases "last_tx_id E (c, w)")
  have same: "same_docs (c, w) s0" by (rule quietD[OF quiet_last_tx_id call])
  obtain w0 where s0: "s0 = (c, w0)" using same by (cases s0) (simp add: same_docs_def)
  have "c' = c \<and> wo_steps w' = wo_steps w \<and> audit_kept (c, w) (c', w')
    \<and> (r = Inr u \<longrightarrow> (\<exists>entry. ae_task_id entry = ac_task_id c \<and> ae_step_count entry = ac_step_count c
      \<and> ae_node_id entry = ac_current_node c \<and> ae_payload entry = sr_output x
      \<and> ae_tokens_consumed entry = sr_tokens_consumed x \<and> ae_error entry = None
      \<and> map_of (wo_audit w) (audit_key (ac_task_id c) (ac_step_count c)) = None
      \<and> wo_audit w' = AList.update (audit_key (ac_task_id c) (ac_step_count c)) entry (wo_audit w)))"
  proof (cases tx)
    case (Inl e)
    then show ?thesis using assms same by (auto simp: audit_log_def seq_def call s0 same_docs_def audit_kept_def)
  next
    case (Inr t)
    let ?entry = "\<lparr>ae_task_id = ac_task_id c, ae_step_count = ac_step_count c,
       ae_node_id = ac_current_node c, ae_tokens_consumed = sr_tokens_consumed x,
       ae_payload = sr_output x, ae_error = None, ae_tx_id = Some t\<rparr>"
    have app: "audit_append E ?entry (c, w0) = (r, (c', w'))"
      using assms Inr by (simp add: audit_log_def seq_def call s0)
    have kept: "audit_kept (c, w) (c', w')"
      using audit_append_frame(3)[OF app] same by (auto simp: audit_kept_def same_docs_def s0)
    show ?thesis
      using audit_append_frame(1,2)[OF app] audit_append_effect[OF app] same kept
      by (auto simp: same_docs_def s0 intro!: exI[of _ ?entry])
  qed
  then show "c' = c" "wo_steps w' = wo_steps w" "audit_kept (c, w) (c', w')"
    "r = Inr u \<Longrightarrow> \<exists>entry. ae_task_id entry = ac_task_id c \<and> ae_step_count entry = ac_step_count c
      \<and> ae_node_id entry = ac_current_node c \<and> ae_payload entry = sr_output x
      \<and> ae_tokens_consumed entry = sr_tokens_consumed x \<and> ae_error entry = None
      \<and> map_of (wo_audit w) (audit_key (ac_task_id c) (ac_step_count c)) = None
      \<and> wo_audit w' = AList.update (audit_key (ac_task_id c) (ac_step_count c)) entry (wo_audit w)"
    by blast+
qed

lemma advance_node_effect:
  assumes "advance_node E G x (c, w) = (Inr b, (c', w'))"
  shows "\<not> b" "wo_audit w' = wo_audit w" "wo_steps w' = wo_steps w"
    and "\<exists>n. resolve_next_node G (ac_current_node c) (sr_next_edge x) = Inr n
      \<and> c' = c\<lparr>ac_current_node := n, ac_step_count := ac_step_count c + 1\<rparr>"
proof -
  obtain n where n: "resolve_next_node G (ac_current_node c) (sr_next_edge x) = Inr n"
    using assms fail_with_frame(1)[of E _ "(c, w)"] by (cases "resolve_next_node G (ac_current_node c) (sr_next_edge x)")
      (fastforce simp: advance_node_def)+
  let ?c = "c\<lparr>ac_current_node := n, ac_step_count := ac_step_count c + 1\<rparr>"
  obtain r s where call: "db_call E (?c, w) = (r, s)" by (cases "db_call E (?c, w)")
  have same: "same_docs (?c, w) s" by (rule quietD[OF quiet_db_call call])
  have "s = (c', w')" "\<not> b" using assms by (auto simp: advance_node_def n seq_def call ret_def split: sum.splits)
  with same show "\<not> b" "wo_audit w' = wo_audit w" "wo_steps w' = wo_steps w"
    "\<exists>n. resolve_next_node G (ac_current_node c) (sr_next_edge x) = Inr n
      \<and> c' = c\<lparr>ac_current_node := n, ac_step_count := ac_step_count c + 1\<rparr>"
    using n by (auto simp: same_docs_def)
qed

text \<open>Actions that keep the audit log from every state.\<close>

abbreviation keeps :: "'a act \<Rightarrow> bool" where
  "keeps m \<equiv> obeys audit_kept m"

interpretation audit: action_frame audit_kept
  by unfold_locales (auto intro: audit_kept_trans)

lemmas keepsD = obeysD[where R = audit_kept]
lemmas keeps_seq = audit.obeys_seq

lemma keepsI: "(\<And>c w. audit_kept (c, w) (snd (m (c, w)))) \<Longrightarrow> keeps m"
  unfolding obeys_def by (metis surj_pair)

lemma quiet_keeps: "quiet m \<Longrightarrow> keeps m"
  unfolding obeys_def by (blast intro: same_docs_kept)

lemma keeps_fail_with: "keeps (fail_with E err)"
  unfolding obeys_def using fail_with_kept by blast

text \<open>The context an action starts from may differ from the one of the state before it.\<close>

lemma keeps_from: "keeps m \<Longrightarrow> audit_kept (c, w) (snd (m (c', w)))"
  using keepsD[of m "(c', w)"] by (simp add: audit_kept_def)

lemma keeps_advance_node: "keeps (advance_node E G x)"
proof (rule keepsI)
  fix c w
  have "quiet (seq (db_call E) (\<lambda>_. ret False))" by (intro quiet_seq quiet_db_call quiet_ret)
  note k = keeps_from[OF quiet_keeps[OF this]]
  show "audit_kept (c, w) (snd (advance_node E G x (c, w)))"
    by (cases "resolve_next_node G (ac_current_node c) (sr_next_edge x)")
      (simp_all add: advance_node_def fail_with_kept k)
qed

lemma keeps_audit_log: "keeps (audit_log E x)"
proof (rule keepsI)
  fix c w
  obtain r c' w' where "audit_log E x (c, w) = (r, (c', w'))" by (metis surj_pair)
  then show "audit_kept (c, w) (snd (audit_log E x (c, w)))" using audit_log_effect(3) by simp
qed

lemma keeps_commit_step: "keeps (commit_step E x)"
proof (rule keepsI)
  fix c w
  obtain r c' w' where "commit_step E x (c, w) = (r, (c', w'))" by (metis surj_pair)
  then show "audit_kept (c, w) (snd (commit_step E x (c, w)))"
    using commit_step_effect(2) by (simp add: audit_kept_def)
qed

lemma keeps_reserve_step: "keeps (reserve_step E node tx est input)"
proof (rule keepsI)
  fix c w
  obtain r c' w' where "reserve_step E node tx est input (c, w) = (r, (c', w'))" by (metis surj_pair)
  then show "audit_kept (c, w) (snd (reserve_step E node tx est input (c, w)))"
    using reserve_step_effect(2) by (simp add: audit_kept_def)
qed

lemma keeps_finish_execution: "keeps (finish_execution E reserved est res)"
proof (rule keepsI)
  fix c w
  obtain c1 w1 where rep: "report_outcome (case res of Inr _ \<Rightarrow> True | Inl _ \<Rightarrow> False) (c, w) = (c1, w1)"
    by (metis surj_pair)
  have k1: "audit_kept (c, w) (c2, w1)" for c2
    using report_outcome_effect(3)[OF rep] by (simp add: audit_kept_def)
  show "audit_kept (c, w) (snd (finish_execution E reserved est res (c, w)))"
  proof (cases res)
    case (Inr y)
    then show ?thesis using k1 by (simp add: finish_execution_def rep[unfolded Inr sum.case])
  next
    case (Inl err)
    obtain r2 :: "step_result res" and c2 w2 where f: "fail_with E err (c1, w1) = (r2, (c2, w2))"
      by (metis surj_pair)
    have "audit_kept (c1, w1) (c2, w2)"
      using fail_with_kept[of "(c1, w1)" E err, where 'a = step_result] by (simp add: f)
    then have "audit_kept (c, w) (c3, w2)" for c3
      using k1[of c1] by (simp add: audit_kept_def)
    then show ?thesis by (simp add: finish_execution_def Inl rep[unfolded Inl sum.case] f)
  qed
qed

lemma keeps_after_execution: "keeps (after_execution E G reserved est res)"
  unfolding after_execution_def
  by (intro keeps_seq keeps_finish_execution keeps_audit_log keeps_commit_step keeps_advance_node)

lemma keeps_task_body: "keeps (task_body E G node tx)"
proof (rule keepsI)
  fix c w
  have exec: "keeps (\<lambda>s. case execute_node E node tx est input s of
      (res, s') \<Rightarrow> after_execution E G reserved est res s')" for est input reserved
    unfolding obeys_def
  proof
    fix s
    obtain res s' where e: "execute_node E node tx est input s = (res, s')" by (metis surj_pair)
    have "same_docs s s'" using execute_node_docs[of s E node tx est input] by (simp add: e)
    then show "audit_kept s (snd (case execute_node E node tx est input s of
        (res, s') \<Rightarrow> after_execution E G reserved est res s'))"
      unfolding e prod.case
      by (rule audit_kept_trans[OF same_docs_kept keepsD[OF keeps_after_execution]])
  qed
  show "audit_kept (c, w) (snd (task_body E G node tx (c, w)))"
    unfolding task_body_def prod.case Let_def
    by (rule keepsD) (intro keeps_seq keeps_reserve_step exec)
qed

lemma keeps_task_step: "keeps (task_step E G node)"
  unfolding task_step_def
  by (intro keeps_seq keeps_task_body quiet_keeps quiet_last_tx_id quiet_db_call quiet_checkpoint)

lemma quiet_end_actions:
  "quiet (seq (persist_final_state E) (\<lambda>_. seq (db_call E) (\<lambda>_. seq (checkpoint E) (\<lambda>_. ret b))))"
  by (intro quiet_seq quiet_persist quiet_db_call quiet_checkpoint quiet_ret)

lemma keeps_end_step: "keeps (end_step E)"
  by (rule keepsI) (simp add: end_step_def keeps_from[OF quiet_keeps[OF quiet_end_actions]])

lemma keeps_decision_step: "keeps (decision_step E G node)"
proof (rule keepsI)
  fix c w
  show "audit_kept (c, w) (snd (decision_step E G node (c, w)))"
    by (cases "evaluate_decision (en_parse E) G node c")
      (simp_all add: decision_step_def fail_with_kept, simp add: audit_kept_def)
qed

lemma keeps_round: "keeps (engine_round E G)"
proof (rule keepsI)
  fix c w
  show "audit_kept (c, w) (snd (engine_round E G (c, w)))"
    by (auto simp: engine_round_def fail_with_kept keepsD keeps_task_step keeps_end_step keeps_decision_step
        split: option.split node_type.split)
qed

section \<open>A successful step\<close>

text \<open>
  \<open>recorded x s s'\<close>: from \<open>s\<close> to \<open>s'\<close> one step with the result \<open>x\<close> was taken. Its audit entry is new, its
  document is stored, its tokens are consumed, and the run stands at the next step.
\<close>

definition recorded :: "step_result \<Rightarrow> agent_context \<times> world \<Rightarrow> agent_context \<times> world \<Rightarrow> bool" where
  "recorded x s s' \<longleftrightarrow> (let (c, w) = s; (c', w') = s'; task = ac_task_id c; n = ac_step_count c in
     ac_task_id c' = task \<and> ac_step_count c' = n + 1 \<and> ac_status c' = ac_status c
     \<and> unat (tk_consumed (ac_budget c'))
        = min (unat (tk_consumed (ac_budget c)) + unat (sr_tokens_consumed x)) (2 ^ 64 - 1)
     \<and> map_of (wo_audit w) (audit_key task n) = None
     \<and> (\<exists>entry. ae_node_id entry = ac_current_node c \<and> ae_payload entry = sr_output x
          \<and> ae_tokens_consumed entry = sr_tokens_consumed x \<and> ae_error entry = None
          \<and> wo_audit w' = AList.update (audit_key task n) entry (wo_audit w))
     \<and> (\<exists>doc. sk_node doc = ac_current_node c \<and> sk_output doc = sr_output x
          \<and> sk_tokens_consumed doc = sr_tokens_consumed x
          \<and> wo_steps w' = AList.update (step_key task n) doc (wo_steps w)))"

lemma after_execution_recorded:
  assumes "after_execution E G reserved est res (c, w) = (Inr b, (c', w'))"
    and "reserved_from E reserved est (ac_budget c0) (ac_budget c)" "same_place c0 c"
    and "wo_audit w = wo_audit w0" "wo_steps w = wo_steps w0"
  shows "\<not> b" "\<exists>x. recorded x (c0, w0) (c', w')"
proof -
  obtain x c1 w1 u2 c2 w2 u3 c3 w3 where
    1: "finish_execution E reserved est res (c, w) = (Inr x, (c1, w1))"
    and 2: "audit_log E x (c1, w1) = (Inr u2, (c2, w2))"
    and 3: "commit_step E x (c2, w2) = (Inr u3, (c3, w3))"
    and 4: "advance_node E G x (c3, w3) = (Inr b, (c', w'))"
    using assms(1) unfolding after_execution_def seq_Inr split_paired_Ex by blast
  note e1 = finish_execution_effect[OF 1 assms(2)]
  have c1: "same_place c c1" "wo_steps w1 = wo_steps w" "wo_audit w1 = wo_audit w"
    "unat (tk_consumed (ac_budget c1))
        = min (unat (tk_consumed (ac_budget c0)) + unat (sr_tokens_consumed x)) (2 ^ 64 - 1)"
    using e1(1,2) e1(5)[OF refl] by auto
  note e2 = audit_log_effect(1,2)[OF 2] audit_log_effect(4)[OF 2 refl]
  note e3 = commit_step_effect(1,2)[OF 3] commit_step_effect(3)[OF 3 refl]
  note e4 = advance_node_effect[OF 4]
  show "\<not> b" by (rule e4(1))
  have "ac_task_id c3 = ac_task_id c0" "ac_current_node c3 = ac_current_node c0"
    "ac_step_count c3 = ac_step_count c0" "ac_status c3 = ac_status c0"
    using assms(3) c1(1) e2(1) e3(1) by (auto simp: same_place_def)
  moreover have "c1 = c3" "c2 = c3" using e2(1) e3(1) by auto
  ultimately have place: "ac_task_id c1 = ac_task_id c0" "ac_current_node c1 = ac_current_node c0"
    "ac_step_count c1 = ac_step_count c0" "ac_status c1 = ac_status c0" "c2 = c1" "c3 = c1" by auto
  have audit: "wo_audit w' = wo_audit w2" "wo_audit w1 = wo_audit w0" and steps: "wo_steps w' = wo_steps w3" "wo_steps w2 = wo_steps w0"
    using c1(2,3) e2(2) e3(2) e4(2,3) assms(4,5) by simp_all
  obtain nxt where c': "c' = c1\<lparr>ac_current_node := nxt, ac_step_count := ac_step_count c1 + 1\<rparr>"
    using e4(4) place by auto
  have "recorded x (c0, w0) (c', w')"
    unfolding recorded_def Let_def prod.case audit steps
    using e2(3)[unfolded place audit] e3(3)[unfolded place steps]
    by (intro conjI) (simp_all add: c' place c1(4), blast+)
  then show "\<exists>x. recorded x (c0, w0) (c', w')" by blast
qed

lemma task_step_recorded:
  assumes "task_step E G node (c, w) = (Inr b, (c', w'))"
  shows "\<not> b" "\<exists>x. recorded x (c, w) (c', w')"
proof -
  obtain tx s1 u2 s2 u3 s3 where 1: "last_tx_id E (c, w) = (Inr tx, s1)" and 2: "db_call E s1 = (Inr u2, s2)"
    and 3: "checkpoint E s2 = (Inr u3, s3)" and 4: "task_body E G node tx s3 = (Inr b, (c', w'))"
    using assms unfolding task_step_def seq_Inr by blast
  have "same_docs (c, w) s3"
    by (rule same_docs_trans[OF same_docs_trans[OF quietD[OF quiet_last_tx_id 1] quietD[OF quiet_db_call 2]]
          quietD[OF quiet_checkpoint 3]])
  then obtain w3 where s3: "s3 = (c, w3)" "wo_audit w3 = wo_audit w" "wo_steps w3 = wo_steps w"
    by (cases s3) (auto simp: same_docs_def)
  obtain input est reserved c4 w4 where
    5: "reserve_step E node tx est input (c, w3) = (Inr reserved, (c4, w4))"
    and 6: "(case execute_node E node tx est input (c4, w4) of
        (res, s') \<Rightarrow> after_execution E G reserved est res s') = (Inr b, (c', w'))"
    using 4 unfolding s3 task_body_def prod.case Let_def seq_Inr split_paired_Ex by blast
  note e5 = reserve_step_effect(1)[OF 5] reserve_step_effect(4)[OF 5 refl]
  obtain res s5 where 7: "execute_node E node tx est input (c4, w4) = (res, s5)" by (metis surj_pair)
  have "same_docs (c4, w4) s5" using execute_node_docs[of "(c4, w4)" E node tx est input] by (simp add: 7)
  then obtain w5 where s5: "s5 = (c4, w5)" "wo_audit w5 = wo_audit w4" "wo_steps w5 = wo_steps w4"
    by (cases s5) (auto simp: same_docs_def)
  have 8: "after_execution E G reserved est res (c4, w5) = (Inr b, (c', w'))" using 6 by (simp add: 7 s5)
  have r: "reserved_from E reserved est (ac_budget c) (ac_budget c4)"
    using e5(2) by (simp add: reserved_from_def split: if_splits)
  have p: "same_place c c4"
  proof -
    have "same_place c (c\<lparr>ac_budget := B\<rparr>)" for B by (simp add: same_place_def)
    moreover have "c4 = c\<lparr>ac_budget := ac_budget c4\<rparr>" using e5(2) by blast
    ultimately show ?thesis by metis
  qed
  have d: "wo_audit w5 = wo_audit w" "wo_steps w5 = wo_steps w" using s3 s5 e5 by auto
  show "\<not> b" "\<exists>x. recorded x (c, w) (c', w')"
    by (rule after_execution_recorded[OF 8 r p d])+
qed

end
