(* ===== verification/Agent_Run.thy ===== *)
theory Agent_Run
  imports Agent_Engine "HOL-Library.Code_Target_Nat"
begin

text \<open>
  Whole runs of the workflow engine: the rounds as a step relation, the account of a successful run,
  termination, and the audit log under any run.
\<close>

declare run_loop.simps [code]

section \<open>Rounds\<close>

inductive rounds :: "engine \<Rightarrow> state_graph \<Rightarrow> agent_context \<times> world \<Rightarrow> agent_context \<times> world \<Rightarrow> bool"
  for E G where
  rounds_refl: "rounds E G s s"
| rounds_step: "rounds E G s s' \<Longrightarrow> engine_round E G s' = (Inr False, s'') \<Longrightarrow> rounds E G s s''"

lemma rounds_front:
  assumes "rounds E G s' s''" "engine_round E G s = (Inr False, s')"
  shows "rounds E G s s''"
  using assms by (induction rule: rounds.induct) (auto intro: rounds.intros)

lemma run_loop_rounds:
  assumes "run_loop E G s = Some (r, s'')"
  shows "\<exists>s'. rounds E G s s'
    \<and> (case r of Inl e \<Rightarrow> engine_round E G s' = (Inl e, s'') | Inr _ \<Rightarrow> engine_round E G s' = (Inr True, s''))"
proof -
  define P where "P = (\<lambda>E G s (y :: unit res \<times> (agent_context \<times> world)). \<exists>s'. rounds E G s s'
    \<and> (case fst y of Inl e \<Rightarrow> engine_round E G s' = (Inl e, snd y) | Inr _ \<Rightarrow> engine_round E G s' = (Inr True, snd y)))"
  have "P E G s (r, s'')"
    using assms
  proof (rule run_loop.raw_induct[of P, rotated])
    fix loop E G s y
    assume IH: "\<And>E G s y. loop E G s = Some y \<Longrightarrow> P E G s y"
      and body: "(case engine_round E G s of (Inl e, s') \<Rightarrow> Some (Inl e, s')
        | (Inr fin, s') \<Rightarrow> if fin then Some (Inr (), s') else loop E G s') = Some y"
    obtain x s' where round: "engine_round E G s = (x, s')" by (cases "engine_round E G s")
    show "P E G s y"
    proof (cases "\<exists>e. x = Inl e \<or> x = Inr True")
      case True
      then have "case fst y of Inl e \<Rightarrow> engine_round E G s = (Inl e, snd y) | Inr _ \<Rightarrow> engine_round E G s = (Inr True, snd y)"
        using body round by auto
      then show ?thesis using rounds_refl[of E G s] unfolding P_def by blast
    next
      case False
      then have "x = Inr False" by (cases x) auto
      with body round have "loop E G s' = Some y" by simp
      from IH[OF this] show ?thesis
        using rounds_front round \<open>x = Inr False\<close> unfolding P_def by blast
    qed
  qed
  then show ?thesis unfolding P_def fst_conv snd_conv .
qed

lemma rounds_kept: "rounds E G s s' \<Longrightarrow> audit_kept s s'"
proof (induction rule: rounds.induct)
  case (rounds_step s s' s'')
  then show ?case using keepsD[OF keeps_round, of s' E G] by (auto intro: audit_kept_trans)
qed simp

section \<open>What a round does\<close>

lemma decision_step_moves:
  assumes "decision_step E G node (c, w) = (Inr b, (c', w'))"
  shows "\<not> b" "w' = w" "\<exists>e\<in>set (out_edges G (an_id node)). c' = c\<lparr>ac_current_node := we_to e\<rparr>"
proof -
  obtain t where t: "evaluate_decision (en_parse E) G node c = Inr t"
    using assms fail_with_frame(1)[of E _ "(c, w)"] by (cases "evaluate_decision (en_parse E) G node c")
      (fastforce simp: decision_step_def)+
  then show "\<not> b" "w' = w" "\<exists>e\<in>set (out_edges G (an_id node)). c' = c\<lparr>ac_current_node := we_to e\<rparr>"
    using assms evaluate_decision_cases[where parse = "en_parse E" and G = G and node = node and c = c] by (auto simp: decision_step_def)
qed

lemma end_step_completes:
  assumes "end_step E (c, w) = (Inr b, (c', w'))"
  shows "b" "c' = c\<lparr>ac_status := Completed\<rparr>" "wo_audit w' = wo_audit w" "wo_steps w' = wo_steps w"
proof -
  have "same_docs (c\<lparr>ac_status := Completed\<rparr>, w) (c', w')"
    using quietD[OF quiet_end_actions] assms by (simp add: end_step_def)
  then show "c' = c\<lparr>ac_status := Completed\<rparr>" "wo_audit w' = wo_audit w" "wo_steps w' = wo_steps w"
    by (simp_all add: same_docs_def)
  show b using assms by (auto simp: end_step_def seq_Inr ret_def)
qed

text \<open>The four outcomes of a round that does not fail.\<close>

lemma round_cases:
  assumes "engine_round E G (c, w) = (Inr b, (c', w'))"
  obtains (fin) node where "b" "sg_get_node G (ac_current_node c) = Some node" "an_node_type node = End"
      "end_step E (c, w) = (Inr b, (c', w'))"
  | (task) node x where "\<not> b" "sg_get_node G (ac_current_node c) = Some node"
      "an_node_type node = Start \<or> an_node_type node = Task"
      "ac_step_count c < MAX_WORKFLOW_STEPS" "recorded x (c, w) (c', w')"
  | (dec) node e where "\<not> b" "sg_get_node G (ac_current_node c) = Some node" "an_node_type node = Decision"
      "e \<in> set (out_edges G (an_id node))" "c' = c\<lparr>ac_current_node := we_to e\<rparr>" "w' = w"
proof (cases "MAX_WORKFLOW_STEPS \<le> ac_step_count c")
  case True
  then have "\<exists>e. (Inr b :: bool res) = Inl e"
    using fail_with_frame(1)[of E _ "(c, w)" "Inr b"] assms by (auto simp: engine_round_def)
  then show thesis by simp
next
  case low: False
  then obtain node where node: "sg_get_node G (ac_current_node c) = Some node"
    using assms by (auto simp: engine_round_def split: option.splits)
  note round = assms[unfolded engine_round_def prod.case if_not_P[OF low] node option.case]
  show thesis
  proof (cases "an_node_type node")
    case End
    then have e: "end_step E (c, w) = (Inr b, (c', w'))" using round by simp
    show thesis by (rule fin[OF end_step_completes(1)[OF e] node End e])
  next
    case Decision
    then have d: "decision_step E G node (c, w) = (Inr b, (c', w'))" using round by simp
    obtain e where "e \<in> set (out_edges G (an_id node))" "c' = c\<lparr>ac_current_node := we_to e\<rparr>"
      using decision_step_moves(3)[OF d] by blast
    with dec[OF decision_step_moves(1)[OF d] node Decision] decision_step_moves(2)[OF d] show thesis by blast
  next
    case Start
    then have t: "task_step E G node (c, w) = (Inr b, (c', w'))" using round by simp
    from task_step_recorded(2)[OF t] obtain x where x: "recorded x (c, w) (c', w')" ..
    show thesis using task[OF task_step_recorded(1)[OF t] node _ _ x] Start low by simp
  next
    case Task
    then have t: "task_step E G node (c, w) = (Inr b, (c', w'))" using round by simp
    from task_step_recorded(2)[OF t] obtain x where x: "recorded x (c, w) (c', w')" ..
    show thesis using task[OF task_step_recorded(1)[OF t] node _ _ x] Task low by simp
  qed
qed

section \<open>Termination\<close>

text \<open>The moves a \<open>Decision\<close> node can make.\<close>

definition decision_links :: "state_graph \<Rightarrow> (rstr \<times> rstr) set" where
  "decision_links G = {(n, we_to e) |n e node. sg_get_node G n = Some node \<and> an_node_type node = Decision
     \<and> e \<in> set (out_edges G (an_id node))}"

lemma finite_decision_links: "finite (decision_links G)"
proof (rule finite_subset)
  show "decision_links G \<subseteq> fst ` set (sg_nodes G) \<times> we_to ` set (sg_edges G)"
    by (auto simp: decision_links_def sg_get_node_def out_edges_def dest!: map_of_SomeD intro: rev_image_eqI)
qed simp

text \<open>The order the rounds descend: steps left, then the decisions still ahead.\<close>

definition round_order :: "state_graph \<Rightarrow> ((agent_context \<times> world) \<times> (agent_context \<times> world)) set" where
  "round_order G = inv_image (less_than <*lex*> (decision_links G)\<inverse>)
     (\<lambda>(c, w). (10000 - unat (ac_step_count c), ac_current_node c))"

lemma wf_round_order: "acyclic (decision_links G) \<Longrightarrow> wf (round_order G)"
  unfolding round_order_def
  by (intro wf_inv_image wf_lex_prod wf_less_than finite_acyclic_wf_converse finite_decision_links)

lemma round_descends:
  assumes "engine_round E G s = (Inr False, s')"
  shows "(s', s) \<in> round_order G"
proof -
  obtain c w c' w' where s: "s = (c, w)" "s' = (c', w')" by (cases s, cases s')
  have "((c', w'), (c, w)) \<in> round_order G"
    using assms[unfolded s]
  proof (cases rule: round_cases)
    case (task node x)
    have low: "unat (ac_step_count c) < 10000" using task(4) by (simp add: MAX_WORKFLOW_STEPS_def word_less_nat_alt)
    have "ac_step_count c' = ac_step_count c + 1" using task(5) by (simp add: recorded_def Let_def)
    moreover have "unat (ac_step_count c + 1) = unat (ac_step_count c) + 1"
      using low by (simp add: unat_word_ariths)
    ultimately have "10000 - unat (ac_step_count c') < 10000 - unat (ac_step_count c)" using low by simp
    then show ?thesis by (simp add: round_order_def s)
  next
    case (dec node e)
    then show ?thesis by (auto simp: round_order_def decision_links_def s)
  qed simp
  then show ?thesis by (simp add: s)
qed

lemma run_loop_returns:
  assumes "acyclic (decision_links G)"
  shows "\<exists>y. run_loop E G s = Some y"
  using wf_round_order[OF assms]
proof (induction s rule: wf_induct_rule)
  case (less s)
  obtain x s' where round: "engine_round E G s = (x, s')" by (cases "engine_round E G s")
  show ?case
  proof (cases "x = Inr False")
    case True
    then have "\<exists>y. run_loop E G s' = Some y" using less round_descends round by blast
    then show ?thesis using round True by (simp add: run_loop.simps[of E G s])
  next
    case False
    then show ?thesis using round by (cases x) (auto simp: run_loop.simps[of E G s])
  qed
qed

section \<open>The account of a run\<close>

lemma show_num_inj: "show_num v = show_num w \<longleftrightarrow> v = w"
proof -
  have "inj (unat :: u8 \<Rightarrow> nat)" by (rule injI) (simp add: word_unat_eq_iff)
  then show ?thesis by (simp add: show_num_def show_u64_inj)
qed

lemma audit_key_inj: "audit_key t m = audit_key t n \<longleftrightarrow> m = n"
  by (simp add: audit_key_def show_num_inj)

lemma step_key_inj: "step_key t m = step_key t n \<longleftrightarrow> m = n"
  by (simp add: step_key_def show_num_inj)

text \<open>The tokens the audit log holds for step \<open>n\<close>.\<close>

definition audited_tokens :: "world \<Rightarrow> rstr \<Rightarrow> nat \<Rightarrow> nat" where
  "audited_tokens w task n =
     (case map_of (wo_audit w) (audit_key task (of_nat n)) of Some e \<Rightarrow> unat (ae_tokens_consumed e) | None \<Rightarrow> 0)"

text \<open>
  Step \<open>n\<close> left one entry of the log, which was not there before, and one document that agrees with it.
\<close>

definition step_documented :: "rstr \<Rightarrow> world \<Rightarrow> world \<Rightarrow> nat \<Rightarrow> bool" where
  "step_documented task w w' n \<longleftrightarrow>
     map_of (wo_audit w) (audit_key task (of_nat n)) = None
     \<and> (\<exists>entry doc. map_of (wo_audit w') (audit_key task (of_nat n)) = Some entry
          \<and> map_of (wo_steps w') (step_key task (of_nat n)) = Some doc
          \<and> ae_error entry = None \<and> sk_node doc = ae_node_id entry \<and> sk_output doc = ae_payload entry
          \<and> sk_tokens_consumed doc = ae_tokens_consumed entry)"

definition steps_accounted :: "agent_context \<times> world \<Rightarrow> agent_context \<times> world \<Rightarrow> bool" where
  "steps_accounted s s' \<longleftrightarrow> (let (c, w) = s; (c', w') = s'; task = ac_task_id c;
       ns = {unat (ac_step_count c) ..< unat (ac_step_count c')} in
     ac_task_id c' = task \<and> ac_step_count c \<le> ac_step_count c'
     \<and> (\<forall>n\<in>ns. step_documented task w w' n)
     \<and> (\<forall>k. k \<notin> (\<lambda>n. audit_key task (of_nat n)) ` ns \<longrightarrow> map_of (wo_audit w') k = map_of (wo_audit w) k)
     \<and> (\<forall>k. k \<notin> (\<lambda>n. step_key task (of_nat n)) ` ns \<longrightarrow> map_of (wo_steps w') k = map_of (wo_steps w) k)
     \<and> unat (tk_consumed (ac_budget c'))
        = min (unat (tk_consumed (ac_budget c)) + (\<Sum>n\<in>ns. audited_tokens w' task n)) (2 ^ 64 - 1))"

lemma steps_accounted_refl: "steps_accounted s s"
proof -
  obtain c w where s: "s = (c, w)" by (cases s)
  have "unat (tk_consumed (ac_budget c)) < 2 ^ 64" using unat_lt_pow[of "tk_consumed (ac_budget c)"] by simp
  then show ?thesis by (simp add: s steps_accounted_def Let_def)
qed

text \<open>Only the context's task, step count and tokens and the two sets of documents matter.\<close>

lemma steps_accounted_cong:
  assumes "steps_accounted s (c, w)" "ac_task_id c' = ac_task_id c" "ac_step_count c' = ac_step_count c"
    "ac_budget c' = ac_budget c" "wo_audit w' = wo_audit w" "wo_steps w' = wo_steps w"
  shows "steps_accounted s (c', w')"
  using assms by (simp add: steps_accounted_def Let_def step_documented_def audited_tokens_def split: prod.splits)

lemma steps_accounted_recorded:
  assumes acc: "steps_accounted (c0, w0) (c, w)" and rec: "recorded x (c, w) (c', w')"
    and low: "ac_step_count c < MAX_WORKFLOW_STEPS"
  shows "steps_accounted (c0, w0) (c', w')"
proof -
  let ?task = "ac_task_id c0"
  let ?a = "unat (ac_step_count c0)" and ?b = "unat (ac_step_count c)"
  have task: "ac_task_id c = ?task" "ac_task_id c' = ?task"
    and ab: "?a \<le> ?b"
    and docs: "\<And>n. n \<in> {?a ..< ?b} \<Longrightarrow> step_documented ?task w0 w n"
    and audit0: "\<And>k. k \<notin> (\<lambda>n. audit_key ?task (of_nat n)) ` {?a ..< ?b} \<Longrightarrow> map_of (wo_audit w) k = map_of (wo_audit w0) k"
    and steps0: "\<And>k. k \<notin> (\<lambda>n. step_key ?task (of_nat n)) ` {?a ..< ?b} \<Longrightarrow> map_of (wo_steps w) k = map_of (wo_steps w0) k"
    and tokens: "unat (tk_consumed (ac_budget c))
      = min (unat (tk_consumed (ac_budget c0)) + (\<Sum>n = ?a ..< ?b. audited_tokens w ?task n)) (2 ^ 64 - 1)"
    using acc rec by (auto simp: steps_accounted_def recorded_def Let_def word_le_nat_alt)
  obtain entry where entry: "ae_node_id entry = ac_current_node c" "ae_payload entry = sr_output x"
    "ae_tokens_consumed entry = sr_tokens_consumed x" "ae_error entry = None"
    "map_of (wo_audit w') = (map_of (wo_audit w))(audit_key ?task (ac_step_count c) \<mapsto> entry)"
    using rec task(1) by (auto simp: recorded_def Let_def update_conv')
  obtain doc where doc: "sk_node doc = ac_current_node c" "sk_output doc = sr_output x"
    "sk_tokens_consumed doc = sr_tokens_consumed x"
    "map_of (wo_steps w') = (map_of (wo_steps w))(step_key ?task (ac_step_count c) \<mapsto> doc)"
    using rec task(1) by (auto simp: recorded_def Let_def update_conv')
  have fresh: "map_of (wo_audit w) (audit_key ?task (ac_step_count c)) = None"
    and c': "ac_step_count c' = ac_step_count c + 1"
    and used: "unat (tk_consumed (ac_budget c'))
        = min (unat (tk_consumed (ac_budget c)) + unat (sr_tokens_consumed x)) (2 ^ 64 - 1)"
    using rec task(1) by (simp_all add: recorded_def Let_def)
  have "?b < 10000" using low by (simp add: MAX_WORKFLOW_STEPS_def word_less_nat_alt)
  then have b': "unat (ac_step_count c') = Suc ?b" by (simp add: c' unat_word_ariths)
  have other: "of_nat n \<noteq> ac_step_count c" if "n < ?b" for n
  proof
    assume "of_nat n = ac_step_count c"
    then have "unat (of_nat n :: u64) = ?b" by simp
    moreover have "unat (of_nat n :: u64) = n"
      using that \<open>?b < 10000\<close> by (simp add: unat_of_nat take_bit_nat_eq_self)
    ultimately show False using that by simp
  qed
  have range: "{?a ..< Suc ?b} = insert ?b {?a ..< ?b}" using ab by auto
  have at_b: "step_documented ?task w0 w' ?b"
  proof -
    have "audit_key ?task (ac_step_count c) \<notin> (\<lambda>n. audit_key ?task (of_nat n)) ` {?a ..< ?b}"
    proof
      assume "audit_key ?task (ac_step_count c) \<in> (\<lambda>n. audit_key ?task (of_nat n)) ` {?a ..< ?b}"
      then obtain n where "n < ?b" "ac_step_count c = of_nat n" by (auto simp: audit_key_inj)
      then show False using other[of n] by simp
    qed
    then have "map_of (wo_audit w0) (audit_key ?task (ac_step_count c)) = None" using audit0 fresh by simp
    then show ?thesis using entry doc by (simp add: step_documented_def)
  qed
  have before: "step_documented ?task w0 w' n" if "n \<in> {?a ..< ?b}" for n
    using docs[OF that] other[of n] that by (simp add: step_documented_def entry(5) doc(4) audit_key_inj step_key_inj)
  have "audited_tokens w' ?task n = audited_tokens w ?task n" if "n \<in> {?a ..< ?b}" for n
    using other[of n] that by (simp add: audited_tokens_def entry(5) audit_key_inj)
  moreover have "audited_tokens w' ?task ?b = unat (sr_tokens_consumed x)"
    by (simp add: audited_tokens_def entry(3,5))
  ultimately have sum: "(\<Sum>n = ?a ..< Suc ?b. audited_tokens w' ?task n)
      = (\<Sum>n = ?a ..< ?b. audited_tokens w ?task n) + unat (sr_tokens_consumed x)"
    using ab by simp
  show ?thesis
    unfolding steps_accounted_def Let_def prod.case b' sum
  proof (intro conjI allI impI ballI)
    show "ac_step_count c0 \<le> ac_step_count c'" using ab b' by (simp add: word_le_nat_alt)
    show "step_documented ?task w0 w' n" if "n \<in> {?a ..< Suc ?b}" for n
      using that at_b before unfolding range by blast
    show "map_of (wo_audit w') k = map_of (wo_audit w0) k"
      if "k \<notin> (\<lambda>n. audit_key ?task (of_nat n)) ` {?a ..< Suc ?b}" for k
      using that audit0[of k] unfolding range by (simp add: entry(5))
    show "map_of (wo_steps w') k = map_of (wo_steps w0) k"
      if "k \<notin> (\<lambda>n. step_key ?task (of_nat n)) ` {?a ..< Suc ?b}" for k
      using that steps0[of k] unfolding range by (simp add: doc(4))
  qed (use task used tokens in simp_all)
qed

lemma rounds_accounted:
  assumes "rounds E G s s'"
  shows "steps_accounted s s' \<and> ac_status (fst s') = ac_status (fst s)"
  using assms
proof (induction rule: rounds.induct)
  case (rounds_step s s' s'')
  obtain c0 w0 c w c' w' where s: "s = (c0, w0)" "s' = (c, w)" "s'' = (c', w')" by (metis surj_pair)
  from rounds_step.hyps(2)[unfolded s] have "steps_accounted s s'' \<and> ac_status c' = ac_status c"
  proof (cases rule: round_cases)
    case (task node x)
    have "steps_accounted (c0, w0) (c', w')"
      by (rule steps_accounted_recorded[OF _ task(5,4)]) (use rounds_step.IH in \<open>simp add: s\<close>)
    moreover have "ac_status c' = ac_status c" using task(5) by (simp add: recorded_def Let_def)
    ultimately show ?thesis by (simp add: s)
  next
    case (dec node e)
    then show ?thesis using steps_accounted_cong[of s c w c' w'] rounds_step.IH by (simp add: s)
  qed simp
  then show ?case using rounds_step.IH by (simp add: s)
qed (simp add: steps_accounted_refl)

lemma steps_accounted_from:
  assumes "steps_accounted (c, w) s" "ac_task_id c' = ac_task_id c" "ac_step_count c' = ac_step_count c"
    "ac_budget c' = ac_budget c" "wo_audit w' = wo_audit w" "wo_steps w' = wo_steps w"
  shows "steps_accounted (c', w') s"
  using assms by (simp add: steps_accounted_def Let_def step_documented_def split: prod.splits)

text \<open>The document of the end of a run.\<close>

lemma db_call_final: "db_call E (c, w) = (r, (c', w')) \<Longrightarrow> c' = c \<and> wo_final w' = wo_final w"
  by (auto simp: db_call_def)

lemma last_tx_id_final: "last_tx_id E (c, w) = (r, (c', w')) \<Longrightarrow> c' = c \<and> wo_final w' = wo_final w"
  by (auto simp: last_tx_id_def seq_def ret_def db_call_def split: option.splits)

lemma checkpoint_final:
  assumes "checkpoint E (c, w) = (Inr u, (c', w'))"
  shows "wo_final w' = wo_final w"
proof -
  obtain u1 c1 w1 tx c2 w2 u3 c3 w3 where "db_call E (c, w) = (Inr u1, (c1, w1))"
    "last_tx_id E (c1, w1) = (Inr tx, (c2, w2))" "db_call E (c2, w2) = (Inr u3, (c3, w3))"
    "wo_final w' = wo_final w3"
    using assms unfolding checkpoint_def seq_Inr split_paired_Ex prod.case lift_def by auto
  then show ?thesis using db_call_final last_tx_id_final by metis
qed

definition final_document :: "agent_context \<Rightarrow> world \<Rightarrow> bool" where
  "final_document c w \<longleftrightarrow> (\<exists>d. map_of (wo_final w) (final_key (ac_task_id c)) = Some d
     \<and> fd_status d = ac_status c \<and> fd_step_count d = ac_step_count c \<and> fd_memory d = ac_memory c
     \<and> fd_tokens_total d = tk_consumed (ac_budget c))"

lemma persist_final:
  assumes "persist_final_state E (c, w) = (Inr u, (c', w'))"
  shows "c' = c" "final_document c w'"
proof -
  obtain u1 c1 w1 where 1: "db_call E (c, w) = (Inr u1, (c1, w1))"
    using assms unfolding persist_final_state_def seq_Inr split_paired_Ex by blast
  then have c1: "c1 = c" using db_call_final by blast
  show "c' = c" "final_document c w'"
    using assms unfolding persist_final_state_def seq_def 1 c1
    by (auto simp: final_document_def update_conv)
qed

lemma end_step_final:
  assumes "end_step E (c, w) = (Inr b, (c', w'))"
  shows "final_document c' w'"
proof -
  let ?c = "c\<lparr>ac_status := Completed\<rparr>"
  obtain u1 c1 w1 u2 c2 w2 u3 c3 w3 where
    1: "persist_final_state E (?c, w) = (Inr u1, (c1, w1))" and 2: "db_call E (c1, w1) = (Inr u2, (c2, w2))"
    and 3: "checkpoint E (c2, w2) = (Inr u3, (c3, w3))" and 4: "w' = w3"
    using assms unfolding end_step_def prod.case seq_Inr split_paired_Ex ret_def by auto
  have "wo_final w' = wo_final w1" using checkpoint_final[OF 3] db_call_final[OF 2] 4 by simp
  then show ?thesis
    using persist_final(2)[OF 1] end_step_completes(2)[OF assms] by (simp add: final_document_def)
qed

lemma run_cases:
  assumes "run E G (c, w) = Some (r, (c', w'))"
  obtains (startup) e where "r = Inl e" "audit_kept (c, w) (c', w')"
  | (loop) w1 c2 where "wo_audit w1 = wo_audit w" "wo_steps w1 = wo_steps w"
      "run_loop E G (c\<lparr>ac_status := Running\<rparr>, w1) = Some (r, (c2, w'))"
      "c' = (case r of Inl _ \<Rightarrow> c2\<lparr>ac_status := Failed\<rparr> | Inr _ \<Rightarrow> c2)"
proof -
  let ?c = "c\<lparr>ac_status := Running\<rparr>"
  obtain r1 c1 w1 where calls: "seq (db_call E) (\<lambda>_. db_call E) (?c, w) = (r1, (c1, w1))" by (metis surj_pair)
  have "quiet (seq (db_call E) (\<lambda>_. db_call E))" by (intro quiet_seq quiet_db_call)
  from quietD[OF this calls] have same: "c1 = ?c" "wo_audit w1 = wo_audit w" "wo_steps w1 = wo_steps w"
    by (simp_all add: same_docs_def)
  note def = assms[unfolded run_def run_internal_def prod.case calls]
  show thesis
  proof (cases r1)
    case (Inl e)
    then show thesis using def same startup[of e] by (auto simp: audit_kept_def)
  next
    case (Inr u)
    then obtain c2 where "run_loop E G (c1, w1) = Some (r, (c2, w'))"
      "c' = (case r of Inl _ \<Rightarrow> c2\<lparr>ac_status := Failed\<rparr> | Inr _ \<Rightarrow> c2)"
      using def by auto
    then show thesis using loop same by blast
  qed
qed

section \<open>A concrete workflow\<close>

text \<open>Equations for evaluation: no computation with \<open>2 ^ 64\<close>, no pattern on \<open>Suc\<close>.\<close>

lemma retry_loop_code [code]:
  "retry_loop E t node tx est input max_attempts n attempt res s =
     (if n = 0 then (res, s)
      else case s of (c, w) \<Rightarrow>
        (let left = n - 1; letter = dead_letter c node tx input in
         if attempt > 0 \<and> tokens_available (en_scale E) (ac_budget c) = 0
         then (Inl (MemoryBudgetExceeded (tk_consumed (ac_budget c)) (tk_limit (ac_budget c))),
               dlq_push E (letter (BudgetExhausted 0 est) attempt) (c, w))
         else let w' = w\<lparr>wo_execs := wo_execs w + 1\<rparr> in
           case at_execute t (wo_execs w) c input of
             ToolOk r \<Rightarrow> (Inr r, (c, w'))
           | ToolFails e \<Rightarrow>
               if \<not> at_is_retriable t
               then (Inl e, dlq_push E (letter (ToolError e) attempt) (c, w'))
               else if left = 0
               then (Inl e, dlq_push E (letter (MaxRetriesExceeded max_attempts) attempt) (c, w'))
               else retry_loop E t node tx est input max_attempts left (attempt + 1) (Inl e) (c, w')
           | ToolElapsed \<Rightarrow>
               (let err = Inl (Timeout ''tool'' (at_timeout_ms t));
                    s' = dlq_push E (letter (TimeoutReason (at_timeout_ms t)) attempt) (c, w')
                in if \<not> at_is_retriable t then (err, s')
                   else retry_loop E t node tx est input max_attempts left (attempt + 1) err s')))"
  by (cases n; cases s) (simp_all only: retry_loop.simps diff_Suc_1 nat.distinct if_False prod.case refl if_True Let_def)


lemma sat_add_code [code]: "sat_add a b = (if b \<le> - 1 - a then a + b else - 1)"
proof -
  have "unat (- 1 - a) = 2 ^ 64 - 1 - unat a" by (simp add: unat_sub unsigned_minus_1_eq_mask mask_eq_exp_minus_1)
  then have "b \<le> - 1 - a \<longleftrightarrow> unat a + unat b < 2 ^ 64"
    using unat_lt_pow[of a] unat_lt_pow[of b] by (auto simp: word_le_nat_alt)
  then show ?thesis by (simp add: sat_add_def)
qed

text \<open>Start, a decision on the step count, a task with a tool, the end. The tool asks for 10 tokens and uses 7.\<close>

definition demo_tool :: agent_tool where
  "demo_tool = \<lparr>at_estimated_cost = (\<lambda>_. 10), at_timeout_ms = 1000, at_is_retriable = True, at_max_retries = 2,
     at_execute = (\<lambda>n _ _. if n = 0 then ToolFails (Internal ''busy'')
        else ToolOk \<lparr>sr_node_id = lit ''t'', sr_output = JBool True, sr_tokens_consumed = 7, sr_next_edge = None\<rparr>)\<rparr>"

definition demo_engine :: engine where
  "demo_engine = \<lparr>en_tools = [(lit ''tool'', demo_tool)], en_dlq = True, en_fault = (\<lambda>_. None), en_tx = of_nat,
     en_scale = (\<lambda>p n. n), en_parse = (\<lambda>_. None), en_nul = (\<lambda>_. False), en_err_text = (\<lambda>_. lit ''error'')\<rparr>"

definition demo_graph :: "rstr \<Rightarrow> state_graph" where
  "demo_graph after =
     (let add = (\<lambda>i t h G. snd (try_add_node i (lit ''node'') t h G));
          link = (\<lambda>a b cond p G. snd (try_add_edge a b cond p G))
      in link (lit ''t'') (lit ''e'') None 1 (link (lit ''d'') (lit ''e'') (Some (lit ''step_count == 5'')) 9
        (link (lit ''d'') after None 1 (link (lit ''s'') (lit ''d'') None 1
        (add (lit ''e'') End None (add (lit ''t'') Task (Some (lit ''tool'')) (add (lit ''d'') Decision None
        (add (lit ''s'') Start None state_graph_new))))))))"

definition demo_context :: agent_context where
  "demo_context = (case context_try_new (lit ''job'') (lit ''s'') (token_budget_new 100 0) of Inr c \<Rightarrow> c)"

definition demo_entry :: audit_entry where
  "demo_entry = \<lparr>ae_task_id = lit ''old'', ae_step_count = 0, ae_node_id = lit ''s'', ae_tokens_consumed = 0,
     ae_payload = JNull, ae_error = None, ae_tx_id = None\<rparr>"

definition demo_world :: world where
  "demo_world = \<lparr>wo_calls = 0, wo_execs = 0, wo_audit = [(audit_key (lit ''old'') 0, demo_entry)], wo_steps = [], wo_final = [], wo_checkpoints = [],
     wo_dlq = [], wo_outcomes = []\<rparr>"

lemma demo_run:
  "case run demo_engine (demo_graph (lit ''t'')) (demo_context, demo_world) of
     Some (r, (c, w)) \<Rightarrow> r = Inr () \<and> ac_step_count c = 2 \<and> tk_consumed (ac_budget c) = 7
   | None \<Rightarrow> False"
  by code_simp

lemma demo_run_obtains:
  obtains c w where "run demo_engine (demo_graph (lit ''t'')) (demo_context, demo_world) = Some (Inr (), (c, w))"
    "ac_step_count c = 2" "tk_consumed (ac_budget c) = 7"
proof (cases "run demo_engine (demo_graph (lit ''t'')) (demo_context, demo_world)")
  case None
  then show thesis using demo_run by simp
next
  case (Some y)
  obtain r c w where "y = (r, (c, w))" by (metis surj_pair)
  with Some demo_run that show thesis by simp
qed

lemma demo_nodes: "map (\<lambda>(k, n). (k, an_id n, an_node_type n)) (sg_nodes (demo_graph (lit ''t'')))
   = [(lit ''s'', lit ''s'', Start), (lit ''d'', lit ''d'', Decision), (lit ''t'', lit ''t'', Task), (lit ''e'', lit ''e'', End)]"
  by code_simp

lemma demo_edges: "map (\<lambda>e. (we_from e, we_to e)) (sg_edges (demo_graph (lit ''t'')))
   = [(lit ''s'', lit ''d''), (lit ''d'', lit ''t''), (lit ''d'', lit ''e''), (lit ''t'', lit ''e'')]"
  by code_simp

lemma demo_links: "decision_links (demo_graph (lit ''t'')) \<subseteq> {lit ''d''} \<times> {lit ''t'', lit ''e''}"
proof
  fix p assume "p \<in> decision_links (demo_graph (lit ''t''))"
  then obtain n node e where p: "p = (n, we_to e)"
    and node: "(n, node) \<in> set (sg_nodes (demo_graph (lit ''t'')))" "an_node_type node = Decision"
    and e: "e \<in> set (sg_edges (demo_graph (lit ''t'')))" "we_from e = an_id node"
    by (auto simp: decision_links_def sg_get_node_def out_edges_def dest!: map_of_SomeD)
  have "(n, an_id node, an_node_type node) \<in> set (map (\<lambda>(k, n). (k, an_id n, an_node_type n)) (sg_nodes (demo_graph (lit ''t''))))"
    using node(1) by force
  then have n: "n = lit ''d''" "an_id node = lit ''d''" unfolding demo_nodes using node(2) by auto
  have "(we_from e, we_to e) \<in> set (map (\<lambda>e. (we_from e, we_to e)) (sg_edges (demo_graph (lit ''t''))))"
    using e(1) by force
  then have "we_to e \<in> {lit ''t'', lit ''e''}" unfolding demo_edges using e(2) n(2) by (auto simp: lit_def)
  then show "p \<in> {lit ''d''} \<times> {lit ''t'', lit ''e''}" by (simp add: p n)
qed

lemma demo_acyclic: "acyclic (decision_links (demo_graph (lit ''t'')))"
proof (rule acyclic_subset[OF _ demo_links])
  have "x = lit ''d'' \<and> y \<noteq> lit ''d''" if "(x, y) \<in> ({lit ''d''} \<times> {lit ''t'', lit ''e''})\<^sup>+" for x y
    using that by (induction rule: trancl_induct) (auto simp: lit_def)
  then show "acyclic ({lit ''d''} \<times> {lit ''t'', lit ''e''})" by (auto simp: acyclic_def)
qed

section \<open>Properties\<close>

text \<open>
  C37. A workflow whose \<open>Decision\<close> nodes cannot lead back to each other always returns, with success or
  an error, from any context and whatever the tools and the database answer: every other round uses up one
  of the \<open>MAX_WORKFLOW_STEPS\<close> steps.
\<close>

theorem run_returns:
  assumes "acyclic (decision_links G)"
  shows "\<exists>r s'. run E G s = Some (r, s')"
proof -
  obtain c w where s: "s = (c, w)" by (cases s)
  have "\<exists>y. run_internal E G s' = Some y" for s'
    using run_loop_returns[OF assms, of E] unfolding run_internal_def by (auto split: prod.split sum.split)
  then obtain y where "run_internal E G (c\<lparr>ac_status := Running\<rparr>, w) = Some y" by blast
  then show ?thesis by (cases y) (auto simp: run_def s)
qed

theorem run_returns_witness:
  "acyclic (decision_links (demo_graph (lit ''t'')))
   \<and> (\<exists>r s'. run demo_engine (demo_graph (lit ''t'')) (demo_context, demo_world) = Some (r, s'))"
  using run_returns[OF demo_acyclic] demo_acyclic by blast

text \<open>
  C36. The account of a run that succeeds. The run ends at an \<open>End\<close> node with the status \<open>Completed\<close>. Each step between the
  step count it started with and the one it ends with has exactly one audit entry, which did not exist before and holds no
  error, and a step document with the same node, output and tokens; no other audit entry or step document
  is touched. The budget has consumed the tokens of these entries (up to the largest number), and
  the final document holds the status, the step count, the memory and the total of the tokens.
\<close>

theorem run_account:
  assumes "run E G (c, w) = Some (Inr (), (c', w'))"
  shows "ac_status c' = Completed \<and> steps_accounted (c, w) (c', w') \<and> final_document c' w'
    \<and> (\<exists>node. sg_get_node G (ac_current_node c') = Some node \<and> an_node_type node = End)"
  using assms
proof (cases rule: run_cases)
  case (loop w1 c2)
  let ?c = "c\<lparr>ac_status := Running\<rparr>"
  obtain c3 w3 where rounds: "rounds E G (?c, w1) (c3, w3)" and last: "engine_round E G (c3, w3) = (Inr True, (c2, w'))"
    using run_loop_rounds[OF loop(3)] by auto
  have acc: "steps_accounted (c, w) (c3, w3)"
    using rounds_accounted[OF rounds] loop(1,2) by (auto elim: steps_accounted_from)
  have c2: "c' = c2" using loop(4) by simp
  from last show ?thesis
  proof (cases rule: round_cases)
    case (fin node)
    note e = end_step_completes(2-4)[OF fin(4)]
    have "steps_accounted (c, w) (c', w')" by (rule steps_accounted_cong[OF acc]) (simp_all add: c2 e)
    then show ?thesis using fin end_step_final[OF fin(4)] by (simp add: c2 e)
  qed simp_all
qed simp

theorem run_account_witness:
  "\<exists>c w. run demo_engine (demo_graph (lit ''t'')) (demo_context, demo_world) = Some (Inr (), (c, w))
     \<and> ac_step_count c = 2 \<and> tk_consumed (ac_budget c) = 7
     \<and> ac_status c = Completed \<and> steps_accounted (demo_context, demo_world) (c, w) \<and> final_document c w"
proof -
  obtain c w where "run demo_engine (demo_graph (lit ''t'')) (demo_context, demo_world) = Some (Inr (), (c, w))"
    "ac_step_count c = 2" "tk_consumed (ac_budget c) = 7" by (rule demo_run_obtains)
  with run_account[OF this(1)] show ?thesis by blast
qed

text \<open>
  C38. The audit log is append-only: no run, successful or not, changes or removes an entry that was
  there before.
\<close>

theorem run_keeps_audit:
  assumes "run E G (c, w) = Some (r, (c', w'))" "map_of (wo_audit w) k = Some entry"
  shows "map_of (wo_audit w') k = Some entry"
proof -
  have "audit_kept (c, w) (c', w')"
    using assms(1)
  proof (cases rule: run_cases)
    case (loop w1 c2)
    obtain s where rounds: "rounds E G (c\<lparr>ac_status := Running\<rparr>, w1) s"
      and last: "snd (engine_round E G s) = (c2, w')"
      using run_loop_rounds[OF loop(3)] by (cases r) force+
    have "audit_kept (c\<lparr>ac_status := Running\<rparr>, w1) (c2, w')"
      using rounds_kept[OF rounds] keepsD[OF keeps_round, of s E G] last by (auto intro: audit_kept_trans)
    then show ?thesis using loop(1) by (simp add: audit_kept_def)
  qed
  then show ?thesis using assms(2) by (simp add: audit_kept_def)
qed

theorem run_keeps_audit_witness:
  "\<exists>c w. run demo_engine (demo_graph (lit ''t'')) (demo_context, demo_world) = Some (Inr (), (c, w))
     \<and> map_of (wo_audit w) (audit_key (lit ''old'') 0) = Some demo_entry"
proof -
  obtain c w where run: "run demo_engine (demo_graph (lit ''t'')) (demo_context, demo_world) = Some (Inr (), (c, w))"
    by (rule demo_run_obtains)
  have "map_of (wo_audit demo_world) (audit_key (lit ''old'') 0) = Some demo_entry" by (simp add: demo_world_def)
  from run_keeps_audit[OF run this] run show ?thesis by blast
qed

section \<open>Runs that do not return\<close>

lemma decision_loop_rounds:
  assumes "rounds E G (c, w) s" "sg_get_node G (ac_current_node c) = Some node" "an_node_type node = Decision"
    "ac_step_count c < MAX_WORKFLOW_STEPS" "\<forall>e\<in>set (out_edges G (an_id node)). we_to e = ac_current_node c"
  shows "ac_current_node (fst s) = ac_current_node c \<and> ac_step_count (fst s) = ac_step_count c"
  using assms
proof (induction "(c, w)" s rule: rounds.induct)
  case (rounds_step s' s'')
  obtain c1 w1 c2 w2 where s: "s' = (c1, w1)" "s'' = (c2, w2)" by (metis surj_pair)
  have IH: "ac_current_node c1 = ac_current_node c" "ac_step_count c1 = ac_step_count c"
    using rounds_step by (simp_all add: s)
  from rounds_step.hyps(3)[unfolded s] have "ac_current_node c2 = ac_current_node c \<and> ac_step_count c2 = ac_step_count c"
    by (cases rule: round_cases) (use IH rounds_step.prems in auto)
  then show ?case by (simp add: s)
qed simp

text \<open>
  The limit of \<open>MAX_WORKFLOW_STEPS\<close> does not bound every run: rounds at a \<open>Decision\<close> node do not count as steps.
  A run that starts at a \<open>Decision\<close> node with an unconditional edge whose edges all lead back to it never returns, if
  the recovery of orphans at the start succeeds.
\<close>

theorem decision_loop_never_returns:
  assumes node: "sg_get_node G (ac_current_node c) = Some node" "an_node_type node = Decision"
    and low: "ac_step_count c < MAX_WORKFLOW_STEPS"
    and edge: "e \<in> set (out_edges G (an_id node))" "we_condition e = None"
    and loops: "\<forall>e\<in>set (out_edges G (an_id node)). we_to e = ac_current_node c"
    and start: "en_fault E (wo_calls w) = None" "en_fault E (wo_calls w + 1) = None"
  shows "run E G (c, w) = None"
proof -
  let ?c = "c\<lparr>ac_status := Running\<rparr>"
  have none: "run_loop E G (?c, w1) = None" for w1
  proof (rule ccontr)
    assume "run_loop E G (?c, w1) \<noteq> None"
    then obtain r s'' where "run_loop E G (?c, w1) = Some (r, s'')" by auto
    from run_loop_rounds[OF this] obtain c2 w2 where rounds: "rounds E G (?c, w1) (c2, w2)"
      and last: "fst (engine_round E G (c2, w2)) \<noteq> Inr False"
      by (cases r) force+
    have at: "ac_current_node c2 = ac_current_node c" "ac_step_count c2 = ac_step_count c"
      using decision_loop_rounds[OF rounds, of node] node low loops by auto
    have "edge_enabled (en_parse E) c2 e" by (simp add: edge_enabled_def edge)
    then obtain t where "evaluate_decision (en_parse E) G node c2 = Inr t"
      using evaluate_decision_cases[where parse = "en_parse E" and G = G and node = node and c = c2] edge(1)
      by (cases "evaluate_decision (en_parse E) G node c2") auto
    moreover have "\<not> MAX_WORKFLOW_STEPS \<le> ac_step_count c2" using at low by simp
    moreover have "sg_get_node G (ac_current_node c2) = Some node" using at node by simp
    ultimately show False using last node(2) by (simp add: engine_round_def decision_step_def)
  qed
  have "seq (db_call E) (\<lambda>_. db_call E) (?c, w) = (Inr (), (?c, w\<lparr>wo_calls := wo_calls w + 2\<rparr>))"
    using start by (simp add: seq_def db_call_def)
  then show ?thesis using none by (simp add: run_def run_internal_def)
qed

definition loop_graph :: state_graph where
  "loop_graph = snd (try_add_edge (lit ''d'') (lit ''d'') None 1
     (snd (try_add_node (lit ''d'') (lit ''decide'') Decision None state_graph_new)))"

lemma loop_graph_node:
  "sg_get_node loop_graph (lit ''d'')
     = Some \<lparr>an_id = lit ''d'', an_description = lit ''decide'', an_node_type = Decision, an_handler = None\<rparr>"
  by code_simp

lemma loop_graph_edges:
  "out_edges loop_graph (lit ''d'') = [\<lparr>we_from = lit ''d'', we_to = lit ''d'', we_condition = None, we_priority = 1\<rparr>]"
  by code_simp

theorem decision_loop_never_returns_witness:
  "run demo_engine loop_graph (demo_context\<lparr>ac_current_node := lit ''d''\<rparr>, demo_world) = None"
proof (rule decision_loop_never_returns[where
      e = "\<lparr>we_from = lit ''d'', we_to = lit ''d'', we_condition = None, we_priority = 1\<rparr>"])
  show "sg_get_node loop_graph (ac_current_node (demo_context\<lparr>ac_current_node := lit ''d''\<rparr>))
     = Some \<lparr>an_id = lit ''d'', an_description = lit ''decide'', an_node_type = Decision, an_handler = None\<rparr>"
    by (simp add: loop_graph_node)
  show "ac_step_count (demo_context\<lparr>ac_current_node := lit ''d''\<rparr>) < MAX_WORKFLOW_STEPS" by code_simp
qed (simp_all add: loop_graph_edges demo_engine_def)

section \<open>Failures\<close>

text \<open>
  A dead end after a step that was logged: the failure has the key of the step's own entry, so the run
  reports a conflict of the audit log and not the dead end.
\<close>

lemma dead_end_reported_as_conflict:
  assumes "resolve_next_node G (ac_current_node c) (sr_next_edge x) = Inl err"
    and "map_of (wo_audit w) (audit_key (ac_task_id c) (ac_step_count c)) = Some entry"
    and "validate_task_id (ac_task_id c) = Inr ()" "validate_node_id (ac_current_node c) = Inr ()"
    and "validate_audit_payload_and_error E JNull (Some err) = Inr ()"
    and "en_fault E (wo_calls w) = None" "en_fault E (wo_calls w + 1) = None"
  shows "fst (advance_node E G x (c, w)) = Inl (Conflict ''Key already exists in collection KV store'')"
  using assms
  by (simp add: advance_node_def fail_with_def audit_log_failure_def last_tx_id_def audit_append_def seq_def ret_def
      lift_def db_call_def raise_def)

text \<open>
  A retry asks for free tokens although the reservation of the step is still held: when the
  reservation took all that was left, a retriable tool is not tried again.
\<close>

lemma retry_refused_when_reservation_took_all:
  assumes "reserve_tokens (en_scale E) est B = (Inr est, ac_budget c)" "tokens_available (en_scale E) B = est"
    and "0 < attempt"
  shows "fst (retry_loop E t node tx est input mx (Suc left) attempt res (c, w))
    = Inl (MemoryBudgetExceeded (tk_consumed (ac_budget c)) (tk_limit (ac_budget c)))"
proof -
  have B: "ac_budget c = consume_tokens est B"
    using assms(1) by (simp add: reserve_tokens_def Let_def split: if_splits)
  have "unat (tk_consumed (ac_budget c)) = unat (tk_consumed B) + unat est"
    by (rule reserve_tokens_ok(3)[OF assms(1)])
  moreover have "effective_limit (en_scale E) (ac_budget c) = effective_limit (en_scale E) B"
    "tk_reserved (ac_budget c) = tk_reserved B"
    by (simp_all add: B consume_tokens_def effective_limit_def split: budget_strategy.split)
  moreover have "unat (tokens_available (en_scale E) B) = unat est" using assms(2) by simp
  ultimately have "unat (tokens_available (en_scale E) (ac_budget c)) = 0"
    by (simp add: tokens_available_def unat_sat_sub)
  then have "tokens_available (en_scale E) (ac_budget c) = 0" by (simp add: unat_eq_0)
  then show ?thesis using assms(3) by simp
qed

text \<open>
  A task id is valid up to 256 bytes, but the name of a checkpoint, which contains it, only up to 256 characters: with a
  task id that is too long no step ever starts.
\<close>

lemma long_task_id_never_starts:
  assumes "256 < length (checkpoint_name c)" "\<forall>n. en_fault E n = None"
  shows "\<exists>msg. fst (task_step E G node (c, w)) = Inl (InvalidInput msg)"
proof -
  have "\<exists>msg. validate_identifier (checkpoint_name c) = Inl (InvalidInput msg)"
    using assms(1) by (simp add: validate_identifier_def)
  then show ?thesis using assms(2)
    by (auto simp: task_step_def checkpoint_def seq_def db_call_def last_tx_id_def ret_def lift_def)
qed

end
