(* ===== verification/Spec2Isabelle.thy ===== *)
theory Spec2Isabelle
  imports Snapshot_Registry Seq_Log Tx_Buffer Mem_Table Sstable_Roundtrip Block_Cache Tenant_Codec Kv_Locks Manifest_Log Compaction_Run Lsm_Crash Lsm_Scan Prefix_Store Posting_List Hyper_Cascade Session_Dag Agent_Run
begin

text \<open>
  Verification of the storage core of Contextra, an embedded memory database for agents.

  \<^bold>\<open>The program.\<close> Contextra is a Rust workspace (\<open>src/crates\<close>). Its transactional core is in four
  crates: \<open>contextra-types\<close> (identifiers, tombstones, budgets), \<open>contextra-mvcc\<close> (sequence log,
  snapshot registry, transaction buffer), \<open>contextra-store\<close> (an LSM tree: write-ahead log,
  memtables, SSTables with bloom filters and a block cache, manifest, compaction, engine) and the
  hash chain of \<open>contextra-crypto\<close>. A write is staged in the transaction buffer; a commit numbers
  the operations of its transaction, chains and appends them to the write-ahead log and applies
  them to the memtable; a full memtable is flushed to an SSTable, which the manifest records;
  compaction merges SSTables below the bound the snapshot registry keeps; a start replays the logs.
  The other crates (indexes, ranking, agents, servers) are clients of this core; of them the
  prefix cache of \<open>contextra-kvcache\<close>, the posting lists of \<open>contextra-text\<close>, the hyperedges and
  session tree of \<open>contextra-graph\<close>, the checkpoint store of \<open>contextra-checkpoint\<close> and the workflow
  engine of \<open>contextra-agent\<close> are modelled.

  \<^bold>\<open>Theories and sources.\<close> Each theory states its sources at its head; paths below are relative to
  \<open>src/crates\<close>.

  \<^item> \<open>Prelude\<close>: results with errors (\<open>res\<close>, \<open>rbind\<close>), sorted association lists for \<open>BTreeMap\<close>
    (\<open>bt_insert\<close>, \<open>bt_wf\<close>), little-endian codecs, binary search, and the lemmas the components share;
    \<open>Types\<close>: \<open>contextra-types\<close> (tombstone bit, transaction ranges, errors).
  \<^item> \<open>Seq_Log\<close>, \<open>Snapshot_Registry\<close>, \<open>Tx_Buffer\<close>: \<open>contextra-mvcc/src/{seq_log,snapshot,tx_buffer}.rs\<close>.
  \<^item> \<open>Budget\<close>: \<open>contextra-types/src/types/budget.rs\<close>.
  \<^item> \<open>Mem_Table\<close>: \<open>contextra-store/src/memtable.rs\<close>.
  \<^item> \<open>Bloom_Filter\<close>, \<open>Block_Format\<close>, \<open>Sstable\<close>, \<open>Sstable_Reads\<close>, \<open>Sstable_Roundtrip\<close>, \<open>Block_Cache\<close>:
    \<open>contextra-store/src/sstable\<close>; \<open>Key_Manager\<close> is the interface of the cipher.
  \<^item> \<open>Text_Codec\<close>, \<open>Tenant_Codec\<close>, \<open>Kv_Locks\<close>: \<open>contextra-store/src/{tenant_codec,kv_locks}.rs\<close>.
  \<^item> \<open>Manifest_Log\<close>: \<open>contextra-store/src/manifest\<close>; \<open>Compaction\<close>, \<open>Compaction_Run\<close>:
    \<open>contextra-store/src/compaction\<close>.
  \<^item> \<open>Wal_Codec\<close>, \<open>Wal_Log\<close>, \<open>Wal_Recovery\<close>: \<open>contextra-store/src/wal\<close> and
    \<open>contextra-crypto/src/wal_crypto.rs\<close>.
  \<^item> \<open>Lsm_Store\<close>, \<open>Lsm_Commit\<close>, \<open>Lsm_Recovery\<close>: the engine, \<open>contextra-store/src/lsm\<close> (staging, reads,
    flush; commit; start and rollback) and \<open>Lsm_Scan\<close> (scans); \<open>Lsm_Reads\<close>, \<open>Lsm_Crash\<close> and
    \<open>Lsm_Scan\<close> prove what they promise together.
  \<^item> \<open>Radix_Tree\<close>, \<open>Prefix_Store\<close>: \<open>contextra-kvcache/src/{radix,prefix_store}.rs\<close> with the block types
    of \<open>contextra-ports/src/kv.rs\<close>.
  \<^item> \<open>Posting_List\<close>: \<open>contextra-text/src/posting_list.rs\<close>.
  \<^item> \<open>Hyper_Graph\<close>, \<open>Hyper_Cascade\<close>: \<open>contextra-graph/src/{hyperedge,cascade}.rs\<close> and the hyperedge
    operations of \<open>contextra-graph/src/csr\<close>; \<open>Session_Dag\<close>: \<open>contextra-graph/src/session_dag.rs\<close>.
  \<^item> \<open>Actions\<close>: calls that pass a state on and may fail; \<open>Rust_Text\<close>: strings and JSON values.
  \<^item> \<open>Checkpoint_Store\<close>: \<open>contextra-checkpoint/src/{store,manifest,meta}.rs\<close>, with a fault possible at
    every call of the storage, before or after it took effect, and an engine that may hide flushed documents from \<open>get\<close>.
  \<^item> \<open>Agent_Graph\<close>, \<open>Agent_Engine\<close>, \<open>Agent_Run\<close>: \<open>contextra-agent/src\<close> (context, graph and conditions;
    the parts of a step and the loop of \<open>engine.rs\<close>; whole runs). Tools and the answers of the database
    are fields of the record \<open>engine\<close>.

  State is a \<open>record\<close> per struct, a file is the list of its bytes, an error is the left side of a
  sum, machine integers are words, time is an argument. An operation that holds a lock for its
  whole run is one step; \<open>Kv_Locks\<close> keeps the interleaving of threads because its correctness is
  about it. Parameters stand for code outside the repository: CRC-32, BLAKE3, HMAC, the cipher (a key manager
  with the law that decryption inverts encryption), the \<open>lru\<close> crate, hashers, floating-point
  scaling. Laws of a parameter are named hypotheses (\<open>km_opt_lawful\<close>, \<open>km_wal\<close>, \<open>hash_32\<close>,
  \<open>key_ok\<close>), and a witness of every property instantiates them.

  \<^bold>\<open>What is proved.\<close>

  \<^item> Engine: commits on a new log are durable and atomic across a crash, where a cut inside the first batch can
    make recovery fail (C1); a flush is invisible to reads that see all puts of their key (C2), not to reads below the
    newest put (\<open>flush_loses_older_versions\<close>) nor to those of internal transactions
    (\<open>flush_hides_internal_writes\<close>); scans over all layers are exact (C3), and following page cursors ends with the
    whole scan or, above 100000 keys, fails at once (C4).
  \<^item> Write-ahead log: round trip, cuts at any byte, repair after failed appends (not of the first entry of a log), the hash chain
    (C5--C8), and the batch a torn tail hides (\<open>torn_tail_hides_next_batch\<close>).
  \<^item> Compaction: the merge equals its reference (C9), the merged table answers point reads for its inputs when
    no snapshot is active (C10), a run that fails, also in the middle of writing the manifest, loses no table (C11), list and
    manifest stay in agreement (C12). Manifest: torn tails (C13), rollover (\<open>manifest_rollover_preserves\<close>), and the append behind a
    torn entry that makes it unreadable (\<open>append_behind_torn_entry\<close>).
  \<^item> SSTables: round trip of point reads through the bytes of the file (C14); no false negatives of
    the bloom filter (C15).
  \<^item> Memtable: snapshot reads are exact (C16).
  \<^item> MVCC: visibility refines the recorded history when the changes of each document come in order (C17;
    \<open>late_delete_misread\<close> when they do not), deltas complete a snapshot
    (\<open>changes_since_completes_snapshot\<close>), the cached
    minimum of the registry is exact (C18); bounds and key index of the buffer over all its operations, with the steps
    that part the index from the staged operations named (C19, C20).
  \<^item> Both block caches (C21, C22), deadlock freedom of the key locks (C23), tenant isolation (C24).
  \<^item> KV cache: the radix tree is the finite map its operations describe and finds the longest
    reusable prefix (C25); the prefix store stays within the budget of every tenant and its
    eviction loop ends (C26), lookups return the longest stored prefix (\<open>prefix_store_lookup_longest\<close>),
    insertions evict only the least recently used entries of their own tenant (C27).
  \<^item> Text index: the compact format of posting lists round trips and accepts no other cut of the
    bytes (C28); the resident index refines a map, with sorted lists and sound block bounds (C29).
  \<^item> Graph index: the indexes of hyperedges hold every live edge, and nothing else for ids that were not
    inserted over a live edge (C30), super edges are committed
    all or nothing (C31), the cascade over a superseded document tombstones ancestors first (C32) and
    with one drain of its queue removes exactly the edges it must (C33).
  \<^item> Session tree: the conversation is the line of descent of the head (\<open>path_to_head_is_lineage\<close>),
    a step extends it (C34), and it survives saving and loading (C35).
  \<^item> Agent workflow: a successful run has an exact account of its steps in the audit log, the step
    documents, the budget and the final document (C36); a run returns unless \<open>Decision\<close> nodes form a cycle
    (C37, and \<open>decision_loop_never_returns\<close> for the cycle); no run changes an audit entry (C38).
  \<^item> Checkpoint store: its transaction ids are unique across crashes (C39), and over all histories its
    documents are a map from names that the operations update, lookups and drops as long as the index can answer for the
    storage (C40); what happens otherwise is in \<open>same_seq_returns_other_checkpoint\<close>, \<open>reopened_store_misses_checkpoint\<close>,
    \<open>failed_create_is_listed\<close>, \<open>stale_get_revives_checkpoint\<close> and \<open>counter_name_collides\<close>.

  Interfaces are locales: the change log, staging buffers, block ciphers, cache backends, entry
  sources of the merge, layers of a read, sources of a scan, prefix indexes, unstable sorts, parent
  links, state relations that actions obey; each is interpreted on the model's definitions in the theory that provides them.

  \<^bold>\<open>Bounds.\<close> Searches and scans are total functions with measures. The merge of a compaction returns
  an option, and C9 proves that it returns; so do the
  eviction loop of the prefix store (C26), the search of the cascade (C33) and the loop of a workflow (C37). Streams are collected with the length of the file as
  fuel, which exceeds the number of entries. Sizes of files below \<open>2 ^ 64\<close> and of log batches below a
  chunk (\<open>batch_ok\<close>) are hypotheses, because the code does not check them.

  \<^bold>\<open>Not modelled.\<close> Of the core: directory handling, disk failures other than torn writes of the log and
  the manifest, task spawning, back-pressure delays, metrics
  and logging; interleavings inside a commit or a flush. Of the workspace: the segment
  store of the KV cache, the vector index, binary edges and scores of the graph index, tokenizing and scoring of the text index, event sources, replay and dead-letter
  handling of the agents, the guards of checkpoints and the file of their orphans, ranking and the adaptive controllers (floating point throughout), inference
  backends, servers and bindings, generated code and FFI.
\<close>

end
